(* ===== verification/Prelude.thy ===== *)
theory Prelude
  imports Main "HOL-Library.Word"
begin

text \<open>
  Shared vocabulary of the development.

  \<^item> \<open>kerror\<close> and \<open>kres\<close>: the ways a kernel routine can fail to return (a failed
    \<^verbatim>\<open>assert\<close>, a wild memory access, a division by zero, a loop that does not end) and the
    result type of a routine that may do so. A C error code is an ordinary value, not a \<open>kerror\<close>.
  \<^item> \<open>bindR\<close>, \<open>guardR\<close>: sequencing of such routines and the kernel's \<^verbatim>\<open>assert\<close> macro
    (\<^verbatim>\<open>debug/assert.h\<close>), which halts the machine.
  \<^item> \<open>aget\<close>, \<open>aput\<close>: bounds-checked C arrays; cells that C leaves indeterminate are \<open>None\<close>.
  \<^item> \<open>u32\<close>, \<open>s32\<close>: wrap-around of 32-bit unsigned and signed integers on \<open>nat\<close> and \<open>int\<close>.
  \<^item> \<open>ring\<close>: the contents of a circular buffer, with the lemmas every ring in the kernel shares.
  \<^item> \<open>page_provider\<close>: the contract of an allocator of whole pages, as a locale.
  \<^item> \<open>bounded_fifo\<close>: the contract of a bounded first-in first-out queue, as a locale.
\<close>

section \<open>Results of kernel routines\<close>

datatype kerror =
    Assert_failed
  | Null_deref
  | Out_of_bounds
  | Uninitialised
  | Div_by_zero
  | Bad_free
  | Hang

type_synonym 'a kres = "kerror + 'a"

named_theorems kres_simps "unfolding of the error-propagating combinators"

definition bindR :: "'a kres \<Rightarrow> ('a \<Rightarrow> 'b kres) \<Rightarrow> 'b kres" where
  "bindR m f = (case m of Inl e \<Rightarrow> Inl e | Inr x \<Rightarrow> f x)"

definition guardR :: "bool \<Rightarrow> kerror \<Rightarrow> 'a kres \<Rightarrow> 'a kres" where
  "guardR b e m = (if b then m else Inl e)"

text \<open>The kernel's \<^verbatim>\<open>assert(condition)\<close>: when the condition fails the machine is halted.\<close>

definition assertR :: "bool \<Rightarrow> 'a kres \<Rightarrow> 'a kres" where
  "assertR b m = (if b then m else Inl Assert_failed)"

lemma bindR_simps [simp, kres_simps]:
  "bindR (Inl e) f = Inl e"
  "bindR (Inr x) f = f x"
  by (simp_all add: bindR_def)

lemma bindR_Inr_iff [kres_simps]: "bindR m f = Inr y \<longleftrightarrow> (\<exists>x. m = Inr x \<and> f x = Inr y)"
  by (cases m) simp_all

lemma bindR_assoc: "bindR (bindR m f) g = bindR m (\<lambda>x. bindR (f x) g)"
  by (cases m) simp_all

lemma guardR_simps [simp, kres_simps]:
  "guardR True e m = m"
  "guardR False e m = Inl e"
  by (simp_all add: guardR_def)

lemma guardR_Inr_iff [kres_simps]: "guardR b e m = Inr y \<longleftrightarrow> b \<and> m = Inr y"
  by (simp add: guardR_def)

lemma assertR_simps [simp, kres_simps]:
  "assertR True m = m"
  "assertR False m = Inl Assert_failed"
  by (simp_all add: assertR_def)

lemma assertR_Inr_iff [kres_simps]: "assertR b m = Inr y \<longleftrightarrow> b \<and> m = Inr y"
  by (simp add: assertR_def)

lemma bindR_cong [fundef_cong]:
  "m = m' \<Longrightarrow> (\<And>x. m' = Inr x \<Longrightarrow> f x = f' x) \<Longrightarrow> bindR m f = bindR m' f'"
  by (cases m') simp_all

lemma guardR_cong [fundef_cong]:
  "b = b' \<Longrightarrow> e = e' \<Longrightarrow> (b' \<Longrightarrow> m = m') \<Longrightarrow> guardR b e m = guardR b' e' m'"
  by (simp add: guardR_def)

lemma assertR_cong [fundef_cong]:
  "b = b' \<Longrightarrow> (b' \<Longrightarrow> m = m') \<Longrightarrow> assertR b m = assertR b' m'"
  by (simp add: assertR_def)

section \<open>Arrays\<close>

text \<open>
  A C array is a list; an access outside it is \<open>Out_of_bounds\<close>. An array that
  \<^verbatim>\<open>kmalloc\<close> has just returned holds indeterminate values: its cells are \<open>None\<close>, and
  reading one before it was written is \<open>Uninitialised\<close>.
\<close>

definition aget :: "'a list \<Rightarrow> nat \<Rightarrow> 'a kres" where
  "aget xs i = (if i < length xs then Inr (xs ! i) else Inl Out_of_bounds)"

definition aput :: "'a list \<Rightarrow> nat \<Rightarrow> 'a \<Rightarrow> 'a list kres" where
  "aput xs i v = (if i < length xs then Inr (xs[i := v]) else Inl Out_of_bounds)"

definition cget :: "'a option list \<Rightarrow> nat \<Rightarrow> 'a kres" where
  "cget xs i =
     (if i < length xs
      then (case xs ! i of None \<Rightarrow> Inl Uninitialised | Some v \<Rightarrow> Inr v)
      else Inl Out_of_bounds)"

lemma aget_Inr [simp]: "i < length xs \<Longrightarrow> aget xs i = Inr (xs ! i)"
  by (simp add: aget_def)

lemma aget_Inr_iff [kres_simps]: "aget xs i = Inr v \<longleftrightarrow> i < length xs \<and> xs ! i = v"
  by (simp add: aget_def)

lemma aput_Inr [simp]: "i < length xs \<Longrightarrow> aput xs i v = Inr (xs[i := v])"
  by (simp add: aput_def)

lemma aput_Inr_iff [kres_simps]: "aput xs i v = Inr ys \<longleftrightarrow> i < length xs \<and> ys = xs[i := v]"
  by (auto simp: aput_def)

lemma cget_Inr [simp]: "i < length xs \<Longrightarrow> xs ! i = Some v \<Longrightarrow> cget xs i = Inr v"
  by (simp add: cget_def)

lemma cget_Inr_iff [kres_simps]: "cget xs i = Inr v \<longleftrightarrow> i < length xs \<and> xs ! i = Some v"
  by (auto simp: cget_def split: option.splits)

lemma list_all_update: "list_all P xs \<Longrightarrow> P x \<Longrightarrow> list_all P (xs[i := x])"
  by (auto simp: list_all_iff dest!: set_update_subset_insert [THEN subsetD])

lemma in_set_tl: "x \<in> set (tl xs) \<Longrightarrow> x \<in> set xs"
  by (cases xs) simp_all

section \<open>Pointers\<close>

text \<open>A C pointer that may be null: address 0 is \<open>None\<close>.\<close>

definition ptr_of :: "nat \<Rightarrow> nat option" where
  "ptr_of a = (if a = 0 then None else Some a)"

lemma ptr_of_simps [simp]: "ptr_of 0 = None" "0 < a \<Longrightarrow> ptr_of a = Some a"
  by (simp_all add: ptr_of_def)

section \<open>Machine integers\<close>

text \<open>Unsigned 32-bit arithmetic on \<open>nat\<close>: every result is reduced by \<open>u32\<close>.\<close>

definition u32 :: "nat \<Rightarrow> nat" where
  "u32 n = n mod 2 ^ 32"

lemma u32_small [simp]: "n < 4294967296 \<Longrightarrow> u32 n = n"
  by (simp add: u32_def)

lemma u32_less: "u32 n < 4294967296"
  by (simp add: u32_def)

text \<open>
  Signed 32-bit arithmetic on \<open>int\<close>. The kernel is built with \<^verbatim>\<open>-O0\<close>, where the
  compiled code wraps in two's complement.
\<close>

definition s32 :: "int \<Rightarrow> int" where
  "s32 x = (x + 2 ^ 31) mod 2 ^ 32 - 2 ^ 31"

lemma s32_small [simp]: "- (2 ^ 31) \<le> x \<Longrightarrow> x < 2 ^ 31 \<Longrightarrow> s32 x = x"
  by (simp add: s32_def)

lemma s32_range: "- (2 ^ 31) \<le> s32 x" "s32 x < 2 ^ 31"
proof -
  have "0 \<le> (x + 2 ^ 31) mod 2 ^ 32" "(x + 2 ^ 31) mod 2 ^ 32 < 2 ^ 32"
    by simp_all
  then show "- (2 ^ 31) \<le> s32 x" "s32 x < 2 ^ 31"
    unfolding s32_def by simp_all
qed

section \<open>Circular buffers\<close>

text \<open>The \<open>n\<close> elements of a circular buffer that start at index \<open>start\<close>.\<close>

definition ring :: "'a list \<Rightarrow> nat \<Rightarrow> nat \<Rightarrow> 'a list" where
  "ring xs start n = map (\<lambda>i. xs ! ((start + i) mod length xs)) [0..<n]"

lemma length_ring [simp]: "length (ring xs start n) = n"
  by (simp add: ring_def)

lemma ring_0 [simp]: "ring xs start 0 = []"
  by (simp add: ring_def)

lemma nth_ring [simp]: "i < n \<Longrightarrow> ring xs start n ! i = xs ! ((start + i) mod length xs)"
  by (simp add: ring_def)

lemma add_mod_le:
  fixes a i j n :: nat
  assumes "i \<le> j" and "j < n" and "(a + i) mod n = (a + j) mod n"
  shows "i = j"
proof -
  from assms have "n dvd (a + j) - (a + i)"
    using mod_eq_dvd_iff_nat [of "a + i" "a + j" n] by simp
  then have "n dvd j - i" by simp
  with assms(1,2) show ?thesis
    by (metis diff_is_0_eq dvd_imp_le gr_zeroI le_antisym less_imp_diff_less not_le)
qed

lemma add_mod_distinct:
  fixes a i j n :: nat
  assumes "i < n" and "j < n" and "(a + i) mod n = (a + j) mod n"
  shows "i = j"
  using add_mod_le [of i j n a] add_mod_le [of j i n a] assms by (metis nat_le_linear)

lemma ring_snoc:
  assumes "n < length xs"
  shows "ring (xs[(start + n) mod length xs := x]) start (Suc n) = ring xs start n @ [x]"
proof (rule nth_equalityI)
  show "length (ring (xs[(start + n) mod length xs := x]) start (Suc n))
      = length (ring xs start n @ [x])" by simp
next
  fix i
  assume "i < length (ring (xs[(start + n) mod length xs := x]) start (Suc n))"
  then have i: "i < Suc n" by simp
  have len: "0 < length xs" using assms by (cases xs) auto
  show "ring (xs[(start + n) mod length xs := x]) start (Suc n) ! i
      = (ring xs start n @ [x]) ! i"
  proof (cases "i = n")
    case True
    with len show ?thesis by (simp add: nth_append)
  next
    case False
    with i have "i < n" by simp
    with assms have "(start + i) mod length xs \<noteq> (start + n) mod length xs"
      using add_mod_distinct [of i "length xs" n start] by auto
    with \<open>i < n\<close> len show ?thesis by (simp add: nth_append)
  qed
qed

lemma ring_tl:
  assumes "0 < n"
  shows "ring xs (Suc start mod length xs) (n - 1) = tl (ring xs start n)"
proof (rule nth_equalityI)
  show "length (ring xs (Suc start mod length xs) (n - 1)) = length (tl (ring xs start n))"
    by simp
next
  fix i
  assume "i < length (ring xs (Suc start mod length xs) (n - 1))"
  then have i: "i < n - 1" by simp
  then have "tl (ring xs start n) ! i = ring xs start n ! Suc i"
    by (simp add: nth_tl)
  with i show "ring xs (Suc start mod length xs) (n - 1) ! i = tl (ring xs start n) ! i"
    by (simp add: mod_add_left_eq)
qed

lemma hd_ring: "0 < n \<Longrightarrow> start < length xs \<Longrightarrow> hd (ring xs start n) = xs ! start"
  by (simp add: hd_conv_nth flip: length_0_conv)

lemma ring_linear: "n \<le> length xs \<Longrightarrow> ring xs 0 n = take n xs"
  by (rule nth_equalityI) simp_all

lemma ring_Nil_iff [simp]: "ring xs start n = [] \<longleftrightarrow> n = 0"
  by (metis length_0_conv length_ring)

section \<open>The contract of a provider of pages\<close>

text \<open>
  What an allocator that hands out whole pages promises its clients (\<^verbatim>\<open>liballoc_alloc\<close>,
  \<^verbatim>\<open>liballoc_free\<close>): it always returns, a grant is an aligned, non-null run of pages that
  nobody held, and a release gives back exactly the run that was granted. \<open>owned\<close> is the set of
  bytes that are currently handed out.
\<close>

definition bytes :: "nat \<Rightarrow> nat \<Rightarrow> nat set" where
  "bytes a n = {a..<a + n}"

locale page_provider =
  fixes page_alloc :: "nat \<Rightarrow> 's \<Rightarrow> (nat option \<times> 's) kres"
    and page_free :: "nat \<Rightarrow> nat \<Rightarrow> 's \<Rightarrow> 's kres"
    and pages_ok :: "'s \<Rightarrow> bool"
    and owned :: "'s \<Rightarrow> nat set"
  assumes page_alloc_total:
      "pages_ok s \<Longrightarrow> 0 < n \<Longrightarrow> \<exists>r s'. page_alloc n s = Inr (r, s') \<and> pages_ok s'"
    and page_alloc_None: "pages_ok s \<Longrightarrow> 0 < n \<Longrightarrow> page_alloc n s = Inr (None, s') \<Longrightarrow> s' = s"
    and page_alloc_Some:
      "pages_ok s \<Longrightarrow> 0 < n \<Longrightarrow> page_alloc n s = Inr (Some a, s') \<Longrightarrow>
         0 < a \<and> a mod 4096 = 0 \<and> a + n * 4096 \<le> 4294967296
         \<and> bytes a (n * 4096) \<inter> owned s = {} \<and> owned s' = owned s \<union> bytes a (n * 4096)"
    and page_free_owned:
      "pages_ok s \<Longrightarrow> 0 < n \<Longrightarrow> 0 < a \<Longrightarrow> a mod 4096 = 0 \<Longrightarrow> bytes a (n * 4096) \<subseteq> owned s \<Longrightarrow>
         \<exists>s'. page_free n a s = Inr s' \<and> pages_ok s' \<and> owned s' = owned s - bytes a (n * 4096)"

section \<open>The contract of a bounded queue\<close>

text \<open>
  Several components keep a bounded first-in first-out queue (the integer queue, the garbage
  collector's work list, the scheduler's fast queue). Their contract: an accepted element goes to
  the end, a refusal means that the queue was full, the front is the oldest element and a step
  drops exactly that one.
\<close>

locale bounded_fifo =
  fixes invar :: "'q \<Rightarrow> bool"
    and contents :: "'q \<Rightarrow> 'a list"
    and capacity :: "'q \<Rightarrow> nat"
    and enq :: "'a \<Rightarrow> 'q \<Rightarrow> 'q option"
    and front :: "'q \<Rightarrow> 'a option"
    and deq :: "'q \<Rightarrow> 'q"
  assumes enq_invar: "invar q \<Longrightarrow> enq x q = Some q' \<Longrightarrow> invar q'"
    and enq_contents: "invar q \<Longrightarrow> enq x q = Some q' \<Longrightarrow> contents q' = contents q @ [x]"
    and enq_capacity: "invar q \<Longrightarrow> enq x q = Some q' \<Longrightarrow> capacity q' = capacity q"
    and enq_refused: "invar q \<Longrightarrow> enq x q = None \<longleftrightarrow> length (contents q) = capacity q"
    and bounded: "invar q \<Longrightarrow> length (contents q) \<le> capacity q"
    and front_contents:
      "invar q \<Longrightarrow> front q = (if contents q = [] then None else Some (hd (contents q)))"
    and deq_invar: "invar q \<Longrightarrow> contents q \<noteq> [] \<Longrightarrow> invar (deq q)"
    and deq_contents: "invar q \<Longrightarrow> contents q \<noteq> [] \<Longrightarrow> contents (deq q) = tl (contents q)"
    and deq_capacity: "invar q \<Longrightarrow> contents q \<noteq> [] \<Longrightarrow> capacity (deq q) = capacity q"
begin

text \<open>Enqueue a list, stopping at the first refusal; dequeue \<open>n\<close> elements.\<close>

fun enq_all :: "'a list \<Rightarrow> 'q \<Rightarrow> 'q option" where
  "enq_all [] q = Some q"
| "enq_all (x # xs) q = (case enq x q of None \<Rightarrow> None | Some q' \<Rightarrow> enq_all xs q')"

fun deq_many :: "nat \<Rightarrow> 'q \<Rightarrow> 'a list \<times> 'q" where
  "deq_many 0 q = ([], q)"
| "deq_many (Suc n) q =
     (case front q of
        None \<Rightarrow> ([], q)
      | Some x \<Rightarrow> (let (xs, q') = deq_many n (deq q) in (x # xs, q')))"

lemma enq_all_accepts:
  "invar q \<Longrightarrow> length (contents q) + length xs \<le> capacity q \<Longrightarrow>
     \<exists>q'. enq_all xs q = Some q' \<and> invar q' \<and> contents q' = contents q @ xs
        \<and> capacity q' = capacity q"
proof (induction xs arbitrary: q)
  case Nil
  then show ?case by simp
next
  case (Cons x xs)
  from Cons.prems have "enq x q \<noteq> None"
    using enq_refused [of q x] by auto
  then obtain q1 where q1: "enq x q = Some q1" by auto
  with Cons.prems(1) have p: "invar q1" "contents q1 = contents q @ [x]" "capacity q1 = capacity q"
    by (auto dest: enq_invar enq_contents enq_capacity)
  with Cons.prems(2) Cons.IH [OF p(1)] q1 show ?case by simp
qed

lemma deq_many_contents:
  "invar q \<Longrightarrow> n \<le> length (contents q) \<Longrightarrow>
     \<exists>q'. deq_many n q = (take n (contents q), q') \<and> invar q' \<and> contents q' = drop n (contents q)"
proof (induction n arbitrary: q)
  case 0
  then show ?case by simp
next
  case (Suc n)
  then have ne: "contents q \<noteq> []" by auto
  with Suc.prems(1) have f: "front q = Some (hd (contents q))"
    by (simp add: front_contents)
  have d: "invar (deq q)" "contents (deq q) = tl (contents q)"
    using Suc.prems(1) ne by (auto intro: deq_invar deq_contents)
  have "n \<le> length (contents (deq q))" using Suc.prems(2) d(2) by simp
  from Suc.IH [OF d(1) this] obtain q' where
    "deq_many n (deq q) = (take n (contents (deq q)), q')" "invar q'"
    "contents q' = drop n (contents (deq q))" by blast
  with f d(2) ne show ?case by (cases "contents q") auto
qed

text \<open>Whatever fits is delivered in the order in which it was sent.\<close>

lemma fifo_order:
  assumes "invar q" and "contents q = []" and "length xs \<le> capacity q"
  shows "\<exists>q' q''. enq_all xs q = Some q' \<and> deq_many (length xs) q' = (xs, q'')
           \<and> contents q'' = []"
proof -
  from enq_all_accepts [OF assms(1), of xs] assms(2,3) obtain q' where
    q': "enq_all xs q = Some q'" "invar q'" "contents q' = xs" by auto
  from deq_many_contents [OF q'(2), of "length xs"] q' show ?thesis by auto
qed

end

end
