(* ===== verification/Physmem.thy ===== *)
theory Physmem
  imports Prelude
begin

unbundle bit_operations_syntax

text \<open>
  The physical page allocator (\<^verbatim>\<open>kernel/mm/physmem.c\<close>): a bitmap with one bit per page, a
  count of free pages and the position after the last allocation, from which the next search
  starts. The bitmap is the array of 32-bit words of the source and is read and written through
  its \<^verbatim>\<open>ISSET\<close>, \<^verbatim>\<open>SET\<close> and \<^verbatim>\<open>UNSET\<close> macros; an access beyond the array is
  \<open>Out_of_bounds\<close>. The file's globals are one record; its spinlock is held for the whole of each
  operation, so the operations are single steps.

  \<open>used\<close> is the abstract view: the predicate of pages whose bit is set. The lemmas show that an
  allocation returns pages that were free and takes exactly those, that a release gives exactly
  its pages back, and that the free-page counter counts the clear bits.
\<close>

section \<open>State and bit macros\<close>

definition PAGE_SIZE :: nat where "PAGE_SIZE = 4096"

definition BLOCK_BITS :: nat where "BLOCK_BITS = 32"

record physmem =
  memory_bitmap :: "32 word list"
  memory_pages :: nat
  memory_offset :: nat
  s_freePages :: int
  s_lastPage :: nat

definition ISSET :: "physmem \<Rightarrow> nat \<Rightarrow> bool kres" where
  "ISSET p page =
     bindR (aget (memory_bitmap p) (page div BLOCK_BITS)) (\<lambda>w.
     Inr ((w AND push_bit (page mod BLOCK_BITS) 1) \<noteq> 0))"

text \<open>\<^verbatim>\<open>atomic_bitset\<close> and \<^verbatim>\<open>atomic_bitclear\<close> return the previous value of the bit.\<close>

definition SET :: "physmem \<Rightarrow> nat \<Rightarrow> (int \<times> physmem) kres" where
  "SET p page =
     bindR (ISSET p page) (\<lambda>old.
     bindR (aget (memory_bitmap p) (page div BLOCK_BITS)) (\<lambda>w.
     bindR (aput (memory_bitmap p) (page div BLOCK_BITS)
              (w OR push_bit (page mod BLOCK_BITS) 1)) (\<lambda>bm.
     Inr (if old then 1 else 0, p\<lparr>memory_bitmap := bm\<rparr>))))"

definition UNSET :: "physmem \<Rightarrow> nat \<Rightarrow> (int \<times> physmem) kres" where
  "UNSET p page =
     bindR (ISSET p page) (\<lambda>old.
     bindR (aget (memory_bitmap p) (page div BLOCK_BITS)) (\<lambda>w.
     bindR (aput (memory_bitmap p) (page div BLOCK_BITS)
              (w AND NOT (push_bit (page mod BLOCK_BITS) 1))) (\<lambda>bm.
     Inr (if old then 1 else 0, p\<lparr>memory_bitmap := bm\<rparr>))))"

section \<open>Allocation\<close>

text \<open>
  The inner loop of \<^verbatim>\<open>memory_multiple_alloc\<close>: the first \<open>j\<close> with page \<open>block + j\<close> taken,
  if there is one among the \<open>k\<close> pages from \<open>j\<close> on.
\<close>

fun scan_run :: "physmem \<Rightarrow> nat \<Rightarrow> nat \<Rightarrow> nat \<Rightarrow> nat option kres" where
  "scan_run p block j 0 = Inr None"
| "scan_run p block j (Suc k) =
     bindR (ISSET p (block + j)) (\<lambda>b. if b then Inr (Some j) else scan_run p block (Suc j) k)"

text \<open>
  The outer loop, with the index \<open>i\<close>: \<open>Some block\<close> when a run of free pages starts at
  \<open>block\<close>, \<open>None\<close> when the index reached \<^verbatim>\<open>memory_pages\<close>. The index jumps forward in two
  places, and with unsigned arithmetic such a jump could go backwards, so the loop has fuel and
  running out of it is \<open>Hang\<close>.
\<close>

fun scan_blocks :: "nat \<Rightarrow> physmem \<Rightarrow> nat \<Rightarrow> nat \<Rightarrow> nat option kres" where
  "scan_blocks 0 p pages i = Inl Hang"
| "scan_blocks (Suc fuel) p pages i =
     (if i < memory_pages p
      then
        (let block = (i + s_lastPage p) mod memory_pages p in
         if u32 (block + pages) > memory_pages p
         then scan_blocks fuel p pages (u32 (u32 (i + pages + (2 ^ 32 - 2)) + 1))
         else bindR (scan_run p block 0 pages) (\<lambda>r.
              case r of
                Some j \<Rightarrow> scan_blocks fuel p pages (u32 (i + j + 1))
              | None \<Rightarrow> Inr (Some block)))
      else Inr None)"

text \<open>The loop that takes the pages found.\<close>

fun take_pages :: "physmem \<Rightarrow> nat \<Rightarrow> nat \<Rightarrow> nat \<Rightarrow> physmem kres" where
  "take_pages p block i 0 = Inr p"
| "take_pages p block i (Suc k) =
     bindR (SET p (block + i)) (\<lambda>(_, p').
     take_pages (p'\<lparr>s_freePages := s_freePages p' - 1\<rparr>) block (Suc i) k)"

text \<open>The loop needs at most \<open>memory_pages\<close> rounds and a last test.\<close>

definition memory_multiple_alloc :: "physmem \<Rightarrow> nat \<Rightarrow> (nat option \<times> physmem) kres" where
  "memory_multiple_alloc p pages =
     bindR (scan_blocks (Suc (memory_pages p)) p pages 0) (\<lambda>r.
     case r of
       None \<Rightarrow> Inr (None, p)
     | Some block \<Rightarrow>
         bindR (take_pages p block 0 pages) (\<lambda>p'.
         Inr (ptr_of (u32 (block * PAGE_SIZE + memory_offset p')),
              p'\<lparr>s_lastPage := block + pages\<rparr>)))"

text \<open>
  \<^verbatim>\<open>memory_alloc\<close> compares the signed counter with the unsigned request: the counter is
  converted to unsigned.
\<close>

definition memory_alloc :: "nat \<Rightarrow> physmem \<Rightarrow> (nat option \<times> physmem) kres" where
  "memory_alloc pages p =
     assertR (pages > 0)
       (if nat (s_freePages p mod 2 ^ 32) > pages then memory_multiple_alloc p pages
        else Inr (None, p))"

section \<open>Release and bulk marking\<close>

fun free_pages :: "physmem \<Rightarrow> nat \<Rightarrow> nat \<Rightarrow> nat \<Rightarrow> physmem kres" where
  "free_pages p start i 0 = Inr p"
| "free_pages p start i (Suc k) =
     bindR (UNSET p (start + i)) (\<lambda>(tmp, p').
     assertR (tmp = 1)
       (free_pages (p'\<lparr>s_freePages := s_freePages p' + 1\<rparr>) start (Suc i) k))"

text \<open>Address differences are taken modulo \<open>2 ^ 32\<close>.\<close>

definition sub32 :: "nat \<Rightarrow> nat \<Rightarrow> nat" where
  "sub32 a b = u32 (a + 2 ^ 32 - b)"

definition memory_free :: "nat \<Rightarrow> nat \<Rightarrow> physmem \<Rightarrow> physmem kres" where
  "memory_free pages position p =
     (let pos = sub32 position (memory_offset p) in
      assertR (pos mod PAGE_SIZE = 0) (free_pages p (pos div PAGE_SIZE) 0 pages))"

fun mark_pages :: "bool \<Rightarrow> physmem \<Rightarrow> nat \<Rightarrow> nat \<Rightarrow> nat \<Rightarrow> physmem kres" where
  "mark_pages used p start i 0 = Inr p"
| "mark_pages used p start i (Suc k) =
     (if used
      then bindR (SET p (start + i)) (\<lambda>(tmp, p').
           mark_pages used (if tmp = 0 then p'\<lparr>s_freePages := s_freePages p' - 1\<rparr> else p')
             start (Suc i) k)
      else bindR (UNSET p (start + i)) (\<lambda>(tmp, p').
           mark_pages used (if tmp = 1 then p'\<lparr>s_freePages := s_freePages p' + 1\<rparr> else p')
             start (Suc i) k))"

definition page_down :: "nat \<Rightarrow> nat" where
  "page_down a = (if a mod PAGE_SIZE \<noteq> 0 then (a div PAGE_SIZE) * PAGE_SIZE else a)"

definition page_up :: "nat \<Rightarrow> nat" where
  "page_up a = (if a mod PAGE_SIZE \<noteq> 0 then u32 ((a div PAGE_SIZE + 1) * PAGE_SIZE) else a)"

text \<open>
  \<^verbatim>\<open>memory_set\<close> widens the range to whole pages when it marks them used and narrows it when it
  marks them free.
\<close>

definition memory_set :: "nat \<Rightarrow> nat \<Rightarrow> int \<Rightarrow> physmem \<Rightarrow> physmem kres" where
  "memory_set pstart pend used p =
     (let pstart' = (if used = 1 then page_down pstart else page_up pstart);
          pend' = (if used = 1 then page_up pend else page_down pend);
          start = sub32 pstart' (memory_offset p) div PAGE_SIZE;
          pages = sub32 pend' pstart' div PAGE_SIZE
      in mark_pages (used = 1) p start 0 pages)"

fun fill_blocks :: "32 word list \<Rightarrow> nat \<Rightarrow> nat \<Rightarrow> 32 word list kres" where
  "fill_blocks bm i 0 = Inr bm"
| "fill_blocks bm i (Suc k) = bindR (aput bm i (- 1)) (\<lambda>bm'. fill_blocks bm' (Suc i) k)"

fun set_tail :: "physmem \<Rightarrow> nat \<Rightarrow> nat \<Rightarrow> nat \<Rightarrow> physmem kres" where
  "set_tail p j i 0 = Inr p"
| "set_tail p j i (Suc k) = bindR (SET p (j + i)) (\<lambda>(_, p'). set_tail p' j (Suc i) k)"

text \<open>\<open>map\<close> is the memory the bitmap is placed in, with whatever it holds.\<close>

definition init_physmem :: "nat \<Rightarrow> 32 word list \<Rightarrow> nat \<Rightarrow> physmem \<Rightarrow> physmem kres" where
  "init_physmem offset mp pages p =
     assertR (s_freePages p = 0 \<and> s_lastPage p = 0) (
     let p1 = p\<lparr>memory_offset := offset, memory_bitmap := mp, memory_pages := pages\<rparr>;
         j = pages div BLOCK_BITS
     in bindR (fill_blocks (memory_bitmap p1) 0 j) (\<lambda>bm.
        bindR (set_tail (p1\<lparr>memory_bitmap := bm\<rparr>) (j * BLOCK_BITS) 0 (pages mod BLOCK_BITS)) (\<lambda>p2.
        assertR (s_freePages p2 = 0 \<and> s_lastPage p2 = 0) (Inr p2))))"

section \<open>The abstract view\<close>

definition used :: "physmem \<Rightarrow> nat \<Rightarrow> bool" where
  "used p n \<longleftrightarrow> bit (memory_bitmap p ! (n div BLOCK_BITS)) (n mod BLOCK_BITS)"

definition free_set :: "physmem \<Rightarrow> nat set" where
  "free_set p = {n. n < memory_pages p \<and> \<not> used p n}"

text \<open>What the loops leave alone.\<close>

definition cfg :: "physmem \<Rightarrow> nat \<times> nat \<times> nat \<times> nat" where
  "cfg p = (memory_pages p, memory_offset p, s_lastPage p, length (memory_bitmap p))"

definition physmem_ok :: "physmem \<Rightarrow> bool" where
  "physmem_ok p \<longleftrightarrow>
     0 < memory_pages p \<and> memory_pages p \<le> BLOCK_BITS * length (memory_bitmap p)
     \<and> memory_offset p mod PAGE_SIZE = 0
     \<and> memory_offset p + memory_pages p * PAGE_SIZE \<le> 2 ^ 32
     \<and> s_freePages p = int (card (free_set p))
     \<and> s_lastPage p \<le> memory_pages p"

text \<open>
  The boot code reserves page 0 (\<^verbatim>\<open>bootstrap_memory\<close>), so that an allocation is never
  mistaken for a null pointer.
\<close>

definition null_reserved :: "physmem \<Rightarrow> bool" where
  "null_reserved p \<longleftrightarrow> memory_offset p = 0 \<longrightarrow> used p 0"

lemma and_push_bit_1: "(w AND push_bit n (1 :: 'a::len word)) \<noteq> 0 \<longleftrightarrow> bit w n"
proof -
  have "bit (w AND push_bit n 1) m \<longleftrightarrow> bit w n \<and> m = n" for m
    by (auto simp: bit_and_iff bit_exp_iff dest: bit_imp_le_length)
  then show ?thesis
    by (metis bit_0_eq bit_eq_iff bot_apply bot_bool_def)
qed

lemma in_bitmap:
  "n < BLOCK_BITS * length xs \<Longrightarrow> n div BLOCK_BITS < length xs"
  by (simp add: BLOCK_BITS_def less_mult_imp_div_less mult.commute)

lemma ISSET_ok:
  "n < BLOCK_BITS * length (memory_bitmap p) \<Longrightarrow> ISSET p n = Inr (used p n)"
  using and_push_bit_1 [of "memory_bitmap p ! (n div BLOCK_BITS)" "n mod BLOCK_BITS"]
  by (simp add: ISSET_def in_bitmap used_def)

lemma SET_ok:
  assumes "n < BLOCK_BITS * length (memory_bitmap p)"
  shows "\<exists>p'. SET p n = Inr (if used p n then 1 else 0, p')
    \<and> used p' = (used p)(n := True)
    \<and> cfg p' = cfg p \<and> s_freePages p' = s_freePages p"
proof -
  let ?k = "n div BLOCK_BITS" and ?b = "n mod BLOCK_BITS"
  let ?bm = "(memory_bitmap p)[?k := (memory_bitmap p ! ?k) OR push_bit ?b 1]"
  have k: "?k < length (memory_bitmap p)" using assms by (rule in_bitmap)
  have run: "SET p n = Inr (if used p n then 1 else 0, p\<lparr>memory_bitmap := ?bm\<rparr>)"
    using assms k by (simp add: SET_def ISSET_ok)
  have "used (p\<lparr>memory_bitmap := ?bm\<rparr>) m = ((used p)(n := True)) m" for m
  proof (cases "m div BLOCK_BITS = ?k")
    case True
    then have "m = n \<longleftrightarrow> m mod BLOCK_BITS = ?b"
      by (metis div_mult_mod_eq)
    moreover have "?b < 32" "m mod BLOCK_BITS < 32" by (simp_all add: BLOCK_BITS_def)
    ultimately show ?thesis using True k
      by (auto simp: used_def bit_or_iff bit_exp_iff)
  next
    case False
    then show ?thesis by (auto simp: used_def)
  qed
  then have "used (p\<lparr>memory_bitmap := ?bm\<rparr>) = (used p)(n := True)" by blast
  with run show ?thesis by (force simp: cfg_def)
qed

lemma UNSET_ok:
  assumes "n < BLOCK_BITS * length (memory_bitmap p)"
  shows "\<exists>p'. UNSET p n = Inr (if used p n then 1 else 0, p')
    \<and> used p' = (used p)(n := False)
    \<and> cfg p' = cfg p \<and> s_freePages p' = s_freePages p"
proof -
  let ?k = "n div BLOCK_BITS" and ?b = "n mod BLOCK_BITS"
  let ?bm = "(memory_bitmap p)[?k := (memory_bitmap p ! ?k) AND NOT (push_bit ?b 1)]"
  have k: "?k < length (memory_bitmap p)" using assms by (rule in_bitmap)
  have run: "UNSET p n = Inr (if used p n then 1 else 0, p\<lparr>memory_bitmap := ?bm\<rparr>)"
    using assms k by (simp add: UNSET_def ISSET_ok)
  have "used (p\<lparr>memory_bitmap := ?bm\<rparr>) m = ((used p)(n := False)) m" for m
  proof (cases "m div BLOCK_BITS = ?k")
    case True
    then have "m = n \<longleftrightarrow> m mod BLOCK_BITS = ?b"
      by (metis div_mult_mod_eq)
    moreover have "?b < 32" "m mod BLOCK_BITS < 32" by (simp_all add: BLOCK_BITS_def)
    ultimately show ?thesis using True k
      by (auto simp: used_def bit_and_iff bit_not_iff bit_exp_iff)
  next
    case False
    then show ?thesis by (auto simp: used_def)
  qed
  then have "used (p\<lparr>memory_bitmap := ?bm\<rparr>) = (used p)(n := False)" by blast
  with run show ?thesis by (force simp: cfg_def)
qed

section \<open>Correctness of the loops\<close>

lemma physmem_okD:
  assumes "physmem_ok p"
  shows "0 < memory_pages p" and "memory_pages p \<le> BLOCK_BITS * length (memory_bitmap p)"
    and "memory_offset p mod PAGE_SIZE = 0"
    and "memory_offset p + memory_pages p * PAGE_SIZE \<le> 4294967296"
    and "s_freePages p = int (card (free_set p))"
    and "s_lastPage p \<le> memory_pages p" and "memory_pages p \<le> 1048576"
proof -
  show "0 < memory_pages p" "memory_pages p \<le> BLOCK_BITS * length (memory_bitmap p)"
    "memory_offset p mod PAGE_SIZE = 0" "s_freePages p = int (card (free_set p))"
    "s_lastPage p \<le> memory_pages p"
    using assms unfolding physmem_ok_def by blast+
  show "memory_offset p + memory_pages p * PAGE_SIZE \<le> 4294967296"
    using assms by (simp add: physmem_ok_def)
  then show "memory_pages p \<le> 1048576" unfolding PAGE_SIZE_def by linarith
qed

lemma finite_free_set [simp]: "finite (free_set p)"
  by (simp add: free_set_def)

lemma card_free_set_le: "card (free_set p) \<le> memory_pages p"
proof -
  have "free_set p \<subseteq> {..<memory_pages p}" by (auto simp: free_set_def)
  then show ?thesis by (metis card_lessThan card_mono finite_lessThan)
qed

lemma scan_run_ok:
  assumes "block + j + k \<le> BLOCK_BITS * length (memory_bitmap p)"
  shows "\<exists>r. scan_run p block j k = Inr r
    \<and> (case r of None \<Rightarrow> \<forall>m. j \<le> m \<and> m < j + k \<longrightarrow> \<not> used p (block + m)
       | Some m \<Rightarrow> j \<le> m \<and> m < j + k \<and> used p (block + m))"
  using assms
proof (induction k arbitrary: j)
  case 0
  then show ?case by auto
next
  case (Suc k)
  show ?case
  proof (cases "used p (block + j)")
    case True
    with Suc.prems show ?thesis by (simp add: ISSET_ok)
  next
    case False
    from Suc.prems have "block + Suc j + k \<le> BLOCK_BITS * length (memory_bitmap p)" by simp
    from Suc.IH [OF this] obtain r where r: "scan_run p block (Suc j) k = Inr r"
      "case r of None \<Rightarrow> \<forall>m. Suc j \<le> m \<and> m < Suc j + k \<longrightarrow> \<not> used p (block + m)
       | Some m \<Rightarrow> Suc j \<le> m \<and> m < Suc j + k \<and> used p (block + m)" by blast
    have "case r of None \<Rightarrow> \<forall>m. j \<le> m \<and> m < j + Suc k \<longrightarrow> \<not> used p (block + m)
       | Some m \<Rightarrow> j \<le> m \<and> m < j + Suc k \<and> used p (block + m)"
      using r(2) False
      by (auto split: option.splits) (metis Suc_leI add_Suc le_neq_implies_less)
    with r(1) False Suc.prems show ?thesis by (simp add: ISSET_ok)
  qed
qed

lemma scan_blocks_ok:
  assumes ok: "physmem_ok p" and pages: "0 < pages" "pages \<le> memory_pages p"
    and fuel: "memory_pages p - i < fuel"
  shows "\<exists>r. scan_blocks fuel p pages i = Inr r
    \<and> (\<forall>b. r = Some b \<longrightarrow> b + pages \<le> memory_pages p \<and> (\<forall>m < pages. \<not> used p (b + m)))"
  using fuel
proof (induction fuel arbitrary: i)
  case 0
  then show ?case by simp
next
  case (Suc fuel)
  note d = physmem_okD [OF ok]
  let ?n = "memory_pages p" and ?block = "(i + s_lastPage p) mod memory_pages p"
  have next_i: "?n - i' < fuel" if "i < i'" "i < ?n" for i' using Suc.prems that by simp
  have b: "?block < ?n" using d(1) by simp
  then have "?block + pages < 4294967296" using d(7) pages by linarith
  then have small: "u32 (?block + pages) = ?block + pages" by (rule u32_small)
  consider (stop) "\<not> i < ?n" | (wrap) "i < ?n" "?block + pages > ?n"
    | (run) "i < ?n" "?block + pages \<le> ?n" by linarith
  then show ?case
  proof cases
    case stop
    then show ?thesis by simp
  next
    case wrap
    then have two: "2 \<le> pages" using b by linarith
    have "u32 (i + pages + (2 ^ 32 - 2)) = i + pages - 2"
    proof -
      obtain m where m: "i + pages = m + 2" using two by (metis add.commute le_Suc_ex trans_le_add2)
      have "m < 4294967296" using m wrap(1) pages d(7) by linarith
      with m show ?thesis by (simp add: u32_def)
    qed
    then have idx: "u32 (u32 (i + pages + (2 ^ 32 - 2)) + 1) = i + pages - 1"
      using two wrap(1) pages d(7) by simp
    have "?n - (i + pages - 1) < fuel" using next_i [of "i + pages - 1"] wrap(1) two by simp
    from Suc.IH [OF this] wrap small idx show ?thesis by (simp add: Let_def)
  next
    case run
    have "?block + 0 + pages \<le> BLOCK_BITS * length (memory_bitmap p)" using run d(2) by simp
    from scan_run_ok [OF this] obtain r where r: "scan_run p ?block 0 pages = Inr r"
      "case r of None \<Rightarrow> \<forall>m. 0 \<le> m \<and> m < 0 + pages \<longrightarrow> \<not> used p (?block + m)
       | Some m \<Rightarrow> 0 \<le> m \<and> m < 0 + pages \<and> used p (?block + m)" by blast
    show ?thesis
    proof (cases r)
      case None
      with r run small show ?thesis by (simp add: Let_def)
    next
      case (Some j)
      with r(2) have "j < pages" by simp
      then have idx: "u32 (i + j + 1) = i + j + 1" using run pages d(7) by simp
      have "?n - (i + j + 1) < fuel" using next_i [of "i + j + 1"] run by simp
      from Suc.IH [OF this] Some r(1) run small idx show ?thesis by (simp add: Let_def)
    qed
  qed
qed

text \<open>With one page per request every page is looked at.\<close>

lemma scan_blocks_one:
  assumes ok: "physmem_ok p" and fuel: "memory_pages p - i < fuel"
    and miss: "scan_blocks fuel p 1 i = Inr None"
    and n: "i \<le> n" "n < memory_pages p"
  shows "used p ((n + s_lastPage p) mod memory_pages p)"
  using fuel miss n(1)
proof (induction fuel arbitrary: i)
  case 0
  then show ?case by simp
next
  case (Suc fuel)
  note d = physmem_okD [OF ok]
  let ?block = "(i + s_lastPage p) mod memory_pages p"
  have b: "?block < memory_pages p" using d(1) by simp
  have i: "i < memory_pages p" using Suc.prems(3) n(2) by simp
  have "?block + 1 < 4294967296" using d(7) b by linarith
  then have small: "u32 (?block + 1) = ?block + 1" by (rule u32_small)
  have idx: "u32 (i + 0 + 1) = i + 1" using d(7) i by simp
  have bm: "?block < BLOCK_BITS * length (memory_bitmap p)" using b d(2) by simp
  have step: "scan_blocks (Suc fuel) p 1 i =
      (if used p ?block then scan_blocks fuel p 1 (i + 1) else Inr (Some ?block))"
  proof -
    have "\<not> memory_pages p < ?block + 1" using b by linarith
    with i small bm idx show ?thesis by (simp add: Let_def ISSET_ok)
  qed
  then have u: "used p ?block" using Suc.prems(2) by (simp split: if_splits)
  show ?case
  proof (cases "n = i")
    case True
    with u show ?thesis by simp
  next
    case False
    have "scan_blocks fuel p 1 (i + 1) = Inr None"
      using Suc.prems(2) step u by simp
    moreover have "memory_pages p - (i + 1) < fuel" using Suc.prems(1) i by simp
    ultimately show ?thesis using Suc.IH [of "i + 1"] Suc.prems(3) False by simp
  qed
qed

definition set_used :: "(nat \<Rightarrow> bool) \<Rightarrow> nat \<Rightarrow> nat \<Rightarrow> bool \<Rightarrow> nat \<Rightarrow> bool" where
  "set_used u b k v n = (if b \<le> n \<and> n < b + k then v else u n)"

lemma set_used_0 [simp]: "set_used u b 0 v = u"
  by (auto simp: set_used_def fun_eq_iff)

lemma set_used_Suc: "set_used (u(b := v)) (Suc b) k v = set_used u b (Suc k) v"
  by (auto simp: set_used_def fun_eq_iff)

lemma cfg_upd [simp]: "cfg (p\<lparr>s_freePages := n\<rparr>) = cfg p"
  by (simp add: cfg_def)

lemma used_upd [simp]:
  "used (p\<lparr>s_freePages := n\<rparr>) = used p" "used (p\<lparr>s_lastPage := m\<rparr>) = used p"
  by (simp_all add: used_def fun_eq_iff)

lemma cfg_length: "cfg p' = cfg p \<Longrightarrow> length (memory_bitmap p') = length (memory_bitmap p)"
  by (simp add: cfg_def)

lemma take_pages_ok:
  assumes "block + i + k \<le> BLOCK_BITS * length (memory_bitmap p)"
  shows "\<exists>p'. take_pages p block i k = Inr p' \<and> cfg p' = cfg p
    \<and> used p' = set_used (used p) (block + i) k True
    \<and> s_freePages p' = s_freePages p - int k"
  using assms
proof (induction k arbitrary: p i)
  case 0
  then show ?case by simp
next
  case (Suc k)
  then have "block + i < BLOCK_BITS * length (memory_bitmap p)" by simp
  from SET_ok [OF this] obtain p1 where p1:
    "SET p (block + i) = Inr (if used p (block + i) then 1 else 0, p1)"
    "used p1 = (used p)(block + i := True)" "cfg p1 = cfg p" "s_freePages p1 = s_freePages p"
    by blast
  let ?p = "p1\<lparr>s_freePages := s_freePages p1 - 1\<rparr>"
  have "block + Suc i + k \<le> BLOCK_BITS * length (memory_bitmap ?p)"
    using Suc.prems cfg_length [OF p1(3)] by simp
  from Suc.IH [OF this] obtain p' where "take_pages ?p block (Suc i) k = Inr p'" "cfg p' = cfg ?p"
    "used p' = set_used (used ?p) (block + Suc i) k True"
    "s_freePages p' = s_freePages ?p - int k" by blast
  with p1 set_used_Suc [of "used p" "block + i" True k] show ?case
    by (intro exI [of _ p']) simp
qed

lemma free_pages_ok:
  assumes "start + i + k \<le> BLOCK_BITS * length (memory_bitmap p)"
    and "\<And>m. start + i \<le> m \<Longrightarrow> m < start + i + k \<Longrightarrow> used p m"
  shows "\<exists>p'. free_pages p start i k = Inr p' \<and> cfg p' = cfg p
    \<and> used p' = set_used (used p) (start + i) k False
    \<and> s_freePages p' = s_freePages p + int k"
  using assms
proof (induction k arbitrary: p i)
  case 0
  then show ?case by simp
next
  case (Suc k)
  then have "start + i < BLOCK_BITS * length (memory_bitmap p)" by simp
  from UNSET_ok [OF this] obtain p1 where p1:
    "UNSET p (start + i) = Inr (if used p (start + i) then 1 else 0, p1)"
    "used p1 = (used p)(start + i := False)" "cfg p1 = cfg p" "s_freePages p1 = s_freePages p"
    by blast
  let ?p = "p1\<lparr>s_freePages := s_freePages p1 + 1\<rparr>"
  have "start + Suc i + k \<le> BLOCK_BITS * length (memory_bitmap ?p)"
    using Suc.prems(1) cfg_length [OF p1(3)] by simp
  moreover have "used ?p m" if "start + Suc i \<le> m" "m < start + Suc i + k" for m
    using that Suc.prems(2) [of m] p1(2) by simp
  ultimately obtain p' where "free_pages ?p start (Suc i) k = Inr p'" "cfg p' = cfg ?p"
    "used p' = set_used (used ?p) (start + Suc i) k False"
    "s_freePages p' = s_freePages ?p + int k" using Suc.IH [of "Suc i" ?p] by blast
  with p1 Suc.prems(2) [of "start + i"] set_used_Suc [of "used p" "start + i" False k]
  show ?case by (intro exI [of _ p']) simp
qed

section \<open>Correctness of the operations\<close>

lemma free_set_take:
  assumes "\<And>m. m < k \<Longrightarrow> \<not> used p (b + m)" and "b + k \<le> memory_pages p"
    and "used p' = set_used (used p) b k True" and "memory_pages p' = memory_pages p"
  shows "card (free_set p') + k = card (free_set p)"
proof -
  have sub: "{b..<b + k} \<subseteq> free_set p"
    using assms(1,2) by (force simp: free_set_def le_iff_add)
  have eq: "free_set p' = free_set p - {b..<b + k}"
    using assms(3,4) by (auto simp: free_set_def set_used_def)
  have "card (free_set p - {b..<b + k}) = card (free_set p) - card {b..<b + k}"
    by (rule card_Diff_subset) (use sub in auto)
  moreover have "card {b..<b + k} \<le> card (free_set p)"
    using sub finite_free_set by (rule card_mono [rotated])
  ultimately show ?thesis using eq by simp
qed

lemma free_set_give:
  assumes "\<And>m. b \<le> m \<Longrightarrow> m < b + k \<Longrightarrow> used p m" and "b + k \<le> memory_pages p"
    and "used p' = set_used (used p) b k False" and "memory_pages p' = memory_pages p"
  shows "card (free_set p') = card (free_set p) + k"
proof -
  have eq: "free_set p' = free_set p \<union> {b..<b + k}"
    using assms(2,3,4) by (auto simp: free_set_def set_used_def)
  have "free_set p \<inter> {b..<b + k} = {}" using assms(1) by (auto simp: free_set_def)
  then show ?thesis using eq by (simp add: card_Un_disjoint)
qed

lemma page_address:
  assumes "physmem_ok p" and "b + k \<le> memory_pages p" and "0 < k"
  shows "u32 (b * PAGE_SIZE + memory_offset p) = memory_offset p + b * PAGE_SIZE"
    and "memory_offset p + (b + k) * PAGE_SIZE \<le> 4294967296"
proof -
  have "(b + k) * PAGE_SIZE \<le> memory_pages p * PAGE_SIZE" using assms(2) by (rule mult_le_mono1)
  with physmem_okD(4) [OF assms(1)]
  show le: "memory_offset p + (b + k) * PAGE_SIZE \<le> 4294967296" by linarith
  have "0 < k * PAGE_SIZE" using assms(3) by (simp add: PAGE_SIZE_def)
  with le have "memory_offset p + b * PAGE_SIZE < 4294967296"
    unfolding add_mult_distrib by linarith
  then show "u32 (b * PAGE_SIZE + memory_offset p) = memory_offset p + b * PAGE_SIZE"
    by (simp add: add.commute)
qed

text \<open>The outcome of an allocation: refused, or a run of free pages that is now taken.\<close>

definition alloc_result :: "physmem \<Rightarrow> nat \<Rightarrow> nat option \<Rightarrow> physmem \<Rightarrow> bool" where
  "alloc_result p pages r p' \<longleftrightarrow>
     (case r of
        None \<Rightarrow> p' = p
      | Some a \<Rightarrow> \<exists>b. a = memory_offset p + b * PAGE_SIZE \<and> 0 < a \<and> b + pages \<le> memory_pages p
          \<and> (\<forall>m < pages. \<not> used p (b + m)) \<and> used p' = set_used (used p) b pages True
          \<and> memory_pages p' = memory_pages p \<and> memory_offset p' = memory_offset p
          \<and> s_freePages p' = s_freePages p - int pages)"

lemma memory_alloc_result:
  assumes ok: "physmem_ok p" and nul: "null_reserved p" and pages: "0 < pages"
  shows "\<exists>r p'. memory_alloc pages p = Inr (r, p') \<and> physmem_ok p' \<and> null_reserved p'
    \<and> alloc_result p pages r p'"
proof (cases "nat (s_freePages p mod 2 ^ 32) > pages")
  case False
  with pages ok nul show ?thesis by (auto simp: memory_alloc_def alloc_result_def)
next
  case True
  note d = physmem_okD [OF ok]
  have "card (free_set p) < 4294967296" using card_free_set_le [of p] d(7) by linarith
  then have le: "pages \<le> memory_pages p" using True d(5) card_free_set_le [of p] by simp
  obtain r where r: "scan_blocks (Suc (memory_pages p)) p pages 0 = Inr r"
    "\<And>b. r = Some b \<Longrightarrow> b + pages \<le> memory_pages p \<and> (\<forall>m < pages. \<not> used p (b + m))"
    using scan_blocks_ok [OF ok pages le, of 0 "Suc (memory_pages p)"] by auto
  show ?thesis
  proof (cases r)
    case None
    with r(1) True pages ok nul show ?thesis
      by (auto simp: memory_alloc_def memory_multiple_alloc_def alloc_result_def simp del: scan_blocks.simps)
  next
    case (Some b)
    note rb = r(2) [OF Some]
    have "b + 0 + pages \<le> BLOCK_BITS * length (memory_bitmap p)" using rb d(2) by simp
    from take_pages_ok [OF this] obtain p1 where p1: "take_pages p b 0 pages = Inr p1"
      "cfg p1 = cfg p" "used p1 = set_used (used p) b pages True"
      "s_freePages p1 = s_freePages p - int pages" by auto
    let ?p' = "p1\<lparr>s_lastPage := b + pages\<rparr>"
    have fs: "card (free_set ?p') + pages = card (free_set p)"
      by (rule free_set_take [of _ _ b]) (use rb p1 in \<open>auto simp: cfg_def\<close>)
    then have "physmem_ok ?p'"
      using d p1 rb by (simp add: physmem_ok_def cfg_def)
    moreover have pos: "0 < memory_offset p + b * PAGE_SIZE"
      using nul rb pages by (cases b) (auto simp: null_reserved_def PAGE_SIZE_def)
    moreover have "memory_alloc pages p = Inr (Some (memory_offset p + b * PAGE_SIZE), ?p')"
      using True pages r(1) Some p1 page_address(1) [OF ok conjunct1 [OF rb] pages] pos
      by (simp add: memory_alloc_def memory_multiple_alloc_def cfg_def del: scan_blocks.simps)
    moreover have "alloc_result p pages (Some (memory_offset p + b * PAGE_SIZE)) ?p'"
      unfolding alloc_result_def using rb p1 pos by (auto simp: cfg_def)
    moreover have "null_reserved ?p'"
      using nul p1 by (auto simp: null_reserved_def cfg_def set_used_def)
    ultimately show ?thesis by blast
  qed
qed

lemma memory_free_result:
  assumes ok: "physmem_ok p" and b: "b + pages \<le> memory_pages p" "0 < pages"
    and u: "\<And>m. b \<le> m \<Longrightarrow> m < b + pages \<Longrightarrow> used p m"
  shows "\<exists>p'. memory_free pages (memory_offset p + b * PAGE_SIZE) p = Inr p' \<and> physmem_ok p'
    \<and> used p' = set_used (used p) b pages False \<and> cfg p' = cfg p"
proof -
  note d = physmem_okD [OF ok]
  have pos: "sub32 (memory_offset p + b * PAGE_SIZE) (memory_offset p) = b * PAGE_SIZE"
  proof -
    have "memory_offset p + b * PAGE_SIZE < 4294967296"
      using page_address(2) [OF ok b] b(2) by (simp add: PAGE_SIZE_def algebra_simps)
    then show ?thesis by (simp add: sub32_def u32_def)
  qed
  have "b + 0 + pages \<le> BLOCK_BITS * length (memory_bitmap p)" using b d(2) by simp
  from free_pages_ok [OF this] u obtain p' where p': "free_pages p b 0 pages = Inr p'"
    "cfg p' = cfg p" "used p' = set_used (used p) b pages False"
    "s_freePages p' = s_freePages p + int pages" by auto
  have "card (free_set p') = card (free_set p) + pages"
    by (rule free_set_give [of b]) (use u b p' in \<open>auto simp: cfg_def\<close>)
  then have "physmem_ok p'" using d p' by (simp add: physmem_ok_def cfg_def)
  moreover have "memory_free pages (memory_offset p + b * PAGE_SIZE) p = Inr p'"
    using pos p'(1) by (simp add: memory_free_def Let_def PAGE_SIZE_def)
  ultimately show ?thesis using p' by blast
qed

section \<open>Start-up: everything taken, then bulk marking\<close>

lemma fill_blocks_ok:
  "i + k \<le> length bm \<Longrightarrow>
   fill_blocks bm i k = Inr (take i bm @ replicate k (- 1) @ drop (i + k) bm)"
proof (induction k arbitrary: bm i)
  case 0
  then show ?case by simp
next
  case (Suc k)
  then show ?case by (simp add: take_Suc_conv_app_nth)
qed

lemma set_tail_ok:
  assumes "j + i + k \<le> BLOCK_BITS * length (memory_bitmap p)"
  shows "\<exists>p'. set_tail p j i k = Inr p' \<and> cfg p' = cfg p
    \<and> used p' = set_used (used p) (j + i) k True \<and> s_freePages p' = s_freePages p"
  using assms
proof (induction k arbitrary: p i)
  case 0
  then show ?case by simp
next
  case (Suc k)
  then have "j + i < BLOCK_BITS * length (memory_bitmap p)" by simp
  from SET_ok [OF this] obtain p1 where p1:
    "SET p (j + i) = Inr (if used p (j + i) then 1 else 0, p1)"
    "used p1 = (used p)(j + i := True)" "cfg p1 = cfg p" "s_freePages p1 = s_freePages p"
    by blast
  have "j + Suc i + k \<le> BLOCK_BITS * length (memory_bitmap p1)"
    using Suc.prems cfg_length [OF p1(3)] by simp
  from Suc.IH [OF this] obtain p' where "set_tail p1 j (Suc i) k = Inr p'" "cfg p' = cfg p1"
    "used p' = set_used (used p1) (j + Suc i) k True" "s_freePages p' = s_freePages p1" by blast
  with p1 set_used_Suc [of "used p" "j + i" True k] show ?case
    by (intro exI [of _ p']) simp
qed

lemma init_physmem_result:
  assumes fresh: "s_freePages p = 0" "s_lastPage p = 0"
    and room: "pages \<le> BLOCK_BITS * length mp"
  shows "\<exists>p'. init_physmem offset mp pages p = Inr p' \<and> memory_pages p' = pages
    \<and> memory_offset p' = offset \<and> length (memory_bitmap p') = length mp
    \<and> (\<forall>n < pages. used p' n) \<and> s_freePages p' = 0 \<and> s_lastPage p' = 0"
proof -
  let ?j = "pages div BLOCK_BITS" and ?r = "pages mod BLOCK_BITS"
  let ?bm = "replicate ?j (- 1) @ drop ?j mp"
  let ?p = "p\<lparr>memory_offset := offset, memory_pages := pages, memory_bitmap := ?bm\<rparr>"
  have split: "pages = ?j * BLOCK_BITS + ?r" by simp
  have j: "?j \<le> length mp" using room by (simp add: BLOCK_BITS_def)
  then have fill: "fill_blocks mp 0 ?j = Inr ?bm" using fill_blocks_ok [of 0 ?j mp] by simp
  have len: "length ?bm = length mp" using j by simp
  then have "?j * BLOCK_BITS + 0 + ?r \<le> BLOCK_BITS * length (memory_bitmap ?p)"
    using room split by simp
  from set_tail_ok [OF this] obtain p' where p': "set_tail ?p (?j * BLOCK_BITS) 0 ?r = Inr p'"
    "cfg p' = cfg ?p" "used p' = set_used (used ?p) (?j * BLOCK_BITS + 0) ?r True"
    "s_freePages p' = s_freePages ?p" by blast
  have "used p' n" if "n < pages" for n
  proof (cases "n < ?j * BLOCK_BITS")
    case True
    then have "n div BLOCK_BITS < ?j" by (simp add: BLOCK_BITS_def less_mult_imp_div_less)
    moreover have "n mod BLOCK_BITS < 32" by (simp add: BLOCK_BITS_def)
    ultimately have "used ?p n" by (simp add: used_def nth_append bit_minus_1_iff)
    with True show ?thesis using p'(3) by (simp add: set_used_def)
  next
    case False
    with that split p'(3) show ?thesis by (simp add: set_used_def)
  qed
  moreover have "init_physmem offset mp pages p = Inr p'"
    using fresh fill p' by (simp add: init_physmem_def Let_def cfg_def)
  ultimately show ?thesis using p' len fresh by (simp add: cfg_def)
qed

lemma init_physmem_ok:
  assumes "s_freePages p = 0" "s_lastPage p = 0" "0 < pages" "pages \<le> BLOCK_BITS * length mp"
    and "offset mod PAGE_SIZE = 0" "offset + pages * PAGE_SIZE \<le> 2 ^ 32"
    and "init_physmem offset mp pages p = Inr p'"
  shows "physmem_ok p'" and "free_set p' = {}"
proof -
  from init_physmem_result [OF assms(1,2,4), of offset] assms(7)
  have p': "memory_pages p' = pages" "memory_offset p' = offset"
    "length (memory_bitmap p') = length mp" "\<forall>n < pages. used p' n"
    "s_freePages p' = 0" "s_lastPage p' = 0" by auto
  then show fs: "free_set p' = {}" by (auto simp: free_set_def)
  show "physmem_ok p'" using p' fs assms(3-6) by (simp add: physmem_ok_def)
qed

definition counted :: "physmem \<Rightarrow> bool" where
  "counted p \<longleftrightarrow> s_freePages p = int (card (free_set p))"

lemma counted_flip:
  assumes "counted p" and n: "n < memory_pages p" and "cfg p' = cfg p"
    and u: "used p' = (used p)(n := v)"
    and f: "s_freePages p' = s_freePages p +
              (if used p n = v then 0 else if v then -1 else 1)"
  shows "counted p'"
proof -
  have fs: "free_set p' = (if v then free_set p - {n} else insert n (free_set p))"
    using u assms(3) n by (auto simp: free_set_def cfg_def)
  have mem: "n \<in> free_set p \<longleftrightarrow> \<not> used p n" using n by (simp add: free_set_def)
  show ?thesis
  proof (cases "used p n = v")
    case True
    then have "free_set p' = free_set p" using fs mem by auto
    with True f assms(1) show ?thesis by (simp add: counted_def)
  next
    case False
    show ?thesis
    proof (cases v)
      case True
      with False mem have "n \<in> free_set p" by simp
      then have "0 < card (free_set p)" by (auto simp: card_gt_0_iff)
      with True False fs f assms(1) \<open>n \<in> free_set p\<close> show ?thesis
        by (simp add: counted_def of_nat_diff)
    next
      case v: False
      with False mem have "n \<notin> free_set p" by simp
      with v False fs f assms(1) show ?thesis by (simp add: counted_def)
    qed
  qed
qed

lemma mark_pages_ok:
  assumes "start + i + k \<le> memory_pages p"
    and "memory_pages p \<le> BLOCK_BITS * length (memory_bitmap p)" and "counted p"
  shows "\<exists>p'. mark_pages v p start i k = Inr p' \<and> cfg p' = cfg p \<and> counted p'
    \<and> used p' = set_used (used p) (start + i) k v"
  using assms
proof (induction k arbitrary: p i)
  case 0
  then show ?case by simp
next
  case (Suc k)
  let ?n = "start + i" and ?old = "if used p (start + i) then 1 else 0 :: int"
  let ?F = "\<lambda>q. if v then (if ?old = 0 then q\<lparr>s_freePages := s_freePages q - 1\<rparr> else q)
               else (if ?old = 1 then q\<lparr>s_freePages := s_freePages q + 1\<rparr> else q)"
  have n: "?n < BLOCK_BITS * length (memory_bitmap p)" using Suc.prems by simp
  obtain q where q: "(if v then SET p ?n else UNSET p ?n) = Inr (?old, q)"
    "used q = (used p)(?n := v)" "cfg q = cfg p" "s_freePages q = s_freePages p"
    using SET_ok [OF n] UNSET_ok [OF n] by (cases v) auto
  have c: "cfg (?F q) = cfg p" "used (?F q) = (used p)(?n := v)" using q by auto
  have "counted (?F q)"
    by (rule counted_flip [OF Suc.prems(3), of ?n _ v]) (use Suc.prems(1) c q in auto)
  moreover have "start + Suc i + k \<le> memory_pages (?F q)"
    "memory_pages (?F q) \<le> BLOCK_BITS * length (memory_bitmap (?F q))"
    using Suc.prems(1,2) c(1) by (simp_all add: cfg_def split: if_splits)
  ultimately obtain p' where "mark_pages v (?F q) start (Suc i) k = Inr p'" "cfg p' = cfg (?F q)"
    "counted p'" "used p' = set_used (used (?F q)) (start + Suc i) k v"
    using Suc.IH [of "Suc i" "?F q"] by blast
  moreover have "mark_pages v p start i (Suc k) = mark_pages v (?F q) start (Suc i) k"
    using q(1) by (cases v) simp_all
  ultimately show ?case
    using c set_used_Suc [of "used p" ?n v k] by (intro exI [of _ p']) simp
qed

lemma SET_UNSET_out:
  assumes "BLOCK_BITS * length (memory_bitmap p) \<le> n"
  shows "SET p n = Inl Out_of_bounds" "UNSET p n = Inl Out_of_bounds"
proof -
  have "\<not> n div BLOCK_BITS < length (memory_bitmap p)"
    using assms by (simp add: BLOCK_BITS_def)
  then show "SET p n = Inl Out_of_bounds" "UNSET p n = Inl Out_of_bounds"
    by (simp_all add: SET_def UNSET_def ISSET_def aget_def)
qed

lemma mark_pages_out_of_bounds:
  "BLOCK_BITS * length (memory_bitmap p) < start + i + k \<Longrightarrow> 0 < k \<Longrightarrow>
   mark_pages v p start i k = Inl Out_of_bounds"
proof (induction k arbitrary: p i)
  case 0
  then show ?case by simp
next
  case (Suc k)
  show ?case
  proof (cases "start + i < BLOCK_BITS * length (memory_bitmap p)")
    case True
    then have k: "0 < k" using Suc.prems by simp
    from SET_ok [OF True] UNSET_ok [OF True] obtain p1 p2 where
      "SET p (start + i) = Inr (if used p (start + i) then 1 else 0, p1)" "cfg p1 = cfg p"
      "UNSET p (start + i) = Inr (if used p (start + i) then 1 else 0, p2)" "cfg p2 = cfg p"
      by blast
    then show ?thesis using k Suc.IH [of _ "Suc i"] Suc.prems
      by (cases v) (simp_all add: cfg_def)
  next
    case False
    then show ?thesis by (simp add: SET_UNSET_out)
  qed
qed

text \<open>The page boundaries \<^verbatim>\<open>memory_set\<close> works between.\<close>

definition set_lo :: "int \<Rightarrow> nat \<Rightarrow> nat" where
  "set_lo v a = (if v = 1 then page_down a else page_up a)"

definition set_hi :: "int \<Rightarrow> nat \<Rightarrow> nat" where
  "set_hi v b = (if v = 1 then page_up b else page_down b)"

lemma page_down_aligned: "page_down a mod PAGE_SIZE = 0"
  by (simp add: page_down_def)

lemma page_up_aligned: "page_up a mod PAGE_SIZE = 0"
proof (cases "a mod PAGE_SIZE = 0")
  case True
  then show ?thesis by (simp add: page_up_def)
next
  case False
  have "PAGE_SIZE dvd u32 ((a div PAGE_SIZE + 1) * PAGE_SIZE)"
    unfolding u32_def by (rule dvd_mod) (simp_all add: PAGE_SIZE_def)
  with False show ?thesis by (simp add: page_up_def)
qed

lemma set_lo_hi_aligned: "set_lo v a mod PAGE_SIZE = 0" "set_hi v b mod PAGE_SIZE = 0"
  by (simp_all add: set_lo_def set_hi_def page_down_aligned page_up_aligned)

lemma memory_set_result:
  fixes a b v
  defines "lo \<equiv> set_lo v a" and "hi \<equiv> set_hi v b"
  assumes ok: "physmem_ok p" and lo: "memory_offset p \<le> lo" and le: "lo \<le> hi"
    and top: "hi \<le> memory_offset p + memory_pages p * PAGE_SIZE" "hi < 2 ^ 32"
  shows "\<exists>p'. memory_set a b v p = Inr p' \<and> physmem_ok p'
    \<and> used p' = set_used (used p) ((lo - memory_offset p) div PAGE_SIZE)
                  ((hi - lo) div PAGE_SIZE) (v = 1)"
proof -
  note d = physmem_okD [OF ok]
  let ?s = "(lo - memory_offset p) div PAGE_SIZE" and ?k = "(hi - lo) div PAGE_SIZE"
  have s: "sub32 lo (memory_offset p) = lo - memory_offset p" "sub32 hi lo = hi - lo"
    using lo le top(2) by (simp_all add: sub32_def u32_def le_mod_geq)
  have "PAGE_SIZE dvd lo - memory_offset p" "PAGE_SIZE dvd hi - lo"
    using set_lo_hi_aligned [of v] d(3)
    by (simp_all add: dvd_diff_nat mod_0_imp_dvd lo_def hi_def)
  then have "(?s + ?k) * PAGE_SIZE = hi - memory_offset p"
    using lo le by (simp add: add_mult_distrib)
  then have "(?s + ?k) * PAGE_SIZE \<le> memory_pages p * PAGE_SIZE" using top(1) by simp
  then have "?s + 0 + ?k \<le> memory_pages p" by (simp add: PAGE_SIZE_def)
  from mark_pages_ok [OF this d(2), of "v = 1"] d(5) obtain p' where
    p': "mark_pages (v = 1) p ?s 0 ?k = Inr p'" "cfg p' = cfg p" "counted p'"
    "used p' = set_used (used p) ?s ?k (v = 1)" by (auto simp: counted_def)
  moreover have "memory_set a b v p = Inr p'"
    using p'(1) s unfolding memory_set_def Let_def set_lo_def [symmetric] set_hi_def [symmetric]
      lo_def hi_def by simp
  moreover have "physmem_ok p'" using d p'(2,3) by (simp add: physmem_ok_def cfg_def counted_def)
  ultimately show ?thesis by blast
qed

section \<open>The page allocator provides pages\<close>

text \<open>The bytes of the pages that are taken.\<close>

definition phys_owned :: "physmem \<Rightarrow> nat set" where
  "phys_owned p =
     {x. memory_offset p \<le> x \<and> x < memory_offset p + memory_pages p * PAGE_SIZE
         \<and> used p ((x - memory_offset p) div PAGE_SIZE)}"

lemma page_of_byte:
  "memory_offset p + b * PAGE_SIZE \<le> x \<and> x < memory_offset p + (b + k) * PAGE_SIZE \<longleftrightarrow>
   memory_offset p \<le> x \<and> b \<le> (x - memory_offset p) div PAGE_SIZE
     \<and> (x - memory_offset p) div PAGE_SIZE < b + k" (is "?L \<longleftrightarrow> ?R")
proof (cases "memory_offset p \<le> x")
  case True
  then obtain y where x: "x = memory_offset p + y" using le_Suc_ex by blast
  have "b * PAGE_SIZE \<le> y \<longleftrightarrow> b \<le> y div PAGE_SIZE"
    by (simp add: PAGE_SIZE_def less_eq_div_iff_mult_less_eq)
  moreover have "y < (b + k) * PAGE_SIZE \<longleftrightarrow> y div PAGE_SIZE < b + k"
    by (simp add: PAGE_SIZE_def div_less_iff_less_mult)
  ultimately show ?thesis using x by simp
next
  case False
  then show ?thesis by auto
qed

lemma bytes_iff:
  "x \<in> bytes (memory_offset p + b * PAGE_SIZE) (k * PAGE_SIZE) \<longleftrightarrow>
   memory_offset p \<le> x \<and> b \<le> (x - memory_offset p) div PAGE_SIZE
     \<and> (x - memory_offset p) div PAGE_SIZE < b + k"
  using page_of_byte [of p b x k] by (simp add: bytes_def algebra_simps)

lemma phys_owned_iff:
  "x \<in> phys_owned p \<longleftrightarrow>
   memory_offset p \<le> x \<and> (x - memory_offset p) div PAGE_SIZE < memory_pages p
     \<and> used p ((x - memory_offset p) div PAGE_SIZE)"
  using page_of_byte [of p 0 x "memory_pages p"] by (auto simp: phys_owned_def)

lemma phys_owned_set_used:
  assumes "memory_offset p' = memory_offset p" and "memory_pages p' = memory_pages p"
    and "used p' = set_used (used p) b k v" and "b + k \<le> memory_pages p"
  shows "phys_owned p' = (if v then phys_owned p \<union> bytes (memory_offset p + b * PAGE_SIZE) (k * PAGE_SIZE)
                          else phys_owned p - bytes (memory_offset p + b * PAGE_SIZE) (k * PAGE_SIZE))"
  using assms by (auto simp: set_eq_iff phys_owned_iff bytes_iff set_used_def)

lemma run_of_bytes:
  assumes ok: "physmem_ok p" and al: "a mod PAGE_SIZE = 0" and n: "0 < n"
    and sub: "bytes a (n * PAGE_SIZE) \<subseteq> phys_owned p"
  obtains b where "a = memory_offset p + b * PAGE_SIZE" and "b + n \<le> memory_pages p"
    and "\<And>m. b \<le> m \<Longrightarrow> m < b + n \<Longrightarrow> used p m"
proof -
  note d = physmem_okD [OF ok]
  have "a \<in> phys_owned p" using sub n by (auto simp: bytes_def PAGE_SIZE_def)
  then have le: "memory_offset p \<le> a" by (simp add: phys_owned_iff)
  then have "PAGE_SIZE dvd a - memory_offset p" using al d(3) by (auto intro: dvd_diff_nat)
  then obtain b where "a - memory_offset p = PAGE_SIZE * b" by blast
  with le have a: "a = memory_offset p + b * PAGE_SIZE" by (simp add: mult.commute)
  have u: "m < memory_pages p \<and> used p m" if "b \<le> m" "m < b + n" for m
  proof -
    have "memory_offset p + m * PAGE_SIZE \<in> bytes a (n * PAGE_SIZE)"
      unfolding a bytes_iff using that by (simp add: PAGE_SIZE_def)
    then have "memory_offset p + m * PAGE_SIZE \<in> phys_owned p" using sub by blast
    then show ?thesis by (simp add: phys_owned_iff PAGE_SIZE_def)
  qed
  have "b \<le> b + n - 1" "b + n - 1 < b + n" using n by auto
  from u [OF this] have "b + n \<le> memory_pages p" by linarith
  with a u show thesis by (intro that) auto
qed

interpretation phys: page_provider memory_alloc memory_free
  "\<lambda>p. physmem_ok p \<and> null_reserved p" phys_owned
proof (unfold_locales, goal_cases)
  case (1 s n)
  then show ?case using memory_alloc_result [of s n] by blast
next
  case (2 s n s')
  then show ?case using memory_alloc_result [of s n] by (auto simp: alloc_result_def)
next
  case (3 s n a s')
  then have "physmem_ok s" "null_reserved s" by auto
  from memory_alloc_result [OF this 3(2)] 3(3) obtain b where b:
    "a = memory_offset s + b * PAGE_SIZE" "0 < a" "b + n \<le> memory_pages s"
    "\<forall>m < n. \<not> used s (b + m)" "used s' = set_used (used s) b n True"
    "memory_pages s' = memory_pages s" "memory_offset s' = memory_offset s"
    by (auto simp: alloc_result_def)
  have "a mod 4096 = 0"
    using physmem_okD(3) [OF \<open>physmem_ok s\<close>] b(1) by (simp add: PAGE_SIZE_def)
  moreover have "a + n * 4096 \<le> 4294967296"
    using page_address(2) [OF \<open>physmem_ok s\<close> b(3) 3(2)] b(1)
    by (simp add: PAGE_SIZE_def algebra_simps)
  moreover have "bytes a (n * 4096) \<inter> phys_owned s = {}"
  proof -
    have "\<not> used s ((x - memory_offset s) div PAGE_SIZE)" if "x \<in> bytes a (n * PAGE_SIZE)" for x
      using that b(4) unfolding b(1) bytes_iff by (metis le_iff_add nat_add_left_cancel_less)
    then show ?thesis by (auto simp: phys_owned_iff PAGE_SIZE_def)
  qed
  moreover have "phys_owned s' = phys_owned s \<union> bytes a (n * 4096)"
    using phys_owned_set_used [OF b(7,6,5,3)] b(1) by (simp add: PAGE_SIZE_def)
  ultimately show ?case using b(2) by blast
next
  case (4 s n a)
  then have ok: "physmem_ok s" "null_reserved s" by auto
  from 4 have "a mod PAGE_SIZE = 0" "bytes a (n * PAGE_SIZE) \<subseteq> phys_owned s"
    by (simp_all add: PAGE_SIZE_def)
  then obtain b where b: "a = memory_offset s + b * PAGE_SIZE" "b + n \<le> memory_pages s"
    "\<And>m. b \<le> m \<Longrightarrow> m < b + n \<Longrightarrow> used s m" using run_of_bytes [OF ok(1) _ 4(2)] by metis
  from memory_free_result [OF ok(1) b(2) 4(2)] b obtain s' where s':
    "memory_free n a s = Inr s'" "physmem_ok s'" "used s' = set_used (used s) b n False"
    "cfg s' = cfg s" by auto
  have "null_reserved s'"
    using ok(2) s'(3,4) 4(3) b(1) by (auto simp: null_reserved_def cfg_def set_used_def)
  with s' phys_owned_set_used [of s' s b n False] b(1,2) show ?case
    by (simp add: cfg_def PAGE_SIZE_def)
qed


lemma sub32_le [simp]: "b \<le> a \<Longrightarrow> a < b + 4294967296 \<Longrightarrow> sub32 a b = a - b"
  by (simp add: sub32_def u32_def mod_if)

section \<open>Properties\<close>

lemma card_free_set:
  "card (free_set p) = length (filter (\<lambda>n. \<not> used p n) [0..<memory_pages p])"
proof -
  have "free_set p = set (filter (\<lambda>n. \<not> used p n) [0..<memory_pages p])"
    by (auto simp: free_set_def)
  then show ?thesis by (metis distinct_card distinct_filter distinct_upt)
qed

text \<open>Unfolding of the loops at numerals, to evaluate them on concrete states.\<close>

lemma scan_run_numeral [simp]:
  "scan_run p block j (numeral k) =
     bindR (ISSET p (block + j)) (\<lambda>b. if b then Inr (Some j) else scan_run p block (Suc j) (pred_numeral k))"
  by (simp add: numeral_eq_Suc)

lemma scan_blocks_numeral [simp]:
  "scan_blocks (numeral k) p pages i =
     (if i < memory_pages p
      then
        (let block = (i + s_lastPage p) mod memory_pages p in
         if u32 (block + pages) > memory_pages p
         then scan_blocks (pred_numeral k) p pages (u32 (u32 (i + pages + (2 ^ 32 - 2)) + 1))
         else bindR (scan_run p block 0 pages) (\<lambda>r.
              case r of
                Some j \<Rightarrow> scan_blocks (pred_numeral k) p pages (u32 (i + j + 1))
              | None \<Rightarrow> Inr (Some block)))
      else Inr None)"
  by (simp add: numeral_eq_Suc)

lemma take_pages_numeral [simp]:
 "take_pages p block i (numeral k) =
     bindR (SET p (block + i)) (\<lambda>(_, p').
     take_pages (p'\<lparr>s_freePages := s_freePages p' - 1\<rparr>) block (Suc i) (pred_numeral k))"
  by (simp add: numeral_eq_Suc)

lemma memory_alloc_one:
  assumes "physmem_ok p" and "null_reserved p" and "1 < card (free_set p)"
  shows "\<exists>a p'. memory_alloc 1 p = Inr (Some a, p')"
proof (rule ccontr)
  assume no: "\<not> ?thesis"
  note d = physmem_okD [OF assms(1)]
  obtain p' where r: "memory_alloc 1 p = Inr (None, p')"
    using memory_alloc_result [OF assms(1,2), of 1] no by (metis not_None_eq zero_less_one)
  have "card (free_set p) < 4294967296" using card_free_set_le [of p] d(7) by linarith
  then have big: "nat (s_freePages p mod 2 ^ 32) > 1" using d(5) assms(3) by simp
  obtain q where q: "scan_blocks (Suc (memory_pages p)) p 1 0 = Inr q"
    using scan_blocks_ok [OF assms(1), of 1 0 "Suc (memory_pages p)"] d(1) by auto
  have "q = None"
  proof (cases q)
    case (Some b)
    with scan_blocks_ok [OF assms(1), of 1 0 "Suc (memory_pages p)"] q d(1)
    have b: "b + 1 \<le> memory_pages p" "\<not> used p b" by auto
    then have "b + 0 + 1 \<le> BLOCK_BITS * length (memory_bitmap p)" using d(2) by linarith
    from take_pages_ok [OF this] obtain p1 where "take_pages p b 0 1 = Inr p1" "cfg p1 = cfg p"
      by auto
    moreover have "0 < memory_offset p + b * PAGE_SIZE"
      using assms(2) b(2) by (cases b) (auto simp: null_reserved_def PAGE_SIZE_def)
    ultimately have False
      using r big q Some page_address(1) [OF assms(1) b(1)]
      by (simp add: memory_alloc_def memory_multiple_alloc_def cfg_def
            del: scan_blocks.simps take_pages.simps)
    then show ?thesis ..
  qed simp
  have all: "used p n" if "n < memory_pages p" for n
  proof -
    let ?N = "memory_pages p"
    let ?k = "(n + (?N - s_lastPage p)) mod ?N"
    have "(?k + s_lastPage p) mod ?N = (n + (?N - s_lastPage p) + s_lastPage p) mod ?N"
      by (simp add: mod_add_left_eq)
    also have "\<dots> = n" using d(6) that by simp
    finally show ?thesis
      using scan_blocks_one [OF assms(1) _ q [unfolded \<open>q = None\<close>], of ?k] d(1) by simp
  qed
  then have "free_set p = {}" by (auto simp: free_set_def)
  with assms(3) show False by simp
qed

text \<open>A single page, with its effect on the bytes in use and on the counter.\<close>

lemma memory_alloc_page:
  assumes ok: "physmem_ok p" "null_reserved p" and f: "1 < s_freePages p"
  shows "\<exists>a p'. memory_alloc 1 p = Inr (Some a, p') \<and> physmem_ok p' \<and> null_reserved p'
    \<and> 0 < a \<and> a mod 4096 = 0 \<and> a + 4096 \<le> 4294967296 \<and> bytes a 4096 \<inter> phys_owned p = {}
    \<and> phys_owned p' = phys_owned p \<union> bytes a 4096 \<and> s_freePages p' = s_freePages p - 1"
proof -
  have "1 < card (free_set p)" using f physmem_okD(5) [OF ok(1)] by simp
  from memory_alloc_one [OF ok this] obtain a p' where a: "memory_alloc 1 p = Inr (Some a, p')" by blast
  with memory_alloc_result [OF ok, of 1] have "physmem_ok p'" "null_reserved p'"
    "s_freePages p' = s_freePages p - 1" by (auto simp: alloc_result_def)
  with a phys.page_alloc_Some [of p 1 a p'] ok show ?thesis by simp
qed

text \<open>Eight pages at address 0, page 0 reserved.\<close>

definition demo_mem :: physmem where
  "demo_mem = \<lparr>memory_bitmap = [1], memory_pages = 8, memory_offset = 0,
               s_freePages = 7, s_lastPage = 0\<rparr>"

lemma demo_mem_ok: "physmem_ok demo_mem" "null_reserved demo_mem"
  by (simp_all add: physmem_ok_def null_reserved_def card_free_set demo_mem_def used_def
       BLOCK_BITS_def PAGE_SIZE_def upt_rec)

text \<open>
  C2: \<^verbatim>\<open>memory_alloc\<close> always returns. Either it refuses and changes nothing, or it returns the
  non-null, page-aligned address of a run of pages inside the managed memory that were all free;
  then exactly these pages become taken, the free-page counter drops by their number, and the
  allocator's invariant (the counter equals the number of clear bits, positions in range) holds
  again.
\<close>

theorem memory_alloc_correct:
  assumes "physmem_ok p" and "null_reserved p" and "0 < pages"
  shows "\<exists>r p'. memory_alloc pages p = Inr (r, p') \<and> physmem_ok p' \<and> null_reserved p' \<and>
    (case r of
       None \<Rightarrow> p' = p
     | Some a \<Rightarrow> \<exists>b. a = memory_offset p + b * PAGE_SIZE \<and> 0 < a \<and> b + pages \<le> memory_pages p
         \<and> (\<forall>n. b \<le> n \<and> n < b + pages \<longrightarrow> \<not> used p n)
         \<and> (\<forall>n. used p' n \<longleftrightarrow> used p n \<or> (b \<le> n \<and> n < b + pages))
         \<and> s_freePages p' = s_freePages p - int pages)"
proof -
  from memory_alloc_result [OF assms] obtain r p' where
    r: "memory_alloc pages p = Inr (r, p')" "physmem_ok p'" "null_reserved p'"
      "alloc_result p pages r p'" by blast
  have nb: "\<not> used p n" if "\<forall>m < pages. \<not> used p (b + m)" "b \<le> n" "n < b + pages" for b n
    using that by (metis le_iff_add nat_add_left_cancel_less)
  show ?thesis
  proof (cases r)
    case None
    with r(4) have "p' = p" by (simp add: alloc_result_def)
    with r None show ?thesis by simp
  next
    case (Some a)
    with r(4) obtain b where b: "a = memory_offset p + b * PAGE_SIZE" "0 < a"
      "b + pages \<le> memory_pages p" "\<forall>m < pages. \<not> used p (b + m)"
      "used p' = set_used (used p) b pages True" "s_freePages p' = s_freePages p - int pages"
      unfolding alloc_result_def by auto
    have u: "\<forall>n. used p' n \<longleftrightarrow> used p n \<or> (b \<le> n \<and> n < b + pages)"
      unfolding b(5) set_used_def by auto
    show ?thesis using r(1-3) Some b(1-3,6) u nb [OF b(4)] by auto
  qed
qed

theorem memory_alloc_correct_witness:
  "physmem_ok demo_mem \<and> null_reserved demo_mem \<and> (0::nat) < 3 \<and>
   (\<exists>r p'. memory_alloc 3 demo_mem = Inr (r, p') \<and> physmem_ok p')"
  using demo_mem_ok memory_alloc_correct [OF demo_mem_ok, of 3] by auto

text \<open>
  Remark: Releasing what \<^verbatim>\<open>memory_alloc\<close> returned gives back exactly those pages: the release
  succeeds, every page is free or taken as before the allocation, and so is the counter.
\<close>

theorem memory_alloc_free_roundtrip:
  assumes "physmem_ok p" and "null_reserved p" and "0 < pages"
    and "memory_alloc pages p = Inr (Some a, p1)"
  shows "\<exists>p2. memory_free pages a p1 = Inr p2 \<and> physmem_ok p2
    \<and> (\<forall>n < memory_pages p. used p2 n = used p n) \<and> s_freePages p2 = s_freePages p"
proof -
  from memory_alloc_result [OF assms(1-3)] assms(4)
  have ok: "physmem_ok p1" and "alloc_result p pages (Some a) p1" by auto
  then obtain b where b: "a = memory_offset p + b * PAGE_SIZE" "b + pages \<le> memory_pages p"
    "\<forall>m < pages. \<not> used p (b + m)" "used p1 = set_used (used p) b pages True"
    "memory_pages p1 = memory_pages p" "memory_offset p1 = memory_offset p"
    unfolding alloc_result_def by auto
  then have "\<And>m. b \<le> m \<Longrightarrow> m < b + pages \<Longrightarrow> used p1 m" by (simp add: set_used_def)
  with memory_free_result [OF ok, of b pages] b assms(3) obtain p2 where p2:
    "memory_free pages a p1 = Inr p2" "physmem_ok p2"
    "used p2 = set_used (used p1) b pages False" "cfg p2 = cfg p1" by auto
  have "\<not> used p n" if "b \<le> n" "n < b + pages" for n
    using that b(3) by (metis le_iff_add nat_add_left_cancel_less)
  then have same: "used p2 = used p" using p2(3) b(4) by (auto simp: set_used_def fun_eq_iff)
  moreover have "free_set p2 = free_set p"
    using same p2(4) b(5) by (simp add: free_set_def cfg_def)
  ultimately show ?thesis
    using p2(1,2) physmem_okD(5) [OF p2(2)] physmem_okD(5) [OF assms(1)] by auto
qed

theorem memory_alloc_free_roundtrip_witness:
  "\<exists>p1 p2. memory_alloc 3 demo_mem = Inr (Some 4096, p1) \<and> memory_free 3 4096 p1 = Inr p2
     \<and> s_freePages p2 = 7"
proof -
  have "\<exists>p1. memory_alloc 3 demo_mem = Inr (Some 4096, p1)"
    by (simp add: memory_alloc_def memory_multiple_alloc_def demo_mem_def ISSET_def SET_def
          BLOCK_BITS_def PAGE_SIZE_def u32_def)
  then obtain p1 where p1: "memory_alloc 3 demo_mem = Inr (Some 4096, p1)" by blast
  have "(0::nat) < 3" by simp
  from memory_alloc_free_roundtrip [OF demo_mem_ok this p1] p1 show ?thesis
    by (auto simp: demo_mem_def)
qed

text \<open>
  Remark: A request for one page succeeds whenever more than one page is free: the search visits every
  page. (One page always stays in reserve, because the code asks for strictly more free pages
  than requested.)
\<close>

theorem memory_alloc_one_succeeds:
  assumes "physmem_ok p" and "null_reserved p" and "1 < card (free_set p)"
  shows "\<exists>a p'. memory_alloc 1 p = Inr (Some a, p')"
  using memory_alloc_one [OF assms] .

theorem memory_alloc_one_succeeds_witness:
  "physmem_ok demo_mem \<and> null_reserved demo_mem \<and> 1 < card (free_set demo_mem) \<and>
   (\<exists>a p'. memory_alloc 1 demo_mem = Inr (Some a, p'))"
proof -
  have "1 < card (free_set demo_mem)"
    by (simp add: card_free_set demo_mem_def used_def BLOCK_BITS_def upt_rec)
  with memory_alloc_one_succeeds [OF demo_mem_ok this] demo_mem_ok show ?thesis by blast
qed

text \<open>Pages 0 to 3 and 7 of eight are free; the last allocation ended at page 7.\<close>

definition demo_full :: physmem where
  "demo_full = \<lparr>memory_bitmap = [112], memory_pages = 8, memory_offset = 65536,
                s_freePages = 5, s_lastPage = 7\<rparr>"

lemma demo_full_fields:
  "memory_pages demo_full = 8" "s_lastPage demo_full = 7" "s_freePages demo_full = 5"
  by (simp_all add: demo_full_def)

lemma demo_full_ISSET:
  assumes "n < 8"
  shows "ISSET demo_full n = Inr (4 \<le> n \<and> n < 7)"
proof -
  from assms have "n = 0 \<or> n = 1 \<or> n = 2 \<or> n = 3 \<or> n = 4 \<or> n = 5 \<or> n = 6 \<or> n = 7"
    by presburger
  then show ?thesis by (elim disjE) (simp_all add: ISSET_def BLOCK_BITS_def demo_full_def)
qed

lemma demo_full_ok: "physmem_ok demo_full"
  by (simp add: card_free_set physmem_ok_def used_def demo_full_def BLOCK_BITS_def PAGE_SIZE_def
       upt_rec)

text \<open>
  Remark: A request for several pages can be refused although a long enough run is free: when the
  search reaches the end of memory it skips as many start positions as the request has pages,
  wherever the end is. In a valid state in which pages 0 to 3 and 7 of eight are free and the last
  allocation ended at page 7, a request for four pages is refused.
\<close>

theorem memory_alloc_misses_free_run:
  "physmem_ok demo_full \<and> memory_pages demo_full = 8 \<and> s_lastPage demo_full = 7
   \<and> \<not> used demo_full 0 \<and> \<not> used demo_full 1 \<and> \<not> used demo_full 2 \<and> \<not> used demo_full 3
   \<and> memory_alloc 4 demo_full = Inr (None, demo_full)"
proof -
  have "memory_alloc 4 demo_full = Inr (None, demo_full)"
    by (simp add: memory_alloc_def memory_multiple_alloc_def demo_full_fields demo_full_ISSET
          u32_def)
  moreover have "\<not> used demo_full 0" "\<not> used demo_full 1" "\<not> used demo_full 2"
    "\<not> used demo_full 3"
    by (simp_all add: used_def BLOCK_BITS_def demo_full_def)
  ultimately show ?thesis using demo_full_ok demo_full_fields by simp
qed

text \<open>
  Remark: Marking a range that covers no whole page as free is not a no-operation: the rounded start
  lies above the rounded end, their difference wraps around, and the loop runs out of the bitmap.
\<close>

theorem memory_set_small_hole:
  "memory_set 4196 4296 0 demo_mem = Inl Out_of_bounds"
  using mark_pages_out_of_bounds [of demo_mem 2 0 1048575 False]
  by (simp add: memory_set_def page_up_def page_down_def demo_mem_def PAGE_SIZE_def sub32_def
        BLOCK_BITS_def u32_def)

end
