(* ===== verification/Strings.thy ===== *)
theory Strings
  imports Prelude
begin

text \<open>
  The byte and string routines of \<^verbatim>\<open>libsmk/strings.c\<close>, which the kernel links against.
  A buffer is a list of (signed) \<^verbatim>\<open>char\<close> values; every access is checked against the
  buffer, so that a theorem that a routine returns also says that it stays inside its buffers.

  \<open>cstr n xs\<close> is the string a buffer holds when at most \<open>n\<close> bytes of it are looked at. The lemmas
  describe each routine by it: \<^verbatim>\<open>kstrncpy\<close> stores a string, \<^verbatim>\<open>kstrncmp\<close> returns 0 exactly
  for equal strings, and is a linear order.
\<close>

type_synonym cchar = int

definition cstr :: "nat \<Rightarrow> cchar list \<Rightarrow> cchar list" where
  "cstr n xs = takeWhile (\<lambda>c. c \<noteq> 0) (take n xs)"

section \<open>Memory routines\<close>

fun kmemcpy_loop :: "'a list \<Rightarrow> 'a list \<Rightarrow> nat \<Rightarrow> nat \<Rightarrow> 'a list kres" where
  "kmemcpy_loop dest src i 0 = Inr dest"
| "kmemcpy_loop dest src i (Suc k) =
     bindR (aget src i) (\<lambda>v. bindR (aput dest i v) (\<lambda>d. kmemcpy_loop d src (Suc i) k))"

definition kmemcpy :: "'a list \<Rightarrow> 'a list \<Rightarrow> nat \<Rightarrow> 'a list kres" where
  "kmemcpy s ct n = kmemcpy_loop s ct 0 n"

fun kmemcmp_loop :: "cchar list \<Rightarrow> cchar list \<Rightarrow> nat \<Rightarrow> nat \<Rightarrow> int kres" where
  "kmemcmp_loop s d i 0 = Inr 0"
| "kmemcmp_loop s d i (Suc k) =
     bindR (aget s i) (\<lambda>a. bindR (aget d i) (\<lambda>b.
       if a < b then Inr (-1) else if a > b then Inr 1 else kmemcmp_loop s d (Suc i) k))"

definition kmemcmp :: "cchar list \<Rightarrow> cchar list \<Rightarrow> nat \<Rightarrow> int kres" where
  "kmemcmp s d n = kmemcmp_loop s d 0 n"

fun kmemset_loop :: "'a list \<Rightarrow> 'a \<Rightarrow> nat \<Rightarrow> nat \<Rightarrow> 'a list kres" where
  "kmemset_loop s c i 0 = Inr s"
| "kmemset_loop s c i (Suc k) = bindR (aput s i c) (\<lambda>s'. kmemset_loop s' c (Suc i) k)"

definition kmemset :: "'a list \<Rightarrow> 'a \<Rightarrow> nat \<Rightarrow> 'a list kres" where
  "kmemset s c n = kmemset_loop s c 0 n"

section \<open>String routines\<close>

function kstrcpy_loop :: "cchar list \<Rightarrow> cchar list \<Rightarrow> nat \<Rightarrow> cchar list kres" where
  "kstrcpy_loop s ct i =
     bindR (aget ct i) (\<lambda>c. bindR (aput s i c) (\<lambda>s'.
       if c \<noteq> 0 then kstrcpy_loop s' ct (Suc i) else Inr s'))"
  by pat_completeness auto
termination
  by (relation "measure (\<lambda>(s, ct, i). length ct - i)") (auto simp: kres_simps)

definition kstrcpy :: "cchar list \<Rightarrow> cchar list \<Rightarrow> cchar list kres" where
  "kstrcpy s ct = kstrcpy_loop s ct 0"

text \<open>
  The first loop of \<^verbatim>\<open>kstrncpy\<close> copies up to the terminator, the second one pads with zeros;
  both share the index. \<open>k\<close> is \<open>n - i\<close>.
\<close>

fun kstrncpy_loop :: "cchar list \<Rightarrow> cchar list \<Rightarrow> nat \<Rightarrow> nat \<Rightarrow> cchar list kres" where
  "kstrncpy_loop s ct i 0 = Inr s"
| "kstrncpy_loop s ct i (Suc k) =
     bindR (aget ct i) (\<lambda>c.
       if c \<noteq> 0 then bindR (aput s i c) (\<lambda>s'. kstrncpy_loop s' ct (Suc i) k)
       else kmemset_loop s 0 i (Suc k))"

definition kstrncpy :: "cchar list \<Rightarrow> cchar list \<Rightarrow> nat \<Rightarrow> cchar list kres" where
  "kstrncpy s ct n = kstrncpy_loop s ct 0 n"

function kstrlen_loop :: "cchar list \<Rightarrow> nat \<Rightarrow> nat kres" where
  "kstrlen_loop cs ans =
     bindR (aget cs ans) (\<lambda>c. if c \<noteq> 0 then kstrlen_loop cs (Suc ans) else Inr ans)"
  by pat_completeness auto
termination
  by (relation "measure (\<lambda>(cs, ans). length cs - ans)") (auto simp: kres_simps)

definition kstrlen :: "cchar list \<Rightarrow> nat kres" where
  "kstrlen cs = kstrlen_loop cs 0"

fun kstrncmp_loop :: "cchar list \<Rightarrow> cchar list \<Rightarrow> nat \<Rightarrow> nat \<Rightarrow> int kres" where
  "kstrncmp_loop s1 s2 i 0 = Inr 0"
| "kstrncmp_loop s1 s2 i (Suc k) =
     bindR (aget s1 i) (\<lambda>a. bindR (aget s2 i) (\<lambda>b.
       if a < b then Inr (-1) else if b < a then Inr 1
       else if a = 0 then Inr 0 else kstrncmp_loop s1 s2 (Suc i) k))"

definition kstrncmp :: "cchar list \<Rightarrow> cchar list \<Rightarrow> nat \<Rightarrow> int kres" where
  "kstrncmp s1 s2 n = kstrncmp_loop s1 s2 0 n"

declare kstrcpy_loop.simps [simp del] kstrlen_loop.simps [simp del]

section \<open>Copying\<close>

lemma kmemcpy_loop_ok:
  "i + k \<le> length src \<Longrightarrow> i + k \<le> length dest \<Longrightarrow>
   kmemcpy_loop dest src i k = Inr (take i dest @ take k (drop i src) @ drop (i + k) dest)"
proof (induction k arbitrary: dest i)
  case 0
  then show ?case by simp
next
  case (Suc k)
  then have i: "i < length src" "i < length dest" by auto
  have "kmemcpy_loop dest src i (Suc k) = kmemcpy_loop (dest[i := src ! i]) src (Suc i) k"
    using i by simp
  also have "\<dots> = Inr (take (Suc i) (dest[i := src ! i]) @ take k (drop (Suc i) src)
                      @ drop (Suc i + k) (dest[i := src ! i]))"
    using Suc by simp
  also have "\<dots> = Inr (take i dest @ take (Suc k) (drop i src) @ drop (i + Suc k) dest)"
    using i by (simp add: take_Suc_conv_app_nth Cons_nth_drop_Suc [symmetric])
  finally show ?case .
qed

lemma kmemcpy_ok:
  "n \<le> length src \<Longrightarrow> n \<le> length dest \<Longrightarrow> kmemcpy dest src n = Inr (take n src @ drop n dest)"
  by (simp add: kmemcpy_def kmemcpy_loop_ok)

lemma kmemset_loop_ok:
  "i + k \<le> length s \<Longrightarrow>
   kmemset_loop s c i k = Inr (take i s @ replicate k c @ drop (i + k) s)"
proof (induction k arbitrary: s i)
  case 0
  then show ?case by simp
next
  case (Suc k)
  then have i: "i < length s" by auto
  have "kmemset_loop s c i (Suc k) = kmemset_loop (s[i := c]) c (Suc i) k"
    using i by simp
  also have "\<dots> = Inr (take (Suc i) (s[i := c]) @ replicate k c @ drop (Suc i + k) (s[i := c]))"
    using Suc by simp
  also have "\<dots> = Inr (take i s @ replicate (Suc k) c @ drop (i + Suc k) s)"
    using i by (simp add: take_Suc_conv_app_nth)
  finally show ?case .
qed

lemma kmemset_ok: "n \<le> length s \<Longrightarrow> kmemset s c n = Inr (replicate n c @ drop n s)"
  by (simp add: kmemset_def kmemset_loop_ok)

lemma kstrncpy_loop_ok:
  assumes "i + k \<le> length s"
    and "0 \<in> set (drop i ct) \<or> i + k \<le> length ct"
  shows "kstrncpy_loop s ct i k =
    Inr (take i s @ cstr k (drop i ct) @ replicate (k - length (cstr k (drop i ct))) 0
         @ drop (i + k) s)"
  using assms
proof (induction k arbitrary: s i)
  case 0
  then show ?case by (simp add: cstr_def)
next
  case (Suc k)
  have i: "i < length ct"
  proof (rule ccontr)
    assume "\<not> i < length ct"
    with Suc.prems(2) show False by auto
  qed
  have s: "i < length s" using Suc.prems(1) by simp
  have ct: "drop i ct = ct ! i # drop (Suc i) ct" using i by (simp add: Cons_nth_drop_Suc)
  show ?case
  proof (cases "ct ! i = 0")
    case True
    then have "kstrncpy_loop s ct i (Suc k) = kmemset_loop s 0 i (Suc k)"
      using i by simp
    also have "\<dots> = Inr (take i s @ replicate (Suc k) 0 @ drop (i + Suc k) s)"
      using Suc.prems(1) by (rule kmemset_loop_ok)
    finally show ?thesis using True ct by (simp add: cstr_def)
  next
    case False
    have "0 \<in> set (drop (Suc i) ct) \<or> Suc i + k \<le> length ct"
      using Suc.prems(2) ct False by auto
    moreover have "Suc i + k \<le> length (s[i := ct ! i])" using Suc.prems(1) by simp
    ultimately have "kstrncpy_loop (s[i := ct ! i]) ct (Suc i) k =
      Inr (take (Suc i) (s[i := ct ! i]) @ cstr k (drop (Suc i) ct)
           @ replicate (k - length (cstr k (drop (Suc i) ct))) 0
           @ drop (Suc i + k) (s[i := ct ! i]))"
      by (rule Suc.IH [rotated])
    with False i s ct show ?thesis
      by (simp add: cstr_def take_Suc_conv_app_nth)
  qed
qed

lemma kstrncpy_ok:
  assumes "n \<le> length s" and "0 \<in> set ct \<or> n \<le> length ct"
  shows "kstrncpy s ct n =
    Inr (cstr n ct @ replicate (n - length (cstr n ct)) 0 @ drop n s)"
  using kstrncpy_loop_ok [of 0 n s ct] assms by (simp add: kstrncpy_def)

lemma length_cstr: "length (cstr n xs) \<le> n"
  by (metis cstr_def length_takeWhile_le length_take min.bounded_iff)

lemma cstr_nonzero: "c \<in> set (cstr n xs) \<Longrightarrow> c \<noteq> 0"
  unfolding cstr_def by (drule set_takeWhileD) simp

lemma takeWhile_append_zero:
  "(\<And>c. c \<in> set xs \<Longrightarrow> c \<noteq> 0) \<Longrightarrow>
   takeWhile (\<lambda>c. c \<noteq> (0::int)) (take n (xs @ replicate k 0 @ ys)) =
     (if n \<le> length xs + k then take n xs
      else xs @ (if k = 0 then takeWhile (\<lambda>c. c \<noteq> 0) (take (n - length xs) ys) else []))"
proof (induction xs arbitrary: n)
  case Nil
  then show ?case by (cases n; cases k) (auto simp: takeWhile_eq_Nil_iff)
next
  case (Cons x xs)
  then show ?case by (cases n) auto
qed

lemma cstr_padded:
  "cstr n (cstr n xs @ replicate (n - length (cstr n xs)) 0 @ ys) = cstr n xs"
proof -
  have "n \<le> length (cstr n xs) + (n - length (cstr n xs))" using length_cstr [of n xs] by simp
  then have "cstr n (cstr n xs @ replicate (n - length (cstr n xs)) 0 @ ys) = take n (cstr n xs)"
    unfolding cstr_def [of n "_ @ _"]
    by (subst takeWhile_append_zero) (auto dest: cstr_nonzero)
  then show ?thesis using length_cstr [of n xs] by simp
qed

lemma kstrncpy_stores:
  assumes "n \<le> length s" and "0 \<in> set ct \<or> n \<le> length ct"
  shows "\<exists>s'. kstrncpy s ct n = Inr s' \<and> length s' = length s \<and> cstr n s' = cstr n ct"
proof -
  have "length (cstr n ct @ replicate (n - length (cstr n ct)) 0 @ drop n s) = length s"
    using assms(1) length_cstr [of n ct] by simp
  with kstrncpy_ok [OF assms] cstr_padded [of n ct "drop n s"] show ?thesis by blast
qed

lemma kstrlen_loop_ok:
  "0 \<in> set (drop i cs) \<Longrightarrow> kstrlen_loop cs i = Inr (i + length (takeWhile (\<lambda>c. c \<noteq> 0) (drop i cs)))"
proof (induction cs i rule: kstrlen_loop.induct)
  case (1 cs i)
  have i: "i < length cs" using "1.prems" by (cases "i < length cs") auto
  then have d: "drop i cs = cs ! i # drop (Suc i) cs" by (simp add: Cons_nth_drop_Suc)
  show ?case
  proof (cases "cs ! i = 0")
    case True
    with i d show ?thesis by (simp add: kstrlen_loop.simps [of cs i])
  next
    case False
    with "1.prems" d have "0 \<in> set (drop (Suc i) cs)" by auto
    with "1.IH" [of "cs ! i"] i False d show ?thesis by (simp add: kstrlen_loop.simps [of cs i])
  qed
qed

section \<open>Comparing\<close>

text \<open>Enough of a buffer to compare \<open>n\<close> bytes: a terminator, or \<open>n\<close> bytes.\<close>

definition readable :: "nat \<Rightarrow> cchar list \<Rightarrow> bool" where
  "readable n xs \<longleftrightarrow> 0 \<in> set xs \<or> n \<le> length xs"

fun strcmp :: "cchar list \<Rightarrow> cchar list \<Rightarrow> int" where
  "strcmp [] [] = 0"
| "strcmp [] (y # ys) = (if 0 < y then -1 else 1)"
| "strcmp (x # xs) [] = (if x < 0 then -1 else 1)"
| "strcmp (x # xs) (y # ys) = (if x < y then -1 else if y < x then 1 else strcmp xs ys)"

lemma readable_nth: "readable (Suc n) (drop i xs) \<Longrightarrow> i < length xs"
  by (cases "i < length xs") (auto simp: readable_def)

lemma readable_Suc:
  "readable (Suc n) (drop i xs) \<Longrightarrow> xs ! i \<noteq> 0 \<Longrightarrow> readable n (drop (Suc i) xs)"
  using readable_nth [of n i xs] by (auto simp: readable_def Cons_nth_drop_Suc [symmetric])

lemma cstr_step:
  "i < length xs \<Longrightarrow>
   cstr (Suc n) (drop i xs) = (if xs ! i = 0 then [] else xs ! i # cstr n (drop (Suc i) xs))"
  by (simp add: cstr_def Cons_nth_drop_Suc [symmetric])

lemma kstrncmp_loop_ok:
  "readable k (drop i s1) \<Longrightarrow> readable k (drop i s2) \<Longrightarrow>
   kstrncmp_loop s1 s2 i k = Inr (strcmp (cstr k (drop i s1)) (cstr k (drop i s2)))"
proof (induction k arbitrary: i)
  case 0
  then show ?case by (simp add: cstr_def)
next
  case (Suc k)
  note len = readable_nth [OF Suc.prems(1)] readable_nth [OF Suc.prems(2)]
  show ?case
  proof (cases "s1 ! i = s2 ! i \<and> s1 ! i \<noteq> 0")
    case True
    with Suc.prems have "readable k (drop (Suc i) s1)" "readable k (drop (Suc i) s2)"
      by (auto intro: readable_Suc)
    with Suc.IH True len show ?thesis by (simp add: cstr_step)
  next
    case False
    with len show ?thesis by (auto simp: cstr_step)
  qed
qed

lemma kstrncmp_ok:
  "readable n s1 \<Longrightarrow> readable n s2 \<Longrightarrow> kstrncmp s1 s2 n = Inr (strcmp (cstr n s1) (cstr n s2))"
  using kstrncmp_loop_ok [of n 0 s1 s2] by (simp add: kstrncmp_def)

lemma strcmp_refl [simp]: "strcmp xs xs = 0"
  by (induction xs) auto

lemma strcmp_eq_0: "strcmp xs ys = 0 \<longleftrightarrow> xs = ys"
  by (induction xs ys rule: strcmp.induct) auto

lemma strcmp_swap:
  "0 \<notin> set xs \<Longrightarrow> 0 \<notin> set ys \<Longrightarrow> strcmp ys xs = - strcmp xs ys"
  by (induction xs ys rule: strcmp.induct) auto

lemma kstrncmp_0:
  "readable n s1 \<Longrightarrow> readable n s2 \<Longrightarrow> kstrncmp s1 s2 n = Inr 0 \<longleftrightarrow> cstr n s1 = cstr n s2"
  by (simp add: kstrncmp_ok strcmp_eq_0)

section \<open>Properties\<close>

text \<open>
  Remark: A bounded copy followed by a bounded comparison: \<^verbatim>\<open>kstrncpy\<close> returns, stays inside its
  buffers, and afterwards \<^verbatim>\<open>kstrncmp\<close> of the destination with any string returns, with 0
  exactly for those strings that equal the copied one in the first \<open>n\<close> bytes.
\<close>

theorem kstrncpy_kstrncmp:
  assumes "n \<le> length s" and "readable n ct" and "readable n x"
  shows "\<exists>s' rc. kstrncpy s ct n = Inr s' \<and> length s' = length s \<and> drop n s' = drop n s
    \<and> kstrncmp s' x n = Inr rc \<and> (rc = 0 \<longleftrightarrow> cstr n x = cstr n ct)"
proof -
  let ?s' = "cstr n ct @ replicate (n - length (cstr n ct)) 0 @ drop n s"
  have c: "kstrncpy s ct n = Inr ?s'"
    using kstrncpy_ok [OF assms(1)] assms(2) by (simp add: readable_def)
  have len: "length ?s' = length s" using assms(1) length_cstr [of n ct] by simp
  have d: "drop n ?s' = drop n s" using length_cstr [of n ct] by simp
  have r: "readable n ?s'" using len assms(1) by (simp add: readable_def)
  show ?thesis
    using c len d kstrncmp_ok [OF r assms(3)] cstr_padded [of n ct "drop n s"]
    by (auto simp: strcmp_eq_0)
qed

theorem kstrncpy_kstrncmp_witness:
  "\<exists>s'. kstrncpy [9, 9, 9, 9, 9] [72, 105, 0] 4 = Inr s' \<and> drop 4 s' = [9]
     \<and> kstrncmp s' [72, 105, 0, 55] 4 = Inr 0"
  using kstrncpy_kstrncmp [of 4 "[9, 9, 9, 9, 9]" "[72, 105, 0]" "[72, 105, 0, 55]"]
  by (auto simp: readable_def cstr_def)

end
