(* ===== verification/Gc_Queue.thy ===== *)
theory Gc_Queue
  imports Prelude
begin

text \<open>
  The work list of the garbage collector (\<^verbatim>\<open>kernel/gc.c\<close>): one circular buffer of
  \<^verbatim>\<open>MAX_GC\<close> entries per CPU, written by \<^verbatim>\<open>gc_queue\<close> on the CPU that runs it and read by
  that CPU's collector thread through \<^verbatim>\<open>gc_peek\<close> and \<^verbatim>\<open>gc_next\<close>.

  The state holds the array \<^verbatim>\<open>qdata\<close> and the interrupt flag of the executing CPU, which every
  routine clears on entry and restores on exit (\<^verbatim>\<open>disable_interrupts\<close>, \<^verbatim>\<open>enable_interrupts\<close>
  of \<^verbatim>\<open>kernel/interrupts.c\<close>). The theory shows that a work list is a bounded queue: it
  interprets \<open>bounded_fifo\<close>.
\<close>

section \<open>State\<close>

definition MAX_GC :: nat where "MAX_GC = 32"

definition MAX_CPU :: nat where "MAX_CPU = 8"

record gc_info =
  gi_pid :: int
  gi_tid :: int

record gc_ring =
  gq_info :: "gc_info list"
  gq_pos :: int
  gq_size :: int

record gc_sys =
  qdata :: "gc_ring list"
  eflags_if :: bool

section \<open>Interrupt flag\<close>

text \<open>\<^verbatim>\<open>disable_interrupts\<close> returns 1 when interrupts were enabled, 0 otherwise.\<close>

definition disable_interrupts :: "gc_sys \<Rightarrow> int \<times> gc_sys" where
  "disable_interrupts s = (if eflags_if s then 1 else 0, s\<lparr>eflags_if := False\<rparr>)"

definition enable_interrupts :: "gc_sys \<Rightarrow> gc_sys" where
  "enable_interrupts s = s\<lparr>eflags_if := True\<rparr>"

text \<open>The closing \<^verbatim>\<open>if ( ei != 0 ) enable_interrupts();\<close> of each routine.\<close>

definition restore_interrupts :: "int \<Rightarrow> gc_sys \<Rightarrow> gc_sys" where
  "restore_interrupts ei s = (if ei \<noteq> 0 then enable_interrupts s else s)"

section \<open>Operations\<close>

definition load_gc :: "nat \<Rightarrow> gc_sys \<Rightarrow> gc_sys kres" where
  "load_gc cpu_id s =
     bindR (aget (qdata s) cpu_id) (\<lambda>q.
     bindR (aput (qdata s) cpu_id (q\<lparr>gq_pos := 0, gq_size := 0\<rparr>)) (\<lambda>qs.
     Inr (s\<lparr>qdata := qs\<rparr>)))"

definition gc_queue :: "nat \<Rightarrow> int \<Rightarrow> int \<Rightarrow> gc_sys \<Rightarrow> (int \<times> gc_sys) kres" where
  "gc_queue cpu_id pid tid s0 =
     (let (ei, s) = disable_interrupts s0 in
      bindR (aget (qdata s) cpu_id) (\<lambda>q.
      assertR (gq_pos q \<ge> 0) (
      assertR (gq_size q \<ge> 0) (
      if gq_size q \<noteq> int MAX_GC
      then
        (let new_pos = nat (gq_pos q + gq_size q) mod MAX_GC in
         bindR (aput (gq_info q) new_pos \<lparr>gi_pid = pid, gi_tid = tid\<rparr>) (\<lambda>info.
         bindR (aput (qdata s) cpu_id (q\<lparr>gq_info := info, gq_size := gq_size q + 1\<rparr>)) (\<lambda>qs.
         Inr (0, restore_interrupts ei (s\<lparr>qdata := qs\<rparr>)))))
      else Inr (-1, restore_interrupts ei s)))))"

definition gc_has_work :: "nat \<Rightarrow> gc_sys \<Rightarrow> int kres" where
  "gc_has_work cpu_id s =
     assertR (\<not> eflags_if s) (
     bindR (aget (qdata s) cpu_id) (\<lambda>q.
     assertR (gq_pos q \<ge> 0) (
     assertR (gq_size q \<ge> 0) (
     Inr (if gq_size q = 0 then -1 else 0)))))"

text \<open>\<^verbatim>\<open>gc_peek\<close> leaves \<^verbatim>\<open>*pid\<close> and \<^verbatim>\<open>*tid\<close> alone when it returns -1: the entry is \<open>None\<close>.\<close>

definition gc_peek :: "nat \<Rightarrow> gc_sys \<Rightarrow> ((int \<times> gc_info option) \<times> gc_sys) kres" where
  "gc_peek cpu_id s0 =
     (let (ei, s) = disable_interrupts s0 in
      bindR (aget (qdata s) cpu_id) (\<lambda>q.
      assertR (gq_pos q \<ge> 0) (
      assertR (gq_size q \<ge> 0) (
      if gq_size q \<noteq> 0
      then bindR (aget (gq_info q) (nat (gq_pos q))) (\<lambda>e.
           Inr ((0, Some e), restore_interrupts ei s))
      else Inr ((-1, None), restore_interrupts ei s)))))"

definition gc_next :: "nat \<Rightarrow> gc_sys \<Rightarrow> gc_sys kres" where
  "gc_next cpu_id s0 =
     (let (ei, s) = disable_interrupts s0 in
      bindR (aget (qdata s) cpu_id) (\<lambda>q.
      assertR (gq_pos q \<ge> 0) (
      assertR (gq_size q > 0) (
      bindR (aput (qdata s) cpu_id
               (q\<lparr>gq_pos := (gq_pos q + 1) mod int MAX_GC, gq_size := gq_size q - 1\<rparr>)) (\<lambda>qs.
      Inr (restore_interrupts ei (s\<lparr>qdata := qs\<rparr>)))))))"

lemmas gc_ops = load_gc_def gc_queue_def gc_has_work_def gc_peek_def gc_next_def

section \<open>Invariant and contents\<close>

definition gc_ring_ok :: "gc_ring \<Rightarrow> bool" where
  "gc_ring_ok q \<longleftrightarrow>
     length (gq_info q) = MAX_GC \<and> 0 \<le> gq_pos q \<and> gq_pos q < int MAX_GC
     \<and> 0 \<le> gq_size q \<and> gq_size q \<le> int MAX_GC"

definition gc_ok :: "nat \<Rightarrow> gc_sys \<Rightarrow> bool" where
  "gc_ok cpu_id s \<longleftrightarrow> cpu_id < length (qdata s) \<and> list_all gc_ring_ok (qdata s)"

definition gc_work :: "nat \<Rightarrow> gc_sys \<Rightarrow> gc_info list" where
  "gc_work cpu_id s =
     (let q = qdata s ! cpu_id in ring (gq_info q) (nat (gq_pos q)) (nat (gq_size q)))"

lemma gc_ok_nth: "gc_ok c s \<Longrightarrow> gc_ring_ok (qdata s ! c)"
  by (simp add: gc_ok_def list_all_length)

lemma gc_ok_cpu: "gc_ok c s \<Longrightarrow> c < length (qdata s)"
  by (simp add: gc_ok_def)

lemma gc_okD:
  assumes "gc_ok c s"
  shows "length (gq_info (qdata s ! c)) = MAX_GC"
    and "0 \<le> gq_pos (qdata s ! c)" and "gq_pos (qdata s ! c) < int MAX_GC"
    and "0 \<le> gq_size (qdata s ! c)" and "gq_size (qdata s ! c) \<le> int MAX_GC"
  using gc_ok_nth [OF assms] by (simp_all add: gc_ring_ok_def)

lemma gc_ok_update:
  "gc_ok c s \<Longrightarrow> gc_ring_ok q \<Longrightarrow> gc_ok c (s\<lparr>qdata := (qdata s)[c := q]\<rparr>)"
  by (simp add: gc_ok_def list_all_update)

lemma restore_disable [simp]:
  "restore_interrupts (if eflags_if s then 1 else 0) (s\<lparr>eflags_if := False, qdata := qs\<rparr>)
     = s\<lparr>qdata := qs\<rparr>"
  "restore_interrupts (if eflags_if s then 1 else 0) (s\<lparr>eflags_if := False\<rparr>) = s"
  by (simp_all add: restore_interrupts_def enable_interrupts_def)

lemma length_gc_work: "gc_ok c s \<Longrightarrow> length (gc_work c s) = nat (gq_size (qdata s ! c))"
  by (simp add: gc_work_def Let_def)

lemma gc_queue_full:
  assumes "gc_ok c s" and "gq_size (qdata s ! c) = int MAX_GC"
  shows "gc_queue c pid tid s = Inr (-1, s)"
  using assms gc_okD [OF assms(1)] gc_ok_cpu [OF assms(1)]
  by (simp add: gc_queue_def disable_interrupts_def Let_def)

lemma gc_queue_room:
  assumes ok: "gc_ok c s" and room: "gq_size (qdata s ! c) \<noteq> int MAX_GC"
  shows "\<exists>s'. gc_queue c pid tid s = Inr (0, s') \<and> gc_ok c s' \<and> eflags_if s' = eflags_if s
           \<and> gc_work c s' = gc_work c s @ [\<lparr>gi_pid = pid, gi_tid = tid\<rparr>]
           \<and> (\<forall>d. d \<noteq> c \<longrightarrow> qdata s' ! d = qdata s ! d)"
proof -
  let ?q = "qdata s ! c"
  let ?p = "nat (gq_pos ?q + gq_size ?q) mod MAX_GC"
  let ?q' = "?q\<lparr>gq_info := (gq_info ?q)[?p := \<lparr>gi_pid = pid, gi_tid = tid\<rparr>],
                gq_size := gq_size ?q + 1\<rparr>"
  let ?s' = "s\<lparr>qdata := (qdata s)[c := ?q']\<rparr>"
  note d = gc_okD [OF ok] and cpu = gc_ok_cpu [OF ok]
  have p: "?p < length (gq_info ?q)" using d by (simp add: MAX_GC_def)
  have run: "gc_queue c pid tid s = Inr (0, ?s')"
    using d room cpu p by (simp add: gc_queue_def disable_interrupts_def Let_def)
  have ok': "gc_ring_ok ?q'" using d room by (simp add: gc_ring_ok_def)
  have sz: "nat (gq_size ?q) < length (gq_info ?q)" using d room by simp
  have sum: "nat (gq_pos ?q + gq_size ?q) = nat (gq_pos ?q) + nat (gq_size ?q)"
    using d by (simp add: nat_add_distrib)
  have "gc_work c ?s' = gc_work c s @ [\<lparr>gi_pid = pid, gi_tid = tid\<rparr>]"
    using ring_snoc [OF sz, of "nat (gq_pos ?q)"] d cpu sum
    by (simp add: gc_work_def Let_def Suc_nat_eq_nat_zadd1 add.commute)
  with run gc_ok_update [OF ok ok'] show ?thesis by auto
qed

lemma gc_peek_ok:
  assumes ok: "gc_ok c s"
  shows "gc_peek c s =
    Inr (if gc_work c s = [] then (-1, None) else (0, Some (hd (gc_work c s))), s)"
proof -
  let ?q = "qdata s ! c"
  note d = gc_okD [OF ok] and cpu = gc_ok_cpu [OF ok]
  have e: "gc_work c s = [] \<longleftrightarrow> gq_size ?q = 0"
    using d by (simp add: gc_work_def Let_def)
  have "hd (gc_work c s) = gq_info ?q ! nat (gq_pos ?q)" if "gq_size ?q \<noteq> 0"
    using that d by (simp add: gc_work_def Let_def hd_ring)
  with e d cpu show ?thesis
    by (simp add: gc_peek_def disable_interrupts_def Let_def)
qed

lemma gc_next_ok:
  assumes ok: "gc_ok c s" and ne: "gc_work c s \<noteq> []"
  shows "\<exists>s'. gc_next c s = Inr s' \<and> gc_ok c s' \<and> gc_work c s' = tl (gc_work c s)
           \<and> eflags_if s' = eflags_if s"
proof -
  let ?q = "qdata s ! c"
  let ?q' = "?q\<lparr>gq_pos := (gq_pos ?q + 1) mod int MAX_GC, gq_size := gq_size ?q - 1\<rparr>"
  let ?s' = "s\<lparr>qdata := (qdata s)[c := ?q']\<rparr>"
  note d = gc_okD [OF ok] and cpu = gc_ok_cpu [OF ok]
  have pos: "0 < nat (gq_size ?q)" using ne d by (simp add: gc_work_def Let_def)
  have run: "gc_next c s = Inr ?s'"
    using d cpu pos by (simp add: gc_next_def disable_interrupts_def Let_def)
  have ok': "gc_ring_ok ?q'" using d pos by (simp add: gc_ring_ok_def MAX_GC_def)
  have np: "nat ((gq_pos ?q + 1) mod int MAX_GC) = Suc (nat (gq_pos ?q)) mod MAX_GC"
    using d by (simp add: nat_mod_distrib nat_add_distrib MAX_GC_def)
  have nd: "nat (gq_size ?q - 1) = nat (gq_size ?q) - 1" by simp
  have "gc_work c ?s' = tl (gc_work c s)"
    using ring_tl [OF pos, of "gq_info ?q" "nat (gq_pos ?q)"] d cpu np
    by (simp add: gc_work_def Let_def nd del: nat_minus_as_int)
  with run gc_ok_update [OF ok ok'] show ?thesis by auto
qed

section \<open>The work list is a bounded queue\<close>

definition gc_enq :: "nat \<Rightarrow> gc_info \<Rightarrow> gc_sys \<Rightarrow> gc_sys option" where
  "gc_enq c e s =
     (case gc_queue c (gi_pid e) (gi_tid e) s of
        Inr (rc, s') \<Rightarrow> if rc = 0 then Some s' else None
      | Inl _ \<Rightarrow> None)"

definition gc_front :: "nat \<Rightarrow> gc_sys \<Rightarrow> gc_info option" where
  "gc_front c s = (case gc_peek c s of Inr ((_, e), _) \<Rightarrow> e | Inl _ \<Rightarrow> None)"

definition gc_deq :: "nat \<Rightarrow> gc_sys \<Rightarrow> gc_sys" where
  "gc_deq c s = (case gc_next c s of Inr s' \<Rightarrow> s' | Inl _ \<Rightarrow> s)"

lemma gc_enq_cases:
  assumes "gc_ok c s"
  shows "(gq_size (qdata s ! c) = int MAX_GC \<and> gc_enq c e s = None) \<or>
    (gq_size (qdata s ! c) \<noteq> int MAX_GC \<and>
     (\<exists>s'. gc_enq c e s = Some s' \<and> gc_ok c s' \<and> gc_work c s' = gc_work c s @ [e]))"
proof (cases "gq_size (qdata s ! c) = int MAX_GC")
  case True
  then show ?thesis using gc_queue_full [OF assms] by (simp add: gc_enq_def)
next
  case False
  from gc_queue_room [OF assms False, of "gi_pid e" "gi_tid e"] False show ?thesis
    by (auto simp: gc_enq_def)
qed

interpretation gcq: bounded_fifo "gc_ok c" "gc_work c" "\<lambda>_. MAX_GC" "gc_enq c" "gc_front c" "gc_deq c"
  for c
proof (unfold_locales, goal_cases)
  case (1 q x q')
  then show ?case using gc_enq_cases [of c q x] by auto
next
  case (2 q x q')
  then show ?case using gc_enq_cases [of c q x] by auto
next
  case (3 q x q')
  show ?case ..
next
  case (4 q x)
  then show ?case using gc_enq_cases [OF 4, of x] gc_okD [OF 4] length_gc_work [OF 4] by auto
next
  case (5 q)
  then show ?case using gc_okD [OF 5] length_gc_work [OF 5] by simp
next
  case (6 q)
  then show ?case by (simp add: gc_front_def gc_peek_ok)
next
  case (7 q)
  then show ?case using gc_next_ok [OF 7] by (auto simp: gc_deq_def)
next
  case (8 q)
  then show ?case using gc_next_ok [OF 8] by (auto simp: gc_deq_def)
next
  case (9 q)
  show ?case ..
qed

section \<open>Properties\<close>

text \<open>
  Remark: On a CPU whose work list is well formed, \<^verbatim>\<open>gc_queue\<close> either appends the pair to the
  end of that CPU's list, leaving the lists of the other CPUs alone, or refuses with -1 and
  changes nothing; it refuses exactly when \<^verbatim>\<open>MAX_GC\<close> pairs wait. The interrupt flag is as
  before in both cases.
\<close>

theorem gc_queue_correct:
  assumes "gc_ok c s"
  shows "\<exists>rc s'. gc_queue c pid tid s = Inr (rc, s') \<and> gc_ok c s' \<and> eflags_if s' = eflags_if s
    \<and> (\<forall>d. d \<noteq> c \<longrightarrow> qdata s' ! d = qdata s ! d)
    \<and> (if length (gc_work c s) = MAX_GC then rc = -1 \<and> s' = s
       else rc = 0 \<and> gc_work c s' = gc_work c s @ [\<lparr>gi_pid = pid, gi_tid = tid\<rparr>])"
proof (cases "gq_size (qdata s ! c) = int MAX_GC")
  case True
  then show ?thesis
    using gc_queue_full [OF assms True] assms length_gc_work [OF assms] by auto
next
  case False
  then have "length (gc_work c s) \<noteq> MAX_GC"
    using length_gc_work [OF assms] gc_okD [OF assms] by auto
  with gc_queue_room [OF assms False, of pid tid] show ?thesis by auto
qed

definition demo_gc :: gc_sys where
  "demo_gc = \<lparr>qdata = replicate MAX_CPU
      \<lparr>gq_info = replicate MAX_GC \<lparr>gi_pid = 0, gi_tid = 0\<rparr>, gq_pos = 30, gq_size = 0\<rparr>,
      eflags_if = True\<rparr>"

lemma demo_gc_ok: "c < MAX_CPU \<Longrightarrow> gc_ok c demo_gc"
  by (simp add: gc_ok_def demo_gc_def gc_ring_ok_def MAX_GC_def MAX_CPU_def list_all_length)

theorem gc_queue_correct_witness:
  "gc_ok 1 demo_gc \<and> (\<exists>rc s'. gc_queue 1 7 3 demo_gc = Inr (rc, s') \<and> gc_ok 1 s'
     \<and> gc_work 1 s' = gc_work 1 demo_gc @ [\<lparr>gi_pid = 7, gi_tid = 3\<rparr>])"
proof -
  have ok: "gc_ok 1 demo_gc" by (simp add: demo_gc_ok MAX_CPU_def)
  have "length (gc_work 1 demo_gc) \<noteq> MAX_GC"
    by (simp add: gc_work_def Let_def demo_gc_def MAX_CPU_def MAX_GC_def)
  with gc_queue_correct [OF ok, of 7 3] ok show ?thesis by auto
qed

text \<open>
  Remark: Pairs that are queued on an empty work list, no more than \<^verbatim>\<open>MAX_GC\<close> of them, are
  handed to the collector in the order in which they were queued, across the wrap-around of the
  circular buffer, and the list is empty afterwards.
\<close>

theorem gc_fifo_order:
  assumes "gc_ok c s" and "gc_work c s = []" and "length es \<le> MAX_GC"
  shows "\<exists>s' s''. bounded_fifo.enq_all (gc_enq c) es s = Some s'
    \<and> bounded_fifo.deq_many (gc_front c) (gc_deq c) (length es) s' = (es, s'')
    \<and> gc_work c s'' = []"
  using assms by (rule gcq.fifo_order)

theorem gc_fifo_order_witness:
  "gc_ok 0 demo_gc \<and> gc_work 0 demo_gc = [] \<and>
   (\<exists>s' s''. bounded_fifo.enq_all (gc_enq 0) (replicate 5 \<lparr>gi_pid = 7, gi_tid = 3\<rparr>) demo_gc = Some s'
      \<and> gc_work 0 s'' = [])"
proof -
  have ok: "gc_ok 0 demo_gc" by (simp add: demo_gc_ok MAX_CPU_def)
  have e: "gc_work 0 demo_gc = []"
    by (simp add: gc_work_def Let_def demo_gc_def MAX_CPU_def)
  have "length (replicate 5 \<lparr>gi_pid = 7, gi_tid = 3\<rparr>) \<le> MAX_GC" by (simp add: MAX_GC_def)
  from gc_fifo_order [OF ok e this] ok e show ?thesis by blast
qed

end
