(* ===== verification/Mm.thy ===== *)
theory Mm
  imports Prelude
begin

text \<open>
  The kernel's memory interface (\<^verbatim>\<open>kernel/mm/mm.c\<close>): \<^verbatim>\<open>kmalloc\<close>, \<^verbatim>\<open>kfree\<close> and
  \<^verbatim>\<open>krealloc\<close> call through the three function pointers of \<^verbatim>\<open>subsystem\<close>, which
  \<^verbatim>\<open>set_mm_system\<close> installs. A function pointer is a function on the allocator's state.

  \<open>kernel_heap\<close> is the contract that every other component relies on: a request either is
  refused or gives a fresh block that overlaps no live one, and a live block can be released.
  It is interpreted by the allocator the kernel installs at boot, in \<open>Liballoc\<close>.
\<close>

section \<open>Dispatch\<close>

record 'h mm_subsystem =
  mm_malloc :: "nat \<Rightarrow> 'h \<Rightarrow> (nat option \<times> 'h) kres"
  mm_free :: "nat option \<Rightarrow> 'h \<Rightarrow> 'h kres"
  mm_realloc :: "nat option \<Rightarrow> nat \<Rightarrow> 'h \<Rightarrow> (nat option \<times> 'h) kres"

definition set_mm_system :: "'h mm_subsystem \<Rightarrow> 'h mm_subsystem \<Rightarrow> 'h mm_subsystem" where
  "set_mm_system subsystem sub = sub"

definition kmalloc :: "'h mm_subsystem \<Rightarrow> nat \<Rightarrow> 'h \<Rightarrow> (nat option \<times> 'h) kres" where
  "kmalloc subsystem s h = mm_malloc subsystem s h"

definition kfree :: "'h mm_subsystem \<Rightarrow> nat option \<Rightarrow> 'h \<Rightarrow> 'h kres" where
  "kfree subsystem ptr h = mm_free subsystem ptr h"

definition krealloc :: "'h mm_subsystem \<Rightarrow> nat option \<Rightarrow> nat \<Rightarrow> 'h \<Rightarrow> (nat option \<times> 'h) kres" where
  "krealloc subsystem ptr s h = mm_realloc subsystem ptr s h"

section \<open>The contract of the kernel heap\<close>

text \<open>
  The largest request for which an allocator has to behave: with its headers and page rounding it
  still is a 32-bit number.
\<close>

definition MAX_REQUEST :: nat where "MAX_REQUEST = 2 ^ 32 - 8192"

locale kernel_heap =
  fixes subsystem :: "'h mm_subsystem"
    and heap_ok :: "'h \<Rightarrow> bool"
    and live :: "'h \<Rightarrow> nat \<Rightarrow> nat option"
  assumes malloc_total:
      "heap_ok h \<Longrightarrow> n < MAX_REQUEST \<Longrightarrow> \<exists>r h'. kmalloc subsystem n h = Inr (r, h') \<and> heap_ok h'"
    and malloc_None:
      "heap_ok h \<Longrightarrow> n < MAX_REQUEST \<Longrightarrow> kmalloc subsystem n h = Inr (None, h') \<Longrightarrow> live h' = live h"
    and malloc_Some:
      "heap_ok h \<Longrightarrow> n < MAX_REQUEST \<Longrightarrow> kmalloc subsystem n h = Inr (Some p, h') \<Longrightarrow>
         0 < p \<and> p mod 4 = 0 \<and> live h p = None \<and> live h' = (live h)(p \<mapsto> n)"
    and live_disjoint:
      "heap_ok h \<Longrightarrow> live h p = Some n \<Longrightarrow> live h q = Some m \<Longrightarrow> p \<noteq> q \<Longrightarrow>
         bytes p n \<inter> bytes q m = {}"
    and free_live:
      "heap_ok h \<Longrightarrow> live h p = Some n \<Longrightarrow>
         \<exists>h'. kfree subsystem (Some p) h = Inr h' \<and> heap_ok h' \<and> live h' = (live h)(p := None)"
    and free_null:
      "heap_ok h \<Longrightarrow> \<exists>h'. kfree subsystem None h = Inr h' \<and> heap_ok h' \<and> live h' = live h"
    and realloc_live:
      "heap_ok h \<Longrightarrow> live h p = Some n \<Longrightarrow> 0 < n \<Longrightarrow> 0 < m \<Longrightarrow> m < MAX_REQUEST \<Longrightarrow>
         krealloc subsystem (Some p) m h = Inl Null_deref \<or>
         (\<exists>q h'. krealloc subsystem (Some p) m h = Inr (Some q, h') \<and> heap_ok h'
            \<and> live h' = ((live h)(p := None))(q \<mapsto> m) \<and> (q = p \<or> live h q = None))"
    and realloc_zero: "krealloc subsystem r 0 h = bindR (kfree subsystem r h) (\<lambda>h'. Inr (None, h'))"
    and realloc_null: "0 < m \<Longrightarrow> krealloc subsystem None m h = kmalloc subsystem m h"
begin

lemma malloc_cases:
  assumes "heap_ok h" and "n < MAX_REQUEST"
  obtains (none) h' where "kmalloc subsystem n h = Inr (None, h')" "heap_ok h'" "live h' = live h"
  | (some) p h' where "kmalloc subsystem n h = Inr (Some p, h')" "heap_ok h'" "0 < p"
      "p mod 4 = 0" "live h p = None" "live h' = (live h)(p \<mapsto> n)"
proof -
  from malloc_total [OF assms] obtain r h' where r: "kmalloc subsystem n h = Inr (r, h')" "heap_ok h'"
    by blast
  show thesis
  proof (cases r)
    case None
    with r malloc_None [OF assms] none show thesis by blast
  next
    case (Some p)
    with r malloc_Some [OF assms, of p h'] have "0 < p" "p mod 4 = 0" "live h p = None"
      "live h' = (live h)(p \<mapsto> n)" by simp_all
    with r Some some show thesis by simp
  qed
qed

text \<open>What is allocated and released again leaves no trace.\<close>

lemma malloc_free:
  assumes "heap_ok h" and "n < MAX_REQUEST" and "kmalloc subsystem n h = Inr (Some p, h')"
  shows "\<exists>h''. kfree subsystem (Some p) h' = Inr h'' \<and> heap_ok h'' \<and> live h'' = live h"
proof -
  from malloc_total [OF assms(1,2)] assms(3) have ok: "heap_ok h'" by auto
  from malloc_Some [OF assms] have l: "live h p = None" "live h' = (live h)(p \<mapsto> n)" by auto
  from free_live [OF ok, of p n] l show ?thesis
    by (auto simp: fun_upd_idem)
qed

end

end
