(* ===== verification/Liballoc.thy ===== *)
theory Liballoc
  imports Mm Physmem
begin

text \<open>
  The heap allocator (\<^verbatim>\<open>kernel/mm/liballoc.c\<close>, used unchanged by user programs as
  \<^verbatim>\<open>libsmk/liballoc.c\<close>) and its binding to the page allocator
  (\<^verbatim>\<open>kernel/mm/liballoc_hooks.c\<close>).

  Memory from the page allocator is cut into \<^emph>\<open>major\<close> blocks; every allocation is a
  \<^emph>\<open>minor\<close> block inside one, a 24 byte header followed by its data. The two doubly linked lists
  of the source are Isabelle lists, in list order; a header's address identifies it. \<open>l_magic\<close> and
  \<open>l_align\<close> are the two words of memory that \<^verbatim>\<open>free\<close> reads from whatever pointer it is given: the
  magic number of a header at that address and the alignment word before the pointer. \<open>l_data\<close> is
  the byte memory as far as callers use it. The spinlock is held for the whole of each
  operation.

  The hooks are parameters of the operations; the theorems about them are proved once for every
  \<open>page_provider\<close> and then hold for the page allocator of the kernel.
\<close>

section \<open>Data\<close>

definition ALIGNMENT :: nat where "ALIGNMENT = 4"

definition ALIGN_INFO :: nat where "ALIGN_INFO = 2"

definition LIBALLOC_MAGIC :: nat where "LIBALLOC_MAGIC = 0xc001c0de"

definition LIBALLOC_DEAD :: nat where "LIBALLOC_DEAD = 0xdeaddead"

text \<open>\<^verbatim>\<open>sizeof(struct liballoc_major)\<close> and \<^verbatim>\<open>sizeof(struct liballoc_minor)\<close>.\<close>

definition sizeof_major :: nat where "sizeof_major = 24"

definition sizeof_minor :: nat where "sizeof_minor = 24"

definition l_pageSize :: nat where "l_pageSize = 4096"

definition l_pageCount :: nat where "l_pageCount = 16"

record minor =
  mi_addr :: nat
  mi_size :: nat
  mi_req :: nat

record major =
  ma_addr :: nat
  ma_pages :: nat
  ma_size :: nat
  ma_usage :: nat
  ma_minors :: "minor list"

record 'p liballoc =
  l_majors :: "major list"
  l_bestBet :: "nat option"
  l_allocated :: int
  l_inuse :: int
  l_warningCount :: int
  l_errorCount :: int
  l_possibleOverruns :: int
  l_magic :: "nat \<Rightarrow> nat"
  l_align :: "nat \<Rightarrow> nat"
  l_data :: "nat \<Rightarrow> nat"
  l_sys :: 'p

section \<open>Alignment and copying\<close>

text \<open>\<open>ALIGN ptr\<close>: the aligned pointer and the value stored in the word before it.\<close>

definition ALIGN :: "nat \<Rightarrow> nat \<times> nat" where
  "ALIGN ptr =
     (let p = u32 (ptr + ALIGN_INFO); diff = p mod ALIGNMENT in
      if diff \<noteq> 0
      then (u32 (p + (ALIGNMENT - diff)), ALIGNMENT - diff + ALIGN_INFO)
      else (p, diff + ALIGN_INFO))"

definition UNALIGN :: "(nat \<Rightarrow> nat) \<Rightarrow> nat \<Rightarrow> nat" where
  "UNALIGN align_word ptr =
     (let diff = align_word ptr in
      if diff < ALIGNMENT + ALIGN_INFO then sub32 ptr diff else ptr)"

fun memset_loop :: "(nat \<Rightarrow> nat) \<Rightarrow> nat \<Rightarrow> nat \<Rightarrow> nat \<Rightarrow> nat \<Rightarrow> (nat \<Rightarrow> nat)" where
  "memset_loop mem s c i 0 = mem"
| "memset_loop mem s c i (Suc k) = memset_loop (mem(s + i := c)) s c (Suc i) k"

text \<open>A null destination faults, unless nothing is written.\<close>

definition liballoc_memset :: "(nat \<Rightarrow> nat) \<Rightarrow> nat option \<Rightarrow> nat \<Rightarrow> nat \<Rightarrow> (nat \<Rightarrow> nat) kres" where
  "liballoc_memset mem s c n =
     (case s of
        None \<Rightarrow> if n = 0 then Inr mem else Inl Null_deref
      | Some a \<Rightarrow> Inr (memset_loop mem a c 0 n))"

fun copy_bytes :: "(nat \<Rightarrow> nat) \<Rightarrow> nat \<Rightarrow> nat \<Rightarrow> nat \<Rightarrow> (nat \<Rightarrow> nat)" where
  "copy_bytes mem d s 0 = mem"
| "copy_bytes mem d s (Suc n) = copy_bytes (mem(d := mem s)) (Suc d) (Suc s) n"

text \<open>Whole words first: each is read before it is written.\<close>

function copy_words :: "(nat \<Rightarrow> nat) \<Rightarrow> nat \<Rightarrow> nat \<Rightarrow> nat \<Rightarrow> (nat \<Rightarrow> nat)" where
  "copy_words mem d s n =
     (if n \<ge> 4
      then copy_words (mem(d := mem s, d + 1 := mem (s + 1), d + 2 := mem (s + 2),
                           d + 3 := mem (s + 3))) (d + 4) (s + 4) (n - 4)
      else copy_bytes mem d s n)"
  by pat_completeness auto
termination by (relation "measure (\<lambda>(mem, d, s, n). n)") auto

declare copy_words.simps [simp del]

definition liballoc_memcpy :: "(nat \<Rightarrow> nat) \<Rightarrow> nat option \<Rightarrow> nat \<Rightarrow> nat \<Rightarrow> (nat \<Rightarrow> nat) kres" where
  "liballoc_memcpy mem d s n =
     (case d of
        None \<Rightarrow> if n = 0 then Inr mem else Inl Null_deref
      | Some a \<Rightarrow> Inr (copy_words mem a s n))"

section \<open>Allocation\<close>

type_synonym 'p page_alloc = "nat \<Rightarrow> 'p \<Rightarrow> (nat option \<times> 'p) kres"

type_synonym 'p page_free = "nat \<Rightarrow> nat \<Rightarrow> 'p \<Rightarrow> 'p kres"

text \<open>The number of pages that \<^verbatim>\<open>allocate_new_page\<close> asks for.\<close>

definition major_pages :: "nat \<Rightarrow> nat" where
  "major_pages sz =
     (let st = u32 (u32 (sz + sizeof_major) + sizeof_minor);
          st = (if st mod l_pageSize = 0 then st div l_pageSize else st div l_pageSize + 1)
      in if st < l_pageCount then l_pageCount else st)"

definition allocate_new_page ::
  "'p page_alloc \<Rightarrow> nat \<Rightarrow> 'p liballoc \<Rightarrow> (major option \<times> 'p liballoc) kres" where
  "allocate_new_page hook_alloc sz la =
     (let st = major_pages sz in
      bindR (hook_alloc st (l_sys la)) (\<lambda>(r, sys).
      case r of
        None \<Rightarrow> Inr (None, la\<lparr>l_warningCount := l_warningCount la + 1, l_sys := sys\<rparr>)
      | Some a \<Rightarrow>
          Inr (Some \<lparr>ma_addr = a, ma_pages = st, ma_size = u32 (st * l_pageSize),
                     ma_usage = sizeof_major, ma_minors = []\<rparr>,
               la\<lparr>l_allocated := l_allocated la + int (u32 (st * l_pageSize)), l_sys := sys\<rparr>)))"

text \<open>
  Writing a header at \<open>addr\<close> as the \<open>k\<close>-th minor of major \<open>i\<close> and aligning the pointer: the
  common part of the cases 2, 3, 4.1 and 4.2.
\<close>

definition place_minor ::
  "nat \<Rightarrow> nat \<Rightarrow> nat \<Rightarrow> nat \<Rightarrow> nat \<Rightarrow> 'p liballoc \<Rightarrow> (nat option \<times> 'p liballoc) kres" where
  "place_minor i k addr sz req_size la =
     bindR (aget (l_majors la) i) (\<lambda>maj.
     let m = \<lparr>mi_addr = addr, mi_size = sz, mi_req = req_size\<rparr>;
         maj' = maj\<lparr>ma_minors := take k (ma_minors maj) @ m # drop k (ma_minors maj),
                    ma_usage := u32 (ma_usage maj + u32 (sz + sizeof_minor))\<rparr>;
         (p, info) = ALIGN (u32 (addr + sizeof_minor))
     in Inr (Some p, la\<lparr>l_majors := (l_majors la)[i := maj'], l_inuse := l_inuse la + int sz,
                        l_magic := (l_magic la)(addr := LIBALLOC_MAGIC),
                        l_align := (l_align la)(p := info)\<rparr>))"

text \<open>
  The loop of case 4: the first minor behind which there is room, as the position and the address
  of the new header. \<open>e\<close> is the end of the major block.
\<close>

fun find_gap :: "nat \<Rightarrow> nat \<Rightarrow> minor list \<Rightarrow> nat \<Rightarrow> (nat \<times> nat) option" where
  "find_gap e sz [] k = None"
| "find_gap e sz [m] k =
     (if sub32 (sub32 (sub32 e (mi_addr m)) sizeof_minor) (mi_size m) \<ge> u32 (sz + sizeof_minor)
      then Some (Suc k, u32 (mi_addr m + sizeof_minor + mi_size m))
      else None)"
| "find_gap e sz (m # m' # ms) k =
     (if sub32 (sub32 (sub32 (mi_addr m') (mi_addr m)) sizeof_minor) (mi_size m)
           \<ge> u32 (sz + sizeof_minor)
      then Some (Suc k, u32 (mi_addr m + sizeof_minor + mi_size m))
      else find_gap e sz (m' # ms) (Suc k))"

text \<open>Cases 2, 3 and 4 for the major at index \<open>i\<close>: a pointer when it has room.\<close>

definition try_block :: "nat \<Rightarrow> nat \<Rightarrow> nat \<Rightarrow> 'p liballoc \<Rightarrow> (nat option \<times> 'p liballoc) kres" where
  "try_block sz req_size i la =
     bindR (aget (l_majors la) i) (\<lambda>maj.
     case ma_minors maj of
       [] \<Rightarrow> place_minor i 0 (u32 (ma_addr maj + sizeof_major)) sz req_size la
     | m # _ \<Rightarrow>
         if sub32 (sub32 (mi_addr m) (ma_addr maj)) sizeof_major \<ge> u32 (sz + sizeof_minor)
         then place_minor i 0 (u32 (ma_addr maj + sizeof_major)) sz req_size la
         else
           (case find_gap (u32 (ma_addr maj + ma_size maj)) sz (ma_minors maj) 0 of
              Some (k, addr) \<Rightarrow> place_minor i k addr sz req_size la
            | None \<Rightarrow> Inr (None, la)))"

text \<open>
  One round of the search loop: it is done (with the pointer, or with \<open>None\<close> when no memory is
  left), or goes on with the given \<^verbatim>\<open>startedBet\<close>, \<^verbatim>\<open>bestSize\<close> and index of the major.
\<close>

datatype la_outcome =
    La_done "nat option"
  | La_again bool nat nat

definition case5 ::
  "'p page_alloc \<Rightarrow> nat \<Rightarrow> bool \<Rightarrow> nat \<Rightarrow> nat \<Rightarrow> 'p liballoc \<Rightarrow> (la_outcome \<times> 'p liballoc) kres" where
  "case5 hook_alloc sz startedBet bestSize i la =
     (if Suc i < length (l_majors la) then Inr (La_again startedBet bestSize (Suc i), la)
      else if startedBet then Inr (La_again False bestSize 0, la)
      else
        bindR (allocate_new_page hook_alloc sz la) (\<lambda>(r, la').
        case r of
          None \<Rightarrow> Inr (La_done None, la')
        | Some maj \<Rightarrow>
            Inr (La_again startedBet bestSize (Suc i), la'\<lparr>l_majors := l_majors la' @ [maj]\<rparr>)))"

definition cases2_5 ::
  "'p page_alloc \<Rightarrow> nat \<Rightarrow> nat \<Rightarrow> bool \<Rightarrow> nat \<Rightarrow> nat \<Rightarrow> 'p liballoc
     \<Rightarrow> (la_outcome \<times> 'p liballoc) kres" where
  "cases2_5 hook_alloc sz req_size startedBet bestSize i la =
     bindR (try_block sz req_size i la) (\<lambda>(r, la').
     case r of
       Some p \<Rightarrow> Inr (La_done (Some p), la')
     | None \<Rightarrow> case5 hook_alloc sz startedBet bestSize i la')"

definition la_round ::
  "'p page_alloc \<Rightarrow> nat \<Rightarrow> nat \<Rightarrow> bool \<Rightarrow> nat \<Rightarrow> nat \<Rightarrow> 'p liballoc
     \<Rightarrow> (la_outcome \<times> 'p liballoc) kres" where
  "la_round hook_alloc sz req_size startedBet bestSize0 i la0 =
     bindR (aget (l_majors la0) i) (\<lambda>maj.
     let diff = sub32 (ma_size maj) (ma_usage maj);
         la = (if bestSize0 < diff then la0\<lparr>l_bestBet := Some (ma_addr maj)\<rparr> else la0);
         bestSize = (if bestSize0 < diff then diff else bestSize0)
     in if diff < u32 (sz + sizeof_minor)
        then
          if Suc i < length (l_majors la) then Inr (La_again startedBet bestSize (Suc i), la)
          else if startedBet then Inr (La_again False bestSize 0, la)
          else
            bindR (allocate_new_page hook_alloc sz la) (\<lambda>(r, la').
            case r of
              None \<Rightarrow> Inr (La_done None, la')
            | Some new \<Rightarrow>
                cases2_5 hook_alloc sz req_size startedBet bestSize (Suc i)
                  (la'\<lparr>l_majors := l_majors la' @ [new]\<rparr>))
        else cases2_5 hook_alloc sz req_size startedBet bestSize i la)"

fun la_loop ::
  "'p page_alloc \<Rightarrow> nat \<Rightarrow> nat \<Rightarrow> nat \<Rightarrow> bool \<Rightarrow> nat \<Rightarrow> nat \<Rightarrow> 'p liballoc
     \<Rightarrow> (nat option \<times> 'p liballoc) kres" where
  "la_loop hook_alloc 0 sz req_size startedBet bestSize i la = Inl Hang"
| "la_loop hook_alloc (Suc fuel) sz req_size startedBet bestSize i la =
     bindR (la_round hook_alloc sz req_size startedBet bestSize i la) (\<lambda>(out, la').
     case out of
       La_done r \<Rightarrow> Inr (r, la')
     | La_again sb bs i' \<Rightarrow> la_loop hook_alloc fuel sz req_size sb bs i' la')"

text \<open>The index of the major that \<^verbatim>\<open>l_bestBet\<close> points to; a dangling pointer has none.\<close>

fun index_of :: "nat \<Rightarrow> major list \<Rightarrow> nat option" where
  "index_of a [] = None"
| "index_of a (m # ms) = (if ma_addr m = a then Some 0 else map_option Suc (index_of a ms))"

definition best_start :: "nat \<Rightarrow> 'p liballoc \<Rightarrow> (bool \<times> nat \<times> nat) kres" where
  "best_start sz la =
     (case l_bestBet la of
        None \<Rightarrow> Inr (False, 0, 0)
      | Some a \<Rightarrow>
          (case index_of a (l_majors la) of
             None \<Rightarrow> Inl Bad_free
           | Some j \<Rightarrow>
               (let bestSize = sub32 (ma_size (l_majors la ! j)) (ma_usage (l_majors la ! j)) in
                if bestSize > u32 (sz + sizeof_minor) then Inr (True, bestSize, j)
                else Inr (False, bestSize, 0))))"

text \<open>
  \<^verbatim>\<open>la_malloc\<close> behind the alignment adjustment and the test for size 0. The search visits every major at most twice and a new one once: \<open>2 n + 3\<close> rounds
  are enough.
\<close>

definition la_malloc_sized ::
  "'p page_alloc \<Rightarrow> nat \<Rightarrow> nat \<Rightarrow> 'p liballoc \<Rightarrow> (nat option \<times> 'p liballoc) kres" where
  "la_malloc_sized hook_alloc sz req_size la0 =
     bindR (if l_majors la0 = []
            then bindR (allocate_new_page hook_alloc sz la0) (\<lambda>(r, la').
                 case r of
                   None \<Rightarrow> Inr (False, la')
                 | Some maj \<Rightarrow> Inr (True, la'\<lparr>l_majors := [maj]\<rparr>))
            else Inr (True, la0)) (\<lambda>(root, la).
     if \<not> root then Inr (None, la)
     else
       bindR (best_start sz la) (\<lambda>(startedBet, bestSize, i).
       la_loop hook_alloc (2 * length (l_majors la) + 3) sz req_size startedBet bestSize i la))"

text \<open>The request that makes the adjusted size 0 is retried with one byte.\<close>

definition la_malloc ::
  "'p page_alloc \<Rightarrow> nat \<Rightarrow> 'p liballoc \<Rightarrow> (nat option \<times> 'p liballoc) kres" where
  "la_malloc hook_alloc req_size la =
     (let sz = u32 (req_size + (ALIGNMENT + ALIGN_INFO)) in
      if sz = 0
      then la_malloc_sized hook_alloc (1 + (ALIGNMENT + ALIGN_INFO)) 1
             (la\<lparr>l_warningCount := l_warningCount la + 1\<rparr>)
      else la_malloc_sized hook_alloc sz req_size la)"

section \<open>Release\<close>

text \<open>
  \<^verbatim>\<open>la_free\<close> and \<^verbatim>\<open>la_realloc\<close> on a pointer whose header has the wrong magic number: only the
  error counters change.
\<close>

definition bad_magic :: "nat \<Rightarrow> 'p liballoc \<Rightarrow> 'p liballoc" where
  "bad_magic magic la =
     la\<lparr>l_errorCount := l_errorCount la + 1,
        l_possibleOverruns := l_possibleOverruns la +
          (if magic mod 2 ^ 24 = LIBALLOC_MAGIC mod 2 ^ 24
              \<or> magic mod 2 ^ 16 = LIBALLOC_MAGIC mod 2 ^ 16
              \<or> magic mod 2 ^ 8 = LIBALLOC_MAGIC mod 2 ^ 8 then 1 else 0)\<rparr>"

text \<open>
  The major and the position in it of the header at an address; the source finds them through
  the header's \<^verbatim>\<open>block\<close>, \<^verbatim>\<open>prev\<close> and \<^verbatim>\<open>next\<close> pointers. A magic number without a header behind
  it would send the source through stale pointers: \<open>Bad_free\<close>.
\<close>

fun minor_index :: "nat \<Rightarrow> minor list \<Rightarrow> nat option" where
  "minor_index a [] = None"
| "minor_index a (m # ms) = (if mi_addr m = a then Some 0 else map_option Suc (minor_index a ms))"

fun find_minor :: "nat \<Rightarrow> major list \<Rightarrow> (nat \<times> nat) option" where
  "find_minor a [] = None"
| "find_minor a (M # Ms) =
     (case minor_index a (ma_minors M) of
        Some k \<Rightarrow> Some (0, k)
      | None \<Rightarrow> map_option (\<lambda>(i, k). (Suc i, k)) (find_minor a Ms))"

definition remove_at :: "nat \<Rightarrow> 'a list \<Rightarrow> 'a list" where
  "remove_at k xs = take k xs @ drop (Suc k) xs"

text \<open>
  After the minor is unlinked: an empty major goes back to the page allocator, otherwise the major
  may become the best bet. The two sizes compared are signed there.
\<close>

definition release_major :: "'p page_free \<Rightarrow> nat \<Rightarrow> 'p liballoc \<Rightarrow> 'p liballoc kres" where
  "release_major hook_free i la =
     bindR (aget (l_majors la) i) (\<lambda>maj.
     if ma_minors maj = []
     then
       (let la' = la\<lparr>l_majors := remove_at i (l_majors la),
                     l_bestBet := (if l_bestBet la = Some (ma_addr maj) then None else l_bestBet la),
                     l_allocated := l_allocated la - int (ma_size maj)\<rparr> in
        bindR (hook_free (ma_pages maj) (ma_addr maj) (l_sys la')) (\<lambda>sys.
        Inr (la'\<lparr>l_sys := sys\<rparr>)))
     else
       (case l_bestBet la of
          None \<Rightarrow> Inr la
        | Some a \<Rightarrow>
            (case index_of a (l_majors la) of
               None \<Rightarrow> Inl Bad_free
             | Some j \<Rightarrow>
                 (let best = l_majors la ! j;
                      bestSize = s32 (int (sub32 (ma_size best) (ma_usage best)));
                      majSize = s32 (int (sub32 (ma_size maj) (ma_usage maj)))
                  in Inr (if majSize > bestSize then la\<lparr>l_bestBet := Some (ma_addr maj)\<rparr>
                          else la)))))"

definition la_free :: "'p page_free \<Rightarrow> nat option \<Rightarrow> 'p liballoc \<Rightarrow> 'p liballoc kres" where
  "la_free hook_free p la =
     (case p of
        None \<Rightarrow> Inr (la\<lparr>l_warningCount := l_warningCount la + 1\<rparr>)
      | Some a \<Rightarrow>
          (let min = sub32 (UNALIGN (l_align la) a) sizeof_minor in
           if l_magic la min \<noteq> LIBALLOC_MAGIC then Inr (bad_magic (l_magic la min) la)
           else
             (case find_minor min (l_majors la) of
                None \<Rightarrow> Inl Bad_free
              | Some (i, k) \<Rightarrow>
                  (let maj = l_majors la ! i;
                       m = ma_minors maj ! k;
                       maj' = maj\<lparr>ma_minors := remove_at k (ma_minors maj),
                                  ma_usage := sub32 (ma_usage maj) (u32 (mi_size m + sizeof_minor))\<rparr>
                   in release_major hook_free i
                        (la\<lparr>l_majors := (l_majors la)[i := maj'],
                            l_inuse := l_inuse la - int (mi_size m),
                            l_magic := (l_magic la)(min := LIBALLOC_DEAD)\<rparr>)))))"

definition la_calloc ::
  "'p page_alloc \<Rightarrow> nat \<Rightarrow> nat \<Rightarrow> 'p liballoc \<Rightarrow> (nat option \<times> 'p liballoc) kres" where
  "la_calloc hook_alloc nobj sz la =
     (let real_size = u32 (nobj * sz) in
      bindR (la_malloc hook_alloc real_size la) (\<lambda>(p, la').
      bindR (liballoc_memset (l_data la') p 0 real_size) (\<lambda>mem.
      Inr (p, la'\<lparr>l_data := mem\<rparr>))))"

text \<open>
  \<^verbatim>\<open>realloc\<close> reads the old block when it copies; that is an access to memory only as long as the
  block is allocated and the bytes are its own. Reading a block that has been freed is undefined in C:
  \<open>Out_of_bounds\<close>.
\<close>

definition block_readable :: "nat \<Rightarrow> nat \<Rightarrow> 'p liballoc \<Rightarrow> bool" where
  "block_readable a n la =
     (case find_minor (sub32 (UNALIGN (l_align la) a) sizeof_minor) (l_majors la) of
        None \<Rightarrow> False
      | Some (i, k) \<Rightarrow> n \<le> mi_req (ma_minors (l_majors la ! i) ! k))"

definition la_realloc ::
  "'p page_alloc \<Rightarrow> 'p page_free \<Rightarrow> nat option \<Rightarrow> nat \<Rightarrow> 'p liballoc
     \<Rightarrow> (nat option \<times> 'p liballoc) kres" where
  "la_realloc hook_alloc hook_free p sz la =
     (if sz = 0 then bindR (la_free hook_free p la) (\<lambda>la'. Inr (None, la'))
      else
        (case p of
           None \<Rightarrow> la_malloc hook_alloc sz la
         | Some a \<Rightarrow>
             (let min = sub32 (UNALIGN (l_align la) a) sizeof_minor in
              if l_magic la min \<noteq> LIBALLOC_MAGIC then Inr (None, bad_magic (l_magic la min) la)
              else
                (case find_minor min (l_majors la) of
                   None \<Rightarrow> Inl Bad_free
                 | Some (i, k) \<Rightarrow>
                     (let maj = l_majors la ! i; m = ma_minors maj ! k; real_size = mi_req m in
                      if real_size \<ge> sz
                      then Inr (p, la\<lparr>l_majors := (l_majors la)[i :=
                                 maj\<lparr>ma_minors := (ma_minors maj)[k := m\<lparr>mi_req := sz\<rparr>]\<rparr>]\<rparr>)
                      else
                        bindR (la_malloc hook_alloc sz la) (\<lambda>(ptr, la1).
                        guardR (block_readable a real_size la1) Out_of_bounds
                       (bindR (liballoc_memcpy (l_data la1) ptr a real_size) (\<lambda>mem.
                        bindR (la_free hook_free p (la1\<lparr>l_data := mem\<rparr>)) (\<lambda>la2.
                        Inr (ptr, la2))))))))))"

section \<open>Hooks\<close>

definition liballoc_alloc :: "nat \<Rightarrow> physmem \<Rightarrow> (nat option \<times> physmem) kres" where
  "liballoc_alloc pages p = memory_alloc pages p"

text \<open>The arguments are exchanged on the way to \<^verbatim>\<open>memory_free\<close>.\<close>

definition liballoc_free :: "nat \<Rightarrow> nat \<Rightarrow> physmem \<Rightarrow> physmem kres" where
  "liballoc_free pages ptr p = memory_free pages ptr p"

definition liballoc_subsystem :: "physmem liballoc mm_subsystem" where
  "liballoc_subsystem =
     \<lparr>mm_malloc = la_malloc liballoc_alloc,
      mm_free = la_free liballoc_free,
      mm_realloc = la_realloc liballoc_alloc liballoc_free\<rparr>"

definition init_liballoc ::
  "physmem liballoc mm_subsystem \<Rightarrow> physmem liballoc mm_subsystem" where
  "init_liballoc subsystem = set_mm_system subsystem liballoc_subsystem"

text \<open>
  The state before the first call: the static initialisers, with memory that holds anything.
\<close>

definition liballoc_initial ::
  "(nat \<Rightarrow> nat) \<Rightarrow> (nat \<Rightarrow> nat) \<Rightarrow> (nat \<Rightarrow> nat) \<Rightarrow> 'p \<Rightarrow> 'p liballoc" where
  "liballoc_initial magic align mem sys =
     \<lparr>l_majors = [], l_bestBet = None, l_allocated = 0, l_inuse = 0, l_warningCount = 0,
      l_errorCount = 0, l_possibleOverruns = 0, l_magic = magic, l_align = align, l_data = mem,
      l_sys = sys\<rparr>"

end
