(* ===== verification/Liballoc_Heap.thy ===== *)
theory Liballoc_Heap
  imports Liballoc
begin

text \<open>
  Correctness of the heap allocator: the invariant \<open>la_ok\<close> of its two-level structure, what each
  operation does to the set of live blocks, and the interpretation of the kernel heap's contract.
\<close>

section \<open>Bytes of blocks\<close>

lemma bytes_disjoint: "a + n \<le> b \<Longrightarrow> bytes a n \<inter> bytes b m = {}"
  by (auto simp: bytes_def)

lemma bytes_disjoint2: "a + n \<le> b \<Longrightarrow> bytes b m \<inter> bytes a n = {}"
  by (auto simp: bytes_def)

lemma bytes_mono: "b \<le> a \<Longrightarrow> a + n \<le> b + m \<Longrightarrow> bytes a n \<subseteq> bytes b m"
  by (auto simp: bytes_def)

lemma sub32_u32: "b \<le> a \<Longrightarrow> a - b < 4294967296 \<Longrightarrow> b \<le> 4294967296 \<Longrightarrow> sub32 (u32 a) b = a - b"
proof -
  assume a: "b \<le> a" "a - b < 4294967296" "b \<le> 4294967296"
  have "sub32 (u32 a) b = (a mod 2 ^ 32 + (2 ^ 32 - b)) mod 2 ^ 32"
    using a(3) by (simp add: sub32_def u32_def)
  also have "\<dots> = (a + (2 ^ 32 - b)) mod 2 ^ 32" by (simp add: mod_add_left_eq)
  also have "a + (2 ^ 32 - b) = (a - b) + 2 ^ 32" using a by simp
  finally show ?thesis using a(2) by simp
qed

section \<open>Alignment\<close>

lemma ALIGN_ok:
  assumes "a + 6 \<le> 4294967296" and "ALIGN a = (p, info)"
  shows "a + 2 \<le> p" and "p \<le> a + 5" and "p mod 4 = 0" and "info = p - a"
proof -
  have "a + 2 \<le> p \<and> p \<le> a + 5 \<and> p mod 4 = 0 \<and> info = p - a"
  proof (cases "(a + 2) mod 4 = 0")
    case True
    with assms show ?thesis by (auto simp: ALIGN_def ALIGN_INFO_def ALIGNMENT_def)
  next
    case False
    then have l: "1 \<le> (a + 2) mod 4" "(a + 2) mod 4 \<le> 3" by auto
    with False assms have p: "p = a + 2 + (4 - (a + 2) mod 4)" "info = 4 - (a + 2) mod 4 + 2"
      by (auto simp: ALIGN_def ALIGN_INFO_def ALIGNMENT_def Let_def)
    have m: "(a + 2 + (4 - (a + 2) mod 4)) mod 4 = 0" using l by presburger
    define r where "r = (a + 2) mod 4"
    have "1 \<le> r" "r \<le> 3" "p = a + 2 + (4 - r)" "info = 4 - r + 2" "p mod 4 = 0"
      using l p m unfolding r_def by simp_all
    then show ?thesis by arith
  qed
  then show "a + 2 \<le> p" "p \<le> a + 5" "p mod 4 = 0" "info = p - a" by auto
qed

section \<open>Minors of a block\<close>

lemmas la_consts = sizeof_minor_def sizeof_major_def l_pageSize_def l_pageCount_def
  ALIGN_INFO_def ALIGNMENT_def

definition user_ptr :: "minor \<Rightarrow> nat" where
  "user_ptr m = fst (ALIGN (u32 (mi_addr m + sizeof_minor)))"

definition extent :: "minor \<Rightarrow> nat set" where
  "extent m = bytes (mi_addr m) (sizeof_minor + mi_size m)"

text \<open>Headers and data follow each other between \<open>lo\<close> and \<open>hi\<close>, without overlap.\<close>

fun minors_ok :: "nat \<Rightarrow> nat \<Rightarrow> minor list \<Rightarrow> bool" where
  "minors_ok lo hi [] \<longleftrightarrow> lo \<le> hi"
| "minors_ok lo hi (m # ms) \<longleftrightarrow>
     lo \<le> mi_addr m \<and> mi_req m + 6 \<le> mi_size m
     \<and> minors_ok (mi_addr m + sizeof_minor + mi_size m) hi ms"

definition used_bytes :: "minor list \<Rightarrow> nat" where
  "used_bytes ms = sum_list (map (\<lambda>m. mi_size m + sizeof_minor) ms)"

lemma used_bytes_simps [simp]:
  "used_bytes [] = 0"
  "used_bytes (m # ms) = mi_size m + sizeof_minor + used_bytes ms"
  "used_bytes (xs @ ys) = used_bytes xs + used_bytes ys"
  by (simp_all add: used_bytes_def)

lemma minors_ok_le: "minors_ok lo hi ms \<Longrightarrow> lo + used_bytes ms \<le> hi"
  by (induction ms arbitrary: lo) fastforce+

lemma minors_ok_mono: "minors_ok lo hi ms \<Longrightarrow> lo' \<le> lo \<Longrightarrow> minors_ok lo' hi ms"
  by (cases ms) auto

lemma minors_ok_append:
  "minors_ok lo hi (xs @ ys) \<longleftrightarrow> (\<exists>mid. minors_ok lo mid xs \<and> minors_ok mid hi ys)"
proof (induction xs arbitrary: lo)
  case Nil
  show ?case using minors_ok_mono by auto
next
  case (Cons x xs)
  then show ?case by auto
qed

lemma minors_ok_mem:
  assumes "minors_ok lo hi ms" and "m \<in> set ms"
  shows "lo \<le> mi_addr m" and "mi_addr m + sizeof_minor + mi_size m \<le> hi"
    and "mi_req m + 6 \<le> mi_size m"
proof -
  from assms(2) obtain xs ys where ms: "ms = xs @ m # ys" by (meson split_list)
  with assms(1) obtain mid where "minors_ok lo mid xs" "mid \<le> mi_addr m"
    "mi_req m + 6 \<le> mi_size m" "minors_ok (mi_addr m + sizeof_minor + mi_size m) hi ys"
    by (auto simp: minors_ok_append)
  then show "lo \<le> mi_addr m" "mi_addr m + sizeof_minor + mi_size m \<le> hi" "mi_req m + 6 \<le> mi_size m"
    using minors_ok_le by fastforce+
qed

lemma minors_ok_disjoint:
  "minors_ok lo hi ms \<Longrightarrow> sorted_wrt (\<lambda>m n. extent m \<inter> extent n = {}) ms"
proof (induction ms arbitrary: lo)
  case Nil
  then show ?case by simp
next
  case (Cons m ms)
  then have "minors_ok (mi_addr m + sizeof_minor + mi_size m) hi ms" by simp
  then have "\<forall>n \<in> set ms. mi_addr m + sizeof_minor + mi_size m \<le> mi_addr n"
    using minors_ok_mem(1) by blast
  then have "\<forall>n \<in> set ms. extent m \<inter> extent n = {}"
    unfolding extent_def by (auto intro!: bytes_disjoint)
  with Cons show ?case by auto
qed

lemma minors_ok_remove: "minors_ok lo hi (xs @ m # ys) \<Longrightarrow> minors_ok lo hi (xs @ ys)"
proof -
  assume "minors_ok lo hi (xs @ m # ys)"
  then obtain mid where mid: "minors_ok lo mid xs" "mid \<le> mi_addr m"
    "minors_ok (mi_addr m + sizeof_minor + mi_size m) hi ys"
    by (auto simp: minors_ok_append)
  have "minors_ok mid hi ys" by (rule minors_ok_mono [OF mid(3)]) (use mid(2) in simp)
  with mid(1) show ?thesis by (auto simp: minors_ok_append)
qed

lemma user_ptr_props:
  assumes "mi_addr m + sizeof_minor + mi_size m \<le> 4294967296" and "mi_req m + 6 \<le> mi_size m"
  shows "mi_addr m + sizeof_minor + 2 \<le> user_ptr m" and "user_ptr m \<le> mi_addr m + sizeof_minor + 5"
    and "user_ptr m mod 4 = 0"
    and "ALIGN (u32 (mi_addr m + sizeof_minor)) = (user_ptr m, user_ptr m - (mi_addr m + sizeof_minor))"
    and "bytes (user_ptr m) (mi_req m) \<subseteq> extent m" and "user_ptr m \<in> extent m"
proof -
  let ?a = "mi_addr m + sizeof_minor"
  have a: "?a + 6 \<le> 4294967296" using assms by simp
  then have u: "u32 ?a = ?a" by simp
  obtain info where al: "ALIGN (u32 ?a) = (user_ptr m, info)"
    unfolding user_ptr_def by (metis prod.collapse)
  note k = ALIGN_ok [OF a al [unfolded u]]
  show "?a + 2 \<le> user_ptr m" "user_ptr m \<le> ?a + 5" "user_ptr m mod 4 = 0"
    using k by auto
  show "ALIGN (u32 ?a) = (user_ptr m, user_ptr m - ?a)" using al k by simp
  show "bytes (user_ptr m) (mi_req m) \<subseteq> extent m"
    unfolding extent_def by (rule bytes_mono) (use k assms in auto)
  show "user_ptr m \<in> extent m"
    unfolding extent_def bytes_def using k assms by auto
qed

section \<open>Searching a block for room\<close>

lemma find_gap_Some:
  assumes "find_gap (u32 hi) sz ms k0 = Some (k, a)" and "minors_ok lo hi ms"
    and "0 < lo" and "hi \<le> 4294967296" and "req + 6 \<le> sz" and "sz + sizeof_minor < 4294967296"
  shows "\<exists>ms1 ms2. ms = ms1 @ ms2 \<and> k = k0 + length ms1
    \<and> minors_ok lo hi (ms1 @ \<lparr>mi_addr = a, mi_size = sz, mi_req = req\<rparr> # ms2)"
  using assms
proof (induction "u32 hi" sz ms k0 arbitrary: lo rule: find_gap.induct)
  case (1 sz k0)
  then show ?case by simp
next
  case (2 sz m k0)
  let ?e = "mi_addr m + sizeof_minor + mi_size m"
  from "2.prems" have b: "lo \<le> mi_addr m" "mi_req m + 6 \<le> mi_size m" "?e \<le> hi" by auto
  have d: "sub32 (sub32 (sub32 (u32 hi) (mi_addr m)) sizeof_minor) (mi_size m) = hi - ?e"
    using b "2.prems"(3,4) sub32_u32 [of "mi_addr m" hi] by simp
  from "2.prems"(1) have g: "hi - ?e \<ge> sz + sizeof_minor" "k = Suc k0" "a = u32 ?e"
    using "2.prems"(6) by (auto simp: d split: if_splits)
  then have "a = ?e" using "2.prems"(4) b by (simp add: sizeof_minor_def)
  with g b "2.prems"(5) show ?case
    by (intro exI [of _ "[m]"] exI [of _ "[]"]) auto
next
  case (3 sz m m' ms k0)
  let ?e = "mi_addr m + sizeof_minor + mi_size m"
  from "3.prems" have b: "lo \<le> mi_addr m" "mi_req m + 6 \<le> mi_size m" "?e \<le> mi_addr m'"
    "minors_ok ?e hi (m' # ms)" by auto
  from minors_ok_mem(2) [OF b(4)] have m': "mi_addr m' \<le> 4294967296"
    using "3.prems"(4) by fastforce
  have d: "sub32 (sub32 (sub32 (mi_addr m') (mi_addr m)) sizeof_minor) (mi_size m) = mi_addr m' - ?e"
    using b m' "3.prems"(3) by simp
  show ?case
  proof (cases "mi_addr m' - ?e \<ge> u32 (sz + sizeof_minor)")
    case True
    with "3.prems"(1) have g: "k = Suc k0" "a = u32 ?e" by (auto simp: d)
    have "?e < 4294967296" using True "3.prems"(6) m' by (simp add: sizeof_minor_def)
    with g have "a = ?e" by simp
    with g True b "3.prems"(5,6) show ?thesis
      by (intro exI [of _ "[m]"] exI [of _ "m' # ms"]) auto
  next
    case False
    with "3.prems"(1) have "find_gap (u32 hi) sz (m' # ms) (Suc k0) = Some (k, a)" by (simp add: d)
    from "3.hyps" [OF False [folded d] this b(4)] "3.prems" obtain ms1 ms2 where
      "m' # ms = ms1 @ ms2" "k = Suc k0 + length ms1"
      "minors_ok ?e hi (ms1 @ \<lparr>mi_addr = a, mi_size = sz, mi_req = req\<rparr> # ms2)"
      by auto
    with b(1,2) show ?thesis
      by (intro exI [of _ "m # ms1"] exI [of _ ms2]) auto
  qed
qed

section \<open>The invariant\<close>

definition maj_bytes :: "major \<Rightarrow> nat set" where
  "maj_bytes M = bytes (ma_addr M) (ma_size M)"

definition major_ok :: "major \<Rightarrow> bool" where
  "major_ok M \<longleftrightarrow>
     0 < ma_pages M \<and> ma_size M = ma_pages M * 4096 \<and> 0 < ma_addr M \<and> ma_addr M mod 4096 = 0
     \<and> ma_addr M + ma_size M \<le> 4294967296
     \<and> minors_ok (ma_addr M + sizeof_major) (ma_addr M + ma_size M) (ma_minors M)
     \<and> ma_usage M = sizeof_major + used_bytes (ma_minors M)"

definition heap_blocks :: "major list \<Rightarrow> minor list" where
  "heap_blocks Ms = concat (map ma_minors Ms)"

definition majors_ok :: "major list \<Rightarrow> bool" where
  "majors_ok Ms \<longleftrightarrow> list_all major_ok Ms \<and> sorted_wrt (\<lambda>A B. A \<inter> B = {}) (map maj_bytes Ms)"

definition headers_ok :: "(nat \<Rightarrow> nat) \<Rightarrow> (nat \<Rightarrow> nat) \<Rightarrow> minor list \<Rightarrow> bool" where
  "headers_ok magic align ms \<longleftrightarrow>
     (\<forall>m \<in> set ms. magic (mi_addr m) = LIBALLOC_MAGIC
        \<and> align (user_ptr m) = user_ptr m - (mi_addr m + sizeof_minor))"

text \<open>The part of the invariant that speaks of the heap alone.\<close>

definition la_wf :: "'p liballoc \<Rightarrow> bool" where
  "la_wf la \<longleftrightarrow>
     majors_ok (l_majors la)
     \<and> headers_ok (l_magic la) (l_align la) (heap_blocks (l_majors la))
     \<and> l_inuse la = int (sum_list (map mi_size (heap_blocks (l_majors la))))
     \<and> l_allocated la = int (sum_list (map ma_size (l_majors la)))
     \<and> (\<forall>a. l_bestBet la = Some a \<longrightarrow> a \<in> ma_addr ` set (l_majors la))"

definition live :: "'p liballoc \<Rightarrow> nat \<Rightarrow> nat option" where
  "live la = map_of (map (\<lambda>m. (user_ptr m, mi_req m)) (heap_blocks (l_majors la)))"

lemma heap_blocks_simps [simp]:
  "heap_blocks [] = []"
  "heap_blocks (M # Ms) = ma_minors M @ heap_blocks Ms"
  "heap_blocks (Ms @ Ns) = heap_blocks Ms @ heap_blocks Ns"
  by (simp_all add: heap_blocks_def)

lemma majors_ok_simps [simp]:
  "majors_ok []"
  "majors_ok (M # Ms) \<longleftrightarrow>
     major_ok M \<and> majors_ok Ms \<and> (\<forall>N \<in> set Ms. maj_bytes M \<inter> maj_bytes N = {})"
  "majors_ok (Ms @ Ns) \<longleftrightarrow>
     majors_ok Ms \<and> majors_ok Ns \<and> (\<forall>M \<in> set Ms. \<forall>N \<in> set Ns. maj_bytes M \<inter> maj_bytes N = {})"
  by (auto simp: majors_ok_def sorted_wrt_append)

lemma majors_ok_mem: "majors_ok Ms \<Longrightarrow> M \<in> set Ms \<Longrightarrow> major_ok M"
  by (simp add: majors_ok_def list_all_iff)

lemma major_okD:
  assumes "major_ok M"
  shows "0 < ma_pages M" and "ma_size M = ma_pages M * 4096" and "0 < ma_addr M"
    and "ma_addr M mod 4096 = 0" and "ma_addr M + ma_size M \<le> 4294967296"
    and "minors_ok (ma_addr M + sizeof_major) (ma_addr M + ma_size M) (ma_minors M)"
    and "ma_usage M = sizeof_major + used_bytes (ma_minors M)"
  using assms unfolding major_ok_def by blast+

lemma heap_blocks_mem: "m \<in> set (heap_blocks Ms) \<longleftrightarrow> (\<exists>M \<in> set Ms. m \<in> set (ma_minors M))"
  by (auto simp: heap_blocks_def)

lemma minor_bounds:
  assumes "major_ok M" and "m \<in> set (ma_minors M)"
  shows "ma_addr M + sizeof_major \<le> mi_addr m"
    and "mi_addr m + sizeof_minor + mi_size m \<le> ma_addr M + ma_size M"
    and "mi_addr m + sizeof_minor + mi_size m \<le> 4294967296"
    and "mi_req m + 6 \<le> mi_size m"
    and "extent m \<subseteq> maj_bytes M"
proof -
  from assms(1) have b: "minors_ok (ma_addr M + sizeof_major) (ma_addr M + ma_size M) (ma_minors M)"
    "ma_addr M + ma_size M \<le> 4294967296" by (auto simp: major_ok_def)
  note c = minors_ok_mem [OF b(1) assms(2)]
  show "ma_addr M + sizeof_major \<le> mi_addr m" "mi_req m + 6 \<le> mi_size m"
    "mi_addr m + sizeof_minor + mi_size m \<le> ma_addr M + ma_size M" by fact+
  show "mi_addr m + sizeof_minor + mi_size m \<le> 4294967296" using c b by simp
  show "extent m \<subseteq> maj_bytes M"
    unfolding extent_def maj_bytes_def by (rule bytes_mono) (use c in auto)
qed

lemma blocks_bounds:
  assumes "majors_ok Ms" and "m \<in> set (heap_blocks Ms)"
  shows "mi_addr m + sizeof_minor + mi_size m \<le> 4294967296" and "mi_req m + 6 \<le> mi_size m"
    and "0 < mi_addr m"
  using assms minor_bounds(1,3,4) [OF majors_ok_mem [OF assms(1)]]
  by (auto simp: heap_blocks_mem sizeof_major_def) fastforce

lemma blocks_disjoint:
  "majors_ok Ms \<Longrightarrow> sorted_wrt (\<lambda>m n. extent m \<inter> extent n = {}) (heap_blocks Ms)"
proof (induction Ms)
  case Nil
  then show ?case by simp
next
  case (Cons M Ms)
  then have M: "major_ok M" and Ms: "majors_ok Ms"
    and d: "\<And>N. N \<in> set Ms \<Longrightarrow> maj_bytes M \<inter> maj_bytes N = {}" by auto
  have "sorted_wrt (\<lambda>m n. extent m \<inter> extent n = {}) (ma_minors M)"
    using M by (auto simp: major_ok_def intro: minors_ok_disjoint)
  moreover have "extent m \<inter> extent n = {}"
    if m: "m \<in> set (ma_minors M)" and n: "n \<in> set (heap_blocks Ms)" for m n
  proof -
    from n obtain N where N: "N \<in> set Ms" "n \<in> set (ma_minors N)" by (auto simp: heap_blocks_mem)
    have "extent n \<subseteq> maj_bytes N" by (rule minor_bounds(5)) (use N Ms majors_ok_mem in auto)
    with minor_bounds(5) [OF M m] d [OF N(1)] show ?thesis by blast
  qed
  ultimately show ?case using Cons.IH [OF Ms] by (simp add: sorted_wrt_append)
qed

lemma extent_addr: "mi_addr m \<in> extent m"
  by (simp add: extent_def bytes_def sizeof_minor_def)

lemma sorted_wrt_disjoint_eq:
  assumes "sorted_wrt (\<lambda>m n. f m \<inter> f n = {}) ms" and "m \<in> set ms" and "n \<in> set ms"
    and "x \<in> f m" and "x \<in> f n"
  shows "m = n"
  using assms by (induction ms) auto

lemma distinct_of_disjoint:
  assumes "sorted_wrt (\<lambda>m n. f m \<inter> f n = {}) ms" and "\<And>m. m \<in> set ms \<Longrightarrow> g m \<in> f m"
  shows "distinct (map g ms)"
  using assms by (induction ms) fastforce+

lemma distinct_ptrs:
  assumes "majors_ok Ms"
  shows "distinct (map user_ptr (heap_blocks Ms))" and "distinct (map mi_addr (heap_blocks Ms))"
    and "distinct (heap_blocks Ms)"
proof -
  show "distinct (map user_ptr (heap_blocks Ms))"
    by (rule distinct_of_disjoint [OF blocks_disjoint [OF assms]])
       (use blocks_bounds [OF assms] user_ptr_props(6) in auto)
  show "distinct (map mi_addr (heap_blocks Ms))"
    by (rule distinct_of_disjoint [OF blocks_disjoint [OF assms]]) (rule extent_addr)
  then show "distinct (heap_blocks Ms)" by (simp add: distinct_map)
qed

lemma live_iff:
  assumes "majors_ok (l_majors la)"
  shows "live la p = Some n \<longleftrightarrow>
    (\<exists>m \<in> set (heap_blocks (l_majors la)). user_ptr m = p \<and> mi_req m = n)"
proof -
  have "distinct (map fst (map (\<lambda>m. (user_ptr m, mi_req m)) (heap_blocks (l_majors la))))"
    using distinct_ptrs(1) [OF assms] by (simp add: comp_def)
  then show ?thesis unfolding live_def by (simp add: image_iff) (metis (no_types, lifting))
qed

lemma live_None_iff:
  "live la p = None \<longleftrightarrow> (\<forall>m \<in> set (heap_blocks (l_majors la)). user_ptr m \<noteq> p)"
  unfolding live_def by (auto simp: map_of_eq_None_iff image_iff)

lemma live_bytes_disjoint:
  assumes "majors_ok (l_majors la)" and "live la p = Some n" and "live la q = Some m" and "p \<noteq> q"
  shows "bytes p n \<inter> bytes q m = {}"
proof -
  from assms obtain a b where ab: "a \<in> set (heap_blocks (l_majors la))" "user_ptr a = p" "mi_req a = n"
    "b \<in> set (heap_blocks (l_majors la))" "user_ptr b = q" "mi_req b = m"
    by (auto simp: live_iff)
  have "bytes p n \<subseteq> extent a" "bytes q m \<subseteq> extent b"
    using ab blocks_bounds [OF assms(1)] user_ptr_props(5) by blast+
  moreover have "extent a \<inter> extent b = {}"
    using sorted_wrt_disjoint_eq [OF blocks_disjoint [OF assms(1)] ab(1,4)] ab assms(4) by blast
  ultimately show ?thesis by blast
qed

section \<open>Placing a block\<close>

lemma live_insert:
  assumes "majors_ok (l_majors la')" and "majors_ok (l_majors la)"
    and "heap_blocks (l_majors la') = B1 @ m # B2" and "heap_blocks (l_majors la) = B1 @ B2"
  shows "live la' = (live la)(user_ptr m \<mapsto> mi_req m)" and "live la (user_ptr m) = None"
proof -
  have d: "distinct (map user_ptr (B1 @ m # B2))" using distinct_ptrs(1) [OF assms(1)] assms(3) by simp
  show n: "live la (user_ptr m) = None" using d assms(4) by (auto simp: live_None_iff) (metis imageI)+
  have "user_ptr m \<notin> user_ptr ` set B1" using d by auto
  then have "map_of (map (\<lambda>m. (user_ptr m, mi_req m)) B1) (user_ptr m) = None"
    by (auto simp: map_of_eq_None_iff)
  then show "live la' = (live la)(user_ptr m \<mapsto> mi_req m)"
    unfolding live_def assms(3,4) by (auto simp: map_add_def fun_eq_iff split: option.splits)
qed

lemma live_remove:
  assumes "majors_ok (l_majors la)" and "majors_ok (l_majors la')"
    and "heap_blocks (l_majors la) = B1 @ m # B2" and "heap_blocks (l_majors la') = B1 @ B2"
  shows "live la' = (live la)(user_ptr m := None)"
  using live_insert [OF assms] by auto

lemma headers_ok_insert:
  assumes "headers_ok magic align (B1 @ B2)" and "distinct (map user_ptr (B1 @ m # B2))"
    and "distinct (map mi_addr (B1 @ m # B2))"
  shows "headers_ok (magic(mi_addr m := LIBALLOC_MAGIC))
     (align(user_ptr m := user_ptr m - (mi_addr m + sizeof_minor))) (B1 @ m # B2)"
  using assms unfolding headers_ok_def by (auto simp: image_iff)

definition same_rest :: "'p liballoc \<Rightarrow> 'p liballoc \<Rightarrow> bool" where
  "same_rest la la' \<longleftrightarrow> l_sys la' = l_sys la \<and> l_data la' = l_data la
     \<and> map maj_bytes (l_majors la') = map maj_bytes (l_majors la)"

lemma place_minor_ok:
  assumes wf: "la_wf la" and Ms: "l_majors la = Ms1 @ M # Ms2" and ms: "ma_minors M = ms1 @ ms2"
    and new: "new = \<lparr>mi_addr = addr, mi_size = sz, mi_req = req\<rparr>"
    and ok: "minors_ok (ma_addr M + sizeof_major) (ma_addr M + ma_size M) (ms1 @ new # ms2)"
  shows "\<exists>la'. place_minor (length Ms1) (length ms1) addr sz req la = Inr (Some (user_ptr new), la')
    \<and> la_wf la' \<and> live la' = (live la)(user_ptr new \<mapsto> req) \<and> live la (user_ptr new) = None
    \<and> user_ptr new mod 4 = 0 \<and> 0 < user_ptr new \<and> same_rest la la'"
proof -
  have Mok: "majors_ok (Ms1 @ M # Ms2)" and bb: "\<forall>a. l_bestBet la = Some a \<longrightarrow> a \<in> ma_addr ` set (Ms1 @ M # Ms2)"
    using wf Ms by (auto simp: la_wf_def)
  then have M: "major_ok M" by simp
  let ?M = "M\<lparr>ma_minors := ms1 @ new # ms2, ma_usage := u32 (ma_usage M + u32 (sz + sizeof_minor))\<rparr>"
  have us: "ma_usage M + (sz + sizeof_minor) = sizeof_major + used_bytes (ms1 @ new # ms2)"
    using M ms new by (simp add: major_ok_def)
  have "sizeof_major + used_bytes (ms1 @ new # ms2) \<le> ma_size M"
    using minors_ok_le [OF ok] by simp
  moreover have "ma_size M < 4294967296" using M by (auto simp: major_ok_def)
  ultimately have M': "major_ok ?M" using M ok us by (simp add: major_ok_def)
  have mb: "maj_bytes ?M = maj_bytes M" by (simp add: maj_bytes_def)
  have Ms': "majors_ok (Ms1 @ ?M # Ms2)" using Mok M' mb by simp
  let ?B1 = "heap_blocks Ms1 @ ms1" and ?B2 = "ms2 @ heap_blocks Ms2"
  have hb: "heap_blocks (Ms1 @ ?M # Ms2) = ?B1 @ new # ?B2"
    "heap_blocks (Ms1 @ M # Ms2) = ?B1 @ ?B2" using ms by simp_all
  have mem: "new \<in> set (ma_minors ?M)" by simp
  note b = minor_bounds [OF M' mem]
  note up = user_ptr_props [OF b(3,4)]
  let ?la = "la\<lparr>l_majors := Ms1 @ ?M # Ms2, l_inuse := l_inuse la + int sz,
     l_magic := (l_magic la)(addr := LIBALLOC_MAGIC),
     l_align := (l_align la)(user_ptr new := user_ptr new - (addr + sizeof_minor))\<rparr>"
  have run: "place_minor (length Ms1) (length ms1) addr sz req la = Inr (Some (user_ptr new), ?la)"
    using up(4) Ms ms new by (simp add: place_minor_def)
  have h: "headers_ok (l_magic ?la) (l_align ?la) (?B1 @ new # ?B2)"
    using headers_ok_insert [of "l_magic la" "l_align la" ?B1 ?B2 new] wf Ms hb
      distinct_ptrs [OF Ms'] new by (simp add: la_wf_def)
  have wf': "la_wf ?la"
    using wf Ms hb h Ms' bb new unfolding la_wf_def by (simp add: ms)
  have lv: "live ?la = (live la)(user_ptr new \<mapsto> req)" "live la (user_ptr new) = None"
    using live_insert [of ?la la ?B1 new ?B2] Ms' Mok Ms hb new by simp_all
  have sr: "same_rest la ?la" using Ms mb by (simp add: same_rest_def)
  have pos: "0 < user_ptr new" using up(1) by (simp add: sizeof_minor_def)
  show ?thesis by (intro exI [of _ ?la] conjI run wf' lv up(3) pos sr)
qed

text \<open>What a block promises when it is asked for room.\<close>

definition placed :: "'p liballoc \<Rightarrow> nat \<Rightarrow> nat \<Rightarrow> 'p liballoc \<Rightarrow> bool" where
  "placed la req p la' \<longleftrightarrow> la_wf la' \<and> live la' = (live la)(p \<mapsto> req) \<and> live la p = None
     \<and> p mod 4 = 0 \<and> 0 < p"

lemma try_block_ok:
  assumes wf: "la_wf la" and i: "i < length (l_majors la)" and sz: "req + 6 \<le> sz"
    "sz + sizeof_minor < 4294967296"
    and room: "ma_usage (l_majors la ! i) + sz + sizeof_minor \<le> ma_size (l_majors la ! i)"
  shows "try_block sz req i la = Inr (None, la) \<and> ma_minors (l_majors la ! i) \<noteq> [] \<or>
    (\<exists>p la'. try_block sz req i la = Inr (Some p, la') \<and> placed la req p la' \<and> same_rest la la')"
proof -
  let ?M = "l_majors la ! i" and ?Ms1 = "take i (l_majors la)" and ?Ms2 = "drop (Suc i) (l_majors la)"
  have Ms: "l_majors la = ?Ms1 @ ?M # ?Ms2" using i by (simp add: id_take_nth_drop)
  have len: "length ?Ms1 = i" using i by simp
  have "?M \<in> set (l_majors la)" using i by simp
  then have M: "major_ok ?M" using wf by (auto simp: la_wf_def intro: majors_ok_mem)
  have a: "0 < ma_addr ?M" "ma_addr ?M + ma_size ?M \<le> 4294967296" using M by (auto simp: major_ok_def)
  have mok: "minors_ok (ma_addr ?M + sizeof_major) (ma_addr ?M + ma_size ?M) (ma_minors ?M)"
    by (rule major_okD(6) [OF M])
  have u: "sizeof_major \<le> ma_usage ?M" using M by (simp add: major_ok_def)
  have fst: "u32 (ma_addr ?M + sizeof_major) = ma_addr ?M + sizeof_major"
    using a room u by (simp add: sizeof_minor_def)
  have at: ?thesis if "try_block sz req i la = place_minor i k addr sz req la"
    "ma_minors ?M = ms1 @ ms2" "k = length ms1"
    "minors_ok (ma_addr ?M + sizeof_major) (ma_addr ?M + ma_size ?M)
       (ms1 @ \<lparr>mi_addr = addr, mi_size = sz, mi_req = req\<rparr> # ms2)" for k addr ms1 ms2
    using place_minor_ok [OF wf Ms that(2) refl that(4)] that(1,3) len unfolding placed_def by auto
  show ?thesis
  proof (cases "ma_minors ?M")
    case Nil
    show ?thesis
      by (rule at [of 0 "ma_addr ?M + sizeof_major" "[]" "[]"])
         (use Nil i sz u room fst in \<open>auto simp: try_block_def\<close>)
  next
    case (Cons m ms)
    with mok have m: "ma_addr ?M + sizeof_major \<le> mi_addr m"
      "mi_addr m + sizeof_minor + mi_size m \<le> ma_addr ?M + ma_size ?M"
      using minors_ok_mem [OF mok, of m] by auto
    have d: "sub32 (sub32 (mi_addr m) (ma_addr ?M)) sizeof_major
        = mi_addr m - ma_addr ?M - sizeof_major" using m a by simp
    show ?thesis
    proof (cases "mi_addr m - ma_addr ?M - sizeof_major \<ge> sz + sizeof_minor")
      case True
      show ?thesis
        by (rule at [of 0 "ma_addr ?M + sizeof_major" "[]" "ma_minors ?M"])
           (use True Cons i sz mok fst d m in \<open>auto simp: try_block_def\<close>)
    next
      case False
      let ?g = "find_gap (u32 (ma_addr ?M + ma_size ?M)) sz (ma_minors ?M) 0"
      have tb: "try_block sz req i la =
         (case ?g of Some (k, addr) \<Rightarrow> place_minor i k addr sz req la | None \<Rightarrow> Inr (None, la))"
        using False Cons i sz d by (simp add: try_block_def)
      show ?thesis
      proof (cases ?g)
        case None
        with tb Cons show ?thesis by simp
      next
        case (Some ka)
        then obtain k addr where g: "?g = Some (k, addr)" by (cases ka) auto
        from find_gap_Some [OF g mok _ a(2) sz] a obtain ms1 ms2 where
          "ma_minors ?M = ms1 @ ms2" "k = length ms1"
          "minors_ok (ma_addr ?M + sizeof_major) (ma_addr ?M + ma_size ?M)
             (ms1 @ \<lparr>mi_addr = addr, mi_size = sz, mi_req = req\<rparr> # ms2)" by auto
        with tb g show ?thesis by (intro at [of k addr ms1 ms2]) auto
      qed
    qed
  qed
qed

section \<open>Finding the header of a live pointer\<close>

lemma minor_index_None: "minor_index a ms = None \<longleftrightarrow> a \<notin> mi_addr ` set ms"
  by (induction ms) auto

lemma minor_index_app:
  "a \<notin> mi_addr ` set ms1 \<Longrightarrow> mi_addr m = a \<Longrightarrow> minor_index a (ms1 @ m # ms2) = Some (length ms1)"
  by (induction ms1) auto

lemma find_minor_app:
  assumes "a \<notin> mi_addr ` set (heap_blocks Ms1)" and "minor_index a (ma_minors M) = Some k"
  shows "find_minor a (Ms1 @ M # Ms2) = Some (length Ms1, k)"
  using assms
proof (induction Ms1)
  case Nil
  then show ?case by simp
next
  case (Cons N Ms1)
  then have "minor_index a (ma_minors N) = None" by (auto simp: minor_index_None)
  with Cons show ?case by auto
qed

text \<open>A live pointer leads back to its header.\<close>

lemma live_header:
  assumes wf: "la_wf la" and lv: "live la p = Some n"
  obtains Ms1 M Ms2 ms1 m ms2 where "l_majors la = Ms1 @ M # Ms2" and "ma_minors M = ms1 @ m # ms2"
    and "user_ptr m = p" and "mi_req m = n"
    and "sub32 (UNALIGN (l_align la) p) sizeof_minor = mi_addr m"
    and "l_magic la (mi_addr m) = LIBALLOC_MAGIC"
    and "find_minor (mi_addr m) (l_majors la) = Some (length Ms1, length ms1)"
proof -
  have Ms: "majors_ok (l_majors la)" using wf by (simp add: la_wf_def)
  from lv obtain m where m: "m \<in> set (heap_blocks (l_majors la))" "user_ptr m = p" "mi_req m = n"
    by (auto simp: live_iff [OF Ms])
  then obtain M where M: "M \<in> set (l_majors la)" "m \<in> set (ma_minors M)" by (auto simp: heap_blocks_mem)
  from M(1) obtain Ms1 Ms2 where d1: "l_majors la = Ms1 @ M # Ms2" by (meson split_list)
  from M(2) obtain ms1 ms2 where d2: "ma_minors M = ms1 @ m # ms2" by (meson split_list)
  have dist: "distinct (map mi_addr (heap_blocks Ms1 @ ms1 @ m # ms2 @ heap_blocks Ms2))"
    using distinct_ptrs(2) [OF Ms] d1 d2 by simp
  have fm: "find_minor (mi_addr m) (l_majors la) = Some (length Ms1, length ms1)"
    unfolding d1 by (rule find_minor_app) (use dist d2 in \<open>auto intro: minor_index_app\<close>)
  have h: "l_magic la (mi_addr m) = LIBALLOC_MAGIC"
    "l_align la p = p - (mi_addr m + sizeof_minor)"
    using wf m by (auto simp: la_wf_def headers_ok_def)
  note b = blocks_bounds [OF Ms m(1)]
  note up = user_ptr_props [OF b(1,2), unfolded m(2)]
  have "sub32 (UNALIGN (l_align la) p) sizeof_minor = mi_addr m"
    using up(1,2) b by (simp add: UNALIGN_def h Let_def ALIGNMENT_def ALIGN_INFO_def)
  with that [OF d1 d2 m(2,3)] h fm show thesis by blast
qed

lemma remove_at_app [simp]: "remove_at (length xs) (xs @ y # ys) = xs @ ys"
  by (simp add: remove_at_def)

section \<open>Copying\<close>

lemma copy_bytes_ok:
  "s + n \<le> d \<or> d + n \<le> s \<Longrightarrow>
   copy_bytes mem d s n x = (if d \<le> x \<and> x < d + n then mem (s + (x - d)) else mem x)"
proof (induction n arbitrary: mem d s)
  case 0
  then show ?case by simp
next
  case (Suc n)
  have "Suc s + n \<le> Suc d \<or> Suc d + n \<le> Suc s" using Suc.prems by auto
  define mem' where "mem' = mem(d := mem s)"
  have m: "mem' d = mem s" "\<And>y. y \<noteq> d \<Longrightarrow> mem' y = mem y" by (simp_all add: mem'_def)
  have "copy_bytes mem d s (Suc n) x = copy_bytes mem' (Suc d) (Suc s) n x" by (simp add: mem'_def)
  also have "\<dots> = (if Suc d \<le> x \<and> x < Suc d + n then mem' (Suc s + (x - Suc d)) else mem' x)"
    by (rule Suc.IH [OF \<open>Suc s + n \<le> Suc d \<or> Suc d + n \<le> Suc s\<close>])
  also have "\<dots> = (if d \<le> x \<and> x < d + Suc n then mem (s + (x - d)) else mem x)"
  proof (cases "Suc d \<le> x \<and> x < Suc d + n")
    case True
    then have "Suc s + (x - Suc d) \<noteq> d" "Suc s + (x - Suc d) = s + (x - d)" using Suc.prems by auto
    with True m show ?thesis by auto
  next
    case False
    with m show ?thesis by (cases "x = d") auto
  qed
  finally show ?case .
qed

lemma copy_words_ok:
  "s + n \<le> d \<or> d + n \<le> s \<Longrightarrow>
   copy_words mem d s n x = (if d \<le> x \<and> x < d + n then mem (s + (x - d)) else mem x)"
proof (induction mem d s n rule: copy_words.induct)
  case (1 mem d s n)
  show ?case
  proof (cases "4 \<le> n")
    case False
    with copy_bytes_ok [OF "1.prems"] show ?thesis by (simp add: copy_words.simps)
  next
    case True
    let ?mem = "mem(d := mem s, d + 1 := mem (s + 1), d + 2 := mem (s + 2), d + 3 := mem (s + 3))"
    have "(s + 4) + (n - 4) \<le> d + 4 \<or> (d + 4) + (n - 4) \<le> s + 4" using "1.prems" True by auto
    note IH = "1.IH" [OF True this]
    define mem' where "mem' = ?mem"
    have m: "mem' d = mem s" "mem' (d + 1) = mem (s + 1)" "mem' (d + 2) = mem (s + 2)"
      "mem' (d + 3) = mem (s + 3)" by (simp_all add: mem'_def)
    have mo: "mem' y = mem y" if "y < d \<or> d + 4 \<le> y" for y using that by (auto simp: mem'_def)
    have e: "copy_words mem d s n x =
      (if d + 4 \<le> x \<and> x < d + 4 + (n - 4) then mem' (s + 4 + (x - (d + 4))) else mem' x)"
      using True IH unfolding mem'_def by (subst copy_words.simps) (simp only: fun_upd_def if_True)
    consider (lo) "x < d" | (hi) "d + n \<le> x" | (w) "x = d \<or> x = d + 1 \<or> x = d + 2 \<or> x = d + 3"
      | (rest) "d + 4 \<le> x" "x < d + n" using True by linarith
    then show ?thesis
    proof cases
      case rest
      then have eq: "s + 4 + (x - (d + 4)) = s + (x - d)" by simp
      have "s + (x - d) < d \<or> d + 4 \<le> s + (x - d)" using "1.prems" rest True by auto
      with e rest True eq mo show ?thesis by simp
    next
      case w
      with e True m show ?thesis by auto
    qed (use e True mo in auto)
  qed
qed

section \<open>Searching the heap\<close>

definition la_ok :: "('p \<Rightarrow> bool) \<Rightarrow> ('p \<Rightarrow> nat set) \<Rightarrow> 'p liballoc \<Rightarrow> bool" where
  "la_ok pages_ok owned la \<longleftrightarrow>
     la_wf la \<and> pages_ok (l_sys la) \<and> (\<forall>M \<in> set (l_majors la). maj_bytes M \<subseteq> owned (l_sys la))"

text \<open>
  The bytes that are handed out but not in a block of the heap: those of the allocator's other clients, and
  whatever has leaked.
\<close>

definition strays :: "('p \<Rightarrow> nat set) \<Rightarrow> 'p liballoc \<Rightarrow> nat set" where
  "strays owned la = owned (l_sys la) - (\<Union>M \<in> set (l_majors la). maj_bytes M)"

lemma strays_same_rest: "same_rest la la' \<Longrightarrow> strays ow la' = strays ow la"
proof -
  assume s: "same_rest la la'"
  then have "maj_bytes ` set (l_majors la') = maj_bytes ` set (l_majors la)"
    by (metis same_rest_def set_map)
  with s show ?thesis by (simp add: strays_def same_rest_def)
qed

lemma la_ok_same_rest:
  assumes "la_ok P ow la" and "la_wf la'" and "same_rest la la'"
  shows "la_ok P ow la'"
proof -
  have "maj_bytes ` set (l_majors la') = maj_bytes ` set (l_majors la)"
    using assms(3) by (metis same_rest_def set_map)
  then have "(\<Union>M \<in> set (l_majors la'). maj_bytes M) = (\<Union>M \<in> set (l_majors la). maj_bytes M)"
    by simp
  moreover have "(\<Union>M \<in> set (l_majors la). maj_bytes M) \<subseteq> ow (l_sys la)"
    using assms(1) by (simp add: la_ok_def UN_least)
  ultimately have "\<forall>M \<in> set (l_majors la'). maj_bytes M \<subseteq> ow (l_sys la)" by blast
  with assms show ?thesis by (simp add: la_ok_def same_rest_def)
qed

lemma live_upd [simp]:
  "live (la\<lparr>l_bestBet := b\<rparr>) = live la" "live (la\<lparr>l_warningCount := w\<rparr>) = live la"
  "live (la\<lparr>l_data := d\<rparr>) = live la" "live (la\<lparr>l_sys := s\<rparr>) = live la"
  by (simp_all add: live_def)

lemma la_wf_upd [simp]:
  "la_wf (la\<lparr>l_warningCount := w\<rparr>) = la_wf la" "la_wf (la\<lparr>l_data := d\<rparr>) = la_wf la"
  by (simp_all add: la_wf_def)

lemma la_ok_best:
  "la_ok P ow la \<Longrightarrow> M \<in> set (l_majors la) \<Longrightarrow> la_ok P ow (la\<lparr>l_bestBet := Some (ma_addr M)\<rparr>)"
  by (auto simp: la_ok_def la_wf_def)

lemma la_ok_major: "la_ok P ow la \<Longrightarrow> i < length (l_majors la) \<Longrightarrow> major_ok (l_majors la ! i)"
  by (auto simp: la_ok_def la_wf_def intro: majors_ok_mem)

lemma free_in_major:
  assumes "major_ok M"
  shows "ma_usage M \<le> ma_size M" and "sub32 (ma_size M) (ma_usage M) = ma_size M - ma_usage M"
proof -
  show "ma_usage M \<le> ma_size M"
    using minors_ok_le [OF major_okD(6) [OF assms]] major_okD(7) [OF assms] by simp
  then show "sub32 (ma_size M) (ma_usage M) = ma_size M - ma_usage M"
    using major_okD(3,5) [OF assms] by simp
qed

text \<open>The major at index \<open>i\<close> is new and large enough.\<close>

definition fresh_at :: "'p liballoc \<Rightarrow> nat \<Rightarrow> nat \<Rightarrow> bool" where
  "fresh_at la i sz \<longleftrightarrow>
     i < length (l_majors la) \<and> ma_minors (l_majors la ! i) = []
     \<and> ma_usage (l_majors la ! i) + sz + sizeof_minor \<le> ma_size (l_majors la ! i)"

text \<open>A request whose sizes stay below \<open>2 ^ 32\<close>.\<close>

definition fits :: "nat \<Rightarrow> nat \<Rightarrow> bool" where
  "fits req sz \<longleftrightarrow> req + 6 \<le> sz \<and> sz + 4192 \<le> 4294967296"

lemma major_pages_ok:
  assumes "sz + 4192 \<le> 4294967296"
  shows "0 < major_pages sz" and "sz + 48 \<le> major_pages sz * 4096"
proof -
  let ?s = "sz + 48"
  have u: "u32 (u32 (sz + sizeof_major) + sizeof_minor) = ?s"
    using assms by (simp add: sizeof_major_def sizeof_minor_def)
  have "?s = ?s div 4096 * 4096 + ?s mod 4096" "?s mod 4096 < 4096" by simp_all
  then have "?s \<le> (if ?s mod 4096 = 0 then ?s div 4096 else ?s div 4096 + 1) * 4096" by auto
  then show "?s \<le> major_pages sz * 4096"
    unfolding major_pages_def Let_def u by (auto simp: l_pageSize_def l_pageCount_def)
  then show "0 < major_pages sz" by (cases "major_pages sz") auto
qed

context page_provider
begin

lemma allocate_new_page_ok:
  assumes ok: "la_ok pages_ok owned la" and sz: "fits req sz"
  shows "allocate_new_page page_alloc sz la = Inr (None, la\<lparr>l_warningCount := l_warningCount la + 1\<rparr>)
    \<or> (\<exists>M la'. allocate_new_page page_alloc sz la = Inr (Some M, la')
        \<and> l_majors la' = l_majors la \<and> l_data la' = l_data la
        \<and> ma_minors M = [] \<and> ma_usage M + sz + sizeof_minor \<le> ma_size M
        \<and> la_ok pages_ok owned (la'\<lparr>l_majors := l_majors la @ [M]\<rparr>))"
proof -
  have "sz + 4192 \<le> 4294967296" using sz by (simp add: fits_def)
  note mp = major_pages_ok [OF this]
  have pk: "pages_ok (l_sys la)" using ok by (simp add: la_ok_def)
  from page_alloc_total [OF pk mp(1)] obtain r sys where
    r: "page_alloc (major_pages sz) (l_sys la) = Inr (r, sys)" "pages_ok sys" by blast
  show ?thesis
  proof (cases r)
    case None
    with r page_alloc_None [OF pk mp(1)] show ?thesis
      by (simp add: allocate_new_page_def)
  next
    case (Some a)
    note al = page_alloc_Some [OF pk mp(1) r(1) [unfolded Some]]
    let ?M = "\<lparr>ma_addr = a, ma_pages = major_pages sz, ma_size = major_pages sz * 4096,
               ma_usage = sizeof_major, ma_minors = []\<rparr>"
    let ?la = "la\<lparr>l_allocated := l_allocated la + int (major_pages sz * 4096), l_sys := sys\<rparr>"
    have "u32 (major_pages sz * l_pageSize) = major_pages sz * 4096"
      using al by (simp add: l_pageSize_def)
    then have run: "allocate_new_page page_alloc sz la = Inr (Some ?M, ?la)"
      using r(1) Some by (simp add: allocate_new_page_def Let_def)
    have M: "major_ok ?M" using al mp by (simp add: major_ok_def sizeof_major_def)
    have wf: "la_wf la" and sub: "\<forall>N \<in> set (l_majors la). maj_bytes N \<subseteq> owned (l_sys la)"
      using ok by (simp_all add: la_ok_def)
    have mb: "maj_bytes ?M = bytes a (major_pages sz * 4096)" by (simp add: maj_bytes_def)
    have dj: "\<forall>N \<in> set (l_majors la). maj_bytes N \<inter> maj_bytes ?M = {}"
      using sub al unfolding mb by blast
    have "la_wf (?la\<lparr>l_majors := l_majors la @ [?M]\<rparr>)"
      using wf M dj unfolding la_wf_def by auto
    then have "la_ok pages_ok owned (?la\<lparr>l_majors := l_majors la @ [?M]\<rparr>)"
      using r(2) sub al mb by (auto simp: la_ok_def)
    moreover have "ma_usage ?M + sz + sizeof_minor \<le> ma_size ?M"
      using mp by (simp add: sizeof_major_def sizeof_minor_def)
    ultimately show ?thesis using run by (intro disjI2 exI [of _ ?M] exI [of _ ?la]) simp
  qed
qed

lemma round_fresh:
  assumes ok: "la_ok pages_ok owned la" and sz: "fits req sz" and fr: "fresh_at la i sz"
  shows "\<exists>p la'. cases2_5 page_alloc sz req sb bs i la = Inr (La_done (Some p), la')
    \<and> la_ok pages_ok owned la' \<and> placed la req p la' \<and> l_data la' = l_data la"
    and "\<exists>p la'. la_round page_alloc sz req sb bs i la = Inr (La_done (Some p), la')
    \<and> la_ok pages_ok owned la' \<and> placed la req p la' \<and> l_data la' = l_data la"
proof -
  have i: "i < length (l_majors la)" and s: "req + 6 \<le> sz" "sz + sizeof_minor < 4294967296"
    and room: "ma_usage (l_majors la ! i) + sz + sizeof_minor \<le> ma_size (l_majors la ! i)"
    and e: "ma_minors (l_majors la ! i) = []"
    using fr sz by (auto simp: fresh_at_def fits_def sizeof_minor_def)
  have *: "\<exists>p la'. cases2_5 page_alloc sz req sb bs i la = Inr (La_done (Some p), la')
    \<and> la_ok pages_ok owned la' \<and> placed la0 req p la' \<and> l_data la' = l_data la"
    if ok: "la_ok pages_ok owned la" and room: "i < length (l_majors la)"
      "ma_usage (l_majors la ! i) + sz + sizeof_minor \<le> ma_size (l_majors la ! i)"
      "ma_minors (l_majors la ! i) = []" and lv: "live la0 = live la" for la la0 :: "'s liballoc" and sb bs
  proof -
    have wf: "la_wf la" using ok by (simp add: la_ok_def)
    from try_block_ok [OF wf room(1) s room(2)] room(3) obtain p la' where
      p: "try_block sz req i la = Inr (Some p, la')" "placed la req p la'" "same_rest la la'" by auto
    have "la_ok pages_ok owned la'"
      by (rule la_ok_same_rest [OF ok _ p(3)]) (use p(2) in \<open>simp add: placed_def\<close>)
    with p lv show ?thesis by (auto simp: cases2_5_def placed_def same_rest_def)
  qed
  show "\<exists>p la'. cases2_5 page_alloc sz req sb bs i la = Inr (La_done (Some p), la')
    \<and> la_ok pages_ok owned la' \<and> placed la req p la' \<and> l_data la' = l_data la"
    by (rule * [OF ok i room e refl])
  have M: "l_majors la ! i \<in> set (l_majors la)" using i by simp
  have d: "\<not> sub32 (ma_size (l_majors la ! i)) (ma_usage (l_majors la ! i)) < u32 (sz + sizeof_minor)"
    using free_in_major [OF la_ok_major [OF ok i]] room s by simp
  show "\<exists>p la'. la_round page_alloc sz req sb bs i la = Inr (La_done (Some p), la')
    \<and> la_ok pages_ok owned la' \<and> placed la req p la' \<and> l_data la' = l_data la"
    using * [OF ok i room e refl, of sb] * [OF la_ok_best [OF ok M], of la sb] i room e d
    by (simp add: la_round_def Let_def)
qed

text \<open>What one round can lead to.\<close>

definition round_post :: "'s liballoc \<Rightarrow> nat \<Rightarrow> nat \<Rightarrow> bool \<Rightarrow> nat \<Rightarrow> la_outcome \<Rightarrow> 's liballoc \<Rightarrow> bool" where
  "round_post la req sz sb i out la' \<longleftrightarrow>
     la_ok pages_ok owned la' \<and> l_data la' = l_data la \<and>
     (case out of
        La_done None \<Rightarrow> live la' = live la
      | La_done (Some p) \<Rightarrow> placed la req p la'
      | La_again sb' bs i' \<Rightarrow> live la' = live la \<and>
          (length (l_majors la') = length (l_majors la) \<and> i' < length (l_majors la)
             \<and> (sb' = sb \<and> i' = Suc i \<or> sb \<and> \<not> sb' \<and> i' = 0)
           \<or> fresh_at la' i' sz))"

lemma case5_ok:
  assumes ok: "la_ok pages_ok owned la" and sz: "fits req sz" and i: "i < length (l_majors la)"
    and lv: "live la = live la0" "l_data la = l_data la0" "length (l_majors la) = length (l_majors la0)"
  shows "\<exists>out la'. case5 page_alloc sz sb bs i la = Inr (out, la') \<and> round_post la0 req sz sb i out la'"
proof -
  consider (forth) "Suc i < length (l_majors la)" | (restart) "\<not> Suc i < length (l_majors la)" "sb"
    | (grow) "\<not> Suc i < length (l_majors la)" "\<not> sb" by blast
  then show ?thesis
  proof cases
    case forth
    with ok i lv show ?thesis by (simp add: case5_def round_post_def)
  next
    case restart
    with ok i lv show ?thesis by (auto simp: case5_def round_post_def)
  next
    case grow
    then have len: "length (l_majors la) = Suc i" using i by simp
    have "la_ok pages_ok owned (la\<lparr>l_warningCount := w\<rparr>)" for w using ok by (simp add: la_ok_def)
    with allocate_new_page_ok [OF ok sz] grow lv len show ?thesis
      by (auto simp: case5_def round_post_def fresh_at_def nth_append la_ok_def live_def)
  qed
qed

lemma round_ok:
  assumes ok: "la_ok pages_ok owned la" and sz: "fits req sz" and i: "i < length (l_majors la)"
  shows "\<exists>out la'. la_round page_alloc sz req sb bs i la = Inr (out, la')
    \<and> round_post la req sz sb i out la'"
proof -
  let ?M = "l_majors la ! i"
  define diff where "diff = sub32 (ma_size ?M) (ma_usage ?M)"
  define la1 where "la1 = (if bs < diff then la\<lparr>l_bestBet := Some (ma_addr ?M)\<rparr> else la)"
  define bs1 where "bs1 = (if bs < diff then diff else bs)"
  have M: "?M \<in> set (l_majors la)" using i by simp
  note df = free_in_major [OF la_ok_major [OF ok i]]
  have s: "req + 6 \<le> sz" "sz + sizeof_minor < 4294967296" using sz by (auto simp: fits_def sizeof_minor_def)
  have ok1: "la_ok pages_ok owned la1" using ok M by (simp add: la1_def la_ok_best)
  have eq: "l_majors la1 = l_majors la" "live la1 = live la" "l_data la1 = l_data la"
    by (simp_all add: la1_def)
  show ?thesis
  proof (cases "diff < sz + sizeof_minor")
    case False
    then have run: "la_round page_alloc sz req sb bs i la = cases2_5 page_alloc sz req sb bs1 i la1"
      using i s by (simp add: la_round_def Let_def diff_def la1_def bs1_def)
    have wf: "la_wf la1" using ok1 by (simp add: la_ok_def)
    have "ma_usage (l_majors la1 ! i) + sz + sizeof_minor \<le> ma_size (l_majors la1 ! i)"
      using False df by (simp add: diff_def eq)
    from try_block_ok [OF wf _ s this] i eq
    consider (full) "try_block sz req i la1 = Inr (None, la1)"
      | (hit) p la' where "try_block sz req i la1 = Inr (Some p, la')" "placed la1 req p la'"
        "same_rest la1 la'" by auto
    then show ?thesis
    proof cases
      case full
      with case5_ok [OF ok1 sz, of i la sb bs1] i eq run show ?thesis by (simp add: cases2_5_def)
    next
      case hit
      then have "la_ok pages_ok owned la'"
        by (intro la_ok_same_rest [OF ok1]) (simp_all add: placed_def)
      with hit eq run show ?thesis
        by (auto simp: cases2_5_def round_post_def placed_def same_rest_def)
    qed
  next
    case True
    then have run: "la_round page_alloc sz req sb bs i la =
       (if Suc i < length (l_majors la1) then Inr (La_again sb bs1 (Suc i), la1)
        else if sb then Inr (La_again False bs1 0, la1)
        else bindR (allocate_new_page page_alloc sz la1) (\<lambda>(r, la').
             case r of
               None \<Rightarrow> Inr (La_done None, la')
             | Some new \<Rightarrow> cases2_5 page_alloc sz req sb bs1 (Suc i)
                  (la'\<lparr>l_majors := l_majors la' @ [new]\<rparr>)))"
      unfolding la1_def bs1_def diff_def using i s by (simp add: la_round_def Let_def)
    show ?thesis
    proof (cases "Suc i < length (l_majors la) \<or> sb")
      case True
      with run ok1 eq i show ?thesis by (auto simp: round_post_def)
    next
      case False
      then have len: "length (l_majors la) = Suc i" using i by simp
      from allocate_new_page_ok [OF ok1 sz] show ?thesis
      proof (elim disjE exE conjE)
        assume "allocate_new_page page_alloc sz la1 = Inr (None, la1\<lparr>l_warningCount := l_warningCount la1 + 1\<rparr>)"
        with run False ok1 eq show ?thesis by (simp add: round_post_def la_ok_def)
      next
        fix N and la' :: "'s liballoc"
        let ?la = "la'\<lparr>l_majors := l_majors la1 @ [N]\<rparr>"
        assume N: "allocate_new_page page_alloc sz la1 = Inr (Some N, la')"
          "l_majors la' = l_majors la1" "l_data la' = l_data la1" "ma_minors N = []"
          "ma_usage N + sz + sizeof_minor \<le> ma_size N" "la_ok pages_ok owned ?la"
        have "fresh_at ?la (Suc i) sz" using N len eq by (simp add: fresh_at_def nth_append)
        from round_fresh(1) [OF N(6) sz this, of sb bs1] obtain p la2 where
          "cases2_5 page_alloc sz req sb bs1 (Suc i) ?la = Inr (La_done (Some p), la2)"
          "la_ok pages_ok owned la2" "placed ?la req p la2" "l_data la2 = l_data ?la" by blast
        moreover have "live ?la = live la" using N(4) eq by (simp add: live_def)
        ultimately show ?thesis
          using run False N(1-3) eq by (auto simp: round_post_def placed_def)
      qed
    qed
  qed
qed

text \<open>How a search ends.\<close>

definition malloc_post :: "'s liballoc \<Rightarrow> nat \<Rightarrow> nat option \<Rightarrow> 's liballoc \<Rightarrow> bool" where
  "malloc_post la req r la' \<longleftrightarrow>
     la_ok pages_ok owned la' \<and> l_data la' = l_data la \<and>
     (case r of None \<Rightarrow> live la' = live la | Some p \<Rightarrow> placed la req p la')"

lemma loop_ok:
  assumes "la_ok pages_ok owned la" and "fits req sz"
    and "i < length (l_majors la) \<and>
      (if sb then length (l_majors la) else 0) + (length (l_majors la) - i) + 1 \<le> fuel
      \<or> fresh_at la i sz \<and> 0 < fuel"
  shows "\<exists>r la'. la_loop page_alloc fuel sz req sb bs i la = Inr (r, la') \<and> malloc_post la req r la'"
  using assms
proof (induction fuel arbitrary: sb bs i la)
  case 0
  then show ?case by (auto simp: fresh_at_def)
next
  case (Suc fuel)
  show ?case
  proof (cases "fresh_at la i sz")
    case True
    from round_fresh(2) [OF Suc.prems(1,2) True, of sb bs] show ?thesis
      by (auto simp: malloc_post_def)
  next
    case False
    with Suc.prems(3) have i: "i < length (l_majors la)"
      and f: "(if sb then length (l_majors la) else 0) + (length (l_majors la) - i) \<le> fuel" by auto
    from round_ok [OF Suc.prems(1,2) i, of sb bs] obtain out la1 where
      r: "la_round page_alloc sz req sb bs i la = Inr (out, la1)" "round_post la req sz sb i out la1"
      by blast
    show ?thesis
    proof (cases out)
      case (La_done x)
      with r show ?thesis by (auto simp: round_post_def malloc_post_def split: option.splits)
    next
      case (La_again sb' bs' i')
      with r have p: "la_ok pages_ok owned la1" "live la1 = live la" "l_data la1 = l_data la"
        "length (l_majors la1) = length (l_majors la) \<and> i' < length (l_majors la)
             \<and> (sb' = sb \<and> i' = Suc i \<or> sb \<and> \<not> sb' \<and> i' = 0)
           \<or> fresh_at la1 i' sz" by (auto simp: round_post_def)
      have "i' < length (l_majors la1) \<and>
         (if sb' then length (l_majors la1) else 0) + (length (l_majors la1) - i') + 1 \<le> fuel
         \<or> fresh_at la1 i' sz \<and> 0 < fuel"
        using p(4) i f by auto
      from Suc.IH [OF p(1) Suc.prems(2) this, of bs'] obtain x la2 where
        x: "la_loop page_alloc fuel sz req sb' bs' i' la1 = Inr (x, la2)" "malloc_post la1 req x la2"
        by blast
      then have "malloc_post la req x la2"
        using p(2,3) by (cases x) (simp_all add: malloc_post_def placed_def)
      with x(1) r(1) La_again show ?thesis by simp
    qed
  qed
qed

lemma index_of_mem:
  "a \<in> ma_addr ` set Ms \<Longrightarrow> \<exists>j. index_of a Ms = Some j \<and> j < length Ms \<and> ma_addr (Ms ! j) = a"
  by (induction Ms) auto

lemma best_start_ok:
  assumes "la_ok pages_ok owned la" and "l_majors la \<noteq> []"
  shows "\<exists>sb bs i. best_start sz la = Inr (sb, bs, i) \<and> i < length (l_majors la)"
proof (cases "l_bestBet la")
  case None
  with assms show ?thesis by (auto simp: best_start_def)
next
  case (Some a)
  with assms have "a \<in> ma_addr ` set (l_majors la)" by (auto simp: la_ok_def la_wf_def)
  from index_of_mem [OF this] Some assms(2) show ?thesis
    by (auto simp: best_start_def Let_def)
qed

lemma malloc_sized_ok:
  assumes ok: "la_ok pages_ok owned la" and sz: "fits req sz"
  shows "\<exists>r la'. la_malloc_sized page_alloc sz req la = Inr (r, la') \<and> malloc_post la req r la'"
proof -
  have go: "\<exists>r la'. bindR (best_start sz la1) (\<lambda>(sb, bs, i).
      la_loop page_alloc (2 * length (l_majors la1) + 3) sz req sb bs i la1) = Inr (r, la')
      \<and> malloc_post la req r la'"
    if ok: "la_ok pages_ok owned la1" and ne: "l_majors la1 \<noteq> []" and eq: "live la1 = live la"
      "l_data la1 = l_data la" for la1
  proof -
    from best_start_ok [OF ok ne, of sz] obtain sb bs i where
      b: "best_start sz la1 = Inr (sb, bs, i)" "i < length (l_majors la1)" by blast
    have "(if sb then length (l_majors la1) else 0) + (length (l_majors la1) - i) + 1
        \<le> 2 * length (l_majors la1) + 3" by auto
    with loop_ok [OF ok sz, of i sb "2 * length (l_majors la1) + 3" bs] b(2) obtain r la' where
      r: "la_loop page_alloc (2 * length (l_majors la1) + 3) sz req sb bs i la1 = Inr (r, la')"
      "malloc_post la1 req r la'" by blast
    then have "malloc_post la req r la'"
      using eq by (cases r) (simp_all add: malloc_post_def placed_def)
    with r(1) b(1) show ?thesis by simp
  qed
  show ?thesis
  proof (cases "l_majors la = []")
    case False
    with go [OF ok False refl refl] show ?thesis by (simp add: la_malloc_sized_def)
  next
    case True
    from allocate_new_page_ok [OF ok sz] show ?thesis
    proof (elim disjE exE conjE)
      assume "allocate_new_page page_alloc sz la = Inr (None, la\<lparr>l_warningCount := l_warningCount la + 1\<rparr>)"
      with True ok show ?thesis by (simp add: la_malloc_sized_def malloc_post_def la_ok_def)
    next
      fix M and la' :: "'s liballoc"
      assume a: "allocate_new_page page_alloc sz la = Inr (Some M, la')"
        "l_majors la' = l_majors la" "l_data la' = l_data la" "ma_minors M = []"
        "la_ok pages_ok owned (la'\<lparr>l_majors := l_majors la @ [M]\<rparr>)"
      from True a have ok': "la_ok pages_ok owned (la'\<lparr>l_majors := [M]\<rparr>)" by simp
      from go [OF ok'] a True show ?thesis by (simp add: la_malloc_sized_def live_def)
    qed
  qed
qed

lemma malloc_ok:
  assumes "la_ok pages_ok owned la" and "n < MAX_REQUEST"
  shows "\<exists>r la'. la_malloc page_alloc n la = Inr (r, la') \<and> malloc_post la n r la'"
proof -
  have "u32 (n + (ALIGNMENT + ALIGN_INFO)) = n + 6"
    using assms(2) by (simp add: ALIGNMENT_def ALIGN_INFO_def MAX_REQUEST_def)
  moreover have "fits n (n + 6)" using assms(2) by (simp add: fits_def MAX_REQUEST_def)
  ultimately show ?thesis
    using malloc_sized_ok [OF assms(1), of n "n + 6"] by (simp add: la_malloc_def Let_def)
qed

lemma release_major_ok:
  assumes ok: "la_ok pages_ok owned la" and Ms: "l_majors la = Ms1 @ M # Ms2"
  shows "\<exists>la'. release_major page_free (length Ms1) la = Inr la' \<and> la_ok pages_ok owned la'
    \<and> live la' = live la \<and> l_data la' = l_data la \<and> strays owned la' = strays owned la"
proof (cases "ma_minors M = []")
  case True
  have wf: "la_wf la" and pk: "pages_ok (l_sys la)"
    and sub: "\<forall>N \<in> set (Ms1 @ M # Ms2). maj_bytes N \<subseteq> owned (l_sys la)"
    using ok Ms by (simp_all add: la_ok_def)
  have mok: "majors_ok (Ms1 @ M # Ms2)" using wf Ms by (simp add: la_wf_def)
  then have M: "major_ok M" by simp
  note d = major_okD [OF M]
  have "bytes (ma_addr M) (ma_pages M * 4096) \<subseteq> owned (l_sys la)"
    using sub d(2) by (auto simp: maj_bytes_def)
  from page_free_owned [OF pk d(1,3,4) this] obtain sys where
    s: "page_free (ma_pages M) (ma_addr M) (l_sys la) = Inr sys" "pages_ok sys"
      "owned sys = owned (l_sys la) - maj_bytes M" using d(2) by (auto simp: maj_bytes_def)
  let ?la = "la\<lparr>l_majors := Ms1 @ Ms2,
     l_bestBet := (if l_bestBet la = Some (ma_addr M) then None else l_bestBet la),
     l_allocated := l_allocated la - int (ma_size M), l_sys := sys\<rparr>"
  have run: "release_major page_free (length Ms1) la = Inr ?la"
    using True s(1) Ms by (simp add: release_major_def)
  have hb: "heap_blocks (Ms1 @ M # Ms2) = heap_blocks (Ms1 @ Ms2)" using True by simp
  have "la_wf ?la" using wf Ms mok hb unfolding la_wf_def by (auto split: if_splits)
  moreover have "\<forall>N \<in> set (Ms1 @ Ms2). maj_bytes N \<subseteq> owned sys"
  proof
    fix N
    assume N: "N \<in> set (Ms1 @ Ms2)"
    then have "maj_bytes N \<inter> maj_bytes M = {}" using mok by auto
    moreover have "maj_bytes N \<subseteq> owned (l_sys la)" using sub N by auto
    ultimately show "maj_bytes N \<subseteq> owned sys" unfolding s(3) by blast
  qed
  ultimately have "la_ok pages_ok owned ?la" using s(2) by (simp add: la_ok_def)
  moreover have "live ?la = live la" using Ms hb by (simp add: live_def)
  moreover have "strays owned ?la = strays owned la"
    unfolding strays_def using s(3) Ms by auto
  ultimately show ?thesis using run by auto
next
  case False
  have g: "release_major page_free (length Ms1) la =
    (case l_bestBet la of None \<Rightarrow> Inr la
     | Some a \<Rightarrow> (case index_of a (l_majors la) of None \<Rightarrow> Inl Bad_free
         | Some j \<Rightarrow> Inr (if s32 (int (sub32 (ma_size M) (ma_usage M)))
              > s32 (int (sub32 (ma_size (l_majors la ! j)) (ma_usage (l_majors la ! j))))
            then la\<lparr>l_bestBet := Some (ma_addr M)\<rparr> else la)))"
    using False Ms by (simp add: release_major_def Let_def split: option.splits)
  have okM: "la_ok pages_ok owned (la\<lparr>l_bestBet := Some (ma_addr M)\<rparr>)"
    by (rule la_ok_best [OF ok]) (simp add: Ms)
  show ?thesis
  proof (cases "l_bestBet la")
    case None
    with g ok show ?thesis by simp
  next
    case (Some a)
    with ok have "a \<in> ma_addr ` set (l_majors la)" by (auto simp: la_ok_def la_wf_def)
    moreover have "strays owned (la\<lparr>l_bestBet := Some (ma_addr M)\<rparr>) = strays owned la" by (simp add: strays_def)
    ultimately show ?thesis using index_of_mem Some g ok okM by fastforce
  qed
qed

lemma unlink_ok:
  assumes ok: "la_ok pages_ok owned la" and Ms: "l_majors la = Ms1 @ M # Ms2"
    and ms: "ma_minors M = ms1 @ m # ms2"
    and M': "M' = M\<lparr>ma_minors := ms1 @ ms2,
       ma_usage := sub32 (ma_usage M) (u32 (mi_size m + sizeof_minor))\<rparr>"
    and la': "la' = la\<lparr>l_majors := Ms1 @ M' # Ms2, l_inuse := l_inuse la - int (mi_size m),
       l_magic := (l_magic la)(mi_addr m := LIBALLOC_DEAD)\<rparr>"
  shows "la_ok pages_ok owned la' \<and> live la' = (live la)(user_ptr m := None) \<and> strays owned la' = strays owned la"
proof -
  have wf: "la_wf la" using ok by (simp add: la_ok_def)
  have mok: "majors_ok (Ms1 @ M # Ms2)" using wf Ms by (simp add: la_wf_def)
  then have M: "major_ok M" by simp
  note d = major_okD [OF M] and b = free_in_major [OF M]
  have us: "ma_usage M = sizeof_major + used_bytes (ms1 @ ms2) + (mi_size m + sizeof_minor)"
    using d(7) ms by simp
  then have "ma_usage M' = sizeof_major + used_bytes (ms1 @ ms2)"
    using b(1) d(3,5) M' by simp
  then have M'ok: "major_ok M'"
    using d minors_ok_remove [OF d(6) [unfolded ms]] M' by (simp add: major_ok_def)
  have mb: "maj_bytes M' = maj_bytes M" using M' by (simp add: maj_bytes_def)
  have mok': "majors_ok (Ms1 @ M' # Ms2)" using mok M'ok mb by simp
  let ?B1 = "heap_blocks Ms1 @ ms1" and ?B2 = "ms2 @ heap_blocks Ms2"
  have hb: "heap_blocks (Ms1 @ M # Ms2) = ?B1 @ m # ?B2"
    "heap_blocks (Ms1 @ M' # Ms2) = ?B1 @ ?B2" using ms M' by simp_all
  have dist: "distinct (map mi_addr (?B1 @ m # ?B2))" by (rule distinct_ptrs(2) [OF mok, unfolded hb(1)])
  have "headers_ok (l_magic la) (l_align la) (?B1 @ m # ?B2)" using wf Ms hb by (simp add: la_wf_def)
  then have h: "headers_ok (l_magic la') (l_align la') (?B1 @ ?B2)"
    using dist la' unfolding headers_ok_def by (auto simp: image_iff) (metis+)?
  have sz: "ma_size M' = ma_size M" "ma_addr M' = ma_addr M" using M' by simp_all
  have "la_wf la'"
    using wf Ms hb h mok' la' sz unfolding la_wf_def by simp
  moreover have sr: "same_rest la la'" using Ms mb la' by (simp add: same_rest_def)
  ultimately have "la_ok pages_ok owned la'" by (rule la_ok_same_rest [OF ok])
  moreover have "live la' = (live la)(user_ptr m := None)"
    by (rule live_remove [of _ _ ?B1 _ ?B2]) (use mok mok' Ms hb la' in simp_all)
  ultimately show ?thesis using strays_same_rest [OF sr] by blast
qed

lemma free_ok:
  assumes ok: "la_ok pages_ok owned la" and lv: "live la p = Some n"
  shows "\<exists>la'. la_free page_free (Some p) la = Inr la' \<and> la_ok pages_ok owned la'
    \<and> live la' = (live la)(p := None) \<and> l_data la' = l_data la \<and> strays owned la' = strays owned la"
proof -
  have wf: "la_wf la" using ok by (simp add: la_ok_def)
  obtain Ms1 M Ms2 ms1 m ms2 where h: "l_majors la = Ms1 @ M # Ms2" "ma_minors M = ms1 @ m # ms2"
    "user_ptr m = p" "mi_req m = n"
    "sub32 (UNALIGN (l_align la) p) sizeof_minor = mi_addr m"
    "l_magic la (mi_addr m) = LIBALLOC_MAGIC"
    "find_minor (mi_addr m) (l_majors la) = Some (length Ms1, length ms1)"
    by (rule live_header [OF wf lv])
  define M' where "M' = M\<lparr>ma_minors := ms1 @ ms2,
       ma_usage := sub32 (ma_usage M) (u32 (mi_size m + sizeof_minor))\<rparr>"
  define la1 where "la1 = la\<lparr>l_majors := Ms1 @ M' # Ms2, l_inuse := l_inuse la - int (mi_size m),
       l_magic := (l_magic la)(mi_addr m := LIBALLOC_DEAD)\<rparr>"
  note u = unlink_ok [OF ok h(1,2) M'_def la1_def]
  have "la_free page_free (Some p) la = release_major page_free (length Ms1) la1"
    using h by (simp add: la_free_def Let_def M'_def la1_def)
  with release_major_ok [of la1 Ms1 M' Ms2] u h(3) show ?thesis
    by (auto simp: la1_def)
qed

lemma free_null:
  assumes "la_ok pages_ok owned la"
  shows "\<exists>la'. la_free page_free None la = Inr la' \<and> la_ok pages_ok owned la' \<and> live la' = live la"
  using assms by (simp add: la_free_def la_ok_def)

lemma shrink_ok:
  assumes ok: "la_ok pages_ok owned la" and Ms: "l_majors la = Ms1 @ M # Ms2"
    and ms: "ma_minors M = ms1 @ m # ms2" and sz: "sz \<le> mi_req m"
    and M': "M' = M\<lparr>ma_minors := ms1 @ m\<lparr>mi_req := sz\<rparr> # ms2\<rparr>"
    and la': "la' = la\<lparr>l_majors := Ms1 @ M' # Ms2\<rparr>"
  shows "la_ok pages_ok owned la' \<and> live la' = (live la)(user_ptr m \<mapsto> sz)"
proof -
  have wf: "la_wf la" using ok by (simp add: la_ok_def)
  have mok: "majors_ok (Ms1 @ M # Ms2)" using wf Ms by (simp add: la_wf_def)
  then have M: "major_ok M" by simp
  note d = major_okD [OF M]
  let ?m = "m\<lparr>mi_req := sz\<rparr>"
  have up: "user_ptr ?m = user_ptr m" by (simp add: user_ptr_def)
  have "minors_ok (ma_addr M + sizeof_major) (ma_addr M + ma_size M) (ms1 @ ?m # ms2)"
    using d(6) ms sz by (auto simp: minors_ok_append)
  then have M'ok: "major_ok M'" using d ms M' by (simp add: major_ok_def)
  have mb: "maj_bytes M' = maj_bytes M" using M' by (simp add: maj_bytes_def)
  have mok': "majors_ok (Ms1 @ M' # Ms2)" using mok M'ok mb by simp
  let ?B1 = "heap_blocks Ms1 @ ms1" and ?B2 = "ms2 @ heap_blocks Ms2"
  have hb: "heap_blocks (Ms1 @ M # Ms2) = ?B1 @ m # ?B2"
    "heap_blocks (Ms1 @ M' # Ms2) = ?B1 @ ?m # ?B2" using ms M' by simp_all
  have h: "headers_ok (l_magic la') (l_align la') (?B1 @ ?m # ?B2)"
    using wf Ms hb la' up by (auto simp: la_wf_def headers_ok_def)
  have s: "ma_size M' = ma_size M" "ma_addr M' = ma_addr M" using M' by simp_all
  have "la_wf la'" using wf Ms hb h mok' la' s unfolding la_wf_def by simp
  moreover have "same_rest la la'" using Ms mb la' by (simp add: same_rest_def)
  ultimately have ok': "la_ok pages_ok owned la'" by (rule la_ok_same_rest [OF ok])
  define M0 where "M0 = M\<lparr>ma_minors := ms1 @ ms2,
     ma_usage := sub32 (ma_usage M) (u32 (mi_size m + sizeof_minor))\<rparr>"
  define la0 where "la0 = la\<lparr>l_majors := Ms1 @ M0 # Ms2, l_inuse := l_inuse la - int (mi_size m),
     l_magic := (l_magic la)(mi_addr m := LIBALLOC_DEAD)\<rparr>"
  note u = unlink_ok [OF ok Ms ms M0_def la0_def]
  then have "majors_ok (l_majors la0)" by (simp add: la_ok_def la_wf_def)
  moreover have "heap_blocks (l_majors la0) = ?B1 @ ?B2" by (simp add: la0_def M0_def)
  ultimately have "live la' = (live la0)(user_ptr ?m \<mapsto> mi_req ?m)"
    using mok' hb la' by (intro live_insert(1) [of _ _ ?B1 _ ?B2]) simp_all
  with u up ok' show ?thesis by simp
qed

lemma live_readable:
  assumes "la_wf la" and "live la p = Some n"
  shows "block_readable p n la"
proof -
  obtain Ms1 M Ms2 ms1 m ms2 where h: "l_majors la = Ms1 @ M # Ms2" "ma_minors M = ms1 @ m # ms2"
    "user_ptr m = p" "mi_req m = n" "sub32 (UNALIGN (l_align la) p) sizeof_minor = mi_addr m"
    "l_magic la (mi_addr m) = LIBALLOC_MAGIC"
    "find_minor (mi_addr m) (l_majors la) = Some (length Ms1, length ms1)"
    by (rule live_header [OF assms])
  then show ?thesis by (simp add: block_readable_def)
qed

text \<open>A smaller request shrinks the block in place.\<close>

lemma realloc_shrink:
  assumes ok: "la_ok pages_ok owned la" and lv: "live la p = Some n" and m: "0 < m" "m \<le> n"
  shows "\<exists>la'. la_realloc page_alloc page_free (Some p) m la = Inr (Some p, la')
    \<and> la_ok pages_ok owned la' \<and> live la' = (live la)(p \<mapsto> m) \<and> l_data la' = l_data la"
proof -
  have wf: "la_wf la" using ok by (simp add: la_ok_def)
  obtain Ms1 M Ms2 ms1 mi ms2 where h: "l_majors la = Ms1 @ M # Ms2" "ma_minors M = ms1 @ mi # ms2"
    "user_ptr mi = p" "mi_req mi = n"
    "sub32 (UNALIGN (l_align la) p) sizeof_minor = mi_addr mi"
    "l_magic la (mi_addr mi) = LIBALLOC_MAGIC"
    "find_minor (mi_addr mi) (l_majors la) = Some (length Ms1, length ms1)"
    by (rule live_header [OF wf lv])
  define M' where "M' = M\<lparr>ma_minors := ms1 @ mi\<lparr>mi_req := m\<rparr> # ms2\<rparr>"
  define la' where "la' = la\<lparr>l_majors := Ms1 @ M' # Ms2\<rparr>"
  have "la_realloc page_alloc page_free (Some p) m la = Inr (Some p, la')"
    using h m by (simp add: la_realloc_def Let_def M'_def la'_def)
  moreover have "la_ok pages_ok owned la' \<and> live la' = (live la)(p \<mapsto> m)"
    using shrink_ok [OF ok h(1,2) _ M'_def la'_def] h m by simp
  moreover have "l_data la' = l_data la" by (simp add: la'_def)
  ultimately show ?thesis by blast
qed

text \<open>
  A larger request allocates, copies and frees; the old block is still live when it is read.
\<close>

lemma realloc_grow:
  assumes ok: "la_ok pages_ok owned la" and lv: "live la p = Some n" and n: "0 < n"
    and m: "n < m" "m < MAX_REQUEST"
  obtains (none) la1 where "la_malloc page_alloc m la = Inr (None, la1)"
      "la_realloc page_alloc page_free (Some p) m la = Inl Null_deref"
  | (moved) q la1 la' where "la_malloc page_alloc m la = Inr (Some q, la1)"
      "la_realloc page_alloc page_free (Some p) m la = Inr (Some q, la')"
      "la_ok pages_ok owned la'" "live la' = ((live la)(p := None))(q \<mapsto> m)"
      "live la q = None" "\<forall>j < n. l_data la' (q + j) = l_data la (p + j)"
      "\<forall>x. x \<notin> bytes q n \<longrightarrow> l_data la' x = l_data la x"
proof -
  from malloc_ok [OF ok m(2)] obtain r la1 where
    r: "la_malloc page_alloc m la = Inr (r, la1)" "malloc_post la m r la1" by blast
  have wf: "la_wf la" using ok by (simp add: la_ok_def)
  obtain Ms1 M Ms2 ms1 mi ms2 where h: "l_majors la = Ms1 @ M # Ms2" "ma_minors M = ms1 @ mi # ms2"
    "user_ptr mi = p" "mi_req mi = n"
    "sub32 (UNALIGN (l_align la) p) sizeof_minor = mi_addr mi"
    "l_magic la (mi_addr mi) = LIBALLOC_MAGIC"
    "find_minor (mi_addr mi) (l_majors la) = Some (length Ms1, length ms1)"
    by (rule live_header [OF wf lv])
  have run: "la_realloc page_alloc page_free (Some p) m la =
      guardR (block_readable p n la1) Out_of_bounds (bindR (liballoc_memcpy (l_data la1) r p n) (\<lambda>mem.
      bindR (la_free page_free (Some p) (la1\<lparr>l_data := mem\<rparr>)) (\<lambda>la2. Inr (r, la2))))"
    using h m r(1) by (simp add: la_realloc_def Let_def)
  have la1: "la_ok pages_ok owned la1" "live la1 p = Some n"
    using r(2) lv by (cases r; auto simp: malloc_post_def placed_def)+
  then have "block_readable p n la1" by (simp add: live_readable la_ok_def)
  note run' = run [unfolded guardR_def if_P [OF this]]
  show thesis
  proof (cases r)
    case None
    with run' n have "la_realloc page_alloc page_free (Some p) m la = Inl Null_deref"
      by (simp add: liballoc_memcpy_def)
    with r(1) None show thesis by (intro none) simp_all
  next
    case (Some q)
    let ?la1 = "la1\<lparr>l_data := copy_words (l_data la1) q p n\<rparr>"
    from r(2) Some have q: "live la1 = (live la)(q \<mapsto> m)"
      "live la q = None" "l_data la1 = l_data la" by (auto simp: malloc_post_def placed_def)
    from q(2) lv have pq: "p \<noteq> q" by auto
    have "la_ok pages_ok owned ?la1" using la1(1) by (simp add: la_ok_def)
    moreover have "live ?la1 p = Some n" using la1(2) by simp
    ultimately obtain la2 where la2: "la_free page_free (Some p) ?la1 = Inr la2"
      "la_ok pages_ok owned la2" "live la2 = (live ?la1)(p := None)" "l_data la2 = l_data ?la1"
      using free_ok by blast
    have "majors_ok (l_majors la1)" using la1(1) by (simp add: la_ok_def la_wf_def)
    from live_bytes_disjoint [OF this, of p n q m] q(1) lv pq
    have dj: "bytes p n \<inter> bytes q m = {}" by simp
    have "p \<notin> bytes q m" "q \<notin> bytes p n" using dj n m(1) by (auto simp: bytes_def)
    then have "p + n \<le> q \<or> q + n \<le> p" using m(1) by (auto simp: bytes_def)
    then have "l_data la2 x = (if q \<le> x \<and> x < q + n then l_data la (p + (x - q)) else l_data la x)" for x
      using la2(4) q(3) by (simp add: copy_words_ok)
    then have "\<forall>j < n. l_data la2 (q + j) = l_data la (p + j)"
      and "\<forall>x. x \<notin> bytes q n \<longrightarrow> l_data la2 x = l_data la x" by (auto simp: bytes_def)
    moreover have "live la2 = ((live la)(p := None))(q \<mapsto> m)"
      using la2(3) q(1) pq by (simp add: fun_upd_twist)
    ultimately show thesis
      using run' Some la2(1,2) q(2) r(1) by (intro moved) (simp_all add: liballoc_memcpy_def)
  qed
qed

lemma realloc_ok:
  assumes ok: "la_ok pages_ok owned la" and lv: "live la p = Some n" and n: "0 < n"
    and m: "0 < m" "m < MAX_REQUEST"
  shows "la_realloc page_alloc page_free (Some p) m la = Inl Null_deref \<or>
    (\<exists>q la'. la_realloc page_alloc page_free (Some p) m la = Inr (Some q, la')
       \<and> la_ok pages_ok owned la' \<and> live la' = ((live la)(p := None))(q \<mapsto> m)
       \<and> (q = p \<or> live la q = None))"
proof (cases "m \<le> n")
  case True
  from realloc_shrink [OF ok lv m(1) True] show ?thesis by auto
next
  case False
  then have "n < m" by simp
  from ok lv n this m(2) show ?thesis by (cases rule: realloc_grow) auto
qed

end

section \<open>The kernel heap\<close>

definition phys_ready :: "physmem \<Rightarrow> bool" where
  "phys_ready p \<longleftrightarrow> physmem_ok p \<and> null_reserved p"

interpretation hooks: page_provider liballoc_alloc liballoc_free phys_ready phys_owned
  using phys.page_provider_axioms
  by (simp add: liballoc_alloc_def [abs_def] liballoc_free_def [abs_def] phys_ready_def [abs_def])

abbreviation kernel_heap_ok :: "physmem liballoc \<Rightarrow> bool" where
  "kernel_heap_ok \<equiv> la_ok phys_ready phys_owned"

lemma subsystem_simps [simp]:
  "kmalloc liballoc_subsystem n h = la_malloc liballoc_alloc n h"
  "kfree liballoc_subsystem p h = la_free liballoc_free p h"
  "krealloc liballoc_subsystem p n h = la_realloc liballoc_alloc liballoc_free p n h"
  by (simp_all add: kmalloc_def kfree_def krealloc_def liballoc_subsystem_def)

interpretation kheap: kernel_heap liballoc_subsystem kernel_heap_ok live
proof (unfold_locales, goal_cases)
  case (1 h n)
  then show ?case using hooks.malloc_ok [OF 1] by (auto simp: hooks.malloc_post_def)
next
  case (2 h n h')
  then show ?case using hooks.malloc_ok [OF 2(1,2)] by (auto simp: hooks.malloc_post_def)
next
  case (3 h n p h')
  then show ?case using hooks.malloc_ok [OF 3(1,2)] by (auto simp: hooks.malloc_post_def placed_def)
next
  case (4 h p n q m)
  then show ?case by (intro live_bytes_disjoint [of h]) (auto simp: la_ok_def la_wf_def)
next
  case (5 h p n)
  then show ?case using hooks.free_ok [OF 5] by auto
next
  case (6 h)
  then show ?case using hooks.free_null [OF 6] by simp
next
  case (7 h p n m)
  then show ?case using hooks.realloc_ok [OF 7] by auto
next
  case (8 r h)
  show ?case by (simp add: la_realloc_def)
next
  case (9 m h)
  then show ?case by (simp add: la_realloc_def)
qed

lemma liballoc_initial_ok: "phys_ready p \<Longrightarrow> kernel_heap_ok (liballoc_initial magic align mem p)"
  by (simp add: la_ok_def la_wf_def liballoc_initial_def headers_ok_def)

lemma live_initial [simp]: "live (liballoc_initial magic align mem p) = Map.empty"
  by (simp add: live_def liballoc_initial_def)

lemma live_owned:
  assumes ok: "la_ok P ow la" and lv: "live la p = Some n"
  shows "bytes p n \<subseteq> ow (l_sys la)"
proof -
  have Ms: "majors_ok (l_majors la)" using ok by (simp add: la_ok_def la_wf_def)
  from lv obtain m M where m: "M \<in> set (l_majors la)" "m \<in> set (ma_minors M)" "user_ptr m = p"
    "mi_req m = n" by (auto simp: live_iff [OF Ms] heap_blocks_mem)
  note b = minor_bounds [OF majors_ok_mem [OF Ms m(1)] m(2)]
  have "bytes p n \<subseteq> extent m" using user_ptr_props(5) [OF b(3,4)] m by simp
  with b(5) m(1) ok show ?thesis unfolding la_ok_def by blast
qed

text \<open>A page allocator with one major's worth of pages at 0x10000, for the examples.\<close>

definition demo_pages :: "nat \<Rightarrow> bool \<Rightarrow> (nat option \<times> bool) kres" where
  "demo_pages n s = Inr (if s \<and> n = 16 then (Some 65536, False) else (None, s))"

definition demo_heap :: "physmem liballoc" where
  "demo_heap = liballoc_initial (\<lambda>_. 0) (\<lambda>_. 0) (\<lambda>_. 0) demo_mem"

lemma demo_heap_ok: "kernel_heap_ok demo_heap"
  by (simp add: demo_heap_def liballoc_initial_ok phys_ready_def demo_mem_ok)

section \<open>Properties\<close>

text \<open>
  C1: With the allocator that the kernel installs at boot, \<^verbatim>\<open>kmalloc\<close> returns for every
  request below \<open>MAX_REQUEST\<close>. It refuses and leaves the live blocks alone, or it returns a
  non-null pointer, aligned to four bytes, to a block that was not live, that overlaps no live
  block, and that lies in pages obtained from the page allocator; exactly this block becomes live.
  The heap's invariant holds again: headers, usage counters, magic numbers and page ownership
  are consistent.
\<close>

theorem kmalloc_correct:
  assumes ok: "kernel_heap_ok h" and n: "n < MAX_REQUEST"
  shows "\<exists>r h'. kmalloc (init_liballoc s) n h = Inr (r, h') \<and> kernel_heap_ok h' \<and>
    (case r of
       None \<Rightarrow> live h' = live h
     | Some p \<Rightarrow> 0 < p \<and> p mod 4 = 0 \<and> live h p = None \<and> live h' = (live h)(p \<mapsto> n)
         \<and> (\<forall>q m. live h q = Some m \<longrightarrow> bytes p n \<inter> bytes q m = {})
         \<and> bytes p n \<subseteq> phys_owned (l_sys h'))"
proof -
  have i: "init_liballoc s = liballoc_subsystem" by (simp add: init_liballoc_def set_mm_system_def)
  show ?thesis
  proof (cases rule: kheap.malloc_cases [OF ok n])
    case (1 h')
    then show ?thesis unfolding i by simp
  next
    case some: (2 p h')
    have "bytes p n \<inter> bytes q m = {}" if "live h q = Some m" for q m
      using kheap.live_disjoint [OF some(2), of p n q m] some(5,6) that by (cases "p = q") auto
    moreover have "bytes p n \<subseteq> phys_owned (l_sys h')"
      using live_owned [OF some(2), of p n] some(6) by simp
    ultimately show ?thesis using some unfolding i by auto
  qed
qed

theorem kmalloc_correct_witness:
  "kernel_heap_ok demo_heap \<and> (100::nat) < MAX_REQUEST \<and>
   (\<exists>r h'. kmalloc (init_liballoc liballoc_subsystem) 100 demo_heap = Inr (r, h') \<and> kernel_heap_ok h')"
proof -
  have "(100::nat) < MAX_REQUEST" by (simp add: MAX_REQUEST_def)
  with kmalloc_correct [OF demo_heap_ok this, of liballoc_subsystem] demo_heap_ok show ?thesis by blast
qed

text \<open>
  C3: \<^verbatim>\<open>kfree\<close> of a live block returns, makes exactly this block dead and keeps the invariant;
  the alignment word and the magic number lead it back to the right header. A major block that
  becomes empty goes back to the page allocator.
\<close>

theorem kfree_correct:
  assumes ok: "kernel_heap_ok h" and lv: "live h p = Some n"
  shows "\<exists>h'. kfree (init_liballoc s) (Some p) h = Inr h' \<and> kernel_heap_ok h'
    \<and> live h' = (live h)(p := None)"
  using kheap.free_live [OF ok lv] by (simp add: init_liballoc_def set_mm_system_def)

definition demo_minor :: minor where
  "demo_minor = \<lparr>mi_addr = 4120, mi_size = 106, mi_req = 100\<rparr>"

definition demo_minor2 :: minor where
  "demo_minor2 = \<lparr>mi_addr = 4250, mi_size = 106, mi_req = 100\<rparr>"

definition demo_major :: major where
  "demo_major = \<lparr>ma_addr = 4096, ma_pages = 1, ma_size = 4096, ma_usage = 284,
     ma_minors = [demo_minor, demo_minor2]\<rparr>"

definition demo_used_heap :: "physmem liballoc" where
  "demo_used_heap = (liballoc_initial (\<lambda>_. LIBALLOC_MAGIC) (\<lambda>p. if p = 4276 then 2 else 4) (\<lambda>_. 7)
     (demo_mem\<lparr>memory_bitmap := [3], s_freePages := 6\<rparr>))
     \<lparr>l_majors := [demo_major], l_inuse := 212, l_allocated := 4096\<rparr>"

lemma demo_used_ptr: "user_ptr demo_minor = 4148" "user_ptr demo_minor2 = 4276"
  by (simp_all add: user_ptr_def ALIGN_def demo_minor_def demo_minor2_def la_consts)

lemma demo_used_heap_ok: "kernel_heap_ok demo_used_heap" "live demo_used_heap 4148 = Some 100"
  "live demo_used_heap 4276 = Some 100"
proof -
  let ?p = "demo_mem\<lparr>memory_bitmap := [3], s_freePages := 6\<rparr>"
  have p: "phys_ready ?p"
    by (simp add: phys_ready_def physmem_ok_def null_reserved_def card_free_set demo_mem_def used_def
          BLOCK_BITS_def PAGE_SIZE_def upt_rec)
  have "maj_bytes demo_major \<subseteq> phys_owned ?p"
  proof
    fix x
    assume "x \<in> maj_bytes demo_major"
    then have "4096 \<le> x" "x < 8192" by (auto simp: maj_bytes_def bytes_def demo_major_def)
    then have "x div 4096 = 1" by simp
    then show "x \<in> phys_owned ?p"
      using \<open>x < 8192\<close> by (simp add: phys_owned_iff demo_mem_def PAGE_SIZE_def used_def BLOCK_BITS_def)
  qed
  moreover have "major_ok demo_major"
    by (simp add: major_ok_def demo_major_def demo_minor_def demo_minor2_def la_consts)
  ultimately show "kernel_heap_ok demo_used_heap"
    using p demo_used_ptr
    by (simp add: la_ok_def la_wf_def demo_used_heap_def liballoc_initial_def headers_ok_def)
       (simp add: demo_major_def demo_minor_def demo_minor2_def sizeof_minor_def)
  show "live demo_used_heap 4148 = Some 100" "live demo_used_heap 4276 = Some 100"
    using demo_used_ptr by (simp_all add: live_def demo_used_heap_def demo_major_def)
       (simp_all add: demo_minor_def demo_minor2_def)
qed

theorem kfree_correct_witness:
  "\<exists>h'. kfree (init_liballoc liballoc_subsystem) (Some 4148) demo_used_heap = Inr h'
     \<and> live h' 4148 = None"
  using kfree_correct [OF demo_used_heap_ok(1,2)] by fastforce

text \<open>
  C4: \<^verbatim>\<open>krealloc\<close> of a live block of \<open>n > 0\<close> bytes to a non-zero size \<open>m\<close>. If \<open>m \<le> n\<close> the block
  stays where it is, with its contents, and only its size changes. Otherwise the call returns exactly
  when \<^verbatim>\<open>kmalloc\<close> of \<open>m\<close> bytes gives a block in this state: that block is the result, it has replaced the
  old one in the set of live blocks, and its first \<open>n\<close> bytes are the old contents, which were read
  while the old block was still allocated; every other live block keeps its contents. When \<^verbatim>\<open>kmalloc\<close>
  finds no memory, the copy goes to the null pointer.
\<close>

theorem krealloc_correct:
  assumes ok: "kernel_heap_ok h" and lv: "live h p = Some n" and n: "0 < n"
    and m: "0 < m" "m < MAX_REQUEST"
  shows "(m \<le> n \<and> (\<exists>h'. krealloc (init_liballoc s) (Some p) m h = Inr (Some p, h')
             \<and> kernel_heap_ok h' \<and> live h' = (live h)(p \<mapsto> m) \<and> l_data h' = l_data h))
    \<or> (n < m \<and> (\<exists>h1. kmalloc (init_liballoc s) m h = Inr (None, h1))
         \<and> krealloc (init_liballoc s) (Some p) m h = Inl Null_deref)
    \<or> (n < m \<and> (\<exists>q h1 h'. kmalloc (init_liballoc s) m h = Inr (Some q, h1)
             \<and> krealloc (init_liballoc s) (Some p) m h = Inr (Some q, h') \<and> kernel_heap_ok h'
             \<and> live h q = None \<and> live h' = ((live h)(p := None))(q \<mapsto> m)
             \<and> (\<forall>j < n. l_data h' (q + j) = l_data h (p + j))
             \<and> (\<forall>r k. live h r = Some k \<longrightarrow> r \<noteq> p \<longrightarrow> (\<forall>x \<in> bytes r k. l_data h' x = l_data h x))))"
proof (cases "m \<le> n")
  case True
  from hooks.realloc_shrink [OF ok lv m(1) True] True show ?thesis
    by (simp add: init_liballoc_def set_mm_system_def)
next
  case False
  then have nm: "n < m" by simp
  from ok lv n nm m(2) show ?thesis
  proof (cases rule: hooks.realloc_grow)
    case none
    with nm show ?thesis by (simp add: init_liballoc_def set_mm_system_def)
  next
    case (moved q la1 la')
    from kheap.malloc_Some [OF ok m(2), of q la1] moved(1)
    have "live la1 = (live h)(q \<mapsto> m)" by simp
    have "majors_ok (l_majors la')" using moved(3) by (simp add: la_ok_def la_wf_def)
    have "l_data la' x = l_data h x" if "live h r = Some k" "r \<noteq> p" "x \<in> bytes r k" for r k x
    proof -
      have "r \<noteq> q" using that(1) moved(5) by auto
      with live_bytes_disjoint [OF \<open>majors_ok (l_majors la')\<close>, of r k q m] that moved(4)
      have "x \<notin> bytes q m" by auto
      then have "x \<notin> bytes q n" using nm by (auto simp: bytes_def)
      with moved(7) show ?thesis by blast
    qed
    with moved nm show ?thesis by (simp add: init_liballoc_def set_mm_system_def)
  qed
qed

theorem krealloc_correct_witness:
  "(\<exists>h'. krealloc (init_liballoc liballoc_subsystem) (Some 4148) 10 demo_used_heap = Inr (Some 4148, h')
       \<and> live h' 4148 = Some 10)
   \<and> ((\<exists>h1. kmalloc (init_liballoc liballoc_subsystem) 200 demo_used_heap = Inr (None, h1)) \<or>
      (\<exists>q h'. krealloc (init_liballoc liballoc_subsystem) (Some 4148) 200 demo_used_heap = Inr (Some q, h')
         \<and> live h' 4148 = None \<and> (\<forall>j < 100. l_data h' (q + j) = 7)))"
proof -
  have c: "(0::nat) < 100" "(0::nat) < 10" "(10::nat) < MAX_REQUEST" "(0::nat) < 200" "(200::nat) < MAX_REQUEST"
    by (simp_all add: MAX_REQUEST_def)
  have d: "l_data demo_used_heap = (\<lambda>_. 7)" by (simp add: demo_used_heap_def liballoc_initial_def)
  have q: "\<not> (100::nat) < 10" "\<not> (200::nat) \<le> 100" by simp_all
  from krealloc_correct [OF demo_used_heap_ok(1,2) c(1,2,3), of liballoc_subsystem] q(1)
  obtain h' where h': "krealloc (init_liballoc liballoc_subsystem) (Some 4148) 10 demo_used_heap = Inr (Some 4148, h')"
    "live h' = (live demo_used_heap)(4148 \<mapsto> 10)" by blast
  have "(\<exists>h1. kmalloc (init_liballoc liballoc_subsystem) 200 demo_used_heap = Inr (None, h1)) \<or>
      (\<exists>q h'. krealloc (init_liballoc liballoc_subsystem) (Some 4148) 200 demo_used_heap = Inr (Some q, h')
         \<and> live demo_used_heap q = None \<and> live h' = ((live demo_used_heap)(4148 := None))(q \<mapsto> 200)
         \<and> (\<forall>j < 100. l_data h' (q + j) = l_data demo_used_heap (4148 + j)))"
    using krealloc_correct [OF demo_used_heap_ok(1,2) c(1,4,5), of liballoc_subsystem] q(2) by blast
  then have "(\<exists>h1. kmalloc (init_liballoc liballoc_subsystem) 200 demo_used_heap = Inr (None, h1)) \<or>
      (\<exists>q h'. krealloc (init_liballoc liballoc_subsystem) (Some 4148) 200 demo_used_heap = Inr (Some q, h')
         \<and> live h' 4148 = None \<and> (\<forall>j < 100. l_data h' (q + j) = 7))"
    using demo_used_heap_ok(2) unfolding d by (elim disjE exE conjE) (blast, fastforce)
  with h' show ?thesis by (metis fun_upd_same)
qed

text \<open>
  Remark: Releasing a block twice in a row is detected: the second \<^verbatim>\<open>la_free\<close> finds the dead magic
  number, counts an error and changes nothing else.
\<close>

theorem la_free_twice:
  assumes ok: "kernel_heap_ok h" and lv: "live h p = Some n"
  shows "\<exists>h1. la_free liballoc_free (Some p) h = Inr h1 \<and>
    la_free liballoc_free (Some p) h1 = Inr (h1\<lparr>l_errorCount := l_errorCount h1 + 1\<rparr>)"
proof -
  have wf: "la_wf h" using ok by (simp add: la_ok_def)
  obtain Ms1 M Ms2 ms1 m ms2 where h: "l_majors h = Ms1 @ M # Ms2" "ma_minors M = ms1 @ m # ms2"
    "user_ptr m = p" "mi_req m = n"
    "sub32 (UNALIGN (l_align h) p) sizeof_minor = mi_addr m"
    "l_magic h (mi_addr m) = LIBALLOC_MAGIC"
    "find_minor (mi_addr m) (l_majors h) = Some (length Ms1, length ms1)"
    by (rule live_header [OF wf lv])
  obtain h1 where h1: "la_free liballoc_free (Some p) h = Inr h1" using hooks.free_ok [OF ok lv] by blast
  with h have "l_align h1 = l_align h" "l_magic h1 = (l_magic h)(mi_addr m := LIBALLOC_DEAD)"
    by (auto simp: la_free_def release_major_def Let_def kres_simps split: if_splits option.splits)
  then have "la_free liballoc_free (Some p) h1 = Inr (bad_magic LIBALLOC_DEAD h1)"
    using h(5) by (simp add: la_free_def LIBALLOC_DEAD_def LIBALLOC_MAGIC_def)
  with h1 show ?thesis by (simp add: bad_magic_def LIBALLOC_DEAD_def LIBALLOC_MAGIC_def)
qed

theorem la_free_twice_witness:
  "\<exists>h1 h2. la_free liballoc_free (Some 4148) demo_used_heap = Inr h1 \<and>
     la_free liballoc_free (Some 4148) h1 = Inr h2 \<and> l_errorCount h2 = l_errorCount h1 + 1"
  using la_free_twice [OF demo_used_heap_ok(1,2)] by fastforce

text \<open>
  Remark: The sizes are not checked for overflow: a request of 4294967276 bytes, more than any page
  allocator can hold, is granted from a single minimal major of 16 pages, because the size with the
  headers wraps around to 34 bytes.
\<close>

theorem la_malloc_overflow:
  assumes "hook_alloc 16 sys = Inr (Some a, sys')" and "a mod 4096 = 0" and "a + 65536 \<le> 2 ^ 32"
  shows "\<exists>la'. la_malloc hook_alloc 4294967276 (liballoc_initial magic align mem sys)
     = Inr (Some (a + 52), la')"
proof -
  let ?la = "liballoc_initial magic align mem sys"
  let ?sz = "4294967282"
  let ?M = "\<lparr>ma_addr = a, ma_pages = 16, ma_size = 65536, ma_usage = 24, ma_minors = []\<rparr>"
  let ?la1 = "?la\<lparr>l_allocated := l_allocated ?la + 65536, l_sys := sys'\<rparr>"
  have anp: "allocate_new_page hook_alloc ?sz ?la = Inr (Some ?M, ?la1)"
    using assms(1) by (simp add: allocate_new_page_def major_pages_def la_consts u32_def
        liballoc_initial_def Let_def)
  have al: "ALIGN (48 + a) = (a + 52, 4)"
  proof -
    have "4 dvd a" by (rule dvd_trans [of _ 4096]) (use assms(2) in auto)
    then have "(a + 50) mod 4 = 2" by presburger
    then show ?thesis using assms(3) by (simp add: ALIGN_def la_consts add.commute)
  qed
  have "\<exists>la'. la_round hook_alloc ?sz 4294967276 False 0 0 (?la1\<lparr>l_majors := [?M]\<rparr>)
      = Inr (La_done (Some (a + 52)), la')"
    using assms(3) al
    by (simp add: la_round_def cases2_5_def try_block_def place_minor_def la_consts sub32_def u32_def
        Let_def)
  then obtain la' where r: "la_round hook_alloc ?sz 4294967276 False 0 0 (?la1\<lparr>l_majors := [?M]\<rparr>)
      = Inr (La_done (Some (a + 52)), la')" by blast
  have e: "l_majors ?la = []" "l_bestBet ?la = None" by (simp_all add: liballoc_initial_def)
  have "la_malloc hook_alloc 4294967276 ?la = la_malloc_sized hook_alloc ?sz 4294967276 ?la"
    by (simp add: la_malloc_def Let_def la_consts u32_def)
  also have "\<dots> = la_loop hook_alloc (Suc 4) ?sz 4294967276 False 0 0 (?la1\<lparr>l_majors := [?M]\<rparr>)"
    unfolding la_malloc_sized_def by (simp add: anp e best_start_def)
  also have "\<dots> = Inr (Some (a + 52), la')" unfolding la_loop.simps r by simp
  finally show ?thesis by blast
qed

theorem la_malloc_overflow_witness:
  "\<exists>la'. la_malloc demo_pages 4294967276 (liballoc_initial (\<lambda>_. 0) (\<lambda>_. 0) (\<lambda>_. 0) True)
     = Inr (Some 65588, la')"
proof -
  have "demo_pages 16 True = Inr (Some 65536, False)" by (simp add: demo_pages_def)
  from la_malloc_overflow [of demo_pages, OF this, of "\<lambda>_. 0" "\<lambda>_. 0" "\<lambda>_. 0"] show ?thesis by simp
qed

text \<open>An example heap with three blocks.\<close>

definition demo3_major :: major where
  "demo3_major = \<lparr>ma_addr = 4096, ma_pages = 1, ma_size = 4096, ma_usage = 414,
     ma_minors = [\<lparr>mi_addr = 4120, mi_size = 106, mi_req = 100\<rparr>, \<lparr>mi_addr = 4250, mi_size = 106, mi_req = 100\<rparr>,
                  \<lparr>mi_addr = 4380, mi_size = 106, mi_req = 100\<rparr>]\<rparr>"

definition demo3_heap :: "physmem liballoc" where
  "demo3_heap = (liballoc_initial (\<lambda>_. LIBALLOC_MAGIC) (\<lambda>p. if p = 4276 then 2 else 4) (\<lambda>_. 7)
     (demo_mem\<lparr>memory_bitmap := [3], s_freePages := 6\<rparr>))
     \<lparr>l_majors := [demo3_major], l_inuse := 318, l_allocated := 4096\<rparr>"

lemma demo3_heap_ok: "kernel_heap_ok demo3_heap" "live demo3_heap 4148 = Some 100"
  "live demo3_heap 4276 = Some 100" "live demo3_heap 4408 = Some 100"
proof -
  have maj: "maj_bytes demo3_major = maj_bytes demo_major"
    by (simp add: maj_bytes_def demo3_major_def demo_major_def)
  have "major_ok demo3_major" by (simp add: major_ok_def demo3_major_def la_consts)
  then show "kernel_heap_ok demo3_heap"
    using demo_used_heap_ok(1) maj
    by (simp add: la_ok_def la_wf_def demo3_heap_def demo_used_heap_def liballoc_initial_def headers_ok_def)
       (simp add: demo3_major_def sizeof_minor_def user_ptr_def ALIGN_def la_consts)
  show "live demo3_heap 4148 = Some 100" "live demo3_heap 4276 = Some 100" "live demo3_heap 4408 = Some 100"
    by (simp_all add: live_def demo3_heap_def demo3_major_def user_ptr_def ALIGN_def la_consts)
qed

end
