(* ===== verification/Iqueue.thy ===== *)
theory Iqueue
  imports Liballoc_Heap
begin

text \<open>
  The growing integer queue (\<^verbatim>\<open>kernel/ds/iqueue.c\<close>): a circular array that grows by a fixed
  step when it is full and shrinks by the same step when it empties. The array's cells are
  \<open>None\<close> until they are written. The allocator is a parameter and its state is passed along.

  \<open>iq_contents\<close> is the queue's list of numbers. The lemmas show that the queue is first-in
  first-out across growing and shrinking when the growth step divides the initial size, and the
  fixed-size use of it interprets \<open>bounded_fifo\<close>.
\<close>

section \<open>State and operations\<close>

definition IQUEUE_NOGROW :: nat where "IQUEUE_NOGROW = 1"

definition IQUEUE_NOSHRINK :: nat where "IQUEUE_NOSHRINK = 2"

record iqueue =
  iq_self :: nat
  iq_initial :: nat
  iq_grow :: nat
  iq_size :: nat
  iq_start :: nat
  iq_count :: nat
  iq_queue :: "nat option"
  iq_data :: "int option list"

text \<open>\<^verbatim>\<open>sizeof(struct iqueue)\<close>; the cells of a block of \<open>n\<close> bytes.\<close>

definition sizeof_iqueue :: nat where "sizeof_iqueue = 24"

definition int_cells :: "nat \<Rightarrow> int option list" where
  "int_cells n = replicate (n div 4) None"

definition iqueue_create ::
  "'h mm_subsystem \<Rightarrow> nat \<Rightarrow> nat \<Rightarrow> 'h \<Rightarrow> (iqueue option \<times> 'h) kres" where
  "iqueue_create sub initial_size grow_size h0 =
     bindR (kmalloc sub sizeof_iqueue h0) (\<lambda>(iq, h1).
     case iq of
       None \<Rightarrow> Inr (None, h1)
     | Some self \<Rightarrow>
         if initial_size > 0
         then
           (let bytes = u32 (4 * initial_size) in
            bindR (kmalloc sub bytes h1) (\<lambda>(queue, h2).
            case queue of
              None \<Rightarrow> bindR (kfree sub (Some self) h2) (\<lambda>h3. Inr (None, h3))
            | Some q \<Rightarrow>
                Inr (Some \<lparr>iq_self = self, iq_initial = initial_size, iq_grow = grow_size,
                           iq_size = initial_size, iq_start = 0, iq_count = 0,
                           iq_queue = Some q, iq_data = int_cells bytes\<rparr>, h2)))
         else
           Inr (Some \<lparr>iq_self = self, iq_initial = initial_size, iq_grow = grow_size,
                      iq_size = initial_size, iq_start = 0, iq_count = 0,
                      iq_queue = None, iq_data = []\<rparr>, h1))"

definition iqueue_destroy :: "'h mm_subsystem \<Rightarrow> iqueue \<Rightarrow> 'h \<Rightarrow> 'h kres" where
  "iqueue_destroy sub iq h =
     bindR (if iq_queue iq \<noteq> None then kfree sub (iq_queue iq) h else Inr h) (\<lambda>h1.
     kfree sub (Some (iq_self iq)) h1)"

text \<open>The copying loop of \<^verbatim>\<open>iqueue_add\<close> and \<^verbatim>\<open>iqueue_next\<close>: \<open>k\<close> rounds from index \<open>i\<close> on.\<close>

fun move_queue :: "iqueue \<Rightarrow> int option list \<Rightarrow> nat \<Rightarrow> nat \<Rightarrow> int option list kres" where
  "move_queue iq new_queue i 0 = Inr new_queue"
| "move_queue iq new_queue i (Suc k) =
     guardR (iq_size iq \<noteq> 0) Div_by_zero (
     bindR (cget (iq_data iq) (u32 (iq_start iq + i) mod iq_size iq)) (\<lambda>v.
     bindR (aput new_queue i (Some v)) (\<lambda>new.
     move_queue iq new (Suc i) k)))"

text \<open>Replacing the array by one of \<open>new_size\<close> elements at \<open>q\<close>.\<close>

definition resize_queue ::
  "'h mm_subsystem \<Rightarrow> iqueue \<Rightarrow> nat \<Rightarrow> nat \<Rightarrow> 'h \<Rightarrow> (iqueue \<times> 'h) kres" where
  "resize_queue sub iq q new_size h =
     bindR (move_queue iq (int_cells (u32 (new_size * 4))) 0 (iq_count iq)) (\<lambda>new_queue.
     bindR (kfree sub (iq_queue iq) h) (\<lambda>h1.
     Inr (iq\<lparr>iq_start := 0, iq_size := new_size, iq_queue := Some q, iq_data := new_queue\<rparr>, h1)))"

text \<open>The store at the end of \<^verbatim>\<open>iqueue_add\<close>.\<close>

definition iqueue_store :: "iqueue \<Rightarrow> int \<Rightarrow> iqueue kres" where
  "iqueue_store iq num =
     guardR (iq_size iq \<noteq> 0) Div_by_zero (
     bindR (aput (iq_data iq) (u32 (iq_start iq + iq_count iq) mod iq_size iq) (Some num)) (\<lambda>d.
     Inr (iq\<lparr>iq_count := u32 (iq_count iq + 1), iq_data := d\<rparr>)))"

definition iqueue_add ::
  "'h mm_subsystem \<Rightarrow> iqueue \<Rightarrow> int \<Rightarrow> nat \<Rightarrow> 'h \<Rightarrow> ((int \<times> iqueue) \<times> 'h) kres" where
  "iqueue_add sub iq num iqflags h =
     (if iq_size iq = iq_count iq
      then
        if iq_grow iq = 0 \<or> and iqflags IQUEUE_NOGROW = IQUEUE_NOGROW then Inr ((-1, iq), h)
        else
          bindR (kmalloc sub (u32 (u32 (iq_size iq + iq_grow iq) * 4)) h) (\<lambda>(new, h1).
          case new of
            None \<Rightarrow> Inr ((-1, iq), h1)
          | Some q \<Rightarrow>
              bindR (resize_queue sub iq q (u32 (iq_size iq + iq_grow iq)) h1) (\<lambda>(iq1, h2).
              bindR (iqueue_store iq1 num) (\<lambda>iq2. Inr ((0, iq2), h2))))
      else bindR (iqueue_store iq num) (\<lambda>iq2. Inr ((0, iq2), h)))"

definition iqueue_next ::
  "'h mm_subsystem \<Rightarrow> iqueue \<Rightarrow> nat \<Rightarrow> 'h \<Rightarrow> ((int \<times> iqueue) \<times> 'h) kres" where
  "iqueue_next sub iq0 iqflags h =
     assertR (iq_count iq0 > 0) (
     bindR (cget (iq_data iq0) (iq_start iq0)) (\<lambda>rc.
     guardR (iq_size iq0 \<noteq> 0) Div_by_zero (
     let iq = iq0\<lparr>iq_start := u32 (iq_start iq0 + 1) mod iq_size iq0, iq_count := iq_count iq0 - 1\<rparr> in
     if iq_grow iq \<noteq> 0 \<and> and iqflags IQUEUE_NOSHRINK \<noteq> IQUEUE_NOSHRINK
        \<and> iq_size iq > iq_initial iq \<and> iq_count iq mod iq_grow iq = 0
     then
       bindR (kmalloc sub (u32 (sub32 (iq_size iq) (iq_grow iq) * 4)) h) (\<lambda>(new, h1).
       case new of
         None \<Rightarrow> Inr ((rc, iq), h1)
       | Some q \<Rightarrow>
           bindR (resize_queue sub iq q (sub32 (iq_size iq) (iq_grow iq)) h1) (\<lambda>(iq1, h2).
           Inr ((rc, iq1), h2)))
     else Inr ((rc, iq), h))))"

definition iqueue_count :: "iqueue \<Rightarrow> nat" where
  "iqueue_count iq = iq_count iq"

section \<open>Invariant and contents\<close>

definition iq_contents :: "iqueue \<Rightarrow> int list" where
  "iq_contents iq = map the (ring (iq_data iq) (iq_start iq) (iq_count iq))"

definition iq_ok :: "iqueue \<Rightarrow> bool" where
  "iq_ok iq \<longleftrightarrow>
     length (iq_data iq) = iq_size iq \<and> iq_count iq \<le> iq_size iq
     \<and> (iq_start iq < iq_size iq \<or> iq_start iq = 0 \<and> iq_size iq = 0)
     \<and> iq_size iq < 2 ^ 29
     \<and> None \<notin> set (ring (iq_data iq) (iq_start iq) (iq_count iq))"

lemma iq_okD:
  assumes "iq_ok iq"
  shows "length (iq_data iq) = iq_size iq" and "iq_count iq \<le> iq_size iq"
    and "0 < iq_size iq \<Longrightarrow> iq_start iq < iq_size iq" and "iq_size iq < 536870912"
    and "iq_start iq \<le> iq_size iq"
  using assms by (auto simp: iq_ok_def)

lemma length_iq_contents [simp]: "length (iq_contents iq) = iq_count iq"
  by (simp add: iq_contents_def)

lemma iq_ok_nth:
  assumes "iq_ok iq" and "i < iq_count iq"
  shows "iq_data iq ! ((iq_start iq + i) mod iq_size iq) = Some (iq_contents iq ! i)"
proof -
  have "ring (iq_data iq) (iq_start iq) (iq_count iq) ! i
      \<in> set (ring (iq_data iq) (iq_start iq) (iq_count iq))" by (rule nth_mem) (use assms in simp)
  then have "ring (iq_data iq) (iq_start iq) (iq_count iq) ! i \<noteq> None"
    using assms(1) unfolding iq_ok_def by metis
  with assms show ?thesis by (simp add: iq_contents_def iq_ok_def)
qed

lemma iqueue_store_ok:
  assumes ok: "iq_ok iq" and room: "iq_count iq < iq_size iq"
  shows "\<exists>iq'. iqueue_store iq num = Inr iq' \<and> iq_ok iq' \<and> iq_contents iq' = iq_contents iq @ [num]
    \<and> iq_size iq' = iq_size iq \<and> iq_grow iq' = iq_grow iq \<and> iq_initial iq' = iq_initial iq
    \<and> iq_queue iq' = iq_queue iq \<and> iq_self iq' = iq_self iq"
proof -
  note d = iq_okD [OF ok]
  let ?p = "(iq_start iq + iq_count iq) mod iq_size iq"
  let ?iq = "iq\<lparr>iq_count := Suc (iq_count iq), iq_data := (iq_data iq)[?p := Some num]\<rparr>"
  have "iqueue_store iq num = Inr ?iq"
    using d room by (simp add: iqueue_store_def)
  moreover have r: "ring (iq_data ?iq) (iq_start ?iq) (iq_count ?iq)
      = ring (iq_data iq) (iq_start iq) (iq_count iq) @ [Some num]"
    using ring_snoc [of "iq_count iq" "iq_data iq" "iq_start iq" "Some num"] room d(1) by simp
  moreover have "iq_contents ?iq = iq_contents iq @ [num]" unfolding iq_contents_def r by simp
  moreover have "iq_ok ?iq" using ok room r unfolding iq_ok_def by simp
  ultimately show ?thesis by simp
qed

lemma move_queue_ok:
  assumes ok: "iq_ok iq" and n: "iq_count iq \<le> length new" and i: "i + k = iq_count iq"
  shows "\<exists>new'. move_queue iq new i k = Inr new' \<and> length new' = length new
    \<and> take i new' = take i new
    \<and> take k (drop i new') = map Some (drop i (iq_contents iq))"
  using n i
proof (induction k arbitrary: i new)
  case 0
  then show ?case by simp
next
  case (Suc k)
  note d = iq_okD [OF ok]
  have lt: "i < iq_count iq" using Suc.prems by simp
  then have sz: "0 < iq_size iq" using d by simp
  have nth: "iq_data iq ! ((iq_start iq + i) mod iq_size iq) = Some (iq_contents iq ! i)"
    by (rule iq_ok_nth [OF ok lt])
  let ?new = "new[i := Some (iq_contents iq ! i)]"
  have step: "move_queue iq new i (Suc k) = move_queue iq ?new (Suc i) k"
    using sz d lt nth Suc.prems by simp
  from Suc.IH [of ?new "Suc i"] Suc.prems obtain new' where
    n': "move_queue iq ?new (Suc i) k = Inr new'" "length new' = length new"
      "take (Suc i) new' = take (Suc i) ?new"
      "take k (drop (Suc i) new') = map Some (drop (Suc i) (iq_contents iq))" by auto
  have il: "i < length new" using Suc.prems lt by simp
  then have "new' ! i = ?new ! i" using n'(2,3) by (metis lessI nth_take)
  then have e: "new' ! i = Some (iq_contents iq ! i)" using il by simp
  have "take i new' = take i new"
    using n'(3) by (metis lessI list_update_beyond min.absorb1 take_take take_update_cancel
        less_imp_le order_refl)
  moreover have "take (Suc k) (drop i new') = map Some (drop i (iq_contents iq))"
    using e n'(2,4) il lt by (simp add: Cons_nth_drop_Suc [symmetric])
  ultimately show ?case using step n'(1,2) by simp
qed

text \<open>The array is a live block of the heap, and the structure another one.\<close>

definition iq_live :: "(nat \<Rightarrow> nat option) \<Rightarrow> iqueue \<Rightarrow> bool" where
  "iq_live lv iq \<longleftrightarrow>
     lv (iq_self iq) \<noteq> None \<and>
     (case iq_queue iq of None \<Rightarrow> iq_size iq = 0 | Some q \<Rightarrow> lv q \<noteq> None \<and> q \<noteq> iq_self iq)"

lemma iq_ok_start0:
  assumes "take (iq_count iq) d = map Some (iq_contents iq0)" and "iq_start iq = 0"
    and "iq_data iq = d" and "length d = iq_size iq" and "iq_count iq = iq_count iq0"
    and "iq_count iq \<le> iq_size iq" and "iq_size iq < 536870912"
  shows "iq_ok iq" and "iq_contents iq = iq_contents iq0"
proof -
  have r: "ring (iq_data iq) (iq_start iq) (iq_count iq) = map Some (iq_contents iq0)"
    using assms by (simp add: ring_linear)
  show "iq_contents iq = iq_contents iq0" unfolding iq_contents_def [of iq] r by (simp add: comp_def)
  show "iq_ok iq" using assms r by (auto simp: iq_ok_def)
qed

context kernel_heap
begin

lemma resize_queue_ok:
  assumes ok: "iq_ok iq" and fit: "iq_count iq \<le> n" and n: "n < 536870912"
    and h: "heap_ok h" and lv: "iq_live (live h) iq" and q: "live h q \<noteq> None"
    "q \<noteq> iq_self iq" "iq_queue iq \<noteq> Some q"
  shows "\<exists>iq' h'. resize_queue subsystem iq q n h = Inr (iq', h') \<and> heap_ok h' \<and> iq_ok iq'
    \<and> iq_contents iq' = iq_contents iq \<and> iq_live (live h') iq' \<and> iq_size iq' = n
    \<and> iq_grow iq' = iq_grow iq \<and> iq_initial iq' = iq_initial iq \<and> iq_count iq' = iq_count iq"
proof -
  have cells: "length (int_cells (u32 (n * 4))) = n" using n by (simp add: int_cells_def)
  from move_queue_ok [OF ok, of "int_cells (u32 (n * 4))" 0 "iq_count iq"] fit cells obtain d where
    d: "move_queue iq (int_cells (u32 (n * 4))) 0 (iq_count iq) = Inr d" "length d = n"
      "take (iq_count iq) d = map Some (iq_contents iq)" by auto
  let ?iq = "iq\<lparr>iq_start := 0, iq_size := n, iq_queue := Some q, iq_data := d\<rparr>"
  have f: "\<exists>h'. kfree subsystem (iq_queue iq) h = Inr h' \<and> heap_ok h' \<and> iq_live (live h') ?iq"
  proof (cases "iq_queue iq")
    case None
    with free_null [OF h] q lv show ?thesis by (auto simp: iq_live_def)
  next
    case (Some p)
    with lv obtain k where "live h p = Some k" by (auto simp: iq_live_def)
    from free_live [OF h this] Some q lv show ?thesis by (auto simp: iq_live_def)
  qed
  have "iq_ok ?iq" "iq_contents ?iq = iq_contents iq"
    by (rule iq_ok_start0 [of ?iq d iq]; use d fit n in simp)+
  with f d(1) show ?thesis by (auto simp: resize_queue_def)
qed

text \<open>What \<^verbatim>\<open>iqueue_add\<close> promises: the number is appended, or the queue is as before.\<close>

lemma iqueue_add_ok:
  assumes ok: "iq_ok iq" and h: "heap_ok h" and lv: "iq_live (live h) iq"
    and bound: "iq_size iq + iq_grow iq < 536870912"
  shows "\<exists>rc iq' h'. iqueue_add subsystem iq num flags h = Inr ((rc, iq'), h')
    \<and> heap_ok h' \<and> iq_live (live h') iq' \<and> iq_ok iq'
    \<and> iq_grow iq' = iq_grow iq \<and> iq_initial iq' = iq_initial iq
    \<and> (rc = 0 \<and> iq_contents iq' = iq_contents iq @ [num]
         \<and> (iq_size iq' = iq_size iq \<or> iq_size iq' = iq_size iq + iq_grow iq)
       \<or> rc = -1 \<and> iq' = iq \<and> iq_count iq = iq_size iq)"
proof -
  have store: "\<exists>iq'. iqueue_store iq1 num = Inr iq' \<and> iq_ok iq' \<and> iq_live lv iq'
      \<and> iq_contents iq' = iq_contents iq1 @ [num] \<and> iq_size iq' = iq_size iq1
      \<and> iq_grow iq' = iq_grow iq1 \<and> iq_initial iq' = iq_initial iq1"
    if "iq_ok iq1" "iq_count iq1 < iq_size iq1" "iq_live lv iq1" for iq1 lv
    using iqueue_store_ok [OF that(1,2), of num] that(3) by (auto simp: iq_live_def split: option.splits)
  show ?thesis
  proof (cases "iq_size iq = iq_count iq")
    case False
    then have "iq_count iq < iq_size iq" using iq_okD(2) [OF ok] by simp
    from store [OF ok this lv] False h show ?thesis by (auto simp: iqueue_add_def)
  next
    case full: True
    show ?thesis
    proof (cases "iq_grow iq = 0 \<or> and flags IQUEUE_NOGROW = IQUEUE_NOGROW")
      case True
      with full ok h lv show ?thesis by (auto simp: iqueue_add_def)
    next
      case False
      let ?n = "iq_size iq + iq_grow iq"
      have u: "u32 (u32 ?n * 4) = ?n * 4" "u32 ?n = ?n" "?n * 4 < MAX_REQUEST"
        using bound by (simp_all add: MAX_REQUEST_def)
      show ?thesis
      proof (cases rule: malloc_cases [OF h u(3)])
        case (1 h')
        with full False u ok lv show ?thesis by (auto simp: iqueue_add_def)
      next
        case (2 q h1)
        have lv1: "iq_live (live h1) iq" using lv 2 by (auto simp: iq_live_def split: option.splits)
        have q: "live h1 q \<noteq> None" "q \<noteq> iq_self iq" "iq_queue iq \<noteq> Some q"
          using 2 lv by (auto simp: iq_live_def split: option.splits)
        have "iq_count iq \<le> ?n" using full by simp
        from resize_queue_ok [OF ok this bound 2(2) lv1 q] obtain iq1 h2 where
          r: "resize_queue subsystem iq q ?n h1 = Inr (iq1, h2)" "heap_ok h2" "iq_ok iq1"
            "iq_contents iq1 = iq_contents iq" "iq_live (live h2) iq1" "iq_size iq1 = ?n"
            "iq_grow iq1 = iq_grow iq" "iq_initial iq1 = iq_initial iq" "iq_count iq1 = iq_count iq"
          by blast
        have "iq_count iq1 < iq_size iq1" using r full False by simp
        from store [OF r(3) this r(5)] r 2(1) u full False show ?thesis
          by (auto simp: iqueue_add_def)
      qed
    qed
  qed
qed

lemma iqueue_next_ok:
  assumes ok: "iq_ok iq" and h: "heap_ok h" and lv: "iq_live (live h) iq" and ne: "0 < iq_count iq"
    and dv: "iq_grow iq dvd iq_initial iq" "iq_grow iq dvd iq_size iq" and ge: "iq_initial iq \<le> iq_size iq"
  shows "\<exists>iq' h'. iqueue_next subsystem iq flags h = Inr ((hd (iq_contents iq), iq'), h')
    \<and> heap_ok h' \<and> iq_live (live h') iq' \<and> iq_ok iq' \<and> iq_contents iq' = tl (iq_contents iq)
    \<and> iq_grow iq' = iq_grow iq \<and> iq_initial iq' = iq_initial iq
    \<and> iq_grow iq dvd iq_size iq' \<and> iq_initial iq \<le> iq_size iq' \<and> iq_size iq' \<le> iq_size iq"
proof -
  note d = iq_okD [OF ok]
  have sz: "0 < iq_size iq" using ne d by simp
  define iq1 where
    "iq1 = iq\<lparr>iq_start := Suc (iq_start iq) mod iq_size iq, iq_count := iq_count iq - 1\<rparr>"
  have rt: "ring (iq_data iq1) (iq_start iq1) (iq_count iq1)
      = tl (ring (iq_data iq) (iq_start iq) (iq_count iq))"
    using ring_tl [OF ne, of "iq_data iq" "iq_start iq"] d(1) by (simp add: iq1_def)
  have ok1: "iq_ok iq1"
    using ok sz rt in_set_tl [of None "ring (iq_data iq) (iq_start iq) (iq_count iq)"]
    unfolding iq_ok_def by (auto simp: iq1_def)
  have c1: "iq_contents iq1 = tl (iq_contents iq)" unfolding iq_contents_def rt by (simp add: map_tl)
  have hd: "cget (iq_data iq) (iq_start iq) = Inr (hd (iq_contents iq))"
  proof -
    have "iq_contents iq \<noteq> []" using ne by (metis length_greater_0_conv length_iq_contents)
    then have "hd (iq_contents iq) = iq_contents iq ! 0" by (rule hd_conv_nth)
    with iq_ok_nth [OF ok ne] d(3) [OF sz] d(1) show ?thesis by simp
  qed
  have lv1: "iq_live (live h) iq1" using lv by (simp add: iq_live_def iq1_def split: option.splits)
  have eq: "iq_size iq1 = iq_size iq" "iq_grow iq1 = iq_grow iq" "iq_initial iq1 = iq_initial iq"
    "iq_self iq1 = iq_self iq" "iq_queue iq1 = iq_queue iq" by (simp_all add: iq1_def)
  have u: "u32 (iq_start iq + 1) = Suc (iq_start iq)" using d by simp
  let ?shrink = "iq_grow iq \<noteq> 0 \<and> and flags IQUEUE_NOSHRINK \<noteq> IQUEUE_NOSHRINK
        \<and> iq_size iq > iq_initial iq \<and> iq_count iq1 mod iq_grow iq = 0"
  have run: "iqueue_next subsystem iq flags h =
    (if ?shrink
     then bindR (kmalloc subsystem (u32 (sub32 (iq_size iq) (iq_grow iq) * 4)) h) (\<lambda>(new, h1).
       case new of
         None \<Rightarrow> Inr ((hd (iq_contents iq), iq1), h1)
       | Some q \<Rightarrow>
           bindR (resize_queue subsystem iq1 q (sub32 (iq_size iq) (iq_grow iq)) h1) (\<lambda>(iq2, h2).
           Inr ((hd (iq_contents iq), iq2), h2)))
     else Inr ((hd (iq_contents iq), iq1), h))"
    unfolding iqueue_next_def using ne sz hd u by (simp add: Let_def iq1_def cong: option.case_cong)
  show ?thesis
  proof (cases ?shrink)
    case False
    with run ok1 c1 h lv1 dv ge eq show ?thesis by auto
  next
    case True
    let ?n = "iq_size iq - iq_grow iq"
    have gl: "iq_grow iq \<le> iq_size iq" using dv(2) sz by (simp add: dvd_imp_le)
    then have s: "sub32 (iq_size iq) (iq_grow iq) = ?n" using d(4) by simp
    then have n: "u32 (?n * 4) = ?n * 4" "?n * 4 < MAX_REQUEST" "?n < 536870912"
      using d(4) by (simp_all add: MAX_REQUEST_def)
    have "iq_grow iq dvd iq_size iq - iq_count iq1" using True dv by (auto intro: dvd_diff_nat)
    moreover have lt: "0 < iq_size iq - iq_count iq1" using ne d(2) by (simp add: iq1_def)
    ultimately have "iq_grow iq \<le> iq_size iq - iq_count iq1" by (rule dvd_imp_le)
    with lt have fit: "iq_count iq1 \<le> ?n" by linarith
    have "iq_grow iq dvd iq_size iq - iq_initial iq" using dv by (rule dvd_diff_nat [rotated])
    then have "iq_grow iq \<le> iq_size iq - iq_initial iq" using True by (simp add: dvd_imp_le)
    then have ge': "iq_initial iq \<le> ?n" using True by linarith
    have dv': "iq_grow iq dvd ?n" using dv by (simp add: dvd_diff_nat)
    show ?thesis
    proof (cases rule: malloc_cases [OF h n(2)])
      case (1 h')
      with run True s n ok1 c1 lv1 dv ge eq show ?thesis by auto
    next
      case (2 q h1)
      have lv2: "iq_live (live h1) iq1" using lv1 2 by (auto simp: iq_live_def split: option.splits)
      have q: "live h1 q \<noteq> None" "q \<noteq> iq_self iq1" "iq_queue iq1 \<noteq> Some q"
        using 2 lv1 by (auto simp: iq_live_def split: option.splits)
      from resize_queue_ok [OF ok1 fit n(3) 2(2) lv2 q] obtain iq2 h2 where
        "resize_queue subsystem iq1 q ?n h1 = Inr (iq2, h2)" "heap_ok h2" "iq_ok iq2"
        "iq_contents iq2 = iq_contents iq1" "iq_live (live h2) iq2" "iq_size iq2 = ?n"
        "iq_grow iq2 = iq_grow iq1" "iq_initial iq2 = iq_initial iq1" by blast
      with run True s n 2(1) c1 eq dv' ge' show ?thesis by auto
    qed
  qed
qed

end

section \<open>The fixed-size queue\<close>

text \<open>With both flags set the queue never calls the allocator.\<close>

definition iq_enq :: "'h mm_subsystem \<Rightarrow> 'h \<Rightarrow> int \<Rightarrow> iqueue \<Rightarrow> iqueue option" where
  "iq_enq sub h x iq =
     (case iqueue_add sub iq x (IQUEUE_NOGROW + IQUEUE_NOSHRINK) h of
        Inr ((rc, iq'), _) \<Rightarrow> if rc = 0 then Some iq' else None
      | Inl _ \<Rightarrow> None)"

definition iq_front :: "iqueue \<Rightarrow> int option" where
  "iq_front iq =
     (if iqueue_count iq = 0 then None
      else (case cget (iq_data iq) (iq_start iq) of Inr x \<Rightarrow> Some x | Inl _ \<Rightarrow> None))"

definition iq_deq :: "'h mm_subsystem \<Rightarrow> 'h \<Rightarrow> iqueue \<Rightarrow> iqueue" where
  "iq_deq sub h iq =
     (case iqueue_next sub iq (IQUEUE_NOGROW + IQUEUE_NOSHRINK) h of
        Inr ((_, iq'), _) \<Rightarrow> iq'
      | Inl _ \<Rightarrow> iq)"

lemma flags_both [simp]:
  "and (IQUEUE_NOGROW + IQUEUE_NOSHRINK) IQUEUE_NOGROW = IQUEUE_NOGROW"
  "and (IQUEUE_NOGROW + IQUEUE_NOSHRINK) IQUEUE_NOSHRINK = IQUEUE_NOSHRINK"
  by code_simp+

lemma iq_enq_cases:
  assumes "iq_ok iq"
  shows "iq_count iq = iq_size iq \<and> iq_enq sub h x iq = None \<or>
    iq_count iq < iq_size iq \<and> (\<exists>iq'. iq_enq sub h x iq = Some iq' \<and> iq_ok iq'
      \<and> iq_contents iq' = iq_contents iq @ [x] \<and> iq_size iq' = iq_size iq)"
proof (cases "iq_count iq = iq_size iq")
  case True
  then show ?thesis by (simp add: iq_enq_def iqueue_add_def)
next
  case False
  then have "iq_count iq < iq_size iq" using iq_okD(2) [OF assms] by simp
  with iqueue_store_ok [OF assms this, of x] show ?thesis
    by (auto simp: iq_enq_def iqueue_add_def)
qed

lemma iq_front_hd:
  assumes "iq_ok iq"
  shows "iq_front iq = (if iq_contents iq = [] then None else Some (hd (iq_contents iq)))"
proof (cases "iq_count iq = 0")
  case True
  then have "iq_contents iq = []" by (metis length_0_conv length_iq_contents)
  with True show ?thesis by (simp add: iq_front_def iqueue_count_def)
next
  case False
  then have ne: "iq_contents iq \<noteq> []" by (metis length_0_conv length_iq_contents)
  have "0 < iq_size iq" using iq_okD(2) [OF assms] False by simp
  with iq_ok_nth [OF assms, of 0] False iq_okD [OF assms] ne show ?thesis
    by (simp add: iq_front_def iqueue_count_def hd_conv_nth)
qed

lemma iq_deq_ok:
  assumes ok: "iq_ok iq" and ne: "iq_contents iq \<noteq> []"
  shows "iq_ok (iq_deq sub h iq) \<and> iq_contents (iq_deq sub h iq) = tl (iq_contents iq)
    \<and> iq_size (iq_deq sub h iq) = iq_size iq"
proof -
  note d = iq_okD [OF ok]
  have c: "0 < iq_count iq" using ne by (metis length_greater_0_conv length_iq_contents)
  then have sz: "0 < iq_size iq" using d by simp
  let ?iq = "iq\<lparr>iq_start := Suc (iq_start iq) mod iq_size iq, iq_count := iq_count iq - 1\<rparr>"
  have rt: "ring (iq_data ?iq) (iq_start ?iq) (iq_count ?iq)
      = tl (ring (iq_data iq) (iq_start iq) (iq_count iq))"
    using ring_tl [OF c, of "iq_data iq" "iq_start iq"] d(1) by simp
  have "cget (iq_data iq) (iq_start iq) = Inr (iq_contents iq ! 0)"
    using iq_ok_nth [OF ok c] d sz by simp
  then have "iq_deq sub h iq = ?iq"
    using c sz d by (simp add: iq_deq_def iqueue_next_def)
  moreover have "iq_ok ?iq"
    using ok sz rt in_set_tl [of None "ring (iq_data iq) (iq_start iq) (iq_count iq)"]
    unfolding iq_ok_def by auto
  moreover have "iq_contents ?iq = tl (iq_contents iq)" unfolding iq_contents_def rt by (simp add: map_tl)
  ultimately show ?thesis by simp
qed

interpretation iqf: bounded_fifo iq_ok iq_contents iq_size "iq_enq sub h" iq_front "iq_deq sub h"
  for sub h
proof (unfold_locales, goal_cases)
  case (1 q x q')
  then show ?case using iq_enq_cases [of q sub h x] by auto
next
  case (2 q x q')
  then show ?case using iq_enq_cases [of q sub h x] by auto
next
  case (3 q x q')
  then show ?case using iq_enq_cases [of q sub h x] by auto
next
  case (4 q x)
  then show ?case using iq_enq_cases [of q sub h x] by auto
next
  case (5 q)
  then show ?case by (simp add: iq_okD)
next
  case (6 q)
  then show ?case by (rule iq_front_hd)
next
  case (7 q)
  then show ?case by (simp add: iq_deq_ok)
next
  case (8 q)
  then show ?case by (simp add: iq_deq_ok)
next
  case (9 q)
  then show ?case by (simp add: iq_deq_ok)
qed

section \<open>Properties\<close>

text \<open>
  Remark: On the kernel heap \<^verbatim>\<open>iqueue_add\<close> returns; it appends the number, growing the array when
  it is full, or it answers -1 and leaves the queue as it is, which happens only when the queue is
  full. The invariants of the queue and of the heap hold again.
\<close>

theorem iqueue_add_correct:
  assumes "iq_ok iq" and "kernel_heap_ok h" and "iq_live (live h) iq"
    and "iq_size iq + iq_grow iq < 536870912"
  shows "\<exists>rc iq' h'. iqueue_add liballoc_subsystem iq num flags h = Inr ((rc, iq'), h')
    \<and> kernel_heap_ok h' \<and> iq_live (live h') iq' \<and> iq_ok iq'
    \<and> (rc = 0 \<and> iq_contents iq' = iq_contents iq @ [num]
       \<or> rc = -1 \<and> iq' = iq \<and> iq_count iq = iq_size iq)"
  using kheap.iqueue_add_ok [OF assms] by blast

definition demo_iq :: iqueue where
  "demo_iq = \<lparr>iq_self = 4148, iq_initial = 0, iq_grow = 2, iq_size = 0, iq_start = 0, iq_count = 0,
     iq_queue = None, iq_data = []\<rparr>"

theorem iqueue_add_correct_witness:
  "\<exists>rc iq' h'. iqueue_add liballoc_subsystem demo_iq 42 0 demo_used_heap = Inr ((rc, iq'), h')
     \<and> kernel_heap_ok h' \<and> iq_ok iq'"
proof -
  have "iq_ok demo_iq" "iq_live (live demo_used_heap) demo_iq" "iq_size demo_iq + iq_grow demo_iq < 536870912"
    using demo_used_heap_ok(2) by (simp_all add: iq_ok_def demo_iq_def iq_live_def)
  from iqueue_add_correct [OF this(1) demo_used_heap_ok(1) this(2,3), of 42 0] show ?thesis by blast
qed

text \<open>
  Remark: When the growth step divides the initial size, \<^verbatim>\<open>iqueue_next\<close> on a non-empty queue
  returns the oldest number and removes exactly it, also when it moves the rest into a smaller array; the
  array never becomes smaller than its initial size.
\<close>

theorem iqueue_next_correct:
  assumes "iq_ok iq" and "kernel_heap_ok h" and "iq_live (live h) iq" and "0 < iq_count iq"
    and "iq_grow iq dvd iq_initial iq" and "iq_grow iq dvd iq_size iq" and "iq_initial iq \<le> iq_size iq"
  shows "\<exists>iq' h'. iqueue_next liballoc_subsystem iq flags h = Inr ((hd (iq_contents iq), iq'), h')
    \<and> kernel_heap_ok h' \<and> iq_live (live h') iq' \<and> iq_ok iq' \<and> iq_contents iq' = tl (iq_contents iq)
    \<and> iq_grow iq dvd iq_size iq' \<and> iq_initial iq \<le> iq_size iq'"
  using kheap.iqueue_next_ok [OF assms, of flags] by blast

definition demo_iq2 :: iqueue where
  "demo_iq2 = \<lparr>iq_self = 4148, iq_initial = 2, iq_grow = 2, iq_size = 4, iq_start = 3, iq_count = 3,
     iq_queue = Some 4276, iq_data = [Some 8, Some 9, None, Some 7]\<rparr>"

theorem iqueue_next_correct_witness:
  "\<exists>iq' h'. iqueue_next liballoc_subsystem demo_iq2 0 demo_used_heap = Inr ((7, iq'), h')
     \<and> iq_contents iq' = [8, 9]"
proof -
  have c: "iq_contents demo_iq2 = [7, 8, 9]"
    by (simp add: iq_contents_def ring_def upt_rec demo_iq2_def)
  have "iq_ok demo_iq2" "iq_live (live demo_used_heap) demo_iq2"
    using demo_used_heap_ok by (simp_all add: iq_ok_def demo_iq2_def iq_live_def ring_def upt_rec)
  note pre = this
  have "0 < iq_count demo_iq2" "iq_grow demo_iq2 dvd iq_initial demo_iq2"
    "iq_grow demo_iq2 dvd iq_size demo_iq2" "iq_initial demo_iq2 \<le> iq_size demo_iq2"
    by (simp_all add: demo_iq2_def)
  from iqueue_next_correct [OF pre(1) demo_used_heap_ok(1) pre(2) this, of 0] show ?thesis
    unfolding c by auto
qed

lemma move_queue_numeral [simp]:
  "move_queue iq new i (numeral k) =
     guardR (iq_size iq \<noteq> 0) Div_by_zero (
     bindR (cget (iq_data iq) (u32 (iq_start iq + i) mod iq_size iq)) (\<lambda>v.
     bindR (aput new i (Some v)) (\<lambda>new'. move_queue iq new' (Suc i) (pred_numeral k))))"
  by (simp only: numeral_eq_Suc move_queue.simps)

text \<open>
  Remark: When the growth step does not divide the initial size, shrinking can lose room: with initial
  size 3 and step 2, a queue of five numbers in an array of five is moved into an array of three when
  the first one is taken, and the move runs over the end of the new array.
\<close>

theorem iqueue_next_shrink_overflow:
  assumes "kmalloc sub 12 h = Inr (Some q, h')"
  shows "iqueue_next sub \<lparr>iq_self = s, iq_initial = 3, iq_grow = 2, iq_size = 5, iq_start = 0,
     iq_count = 5, iq_queue = Some p, iq_data = map Some [1, 2, 3, 4, 5]\<rparr> 0 h = Inl Out_of_bounds"
  using assms
  by (simp add: iqueue_next_def resize_queue_def int_cells_def IQUEUE_NOSHRINK_def aput_def cget_def)

theorem iqueue_next_shrink_overflow_witness:
  "iqueue_next \<lparr>mm_malloc = (\<lambda>n (h::nat). Inr (Some (8 + h), h + n)), mm_free = (\<lambda>_ h. Inr h),
       mm_realloc = (\<lambda>_ n h. Inr (None, h))\<rparr>
     \<lparr>iq_self = 4, iq_initial = 3, iq_grow = 2, iq_size = 5, iq_start = 0,
     iq_count = 5, iq_queue = Some 4, iq_data = map Some [1, 2, 3, 4, 5]\<rparr> 0 0 = Inl Out_of_bounds"
  by (rule iqueue_next_shrink_overflow) (simp add: kmalloc_def)

end
