(* ===== verification/Rwlock.thy ===== *)
theory Rwlock
  imports Mm
begin

text \<open>
  The reader-writer lock (\<^verbatim>\<open>kernel/ds/rwlock.c\<close>). Its operations run concurrently, so the model is
  a transition system: every thread has a program counter, and one step of a thread is one access
  to the lock's memory. The operations that take the lock do so under its spinlock;
  \<^verbatim>\<open>rwlock_release\<close> does not take the spinlock. \<^verbatim>\<open>atomic_inc\<close> and \<^verbatim>\<open>atomic_dec\<close> are single
  steps, the plain \<^verbatim>\<open>num_readers += 1\<close> is a load followed by a store.

  \<open>rw_inv\<close> gives mutual exclusion. It is an invariant as long as the 32-bit reader count does not
  wrap: \<open>rw_drift\<close> shows that the count runs ahead of the readers by the lost decrements at most, so
  the executions that the bound admits may be of any length. The last properties show what the
  unprotected decrement costs and that the bound is needed.
\<close>

section \<open>State\<close>

record rwlock =
  num_readers :: nat
  num_writers :: nat
  write_request :: nat
  spinlock :: "nat option"

datatype rw_kind = Reader | Writer

datatype rw_pc =
    Idle
  | W_acquire | W_test_readers | W_test_writers | W_inc | W_request | W_unlock_got | W_unlock_retry
  | R_acquire | R_test_writers | R_test_request | R_load | R_store nat | R_unlock_got | R_unlock_retry
  | Holds rw_kind
  | Rel_test rw_kind | Rel_request rw_kind | Rel_writers rw_kind | Rel_dec rw_kind

record rw_sys =
  rw_lock :: rwlock
  rw_pcs :: "nat \<Rightarrow> rw_pc"

text \<open>The size of \<^verbatim>\<open>struct rwlock\<close>. The result of \<^verbatim>\<open>kmalloc\<close> is used without a test.\<close>

definition sizeof_rwlock :: nat where "sizeof_rwlock = 16"

definition init_rwlock :: "'h mm_subsystem \<Rightarrow> 'h \<Rightarrow> ((nat \<times> rwlock) \<times> 'h) kres" where
  "init_rwlock sub h =
     bindR (kmalloc sub sizeof_rwlock h) (\<lambda>(rw, h1).
     case rw of
       None \<Rightarrow> Inl Null_deref
     | Some a \<Rightarrow>
         Inr ((a, \<lparr>num_readers = 0, num_writers = 0, write_request = 0, spinlock = None\<rparr>), h1))"

definition delete_rwlock :: "'h mm_subsystem \<Rightarrow> nat \<Rightarrow> 'h \<Rightarrow> (int \<times> 'h) kres" where
  "delete_rwlock sub rw h = bindR (kfree sub (Some rw) h) (\<lambda>h1. Inr (0, h1))"

section \<open>Steps\<close>

definition goto :: "nat \<Rightarrow> rw_pc \<Rightarrow> rw_sys \<Rightarrow> rw_sys" where
  "goto t p s = s\<lparr>rw_pcs := (rw_pcs s)(t := p)\<rparr>"

definition setlock :: "rwlock \<Rightarrow> rw_sys \<Rightarrow> rw_sys" where
  "setlock l s = s\<lparr>rw_lock := l\<rparr>"

text \<open>\<^verbatim>\<open>acquire_spinlock\<close> waits until the lock is free; \<^verbatim>\<open>release_spinlock\<close> frees it.\<close>

definition acquire_spin :: "nat \<Rightarrow> rw_pc \<Rightarrow> rw_sys \<Rightarrow> rw_sys option" where
  "acquire_spin t p s =
     (if spinlock (rw_lock s) = None
      then Some (goto t p (setlock ((rw_lock s)\<lparr>spinlock := Some t\<rparr>) s)) else None)"

definition release_spin :: "nat \<Rightarrow> rw_pc \<Rightarrow> rw_sys \<Rightarrow> rw_sys option" where
  "release_spin t p s = Some (goto t p (setlock ((rw_lock s)\<lparr>spinlock := None\<rparr>) s))"

text \<open>\<^verbatim>\<open>rwlock_get_write_access\<close>.\<close>

fun write_access_step :: "nat \<Rightarrow> rw_pc \<Rightarrow> rw_sys \<Rightarrow> rw_sys option" where
  "write_access_step t W_acquire s = acquire_spin t W_test_readers s"
| "write_access_step t W_test_readers s =
     Some (goto t (if num_readers (rw_lock s) = 0 then W_test_writers else W_request) s)"
| "write_access_step t W_test_writers s =
     Some (goto t (if num_writers (rw_lock s) = 0 then W_inc else W_request) s)"
| "write_access_step t W_inc s =
     Some (goto t W_unlock_got (setlock ((rw_lock s)\<lparr>num_writers := num_writers (rw_lock s) + 1\<rparr>) s))"
| "write_access_step t W_unlock_got s = release_spin t (Holds Writer) s"
| "write_access_step t W_request s =
     Some (goto t W_unlock_retry (setlock ((rw_lock s)\<lparr>write_request := 1\<rparr>) s))"
| "write_access_step t W_unlock_retry s = release_spin t W_acquire s"
| "write_access_step t _ s = None"

text \<open>
  \<^verbatim>\<open>rwlock_get_read_access\<close>; \<^verbatim>\<open>num_readers\<close> is an unsigned integer of 32 bits, its increment wraps.
\<close>

fun read_access_step :: "nat \<Rightarrow> rw_pc \<Rightarrow> rw_sys \<Rightarrow> rw_sys option" where
  "read_access_step t R_acquire s = acquire_spin t R_test_writers s"
| "read_access_step t R_test_writers s =
     Some (goto t (if num_writers (rw_lock s) = 0 then R_test_request else R_unlock_retry) s)"
| "read_access_step t R_test_request s =
     Some (goto t (if write_request (rw_lock s) = 0 then R_load else R_unlock_retry) s)"
| "read_access_step t R_load s = Some (goto t (R_store (num_readers (rw_lock s))) s)"
| "read_access_step t (R_store tmp) s =
     Some (goto t R_unlock_got (setlock ((rw_lock s)\<lparr>num_readers := u32 (tmp + 1)\<rparr>) s))"
| "read_access_step t R_unlock_got s = release_spin t (Holds Reader) s"
| "read_access_step t R_unlock_retry s = release_spin t R_acquire s"
| "read_access_step t _ s = None"

text \<open>
  \<^verbatim>\<open>rwlock_release\<close>; the thread's kind only records what it holds, the branch depends on
  \<^verbatim>\<open>num_writers\<close>. The decrement wraps around at 0.
\<close>

fun release_step :: "nat \<Rightarrow> rw_pc \<Rightarrow> rw_sys \<Rightarrow> rw_sys option" where
  "release_step t (Rel_test k) s =
     Some (goto t (if num_writers (rw_lock s) \<noteq> 0 then Rel_request k else Rel_dec k) s)"
| "release_step t (Rel_request k) s =
     Some (goto t (Rel_writers k) (setlock ((rw_lock s)\<lparr>write_request := 0\<rparr>) s))"
| "release_step t (Rel_writers k) s =
     Some (goto t Idle (setlock ((rw_lock s)\<lparr>num_writers := 0\<rparr>) s))"
| "release_step t (Rel_dec k) s =
     Some (goto t Idle (setlock ((rw_lock s)\<lparr>num_readers :=
        (if num_readers (rw_lock s) = 0 then 2 ^ 32 - 1 else num_readers (rw_lock s) - 1)\<rparr>) s))"
| "release_step t _ s = None"

text \<open>A step of thread \<open>t\<close>; an idle thread starts the operation it wants.\<close>

definition rw_exec :: "rw_kind \<Rightarrow> nat \<Rightarrow> rw_sys \<Rightarrow> rw_sys option" where
  "rw_exec want t s =
     (case rw_pcs s t of
        Idle \<Rightarrow> Some (goto t (case want of Reader \<Rightarrow> R_acquire | Writer \<Rightarrow> W_acquire) s)
      | Holds k \<Rightarrow> Some (goto t (Rel_test k) s)
      | p \<Rightarrow>
          (case write_access_step t p s of
             Some s' \<Rightarrow> Some s'
           | None \<Rightarrow> (case read_access_step t p s of
                        Some s' \<Rightarrow> Some s'
                      | None \<Rightarrow> release_step t p s)))"

definition rw_initial :: rw_sys where
  "rw_initial = \<lparr>rw_lock = \<lparr>num_readers = 0, num_writers = 0, write_request = 0, spinlock = None\<rparr>,
                 rw_pcs = (\<lambda>_. Idle)\<rparr>"

inductive rw_step :: "rw_sys \<Rightarrow> rw_sys \<Rightarrow> bool" where
  step: "rw_exec want t s = Some s' \<Longrightarrow> rw_step s s'"

inductive_cases rw_stepE: "rw_step s s'"

text \<open>
  A decrement is lost when it comes between the load and the store of another thread's increment,
  that is, while the holder of the spinlock is at its store.
\<close>

fun at_store :: "rw_pc \<Rightarrow> bool" where
  "at_store (R_store _) = True" | "at_store _ = False"

fun at_dec :: "rw_pc \<Rightarrow> bool" where
  "at_dec (Rel_dec _) = True" | "at_dec _ = False"

definition loses_dec :: "nat \<Rightarrow> rw_sys \<Rightarrow> bool" where
  "loses_dec t s \<longleftrightarrow> at_dec (rw_pcs s t)
     \<and> (case spinlock (rw_lock s) of None \<Rightarrow> False | Some u \<Rightarrow> at_store (rw_pcs s u))"

text \<open>
  The states reached when only threads with numbers below \<open>n\<close> move, in executions of any length, with
  the number of decrements lost on the way.
\<close>

inductive rw_reachable :: "nat \<Rightarrow> nat \<Rightarrow> rw_sys \<Rightarrow> bool" for n where
  init: "rw_reachable n 0 rw_initial"
| next_state: "rw_reachable n l s \<Longrightarrow> t < n \<Longrightarrow> rw_exec want t s = Some s'
    \<Longrightarrow> rw_reachable n (if loses_dec t s then l + 1 else l) s'"

section \<open>Invariant\<close>

fun in_spin :: "rw_pc \<Rightarrow> bool" where
  "in_spin W_test_readers = True" | "in_spin W_test_writers = True" | "in_spin W_inc = True"
| "in_spin W_request = True" | "in_spin W_unlock_got = True" | "in_spin W_unlock_retry = True"
| "in_spin R_test_writers = True" | "in_spin R_test_request = True" | "in_spin R_load = True"
| "in_spin (R_store _) = True" | "in_spin R_unlock_got = True" | "in_spin R_unlock_retry = True"
| "in_spin _ = False"

fun owns :: "rw_kind \<Rightarrow> rw_pc \<Rightarrow> bool" where
  "owns Writer W_unlock_got = True"
| "owns Reader R_unlock_got = True"
| "owns k (Holds k') = (k = k')"
| "owns k (Rel_test k') = (k = k')"
| "owns k (Rel_request k') = (k = k')"
| "owns k (Rel_writers k') = (k = k')"
| "owns k (Rel_dec k') = (k = k')"
| "owns k _ = False"

definition owners :: "rw_kind \<Rightarrow> rw_sys \<Rightarrow> nat set" where
  "owners k s = {t. owns k (rw_pcs s t)}"

text \<open>What a thread knows at a program counter while it holds the spinlock.\<close>

fun knows :: "rw_pc \<Rightarrow> rw_sys \<Rightarrow> bool" where
  "knows W_test_writers s = (owners Reader s = {})"
| "knows W_inc s = (owners Reader s = {} \<and> owners Writer s = {})"
| "knows R_test_request s = (owners Writer s = {})"
| "knows R_load s = (owners Writer s = {})"
| "knows (R_store tmp) s = (owners Writer s = {} \<and> card (owners Reader s) \<le> tmp)"
| "knows (Rel_request k) s = (k = Writer)"
| "knows (Rel_writers k) s = (k = Writer)"
| "knows (Rel_dec k) s = (k = Reader)"
| "knows _ s = True"

definition rw_inv :: "rw_sys \<Rightarrow> bool" where
  "rw_inv s \<longleftrightarrow>
     finite (owners Reader s)
     \<and> (\<forall>t. in_spin (rw_pcs s t) \<longleftrightarrow> spinlock (rw_lock s) = Some t)
     \<and> card (owners Reader s) \<le> num_readers (rw_lock s)
     \<and> (owners Writer s = {} \<and> num_writers (rw_lock s) = 0
        \<or> (\<exists>w. owners Writer s = {w}) \<and> num_writers (rw_lock s) = 1 \<and> owners Reader s = {})
     \<and> (\<forall>t. knows (rw_pcs s t) s)"

lemma goto_simps [simp]:
  "rw_pcs (goto t p s) = (rw_pcs s)(t := p)" "rw_lock (goto t p s) = rw_lock s"
  "rw_pcs (setlock l s) = rw_pcs s" "rw_lock (setlock l s) = l"
  by (simp_all add: goto_def setlock_def)

lemma owners_goto:
  "owners k (goto t p s) = (if owns k p then insert t (owners k s) else owners k s - {t})"
  by (auto simp: owners_def)

lemma owners_setlock [simp]: "owners k (setlock l s) = owners k s"
  by (simp add: owners_def)

lemma owners_iff: "t \<in> owners k s \<longleftrightarrow> owns k (rw_pcs s t)"
  by (simp add: owners_def)

lemma knows_cong:
  "owners Reader s' = owners Reader s \<Longrightarrow> owners Writer s' = owners Writer s \<Longrightarrow> knows p s' = knows p s"
  by (cases p) simp_all

lemma rw_initial_inv: "rw_inv rw_initial"
  by (simp add: rw_inv_def rw_initial_def owners_def)

text \<open>A step that changes neither owners nor the fields the invariant speaks of.\<close>

lemma rw_inv_move:
  assumes "rw_inv s" and "owns Reader p = owns Reader (rw_pcs s t)"
    and "owns Writer p = owns Writer (rw_pcs s t)" and "knows p s"
    and "num_readers l = num_readers (rw_lock s)" and "num_writers l = num_writers (rw_lock s)"
    and "\<And>u. (if u = t then in_spin p else in_spin (rw_pcs s u)) \<longleftrightarrow> spinlock l = Some u"
  shows "rw_inv (goto t p (setlock l s))"
proof -
  have o: "owners k (goto t p (setlock l s)) = owners k s" for k
    using assms(2,3) by (cases k) (auto simp: owners_goto owners_iff)
  have k: "\<forall>u. knows (rw_pcs (goto t p (setlock l s)) u) (goto t p (setlock l s))"
    using assms(1,4) knows_cong [OF o o] by (auto simp: rw_inv_def)
  have "\<forall>u. in_spin (rw_pcs (goto t p (setlock l s)) u) \<longleftrightarrow> spinlock l = Some u"
  proof
    fix u
    show "in_spin (rw_pcs (goto t p (setlock l s)) u) \<longleftrightarrow> spinlock l = Some u"
      using assms(7) [of u] by (cases "u = t") simp_all
  qed
  with k assms(1,5,6) o show ?thesis unfolding rw_inv_def by simp
qed

lemma rw_inv_goto:
  assumes "rw_inv s" and "owns Reader p = owns Reader (rw_pcs s t)"
    and "owns Writer p = owns Writer (rw_pcs s t)" and "knows p s"
    and "in_spin p = in_spin (rw_pcs s t)"
  shows "rw_inv (goto t p s)"
proof -
  have "setlock (rw_lock s) s = s" by (simp add: setlock_def)
  with rw_inv_move [OF assms(1-4), of "rw_lock s"] assms show ?thesis
    by (simp add: rw_inv_def)
qed

lemma rw_invD:
  assumes "rw_inv s"
  shows "finite (owners Reader s)" and "in_spin (rw_pcs s t) \<longleftrightarrow> spinlock (rw_lock s) = Some t"
    and "card (owners Reader s) \<le> num_readers (rw_lock s)"
    and "owners Writer s = {} \<and> num_writers (rw_lock s) = 0
        \<or> (\<exists>w. owners Writer s = {w}) \<and> num_writers (rw_lock s) = 1 \<and> owners Reader s = {}"
    and "knows (rw_pcs s t) s"
  using assms unfolding rw_inv_def by blast+

lemma spin_unique:
  assumes "rw_inv s" and "in_spin (rw_pcs s t)" and "u \<noteq> t"
  shows "\<not> in_spin (rw_pcs s u)"
  using assms rw_invD(2) [OF assms(1)] by auto

lemma knows_outside: "\<not> in_spin p \<Longrightarrow> knows p s = knows p s'"
  by (cases p) simp_all

lemma rw_inv_acquire:
  assumes "rw_inv s" and "acquire_spin t p s = Some s'" and "\<not> in_spin (rw_pcs s t)" and "in_spin p"
    and "owns Reader p = owns Reader (rw_pcs s t)" and "owns Writer p = owns Writer (rw_pcs s t)"
    and "knows p s"
  shows "rw_inv s'"
proof -
  from assms(2) have f: "spinlock (rw_lock s) = None"
    and s': "s' = goto t p (setlock ((rw_lock s)\<lparr>spinlock := Some t\<rparr>) s)"
    by (auto simp: acquire_spin_def split: if_splits)
  have "\<not> in_spin (rw_pcs s u)" for u using rw_invD(2) [OF assms(1), of u] f by simp
  then show ?thesis unfolding s' using assms by (intro rw_inv_move) auto
qed

lemma rw_inv_release:
  assumes "rw_inv s" and "release_spin t p s = Some s'" and "in_spin (rw_pcs s t)" and "\<not> in_spin p"
    and "owns Reader p = owns Reader (rw_pcs s t)" and "owns Writer p = owns Writer (rw_pcs s t)"
    and "knows p s"
  shows "rw_inv s'"
proof -
  have s': "s' = goto t p (setlock ((rw_lock s)\<lparr>spinlock := None\<rparr>) s)"
    using assms(2) by (simp add: release_spin_def)
  show ?thesis unfolding s' using assms spin_unique [OF assms(1,3)] by (intro rw_inv_move) auto
qed

lemma rw_inv_request:
  assumes "rw_inv s" and "owns Reader p = owns Reader (rw_pcs s t)"
    and "owns Writer p = owns Writer (rw_pcs s t)" and "knows p s" and "in_spin p = in_spin (rw_pcs s t)"
  shows "rw_inv (goto t p (setlock ((rw_lock s)\<lparr>write_request := r\<rparr>) s))"
  using assms rw_invD(2) [OF assms(1)] by (intro rw_inv_move) auto

text \<open>The steps in which the owners change.\<close>

lemma rw_inv_W_inc:
  assumes inv: "rw_inv s" and pc: "rw_pcs s t = W_inc"
  shows "rw_inv (goto t W_unlock_got (setlock ((rw_lock s)\<lparr>num_writers := num_writers (rw_lock s) + 1\<rparr>) s))"
    (is "rw_inv ?s")
proof -
  have k: "owners Reader s = {}" "owners Writer s = {}" using rw_invD(5) [OF inv, of t] pc by auto
  have o: "owners Reader ?s = {}" "owners Writer ?s = {t}" using k by (simp_all add: owners_goto)
  have sp: "\<And>u. u \<noteq> t \<Longrightarrow> \<not> in_spin (rw_pcs s u)" using spin_unique [OF inv, of t] pc by simp
  have "knows (rw_pcs ?s u) ?s" for u
    using sp [of u] rw_invD(5) [OF inv, of u] knows_outside [of "rw_pcs s u" s ?s] by auto
  moreover have "in_spin (rw_pcs ?s u) \<longleftrightarrow> spinlock (rw_lock ?s) = Some u" for u
    using rw_invD(2) [OF inv, of u] rw_invD(2) [OF inv, of t] pc by auto
  moreover have "num_writers (rw_lock s) = 0" using rw_invD(4) [OF inv] k by auto
  ultimately show ?thesis unfolding rw_inv_def using o by simp
qed

lemma rw_inv_R_store:
  assumes inv: "rw_inv s" and pc: "rw_pcs s t = R_store tmp" and nowrap: "tmp + 1 < 2 ^ 32"
  shows "rw_inv (goto t R_unlock_got (setlock ((rw_lock s)\<lparr>num_readers := u32 (tmp + 1)\<rparr>) s))"
    (is "rw_inv ?s")
proof -
  have k: "owners Writer s = {}" "card (owners Reader s) \<le> tmp" using rw_invD(5) [OF inv, of t] pc by auto
  have nt: "t \<notin> owners Reader s" using pc by (simp add: owners_iff)
  have o: "owners Reader ?s = insert t (owners Reader s)" "owners Writer ?s = {}"
    using k by (simp_all add: owners_goto)
  have sp: "\<And>u. u \<noteq> t \<Longrightarrow> \<not> in_spin (rw_pcs s u)" using spin_unique [OF inv, of t] pc by simp
  have "knows (rw_pcs ?s u) ?s" for u
    using sp [of u] rw_invD(5) [OF inv, of u] knows_outside [of "rw_pcs s u" s ?s] by auto
  moreover have "in_spin (rw_pcs ?s u) \<longleftrightarrow> spinlock (rw_lock ?s) = Some u" for u
    using rw_invD(2) [OF inv, of u] rw_invD(2) [OF inv, of t] pc by auto
  moreover have "num_writers (rw_lock s) = 0" using rw_invD(4) [OF inv] k by auto
  moreover have "u32 (tmp + 1) = tmp + 1" using nowrap by (simp add: u32_def)
  ultimately show ?thesis unfolding rw_inv_def using o k nt rw_invD(1) [OF inv] by simp
qed

lemma rw_inv_Rel_writers:
  assumes inv: "rw_inv s" and pc: "rw_pcs s t = Rel_writers k"
  shows "rw_inv (goto t Idle (setlock ((rw_lock s)\<lparr>num_writers := 0\<rparr>) s))" (is "rw_inv ?s")
proof -
  have "k = Writer" using rw_invD(5) [OF inv, of t] pc by simp
  then have "t \<in> owners Writer s" using pc by (simp add: owners_iff)
  then have w: "owners Writer s = {t}" "owners Reader s = {}" using rw_invD(4) [OF inv] by auto
  have o: "owners Reader ?s = {}" "owners Writer ?s = {}" using w by (simp_all add: owners_goto)
  have kn: "knows p ?s" if "knows p s" for p using that o w by (cases p) auto
  have "knows (rw_pcs ?s u) ?s" for u using kn [OF rw_invD(5) [OF inv, of u]] by auto
  moreover have "in_spin (rw_pcs ?s u) \<longleftrightarrow> spinlock (rw_lock ?s) = Some u" for u
    using rw_invD(2) [OF inv, of u] pc by auto
  ultimately show ?thesis unfolding rw_inv_def using o by simp
qed

lemma rw_inv_Rel_dec:
  assumes inv: "rw_inv s" and pc: "rw_pcs s t = Rel_dec k"
  shows "0 < num_readers (rw_lock s)"
    and "rw_inv (goto t Idle (setlock ((rw_lock s)\<lparr>num_readers := num_readers (rw_lock s) - 1\<rparr>) s))"
      (is "rw_inv ?s")
proof -
  have "k = Reader" using rw_invD(5) [OF inv, of t] pc by simp
  then have t: "t \<in> owners Reader s" using pc by (simp add: owners_iff)
  then have w: "owners Writer s = {}" "num_writers (rw_lock s) = 0" using rw_invD(4) [OF inv] by auto
  have c: "0 < card (owners Reader s)" using t rw_invD(1) [OF inv] by (auto simp: card_gt_0_iff)
  then show "0 < num_readers (rw_lock s)" using rw_invD(3) [OF inv] by simp
  have o: "owners Reader ?s = owners Reader s - {t}" "owners Writer ?s = {}"
    using w by (simp_all add: owners_goto)
  have cd: "card (owners Reader ?s) = card (owners Reader s) - 1" unfolding o using t rw_invD(1) [OF inv] by simp
  have kn: "knows p ?s" if "knows p s" for p using that o w cd by (cases p) auto
  have "knows (rw_pcs ?s u) ?s" for u using kn [OF rw_invD(5) [OF inv, of u]] by auto
  moreover have "in_spin (rw_pcs ?s u) \<longleftrightarrow> spinlock (rw_lock ?s) = Some u" for u
    using rw_invD(2) [OF inv, of u] pc by auto
  ultimately show "rw_inv ?s"
    unfolding rw_inv_def using o cd w rw_invD(1,3) [OF inv] by simp
qed

lemma rw_inv_exec:
  assumes inv: "rw_inv s" and ex: "rw_exec want t s = Some s'"
    and nowrap: "\<And>tmp. rw_pcs s t = R_store tmp \<Longrightarrow> tmp + 1 < 2 ^ 32"
  shows "rw_inv s'"
proof -
  note d = rw_invD(1,3,4) [OF inv] rw_invD(2,5) [OF inv, of t]
  show ?thesis
  proof (cases "rw_pcs s t")
    case Idle
    with ex inv show ?thesis
      by (auto simp: rw_exec_def intro!: rw_inv_goto split: rw_kind.splits)
  next
    case W_acquire
    with ex have "acquire_spin t W_test_readers s = Some s'" by (simp add: rw_exec_def split: option.splits)
    with inv W_acquire show ?thesis by (auto intro: rw_inv_acquire)
  next
    case W_test_readers
    have "owners Reader s = {}" if "num_readers (rw_lock s) = 0" using that d by simp
    with W_test_readers ex inv show ?thesis
      by (cases "num_readers (rw_lock s) = 0") (auto simp: rw_exec_def intro!: rw_inv_goto)
  next
    case W_test_writers
    with ex inv d show ?thesis by (auto simp: rw_exec_def intro!: rw_inv_goto)
  next
    case W_inc
    with ex rw_inv_W_inc [OF inv W_inc] show ?thesis by (simp add: rw_exec_def)
  next
    case W_request
    with ex rw_inv_request [OF inv, of W_unlock_retry t 1] show ?thesis by (simp add: rw_exec_def)
  next
    case W_unlock_got
    with ex have "release_spin t (Holds Writer) s = Some s'"
      by (simp add: rw_exec_def release_spin_def)
    with inv W_unlock_got show ?thesis by (auto intro: rw_inv_release)
  next
    case W_unlock_retry
    with ex have "release_spin t W_acquire s = Some s'" by (simp add: rw_exec_def release_spin_def)
    with inv W_unlock_retry show ?thesis by (auto intro: rw_inv_release)
  next
    case R_acquire
    with ex have "acquire_spin t R_test_writers s = Some s'"
      by (simp add: rw_exec_def split: option.splits)
    with inv R_acquire show ?thesis by (auto intro: rw_inv_acquire)
  next
    case R_test_writers
    with ex inv d(3) show ?thesis by (auto simp: rw_exec_def intro!: rw_inv_goto)
  next
    case R_test_request
    with ex inv d(5) show ?thesis
      by (cases "write_request (rw_lock s) = 0") (auto simp: rw_exec_def intro!: rw_inv_goto)
  next
    case R_load
    with ex inv d(2,5) show ?thesis by (auto simp: rw_exec_def intro!: rw_inv_goto)
  next
    case (R_store tmp)
    with ex rw_inv_R_store [OF inv R_store nowrap [OF R_store]] show ?thesis by (simp add: rw_exec_def)
  next
    case R_unlock_got
    with ex have "release_spin t (Holds Reader) s = Some s'"
      by (simp add: rw_exec_def release_spin_def)
    with inv R_unlock_got show ?thesis by (auto intro: rw_inv_release)
  next
    case R_unlock_retry
    with ex have "release_spin t R_acquire s = Some s'" by (simp add: rw_exec_def release_spin_def)
    with inv R_unlock_retry show ?thesis by (auto intro: rw_inv_release)
  next
    case (Holds k)
    with ex inv show ?thesis by (auto simp: rw_exec_def intro!: rw_inv_goto)
  next
    case (Rel_test k)
    then have t: "t \<in> owners k s" by (simp add: owners_iff)
    have "k = Writer \<longleftrightarrow> num_writers (rw_lock s) \<noteq> 0" using t d(3) by (cases k) auto
    with Rel_test ex inv show ?thesis
      by (cases k) (auto simp: rw_exec_def intro!: rw_inv_goto)
  next
    case (Rel_request k)
    with ex d(5) rw_inv_request [OF inv, of "Rel_writers k" t 0] show ?thesis
      by (simp add: rw_exec_def)
  next
    case (Rel_writers k)
    with ex rw_inv_Rel_writers [OF inv Rel_writers] show ?thesis by (simp add: rw_exec_def)
  next
    case (Rel_dec k)
    with ex rw_inv_Rel_dec [OF inv Rel_dec] show ?thesis by (simp add: rw_exec_def)
  qed
qed

text \<open>
  How far the count can run ahead: by the decrements that were lost. A pending store will write the
  count of the moment of its load, that is, the readers then, of which some may have gone since.
\<close>

definition rw_drift :: "nat \<Rightarrow> nat \<Rightarrow> rw_sys \<Rightarrow> bool" where
  "rw_drift n l s \<longleftrightarrow>
     (\<forall>t. rw_pcs s t \<noteq> Idle \<longrightarrow> t < n)
     \<and> num_readers (rw_lock s) \<le> card (owners Reader s) + l
     \<and> (\<forall>t tmp. rw_pcs s t = R_store tmp \<longrightarrow> tmp \<le> card (owners Reader s) + l)"

lemma rw_driftD:
  assumes "rw_drift n l s"
  shows "rw_pcs s t \<noteq> Idle \<Longrightarrow> t < n"
    and "num_readers (rw_lock s) \<le> card (owners Reader s) + l"
    and "rw_pcs s t = R_store tmp \<Longrightarrow> tmp \<le> card (owners Reader s) + l"
  using assms unfolding rw_drift_def by blast+

lemma rw_drift_owners: "rw_drift n l s \<Longrightarrow> owners k s \<subseteq> {..<n}"
proof
  fix t
  assume d: "rw_drift n l s" and "t \<in> owners k s"
  then have "rw_pcs s t \<noteq> Idle" by (cases k) (auto simp: owners_iff)
  with rw_driftD(1) [OF d] show "t \<in> {..<n}" by simp
qed

text \<open>A thread about to store is not yet counted as a reader, so the store cannot wrap.\<close>

lemma rw_drift_no_wrap:
  assumes d: "rw_drift n l s" and pc: "rw_pcs s t = R_store tmp" and b: "n + l \<le> 2 ^ 32 - 1"
  shows "tmp + 1 < 2 ^ 32"
proof -
  have "t < n" using rw_driftD(1) [OF d, of t] pc by simp
  moreover have "t \<notin> owners Reader s" using pc by (simp add: owners_iff)
  ultimately have "owners Reader s \<subseteq> {..<n} - {t}" using rw_drift_owners [OF d, of Reader] by blast
  then have "card (owners Reader s) \<le> card ({..<n} - {t})" by (rule card_mono [rotated]) simp
  also have "\<dots> = n - 1" using \<open>t < n\<close> by simp
  finally show ?thesis using rw_driftD(3) [OF d pc] b \<open>t < n\<close> by simp
qed

text \<open>A step that changes neither the reader count nor the readers.\<close>

lemma rw_drift_move:
  assumes d: "rw_drift n l s" and t: "t < n" and ex: "s' = goto t p s1" and "rw_pcs s1 = rw_pcs s"
    and "num_readers (rw_lock s1) = num_readers (rw_lock s)"
    and "owns Reader p = owns Reader (rw_pcs s t)"
    and "\<And>tmp. p = R_store tmp \<Longrightarrow> tmp = num_readers (rw_lock s)"
  shows "rw_drift n l s'"
proof -
  have o: "owners Reader s' = owners Reader s"
    using assms(4,6) unfolding ex by (auto simp: owners_def)
  show ?thesis
    unfolding rw_drift_def o
    using rw_driftD [OF d] assms(4,5,7) t unfolding ex by (auto simp: fun_upd_def)
qed

lemma rw_drift_store:
  assumes inv: "rw_inv s" and d: "rw_drift n l s" and t: "t < n" and pc: "rw_pcs s t = R_store tmp"
  shows "rw_drift n l (goto t R_unlock_got (setlock ((rw_lock s)\<lparr>num_readers := u32 (tmp + 1)\<rparr>) s))"
    (is "rw_drift n l ?s")
proof -
  have nt: "t \<notin> owners Reader s" using pc by (simp add: owners_iff)
  have o: "owners Reader ?s = insert t (owners Reader s)" by (simp add: owners_goto)
  have c: "card (owners Reader ?s) = Suc (card (owners Reader s))"
    unfolding o using nt rw_invD(1) [OF inv] by simp
  have sp: "u \<noteq> t \<Longrightarrow> \<not> in_spin (rw_pcs s u)" for u using spin_unique [OF inv, of t] pc by simp
  have "u32 (tmp + 1) \<le> tmp + 1" by (simp add: u32_def)
  then have "num_readers (rw_lock ?s) \<le> card (owners Reader ?s) + l"
    using rw_driftD(3) [OF d pc] c by simp
  moreover have "rw_pcs ?s u \<noteq> R_store x" for u x using sp [of u] by auto
  moreover have "rw_pcs ?s u \<noteq> Idle \<Longrightarrow> u < n" for u using rw_driftD(1) [OF d, of u] t by (auto split: if_splits)
  ultimately show ?thesis unfolding rw_drift_def by blast
qed

text \<open>A decrement: the owner that goes is made up for by the count, or by the lost decrement.\<close>

lemma rw_drift_dec:
  assumes inv: "rw_inv s" and d: "rw_drift n l s" and t: "t < n" and pc: "rw_pcs s t = Rel_dec k"
  shows "rw_drift n (if loses_dec t s then l + 1 else l)
    (goto t Idle (setlock ((rw_lock s)\<lparr>num_readers := num_readers (rw_lock s) - 1\<rparr>) s))"
    (is "rw_drift n ?l ?s")
proof -
  have "k = Reader" using rw_invD(5) [OF inv, of t] pc by simp
  then have t': "t \<in> owners Reader s" using pc by (simp add: owners_iff)
  have o: "owners Reader ?s = owners Reader s - {t}" by (simp add: owners_goto)
  have c: "card (owners Reader s) = Suc (card (owners Reader ?s))"
    unfolding o by (rule card_Suc_Diff1 [OF rw_invD(1) [OF inv] t', symmetric])
  have "rw_pcs ?s u = R_store x \<Longrightarrow> loses_dec t s \<and> x \<le> card (owners Reader s) + l" for u x
  proof -
    assume "rw_pcs ?s u = R_store x"
    then have u: "rw_pcs s u = R_store x" by (auto split: if_splits)
    then have "spinlock (rw_lock s) = Some u" using rw_invD(2) [OF inv, of u] by simp
    then show ?thesis using u pc rw_driftD(3) [OF d u] by (simp add: loses_dec_def)
  qed
  moreover have "rw_pcs ?s u \<noteq> Idle \<Longrightarrow> u < n" for u using rw_driftD(1) [OF d, of u] by (auto split: if_splits)
  moreover have "num_readers (rw_lock ?s) \<le> card (owners Reader ?s) + ?l"
    using rw_driftD(2) [OF d] unfolding c by (cases "loses_dec t s") simp_all
  moreover have "card (owners Reader s) + l \<le> card (owners Reader ?s) + ?l" if "loses_dec t s"
    using that c by simp
  ultimately show ?thesis unfolding rw_drift_def by (blast intro: le_trans)
qed

lemma rw_drift_exec:
  assumes inv: "rw_inv s" and d: "rw_drift n l s" and t: "t < n" and ex: "rw_exec want t s = Some s'"
  shows "rw_drift n (if loses_dec t s then l + 1 else l) s'"
proof (cases "rw_pcs s t")
  case (R_store tmp)
  with ex rw_drift_store [OF inv d t R_store] show ?thesis by (simp add: rw_exec_def loses_dec_def)
next
  case (Rel_dec k)
  with ex rw_drift_dec [OF inv d t Rel_dec] rw_inv_Rel_dec(1) [OF inv Rel_dec] show ?thesis
    by (simp add: rw_exec_def)
next
  case (Rel_writers k)
  moreover have "k = Writer" using rw_invD(5) [OF inv, of t] Rel_writers by simp
  ultimately show ?thesis
    using ex by (auto simp: rw_exec_def loses_dec_def intro!: rw_drift_move [OF d t])
next
  case W_acquire
  with ex show ?thesis
    by (auto simp: rw_exec_def loses_dec_def acquire_spin_def split: if_splits option.splits
        intro!: rw_drift_move [OF d t])
next
  case R_acquire
  with ex show ?thesis
    by (auto simp: rw_exec_def loses_dec_def acquire_spin_def split: if_splits option.splits
        intro!: rw_drift_move [OF d t])
qed (use ex in \<open>auto simp: rw_exec_def loses_dec_def release_spin_def intro!: rw_drift_move [OF d t]
    split: rw_kind.splits if_splits\<close>)

lemma rw_reachable_inv:
  assumes "rw_reachable n l s" and "n + l < 2 ^ 32"
  shows "rw_inv s \<and> rw_drift n l s"
  using assms
proof (induction rule: rw_reachable.induct)
  case init
  then show ?case using rw_initial_inv by (simp add: rw_drift_def rw_initial_def)
next
  case (next_state l s t want s')
  then have i: "rw_inv s" "rw_drift n l s" and b: "n + l \<le> 2 ^ 32 - 1" by (auto split: if_splits)
  have "rw_inv s'" by (rule rw_inv_exec [OF i(1) next_state(3)]) (rule rw_drift_no_wrap [OF i(2) _ b])
  with rw_drift_exec [OF i next_state(2,3)] show ?case by blast
qed

section \<open>Properties\<close>

text \<open>
  C14: Mutual exclusion in every state that \<open>n\<close> threads reach by any interleaving of their memory
  accesses, in an execution of any length in which \<open>l\<close> decrements of the reader count were lost, as
  long as \<open>n + l\<close> is below \<open>2 ^ 32\<close>, so that the 32-bit count cannot wrap: two threads that hold the
  lock for writing are the same thread, and while a thread holds it for writing no thread holds it
  for reading.
\<close>

theorem rwlock_mutual_exclusion:
  assumes "rw_reachable n l s" and "n + l < 2 ^ 32"
    and "rw_pcs s t = Holds Writer" and "rw_pcs s u = Holds k"
  shows "u = t \<and> k = Writer"
proof -
  have inv: "rw_inv s" using rw_reachable_inv [OF assms(1,2)] by blast
  have t: "t \<in> owners Writer s" and u: "u \<in> owners k s" using assms(3,4) by (simp_all add: owners_iff)
  show ?thesis using rw_invD(4) [OF inv] t u by (cases k) auto
qed

text \<open>
  Running a schedule: which thread moves, and what it wants when it is idle. \<open>rw_lost\<close> counts the
  decrements that are lost on the way.
\<close>

fun rw_run :: "(rw_kind \<times> nat) list \<Rightarrow> rw_sys \<Rightarrow> rw_sys option" where
  "rw_run [] s = Some s"
| "rw_run ((k, t) # sched) s = (case rw_exec k t s of None \<Rightarrow> None | Some s' \<Rightarrow> rw_run sched s')"

fun rw_lost :: "(rw_kind \<times> nat) list \<Rightarrow> rw_sys \<Rightarrow> nat" where
  "rw_lost [] s = 0"
| "rw_lost ((k, t) # sched) s =
     (if loses_dec t s then 1 else 0) + (case rw_exec k t s of None \<Rightarrow> 0 | Some s' \<Rightarrow> rw_lost sched s')"

lemma rw_run_reachable:
  "rw_reachable n l s \<Longrightarrow> rw_run sched s = Some s' \<Longrightarrow> \<forall>(k, t) \<in> set sched. t < n
    \<Longrightarrow> rw_reachable n (l + rw_lost sched s) s'"
proof (induction sched arbitrary: s l)
  case Nil
  then show ?case by simp
next
  case (Cons a sched)
  obtain k t where a: "a = (k, t)" by (cases a)
  with Cons.prems obtain s1 where s1: "rw_exec k t s = Some s1" "rw_run sched s1 = Some s'"
    by (auto split: option.splits)
  have "t < n" using Cons.prems(3) a by simp
  from rw_reachable.next_state [OF Cons.prems(1) this s1(1)]
  have "rw_reachable n (if loses_dec t s then l + 1 else l) s1" .
  from Cons.IH [OF this s1(2)] Cons.prems(3) a s1(1) show ?case by (auto split: if_splits)
qed

theorem rwlock_mutual_exclusion_witness:
  "\<exists>s. rw_reachable 3 0 s \<and> rw_pcs s 0 = Holds Writer \<and> (\<forall>u k. rw_pcs s u = Holds k \<longrightarrow> u = 0)"
proof -
  let ?sched = "replicate 6 (Writer, 0)"
  obtain s where s: "rw_run ?sched rw_initial = Some s" "rw_pcs s 0 = Holds Writer"
    "rw_lost ?sched rw_initial = 0"
    by (simp add: numeral_eq_Suc rw_exec_def rw_initial_def goto_def setlock_def acquire_spin_def
        release_spin_def loses_dec_def)
  from rw_run_reachable [OF rw_reachable.init s(1), of 3] s(3) have r: "rw_reachable 3 0 s" by simp
  have b: "(3::nat) + 0 < 2 ^ 32" by simp
  show ?thesis
    by (rule exI [of _ s]) (use r s(2) rwlock_mutual_exclusion [OF r b s(2)] in blast)
qed

text \<open>
  Remark: Under the same bound the reader count never falls below the number of threads that hold the
  lock for reading, exceeds it by the lost decrements at most when no thread has a store
  pending, and a release never decrements it below zero.
\<close>

theorem rwlock_reader_count:
  assumes "rw_reachable n l s" and "n + l < 2 ^ 32"
  shows "finite {t. rw_pcs s t = Holds Reader}
    \<and> card {t. rw_pcs s t = Holds Reader} \<le> num_readers (rw_lock s)
    \<and> num_readers (rw_lock s) \<le> card {t. owns Reader (rw_pcs s t)} + l
    \<and> (\<forall>t k. rw_pcs s t = Rel_dec k \<longrightarrow> 0 < num_readers (rw_lock s))"
proof -
  have inv: "rw_inv s" "rw_drift n l s" using rw_reachable_inv [OF assms] by blast+
  have sub: "{t. rw_pcs s t = Holds Reader} \<subseteq> owners Reader s" by (auto simp: owners_iff)
  then have "card {t. rw_pcs s t = Holds Reader} \<le> card (owners Reader s)"
    by (rule card_mono [OF rw_invD(1) [OF inv(1)]])
  with rw_invD(3) [OF inv(1)] rw_inv_Rel_dec(1) [OF inv(1)] finite_subset [OF sub rw_invD(1) [OF inv(1)]]
    rw_driftD(2) [OF inv(2)]
  show ?thesis by (fastforce simp: owners_def)
qed

theorem rwlock_reader_count_witness:
  "card {t. rw_pcs rw_initial t = Holds Reader} \<le> num_readers (rw_lock rw_initial)"
  using rwlock_reader_count [OF rw_reachable.init, of 1] by simp

text \<open>A schedule in which thread 0 releases between the load and the store of thread 1.\<close>

definition lost_decrement :: "(rw_kind \<times> nat) list" where
  "lost_decrement = replicate 7 (Reader, 0) @ replicate 5 (Reader, 1) @ replicate 3 (Reader, 0)
     @ replicate 5 (Reader, 1)"

lemma lost_decrement_moves:
  "lost_decrement =
     [(Reader, 0), (Reader, 0), (Reader, 0), (Reader, 0), (Reader, 0), (Reader, 0), (Reader, 0),
      (Reader, 1), (Reader, 1), (Reader, 1), (Reader, 1), (Reader, 1), (Reader, 0), (Reader, 0), (Reader, 0),
      (Reader, 1), (Reader, 1), (Reader, 1), (Reader, 1), (Reader, 1)]"
  by (simp add: lost_decrement_def numeral_eq_Suc)

text \<open>
  Remark: A decrement can be lost. Thread 0 holds the lock for reading; thread 1 loads the reader
  count for its increment, thread 0 releases, and thread 1 stores the value it computed from the
  old count. When thread 1 has released as well, all threads are idle, but the count is 1: no
  writer will ever be admitted again.
\<close>

theorem rwlock_lost_decrement:
  "\<exists>s. rw_reachable 2 1 s \<and> (\<forall>t. rw_pcs s t = Idle) \<and> num_readers (rw_lock s) = 1
     \<and> num_writers (rw_lock s) = 0"
proof -
  obtain s where s: "rw_run lost_decrement rw_initial = Some s" "\<forall>t. rw_pcs s t = Idle"
    "num_readers (rw_lock s) = 1" "num_writers (rw_lock s) = 0"
    by (simp add: lost_decrement_moves rw_exec_def rw_initial_def goto_def setlock_def
        acquire_spin_def release_spin_def fun_upd_def)
  have l: "rw_lost lost_decrement rw_initial = 1"
    by (simp add: lost_decrement_moves rw_exec_def rw_initial_def goto_def setlock_def
        acquire_spin_def release_spin_def loses_dec_def)
  have "rw_reachable 2 (0 + rw_lost lost_decrement rw_initial) s"
    by (rule rw_run_reachable [OF rw_reachable.init s(1)]) (auto simp: lost_decrement_def)
  with s l show ?thesis by (intro exI [of _ s]) simp
qed

text \<open>
  Remark: The bound is needed: a store on top of \<open>2 ^ 32 - 1\<close> sets the count of a lock that is held
  for reading to 0, and the next writer is let in.
\<close>

lemma rwlock_store_wraps:
  assumes "rw_pcs s t = R_store (2 ^ 32 - 1)"
  shows "\<exists>s'. rw_exec k t s = Some s' \<and> num_readers (rw_lock s') = 0 \<and> owns Reader (rw_pcs s' t)"
  using assms by (simp add: rw_exec_def u32_def)

end
