(* ===== verification/Htable.thy ===== *)
theory Htable
  imports Liballoc_Heap "HOL-Library.Multiset"
begin

text \<open>
  The open-addressing hash table (\<^verbatim>\<open>kernel/ds/htable.c\<close>) that holds the kernel's processes, threads and
  shared memory areas. An entry is a pointer; the key and comparison functions are parameters, as
  they are in \<^verbatim>\<open>struct hash_table\<close>. The table doubles when an insertion would exceed the load
  \<^verbatim>\<open>percent\<close> and halves when it is sparse.

  \<open>ht_bag\<close> is the multiset of entries. The lemmas show that an insertion adds one entry, a removal
  takes one away, rehashing keeps them all, and a lookup finds an entry exactly when there is one.
  They need keys whose absolute value stays below \<open>2 ^ 30\<close>.
\<close>

section \<open>State\<close>

record htable =
  ht_self :: nat
  ht_total :: int
  ht_size :: int
  ht_percent :: int
  ht_array :: nat
  ht_table :: "nat option list"

text \<open>C division and remainder by a positive number round towards zero.\<close>

definition c_div :: "int \<Rightarrow> int \<Rightarrow> int" where
  "c_div a b = (if a < 0 then - ((- a) div b) else a div b)"

definition c_rem :: "int \<Rightarrow> int \<Rightarrow> int" where
  "c_rem a b = (if a < 0 then - ((- a) mod b) else a mod b)"

definition sizeof_htable :: nat where "sizeof_htable = 24"

section \<open>Operations\<close>

text \<open>The array is written before the second pointer is tested: a null pointer faults.\<close>

definition init_htable ::
  "'h mm_subsystem \<Rightarrow> int \<Rightarrow> int \<Rightarrow> 'h \<Rightarrow> (htable option \<times> 'h) kres" where
  "init_htable sub sz percent h0 =
     bindR (kmalloc sub sizeof_htable h0) (\<lambda>(p, h1).
     case p of
       None \<Rightarrow> Inr (None, h1)
     | Some self \<Rightarrow>
         (let size' = (if sz \<le> 0 then 32 else sz) in
          bindR (kmalloc sub (u32 (nat size' * 4)) h1) (\<lambda>(q, h2).
          case q of
            None \<Rightarrow> Inl Null_deref
          | Some arr \<Rightarrow>
              guardR (nat size' \<le> u32 (nat size' * 4) div 4) Out_of_bounds (
              Inr (Some \<lparr>ht_self = self, ht_total = 0, ht_size = size', ht_percent = percent,
                         ht_array = arr, ht_table = replicate (nat size') None\<rparr>, h2)))))"

definition delete_htable :: "'h mm_subsystem \<Rightarrow> htable \<Rightarrow> 'h \<Rightarrow> (int \<times> 'h) kres" where
  "delete_htable sub tbl h =
     bindR (kfree sub (Some (ht_array tbl)) h) (\<lambda>h1.
     bindR (kfree sub (Some (ht_self tbl)) h1) (\<lambda>h2. Inr (0, h2)))"

text \<open>The absolute value of the key, as the code computes it.\<close>

definition abs_key :: "int \<Rightarrow> int" where
  "abs_key key = (if key < 0 then s32 (- key) else key)"

text \<open>
  The probe loop that all operations share: \<open>k\<close> more positions from index \<open>i\<close> on, until the entry
  satisfies \<open>test\<close>. A negative position fails the assertion, or leaves the array where there is
  none.
\<close>

fun probe :: "htable \<Rightarrow> (nat option \<Rightarrow> bool) \<Rightarrow> int \<Rightarrow> nat \<Rightarrow> nat \<Rightarrow> nat option kres" where
  "probe tbl test key i 0 = Inr None"
| "probe tbl test key i (Suc k) =
     (let position = c_rem (s32 (int i + key)) (ht_size tbl) in
      guardR (position \<ge> 0) Assert_failed (
      bindR (aget (ht_table tbl) (nat position)) (\<lambda>e.
      if test e then Inr (Some (nat position)) else probe tbl test key (Suc i) k)))"

text \<open>Insertion of a list of entries, given the insertion of one.\<close>

fun insert_all ::
  "(htable \<Rightarrow> nat \<Rightarrow> 'h \<Rightarrow> ((int \<times> htable) \<times> 'h) kres) \<Rightarrow> htable \<Rightarrow> nat option list \<Rightarrow> 'h
     \<Rightarrow> (htable \<times> 'h) kres" where
  "insert_all ins tbl [] h = Inr (tbl, h)"
| "insert_all ins tbl (None # es) h = insert_all ins tbl es h"
| "insert_all ins tbl (Some e # es) h =
     bindR (ins tbl e h) (\<lambda>((_, tbl'), h'). insert_all ins tbl' es h')"

definition rehash_with ::
  "(htable \<Rightarrow> nat \<Rightarrow> 'h \<Rightarrow> ((int \<times> htable) \<times> 'h) kres) \<Rightarrow> 'h mm_subsystem \<Rightarrow> htable \<Rightarrow> int \<Rightarrow> 'h
     \<Rightarrow> ((int \<times> htable) \<times> 'h) kres" where
  "rehash_with ins sub tbl new_size h =
     bindR (kmalloc sub (u32 (4 * nat new_size)) h) (\<lambda>(p, h1).
     case p of
       None \<Rightarrow> Inr ((-1, tbl), h1)
     | Some arr \<Rightarrow>
         guardR (nat new_size \<le> u32 (4 * nat new_size) div 4) Out_of_bounds (
         bindR (insert_all ins (tbl\<lparr>ht_size := new_size, ht_total := 0, ht_array := arr,
                                   ht_table := replicate (nat new_size) None\<rparr>)
                  (ht_table tbl) h1) (\<lambda>(tbl', h2).
         bindR (kfree sub (Some (ht_array tbl)) h2) (\<lambda>h3. Inr ((0, tbl'), h3)))))"

text \<open>
  \<^verbatim>\<open>htable_insert\<close> and \<^verbatim>\<open>htable_rehash\<close> call each other; the fuel bounds the depth of the
  nesting. The table doubles at each level, so 32 levels exhaust the address space.
\<close>

primrec insert_fuel ::
  "nat \<Rightarrow> 'h mm_subsystem \<Rightarrow> (nat \<Rightarrow> int) \<Rightarrow> htable \<Rightarrow> nat \<Rightarrow> 'h \<Rightarrow> ((int \<times> htable) \<times> 'h) kres" where
  "insert_fuel 0 = (\<lambda>sub key tbl data h. Inl Hang)"
| "insert_fuel (Suc f) = (\<lambda>sub key tbl data h.
     if ht_total tbl = ht_size tbl then Inr ((-1, tbl), h)
     else
       bindR (if c_div (s32 ((ht_total tbl + 1) * 100)) (ht_size tbl) > ht_percent tbl
              then bindR (rehash_with (insert_fuel f sub key) sub tbl (s32 (ht_size tbl * 2)) h)
                     (\<lambda>((_, tbl'), h'). Inr (tbl', h'))
              else Inr (tbl, h)) (\<lambda>(tbl1, h1).
       bindR (probe tbl1 (\<lambda>e. e = None) (abs_key (key data)) 0 (nat (ht_size tbl1))) (\<lambda>r.
       case r of
         None \<Rightarrow> Inr ((0, tbl1), h1)
       | Some pos \<Rightarrow>
           Inr ((0, tbl1\<lparr>ht_table := (ht_table tbl1)[pos := Some data],
                         ht_total := ht_total tbl1 + 1\<rparr>), h1))))"

definition htable_insert ::
  "'h mm_subsystem \<Rightarrow> (nat \<Rightarrow> int) \<Rightarrow> htable \<Rightarrow> nat \<Rightarrow> 'h \<Rightarrow> ((int \<times> htable) \<times> 'h) kres" where
  "htable_insert = insert_fuel 32"

definition htable_rehash ::
  "'h mm_subsystem \<Rightarrow> (nat \<Rightarrow> int) \<Rightarrow> htable \<Rightarrow> int \<Rightarrow> 'h \<Rightarrow> ((int \<times> htable) \<times> 'h) kres" where
  "htable_rehash sub key = rehash_with (htable_insert sub key) sub"

definition htable_remove ::
  "'h mm_subsystem \<Rightarrow> (nat \<Rightarrow> int) \<Rightarrow> htable \<Rightarrow> nat \<Rightarrow> 'h \<Rightarrow> ((int \<times> htable) \<times> 'h) kres" where
  "htable_remove sub key tbl data h =
     (if ht_total tbl = 0 then Inr ((-1, tbl), h)
      else
        bindR (if c_div (s32 ((ht_total tbl - 1) * 100)) (ht_size tbl) < c_div (ht_percent tbl) 4
                  \<and> ht_size tbl > 32
               then bindR (htable_rehash sub key tbl (c_div (ht_size tbl) 2) h)
                      (\<lambda>((_, tbl'), h'). Inr (tbl', h'))
               else Inr (tbl, h)) (\<lambda>(tbl1, h1).
        bindR (probe tbl1 (\<lambda>e. e = Some data) (abs_key (key data)) 0 (nat (ht_size tbl1))) (\<lambda>r.
        case r of
          None \<Rightarrow> Inr ((0, tbl1), h1)
        | Some pos \<Rightarrow>
            Inr ((0, tbl1\<lparr>ht_table := (ht_table tbl1)[pos := None],
                          ht_total := ht_total tbl1 - 1\<rparr>), h1))))"

text \<open>A lookup compares every entry with the sample; \<open>compare_fn\<close> answers 0 for a match.\<close>

definition htable_retrieve ::
  "(nat \<Rightarrow> int) \<Rightarrow> (nat \<Rightarrow> nat \<Rightarrow> int) \<Rightarrow> htable \<Rightarrow> nat \<Rightarrow> nat option kres" where
  "htable_retrieve key compare_fn tbl sample =
     (if ht_total tbl = 0 then Inr None
      else
        bindR (probe tbl (\<lambda>e. case e of None \<Rightarrow> False | Some x \<Rightarrow> compare_fn x sample = 0)
                 (abs_key (key sample)) 0 (nat (ht_size tbl))) (\<lambda>r.
        case r of None \<Rightarrow> Inr None | Some pos \<Rightarrow> aget (ht_table tbl) pos))"

fun nth_entry :: "nat option list \<Rightarrow> int \<Rightarrow> int \<Rightarrow> nat option" where
  "nth_entry [] num seen = None"
| "nth_entry (None # es) num seen = nth_entry es num seen"
| "nth_entry (Some e # es) num seen = (if seen = num then Some e else nth_entry es num (seen + 1))"

definition htable_get :: "htable \<Rightarrow> int \<Rightarrow> nat option" where
  "htable_get tbl num =
     (if ht_total tbl = 0 then None
      else if num \<ge> ht_total tbl then None
      else nth_entry (take (nat (ht_size tbl)) (ht_table tbl)) num 0)"

section \<open>Entries\<close>

definition entries :: "nat option list \<Rightarrow> nat list" where
  "entries es = map the (filter (\<lambda>e. e \<noteq> None) es)"

definition ht_bag :: "htable \<Rightarrow> nat multiset" where
  "ht_bag tbl = mset (entries (ht_table tbl))"

definition ht_ok :: "htable \<Rightarrow> bool" where
  "ht_ok tbl \<longleftrightarrow>
     0 < ht_size tbl \<and> ht_size tbl < 2 ^ 23 \<and> length (ht_table tbl) = nat (ht_size tbl)
     \<and> ht_total tbl = int (length (entries (ht_table tbl)))
     \<and> 50 \<le> ht_percent tbl \<and> ht_percent tbl \<le> 100"

definition small_keys :: "(nat \<Rightarrow> int) \<Rightarrow> bool" where
  "small_keys key \<longleftrightarrow> (\<forall>d. - (2 ^ 30) < key d \<and> key d < 2 ^ 30)"

lemma entries_simps [simp]:
  "entries [] = []" "entries (None # es) = entries es" "entries (Some e # es) = e # entries es"
  "entries (xs @ ys) = entries xs @ entries ys" "entries (replicate n None) = []"
  by (simp_all add: entries_def)

lemma length_entries: "length (entries es) \<le> length es"
  by (simp add: entries_def)

lemma entries_set: "x \<in> set (entries es) \<longleftrightarrow> Some x \<in> set es"
  by (induction es) (auto simp: entries_def)

lemma entries_full: "length (entries es) < length es \<Longrightarrow> None \<in> set es"
proof (rule ccontr)
  assume "length (entries es) < length es" "None \<notin> set es"
  then have "filter (\<lambda>e. e \<noteq> None) es = es" by (auto simp: filter_id_conv) (metis option.exhaust)
  then show False using \<open>length (entries es) < length es\<close> by (simp add: entries_def)
qed

lemma mset_entries_put:
  assumes "i < length es" and "es ! i = None"
  shows "mset (entries (es[i := Some x])) = add_mset x (mset (entries es))"
proof -
  have "es = take i es @ None # drop (Suc i) es" using assms by (metis id_take_nth_drop)
  then have "mset (entries es) = mset (entries (take i es)) + mset (entries (drop (Suc i) es))"
    by (metis entries_simps(2,4) mset_append)
  then show ?thesis using assms(1) by (simp add: upd_conv_take_nth_drop)
qed

lemma mset_entries_drop:
  assumes "i < length es" and "es ! i = Some x"
  shows "mset (entries es) = add_mset x (mset (entries (es[i := None])))"
proof -
  have "mset (entries ((es[i := None])[i := Some x])) = add_mset x (mset (entries (es[i := None])))"
    by (rule mset_entries_put) (use assms in simp_all)
  moreover have "(es[i := None])[i := Some x] = es" using assms by (metis list_update_id list_update_overwrite)
  ultimately show ?thesis by simp
qed

section \<open>Probing\<close>

lemma abs_key_range: "small_keys key \<Longrightarrow> 0 \<le> abs_key (key d) \<and> abs_key (key d) < 2 ^ 30"
  unfolding small_keys_def abs_key_def by (auto dest!: spec [of _ d])

text \<open>The probe sequence visits position \<open>(i + key) mod size\<close> for \<open>i = 0, 1, ...\<close>.\<close>

lemma probe_step:
  assumes "ht_ok tbl" and "0 \<le> key" "key < 2 ^ 30" and "i < 2 ^ 29"
  shows "probe tbl test key i (Suc k) =
    (let pos = (i + nat key) mod nat (ht_size tbl) in
     if test (ht_table tbl ! pos) then Inr (Some pos) else probe tbl test key (Suc i) k)"
proof -
  have sz: "0 < ht_size tbl" "length (ht_table tbl) = nat (ht_size tbl)"
    using assms(1) by (simp_all add: ht_ok_def)
  have s: "s32 (int i + key) = int i + key" using assms by simp
  have "c_rem (s32 (int i + key)) (ht_size tbl) = (int i + key) mod ht_size tbl"
    unfolding s using assms(2) by (simp add: c_rem_def)
  also have "\<dots> = int ((i + nat key) mod nat (ht_size tbl))"
    using sz(1) assms(2) by (simp add: zmod_int)
  finally have c: "c_rem (s32 (int i + key)) (ht_size tbl) = int ((i + nat key) mod nat (ht_size tbl))" .
  have "(i + nat key) mod nat (ht_size tbl) < length (ht_table tbl)" using sz by simp
  then show ?thesis by (simp add: c Let_def)
qed

lemma probe_ok:
  assumes ok: "ht_ok tbl" and key: "0 \<le> key" "key < 2 ^ 30" and b: "i + k < 2 ^ 29"
  shows "\<exists>r. probe tbl test key i k = Inr r \<and>
    (case r of
       None \<Rightarrow> \<forall>j < k. \<not> test (ht_table tbl ! ((i + j + nat key) mod nat (ht_size tbl)))
     | Some pos \<Rightarrow> pos < length (ht_table tbl) \<and> test (ht_table tbl ! pos))"
  using b
proof (induction k arbitrary: i)
  case 0
  then show ?case by simp
next
  case (Suc k)
  let ?pos = "(i + nat key) mod nat (ht_size tbl)"
  have lt: "?pos < length (ht_table tbl)" using ok by (simp add: ht_ok_def)
  have st: "probe tbl test key i (Suc k) =
      (if test (ht_table tbl ! ?pos) then Inr (Some ?pos) else probe tbl test key (Suc i) k)"
    using probe_step [OF ok key, of i test k] Suc.prems by simp
  show ?case
  proof (cases "test (ht_table tbl ! ?pos)")
    case True
    with st lt show ?thesis by simp
  next
    case False
    from Suc.IH [of "Suc i"] Suc.prems obtain r where r: "probe tbl test key (Suc i) k = Inr r"
      "case r of
       None \<Rightarrow> \<forall>j < k. \<not> test (ht_table tbl ! ((Suc i + j + nat key) mod nat (ht_size tbl)))
     | Some pos \<Rightarrow> pos < length (ht_table tbl) \<and> test (ht_table tbl ! pos)" by auto
    have "\<forall>j < Suc k. \<not> test (ht_table tbl ! ((i + j + nat key) mod nat (ht_size tbl)))" if "r = None"
    proof (intro allI impI)
      fix j
      assume "j < Suc k"
      then show "\<not> test (ht_table tbl ! ((i + j + nat key) mod nat (ht_size tbl)))"
        using r(2) that False by (cases j) auto
    qed
    with r False st show ?thesis by (cases r) auto
  qed
qed

text \<open>A full round visits every position.\<close>

lemma probe_all:
  assumes ok: "ht_ok tbl" and key: "small_keys key"
  shows "\<exists>r. probe tbl test (abs_key (key d)) 0 (nat (ht_size tbl)) = Inr r \<and>
    (case r of
       None \<Rightarrow> \<forall>e \<in> set (ht_table tbl). \<not> test e
     | Some pos \<Rightarrow> pos < length (ht_table tbl) \<and> test (ht_table tbl ! pos))"
proof -
  let ?n = "nat (ht_size tbl)" and ?k = "nat (abs_key (key d))"
  have sz: "0 < ?n" "?n < 2 ^ 29" "length (ht_table tbl) = ?n"
    using ok by (simp_all add: ht_ok_def nat_less_iff)
  note kr = abs_key_range [OF key, of d]
  from probe_ok [OF ok, of "abs_key (key d)" 0 ?n test] kr sz obtain r where
    r: "probe tbl test (abs_key (key d)) 0 ?n = Inr r"
      "case r of
       None \<Rightarrow> \<forall>j < ?n. \<not> test (ht_table tbl ! ((0 + j + ?k) mod ?n))
     | Some pos \<Rightarrow> pos < length (ht_table tbl) \<and> test (ht_table tbl ! pos)" by auto
  have "\<not> test e" if "r = None" "e \<in> set (ht_table tbl)" for e
  proof -
    from that(2) obtain m where m: "m < ?n" "e = ht_table tbl ! m" using sz by (auto simp: in_set_conv_nth)
    let ?j = "(m + (?n - ?k mod ?n)) mod ?n"
    have "(?j + ?k) mod ?n = (m + (?n - ?k mod ?n) + ?k mod ?n) mod ?n"
      by (simp add: mod_add_left_eq mod_add_right_eq)
    also have "m + (?n - ?k mod ?n) + ?k mod ?n = m + ?n"
      using mod_less_divisor [OF sz(1), of ?k] by linarith
    finally have "(?j + ?k) mod ?n = m" using m by simp
    moreover have "\<not> test (ht_table tbl ! ((0 + ?j + ?k) mod ?n))"
      using r(2) that(1) mod_less_divisor [OF sz(1)] by simp
    ultimately show ?thesis using m(2) by (simp only: add_0 not_False_eq_True)
  qed
  with r show ?thesis by (cases r) auto
qed

section \<open>Insertion\<close>

lemma ht_okD:
  assumes "ht_ok tbl"
  shows "0 < ht_size tbl" and "ht_size tbl < 8388608" and "length (ht_table tbl) = nat (ht_size tbl)"
    and "ht_total tbl = int (length (entries (ht_table tbl)))" and "ht_total tbl \<le> ht_size tbl"
    and "50 \<le> ht_percent tbl" and "ht_percent tbl \<le> 100" and "0 \<le> ht_total tbl"
  using assms length_entries [of "ht_table tbl"] unfolding ht_ok_def by auto

text \<open>The load after one more entry, as the code computes it.\<close>

lemma load_eq:
  assumes "ht_ok tbl"
  shows "c_div (s32 ((ht_total tbl + 1) * 100)) (ht_size tbl) = (ht_total tbl + 1) * 100 div ht_size tbl"
  using ht_okD [OF assms] by (simp add: c_div_def)

lemma put_entry:
  assumes ok: "ht_ok tbl" and pos: "pos < length (ht_table tbl)" "ht_table tbl ! pos = None"
  shows "ht_ok (tbl\<lparr>ht_table := (ht_table tbl)[pos := Some data], ht_total := ht_total tbl + 1\<rparr>)"
    and "ht_bag (tbl\<lparr>ht_table := (ht_table tbl)[pos := Some data], ht_total := ht_total tbl + 1\<rparr>)
       = add_mset data (ht_bag tbl)"
proof -
  note m = mset_entries_put [OF pos, of data]
  then have "length (entries ((ht_table tbl)[pos := Some data])) = Suc (length (entries (ht_table tbl)))"
    by (metis size_add_mset size_mset)
  then show "ht_ok (tbl\<lparr>ht_table := (ht_table tbl)[pos := Some data], ht_total := ht_total tbl + 1\<rparr>)"
    using ok by (simp add: ht_ok_def)
  show "ht_bag (tbl\<lparr>ht_table := (ht_table tbl)[pos := Some data], ht_total := ht_total tbl + 1\<rparr>)
       = add_mset data (ht_bag tbl)" using m by (simp add: ht_bag_def)
qed

text \<open>The last part of an insertion, once the table has room.\<close>

lemma place_entry:
  assumes ok: "ht_ok tbl" and key: "small_keys key" and room: "ht_total tbl < ht_size tbl"
  shows "\<exists>tbl'. bindR (probe tbl (\<lambda>e. e = None) (abs_key (key data)) 0 (nat (ht_size tbl))) (\<lambda>r.
       case r of
         None \<Rightarrow> Inr ((0, tbl), h)
       | Some pos \<Rightarrow> Inr ((0, tbl\<lparr>ht_table := (ht_table tbl)[pos := Some data],
                         ht_total := ht_total tbl + 1\<rparr>), h)) = Inr ((0 :: int, tbl'), h)
    \<and> ht_ok tbl' \<and> ht_bag tbl' = add_mset data (ht_bag tbl) \<and> ht_size tbl' = ht_size tbl
    \<and> ht_percent tbl' = ht_percent tbl \<and> ht_array tbl' = ht_array tbl \<and> ht_self tbl' = ht_self tbl
    \<and> ht_total tbl' = ht_total tbl + 1"
proof -
  note d = ht_okD [OF ok]
  have "None \<in> set (ht_table tbl)" by (rule entries_full) (use d room in simp)
  with probe_all [OF ok key, of "\<lambda>e. e = None" data] obtain pos where
    "probe tbl (\<lambda>e. e = None) (abs_key (key data)) 0 (nat (ht_size tbl)) = Inr (Some pos)"
    "pos < length (ht_table tbl)" "ht_table tbl ! pos = None" by (auto split: option.splits)
  with put_entry [OF ok, of pos data] show ?thesis by simp
qed

lemma insert_direct:
  assumes ok: "ht_ok tbl" and key: "small_keys key" and room: "ht_total tbl < ht_size tbl"
    and load: "(ht_total tbl + 1) * 100 div ht_size tbl \<le> ht_percent tbl"
  shows "\<exists>tbl'. insert_fuel (Suc f) sub key tbl data h = Inr ((0, tbl'), h) \<and> ht_ok tbl'
    \<and> ht_bag tbl' = add_mset data (ht_bag tbl) \<and> ht_size tbl' = ht_size tbl
    \<and> ht_percent tbl' = ht_percent tbl \<and> ht_array tbl' = ht_array tbl \<and> ht_self tbl' = ht_self tbl
    \<and> ht_total tbl' = ht_total tbl + 1"
  using place_entry [OF ok key room, of data h] room load load_eq [OF ok] by simp

lemma insert_all_ok:
  assumes "ht_ok tbl" and "small_keys key"
    and "(ht_total tbl + int (length (entries es))) * 100 div ht_size tbl \<le> ht_percent tbl"
    and "ht_total tbl + int (length (entries es)) \<le> ht_size tbl"
  shows "\<exists>tbl'. insert_all (insert_fuel (Suc f) sub key) tbl es h = Inr (tbl', h) \<and> ht_ok tbl'
    \<and> ht_bag tbl' = ht_bag tbl + mset (entries es) \<and> ht_size tbl' = ht_size tbl
    \<and> ht_percent tbl' = ht_percent tbl \<and> ht_array tbl' = ht_array tbl \<and> ht_self tbl' = ht_self tbl
    \<and> ht_total tbl' = ht_total tbl + int (length (entries es))"
  using assms
proof (induction es arbitrary: tbl)
  case Nil
  then show ?case by simp
next
  case (Cons e es)
  show ?case
  proof (cases e)
    case None
    with Cons show ?thesis by simp
  next
    case (Some x)
    note d = ht_okD [OF Cons.prems(1)]
    have "(ht_total tbl + 1) * 100 div ht_size tbl
        \<le> (ht_total tbl + int (length (entries (e # es)))) * 100 div ht_size tbl"
      by (rule zdiv_mono1) (use Some d in simp_all)
    then have l: "(ht_total tbl + 1) * 100 div ht_size tbl \<le> ht_percent tbl" using Cons.prems(3) by simp
    have r: "ht_total tbl < ht_size tbl" using Cons.prems(4) Some by simp
    from insert_direct [OF Cons.prems(1,2) r l, of f sub x h] obtain t1 where t1:
      "insert_fuel (Suc f) sub key tbl x h = Inr ((0, t1), h)" "ht_ok t1"
      "ht_bag t1 = add_mset x (ht_bag tbl)" "ht_size t1 = ht_size tbl" "ht_percent t1 = ht_percent tbl"
      "ht_array t1 = ht_array tbl" "ht_self t1 = ht_self tbl" "ht_total t1 = ht_total tbl + 1" by blast
    have p: "(ht_total t1 + int (length (entries es))) * 100 div ht_size t1 \<le> ht_percent t1"
      "ht_total t1 + int (length (entries es)) \<le> ht_size t1"
      using Cons.prems(3,4) Some t1 by (simp_all add: algebra_simps)
    from Cons.IH [OF t1(2) Cons.prems(2) p] obtain t2 where t2:
      "insert_all (insert_fuel (Suc f) sub key) t1 es h = Inr (t2, h)" "ht_ok t2"
      "ht_bag t2 = ht_bag t1 + mset (entries es)" "ht_size t2 = ht_size t1"
      "ht_percent t2 = ht_percent t1" "ht_array t2 = ht_array t1" "ht_self t2 = ht_self t1"
      "ht_total t2 = ht_total t1 + int (length (entries es))" by blast
    with t1 Some show ?thesis by (simp del: insert_fuel.simps)
  qed
qed

text \<open>The table's two blocks are live and distinct.\<close>

definition ht_live :: "(nat \<Rightarrow> nat option) \<Rightarrow> htable \<Rightarrow> bool" where
  "ht_live lv tbl \<longleftrightarrow> lv (ht_self tbl) \<noteq> None \<and> lv (ht_array tbl) \<noteq> None \<and> ht_self tbl \<noteq> ht_array tbl"

context kernel_heap
begin

lemma rehash_ok:
  assumes ok: "ht_ok tbl" and key: "small_keys key" and h: "heap_ok h" and lv: "ht_live (live h) tbl"
    and n: "0 < n" "n < 8388608" and load: "ht_total tbl * 100 div n \<le> ht_percent tbl"
    and room: "ht_total tbl \<le> n"
  shows "\<exists>rc tbl' h'. rehash_with (insert_fuel (Suc f) subsystem key) subsystem tbl n h = Inr ((rc, tbl'), h')
    \<and> heap_ok h' \<and> ht_live (live h') tbl' \<and> ht_ok tbl' \<and> ht_bag tbl' = ht_bag tbl
    \<and> ht_total tbl' = ht_total tbl \<and> ht_percent tbl' = ht_percent tbl
    \<and> (rc = 0 \<and> ht_size tbl' = n \<or> rc = -1 \<and> tbl' = tbl)"
proof -
  note d = ht_okD [OF ok]
  have u: "u32 (4 * nat n) = 4 * nat n" "4 * nat n < MAX_REQUEST"
    using n by (simp_all add: MAX_REQUEST_def nat_less_iff)
  show ?thesis
  proof (cases rule: malloc_cases [OF h u(2)])
    case (1 h')
    with u ok lv show ?thesis by (simp add: rehash_with_def)
  next
    case (2 p h1)
    let ?t0 = "tbl\<lparr>ht_size := n, ht_total := 0, ht_array := p, ht_table := replicate (nat n) None\<rparr>"
    have ok0: "ht_ok ?t0" using d n by (simp add: ht_ok_def)
    have p: "(ht_total ?t0 + int (length (entries (ht_table tbl)))) * 100 div ht_size ?t0 \<le> ht_percent ?t0"
      "ht_total ?t0 + int (length (entries (ht_table tbl))) \<le> ht_size ?t0"
      using load room d(4) by simp_all
    from insert_all_ok [OF ok0 key p, of f subsystem h1] obtain t1 where t1:
      "insert_all (insert_fuel (Suc f) subsystem key) ?t0 (ht_table tbl) h1 = Inr (t1, h1)" "ht_ok t1"
      "ht_bag t1 = ht_bag ?t0 + mset (entries (ht_table tbl))" "ht_size t1 = n"
      "ht_percent t1 = ht_percent tbl" "ht_array t1 = p" "ht_self t1 = ht_self tbl"
      "ht_total t1 = int (length (entries (ht_table tbl)))" by auto
    have "live h1 (ht_array tbl) \<noteq> None" using lv 2 by (auto simp: ht_live_def)
    then obtain k where "live h1 (ht_array tbl) = Some k" by auto
    from free_live [OF 2(2) this] obtain h2 where h2: "kfree subsystem (Some (ht_array tbl)) h1 = Inr h2"
      "heap_ok h2" "live h2 = (live h1)(ht_array tbl := None)" by blast
    have "ht_live (live h2) t1" using lv 2 h2 t1 by (auto simp: ht_live_def)
    moreover have "ht_bag t1 = ht_bag tbl" using t1(3) by (simp add: ht_bag_def)
    moreover have "ht_total t1 = ht_total tbl" using t1(8) d(4) by simp
    ultimately show ?thesis
      using 2(1) u t1 h2 by (simp add: rehash_with_def del: insert_fuel.simps)
  qed
qed

lemma insert_ok:
  assumes ok: "ht_ok tbl" and key: "small_keys key" and h: "heap_ok h" and lv: "ht_live (live h) tbl"
    and big: "2 * ht_size tbl < 8388608"
  shows "\<exists>rc tbl' h'. htable_insert subsystem key tbl data h = Inr ((rc, tbl'), h')
    \<and> heap_ok h' \<and> ht_live (live h') tbl' \<and> ht_ok tbl'
    \<and> (rc = 0 \<and> ht_bag tbl' = add_mset data (ht_bag tbl)
       \<or> rc = -1 \<and> tbl' = tbl \<and> ht_total tbl = ht_size tbl)"
proof -
  note d = ht_okD [OF ok]
  have fuel: "htable_insert = insert_fuel (Suc (Suc 30))" by (simp add: htable_insert_def del: insert_fuel.simps)
  show ?thesis
  proof (cases "ht_total tbl = ht_size tbl")
    case True
    with ok h lv show ?thesis unfolding fuel insert_fuel.simps(2) by simp
  next
    case False
    then have room: "ht_total tbl < ht_size tbl" using d by simp
    show ?thesis
    proof (cases "(ht_total tbl + 1) * 100 div ht_size tbl \<le> ht_percent tbl")
      case True
      from insert_direct [OF ok key room True, of "Suc 30" subsystem data h] h lv show ?thesis
        unfolding fuel by (auto simp: ht_live_def simp del: insert_fuel.simps)
    next
      case load: False
      have "ht_total tbl * 100 \<le> 50 * (2 * ht_size tbl)" using room by simp
      then have "ht_total tbl * 100 div (2 * ht_size tbl) \<le> 50 * (2 * ht_size tbl) div (2 * ht_size tbl)"
        by (rule zdiv_mono1) (use d in simp)
      then have l: "ht_total tbl * 100 div (2 * ht_size tbl) \<le> ht_percent tbl" using d by simp
      have r: "ht_total tbl \<le> 2 * ht_size tbl" "0 < 2 * ht_size tbl" using room d by simp_all
      from rehash_ok [OF ok key h lv r(2) big l r(1), of 30] obtain rc t1 h1 where t1:
        "rehash_with (insert_fuel (Suc 30) subsystem key) subsystem tbl (2 * ht_size tbl) h = Inr ((rc, t1), h1)"
        "heap_ok h1" "ht_live (live h1) t1" "ht_ok t1" "ht_bag t1 = ht_bag tbl"
        "ht_total t1 = ht_total tbl" "rc = 0 \<and> ht_size t1 = 2 * ht_size tbl \<or> rc = -1 \<and> t1 = tbl" by blast
      have "ht_total t1 < ht_size t1" using t1(6,7) room d by auto
      from place_entry [OF t1(4) key this, of data h1] obtain t2 where t2:
        "bindR (probe t1 (\<lambda>e. e = None) (abs_key (key data)) 0 (nat (ht_size t1))) (\<lambda>r.
           case r of
             None \<Rightarrow> Inr ((0, t1), h1)
           | Some pos \<Rightarrow> Inr ((0, t1\<lparr>ht_table := (ht_table t1)[pos := Some data],
                         ht_total := ht_total t1 + 1\<rparr>), h1)) = Inr ((0 :: int, t2), h1)"
        "ht_ok t2" "ht_bag t2 = add_mset data (ht_bag t1)" "ht_array t2 = ht_array t1"
        "ht_self t2 = ht_self t1" by blast
      have "s32 (ht_size tbl * 2) = 2 * ht_size tbl" using big d by simp
      then have "htable_insert subsystem key tbl data h = Inr ((0, t2), h1)"
        unfolding fuel insert_fuel.simps(2) [of "Suc 30"]
        using False load load_eq [OF ok] t1(1) t2(1) by (simp del: insert_fuel.simps)
      with t1 t2 show ?thesis by (simp add: ht_live_def)
    qed
  qed
qed

lemma shrink_load:
  fixes t n q sz :: int
  assumes "(t - 1) * 100 div sz < q div 4" and "0 < sz" and "sz \<le> 2 * n + 1" and "16 \<le> n"
    and "50 \<le> q" and "q \<le> 100"
  shows "t * 100 div n \<le> q" and "t \<le> n"
proof -
  define P where "P = q div 4"
  have P: "12 \<le> P" "4 * P \<le> q" using assms(5) unfolding P_def by linarith+
  have "(t - 1) * 100 < P * sz"
  proof (rule ccontr)
    assume "\<not> (t - 1) * 100 < P * sz"
    then have "P * sz div sz \<le> (t - 1) * 100 div sz" by (intro zdiv_mono1) (use assms(2) in auto)
    then show False using assms(1,2) by (simp add: P_def)
  qed
  also have "\<dots> \<le> P * (2 * n + 1)" using P assms(3) by (intro mult_left_mono) simp_all
  finally have a: "t * 100 < 2 * (P * n) + P + 100" by (simp add: algebra_simps)
  have b: "16 * P \<le> P * n" using P assms(4) by (simp add: mult.commute mult_mono)
  have c: "4 * (P * n) \<le> q * n" using P assms(4) by (metis mult.assoc mult_right_mono order_trans zero_le_numeral)
  have le: "t * 100 \<le> q * n" using a b c P by linarith
  then have "t * 100 div n \<le> q * n div n" by (rule zdiv_mono1) (use assms(4) in simp)
  then show "t * 100 div n \<le> q" using assms(4) by simp
  have "q * n \<le> 100 * n" using assms(4,6) by (intro mult_right_mono) simp_all
  with le show "t \<le> n" by linarith
qed

lemma remove_ok:
  assumes ok: "ht_ok tbl" and key: "small_keys key" and h: "heap_ok h" and lv: "ht_live (live h) tbl"
  shows "\<exists>rc tbl' h'. htable_remove subsystem key tbl data h = Inr ((rc, tbl'), h')
    \<and> heap_ok h' \<and> ht_live (live h') tbl' \<and> ht_ok tbl' \<and> ht_bag tbl' = ht_bag tbl - {#data#}
    \<and> (rc = -1 \<longleftrightarrow> ht_total tbl = 0)"
proof (cases "ht_total tbl = 0")
  case True
  then have "ht_bag tbl = {#}" using ht_okD(4) [OF ok] by (simp add: ht_bag_def)
  with True ok h lv show ?thesis by (simp add: htable_remove_def)
next
  case False
  note d = ht_okD [OF ok]
  let ?sparse = "c_div (s32 ((ht_total tbl - 1) * 100)) (ht_size tbl) < c_div (ht_percent tbl) 4 \<and> ht_size tbl > 32"
  have "\<exists>t1 h1. (if ?sparse then bindR (htable_rehash subsystem key tbl (c_div (ht_size tbl) 2) h)
                      (\<lambda>((_, tbl'), h'). Inr (tbl', h')) else Inr (tbl, h)) = Inr (t1, h1)
      \<and> heap_ok h1 \<and> ht_live (live h1) t1 \<and> ht_ok t1 \<and> ht_bag t1 = ht_bag tbl"
  proof (cases ?sparse)
    case True
    have e: "c_div (s32 ((ht_total tbl - 1) * 100)) (ht_size tbl) = (ht_total tbl - 1) * 100 div ht_size tbl"
      "c_div (ht_percent tbl) 4 = ht_percent tbl div 4" "c_div (ht_size tbl) 2 = ht_size tbl div 2"
      using d False by (simp_all add: c_div_def)
    let ?n = "ht_size tbl div 2"
    have n: "ht_size tbl \<le> 2 * ?n + 1" "16 \<le> ?n" "0 < ?n" "?n < 8388608" using True d by linarith+
    have "(ht_total tbl - 1) * 100 div ht_size tbl < ht_percent tbl div 4" using True e by simp
    note sl = shrink_load [OF this d(1) n(1,2) d(6,7)]
    have fuel: "htable_insert = insert_fuel (Suc 31)" by (simp add: htable_insert_def del: insert_fuel.simps)
    from rehash_ok [OF ok key h lv n(3,4) sl, of 31] obtain rc t1 h1 where
      "htable_rehash subsystem key tbl ?n h = Inr ((rc, t1), h1)" "heap_ok h1" "ht_live (live h1) t1"
      "ht_ok t1" "ht_bag t1 = ht_bag tbl"
      unfolding htable_rehash_def fuel by blast
    with True e show ?thesis by simp
  next
    case False
    with ok h lv show ?thesis by auto
  qed
  then obtain t1 h1 where t1: "(if ?sparse then bindR (htable_rehash subsystem key tbl (c_div (ht_size tbl) 2) h)
                      (\<lambda>((_, tbl'), h'). Inr (tbl', h')) else Inr (tbl, h)) = Inr (t1, h1)"
    "heap_ok h1" "ht_live (live h1) t1" "ht_ok t1" "ht_bag t1 = ht_bag tbl" by blast
  have run: "htable_remove subsystem key tbl data h =
      bindR (probe t1 (\<lambda>e. e = Some data) (abs_key (key data)) 0 (nat (ht_size t1))) (\<lambda>r.
        case r of
          None \<Rightarrow> Inr ((0, t1), h1)
        | Some pos \<Rightarrow> Inr ((0, t1\<lparr>ht_table := (ht_table t1)[pos := None], ht_total := ht_total t1 - 1\<rparr>), h1))"
    unfolding htable_remove_def using False t1(1) by simp
  from probe_all [OF t1(4) key, of "\<lambda>e. e = Some data" data] obtain r where
    r: "probe t1 (\<lambda>e. e = Some data) (abs_key (key data)) 0 (nat (ht_size t1)) = Inr r"
      "case r of None \<Rightarrow> \<forall>e \<in> set (ht_table t1). e \<noteq> Some data
       | Some pos \<Rightarrow> pos < length (ht_table t1) \<and> ht_table t1 ! pos = Some data" by blast
  show ?thesis
  proof (cases r)
    case None
    with r(2) have "data \<notin># ht_bag t1" by (auto simp: ht_bag_def entries_set)
    then have "ht_bag t1 - {#data#} = ht_bag t1" by (rule diff_single_trivial)
    with None r run t1 False show ?thesis by simp
  next
    case (Some pos)
    let ?t2 = "t1\<lparr>ht_table := (ht_table t1)[pos := None], ht_total := ht_total t1 - 1\<rparr>"
    from Some r(2) have pos: "pos < length (ht_table t1)" "ht_table t1 ! pos = Some data" by auto
    note m = mset_entries_drop [OF pos]
    then have "length (entries (ht_table t1)) = Suc (length (entries ((ht_table t1)[pos := None])))"
      by (metis size_add_mset size_mset)
    then have "ht_ok ?t2" using t1(4) by (simp add: ht_ok_def)
    moreover have "ht_bag tbl = add_mset data (ht_bag ?t2)" using m t1(5) by (simp add: ht_bag_def)
    then have "ht_bag ?t2 = ht_bag tbl - {#data#}" by simp
    moreover have "ht_live (live h1) ?t2" using t1(3) by (simp add: ht_live_def)
    ultimately show ?thesis using Some r(1) run t1(2) False by simp
  qed
qed

end

lemma retrieve_ok:
  assumes ok: "ht_ok tbl" and key: "small_keys key"
  shows "\<exists>r. htable_retrieve key cmp tbl sample = Inr r \<and>
    (case r of
       None \<Rightarrow> \<forall>x \<in># ht_bag tbl. cmp x sample \<noteq> 0
     | Some x \<Rightarrow> x \<in># ht_bag tbl \<and> cmp x sample = 0)"
proof (cases "ht_total tbl = 0")
  case True
  then have "ht_bag tbl = {#}" using ht_okD(4) [OF ok] by (simp add: ht_bag_def)
  with True show ?thesis by (simp add: htable_retrieve_def)
next
  case False
  let ?test = "\<lambda>e. case e of None \<Rightarrow> False | Some x \<Rightarrow> cmp x sample = 0"
  from probe_all [OF ok key, of ?test sample] obtain r where
    r: "probe tbl ?test (abs_key (key sample)) 0 (nat (ht_size tbl)) = Inr r"
      "case r of None \<Rightarrow> \<forall>e \<in> set (ht_table tbl). \<not> ?test e
       | Some pos \<Rightarrow> pos < length (ht_table tbl) \<and> ?test (ht_table tbl ! pos)" by blast
  show ?thesis
  proof (cases r)
    case None
    with r(2) have "\<forall>x \<in># ht_bag tbl. cmp x sample \<noteq> 0" by (fastforce simp: ht_bag_def entries_set)
    with None r False show ?thesis by (simp add: htable_retrieve_def)
  next
    case (Some pos)
    with r(2) obtain x where x: "pos < length (ht_table tbl)" "ht_table tbl ! pos = Some x"
      "cmp x sample = 0" by (auto split: option.splits)
    then have "x \<in># ht_bag tbl" by (metis ht_bag_def entries_set nth_mem set_mset_mset)
    with Some r x False show ?thesis by (simp add: htable_retrieve_def)
  qed
qed

section \<open>Properties\<close>

text \<open>
  Remark: On the kernel heap, for a table whose load limit lies between 50 and 100 percent and keys
  below \<open>2 ^ 30\<close>, \<^verbatim>\<open>htable_insert\<close> returns; it adds exactly the given entry, also when it moves
  the table to a larger array or when there is no memory for one, or it answers -1 because the
  table is full, and changes nothing.
\<close>

theorem htable_insert_correct:
  assumes "ht_ok tbl" and "small_keys key" and "kernel_heap_ok h" and "ht_live (live h) tbl"
    and "2 * ht_size tbl < 8388608"
  shows "\<exists>rc tbl' h'. htable_insert liballoc_subsystem key tbl data h = Inr ((rc, tbl'), h')
    \<and> kernel_heap_ok h' \<and> ht_live (live h') tbl' \<and> ht_ok tbl'
    \<and> (rc = 0 \<and> ht_bag tbl' = add_mset data (ht_bag tbl)
       \<or> rc = -1 \<and> tbl' = tbl \<and> ht_total tbl = ht_size tbl)"
  using kheap.insert_ok [OF assms] .

definition demo_table :: htable where
  "demo_table = \<lparr>ht_self = 4148, ht_total = 1, ht_size = 4, ht_percent = 75, ht_array = 4276,
     ht_table = [None, Some 1001, None, None]\<rparr>"

definition demo_key :: "nat \<Rightarrow> int" where
  "demo_key d = int (d mod 1000)"

lemma demo_table_ok: "ht_ok demo_table" "ht_live (live demo_used_heap) demo_table"
  using demo_used_heap_ok by (simp_all add: ht_ok_def demo_table_def entries_def ht_live_def)

lemma demo_key_small: "small_keys demo_key"
proof -
  have "0 \<le> demo_key d \<and> demo_key d < 1000" for d
    unfolding demo_key_def by (simp add: zmod_int)
  then have "- (2 ^ 30) < demo_key d \<and> demo_key d < 2 ^ 30" for d
    using order_less_trans [of "demo_key d" 1000 "2 ^ 30"] less_le_trans [of "- (2 ^ 30)" 0 "demo_key d"]
    by simp
  then show ?thesis by (simp add: small_keys_def)
qed

theorem htable_insert_correct_witness:
  "\<exists>rc tbl' h'. htable_insert liballoc_subsystem demo_key demo_table 2001 demo_used_heap = Inr ((rc, tbl'), h')
     \<and> ht_ok tbl' \<and> ht_bag tbl' = {#2001, 1001#}"
proof -
  have "2 * ht_size demo_table < 8388608" by (simp add: demo_table_def)
  from htable_insert_correct [OF demo_table_ok(1) demo_key_small demo_used_heap_ok(1) demo_table_ok(2) this,
    of 2001] show ?thesis by (auto simp: demo_table_def ht_bag_def entries_def)
qed

text \<open>
  Remark: \<^verbatim>\<open>htable_remove\<close> returns and takes away one occurrence of the given entry, or nothing when
  it is not there; halving the array loses no entry. It answers -1 only for an empty table.
\<close>

theorem htable_remove_correct:
  assumes "ht_ok tbl" and "small_keys key" and "kernel_heap_ok h" and "ht_live (live h) tbl"
  shows "\<exists>rc tbl' h'. htable_remove liballoc_subsystem key tbl data h = Inr ((rc, tbl'), h')
    \<and> kernel_heap_ok h' \<and> ht_live (live h') tbl' \<and> ht_ok tbl'
    \<and> ht_bag tbl' = ht_bag tbl - {#data#} \<and> (rc = -1 \<longleftrightarrow> ht_total tbl = 0)"
  using kheap.remove_ok [OF assms] .

theorem htable_remove_correct_witness:
  "\<exists>rc tbl' h'. htable_remove liballoc_subsystem demo_key demo_table 1001 demo_used_heap = Inr ((rc, tbl'), h')
     \<and> ht_bag tbl' = {#}"
  using htable_remove_correct [OF demo_table_ok(1) demo_key_small demo_used_heap_ok(1) demo_table_ok(2),
    of 1001] by (auto simp: demo_table_def ht_bag_def entries_def)

text \<open>
  Remark: \<^verbatim>\<open>htable_retrieve\<close> returns, and returns an entry exactly when some entry of the table
  compares equal to the sample; what it returns is such an entry. This needs no assumption that equal
  entries have equal keys, because the search goes through the whole array.
\<close>

theorem htable_retrieve_correct:
  assumes "ht_ok tbl" and "small_keys key"
  shows "\<exists>r. htable_retrieve key cmp tbl sample = Inr r \<and>
    (case r of
       None \<Rightarrow> \<forall>x \<in># ht_bag tbl. cmp x sample \<noteq> 0
     | Some x \<Rightarrow> x \<in># ht_bag tbl \<and> cmp x sample = 0)"
  using retrieve_ok [OF assms] .

theorem htable_retrieve_correct_witness:
  "htable_retrieve demo_key (\<lambda>a b. int a - int b) demo_table 1001 = Inr (Some 1001)"
proof -
  from htable_retrieve_correct [OF demo_table_ok(1) demo_key_small, of "\<lambda>a b. int a - int b" 1001]
  obtain r where r: "htable_retrieve demo_key (\<lambda>a b. int a - int b) demo_table 1001 = Inr r"
    "case r of None \<Rightarrow> \<forall>x \<in># ht_bag demo_table. int x - int 1001 \<noteq> 0
     | Some x \<Rightarrow> x \<in># ht_bag demo_table \<and> int x - int 1001 = 0" by blast
  have "1001 \<in># ht_bag demo_table" by (simp add: ht_bag_def entries_def demo_table_def)
  with r show ?thesis by (auto split: option.splits)
qed

text \<open>
  Remark: The key \<^verbatim>\<open>INT_MIN\<close> is its own negation: the first position probed for it is negative, and the
  kernel stops at the assertion of \<^verbatim>\<open>htable_insert\<close>, whatever non-full table of a size that is not a power of two
  it is given.
\<close>

theorem htable_insert_int_min:
  assumes "ht_total tbl \<noteq> ht_size tbl" and "0 < ht_size tbl" and "2147483648 mod ht_size tbl \<noteq> 0"
    and "c_div (s32 ((ht_total tbl + 1) * 100)) (ht_size tbl) \<le> ht_percent tbl"
    and "key data = - 2147483648"
  shows "htable_insert sub key tbl data h = Inl Assert_failed"
proof -
  have s: "s32 2147483648 = - 2147483648" by (simp add: s32_def)
  have fuel: "htable_insert = insert_fuel (Suc 31)" by (simp add: htable_insert_def del: insert_fuel.simps)
  obtain k where k: "nat (ht_size tbl) = Suc k" using assms(2) by (cases "nat (ht_size tbl)") auto
  have "0 < 2147483648 mod ht_size tbl"
    using assms(2,3) by (metis order.not_eq_order_implies_strict pos_mod_sign)
  then have "probe tbl (\<lambda>e. e = None) (abs_key (key data)) 0 (nat (ht_size tbl)) = Inl Assert_failed"
    unfolding k using assms(5) by (simp add: abs_key_def s c_rem_def)
  with assms show ?thesis unfolding fuel insert_fuel.simps(2) by simp
qed

theorem htable_insert_int_min_witness:
  "htable_insert liballoc_subsystem (\<lambda>_. - 2147483648) (demo_table\<lparr>ht_size := 3\<rparr>) 7 demo_used_heap
     = Inl Assert_failed"
  by (rule htable_insert_int_min) (simp_all add: demo_table_def c_div_def s32_def)

end
