(* ===== verification/Aqueue.thy ===== *)
theory Aqueue
  imports Liballoc_Heap
begin

text \<open>
  The paged object queue (\<^verbatim>\<open>kernel/ds/aqueue.c\<close>) that holds the messages and pulses of a port.
  Objects are stored in pages of \<^verbatim>\<open>obj_count\<close> slots that are linked in a chain; \<^verbatim>\<open>position\<close> and
  \<^verbatim>\<open>last_position\<close> count slots from the start of the chain. The chain is a list of pages, each its
  address and its slots; a slot is \<open>None\<close> until an object is copied into it. The queue's spinlock
  is held for the whole of each operation.
\<close>

section \<open>State and operations\<close>

record 'a aqueue =
  aq_self :: nat
  aq_pages :: nat
  obj_size :: nat
  obj_count :: nat
  position :: nat
  last_position :: nat
  aq_chain :: "(nat \<times> 'a option list) list"

definition sizeof_aqueue :: nat where "sizeof_aqueue = 32"

definition sizeof_aqueue_page :: nat where "sizeof_aqueue_page = 4"

definition aqueue_create ::
  "'h mm_subsystem \<Rightarrow> nat \<Rightarrow> nat \<Rightarrow> 'h \<Rightarrow> ('a aqueue option \<times> 'h) kres" where
  "aqueue_create sub sz cnt h =
     bindR (kmalloc sub sizeof_aqueue h) (\<lambda>(p, h1).
     case p of
       None \<Rightarrow> Inr (None, h1)
     | Some self \<Rightarrow>
         Inr (Some \<lparr>aq_self = self, aq_pages = 0, obj_size = sz, obj_count = cnt, position = 0,
                    last_position = 0, aq_chain = []\<rparr>, h1))"

fun free_chain :: "'h mm_subsystem \<Rightarrow> (nat \<times> 'a option list) list \<Rightarrow> 'h \<Rightarrow> 'h kres" where
  "free_chain sub [] h = Inr h"
| "free_chain sub ((a, _) # ps) h = bindR (kfree sub (Some a) h) (\<lambda>h1. free_chain sub ps h1)"

definition aqueue_destroy :: "'h mm_subsystem \<Rightarrow> 'a aqueue \<Rightarrow> 'h \<Rightarrow> 'h kres" where
  "aqueue_destroy sub aq h =
     bindR (free_chain sub (aq_chain aq) h) (\<lambda>h1. kfree sub (Some (aq_self aq)) h1)"

text \<open>The copy into slot \<open>k\<close> of the last page at the end of \<^verbatim>\<open>aqueue_add\<close>.\<close>

definition store_last :: "'a aqueue \<Rightarrow> nat \<Rightarrow> 'a \<Rightarrow> 'a aqueue kres" where
  "store_last aq k obj =
     (if aq_chain aq = [] then Inl Null_deref
      else
        bindR (aput (snd (last (aq_chain aq))) k (Some obj)) (\<lambda>slots.
        Inr (aq\<lparr>aq_chain := butlast (aq_chain aq) @ [(fst (last (aq_chain aq)), slots)]\<rparr>)))"

definition aqueue_add ::
  "'h mm_subsystem \<Rightarrow> 'a aqueue \<Rightarrow> 'a \<Rightarrow> 'h \<Rightarrow> ((int \<times> 'a aqueue) \<times> 'h) kres" where
  "aqueue_add sub aq obj h =
     guardR (obj_count aq \<noteq> 0) Div_by_zero (
     let page_div = last_position aq div obj_count aq;
         page_mod = last_position aq mod obj_count aq
     in if page_mod = 0 \<and> aq_pages aq \<le> page_div
        then
          bindR (kmalloc sub (u32 (sizeof_aqueue_page + obj_count aq * obj_size aq)) h) (\<lambda>(p, h1).
          case p of
            None \<Rightarrow> Inr ((-1, aq), h1)
          | Some a \<Rightarrow>
              bindR (store_last (aq\<lparr>aq_pages := aq_pages aq + 1,
                                    aq_chain := aq_chain aq @ [(a, replicate (obj_count aq) None)]\<rparr>)
                       page_mod obj) (\<lambda>aq'.
              Inr ((0, aq'), h1)))
        else bindR (store_last aq page_mod obj) (\<lambda>aq'. Inr ((0, aq'), h)))"

text \<open>The loop of \<^verbatim>\<open>aqueue_next\<close> that releases the pages that were read.\<close>

fun drop_pages :: "'h mm_subsystem \<Rightarrow> 'a aqueue \<Rightarrow> nat \<Rightarrow> 'h \<Rightarrow> ('a aqueue \<times> 'h) kres" where
  "drop_pages sub aq 0 h = Inr (aq, h)"
| "drop_pages sub aq (Suc page_div) h =
     (case aq_chain aq of
        [] \<Rightarrow> Inl Null_deref
      | (a, _) # ps \<Rightarrow>
          bindR (kfree sub (Some a) h) (\<lambda>h1.
          assertR (ps \<noteq> []) (
          drop_pages sub
            (aq\<lparr>aq_chain := ps, last_position := sub32 (last_position aq) (obj_count aq),
                position := sub32 (position aq) (obj_count aq), aq_pages := aq_pages aq - 1\<rparr>)
            page_div h1)))"

definition aqueue_next ::
  "'h mm_subsystem \<Rightarrow> 'a aqueue \<Rightarrow> 'h \<Rightarrow> ((int \<times> 'a \<times> 'a aqueue) \<times> 'h) kres" where
  "aqueue_next sub aq h =
     guardR (obj_count aq \<noteq> 0) Div_by_zero (
     let page_div = position aq div obj_count aq;
         page_mod = position aq mod obj_count aq
     in assertR (position aq \<noteq> last_position aq) (
        bindR (drop_pages sub aq page_div h) (\<lambda>(aq1, h1).
        case aq_chain aq1 of
          [] \<Rightarrow> Inl Null_deref
        | (_, slots) # _ \<Rightarrow>
            bindR (cget slots page_mod) (\<lambda>obj.
            Inr ((0, obj, aq1\<lparr>position := u32 (position aq1 + 1)\<rparr>), h1)))))"

definition aqueue_count :: "'a aqueue \<Rightarrow> nat" where
  "aqueue_count aq = sub32 (last_position aq) (position aq)"

section \<open>Contents\<close>

definition slots_of :: "'a aqueue \<Rightarrow> 'a option list" where
  "slots_of aq = concat (map snd (aq_chain aq))"

definition aq_contents :: "'a aqueue \<Rightarrow> 'a list" where
  "aq_contents aq =
     map the (take (last_position aq - position aq) (drop (position aq) (slots_of aq)))"

definition aq_ok :: "'a aqueue \<Rightarrow> bool" where
  "aq_ok aq \<longleftrightarrow>
     0 < obj_count aq \<and> list_all (\<lambda>p. length (snd p) = obj_count aq) (aq_chain aq)
     \<and> aq_pages aq = length (aq_chain aq) \<and> position aq \<le> last_position aq
     \<and> last_position aq \<le> length (slots_of aq) \<and> last_position aq < 2 ^ 31
     \<and> None \<notin> set (take (last_position aq - position aq) (drop (position aq) (slots_of aq)))"

definition aq_live :: "(nat \<Rightarrow> nat option) \<Rightarrow> 'a aqueue \<Rightarrow> bool" where
  "aq_live lv aq \<longleftrightarrow>
     (\<forall>a \<in> set (map fst (aq_chain aq)). lv a \<noteq> None) \<and> distinct (aq_self aq # map fst (aq_chain aq))
     \<and> lv (aq_self aq) \<noteq> None"

lemma aq_okD:
  assumes "aq_ok aq"
  shows "0 < obj_count aq" and "list_all (\<lambda>p. length (snd p) = obj_count aq) (aq_chain aq)"
    and "aq_pages aq = length (aq_chain aq)" and "position aq \<le> last_position aq"
    and "last_position aq \<le> length (slots_of aq)" and "last_position aq < 2147483648"
    and "None \<notin> set (take (last_position aq - position aq) (drop (position aq) (slots_of aq)))"
  using assms unfolding aq_ok_def by simp_all

lemma length_aq_contents: "aq_ok aq \<Longrightarrow> length (aq_contents aq) = last_position aq - position aq"
  using aq_okD(4,5) [of aq] by (simp add: aq_contents_def)

lemma aqueue_count_contents: "aq_ok aq \<Longrightarrow> aqueue_count aq = length (aq_contents aq)"
  using aq_okD(4,6) [of aq] by (simp add: aqueue_count_def length_aq_contents)

lemma slots_Cons: "aq_chain aq = p # ps \<Longrightarrow> slots_of aq = snd p @ slots_of (aq\<lparr>aq_chain := ps\<rparr>)"
  by (simp add: slots_of_def)

context kernel_heap
begin

lemma drop_pages_ok:
  assumes "aq_ok aq" and "heap_ok h" and "aq_live (live h) aq"
    and "n * obj_count aq < last_position aq" and "n * obj_count aq \<le> position aq"
  shows "\<exists>aq' h'. drop_pages subsystem aq n h = Inr (aq', h') \<and> heap_ok h' \<and> aq_live (live h') aq'
    \<and> aq_ok aq' \<and> aq_contents aq' = aq_contents aq \<and> position aq' = position aq - n * obj_count aq
    \<and> last_position aq' = last_position aq - n * obj_count aq \<and> obj_count aq' = obj_count aq
    \<and> (\<forall>b. b \<notin> set (map fst (aq_chain aq)) \<longrightarrow> live h' b = live h b)"
  using assms
proof (induction n arbitrary: aq h)
  case 0
  then show ?case by simp
next
  case (Suc n)
  note d = aq_okD [OF Suc.prems(1)]
  let ?c = "obj_count aq"
  have lp: "?c + n * ?c < last_position aq" "?c + n * ?c \<le> position aq" using Suc.prems(4,5) by simp_all
  have "aq_chain aq \<noteq> []" using lp d(5) by (auto simp: slots_of_def)
  then obtain a sl ps where ch: "aq_chain aq = (a, sl) # ps" by (metis neq_Nil_conv prod.exhaust)
  have sl: "length sl = ?c" using d(2) ch by simp
  let ?aq = "aq\<lparr>aq_chain := ps, last_position := last_position aq - ?c, position := position aq - ?c,
                aq_pages := aq_pages aq - 1\<rparr>"
  have so: "slots_of aq = sl @ slots_of ?aq" using ch by (simp add: slots_of_def)
  have dr: "drop (position aq) (slots_of aq) = drop (position aq - ?c) (slots_of ?aq)"
    unfolding so using sl lp by simp
  have ps: "ps \<noteq> []"
  proof
    assume "ps = []"
    then have "length (slots_of aq) = ?c" using so sl by (simp add: slots_of_def)
    then show False using d(5) lp by simp
  qed
  have df: "last_position aq - ?c - (position aq - ?c) = last_position aq - position aq" using lp by simp
  have ok: "aq_ok ?aq"
    unfolding aq_ok_def using d ch dr lp so sl df by (simp, linarith)
  have ct: "aq_contents ?aq = aq_contents aq" unfolding aq_contents_def using dr df by simp
  have "live h a \<noteq> None" using Suc.prems(3) ch by (simp add: aq_live_def)
  then obtain k where "live h a = Some k" by auto
  from free_live [OF Suc.prems(2) this] obtain h1 where h1: "kfree subsystem (Some a) h = Inr h1"
    "heap_ok h1" "live h1 = (live h)(a := None)" by blast
  have lv: "aq_live (live h1) ?aq" using Suc.prems(3) ch h1(3) by (auto simp: aq_live_def)
  have "n * obj_count ?aq < last_position ?aq" "n * obj_count ?aq \<le> position ?aq" using lp by simp_all
  from Suc.IH [OF ok h1(2) lv this] obtain aq2 h2 where r: "drop_pages subsystem ?aq n h1 = Inr (aq2, h2)"
    "heap_ok h2" "aq_live (live h2) aq2" "aq_ok aq2" "aq_contents aq2 = aq_contents ?aq"
    "position aq2 = position aq - ?c - n * ?c" "last_position aq2 = last_position aq - ?c - n * ?c"
    "obj_count aq2 = ?c" "\<forall>b. b \<notin> set (map fst ps) \<longrightarrow> live h2 b = live h1 b" by auto
  have "sub32 (last_position aq) ?c = last_position aq - ?c" "sub32 (position aq) ?c = position aq - ?c"
    using lp d by simp_all
  then have "drop_pages subsystem aq (Suc n) h = Inr (aq2, h2)" using ch ps h1(1) r(1) by simp
  moreover have "live h2 b = live h b" if "b \<notin> set (map fst (aq_chain aq))" for b
    using that r(9) h1(3) ch by simp
  ultimately show ?case using r ct by simp
qed

lemma next_ok:
  assumes ok: "aq_ok aq" and h: "heap_ok h" and lv: "aq_live (live h) aq" and ne: "aq_contents aq \<noteq> []"
  shows "\<exists>aq' h'. aqueue_next subsystem aq h = Inr ((0, hd (aq_contents aq), aq'), h')
    \<and> heap_ok h' \<and> aq_live (live h') aq' \<and> aq_ok aq' \<and> aq_contents aq' = tl (aq_contents aq)
    \<and> (\<forall>b. b \<notin> set (map fst (aq_chain aq)) \<longrightarrow> live h' b = live h b)"
proof -
  note d = aq_okD [OF ok]
  let ?c = "obj_count aq" and ?n = "position aq div obj_count aq"
  have lt: "position aq < last_position aq" using ne length_aq_contents [OF ok] d(4)
    by (metis diff_is_0_eq length_0_conv nat_less_le)
  have n: "?n * ?c \<le> position aq" by simp
  from drop_pages_ok [OF ok h lv _ n] n lt obtain aq1 h1 where r:
    "drop_pages subsystem aq ?n h = Inr (aq1, h1)" "heap_ok h1" "aq_live (live h1) aq1" "aq_ok aq1"
    "aq_contents aq1 = aq_contents aq" "position aq1 = position aq - ?n * ?c"
    "last_position aq1 = last_position aq - ?n * ?c" "obj_count aq1 = ?c"
    "\<forall>b. b \<notin> set (map fst (aq_chain aq)) \<longrightarrow> live h1 b = live h b" by auto
  note d1 = aq_okD [OF r(4)]
  have pm: "position aq1 = position aq mod ?c" using r(6) by (simp add: minus_div_mult_eq_mod)
  have lt1: "position aq1 < last_position aq1" using r(6,7) lt n by linarith
  then have "aq_chain aq1 \<noteq> []" using d1(5) by (auto simp: slots_of_def)
  then obtain a sl ps where ch: "aq_chain aq1 = (a, sl) # ps" by (metis neq_Nil_conv prod.exhaust)
  have sl: "length sl = ?c" using d1(2) ch r(8) by simp
  have pc: "position aq1 < ?c" using pm d(1) by simp
  then have nth: "slots_of aq1 ! position aq1 = sl ! position aq1"
    using ch sl by (simp add: slots_of_def nth_append)
  let ?w = "take (last_position aq1 - position aq1) (drop (position aq1) (slots_of aq1))"
  have dr: "drop (position aq1) (slots_of aq1) = slots_of aq1 ! position aq1 # drop (Suc (position aq1)) (slots_of aq1)"
    using lt1 d1(5) by (simp add: Cons_nth_drop_Suc)
  have w: "?w = sl ! position aq1 # take (last_position aq1 - Suc (position aq1)) (drop (Suc (position aq1)) (slots_of aq1))"
    unfolding dr nth using lt1 by (simp add: take_Cons')
  then obtain v where v: "sl ! position aq1 = Some v" using d1(7) by (cases "sl ! position aq1") auto
  let ?aq = "aq1\<lparr>position := Suc (position aq1)\<rparr>"
  have so: "slots_of ?aq = slots_of aq1" by (simp add: slots_of_def)
  have ct: "aq_contents aq1 = v # aq_contents ?aq" unfolding aq_contents_def so w v by simp
  have "aqueue_next subsystem aq h = Inr ((0, v, ?aq), h1)"
    using d(1) lt r(1) ch v sl pc pm d1(4,6) by (simp add: aqueue_next_def Let_def)
  moreover have "aq_ok ?aq" unfolding aq_ok_def so using d1 lt1 w by simp
  moreover have "aq_live (live h1) ?aq" using r(3) by (simp add: aq_live_def)
  ultimately show ?thesis using ct r(2,5,9) by simp
qed

end

section \<open>Adding\<close>

text \<open>No branch of \<^verbatim>\<open>aqueue_add\<close> moves a position.\<close>

lemma store_last_positions:
  "store_last aq k obj = Inr aq' \<Longrightarrow>
     position aq' = position aq \<and> last_position aq' = last_position aq \<and> obj_count aq' = obj_count aq"
  by (auto simp: store_last_def kres_simps split: if_splits)

lemma aqueue_add_positions:
  "aqueue_add sub aq obj h = Inr ((rc, aq'), h') \<Longrightarrow>
     position aq' = position aq \<and> last_position aq' = last_position aq \<and> obj_count aq' = obj_count aq"
  by (auto simp: aqueue_add_def Let_def kres_simps split: if_splits option.splits
      dest!: store_last_positions)

fun aqueue_add_all ::
  "'h mm_subsystem \<Rightarrow> 'a aqueue \<Rightarrow> 'a list \<Rightarrow> 'h \<Rightarrow> ('a aqueue \<times> 'h) kres" where
  "aqueue_add_all sub aq [] h = Inr (aq, h)"
| "aqueue_add_all sub aq (x # xs) h =
     bindR (aqueue_add sub aq x h) (\<lambda>((_, aq'), h'). aqueue_add_all sub aq' xs h')"

lemma aqueue_add_all_positions:
  "aqueue_add_all sub aq xs h = Inr (aq', h') \<Longrightarrow>
     position aq' = position aq \<and> last_position aq' = last_position aq \<and> obj_count aq' = obj_count aq"
  by (induction xs arbitrary: aq h) (auto simp: kres_simps dest!: aqueue_add_positions)

section \<open>Properties\<close>

text \<open>
  Remark: On a non-empty well-formed queue \<^verbatim>\<open>aqueue_next\<close> returns the oldest object and leaves
  the others in order; the pages it has passed are released, and every page still in the chain
  stays allocated.
\<close>

theorem aqueue_next_correct:
  assumes "aq_ok aq" and "kernel_heap_ok h" and "aq_live (live h) aq" and "aq_contents aq \<noteq> []"
  shows "\<exists>aq' h'. aqueue_next liballoc_subsystem aq h = Inr ((0, hd (aq_contents aq), aq'), h')
    \<and> kernel_heap_ok h' \<and> aq_live (live h') aq' \<and> aq_ok aq' \<and> aq_contents aq' = tl (aq_contents aq)
    \<and> aqueue_count aq' = aqueue_count aq - 1"
  using kheap.next_ok [OF assms] aqueue_count_contents [OF assms(1)] aqueue_count_contents by fastforce

definition demo_aq :: "nat aqueue" where
  "demo_aq = \<lparr>aq_self = 4148, aq_pages = 1, obj_size = 8, obj_count = 3, position = 1, last_position = 3,
     aq_chain = [(4276, [Some 5, Some 6, Some 7])]\<rparr>"

theorem aqueue_next_correct_witness:
  "\<exists>aq' h'. aqueue_next liballoc_subsystem demo_aq demo_used_heap = Inr ((0, 6, aq'), h')
     \<and> aq_contents aq' = [7]"
proof -
  have c: "aq_contents demo_aq = [6, 7]" by (simp add: aq_contents_def slots_of_def demo_aq_def)
  have "aq_ok demo_aq" "aq_live (live demo_used_heap) demo_aq"
    using demo_used_heap_ok by (simp_all add: aq_ok_def demo_aq_def slots_of_def aq_live_def)
  from aqueue_next_correct [OF this(1) demo_used_heap_ok(1) this(2)] c show ?thesis by auto
qed

text \<open>
  Remark: An object that is added is never delivered: \<^verbatim>\<open>aqueue_add\<close> does not advance
  \<^verbatim>\<open>last_position\<close>. From a new queue, after any sequence of additions that returns, the queue
  counts 0 objects and \<^verbatim>\<open>aqueue_next\<close> stops at its assertion.
\<close>

theorem aqueue_add_invisible:
  assumes "aqueue_create sub sz cnt h = Inr (Some aq, h1)" and "0 < cnt"
    and "aqueue_add_all sub aq xs h1 = Inr (aq', h2)"
  shows "aqueue_count aq' = 0 \<and> aqueue_next sub aq' h2 = Inl Assert_failed"
proof -
  from assms(1) have "position aq = 0" "last_position aq = 0" "obj_count aq = cnt"
    by (auto simp: aqueue_create_def kres_simps split: option.splits)
  with aqueue_add_all_positions [OF assms(3)] assms(2) show ?thesis
    by (simp add: aqueue_count_def aqueue_next_def)
qed

definition demo_bump :: "nat mm_subsystem" where
  "demo_bump = \<lparr>mm_malloc = (\<lambda>n h. Inr (Some (8 + h), h + n)), mm_free = (\<lambda>_ h. Inr h),
     mm_realloc = (\<lambda>_ n h. Inr (None, h))\<rparr>"

theorem aqueue_add_invisible_witness:
  "\<exists>aq aq' h1 h2. aqueue_create demo_bump 8 2 0 = Inr (Some aq, h1)
     \<and> aqueue_add_all demo_bump aq [1 :: nat, 2, 3] h1 = Inr (aq', h2) \<and> aqueue_count aq' = 0"
proof -
  obtain aq :: "nat aqueue" and h1 where c: "aqueue_create demo_bump 8 2 0 = Inr (Some aq, h1)"
    by (simp add: aqueue_create_def kmalloc_def demo_bump_def)
  then have aq: "aq = \<lparr>aq_self = 8, aq_pages = 0, obj_size = 8, obj_count = 2, position = 0,
      last_position = 0, aq_chain = []\<rparr>" by (simp add: aqueue_create_def kmalloc_def demo_bump_def)
  obtain aq' h2 where a: "aqueue_add_all demo_bump aq [1 :: nat, 2, 3] h1 = Inr (aq', h2)"
    unfolding aq by (simp add: aqueue_add_def store_last_def kmalloc_def demo_bump_def Let_def)
  have "(0::nat) < 2" by simp
  from aqueue_add_invisible [OF c this a] c a show ?thesis by blast
qed

end
