(* ===== verification/Ds_List.thy ===== *)
theory Ds_List
  imports Prelude
begin

text \<open>
  The intrusive doubly linked list (\<^verbatim>\<open>kernel/ds/list.h\<close>). Nodes live in a store, a map from
  addresses to nodes; following a null or dangling pointer is \<open>Null_deref\<close>.

  \<open>dls\<close> relates a segment of the store to a list of addresses. The operations refine removal
  from and insertion into that list, and leave every other node alone.
\<close>

section \<open>State and operations\<close>

record ds_list =
  l_object :: nat
  l_prev :: "nat option"
  l_next :: "nat option"

type_synonym list_store = "nat \<rightharpoonup> ds_list"

definition load_node :: "list_store \<Rightarrow> nat \<Rightarrow> ds_list kres" where
  "load_node s a = (case s a of None \<Rightarrow> Inl Null_deref | Some n \<Rightarrow> Inr n)"

definition modify_node :: "nat option \<Rightarrow> (ds_list \<Rightarrow> ds_list) \<Rightarrow> list_store \<Rightarrow> list_store kres" where
  "modify_node p f s =
     (case p of None \<Rightarrow> Inl Null_deref | Some a \<Rightarrow> bindR (load_node s a) (\<lambda>n. Inr (s(a \<mapsto> f n))))"

definition list_init :: "nat \<Rightarrow> nat \<Rightarrow> list_store \<Rightarrow> list_store kres" where
  "list_init l obj s = modify_node (Some l) (\<lambda>n. \<lparr>l_object = obj, l_prev = None, l_next = None\<rparr>) s"

definition list_remove :: "nat \<Rightarrow> list_store \<Rightarrow> list_store kres" where
  "list_remove l s0 =
     bindR (load_node s0 l) (\<lambda>n0.
     bindR (if l_prev n0 \<noteq> None then modify_node (l_prev n0) (\<lambda>m. m\<lparr>l_next := l_next n0\<rparr>) s0
            else Inr s0) (\<lambda>s1.
     bindR (load_node s1 l) (\<lambda>n1.
     bindR (if l_next n1 \<noteq> None then modify_node (l_next n1) (\<lambda>m. m\<lparr>l_prev := l_prev n1\<rparr>) s1
            else Inr s1) (\<lambda>s2.
     bindR (load_node s2 l) (\<lambda>n2. list_init l (l_object n2) s2)))))"

definition list_insertBefore :: "nat \<Rightarrow> nat \<Rightarrow> list_store \<Rightarrow> list_store kres" where
  "list_insertBefore pos l s0 =
     bindR (load_node s0 pos) (\<lambda>p.
     bindR (modify_node (Some l) (\<lambda>n. n\<lparr>l_prev := l_prev p\<rparr>) s0) (\<lambda>s1.
     bindR (modify_node (Some l) (\<lambda>n. n\<lparr>l_next := Some pos\<rparr>) s1) (\<lambda>s2.
     bindR (modify_node (Some pos) (\<lambda>n. n\<lparr>l_prev := Some l\<rparr>) s2) (\<lambda>s3.
     bindR (load_node s3 l) (\<lambda>n.
     if l_prev n \<noteq> None then modify_node (l_prev n) (\<lambda>m. m\<lparr>l_next := Some l\<rparr>) s3 else Inr s3)))))"

definition list_insertAfter :: "nat \<Rightarrow> nat \<Rightarrow> list_store \<Rightarrow> list_store kres" where
  "list_insertAfter pos l s0 =
     bindR (modify_node (Some l) (\<lambda>n. n\<lparr>l_prev := Some pos\<rparr>) s0) (\<lambda>s1.
     bindR (load_node s1 pos) (\<lambda>p.
     bindR (modify_node (Some l) (\<lambda>n. n\<lparr>l_next := l_next p\<rparr>) s1) (\<lambda>s2.
     bindR (modify_node (Some pos) (\<lambda>n. n\<lparr>l_next := Some l\<rparr>) s2) (\<lambda>s3.
     bindR (load_node s3 l) (\<lambda>n.
     if l_next n \<noteq> None then modify_node (l_next n) (\<lambda>m. m\<lparr>l_prev := Some l\<rparr>) s3 else Inr s3)))))"

section \<open>Segments\<close>

definition first_or :: "nat list \<Rightarrow> nat option \<Rightarrow> nat option" where
  "first_or xs q = (case xs of [] \<Rightarrow> q | x # _ \<Rightarrow> Some x)"

definition last_or :: "nat list \<Rightarrow> nat option \<Rightarrow> nat option" where
  "last_or xs p = (if xs = [] then p else Some (last xs))"

text \<open>The nodes \<open>xs\<close> are linked in this order, behind \<open>p\<close> and before \<open>q\<close>.\<close>

fun dls :: "list_store \<Rightarrow> nat option \<Rightarrow> nat list \<Rightarrow> nat option \<Rightarrow> bool" where
  "dls s p [] q \<longleftrightarrow> True"
| "dls s p (x # xs) q \<longleftrightarrow>
     (\<exists>n. s x = Some n \<and> l_prev n = p \<and> l_next n = first_or xs q) \<and> dls s (Some x) xs q"

lemma first_or_simps [simp]:
  "first_or [] q = q" "first_or (x # xs) q = Some x" "first_or (xs @ ys) q = first_or xs (first_or ys q)"
  by (simp_all add: first_or_def split: list.splits)

lemma last_or_simps [simp]:
  "last_or [] p = p" "last_or (x # xs) p = last_or xs (Some x)"
  "last_or (xs @ ys) p = last_or ys (last_or xs p)"
  by (simp_all add: last_or_def)

lemma dls_append:
  "dls s p (xs @ ys) q \<longleftrightarrow> dls s p xs (first_or ys q) \<and> dls s (last_or xs p) ys q"
  by (induction xs arbitrary: p) auto

lemma dls_frame: "(\<And>x. x \<in> set xs \<Longrightarrow> s' x = s x) \<Longrightarrow> dls s' p xs q = dls s p xs q"
  by (induction xs arbitrary: p) auto

lemma dls_upd [simp]: "a \<notin> set xs \<Longrightarrow> dls (s(a := v)) p xs q = dls s p xs q"
  by (rule dls_frame) auto

lemma last_disjoint: "set xs \<inter> set ys = {} \<Longrightarrow> xs \<noteq> [] \<Longrightarrow> last xs \<notin> set ys"
  by (metis disjoint_iff last_in_set)

text \<open>Redirecting the outer pointers of a segment.\<close>

lemma dls_relink_first:
  assumes "dls s p xs q" and "distinct xs"
  shows "dls (case xs of [] \<Rightarrow> s | x # _ \<Rightarrow> s(x := map_option (\<lambda>n. n\<lparr>l_prev := p'\<rparr>) (s x))) p' xs q"
proof (cases xs)
  case (Cons x ys)
  have "dls (s(x := map_option (\<lambda>n. n\<lparr>l_prev := p'\<rparr>) (s x))) (Some x) ys q = dls s (Some x) ys q"
    using assms(2) Cons by (intro dls_frame) auto
  with assms Cons show ?thesis by auto
qed simp

lemma dls_relink_last:
  assumes "dls s p xs q" and "distinct xs"
  shows "dls (if xs = [] then s
              else s(last xs := map_option (\<lambda>n. n\<lparr>l_next := q'\<rparr>) (s (last xs)))) p xs q'"
proof (cases xs rule: rev_cases)
  case (snoc ys x)
  have "dls (s(x := map_option (\<lambda>n. n\<lparr>l_next := q'\<rparr>) (s x))) p ys (Some x) = dls s p ys (Some x)"
    using assms(2) snoc by (intro dls_frame) auto
  with assms snoc show ?thesis by (auto simp: dls_append)
qed simp

lemma modify_node_Some [simp]: "s a = Some n \<Longrightarrow> modify_node (Some a) f s = Inr (s(a \<mapsto> f n))"
  by (simp add: modify_node_def load_node_def)

lemma load_node_Some [simp]: "s a = Some n \<Longrightarrow> load_node s a = Inr n"
  by (simp add: load_node_def)

lemma dls_last:
  assumes "dls s p xs q" and "xs \<noteq> []"
  shows "\<exists>n. s (last xs) = Some n \<and> l_next n = q"
  using assms by (induction xs arbitrary: p) (auto split: if_splits)

text \<open>The state after an unlinking, and after a linking.\<close>

lemma list_remove_ok:
  assumes seg: "dls s p (xs @ x # ys) q" and dist: "distinct (xs @ x # ys)"
    and outer: "xs = [] \<Longrightarrow> p = None" "ys = [] \<Longrightarrow> q = None"
  shows "\<exists>s'. list_remove x s = Inr s' \<and> dls s' p (xs @ ys) q \<and> dls s' None [x] None
    \<and> (\<forall>y. y \<notin> set (xs @ x # ys) \<longrightarrow> s' y = s y)"
proof -
  from seg obtain n where n: "s x = Some n" "l_prev n = last_or xs p" "l_next n = first_or ys q"
    and sx: "dls s p xs (Some x)" and sy: "dls s (Some x) ys q" by (auto simp: dls_append)
  define s1 where "s1 = (if xs = [] then s
      else s(last xs := map_option (\<lambda>m. m\<lparr>l_next := first_or ys q\<rparr>) (s (last xs))))"
  have dx: "distinct xs" "distinct ys" "x \<notin> set xs" "x \<notin> set ys" "set xs \<inter> set ys = {}" using dist by auto
  have x1: "dls s1 p xs (first_or ys q)" unfolding s1_def by (rule dls_relink_last [OF sx dx(1)])
  have y1: "dls s1 (Some x) ys q" using sy dx(5) by (simp add: s1_def last_disjoint)
  have n1: "s1 x = Some n" using n dx(3) last_in_set [of xs] by (auto simp: s1_def)
  define s2 where "s2 = (case ys of [] \<Rightarrow> s1
      | y # _ \<Rightarrow> s1(y := map_option (\<lambda>m. m\<lparr>l_prev := last_or xs p\<rparr>) (s1 y)))"
  have y2: "dls s2 (last_or xs p) ys q" unfolding s2_def by (rule dls_relink_first [OF y1 dx(2)])
  have x2: "dls s2 p xs (first_or ys q)"
    using x1 dx(5) by (cases ys) (auto simp: s2_def)
  have n2: "s2 x = Some n" using n1 dx(4) by (cases ys) (auto simp: s2_def)
  let ?n = "\<lparr>l_object = l_object n, l_prev = None, l_next = None\<rparr>"
  have r1: "(if l_prev n \<noteq> None then modify_node (l_prev n) (\<lambda>m. m\<lparr>l_next := l_next n\<rparr>) s else Inr s) = Inr s1"
  proof (cases "xs = []")
    case True
    then show ?thesis using n(2) outer(1) by (simp add: s1_def)
  next
    case False
    from dls_last [OF sx this] obtain m where "s (last xs) = Some m" by blast
    with False n show ?thesis by (simp add: s1_def last_or_def)
  qed
  have r2: "(if l_next n \<noteq> None then modify_node (l_next n) (\<lambda>m. m\<lparr>l_prev := l_prev n\<rparr>) s1 else Inr s1) = Inr s2"
    using n outer y1 by (cases ys) (auto simp: s2_def)
  have run: "list_remove x s = Inr (s2(x \<mapsto> ?n))"
    unfolding list_remove_def using n(1) r1 n1 r2 n2 by (simp add: list_init_def)
  have "dls (s2(x \<mapsto> ?n)) p xs (first_or ys q)" "dls (s2(x \<mapsto> ?n)) (last_or xs p) ys q"
    using x2 y2 dx(3,4) by simp_all
  moreover have "\<forall>y. y \<notin> set (xs @ x # ys) \<longrightarrow> (s2(x \<mapsto> ?n)) y = s y"
    by (cases ys) (auto simp: s2_def s1_def)
  ultimately show ?thesis using run by (intro exI [of _ "s2(x \<mapsto> ?n)"]) (simp add: dls_append)
qed

lemma list_insertBefore_ok:
  assumes seg: "dls s p (xs @ ys) q" and dist: "distinct (xs @ ys)" and ys: "ys = y # zs"
    and l: "s l = Some n" "l \<notin> set (xs @ ys)" and outer: "xs = [] \<Longrightarrow> p = None"
  shows "\<exists>s'. list_insertBefore y l s = Inr s' \<and> dls s' p (xs @ l # ys) q
    \<and> (\<forall>z. z \<notin> set (xs @ l # ys) \<longrightarrow> s' z = s z)"
proof -
  have sx: "dls s p xs (Some y)" and sy: "dls s (last_or xs p) ys q" using seg ys by (auto simp: dls_append)
  from sy ys obtain m where m: "s y = Some m" "l_prev m = last_or xs p" by auto
  have dx: "distinct xs" "distinct ys" "l \<notin> set xs" "l \<notin> set ys" "set xs \<inter> set ys = {}" "l \<noteq> y" "y \<notin> set xs"
    using dist l ys by auto
  let ?n = "n\<lparr>l_prev := last_or xs p, l_next := Some y\<rparr>"
  define s1 where "s1 = s(l \<mapsto> ?n)"
  have f1: "dls s1 p xs (Some y)" "dls s1 (last_or xs p) ys q"
    using sx sy dx(3,4) by (simp_all add: s1_def)
  define s2 where "s2 = s1(y \<mapsto> m\<lparr>l_prev := Some l\<rparr>)"
  have y2: "dls s2 (Some l) ys q"
    using dls_relink_first [OF f1(2) dx(2), of "Some l"] m ys dx by (simp add: s2_def s1_def)
  have x2: "dls s2 p xs (Some y)" using f1(1) dx(7) by (simp add: s2_def)
  have l2: "s2 l = Some ?n" using dx by (simp add: s2_def s1_def)
  define s3 where "s3 = (if xs = [] then s2 else s2(last xs := map_option (\<lambda>k. k\<lparr>l_next := Some l\<rparr>) (s2 (last xs))))"
  have x3: "dls s3 p xs (Some l)" unfolding s3_def by (rule dls_relink_last [OF x2 dx(1)])
  have y3: "dls s3 (Some l) ys q" using y2 dx(5) by (simp add: s3_def last_disjoint)
  have l3: "s3 l = Some ?n" using l2 dx(3) last_in_set [of xs] by (auto simp: s3_def)
  have r3: "(if last_or xs p \<noteq> None then modify_node (last_or xs p) (\<lambda>k. k\<lparr>l_next := Some l\<rparr>) s2 else Inr s2) = Inr s3"
  proof (cases "xs = []")
    case True
    then show ?thesis using outer by (simp add: s3_def)
  next
    case False
    from dls_last [OF x2 this] obtain k where "s2 (last xs) = Some k" by blast
    with False show ?thesis by (simp add: s3_def last_or_def)
  qed
  have e: "s2 = (s(l \<mapsto> n\<lparr>l_prev := last_or xs p\<rparr>, l \<mapsto> ?n))(y \<mapsto> m\<lparr>l_prev := Some l\<rparr>)"
    by (simp add: s2_def s1_def)
  have "list_insertBefore y l s = bindR (load_node s2 l) (\<lambda>n.
     if l_prev n \<noteq> None then modify_node (l_prev n) (\<lambda>k. k\<lparr>l_next := Some l\<rparr>) s2 else Inr s2)"
    unfolding list_insertBefore_def e using m l dx(6) by simp
  then have "list_insertBefore y l s = Inr s3" using l2 r3 by (auto split: if_splits)
  moreover have "dls s3 p (xs @ l # ys) q" using x3 y3 l3 ys by (auto simp: dls_append)
  moreover have "\<forall>z. z \<notin> set (xs @ l # ys) \<longrightarrow> s3 z = s z"
    using ys by (auto simp: s3_def s2_def s1_def)
  ultimately show ?thesis by blast
qed

lemma list_insertAfter_ok:
  assumes seg: "dls s p (xs @ ys) q" and dist: "distinct (xs @ ys)" and xs: "xs = ws @ [x]"
    and l: "s l = Some n" "l \<notin> set (xs @ ys)" and outer: "ys = [] \<Longrightarrow> q = None"
  shows "\<exists>s'. list_insertAfter x l s = Inr s' \<and> dls s' p (xs @ l # ys) q
    \<and> (\<forall>z. z \<notin> set (xs @ l # ys) \<longrightarrow> s' z = s z)"
proof -
  have sx: "dls s p xs (first_or ys q)" and sy: "dls s (Some x) ys q"
    using seg xs by (auto simp: dls_append)
  from sx xs obtain m where m: "s x = Some m" "l_next m = first_or ys q" by (auto simp: dls_append)
  have dx: "distinct xs" "distinct ys" "l \<notin> set xs" "l \<notin> set ys" "set xs \<inter> set ys = {}" "l \<noteq> x" "x \<notin> set ys"
    using dist l xs by auto
  let ?n = "n\<lparr>l_prev := Some x, l_next := first_or ys q\<rparr>"
  define s1 where "s1 = s(l \<mapsto> ?n)"
  have f1: "dls s1 p xs (first_or ys q)" "dls s1 (Some x) ys q" using sx sy dx(3,4) by (simp_all add: s1_def)
  define s2 where "s2 = s1(x \<mapsto> m\<lparr>l_next := Some l\<rparr>)"
  have x2: "dls s2 p xs (Some l)"
    using dls_relink_last [OF f1(1) dx(1), of "Some l"] m xs dx(6) by (simp add: s2_def s1_def)
  have y2: "dls s2 (Some x) ys q" using f1(2) dx(7) by (simp add: s2_def)
  have l2: "s2 l = Some ?n" using dx(6) by (simp add: s2_def s1_def)
  define s3 where "s3 = (case ys of [] \<Rightarrow> s2 | y # _ \<Rightarrow> s2(y := map_option (\<lambda>k. k\<lparr>l_prev := Some l\<rparr>) (s2 y)))"
  have y3: "dls s3 (Some l) ys q" unfolding s3_def by (rule dls_relink_first [OF y2 dx(2)])
  have x3: "dls s3 p xs (Some l)" using x2 dx(5) by (cases ys) (auto simp: s3_def)
  have l3: "s3 l = Some ?n" using l2 dx(4) by (cases ys) (auto simp: s3_def)
  have r3: "(if first_or ys q \<noteq> None then modify_node (first_or ys q) (\<lambda>k. k\<lparr>l_prev := Some l\<rparr>) s2 else Inr s2) = Inr s3"
    using outer y2 by (cases ys) (auto simp: s3_def)
  have e: "s2 = (s(l \<mapsto> n\<lparr>l_prev := Some x\<rparr>, l \<mapsto> ?n))(x \<mapsto> m\<lparr>l_next := Some l\<rparr>)"
    by (simp add: s2_def s1_def)
  have "list_insertAfter x l s = bindR (load_node s2 l) (\<lambda>n.
     if l_next n \<noteq> None then modify_node (l_next n) (\<lambda>k. k\<lparr>l_prev := Some l\<rparr>) s2 else Inr s2)"
    unfolding list_insertAfter_def e using m l dx(6) by simp
  then have "list_insertAfter x l s = Inr s3" using l2 r3 by (auto split: if_splits)
  moreover have "dls s3 p (xs @ l # ys) q" using x3 y3 l3 xs by (auto simp: dls_append)
  moreover have "\<forall>z. z \<notin> set (xs @ l # ys) \<longrightarrow> s3 z = s z"
    using xs by (cases ys) (auto simp: s3_def s2_def s1_def)
  ultimately show ?thesis by blast
qed

section \<open>Properties\<close>

text \<open>
  Remark: In a complete list (its ends have null pointers) \<^verbatim>\<open>list_remove\<close> takes out exactly its
  node: the remaining nodes form the list without it, in order and linked both ways, the node is left
  alone with null links, and no other node of memory changes.
\<close>

theorem list_remove_correct:
  assumes "dls s None (xs @ x # ys) None" and "distinct (xs @ x # ys)"
  shows "\<exists>s'. list_remove x s = Inr s' \<and> dls s' None (xs @ ys) None \<and> dls s' None [x] None
    \<and> (\<forall>y. y \<notin> set (xs @ x # ys) \<longrightarrow> s' y = s y)"
  using list_remove_ok [OF assms] by blast

definition demo_nodes :: list_store where
  "demo_nodes = [1 \<mapsto> \<lparr>l_object = 10, l_prev = None, l_next = Some 2\<rparr>,
     2 \<mapsto> \<lparr>l_object = 20, l_prev = Some 1, l_next = Some 3\<rparr>,
     3 \<mapsto> \<lparr>l_object = 30, l_prev = Some 2, l_next = None\<rparr>,
     4 \<mapsto> \<lparr>l_object = 40, l_prev = None, l_next = None\<rparr>]"

lemma demo_nodes_dls: "dls demo_nodes None ([1] @ 2 # [3]) None"
  by (simp add: demo_nodes_def)

theorem list_remove_correct_witness:
  "\<exists>s'. list_remove 2 demo_nodes = Inr s' \<and> dls s' None [1, 3] None \<and> s' 4 = demo_nodes 4"
  using list_remove_correct [OF demo_nodes_dls] by auto

text \<open>
  Remark: \<^verbatim>\<open>list_insertBefore\<close> puts a node that is not in the list directly in front of the given one,
  and \<^verbatim>\<open>list_insertAfter\<close> directly behind it; both keep the list linked both ways and touch no
  node outside it.
\<close>

theorem list_insert_correct:
  assumes "dls s None (xs @ x # ys) None" and "distinct (xs @ x # ys)"
    and "s l = Some n" and "l \<notin> set (xs @ x # ys)"
  shows "(\<exists>s'. list_insertBefore x l s = Inr s' \<and> dls s' None (xs @ l # x # ys) None
      \<and> (\<forall>z. z \<notin> set (xs @ l # x # ys) \<longrightarrow> s' z = s z))
    \<and> (\<exists>s'. list_insertAfter x l s = Inr s' \<and> dls s' None (xs @ x # l # ys) None
      \<and> (\<forall>z. z \<notin> set (xs @ x # l # ys) \<longrightarrow> s' z = s z))"
proof -
  have "\<exists>s'. list_insertBefore x l s = Inr s' \<and> dls s' None (xs @ l # x # ys) None
      \<and> (\<forall>z. z \<notin> set (xs @ l # x # ys) \<longrightarrow> s' z = s z)"
    by (rule list_insertBefore_ok [OF assms(1,2) refl assms(3)]) (use assms(4) in simp_all)
  moreover have "\<exists>s'. list_insertAfter x l s = Inr s' \<and> dls s' None ((xs @ [x]) @ l # ys) None
      \<and> (\<forall>z. z \<notin> set ((xs @ [x]) @ l # ys) \<longrightarrow> s' z = s z)"
    by (rule list_insertAfter_ok [of _ _ "xs @ [x]" _ _ xs _ _ n]) (use assms in simp_all)
  ultimately show ?thesis by simp
qed

theorem list_insert_correct_witness:
  "\<exists>s'. list_insertAfter 2 4 demo_nodes = Inr s' \<and> dls s' None [1, 2, 4, 3] None"
proof -
  have "demo_nodes 4 = Some \<lparr>l_object = 40, l_prev = None, l_next = None\<rparr>" "4 \<notin> set ([1] @ 2 # [3 :: nat])"
    by (simp_all add: demo_nodes_def)
  from list_insert_correct [OF demo_nodes_dls _ this] show ?thesis by auto
qed

section \<open>What the operations leave alone\<close>

lemma modify_node_Inr:
  "modify_node p f s = Inr s' \<longleftrightarrow> (\<exists>a n. p = Some a \<and> s a = Some n \<and> s' = s(a \<mapsto> f n))"
  by (auto simp: modify_node_def load_node_def split: option.splits)

lemma load_node_Inr: "load_node s a = Inr n \<longleftrightarrow> s a = Some n"
  by (simp add: load_node_def split: option.splits)

lemma modify_node_object:
  assumes "modify_node p f s = Inr s'" and "\<And>n. l_object (f n) = l_object n"
  shows "map_option l_object (s' y) = map_option l_object (s y)"
  using assms by (auto simp: modify_node_Inr)

lemma list_remove_object:
  assumes "list_remove l s = Inr s'"
  shows "map_option l_object (s' y) = map_option l_object (s y)"
proof -
  from assms [unfolded list_remove_def bindR_Inr_iff] obtain n0 s1 n1 s2 n2 where l: "load_node s l = Inr n0" and c:
    "(if l_prev n0 \<noteq> None then modify_node (l_prev n0) (\<lambda>m. m\<lparr>l_next := l_next n0\<rparr>) s else Inr s) = Inr s1"
    and m: "load_node s1 l = Inr n1" and d:
    "(if l_next n1 \<noteq> None then modify_node (l_next n1) (\<lambda>m. m\<lparr>l_prev := l_prev n1\<rparr>) s1 else Inr s1) = Inr s2"
    "load_node s2 l = Inr n2" "list_init l (l_object n2) s2 = Inr s'"
    by (elim exE conjE)
  have "map_option l_object (s1 y) = map_option l_object (s y)"
    using c modify_node_object [where y = y] by (auto split: if_splits)
  moreover have "map_option l_object (s2 y) = map_option l_object (s1 y)"
    using d(1) modify_node_object [where y = y] by (auto split: if_splits)
  moreover have "map_option l_object (s' y) = map_option l_object (s2 y)"
    using d(2,3) by (auto simp: list_init_def modify_node_Inr load_node_Inr)
  ultimately show ?thesis by simp
qed

lemma list_insertAfter_object:
  assumes "list_insertAfter pos l s = Inr s'"
  shows "map_option l_object (s' y) = map_option l_object (s y)"
proof -
  from assms [unfolded list_insertAfter_def bindR_Inr_iff] obtain s1 p s2 s3 n where c:
    "modify_node (Some l) (\<lambda>n. n\<lparr>l_prev := Some pos\<rparr>) s = Inr s1"
    "load_node s1 pos = Inr p"
    "modify_node (Some l) (\<lambda>n. n\<lparr>l_next := l_next p\<rparr>) s1 = Inr s2"
    "modify_node (Some pos) (\<lambda>n. n\<lparr>l_next := Some l\<rparr>) s2 = Inr s3"
    "load_node s3 l = Inr n"
    "(if l_next n \<noteq> None then modify_node (l_next n) (\<lambda>m. m\<lparr>l_prev := Some l\<rparr>) s3 else Inr s3) = Inr s'"
    by (elim exE conjE)
  have "map_option l_object (s' y) = map_option l_object (s3 y)"
    using c(6) modify_node_object [where y = y] by (auto split: if_splits)
  with modify_node_object [OF c(1), of y] modify_node_object [OF c(3), of y]
    modify_node_object [OF c(4), of y] show ?thesis by simp
qed

end
