(* ===== verification/Ds_Family.thy ===== *)
theory Ds_Family
  imports Ds_List
begin

text \<open>
  The intrusive family tree (\<^verbatim>\<open>kernel/ds/family.h\<close>) that links processes and threads to their
  parents and children. A node points to its parent, to its first child and to its siblings.

  \<open>children s a xs\<close> says that the node \<open>a\<close> has exactly the children \<open>xs\<close>, in this order, linked
  both ways and all pointing back to \<open>a\<close>. The operations refine the corresponding changes of these
  lists.
\<close>

section \<open>State and operations\<close>

record ds_family =
  f_object :: nat
  f_parent :: "nat option"
  f_child :: "nat option"
  f_prev :: "nat option"
  f_next :: "nat option"

type_synonym family_store = "nat \<rightharpoonup> ds_family"

definition load_fam :: "family_store \<Rightarrow> nat \<Rightarrow> ds_family kres" where
  "load_fam s a = (case s a of None \<Rightarrow> Inl Null_deref | Some n \<Rightarrow> Inr n)"

definition modify_fam :: "nat option \<Rightarrow> (ds_family \<Rightarrow> ds_family) \<Rightarrow> family_store \<Rightarrow> family_store kres" where
  "modify_fam p f s =
     (case p of None \<Rightarrow> Inl Null_deref | Some a \<Rightarrow> bindR (load_fam s a) (\<lambda>n. Inr (s(a \<mapsto> f n))))"

definition family_init :: "nat \<Rightarrow> nat \<Rightarrow> family_store \<Rightarrow> family_store kres" where
  "family_init fam obj s =
     modify_fam (Some fam) (\<lambda>n. \<lparr>f_object = obj, f_parent = None, f_child = None, f_prev = None,
                                 f_next = None\<rparr>) s"

definition family_remove :: "nat \<Rightarrow> family_store \<Rightarrow> family_store kres" where
  "family_remove fam s0 =
     bindR (load_fam s0 fam) (\<lambda>n.
     bindR (case f_parent n of
              None \<Rightarrow> Inr s0
            | Some p \<Rightarrow>
                bindR (load_fam s0 p) (\<lambda>pn.
                if f_child pn = Some fam then modify_fam (Some p) (\<lambda>m. m\<lparr>f_child := f_next n\<rparr>) s0
                else Inr s0)) (\<lambda>s1.
     bindR (if f_prev n \<noteq> None then modify_fam (f_prev n) (\<lambda>m. m\<lparr>f_next := f_next n\<rparr>) s1
            else Inr s1) (\<lambda>s2.
     bindR (if f_next n \<noteq> None then modify_fam (f_next n) (\<lambda>m. m\<lparr>f_prev := f_prev n\<rparr>) s2
            else Inr s2) (\<lambda>s3.
     modify_fam (Some fam) (\<lambda>m. m\<lparr>f_parent := None, f_next := None, f_prev := None\<rparr>) s3))))"

definition family_add_child :: "nat \<Rightarrow> nat \<Rightarrow> family_store \<Rightarrow> family_store kres" where
  "family_add_child parent fam s0 =
     bindR (load_fam s0 parent) (\<lambda>pn.
     bindR (if f_child pn \<noteq> None
            then bindR (modify_fam (f_child pn) (\<lambda>m. m\<lparr>f_prev := Some fam\<rparr>) s0) (\<lambda>s1.
                 modify_fam (Some fam) (\<lambda>m. m\<lparr>f_next := f_child pn\<rparr>) s1)
            else Inr s0) (\<lambda>s2.
     bindR (modify_fam (Some parent) (\<lambda>m. m\<lparr>f_child := Some fam\<rparr>) s2) (\<lambda>s3.
     modify_fam (Some fam) (\<lambda>m. m\<lparr>f_parent := Some parent\<rparr>) s3)))"

definition family_add_sibling :: "nat \<Rightarrow> nat \<Rightarrow> family_store \<Rightarrow> family_store kres" where
  "family_add_sibling bro fam s0 =
     bindR (load_fam s0 bro) (\<lambda>bn.
     bindR (if f_next bn \<noteq> None then modify_fam (f_next bn) (\<lambda>m. m\<lparr>f_prev := Some fam\<rparr>) s0
            else Inr s0) (\<lambda>s1.
     bindR (modify_fam (Some fam) (\<lambda>m. m\<lparr>f_next := f_next bn, f_prev := Some bro\<rparr>) s1) (\<lambda>s2.
     bindR (modify_fam (Some bro) (\<lambda>m. m\<lparr>f_next := Some fam\<rparr>) s2) (\<lambda>s3.
     modify_fam (Some fam) (\<lambda>m. m\<lparr>f_parent := f_parent bn\<rparr>) s3))))"

text \<open>
  The loop of \<^verbatim>\<open>family_adopt\<close> follows sibling pointers; it has fuel, because on a cyclic chain
  it would not end.
\<close>

fun adopt_loop :: "nat \<Rightarrow> nat \<Rightarrow> nat option \<Rightarrow> family_store \<Rightarrow> family_store kres" where
  "adopt_loop fuel step None s = Inr s"
| "adopt_loop 0 step (Some tmp) s = Inl Hang"
| "adopt_loop (Suc fuel) step (Some tmp) s0 =
     bindR (load_fam s0 tmp) (\<lambda>tn.
     bindR (load_fam s0 step) (\<lambda>sn.
     bindR (modify_fam (Some tmp)
              (\<lambda>m. m\<lparr>f_parent := Some step, f_prev := None, f_next := f_child sn\<rparr>) s0) (\<lambda>s1.
     bindR (if f_child sn \<noteq> None then modify_fam (f_child sn) (\<lambda>m. m\<lparr>f_prev := Some tmp\<rparr>) s1
            else Inr s1) (\<lambda>s2.
     bindR (modify_fam (Some step) (\<lambda>m. m\<lparr>f_child := Some tmp\<rparr>) s2) (\<lambda>s3.
     adopt_loop fuel step (f_next tn) s3)))))"

definition family_adopt :: "nat \<Rightarrow> nat \<Rightarrow> nat \<Rightarrow> family_store \<Rightarrow> family_store kres" where
  "family_adopt fuel step dead s =
     bindR (load_fam s dead) (\<lambda>dn.
     bindR (adopt_loop fuel step (f_child dn) s) (\<lambda>s1.
     modify_fam (Some dead) (\<lambda>m. m\<lparr>f_child := None\<rparr>) s1))"

section \<open>Lists of children\<close>

fun sibs :: "family_store \<Rightarrow> nat \<Rightarrow> nat option \<Rightarrow> nat list \<Rightarrow> nat option \<Rightarrow> bool" where
  "sibs s par p [] q \<longleftrightarrow> True"
| "sibs s par p (x # xs) q \<longleftrightarrow>
     (\<exists>n. s x = Some n \<and> f_parent n = Some par \<and> f_prev n = p \<and> f_next n = first_or xs q)
     \<and> sibs s par (Some x) xs q"

definition children :: "family_store \<Rightarrow> nat \<Rightarrow> nat list \<Rightarrow> bool" where
  "children s par xs \<longleftrightarrow>
     (\<exists>n. s par = Some n \<and> f_child n = first_or xs None) \<and> sibs s par None xs None
     \<and> distinct (par # xs)"

lemma sibs_append:
  "sibs s par p (xs @ ys) q \<longleftrightarrow> sibs s par p xs (first_or ys q) \<and> sibs s par (last_or xs p) ys q"
  by (induction xs arbitrary: p) auto

lemma sibs_frame: "(\<And>x. x \<in> set xs \<Longrightarrow> s' x = s x) \<Longrightarrow> sibs s' par p xs q = sibs s par p xs q"
  by (induction xs arbitrary: p) auto

lemma sibs_upd [simp]: "a \<notin> set xs \<Longrightarrow> sibs (s(a := v)) par p xs q = sibs s par p xs q"
  by (rule sibs_frame) auto

lemma sibs_last:
  assumes "sibs s par p xs q" and "xs \<noteq> []"
  shows "\<exists>n. s (last xs) = Some n \<and> f_next n = q \<and> f_parent n = Some par"
  using assms by (induction xs arbitrary: p) (auto split: if_splits)

lemma sibs_relink_last:
  assumes "sibs s par p xs q" and "distinct xs" and "xs \<noteq> []" and "s (last xs) = Some n"
  shows "sibs (s(last xs \<mapsto> n\<lparr>f_next := q'\<rparr>)) par p xs q'"
proof (cases xs rule: rev_cases)
  case (snoc ys x)
  with assms show ?thesis by (auto simp: sibs_append)
qed (use assms in simp)

lemma modify_fam_Some [simp]: "s a = Some n \<Longrightarrow> modify_fam (Some a) f s = Inr (s(a \<mapsto> f n))"
  by (simp add: modify_fam_def load_fam_def)

lemma load_fam_Some [simp]: "s a = Some n \<Longrightarrow> load_fam s a = Inr n"
  by (simp add: load_fam_def)

lemma children_frame:
  "children s par xs \<Longrightarrow> (\<And>x. x \<in> set (par # xs) \<Longrightarrow> s' x = s x) \<Longrightarrow> children s' par xs"
  using sibs_frame [of xs s' s] by (auto simp: children_def)

text \<open>The pointers of a node to its parent and siblings.\<close>

definition links :: "family_store \<Rightarrow> nat \<Rightarrow> (nat option \<times> nat option \<times> nat option) option" where
  "links s y = map_option (\<lambda>n. (f_parent n, f_prev n, f_next n)) (s y)"

lemma links_upd [simp]:
  "links (s(x \<mapsto> n)) y = (if y = x then Some (f_parent n, f_prev n, f_next n) else links s y)"
  by (simp add: links_def)

lemma children_frame_links:
  assumes "children s par xs" and "map_option f_child (s' par) = map_option f_child (s par)"
    and "\<And>y. y \<in> set xs \<Longrightarrow> links s' y = links s y"
  shows "children s' par xs"
proof -
  have "sibs s p q ys r \<Longrightarrow> (\<And>y. y \<in> set ys \<Longrightarrow> links s' y = links s y) \<Longrightarrow> sibs s' p q ys r" for p q ys r
  proof (induction ys arbitrary: q)
    case (Cons a ys)
    then obtain n where "s a = Some n" "f_parent n = Some p" "f_prev n = q" "f_next n = first_or ys r" by auto
    moreover have "links s' a = links s a" using Cons.prems(2) by simp
    ultimately show ?case using Cons by (auto simp: links_def)
  qed simp
  with assms show ?thesis by (auto simp: children_def)
qed

text \<open>One round of the adoption: \<open>x\<close> moves to the front of the step parent's children.\<close>

lemma adopt_round:
  assumes st: "children s step ss" and x: "s x = Some xn" "x \<noteq> step" "x \<notin> set ss"
  shows "\<exists>s'. adopt_loop (Suc fuel) step (Some x) s = adopt_loop fuel step (f_next xn) s'
    \<and> children s' step (x # ss) \<and> (\<forall>y. y \<notin> {x, step} \<union> set ss \<longrightarrow> s' y = s y)
    \<and> (\<forall>y. y \<notin> {x} \<union> set ss \<longrightarrow> links s' y = links s y)"
proof -
  from st obtain sn where sn: "s step = Some sn" "f_child sn = first_or ss None"
    and sb: "sibs s step None ss None" and dist: "step \<notin> set ss" "distinct ss" by (auto simp: children_def)
  let ?xn = "xn\<lparr>f_parent := Some step, f_prev := None, f_next := first_or ss None\<rparr>"
  define s1 where "s1 = s(x \<mapsto> ?xn)"
  have sb1: "sibs s1 step None ss None" using sb x(3) by (simp add: s1_def)
  define s2 where "s2 = (case ss of [] \<Rightarrow> s1 | y # _ \<Rightarrow> s1(y := map_option (\<lambda>m. m\<lparr>f_prev := Some x\<rparr>) (s1 y)))"
  have sb2: "sibs s2 step (Some x) ss None"
    using sb1 dist by (cases ss) (auto simp: s2_def)
  have x2: "s2 x = Some ?xn" using x(3) by (cases ss) (auto simp: s2_def s1_def)
  have st2: "s2 step = Some sn" using x sn dist by (cases ss) (auto simp: s2_def s1_def)
  have l1: "load_fam s x = Inr xn" and l2: "load_fam s step = Inr sn" using x(1) sn(1) by simp_all
  have r1: "modify_fam (Some x) (\<lambda>m. m\<lparr>f_parent := Some step, f_prev := None, f_next := f_child sn\<rparr>) s = Inr s1"
    using x sn(2) by (simp add: s1_def)
  have r2: "(if f_child sn \<noteq> None then modify_fam (f_child sn) (\<lambda>m. m\<lparr>f_prev := Some x\<rparr>) s1 else Inr s1) = Inr s2"
    using sn(2) sb1 by (cases ss) (auto simp: s2_def)
  let ?s = "s2(step \<mapsto> sn\<lparr>f_child := Some x\<rparr>)"
  have "adopt_loop (Suc fuel) step (Some x) s = adopt_loop fuel step (f_next xn) ?s"
    unfolding adopt_loop.simps l1 l2 bindR_simps r1 r2 by (simp add: st2)
  moreover have "children ?s step (x # ss)"
    using sb2 x2 x dist by (simp add: children_def)
  moreover have "\<forall>y. y \<notin> {x, step} \<union> set ss \<longrightarrow> ?s y = s y"
    by (cases ss) (auto simp: s2_def s1_def)
  moreover have "\<forall>y. y \<notin> {x} \<union> set ss \<longrightarrow> links ?s y = links s y"
    using sn by (cases ss) (auto simp: s2_def s1_def links_def)
  ultimately show ?thesis by blast
qed

lemma adopt_loop_ok:
  assumes "sibs s dead p ds None" and "children s step ss" and "distinct (step # ds @ ss)"
    and "length ds \<le> fuel"
  shows "\<exists>s'. adopt_loop fuel step (first_or ds None) s = Inr s' \<and> children s' step (rev ds @ ss)
    \<and> (\<forall>y. y \<notin> set (step # ds @ ss) \<longrightarrow> s' y = s y)
    \<and> (\<forall>y. y \<notin> set (ds @ ss) \<longrightarrow> links s' y = links s y)"
  using assms
proof (induction ds arbitrary: s ss p fuel)
  case Nil
  then show ?case by (cases fuel) auto
next
  case (Cons x ds)
  then obtain f where f: "fuel = Suc f" "length ds \<le> f" by (cases fuel) auto
  from Cons.prems(1) obtain xn where xn: "s x = Some xn" "f_next xn = first_or ds None"
    and sb: "sibs s dead (Some x) ds None" by auto
  from adopt_round [OF Cons.prems(2) xn(1), of f] Cons.prems(3) obtain s1 where s1:
    "adopt_loop (Suc f) step (Some x) s = adopt_loop f step (f_next xn) s1"
    "children s1 step (x # ss)" "\<forall>y. y \<notin> {x, step} \<union> set ss \<longrightarrow> s1 y = s y"
    "\<forall>y. y \<notin> {x} \<union> set ss \<longrightarrow> links s1 y = links s y" by auto
  have "sibs s1 dead (Some x) ds None"
    using sb s1(3) Cons.prems(3) by (subst sibs_frame) auto
  moreover have "distinct (step # ds @ x # ss)" using Cons.prems(3) by auto
  ultimately obtain s2 where s2: "adopt_loop f step (first_or ds None) s1 = Inr s2"
    "children s2 step (rev ds @ x # ss)" "\<forall>y. y \<notin> set (step # ds @ x # ss) \<longrightarrow> s2 y = s1 y"
    "\<forall>y. y \<notin> set (ds @ x # ss) \<longrightarrow> links s2 y = links s1 y"
    using Cons.IH [OF _ s1(2) _ f(2)] by blast
  have "\<forall>y. y \<notin> set (step # (x # ds) @ ss) \<longrightarrow> s2 y = s y" using s1(3) s2(3) by auto
  moreover have "\<forall>y. y \<notin> set ((x # ds) @ ss) \<longrightarrow> links s2 y = links s y" using s1(4) s2(4) by auto
  ultimately show ?case using s1(1) s2 xn(2) f(1) by (intro exI [of _ s2]) simp
qed

section \<open>Properties\<close>

text \<open>
  Remark: \<^verbatim>\<open>family_adopt\<close> moves all children of the dead parent to the step parent: it ends, the
  step parent has them (in reverse order) in front of its own children, all of them point to it, the
  dead parent has none left, and no other node changes.
\<close>

theorem family_adopt_correct:
  assumes ch: "children s dead ds" "children s step ss" and dist: "distinct (dead # step # ds @ ss)"
    and fuel: "length ds \<le> fuel"
  shows "\<exists>s'. family_adopt fuel step dead s = Inr s' \<and> children s' step (rev ds @ ss)
    \<and> children s' dead [] \<and> (\<forall>y. y \<notin> set (dead # step # ds @ ss) \<longrightarrow> s' y = s y)"
proof -
  from ch(1) obtain dn where dn: "s dead = Some dn" "f_child dn = first_or ds None"
    and sb: "sibs s dead None ds None" by (auto simp: children_def)
  have "distinct (step # ds @ ss)" using dist by simp
  from adopt_loop_ok [OF sb ch(2) this fuel] obtain s1 where s1:
    "adopt_loop fuel step (first_or ds None) s = Inr s1" "children s1 step (rev ds @ ss)"
    "\<forall>y. y \<notin> set (step # ds @ ss) \<longrightarrow> s1 y = s y" by blast
  have d1: "s1 dead = Some dn" using s1(3) dist dn(1) by simp
  let ?s = "s1(dead \<mapsto> dn\<lparr>f_child := None\<rparr>)"
  have "family_adopt fuel step dead s = Inr ?s" using dn s1(1) d1 by (simp add: family_adopt_def)
  moreover have "children ?s step (rev ds @ ss)"
    using s1(2) dist by (intro children_frame [OF s1(2)]) auto
  moreover have "children ?s dead []" by (simp add: children_def)
  ultimately show ?thesis using s1(3) by auto
qed

definition demo_family :: family_store where
  "demo_family = [1 \<mapsto> \<lparr>f_object = 10, f_parent = None, f_child = Some 3, f_prev = None, f_next = None\<rparr>,
     2 \<mapsto> \<lparr>f_object = 20, f_parent = None, f_child = None, f_prev = None, f_next = None\<rparr>,
     3 \<mapsto> \<lparr>f_object = 30, f_parent = Some 1, f_child = None, f_prev = None, f_next = Some 4\<rparr>,
     4 \<mapsto> \<lparr>f_object = 40, f_parent = Some 1, f_child = None, f_prev = Some 3, f_next = None\<rparr>]"

lemma demo_family_children: "children demo_family 1 [3, 4]" "children demo_family 2 []"
  by (simp_all add: children_def demo_family_def)

theorem family_adopt_correct_witness:
  "\<exists>s'. family_adopt 2 2 1 demo_family = Inr s' \<and> children s' 2 [4, 3] \<and> children s' 1 []"
  using family_adopt_correct [OF demo_family_children, of 2] by auto

text \<open>
  Remark: \<^verbatim>\<open>family_remove\<close> of a child takes exactly it out of its parent's list of children: the
  others keep their order, the first-child pointer and the sibling pointers close the gap, and the
  removed node has no parent and no siblings.
\<close>

theorem family_remove_correct:
  assumes ch: "children s par (xs @ x # ys)"
  shows "\<exists>s' n. family_remove x s = Inr s' \<and> children s' par (xs @ ys)
    \<and> s' x = Some n \<and> f_parent n = None \<and> f_prev n = None \<and> f_next n = None
    \<and> (\<forall>y. y \<notin> set (par # xs @ x # ys) \<longrightarrow> s' y = s y)"
proof -
  from ch obtain pn where pn: "s par = Some pn" "f_child pn = first_or (xs @ x # ys) None"
    and sb: "sibs s par None (xs @ x # ys) None" and dist: "distinct (par # xs @ x # ys)"
    by (auto simp: children_def)
  have dx: "distinct xs" "distinct ys" "x \<notin> set xs" "x \<notin> set ys" "set xs \<inter> set ys = {}"
    "par \<notin> set xs" "par \<notin> set ys" "par \<noteq> x" using dist by auto
  from sb obtain n where n: "s x = Some n" "f_parent n = Some par" "f_prev n = last_or xs None"
    "f_next n = first_or ys None"
    and sx: "sibs s par None xs (Some x)" and sy: "sibs s par (Some x) ys None"
    by (auto simp: sibs_append)
  define s1 where "s1 = (if xs = [] then s(par \<mapsto> pn\<lparr>f_child := first_or ys None\<rparr>) else s)"
  have r1: "(if f_child pn = Some x then modify_fam (Some par) (\<lambda>m. m\<lparr>f_child := f_next n\<rparr>) s else Inr s) = Inr s1"
    using pn n(4) dx(3) by (cases xs) (auto simp: s1_def)
  have f1: "sibs s1 par None xs (Some x)" "sibs s1 par (Some x) ys None" "s1 x = Some n"
    using sx sy n(1) dx by (auto simp: s1_def)
  define s2 where "s2 = (if xs = [] then s1
     else s1(last xs := map_option (\<lambda>m. m\<lparr>f_next := first_or ys None\<rparr>) (s1 (last xs))))"
  have f2: "sibs s2 par None xs (first_or ys None)" "sibs s2 par (Some x) ys None" "s2 x = Some n"
  proof -
    show "sibs s2 par None xs (first_or ys None)"
    proof (cases "xs = []")
      case False
      from sibs_last [OF f1(1) False] obtain m where "s1 (last xs) = Some m" by blast
      with sibs_relink_last [OF f1(1) dx(1) False this] False show ?thesis by (simp add: s2_def)
    qed (simp add: s2_def)
    show "sibs s2 par (Some x) ys None" using f1(2) dx(5) by (simp add: s2_def last_disjoint)
    show "s2 x = Some n" using f1(3) dx(3) last_in_set [of xs] by (auto simp: s2_def)
  qed
  have r2: "(if f_prev n \<noteq> None then modify_fam (f_prev n) (\<lambda>m. m\<lparr>f_next := f_next n\<rparr>) s1 else Inr s1) = Inr s2"
  proof (cases "xs = []")
    case False
    from sibs_last [OF f1(1) False] obtain m where "s1 (last xs) = Some m" by blast
    with False n show ?thesis by (simp add: s2_def last_or_def)
  qed (use n in \<open>simp add: s2_def\<close>)
  define s3 where "s3 = (case ys of [] \<Rightarrow> s2
     | y # _ \<Rightarrow> s2(y := map_option (\<lambda>m. m\<lparr>f_prev := last_or xs None\<rparr>) (s2 y)))"
  have r3: "(if f_next n \<noteq> None then modify_fam (f_next n) (\<lambda>m. m\<lparr>f_prev := f_prev n\<rparr>) s2 else Inr s2) = Inr s3"
    using n f2(2) by (cases ys) (auto simp: s3_def)
  have f3: "sibs s3 par None xs (first_or ys None)" "sibs s3 par (last_or xs None) ys None" "s3 x = Some n"
    using f2 dx by (cases ys; auto simp: s3_def)+
  let ?n = "n\<lparr>f_parent := None, f_next := None, f_prev := None\<rparr>"
  let ?s = "s3(x \<mapsto> ?n)"
  have l: "load_fam s x = Inr n" "load_fam s par = Inr pn" using n(1) pn(1) by simp_all
  have run: "family_remove x s = Inr ?s"
    unfolding family_remove_def l bindR_simps n(2) option.case r1 r2 r3 by (simp add: f3(3))
  have p3: "\<exists>m. s3 par = Some m \<and> f_child m = first_or (xs @ ys) None"
    using pn dx last_in_set [of xs]
    by (cases xs; cases ys) (auto simp: s3_def s2_def s1_def)
  have "children ?s par (xs @ ys)"
    using p3 f3 dx dist by (auto simp: children_def sibs_append)
  moreover have "\<forall>y. y \<notin> set (par # xs @ x # ys) \<longrightarrow> ?s y = s y"
    using last_in_set [of xs] by (cases ys) (auto simp: s3_def s2_def s1_def)
  ultimately show ?thesis using run by (intro exI [of _ ?s] exI [of _ ?n]) simp
qed

theorem family_remove_correct_witness:
  "\<exists>s'. family_remove 3 demo_family = Inr s' \<and> children s' 1 [4]"
proof -
  have "children demo_family 1 ([] @ 3 # [4])" using demo_family_children by simp
  from family_remove_correct [OF this] show ?thesis by auto
qed

section \<open>What the operations leave alone\<close>

lemma modify_fam_Inr:
  "modify_fam p f s = Inr s' \<longleftrightarrow> (\<exists>a n. p = Some a \<and> s a = Some n \<and> s' = s(a \<mapsto> f n))"
  by (auto simp: modify_fam_def load_fam_def split: option.splits)

lemma load_fam_Inr: "load_fam s a = Inr n \<longleftrightarrow> s a = Some n"
  by (simp add: load_fam_def split: option.splits)

text \<open>Nodes keep their objects; only the parents involved get other first children.\<close>

lemma family_add_child_keeps:
  assumes "family_add_child parent fam s = Inr s'"
  shows "map_option f_object (s' y) = map_option f_object (s y)"
    and "y \<noteq> parent \<Longrightarrow> map_option f_child (s' y) = map_option f_child (s y)"
  using assms
  by (auto simp: family_add_child_def bindR_Inr_iff modify_fam_Inr load_fam_Inr split: if_splits)

lemma family_remove_keeps:
  assumes "family_remove fam s = Inr s'"
  shows "map_option f_object (s' y) = map_option f_object (s y)"
    and "s fam = Some n \<Longrightarrow> f_parent n \<noteq> Some y \<Longrightarrow> map_option f_child (s' y) = map_option f_child (s y)"
  using assms
  by (auto simp: family_remove_def bindR_Inr_iff modify_fam_Inr load_fam_Inr split: if_splits option.splits)

lemma adopt_loop_keeps:
  assumes "adopt_loop fuel step p s = Inr s'"
  shows "map_option f_object (s' y) = map_option f_object (s y)
    \<and> (y \<noteq> step \<longrightarrow> map_option f_child (s' y) = map_option f_child (s y))"
  using assms
proof (induction fuel step p s rule: adopt_loop.induct)
  case (3 fuel step tmp s0)
  from "3.prems" obtain tn sn s1 s2 s3 where c: "load_fam s0 tmp = Inr tn" "load_fam s0 step = Inr sn"
    "modify_fam (Some tmp) (\<lambda>m. m\<lparr>f_parent := Some step, f_prev := None, f_next := f_child sn\<rparr>) s0 = Inr s1"
    "(if f_child sn \<noteq> None then modify_fam (f_child sn) (\<lambda>m. m\<lparr>f_prev := Some tmp\<rparr>) s1 else Inr s1) = Inr s2"
    "modify_fam (Some step) (\<lambda>m. m\<lparr>f_child := Some tmp\<rparr>) s2 = Inr s3"
    "adopt_loop fuel step (f_next tn) s3 = Inr s'" by (simp add: bindR_Inr_iff) blast
  have k1: "map_option f_object (s1 y) = map_option f_object (s0 y) \<and> map_option f_child (s1 y) = map_option f_child (s0 y)"
    using c(3) by (auto simp: modify_fam_Inr)
  have k2: "map_option f_object (s2 y) = map_option f_object (s1 y) \<and> map_option f_child (s2 y) = map_option f_child (s1 y)"
    using c(4) by (auto simp: modify_fam_Inr split: if_splits)
  have k3: "map_option f_object (s3 y) = map_option f_object (s2 y)
      \<and> (y \<noteq> step \<longrightarrow> map_option f_child (s3 y) = map_option f_child (s2 y))"
    using c(5) by (auto simp: modify_fam_Inr)
  from "3.IH" [OF c(1-5,6)] k1 k2 k3 show ?case by simp
qed simp_all

lemma family_adopt_keeps:
  assumes "family_adopt fuel step dead s = Inr s'"
  shows "map_option f_object (s' y) = map_option f_object (s y)"
    and "y \<noteq> step \<Longrightarrow> y \<noteq> dead \<Longrightarrow> map_option f_child (s' y) = map_option f_child (s y)"
proof -
  from assms [unfolded family_adopt_def bindR_Inr_iff] obtain dn s1 where d: "load_fam s dead = Inr dn"
    and c: "adopt_loop fuel step (f_child dn) s = Inr s1"
    "modify_fam (Some dead) (\<lambda>m. m\<lparr>f_child := None\<rparr>) s1 = Inr s'"
    by (elim exE conjE)
  from adopt_loop_keeps [OF c(1), of y] c(2)
  show "map_option f_object (s' y) = map_option f_object (s y)"
    and "y \<noteq> step \<Longrightarrow> y \<noteq> dead \<Longrightarrow> map_option f_child (s' y) = map_option f_child (s y)"
    by (auto simp: modify_fam_Inr split: if_splits)
qed

text \<open>A new node becomes the first child.\<close>

lemma family_add_child_ok:
  assumes ch: "children s par xs" and x: "s x = Some n" "f_prev n = None" "f_next n = None" "x \<notin> set (par # xs)"
  shows "\<exists>s'. family_add_child par x s = Inr s' \<and> children s' par (x # xs)
    \<and> (\<forall>y. y \<notin> set (par # x # xs) \<longrightarrow> s' y = s y)"
proof -
  from ch obtain pn where pn: "s par = Some pn" "f_child pn = first_or xs None"
    and sb: "sibs s par None xs None" and dist: "distinct (par # xs)" by (auto simp: children_def)
  define n1 where "n1 = n\<lparr>f_next := first_or xs None\<rparr>"
  define s2 where "s2 = (case xs of [] \<Rightarrow> s
     | y # _ \<Rightarrow> (s(y := map_option (\<lambda>m. m\<lparr>f_prev := Some x\<rparr>) (s y)))(x \<mapsto> n1))"
  have r: "(if f_child pn \<noteq> None
      then bindR (modify_fam (f_child pn) (\<lambda>m. m\<lparr>f_prev := Some x\<rparr>) s) (\<lambda>s1.
           modify_fam (Some x) (\<lambda>m. m\<lparr>f_next := f_child pn\<rparr>) s1)
      else Inr s) = Inr s2"
    using pn sb x by (cases xs) (auto simp: s2_def n1_def)
  have x2: "s2 x = Some n1" using x by (cases xs) (auto simp: s2_def n1_def)
  have p2: "s2 par = Some pn" using pn x dist by (cases xs) (auto simp: s2_def)
  have sb2: "sibs s2 par (Some x) xs None"
    using sb x dist by (cases xs) (auto simp: s2_def)
  let ?s = "s2(par \<mapsto> pn\<lparr>f_child := Some x\<rparr>, x \<mapsto> n1\<lparr>f_parent := Some par\<rparr>)"
  have "family_add_child par x s = Inr ?s"
    unfolding family_add_child_def using pn r x2 p2 x(4) by (simp add: load_fam_def)
  moreover have "children ?s par (x # xs)"
    using sb2 dist x n1_def by (auto simp: children_def)
  moreover have "\<forall>y. y \<notin> set (par # x # xs) \<longrightarrow> ?s y = s y"
    by (cases xs) (auto simp: s2_def)
  ultimately show ?thesis by blast
qed

text \<open>The pointers to parents and siblings change only at the nodes that move and at their neighbours.\<close>

lemma family_add_child_links:
  assumes "family_add_child par x s = Inr s'" and "children s par xs" and "y \<notin> set (x # xs)"
  shows "links s' y = links s y"
  using assms
  by (cases xs)
    (auto simp: family_add_child_def children_def bindR_Inr_iff modify_fam_Inr load_fam_Inr links_def
      split: if_splits)

lemma family_remove_links:
  assumes "family_remove x s = Inr s'" and "children s par (xs @ x # ys)" and "y \<notin> set (xs @ x # ys)"
  shows "links s' y = links s y"
proof -
  from assms(2) have sb: "sibs s par None xs (Some x)" "sibs s par (last_or xs None) (x # ys) None"
    by (auto simp: children_def sibs_append)
  then obtain n where n: "s x = Some n" "f_parent n = Some par" "f_prev n = last_or xs None"
    "f_next n = first_or ys None" by auto
  have "f_prev n \<noteq> Some y" using assms(3) n(3) by (auto simp: last_or_def split: if_splits)
  moreover have "f_next n \<noteq> Some y" using assms(3) n(4) by (cases ys) auto
  moreover have "y \<noteq> x" using assms(3) by simp
  ultimately show ?thesis using assms(1) n(1,2)
    by (auto simp: family_remove_def bindR_Inr_iff modify_fam_Inr load_fam_Inr links_def split: if_splits)
qed

text \<open>The adoption when the dead parent is itself a child of the step parent, as in the process tree.\<close>

lemma family_adopt_ok:
  assumes ch: "children s dead ds" "children s step ss" and dist: "distinct (step # ds @ ss)"
    and dead: "dead \<notin> set (step # ds)" and fuel: "length ds \<le> fuel"
  shows "\<exists>s'. family_adopt fuel step dead s = Inr s' \<and> children s' step (rev ds @ ss) \<and> children s' dead []
    \<and> (\<forall>y. y \<notin> set (ds @ ss) \<longrightarrow> links s' y = links s y)"
proof -
  from ch(1) obtain dn where dn: "s dead = Some dn" "f_child dn = first_or ds None"
    and sb: "sibs s dead None ds None" by (auto simp: children_def)
  from adopt_loop_ok [OF sb ch(2) dist fuel] obtain s1 where s1:
    "adopt_loop fuel step (first_or ds None) s = Inr s1" "children s1 step (rev ds @ ss)"
    "\<forall>y. y \<notin> set (ds @ ss) \<longrightarrow> links s1 y = links s y" by blast
  from adopt_loop_keeps [OF s1(1), of dead] dn(1) obtain n where n: "s1 dead = Some n" by auto
  let ?s = "s1(dead \<mapsto> n\<lparr>f_child := None\<rparr>)"
  have l: "links ?s y = links s1 y" for y using n by (simp add: links_def)
  have "family_adopt fuel step dead s = Inr ?s" using dn s1(1) n by (simp add: family_adopt_def)
  moreover have "children ?s step (rev ds @ ss)"
    using dead by (intro children_frame_links [OF s1(2)] l) simp
  moreover have "children ?s dead []" by (simp add: children_def)
  ultimately show ?thesis using s1(3) l by auto
qed

end
