(* ===== verification/Smk_Err.thy ===== *)
theory Smk_Err
  imports Prelude
begin

text \<open>The error codes of \<^verbatim>\<open>smk/err.h\<close> that the modelled routines return.\<close>

definition SMK_OK :: int where "SMK_OK = 0"

definition SMK_ERROR :: int where "SMK_ERROR = -1"

definition SMK_NOMEM :: int where "SMK_NOMEM = -2"

definition SMK_BAD_PARAMS :: int where "SMK_BAD_PARAMS = -8"

definition SMK_NOT_FOUND :: int where "SMK_NOT_FOUND = -14"

definition SMK_REQUESTED_NOTHING :: int where "SMK_REQUESTED_NOTHING = -15"

definition SMK_NOT_ALIGNED :: int where "SMK_NOT_ALIGNED = -16"

lemmas smk_errs = SMK_OK_def SMK_ERROR_def SMK_NOMEM_def SMK_BAD_PARAMS_def SMK_NOT_FOUND_def
  SMK_REQUESTED_NOTHING_def SMK_NOT_ALIGNED_def

end
