(* ===== verification/Env.thy ===== *)
theory Env
  imports Liballoc_Heap Strings Smk_Err
begin

text \<open>
  The environment variables of a process (\<^verbatim>\<open>kernel/env.c\<close>): an array of \<^verbatim>\<open>struct environ_info\<close>,
  each a name of 1024 bytes and a separately allocated value. The array is resized with
  \<^verbatim>\<open>krealloc\<close> for every addition and removal, so it has exactly \<^verbatim>\<open>environment_count\<close> entries.

  \<open>env_map\<close> is the abstract view, a map from names to values. The operations refine the map's
  update, lookup and removal, and they keep every block they own live and release what they drop.
\<close>

section \<open>State\<close>

definition SMK_ENVNAME_LENGTH :: nat where "SMK_ENVNAME_LENGTH = 1024"

record environ_info =
  ei_name :: "cchar list"
  ei_size :: nat
  ei_ptr :: nat
  ei_data :: "nat list"

record penv =
  environment :: "nat option"
  env_entries :: "environ_info list"

definition sizeof_environ_info :: nat where "sizeof_environ_info = 1032"

section \<open>Operations\<close>

text \<open>The search loop: the index of the first entry with the given name.\<close>

fun env_find :: "environ_info list \<Rightarrow> cchar list \<Rightarrow> nat \<Rightarrow> nat option kres" where
  "env_find [] name i = Inr None"
| "env_find (e # es) name i =
     bindR (kstrncmp (ei_name e) name SMK_ENVNAME_LENGTH) (\<lambda>c.
     if c = 0 then Inr (Some i) else env_find es name (Suc i))"

definition overwrite_env ::
  "'h mm_subsystem \<Rightarrow> penv \<Rightarrow> nat \<Rightarrow> nat list \<Rightarrow> nat \<Rightarrow> 'h \<Rightarrow> ((int \<times> penv) \<times> 'h) kres" where
  "overwrite_env sub proc i data sz h =
     bindR (kmalloc sub sz h) (\<lambda>(p, h1).
     case p of
       None \<Rightarrow> Inr ((SMK_NOMEM, proc), h1)
     | Some a \<Rightarrow>
         bindR (aget (env_entries proc) i) (\<lambda>e.
         bindR (kfree sub (Some (ei_ptr e)) h1) (\<lambda>h2.
         bindR (kmemcpy (replicate sz 0) data sz) (\<lambda>d.
         Inr ((SMK_OK, proc\<lparr>env_entries := (env_entries proc)
                 [i := e\<lparr>ei_ptr := a, ei_size := sz, ei_data := d\<rparr>]\<rparr>), h2)))))"

definition append_env ::
  "'h mm_subsystem \<Rightarrow> penv \<Rightarrow> cchar list \<Rightarrow> nat list \<Rightarrow> nat \<Rightarrow> 'h \<Rightarrow> ((int \<times> penv) \<times> 'h) kres" where
  "append_env sub proc name data sz h =
     bindR (kmalloc sub sz h) (\<lambda>(p, h1).
     case p of
       None \<Rightarrow> Inr ((SMK_NOMEM, proc), h1)
     | Some tmp \<Rightarrow>
         bindR (krealloc sub (environment proc)
                  (u32 ((length (env_entries proc) + 1) * sizeof_environ_info)) h1) (\<lambda>(q, h2).
         case q of
           None \<Rightarrow>
             bindR (kfree sub (Some tmp) h2) (\<lambda>h3.
             Inr ((SMK_NOMEM, \<lparr>environment = None, env_entries = []\<rparr>), h3))
         | Some env \<Rightarrow>
             bindR (kmemcpy (replicate sz 0) data sz) (\<lambda>d.
             bindR (kstrncpy (replicate SMK_ENVNAME_LENGTH 0) name SMK_ENVNAME_LENGTH) (\<lambda>nm.
             Inr ((SMK_OK, \<lparr>environment = Some env,
                    env_entries = env_entries proc @
                      [\<lparr>ei_name = nm, ei_size = sz, ei_ptr = tmp, ei_data = d\<rparr>]\<rparr>), h2)))))"

definition set_environment ::
  "'h mm_subsystem \<Rightarrow> penv \<Rightarrow> cchar list option \<Rightarrow> nat list option \<Rightarrow> nat \<Rightarrow> 'h
     \<Rightarrow> ((int \<times> penv) \<times> 'h) kres" where
  "set_environment sub proc name data sz h =
     (case data of
        None \<Rightarrow> Inr ((SMK_BAD_PARAMS, proc), h)
      | Some dat \<Rightarrow>
          (case name of
             None \<Rightarrow> Inr ((SMK_BAD_PARAMS, proc), h)
           | Some nm \<Rightarrow>
               if sz = 0 then Inr ((SMK_REQUESTED_NOTHING, proc), h)
               else
                 bindR (env_find (env_entries proc) nm 0) (\<lambda>r.
                 case r of
                   Some i \<Rightarrow> overwrite_env sub proc i dat sz h
                 | None \<Rightarrow> append_env sub proc nm dat sz h)))"

definition get_environment ::
  "penv \<Rightarrow> cchar list \<Rightarrow> nat list \<Rightarrow> nat \<Rightarrow> (int \<times> nat list \<times> nat) kres" where
  "get_environment proc name buf sz =
     bindR (env_find (env_entries proc) name 0) (\<lambda>r.
     case r of
       None \<Rightarrow> Inr (SMK_NOT_FOUND, buf, sz)
     | Some i \<Rightarrow>
         bindR (aget (env_entries proc) i) (\<lambda>e.
         let new_size = (if ei_size e > sz then sz else ei_size e) in
         bindR (kmemcpy buf (ei_data e) new_size) (\<lambda>buf'. Inr (SMK_OK, buf', new_size))))"

definition get_environment_size :: "penv \<Rightarrow> cchar list \<Rightarrow> nat \<Rightarrow> (int \<times> nat) kres" where
  "get_environment_size proc name sz =
     bindR (env_find (env_entries proc) name 0) (\<lambda>r.
     case r of
       None \<Rightarrow> Inr (SMK_NOT_FOUND, sz)
     | Some i \<Rightarrow> bindR (aget (env_entries proc) i) (\<lambda>e. Inr (0, ei_size e)))"

definition get_environment_information ::
  "penv \<Rightarrow> int \<Rightarrow> cchar list \<Rightarrow> nat \<Rightarrow> (int \<times> cchar list \<times> nat) kres" where
  "get_environment_information proc ident name sz =
     (if ident < 0 then Inr (SMK_NOT_FOUND, name, sz)
      else if ident \<ge> int (length (env_entries proc)) then Inr (SMK_NOT_FOUND, name, sz)
      else
        bindR (aget (env_entries proc) (nat ident)) (\<lambda>e.
        bindR (kstrncpy name (ei_name e) SMK_ENVNAME_LENGTH) (\<lambda>name'.
        Inr (SMK_OK, name', ei_size e))))"

text \<open>The correcting part of the loop of \<^verbatim>\<open>remove_environment\<close>, for \<open>k\<close> entries from \<open>i\<close> on.\<close>

fun shift_env :: "environ_info list \<Rightarrow> nat \<Rightarrow> nat \<Rightarrow> environ_info list kres" where
  "shift_env es i 0 = Inr es"
| "shift_env es i (Suc k) =
     bindR (aget es i) (\<lambda>e.
     bindR (aget es (i - 1)) (\<lambda>d.
     bindR (kmemcpy (ei_name d) (ei_name e) SMK_ENVNAME_LENGTH) (\<lambda>nm.
     bindR (aput es (i - 1) (d\<lparr>ei_ptr := ei_ptr e, ei_data := ei_data e, ei_size := ei_size e,
                              ei_name := nm\<rparr>)) (\<lambda>es'.
     shift_env es' (Suc i) k))))"

definition remove_environment ::
  "'h mm_subsystem \<Rightarrow> penv \<Rightarrow> cchar list \<Rightarrow> 'h \<Rightarrow> ((int \<times> penv) \<times> 'h) kres" where
  "remove_environment sub proc name h =
     bindR (env_find (env_entries proc) name 0) (\<lambda>r.
     case r of
       None \<Rightarrow> Inr ((SMK_NOT_FOUND, proc), h)
     | Some i \<Rightarrow>
         (let n = length (env_entries proc) in
          bindR (aget (env_entries proc) i) (\<lambda>e.
          bindR (kfree sub (Some (ei_ptr e)) h) (\<lambda>h1.
          bindR (shift_env (env_entries proc) (Suc i) (n - Suc i)) (\<lambda>es.
          bindR (krealloc sub (environment proc) (u32 ((n - 1) * sizeof_environ_info)) h1) (\<lambda>(env, h2).
          Inr ((SMK_OK, \<lparr>environment = env, env_entries = take (n - 1) es\<rparr>), h2)))))))"

fun free_values :: "'h mm_subsystem \<Rightarrow> environ_info list \<Rightarrow> 'h \<Rightarrow> 'h kres" where
  "free_values sub [] h = Inr h"
| "free_values sub (e # es) h = bindR (kfree sub (Some (ei_ptr e)) h) (\<lambda>h1. free_values sub es h1)"

definition release_environment ::
  "'h mm_subsystem \<Rightarrow> penv \<Rightarrow> 'h \<Rightarrow> ((int \<times> penv) \<times> 'h) kres" where
  "release_environment sub proc h =
     bindR (if environment proc \<noteq> None
            then bindR (free_values sub (env_entries proc) h) (\<lambda>h1. kfree sub (environment proc) h1)
            else Inr h) (\<lambda>h2.
     Inr ((SMK_OK, \<lparr>environment = None, env_entries = []\<rparr>), h2))"

fun clone_loop ::
  "'h mm_subsystem \<Rightarrow> penv \<Rightarrow> environ_info list \<Rightarrow> 'h \<Rightarrow> ((int \<times> penv) \<times> 'h) kres" where
  "clone_loop sub dest [] h = Inr ((0, dest), h)"
| "clone_loop sub dest (e # es) h =
     bindR (set_environment sub dest (Some (ei_name e)) (Some (ei_data e)) (ei_size e) h)
       (\<lambda>((rc, dest1), h1).
     if rc \<noteq> 0
     then bindR (release_environment sub dest1 h1) (\<lambda>((_, dest2), h2). Inr ((-1, dest2), h2))
     else clone_loop sub dest1 es h1)"

definition clone_environment ::
  "'h mm_subsystem \<Rightarrow> penv \<Rightarrow> penv \<Rightarrow> 'h \<Rightarrow> ((int \<times> penv) \<times> 'h) kres" where
  "clone_environment sub dest src h =
     bindR (release_environment sub dest h) (\<lambda>((rc, dest1), h1).
     if rc \<noteq> 0 then Inr ((-1, dest1), h1)
     else if environment src = None then Inr ((0, dest1), h1)
     else clone_loop sub dest1 (env_entries src) h1)"

section \<open>The abstract view\<close>

definition env_key :: "environ_info \<Rightarrow> cchar list" where
  "env_key e = cstr SMK_ENVNAME_LENGTH (ei_name e)"

definition env_map :: "penv \<Rightarrow> cchar list \<Rightarrow> nat list option" where
  "env_map proc = map_of (map (\<lambda>e. (env_key e, ei_data e)) (env_entries proc))"

definition env_entry_ok :: "environ_info \<Rightarrow> bool" where
  "env_entry_ok e \<longleftrightarrow> length (ei_name e) = SMK_ENVNAME_LENGTH \<and> ei_size e = length (ei_data e)
     \<and> 0 < ei_size e"

definition env_ok :: "penv \<Rightarrow> bool" where
  "env_ok proc \<longleftrightarrow>
     (\<forall>e \<in> set (env_entries proc). env_entry_ok e) \<and> distinct (map env_key (env_entries proc))
     \<and> (environment proc = None \<longleftrightarrow> env_entries proc = [])
     \<and> (length (env_entries proc) + 1) * sizeof_environ_info < MAX_REQUEST"

definition env_live :: "(nat \<Rightarrow> nat option) \<Rightarrow> penv \<Rightarrow> bool" where
  "env_live lv proc \<longleftrightarrow>
     (\<forall>e \<in> set (env_entries proc). lv (ei_ptr e) \<noteq> None) \<and> distinct (map ei_ptr (env_entries proc))
     \<and> (\<forall>a. environment proc = Some a \<longrightarrow>
          lv a = Some (length (env_entries proc) * sizeof_environ_info)
          \<and> a \<notin> ei_ptr ` set (env_entries proc))"

lemma env_find_ok:
  assumes "\<forall>e \<in> set es. env_entry_ok e" and "readable SMK_ENVNAME_LENGTH name"
  shows "\<exists>r. env_find es name i = Inr r \<and>
    (case r of
       None \<Rightarrow> \<forall>e \<in> set es. env_key e \<noteq> cstr SMK_ENVNAME_LENGTH name
     | Some j \<Rightarrow> i \<le> j \<and> j - i < length es \<and> env_key (es ! (j - i)) = cstr SMK_ENVNAME_LENGTH name)"
  using assms
proof (induction es arbitrary: i)
  case Nil
  then show ?case by simp
next
  case (Cons e es)
  have r: "readable SMK_ENVNAME_LENGTH (ei_name e)" using Cons.prems(1) by (simp add: readable_def env_entry_ok_def)
  note c = kstrncmp_ok [OF r Cons.prems(2)]
  show ?case
  proof (cases "env_key e = cstr SMK_ENVNAME_LENGTH name")
    case True
    with c show ?thesis by (auto simp: env_key_def)
  next
    case False
    with c have st: "env_find (e # es) name i = env_find es name (Suc i)"
      by (simp add: env_key_def strcmp_eq_0)
    from Cons.IH [of "Suc i"] Cons.prems obtain r where r: "env_find es name (Suc i) = Inr r"
      "case r of None \<Rightarrow> \<forall>e \<in> set es. env_key e \<noteq> cstr SMK_ENVNAME_LENGTH name
       | Some j \<Rightarrow> Suc i \<le> j \<and> j - Suc i < length es \<and> env_key (es ! (j - Suc i)) = cstr SMK_ENVNAME_LENGTH name"
      by auto
    show ?thesis
    proof (cases r)
      case None
      with r st False show ?thesis by simp
    next
      case (Some j)
      with r have j: "Suc i \<le> j" "j - Suc i < length es" "env_key (es ! (j - Suc i)) = cstr SMK_ENVNAME_LENGTH name"
        by auto
      then have "j - i = Suc (j - Suc i)" by simp
      then have "(e # es) ! (j - i) = es ! (j - Suc i)" "j - i < Suc (length es)" using j by simp_all
      with j Some r(1) st show ?thesis by auto
    qed
  qed
qed

lemma env_find_map:
  assumes ok: "env_ok proc" and "readable SMK_ENVNAME_LENGTH name"
  shows "\<exists>r. env_find (env_entries proc) name 0 = Inr r \<and>
    (case r of
       None \<Rightarrow> env_map proc (cstr SMK_ENVNAME_LENGTH name) = None
         \<and> cstr SMK_ENVNAME_LENGTH name \<notin> env_key ` set (env_entries proc)
     | Some j \<Rightarrow> j < length (env_entries proc) \<and> env_key (env_entries proc ! j) = cstr SMK_ENVNAME_LENGTH name
         \<and> env_map proc (cstr SMK_ENVNAME_LENGTH name) = Some (ei_data (env_entries proc ! j)))"
proof -
  have e: "\<forall>e \<in> set (env_entries proc). env_entry_ok e" and d: "distinct (map env_key (env_entries proc))"
    using ok by (auto simp: env_ok_def)
  from env_find_ok [OF e assms(2), of 0] obtain r where r: "env_find (env_entries proc) name 0 = Inr r"
    "case r of None \<Rightarrow> \<forall>e \<in> set (env_entries proc). env_key e \<noteq> cstr SMK_ENVNAME_LENGTH name
     | Some j \<Rightarrow> 0 \<le> j \<and> j - 0 < length (env_entries proc)
         \<and> env_key (env_entries proc ! (j - 0)) = cstr SMK_ENVNAME_LENGTH name" by blast
  have m: "env_map proc (env_key (env_entries proc ! j)) = Some (ei_data (env_entries proc ! j))"
    if "j < length (env_entries proc)" for j
    unfolding env_map_def
    by (rule map_of_is_SomeI) (use d that in \<open>auto simp: comp_def\<close>)
  show ?thesis
  proof (cases r)
    case None
    with r show ?thesis by (auto simp: env_map_def map_of_eq_None_iff)
  next
    case (Some j)
    with r have j: "j < length (env_entries proc)"
      "env_key (env_entries proc ! j) = cstr SMK_ENVNAME_LENGTH name" by auto
    with m [OF j(1)] r(1) Some show ?thesis by simp
  qed
qed

section \<open>Setting a variable\<close>

lemma map_of_update:
  assumes "distinct (map f es)" and "i < length es" and "f e' = f (es ! i)"
  shows "map_of (map (\<lambda>e. (f e, g e)) (es[i := e'])) = (map_of (map (\<lambda>e. (f e, g e)) es))(f e' \<mapsto> g e')"
proof -
  have es: "es = take i es @ es ! i # drop (Suc i) es" using assms(2) by (rule id_take_nth_drop)
  then have "distinct (map f (take i es @ es ! i # drop (Suc i) es))" using assms(1) by simp
  then have n: "f e' \<notin> f ` set (take i es)" using assms(3) by auto
  then have "map_of (map (\<lambda>e. (f e, g e)) (take i es)) (f e') = None" by (auto simp: map_of_eq_None_iff)
  moreover have "map_of (map (\<lambda>e. (f e, g e)) es)
      = map_of (map (\<lambda>e. (f e, g e)) (take i es @ es ! i # drop (Suc i) es))" using es by simp
  ultimately show ?thesis
    using assms(2,3) by (auto simp: upd_conv_take_nth_drop map_add_def fun_eq_iff split: option.splits)
qed

lemma kmemcpy_value: "n \<le> length data \<Longrightarrow> kmemcpy (replicate n 0) data n = Inr (take n data)"
  by (simp add: kmemcpy_ok)

lemma environ_info_copy:
  "(d :: environ_info)\<lparr>ei_ptr := ei_ptr e, ei_data := ei_data e, ei_size := ei_size e, ei_name := ei_name e\<rparr> = e"
  by (rule environ_info.equality) simp_all

lemma shift_env_ok:
  assumes "\<forall>e \<in> set es. env_entry_ok e" and "0 < i" and "i + k = length es"
  shows "\<exists>es'. shift_env es i k = Inr es' \<and> take (length es - 1) es' = take (i - 1) es @ drop i es"
  using assms
proof (induction k arbitrary: es i)
  case 0
  then show ?case by simp
next
  case (Suc k)
  let ?e = "es ! i" and ?d = "es ! (i - 1)"
  have i: "i < length es" "i - 1 < length es" using Suc.prems by simp_all
  then have "env_entry_ok ?e" "env_entry_ok ?d" using Suc.prems(1) by (meson nth_mem)+
  then have "kmemcpy (ei_name ?d) (ei_name ?e) SMK_ENVNAME_LENGTH = Inr (ei_name ?e)"
    by (simp add: kmemcpy_ok env_entry_ok_def)
  then have st: "shift_env es i (Suc k) = shift_env (es[i - 1 := ?e]) (Suc i) k"
    using i by (simp add: environ_info_copy)
  have "\<forall>e \<in> set (es[i - 1 := ?e]). env_entry_ok e"
    using Suc.prems(1) set_update_subset_insert [of es "i - 1" ?e] \<open>env_entry_ok ?e\<close> by auto
  from Suc.IH [OF this, of "Suc i"] Suc.prems obtain es' where
    es': "shift_env (es[i - 1 := ?e]) (Suc i) k = Inr es'"
      "take (length es - 1) es' = take i (es[i - 1 := ?e]) @ drop (Suc i) (es[i - 1 := ?e])" by auto
  obtain j where j: "i = Suc j" using Suc.prems(2) gr0_conv_Suc by blast
  have "take i (es[i - 1 := ?e]) = take (i - 1) es @ [?e]"
    using i j by (simp add: take_Suc_conv_app_nth)
  moreover have "drop (Suc i) (es[i - 1 := ?e]) = drop (Suc i) es" using j by simp
  ultimately show ?case using st es' i by (simp add: Cons_nth_drop_Suc)
qed

lemma map_of_remove:
  assumes "distinct (map f es)" and "i < length es"
  shows "map_of (map (\<lambda>e. (f e, g e)) (take i es @ drop (Suc i) es))
    = (map_of (map (\<lambda>e. (f e, g e)) es))(f (es ! i) := None)"
proof -
  have es: "es = take i es @ es ! i # drop (Suc i) es" using assms(2) by (rule id_take_nth_drop)
  then have "distinct (map f (take i es @ es ! i # drop (Suc i) es))" using assms(1) by simp
  then have "f (es ! i) \<notin> f ` set (take i es)" "f (es ! i) \<notin> f ` set (drop (Suc i) es)" by auto
  then have "map_of (map (\<lambda>e. (f e, g e)) (take i es)) (f (es ! i)) = None"
    "map_of (map (\<lambda>e. (f e, g e)) (drop (Suc i) es)) (f (es ! i)) = None"
    by (auto simp: map_of_eq_None_iff)
  moreover have "map_of (map (\<lambda>e. (f e, g e)) es)
      = map_of (map (\<lambda>e. (f e, g e)) (take i es @ es ! i # drop (Suc i) es))" using es by simp
  ultimately show ?thesis by (auto simp: map_add_def fun_eq_iff split: option.splits)
qed

lemma set_take_drop: "set (take i es @ drop (Suc i) es) \<subseteq> set es"
  by (auto dest: in_set_takeD in_set_dropD)

lemma distinct_take_drop:
  assumes "distinct (map f es)" and "i < length es"
  shows "distinct (map f (take i es @ drop (Suc i) es))"
    and "f (es ! i) \<notin> f ` set (take i es @ drop (Suc i) es)"
proof -
  have "es = take i es @ es ! i # drop (Suc i) es" using assms(2) by (rule id_take_nth_drop)
  then have d: "distinct (map f (take i es @ es ! i # drop (Suc i) es))" using assms(1) by simp
  from d show "distinct (map f (take i es @ drop (Suc i) es))"
    by (simp only: map_append list.map distinct_append distinct.simps) auto
  from d show "f (es ! i) \<notin> f ` set (take i es @ drop (Suc i) es)" by auto
qed

context kernel_heap
begin

text \<open>What a successful or failed \<^verbatim>\<open>set_environment\<close> leaves.\<close>

definition set_post :: "penv \<Rightarrow> cchar list \<Rightarrow> nat list \<Rightarrow> int \<Rightarrow> penv \<Rightarrow> 'h \<Rightarrow> bool" where
  "set_post proc nm val rc proc' h' \<longleftrightarrow>
     heap_ok h' \<and> env_live (live h') proc' \<and> env_ok proc'
     \<and> (rc = SMK_OK \<and> env_map proc' = (env_map proc)(nm \<mapsto> val)
          \<and> length (env_entries proc') \<le> length (env_entries proc) + 1
        \<or> rc = SMK_NOMEM \<and> env_map proc' = env_map proc)"

lemma overwrite_env_ok:
  assumes ok: "env_ok proc" and h: "heap_ok h" and lv: "env_live (live h) proc"
    and i: "i < length (env_entries proc)" and key: "env_key (env_entries proc ! i) = nm"
    and sz: "0 < sz" "sz < MAX_REQUEST" "sz \<le> length data"
  shows "\<exists>rc proc' h'. overwrite_env subsystem proc i data sz h = Inr ((rc, proc'), h')
    \<and> set_post proc nm (take sz data) rc proc' h'"
proof (cases rule: malloc_cases [OF h sz(2)])
  case (1 h')
  with ok lv show ?thesis by (simp add: overwrite_env_def set_post_def)
next
  case (2 a h1)
  let ?es = "env_entries proc"
  let ?e = "?es ! i"
  let ?e' = "?e\<lparr>ei_ptr := a, ei_size := sz, ei_data := take sz data\<rparr>"
  let ?p = "proc\<lparr>env_entries := ?es[i := ?e']\<rparr>"
  have mem: "?e \<in> set ?es" using i by simp
  have na: "a \<notin> ei_ptr ` set ?es" "environment proc \<noteq> Some a"
    using lv 2(5) by (auto simp: env_live_def)
  have "live h1 (ei_ptr ?e) \<noteq> None" using lv mem 2(6) by (auto simp: env_live_def)
  then obtain k where "live h1 (ei_ptr ?e) = Some k" by blast
  from free_live [OF 2(2) this] obtain h2 where h2: "kfree subsystem (Some (ei_ptr ?e)) h1 = Inr h2"
    "heap_ok h2" "live h2 = (live h1)(ei_ptr ?e := None)" by blast
  have run: "overwrite_env subsystem proc i data sz h = Inr ((SMK_OK, ?p), h2)"
    using 2(1) i h2(1) sz(3) by (simp add: overwrite_env_def kmemcpy_value)
  have dk: "distinct (map env_key ?es)" and eo: "\<forall>e \<in> set ?es. env_entry_ok e" using ok by (auto simp: env_ok_def)
  have ke: "env_key ?e' = env_key ?e" by (simp add: env_key_def)
  have keys: "map env_key (?es[i := ?e']) = map env_key ?es" using i ke by (simp add: map_update list_update_same_conv)
  have "env_entry_ok ?e'" using eo mem sz by (simp add: env_entry_ok_def)
  then have ok': "env_ok ?p"
    using ok keys set_update_subset_insert [of ?es i ?e'] unfolding env_ok_def by auto
  have mp: "env_map ?p = (env_map proc)(nm \<mapsto> take sz data)"
    using map_of_update [OF dk i ke, of ei_data] ke key by (simp add: env_map_def)
  have dp: "distinct (map ei_ptr ?es)" using lv by (simp add: env_live_def)
  have ptrs: "map ei_ptr (?es[i := ?e']) = (map ei_ptr ?es)[i := a]" by (simp add: map_update)
  have "live h2 b \<noteq> None" if b: "b \<in> set ((map ei_ptr ?es)[i := a])" for b
  proof -
    from b i obtain j where j: "j < length ?es" "b = (if j = i then a else ei_ptr (?es ! j))"
      by (auto simp: in_set_conv_nth nth_list_update)
    have "ei_ptr (?es ! j) \<noteq> ei_ptr ?e" if "j \<noteq> i"
      using that dp i j(1) nth_eq_iff_index_eq [OF dp, of j i] by simp
    moreover have "a \<noteq> ei_ptr ?e" using na mem by auto
    ultimately show ?thesis using j lv h2(3) 2(6) nth_mem [OF j(1)] by (auto simp: env_live_def)
  qed
  then have l1: "\<forall>e \<in> set (?es[i := ?e']). live h2 (ei_ptr e) \<noteq> None"
    by (metis (no_types, lifting) image_eqI list.set_map ptrs)
  have l2: "distinct (map ei_ptr (?es[i := ?e']))" unfolding ptrs using dp na i by (simp add: distinct_list_update)
  have l3: "live h2 b = Some (length ?es * sizeof_environ_info) \<and> b \<notin> ei_ptr ` set (?es[i := ?e'])"
    if "environment proc = Some b" for b
  proof -
    have "b \<notin> ei_ptr ` set ?es" "b \<noteq> a" "live h b = Some (length ?es * sizeof_environ_info)"
      using lv na that by (auto simp: env_live_def)
    moreover have "set (map ei_ptr (?es[i := ?e'])) \<subseteq> insert a (ei_ptr ` set ?es)"
      unfolding ptrs by (metis list.set_map set_update_subset_insert)
    ultimately show ?thesis using mem h2(3) 2(6) by auto
  qed
  have "env_live (live h2) ?p" using l1 l2 l3 by (simp add: env_live_def)
  with run h2(2) ok' mp show ?thesis unfolding set_post_def by auto
qed

lemma append_env_done:
  assumes ok: "env_ok proc" and h2: "heap_ok h2" and lv: "env_live (live h) proc"
    and name: "readable SMK_ENVNAME_LENGTH name"
    and new: "cstr SMK_ENVNAME_LENGTH name \<notin> env_key ` set (env_entries proc)"
    and sz: "0 < sz" "sz \<le> length data"
    and bound: "(length (env_entries proc) + 2) * sizeof_environ_info < MAX_REQUEST"
    and tmp: "live h tmp = None" and q: "live h q = None \<and> q \<noteq> tmp \<or> environment proc = Some q"
    and l2: "\<And>b. environment proc \<noteq> Some b \<Longrightarrow> live h2 b = ((live h)(tmp \<mapsto> sz, q \<mapsto> m)) b"
    and lq: "live h2 q = Some m" and m: "m = (length (env_entries proc) + 1) * sizeof_environ_info"
  shows "\<exists>nm. kstrncpy (replicate SMK_ENVNAME_LENGTH 0) name SMK_ENVNAME_LENGTH = Inr nm \<and>
    set_post proc (cstr SMK_ENVNAME_LENGTH name) (take sz data) SMK_OK
      \<lparr>environment = Some q, env_entries = env_entries proc @
         [\<lparr>ei_name = nm, ei_size = sz, ei_ptr = tmp, ei_data = take sz data\<rparr>]\<rparr> h2"
proof -
  let ?N = SMK_ENVNAME_LENGTH
  let ?es = "env_entries proc"
  have "0 \<in> set name \<or> ?N \<le> length name" using name by (simp add: readable_def)
  from kstrncpy_stores [of ?N "replicate ?N 0" name, OF _ this] obtain nm where
    nm: "kstrncpy (replicate ?N 0) name ?N = Inr nm" "length nm = ?N" "cstr ?N nm = cstr ?N name" by auto
  let ?e = "\<lparr>ei_name = nm, ei_size = sz, ei_ptr = tmp, ei_data = take sz data\<rparr>"
  let ?p = "\<lparr>environment = Some q, env_entries = ?es @ [?e]\<rparr>"
  have ke: "env_key ?e = cstr ?N name" using nm(3) by (simp add: env_key_def)
  have ok': "env_ok ?p" using ok new ke nm(2) sz bound by (auto simp: env_ok_def env_entry_ok_def)
  have "map_of (map (\<lambda>e. (env_key e, ei_data e)) ?es) (cstr ?N name) = None"
    using new by (auto simp: map_of_eq_None_iff)
  then have mp: "env_map ?p = (env_map proc)(cstr ?N name \<mapsto> take sz data)"
    using ke by (auto simp: env_map_def map_add_def fun_eq_iff split: option.splits)
  have env: "\<And>b. environment proc = Some b \<Longrightarrow> live h b \<noteq> None \<and> b \<notin> ei_ptr ` set ?es"
    and old: "\<And>e. e \<in> set ?es \<Longrightarrow> live h (ei_ptr e) \<noteq> None" and dp: "distinct (map ei_ptr ?es)"
    using lv by (auto simp: env_live_def)
  have tn: "tmp \<notin> ei_ptr ` set ?es"
  proof
    assume "tmp \<in> ei_ptr ` set ?es"
    then obtain e where "e \<in> set ?es" "tmp = ei_ptr e" by blast
    with old [of e] tmp show False by simp
  qed
  have te: "environment proc \<noteq> Some tmp" using env [of tmp] tmp by blast
  have qn: "q \<notin> ei_ptr ` set ?es"
  proof
    assume "q \<in> ei_ptr ` set ?es"
    then obtain e where "e \<in> set ?es" "q = ei_ptr e" by blast
    with old [of e] env [of q] q show False by auto
  qed
  have qt: "q \<noteq> tmp" using q te by blast
  have "live h2 (ei_ptr e) \<noteq> None" if e: "e \<in> set ?es" for e
  proof -
    have "environment proc \<noteq> Some (ei_ptr e)" using e env by auto
    then show ?thesis using l2 old [OF e] by simp
  qed
  moreover have "live h2 tmp \<noteq> None" using l2 [OF te] by simp
  ultimately have "env_live (live h2) ?p"
    using dp tn qn qt lq m by (simp add: env_live_def)
  with nm(1) ok' mp h2 show ?thesis unfolding set_post_def by auto
qed

lemma append_env_ok:
  assumes ok: "env_ok proc" and h: "heap_ok h" and lv: "env_live (live h) proc"
    and name: "readable SMK_ENVNAME_LENGTH name"
    and new: "cstr SMK_ENVNAME_LENGTH name \<notin> env_key ` set (env_entries proc)"
    and sz: "0 < sz" "sz < MAX_REQUEST" "sz \<le> length data"
    and bound: "(length (env_entries proc) + 2) * sizeof_environ_info < MAX_REQUEST"
  shows "append_env subsystem proc name data sz h = Inl Null_deref \<or>
    (\<exists>rc proc' h'. append_env subsystem proc name data sz h = Inr ((rc, proc'), h')
      \<and> set_post proc (cstr SMK_ENVNAME_LENGTH name) (take sz data) rc proc' h')"
proof (cases rule: malloc_cases [OF h sz(2)])
  case (1 h')
  with ok lv show ?thesis by (simp add: append_env_def set_post_def)
next
  case (2 tmp h1)
  let ?m = "(length (env_entries proc) + 1) * sizeof_environ_info"
  have m: "u32 ?m = ?m" "0 < ?m" "?m < MAX_REQUEST"
    using bound by (simp_all add: MAX_REQUEST_def sizeof_environ_info_def)
  have tn: "environment proc \<noteq> Some tmp" using lv 2(5) by (auto simp: env_live_def)
  show ?thesis
  proof (cases "environment proc")
    case None
    then have es: "env_entries proc = []" using ok by (simp add: env_ok_def)
    have re: "krealloc subsystem (environment proc) ?m h1 = kmalloc subsystem ?m h1"
      using realloc_null [OF m(2)] None by simp
    show ?thesis
    proof (cases rule: malloc_cases [OF 2(2) m(3)])
      case none: (1 h2)
      have "live h2 tmp = Some sz" using none 2(6) by simp
      from free_live [OF none(2) this] obtain h3 where "kfree subsystem (Some tmp) h2 = Inr h3" "heap_ok h3" by blast
      moreover have "env_map proc = env_map \<lparr>environment = None, env_entries = []\<rparr>" using es by (simp add: env_map_def)
      ultimately show ?thesis
        using 2(1) none(1) re m(1)
        by (simp add: append_env_def set_post_def env_live_def env_ok_def MAX_REQUEST_def sizeof_environ_info_def)
    next
      case some: (2 q h2)
      have "live h q = None \<and> q \<noteq> tmp" using some(5) 2(6) by (auto split: if_splits)
      then have "live h q = None \<and> q \<noteq> tmp \<or> environment proc = Some q" ..
      moreover have "live h2 b = ((live h)(tmp \<mapsto> sz, q \<mapsto> ?m)) b" for b using 2(6) some(6) by simp
      moreover have "live h2 q = Some ?m" using some(6) by simp
      ultimately obtain nm where nm: "kstrncpy (replicate SMK_ENVNAME_LENGTH 0) name SMK_ENVNAME_LENGTH = Inr nm"
        "set_post proc (cstr SMK_ENVNAME_LENGTH name) (take sz data) SMK_OK
          \<lparr>environment = Some q, env_entries = env_entries proc @
             [\<lparr>ei_name = nm, ei_size = sz, ei_ptr = tmp, ei_data = take sz data\<rparr>]\<rparr> h2"
        using append_env_done [OF ok some(2) lv name new sz(1,3) bound 2(5) _ _ _ refl] by blast
      have "krealloc subsystem None ?m h1 = Inr (Some q, h2)" using re some(1) None by simp
      then show ?thesis using nm 2(1) None m(1) sz(3) by (simp add: append_env_def kmemcpy_value)
    qed
  next
    case (Some e0)
    have ne: "env_entries proc \<noteq> []" using ok Some by (simp add: env_ok_def)
    have "live h e0 = Some (length (env_entries proc) * sizeof_environ_info)"
      using lv Some by (simp add: env_live_def)
    then have l1: "live h1 e0 = Some (length (env_entries proc) * sizeof_environ_info)"
      using 2(6) tn Some by auto
    have "0 < length (env_entries proc) * sizeof_environ_info" using ne by (simp add: sizeof_environ_info_def)
    from realloc_live [OF 2(2) l1 this m(2,3)]
    consider (null) "krealloc subsystem (Some e0) ?m h1 = Inl Null_deref"
      | (moved) q h2 where "krealloc subsystem (Some e0) ?m h1 = Inr (Some q, h2)" "heap_ok h2"
        "live h2 = ((live h1)(e0 := None))(q \<mapsto> ?m)" "q = e0 \<or> live h1 q = None" by blast
    then show ?thesis
    proof cases
      case null
      then show ?thesis using 2(1) Some m(1) by (simp add: append_env_def)
    next
      case r: (moved q h2)
      then have q: "live h q = None \<and> q \<noteq> tmp \<or> environment proc = Some q"
        using 2(6) Some by (auto split: if_splits)
      moreover have "live h2 b = ((live h)(tmp \<mapsto> sz, q \<mapsto> ?m)) b" if "environment proc \<noteq> Some b" for b
        using that 2(6) r(3) Some by simp
      moreover have "live h2 q = Some ?m" using r(3) by simp
      ultimately obtain nm where nm: "kstrncpy (replicate SMK_ENVNAME_LENGTH 0) name SMK_ENVNAME_LENGTH = Inr nm"
        "set_post proc (cstr SMK_ENVNAME_LENGTH name) (take sz data) SMK_OK
          \<lparr>environment = Some q, env_entries = env_entries proc @
             [\<lparr>ei_name = nm, ei_size = sz, ei_ptr = tmp, ei_data = take sz data\<rparr>]\<rparr> h2"
        using append_env_done [OF ok r(2) lv name new sz(1,3) bound 2(5) q _ _ refl] by blast
      then show ?thesis using 2(1) r(1) Some m(1) sz(3) by (simp add: append_env_def kmemcpy_value)
    qed
  qed
qed

lemma set_environment_ok:
  assumes ok: "env_ok proc" and h: "heap_ok h" and lv: "env_live (live h) proc"
    and name: "readable SMK_ENVNAME_LENGTH name"
    and sz: "0 < sz" "sz < MAX_REQUEST" "sz \<le> length data"
    and bound: "(length (env_entries proc) + 2) * sizeof_environ_info < MAX_REQUEST"
  shows "set_environment subsystem proc (Some name) (Some data) sz h = Inl Null_deref \<or>
    (\<exists>rc proc' h'. set_environment subsystem proc (Some name) (Some data) sz h = Inr ((rc, proc'), h')
      \<and> set_post proc (cstr SMK_ENVNAME_LENGTH name) (take sz data) rc proc' h')"
proof -
  from env_find_map [OF ok name] obtain r where r: "env_find (env_entries proc) name 0 = Inr r"
    "case r of
       None \<Rightarrow> env_map proc (cstr SMK_ENVNAME_LENGTH name) = None
         \<and> cstr SMK_ENVNAME_LENGTH name \<notin> env_key ` set (env_entries proc)
     | Some j \<Rightarrow> j < length (env_entries proc) \<and> env_key (env_entries proc ! j) = cstr SMK_ENVNAME_LENGTH name
         \<and> env_map proc (cstr SMK_ENVNAME_LENGTH name) = Some (ei_data (env_entries proc ! j))" by blast
  show ?thesis
  proof (cases r)
    case None
    then show ?thesis
      using append_env_ok [OF ok h lv name _ sz bound] r sz(1) by (simp add: set_environment_def)
  next
    case (Some j)
    then show ?thesis
      using overwrite_env_ok [OF ok h lv _ _ sz, of j "cstr SMK_ENVNAME_LENGTH name"] r sz(1)
      by (simp add: set_environment_def)
  qed
qed

text \<open>What a successful \<^verbatim>\<open>remove_environment\<close> leaves.\<close>

definition remove_post :: "penv \<Rightarrow> cchar list \<Rightarrow> penv \<Rightarrow> 'h \<Rightarrow> bool" where
  "remove_post proc nm proc' h' \<longleftrightarrow>
     heap_ok h' \<and> env_live (live h') proc' \<and> env_ok proc'
     \<and> env_map proc' = (env_map proc)(nm := None)
     \<and> length (env_entries proc') + 1 = length (env_entries proc)"

lemma remove_environment_ok:
  assumes ok: "env_ok proc" and h: "heap_ok h" and lv: "env_live (live h) proc"
    and name: "readable SMK_ENVNAME_LENGTH name"
  defines "nm \<equiv> cstr SMK_ENVNAME_LENGTH name"
  shows "if env_map proc nm = None
    then remove_environment subsystem proc name h = Inr ((SMK_NOT_FOUND, proc), h)
    else remove_environment subsystem proc name h = Inl Null_deref \<or>
      (\<exists>proc' h'. remove_environment subsystem proc name h = Inr ((SMK_OK, proc'), h')
        \<and> remove_post proc nm proc' h')"
proof -
  let ?es = "env_entries proc"
  from env_find_map [OF ok name] obtain r where r: "env_find ?es name 0 = Inr r"
    "case r of None \<Rightarrow> env_map proc nm = None \<and> nm \<notin> env_key ` set ?es
     | Some j \<Rightarrow> j < length ?es \<and> env_key (?es ! j) = nm \<and> env_map proc nm = Some (ei_data (?es ! j))"
    unfolding nm_def by blast
  show ?thesis
  proof (cases r)
    case None
    with r show ?thesis by (simp add: remove_environment_def)
  next
    case (Some i)
    with r have i: "i < length ?es" and key: "env_key (?es ! i) = nm" and mapped: "env_map proc nm \<noteq> None" by auto
    let ?n = "length ?es"
    let ?rest = "take i ?es @ drop (Suc i) ?es"
    have eo: "\<forall>e \<in> set ?es. env_entry_ok e" and dk: "distinct (map env_key ?es)"
      and bd: "(?n + 1) * sizeof_environ_info < MAX_REQUEST" using ok by (auto simp: env_ok_def)
    have "Suc i + (?n - Suc i) = ?n" using i by simp
    from shift_env_ok [OF eo _ this] obtain es' where
      es': "shift_env ?es (Suc i) (?n - Suc i) = Inr es'" "take (?n - 1) es' = ?rest" by auto
    have dp: "distinct (map ei_ptr ?es)" using lv by (simp add: env_live_def)
    have mem: "?es ! i \<in> set ?es" using i by simp
    then have "live h (ei_ptr (?es ! i)) \<noteq> None" using lv by (simp add: env_live_def)
    then obtain k where "live h (ei_ptr (?es ! i)) = Some k" by blast
    from free_live [OF h this] obtain h1 where h1: "kfree subsystem (Some (ei_ptr (?es ! i))) h = Inr h1"
      "heap_ok h1" "live h1 = (live h)(ei_ptr (?es ! i) := None)" by blast
    obtain e0 where e0: "environment proc = Some e0" using ok i by (auto simp: env_ok_def)
    have le0: "live h1 e0 = Some (?n * sizeof_environ_info)" "e0 \<notin> ei_ptr ` set ?es"
      using lv e0 h1(3) mem by (auto simp: env_live_def)
    let ?m = "(?n - 1) * sizeof_environ_info"
    have m: "u32 ?m = ?m" "?m < MAX_REQUEST" using bd by (simp_all add: MAX_REQUEST_def sizeof_environ_info_def)
    have run: "remove_environment subsystem proc name h =
        bindR (krealloc subsystem (Some e0) ?m h1) (\<lambda>(env, h2).
          Inr ((SMK_OK, \<lparr>environment = env, env_entries = ?rest\<rparr>), h2))"
      using r(1) Some i h1(1) es' e0 m(1) by (simp add: remove_environment_def Let_def)
    have post: "remove_post proc nm \<lparr>environment = env, env_entries = ?rest\<rparr> h2"
      if h2: "heap_ok h2" and env: "env = None \<longleftrightarrow> ?rest = []"
        and l2: "\<And>b. b \<noteq> e0 \<Longrightarrow> live h1 b \<noteq> None \<Longrightarrow> live h2 b \<noteq> None"
        and q: "\<And>q. env = Some q \<Longrightarrow> live h2 q = Some ?m \<and> (q = e0 \<or> live h1 q = None)" for env h2
    proof -
      have k: "env_map \<lparr>environment = env, env_entries = ?rest\<rparr> = (env_map proc)(nm := None)"
        using map_of_remove [OF dk i, of ei_data] key by (simp add: env_map_def)
      have len: "length ?rest = ?n - 1" using i by simp
      have sub: "set ?rest \<subseteq> set ?es" by (rule set_take_drop)
      have ok': "env_ok \<lparr>environment = env, env_entries = ?rest\<rparr>"
        using eo sub distinct_take_drop(1) [OF dk i] env bd len
        unfolding env_ok_def by (auto simp: algebra_simps sizeof_environ_info_def)
      have rl: "live h1 (ei_ptr e) \<noteq> None \<and> ei_ptr e \<noteq> e0" if "e \<in> set ?rest" for e
      proof -
        have "ei_ptr e \<noteq> ei_ptr (?es ! i)" using distinct_take_drop(2) [OF dp i] that by (metis image_eqI)
        moreover have "e \<in> set ?es" using sub that by blast
        moreover have "live h (ei_ptr e) \<noteq> None" using lv \<open>e \<in> set ?es\<close> by (simp add: env_live_def)
        ultimately show ?thesis using le0(2) h1(3) by auto
      qed
      have "env_live (live h2) \<lparr>environment = env, env_entries = ?rest\<rparr>"
        unfolding env_live_def penv.simps
      proof (intro conjI ballI allI impI)
        show "live h2 (ei_ptr e) \<noteq> None" if "e \<in> set ?rest" for e using rl [OF that] l2 by blast
        show "distinct (map ei_ptr ?rest)" by (rule distinct_take_drop(1) [OF dp i])
        show "live h2 a = Some (length ?rest * sizeof_environ_info)" if "env = Some a" for a
          using q [OF that] len by simp
        show "a \<notin> ei_ptr ` set ?rest" if "env = Some a" for a using q [OF that] rl by force
      qed
      with h2 ok' k len i show ?thesis unfolding remove_post_def by auto
    qed
    show ?thesis
    proof (cases "?n = 1")
      case True
      from free_live [OF h1(2) le0(1)] obtain h2 where h2: "kfree subsystem (Some e0) h1 = Inr h2" "heap_ok h2"
        "live h2 = (live h1)(e0 := None)" by blast
      have "krealloc subsystem (Some e0) ?m h1 = Inr (None, h2)" using True h2(1) by (simp add: realloc_zero)
      with run have "remove_environment subsystem proc name h
          = Inr ((SMK_OK, \<lparr>environment = None, env_entries = ?rest\<rparr>), h2)" by simp
      moreover have "remove_post proc nm \<lparr>environment = None, env_entries = ?rest\<rparr> h2"
        by (rule post) (use h2 True i in auto)
      ultimately show ?thesis using mapped by auto
    next
      case False
      then have p: "0 < ?m" "0 < ?n * sizeof_environ_info" "?rest \<noteq> []" using i
        by (auto simp: sizeof_environ_info_def)
      from realloc_live [OF h1(2) le0(1) p(2,1) m(2)]
      consider (null) "krealloc subsystem (Some e0) ?m h1 = Inl Null_deref"
        | (moved) q h2 where "krealloc subsystem (Some e0) ?m h1 = Inr (Some q, h2)" "heap_ok h2"
          "live h2 = ((live h1)(e0 := None))(q \<mapsto> ?m)" "q = e0 \<or> live h1 q = None" by blast
      then show ?thesis
      proof cases
        case null
        with run mapped show ?thesis by simp
      next
        case (moved q h2)
        have "remove_post proc nm \<lparr>environment = Some q, env_entries = ?rest\<rparr> h2"
          by (rule post) (use moved p(3) in auto)
        with run moved(1) mapped show ?thesis by (auto simp: if_not_P)
      qed
    qed
  qed
qed

lemma free_values_ok:
  assumes "heap_ok h" and "\<forall>e \<in> set es. live h (ei_ptr e) \<noteq> None" and "distinct (map ei_ptr es)"
  shows "\<exists>h'. free_values subsystem es h = Inr h' \<and> heap_ok h'
    \<and> live h' = (\<lambda>b. if b \<in> ei_ptr ` set es then None else live h b)"
  using assms
proof (induction es arbitrary: h)
  case Nil
  then show ?case by simp
next
  case (Cons e es)
  then obtain k where "live h (ei_ptr e) = Some k" by auto
  from free_live [OF Cons.prems(1) this] obtain h1 where h1: "kfree subsystem (Some (ei_ptr e)) h = Inr h1"
    "heap_ok h1" "live h1 = (live h)(ei_ptr e := None)" by blast
  have "ei_ptr x \<noteq> ei_ptr e" if "x \<in> set es" for x using Cons.prems(3) that by (force simp: image_iff)
  then have "\<forall>x \<in> set es. live h1 (ei_ptr x) \<noteq> None" using Cons.prems(2) h1(3) by auto
  from Cons.IH [OF h1(2) this] Cons.prems(3) obtain h' where "free_values subsystem es h1 = Inr h'" "heap_ok h'"
    "live h' = (\<lambda>b. if b \<in> ei_ptr ` set es then None else live h1 b)" by auto
  then show ?case using h1(1,3) by (auto simp: fun_eq_iff)
qed

lemma release_environment_ok:
  assumes ok: "env_ok proc" and h: "heap_ok h" and lv: "env_live (live h) proc"
  shows "\<exists>h'. release_environment subsystem proc h = Inr ((SMK_OK, \<lparr>environment = None, env_entries = []\<rparr>), h')
    \<and> heap_ok h' \<and> live h' = (\<lambda>b. if b \<in> ei_ptr ` set (env_entries proc) \<or> environment proc = Some b
                               then None else live h b)"
proof (cases "environment proc")
  case None
  then have "env_entries proc = []" using ok by (simp add: env_ok_def)
  with None h show ?thesis by (simp add: release_environment_def)
next
  case (Some a)
  from free_values_ok [OF h, of "env_entries proc"] lv obtain h1 where
    h1: "free_values subsystem (env_entries proc) h = Inr h1" "heap_ok h1"
      "live h1 = (\<lambda>b. if b \<in> ei_ptr ` set (env_entries proc) then None else live h b)"
    by (auto simp: env_live_def)
  have "live h1 a = Some (length (env_entries proc) * sizeof_environ_info)"
    using lv Some h1(3) by (simp add: env_live_def)
  from free_live [OF h1(2) this] obtain h2 where "kfree subsystem (Some a) h1 = Inr h2" "heap_ok h2"
    "live h2 = (live h1)(a := None)" by blast
  with Some h1 show ?thesis by (auto simp: release_environment_def fun_eq_iff)
qed

end

section \<open>The environment on the kernel's heap\<close>

definition empty_penv :: penv where "empty_penv = \<lparr>environment = None, env_entries = []\<rparr>"

lemma empty_penv_ok [simp]: "env_ok empty_penv" "env_live lv empty_penv" "env_map empty_penv = Map.empty"
  "env_entries empty_penv = []"
  by (auto simp: empty_penv_def env_ok_def env_live_def env_map_def sizeof_environ_info_def MAX_REQUEST_def)

lemma get_environment_ok:
  assumes ok: "env_ok proc" and name: "readable SMK_ENVNAME_LENGTH name" and buf: "sz \<le> length buf"
  defines "nm \<equiv> cstr SMK_ENVNAME_LENGTH name"
  shows "get_environment proc name buf sz =
    (case env_map proc nm of
       None \<Rightarrow> Inr (SMK_NOT_FOUND, buf, sz)
     | Some val \<Rightarrow> Inr (SMK_OK, take sz val @ drop (min (length val) sz) buf, min (length val) sz))"
proof -
  let ?es = "env_entries proc"
  from env_find_map [OF ok name] obtain r where r: "env_find ?es name 0 = Inr r"
    "case r of None \<Rightarrow> env_map proc nm = None \<and> nm \<notin> env_key ` set ?es
     | Some j \<Rightarrow> j < length ?es \<and> env_key (?es ! j) = nm \<and> env_map proc nm = Some (ei_data (?es ! j))"
    unfolding nm_def by blast
  show ?thesis
  proof (cases r)
    case None
    with r show ?thesis by (simp add: get_environment_def)
  next
    case (Some i)
    with r have i: "i < length ?es" and m: "env_map proc nm = Some (ei_data (?es ! i))" by auto
    have sz: "ei_size (?es ! i) = length (ei_data (?es ! i))" using ok i by (simp add: env_ok_def env_entry_ok_def)
    show ?thesis using r(1) Some i m sz buf
      by (simp add: get_environment_def Let_def kmemcpy_ok min_def)
  qed
qed

text \<open>A heap with an environment of one variable, for the examples.\<close>

definition demo_env_major :: major where
  "demo_env_major = \<lparr>ma_addr = 4096, ma_pages = 1, ma_size = 4096, ma_usage = 1126,
     ma_minors = [\<lparr>mi_addr = 4120, mi_size = 1038, mi_req = 1032\<rparr>, \<lparr>mi_addr = 5182, mi_size = 16, mi_req = 10\<rparr>]\<rparr>"

definition demo_env_heap :: "physmem liballoc" where
  "demo_env_heap = (liballoc_initial (\<lambda>_. LIBALLOC_MAGIC) (\<lambda>p. if p = 5208 then 2 else 4) (\<lambda>_. 7)
     (demo_mem\<lparr>memory_bitmap := [3], s_freePages := 6\<rparr>))
     \<lparr>l_majors := [demo_env_major], l_inuse := 1054, l_allocated := 4096\<rparr>"

definition demo_env :: penv where
  "demo_env = \<lparr>environment = Some 4148,
     env_entries = [\<lparr>ei_name = 65 # replicate 1023 0, ei_size = 10, ei_ptr = 5208, ei_data = replicate 10 7\<rparr>]\<rparr>"

lemma demo_env_heap_ok: "kernel_heap_ok demo_env_heap" "live demo_env_heap 4148 = Some 1032"
  "live demo_env_heap 5208 = Some 10"
proof -
  have maj: "maj_bytes demo_env_major = maj_bytes demo_major"
    by (simp add: maj_bytes_def demo_env_major_def demo_major_def)
  have "major_ok demo_env_major" by (simp add: major_ok_def demo_env_major_def la_consts)
  then show "kernel_heap_ok demo_env_heap"
    using demo_used_heap_ok(1) maj
    by (simp add: la_ok_def la_wf_def demo_env_heap_def demo_used_heap_def liballoc_initial_def headers_ok_def)
       (simp add: demo_env_major_def sizeof_minor_def user_ptr_def ALIGN_def la_consts)
  show "live demo_env_heap 4148 = Some 1032" "live demo_env_heap 5208 = Some 10"
    by (simp_all add: live_def demo_env_heap_def demo_env_major_def user_ptr_def ALIGN_def la_consts)
qed

lemma demo_env_ok: "env_ok demo_env" "env_live (live demo_env_heap) demo_env"
  by (simp_all add: env_ok_def env_live_def demo_env_def env_entry_ok_def SMK_ENVNAME_LENGTH_def
        sizeof_environ_info_def MAX_REQUEST_def demo_env_heap_ok)

lemma demo_env_map: "env_map demo_env (cstr SMK_ENVNAME_LENGTH [65, 0]) = Some (replicate 10 7)"
  by (simp add: env_map_def demo_env_def env_key_def SMK_ENVNAME_LENGTH_def cstr_def)

text \<open>
  Remark: With a heap in order and an environment whose blocks are live, \<^verbatim>\<open>set_environment\<close> returns
  \<^verbatim>\<open>SMK_OK\<close> having updated the map of variables at the name and nowhere else, or \<^verbatim>\<open>SMK_NOMEM\<close> with
  the map as it was; in both cases the heap stays in order and every block of the environment is
  live. The only other outcome is the null access in the allocator's \<^verbatim>\<open>krealloc\<close> when it cannot
  get a larger block.
\<close>

theorem set_environment_correct:
  assumes "env_ok proc" and "kernel_heap_ok h" and "env_live (live h) proc"
    and "readable SMK_ENVNAME_LENGTH name" and "0 < sz" and "sz < MAX_REQUEST" and "sz \<le> length data"
    and "(length (env_entries proc) + 2) * sizeof_environ_info < MAX_REQUEST"
  shows "set_environment liballoc_subsystem proc (Some name) (Some data) sz h = Inl Null_deref \<or>
    (\<exists>rc proc' h'.
      set_environment liballoc_subsystem proc (Some name) (Some data) sz h = Inr ((rc, proc'), h')
      \<and> kernel_heap_ok h' \<and> env_live (live h') proc' \<and> env_ok proc'
      \<and> (rc = SMK_OK \<and> env_map proc' = (env_map proc)(cstr SMK_ENVNAME_LENGTH name \<mapsto> take sz data)
         \<or> rc = SMK_NOMEM \<and> env_map proc' = env_map proc))"
  using kheap.set_environment_ok [OF assms] unfolding kheap.set_post_def by blast

theorem set_environment_correct_witness:
  "set_environment liballoc_subsystem empty_penv (Some [65, 0]) (Some [7, 8]) 2 demo_heap = Inl Null_deref \<or>
    (\<exists>rc proc' h'.
      set_environment liballoc_subsystem empty_penv (Some [65, 0]) (Some [7, 8]) 2 demo_heap = Inr ((rc, proc'), h')
      \<and> kernel_heap_ok h' \<and> env_live (live h') proc' \<and> env_ok proc'
      \<and> (rc = SMK_OK \<and> env_map proc' = (env_map empty_penv)(cstr SMK_ENVNAME_LENGTH [65, 0] \<mapsto> take 2 [7, 8])
         \<or> rc = SMK_NOMEM \<and> env_map proc' = env_map empty_penv))"
  by (rule set_environment_correct)
    (simp_all add: demo_heap_ok readable_def sizeof_environ_info_def MAX_REQUEST_def)

text \<open>
  Remark: A variable that was set is read back: after a \<^verbatim>\<open>set_environment\<close> that returned \<^verbatim>\<open>SMK_OK\<close>,
  \<^verbatim>\<open>get_environment\<close> of that name into a large enough buffer copies exactly the stored bytes and
  reports their number, and a lookup of any other name answers as before.
\<close>

theorem set_get_environment:
  assumes "env_ok proc" and "kernel_heap_ok h" and "env_live (live h) proc"
    and "readable SMK_ENVNAME_LENGTH name" and "0 < sz" and "sz < MAX_REQUEST" and "sz \<le> length data"
    and "(length (env_entries proc) + 2) * sizeof_environ_info < MAX_REQUEST"
    and set: "set_environment liballoc_subsystem proc (Some name) (Some data) sz h = Inr ((SMK_OK, proc'), h')"
    and buf: "n \<le> length buf"
  shows "(sz \<le> n \<longrightarrow> get_environment proc' name buf n = Inr (SMK_OK, take sz data @ drop sz buf, sz)) \<and>
    (\<forall>other. readable SMK_ENVNAME_LENGTH other \<longrightarrow>
      cstr SMK_ENVNAME_LENGTH other \<noteq> cstr SMK_ENVNAME_LENGTH name \<longrightarrow>
      get_environment proc' other buf n = get_environment proc other buf n)"
proof -
  from kheap.set_environment_ok [OF assms(1-8)] set
  have p: "env_ok proc'" "env_map proc' = (env_map proc)(cstr SMK_ENVNAME_LENGTH name \<mapsto> take sz data)"
    by (auto simp: kheap.set_post_def SMK_OK_def SMK_NOMEM_def)
  have "get_environment proc' name buf n = Inr (SMK_OK, take sz data @ drop sz buf, sz)" if "sz \<le> n"
    using get_environment_ok [OF p(1) assms(4) buf] p(2) that assms(7) by (simp add: min_def)
  moreover have "get_environment proc' other buf n = get_environment proc other buf n"
    if "readable SMK_ENVNAME_LENGTH other" "cstr SMK_ENVNAME_LENGTH other \<noteq> cstr SMK_ENVNAME_LENGTH name" for other
    using get_environment_ok [OF p(1) that(1) buf] get_environment_ok [OF assms(1) that(1) buf] p(2) that(2)
    by simp
  ultimately show ?thesis by blast
qed

lemma la_loop_numeral:
  "la_loop hook (numeral k) sz req sb bs i la =
     bindR (la_round hook sz req sb bs i la) (\<lambda>(out, la').
     case out of La_done r \<Rightarrow> Inr (r, la') | La_again sb bs i' \<Rightarrow> la_loop hook (pred_numeral k) sz req sb bs i' la')"
  by (simp only: numeral_eq_Suc la_loop.simps)

lemma demo_set_environment:
  "\<exists>proc' h'. set_environment liballoc_subsystem demo_env (Some [65, 0]) (Some [1, 2]) 2 demo_env_heap
     = Inr ((SMK_OK, proc'), h')"
proof -
  have r: "readable SMK_ENVNAME_LENGTH [65, 0]" by (simp add: readable_def)
  from env_find_map [OF demo_env_ok(1) r] demo_env_map
  have f: "env_find (env_entries demo_env) [65, 0] 0 = Inr (Some 0)"
    by (auto simp: demo_env_def split: option.splits)
  have "\<exists>a h1. kmalloc liballoc_subsystem 2 demo_env_heap = Inr (Some a, h1)"
    by (simp add: kmalloc_def liballoc_subsystem_def la_malloc_def la_malloc_sized_def best_start_def
          la_round_def cases2_5_def try_block_def place_minor_def demo_env_heap_def demo_env_major_def
          liballoc_initial_def la_consts ALIGN_def la_loop_numeral)
  then obtain a h1 where a: "kmalloc liballoc_subsystem 2 demo_env_heap = Inr (Some a, h1)" by blast
  have m: "2 < MAX_REQUEST" by (simp add: MAX_REQUEST_def)
  from kheap.overwrite_env_ok [OF demo_env_ok(1) demo_env_heap_ok(1) demo_env_ok(2), of 0 _ 2 "[1, 2]"] m
  obtain rc p' h' where o: "overwrite_env liballoc_subsystem demo_env 0 [1, 2] 2 demo_env_heap = Inr ((rc, p'), h')"
    by (fastforce simp: demo_env_def)
  then have "rc = SMK_OK" using a by (auto simp: overwrite_env_def kres_simps)
  with o f show ?thesis by (simp add: set_environment_def)
qed

theorem set_get_environment_witness:
  "\<exists>proc' h'. set_environment liballoc_subsystem demo_env (Some [65, 0]) (Some [1, 2]) 2 demo_env_heap
       = Inr ((SMK_OK, proc'), h')
     \<and> get_environment proc' [65, 0] [9, 9, 9] 3 = Inr (SMK_OK, [1, 2, 9], 2)"
proof -
  from demo_set_environment obtain proc' h' where
    set: "set_environment liballoc_subsystem demo_env (Some [65, 0]) (Some [1, 2]) 2 demo_env_heap
      = Inr ((SMK_OK, proc'), h')" by blast
  have "get_environment proc' [65, 0] [9, 9, 9] 3 = Inr (SMK_OK, [1, 2, 9], 2)"
    using set_get_environment [OF demo_env_ok(1) demo_env_heap_ok(1) demo_env_ok(2) _ _ _ _ _ set,
        of 3 "[9, 9, 9]"]
    by (simp add: readable_def MAX_REQUEST_def sizeof_environ_info_def demo_env_def)
  with set show ?thesis by blast
qed

text \<open>
  Remark: \<^verbatim>\<open>remove_environment\<close> answers \<^verbatim>\<open>SMK_NOT_FOUND\<close> and changes nothing when the variable is not
  set. Otherwise it removes exactly that variable from the map, shrinks the array by one entry,
  frees its value and keeps every remaining block live (down to the empty environment, where the
  array itself is freed).
\<close>

theorem remove_environment_correct:
  assumes "env_ok proc" and "kernel_heap_ok h" and "env_live (live h) proc"
    and "readable SMK_ENVNAME_LENGTH name"
  shows "if env_map proc (cstr SMK_ENVNAME_LENGTH name) = None
    then remove_environment liballoc_subsystem proc name h = Inr ((SMK_NOT_FOUND, proc), h)
    else remove_environment liballoc_subsystem proc name h = Inl Null_deref \<or>
      (\<exists>proc' h'. remove_environment liballoc_subsystem proc name h = Inr ((SMK_OK, proc'), h')
        \<and> kernel_heap_ok h' \<and> env_live (live h') proc' \<and> env_ok proc'
        \<and> env_map proc' = (env_map proc)(cstr SMK_ENVNAME_LENGTH name := None)
        \<and> length (env_entries proc') + 1 = length (env_entries proc))"
  using kheap.remove_environment_ok [OF assms] unfolding kheap.remove_post_def by simp

theorem remove_environment_correct_witness:
  "remove_environment liballoc_subsystem demo_env [65, 0] demo_env_heap = Inl Null_deref \<or>
    (\<exists>proc' h'. remove_environment liballoc_subsystem demo_env [65, 0] demo_env_heap = Inr ((SMK_OK, proc'), h')
      \<and> env_map proc' (cstr SMK_ENVNAME_LENGTH [65, 0]) = None)"
  using remove_environment_correct [OF demo_env_ok(1) demo_env_heap_ok(1) demo_env_ok(2), of "[65, 0]"] demo_env_map
  by (auto simp: readable_def)

text \<open>
  Remark: \<^verbatim>\<open>release_environment\<close> frees the array and every value, each once, no other block of the
  heap, and leaves the process without variables.
\<close>

theorem release_environment_correct:
  assumes "env_ok proc" and "kernel_heap_ok h" and "env_live (live h) proc"
  shows "\<exists>h'. release_environment liballoc_subsystem proc h = Inr ((SMK_OK, empty_penv), h')
    \<and> kernel_heap_ok h' \<and> live h' = (\<lambda>b. if b \<in> ei_ptr ` set (env_entries proc) \<or> environment proc = Some b
                                      then None else live h b)"
  using kheap.release_environment_ok [OF assms] unfolding empty_penv_def .

theorem release_environment_correct_witness:
  "\<exists>h'. release_environment liballoc_subsystem demo_env demo_env_heap = Inr ((SMK_OK, empty_penv), h')
    \<and> live h' 4148 = None \<and> live h' 5208 = None"
  using release_environment_correct [OF demo_env_ok(1) demo_env_heap_ok(1) demo_env_ok(2)]
  by (auto simp: demo_env_def)

end
