(* ===== verification/Thread.thy ===== *)
theory Thread
  imports Htable Strings
begin

text \<open>
  The thread control block (\<^verbatim>\<open>struct thread\<close> of \<^verbatim>\<open>kernel/processes/threads.h\<close>), the thread
  states, and the key and comparison functions by which a process finds its threads in its hash
  table (\<^verbatim>\<open>kernel/processes/threads.c\<close>).
\<close>

section \<open>Data\<close>

definition THREAD_SYSTEM :: int where "THREAD_SYSTEM = 0"

definition THREAD_RUNNING :: int where "THREAD_RUNNING = 1"

definition THREAD_SUSPENDED :: int where "THREAD_SUSPENDED = 2"

definition THREAD_DORMANT :: int where "THREAD_DORMANT = 3"

definition THREAD_FINISHED :: int where "THREAD_FINISHED = 8"

definition THREAD_IRQ :: int where "THREAD_IRQ = 10"

lemmas thread_states = THREAD_SYSTEM_def THREAD_RUNNING_def THREAD_SUSPENDED_def THREAD_DORMANT_def
  THREAD_FINISHED_def THREAD_IRQ_def

definition SMK_NAME_LENGTH :: nat where "SMK_NAME_LENGTH = 64"

definition MAX_PORTS :: nat where "MAX_PORTS = 1024"

record thread =
  t_name :: "cchar list"
  t_tid :: int
  t_state :: int
  t_process :: nat
  t_irq :: int
  t_duration :: nat
  t_event_tid :: int
  t_rc :: int
  t_tls :: "nat option"
  t_ports :: "int list"
  t_last_port_pulse :: int
  t_last_port_message :: int
  t_cpu :: int
  t_cpu_affinity :: int
  t_fast_queued :: int
  t_interrupts_disabled :: int
  t_stack_kernel :: nat
  t_stack_user :: nat
  t_stack :: nat
  t_math_state :: int
  t_math :: "nat option"

section \<open>Key and comparison\<close>

definition threads_key :: "thread \<Rightarrow> int" where
  "threads_key t = (let ans = s32 (t_tid t * 100) in if ans < 0 then s32 (- ans) else ans)"

definition threads_compare :: "thread \<Rightarrow> thread \<Rightarrow> int kres" where
  "threads_compare a b =
     (if t_tid b \<noteq> -1
      then Inr (if t_tid a < t_tid b then -1 else if t_tid a > t_tid b then 1 else 0)
      else kstrncmp (t_name a) (t_name b) SMK_NAME_LENGTH)"

end
