(* ===== verification/Scheduler.thy ===== *)
theory Scheduler
  imports Thread Physmem Mm
begin

text \<open>
  The scheduler (\<^verbatim>\<open>kernel/scheduler/scheduler.c\<close>), the state changes of a thread that go through
  it (\<^verbatim>\<open>set_thread_state\<close>, \<^verbatim>\<open>exec_thread\<close> of \<^verbatim>\<open>kernel/processes/threads.c\<close>) and the time
  accounting it relies on (\<^verbatim>\<open>kernel/stats.c\<close>).

  Every CPU has a run queue (an array with a round-robin position), a queue of paused threads in
  the order of their wake-up time, and a small ring of threads that are to run at once. The state
  \<open>ksys\<close> is what the CPU that executes the code sees: its number, its interrupt flag, the array of
  all schedulers, and the thread control blocks, which are addressed by pointers.

  A spinlock that is already taken when a routine wants it is never released by that routine:
  taking it is \<open>Hang\<close>. While a remote CPU is locked completely, its \<^verbatim>\<open>exec_thread\<close> has returned
  from the thread it ran, as the waiting loop demands (\<open>halt_running\<close>).
\<close>

section \<open>State\<close>

definition INITIAL_SCHED_SIZE :: nat where "INITIAL_SCHED_SIZE = 1024"

definition TIMESLICE :: nat where "TIMESLICE = 10"

definition MAX_FAST :: nat where "MAX_FAST = 32"

definition sizeof_schedule :: nat where "sizeof_schedule = 4"

definition sizeof_paused_schedule :: nat where "sizeof_paused_schedule = 24"

record paused_schedule =
  ps_tr :: "nat option"
  ps_state :: int
  ps_request :: nat
  ps_start :: nat

record scheduler_info =
  si_cpu_id :: nat
  current_thread :: "nat option"
  requesting_state :: int
  requesting_thread :: "nat option"
  sched_queue :: "nat option list"
  pause_queue :: "paused_schedule list"
  sched_count :: nat
  pause_count :: nat
  sched_size :: nat
  pause_size :: nat
  si_running :: nat
  si_idle :: nat
  lock_scheduler :: bool
  lock_flags :: nat
  nested_lock :: nat
  si_position :: nat
  fast_ring :: "nat option list"
  fast_start :: nat
  fast_stop :: nat

record s_time =
  st_ops :: nat
  st_last_rdtsc :: nat
  st_usage :: nat

record ksys =
  k_threads :: "nat \<Rightarrow> thread option"
  k_sched :: "scheduler_info list"
  k_time :: "s_time list"
  k_bogomips :: "nat list"
  k_cpu_count :: nat
  k_CPUID :: nat
  k_if :: bool
  k_ipis :: "nat list"
  k_tsc :: nat

section \<open>Access\<close>

text \<open>\<^verbatim>\<open>cpu[ id ].sched\<close> for an \<^verbatim>\<open>int\<close> index, and a thread behind a pointer.\<close>

definition get_si :: "int \<Rightarrow> ksys \<Rightarrow> scheduler_info kres" where
  "get_si i s = guardR (0 \<le> i) Out_of_bounds (aget (k_sched s) (nat i))"

definition put_si :: "int \<Rightarrow> scheduler_info \<Rightarrow> ksys \<Rightarrow> ksys" where
  "put_si i si s = s\<lparr>k_sched := (k_sched s)[nat i := si]\<rparr>"

definition get_tr :: "nat \<Rightarrow> ksys \<Rightarrow> thread kres" where
  "get_tr t s = (case k_threads s t of None \<Rightarrow> Inl Out_of_bounds | Some th \<Rightarrow> Inr th)"

definition put_tr :: "nat \<Rightarrow> thread \<Rightarrow> ksys \<Rightarrow> ksys" where
  "put_tr t th s = s\<lparr>k_threads := (k_threads s)(t \<mapsto> th)\<rparr>"

definition this_thread :: "ksys \<Rightarrow> nat option kres" where
  "this_thread s = bindR (get_si (int (k_CPUID s)) s) (\<lambda>si. Inr (current_thread si))"

section \<open>Loading\<close>

text \<open>\<open>mem\<close> is what the fresh array of paused threads holds.\<close>

definition load_scheduler ::
  "'h mm_subsystem \<Rightarrow> nat \<Rightarrow> paused_schedule list \<Rightarrow> scheduler_info \<Rightarrow> 'h
     \<Rightarrow> (scheduler_info \<times> 'h) kres" where
  "load_scheduler sub cpu_id mem si h =
     bindR (kmalloc sub (sizeof_schedule * INITIAL_SCHED_SIZE) h) (\<lambda>(p, h1).
     bindR (kmalloc sub (sizeof_paused_schedule * INITIAL_SCHED_SIZE) h1) (\<lambda>(q, h2).
     guardR (p \<noteq> None \<and> q \<noteq> None) Null_deref (
     Inr (si\<lparr>sched_queue := replicate INITIAL_SCHED_SIZE None,
             pause_queue := map (\<lambda>c. c\<lparr>ps_tr := None\<rparr>) mem,
             si_cpu_id := cpu_id, current_thread := None,
             requesting_state := -1, requesting_thread := None,
             sched_count := 0, pause_count := 0,
             sched_size := INITIAL_SCHED_SIZE, pause_size := INITIAL_SCHED_SIZE,
             lock_scheduler := False, nested_lock := 0,
             si_running := 0, si_idle := 0, si_position := 0,
             fast_start := 0, fast_stop := 0\<rparr>, h2))))"

section \<open>Locks\<close>

definition halt_running :: "scheduler_info \<Rightarrow> scheduler_info" where
  "halt_running si =
     (if si_running si \<noteq> 0 then si\<lparr>si_running := 0, current_thread := None\<rparr> else si)"

definition sched_lock :: "int \<Rightarrow> bool \<Rightarrow> ksys \<Rightarrow> ksys kres" where
  "sched_lock cpu_id complete s =
     assertR (0 \<le> cpu_id \<and> cpu_id < int (k_cpu_count s)) (
     assertR (\<not> (int (k_CPUID s) = cpu_id \<and> complete)) (
     let lock = (if k_if s then 1 else 0); s1 = s\<lparr>k_if := False\<rparr> in
     bindR (get_si cpu_id s1) (\<lambda>si.
     guardR (\<not> lock_scheduler si) Hang (
     let si1 = si\<lparr>lock_scheduler := True, lock_flags := lock\<rparr>;
         s2 = (if si_idle si1 \<noteq> 0 then s1\<lparr>k_ipis := k_ipis s1 @ [nat cpu_id]\<rparr> else s1);
         si2 = si1\<lparr>si_idle := 0\<rparr>;
         si3 = (if complete then halt_running si2 else si2)
     in assertR (nested_lock si3 = 0) (
        Inr (put_si cpu_id (si3\<lparr>nested_lock := 1\<rparr>) s2))))))"

definition sched_unlock :: "int \<Rightarrow> ksys \<Rightarrow> ksys kres" where
  "sched_unlock cpu_id s =
     bindR (get_si cpu_id s) (\<lambda>si.
     assertR (0 \<le> cpu_id \<and> cpu_id < int (k_cpu_count s)) (
     assertR (nested_lock si = 1) (
     let s1 = put_si cpu_id (si\<lparr>nested_lock := 0, lock_scheduler := False\<rparr>) s in
     Inr (if int (k_CPUID s) = cpu_id \<and> lock_flags si \<noteq> 0 then s1\<lparr>k_if := True\<rparr> else s1))))"

text \<open>The loops of \<^verbatim>\<open>sched_lock_all\<close> and \<^verbatim>\<open>sched_unlock_all\<close>, for \<open>k\<close> CPUs from \<open>i\<close> on.\<close>

fun lock_from :: "nat \<Rightarrow> nat \<Rightarrow> ksys \<Rightarrow> ksys kres" where
  "lock_from i 0 s = Inr s"
| "lock_from i (Suc k) s = bindR (sched_lock (int i) (k_CPUID s \<noteq> i) s) (\<lambda>s1. lock_from (Suc i) k s1)"

fun unlock_from :: "nat \<Rightarrow> nat \<Rightarrow> ksys \<Rightarrow> ksys kres" where
  "unlock_from i 0 s = Inr s"
| "unlock_from i (Suc k) s = bindR (sched_unlock (int i) s) (\<lambda>s1. unlock_from (Suc i) k s1)"

text \<open>\<^verbatim>\<open>sched_global_lock\<close> is the first component of the state.\<close>

definition sched_lock_all :: "bool \<times> ksys \<Rightarrow> (bool \<times> ksys) kres" where
  "sched_lock_all gs =
     guardR (\<not> fst gs) Hang (
     bindR (lock_from 0 (k_cpu_count (snd gs)) (snd gs)) (\<lambda>s1. Inr (True, s1)))"

definition sched_unlock_all :: "bool \<times> ksys \<Rightarrow> (bool \<times> ksys) kres" where
  "sched_unlock_all gs =
     bindR (unlock_from 0 (k_cpu_count (snd gs)) (snd gs)) (\<lambda>s1. Inr (False, s1))"

section \<open>The run queue\<close>

definition sub_queue :: "int \<Rightarrow> nat \<Rightarrow> ksys \<Rightarrow> (int \<times> ksys) kres" where
  "sub_queue cid tr s =
     bindR (get_si cid s) (\<lambda>si0.
     let c = int (si_cpu_id si0) in
     bindR (sched_lock c False s) (\<lambda>s1.
     bindR (get_si cid s1) (\<lambda>si.
     if sched_count si = sched_size si
     then bindR (sched_unlock c s1) (\<lambda>s2. Inr (-1, s2))
     else
       bindR (aput (sched_queue si) (sched_count si) (Some tr)) (\<lambda>q.
       bindR (sched_unlock c
                (put_si cid (si\<lparr>sched_queue := q, sched_count := sched_count si + 1\<rparr>) s1)) (\<lambda>s2.
       Inr (0, s2))))))"

text \<open>Searching loop, \<open>k\<close> cells from \<open>pos\<close> on, and the loop that closes the gap.\<close>

fun find_tr :: "nat option list \<Rightarrow> nat \<Rightarrow> nat \<Rightarrow> nat \<Rightarrow> nat kres" where
  "find_tr q tr pos 0 = Inr pos"
| "find_tr q tr pos (Suc k) =
     bindR (aget q pos) (\<lambda>c. if c = Some tr then Inr pos else find_tr q tr (Suc pos) k)"

fun close_gap :: "'a list \<Rightarrow> nat \<Rightarrow> nat \<Rightarrow> 'a list kres" where
  "close_gap q i 0 = Inr q"
| "close_gap q i (Suc k) =
     bindR (aget q (i + 1)) (\<lambda>v. bindR (aput q i v) (\<lambda>q'. close_gap q' (Suc i) k))"

text \<open>Removing cell \<open>pos\<close> and correcting the position, which is unsigned.\<close>

definition unqueue_at :: "nat \<Rightarrow> scheduler_info \<Rightarrow> scheduler_info kres" where
  "unqueue_at pos si =
     bindR (close_gap (sched_queue si) pos (sub32 (sched_count si) 1 - pos)) (\<lambda>q.
     let n = sub32 (sched_count si) 1 in
     Inr (si\<lparr>sched_queue := q, sched_count := n,
             si_position := (if n = 0 then 0 else sub32 (si_position si) 1 mod n)\<rparr>))"

definition sub_dequeue :: "int \<Rightarrow> nat \<Rightarrow> ksys \<Rightarrow> (int \<times> ksys) kres" where
  "sub_dequeue cid tr s =
     bindR (this_thread s) (\<lambda>cur.
     assertR (cur \<noteq> Some tr) (
     bindR (get_si cid s) (\<lambda>si0.
     let c = int (si_cpu_id si0) in
     bindR (sched_lock c (si_cpu_id si0 \<noteq> k_CPUID s) s) (\<lambda>s1.
     bindR (get_si cid s1) (\<lambda>si.
     bindR (find_tr (sched_queue si) tr 0 (sched_count si)) (\<lambda>pos.
     assertR (pos \<noteq> sched_count si) (
     bindR (unqueue_at pos si) (\<lambda>si'.
     bindR (sched_unlock c (put_si cid si' s1)) (\<lambda>s2. Inr (0, s2))))))))))"

text \<open>The CPU of a thread: its affinity, or one that depends on its number.\<close>

definition home_cpu :: "thread \<Rightarrow> ksys \<Rightarrow> int kres" where
  "home_cpu th s =
     (if t_cpu_affinity th < 0
      then guardR (k_cpu_count s \<noteq> 0) Div_by_zero (Inr (c_rem (s32 (t_tid th - 1)) (int (k_cpu_count s))))
      else Inr (t_cpu_affinity th))"

definition queue :: "nat \<Rightarrow> ksys \<Rightarrow> (int \<times> ksys) kres" where
  "queue tr s =
     bindR (get_tr tr s) (\<lambda>th.
     bindR (home_cpu th s) (\<lambda>cid.
     assertR (t_cpu th < 0) (
     sub_queue cid tr (put_tr tr (th\<lparr>t_cpu := cid\<rparr>) s))))"

definition dequeue :: "nat \<Rightarrow> ksys \<Rightarrow> (int \<times> ksys) kres" where
  "dequeue tr s =
     bindR (get_tr tr s) (\<lambda>th.
     assertR (t_cpu th \<ge> 0) (
     bindR (sub_dequeue (t_cpu th) tr s) (\<lambda>(ans, s1).
     bindR (get_tr tr s1) (\<lambda>th1. Inr (ans, put_tr tr (th1\<lparr>t_cpu := -1\<rparr>) s1)))))"

section \<open>Pausing and restarting\<close>

fun find_paused :: "paused_schedule list \<Rightarrow> nat \<Rightarrow> nat \<Rightarrow> nat \<Rightarrow> nat kres" where
  "find_paused q tr pos 0 = Inr pos"
| "find_paused q tr pos (Suc k) =
     bindR (aget q pos) (\<lambda>c. if ps_tr c = Some tr then Inr pos else find_paused q tr (Suc pos) k)"

fun find_later :: "paused_schedule list \<Rightarrow> nat \<Rightarrow> nat \<Rightarrow> nat \<Rightarrow> nat kres" where
  "find_later q target pos 0 = Inr pos"
| "find_later q target pos (Suc k) =
     bindR (aget q pos) (\<lambda>c. if ps_request c > target then Inr pos else find_later q target (Suc pos) k)"

text \<open>Moving \<open>k\<close> cells up by one, the one below \<open>i\<close> first.\<close>

fun shift_up :: "'a list \<Rightarrow> nat \<Rightarrow> nat \<Rightarrow> 'a list kres" where
  "shift_up q i 0 = Inr q"
| "shift_up q i (Suc k) =
     bindR (aget q (i - 1)) (\<lambda>v. bindR (aput q i v) (\<lambda>q'. shift_up q' (i - 1) k))"

definition restart :: "nat \<Rightarrow> ksys \<Rightarrow> (int \<times> ksys) kres" where
  "restart tr s =
     bindR (get_tr tr s) (\<lambda>th.
     bindR (home_cpu th s) (\<lambda>cid.
     bindR (sched_lock cid (cid \<noteq> int (k_CPUID s)) s) (\<lambda>s1.
     bindR (get_si cid s1) (\<lambda>si.
     bindR (find_paused (pause_queue si) tr 0 (pause_count si)) (\<lambda>pos.
     if pos = pause_count si then Inl Assert_failed
     else
       bindR (aget (pause_queue si) pos) (\<lambda>ps.
       bindR (shift_up (pause_queue si) pos pos) (\<lambda>q.
       bindR (aput q 0 (ps\<lparr>ps_request := 0\<rparr>)) (\<lambda>q'.
       bindR (sched_unlock cid (put_si cid (si\<lparr>pause_queue := q'\<rparr>) s1)) (\<lambda>s2. Inr (0, s2))))))))))"

definition set_thread_state :: "nat \<Rightarrow> int \<Rightarrow> ksys \<Rightarrow> ksys kres" where
  "set_thread_state t state s =
     bindR (get_tr t s) (\<lambda>th.
     if t_state th = state then Inr s
     else
       bindR (this_thread s) (\<lambda>cur.
       if cur = Some t
       then
         assertR (t_state th = THREAD_RUNNING) (
         bindR (get_si (int (k_CPUID s)) s) (\<lambda>si.
         Inr (put_si (int (k_CPUID s))
               (si\<lparr>requesting_thread := Some t, requesting_state := state\<rparr>) s)))
       else if t_state th = THREAD_DORMANT \<and> t_duration th \<noteq> 0
       then
         assertR (state = THREAD_RUNNING) (
         bindR (restart t s) (\<lambda>(_, s1). Inr s1))
       else
         bindR (if t_state th = THREAD_RUNNING
                then bindR (dequeue t s) (\<lambda>(_, s1). Inr s1) else Inr s) (\<lambda>s1.
         bindR (get_tr t s1) (\<lambda>th1.
         let s2 = put_tr t (th1\<lparr>t_state := state\<rparr>) s1 in
         if state = THREAD_RUNNING
         then bindR (queue t s2) (\<lambda>(_, s3). Inr s3) else Inr s2))))"

definition pause :: "nat \<Rightarrow> nat \<Rightarrow> ksys \<Rightarrow> (int \<times> ksys) kres" where
  "pause tr milliseconds s =
     assertR (milliseconds > 0) (
     bindR (get_tr tr s) (\<lambda>th.
     assertR (t_cpu th = int (k_CPUID s)) (
     let cid = t_cpu th in
     bindR (sched_lock cid False s) (\<lambda>s1.
     bindR (get_si cid s1) (\<lambda>si.
     bindR (aget (k_time s1) (nat cid)) (\<lambda>tm.
     let now = st_usage tm; target = (milliseconds + now) mod 2 ^ 64 in
     if pause_count si = pause_size si
     then bindR (sched_unlock cid s1) (\<lambda>s2. Inr (-1, s2))
     else
       bindR (find_later (pause_queue si) target 0 (pause_count si)) (\<lambda>pos.
       bindR (shift_up (pause_queue si) (pause_count si) (pause_count si - pos)) (\<lambda>q.
       bindR (aput q pos \<lparr>ps_tr = Some tr, ps_state = t_state th, ps_request = target, ps_start = now\<rparr>) (\<lambda>q'.
       bindR (set_thread_state tr THREAD_DORMANT
                (put_si cid (si\<lparr>pause_queue := q', pause_count := pause_count si + 1\<rparr>) s1)) (\<lambda>s2.
       bindR (get_tr tr s2) (\<lambda>th2.
       bindR (sched_unlock cid (put_tr tr (th2\<lparr>t_duration := milliseconds\<rparr>) s2)) (\<lambda>s3.
       Inr (0, s3)))))))))))))"

section \<open>Inside the scheduler\<close>

definition remove_last :: "nat \<Rightarrow> ksys \<Rightarrow> ksys kres" where
  "remove_last cid s =
     bindR (aget (k_sched s) cid) (\<lambda>si.
     case requesting_thread si of
       Some tr \<Rightarrow>
         if requesting_state si \<ge> 0
         then
           bindR (find_tr (sched_queue si) tr 0 (sched_count si)) (\<lambda>pos.
           let clear = (\<lambda>si. si\<lparr>requesting_thread := None, requesting_state := -1\<rparr>) in
           if pos = sched_count si then Inr (put_si (int cid) (clear si) s)
           else
             bindR (unqueue_at pos si) (\<lambda>si'.
             bindR (get_tr tr s) (\<lambda>th.
             Inr (put_si (int cid) (clear si')
                   (put_tr tr (th\<lparr>t_state := requesting_state si, t_cpu := -1\<rparr>) s)))))
         else Inl Assert_failed
     | None \<Rightarrow> assertR (requesting_state si < 0) (Inr s))"

text \<open>
  The waking loop of \<^verbatim>\<open>remove_timers\<close>; \<open>k\<close> is \<^verbatim>\<open>pause_count\<close>, \<open>count\<close> the number woken. The first
  component of the state is the table of threads.
\<close>

fun wake_loop ::
  "nat \<Rightarrow> nat \<Rightarrow> nat \<Rightarrow> scheduler_info \<Rightarrow> (nat \<Rightarrow> thread option)
     \<Rightarrow> (nat \<times> scheduler_info \<times> (nat \<Rightarrow> thread option)) kres" where
  "wake_loop time 0 n si ts = Inr (n, si, ts)"
| "wake_loop time (Suc k) n si ts =
     bindR (aget (pause_queue si) n) (\<lambda>ps.
     if ps_request ps \<le> time
     then
       (case ps_tr ps of
          None \<Rightarrow> Inl Null_deref
        | Some tr \<Rightarrow>
            (case ts tr of
               None \<Rightarrow> Inl Out_of_bounds
             | Some th \<Rightarrow>
                 assertR (sched_count si \<noteq> sched_size si) (
                 bindR (aput (sched_queue si) (sched_count si) (Some tr)) (\<lambda>q.
                 wake_loop time k (Suc n)
                   (si\<lparr>sched_queue := q, sched_count := sched_count si + 1, pause_count := k\<rparr>)
                   (ts(tr \<mapsto> th\<lparr>t_state := ps_state ps,
                                t_duration := (time + 2 ^ 64 - ps_start ps) mod 2 ^ 64,
                                t_cpu := int (si_cpu_id si)\<rparr>))))))
     else Inr (n, si, ts))"

fun shift_down :: "'a list \<Rightarrow> nat \<Rightarrow> nat \<Rightarrow> nat \<Rightarrow> 'a list kres" where
  "shift_down q n i 0 = Inr q"
| "shift_down q n i (Suc k) =
     bindR (aget q (i + n)) (\<lambda>v. bindR (aput q i v) (\<lambda>q'. shift_down q' n (Suc i) k))"

definition remove_timers :: "nat \<Rightarrow> nat \<Rightarrow> ksys \<Rightarrow> (nat \<times> ksys) kres" where
  "remove_timers cid time s =
     bindR (aget (k_sched s) cid) (\<lambda>si0.
     if pause_count si0 = 0 then Inr (0, s)
     else
       bindR (wake_loop time (pause_count si0) 0 si0 (k_threads s)) (\<lambda>(n, si, ts).
       bindR (shift_down (pause_queue si) n 0 (pause_count si)) (\<lambda>q.
       let s' = put_si (int cid) (si\<lparr>pause_queue := q\<rparr>) (s\<lparr>k_threads := ts\<rparr>) in
       if pause_count si = 0 then Inr (0, s')
       else bindR (aget q 0) (\<lambda>ps. Inr ((ps_request ps + 2 ^ 64 - time) mod 2 ^ 64, s')))))"

section \<open>The fast queue\<close>

definition fast_put :: "nat \<Rightarrow> scheduler_info \<Rightarrow> scheduler_info kres" where
  "fast_put tr si =
     bindR (aput (fast_ring si) (fast_stop si) (Some tr)) (\<lambda>q.
     let stop = (fast_stop si + 1) mod MAX_FAST in
     assertR (stop \<noteq> fast_start si) (Inr (si\<lparr>fast_ring := q, fast_stop := stop\<rparr>)))"

definition fast_drop :: "scheduler_info \<Rightarrow> scheduler_info" where
  "fast_drop si = si\<lparr>fast_start := (fast_start si + 1) mod MAX_FAST\<rparr>"

definition fast_queue :: "nat \<Rightarrow> ksys \<Rightarrow> (int \<times> ksys) kres" where
  "fast_queue tr s =
     bindR (get_tr tr s) (\<lambda>th.
     let cid = t_cpu_affinity th in
     assertR (cid \<ge> 0 \<and> cid < int (k_cpu_count s)) (
     bindR (sched_lock cid False s) (\<lambda>s1.
     bindR (get_si cid s1) (\<lambda>si.
     bindR (fast_put tr si) (\<lambda>si'.
     bindR (sched_unlock cid (put_si cid si'
              (put_tr tr (th\<lparr>t_cpu := cid, t_fast_queued := s32 (t_fast_queued th + 1)\<rparr>) s1))) (\<lambda>s2.
     Inr (0, s2)))))))"

definition fast_dequeue :: "nat \<Rightarrow> ksys \<Rightarrow> (int \<times> ksys) kres" where
  "fast_dequeue tr s =
     bindR (get_tr tr s) (\<lambda>th.
     let cid = t_cpu th in
     assertR (cid \<ge> 0) (
     bindR (sched_lock cid False s) (\<lambda>s1.
     assertR (t_cpu th = int (k_CPUID s1)) (
     bindR (get_si cid s1) (\<lambda>si.
     bindR (aget (fast_ring si) (fast_start si)) (\<lambda>c.
     assertR (c = Some tr) (
     let n = s32 (t_fast_queued th - 1);
         th' = th\<lparr>t_fast_queued := n, t_cpu := (if n = 0 then -1 else t_cpu th)\<rparr>
     in bindR (sched_unlock cid (put_si cid (fast_drop si) (put_tr tr th' s1))) (\<lambda>s2.
        Inr (0, s2)))))))))"

definition get_fast :: "scheduler_info \<Rightarrow> nat option kres" where
  "get_fast si =
     (if fast_start si = fast_stop si then Inr None else aget (fast_ring si) (fast_start si))"

section \<open>Time accounting\<close>

text \<open>The 64 by 32 bit division faults when the divisor is 0 or the quotient has more than 32 bits.\<close>

definition udiv :: "nat \<Rightarrow> nat \<Rightarrow> (nat \<times> nat) kres" where
  "udiv dividend divisor =
     guardR (divisor \<noteq> 0 \<and> dividend div divisor < 2 ^ 32) Div_by_zero (
     Inr (dividend div divisor, dividend mod divisor))"

definition stats_time :: "nat \<Rightarrow> nat \<Rightarrow> s_time \<Rightarrow> s_time kres" where
  "stats_time temp bogomips st =
     (if st_last_rdtsc st = 0 then Inr (st\<lparr>st_last_rdtsc := temp\<rparr>)
      else
        (let ops = (st_ops st + (temp + 2 ^ 64 - st_last_rdtsc st)) mod 2 ^ 64 in
         if ops \<ge> bogomips
         then
           bindR (udiv ops bogomips) (\<lambda>(quot, rem).
           Inr (st\<lparr>st_ops := rem, st_last_rdtsc := temp, st_usage := (st_usage st + quot) mod 2 ^ 64\<rparr>))
         else Inr (st\<lparr>st_ops := ops, st_last_rdtsc := temp\<rparr>)))"

definition stats_system_time :: "nat \<Rightarrow> ksys \<Rightarrow> ksys kres" where
  "stats_system_time cpu_id s =
     bindR (aget (k_time s) cpu_id) (\<lambda>st.
     bindR (aget (k_bogomips s) cpu_id) (\<lambda>b.
     bindR (stats_time (k_tsc s) b st) (\<lambda>st'.
     Inr (s\<lparr>k_time := (k_time s)[cpu_id := st']\<rparr>))))"

section \<open>The scheduler\<close>

text \<open>
  \<open>switch\<close> is the switch to the thread and everything that happens until the next scheduler
  interrupt of this CPU: what the thread does is not up to the kernel.
\<close>

definition exec_thread ::
  "(nat \<Rightarrow> nat \<Rightarrow> nat \<Rightarrow> ksys \<Rightarrow> ksys) \<Rightarrow> nat \<Rightarrow> nat option \<Rightarrow> nat \<Rightarrow> nat \<Rightarrow> ksys \<Rightarrow> ksys kres" where
  "exec_thread switch cpu_id t milliseconds idle s =
     (case t of
        None \<Rightarrow> Inl Assert_failed
      | Some tr \<Rightarrow>
          bindR (aget (k_sched s) cpu_id) (\<lambda>si.
          let s1 = put_si (int cpu_id)
                (si\<lparr>si_running := 1, current_thread := Some tr, si_idle := idle, lock_scheduler := False\<rparr>) s;
              s2 = switch cpu_id tr milliseconds s1
          in assertR (\<not> k_if s2) (
             bindR (aget (k_sched s2) cpu_id) (\<lambda>si2.
             guardR (\<not> lock_scheduler si2) Hang (
             Inr (put_si (int cpu_id)
                   (si2\<lparr>current_thread := None, si_running := 0, si_idle := 0, lock_scheduler := True\<rparr>) s2))))))"

text \<open>The next thread of the run queue, round robin.\<close>

definition pick_next :: "scheduler_info \<Rightarrow> (nat option \<times> scheduler_info) kres" where
  "pick_next si =
     bindR (aget (sched_queue si) (si_position si)) (\<lambda>tr.
     guardR (sched_count si \<noteq> 0) Div_by_zero (
     Inr (tr, si\<lparr>si_position := u32 (si_position si + 1) mod sched_count si\<rparr>)))"

text \<open>
  One iteration of the loop of \<^verbatim>\<open>scheduler\<close>; the result has the new \<^verbatim>\<open>flip\<close>. \<open>gc_work\<close> says
  whether the collector of this CPU has work, \<open>gc\<close> and \<open>idle\<close> are the collector and the idle
  thread of this CPU.
\<close>

definition scheduler_round ::
  "(nat \<Rightarrow> nat \<Rightarrow> nat \<Rightarrow> ksys \<Rightarrow> ksys) \<Rightarrow> (ksys \<Rightarrow> bool) \<Rightarrow> nat option \<Rightarrow> nat option \<Rightarrow> nat
     \<Rightarrow> bool \<Rightarrow> ksys \<Rightarrow> (bool \<times> ksys) kres" where
  "scheduler_round switch gc_work gc idle cpu_id flip s =
     bindR (if gc_work s
            then bindR (exec_thread switch cpu_id gc TIMESLICE 0 s) (\<lambda>s1. stats_system_time cpu_id s1)
            else Inr s) (\<lambda>s1.
     bindR (aget (k_time s1) cpu_id) (\<lambda>tm.
     bindR (remove_timers cpu_id (st_usage tm) s1) (\<lambda>(requested, s2).
     bindR (aget (k_sched s2) cpu_id) (\<lambda>si.
     bindR (if flip then Inr None else get_fast si) (\<lambda>fast.
     case fast of
       Some tr \<Rightarrow>
         bindR (exec_thread switch cpu_id (Some tr) TIMESLICE 0 s2) (\<lambda>s3.
         bindR (stats_system_time cpu_id s3) (\<lambda>s4.
         bindR (aget (k_sched s4) cpu_id) (\<lambda>si4.
         Inr (sched_count si4 \<noteq> 0, s4))))
     | None \<Rightarrow>
         if sched_count si = 0
         then
           if gc_work s2 then Inr (False, s2)
           else
             bindR (exec_thread switch cpu_id idle (u32 requested) 1 s2) (\<lambda>s3.
             bindR (stats_system_time cpu_id s3) (\<lambda>s4.
             bindR (remove_last cpu_id s4) (\<lambda>s5. Inr (False, s5))))
         else
           bindR (pick_next si) (\<lambda>(tr, si').
           let s3 = put_si (int cpu_id) si' s2 in
           bindR (exec_thread switch cpu_id tr TIMESLICE 0 s3) (\<lambda>s4.
           bindR (stats_system_time cpu_id s4) (\<lambda>s5.
           bindR (remove_last cpu_id s5) (\<lambda>s6. Inr (False, s6))))))))))"

end
