(* ===== verification/Scheduler_Queues.thy ===== *)
theory Scheduler_Queues
  imports Scheduler "HOL-Library.Multiset"
begin

text \<open>
  The invariant of the scheduler's data and the correctness of its queues. \<open>runq\<close> and \<open>pausedq\<close> are
  the abstract views of a CPU's run queue and of its paused threads; the operations of
  \<open>Scheduler\<close> refine operations on these lists. The fast queue is a bounded queue and
  interprets \<open>bounded_fifo\<close>.
\<close>

section \<open>Loops on arrays\<close>

text \<open>The three searching loops are one, with different tests.\<close>

fun find_first :: "('a \<Rightarrow> bool) \<Rightarrow> 'a list \<Rightarrow> nat \<Rightarrow> nat \<Rightarrow> nat kres" where
  "find_first P q pos 0 = Inr pos"
| "find_first P q pos (Suc k) =
     bindR (aget q pos) (\<lambda>c. if P c then Inr pos else find_first P q (Suc pos) k)"

lemma find_first_loops:
  "find_tr q tr pos k = find_first (\<lambda>c. c = Some tr) q pos k"
  "find_paused p tr pos k = find_first (\<lambda>c. ps_tr c = Some tr) p pos k"
  "find_later p target pos k = find_first (\<lambda>c. ps_request c > target) p pos k"
proof -
  show "find_tr q tr pos k = find_first (\<lambda>c. c = Some tr) q pos k"
    by (induction k arbitrary: pos) (auto intro!: bindR_cong)
  show "find_paused p tr pos k = find_first (\<lambda>c. ps_tr c = Some tr) p pos k"
    by (induction k arbitrary: pos) (auto intro!: bindR_cong)
  show "find_later p target pos k = find_first (\<lambda>c. ps_request c > target) p pos k"
    by (induction k arbitrary: pos) (auto intro!: bindR_cong)
qed

lemma find_first_ok:
  "pos + k \<le> length q \<Longrightarrow> \<exists>r. find_first P q pos k = Inr r \<and> pos \<le> r \<and> r \<le> pos + k
     \<and> (\<forall>j. pos \<le> j \<longrightarrow> j < r \<longrightarrow> \<not> P (q ! j)) \<and> (r < pos + k \<longrightarrow> P (q ! r))"
proof (induction k arbitrary: pos)
  case 0
  then show ?case by simp
next
  case (Suc k)
  show ?case
  proof (cases "P (q ! pos)")
    case True
    with Suc.prems show ?thesis by simp
  next
    case False
    from Suc.IH [of "Suc pos"] Suc.prems obtain r where
      r: "find_first P q (Suc pos) k = Inr r" "Suc pos \<le> r" "r \<le> Suc pos + k"
        "\<forall>j. Suc pos \<le> j \<longrightarrow> j < r \<longrightarrow> \<not> P (q ! j)" "r < Suc pos + k \<longrightarrow> P (q ! r)" by auto
    have "\<forall>j. pos \<le> j \<longrightarrow> j < r \<longrightarrow> \<not> P (q ! j)"
      using r(4) False by (metis Suc_leI le_neq_implies_less)
    with r False Suc.prems show ?thesis by auto
  qed
qed

text \<open>Seen on the searched part of the array.\<close>

lemma find_first_0:
  assumes "k \<le> length q"
  shows "\<exists>r. find_first P q 0 k = Inr r \<and> r \<le> k \<and> (\<forall>x \<in> set (take r q). \<not> P x) \<and> (r < k \<longrightarrow> P (q ! r))"
proof -
  from find_first_ok [of 0 k q P] assms obtain r where
    r: "find_first P q 0 k = Inr r" "r \<le> k" "\<forall>j < r. \<not> P (q ! j)" "r < k \<longrightarrow> P (q ! r)" by auto
  have "\<forall>x \<in> set (take r q). \<not> P x" using r(2,3) assms by (auto simp: in_set_conv_nth)
  with r show ?thesis by blast
qed

lemma shift_down_ok:
  "i + n + k \<le> length q \<Longrightarrow>
     shift_down q n i k = Inr (take i q @ take k (drop (i + n) q) @ drop (i + k) q)"
proof (induction k arbitrary: q i)
  case 0
  then show ?case by simp
next
  case (Suc k)
  let ?q = "q[i := q ! (i + n)]"
  have i: "i + n < length q" using Suc.prems by simp
  have st: "shift_down q n i (Suc k) = shift_down ?q n (Suc i) k" using i by simp
  have 1: "take (Suc i) ?q = take i q @ [q ! (i + n)]" using i by (simp add: take_Suc_conv_app_nth)
  have 2: "drop (Suc i + n) ?q = drop (Suc i + n) q" "drop (Suc i + k) ?q = drop (Suc i + k) q" by simp_all
  have 3: "take (Suc k) (drop (i + n) q) = q ! (i + n) # take k (drop (Suc i + n) q)"
    using i by (simp add: Cons_nth_drop_Suc [symmetric])
  have "Suc i + n + k \<le> length ?q" using Suc.prems by simp
  from Suc.IH [OF this] show ?case unfolding st 1 2 3 by simp
qed

lemma close_gap_shift: "close_gap q i k = shift_down q 1 i k"
  by (induction k arbitrary: q i) (auto intro!: bindR_cong)

lemma close_gap_ok:
  "i + k < length q \<Longrightarrow> close_gap q i k = Inr (take i q @ take k (drop (Suc i) q) @ drop (i + k) q)"
  by (simp add: close_gap_shift shift_down_ok)

lemma shift_up_ok:
  "k \<le> i \<Longrightarrow> i < length q \<Longrightarrow>
     shift_up q i k = Inr (take (i - k) q @ q ! (i - k) # take k (drop (i - k) q) @ drop (Suc i) q)"
proof (induction k arbitrary: q i)
  case 0
  then show ?case by (simp add: id_take_nth_drop [symmetric])
next
  case (Suc k)
  then obtain j where j: "i = Suc j" by (cases i) auto
  let ?q = "q[i := q ! j]"
  have st: "shift_up q i (Suc k) = shift_up ?q j k" using Suc.prems j by simp
  have "drop (j - k) ?q = (drop (j - k) q)[i - (j - k) := q ! j]" using j by (simp add: drop_update_swap)
  then have 1: "take k (drop (j - k) ?q) = take k (drop (j - k) q)" using Suc.prems j by simp
  have 2: "drop (Suc j) ?q = q ! j # drop (Suc i) q"
    using Suc.prems j by (simp add: drop_update_swap Cons_nth_drop_Suc [symmetric])
  have "drop (j - k) q ! k = q ! j" using Suc.prems j by simp
  then have 3: "take (Suc k) (drop (j - k) q) = take k (drop (j - k) q) @ [q ! j]"
    using Suc.prems j by (simp add: take_Suc_conv_app_nth)
  have 4: "take (j - k) ?q = take (j - k) q" "?q ! (j - k) = q ! (j - k)" using j Suc.prems by simp_all
  have "shift_up ?q j k = Inr (take (j - k) ?q @ ?q ! (j - k) # take k (drop (j - k) ?q) @ drop (Suc j) ?q)"
    by (rule Suc.IH) (use Suc.prems j in simp_all)
  then show ?case unfolding st 1 2 4 using 3 j by simp
qed

section \<open>The invariant\<close>

definition runq :: "scheduler_info \<Rightarrow> nat list" where
  "runq si = map the (take (sched_count si) (sched_queue si))"

definition pausedq :: "scheduler_info \<Rightarrow> paused_schedule list" where
  "pausedq si = take (pause_count si) (pause_queue si)"

definition si_ok :: "scheduler_info \<Rightarrow> bool" where
  "si_ok si \<longleftrightarrow>
     length (sched_queue si) = sched_size si \<and> length (pause_queue si) = pause_size si
     \<and> sched_count si \<le> sched_size si \<and> pause_count si \<le> pause_size si
     \<and> sched_size si < 2 ^ 32 \<and> pause_size si < 2 ^ 32
     \<and> list_all (\<lambda>c. c \<noteq> None) (take (sched_count si) (sched_queue si))
     \<and> si_position si < max 1 (sched_count si)
     \<and> list_all (\<lambda>c. ps_tr c \<noteq> None \<and> ps_request c < 2 ^ 64) (pausedq si)
     \<and> sorted (map ps_request (pausedq si))
     \<and> length (fast_ring si) = MAX_FAST \<and> fast_start si < MAX_FAST \<and> fast_stop si < MAX_FAST"

definition cpu_ok :: "nat \<Rightarrow> scheduler_info \<Rightarrow> bool" where
  "cpu_ok i si \<longleftrightarrow> si_ok si \<and> si_cpu_id si = i \<and> \<not> lock_scheduler si \<and> nested_lock si = 0"

definition sys_ok :: "ksys \<Rightarrow> bool" where
  "sys_ok s \<longleftrightarrow>
     k_cpu_count s \<le> length (k_sched s) \<and> k_CPUID s < k_cpu_count s
     \<and> k_cpu_count s \<le> length (k_time s)
     \<and> (\<forall>i < k_cpu_count s. cpu_ok i (k_sched s ! i))"

lemma sys_ok_cpu: "sys_ok s \<Longrightarrow> i < k_cpu_count s \<Longrightarrow> cpu_ok i (k_sched s ! i) \<and> i < length (k_sched s)"
  by (auto simp: sys_ok_def)

lemma get_si_nat [simp]: "i < length (k_sched s) \<Longrightarrow> get_si (int i) s = Inr (k_sched s ! i)"
  by (simp add: get_si_def)

lemma put_si_nat: "put_si (int i) si s = s\<lparr>k_sched := (k_sched s)[i := si]\<rparr>"
  by (simp add: put_si_def)

section \<open>Locking\<close>

text \<open>A scheduler while it is locked.\<close>

definition lock_si :: "bool \<Rightarrow> ksys \<Rightarrow> scheduler_info \<Rightarrow> scheduler_info" where
  "lock_si complete s si =
     (let si2 = si\<lparr>lock_scheduler := True, lock_flags := (if k_if s then 1 else 0), si_idle := 0\<rparr> in
      (if complete then halt_running si2 else si2)\<lparr>nested_lock := 1\<rparr>)"

definition lock_sys :: "nat \<Rightarrow> bool \<Rightarrow> ksys \<Rightarrow> ksys" where
  "lock_sys c complete s =
     put_si (int c) (lock_si complete s (k_sched s ! c))
       (s\<lparr>k_if := False, k_ipis := (if si_idle (k_sched s ! c) \<noteq> 0 then k_ipis s @ [c] else k_ipis s)\<rparr>)"

lemma lock_si_fields [simp]:
  "sched_queue (lock_si b s si) = sched_queue si" "sched_count (lock_si b s si) = sched_count si"
  "sched_size (lock_si b s si) = sched_size si" "pause_queue (lock_si b s si) = pause_queue si"
  "pause_count (lock_si b s si) = pause_count si" "pause_size (lock_si b s si) = pause_size si"
  "si_position (lock_si b s si) = si_position si" "fast_ring (lock_si b s si) = fast_ring si"
  "fast_start (lock_si b s si) = fast_start si" "fast_stop (lock_si b s si) = fast_stop si"
  "si_cpu_id (lock_si b s si) = si_cpu_id si" "nested_lock (lock_si b s si) = 1"
  "lock_flags (lock_si b s si) = (if k_if s then 1 else 0)"
  "current_thread (lock_si False s si) = current_thread si"
  "requesting_thread (lock_si b s si) = requesting_thread si"
  "requesting_state (lock_si b s si) = requesting_state si"
  by (simp_all add: lock_si_def halt_running_def Let_def)

lemma lock_sys_fields [simp]:
  "k_threads (lock_sys c b s) = k_threads s" "k_time (lock_sys c b s) = k_time s"
  "k_cpu_count (lock_sys c b s) = k_cpu_count s" "k_CPUID (lock_sys c b s) = k_CPUID s"
  "length (k_sched (lock_sys c b s)) = length (k_sched s)" "k_if (lock_sys c b s) = False"
  by (simp_all add: lock_sys_def put_si_def)

lemma lock_sys_nth [simp]:
  "c < length (k_sched s) \<Longrightarrow> k_sched (lock_sys c b s) ! c = lock_si b s (k_sched s ! c)"
  "i \<noteq> c \<Longrightarrow> k_sched (lock_sys c b s) ! i = k_sched s ! i"
  by (simp_all add: lock_sys_def put_si_def)

lemma sched_lock_eq:
  assumes "sys_ok s" and "c < k_cpu_count s" and "b \<Longrightarrow> c \<noteq> k_CPUID s"
  shows "sched_lock (int c) b s = Inr (lock_sys c b s)"
proof -
  have c: "cpu_ok c (k_sched s ! c)" "c < length (k_sched s)" using sys_ok_cpu [OF assms(1,2)] by auto
  have n: "nested_lock (halt_running x) = nested_lock x" for x by (simp add: halt_running_def)
  have cc: "\<not> (int (k_CPUID s) = int c \<and> b)" using assms(3) by auto
  show ?thesis
    using c assms(2) cc
    by (simp add: sched_lock_def get_si_def lock_sys_def lock_si_def cpu_ok_def put_si_def Let_def n)
qed

text \<open>
  What releasing a lock makes of the state: the scheduler as it was left, interrupts on again only
  when the lock was this CPU's own.
\<close>

definition unlock_sys :: "nat \<Rightarrow> scheduler_info \<Rightarrow> ksys \<Rightarrow> ksys" where
  "unlock_sys c si s =
     (let s1 = s\<lparr>k_sched := (k_sched s)[c := si\<lparr>nested_lock := 0, lock_scheduler := False\<rparr>]\<rparr> in
      if k_CPUID s = c \<and> lock_flags si \<noteq> 0 then s1\<lparr>k_if := True\<rparr> else s1)"

lemma sched_unlock_eq:
  assumes "c < k_cpu_count s" and "c < length (k_sched s)" and "nested_lock si = 1"
  shows "sched_unlock (int c) (put_si (int c) si s) = Inr (unlock_sys c si s)"
    and "k_sched s ! c = si \<Longrightarrow> sched_unlock (int c) s = Inr (unlock_sys c si s)"
  using assms by (simp_all add: sched_unlock_def put_si_nat unlock_sys_def Let_def)

lemma unlock_sys_fields [simp]:
  "k_threads (unlock_sys c si s) = k_threads s" "k_time (unlock_sys c si s) = k_time s"
  "k_cpu_count (unlock_sys c si s) = k_cpu_count s" "k_CPUID (unlock_sys c si s) = k_CPUID s"
  "k_sched (unlock_sys c si s) = (k_sched s)[c := si\<lparr>nested_lock := 0, lock_scheduler := False\<rparr>]"
  "k_if (unlock_sys c si s) = (k_if s \<or> k_CPUID s = c \<and> lock_flags si \<noteq> 0)"
  by (auto simp: unlock_sys_def Let_def)

lemma put_tr_fields [simp]:
  "k_sched (put_tr t th s) = k_sched s" "k_time (put_tr t th s) = k_time s"
  "k_cpu_count (put_tr t th s) = k_cpu_count s" "k_CPUID (put_tr t th s) = k_CPUID s"
  "k_threads (put_tr t th s) = (k_threads s)(t \<mapsto> th)" "k_if (put_tr t th s) = k_if s"
  by (simp_all add: put_tr_def)

text \<open>After a locked operation that left a good scheduler, the system is in order again.\<close>

lemma sys_ok_unlock:
  assumes "sys_ok s" and "c < k_cpu_count s" and "si_ok si" and "si_cpu_id si = c"
    and "k_sched s' = (k_sched s)[c := si0]" and "k_cpu_count s' = k_cpu_count s" "k_CPUID s' = k_CPUID s"
    and "k_time s' = k_time s"
  shows "sys_ok (unlock_sys c si s')"
proof -
  let ?si = "si\<lparr>nested_lock := 0, lock_scheduler := False\<rparr>"
  have "si_ok ?si" using assms(3) by (simp add: si_ok_def pausedq_def)
  then have "cpu_ok c ?si" using assms(4) by (simp add: cpu_ok_def)
  moreover have "c < length (k_sched s)" using sys_ok_cpu [OF assms(1,2)] by simp
  ultimately show ?thesis
    using assms(1,2,5-) by (auto simp: sys_ok_def nth_list_update)
qed

text \<open>What a locked operation on CPU \<open>c\<close> leaves alone.\<close>

definition only_cpu :: "nat \<Rightarrow> ksys \<Rightarrow> ksys \<Rightarrow> bool" where
  "only_cpu c s s' \<longleftrightarrow>
     (\<forall>i. i \<noteq> c \<longrightarrow> k_sched s' ! i = k_sched s ! i) \<and> length (k_sched s') = length (k_sched s)
     \<and> k_time s' = k_time s \<and> k_cpu_count s' = k_cpu_count s \<and> k_CPUID s' = k_CPUID s
     \<and> (k_if s' \<longleftrightarrow> k_if s \<and> c = k_CPUID s)"

lemma only_cpu_unlock:
  assumes "c < length (k_sched s)" and "lock_flags si = (if k_if s then 1 else 0)"
    and "k_sched s' = (k_sched s)[c := si0]" and "k_cpu_count s' = k_cpu_count s" "k_CPUID s' = k_CPUID s"
    and "k_time s' = k_time s" and "\<not> k_if s'"
  shows "only_cpu c s (unlock_sys c si s')"
  using assms by (auto simp: only_cpu_def)

lemma lock_sys_sched: "k_sched (lock_sys c b s) = (k_sched s)[c := lock_si b s (k_sched s ! c)]"
  by (simp add: lock_sys_def put_si_def)

section \<open>The run queue\<close>

lemma sub_queue_ok:
  assumes ok: "sys_ok s" and c: "c < k_cpu_count s"
  defines "si \<equiv> k_sched s ! c"
  shows "\<exists>rc s'. sub_queue (int c) tr s = Inr (rc, s') \<and> sys_ok s' \<and> k_threads s' = k_threads s
    \<and> only_cpu c s s' \<and> pausedq (k_sched s' ! c) = pausedq si
    \<and> (if sched_count si = sched_size si then rc = -1 \<and> runq (k_sched s' ! c) = runq si
       else rc = 0 \<and> runq (k_sched s' ! c) = runq si @ [tr])"
proof -
  have ci: "si_ok si" "si_cpu_id si = c" "c < length (k_sched s)"
    using sys_ok_cpu [OF ok c] by (simp_all add: si_def cpu_ok_def)
  let ?s1 = "lock_sys c False s" and ?l = "lock_si False s si"
  have lk: "sched_lock (int c) False s = Inr ?s1" by (rule sched_lock_eq [OF ok c]) simp
  have s1: "k_sched ?s1 ! c = ?l" using ci(3) by (simp add: si_def)
  show ?thesis
  proof (cases "sched_count si = sched_size si")
    case True
    let ?s' = "unlock_sys c ?l ?s1"
    have "sub_queue (int c) tr s = Inr (-1, ?s')"
      using lk ci True s1 c sched_unlock_eq(2) [of c ?s1 ?l] by (simp add: sub_queue_def si_def [symmetric] Let_def)
    moreover have "sys_ok ?s'"
      by (rule sys_ok_unlock [OF ok c, of _ _ ?l]) (use ci in \<open>simp_all add: si_ok_def pausedq_def lock_sys_sched si_def\<close>)
    moreover have "only_cpu c s ?s'"
      by (rule only_cpu_unlock [where ?si0.0 = ?l]) (use ci in \<open>simp_all add: lock_sys_sched si_def\<close>)
    ultimately show ?thesis using True ci(3) by (auto simp: pausedq_def runq_def)
  next
    case False
    then have lt: "sched_count si < length (sched_queue si)" using ci(1) by (simp add: si_ok_def)
    let ?q = "(sched_queue si)[sched_count si := Some tr]"
    let ?n = "?l\<lparr>sched_queue := ?q, sched_count := sched_count si + 1\<rparr>"
    let ?s' = "unlock_sys c ?n ?s1"
    have tk: "take (Suc (sched_count si)) ?q = take (sched_count si) (sched_queue si) @ [Some tr]"
      using lt by (simp add: take_Suc_conv_app_nth)
    have "sub_queue (int c) tr s = Inr (0, ?s')"
      using lk ci False s1 c lt sched_unlock_eq(1) [of c ?s1 ?n]
      by (simp add: sub_queue_def si_def [symmetric] Let_def)
    moreover have "si_ok ?n" using ci(1) lt tk by (auto simp: si_ok_def pausedq_def)
    then have "sys_ok ?s'"
      by (rule sys_ok_unlock [OF ok c, of _ _ ?l]) (use ci in \<open>simp_all add: lock_sys_sched si_def\<close>)
    moreover have "only_cpu c s ?s'"
      by (rule only_cpu_unlock [where ?si0.0 = ?l]) (use ci in \<open>simp_all add: lock_sys_sched si_def\<close>)
    ultimately show ?thesis using False ci(3) tk by (auto simp: pausedq_def runq_def)
  qed
qed

lemma unqueue_at_ok:
  assumes ok: "si_ok si" and pos: "pos < sched_count si"
  shows "\<exists>si'. unqueue_at pos si = Inr si' \<and> si_ok si' \<and> runq si' = take pos (runq si) @ drop (Suc pos) (runq si)
    \<and> sched_size si' = sched_size si
    \<and> si' = si\<lparr>sched_queue := sched_queue si', sched_count := sched_count si', si_position := si_position si'\<rparr>"
proof -
  let ?n = "sched_count si - 1"
  let ?q = "take pos (sched_queue si) @ take (?n - pos) (drop (Suc pos) (sched_queue si)) @ drop ?n (sched_queue si)"
  let ?si = "si\<lparr>sched_queue := ?q, sched_count := ?n,
    si_position := (if ?n = 0 then 0 else sub32 (si_position si) 1 mod ?n)\<rparr>"
  have len: "length (sched_queue si) = sched_size si" "sched_count si \<le> sched_size si" "sched_size si < 2 ^ 32"
    using ok by (auto simp: si_ok_def)
  have n: "sub32 (sched_count si) 1 = ?n" using pos len by (simp add: sub32_le)
  have "pos + (?n - pos) < length (sched_queue si)" using pos len by simp
  from close_gap_ok [OF this] have run: "unqueue_at pos si = Inr ?si"
    using pos n by (simp add: unqueue_at_def Let_def)
  have "length (take pos (sched_queue si)) = pos"
    "length (take (?n - pos) (drop (Suc pos) (sched_queue si))) = ?n - pos"
    using pos len by simp_all
  then have tk: "take ?n ?q = take pos (sched_queue si) @ take (?n - pos) (drop (Suc pos) (sched_queue si))"
    using pos by simp
  have old: "take (sched_count si) (sched_queue si)
      = take pos (sched_queue si) @ sched_queue si ! pos # take (?n - pos) (drop (Suc pos) (sched_queue si))"
  proof -
    have "take (sched_count si) (sched_queue si) = take (pos + Suc (?n - pos)) (sched_queue si)" using pos by simp
    also have "\<dots> = take pos (sched_queue si) @ take (Suc (?n - pos)) (drop pos (sched_queue si))" by (rule take_add)
    finally show ?thesis using pos len by (simp add: Cons_nth_drop_Suc [symmetric])
  qed
  have "runq ?si = take pos (runq si) @ drop (Suc pos) (runq si)"
    unfolding runq_def old using tk pos len by simp
  moreover have "si_ok ?si"
  proof -
    have "length ?q = length (sched_queue si)" using pos len by simp
    moreover have "list_all (\<lambda>c. c \<noteq> None) (take ?n ?q)" using ok tk unfolding si_ok_def old by simp
    moreover have "?n \<le> sched_size si" using len by simp
    ultimately show ?thesis using ok pos by (simp add: si_ok_def pausedq_def)
  qed
  ultimately show ?thesis using run by (intro exI [of _ ?si]) simp
qed

lemma runq_find:
  assumes "si_ok si"
  shows "\<exists>pos. find_tr (sched_queue si) tr 0 (sched_count si) = Inr pos \<and> pos \<le> sched_count si
    \<and> (pos = sched_count si \<longleftrightarrow> tr \<notin> set (runq si))
    \<and> (pos < sched_count si \<longrightarrow> take pos (runq si) @ drop (Suc pos) (runq si) = remove1 tr (runq si))"
proof -
  let ?q = "sched_queue si" and ?n = "sched_count si"
  have n: "?n \<le> length ?q" and some: "\<forall>c \<in> set (take ?n ?q). c \<noteq> None"
    using assms by (auto simp: si_ok_def list_all_iff)
  from find_first_0 [OF n, of "\<lambda>c. c = Some tr"] obtain r where
    r: "find_tr ?q tr 0 ?n = Inr r" "r \<le> ?n" "\<forall>x \<in> set (take r ?q). x \<noteq> Some tr" "r < ?n \<longrightarrow> ?q ! r = Some tr"
    unfolding find_first_loops by blast
  have tk: "take r (runq si) = map the (take r ?q)" using r(2) by (simp add: runq_def take_map min_def)
  have nin: "tr \<notin> set (take r (runq si))"
  proof
    assume "tr \<in> set (take r (runq si))"
    then obtain c where c: "c \<in> set (take r ?q)" "tr = the c" unfolding tk by auto
    moreover have "c \<in> set (take ?n ?q)" using c(1) r(2) set_take_subset_set_take [of r ?n ?q] by auto
    ultimately show False using r(3) some by auto
  qed
  have at: "runq si ! r = tr" "r < length (runq si)" if "r < ?n" using that r(4) n by (simp_all add: runq_def)
  have mem: "r = ?n \<longleftrightarrow> tr \<notin> set (runq si)"
  proof
    assume "r = ?n"
    then have "take r (runq si) = runq si" using n by (simp add: runq_def)
    with nin show "tr \<notin> set (runq si)" by simp
  next
    assume "tr \<notin> set (runq si)"
    with at r(2) show "r = ?n" by (metis le_neq_implies_less nth_mem)
  qed
  have "take r (runq si) @ drop (Suc r) (runq si) = remove1 tr (runq si)" if "r < ?n"
  proof -
    have "runq si = take r (runq si) @ tr # drop (Suc r) (runq si)"
      using id_take_nth_drop [OF at(2) [OF that]] at(1) [OF that] by simp
    then show ?thesis using nin by (metis remove1_append remove1.simps(2))
  qed
  with r mem show ?thesis by blast
qed

lemma sub_dequeue_ok:
  assumes ok: "sys_ok s" and c: "c < k_cpu_count s"
    and cur: "current_thread (k_sched s ! k_CPUID s) \<noteq> Some tr"
    and there: "tr \<in> set (runq (k_sched s ! c))"
  defines "si \<equiv> k_sched s ! c"
  shows "\<exists>s'. sub_dequeue (int c) tr s = Inr (0, s') \<and> sys_ok s' \<and> k_threads s' = k_threads s
    \<and> only_cpu c s s' \<and> pausedq (k_sched s' ! c) = pausedq si
    \<and> runq (k_sched s' ! c) = remove1 tr (runq si)"
proof -
  let ?b = "c \<noteq> k_CPUID s"
  have ci: "si_ok si" "si_cpu_id si = c" "c < length (k_sched s)"
    using sys_ok_cpu [OF ok c] by (simp_all add: si_def cpu_ok_def)
  let ?s1 = "lock_sys c ?b s" and ?l = "lock_si ?b s si"
  have lk: "sched_lock (int c) ?b s = Inr ?s1" by (rule sched_lock_eq [OF ok c]) simp
  have s1: "k_sched ?s1 ! c = ?l" using ci(3) by (simp add: si_def)
  have l: "si_ok ?l" "runq ?l = runq si" using ci(1) by (simp_all add: si_ok_def pausedq_def runq_def)
  from runq_find [OF l(1), of tr] there obtain pos where
    pos: "find_tr (sched_queue ?l) tr 0 (sched_count ?l) = Inr pos" "pos < sched_count ?l"
      "take pos (runq si) @ drop (Suc pos) (runq si) = remove1 tr (runq si)"
    using l(2) by (auto simp: si_def)
  from unqueue_at_ok [OF l(1) pos(2)] obtain n where n: "unqueue_at pos ?l = Inr n" "si_ok n"
    "runq n = remove1 tr (runq si)"
    "n = ?l\<lparr>sched_queue := sched_queue n, sched_count := sched_count n, si_position := si_position n\<rparr>"
    using l(2) pos(3) by auto
  have nf: "nested_lock n = 1" "lock_flags n = (if k_if s then 1 else 0)" "si_cpu_id n = c" "pausedq n = pausedq si"
    using ci(2) by (subst n(4), simp add: pausedq_def)+
  let ?s' = "unlock_sys c n ?s1"
  have "this_thread s = Inr (current_thread (k_sched s ! k_CPUID s))"
    using ok by (simp add: this_thread_def sys_ok_def)
  then have "sub_dequeue (int c) tr s = Inr (0, ?s')"
    using lk ci cur s1 c pos n(1) nf(1) sched_unlock_eq(1) [of c ?s1 n]
    by (simp add: sub_dequeue_def si_def [symmetric] Let_def)
  moreover have "sys_ok ?s'"
    by (rule sys_ok_unlock [OF ok c n(2) nf(3), of _ ?l]) (simp_all add: lock_sys_sched si_def)
  moreover have "only_cpu c s ?s'"
    by (rule only_cpu_unlock [where ?si0.0 = ?l]) (use ci nf in \<open>simp_all add: lock_sys_sched si_def\<close>)
  ultimately show ?thesis using ci(3) nf(4) n(3) by (auto simp: pausedq_def runq_def)
qed

section \<open>Paused threads\<close>

text \<open>The place of a new entry: behind all that wake up no later.\<close>

definition paused_insert :: "paused_schedule \<Rightarrow> paused_schedule list \<Rightarrow> paused_schedule list" where
  "paused_insert e ps =
     takeWhile (\<lambda>p. ps_request p \<le> ps_request e) ps @ e # dropWhile (\<lambda>p. ps_request p \<le> ps_request e) ps"

lemma paused_insert_mset: "mset (paused_insert e ps) = add_mset e (mset ps)"
proof -
  have "mset ps = mset (takeWhile (\<lambda>p. ps_request p \<le> ps_request e) ps)
      + mset (dropWhile (\<lambda>p. ps_request p \<le> ps_request e) ps)"
    by (metis mset_append takeWhile_dropWhile_id)
  then show ?thesis by (simp add: paused_insert_def)
qed

lemma sorted_dropWhile:
  assumes "sorted (map f xs)" and x: "x \<in> set (dropWhile (\<lambda>x. f x \<le> t) xs)"
  shows "(t :: 'a :: linorder) < f x"
proof (cases "dropWhile (\<lambda>x. f x \<le> t) xs")
  case Nil
  with x show ?thesis by (metis emptyE empty_set)
next
  case (Cons d ds)
  have "sorted (map f (takeWhile (\<lambda>x. f x \<le> t) xs @ dropWhile (\<lambda>x. f x \<le> t) xs))" using assms(1) by simp
  then have "sorted (map f (d # ds))" unfolding Cons map_append sorted_append by blast
  moreover have "t < f d" using Cons by (metis dropWhile_eq_Cons_conv linorder_not_le)
  moreover have "x \<in> set (d # ds)" using x unfolding Cons .
  ultimately show ?thesis by auto
qed

lemma sorted_split:
  assumes "sorted (map f xs)"
  shows "takeWhile (\<lambda>x. f x \<le> t) xs = filter (\<lambda>x. f x \<le> t) xs"
    and "dropWhile (\<lambda>x. f x \<le> t) xs = filter (\<lambda>x. (t :: 'a :: linorder) < f x) xs"
proof -
  let ?P = "\<lambda>x. f x \<le> t"
  note gt = sorted_dropWhile [OF assms, of _ t]
  show "takeWhile ?P xs = filter ?P xs" by (rule takeWhile_eq_filter) (use gt in \<open>simp add: not_le\<close>)
  have "filter (\<lambda>x. t < f x) xs = filter (\<lambda>x. t < f x) (takeWhile ?P xs @ dropWhile ?P xs)" by simp
  also have "filter (\<lambda>x. t < f x) (takeWhile ?P xs) = []" by (auto simp: filter_empty_conv not_less dest: set_takeWhileD)
  then have "filter (\<lambda>x. t < f x) (takeWhile ?P xs @ dropWhile ?P xs) = filter (\<lambda>x. t < f x) (dropWhile ?P xs)"
    unfolding filter_append by simp
  also have "\<dots> = dropWhile ?P xs" using gt by (intro filter_True) simp
  finally show "dropWhile ?P xs = filter (\<lambda>x. t < f x) xs" by simp
qed

lemma paused_insert_sorted:
  assumes "sorted (map ps_request ps)"
  shows "sorted (map ps_request (paused_insert e ps))"
proof -
  let ?P = "\<lambda>p. ps_request p \<le> ps_request e"
  have "sorted (map ps_request (takeWhile ?P ps @ dropWhile ?P ps))" using assms by simp
  then have s: "sorted (map ps_request (takeWhile ?P ps))" "sorted (map ps_request (dropWhile ?P ps))"
    unfolding map_append sorted_append by simp_all
  have lo: "ps_request p \<le> ps_request e" if "p \<in> set (takeWhile ?P ps)" for p using that by (auto dest: set_takeWhileD)
  have hi: "ps_request e \<le> ps_request p" if "p \<in> set (dropWhile ?P ps)" for p
    using sorted_dropWhile [OF assms that] by simp
  from s lo hi show ?thesis unfolding paused_insert_def by (fastforce simp: sorted_append)
qed

lemma pause_array:
  assumes n: "n < length q"
  shows "\<exists>pos q1. find_later q target 0 n = Inr pos \<and> pos \<le> n \<and> shift_up q n (n - pos) = Inr q1
    \<and> length q1 = length q \<and> take (Suc n) (q1[pos := e]) = take pos q @ e # take (n - pos) (drop pos q)
    \<and> takeWhile (\<lambda>p. ps_request p \<le> target) (take n q) = take pos q
    \<and> dropWhile (\<lambda>p. ps_request p \<le> target) (take n q) = take (n - pos) (drop pos q)"
proof -
  let ?P = "\<lambda>p. ps_request p \<le> target"
  from find_first_0 [of n q "\<lambda>c. ps_request c > target"] n obtain pos where
    pos: "find_later q target 0 n = Inr pos" "pos \<le> n" "\<forall>x \<in> set (take pos q). ?P x"
      "pos < n \<longrightarrow> \<not> ?P (q ! pos)" unfolding find_first_loops by (auto simp: not_less)
  let ?q1 = "take pos q @ q ! pos # take (n - pos) (drop pos q) @ drop (Suc n) q"
  have up: "shift_up q n (n - pos) = Inr ?q1" using shift_up_ok [of "n - pos" n q] n pos(2) by simp
  have len: "length (take pos q) = pos" "length (take (n - pos) (drop pos q)) = n - pos" using n pos(2) by simp_all
  have "?q1[pos := e] = take pos q @ e # take (n - pos) (drop pos q) @ drop (Suc n) q"
    using len by (simp add: list_update_append)
  then have tk: "take (Suc n) (?q1[pos := e]) = take pos q @ e # take (n - pos) (drop pos q)"
    using len pos(2) by (simp add: Suc_diff_le)
  have "takeWhile ?P (take n q) = take pos (take n q)"
  proof (rule takeWhile_eq_take_P_nth)
    show "?P (take n q ! i)" if "i < pos" "i < length (take n q)" for i
      using pos(3) that n by (simp add: set_conv_nth) (metis le_eq_less_or_eq length_take less_trans min.absorb2 nth_take pos(2))
    show "\<not> ?P (take n q ! pos)" if "pos < length (take n q)" using pos(4) that by simp
  qed
  then have tw: "takeWhile ?P (take n q) = take pos q" using pos(2) by (simp add: min_def)
  have "dropWhile ?P (take n q) = drop pos (take n q)" unfolding dropWhile_eq_drop tw using len(1) by simp
  then have dw: "dropWhile ?P (take n q) = take (n - pos) (drop pos q)" by (simp add: drop_take)
  have "length ?q1 = length q" using n pos(2) by simp
  with pos(1,2) up tk tw dw show ?thesis by blast
qed

lemma list_all_paused_insert:
  "list_all P (paused_insert e ps) \<longleftrightarrow> P e \<and> list_all P ps"
proof -
  have "set (paused_insert e ps) = insert e (set ps)"
    by (metis paused_insert_mset set_mset_add_mset_insert set_mset_mset)
  then show ?thesis by (simp add: list_all_iff)
qed

text \<open>A thread that pauses itself: it is the one this CPU is running.\<close>

lemma pause_ok:
  assumes ok: "sys_ok s" and th: "k_threads s tr = Some th" and cpu: "t_cpu th = int (k_CPUID s)"
    and cur: "current_thread (k_sched s ! k_CPUID s) = Some tr" and run: "t_state th = THREAD_RUNNING"
    and ms: "0 < ms" "ms + st_usage (k_time s ! k_CPUID s) < 2 ^ 64"
  defines "c \<equiv> k_CPUID s" and "si \<equiv> k_sched s ! k_CPUID s" and "now \<equiv> st_usage (k_time s ! k_CPUID s)"
  shows "\<exists>rc s'. pause tr ms s = Inr (rc, s') \<and> sys_ok s' \<and> only_cpu c s s'
    \<and> runq (k_sched s' ! c) = runq si
    \<and> (if pause_count si = pause_size si
       then rc = -1 \<and> pausedq (k_sched s' ! c) = pausedq si \<and> k_threads s' = k_threads s
       else rc = 0
         \<and> pausedq (k_sched s' ! c) = paused_insert
              \<lparr>ps_tr = Some tr, ps_state = THREAD_RUNNING, ps_request = ms + now, ps_start = now\<rparr> (pausedq si)
         \<and> requesting_thread (k_sched s' ! c) = Some tr \<and> requesting_state (k_sched s' ! c) = THREAD_DORMANT
         \<and> k_threads s' = (k_threads s)(tr \<mapsto> th\<lparr>t_duration := ms\<rparr>))"
proof -
  have c: "c < k_cpu_count s" "c < length (k_time s)" using ok by (auto simp: sys_ok_def c_def)
  have ci: "si_ok si" "si_cpu_id si = c" "c < length (k_sched s)" "k_sched s ! c = si"
    using sys_ok_cpu [OF ok c(1)] by (simp_all add: si_def cpu_ok_def c_def)
  let ?s1 = "lock_sys c False s" and ?l = "lock_si False s si"
  have lk: "sched_lock (int c) False s = Inr ?s1" by (rule sched_lock_eq [OF ok c(1)]) simp
  have s1: "k_sched ?s1 ! c = ?l" using ci(3,4) by simp
  have start: "pause tr ms s =
      (let target = ms + now in
       if pause_count ?l = pause_size ?l
       then bindR (sched_unlock (int c) ?s1) (\<lambda>s2. Inr (-1, s2))
       else
         bindR (find_later (pause_queue ?l) target 0 (pause_count ?l)) (\<lambda>pos.
         bindR (shift_up (pause_queue ?l) (pause_count ?l) (pause_count ?l - pos)) (\<lambda>q.
         bindR (aput q pos \<lparr>ps_tr = Some tr, ps_state = t_state th, ps_request = target, ps_start = now\<rparr>) (\<lambda>q'.
         bindR (set_thread_state tr THREAD_DORMANT
                  (put_si (int c) (?l\<lparr>pause_queue := q', pause_count := pause_count ?l + 1\<rparr>) ?s1)) (\<lambda>s2.
         bindR (get_tr tr s2) (\<lambda>th2.
         bindR (sched_unlock (int c) (put_tr tr (th2\<lparr>t_duration := ms\<rparr>) s2)) (\<lambda>s3.
         Inr (0, s3))))))))"
    using ms th cpu lk s1 c ci(3) by (simp add: pause_def get_tr_def c_def [symmetric] now_def Let_def)
  show ?thesis
  proof (cases "pause_count si = pause_size si")
    case True
    let ?s' = "unlock_sys c ?l ?s1"
    have "pause tr ms s = Inr (-1, ?s')"
      unfolding start using True s1 c(1) ci(3) sched_unlock_eq(2) [of c ?s1 ?l] by (simp add: Let_def)
    moreover have "sys_ok ?s'"
      by (rule sys_ok_unlock [OF ok c(1), of _ _ ?l]) (use ci in \<open>simp_all add: si_ok_def pausedq_def lock_sys_sched\<close>)
    moreover have "only_cpu c s ?s'"
      by (rule only_cpu_unlock [where ?si0.0 = ?l]) (use ci in \<open>simp_all add: lock_sys_sched\<close>)
    ultimately show ?thesis using True ci(3) by (auto simp: pausedq_def runq_def)
  next
    case False
    let ?n = "pause_count si" and ?q = "pause_queue si"
    let ?e = "\<lparr>ps_tr = Some tr, ps_state = THREAD_RUNNING, ps_request = ms + now, ps_start = now\<rparr>"
    have n: "?n < length ?q" using False ci(1) by (simp add: si_ok_def)
    from pause_array [OF n, of "ms + now" ?e] obtain pos q1 where
      pq: "find_later ?q (ms + now) 0 ?n = Inr pos" "pos \<le> ?n" "shift_up ?q ?n (?n - pos) = Inr q1"
        "length q1 = length ?q" "take (Suc ?n) (q1[pos := ?e]) = take pos ?q @ ?e # take (?n - pos) (drop pos ?q)"
        "takeWhile (\<lambda>p. ps_request p \<le> ms + now) (take ?n ?q) = take pos ?q"
        "dropWhile (\<lambda>p. ps_request p \<le> ms + now) (take ?n ?q) = take (?n - pos) (drop pos ?q)" by blast
    let ?n1 = "?l\<lparr>pause_queue := q1[pos := ?e], pause_count := ?n + 1\<rparr>"
    let ?n2 = "?n1\<lparr>requesting_thread := Some tr, requesting_state := THREAD_DORMANT\<rparr>"
    let ?s2 = "put_si (int c) ?n1 ?s1"
    have pos: "pos < length q1" using pq(2,4) n by simp
    have st: "set_thread_state tr THREAD_DORMANT ?s2 = Inr (put_si (int c) ?n2 ?s1)"
      using th run cur ci(3,4) c_def
      by (simp add: set_thread_state_def get_tr_def this_thread_def put_si_nat thread_states si_def)
    let ?t1 = "put_tr tr (th\<lparr>t_duration := ms\<rparr>) ?s1"
    let ?s' = "unlock_sys c ?n2 ?t1"
    have sw: "put_tr tr x (put_si (int c) ?n2 ?s1) = put_si (int c) ?n2 (put_tr tr x ?s1)" for x
      by (simp add: put_tr_def put_si_def)
    have "get_tr tr (put_si (int c) ?n2 ?s1) = Inr th" using th by (simp add: get_tr_def put_si_def)
    then have "pause tr ms s = Inr (0, ?s')"
      unfolding start using False pq(1,3) pos st run sw c(1) ci(3) sched_unlock_eq(1) [of c ?t1 ?n2] by (simp add: Let_def)
    moreover have pz: "pausedq ?n2 = paused_insert ?e (pausedq si)"
      using pq(5-7) by (simp add: pausedq_def paused_insert_def)
    moreover have "si_ok ?n2"
    proof -
      have "list_all (\<lambda>c. ps_tr c \<noteq> None \<and> ps_request c < 2 ^ 64) (pausedq ?n2)"
        unfolding pz list_all_paused_insert using ci(1) ms(2) by (simp add: si_ok_def now_def)
      moreover have "sorted (map ps_request (pausedq ?n2))"
        unfolding pz by (rule paused_insert_sorted) (use ci(1) in \<open>simp add: si_ok_def\<close>)
      ultimately show ?thesis using ci(1) n pq(4) by (simp add: si_ok_def)
    qed
    then have "sys_ok ?s'"
      by (rule sys_ok_unlock [OF ok c(1), of _ _ ?l]) (use ci in \<open>simp_all add: lock_sys_sched\<close>)
    moreover have "only_cpu c s ?s'"
      by (rule only_cpu_unlock [where ?si0.0 = ?l]) (use ci in \<open>simp_all add: lock_sys_sched\<close>)
    ultimately show ?thesis using False ci(3) by (auto simp: pausedq_def runq_def)
  qed
qed

lemma restart_array:
  assumes n: "n \<le> length q" and there: "Some tr \<in> ps_tr ` set (take n q)"
  shows "\<exists>pos q1. find_paused q tr 0 n = Inr pos \<and> pos < n \<and> ps_tr (take n q ! pos) = Some tr
    \<and> shift_up q pos pos = Inr q1 \<and> length q1 = length q
    \<and> take n (q1[0 := e]) = e # take pos (take n q) @ drop (Suc pos) (take n q)"
proof -
  from find_first_0 [OF n, of "\<lambda>c. ps_tr c = Some tr"] obtain pos where
    pos: "find_paused q tr 0 n = Inr pos" "pos \<le> n" "\<forall>x \<in> set (take pos q). ps_tr x \<noteq> Some tr"
      "pos < n \<longrightarrow> ps_tr (q ! pos) = Some tr" unfolding find_first_loops by blast
  have lt: "pos < n" using there pos(2,3) by (metis image_iff le_neq_implies_less)
  let ?q1 = "q ! 0 # take pos q @ drop (Suc pos) q"
  have up: "shift_up q pos pos = Inr ?q1" using shift_up_ok [of pos pos q] lt n by simp
  have "take n (?q1[0 := e]) = e # take (n - 1) (take pos q @ drop (Suc pos) q)"
    using lt by (cases n) simp_all
  also have "\<dots> = e # take pos (take n q) @ drop (Suc pos) (take n q)"
    using lt n min.absorb2 [of pos "n - 1"] by (simp add: drop_take)
  finally have "take n (?q1[0 := e]) = e # take pos (take n q) @ drop (Suc pos) (take n q)" .
  moreover have "length ?q1 = length q" using lt n by simp
  moreover have "ps_tr (take n q ! pos) = Some tr" using pos(4) lt by simp
  ultimately show ?thesis using pos(1) up lt by blast
qed

lemma restart_ok:
  assumes ok: "sys_ok s" and th: "k_threads s tr = Some th" and home: "home_cpu th s = Inr (int c)"
    and c: "c < k_cpu_count s" and there: "Some tr \<in> ps_tr ` set (pausedq (k_sched s ! c))"
  defines "si \<equiv> k_sched s ! c"
  shows "\<exists>pos s'. restart tr s = Inr (0, s') \<and> sys_ok s' \<and> only_cpu c s s' \<and> k_threads s' = k_threads s
    \<and> runq (k_sched s' ! c) = runq si \<and> pos < length (pausedq si) \<and> ps_tr (pausedq si ! pos) = Some tr
    \<and> pausedq (k_sched s' ! c) = (pausedq si ! pos)\<lparr>ps_request := 0\<rparr> # take pos (pausedq si) @ drop (Suc pos) (pausedq si)"
proof -
  let ?b = "c \<noteq> k_CPUID s"
  have ci: "si_ok si" "si_cpu_id si = c" "c < length (k_sched s)" "k_sched s ! c = si"
    using sys_ok_cpu [OF ok c] by (simp_all add: si_def cpu_ok_def)
  let ?s1 = "lock_sys c ?b s" and ?l = "lock_si ?b s si"
  have lk: "sched_lock (int c) ?b s = Inr ?s1" by (rule sched_lock_eq [OF ok c]) simp
  have s1: "k_sched ?s1 ! c = ?l" using ci(3,4) by simp
  let ?n = "pause_count si" and ?q = "pause_queue si"
  have n: "?n \<le> length ?q" using ci(1) by (simp add: si_ok_def)
  have "Some tr \<in> ps_tr ` set (take ?n ?q)" using there by (simp add: si_def pausedq_def)
  note arr = restart_array [OF n this]
  obtain pos where pos: "find_paused ?q tr 0 ?n = Inr pos" using arr by blast
  let ?e = "(?q ! pos)\<lparr>ps_request := 0\<rparr>"
  from arr [of ?e] pos obtain q1 where q1: "pos < ?n" "ps_tr (take ?n ?q ! pos) = Some tr"
    "shift_up ?q pos pos = Inr q1" "length q1 = length ?q"
    "take ?n (q1[0 := ?e]) = ?e # take pos (take ?n ?q) @ drop (Suc pos) (take ?n ?q)" by auto
  let ?m = "?l\<lparr>pause_queue := q1[0 := ?e]\<rparr>"
  let ?s' = "unlock_sys c ?m ?s1"
  have "0 < length q1" using q1(1,4) n by auto
  then have run: "restart tr s = Inr (0, ?s')"
    using th home lk s1 c ci(3) pos q1 n sched_unlock_eq(1) [of c ?s1 ?m]
    by (simp add: restart_def get_tr_def)
  have at: "?q ! pos = pausedq si ! pos" using q1(1) by (simp add: pausedq_def)
  have pz: "pausedq ?m = (pausedq si ! pos)\<lparr>ps_request := 0\<rparr> # take pos (pausedq si) @ drop (Suc pos) (pausedq si)"
    using q1(5) at by (simp add: pausedq_def)
  have "si_ok ?m"
  proof -
    have len: "pos < length (pausedq si)" using q1(1) n by (simp add: pausedq_def)
    have all: "list_all (\<lambda>c. ps_tr c \<noteq> None \<and> ps_request c < 2 ^ 64) (pausedq si)"
      and srt: "sorted (map ps_request (pausedq si))" using ci(1) by (simp_all add: si_ok_def)
    have sub: "set (take pos (pausedq si) @ drop (Suc pos) (pausedq si)) \<subseteq> set (pausedq si)"
      by (auto dest: in_set_takeD in_set_dropD)
    have a: "list_all (\<lambda>c. ps_tr c \<noteq> None \<and> ps_request c < 2 ^ 64) (pausedq ?m)"
      unfolding pz using all sub nth_mem [OF len] by (auto simp: list_all_iff)
    have "map ps_request (pausedq si) = map ps_request (take pos (pausedq si)) @ ps_request (pausedq si ! pos)
        # map ps_request (drop (Suc pos) (pausedq si))"
      using arg_cong [OF id_take_nth_drop [OF len], of "map ps_request"] by simp
    with srt have "sorted (map ps_request (take pos (pausedq si)) @ map ps_request (drop (Suc pos) (pausedq si)))"
      by (metis sorted_append sorted_simps(2) Un_iff set_append list.set_intros(2))
    then have b: "sorted (map ps_request (pausedq ?m))" unfolding pz by simp
    from a b show ?thesis using ci(1) q1(4) by (simp add: si_ok_def)
  qed
  then have "sys_ok ?s'"
    by (rule sys_ok_unlock [OF ok c, of _ _ ?l]) (use ci in \<open>simp_all add: lock_sys_sched\<close>)
  moreover have "only_cpu c s ?s'"
    by (rule only_cpu_unlock [where ?si0.0 = ?l]) (use ci in \<open>simp_all add: lock_sys_sched\<close>)
  moreover have "pausedq (k_sched ?s' ! c) = pausedq ?m" "runq (k_sched ?s' ! c) = runq si"
    using ci(3) by (simp_all add: pausedq_def runq_def)
  moreover have "pos < length (pausedq si)" "ps_tr (pausedq si ! pos) = Some tr"
    using q1(1,2) n by (simp_all add: pausedq_def)
  ultimately show ?thesis using run pz by (intro exI [of _ pos] exI [of _ ?s']) simp
qed

section \<open>Waking up\<close>

text \<open>The thread table after the threads of some entries were woken up.\<close>

fun wake_threads ::
  "nat \<Rightarrow> nat \<Rightarrow> paused_schedule list \<Rightarrow> (nat \<Rightarrow> thread option) \<Rightarrow> (nat \<Rightarrow> thread option)" where
  "wake_threads time cpu [] ts = ts"
| "wake_threads time cpu (p # ps) ts =
     wake_threads time cpu ps
       (ts(the (ps_tr p) \<mapsto> (the (ts (the (ps_tr p))))
            \<lparr>t_state := ps_state p, t_duration := (time + 2 ^ 64 - ps_start p) mod 2 ^ 64, t_cpu := int cpu\<rparr>))"

lemma wake_threads_other: "t \<notin> (the \<circ> ps_tr) ` set ps \<Longrightarrow> wake_threads time cpu ps ts t = ts t"
  by (induction ps arbitrary: ts) auto

lemma wake_threads_woken:
  "distinct (map (the \<circ> ps_tr) ps) \<Longrightarrow> p \<in> set ps \<Longrightarrow> ts (the (ps_tr p)) = Some th \<Longrightarrow>
     wake_threads time cpu ps ts (the (ps_tr p)) = Some
       (th\<lparr>t_state := ps_state p, t_duration := (time + 2 ^ 64 - ps_start p) mod 2 ^ 64, t_cpu := int cpu\<rparr>)"
proof (induction ps arbitrary: ts)
  case Nil
  then show ?case by simp
next
  case (Cons a ps)
  show ?case
  proof (cases "p = a")
    case True
    with Cons.prems show ?thesis by (simp add: wake_threads_other)
  next
    case False
    then have "p \<in> set ps" using Cons.prems by simp
    moreover have "the (ps_tr p) \<noteq> the (ps_tr a)"
    proof
      assume "the (ps_tr p) = the (ps_tr a)"
      then have "(the \<circ> ps_tr) a \<in> (the \<circ> ps_tr) ` set ps" using \<open>p \<in> set ps\<close> by (intro image_eqI [of _ _ p]) simp_all
      with Cons.prems(1) show False by simp
    qed
    ultimately show ?thesis using Cons by simp
  qed
qed

lemma wake_loop_ok:
  assumes "n + k \<le> length (pause_queue si)" and "pause_count si = k"
    and "\<forall>p \<in> set (takeWhile (\<lambda>p. ps_request p \<le> time) (take k (drop n (pause_queue si)))).
           \<exists>t. ps_tr p = Some t \<and> ts t \<noteq> None"
    and "length (sched_queue si) = sched_size si"
    and "sched_count si + length (takeWhile (\<lambda>p. ps_request p \<le> time) (take k (drop n (pause_queue si)))) \<le> sched_size si"
  defines "W \<equiv> takeWhile (\<lambda>p. ps_request p \<le> time) (take k (drop n (pause_queue si)))"
  shows "\<exists>q. wake_loop time k n si ts =
      Inr (n + length W, si\<lparr>sched_queue := q, sched_count := sched_count si + length W, pause_count := k - length W\<rparr>,
           wake_threads time (si_cpu_id si) W ts)
    \<and> length q = length (sched_queue si)
    \<and> take (sched_count si + length W) q = take (sched_count si) (sched_queue si) @ map ps_tr W"
  using assms(1-5) unfolding W_def
proof (induction k arbitrary: n si ts)
  case 0
  then show ?case by (auto intro!: exI [of _ "sched_queue si"])
next
  case (Suc k)
  let ?p = "pause_queue si ! n" and ?Q = "\<lambda>p. ps_request p \<le> time"
  let ?W = "takeWhile ?Q (take k (drop (Suc n) (pause_queue si)))"
  have n: "n < length (pause_queue si)" using Suc.prems(1) by simp
  then have tk: "take (Suc k) (drop n (pause_queue si)) = ?p # take k (drop (Suc n) (pause_queue si))"
    by (simp add: Cons_nth_drop_Suc [symmetric])
  show ?case
  proof (cases "?Q ?p")
    case False
    then show ?thesis using n Suc.prems(2) unfolding tk
      by (auto intro!: exI [of _ "sched_queue si"])
  next
    case True
    from Suc.prems(3) True obtain t th where t: "ps_tr ?p = Some t" "ts t = Some th" unfolding tk by auto
    have room: "sched_count si < sched_size si" using Suc.prems(5) True unfolding tk by simp
    let ?sq = "(sched_queue si)[sched_count si := Some t]"
    let ?si = "si\<lparr>sched_queue := ?sq, sched_count := sched_count si + 1, pause_count := k\<rparr>"
    let ?ts = "ts(t \<mapsto> th\<lparr>t_state := ps_state ?p, t_duration := (time + 2 ^ 64 - ps_start ?p) mod 2 ^ 64,
                          t_cpu := int (si_cpu_id si)\<rparr>)"
    have st: "wake_loop time (Suc k) n si ts = wake_loop time k (Suc n) ?si ?ts"
      using n True t room Suc.prems(4) by simp
    have pq: "pause_queue ?si = pause_queue si" by simp
    have "\<exists>q. wake_loop time k (Suc n) ?si ?ts =
        Inr (Suc n + length ?W, ?si\<lparr>sched_queue := q, sched_count := sched_count ?si + length ?W,
               pause_count := k - length ?W\<rparr>, wake_threads time (si_cpu_id ?si) ?W ?ts)
      \<and> length q = length (sched_queue ?si)
      \<and> take (sched_count ?si + length ?W) q = take (sched_count ?si) (sched_queue ?si) @ map ps_tr ?W"
    proof (rule Suc.IH [of "Suc n" ?si ?ts, unfolded pq])
      have "\<exists>t'. ps_tr p = Some t' \<and> ts t' \<noteq> None" if "p \<in> set ?W" for p
        using Suc.prems(3) True that unfolding tk by simp
      then show "\<forall>p \<in> set ?W. \<exists>t'. ps_tr p = Some t' \<and> ?ts t' \<noteq> None" by fastforce
      show "sched_count ?si + length ?W \<le> sched_size ?si" using Suc.prems(5) True unfolding tk by simp
    qed (use Suc.prems in simp_all)
    then obtain q where q: "wake_loop time k (Suc n) ?si ?ts =
        Inr (Suc n + length ?W, ?si\<lparr>sched_queue := q, sched_count := sched_count ?si + length ?W,
               pause_count := k - length ?W\<rparr>, wake_threads time (si_cpu_id ?si) ?W ?ts)"
      "length q = length (sched_queue ?si)"
      "take (sched_count ?si + length ?W) q = take (sched_count ?si) (sched_queue ?si) @ map ps_tr ?W" by blast
    have "take (Suc (sched_count si)) ?sq = take (sched_count si) (sched_queue si) @ [Some t]"
      using room Suc.prems(4) by (simp add: take_Suc_conv_app_nth)
    then show ?thesis using st q True t unfolding tk by (intro exI [of _ q]) simp
  qed
qed

lemma remove_timers_ok:
  assumes i: "i < length (k_sched s)" and si: "si_ok (k_sched s ! i)" and time: "time < 2 ^ 64"
  defines "si \<equiv> k_sched s ! i"
  defines "W \<equiv> takeWhile (\<lambda>p. ps_request p \<le> time) (pausedq si)"
    and "R \<equiv> dropWhile (\<lambda>p. ps_request p \<le> time) (pausedq si)"
  assumes room: "sched_count si + length W \<le> sched_size si"
    and known: "\<forall>p \<in> set W. k_threads s (the (ps_tr p)) \<noteq> None"
  shows "\<exists>s'. remove_timers i time s = Inr (if R = [] then 0 else ps_request (hd R) - time, s')
    \<and> si_ok (k_sched s' ! i) \<and> runq (k_sched s' ! i) = runq si @ map (the \<circ> ps_tr) W \<and> pausedq (k_sched s' ! i) = R
    \<and> k_threads s' = wake_threads time (si_cpu_id si) W (k_threads s)
    \<and> s' = s\<lparr>k_sched := (k_sched s)[i := k_sched s' ! i], k_threads := k_threads s'\<rparr>"
proof -
  let ?k = "pause_count si" and ?q = "pause_queue si"
  have ok: "si_ok si" using si by (simp add: si_def)
  have k: "?k \<le> length ?q" and sl: "length (sched_queue si) = sched_size si" using ok by (simp_all add: si_ok_def)
  have all: "list_all (\<lambda>c. ps_tr c \<noteq> None \<and> ps_request c < 2 ^ 64) (pausedq si)"
    and srt: "sorted (map ps_request (pausedq si))" using ok by (simp_all add: si_ok_def)
  have W: "W = takeWhile (\<lambda>p. ps_request p \<le> time) (take ?k (drop 0 ?q))" by (simp add: W_def pausedq_def)
  have Wsub: "set W \<subseteq> set (pausedq si)" unfolding W_def by (auto dest: set_takeWhileD)
  have WR: "pausedq si = W @ R" by (simp add: W_def R_def)
  have lw: "length W \<le> ?k" using arg_cong [OF WR, of length] k by (simp add: pausedq_def)
  have R: "R = take (?k - length W) (drop (length W) ?q)"
  proof -
    have "R = drop (length W) (pausedq si)" using WR by simp
    then show ?thesis by (simp add: pausedq_def drop_take)
  qed
  show ?thesis
  proof (cases "?k = 0")
    case True
    then have "W = []" "R = []" by (simp_all add: W_def R_def pausedq_def)
    moreover have "pausedq si = []" using True by (simp add: pausedq_def)
    moreover have "remove_timers i time s = Inr (0, s)" using True i by (simp add: remove_timers_def si_def)
    ultimately show ?thesis using ok i by (intro exI [of _ s]) (simp add: si_def)
  next
    case False
    have "\<forall>p \<in> set W. \<exists>t. ps_tr p = Some t \<and> k_threads s t \<noteq> None"
    proof
      fix p assume p: "p \<in> set W"
      then have "ps_tr p \<noteq> None" using all Wsub by (auto simp: list_all_iff)
      with known p show "\<exists>t. ps_tr p = Some t \<and> k_threads s t \<noteq> None" by auto
    qed
    from wake_loop_ok [of 0 ?k si time "k_threads s", folded W, OF _ refl this sl room] k obtain q where
      q: "wake_loop time ?k 0 si (k_threads s) = Inr (length W,
          si\<lparr>sched_queue := q, sched_count := sched_count si + length W, pause_count := ?k - length W\<rparr>,
          wake_threads time (si_cpu_id si) W (k_threads s))" "length q = sched_size si"
        "take (sched_count si + length W) q = take (sched_count si) (sched_queue si) @ map ps_tr W"
      using sl by auto
    let ?q' = "take (?k - length W) (drop (length W) ?q) @ drop (?k - length W) ?q"
    let ?si = "si\<lparr>sched_queue := q, sched_count := sched_count si + length W, pause_count := ?k - length W,
                 pause_queue := ?q'\<rparr>"
    let ?s = "put_si (int i) ?si (s\<lparr>k_threads := wake_threads time (si_cpu_id si) W (k_threads s)\<rparr>)"
    have sd: "shift_down ?q (length W) 0 (?k - length W) = Inr ?q'" using shift_down_ok [of 0 "length W" "?k - length W" ?q] lw k by simp
    have pz: "pausedq ?si = R" using R k lw by (simp add: pausedq_def)
    have rq: "runq ?si = runq si @ map (the \<circ> ps_tr) W" using q(3) by (simp add: runq_def)
    have rok: "si_ok ?si"
    proof -
      have sc: "list_all (\<lambda>c. c \<noteq> None) (take (sched_count si + length W) q)"
        unfolding q(3) using ok all Wsub by (auto simp: si_ok_def list_all_iff)
      have "length ?q' = length ?q" using k lw by simp
      moreover have "list_all (\<lambda>c. ps_tr c \<noteq> None \<and> ps_request c < 2 ^ 64) (pausedq ?si)"
        "sorted (map ps_request (pausedq ?si))"
        unfolding pz using all srt unfolding WR by (simp_all add: sorted_append)
      moreover have "?k - length W \<le> pause_size si" "si_position si < max 1 (sched_count si + length W)"
        using ok by (auto simp: si_ok_def)
      ultimately show ?thesis using ok q(2) sc room k unfolding si_ok_def by simp
    qed
    have Rn: "?k - length W = 0 \<longleftrightarrow> R = []" using R k lw by auto
    have "remove_timers i time s = Inr (if R = [] then 0 else ps_request (hd R) - time, ?s)"
    proof (cases "R = []")
      case True
      then show ?thesis using q(1) sd False i Rn by (simp add: remove_timers_def Let_def si_def [symmetric])
    next
      case notR: False
      then have h: "?q' ! 0 = hd R" "0 < length ?q'" using R by (simp_all add: hd_conv_nth nth_append)
      have "hd R \<in> set (pausedq si)" using notR WR by simp
      then have "ps_request (hd R) < 2 ^ 64" using all by (simp add: list_all_iff)
      moreover have "time < ps_request (hd R)" using notR hd_dropWhile [of "\<lambda>p. ps_request p \<le> time" "pausedq si"]
        by (simp add: R_def)
      ultimately have m: "(ps_request (hd R) + 2 ^ 64 - time) mod 2 ^ 64 = ps_request (hd R) - time" using time
        by (metis (no_types, lifting) Nat.add_diff_assoc2 less_imp_diff_less less_imp_le_nat mod_add_self2 mod_less)
      have "\<not> ?k - length W = 0" using notR Rn by simp
      then show ?thesis using q(1) sd False i notR h m by (simp add: remove_timers_def Let_def si_def [symmetric])
    qed
    then show ?thesis using rok pz rq i by (intro exI [of _ ?s]) (simp add: put_si_nat)
  qed
qed

section \<open>The fast queue\<close>

definition fast_count :: "scheduler_info \<Rightarrow> nat" where
  "fast_count si = (fast_stop si + MAX_FAST - fast_start si) mod MAX_FAST"

definition fastq :: "scheduler_info \<Rightarrow> nat option list" where
  "fastq si = ring (fast_ring si) (fast_start si) (fast_count si)"

definition fast_ok :: "scheduler_info \<Rightarrow> bool" where
  "fast_ok si \<longleftrightarrow> length (fast_ring si) = MAX_FAST \<and> fast_start si < MAX_FAST \<and> fast_stop si < MAX_FAST
     \<and> None \<notin> set (fastq si)"

lemma fast_stop_eq: "fast_ok si \<Longrightarrow> (fast_start si + fast_count si) mod MAX_FAST = fast_stop si"
  by (simp add: fast_ok_def fast_count_def mod_add_right_eq)

lemma fast_count_bounds: "fast_ok si \<Longrightarrow> fast_count si < MAX_FAST"
  by (simp add: fast_count_def MAX_FAST_def)

lemma fast_count_0: "fast_ok si \<Longrightarrow> fast_count si = 0 \<longleftrightarrow> fast_start si = fast_stop si"
  using fast_stop_eq [of si] add_mod_distinct [of 0 MAX_FAST "fast_count si" "fast_start si"] fast_count_bounds [of si]
  by (auto simp: fast_ok_def)

lemma fast_put_eq:
  assumes ok: "fast_ok si"
  shows "fast_put tr si = (if fast_count si = MAX_FAST - 1 then Inl Assert_failed
    else Inr (si\<lparr>fast_ring := (fast_ring si)[fast_stop si := Some tr], fast_stop := (fast_stop si + 1) mod MAX_FAST\<rparr>))"
proof -
  have "(fast_stop si + 1) mod MAX_FAST = (fast_start si + (fast_count si + 1)) mod MAX_FAST"
    unfolding fast_stop_eq [OF ok, symmetric] by (simp add: mod_simps add.assoc)
  moreover have "(fast_start si + (fast_count si + 1)) mod MAX_FAST = fast_start si \<longleftrightarrow> fast_count si + 1 = MAX_FAST"
  proof
    assume "(fast_start si + (fast_count si + 1)) mod MAX_FAST = fast_start si"
    then show "fast_count si + 1 = MAX_FAST"
      using add_mod_distinct [of "fast_count si + 1" MAX_FAST 0 "fast_start si"] fast_count_bounds [OF ok] ok
      by (cases "fast_count si + 1 < MAX_FAST") (auto simp: fast_ok_def)
  qed (use ok in \<open>simp add: fast_ok_def\<close>)
  ultimately show ?thesis using ok fast_count_bounds [OF ok] by (auto simp: fast_put_def fast_ok_def Let_def)
qed

definition fast_enq :: "nat \<Rightarrow> scheduler_info \<Rightarrow> scheduler_info option" where
  "fast_enq tr si = (case fast_put tr si of Inl _ \<Rightarrow> None | Inr si' \<Rightarrow> Some si')"

definition fast_front :: "scheduler_info \<Rightarrow> nat option" where
  "fast_front si = (case get_fast si of Inl _ \<Rightarrow> None | Inr t \<Rightarrow> t)"

lemma fast_enq_step:
  assumes ok: "fast_ok si" and e: "fast_enq tr si = Some si'"
  shows "fast_ok si' \<and> fastq si' = fastq si @ [Some tr]"
proof -
  have c: "fast_count si \<noteq> MAX_FAST - 1" and
    si': "si' = si\<lparr>fast_ring := (fast_ring si)[fast_stop si := Some tr], fast_stop := (fast_stop si + 1) mod MAX_FAST\<rparr>"
    using e unfolding fast_enq_def fast_put_eq [OF ok] by (auto split: if_splits)
  have lt: "fast_count si + 1 < MAX_FAST" using c fast_count_bounds [OF ok] by simp
  have "fast_count si' = fast_count si + 1"
  proof -
    have b: "fast_count si' < MAX_FAST" "(fast_start si + fast_count si') mod MAX_FAST = (fast_stop si + 1) mod MAX_FAST"
      using ok by (simp_all add: si' fast_count_def MAX_FAST_def fast_ok_def mod_simps)
    have "(fast_stop si + 1) mod MAX_FAST = (fast_start si + (fast_count si + 1)) mod MAX_FAST"
      unfolding fast_stop_eq [OF ok, symmetric] by (simp add: mod_simps add.assoc)
    with b lt show ?thesis using add_mod_distinct by metis
  qed
  moreover have "fast_stop si = (fast_start si + fast_count si) mod length (fast_ring si)"
    using fast_stop_eq [OF ok] ok by (simp add: fast_ok_def)
  ultimately have "fastq si' = fastq si @ [Some tr]"
    using ring_snoc [of "fast_count si" "fast_ring si" "fast_start si" "Some tr"] lt ok
    by (simp add: fastq_def si' fast_ok_def)
  with ok show ?thesis by (simp add: fast_ok_def si' MAX_FAST_def)
qed

lemma fast_front_ok:
  assumes ok: "fast_ok si" and ne: "fastq si \<noteq> []"
  shows "fast_front si = Some (the (hd (fastq si))) \<and> get_fast si = Inr (hd (fastq si))"
proof -
  have n: "0 < fast_count si" using ne by (simp add: fastq_def)
  then have h: "hd (fastq si) = fast_ring si ! fast_start si"
    using hd_ring [of "fast_count si" "fast_start si" "fast_ring si"] ok by (simp add: fastq_def fast_ok_def)
  have "hd (fastq si) \<noteq> None" using hd_in_set [OF ne] ok by (metis fast_ok_def)
  moreover have "fast_start si \<noteq> fast_stop si" using fast_count_0 [OF ok] n by simp
  then have "get_fast si = Inr (hd (fastq si))" using ok h by (simp add: get_fast_def fast_ok_def)
  ultimately show ?thesis by (auto simp: fast_front_def)
qed

lemma fast_drop_step:
  assumes ok: "fast_ok si" and ne: "fastq si \<noteq> []"
  shows "fast_ok (fast_drop si) \<and> fastq (fast_drop si) = tl (fastq si)"
proof -
  have n: "0 < fast_count si" using ne by (simp add: fastq_def)
  have len: "length (fast_ring si) = MAX_FAST" using ok by (simp add: fast_ok_def)
  have "fast_count (fast_drop si) = fast_count si - 1"
  proof -
    let ?c = "fast_count (fast_drop si)"
    have b: "?c < MAX_FAST" by (simp add: fast_count_def MAX_FAST_def)
    have "((fast_start si + 1) mod MAX_FAST + ?c) mod MAX_FAST = fast_stop si"
      using ok by (simp add: fast_drop_def fast_count_def fast_ok_def MAX_FAST_def mod_simps)
    then have "(fast_start si + 1 + ?c) mod MAX_FAST = fast_stop si" by (simp add: mod_simps)
    also have "\<dots> = (fast_start si + 1 + (fast_count si - 1)) mod MAX_FAST" using fast_stop_eq [OF ok] n by simp
    finally show ?thesis using add_mod_distinct [of ?c MAX_FAST "fast_count si - 1" "fast_start si + 1"] b
      fast_count_bounds [OF ok] by simp
  qed
  then have t: "fastq (fast_drop si) = tl (fastq si)"
    using ring_tl [OF n, of "fast_ring si" "fast_start si"] len by (simp add: fastq_def fast_drop_def)
  then have "None \<notin> set (fastq (fast_drop si))" using ok by (auto simp: fast_ok_def dest: in_set_tl)
  with t ok show ?thesis by (simp add: fast_ok_def fast_drop_def MAX_FAST_def)
qed

interpretation fast: bounded_fifo fast_ok "\<lambda>si. map the (fastq si)" "\<lambda>_. MAX_FAST - 1" fast_enq fast_front fast_drop
proof (unfold_locales, goal_cases)
  case (1 q x q')
  then show ?case using fast_enq_step by blast
next
  case (2 q x q')
  then show ?case using fast_enq_step by fastforce
next
  case (3 q x q')
  show ?case by simp
next
  case (4 q x)
  then show ?case by (simp add: fast_enq_def fast_put_eq fastq_def)
next
  case (5 q)
  then show ?case using fast_count_bounds [of q] by (simp add: fastq_def)
next
  case (6 q)
  then show ?case
    using fast_front_ok [of q] fast_count_0 [of q]
    by (cases "fastq q = []") (auto simp: hd_map fast_front_def get_fast_def fastq_def)
next
  case (7 q)
  then show ?case using fast_drop_step [of q] by simp
next
  case (8 q)
  then show ?case using fast_drop_step [of q] by (simp add: map_tl)
next
  case (9 q)
  show ?case by simp
qed

end
