(* ===== verification/Scheduler_Props.thy ===== *)
theory Scheduler_Props
  imports Scheduler_Queues
begin

text \<open>
  The properties of the scheduler, stated for whole operations on the state of all CPUs, with
  examples on a system of two CPUs.
\<close>

section \<open>Example\<close>

definition demo_paused :: "nat \<Rightarrow> nat \<Rightarrow> paused_schedule" where
  "demo_paused tr t = \<lparr>ps_tr = Some tr, ps_state = THREAD_RUNNING, ps_request = t, ps_start = 10\<rparr>"

definition demo_si :: "nat \<Rightarrow> scheduler_info" where
  "demo_si i = \<lparr>si_cpu_id = i, current_thread = (if i = 0 then Some 100 else None),
     requesting_state = -1, requesting_thread = None,
     sched_queue = (if i = 0 then [Some 100, Some 200, None, None] else replicate 4 None),
     pause_queue = (if i = 0 then [demo_paused 300 50, demo_paused 400 60, demo_paused 0 0, demo_paused 0 0]
                    else replicate 4 (demo_paused 0 0)),
     sched_count = (if i = 0 then 2 else 0), pause_count = (if i = 0 then 2 else 0), sched_size = 4, pause_size = 4,
     si_running = 0, si_idle = 0, lock_scheduler = False, lock_flags = 0, nested_lock = 0, si_position = 0,
     fast_ring = replicate 32 None, fast_start = 0, fast_stop = 0\<rparr>"

definition demo_thread :: "int \<Rightarrow> int \<Rightarrow> int \<Rightarrow> nat \<Rightarrow> thread" where
  "demo_thread tid state cpu duration = \<lparr>t_name = [], t_tid = tid, t_state = state, t_process = 0, t_irq = -1,
     t_duration = duration, t_event_tid = -1, t_rc = 0, t_tls = None, t_ports = [], t_last_port_pulse = -1,
     t_last_port_message = -1, t_cpu = cpu, t_cpu_affinity = 0, t_fast_queued = 0, t_interrupts_disabled = 0,
     t_stack_kernel = 0, t_stack_user = 0, t_stack = 0, t_math_state = -1, t_math = None\<rparr>"

definition demo_sys :: ksys where
  "demo_sys = \<lparr>k_threads = [100 \<mapsto> demo_thread 1 THREAD_RUNNING 0 0, 200 \<mapsto> demo_thread 2 THREAD_RUNNING 0 0,
       300 \<mapsto> demo_thread 3 THREAD_DORMANT (-1) 40, 400 \<mapsto> demo_thread 4 THREAD_DORMANT (-1) 50,
       500 \<mapsto> demo_thread 5 THREAD_SUSPENDED (-1) 0],
     k_sched = [demo_si 0, demo_si 1],
     k_time = replicate 2 \<lparr>st_ops = 0, st_last_rdtsc = 1, st_usage = 45\<rparr>, k_bogomips = [1000, 1000],
     k_cpu_count = 2, k_CPUID = 0, k_if = True, k_ipis = [], k_tsc = 0\<rparr>"

lemma demo_si_ok: "si_ok (demo_si i)"
  by (simp add: si_ok_def pausedq_def demo_si_def demo_paused_def MAX_FAST_def)

lemma demo_sys_ok: "sys_ok demo_sys"
proof -
  have "cpu_ok i (demo_si i)" for i using demo_si_ok [of i] by (simp add: cpu_ok_def demo_si_def)
  then have "cpu_ok 0 (demo_si 0)" "cpu_ok 1 (demo_si 1)" by blast+
  then show ?thesis by (simp add: sys_ok_def demo_sys_def less_2_cases_iff)
qed

lemma demo_sys_queues:
  "runq (k_sched demo_sys ! 0) = [100, 200]"
  "pausedq (k_sched demo_sys ! 0) = [demo_paused 300 50, demo_paused 400 60]"
  by (simp_all add: runq_def pausedq_def demo_sys_def demo_si_def)

section \<open>Run queue\<close>

text \<open>
  C15: \<^verbatim>\<open>queue\<close> puts a thread that is on no CPU at the end of the run queue of its CPU (its affinity, or
  a CPU that depends on its number) and returns 0, or returns -1 when this queue is full and leaves
  all queues alone. The locks are released, no other CPU's scheduler changes, and the invariant
  holds. Interrupts are as before when the queue is this CPU's own, but stay disabled when it is
  another CPU's.
\<close>

theorem queue_correct:
  assumes ok: "sys_ok s" and th: "k_threads s tr = Some th" and free: "t_cpu th < 0"
    and home: "home_cpu th s = Inr (int c)" and c: "c < k_cpu_count s"
  shows "\<exists>rc s'. queue tr s = Inr (rc, s') \<and> sys_ok s' \<and> only_cpu c s s'
    \<and> k_threads s' = (k_threads s)(tr \<mapsto> th\<lparr>t_cpu := int c\<rparr>)
    \<and> (if sched_count (k_sched s ! c) = sched_size (k_sched s ! c)
       then rc = -1 \<and> runq (k_sched s' ! c) = runq (k_sched s ! c)
       else rc = 0 \<and> runq (k_sched s' ! c) = runq (k_sched s ! c) @ [tr])"
proof -
  let ?s = "put_tr tr (th\<lparr>t_cpu := int c\<rparr>) s"
  have "sys_ok ?s" using ok by (simp add: sys_ok_def)
  from sub_queue_ok [OF this, of c tr] c obtain rc s' where
    "sub_queue (int c) tr ?s = Inr (rc, s')" "sys_ok s'" "k_threads s' = k_threads ?s" "only_cpu c ?s s'"
    "if sched_count (k_sched s ! c) = sched_size (k_sched s ! c)
     then rc = -1 \<and> runq (k_sched s' ! c) = runq (k_sched s ! c)
     else rc = 0 \<and> runq (k_sched s' ! c) = runq (k_sched s ! c) @ [tr]" by auto
  then show ?thesis using th free home
    by (intro exI [of _ rc] exI [of _ s']) (simp add: queue_def get_tr_def only_cpu_def)
qed

theorem queue_correct_witness:
  "\<exists>s'. queue 500 demo_sys = Inr (0, s') \<and> runq (k_sched s' ! 0) = [100, 200, 500]"
proof -
  have t: "k_threads demo_sys 500 = Some (demo_thread 5 THREAD_SUSPENDED (-1) 0)"
    "home_cpu (demo_thread 5 THREAD_SUSPENDED (-1) 0) demo_sys = Inr (int 0)" "0 < k_cpu_count demo_sys"
    "t_cpu (demo_thread 5 THREAD_SUSPENDED (-1) 0) < 0" "sched_count (k_sched demo_sys ! 0) \<noteq> sched_size (k_sched demo_sys ! 0)"
    by (simp_all add: demo_sys_def demo_thread_def home_cpu_def demo_si_def)
  from queue_correct [OF demo_sys_ok t(1,4,2,3)] t(5) demo_sys_queues(1) show ?thesis by auto
qed

text \<open>
  C16: \<^verbatim>\<open>dequeue\<close> of a thread that is on the run queue of the CPU it is marked with, and is not the
  caller itself, takes exactly its first occurrence out of that queue, marks it as being on no CPU, and
  keeps the invariant; in particular the round-robin position stays inside the queue although it is
  decremented as an unsigned number.
\<close>

theorem dequeue_correct:
  assumes ok: "sys_ok s" and th: "k_threads s tr = Some th" and cpu: "t_cpu th = int c" and c: "c < k_cpu_count s"
    and cur: "current_thread (k_sched s ! k_CPUID s) \<noteq> Some tr" and there: "tr \<in> set (runq (k_sched s ! c))"
  shows "\<exists>s'. dequeue tr s = Inr (0, s') \<and> sys_ok s' \<and> only_cpu c s s'
    \<and> k_threads s' = (k_threads s)(tr \<mapsto> th\<lparr>t_cpu := -1\<rparr>)
    \<and> runq (k_sched s' ! c) = remove1 tr (runq (k_sched s ! c))
    \<and> pausedq (k_sched s' ! c) = pausedq (k_sched s ! c)"
proof -
  from sub_dequeue_ok [OF ok c cur there] obtain s1 where
    s1: "sub_dequeue (int c) tr s = Inr (0, s1)" "sys_ok s1" "k_threads s1 = k_threads s" "only_cpu c s s1"
      "pausedq (k_sched s1 ! c) = pausedq (k_sched s ! c)"
      "runq (k_sched s1 ! c) = remove1 tr (runq (k_sched s ! c))" by blast
  let ?s' = "put_tr tr (th\<lparr>t_cpu := -1\<rparr>) s1"
  have "sys_ok ?s'" using s1(2) by (simp add: sys_ok_def)
  then show ?thesis using s1 th cpu
    by (intro exI [of _ ?s']) (simp add: dequeue_def get_tr_def only_cpu_def)
qed

theorem dequeue_correct_witness:
  "\<exists>s'. dequeue 200 demo_sys = Inr (0, s') \<and> runq (k_sched s' ! 0) = [100]"
proof -
  have t: "k_threads demo_sys 200 = Some (demo_thread 2 THREAD_RUNNING 0 0)" "0 < k_cpu_count demo_sys"
    "t_cpu (demo_thread 2 THREAD_RUNNING 0 0) = int 0" "current_thread (k_sched demo_sys ! k_CPUID demo_sys) \<noteq> Some 200"
    by (simp_all add: demo_sys_def demo_thread_def demo_si_def)
  from dequeue_correct [OF demo_sys_ok t(1,3,2,4)] demo_sys_queues(1) show ?thesis by auto
qed

text \<open>The threads that \<open>n\<close> rounds of the scheduler select when nothing else touches the queue.\<close>

fun picks :: "nat \<Rightarrow> scheduler_info \<Rightarrow> nat list kres" where
  "picks 0 si = Inr []"
| "picks (Suc n) si =
     bindR (pick_next si) (\<lambda>(tr, si').
     bindR (picks n si') (\<lambda>ts. case tr of None \<Rightarrow> Inl Assert_failed | Some t \<Rightarrow> Inr (t # ts)))"

lemma picks_ok:
  "si_ok si \<Longrightarrow> 0 < sched_count si \<Longrightarrow>
     picks n si = Inr (map (\<lambda>i. runq si ! ((si_position si + i) mod sched_count si)) [0..<n])"
proof (induction n arbitrary: si)
  case 0
  then show ?case by simp
next
  case (Suc n)
  let ?c = "sched_count si" and ?p = "si_position si"
  let ?si = "si\<lparr>si_position := (?p + 1) mod ?c\<rparr>"
  have b: "?p < ?c" "?c \<le> length (sched_queue si)" "length (sched_queue si) < 2 ^ 32"
    and some: "list_all (\<lambda>c. c \<noteq> None) (take ?c (sched_queue si))"
    using Suc.prems by (auto simp: si_ok_def max_def split: if_splits)
  have "sched_queue si ! ?p \<noteq> None" using some b by (simp add: list_all_length)
  then have at: "sched_queue si ! ?p = Some (runq si ! ?p)" using b by (auto simp: runq_def)
  have pn: "pick_next si = Inr (Some (runq si ! ?p), ?si)" using at b Suc.prems(2) by (simp add: pick_next_def)
  have "si_ok ?si" using Suc.prems by (simp add: si_ok_def pausedq_def)
  from Suc.IH [OF this] Suc.prems(2)
  have "picks n ?si = Inr (map (\<lambda>i. runq ?si ! ((?p + 1 + i) mod ?c)) [0..<n])" by (simp add: mod_simps)
  moreover have "runq ?si = runq si" by (simp add: runq_def)
  moreover have "[0..<Suc n] = 0 # map Suc [0..<n]" by (simp add: map_Suc_upt upt_conv_Cons del: upt_Suc)
  then have "map (\<lambda>i. runq si ! ((?p + i) mod ?c)) [0..<Suc n]
      = runq si ! ?p # map (\<lambda>i. runq si ! ((?p + 1 + i) mod ?c)) [0..<n]"
    using b(1) by (simp only: list.map map_map) simp
  ultimately show ?case using pn by simp
qed

text \<open>
  C35: The selection is fair: as many rounds as there are threads in the run queue select every one
  of them exactly once, in the order of the queue, beginning at the current position.
\<close>

theorem round_robin_fair:
  assumes ok: "si_ok si" and ne: "0 < sched_count si"
  shows "picks (sched_count si) si = Inr (rotate (si_position si) (runq si))"
proof -
  have "length (runq si) = sched_count si" using ok by (simp add: si_ok_def runq_def)
  then have "map (\<lambda>i. runq si ! ((si_position si + i) mod sched_count si)) [0..<sched_count si]
      = rotate (si_position si) (runq si)"
    by (intro nth_equalityI) (simp_all add: nth_rotate)
  with picks_ok [OF assms] show ?thesis by simp
qed

theorem round_robin_fair_witness: "picks 2 (demo_si 0) = Inr [100, 200]"
proof -
  have "0 < sched_count (demo_si 0)" by (simp add: demo_si_def)
  from round_robin_fair [OF demo_si_ok this] demo_sys_queues(1) show ?thesis
    by (simp add: demo_sys_def) (simp add: demo_si_def)
qed

section \<open>Paused threads\<close>

text \<open>
  C18: A running thread that calls \<^verbatim>\<open>pause\<close> is entered in the queue of paused threads behind all that
  wake up no later, so the queue stays sorted by wake-up time, and its change to the dormant state is
  requested from the scheduler; when the queue is full the call returns -1 and changes nothing.
\<close>

theorem pause_correct:
  assumes "sys_ok s" and "k_threads s tr = Some th" and "t_cpu th = int (k_CPUID s)"
    and "current_thread (k_sched s ! k_CPUID s) = Some tr" and "t_state th = THREAD_RUNNING"
    and "0 < ms" and "ms + st_usage (k_time s ! k_CPUID s) < 2 ^ 64"
  shows "\<exists>rc s'. pause tr ms s = Inr (rc, s') \<and> sys_ok s' \<and> only_cpu (k_CPUID s) s s'
    \<and> runq (k_sched s' ! k_CPUID s) = runq (k_sched s ! k_CPUID s)
    \<and> (if pause_count (k_sched s ! k_CPUID s) = pause_size (k_sched s ! k_CPUID s)
       then rc = -1 \<and> pausedq (k_sched s' ! k_CPUID s) = pausedq (k_sched s ! k_CPUID s) \<and> k_threads s' = k_threads s
       else rc = 0
         \<and> pausedq (k_sched s' ! k_CPUID s) = paused_insert
              \<lparr>ps_tr = Some tr, ps_state = THREAD_RUNNING, ps_request = ms + st_usage (k_time s ! k_CPUID s),
               ps_start = st_usage (k_time s ! k_CPUID s)\<rparr> (pausedq (k_sched s ! k_CPUID s))
         \<and> requesting_thread (k_sched s' ! k_CPUID s) = Some tr
         \<and> requesting_state (k_sched s' ! k_CPUID s) = THREAD_DORMANT
         \<and> k_threads s' = (k_threads s)(tr \<mapsto> th\<lparr>t_duration := ms\<rparr>))"
  using pause_ok [OF assms] .

theorem pause_correct_witness:
  "\<exists>s'. pause 100 10 demo_sys = Inr (0, s')
    \<and> map ps_tr (pausedq (k_sched s' ! 0)) = [Some 300, Some 100, Some 400]"
proof -
  have t: "k_threads demo_sys 100 = Some (demo_thread 1 THREAD_RUNNING 0 0)"
    "t_cpu (demo_thread 1 THREAD_RUNNING 0 0) = int (k_CPUID demo_sys)"
    "current_thread (k_sched demo_sys ! k_CPUID demo_sys) = Some 100"
    "t_state (demo_thread 1 THREAD_RUNNING 0 0) = THREAD_RUNNING" "0 < (10::nat)"
    "10 + st_usage (k_time demo_sys ! k_CPUID demo_sys) < 2 ^ 64" "k_CPUID demo_sys = 0"
    "st_usage (k_time demo_sys ! 0) = 45"
    "pause_count (k_sched demo_sys ! 0) \<noteq> pause_size (k_sched demo_sys ! 0)"
    by (simp_all add: demo_sys_def demo_thread_def demo_si_def)
  from pause_correct [OF demo_sys_ok t(1-6)] t(7-9) demo_sys_queues(2) show ?thesis
    by (auto simp: paused_insert_def demo_paused_def)
qed

text \<open>
  C37: \<^verbatim>\<open>restart\<close> of a paused thread moves its entry to the front of the queue of paused threads with
  wake-up time 0, keeps the order of the others, and so keeps the queue sorted: the next call of
  \<^verbatim>\<open>remove_timers\<close> wakes it up.
\<close>

theorem restart_correct:
  assumes "sys_ok s" and "k_threads s tr = Some th" and "home_cpu th s = Inr (int c)"
    and "c < k_cpu_count s" and "Some tr \<in> ps_tr ` set (pausedq (k_sched s ! c))"
  shows "\<exists>pos s'. restart tr s = Inr (0, s') \<and> sys_ok s' \<and> only_cpu c s s' \<and> k_threads s' = k_threads s
    \<and> runq (k_sched s' ! c) = runq (k_sched s ! c)
    \<and> pos < length (pausedq (k_sched s ! c)) \<and> ps_tr (pausedq (k_sched s ! c) ! pos) = Some tr
    \<and> pausedq (k_sched s' ! c) = (pausedq (k_sched s ! c) ! pos)\<lparr>ps_request := 0\<rparr>
        # take pos (pausedq (k_sched s ! c)) @ drop (Suc pos) (pausedq (k_sched s ! c))"
  using restart_ok [OF assms] .

theorem restart_correct_witness:
  "\<exists>s'. restart 400 demo_sys = Inr (0, s')
    \<and> pausedq (k_sched s' ! 0) = [demo_paused 400 0, demo_paused 300 50]"
proof -
  have t: "k_threads demo_sys 400 = Some (demo_thread 4 THREAD_DORMANT (-1) 50)"
    "home_cpu (demo_thread 4 THREAD_DORMANT (-1) 50) demo_sys = Inr (int 0)" "0 < k_cpu_count demo_sys"
    by (simp_all add: demo_sys_def demo_thread_def home_cpu_def)
  have "Some 400 \<in> ps_tr ` set (pausedq (k_sched demo_sys ! 0))"
    unfolding demo_sys_queues by (simp add: demo_paused_def)
  from restart_correct [OF demo_sys_ok t this] obtain pos s' where
    s': "restart 400 demo_sys = Inr (0, s')" and pos: "pos < Suc (Suc 0)" "ps_tr ([demo_paused 300 50, demo_paused 400 60] ! pos) = Some 400"
    and q: "pausedq (k_sched s' ! 0) = ([demo_paused 300 50, demo_paused 400 60] ! pos)\<lparr>ps_request := 0\<rparr>
      # take pos [demo_paused 300 50, demo_paused 400 60] @ drop (Suc pos) [demo_paused 300 50, demo_paused 400 60]"
    unfolding demo_sys_queues by auto
  have "pos = 1" using pos by (cases pos) (auto simp: demo_paused_def)
  with s' q show ?thesis by (simp add: demo_paused_def)
qed

text \<open>
  C21: \<^verbatim>\<open>remove_timers\<close> wakes up exactly the paused threads whose time has come, in the order of their
  wake-up times: they go to the end of the run queue, get the state and the sleeping time that
  was recorded for them, and the others stay paused. It returns the time until the next wake-up, or 0
  when nobody is paused.
\<close>

theorem remove_timers_correct:
  assumes "i < length (k_sched s)" and "si_ok (k_sched s ! i)" and "time < 2 ^ 64"
    and "sched_count (k_sched s ! i)
      + length (takeWhile (\<lambda>p. ps_request p \<le> time) (pausedq (k_sched s ! i))) \<le> sched_size (k_sched s ! i)"
    and "\<forall>p \<in> set (takeWhile (\<lambda>p. ps_request p \<le> time) (pausedq (k_sched s ! i))).
           k_threads s (the (ps_tr p)) \<noteq> None"
  shows "\<exists>s'. remove_timers i time s =
      Inr (case dropWhile (\<lambda>p. ps_request p \<le> time) (pausedq (k_sched s ! i)) of
             [] \<Rightarrow> 0 | p # _ \<Rightarrow> ps_request p - time, s')
    \<and> si_ok (k_sched s' ! i)
    \<and> runq (k_sched s' ! i) = runq (k_sched s ! i)
        @ map (the \<circ> ps_tr) (filter (\<lambda>p. ps_request p \<le> time) (pausedq (k_sched s ! i)))
    \<and> pausedq (k_sched s' ! i) = filter (\<lambda>p. time < ps_request p) (pausedq (k_sched s ! i))
    \<and> (distinct (map (the \<circ> ps_tr) (pausedq (k_sched s ! i))) \<longrightarrow>
        (\<forall>p \<in> set (pausedq (k_sched s ! i)). \<forall>th. ps_request p \<le> time \<longrightarrow> k_threads s (the (ps_tr p)) = Some th \<longrightarrow>
          k_threads s' (the (ps_tr p)) = Some (th\<lparr>t_state := ps_state p,
            t_duration := (time + 2 ^ 64 - ps_start p) mod 2 ^ 64, t_cpu := int (si_cpu_id (k_sched s ! i))\<rparr>)))"
proof -
  let ?P = "\<lambda>p. ps_request p \<le> time" and ?si = "k_sched s ! i"
  let ?q = "pausedq ?si"
  have "sorted (map ps_request ?q)" using assms(2) by (simp add: si_ok_def)
  note split = sorted_split [OF this, of time]
  from remove_timers_ok [OF assms] obtain s' where
    s': "remove_timers i time s = Inr (if dropWhile ?P ?q = [] then 0 else ps_request (hd (dropWhile ?P ?q)) - time, s')"
      "si_ok (k_sched s' ! i)" "runq (k_sched s' ! i) = runq ?si @ map (the \<circ> ps_tr) (takeWhile ?P ?q)"
      "pausedq (k_sched s' ! i) = dropWhile ?P ?q"
      "k_threads s' = wake_threads time (si_cpu_id ?si) (takeWhile ?P ?q) (k_threads s)" by blast
  have "k_threads s' (the (ps_tr p)) = Some (th\<lparr>t_state := ps_state p,
      t_duration := (time + 2 ^ 64 - ps_start p) mod 2 ^ 64, t_cpu := int (si_cpu_id ?si)\<rparr>)"
    if d: "distinct (map (the \<circ> ps_tr) ?q)" and p: "p \<in> set ?q" "?P p" and th: "k_threads s (the (ps_tr p)) = Some th" for p th
  proof -
    have "distinct (map (the \<circ> ps_tr) (filter ?P ?q))" using d by (simp add: distinct_map_filter)
    then show ?thesis unfolding s'(5) split(1) by (rule wake_threads_woken) (use p th in simp_all)
  qed
  moreover have "(if R = [] then 0 else ps_request (hd R) - time) = (case R of [] \<Rightarrow> 0 | p # _ \<Rightarrow> ps_request p - time)"
    for R by (cases R) simp_all
  note this [of "dropWhile ?P ?q"]
  ultimately show ?thesis using s'(1-4) split by (intro exI [of _ s']) simp
qed

theorem remove_timers_correct_witness:
  "\<exists>s'. remove_timers 0 55 demo_sys = Inr (5, s') \<and> runq (k_sched s' ! 0) = [100, 200, 300]
    \<and> pausedq (k_sched s' ! 0) = [demo_paused 400 60]"
proof -
  have q: "takeWhile (\<lambda>p. ps_request p \<le> 55) [demo_paused 300 50, demo_paused 400 60] = [demo_paused 300 50]"
    "dropWhile (\<lambda>p. ps_request p \<le> 55) [demo_paused 300 50, demo_paused 400 60] = [demo_paused 400 60]"
    by (simp_all add: demo_paused_def)
  have i: "0 < length (k_sched demo_sys)" "si_ok (k_sched demo_sys ! 0)"
    "sched_count (k_sched demo_sys ! 0) = 2" "sched_size (k_sched demo_sys ! 0) = 4"
    using demo_si_ok [of 0] by (simp_all add: demo_sys_def) (simp_all add: demo_si_def)
  have "k_threads demo_sys 300 \<noteq> None" by (simp add: demo_sys_def)
  with remove_timers_correct [OF i(1,2), of 55] i(3,4) show ?thesis
    unfolding demo_sys_queues q by (auto simp: demo_paused_def)
qed

section \<open>Fast queue\<close>

text \<open>
  Remark: The fast queue delivers the threads in the order in which they were put in, for any number up to
  31, across the wrap-around of its ring; the 32nd trips the assertion of \<^verbatim>\<open>fast_queue\<close>.
\<close>

theorem fast_queue_fifo:
  assumes "fast_ok si" and "fastq si = []" and "length trs \<le> MAX_FAST - 1"
  shows "\<exists>si' si''. fast.enq_all trs si = Some si' \<and> fast.deq_many (length trs) si' = (trs, si'') \<and> fastq si'' = []
    \<and> (length trs = MAX_FAST - 1 \<longrightarrow> (\<forall>tr. fast_put tr si' = Inl Assert_failed))"
proof -
  from fast.enq_all_accepts [OF assms(1), of trs] assms(2,3) obtain si' where
    si': "fast.enq_all trs si = Some si'" "fast_ok si'" "map the (fastq si') = trs" by auto
  from fast.deq_many_contents [OF si'(2), of "length trs"] si'(3) obtain si'' where
    "fast.deq_many (length trs) si' = (trs, si'')" "fastq si'' = []" by auto
  moreover have "fast_put tr si' = Inl Assert_failed" if "length trs = MAX_FAST - 1" for tr
    using fast_put_eq [OF si'(2), of tr] si'(3) that by (auto simp: fastq_def)
  ultimately show ?thesis using si'(1) by blast
qed

theorem fast_queue_fifo_witness:
  "\<exists>si' si''. fast.enq_all [7, 9] (demo_si 0) = Some si' \<and> fast.deq_many (length [7, 9::nat]) si' = ([7, 9], si'')"
proof -
  have "fastq (demo_si 0) = []" by (simp add: fastq_def fast_count_def demo_si_def MAX_FAST_def)
  moreover from this have "fast_ok (demo_si 0)" by (simp add: fast_ok_def) (simp add: demo_si_def MAX_FAST_def)
  moreover have "length [7, 9::nat] \<le> MAX_FAST - 1" by (simp add: MAX_FAST_def)
  ultimately show ?thesis using fast_queue_fifo [of "demo_si 0" "[7, 9]"] by blast
qed

section \<open>Interrupts\<close>

text \<open>
  Remark: Locking and unlocking the scheduler of another CPU leaves the interrupts of the calling CPU
  disabled: \<^verbatim>\<open>sched_lock\<close> always disables them, \<^verbatim>\<open>sched_unlock\<close> enables them again only for the
  caller's own scheduler.
\<close>

theorem remote_lock_loses_interrupts:
  assumes ok: "sys_ok s" and c: "c < k_cpu_count s" "c \<noteq> k_CPUID s"
  shows "\<exists>s1 s2. sched_lock (int c) True s = Inr s1 \<and> sched_unlock (int c) s1 = Inr s2 \<and> sys_ok s2 \<and> \<not> k_if s2"
proof -
  let ?s1 = "lock_sys c True s" and ?l = "lock_si True s (k_sched s ! c)"
  have ci: "si_ok (k_sched s ! c)" "si_cpu_id (k_sched s ! c) = c" "c < length (k_sched s)"
    using sys_ok_cpu [OF ok c(1)] by (auto simp: cpu_ok_def)
  have "sched_lock (int c) True s = Inr ?s1" by (rule sched_lock_eq [OF ok c(1)]) (use c(2) in simp)
  moreover have "sched_unlock (int c) ?s1 = Inr (unlock_sys c ?l ?s1)"
    by (rule sched_unlock_eq(2)) (use c ci in simp_all)
  moreover have "sys_ok (unlock_sys c ?l ?s1)"
    by (rule sys_ok_unlock [OF ok c(1), of _ _ ?l]) (use ci in \<open>simp_all add: si_ok_def pausedq_def lock_sys_sched\<close>)
  moreover have "\<not> k_if (unlock_sys c ?l ?s1)" using c(2) by simp
  ultimately show ?thesis by blast
qed

theorem remote_lock_loses_interrupts_witness:
  "k_if demo_sys \<and> (\<exists>s1 s2. sched_lock 1 True demo_sys = Inr s1 \<and> sched_unlock 1 s1 = Inr s2 \<and> \<not> k_if s2)"
proof -
  have "1 < k_cpu_count demo_sys" "1 \<noteq> k_CPUID demo_sys" "k_if demo_sys" by (simp_all add: demo_sys_def)
  with remote_lock_loses_interrupts [OF demo_sys_ok, of 1] show ?thesis by auto
qed

section \<open>Time accounting\<close>

text \<open>
  Remark: The time accounting loses nothing: once it has started, the time stamps that passed between two
  calls are exactly those that the usage counter (in units of \<^verbatim>\<open>bogomips\<close>) and the remainder
  \<^verbatim>\<open>ops\<close> have gained, and the remainder stays below one unit.
\<close>

theorem stats_time_exact:
  assumes start: "0 < st_last_rdtsc st" "st_last_rdtsc st \<le> tsc" "tsc < 2 ^ 64" and b: "0 < b"
    and small: "(st_ops st + (tsc - st_last_rdtsc st)) div b < 2 ^ 32" "st_ops st + (tsc - st_last_rdtsc st) < 2 ^ 64"
      "st_usage st + (st_ops st + (tsc - st_last_rdtsc st)) div b < 2 ^ 64"
  shows "\<exists>st'. stats_time tsc b st = Inr st' \<and> st_last_rdtsc st' = tsc \<and> st_ops st' < b
    \<and> st_usage st' * b + st_ops st' = st_usage st * b + st_ops st + (tsc - st_last_rdtsc st)"
proof -
  let ?e = "tsc - st_last_rdtsc st"
  let ?o = "st_ops st + ?e"
  have "tsc + 2 ^ 64 - st_last_rdtsc st = ?e + 2 ^ 64" using start(2) by simp
  then have ops: "(st_ops st + (tsc + 2 ^ 64 - st_last_rdtsc st)) mod 2 ^ 64 = ?o"
    using small(2) by (metis add.assoc mod_add_self2 mod_less)
  show ?thesis
  proof (cases "b \<le> ?o")
    case True
    let ?st = "st\<lparr>st_ops := ?o mod b, st_last_rdtsc := tsc, st_usage := st_usage st + ?o div b\<rparr>"
    have "udiv ?o b = Inr (?o div b, ?o mod b)" using b small(1) by (simp add: udiv_def)
    moreover have "(st_usage st + ?o div b) mod 2 ^ 64 = st_usage st + ?o div b" using small(3) by simp
    ultimately have "stats_time tsc b st = Inr ?st"
      unfolding stats_time_def ops Let_def using start(1) True by simp
    moreover have "(st_usage st + ?o div b) * b + ?o mod b = st_usage st * b + ?o"
      using div_mult_mod_eq [of ?o b] by (simp add: algebra_simps)
    ultimately show ?thesis using b by (intro exI [of _ ?st]) simp
  next
    case False
    let ?st = "st\<lparr>st_ops := ?o, st_last_rdtsc := tsc\<rparr>"
    have "stats_time tsc b st = Inr ?st" unfolding stats_time_def ops Let_def using start(1) False by simp
    then show ?thesis using False by (intro exI [of _ ?st]) simp
  qed
qed

theorem stats_time_exact_witness:
  "\<exists>st'. stats_time 5010 100 \<lparr>st_ops = 7, st_last_rdtsc = 10, st_usage = 3\<rparr> = Inr st'
     \<and> st_usage st' * 100 + st_ops st' = 3 * 100 + 7 + 5000"
  using stats_time_exact [of "\<lparr>st_ops = 7, st_last_rdtsc = 10, st_usage = 3\<rparr>" 5010 100] by auto

end
