(* ===== verification/Process.thy ===== *)
theory Process
  imports Scheduler Aqueue Env Rwlock
begin

text \<open>
  The process control block (\<^verbatim>\<open>kernel/processes/process.h\<close>) with the IPC block of every port
  (\<^verbatim>\<open>kernel/ipc/ipc.h\<close>) and the objects that ports queue (\<^verbatim>\<open>messages.h\<close>, \<^verbatim>\<open>pulse.h\<close>), and the
  lookup of a thread by its number (\<^verbatim>\<open>get_thread\<close> of \<^verbatim>\<open>kernel/processes/threads.c\<close>), which goes
  through the process's hash table.

  \<open>kstate\<close> is the state of the kernel as these routines see it: the schedulers and threads (\<open>ksys\<close>),
  the processes behind their pointers, and the kernel heap.
\<close>

section \<open>Data\<close>

record message =
  m_source_pid :: int
  m_source_port :: int
  m_dest_port :: int
  m_bytes :: int
  m_data :: nat
  m_contents :: "nat list"

record pulse =
  pu_source_pid :: int
  pu_source_port :: int
  pu_dest_port :: int
  pu_data1 :: nat
  pu_data2 :: nat
  pu_data3 :: nat
  pu_data4 :: nat
  pu_data5 :: nat
  pu_data6 :: nat

record ipc_block =
  ib_tid :: int
  ib_flags :: nat
  ib_pulse_q :: "pulse aqueue option"
  ib_message_q :: "message aqueue option"

record process =
  pr_name :: "cchar list"
  pr_pid :: int
  pr_state :: int
  pr_map :: "nat option"
  pr_virtual_memory :: "nat option"
  pr_lock :: nat
  pr_threads :: "nat option"
  pr_threads_htable :: htable
  pr_thread_count :: int
  pr_last_tid :: int
  pr_kernel_threads :: nat
  pr_flags :: nat
  pr_event_hooks :: int
  pr_event_pid :: int
  pr_event_tid :: int
  pr_rc :: int
  pr_env :: penv
  pr_alloc :: "nat option"
  pr_ipc :: "ipc_block list"

record 'h kstate =
  ks_sys :: ksys
  ks_procs :: "nat \<Rightarrow> process option"
  ks_heap :: 'h

definition get_proc :: "nat \<Rightarrow> 'h kstate \<Rightarrow> process kres" where
  "get_proc p s = (case ks_procs s p of None \<Rightarrow> Inl Out_of_bounds | Some pr \<Rightarrow> Inr pr)"

definition put_proc :: "nat \<Rightarrow> process \<Rightarrow> 'h kstate \<Rightarrow> 'h kstate" where
  "put_proc p pr s = s\<lparr>ks_procs := (ks_procs s)(p \<mapsto> pr)\<rparr>"

definition get_thr :: "nat \<Rightarrow> 'h kstate \<Rightarrow> thread kres" where
  "get_thr t s = get_tr t (ks_sys s)"

definition put_thr :: "nat \<Rightarrow> thread \<Rightarrow> 'h kstate \<Rightarrow> 'h kstate" where
  "put_thr t th s = s\<lparr>ks_sys := put_tr t th (ks_sys s)\<rparr>"

section \<open>Finding a thread\<close>

text \<open>
  The sample that a lookup compares with lives on the kernel stack; address 0 stands for it. Only its
  number and its name are set. An entry whose thread does not exist matches nothing.
\<close>

definition sample_thread :: "int \<Rightarrow> thread" where
  "sample_thread tid = \<lparr>t_name = replicate SMK_NAME_LENGTH 0, t_tid = tid, t_state = 0, t_process = 0, t_irq = 0,
     t_duration = 0, t_event_tid = 0, t_rc = 0, t_tls = None, t_ports = [], t_last_port_pulse = 0,
     t_last_port_message = 0, t_cpu = 0, t_cpu_affinity = 0, t_fast_queued = 0, t_interrupts_disabled = 0,
     t_stack_kernel = 0, t_stack_user = 0, t_stack = 0, t_math_state = 0, t_math = None\<rparr>"

definition thread_match :: "thread \<Rightarrow> thread \<Rightarrow> int" where
  "thread_match a b = (case threads_compare a b of Inl _ \<Rightarrow> 1 | Inr c \<Rightarrow> c)"

definition get_thread :: "process \<Rightarrow> int \<Rightarrow> (nat \<Rightarrow> thread option) \<Rightarrow> nat option kres" where
  "get_thread proc tid ts =
     htable_retrieve (\<lambda>_. threads_key (sample_thread tid))
       (\<lambda>p _. case ts p of None \<Rightarrow> 1 | Some th \<Rightarrow> thread_match th (sample_thread tid))
       (pr_threads_htable proc) 0"

end
