(* ===== verification/Ipc.thy ===== *)
theory Ipc
  imports Process
begin

text \<open>
  Ports, messages and pulses (\<^verbatim>\<open>kernel/ipc/ports.c\<close>, \<^verbatim>\<open>messages.c\<close>, \<^verbatim>\<open>pulse.c\<close>): a port of a
  process belongs to one of its threads and has a queue of messages, with their data on the kernel
  heap, and a queue of pulses. A thread receives from the ports listed in its control block, from
  the port it names, or from the one of the last preview.

  The routines take pointers to threads and processes, as in the source. The caller holds the
  process lock.
\<close>

section \<open>Constants and access\<close>

definition IPC_MASKED :: nat where "IPC_MASKED = 1"

definition PULSE_OBJECTS :: nat where "PULSE_OBJECTS = 1024"

definition MESSAGE_OBJECTS :: nat where "MESSAGE_OBJECTS = 256"

definition sizeof_pulse :: nat where "sizeof_pulse = 36"

definition sizeof_message :: nat where "sizeof_message = 20"

definition in_ports :: "int \<Rightarrow> bool" where
  "in_ports port \<longleftrightarrow> 0 \<le> port \<and> port < int MAX_PORTS"

definition get_block :: "process \<Rightarrow> int \<Rightarrow> ipc_block kres" where
  "get_block proc port = guardR (0 \<le> port) Out_of_bounds (aget (pr_ipc proc) (nat port))"

definition put_block :: "int \<Rightarrow> ipc_block \<Rightarrow> process \<Rightarrow> process" where
  "put_block port b proc = proc\<lparr>pr_ipc := (pr_ipc proc)[nat port := b]\<rparr>"

text \<open>Replacing the block of a port in the process behind a pointer.\<close>

definition update_block :: "nat \<Rightarrow> int \<Rightarrow> (ipc_block \<Rightarrow> ipc_block) \<Rightarrow> 'h kstate \<Rightarrow> 'h kstate kres" where
  "update_block p port f s =
     bindR (get_proc p s) (\<lambda>proc.
     bindR (get_block proc port) (\<lambda>b. Inr (put_proc p (put_block port (f b) proc) s)))"

section \<open>Ports\<close>

text \<open>The first free cell of a thread's table of ports.\<close>

fun add_port :: "int list \<Rightarrow> int \<Rightarrow> int list" where
  "add_port [] port = []"
| "add_port (x # xs) port = (if x = -1 then port # xs else x # add_port xs port)"

definition create_port ::
  "'h mm_subsystem \<Rightarrow> nat \<Rightarrow> int \<Rightarrow> int \<Rightarrow> 'h kstate \<Rightarrow> (int \<times> 'h kstate) kres" where
  "create_port sub tr port tid s =
     bindR (get_thr tr s) (\<lambda>th.
     bindR (get_proc (t_process th) s) (\<lambda>proc.
     if \<not> in_ports port then Inr (-1, s)
     else
       bindR (get_block proc port) (\<lambda>b.
       if ib_tid b \<noteq> -1 then Inr (-1, s)
       else
         bindR (if t_tid th = tid then Inr (Some tr) else get_thread proc tid (k_threads (ks_sys s))) (\<lambda>target.
         case target of
           None \<Rightarrow> Inr (-1, s)
         | Some tg \<Rightarrow>
             bindR (aqueue_create sub sizeof_pulse PULSE_OBJECTS (ks_heap s)) (\<lambda>(pq, h1).
             bindR (update_block (t_process th) port (\<lambda>b. b\<lparr>ib_pulse_q := pq\<rparr>) (s\<lparr>ks_heap := h1\<rparr>)) (\<lambda>s1.
             case pq of
               None \<Rightarrow> Inr (-1, s1)
             | Some q \<Rightarrow>
                 bindR (aqueue_create sub sizeof_message MESSAGE_OBJECTS (ks_heap s1)) (\<lambda>(mq, h2).
                 bindR (update_block (t_process th) port (\<lambda>b. b\<lparr>ib_message_q := mq\<rparr>) (s1\<lparr>ks_heap := h2\<rparr>)) (\<lambda>s2.
                 case mq of
                   None \<Rightarrow>
                     bindR (aqueue_destroy sub q (ks_heap s2)) (\<lambda>h3.
                     bindR (update_block (t_process th) port (\<lambda>b. b\<lparr>ib_pulse_q := None\<rparr>) (s2\<lparr>ks_heap := h3\<rparr>)) (\<lambda>s3.
                     Inr (-1, s3)))
                 | Some _ \<Rightarrow>
                     bindR (update_block (t_process th) port (\<lambda>b. b\<lparr>ib_tid := tid, ib_flags := 0\<rparr>) s2) (\<lambda>s3.
                     bindR (get_thr tg s3) (\<lambda>tgt.
                     Inr (0, put_thr tg (tgt\<lparr>t_ports := add_port (t_ports tgt) port\<rparr>) s3)))))))))))"

definition port2tid :: "process \<Rightarrow> int \<Rightarrow> int kres" where
  "port2tid proc port =
     (if \<not> in_ports port then Inr (-1) else bindR (get_block proc port) (\<lambda>b. Inr (ib_tid b)))"

fun tid2port_loop :: "ipc_block list \<Rightarrow> int \<Rightarrow> int \<Rightarrow> int" where
  "tid2port_loop [] tid i = -1"
| "tid2port_loop (b # bs) tid i = (if ib_tid b = tid then i else tid2port_loop bs tid (i + 1))"

definition tid2port :: "process \<Rightarrow> int \<Rightarrow> int" where
  "tid2port proc tid = tid2port_loop (take MAX_PORTS (pr_ipc proc)) tid 0"

definition port_flags :: "process \<Rightarrow> int \<Rightarrow> nat \<Rightarrow> int kres" where
  "port_flags proc port flags =
     (if \<not> in_ports port then Inr (-1)
      else
        bindR (get_block proc port) (\<lambda>b.
        if ib_tid b = -1 then Inr (-1) else Inr (s32 (int (and (ib_flags b) flags)))))"

definition get_port_flags :: "nat \<Rightarrow> int \<Rightarrow> 'h kstate \<Rightarrow> int kres" where
  "get_port_flags tr port s =
     bindR (get_thr tr s) (\<lambda>th.
     bindR (get_proc (t_process th) s) (\<lambda>proc.
     if \<not> in_ports port then Inr (-1)
     else
       bindR (get_block proc port) (\<lambda>b.
       if ib_tid b = -1 then Inr (-1) else Inr (s32 (int (ib_flags b))))))"

text \<open>The loop over the ports of a thread that ends at the first -1.\<close>

fun set_flags_loop :: "nat \<Rightarrow> int list \<Rightarrow> nat \<Rightarrow> 'h kstate \<Rightarrow> 'h kstate kres" where
  "set_flags_loop p [] flags s = Inr s"
| "set_flags_loop p (x # xs) flags s =
     (if x = -1 then Inr s
      else bindR (update_block p x (\<lambda>b. b\<lparr>ib_flags := flags\<rparr>) s) (\<lambda>s1. set_flags_loop p xs flags s1))"

definition set_port_flags :: "nat \<Rightarrow> int \<Rightarrow> nat \<Rightarrow> 'h kstate \<Rightarrow> (int \<times> 'h kstate) kres" where
  "set_port_flags tr port flags s =
     bindR (get_thr tr s) (\<lambda>th.
     if port < -1 \<or> port \<ge> int MAX_PORTS then Inr (-1, s)
     else
       let s1 = put_thr tr (th\<lparr>t_last_port_message := -1, t_last_port_pulse := -1\<rparr>) s in
       if port \<ge> 0
       then
         bindR (get_proc (t_process th) s1) (\<lambda>proc.
         bindR (get_block proc port) (\<lambda>b.
         if ib_tid b = -1 then Inr (-1, s1)
         else bindR (update_block (t_process th) port (\<lambda>b. b\<lparr>ib_flags := flags\<rparr>) s1) (\<lambda>s2. Inr (0, s2))))
       else bindR (set_flags_loop (t_process th) (t_ports th) flags s1) (\<lambda>s2. Inr (0, s2)))"

section \<open>Messages\<close>

text \<open>Waking the receiver up, shared by messages and pulses.\<close>

definition wake_receiver :: "nat \<Rightarrow> nat \<Rightarrow> int \<Rightarrow> 'h kstate \<Rightarrow> 'h kstate kres" where
  "wake_receiver p tr dest_port s =
     bindR (get_proc p s) (\<lambda>proc.
     bindR (port_flags proc dest_port IPC_MASKED) (\<lambda>f.
     if f = 0
     then
       bindR (get_thr tr s) (\<lambda>th.
       if t_state th = THREAD_DORMANT
       then bindR (set_thread_state tr THREAD_RUNNING (ks_sys s)) (\<lambda>k. Inr (s\<lparr>ks_sys := k\<rparr>))
       else Inr s)
     else Inr s))"

definition send_message ::
  "'h mm_subsystem \<Rightarrow> int \<Rightarrow> int \<Rightarrow> nat \<Rightarrow> int \<Rightarrow> int \<Rightarrow> nat list \<Rightarrow> 'h kstate \<Rightarrow> (int \<times> 'h kstate) kres" where
  "send_message sub source_pid source_port p dest_port nbytes location s =
     bindR (get_proc p s) (\<lambda>proc.
     bindR (port2tid proc dest_port) (\<lambda>dest_tid.
     if dest_tid < 0 then Inr (-1, s)
     else
       bindR (get_thread proc dest_tid (k_threads (ks_sys s))) (\<lambda>r.
       case r of
         None \<Rightarrow> Inr (-1, s)
       | Some tr \<Rightarrow>
           bindR (kmalloc sub (nat (nbytes mod 2 ^ 32)) (ks_heap s)) (\<lambda>(d, h1).
           case d of
             None \<Rightarrow> Inr (-1, s\<lparr>ks_heap := h1\<rparr>)
           | Some data \<Rightarrow>
               bindR (kmemcpy (replicate (nat (nbytes mod 2 ^ 32)) 0) location (nat (nbytes mod 2 ^ 32))) (\<lambda>c.
               bindR (get_block proc dest_port) (\<lambda>b.
               case ib_message_q b of
                 None \<Rightarrow> Inl Null_deref
               | Some q \<Rightarrow>
                   bindR (aqueue_add sub q \<lparr>m_source_pid = source_pid, m_source_port = source_port,
                            m_dest_port = dest_port, m_bytes = nbytes, m_data = data, m_contents = c\<rparr> h1)
                     (\<lambda>((rc, q'), h2).
                   bindR (update_block p dest_port (\<lambda>b. b\<lparr>ib_message_q := Some q'\<rparr>) (s\<lparr>ks_heap := h2\<rparr>)) (\<lambda>s1.
                   if rc \<noteq> 0
                   then bindR (kfree sub (Some data) (ks_heap s1)) (\<lambda>h3. Inr (-1, s1\<lparr>ks_heap := h3\<rparr>))
                   else bindR (wake_receiver p tr dest_port s1) (\<lambda>s2. Inr (0, s2))))))))))"

text \<open>
  Taking the next message of a port: \<open>None\<close> when the port is masked or its queue is empty. The flag
  tells the two apart, for the callers that treat them differently.
\<close>

definition next_message ::
  "'h mm_subsystem \<Rightarrow> nat \<Rightarrow> int \<Rightarrow> 'h kstate \<Rightarrow> ((bool \<times> message option) \<times> 'h kstate) kres" where
  "next_message sub p port s =
     bindR (get_proc p s) (\<lambda>proc.
     bindR (port_flags proc port IPC_MASKED) (\<lambda>f.
     if f \<noteq> 0 then Inr ((True, None), s)
     else
       bindR (get_block proc port) (\<lambda>b.
       case ib_message_q b of
         None \<Rightarrow> Inl Assert_failed
       | Some q \<Rightarrow>
           if aqueue_count q = 0 then Inr ((False, None), s)
           else
             bindR (aqueue_next sub q (ks_heap s)) (\<lambda>((i, m, q'), h1).
             assertR (i = 0) (
             bindR (update_block p port (\<lambda>b. b\<lparr>ib_message_q := Some q'\<rparr>) (s\<lparr>ks_heap := h1\<rparr>)) (\<lambda>s1.
             Inr ((False, Some m), s1)))))))"

text \<open>Delivering a message: the result is the number of bytes copied and what the receiver gets.\<close>

definition deliver_message ::
  "'h mm_subsystem \<Rightarrow> message \<Rightarrow> int \<Rightarrow> nat list \<Rightarrow> 'h kstate
     \<Rightarrow> ((int \<times> (int \<times> int \<times> int \<times> nat list) option) \<times> 'h kstate) kres" where
  "deliver_message sub m nbytes location s =
     (let sz = (if nbytes < m_bytes m then nbytes else m_bytes m) in
      bindR (kmemcpy location (m_contents m) (nat (sz mod 2 ^ 32))) (\<lambda>loc.
      bindR (kfree sub (Some (m_data m)) (ks_heap s)) (\<lambda>h1.
      Inr ((sz, Some (m_source_pid m, m_source_port m, m_dest_port m, loc)), s\<lparr>ks_heap := h1\<rparr>))))"

fun recv_scan ::
  "'h mm_subsystem \<Rightarrow> nat \<Rightarrow> int list \<Rightarrow> 'h kstate \<Rightarrow> (message option \<times> 'h kstate) kres" where
  "recv_scan sub p [] s = Inr (None, s)"
| "recv_scan sub p (x # xs) s =
     (if x = -1 then Inr (None, s)
      else
        bindR (next_message sub p x s) (\<lambda>((_, m), s1).
        case m of None \<Rightarrow> recv_scan sub p xs s1 | Some msg \<Rightarrow> Inr (Some msg, s1)))"

definition recv_message ::
  "'h mm_subsystem \<Rightarrow> nat \<Rightarrow> int \<Rightarrow> int \<Rightarrow> nat list \<Rightarrow> 'h kstate
     \<Rightarrow> ((int \<times> (int \<times> int \<times> int \<times> nat list) option) \<times> 'h kstate) kres" where
  "recv_message sub tr dest_port nbytes location s =
     bindR (get_thr tr s) (\<lambda>th.
     let port = (if in_ports dest_port then dest_port else t_last_port_message th);
         s1 = put_thr tr (th\<lparr>t_last_port_message := -1\<rparr>) s
     in bindR (if in_ports port
               then bindR (next_message sub (t_process th) port s1) (\<lambda>((_, m), s2). Inr (m, s2))
               else recv_scan sub (t_process th) (t_ports th) s1) (\<lambda>(m, s2).
        case m of
          None \<Rightarrow> Inr ((-1, None), s2)
        | Some msg \<Rightarrow> deliver_message sub msg nbytes location s2))"

text \<open>The part of a thread's ports that \<^verbatim>\<open>peek_message\<close> and \<^verbatim>\<open>preview_pulse\<close> look at.\<close>

fun port_window :: "int list \<Rightarrow> int \<Rightarrow> int list option" where
  "port_window [] port = None"
| "port_window (x # xs) port = (if x = -1 then None else if x = port then Some [x] else port_window xs port)"

fun peek_scan ::
  "'h mm_subsystem \<Rightarrow> nat \<Rightarrow> int list \<Rightarrow> 'h kstate \<Rightarrow> ((int \<times> message) option \<times> 'h kstate) kres" where
  "peek_scan sub p [] s = Inr (None, s)"
| "peek_scan sub p (x # xs) s =
     (if x = -1 then Inr (None, s)
      else
        bindR (next_message sub p x s) (\<lambda>((_, m), s1).
        case m of None \<Rightarrow> peek_scan sub p xs s1 | Some msg \<Rightarrow> Inr (Some (x, msg), s1)))"

definition peek_message ::
  "'h mm_subsystem \<Rightarrow> nat \<Rightarrow> int \<Rightarrow> 'h kstate
     \<Rightarrow> ((int \<times> (int \<times> int \<times> int \<times> int) option) \<times> 'h kstate) kres" where
  "peek_message sub tr dest_port s =
     bindR (get_thr tr s) (\<lambda>th.
     case (if in_ports dest_port then port_window (t_ports th) dest_port else Some (t_ports th)) of
       None \<Rightarrow> Inr ((-1, None), s)
     | Some window \<Rightarrow>
         bindR (peek_scan sub (t_process th) window (put_thr tr (th\<lparr>t_last_port_message := -1\<rparr>) s)) (\<lambda>(m, s1).
         case m of
           None \<Rightarrow> Inr ((-1, None), s1)
         | Some (port, msg) \<Rightarrow>
             bindR (get_thr tr s1) (\<lambda>th1.
             Inr ((0, Some (m_source_pid msg, m_source_port msg, m_dest_port msg, m_bytes msg)),
                  put_thr tr (th1\<lparr>t_last_port_message := port\<rparr>) s1))))"

fun count_scan :: "(ipc_block \<Rightarrow> nat kres) \<Rightarrow> process \<Rightarrow> int list \<Rightarrow> int \<Rightarrow> int kres" where
  "count_scan cnt proc [] n = Inr n"
| "count_scan cnt proc (x # xs) n =
     (if x = -1 then Inr n
      else
        bindR (port_flags proc x IPC_MASKED) (\<lambda>f.
        if f \<noteq> 0 then count_scan cnt proc xs n
        else
          bindR (get_block proc x) (\<lambda>b.
          bindR (cnt b) (\<lambda>c. count_scan cnt proc xs (s32 (n + int c))))))"

definition messages_waiting :: "nat \<Rightarrow> 'h kstate \<Rightarrow> int kres" where
  "messages_waiting tr s =
     bindR (get_thr tr s) (\<lambda>th.
     bindR (get_proc (t_process th) s) (\<lambda>proc.
     count_scan (\<lambda>b. case ib_message_q b of None \<Rightarrow> Inl Assert_failed | Some q \<Rightarrow> Inr (aqueue_count q))
       proc (t_ports th) 0))"

text \<open>The scan of \<^verbatim>\<open>drop_message\<close> gives up at the first port that is not masked and has no message.\<close>

fun drop_scan ::
  "'h mm_subsystem \<Rightarrow> nat \<Rightarrow> int list \<Rightarrow> 'h kstate \<Rightarrow> (message option \<times> 'h kstate) kres" where
  "drop_scan sub p [] s = Inr (None, s)"
| "drop_scan sub p (x # xs) s =
     (if x = -1 then Inr (None, s)
      else
        bindR (next_message sub p x s) (\<lambda>((masked, m), s1).
        if masked then drop_scan sub p xs s1 else Inr (m, s1)))"

definition drop_message :: "'h mm_subsystem \<Rightarrow> nat \<Rightarrow> 'h kstate \<Rightarrow> (int \<times> 'h kstate) kres" where
  "drop_message sub tr s =
     bindR (get_thr tr s) (\<lambda>th.
     let port = t_last_port_message th;
         s1 = put_thr tr (th\<lparr>t_last_port_message := -1\<rparr>) s
     in bindR (if in_ports port
               then bindR (next_message sub (t_process th) port s1) (\<lambda>((_, m), s2). Inr (m, s2))
               else drop_scan sub (t_process th) (t_ports th) s1) (\<lambda>(m, s2).
        case m of
          None \<Rightarrow> Inr (-1, s2)
        | Some msg \<Rightarrow>
            bindR (kfree sub (Some (m_data msg)) (ks_heap s2)) (\<lambda>h. Inr (0, s2\<lparr>ks_heap := h\<rparr>))))"

section \<open>Pulses\<close>

definition send_pulse ::
  "'h mm_subsystem \<Rightarrow> pulse \<Rightarrow> nat \<Rightarrow> 'h kstate \<Rightarrow> (int \<times> 'h kstate) kres" where
  "send_pulse sub pu p s =
     (let dest_port = pu_dest_port pu in
      bindR (get_proc p s) (\<lambda>proc.
      bindR (port2tid proc dest_port) (\<lambda>tid.
      if tid < 0 then Inr (-1, s)
      else
        bindR (get_thread proc tid (k_threads (ks_sys s))) (\<lambda>r.
        case r of
          None \<Rightarrow> Inr (-1, s)
        | Some tr \<Rightarrow>
            bindR (get_block proc dest_port) (\<lambda>b.
            case ib_pulse_q b of
              None \<Rightarrow> Inl Assert_failed
            | Some q \<Rightarrow>
                bindR (aqueue_add sub q pu (ks_heap s)) (\<lambda>((rc, q'), h1).
                bindR (update_block p dest_port (\<lambda>b. b\<lparr>ib_pulse_q := Some q'\<rparr>) (s\<lparr>ks_heap := h1\<rparr>)) (\<lambda>s1.
                if rc \<noteq> 0 then Inr (-1, s1)
                else bindR (wake_receiver p tr dest_port s1) (\<lambda>s2. Inr (0, s2)))))))))"

text \<open>
  Taking the next pulse of a port; \<open>expect\<close> is the condition on the result of \<^verbatim>\<open>aqueue_next\<close> that
  the caller asserts.
\<close>

definition next_pulse ::
  "'h mm_subsystem \<Rightarrow> (int \<Rightarrow> bool) \<Rightarrow> nat \<Rightarrow> int \<Rightarrow> 'h kstate
     \<Rightarrow> ((bool \<times> pulse option) \<times> 'h kstate) kres" where
  "next_pulse sub expect p port s =
     bindR (get_proc p s) (\<lambda>proc.
     bindR (port_flags proc port IPC_MASKED) (\<lambda>f.
     if f \<noteq> 0 then Inr ((True, None), s)
     else
       bindR (get_block proc port) (\<lambda>b.
       case ib_pulse_q b of
         None \<Rightarrow> Inl Assert_failed
       | Some q \<Rightarrow>
           if aqueue_count q = 0 then Inr ((False, None), s)
           else
             bindR (aqueue_next sub q (ks_heap s)) (\<lambda>((i, pu, q'), h1).
             assertR (expect i) (
             bindR (update_block p port (\<lambda>b. b\<lparr>ib_pulse_q := Some q'\<rparr>) (s\<lparr>ks_heap := h1\<rparr>)) (\<lambda>s1.
             Inr ((False, Some pu), s1)))))))"

text \<open>The scans give up at the first port that is not masked and has no pulse.\<close>

fun pulse_scan ::
  "'h mm_subsystem \<Rightarrow> (int \<Rightarrow> bool) \<Rightarrow> nat \<Rightarrow> int list \<Rightarrow> 'h kstate
     \<Rightarrow> ((int \<times> pulse) option \<times> 'h kstate) kres" where
  "pulse_scan sub expect p [] s = Inr (None, s)"
| "pulse_scan sub expect p (x # xs) s =
     (if x = -1 then Inr (None, s)
      else
        bindR (next_pulse sub expect p x s) (\<lambda>((masked, pu), s1).
        if masked then pulse_scan sub expect p xs s1
        else Inr (map_option (Pair x) pu, s1)))"

definition receive_pulse ::
  "'h mm_subsystem \<Rightarrow> nat \<Rightarrow> int \<Rightarrow> 'h kstate \<Rightarrow> ((int \<times> pulse option) \<times> 'h kstate) kres" where
  "receive_pulse sub tr dest_port s =
     bindR (get_thr tr s) (\<lambda>th.
     let port = (if in_ports dest_port then dest_port else t_last_port_pulse th);
         s1 = put_thr tr (th\<lparr>t_last_port_pulse := -1\<rparr>) s
     in bindR (if in_ports port
               then bindR (next_pulse sub (\<lambda>i. i \<noteq> 0) (t_process th) port s1) (\<lambda>((_, pu), s2). Inr (pu, s2))
               else bindR (pulse_scan sub (\<lambda>i. i \<noteq> 0) (t_process th) (t_ports th) s1)
                      (\<lambda>(r, s2). Inr (map_option snd r, s2))) (\<lambda>(pu, s2).
        Inr ((if pu = None then -1 else 0, pu), s2)))"

definition preview_pulse ::
  "'h mm_subsystem \<Rightarrow> nat \<Rightarrow> int \<Rightarrow> 'h kstate \<Rightarrow> ((int \<times> pulse option) \<times> 'h kstate) kres" where
  "preview_pulse sub tr dest_port s =
     bindR (get_thr tr s) (\<lambda>th.
     case (if in_ports dest_port then port_window (t_ports th) dest_port else Some (t_ports th)) of
       None \<Rightarrow> Inr ((-1, None), s)
     | Some window \<Rightarrow>
         bindR (pulse_scan sub (\<lambda>i. i = 0) (t_process th) window
                  (put_thr tr (th\<lparr>t_last_port_pulse := -1\<rparr>) s)) (\<lambda>(r, s1).
         case r of
           None \<Rightarrow> Inr ((-1, None), s1)
         | Some (port, pu) \<Rightarrow>
             bindR (get_thr tr s1) (\<lambda>th1.
             Inr ((0, Some pu), put_thr tr (th1\<lparr>t_last_port_pulse := port\<rparr>) s1))))"

definition pulses_waiting :: "nat \<Rightarrow> 'h kstate \<Rightarrow> int kres" where
  "pulses_waiting tr s =
     bindR (get_thr tr s) (\<lambda>th.
     bindR (get_proc (t_process th) s) (\<lambda>proc.
     count_scan (\<lambda>b. case ib_pulse_q b of None \<Rightarrow> Inl Assert_failed | Some q \<Rightarrow> Inr (aqueue_count q))
       proc (t_ports th) 0))"

text \<open>\<^verbatim>\<open>drop_pulse\<close> takes a pulse without asking whether there is one.\<close>

definition discard_pulse ::
  "'h mm_subsystem \<Rightarrow> kerror \<Rightarrow> nat \<Rightarrow> int \<Rightarrow> 'h kstate \<Rightarrow> 'h kstate kres" where
  "discard_pulse sub null p port s =
     bindR (get_proc p s) (\<lambda>proc.
     bindR (get_block proc port) (\<lambda>b.
     case ib_pulse_q b of
       None \<Rightarrow> Inl null
     | Some q \<Rightarrow>
         bindR (aqueue_next sub q (ks_heap s)) (\<lambda>((_, _, q'), h1).
         update_block p port (\<lambda>b. b\<lparr>ib_pulse_q := Some q'\<rparr>) (s\<lparr>ks_heap := h1\<rparr>))))"

definition drop_pulse :: "'h mm_subsystem \<Rightarrow> nat \<Rightarrow> 'h kstate \<Rightarrow> (int \<times> 'h kstate) kres" where
  "drop_pulse sub tr s =
     bindR (get_thr tr s) (\<lambda>th.
     let port = t_last_port_pulse th;
         s1 = put_thr tr (th\<lparr>t_last_port_pulse := -1\<rparr>) s
     in if in_ports port
        then
          bindR (get_proc (t_process th) s1) (\<lambda>proc.
          bindR (port_flags proc port IPC_MASKED) (\<lambda>f.
          if f \<noteq> 0 then Inr (-1, s1)
          else bindR (discard_pulse sub Assert_failed (t_process th) port s1) (\<lambda>s2. Inr (0, s2))))
        else
          bindR (aget (t_ports th) 0) (\<lambda>x.
          if x = -1 then Inr (-1, s1)
          else bindR (discard_pulse sub Null_deref (t_process th) x s1) (\<lambda>s2. Inr (0, s2))))"

section \<open>Releasing a port\<close>

text \<open>
  The two loops that drain the queues of the port. Each round takes an object out of a queue or ends
  the loop, so fuel beyond the number of queued objects is never used up.
\<close>

definition hint_message :: "nat \<Rightarrow> int \<Rightarrow> 'h kstate \<Rightarrow> 'h kstate kres" where
  "hint_message tr port s =
     bindR (get_thr tr s) (\<lambda>th. Inr (put_thr tr (th\<lparr>t_last_port_message := port\<rparr>) s))"

fun drain ::
  "nat \<Rightarrow> ('h kstate \<Rightarrow> (int \<times> 'h kstate) kres) \<Rightarrow> nat \<Rightarrow> int \<Rightarrow> 'h kstate \<Rightarrow> 'h kstate kres" where
  "drain 0 drop_one tg port s = Inl Hang"
| "drain (Suc fuel) drop_one tg port s =
     bindR (hint_message tg port s) (\<lambda>s1.
     bindR (drop_one s1) (\<lambda>(rc, s2).
     if rc \<ge> 0 then drain fuel drop_one tg port s2 else Inr s2))"

text \<open>The loop that takes the port out of the owner's table, \<open>k\<close> cells from \<open>i\<close> on.\<close>

fun remove_port :: "int list \<Rightarrow> int \<Rightarrow> nat \<Rightarrow> nat \<Rightarrow> nat \<Rightarrow> int list kres" where
  "remove_port ports port i found 0 = Inr ports"
| "remove_port ports port i found (Suc k) =
     bindR (aget ports i) (\<lambda>x.
     if x = -1 then Inr ports
     else
       let found' = (if x = port then 1 else found);
           ports1 = (if x = port then ports[i := -1] else ports)
       in if found' = 1 \<and> k = 0 then Inr (ports1[i := -1])
          else
            bindR (aget ports1 (i + found')) (\<lambda>y.
            remove_port (ports1[i := y]) port (Suc i) found' k))"

definition destroy_queue :: "'h mm_subsystem \<Rightarrow> 'a aqueue option \<Rightarrow> 'h kstate \<Rightarrow> 'h kstate kres" where
  "destroy_queue sub q s =
     (case q of
        None \<Rightarrow> Inl Null_deref
      | Some aq \<Rightarrow> bindR (aqueue_destroy sub aq (ks_heap s)) (\<lambda>h. Inr (s\<lparr>ks_heap := h\<rparr>)))"

definition release_port ::
  "nat \<Rightarrow> 'h mm_subsystem \<Rightarrow> nat \<Rightarrow> int \<Rightarrow> 'h kstate \<Rightarrow> (int \<times> 'h kstate) kres" where
  "release_port fuel sub tr port s =
     bindR (get_thr tr s) (\<lambda>th.
     bindR (get_proc (t_process th) s) (\<lambda>proc.
     if \<not> in_ports port then Inr (-1, s)
     else
       bindR (get_block proc port) (\<lambda>b.
       if ib_tid b = -1 then Inr (-1, s)
       else
         bindR (if t_tid th = ib_tid b then Inr (Some tr)
                else get_thread proc (ib_tid b) (k_threads (ks_sys s))) (\<lambda>target.
         bindR (case target of
                  None \<Rightarrow> Inr s
                | Some tg \<Rightarrow>
                    bindR (drain fuel (drop_pulse sub tg) tg port s) (\<lambda>s1.
                    drain fuel (drop_message sub tg) tg port s1)) (\<lambda>s2.
         bindR (get_proc (t_process th) s2) (\<lambda>proc2.
         bindR (get_block proc2 port) (\<lambda>b2.
         bindR (destroy_queue sub (ib_pulse_q b2) s2) (\<lambda>s3.
         bindR (destroy_queue sub (ib_message_q b2) s3) (\<lambda>s4.
         bindR (update_block (t_process th) port (\<lambda>_. \<lparr>ib_tid = -1, ib_flags = 0, ib_pulse_q = None,
                  ib_message_q = None\<rparr>) s4) (\<lambda>s5.
         case target of
           None \<Rightarrow> Inr (0, s5)
         | Some tg \<Rightarrow>
             bindR (get_thr tg s5) (\<lambda>tgt.
             bindR (remove_port (t_ports tgt) port 0 0 MAX_PORTS) (\<lambda>ports.
             Inr (0, put_thr tg (tgt\<lparr>t_ports := ports\<rparr>) s5)))))))))))))"

text \<open>\<open>ports\<close> bounds the number of ports released, \<open>fuel\<close> the objects drained from each.\<close>

fun release_thread_ports ::
  "nat \<Rightarrow> nat \<Rightarrow> 'h mm_subsystem \<Rightarrow> nat \<Rightarrow> 'h kstate \<Rightarrow> int \<Rightarrow> (int \<times> 'h kstate) kres" where
  "release_thread_ports 0 fuel sub tr s n = Inl Hang"
| "release_thread_ports (Suc ports) fuel sub tr s n =
     bindR (get_thr tr s) (\<lambda>th.
     bindR (aget (t_ports th) 0) (\<lambda>x.
     if x = -1 then Inr (n, s)
     else
       bindR (release_port fuel sub tr x s) (\<lambda>(_, s1).
       release_thread_ports ports fuel sub tr s1 (n + 1))))"

section \<open>Bulk access\<close>

text \<open>A buffer of \<^verbatim>\<open>struct port_pair\<close>; cells beyond the last port keep what they hold.\<close>

fun bulk_get_loop ::
  "nat \<Rightarrow> int list \<Rightarrow> nat \<Rightarrow> (int \<times> int) list \<Rightarrow> 'h kstate \<Rightarrow> (int \<times> int) list kres" where
  "bulk_get_loop tr [] i pairs s = Inr pairs"
| "bulk_get_loop tr (x # xs) i pairs s =
     bindR (aget pairs i) (\<lambda>(_, old).
     if x = -1 then Inr (pairs[i := (x, old)])
     else
       bindR (get_port_flags tr x s) (\<lambda>f.
       bulk_get_loop tr xs (Suc i) (pairs[i := (x, f)]) s))"

definition bulk_get_ports :: "nat \<Rightarrow> (int \<times> int) list \<Rightarrow> 'h kstate \<Rightarrow> (int \<times> (int \<times> int) list) kres" where
  "bulk_get_ports tr pairs s =
     bindR (get_thr tr s) (\<lambda>th.
     bindR (bulk_get_loop tr (take MAX_PORTS (t_ports th)) 0 pairs s) (\<lambda>ps. Inr (0, ps)))"

fun bulk_set_loop :: "nat \<Rightarrow> (int \<times> int) list \<Rightarrow> nat \<Rightarrow> 'h kstate \<Rightarrow> 'h kstate kres" where
  "bulk_set_loop tr pairs 0 s = Inr s"
| "bulk_set_loop tr pairs (Suc k) s =
     (case pairs of
        [] \<Rightarrow> Inl Out_of_bounds
      | (port, flags) # ps \<Rightarrow>
          if port = -1 then Inr s
          else
            bindR (set_port_flags tr port (nat (flags mod 2 ^ 32)) s) (\<lambda>(_, s1).
            bulk_set_loop tr ps k s1))"

definition bulk_set_ports :: "nat \<Rightarrow> (int \<times> int) list \<Rightarrow> 'h kstate \<Rightarrow> (int \<times> 'h kstate) kres" where
  "bulk_set_ports tr pairs s = bindR (bulk_set_loop tr pairs MAX_PORTS s) (\<lambda>s1. Inr (0, s1))"

end
