(* ===== verification/Ipc_Props.thy ===== *)
theory Ipc_Props
  imports Ipc Scheduler_Props
begin

text \<open>
  What the inter-process communication does. The queues of a port work once an object is in them:
  \<^verbatim>\<open>recv_message\<close> delivers the oldest message. But no object ever gets into a queue, because
  \<^verbatim>\<open>aqueue_add\<close> does not advance its position: whatever is sent, nothing is received, and releasing
  a port halts the kernel.
\<close>

section \<open>Queues that look empty\<close>

definition queue_idle :: "'a aqueue option \<Rightarrow> bool" where
  "queue_idle r \<longleftrightarrow> (\<forall>q. r = Some q \<longrightarrow> position q = last_position q \<and> obj_count q \<noteq> 0)"

definition block_good :: "ipc_block \<Rightarrow> bool" where
  "block_good b \<longleftrightarrow>
     (ib_tid b \<noteq> -1 \<longrightarrow> ib_pulse_q b \<noteq> None \<and> ib_message_q b \<noteq> None)
     \<and> queue_idle (ib_pulse_q b) \<and> queue_idle (ib_message_q b)"

definition ipc_good :: "'h kstate \<Rightarrow> bool" where
  "ipc_good s \<longleftrightarrow>
     (\<forall>p pr. ks_procs s p = Some pr \<longrightarrow> length (pr_ipc pr) = MAX_PORTS \<and> (\<forall>b \<in> set (pr_ipc pr). block_good b))"

lemma get_block_good:
  "ipc_good s \<Longrightarrow> ks_procs s p = Some pr \<Longrightarrow> get_block pr port = Inr b \<Longrightarrow> block_good b"
  by (auto simp: ipc_good_def get_block_def kres_simps)

lemma get_block_in:
  "ipc_good s \<Longrightarrow> ks_procs s p = Some pr \<Longrightarrow> in_ports port \<Longrightarrow> \<exists>b. get_block pr port = Inr b \<and> block_good b"
proof -
  assume g: "ipc_good s" "ks_procs s p = Some pr" "in_ports port"
  then have "nat port < length (pr_ipc pr)" by (auto simp: ipc_good_def in_ports_def)
  then have "get_block pr port = Inr (pr_ipc pr ! nat port)" using g(3) by (simp add: get_block_def in_ports_def)
  with get_block_good [OF g(1,2) this] show ?thesis by blast
qed

lemma update_block_good:
  assumes "ipc_good s" and "update_block p port f s = Inr s'"
    and "\<And>pr b. ks_procs s p = Some pr \<Longrightarrow> get_block pr port = Inr b \<Longrightarrow> block_good (f b)"
  shows "ipc_good s' \<and> ks_sys s' = ks_sys s"
proof -
  from assms(2) obtain pr b where pr: "ks_procs s p = Some pr" "get_block pr port = Inr b"
    "s' = put_proc p (put_block port (f b) pr) s"
    by (auto simp: update_block_def get_proc_def kres_simps split: option.splits)
  have "block_good x" if "x \<in> set ((pr_ipc pr)[nat port := f b])" for x
    using that assms(1) pr(1) assms(3) [OF pr(1,2)] set_update_subset_insert [of "pr_ipc pr" "nat port" "f b"]
    by (auto simp: ipc_good_def)
  then show ?thesis using assms(1) pr
    by (auto simp: ipc_good_def put_proc_def put_block_def)
qed

lemma wake_receiver_good:
  "ipc_good s \<Longrightarrow> wake_receiver p tr port s = Inr s' \<Longrightarrow> ipc_good s' \<and> ks_procs s' = ks_procs s"
  by (auto simp: wake_receiver_def kres_simps ipc_good_def split: if_splits)

lemma queue_idle_add:
  "aqueue_add sub q x h = Inr ((rc, q'), h') \<Longrightarrow> queue_idle (Some q) \<Longrightarrow> queue_idle (Some q')"
  by (auto simp: queue_idle_def dest: aqueue_add_positions)

lemma heap_good [simp]: "ipc_good (s\<lparr>ks_heap := h\<rparr>) = ipc_good s"
  by (simp add: ipc_good_def)

lemma put_thr_good [simp]: "ipc_good (put_thr t th s) = ipc_good s" "ks_procs (put_thr t th s) = ks_procs s"
  by (simp_all add: ipc_good_def put_thr_def)

lemma update_queue_good:
  assumes "ipc_good s" and "ks_procs s p = Some pr" and "get_block pr port = Inr b"
    and "update_block p port f (s\<lparr>ks_heap := h\<rparr>) = Inr s'" and "block_good (f b)"
  shows "ipc_good s'"
proof -
  have "ipc_good (s\<lparr>ks_heap := h\<rparr>)" using assms(1) by simp
  then show ?thesis
    by (rule update_block_good [OF _ assms(4), THEN conjunct1]) (use assms(2,3,5) in simp)
qed

lemma send_message_good:
  assumes g: "ipc_good s" and r: "send_message sub pid sport p dport n loc s = Inr (rc, s')"
  shows "ipc_good s'"
proof -
  from r obtain proc dtid where p: "get_proc p s = Inr proc" "port2tid proc dport = Inr dtid"
    and r1: "dtid < 0 \<longrightarrow> s' = s" by (auto simp: send_message_def kres_simps split: if_splits)
  show ?thesis
  proof (cases "dtid < 0")
    case True
    with r1 g show ?thesis by simp
  next
    case False
    have pr: "ks_procs s p = Some proc" using p(1) by (auto simp: get_proc_def split: option.splits)
    from r p False obtain t where t: "get_thread proc dtid (k_threads (ks_sys s)) = Inr t"
      by (auto simp: send_message_def kres_simps)
    show ?thesis
    proof (cases t)
      case None
      with r p False t g show ?thesis by (simp add: send_message_def)
    next
      case (Some tr)
      from r p False t Some obtain d h1 where d: "kmalloc sub (nat (n mod 2 ^ 32)) (ks_heap s) = Inr (d, h1)"
        by (auto simp: send_message_def kres_simps)
      show ?thesis
      proof (cases d)
        case None
        with r p False t Some d g show ?thesis by (auto simp: send_message_def)
      next
        case data: (Some data)
        from r p False t Some d data obtain c b where
          b: "kmemcpy (replicate (nat (n mod 2 ^ 32)) 0) loc (nat (n mod 2 ^ 32)) = Inr c" "get_block proc dport = Inr b"
          by (auto simp: send_message_def kres_simps)
        let ?m = "\<lparr>m_source_pid = pid, m_source_port = sport, m_dest_port = dport, m_bytes = n, m_data = data, m_contents = c\<rparr>"
        from r p False t Some d data b obtain q rc1 q' h2 s1 where
          q: "ib_message_q b = Some q" "aqueue_add sub q ?m h1 = Inr ((rc1, q'), h2)"
            "update_block p dport (\<lambda>b. b\<lparr>ib_message_q := Some q'\<rparr>) (s\<lparr>ks_heap := h2\<rparr>) = Inr s1"
          and last: "(if rc1 \<noteq> 0 then bindR (kfree sub (Some data) (ks_heap s1)) (\<lambda>h3. Inr (-1, s1\<lparr>ks_heap := h3\<rparr>))
                      else bindR (wake_receiver p tr dport s1) (\<lambda>s2. Inr (0, s2))) = Inr (rc, s')"
          by (auto simp: send_message_def kres_simps split: option.splits)
        have bg: "block_good b" by (rule get_block_good [OF g pr b(2)])
        then have "queue_idle (Some q')" using queue_idle_add [OF q(2)] q(1) by (simp add: block_good_def)
        then have "block_good (b\<lparr>ib_message_q := Some q'\<rparr>)" using bg q(1) by (auto simp: block_good_def)
        then have "ipc_good s1" by (rule update_queue_good [OF g pr b(2) q(3)])
        with last show ?thesis by (auto simp: kres_simps split: if_splits dest: wake_receiver_good)
      qed
    qed
  qed
qed

lemma send_pulse_good:
  assumes g: "ipc_good s" and r: "send_pulse sub pu p s = Inr (rc, s')"
  shows "ipc_good s'"
proof -
  from r obtain proc tid where p: "get_proc p s = Inr proc" "port2tid proc (pu_dest_port pu) = Inr tid"
    and r1: "tid < 0 \<longrightarrow> s' = s" by (auto simp: send_pulse_def kres_simps Let_def split: if_splits)
  have pr: "ks_procs s p = Some proc" using p(1) by (auto simp: get_proc_def split: option.splits)
  show ?thesis
  proof (cases "tid < 0")
    case True
    with r1 g show ?thesis by simp
  next
    case False
    from r p False obtain t where t: "get_thread proc tid (k_threads (ks_sys s)) = Inr t"
      by (auto simp: send_pulse_def kres_simps Let_def)
    show ?thesis
    proof (cases t)
      case None
      with r p False t g show ?thesis by (simp add: send_pulse_def)
    next
      case (Some tr)
      from r p False t Some obtain b q rc1 q' h1 s1 where
        q: "get_block proc (pu_dest_port pu) = Inr b" "ib_pulse_q b = Some q"
          "aqueue_add sub q pu (ks_heap s) = Inr ((rc1, q'), h1)"
          "update_block p (pu_dest_port pu) (\<lambda>b. b\<lparr>ib_pulse_q := Some q'\<rparr>) (s\<lparr>ks_heap := h1\<rparr>) = Inr s1"
        and last: "(if rc1 \<noteq> 0 then Inr (-1, s1)
                    else bindR (wake_receiver p tr (pu_dest_port pu) s1) (\<lambda>s2. Inr (0, s2))) = Inr (rc, s')"
        by (auto simp: send_pulse_def kres_simps Let_def split: option.splits)
      have bg: "block_good b" by (rule get_block_good [OF g pr q(1)])
      then have "queue_idle (Some q')" using queue_idle_add [OF q(3)] q(2) by (simp add: block_good_def)
      then have "block_good (b\<lparr>ib_pulse_q := Some q'\<rparr>)" using bg q(2) by (auto simp: block_good_def)
      then have "ipc_good s1" by (rule update_queue_good [OF g pr q(1,4)])
      with last show ?thesis by (auto simp: kres_simps split: if_splits dest: wake_receiver_good)
    qed
  qed
qed

section \<open>Nothing is received\<close>

lemma port_flags_total:
  "ipc_good s \<Longrightarrow> ks_procs s p = Some pr \<Longrightarrow> \<exists>f. port_flags pr port m = Inr f"
  using get_block_in [of s p pr port] by (auto simp: port_flags_def)

lemma port_flags_open:
  "port_flags pr port m = Inr 0 \<Longrightarrow> get_block pr port = Inr b \<Longrightarrow> ib_tid b \<noteq> -1"
  by (auto simp: port_flags_def kres_simps split: if_splits)

lemma queue_idle_count: "queue_idle (Some q) \<Longrightarrow> aqueue_count q = 0"
  by (simp add: queue_idle_def aqueue_count_def sub32_def u32_def)

lemma next_message_idle:
  assumes g: "ipc_good s" and pr: "ks_procs s p = Some pr"
  shows "\<exists>masked. next_message sub p port s = Inr ((masked, None), s)"
proof -
  from port_flags_total [OF g pr] obtain f where f: "port_flags pr port IPC_MASKED = Inr f" by blast
  show ?thesis
  proof (cases "f = 0")
    case False
    with f pr show ?thesis by (auto simp: next_message_def get_proc_def)
  next
    case True
    then have "in_ports port" using f by (auto simp: port_flags_def split: if_splits)
    from get_block_in [OF g pr this] obtain b where b: "get_block pr port = Inr b" "block_good b" by blast
    with port_flags_open f True obtain q where q: "ib_message_q b = Some q" by (fastforce simp: block_good_def)
    then have "aqueue_count q = 0" using b(2) queue_idle_count by (auto simp: block_good_def)
    with f True b q pr show ?thesis by (auto simp: next_message_def get_proc_def)
  qed
qed

lemma recv_scan_idle:
  "ipc_good s \<Longrightarrow> ks_procs s p = Some pr \<Longrightarrow> recv_scan sub p ports s = Inr (None, s)"
proof (induction ports)
  case (Cons x xs)
  from next_message_idle [OF Cons.prems, of sub x] obtain b where "next_message sub p x s = Inr ((b, None), s)" by blast
  with Cons show ?case by simp
qed simp

lemma count_scan_idle:
  assumes "ipc_good s" and "ks_procs s p = Some pr"
    and "\<And>b. block_good b \<Longrightarrow> ib_tid b \<noteq> -1 \<Longrightarrow> cnt b = Inr 0"
  shows "count_scan cnt pr ports 0 = Inr 0"
proof (induction ports)
  case (Cons x xs)
  from port_flags_total [OF assms(1,2)] obtain f where f: "port_flags pr x IPC_MASKED = Inr f" by blast
  show ?case
  proof (cases "f = 0")
    case True
    then have "in_ports x" using f by (auto simp: port_flags_def split: if_splits)
    from get_block_in [OF assms(1,2) this] obtain b where b: "get_block pr x = Inr b" "block_good b" by blast
    with assms(3) port_flags_open f True have "cnt b = Inr 0" by blast
    with Cons f True b show ?thesis by simp
  qed (use Cons f in simp)
qed simp

text \<open>A sequence of sends.\<close>

datatype ipc_send =
    Send_message int int nat int int "nat list"
  | Send_pulse pulse nat

fun run_sends :: "'h mm_subsystem \<Rightarrow> ipc_send list \<Rightarrow> 'h kstate \<Rightarrow> 'h kstate kres" where
  "run_sends sub [] s = Inr s"
| "run_sends sub (Send_message pid sport p dport n loc # xs) s =
     bindR (send_message sub pid sport p dport n loc s) (\<lambda>(_, s1). run_sends sub xs s1)"
| "run_sends sub (Send_pulse pu p # xs) s =
     bindR (send_pulse sub pu p s) (\<lambda>(_, s1). run_sends sub xs s1)"

lemma run_sends_good: "ipc_good s \<Longrightarrow> run_sends sub xs s = Inr s' \<Longrightarrow> ipc_good s'"
  by (induction sub xs s rule: run_sends.induct) (auto simp: kres_simps dest: send_message_good send_pulse_good)

text \<open>
  C13: Nothing that is sent is ever received. From a state in which every port's queues are as
  \<^verbatim>\<open>create_port\<close> makes them, after any sequence of messages and pulses sent to any processes,
  \<^verbatim>\<open>messages_waiting\<close> and \<^verbatim>\<open>pulses_waiting\<close> of every thread are 0 and \<^verbatim>\<open>recv_message\<close> returns -1, from
  a named port or from any.
\<close>

theorem ipc_never_delivers:
  assumes g: "ipc_good s" and run: "run_sends sub sends s = Inr s'"
    and th: "k_threads (ks_sys s') tr = Some th" and pr: "ks_procs s' (t_process th) = Some pr"
  shows "messages_waiting tr s' = Inr 0 \<and> pulses_waiting tr s' = Inr 0
    \<and> (\<exists>s''. recv_message sub tr dest_port n location s' = Inr ((-1, None), s''))"
proof -
  have g': "ipc_good s'" by (rule run_sends_good [OF g run])
  have t: "get_thr tr s' = Inr th" "get_proc (t_process th) s' = Inr pr" using th pr
    by (simp_all add: get_thr_def get_tr_def get_proc_def)
  have "messages_waiting tr s' = Inr 0"
    unfolding messages_waiting_def using t
    by (auto simp: block_good_def queue_idle_count intro!: count_scan_idle [OF g' pr] split: option.splits)
  moreover have "pulses_waiting tr s' = Inr 0"
    unfolding pulses_waiting_def using t
    by (auto simp: block_good_def queue_idle_count intro!: count_scan_idle [OF g' pr] split: option.splits)
  moreover have "\<exists>s''. recv_message sub tr dest_port n location s' = Inr ((-1, None), s'')"
  proof -
    let ?s = "put_thr tr (th\<lparr>t_last_port_message := -1\<rparr>) s'"
    let ?port = "if in_ports dest_port then dest_port else t_last_port_message th"
    have gs: "ipc_good ?s" "ks_procs ?s (t_process th) = Some pr" using g' pr by simp_all
    from next_message_idle [OF gs, of sub ?port] obtain b where
      "next_message sub (t_process th) ?port ?s = Inr ((b, None), ?s)" by blast
    moreover note recv_scan_idle [OF gs, of sub "t_ports th"]
    ultimately show ?thesis using t(1) by (simp add: recv_message_def Let_def)
  qed
  ultimately show ?thesis by blast
qed

section \<open>Receiving\<close>

lemma update_block_eq:
  assumes "ks_procs s p = Some pr" and "get_block pr port = Inr b"
  shows "update_block p port f s = Inr (put_proc p (put_block port (f b) pr) s)"
  using assms by (simp add: update_block_def get_proc_def)

text \<open>
  C12: On a port that is not masked and whose queue holds messages, \<^verbatim>\<open>recv_message\<close> delivers the oldest
  one: it returns the number of bytes, the smaller of the message's and the buffer's size, copies
  exactly these into the buffer, reports the sender, frees the message's data and leaves the
  other messages queued in their order.
\<close>

theorem recv_message_correct:
  assumes h: "kernel_heap_ok (ks_heap s)" and th: "k_threads (ks_sys s) tr = Some th"
    and pr: "ks_procs s (t_process th) = Some pr" and port: "in_ports port"
    and b: "get_block pr port = Inr b" and unmasked: "port_flags pr port IPC_MASKED = Inr 0"
    and q: "ib_message_q b = Some q" "aq_ok q" "aq_live (live (ks_heap s)) q" "aq_contents q = m # ms"
    and m: "m_bytes m = int (length (m_contents m))" "length (m_contents m) < 2 ^ 31"
    and n: "0 \<le> n" "n \<le> int (length location)"
    and data: "live (ks_heap s) (m_data m) \<noteq> None" "m_data m \<notin> set (map fst (aq_chain q))" "m_data m \<noteq> aq_self q"
  shows "\<exists>s' pr' q'. recv_message liballoc_subsystem tr port n location s =
      Inr ((min n (m_bytes m), Some (m_source_pid m, m_source_port m, m_dest_port m,
              take (nat n) (m_contents m) @ drop (min (nat n) (length (m_contents m))) location)), s')
    \<and> kernel_heap_ok (ks_heap s') \<and> live (ks_heap s') (m_data m) = None
    \<and> ks_procs s' (t_process th) = Some pr' \<and> get_block pr' port = Inr (b\<lparr>ib_message_q := Some q'\<rparr>)
    \<and> aq_ok q' \<and> aq_contents q' = ms"
proof -
  let ?s1 = "put_thr tr (th\<lparr>t_last_port_message := -1\<rparr>) s"
  let ?p = "t_process th"
  from kheap.next_ok [OF q(2) h q(3)] q(4) obtain q' h1 where
    nx: "aqueue_next liballoc_subsystem q (ks_heap s) = Inr ((0, m, q'), h1)" "kernel_heap_ok h1"
      "aq_ok q'" "aq_contents q' = ms" "\<forall>a. a \<notin> set (map fst (aq_chain q)) \<longrightarrow> live h1 a = live (ks_heap s) a" by auto
  have cnt: "aqueue_count q \<noteq> 0" using aqueue_count_contents [OF q(2)] q(4) by simp
  let ?pr' = "put_block port (b\<lparr>ib_message_q := Some q'\<rparr>) pr"
  let ?s2 = "put_proc ?p ?pr' (?s1\<lparr>ks_heap := h1\<rparr>)"
  have heap: "ks_heap ?s1 = ks_heap s" by (simp add: put_thr_def)
  have "next_message liballoc_subsystem ?p port ?s1 = Inr ((False, Some m), ?s2)"
    using pr unmasked b q(1) cnt nx(1) update_block_eq [of "?s1\<lparr>ks_heap := h1\<rparr>" ?p pr port b] heap
    by (simp add: next_message_def get_proc_def)
  moreover from data(1,2) nx(5) obtain k where "live h1 (m_data m) = Some k" by fastforce
  from kheap.free_live [OF nx(2) this] obtain h2 where
    h2: "kfree liballoc_subsystem (Some (m_data m)) h1 = Inr h2" "kernel_heap_ok h2"
      "live h2 = (live h1)(m_data m := None)" by blast
  let ?sz = "min (nat n) (length (m_contents m))"
  have sz: "(if n < m_bytes m then n else m_bytes m) = int ?sz" using m(1) n(1) by auto
  have "?sz < 2 ^ 32" using m(2) by simp
  then have mo: "nat (int ?sz mod 2 ^ 32) = ?sz" by (metis mod_less nat_int of_nat_mod of_nat_numeral of_nat_power)
  have "kmemcpy location (m_contents m) ?sz = Inr (take ?sz (m_contents m) @ drop ?sz location)"
    by (rule kmemcpy_ok) (use n in auto)
  moreover have tk: "take ?sz (m_contents m) = take (nat n) (m_contents m)" by (simp add: min_def)
  moreover have "int ?sz = min n (m_bytes m)" using m(1) n(1) by auto
  ultimately have "recv_message liballoc_subsystem tr port n location s =
      Inr ((min n (m_bytes m), Some (m_source_pid m, m_source_port m, m_dest_port m,
              take (nat n) (m_contents m) @ drop ?sz location)), ?s2\<lparr>ks_heap := h2\<rparr>)"
    using th port h2(1) sz mo
    by (simp add: recv_message_def get_thr_def get_tr_def deliver_message_def put_proc_def Let_def)
  moreover have "get_block ?pr' port = Inr (b\<lparr>ib_message_q := Some q'\<rparr>)"
    using b port by (auto simp: get_block_def put_block_def kres_simps in_ports_def)
  ultimately show ?thesis using h2(2,3) nx(3,4)
    by (intro exI [of _ "?s2\<lparr>ks_heap := h2\<rparr>"] exI [of _ ?pr'] exI [of _ q']) (simp add: put_proc_def)
qed

section \<open>Pulses and releasing\<close>

text \<open>
  Remark: \<^verbatim>\<open>receive_pulse\<close> halts the kernel whenever a pulse is there: it asserts that \<^verbatim>\<open>aqueue_next\<close> did not
  return 0, and that routine never returns anything else.
\<close>

theorem receive_pulse_halts:
  assumes h: "kernel_heap_ok (ks_heap s)" and th: "k_threads (ks_sys s) tr = Some th"
    and pr: "ks_procs s (t_process th) = Some pr" and port: "in_ports port"
    and b: "get_block pr port = Inr b" and unmasked: "port_flags pr port IPC_MASKED = Inr 0"
    and q: "ib_pulse_q b = Some q" "aq_ok q" "aq_live (live (ks_heap s)) q" "aq_contents q \<noteq> []"
  shows "receive_pulse liballoc_subsystem tr port s = Inl Assert_failed"
proof -
  let ?s1 = "put_thr tr (th\<lparr>t_last_port_pulse := -1\<rparr>) s"
  from kheap.next_ok [OF q(2) h q(3,4)] obtain x q' h1 where
    "aqueue_next liballoc_subsystem q (ks_heap s) = Inr ((0, x, q'), h1)" by blast
  moreover have "aqueue_count q \<noteq> 0" using aqueue_count_contents [OF q(2)] q(4) by simp
  moreover have "ks_heap ?s1 = ks_heap s" by (simp add: put_thr_def)
  ultimately have "next_pulse liballoc_subsystem (\<lambda>i. i \<noteq> 0) (t_process th) port ?s1 = Inl Assert_failed"
    using pr unmasked b q(1) by (simp add: next_pulse_def get_proc_def)
  then show ?thesis using th port by (simp add: receive_pulse_def get_thr_def get_tr_def Let_def)
qed

text \<open>
  Remark: \<^verbatim>\<open>release_port\<close> by the owner of a port halts the kernel: the loop that drains the pulses ends
  only when \<^verbatim>\<open>drop_pulse\<close> reports an error, but that routine takes pulses from the thread's first port
  without testing whether there is one, until the assertion in \<^verbatim>\<open>aqueue_next\<close> fails.
\<close>

theorem release_port_halts:
  assumes g: "ipc_good s" and th: "k_threads (ks_sys s) tr = Some th" and pr: "ks_procs s (t_process th) = Some pr"
    and port: "in_ports port" and b: "get_block pr port = Inr b" and owner: "ib_tid b = t_tid th" "t_tid th \<noteq> -1"
    and first: "t_ports th = x # xs" "in_ports x" "get_block pr x = Inr bx" "ib_tid bx \<noteq> -1"
    and hint: "t_last_port_pulse th = -1"
  shows "release_port (Suc fuel) sub tr port s = Inl Assert_failed"
proof -
  let ?s1 = "put_thr tr (th\<lparr>t_last_port_message := port\<rparr>) s"
  let ?s2 = "put_thr tr (th\<lparr>t_last_port_message := port, t_last_port_pulse := -1\<rparr>) ?s1"
  have hm: "hint_message tr port s = Inr ?s1" using th by (simp add: hint_message_def get_thr_def get_tr_def)
  have t1: "get_thr tr ?s1 = Inr (th\<lparr>t_last_port_message := port\<rparr>)"
    by (simp add: get_thr_def get_tr_def put_thr_def put_tr_def)
  have "block_good bx" by (rule get_block_good [OF g pr first(3)])
  then obtain q where q: "ib_pulse_q bx = Some q" "position q = last_position q" "obj_count q \<noteq> 0"
    using first(4) by (auto simp: block_good_def queue_idle_def)
  have "discard_pulse sub Null_deref (t_process th) x ?s2 = Inl Assert_failed"
    using pr first(3) q by (simp add: discard_pulse_def get_proc_def aqueue_next_def Let_def)
  moreover have "x \<noteq> -1" using first(2) by (auto simp: in_ports_def)
  moreover have "\<not> in_ports (-1)" by (simp add: in_ports_def)
  ultimately have "drop_pulse sub tr ?s1 = Inl Assert_failed"
    using t1 hint first(1) by (simp add: drop_pulse_def Let_def aget_def)
  then have "drain (Suc fuel) (drop_pulse sub tr) tr port s = Inl Assert_failed" using hm by simp
  then show ?thesis
    using th pr port b owner by (simp add: release_port_def get_thr_def get_tr_def get_proc_def)
qed

section \<open>The table of a thread's ports\<close>

text \<open>A table: the thread's ports, then -1 up to the end.\<close>

definition port_table :: "int list \<Rightarrow> int list" where
  "port_table ps = ps @ replicate (MAX_PORTS - length ps) (-1)"

definition ports_valid :: "int list \<Rightarrow> bool" where
  "ports_valid ps \<longleftrightarrow> distinct ps \<and> -1 \<notin> set ps \<and> length ps \<le> MAX_PORTS"

lemma add_port_append: "-1 \<notin> set ps \<Longrightarrow> add_port (ps @ -1 # xs) port = ps @ port # xs"
  by (induction ps) auto

lemma drop_ConsD:
  assumes "drop i xs = y # ys"
  shows "i < length xs" and "xs ! i = y" and "drop (Suc i) xs = ys"
proof -
  show i: "i < length xs" using assms by (metis drop_eq_Nil list.distinct(1) not_le)
  from Cons_nth_drop_Suc [OF i] assms show "xs ! i = y" "drop (Suc i) xs = ys" by simp_all
qed

lemma remove_port_shift:
  assumes "length ports = i + k" and "drop i ports = rs @ replicate j (-1)" and "-1 \<notin> set rs" and "port \<notin> set rs"
    and "port \<noteq> -1"
  shows "remove_port ports port i 1 k = Inr (take i ports @ (if rs = [] then [] else tl rs @ [-1]) @ replicate j (-1))"
  using assms
proof (induction rs arbitrary: ports i k)
  case Nil
  have eq: "take i ports @ replicate j (-1) = ports" using Nil.prems(2) by (metis append_Nil append_take_drop_id)
  show ?case
  proof (cases k)
    case 0
    then show ?thesis using eq by simp
  next
    case (Suc k')
    then have i: "i < length ports" using Nil.prems(1) by simp
    then have "drop i ports ! 0 = -1" using Nil.prems(2) by (metis Cons_nth_drop_Suc append_Nil in_set_replicate list.set_intros(1) nth_Cons_0)
    then have "ports ! i = -1" using i by simp
    then show ?thesis using Suc i eq by simp
  qed
next
  case (Cons r rs)
  have i: "i < length ports" and x: "ports ! i = r" and tl: "drop (Suc i) ports = rs @ replicate j (-1)"
    using drop_ConsD [of i ports r] Cons.prems(2) by simp_all
  obtain k' where k: "k = Suc k'" using i Cons.prems(1) by (cases k) auto
  show ?case
  proof (cases "k' = 0")
    case True
    then have "drop (Suc i) ports = []" using Cons.prems(1) k by simp
    then have "rs = []" "j = 0" using tl by simp_all
    moreover have "ports[i := -1] = take i ports @ [-1]" using Cons.prems(1) k True by (simp add: upd_conv_take_nth_drop)
    ultimately show ?thesis using k True i x Cons.prems(3,4) by auto
  next
    case False
    let ?y = "ports ! Suc i"
    have si: "Suc i < length ports" using False k Cons.prems(1) by simp
    then have y: "rs @ replicate j (-1) = ?y # drop (Suc (Suc i)) ports" using tl by (simp add: Cons_nth_drop_Suc)
    have "remove_port (ports[i := ?y]) port (Suc i) 1 k'
        = Inr (take (Suc i) (ports[i := ?y]) @ (if rs = [] then [] else tl rs @ [-1]) @ replicate j (-1))"
      by (rule Cons.IH) (use Cons.prems k tl in simp_all)
    moreover have "take (Suc i) (ports[i := ?y]) = take i ports @ [?y]" using i by (simp add: take_Suc_conv_app_nth)
    moreover have "remove_port ports port i 1 k = remove_port (ports[i := ?y]) port (Suc i) 1 k'"
      using k False i x si Cons.prems(3,4) by (auto simp: Let_def)
    moreover have "?y # (if rs = [] then [] else tl rs @ [-1]) = rs @ [-1]"
    proof (cases rs)
      case Nil
      with y show ?thesis by (cases j) auto
    qed (use y in auto)
    ultimately show ?thesis by simp
  qed
qed

lemma remove_port_found:
  assumes "length ports = i + k" and "drop i ports = ps @ port # rs @ replicate j (-1)"
    and "-1 \<notin> set ps" "-1 \<notin> set rs" "port \<notin> set ps" "port \<notin> set rs" "port \<noteq> -1"
  shows "remove_port ports port i 0 k = Inr (take i ports @ ps @ rs @ [-1] @ replicate j (-1))"
  using assms
proof (induction ps arbitrary: ports i k)
  case Nil
  have i: "i < length ports" and x: "ports ! i = port" and tl: "drop (Suc i) ports = rs @ replicate j (-1)"
    using drop_ConsD [of i ports port] Nil.prems(2) by simp_all
  obtain k' where k: "k = Suc k'" using i Nil.prems(1) by (cases k) auto
  show ?case
  proof (cases "k' = 0")
    case True
    then have "drop (Suc i) ports = []" using Nil.prems(1) k by simp
    then have "rs = []" "j = 0" using tl by simp_all
    moreover have "ports[i := -1] = take i ports @ [-1]" using Nil.prems(1) k True by (simp add: upd_conv_take_nth_drop)
    moreover have "ports[i := -1, i := -1] = ports[i := -1]" by (rule list_update_overwrite)
    ultimately show ?thesis using k True i x Nil.prems(7) by (simp only: remove_port.simps) (simp add: Let_def)
  next
    case False
    let ?y = "ports ! Suc i"
    have si: "Suc i < length ports" using False k Nil.prems(1) by simp
    then have y: "rs @ replicate j (-1) = ?y # drop (Suc (Suc i)) ports" using tl by (simp add: Cons_nth_drop_Suc)
    have "remove_port (ports[i := ?y]) port (Suc i) 1 k'
        = Inr (take (Suc i) (ports[i := ?y]) @ (if rs = [] then [] else tl rs @ [-1]) @ replicate j (-1))"
      by (rule remove_port_shift) (use Nil.prems k tl in simp_all)
    moreover have "take (Suc i) (ports[i := ?y]) = take i ports @ [?y]" using i by (simp add: take_Suc_conv_app_nth)
    moreover have "remove_port ports port i 0 k = remove_port (ports[i := ?y]) port (Suc i) 1 k'"
      using k False i x si Nil.prems(7) by (simp add: Let_def)
    moreover have "?y # (if rs = [] then [] else tl rs @ [-1]) = rs @ [-1]"
    proof (cases rs)
      case Nil
      with y show ?thesis by (cases j) auto
    qed (use y in auto)
    ultimately show ?thesis by simp
  qed
next
  case (Cons p ps)
  have i: "i < length ports" and x: "ports ! i = p" and tl: "drop (Suc i) ports = ps @ port # rs @ replicate j (-1)"
    using drop_ConsD [of i ports p] Cons.prems(2) by simp_all
  obtain k' where k: "k = Suc k'" using i Cons.prems(1) by (cases k) auto
  have "remove_port ports port i 0 k = remove_port ports port (Suc i) 0 k'"
    using k i x Cons.prems(3,5) by (auto simp: Let_def)
  also have "\<dots> = Inr (take (Suc i) ports @ ps @ rs @ [-1] @ replicate j (-1))"
    by (rule Cons.IH) (use Cons.prems k tl in simp_all)
  finally show ?case using i x by (simp add: take_Suc_conv_app_nth)
qed

text \<open>
  Remark: The table of a thread's ports is a list with an end mark: \<^verbatim>\<open>create_port\<close> appends a port to it and
  the loop of \<^verbatim>\<open>release_port\<close> removes exactly that port, closing the gap, up to a full table of
  1024 ports without an end mark.
\<close>

theorem port_table_correct:
  assumes v: "ports_valid ps"
  shows "(length ps < MAX_PORTS \<longrightarrow> add_port (port_table ps) port = port_table (ps @ [port]))
    \<and> (port \<in> set ps \<longrightarrow> remove_port (port_table ps) port 0 0 MAX_PORTS = Inr (port_table (remove1 port ps)))"
proof -
  have "add_port (port_table ps) port = port_table (ps @ [port])" if "length ps < MAX_PORTS"
  proof -
    from that obtain k where k: "MAX_PORTS - length ps = Suc k" by (metis Suc_diff_Suc)
    then show ?thesis using add_port_append [of ps "replicate k (-1)" port] v
      by (simp add: port_table_def ports_valid_def)
  qed
  moreover have "remove_port (port_table ps) port 0 0 MAX_PORTS = Inr (port_table (remove1 port ps))"
    if mem: "port \<in> set ps"
  proof -
    from split_list [OF mem] obtain as bs where ps: "ps = as @ port # bs" by blast
    have sp: "-1 \<notin> set as" "-1 \<notin> set bs" "port \<notin> set as" "port \<notin> set bs" "port \<noteq> -1"
      and len: "length as + Suc (length bs) \<le> MAX_PORTS" using v by (auto simp: ps ports_valid_def)
    let ?j = "MAX_PORTS - length ps"
    have "remove_port (port_table ps) port 0 0 MAX_PORTS = Inr (take 0 (port_table ps) @ as @ bs @ [-1] @ replicate ?j (-1))"
      by (rule remove_port_found) (use sp len in \<open>simp_all add: port_table_def ps\<close>)
    moreover have "remove1 port ps = as @ bs" using sp by (simp add: ps remove1_append)
    moreover have "MAX_PORTS - length (as @ bs) = Suc ?j" using len by (simp add: ps)
    ultimately show ?thesis by (simp add: port_table_def)
  qed
  ultimately show ?thesis by blast
qed

theorem port_table_correct_witness:
  "add_port (port_table [3, 5]) 9 = port_table [3, 5, 9]
   \<and> remove_port (port_table [3, 5]) 3 0 0 MAX_PORTS = Inr (port_table [5])"
proof -
  have "ports_valid [3, 5]" "length [3, 5 :: int] < MAX_PORTS" by (simp_all add: ports_valid_def MAX_PORTS_def)
  with port_table_correct [of "[3, 5]" 9] port_table_correct [of "[3, 5]" 3] show ?thesis by simp
qed

section \<open>Examples\<close>

definition demo_process :: "ipc_block list \<Rightarrow> process" where
  "demo_process bs = \<lparr>pr_name = [], pr_pid = 2, pr_state = 0, pr_map = None, pr_virtual_memory = None, pr_lock = 0,
     pr_threads = Some 100,
     pr_threads_htable = \<lparr>ht_self = 8, ht_total = 1, ht_size = 2, ht_percent = 75, ht_array = 16,
       ht_table = [Some 100, None]\<rparr>,
     pr_thread_count = 1, pr_last_tid = 2, pr_kernel_threads = 0, pr_flags = 0, pr_event_hooks = 0, pr_event_pid = -1,
     pr_event_tid = -1, pr_rc = 0, pr_env = empty_penv, pr_alloc = None, pr_ipc = bs\<rparr>"

definition demo_block :: "pulse aqueue \<Rightarrow> message aqueue \<Rightarrow> ipc_block" where
  "demo_block pq mq = \<lparr>ib_tid = 1, ib_flags = 0, ib_pulse_q = Some pq, ib_message_q = Some mq\<rparr>"

definition free_block :: ipc_block where
  "free_block = \<lparr>ib_tid = -1, ib_flags = 0, ib_pulse_q = None, ib_message_q = None\<rparr>"

definition empty_aq :: "nat \<Rightarrow> nat \<Rightarrow> 'a aqueue" where
  "empty_aq self n = \<lparr>aq_self = self, aq_pages = 0, obj_size = n, obj_count = 2, position = 0, last_position = 0,
     aq_chain = []\<rparr>"

definition demo_ipc :: "pulse aqueue \<Rightarrow> message aqueue \<Rightarrow> 'h \<Rightarrow> 'h kstate" where
  "demo_ipc pq mq h = \<lparr>
     ks_sys = demo_sys\<lparr>k_threads := [100 \<mapsto> (sample_thread 1)\<lparr>t_process := 7000, t_ports := port_table [0],
                 t_last_port_pulse := -1, t_last_port_message := -1, t_state := THREAD_RUNNING\<rparr>]\<rparr>,
     ks_procs = [7000 \<mapsto> demo_process (demo_block pq mq # replicate 1023 free_block)], ks_heap = h\<rparr>"

lemma demo_ipc_state:
  "k_threads (ks_sys (demo_ipc pq mq h)) 100 = Some ((sample_thread 1)\<lparr>t_process := 7000, t_ports := port_table [0],
     t_last_port_pulse := -1, t_last_port_message := -1, t_state := THREAD_RUNNING\<rparr>)"
  "ks_procs (demo_ipc pq mq h) 7000 = Some (demo_process (demo_block pq mq # replicate 1023 free_block))"
  "ks_heap (demo_ipc pq mq h) = h"
  by (simp_all add: demo_ipc_def)

lemma demo_ipc_port:
  "get_block (demo_process (demo_block pq mq # replicate 1023 free_block)) 0 = Inr (demo_block pq mq)"
  "port_flags (demo_process (demo_block pq mq # replicate 1023 free_block)) 0 IPC_MASKED = Inr 0"
  by (simp_all add: demo_process_def get_block_def port_flags_def demo_block_def in_ports_def MAX_PORTS_def)

lemma in_ports_0: "in_ports 0"
  by (simp add: in_ports_def MAX_PORTS_def)

lemma demo_ipc_good:
  assumes "queue_idle (Some pq)" and "queue_idle (Some mq)"
  shows "ipc_good (demo_ipc pq mq h)"
proof -
  have "block_good (demo_block pq mq)" "block_good free_block"
    using assms by (simp_all add: block_good_def demo_block_def free_block_def queue_idle_def)
  then show ?thesis by (auto simp: ipc_good_def demo_ipc_def demo_process_def MAX_PORTS_def)
qed

lemma empty_aq_idle: "queue_idle (Some (empty_aq a n))"
  by (simp add: queue_idle_def empty_aq_def)

definition demo_pulse :: pulse where
  "demo_pulse = \<lparr>pu_source_pid = 3, pu_source_port = 4, pu_dest_port = 0, pu_data1 = 1, pu_data2 = 2, pu_data3 = 3,
     pu_data4 = 4, pu_data5 = 5, pu_data6 = 6\<rparr>"

lemma demo_send:
  "\<exists>s'. run_sends demo_bump [Send_pulse demo_pulse 7000] (demo_ipc (empty_aq 8 36) (empty_aq 16 20) 0) = Inr s'
     \<and> k_threads (ks_sys s') = k_threads (ks_sys (demo_ipc (empty_aq 8 36) (empty_aq 16 20) (0::nat)))
     \<and> (\<exists>pr. ks_procs s' 7000 = Some pr)"
proof -
  let ?s = "demo_ipc (empty_aq 8 36) (empty_aq 16 20) (0::nat)"
  let ?pr = "demo_process (demo_block (empty_aq 8 36) (empty_aq 16 20) # replicate 1023 free_block)"
  let ?th = "(sample_thread 1)\<lparr>t_process := 7000, t_ports := port_table [0],
     t_last_port_pulse := -1, t_last_port_message := -1, t_state := THREAD_RUNNING\<rparr>"
  note f = demo_ipc_state [of "empty_aq 8 36" "empty_aq 16 20" "0::nat"]
  note g = demo_ipc_port [of "empty_aq 8 36" "empty_aq 16 20"]
  have "port2tid ?pr 0 = Inr 1" using g(1) in_ports_0 by (simp add: port2tid_def demo_block_def)
  moreover have "get_thread ?pr 1 (k_threads (ks_sys ?s)) = Inr (Some 100)"
    using f(1)
    by (simp add: get_thread_def demo_process_def htable_retrieve_def threads_key_def sample_thread_def abs_key_def
        c_rem_def thread_match_def threads_compare_def numeral_2_eq_2)
  moreover have "\<exists>q' h'. aqueue_add demo_bump (empty_aq 8 36) demo_pulse 0 = Inr ((0, q'), h')"
    by (simp add: aqueue_add_def empty_aq_def kmalloc_def demo_bump_def store_last_def sizeof_aqueue_page_def
        numeral_2_eq_2)
  then obtain q' h' where "aqueue_add demo_bump (empty_aq 8 36) demo_pulse 0 = Inr ((0, q'), h')" by blast
  moreover have "get_block (put_block 0 (demo_block q' (empty_aq 16 20)) ?pr) 0 = Inr (demo_block q' (empty_aq 16 20))"
    by (simp add: get_block_def put_block_def demo_process_def)
  ultimately show ?thesis using f g in_ports_0
    by (simp add: send_pulse_def demo_pulse_def get_proc_def update_block_def put_proc_def wake_receiver_def
        port_flags_def demo_block_def get_thr_def get_tr_def thread_states)
qed

theorem ipc_never_delivers_witness:
  "\<exists>s'. run_sends demo_bump [Send_pulse demo_pulse 7000] (demo_ipc (empty_aq 8 36) (empty_aq 16 20) 0) = Inr s'
     \<and> pulses_waiting 100 s' = Inr 0"
proof -
  from demo_send obtain s' pr where s': "run_sends demo_bump [Send_pulse demo_pulse 7000]
      (demo_ipc (empty_aq 8 36) (empty_aq 16 20) 0) = Inr s'"
    "k_threads (ks_sys s') = k_threads (ks_sys (demo_ipc (empty_aq 8 36) (empty_aq 16 20) (0::nat)))"
    "ks_procs s' 7000 = Some pr" by blast
  note f = demo_ipc_state(1) [of "empty_aq 8 36" "empty_aq 16 20" "0::nat"]
  have "ipc_good (demo_ipc (empty_aq 8 36) (empty_aq 16 20) (0::nat))"
    by (rule demo_ipc_good) (rule empty_aq_idle)+
  from ipc_never_delivers [OF this s'(1)] f s'(2,3) s'(1) show ?thesis by fastforce
qed

theorem release_port_halts_witness:
  "release_port 5 demo_bump 100 0 (demo_ipc (empty_aq 8 36) (empty_aq 16 20) 0) = Inl Assert_failed"
proof -
  note f = demo_ipc_state [of "empty_aq 8 36" "empty_aq 16 20" "0::nat"]
  note g = demo_ipc_port [of "empty_aq 8 36" "empty_aq 16 20"]
  have ok: "ipc_good (demo_ipc (empty_aq 8 36) (empty_aq 16 20) (0::nat))"
    by (rule demo_ipc_good) (rule empty_aq_idle)+
  let ?th = "(sample_thread 1)\<lparr>t_process := 7000, t_ports := port_table [0],
     t_last_port_pulse := -1, t_last_port_message := -1, t_state := THREAD_RUNNING\<rparr>"
  have t: "t_process ?th = 7000" "t_tid ?th = 1" "t_ports ?th = 0 # replicate 1023 (-1)" "t_last_port_pulse ?th = -1"
    by (simp_all add: sample_thread_def port_table_def MAX_PORTS_def)
  have b: "ib_tid (demo_block pq mq) = 1" for pq mq by (simp add: demo_block_def)
  note halts = release_port_halts [OF ok f(1), unfolded t, OF f(2) in_ports_0 g(1) b _ refl in_ports_0 g(1) _ refl, unfolded b]
  have "release_port (Suc 4) demo_bump 100 0 (demo_ipc (empty_aq 8 36) (empty_aq 16 20) 0) = Inl Assert_failed"
    by (rule halts) simp_all
  then show ?thesis by simp
qed

text \<open>A heap with a queue, its page and the data of a message.\<close>

definition demo_message :: message where
  "demo_message = \<lparr>m_source_pid = 3, m_source_port = 4, m_dest_port = 0, m_bytes = 3, m_data = 4408,
     m_contents = [5, 6, 7]\<rparr>"

definition one_aq :: "'a \<Rightarrow> 'a aqueue" where
  "one_aq x = \<lparr>aq_self = 4148, aq_pages = 1, obj_size = 20, obj_count = 2, position = 0, last_position = 1,
     aq_chain = [(4276, [Some x, None])]\<rparr>"

lemma one_aq_ok: "aq_ok (one_aq x)" "aq_live (live demo3_heap) (one_aq x)" "aq_contents (one_aq x) = [x]"
  using demo3_heap_ok by (simp_all add: aq_ok_def aq_live_def aq_contents_def slots_of_def one_aq_def)

theorem recv_message_correct_witness:
  "\<exists>s'. recv_message liballoc_subsystem 100 0 2 [9, 9, 9, 9] (demo_ipc (empty_aq 8 36) (one_aq demo_message) demo3_heap)
     = Inr ((2, Some (3, 4, 0, [5, 6, 9, 9])), s') \<and> live (ks_heap s') 4408 = None"
proof -
  let ?s = "demo_ipc (empty_aq 8 36) (one_aq demo_message) demo3_heap"
  let ?th = "(sample_thread 1)\<lparr>t_process := 7000, t_ports := port_table [0],
     t_last_port_pulse := -1, t_last_port_message := -1, t_state := THREAD_RUNNING\<rparr>"
  note f = demo_ipc_state [of "empty_aq 8 36" "one_aq demo_message" demo3_heap]
  note g = demo_ipc_port [of "empty_aq 8 36" "one_aq demo_message"]
  have t: "t_process ?th = 7000" by simp
  have q: "ib_message_q (demo_block pq mq) = Some mq" for pq mq by (simp add: demo_block_def)
  have m: "m_bytes demo_message = int (length (m_contents demo_message))" "length (m_contents demo_message) < 2 ^ 31"
    "(0::int) \<le> 2" "2 \<le> int (length [9, 9, 9, 9 :: nat])" "m_data demo_message = 4408"
    "4408 \<notin> set (map fst (aq_chain (one_aq demo_message)))" "4408 \<noteq> aq_self (one_aq demo_message)"
    by (simp_all add: demo_message_def one_aq_def)
  have h: "kernel_heap_ok (ks_heap ?s)" "live (ks_heap ?s) 4408 \<noteq> None" "aq_live (live (ks_heap ?s)) (one_aq demo_message)"
    using demo3_heap_ok one_aq_ok(2) f(3) by simp_all
  from recv_message_correct [OF h(1) f(1), unfolded t, OF f(2) in_ports_0 g q one_aq_ok(1) h(3) one_aq_ok(3) m(1-4),
      unfolded m(5), OF h(2) m(6,7)]
  show ?thesis by (auto simp: demo_message_def)
qed

theorem receive_pulse_halts_witness:
  "receive_pulse liballoc_subsystem 100 0 (demo_ipc (one_aq demo_pulse) (empty_aq 8 20) demo3_heap) = Inl Assert_failed"
proof -
  let ?s = "demo_ipc (one_aq demo_pulse) (empty_aq 8 20) demo3_heap"
  let ?th = "(sample_thread 1)\<lparr>t_process := 7000, t_ports := port_table [0],
     t_last_port_pulse := -1, t_last_port_message := -1, t_state := THREAD_RUNNING\<rparr>"
  note f = demo_ipc_state [of "one_aq demo_pulse" "empty_aq 8 20" demo3_heap]
  note g = demo_ipc_port [of "one_aq demo_pulse" "empty_aq 8 20"]
  have t: "t_process ?th = 7000" by simp
  have q: "ib_pulse_q (demo_block pq mq) = Some pq" for pq mq by (simp add: demo_block_def)
  have h: "kernel_heap_ok (ks_heap ?s)" "aq_live (live (ks_heap ?s)) (one_aq demo_pulse)" "aq_contents (one_aq demo_pulse) \<noteq> []"
    using demo3_heap_ok f(3) by (simp_all add: one_aq_ok)
  show ?thesis
    by (rule receive_pulse_halts [OF h(1) f(1), unfolded t, OF f(2) in_ports_0 g q one_aq_ok(1) h(2,3)])
qed

end
