(* ===== verification/Paging.thy ===== *)
theory Paging
  imports Physmem
begin

text \<open>
  The page tables (\<^verbatim>\<open>kernel/paging.c\<close>): a two-level i386 page directory in physical memory, with the
  routines that map, release, search and copy through it.

  Every directory maps the low half of the address space one to one (\<^verbatim>\<open>new_page_directory\<close>), and the
  kernel dereferences physical addresses directly; so memory is one array of bytes indexed by
  physical address, and a \<^verbatim>\<open>uint32_t*\<close> is such an address. \<^verbatim>\<open>memory_alloc\<close> is the page allocator of
  \<open>Physmem\<close>; none of the callers here tests its result, so a refusal is the address 0 and is used as a
  page. \<^verbatim>\<open>cr3()\<close> is the directory that is loaded and \<^verbatim>\<open>invlpg\<close> is recorded in a list.

  \<open>Paging_Tables\<close> holds the invariant and the abstract view of a directory, \<open>Paging_Props\<close> the properties.
\<close>

section \<open>Memory\<close>

type_synonym memory = "nat \<Rightarrow> 8 word"

definition ld32 :: "memory \<Rightarrow> nat \<Rightarrow> 32 word" where
  "ld32 m a = ucast (m a) OR push_bit 8 (ucast (m (a + 1))) OR push_bit 16 (ucast (m (a + 2)))
     OR push_bit 24 (ucast (m (a + 3)))"

definition st32 :: "memory \<Rightarrow> nat \<Rightarrow> 32 word \<Rightarrow> memory" where
  "st32 m a w = m(a := ucast w, a + 1 := ucast (drop_bit 8 w), a + 2 := ucast (drop_bit 16 w),
                  a + 3 := ucast (drop_bit 24 w))"

record mmu =
  mm_mem :: memory
  mm_phys :: physmem
  mm_cr3 :: nat
  mm_invlpg :: "nat list"

section \<open>Constants and entries\<close>

definition PAGE_PRESENT :: "32 word" where "PAGE_PRESENT = 1"
definition PAGE_READ_ONLY :: "32 word" where "PAGE_READ_ONLY = 0"
definition PAGE_RDWR :: "32 word" where "PAGE_RDWR = 2"
definition PAGE_USER :: "32 word" where "PAGE_USER = 4"
definition PAGE_SUPERVISOR :: "32 word" where "PAGE_SUPERVISOR = 0"
definition PAGE_4MB :: "32 word" where "PAGE_4MB = 128"
definition PAGE_GLOBAL :: "32 word" where "PAGE_GLOBAL = 256"

definition READ_ONLY :: "32 word" where "READ_ONLY = 1"
definition READ_WRITE :: "32 word" where "READ_WRITE = 2"
definition USER_PAGE :: "32 word" where "USER_PAGE = 4"
definition SYSTEM_PAGE :: "32 word" where "SYSTEM_PAGE = 8"

definition page_table_of :: "nat \<Rightarrow> nat" where
  "page_table_of address = (address div 2 ^ 22) mod 1024"

definition page_entry_of :: "nat \<Rightarrow> nat" where
  "page_entry_of address = (address div 2 ^ 12) mod 1024"

text \<open>\<^verbatim>\<open>(uint32_t* )(entry & ~0xFFF)\<close>\<close>

definition frame_of :: "32 word \<Rightarrow> nat" where
  "frame_of e = unat (e AND NOT 0xFFF)"

definition present :: "32 word \<Rightarrow> bool" where
  "present e \<longleftrightarrow> e AND PAGE_PRESENT = PAGE_PRESENT"

definition pd_entry :: "memory \<Rightarrow> nat \<Rightarrow> nat \<Rightarrow> 32 word" where
  "pd_entry m pde address = ld32 m (pde + 4 * page_table_of address)"

definition page_table :: "memory \<Rightarrow> nat \<Rightarrow> nat \<Rightarrow> nat" where
  "page_table m pde address = frame_of (pd_entry m pde address)"

definition pt_entry :: "memory \<Rightarrow> nat \<Rightarrow> nat \<Rightarrow> 32 word" where
  "pt_entry m pde address = ld32 m (page_table m pde address + 4 * page_entry_of address)"

definition page_entry :: "memory \<Rightarrow> nat \<Rightarrow> nat \<Rightarrow> nat" where
  "page_entry m pde address = frame_of (pt_entry m pde address)"

definition page_table_present :: "memory \<Rightarrow> nat \<Rightarrow> nat \<Rightarrow> int" where
  "page_table_present m pde address = (if present (pd_entry m pde address) then 0 else -1)"

definition page_entry_present :: "memory \<Rightarrow> nat \<Rightarrow> nat \<Rightarrow> int" where
  "page_entry_present m pde address =
     (if \<not> present (pd_entry m pde address) then -1
      else if \<not> present (pt_entry m pde address) then -1 else 0)"

definition page_present :: "memory \<Rightarrow> nat \<Rightarrow> nat \<Rightarrow> int" where
  "page_present m directory address =
     (if page_table_present m directory address \<noteq> 0 then -1
      else if page_entry_present m directory address \<noteq> 0 then -1 else 0)"

definition convert_paging_types :: "32 word \<Rightarrow> 32 word" where
  "convert_paging_types flags =
     ((if flags AND READ_ONLY \<noteq> 0 then PAGE_READ_ONLY else 0)
      OR (if flags AND READ_WRITE \<noteq> 0 then PAGE_RDWR else 0)
      OR (if flags AND USER_PAGE \<noteq> 0 then PAGE_USER else 0)
      OR (if flags AND SYSTEM_PAGE \<noteq> 0 then PAGE_SUPERVISOR else 0))"

section \<open>Directories\<close>

definition identity_entry :: "nat \<Rightarrow> 32 word" where
  "identity_entry i =
     of_nat (i * 4096 * 1024) OR PAGE_SUPERVISOR OR PAGE_4MB OR PAGE_RDWR OR PAGE_PRESENT OR PAGE_GLOBAL"

text \<open>A loop that writes the entries \<open>i, i + 1, \<dots>\<close> of a table of words.\<close>

fun fill_words :: "(nat \<Rightarrow> 32 word) \<Rightarrow> nat \<Rightarrow> nat \<Rightarrow> nat \<Rightarrow> memory \<Rightarrow> memory" where
  "fill_words f base i 0 m = m"
| "fill_words f base i (Suc k) m = fill_words f base (Suc i) k (st32 m (base + 4 * i) (f i))"

text \<open>\<open>page_directory\<close> is the boot directory, at address \<open>a\<close>.\<close>

definition init_paging :: "nat \<Rightarrow> mmu \<Rightarrow> mmu" where
  "init_paging a s = s\<lparr>mm_mem := fill_words identity_entry a 0 1024 (mm_mem s)\<rparr>"

text \<open>\<^verbatim>\<open>(uint32_t* )memory_alloc(1)\<close>; a refusal is the null pointer.\<close>

definition alloc_page :: "mmu \<Rightarrow> (nat \<times> mmu) kres" where
  "alloc_page s =
     bindR (memory_alloc 1 (mm_phys s)) (\<lambda>(r, p).
     Inr (case r of None \<Rightarrow> 0 | Some a \<Rightarrow> a, s\<lparr>mm_phys := p\<rparr>))"

definition free_page :: "nat \<Rightarrow> mmu \<Rightarrow> mmu kres" where
  "free_page a s = bindR (memory_free 1 a (mm_phys s)) (\<lambda>p. Inr (s\<lparr>mm_phys := p\<rparr>))"

definition new_page_directory :: "mmu \<Rightarrow> (nat \<times> mmu) kres" where
  "new_page_directory s =
     bindR (alloc_page s) (\<lambda>(mp, s1).
     let m1 = fill_words identity_entry mp 0 512 (mm_mem s1);
         m2 = fill_words (\<lambda>_. 0) mp 512 504 m1;
         m3 = fill_words identity_entry mp 1016 8 m2
     in Inr (mp, s1\<lparr>mm_mem := m3\<rparr>))"

text \<open>The two loops of \<^verbatim>\<open>delete_page_directory\<close>; \<open>i\<close> counts from 512.\<close>

fun delete_entries :: "nat \<Rightarrow> nat \<Rightarrow> nat \<Rightarrow> mmu \<Rightarrow> mmu kres" where
  "delete_entries mp i 0 s = Inr s"
| "delete_entries mp i (Suc k) s =
     (let position = i * PAGE_SIZE in
      if page_table_present (mm_mem s) mp position \<noteq> 0 then delete_entries mp (Suc i) k s
      else if page_entry_present (mm_mem s) mp position \<noteq> 0 then delete_entries mp (Suc i) k s
      else
        (let page = page_entry (mm_mem s) mp position;
             table = page_table (mm_mem s) mp position;
             s1 = s\<lparr>mm_mem := st32 (mm_mem s) (table + 4 * page_entry_of position) 0\<rparr>
         in bindR (free_page page s1) (\<lambda>s2. delete_entries mp (Suc i) k s2)))"

fun delete_tables :: "nat \<Rightarrow> nat \<Rightarrow> nat \<Rightarrow> mmu \<Rightarrow> mmu kres" where
  "delete_tables mp i 0 s = Inr s"
| "delete_tables mp i (Suc k) s =
     (let position = i * PAGE_SIZE in
      if page_table_present (mm_mem s) mp position \<noteq> 0 then delete_tables mp (Suc i) k s
      else
        (let table = page_table (mm_mem s) mp position;
             s1 = s\<lparr>mm_mem := st32 (mm_mem s) (mp + 4 * page_table_of position) 0\<rparr>
         in bindR (free_page table s1) (\<lambda>s2. delete_tables mp (Suc i) k s2)))"

definition delete_page_directory :: "nat \<Rightarrow> mmu \<Rightarrow> mmu kres" where
  "delete_page_directory mp s =
     assertR (mm_cr3 s \<noteq> mp) (
     bindR (delete_entries mp 512 504 s) (\<lambda>s1.
     bindR (delete_tables mp 512 504 s1) (\<lambda>s2.
     free_page mp s2)))"

definition set_map :: "nat \<Rightarrow> mmu \<Rightarrow> mmu" where
  "set_map mp s = s\<lparr>mm_cr3 := mp\<rparr>"

definition get_map :: "mmu \<Rightarrow> nat" where
  "get_map s = mm_cr3 s"

section \<open>Mapping\<close>

text \<open>
  The block with which \<^verbatim>\<open>page_ensure\<close>, \<^verbatim>\<open>page_map_in\<close> and \<^verbatim>\<open>page_direct_map\<close> create a missing page
  table.
\<close>

definition make_table :: "nat \<Rightarrow> 32 word \<Rightarrow> nat \<Rightarrow> mmu \<Rightarrow> mmu kres" where
  "make_table directory flags index s =
     (if page_table_present (mm_mem s) directory index \<noteq> 0
      then
        bindR (alloc_page s) (\<lambda>(table, s1).
        let m1 = fill_words (\<lambda>_. 0) table 0 1024 (mm_mem s1)
        in Inr (s1\<lparr>mm_mem := st32 m1 (directory + 4 * page_table_of index)
                              (of_nat table OR flags OR PAGE_PRESENT)\<rparr>))
      else Inr s)"

definition invlpg :: "bool \<Rightarrow> nat \<Rightarrow> mmu \<Rightarrow> mmu" where
  "invlpg invalidate index s = (if invalidate then s\<lparr>mm_invlpg := mm_invlpg s @ [index]\<rparr> else s)"

text \<open>\<^verbatim>\<open>table[ page_entry_of(index) ] = entry\<close> for the table of \<open>index\<close>.\<close>

definition set_entry :: "nat \<Rightarrow> nat \<Rightarrow> 32 word \<Rightarrow> mmu \<Rightarrow> mmu" where
  "set_entry directory index e s =
     s\<lparr>mm_mem := st32 (mm_mem s) (page_table (mm_mem s) directory index + 4 * page_entry_of index) e\<rparr>"

text \<open>
  \<^verbatim>\<open>table[ page_entry_of(index) ] = (uint32_t)memory_alloc(1) | type | PAGE_PRESENT\<close>, with the
  invalidation that follows.
\<close>

definition new_entry :: "bool \<Rightarrow> 32 word \<Rightarrow> nat \<Rightarrow> nat \<Rightarrow> mmu \<Rightarrow> mmu kres" where
  "new_entry invalidate flags directory index s =
     bindR (alloc_page s) (\<lambda>(page, s1).
     Inr (invlpg invalidate index
            (set_entry directory index (of_nat page OR flags OR PAGE_PRESENT) s1)))"

fun ensure_loop :: "bool \<Rightarrow> 32 word \<Rightarrow> nat \<Rightarrow> nat \<Rightarrow> nat \<Rightarrow> int \<Rightarrow> mmu \<Rightarrow> (int \<times> mmu) kres" where
  "ensure_loop invalidate type directory index 0 alreadies s = Inr (alreadies, s)"
| "ensure_loop invalidate type directory index (Suc k) alreadies s =
     (let index = u32 (index + PAGE_SIZE) in
      bindR (make_table directory type index s) (\<lambda>s1.
      if page_entry_present (mm_mem s1) directory index \<noteq> 0
      then bindR (new_entry invalidate type directory index s1) (\<lambda>s2.
           ensure_loop invalidate type directory index k alreadies s2)
      else ensure_loop invalidate type directory index k (s32 (alreadies + 1)) s1))"

definition page_ensure :: "nat \<Rightarrow> nat \<Rightarrow> nat \<Rightarrow> 32 word \<Rightarrow> mmu \<Rightarrow> (int \<times> mmu) kres" where
  "page_ensure directory start pages flags s =
     ensure_loop (mm_cr3 s = directory) (convert_paging_types flags) directory
       (sub32 start PAGE_SIZE) pages 0 s"

text \<open>
  The search of \<^verbatim>\<open>page_map_in\<close>, which creates the tables it walks over. The loop variable wraps, so
  the loop has fuel; it returns \<open>found_start\<close> and \<open>found\<close>.
\<close>

fun map_in_search ::
  "nat \<Rightarrow> 32 word \<Rightarrow> nat \<Rightarrow> nat \<Rightarrow> nat \<Rightarrow> nat \<Rightarrow> nat \<Rightarrow> nat \<Rightarrow> mmu \<Rightarrow> ((nat \<times> nat) \<times> mmu) kres" where
  "map_in_search 0 type directory pend pages i found_start found s = Inl Hang"
| "map_in_search (Suc fuel) type directory pend pages i found_start found s =
     (if i < pend
      then
        bindR (make_table directory type i s) (\<lambda>s1.
        let (found', found_start') =
              (if page_entry_present (mm_mem s1) directory i \<noteq> 0
               then (u32 (found + 1), if found_start = 0 then i else found_start)
               else (0, 0))
        in if found' = pages then Inr ((found_start', found'), s1)
           else map_in_search fuel type directory pend pages (u32 (i + PAGE_SIZE)) found_start' found' s1)
      else Inr ((found_start, found), s))"

fun map_in_loop :: "bool \<Rightarrow> 32 word \<Rightarrow> nat \<Rightarrow> nat \<Rightarrow> nat \<Rightarrow> mmu \<Rightarrow> mmu kres" where
  "map_in_loop invalidate type directory index 0 s = Inr s"
| "map_in_loop invalidate type directory index (Suc k) s =
     (let index = u32 (index + PAGE_SIZE) in
      bindR (new_entry invalidate type directory index s) (\<lambda>s1.
      map_in_loop invalidate type directory index k s1))"

text \<open>
  Here \<open>type\<close> goes into the entries unconverted. The loop visits at most \<open>2 ^ 20\<close> addresses; if one of
  them is mapped the search repeats itself from the second pass on, and otherwise it ends after
  \<open>pages\<close> steps, so the fuel is enough.
\<close>

definition page_map_in ::
  "nat \<Rightarrow> nat \<Rightarrow> nat \<Rightarrow> nat \<Rightarrow> 32 word \<Rightarrow> mmu \<Rightarrow> (nat \<times> mmu) kres" where
  "page_map_in directory start pend pages type s =
     bindR (map_in_search (Suc (pages + 2 ^ 21)) type directory pend pages start 0 0 s) (\<lambda>((found_start, found), s1).
     if found \<noteq> pages then Inr (0, s1)
     else
       bindR (map_in_loop (mm_cr3 s = directory) type directory (sub32 found_start PAGE_SIZE) pages s1)
         (\<lambda>s2. Inr (found_start, s2)))"

fun direct_map_loop :: "bool \<Rightarrow> 32 word \<Rightarrow> nat \<Rightarrow> nat \<Rightarrow> nat \<Rightarrow> nat \<Rightarrow> mmu \<Rightarrow> mmu kres" where
  "direct_map_loop invalidate flags directory phys index 0 s = Inr s"
| "direct_map_loop invalidate flags directory phys index (Suc k) s =
     bindR (make_table directory flags index s) (\<lambda>s1.
     direct_map_loop invalidate flags directory (u32 (phys + PAGE_SIZE)) (u32 (index + PAGE_SIZE)) k
       (invlpg invalidate index
          (set_entry directory index (of_nat phys OR flags OR PAGE_PRESENT) s1)))"

text \<open>The loop compares an unsigned counter with \<^verbatim>\<open>int pages\<close>, so a negative count becomes a large
  one.\<close>

definition page_direct_map ::
  "nat \<Rightarrow> nat \<Rightarrow> nat \<Rightarrow> int \<Rightarrow> 32 word \<Rightarrow> mmu \<Rightarrow> (int \<times> mmu) kres" where
  "page_direct_map directory physical start pages type s =
     bindR (direct_map_loop (mm_cr3 s = directory) (convert_paging_types type) directory physical start
              (nat (pages mod 2 ^ 32)) s) (\<lambda>s1.
     Inr (0, s1))"

section \<open>Searching\<close>

text \<open>The inner loop of \<^verbatim>\<open>page_find_free\<close>: the first of \<open>k\<close> pages that is present.\<close>

fun free_run :: "memory \<Rightarrow> nat \<Rightarrow> nat \<Rightarrow> nat \<Rightarrow> nat \<Rightarrow> nat option" where
  "free_run m directory current cnt 0 = None"
| "free_run m directory current cnt (Suc k) =
     (if page_entry_present m directory (u32 (current + cnt * PAGE_SIZE)) = 0 then Some cnt
      else free_run m directory current (Suc cnt) k)"

fun find_free_loop :: "nat \<Rightarrow> memory \<Rightarrow> nat \<Rightarrow> nat \<Rightarrow> nat \<Rightarrow> nat \<Rightarrow> nat kres" where
  "find_free_loop 0 m directory finish pages current = Inl Hang"
| "find_free_loop (Suc fuel) m directory finish pages current =
     (if current < finish
      then
        (case free_run m directory current 0 pages of
           None \<Rightarrow> Inr current
         | Some cnt \<Rightarrow>
             find_free_loop fuel m directory finish pages
               (u32 (u32 (current + cnt * PAGE_SIZE) + PAGE_SIZE)))
      else Inr 0)"

definition page_find_free :: "memory \<Rightarrow> nat \<Rightarrow> nat \<Rightarrow> nat \<Rightarrow> nat \<Rightarrow> nat kres" where
  "page_find_free m directory start finish pages =
     find_free_loop (Suc (2 ^ 20)) m directory finish pages (start - start mod 4096)"

definition page_provide ::
  "nat \<Rightarrow> nat \<Rightarrow> nat \<Rightarrow> nat \<Rightarrow> nat \<Rightarrow> 32 word \<Rightarrow> mmu \<Rightarrow> (nat \<times> mmu) kres" where
  "page_provide directory physical start pend pages type s =
     bindR (page_find_free (mm_mem s) directory start pend pages) (\<lambda>location.
     if location = 0 then Inr (0, s)
     else
       bindR (page_direct_map directory physical location (s32 (int pages)) type s) (\<lambda>(rc, s1).
       Inr (if rc \<noteq> 0 then 0 else location, s1)))"

section \<open>Releasing\<close>

fun release_loop :: "bool \<Rightarrow> nat \<Rightarrow> nat \<Rightarrow> nat \<Rightarrow> mmu \<Rightarrow> mmu" where
  "release_loop invalidate directory index 0 s = s"
| "release_loop invalidate directory index (Suc k) s =
     (let s1 = (if page_entry_present (mm_mem s) directory index = 0
                then set_entry directory index 0 s else s)
      in release_loop invalidate directory (u32 (index + PAGE_SIZE)) k (invlpg invalidate index s1))"

definition page_release :: "nat \<Rightarrow> nat \<Rightarrow> int \<Rightarrow> mmu \<Rightarrow> int \<times> mmu" where
  "page_release directory start pages s =
     (0, release_loop (mm_cr3 s = directory) directory start (nat pages) s)"

fun map_out_loop :: "bool \<Rightarrow> nat \<Rightarrow> nat \<Rightarrow> nat \<Rightarrow> mmu \<Rightarrow> mmu kres" where
  "map_out_loop invalidate directory index 0 s = Inr s"
| "map_out_loop invalidate directory index (Suc k) s =
     bindR (if page_entry_present (mm_mem s) directory index = 0
            then free_page (page_entry (mm_mem s) directory index) (set_entry directory index 0 s)
            else Inr s) (\<lambda>s1.
     map_out_loop invalidate directory (u32 (index + PAGE_SIZE)) k (invlpg invalidate index s1))"

definition page_map_out :: "nat \<Rightarrow> nat \<Rightarrow> int \<Rightarrow> mmu \<Rightarrow> (int \<times> mmu) kres" where
  "page_map_out directory start pages s =
     bindR (map_out_loop (mm_cr3 s = directory) directory start (nat pages) s) (\<lambda>s1. Inr (0, s1))"

section \<open>Copying\<close>

text \<open>The physical address of a byte of the address space of a directory.\<close>

definition translate :: "memory \<Rightarrow> nat \<Rightarrow> nat \<Rightarrow> nat" where
  "translate m directory a = u32 (page_entry m directory a + a mod PAGE_SIZE)"

text \<open>\<^verbatim>\<open>dest\<close> and \<^verbatim>\<open>src\<close> that are not translated are kernel addresses.\<close>

fun copy_out_loop :: "nat \<Rightarrow> nat \<Rightarrow> nat \<Rightarrow> nat \<Rightarrow> nat \<Rightarrow> memory \<Rightarrow> memory" where
  "copy_out_loop directory dest src i 0 m = m"
| "copy_out_loop directory dest src i (Suc k) m =
     copy_out_loop directory dest src (Suc i) k
       (m(u32 (dest + i) := m (translate m directory (u32 (src + i)))))"

definition page_copy_out :: "nat \<Rightarrow> nat \<Rightarrow> nat \<Rightarrow> int \<Rightarrow> mmu \<Rightarrow> int \<times> mmu" where
  "page_copy_out directory dest src n s =
     (n, s\<lparr>mm_mem := copy_out_loop directory dest src 0 (nat n) (mm_mem s)\<rparr>)"

fun copy_in_loop :: "nat \<Rightarrow> nat \<Rightarrow> nat \<Rightarrow> nat \<Rightarrow> nat \<Rightarrow> memory \<Rightarrow> memory" where
  "copy_in_loop directory dest src i 0 m = m"
| "copy_in_loop directory dest src i (Suc k) m =
     copy_in_loop directory dest src (Suc i) k
       (m(translate m directory (u32 (dest + i)) := m (u32 (src + i))))"

definition page_copy_in :: "nat \<Rightarrow> nat \<Rightarrow> nat \<Rightarrow> int \<Rightarrow> mmu \<Rightarrow> int \<times> mmu" where
  "page_copy_in directory dest src n s =
     (n, s\<lparr>mm_mem := copy_in_loop directory dest src 0 (nat n) (mm_mem s)\<rparr>)"

definition page_data_get :: "memory \<Rightarrow> nat \<Rightarrow> nat \<Rightarrow> 32 word" where
  "page_data_get m cr3 address =
     (let e = pd_entry m cr3 address in
      if \<not> present e then - 1
      else if e AND PAGE_4MB \<noteq> 0
      then ld32 m (unat (e AND NOT (1024 * 4096 - 1)) + address mod (1024 * 4096))
      else
        (let t = ld32 m (frame_of e + 4 * page_entry_of address) in
         if \<not> present t then - 1 else ld32 m (frame_of t + address mod PAGE_SIZE)))"

end
