(* ===== verification/Paging_Tables.thy ===== *)
theory Paging_Tables
  imports Paging
begin

text \<open>
  The invariant of a page directory and the lemmas on the routines of \<^verbatim>\<open>kernel/paging.c\<close>: reading and
  writing words, entries and their flags, the well-formedness \<open>pd_ok\<close> of a directory, the abstract map
  \<open>vmap\<close>, and what a new table, a new entry, a range of entries, a search and a copy do to them.
\<close>

section \<open>Words in memory\<close>

lemma ucast_byte: "(ucast (ucast (w :: 32 word) :: 8 word) :: 32 word) = take_bit 8 w"
  by (rule bit_word_eqI) (auto simp: bit_simps)

lemma join_bytes:
  "take_bit 8 (w :: 32 word) OR push_bit 8 (take_bit 8 (drop_bit 8 w))
     OR push_bit 16 (take_bit 8 (drop_bit 16 w)) OR push_bit 24 (take_bit 8 (drop_bit 24 w)) = w"
  (is "?l = w")
proof (rule bit_word_eqI)
  fix n
  assume "n < LENGTH(32)"
  then consider "n < 8" | "8 \<le> n" "n < 16" | "16 \<le> n" "n < 24" | "24 \<le> n" "n < 32" by fastforce
  then show "bit ?l n = bit w n"
    by cases (auto simp: bit_simps less_diff_conv2)
qed

lemma ld32_st32_same [simp]: "ld32 (st32 m a w) a = w"
  unfolding ld32_def st32_def by (simp add: ucast_byte join_bytes)

lemma st32_other [simp]: "x \<notin> bytes a 4 \<Longrightarrow> st32 m a w x = m x"
  by (auto simp: st32_def bytes_def)

lemma ld32_cong: "(\<And>x. x \<in> bytes a 4 \<Longrightarrow> m x = m' x) \<Longrightarrow> ld32 m a = ld32 m' a"
  by (simp add: ld32_def bytes_def)

lemma ld32_st32_other: "a + 4 \<le> b \<or> b + 4 \<le> a \<Longrightarrow> ld32 (st32 m a w) b = ld32 m b"
  by (rule ld32_cong) (auto simp: bytes_def)

lemma fill_words_other:
  "x \<notin> bytes (base + 4 * i) (4 * k) \<Longrightarrow> fill_words f base i k m x = m x"
proof (induction k arbitrary: i m)
  case (Suc k)
  have "x \<notin> bytes (base + 4 * Suc i) (4 * k)" "x \<notin> bytes (base + 4 * i) 4"
    using Suc.prems by (auto simp: bytes_def)
  then show ?case using Suc.IH by simp
qed simp

lemma ld32_fill_words:
  "i \<le> j \<Longrightarrow> j < i + k \<Longrightarrow> ld32 (fill_words f base i k m) (base + 4 * j) = f j"
proof (induction k arbitrary: i m)
  case (Suc k)
  show ?case
  proof (cases "j = i")
    case True
    have "ld32 (fill_words f base (Suc i) k (st32 m (base + 4 * i) (f i))) (base + 4 * i)
        = ld32 (st32 m (base + 4 * i) (f i)) (base + 4 * i)"
      by (rule ld32_cong) (auto simp: bytes_def intro!: fill_words_other)
    then show ?thesis using True by simp
  next
    case False
    with Suc show ?thesis by simp
  qed
qed simp

lemma ld32_fill_words_other:
  "b + 4 \<le> base + 4 * i \<or> base + 4 * (i + k) \<le> b \<Longrightarrow> ld32 (fill_words f base i k m) b = ld32 m b"
  by (rule ld32_cong) (auto simp: bytes_def intro!: fill_words_other)

section \<open>Entries\<close>

lemma low_mask: "(0xFFF :: 32 word) = mask 12"
  by (simp add: mask_eq_exp_minus_1)

lemma frame_of_eq: "frame_of e = unat e div 4096 * 4096"
proof -
  have "e AND NOT 0xFFF = push_bit 12 (drop_bit 12 e)"
    unfolding low_mask by (rule bit_word_eqI) (auto simp: bit_simps simp del: push_bit_numeral)
  then have "frame_of e = unat (push_bit 12 (drop_bit 12 e))" by (simp only: frame_of_def)
  also have "\<dots> = (unat e div 4096 mod 4294967296 * 4096) mod 4294967296"
    by (simp add: unat_word_ariths drop_bit_eq_div push_bit_eq_mult unat_drop_bit_eq)
  also have "\<dots> = unat e div 4096 * 4096"
  proof -
    have "unat e < 4294967296" using unsigned_less [of e] by simp
    moreover have "unat e div 4096 * 4096 \<le> unat e" "unat e div 4096 \<le> unat e" by simp_all
    ultimately have "unat e div 4096 * 4096 < 4294967296" "unat e div 4096 < 4294967296"
      by linarith+
    then show ?thesis by simp
  qed
  finally show ?thesis .
qed

lemma frame_of_aligned [simp]: "frame_of e mod 4096 = 0"
  by (simp add: frame_of_eq)

lemma frame_of_bound: "frame_of e + 4096 \<le> 4294967296"
proof -
  have "unat e div 4096 < 1048576" using unsigned_less [of e] by (simp add: div_less_iff_less_mult)
  then show ?thesis unfolding frame_of_eq by linarith
qed

text \<open>Flags that lie in the low twelve bits of an entry and do not ask for a large page.\<close>

definition flags_ok :: "32 word \<Rightarrow> bool" where
  "flags_ok f \<longleftrightarrow> f AND NOT 0xFFF = 0 \<and> f AND PAGE_4MB = 0"

lemma of_nat_aligned: "a mod 4096 = 0 \<Longrightarrow> (of_nat a :: 32 word) AND NOT 0xFFF = of_nat a"
proof -
  assume "a mod 4096 = 0"
  then obtain k where "a = k * 4096" by (metis dvd_div_mult_self mod_eq_0_iff_dvd)
  then have "(of_nat a :: 32 word) = push_bit 12 (of_nat k)" by (simp add: push_bit_eq_mult)
  then show ?thesis
    unfolding low_mask
    by (simp only:) (rule bit_word_eqI, auto simp: bit_simps simp del: push_bit_of_nat)
qed

lemma new_entry_bits:
  assumes "a mod 4096 = 0" and "a < 4294967296" and "f AND NOT 0xFFF = 0"
  shows "frame_of (of_nat a OR f OR PAGE_PRESENT) = a" and "present (of_nat a OR f OR PAGE_PRESENT)"
    and "f AND PAGE_4MB = 0 \<Longrightarrow> (of_nat a OR f OR PAGE_PRESENT) AND PAGE_4MB = 0"
proof -
  have "(of_nat a :: 32 word) AND PAGE_4MB = (of_nat a AND NOT 0xFFF) AND PAGE_4MB"
    using of_nat_aligned [OF assms(1)] by simp
  also have "\<dots> = 0" by (simp add: PAGE_4MB_def and.assoc)
  finally show "f AND PAGE_4MB = 0 \<Longrightarrow> (of_nat a OR f OR PAGE_PRESENT) AND PAGE_4MB = 0"
    by (simp add: bit.conj_disj_distrib2 PAGE_PRESENT_def PAGE_4MB_def)
  have "(of_nat a OR f OR PAGE_PRESENT) AND NOT 0xFFF = (of_nat a :: 32 word)"
    using of_nat_aligned [OF assms(1)] assms(3)
    by (simp add: bit.conj_disj_distrib2 PAGE_PRESENT_def)
  then show "frame_of (of_nat a OR f OR PAGE_PRESENT) = a"
    using assms(2) by (simp add: frame_of_def unat_of_nat)
  show "present (of_nat a OR f OR PAGE_PRESENT)"
    by (simp add: present_def PAGE_PRESENT_def bit.conj_disj_distrib2 del: and_one_eq)
qed

lemma present_0 [simp]: "\<not> present 0"
  by (simp add: present_def PAGE_PRESENT_def)

lemma convert_flags_ok: "flags_ok (convert_paging_types flags)"
  by (simp add: flags_ok_def convert_paging_types_def PAGE_READ_ONLY_def PAGE_RDWR_def PAGE_USER_def
      PAGE_SUPERVISOR_def PAGE_4MB_def)

section \<open>Well-formed directories\<close>

definition user_slots :: "nat set" where
  "user_slots = {512..<1016}"

text \<open>The addresses that belong to processes: \<^verbatim>\<open>0x80000000\<close> to \<^verbatim>\<open>0xFE000000\<close>.\<close>

definition user_addr :: "nat \<Rightarrow> bool" where
  "user_addr a \<longleftrightarrow> 0x80000000 \<le> a \<and> a < 0xFE000000"

definition slot :: "memory \<Rightarrow> nat \<Rightarrow> nat \<Rightarrow> 32 word" where
  "slot m dir i = ld32 m (dir + 4 * i)"

definition tables :: "memory \<Rightarrow> nat \<Rightarrow> nat set" where
  "tables m dir = {frame_of (slot m dir i) | i. i \<in> user_slots \<and> present (slot m dir i)}"

definition pd_bytes :: "memory \<Rightarrow> nat \<Rightarrow> nat set" where
  "pd_bytes m dir = bytes dir 4096 \<union> (\<Union>t \<in> tables m dir. bytes t 4096)"

text \<open>The directory and its tables are distinct pages that are in use.\<close>

definition pd_ok :: "mmu \<Rightarrow> nat \<Rightarrow> bool" where
  "pd_ok s dir \<longleftrightarrow>
     physmem_ok (mm_phys s) \<and> null_reserved (mm_phys s) \<and> dir mod 4096 = 0
     \<and> pd_bytes (mm_mem s) dir \<subseteq> phys_owned (mm_phys s) \<and> dir \<notin> tables (mm_mem s) dir
     \<and> inj_on (\<lambda>i. frame_of (slot (mm_mem s) dir i)) {i \<in> user_slots. present (slot (mm_mem s) dir i)}
     \<and> (\<forall>i \<in> user_slots. present (slot (mm_mem s) dir i) \<longrightarrow> slot (mm_mem s) dir i AND PAGE_4MB = 0)"

text \<open>The abstract view: the entry of a mapped page.\<close>

definition vmap :: "memory \<Rightarrow> nat \<Rightarrow> nat \<Rightarrow> 32 word option" where
  "vmap m dir a = (if page_entry_present m dir a = 0 then Some (pt_entry m dir a) else None)"

lemma user_addr_slot: "user_addr a \<Longrightarrow> page_table_of a \<in> user_slots"
proof -
  assume u: "user_addr a"
  then have "512 \<le> a div 4194304" "a div 4194304 < 1016"
    by (simp_all add: user_addr_def less_eq_div_iff_mult_less_eq div_less_iff_less_mult)
  then show ?thesis by (simp add: page_table_of_def user_slots_def)
qed

lemma page_entry_of_less: "page_entry_of a < 1024"
  by (simp add: page_entry_of_def)

lemma user_slot_less: "i \<in> user_slots \<Longrightarrow> i < 1024"
  by (simp add: user_slots_def)

lemma same_page:
  assumes "a < 4294967296" and "b < 4294967296"
  shows "page_table_of a = page_table_of b \<and> page_entry_of a = page_entry_of b
    \<longleftrightarrow> a div 4096 = b div 4096"
proof -
  have t: "page_table_of x = x div 4096 div 1024" if "x < 4294967296" for x
    using that by (simp add: page_table_of_def div_mult2_eq [symmetric] div_less_iff_less_mult)
  show ?thesis
  proof
    assume "page_table_of a = page_table_of b \<and> page_entry_of a = page_entry_of b"
    then have "a div 4096 div 1024 = b div 4096 div 1024" "a div 4096 mod 1024 = b div 4096 mod 1024"
      using t [OF assms(1)] t [OF assms(2)] by (simp_all add: page_entry_of_def)
    then show "a div 4096 = b div 4096" by (metis div_mult_mod_eq)
  next
    assume "a div 4096 = b div 4096"
    then show "page_table_of a = page_table_of b \<and> page_entry_of a = page_entry_of b"
      using t [OF assms(1)] t [OF assms(2)] by (simp add: page_entry_of_def)
  qed
qed

text \<open>Two page-aligned pages are equal or disjoint.\<close>

lemma pages_apart:
  assumes "a mod 4096 = 0" and "b mod 4096 = 0" and "a \<noteq> b"
  shows "a + 4096 \<le> b \<or> b + 4096 \<le> (a :: nat)"
proof -
  from assms(1,2) obtain k l where "a = 4096 * k" "b = 4096 * l" by (auto elim!: dvdE)
  with assms(3) show ?thesis by (cases k l rule: linorder_cases) auto
qed

lemma pages_disjoint:
  assumes "a mod 4096 = 0" and "b mod 4096 = 0" and "a \<noteq> b"
  shows "bytes a 4096 \<inter> bytes b 4096 = {}"
  using pages_apart [OF assms] by (auto simp: bytes_def)

lemma page_subset_apart:
  assumes "bytes a 4096 \<inter> B = {}" and "bytes b 4096 \<subseteq> B"
  shows "a + 4096 \<le> b \<or> b + 4096 \<le> (a :: nat)"
proof (rule ccontr)
  assume "\<not> ?thesis"
  then have "max a b \<in> bytes a 4096 \<inter> bytes b 4096" by (auto simp: bytes_def)
  with assms show False by blast
qed

lemma pd_entry_slot: "pd_entry m dir a = slot m dir (page_table_of a)"
  by (simp add: pd_entry_def slot_def)

lemma tables_aligned: "t \<in> tables m dir \<Longrightarrow> t mod 4096 = 0"
  by (auto simp: tables_def)

lemma page_table_in:
  "user_addr a \<Longrightarrow> present (pd_entry m dir a) \<Longrightarrow> page_table m dir a \<in> tables m dir"
  by (auto simp: tables_def page_table_def pd_entry_slot dest: user_addr_slot)

lemma page_table_inj:
  assumes "pd_ok s dir" and "user_addr a" "present (pd_entry (mm_mem s) dir a)"
    and "user_addr b" "present (pd_entry (mm_mem s) dir b)"
    and "page_table (mm_mem s) dir a = page_table (mm_mem s) dir b"
  shows "page_table_of a = page_table_of b"
proof -
  have "inj_on (\<lambda>i. frame_of (slot (mm_mem s) dir i)) {i \<in> user_slots. present (slot (mm_mem s) dir i)}"
    using assms(1) by (simp add: pd_ok_def)
  from inj_onD [OF this, of "page_table_of a" "page_table_of b"] assms(2-) show ?thesis
    by (simp add: user_addr_slot page_table_def pd_entry_slot)
qed

text \<open>What every mapping operation keeps.\<close>

definition pd_step :: "nat \<Rightarrow> mmu \<Rightarrow> mmu \<Rightarrow> bool" where
  "pd_step dir s s' \<longleftrightarrow>
     pd_ok s' dir \<and> mm_cr3 s' = mm_cr3 s \<and> phys_owned (mm_phys s) \<subseteq> phys_owned (mm_phys s')
     \<and> (\<forall>x \<in> phys_owned (mm_phys s) - pd_bytes (mm_mem s) dir. mm_mem s' x = mm_mem s x)
     \<and> pd_bytes (mm_mem s') dir \<inter> phys_owned (mm_phys s) \<subseteq> pd_bytes (mm_mem s) dir"

lemma pd_step_refl: "pd_ok s dir \<Longrightarrow> pd_step dir s s"
  by (auto simp: pd_step_def)

lemma pd_step_trans: "pd_step dir s s' \<Longrightarrow> pd_step dir s' s'' \<Longrightarrow> pd_step dir s s''"
proof -
  assume 1: "pd_step dir s s'" and 2: "pd_step dir s' s''"
  have "mm_mem s'' x = mm_mem s x" if x: "x \<in> phys_owned (mm_phys s)" "x \<notin> pd_bytes (mm_mem s) dir" for x
  proof -
    have "x \<in> phys_owned (mm_phys s')" "x \<notin> pd_bytes (mm_mem s') dir" "mm_mem s' x = mm_mem s x"
      using x 1 unfolding pd_step_def by blast+
    with 2 show ?thesis by (simp add: pd_step_def)
  qed
  with 1 2 show ?thesis unfolding pd_step_def by (auto 0 3)
qed

text \<open>The pages that a step took are page tables of the directory, all of them.\<close>

definition only_tables :: "nat \<Rightarrow> mmu \<Rightarrow> mmu \<Rightarrow> bool" where
  "only_tables dir s s' \<longleftrightarrow> pd_bytes (mm_mem s) dir \<subseteq> pd_bytes (mm_mem s') dir
     \<and> phys_owned (mm_phys s') = phys_owned (mm_phys s) \<union> pd_bytes (mm_mem s') dir"

lemma only_tables_refl: "pd_ok s dir \<Longrightarrow> only_tables dir s s"
  by (auto simp: only_tables_def pd_ok_def)

lemma only_tables_trans: "only_tables dir s s' \<Longrightarrow> only_tables dir s' s'' \<Longrightarrow> only_tables dir s s''"
  by (auto simp: only_tables_def)

lemma only_tables_same:
  "pd_ok s dir \<Longrightarrow> mm_phys s' = mm_phys s \<Longrightarrow> pd_bytes (mm_mem s') dir = pd_bytes (mm_mem s) dir \<Longrightarrow> only_tables dir s s'"
  by (auto simp: only_tables_def pd_ok_def)

lemma pd_stepD: "pd_step dir s s' \<Longrightarrow> pd_ok s' dir"
  by (simp add: pd_step_def)

text \<open>A memory that keeps the slots of a directory keeps its tables.\<close>

lemma slots_same:
  assumes "\<And>i. i < 1024 \<Longrightarrow> slot m' dir i = slot m dir i"
  shows "tables m' dir = tables m dir" and "pd_bytes m' dir = pd_bytes m dir"
proof -
  have "i \<in> user_slots \<Longrightarrow> slot m' dir i = slot m dir i" for i
    using assms user_slot_less by simp
  then show "tables m' dir = tables m dir"
    unfolding tables_def by metis
  then show "pd_bytes m' dir = pd_bytes m dir" by (simp add: pd_bytes_def)
qed

lemma pd_ok_cong:
  assumes "pd_ok s dir" and same: "\<And>i. i < 1024 \<Longrightarrow> slot (mm_mem s') dir i = slot (mm_mem s) dir i"
    and "mm_phys s' = mm_phys s"
  shows "pd_ok s' dir"
proof -
  have eq: "slot (mm_mem s') dir i = slot (mm_mem s) dir i" if "i \<in> user_slots" for i
    using same user_slot_less [OF that] by simp
  have "{i \<in> user_slots. present (slot (mm_mem s') dir i)} = {i \<in> user_slots. present (slot (mm_mem s) dir i)}"
    using eq by auto
  moreover have "inj_on (\<lambda>i. frame_of (slot (mm_mem s') dir i)) {i \<in> user_slots. present (slot (mm_mem s) dir i)}
     = inj_on (\<lambda>i. frame_of (slot (mm_mem s) dir i)) {i \<in> user_slots. present (slot (mm_mem s) dir i)}"
    by (rule inj_on_cong) (simp add: eq)
  moreover have "tables (mm_mem s') dir = tables (mm_mem s) dir"
    "pd_bytes (mm_mem s') dir = pd_bytes (mm_mem s) dir" by (rule slots_same, erule same)+
  ultimately show ?thesis using assms(1,3) eq by (simp add: pd_ok_def)
qed

lemma set_entry_ok:
  assumes ok: "pd_ok s dir" and a: "user_addr a" and pr: "present (pd_entry (mm_mem s) dir a)"
  shows "pd_step dir s (set_entry dir a e s)"
    and "user_addr v \<Longrightarrow> vmap (mm_mem (set_entry dir a e s)) dir v
       = (if v div 4096 = a div 4096 then if present e then Some e else None else vmap (mm_mem s) dir v)"
    and "mm_phys (set_entry dir a e s) = mm_phys s"
    and "i < 1024 \<Longrightarrow> slot (mm_mem (set_entry dir a e s)) dir i = slot (mm_mem s) dir i"
    and "only_tables dir s (set_entry dir a e s)"
proof -
  let ?m = "mm_mem s" and ?s = "set_entry dir a e s"
  let ?t = "page_table ?m dir a" and ?k = "page_entry_of a"
  have t: "?t \<in> tables ?m dir" by (rule page_table_in [OF a pr])
  have al: "dir mod 4096 = 0" "?t mod 4096 = 0" "dir \<noteq> ?t"
    using ok t tables_aligned [OF t] by (auto simp: pd_ok_def)
  have m': "mm_mem ?s = st32 ?m (?t + 4 * ?k) e" by (simp add: set_entry_def)
  have k: "?k < 1024" by (rule page_entry_of_less)
  have sl: "slot (mm_mem ?s) dir i = slot ?m dir i" if "i < 1024" for i
    unfolding slot_def m'
    by (rule ld32_st32_other) (use pages_apart [OF al] that k in linarith)
  show "mm_phys ?s = mm_phys s" by (simp add: set_entry_def)
  show "slot (mm_mem ?s) dir i = slot ?m dir i" if "i < 1024" by (rule sl [OF that])
  show "only_tables dir s ?s"
    by (rule only_tables_same [OF ok]) (use slots_same(2) [OF sl] in \<open>simp_all add: set_entry_def\<close>)
  have in_t: "bytes (?t + 4 * ?k) 4 \<subseteq> bytes ?t 4096" using k by (auto simp: bytes_def)
  show "pd_step dir s ?s"
    unfolding pd_step_def
  proof (intro conjI ballI)
    show "pd_ok ?s dir" by (rule pd_ok_cong [OF ok sl]) (simp_all add: set_entry_def)
    show "mm_mem ?s x = ?m x" if "x \<in> phys_owned (mm_phys s) - pd_bytes ?m dir" for x
      unfolding m' by (rule st32_other) (use that t in_t in \<open>auto simp: pd_bytes_def\<close>)
    show "pd_bytes (mm_mem ?s) dir \<inter> phys_owned (mm_phys s) \<subseteq> pd_bytes ?m dir"
      using slots_same(2) [OF sl] by auto
  qed (simp_all add: set_entry_def)
  assume v: "user_addr v"
  have pd: "pd_entry (mm_mem ?s) dir v = pd_entry ?m dir v"
    using sl user_slot_less [OF user_addr_slot [OF v]] by (simp add: pd_entry_slot)
  then have pt: "page_table (mm_mem ?s) dir v = page_table ?m dir v" by (simp add: page_table_def)
  have lt: "v < 4294967296" "a < 4294967296" using v a by (auto simp: user_addr_def)
  show "vmap (mm_mem ?s) dir v
      = (if v div 4096 = a div 4096 then if present e then Some e else None else vmap ?m dir v)"
  proof (cases "v div 4096 = a div 4096")
    case True
    then have e: "page_table_of v = page_table_of a" "page_entry_of v = page_entry_of a"
      using same_page [OF lt] by auto
    then have "pd_entry ?m dir v = pd_entry ?m dir a" by (simp add: pd_entry_slot)
    then have "pt_entry (mm_mem ?s) dir v = e"
      unfolding pt_entry_def pt using e by (simp add: m' page_table_def)
    with True pr \<open>pd_entry ?m dir v = pd_entry ?m dir a\<close> pd show ?thesis
      by (simp add: vmap_def page_entry_present_def)
  next
    case False
    show ?thesis
    proof (cases "present (pd_entry ?m dir v)")
      case True
      have "?t + 4 * ?k + 4 \<le> page_table ?m dir v + 4 * page_entry_of v
        \<or> page_table ?m dir v + 4 * page_entry_of v + 4 \<le> ?t + 4 * ?k"
      proof (cases "page_table ?m dir v = ?t")
        case eq: True
        then have "page_table_of v = page_table_of a"
          using page_table_inj [OF ok v True a pr] by simp
        then have "page_entry_of v \<noteq> ?k" using same_page [OF lt] False by auto
        then show ?thesis unfolding eq by linarith
      next
        case neq: False
        have "page_table ?m dir v mod 4096 = 0" by (simp add: page_table_def)
        from pages_apart [OF this al(2) neq] k page_entry_of_less [of v] show ?thesis by linarith
      qed
      then have "pt_entry (mm_mem ?s) dir v = pt_entry ?m dir v"
        unfolding pt_entry_def pt unfolding m' by (rule ld32_st32_other)
      with pd False show ?thesis by (simp add: vmap_def page_entry_present_def)
    next
      case np: False
      with pd False show ?thesis by (simp add: vmap_def page_entry_present_def)
    qed
  qed
qed

lemma vmap_cong:
  assumes "pd_entry m' dir v = pd_entry m dir v"
    and "present (pd_entry m dir v) \<Longrightarrow> pt_entry m' dir v = pt_entry m dir v"
  shows "vmap m' dir v = vmap m dir v"
  using assms by (auto simp: vmap_def page_entry_present_def)

text \<open>\<^verbatim>\<open>memory_alloc(1)\<close> with a page to spare.\<close>

lemma alloc_page_ok:
  assumes "pd_ok s dir" and "1 < s_freePages (mm_phys s)"
  obtains t p where "alloc_page s = Inr (t, s\<lparr>mm_phys := p\<rparr>)" "physmem_ok p" "null_reserved p"
    "0 < t" "t mod 4096 = 0" "t + 4096 \<le> 4294967296" "bytes t 4096 \<inter> phys_owned (mm_phys s) = {}"
    "phys_owned p = phys_owned (mm_phys s) \<union> bytes t 4096"
    "s_freePages p = s_freePages (mm_phys s) - 1"
proof -
  from assms(1) have "physmem_ok (mm_phys s)" "null_reserved (mm_phys s)" by (simp_all add: pd_ok_def)
  from memory_alloc_page [OF this assms(2)] obtain t p where "memory_alloc 1 (mm_phys s) = Inr (Some t, p)"
    "physmem_ok p" "null_reserved p" "0 < t" "t mod 4096 = 0" "t + 4096 \<le> 4294967296"
    "bytes t 4096 \<inter> phys_owned (mm_phys s) = {}"
    "phys_owned p = phys_owned (mm_phys s) \<union> bytes t 4096"
    "s_freePages p = s_freePages (mm_phys s) - 1" by auto
  then show thesis by (intro that) (simp_all add: alloc_page_def)
qed

text \<open>The memory after a zeroed table at \<open>t\<close> was hooked into slot \<open>k\<close> of the directory.\<close>

definition link_table :: "memory \<Rightarrow> nat \<Rightarrow> nat \<Rightarrow> nat \<Rightarrow> 32 word \<Rightarrow> memory" where
  "link_table m dir k t e = st32 (fill_words (\<lambda>_. 0) t 0 1024 m) (dir + 4 * k) e"

lemma link_table_other:
  "x \<notin> bytes (dir + 4 * k) 4 \<Longrightarrow> x \<notin> bytes t 4096 \<Longrightarrow> link_table m dir k t e x = m x"
  by (simp add: link_table_def fill_words_other)

lemma link_table_slot:
  assumes "t + 4096 \<le> dir \<or> dir + 4096 \<le> t" and "i < 1024"
  shows "slot (link_table m dir k t e) dir i = (if i = k then e else slot m dir i)"
proof (cases "i = k")
  case False
  have "slot (link_table m dir k t e) dir i = ld32 (fill_words (\<lambda>_. 0) t 0 1024 m) (dir + 4 * i)"
    unfolding slot_def link_table_def by (rule ld32_st32_other) (use False in linarith)
  also have "\<dots> = slot m dir i"
    unfolding slot_def by (rule ld32_fill_words_other) (use assms in auto)
  finally show ?thesis using False by simp
qed (simp add: slot_def link_table_def)

lemma link_table_tables:
  assumes "t + 4096 \<le> dir \<or> dir + 4096 \<le> t" and "k \<in> user_slots" and "\<not> present (slot m dir k)"
    and "present e" and "frame_of e = t"
  shows "tables (link_table m dir k t e) dir = insert t (tables m dir)"
proof -
  have "slot (link_table m dir k t e) dir i = (if i = k then e else slot m dir i)" if "i \<in> user_slots" for i
    by (rule link_table_slot [OF assms(1) user_slot_less [OF that]])
  then show ?thesis unfolding tables_def using assms(2-5) by (auto split: if_splits) metis+
qed

text \<open>Hooking in a table that nobody used keeps the directory well-formed \<dots>\<close>

lemma link_table_pd_ok:
  assumes ok: "pd_ok s dir" and k: "k \<in> user_slots" "\<not> present (slot (mm_mem s) dir k)"
    and e: "present e" "frame_of e = t" "e AND PAGE_4MB = 0"
    and p: "physmem_ok p" "null_reserved p" "phys_owned p = phys_owned (mm_phys s) \<union> bytes t 4096"
    and t: "bytes t 4096 \<inter> phys_owned (mm_phys s) = {}"
  shows "pd_ok (s\<lparr>mm_phys := p, mm_mem := link_table (mm_mem s) dir k t e\<rparr>) dir" (is "pd_ok ?s' dir")
    and "pd_step dir s (s\<lparr>mm_phys := p, mm_mem := link_table (mm_mem s) dir k t e\<rparr>)"
    and "only_tables dir s (s\<lparr>mm_phys := p, mm_mem := link_table (mm_mem s) dir k t e\<rparr>)"
proof -
  let ?m = "mm_mem s" and ?m' = "mm_mem ?s'"
  note d = ok [unfolded pd_ok_def]
  have dt: "t + 4096 \<le> dir \<or> dir + 4096 \<le> t"
    by (intro page_subset_apart [OF t]) (use d in \<open>auto simp: pd_bytes_def\<close>)
  have us: "slot ?m' dir i = (if i = k then e else slot ?m dir i)" if "i \<in> user_slots" for i
    using link_table_slot [OF dt user_slot_less [OF that]] by simp
  have tb: "tables ?m' dir = insert t (tables ?m dir)" using link_table_tables [OF dt k e(1,2)] by simp
  then have pb: "pd_bytes ?m' dir = pd_bytes ?m dir \<union> bytes t 4096" by (auto simp: pd_bytes_def)
  have nt: "t \<notin> tables ?m dir"
  proof
    assume "t \<in> tables ?m dir"
    then have "bytes t 4096 \<subseteq> phys_owned (mm_phys s)" using d by (auto simp: pd_bytes_def)
    moreover have "t \<in> bytes t 4096" by (simp add: bytes_def)
    ultimately show False using t by blast
  qed
  let ?P = "{i \<in> user_slots. present (slot ?m dir i)}"
  have "{i \<in> user_slots. present (slot ?m' dir i)} = insert k ?P" using us e(1) k(1) by auto
  moreover have "inj_on (\<lambda>i. frame_of (slot ?m' dir i)) ?P = inj_on (\<lambda>i. frame_of (slot ?m dir i)) ?P"
    by (rule inj_on_cong) (use us k(2) in auto)
  moreover have "frame_of (slot ?m' dir k) \<notin> (\<lambda>i. frame_of (slot ?m' dir i)) ` (?P - {k})"
    using us k(1) e(2) nt by (auto simp: tables_def)
  ultimately have "inj_on (\<lambda>i. frame_of (slot ?m' dir i)) {i \<in> user_slots. present (slot ?m' dir i)}"
    using d by simp
  moreover have "pd_bytes ?m' dir \<subseteq> phys_owned (mm_phys ?s')" using pb d p(3) by auto
  moreover have "dir \<notin> tables ?m' dir" using d tb dt by auto
  moreover have "\<forall>i \<in> user_slots. present (slot ?m' dir i) \<longrightarrow> slot ?m' dir i AND PAGE_4MB = 0"
    using us e(3) d by auto
  ultimately show ok': "pd_ok ?s' dir" using p(1,2) d by (simp add: pd_ok_def)
  have "?m' x = ?m x" if x: "x \<in> phys_owned (mm_phys s) - pd_bytes ?m dir" for x
    using x t user_slot_less [OF k(1)] by (auto simp: pd_bytes_def bytes_def intro!: link_table_other)
  then show "pd_step dir s ?s'"
    unfolding pd_step_def using ok' pb p(3) t by auto
  show "only_tables dir s ?s'"
    unfolding only_tables_def using pb p(3) d by auto
qed

text \<open>\<dots> and keeps every mapping.\<close>

lemma link_table_vmap:
  assumes ok: "pd_ok s dir" and k: "k \<in> user_slots" "\<not> present (slot (mm_mem s) dir k)"
    and e: "frame_of e = t" and t: "bytes t 4096 \<inter> phys_owned (mm_phys s) = {}" and v: "user_addr v"
  shows "vmap (link_table (mm_mem s) dir k t e) dir v = vmap (mm_mem s) dir v"
proof -
  let ?m = "mm_mem s" and ?m' = "link_table (mm_mem s) dir k t e"
  note d = ok [unfolded pd_ok_def]
  have dt: "t + 4096 \<le> dir \<or> dir + 4096 \<le> t"
    by (intro page_subset_apart [OF t]) (use d in \<open>auto simp: pd_bytes_def\<close>)
  have sl: "slot ?m' dir (page_table_of v) = (if page_table_of v = k then e else slot ?m dir (page_table_of v))"
    by (rule link_table_slot [OF dt user_slot_less [OF user_addr_slot [OF v]]])
  note ks = user_slot_less [OF k(1)] page_entry_of_less [of v]
  show ?thesis
  proof (cases "page_table_of v = k")
    case True
    then have "page_table ?m' dir v = t" using sl e by (simp add: page_table_def pd_entry_slot)
    then have "pt_entry ?m' dir v = ld32 (fill_words (\<lambda>_. 0) t 0 1024 ?m) (t + 4 * page_entry_of v)"
      unfolding pt_entry_def link_table_def by (simp, intro ld32_st32_other) (use dt ks in auto)
    also have "\<dots> = 0" by (rule ld32_fill_words) (use ks in simp_all)
    finally show ?thesis using k(2) True by (simp add: vmap_def page_entry_present_def pd_entry_slot)
  next
    case False
    then have pd: "pd_entry ?m' dir v = pd_entry ?m dir v" using sl by (simp add: pd_entry_slot)
    show ?thesis
    proof (rule vmap_cong [OF pd])
      assume pr: "present (pd_entry ?m dir v)"
      let ?q = "page_table ?m dir v"
      have q: "?q \<in> tables ?m dir" by (rule page_table_in [OF v pr])
      then have "bytes ?q 4096 \<subseteq> phys_owned (mm_phys s)" "dir \<noteq> ?q" using d by (auto simp: pd_bytes_def)
      with page_subset_apart [OF t] pages_apart [OF _ tables_aligned [OF q]] d
      have qt: "t + 4096 \<le> ?q \<or> ?q + 4096 \<le> t" and qd: "dir + 4096 \<le> ?q \<or> ?q + 4096 \<le> dir" by auto
      have "ld32 ?m' (?q + 4 * page_entry_of v) = ld32 ?m (?q + 4 * page_entry_of v)"
        by (rule ld32_cong, rule link_table_other) (use qt qd ks in \<open>auto simp: bytes_def\<close>)
      then show "pt_entry ?m' dir v = pt_entry ?m dir v" using pd by (simp add: pt_entry_def page_table_def)
    qed
  qed
qed

lemma make_table_ok:
  assumes ok: "pd_ok s dir" and a: "user_addr a" and f: "flags_ok flags"
    and fr: "1 < s_freePages (mm_phys s)"
  obtains s' where "make_table dir flags a s = Inr s'" "pd_step dir s s'"
    "present (pd_entry (mm_mem s') dir a)"
    "\<And>v. user_addr v \<Longrightarrow> vmap (mm_mem s') dir v = vmap (mm_mem s) dir v"
    "s_freePages (mm_phys s) - 1 \<le> s_freePages (mm_phys s')" "only_tables dir s s'"
proof (cases "present (pd_entry (mm_mem s) dir a)")
  case True
  then show thesis
    by (intro that [of s]) (simp_all add: make_table_def page_table_present_def pd_step_refl [OF ok] only_tables_refl [OF ok])
next
  case False
  let ?k = "page_table_of a"
  obtain t p where t: "alloc_page s = Inr (t, s\<lparr>mm_phys := p\<rparr>)" "physmem_ok p" "null_reserved p"
    "0 < t" "t mod 4096 = 0" "t + 4096 \<le> 4294967296" "bytes t 4096 \<inter> phys_owned (mm_phys s) = {}"
    "phys_owned p = phys_owned (mm_phys s) \<union> bytes t 4096"
    "s_freePages p = s_freePages (mm_phys s) - 1" by (rule alloc_page_ok [OF ok fr])
  define e where "e = (of_nat t :: 32 word) OR flags OR PAGE_PRESENT"
  define s' where "s' = s\<lparr>mm_phys := p, mm_mem := link_table (mm_mem s) dir ?k t e\<rparr>"
  have r: "make_table dir flags a s = Inr s'"
    using False t(1) by (simp add: make_table_def page_table_present_def Let_def s'_def link_table_def e_def)
  have e: "frame_of e = t" "present e" "e AND PAGE_4MB = 0"
    unfolding e_def using new_entry_bits [OF t(5)] t(6) f by (auto simp: flags_ok_def)
  have us: "?k \<in> user_slots" "\<not> present (slot (mm_mem s) dir ?k)"
    using user_addr_slot [OF a] False by (simp_all add: pd_entry_slot)
  have "pd_step dir s s'"
    unfolding s'_def by (rule link_table_pd_ok(2) [OF ok us e(2,1,3) t(2,3,8,7)])
  moreover have "only_tables dir s s'"
    unfolding s'_def by (rule link_table_pd_ok(3) [OF ok us e(2,1,3) t(2,3,8,7)])
  moreover have "present (pd_entry (mm_mem s') dir a)"
  proof -
    have "t + 4096 \<le> dir \<or> dir + 4096 \<le> t"
      by (intro page_subset_apart [OF t(7)]) (use ok in \<open>auto simp: pd_ok_def pd_bytes_def\<close>)
    from link_table_slot [OF this user_slot_less [OF us(1)]] e(2) show ?thesis
      by (simp add: pd_entry_slot s'_def)
  qed
  moreover have "vmap (mm_mem s') dir v = vmap (mm_mem s) dir v" if "user_addr v" for v
    using link_table_vmap [OF ok us e(1) t(7) that] by (simp add: s'_def)
  ultimately show thesis using r t(9) by (intro that [of s']) (auto simp: s'_def)
qed

lemma invlpg_simps [simp]:
  "mm_mem (invlpg b a s) = mm_mem s" "mm_phys (invlpg b a s) = mm_phys s" "mm_cr3 (invlpg b a s) = mm_cr3 s"
  by (simp_all add: invlpg_def)

lemma pd_step_invlpg [simp]: "pd_step dir s (invlpg b a s') = pd_step dir s s'"
  by (simp add: pd_step_def pd_ok_def)

text \<open>A fresh page is mapped: its frame was free.\<close>

lemma new_entry_ok:
  assumes ok: "pd_ok s dir" and a: "user_addr a" and f: "flags_ok flags"
    and pr: "present (pd_entry (mm_mem s) dir a)" and fr: "1 < s_freePages (mm_phys s)"
  obtains s' fp where "new_entry iv flags dir a s = Inr s'" "pd_step dir s s'"
    "\<forall>v. user_addr v \<longrightarrow> vmap (mm_mem s') dir v
       = (if v div 4096 = a div 4096 then Some (of_nat fp OR flags OR PAGE_PRESENT) else vmap (mm_mem s) dir v)"
    "0 < fp" "fp mod 4096 = 0" "bytes fp 4096 \<inter> phys_owned (mm_phys s) = {}"
    "bytes fp 4096 \<subseteq> phys_owned (mm_phys s')" "fp < 4294967296"
    "s_freePages (mm_phys s) - 1 = s_freePages (mm_phys s')"
    "\<forall>i < 1024. slot (mm_mem s') dir i = slot (mm_mem s) dir i"
proof -
  obtain t p where t: "alloc_page s = Inr (t, s\<lparr>mm_phys := p\<rparr>)" "physmem_ok p" "null_reserved p"
    "0 < t" "t mod 4096 = 0" "t + 4096 \<le> 4294967296" "bytes t 4096 \<inter> phys_owned (mm_phys s) = {}"
    "phys_owned p = phys_owned (mm_phys s) \<union> bytes t 4096"
    "s_freePages p = s_freePages (mm_phys s) - 1" by (rule alloc_page_ok [OF ok fr])
  let ?s1 = "s\<lparr>mm_phys := p\<rparr>" and ?e = "(of_nat t :: 32 word) OR flags OR PAGE_PRESENT"
  let ?s' = "invlpg iv a (set_entry dir a ?e ?s1)"
  have ok1: "pd_ok ?s1 dir" using ok t(2,3,8) by (auto simp: pd_ok_def)
  have pr1: "present (pd_entry (mm_mem ?s1) dir a)" using pr by simp
  note se = set_entry_ok [OF ok1 a pr1, where e = ?e]
  have e: "present ?e" using new_entry_bits [of t flags] t(5,6) f by (auto simp: flags_ok_def)
  have "pd_step dir s ?s1" using ok ok1 t(8) by (auto simp: pd_step_def)
  from pd_step_trans [OF this se(1)] have "pd_step dir s ?s'" by simp
  moreover have "new_entry iv flags dir a s = Inr ?s'" using t(1) by (simp add: new_entry_def)
  moreover have "vmap (mm_mem ?s') dir v = (if v div 4096 = a div 4096 then Some ?e else vmap (mm_mem s) dir v)"
    if "user_addr v" for v using se(2) [OF that] e by simp
  ultimately show thesis
    using t(4-9) se(3,4) by (intro that [of ?s' t]) auto
qed

lemma user_addr_u32: "user_addr a \<Longrightarrow> u32 a = a"
  by (simp add: user_addr_def)

text \<open>How many of the \<open>k\<close> pages from \<open>a\<close> on are mapped.\<close>

definition mapped_pages :: "memory \<Rightarrow> nat \<Rightarrow> nat \<Rightarrow> nat \<Rightarrow> nat" where
  "mapped_pages m dir a k = length (filter (\<lambda>i. vmap m dir (a + i * 4096) \<noteq> None) [0..<k])"

lemma mapped_pages_Suc:
  "mapped_pages m dir a (Suc k) = (if vmap m dir a = None then 0 else 1) + mapped_pages m dir (a + 4096) k"
proof -
  have "[0..<Suc k] = 0 # map Suc [0..<k]" by (simp add: upt_conv_Cons map_Suc_upt del: upt_Suc)
  then show ?thesis
    by (simp add: mapped_pages_def filter_map o_def add.assoc del: upt_Suc)
qed

lemma mapped_pages_le: "mapped_pages m dir a k \<le> k"
  unfolding mapped_pages_def using length_filter_le [of _ "[0..<k]"] by simp

lemma mapped_pages_cong:
  "(\<And>i. i < k \<Longrightarrow> vmap m' dir (a + i * 4096) = vmap m dir (a + i * 4096)) \<Longrightarrow>
   mapped_pages m' dir a k = mapped_pages m dir a k"
  unfolding mapped_pages_def by (rule arg_cong [where f = length], rule filter_cong) auto

text \<open>
  The effect of mapping the \<open>k\<close> pages from \<open>a\<close> on: mapped pages keep their entry, the others get
  distinct frames that were free, every other page of the address space is as before.
\<close>

definition ensured :: "nat \<Rightarrow> 32 word \<Rightarrow> nat \<Rightarrow> nat \<Rightarrow> mmu \<Rightarrow> mmu \<Rightarrow> bool" where
  "ensured dir flags a k s s' \<longleftrightarrow>
     (\<forall>v. user_addr v \<longrightarrow> (v div 4096 < a div 4096 \<or> a div 4096 + k \<le> v div 4096) \<longrightarrow>
        vmap (mm_mem s') dir v = vmap (mm_mem s) dir v)
     \<and> (\<exists>fp. \<forall>i < k.
          (case vmap (mm_mem s) dir (a + i * 4096) of
             Some e \<Rightarrow> vmap (mm_mem s') dir (a + i * 4096) = Some e
           | None \<Rightarrow>
               vmap (mm_mem s') dir (a + i * 4096) = Some (of_nat (fp i) OR flags OR PAGE_PRESENT)
               \<and> 0 < fp i \<and> fp i mod 4096 = 0 \<and> fp i < 4294967296
               \<and> bytes (fp i) 4096 \<inter> phys_owned (mm_phys s) = {}
               \<and> bytes (fp i) 4096 \<subseteq> phys_owned (mm_phys s')
               \<and> (\<forall>j < i. vmap (mm_mem s) dir (a + j * 4096) = None \<longrightarrow> fp j \<noteq> fp i)))"

text \<open>The entry that the first page of a range has after a step.\<close>

definition page_step :: "nat \<Rightarrow> 32 word \<Rightarrow> nat \<Rightarrow> mmu \<Rightarrow> mmu \<Rightarrow> bool" where
  "page_step dir flags a s s1 \<longleftrightarrow>
     pd_step dir s s1
     \<and> (\<forall>v. user_addr v \<longrightarrow> v div 4096 \<noteq> a div 4096 \<longrightarrow> vmap (mm_mem s1) dir v = vmap (mm_mem s) dir v)
     \<and> (case vmap (mm_mem s) dir a of
          Some e \<Rightarrow> vmap (mm_mem s1) dir a = Some e
        | None \<Rightarrow> \<exists>f. vmap (mm_mem s1) dir a = Some (of_nat f OR flags OR PAGE_PRESENT)
            \<and> 0 < f \<and> f mod 4096 = 0 \<and> f < 4294967296
            \<and> bytes f 4096 \<inter> phys_owned (mm_phys s) = {} \<and> bytes f 4096 \<subseteq> phys_owned (mm_phys s1))"

lemma ensured_step:
  assumes st: "page_step dir flags a s s1" and st2: "pd_step dir s1 s'"
    and en: "ensured dir flags (a + 4096) k s1 s'"
    and lo: "user_addr a" and hi: "a + k * 4096 < 0xFE000000"
  shows "ensured dir flags a (Suc k) s s'"
proof -
  have own: "phys_owned (mm_phys s) \<subseteq> phys_owned (mm_phys s1)" "phys_owned (mm_phys s1) \<subseteq> phys_owned (mm_phys s')"
    using st st2 by (auto simp: page_step_def pd_step_def)
  have oth: "vmap (mm_mem s1) dir v = vmap (mm_mem s) dir v" if "user_addr v" "v div 4096 \<noteq> a div 4096" for v
    using st that by (simp add: page_step_def)
  have far: "vmap (mm_mem s') dir v = vmap (mm_mem s1) dir v"
    if "user_addr v" "v div 4096 < Suc (a div 4096) \<or> Suc (a div 4096) + k \<le> v div 4096" for v
    using conjunct1 [OF en [unfolded ensured_def]] that by auto
  obtain fp where fp: "\<And>i. i < k \<Longrightarrow>
      (case vmap (mm_mem s1) dir (a + 4096 + i * 4096) of
         Some e \<Rightarrow> vmap (mm_mem s') dir (a + 4096 + i * 4096) = Some e
       | None \<Rightarrow> vmap (mm_mem s') dir (a + 4096 + i * 4096) = Some (of_nat (fp i) OR flags OR PAGE_PRESENT)
           \<and> 0 < fp i \<and> fp i mod 4096 = 0 \<and> fp i < 4294967296
           \<and> bytes (fp i) 4096 \<inter> phys_owned (mm_phys s1) = {}
           \<and> bytes (fp i) 4096 \<subseteq> phys_owned (mm_phys s')
           \<and> (\<forall>j < i. vmap (mm_mem s1) dir (a + 4096 + j * 4096) = None \<longrightarrow> fp j \<noteq> fp i))"
    using en unfolding ensured_def by auto
  have "\<exists>f. vmap (mm_mem s) dir a = None \<longrightarrow>
      vmap (mm_mem s1) dir a = Some (of_nat f OR flags OR PAGE_PRESENT) \<and> 0 < f \<and> f mod 4096 = 0
      \<and> f < 4294967296 \<and> bytes f 4096 \<inter> phys_owned (mm_phys s) = {} \<and> bytes f 4096 \<subseteq> phys_owned (mm_phys s1)"
    using st unfolding page_step_def by (cases "vmap (mm_mem s) dir a") simp_all
  then obtain f where f: "vmap (mm_mem s) dir a = None \<longrightarrow>
      vmap (mm_mem s1) dir a = Some (of_nat f OR flags OR PAGE_PRESENT) \<and> 0 < f \<and> f mod 4096 = 0
      \<and> f < 4294967296 \<and> bytes f 4096 \<inter> phys_owned (mm_phys s) = {} \<and> bytes f 4096 \<subseteq> phys_owned (mm_phys s1)"
    ..
  have f2: "vmap (mm_mem s) dir a = Some e \<Longrightarrow> vmap (mm_mem s1) dir a = Some e" for e
    using st unfolding page_step_def by simp
  let ?fp = "\<lambda>i. if i = 0 then f else fp (i - 1)"
  have later: "user_addr (a + 4096 + i * 4096)" "(a + 4096 + i * 4096) div 4096 = Suc (a div 4096) + i"
    "vmap (mm_mem s1) dir (a + 4096 + i * 4096) = vmap (mm_mem s) dir (a + 4096 + i * 4096)" if "i < k" for i
  proof -
    have "Suc i * 4096 \<le> k * 4096" using that by (intro mult_right_mono) simp_all
    then show u: "user_addr (a + 4096 + i * 4096)" using lo hi by (simp add: user_addr_def)
    show d: "(a + 4096 + i * 4096) div 4096 = Suc (a div 4096) + i" by simp
    show "vmap (mm_mem s1) dir (a + 4096 + i * 4096) = vmap (mm_mem s) dir (a + 4096 + i * 4096)"
      by (rule oth [OF u]) (simp only: d)
  qed
  show ?thesis
    unfolding ensured_def
  proof (intro conjI allI impI exI [where x = ?fp])
    fix v assume v: "user_addr v" "v div 4096 < a div 4096 \<or> a div 4096 + Suc k \<le> v div 4096"
    then show "vmap (mm_mem s') dir v = vmap (mm_mem s) dir v"
      using far [of v] oth [of v] by auto
  next
    fix i assume i: "i < Suc k"
    show "case vmap (mm_mem s) dir (a + i * 4096) of
        None \<Rightarrow> vmap (mm_mem s') dir (a + i * 4096) = Some (of_nat (?fp i) OR flags OR PAGE_PRESENT)
          \<and> 0 < ?fp i \<and> ?fp i mod 4096 = 0 \<and> ?fp i < 4294967296
          \<and> bytes (?fp i) 4096 \<inter> phys_owned (mm_phys s) = {} \<and> bytes (?fp i) 4096 \<subseteq> phys_owned (mm_phys s')
          \<and> (\<forall>j < i. vmap (mm_mem s) dir (a + j * 4096) = None \<longrightarrow> ?fp j \<noteq> ?fp i)
      | Some e \<Rightarrow> vmap (mm_mem s') dir (a + i * 4096) = Some e"
    proof (cases i)
      case 0
      then show ?thesis using f f2 far [of a] lo own(2) by (auto split: option.split)
    next
      case (Suc j)
      with i have j: "j < k" by simp
      obtain x where x: "a + i * 4096 = x" "a + 4096 + j * 4096 = x" using Suc by simp
      note fj = fp [OF j, unfolded x(2) later(3) [OF j, unfolded x(2)]]
      show ?thesis
      proof (cases "vmap (mm_mem s) dir x")
        case None
        with fj have fj:
          "vmap (mm_mem s') dir x = Some (of_nat (fp j) OR flags OR PAGE_PRESENT)"
          "0 < fp j" "fp j mod 4096 = 0" "fp j < 4294967296" "bytes (fp j) 4096 \<inter> phys_owned (mm_phys s1) = {}"
          "bytes (fp j) 4096 \<subseteq> phys_owned (mm_phys s')"
          "\<forall>l < j. vmap (mm_mem s1) dir (a + 4096 + l * 4096) = None \<longrightarrow> fp l \<noteq> fp j" by simp_all
        have "?fp l \<noteq> ?fp i" if "l < i" "vmap (mm_mem s) dir (a + l * 4096) = None" for l
        proof (cases l)
          case 0
          then have "bytes f 4096 \<subseteq> phys_owned (mm_phys s1)" using f that(2) by simp
          moreover have "f \<in> bytes f 4096" by (simp add: bytes_def)
          ultimately have "f \<noteq> fp j" using fj(5) by blast
          then show ?thesis using 0 Suc by simp
        next
          case (Suc l')
          then have "l' < j" using that(1) \<open>i = Suc j\<close> by simp
          moreover have "vmap (mm_mem s1) dir (a + 4096 + l' * 4096) = None"
            using later(3) [of l'] \<open>l' < j\<close> j that(2) Suc by (simp add: add.assoc)
          ultimately show ?thesis using fj(7) Suc \<open>i = Suc j\<close> by simp
        qed
        moreover have "bytes (fp j) 4096 \<inter> phys_owned (mm_phys s) = {}" using fj(5) own(1) by blast
        ultimately show ?thesis unfolding x(1) using None fj Suc by simp
      next
        case (Some e)
        with fj show ?thesis unfolding x(1) by simp
      qed
    qed
  qed
qed

lemma page_entry_present_vmap: "page_entry_present m dir a = 0 \<longleftrightarrow> vmap m dir a \<noteq> None"
  by (simp add: vmap_def)

text \<open>One round of \<^verbatim>\<open>page_ensure\<close>.\<close>

definition ensure_page :: "bool \<Rightarrow> 32 word \<Rightarrow> nat \<Rightarrow> nat \<Rightarrow> int \<Rightarrow> mmu \<Rightarrow> (int \<times> mmu) kres" where
  "ensure_page iv type dir a r s =
     bindR (make_table dir type a s) (\<lambda>s1.
     if page_entry_present (mm_mem s1) dir a \<noteq> 0
     then bindR (new_entry iv type dir a s1) (\<lambda>s2. Inr (r, s2))
     else Inr (s32 (r + 1), s1))"

lemma ensure_loop_page:
  "ensure_loop iv type dir a (Suc k) r s =
     bindR (ensure_page iv type dir (u32 (a + PAGE_SIZE)) r s) (\<lambda>(r', s').
     ensure_loop iv type dir (u32 (a + PAGE_SIZE)) k r' s')"
  by (auto simp: ensure_page_def Let_def bindR_assoc intro!: bindR_cong)

lemma ensure_page_ok:
  assumes ok: "pd_ok s dir" and a: "user_addr a" and f: "flags_ok type"
    and fr: "2 < s_freePages (mm_phys s)" and r: "0 \<le> r" "r < 1048576"
  obtains s1 where "ensure_page iv type dir a r s
      = Inr (r + (if vmap (mm_mem s) dir a = None then 0 else 1), s1)"
    "page_step dir type a s s1" "s_freePages (mm_phys s) - 2 \<le> s_freePages (mm_phys s1)"
proof -
  have "1 < s_freePages (mm_phys s)" using fr by simp
  from make_table_ok [OF ok a f this] obtain s1 where s1: "make_table dir type a s = Inr s1"
    "pd_step dir s s1" "present (pd_entry (mm_mem s1) dir a)"
    "\<And>v. user_addr v \<Longrightarrow> vmap (mm_mem s1) dir v = vmap (mm_mem s) dir v"
    "s_freePages (mm_phys s) - 1 \<le> s_freePages (mm_phys s1)" by blast
  show thesis
  proof (cases "vmap (mm_mem s) dir a")
    case None
    have "1 < s_freePages (mm_phys s1)" using fr s1(5) by simp
    obtain s2 fp where s2:
      "new_entry iv type dir a s1 = Inr s2" "pd_step dir s1 s2"
      "\<forall>v. user_addr v \<longrightarrow> vmap (mm_mem s2) dir v
         = (if v div 4096 = a div 4096 then Some (of_nat fp OR type OR PAGE_PRESENT) else vmap (mm_mem s1) dir v)"
      "0 < fp" "fp mod 4096 = 0" "bytes fp 4096 \<inter> phys_owned (mm_phys s1) = {}"
      "bytes fp 4096 \<subseteq> phys_owned (mm_phys s2)" "fp < 4294967296"
      "s_freePages (mm_phys s1) - 1 = s_freePages (mm_phys s2)"
      "\<forall>i < 1024. slot (mm_mem s2) dir i = slot (mm_mem s1) dir i"
      by (rule new_entry_ok [OF pd_stepD [OF s1(2)] a f s1(3) \<open>1 < s_freePages (mm_phys s1)\<close>, of iv])
    have "bytes fp 4096 \<inter> phys_owned (mm_phys s) = {}"
      using s2(6) s1(2) by (auto simp: pd_step_def)
    then have "page_step dir type a s s2"
      unfolding page_step_def using None pd_step_trans [OF s1(2) s2(2)] s1(4) s2(3-8) a by auto
    moreover have "ensure_page iv type dir a r s = Inr (r, s2)"
      using s1(1) s1(4) [OF a] None s2(1) by (simp add: ensure_page_def page_entry_present_vmap)
    ultimately show thesis using that [of s2] None s2(9) s1(5) by simp
  next
    case (Some e)
    have "ensure_page iv type dir a r s = Inr (r + 1, s1)"
      using s1(1) s1(4) [OF a] Some r by (simp add: ensure_page_def page_entry_present_vmap)
    moreover have "page_step dir type a s s1"
      unfolding page_step_def using s1(2,4) Some a by simp
    ultimately show thesis using that [of s1] Some s1(5) by simp
  qed
qed

lemma ensure_loop_ok:
  assumes "pd_ok s dir" and "flags_ok type" and "0x80000000 \<le> a + 4096" and "a + 4096 + k * 4096 \<le> 0xFE000000"
    and "2 * int k < s_freePages (mm_phys s)" and "0 \<le> r" and "r + int k \<le> 1048576"
  shows "\<exists>s'. ensure_loop iv type dir a k r s = Inr (r + int (mapped_pages (mm_mem s) dir (a + 4096) k), s')
    \<and> pd_step dir s s' \<and> ensured dir type (a + 4096) k s s'"
  using assms
proof (induction k arbitrary: a r s)
  case 0
  then show ?case by (simp add: mapped_pages_def pd_step_refl ensured_def)
next
  case (Suc k)
  have a: "user_addr (a + 4096)" "u32 (a + PAGE_SIZE) = a + 4096"
    using Suc.prems(3,4) by (simp_all add: user_addr_def PAGE_SIZE_def)
  have fr: "2 < s_freePages (mm_phys s)" "r < 1048576" using Suc.prems(5,7) by simp_all
  obtain s1 where s1: "ensure_page iv type dir (a + 4096) r s
      = Inr (r + (if vmap (mm_mem s) dir (a + 4096) = None then 0 else 1), s1)"
    "page_step dir type (a + 4096) s s1" "s_freePages (mm_phys s) - 2 \<le> s_freePages (mm_phys s1)"
    by (rule ensure_page_ok [OF Suc.prems(1) a(1) Suc.prems(2) fr(1) Suc.prems(6) fr(2), of iv])
  let ?r = "r + (if vmap (mm_mem s) dir (a + 4096) = None then 0 else 1)"
  have st: "pd_step dir s s1" using s1(2) by (simp add: page_step_def)
  have "\<exists>s'. ensure_loop iv type dir (a + 4096) k ?r s1
        = Inr (?r + int (mapped_pages (mm_mem s1) dir (a + 4096 + 4096) k), s')
      \<and> pd_step dir s1 s' \<and> ensured dir type (a + 4096 + 4096) k s1 s'"
    by (rule Suc.IH) (use Suc.prems s1(3) pd_stepD [OF st] in auto)
  then obtain s' where s': "ensure_loop iv type dir (a + 4096) k ?r s1
        = Inr (?r + int (mapped_pages (mm_mem s1) dir (a + 4096 + 4096) k), s')"
      "pd_step dir s1 s'" "ensured dir type (a + 4096 + 4096) k s1 s'" by blast
  have "mapped_pages (mm_mem s1) dir (a + 4096 + 4096) k = mapped_pages (mm_mem s) dir (a + 4096 + 4096) k"
  proof (rule mapped_pages_cong)
    fix i assume "i < k"
    then have "Suc i * 4096 \<le> k * 4096" by (intro mult_right_mono) simp_all
    then have "user_addr (a + 4096 + 4096 + i * 4096)" using Suc.prems(3,4) by (simp add: user_addr_def)
    then show "vmap (mm_mem s1) dir (a + 4096 + 4096 + i * 4096) = vmap (mm_mem s) dir (a + 4096 + 4096 + i * 4096)"
      using s1(2) unfolding page_step_def by simp
  qed
  with s1(1) s'(1) a(2) have "ensure_loop iv type dir a (Suc k) r s
      = Inr (r + int (mapped_pages (mm_mem s) dir (a + 4096) (Suc k)), s')"
    unfolding ensure_loop_page by (simp add: mapped_pages_Suc)
  moreover have "ensured dir type (a + 4096) (Suc k) s s'"
    by (rule ensured_step [OF s1(2) s'(2,3) a(1)]) (use Suc.prems(4) in simp)
  ultimately show ?case using pd_step_trans [OF st s'(2)] by blast
qed

section \<open>Direct mappings and releases\<close>

lemma present_new: "present (x OR flags OR PAGE_PRESENT)"
  by (simp add: present_def PAGE_PRESENT_def bit.conj_disj_distrib2 del: and_one_eq)

text \<open>Page \<open>v\<close> is one of the \<open>k\<close> pages from \<open>a\<close> on.\<close>

definition in_run :: "nat \<Rightarrow> nat \<Rightarrow> nat \<Rightarrow> bool" where
  "in_run a k v \<longleftrightarrow> a div 4096 \<le> v div 4096 \<and> v div 4096 < a div 4096 + k"

lemma next_page [simp]: "(a + 4096) div 4096 = Suc (a div (4096 :: nat))"
  by simp

lemma in_run_0 [simp]: "\<not> in_run a 0 v"
  by (simp add: in_run_def)

lemma in_run_Suc: "in_run a (Suc k) v \<longleftrightarrow> v div 4096 = a div 4096 \<or> in_run (a + 4096) k v"
  by (auto simp: in_run_def)

lemma not_in_next_run: "v div 4096 = a div 4096 \<Longrightarrow> \<not> in_run (a + 4096) k v"
  by (simp add: in_run_def)

definition direct_entry :: "32 word \<Rightarrow> nat \<Rightarrow> nat \<Rightarrow> nat \<Rightarrow> 32 word" where
  "direct_entry flags phys a v =
     of_nat (phys + (v div 4096 - a div 4096) * 4096) OR flags OR PAGE_PRESENT"

lemma direct_entry_step:
  "in_run (a + 4096) k v \<Longrightarrow> direct_entry flags (phys + 4096) (a + 4096) v = direct_entry flags phys a v"
proof -
  assume "in_run (a + 4096) k v"
  then have "Suc (a div 4096) \<le> v div 4096" by (simp add: in_run_def)
  then have "phys + 4096 + (v div 4096 - (a + 4096) div 4096) * 4096 = phys + (v div 4096 - a div 4096) * 4096"
    by (simp add: diff_mult_distrib)
  then show ?thesis unfolding direct_entry_def by (simp only:)
qed

lemma direct_map_loop_ok:
  assumes "pd_ok s dir" and "flags_ok flags" and "0x80000000 \<le> a" and "a + k * 4096 \<le> 0xFE000000"
    and "phys + k * 4096 \<le> 4294967296" and "int k < s_freePages (mm_phys s)"
  shows "\<exists>s'. direct_map_loop iv flags dir phys a k s = Inr s' \<and> pd_step dir s s' \<and> only_tables dir s s'
    \<and> (\<forall>v. user_addr v \<longrightarrow> vmap (mm_mem s') dir v
         = (if in_run a k v then Some (direct_entry flags phys a v) else vmap (mm_mem s) dir v))"
  using assms
proof (induction k arbitrary: s a phys)
  case 0
  then show ?case by (simp add: pd_step_refl only_tables_refl)
next
  case (Suc k)
  have a: "user_addr a" using Suc.prems(3,4) by (simp add: user_addr_def)
  have fr: "1 < s_freePages (mm_phys s)" using Suc.prems(6) by simp
  obtain s1 where s1: "make_table dir flags a s = Inr s1" "pd_step dir s s1"
    "present (pd_entry (mm_mem s1) dir a)" "\<And>v. user_addr v \<Longrightarrow> vmap (mm_mem s1) dir v = vmap (mm_mem s) dir v"
    "s_freePages (mm_phys s) - 1 \<le> s_freePages (mm_phys s1)" "only_tables dir s s1"
    using make_table_ok [OF Suc.prems(1) a Suc.prems(2) fr] by blast
  let ?e = "(of_nat phys :: 32 word) OR flags OR PAGE_PRESENT"
  let ?s2 = "invlpg iv a (set_entry dir a ?e s1)"
  note se = set_entry_ok [OF pd_stepD [OF s1(2)] a s1(3), where e = ?e]
  have st: "pd_step dir s ?s2" using pd_step_trans [OF s1(2) se(1)] by simp
  have ot: "only_tables dir s ?s2"
    using only_tables_trans [OF s1(6) se(5)] by (simp add: only_tables_def)
  have IH: "\<exists>s'. direct_map_loop iv flags dir (phys + 4096) (a + 4096) k ?s2 = Inr s' \<and> pd_step dir ?s2 s' \<and> only_tables dir ?s2 s'
    \<and> (\<forall>v. user_addr v \<longrightarrow> vmap (mm_mem s') dir v
         = (if in_run (a + 4096) k v then Some (direct_entry flags (phys + 4096) (a + 4096) v)
            else vmap (mm_mem ?s2) dir v))"
    by (rule Suc.IH) (use Suc.prems pd_stepD [OF st] s1(5) se(3) in auto)
  then obtain s' where s': "direct_map_loop iv flags dir (phys + 4096) (a + 4096) k ?s2 = Inr s'"
    "pd_step dir ?s2 s'" "\<And>v. user_addr v \<Longrightarrow> vmap (mm_mem s') dir v
         = (if in_run (a + 4096) k v then Some (direct_entry flags (phys + 4096) (a + 4096) v)
            else vmap (mm_mem ?s2) dir v)" "only_tables dir ?s2 s'" by blast
  have "direct_map_loop iv flags dir phys a (Suc k) s = Inr s'"
  proof (cases k)
    case 0
    then show ?thesis using s1(1) s'(1) by simp
  next
    case (Suc n)
    then have "u32 (phys + PAGE_SIZE) = phys + 4096" "u32 (a + PAGE_SIZE) = a + 4096"
      using Suc.prems(4,5) by (simp_all add: PAGE_SIZE_def)
    then show ?thesis using s1(1) s'(1) by simp
  qed
  moreover have "vmap (mm_mem s') dir v
      = (if in_run a (Suc k) v then Some (direct_entry flags phys a v) else vmap (mm_mem s) dir v)"
    if v: "user_addr v" for v
    using s'(3) [OF v] se(2) [OF v] s1(4) [OF v] direct_entry_step [of a k v flags phys] not_in_next_run [of v a k]
    by (auto simp: in_run_Suc present_new direct_entry_def)
  ultimately show ?case using pd_step_trans [OF st s'(2)] only_tables_trans [OF ot s'(4)] by blast
qed

lemma release_loop_ok:
  assumes "pd_ok s dir" and "0x80000000 \<le> a" and "a + k * 4096 \<le> 0xFE000000"
  shows "pd_step dir s (release_loop iv dir a k s)
    \<and> mm_phys (release_loop iv dir a k s) = mm_phys s
    \<and> (\<forall>v. user_addr v \<longrightarrow> vmap (mm_mem (release_loop iv dir a k s)) dir v
         = (if in_run a k v then None else vmap (mm_mem s) dir v))"
  using assms
proof (induction k arbitrary: s a)
  case 0
  then show ?case by (simp add: pd_step_refl)
next
  case (Suc k)
  have a: "user_addr a" "u32 (a + PAGE_SIZE) = a + 4096"
    using Suc.prems by (simp_all add: user_addr_def PAGE_SIZE_def)
  define s1 where "s1 = (if page_entry_present (mm_mem s) dir a = 0 then set_entry dir a 0 s else s)"
  have s1: "pd_step dir s s1" "mm_phys s1 = mm_phys s" "\<And>v. user_addr v \<Longrightarrow>
      vmap (mm_mem s1) dir v = (if v div 4096 = a div 4096 then None else vmap (mm_mem s) dir v)"
  proof -
    have pr: "present (pd_entry (mm_mem s) dir a)" if "page_entry_present (mm_mem s) dir a = 0"
      using that by (simp add: page_entry_present_def split: if_splits)
    note se = set_entry_ok [OF Suc.prems(1) a(1) pr, where e = 0]
    show "pd_step dir s s1" "mm_phys s1 = mm_phys s"
      using se(1,3) pd_step_refl [OF Suc.prems(1)] by (auto simp: s1_def)
    fix v assume v: "user_addr v"
    have "vmap (mm_mem s) dir v = None"
      if "page_entry_present (mm_mem s) dir a \<noteq> 0" "v div 4096 = a div 4096"
    proof -
      have lt: "v < 4294967296" "a < 4294967296" using v a(1) by (auto simp: user_addr_def)
      then have e: "page_table_of v = page_table_of a" "page_entry_of v = page_entry_of a"
        using same_page [OF lt] that(2) by auto
      then have "vmap (mm_mem s) dir v = vmap (mm_mem s) dir a"
        by (simp add: vmap_def page_entry_present_def pd_entry_slot pt_entry_def page_table_def)
      then show ?thesis using that(1) by (simp add: vmap_def)
    qed
    then show "vmap (mm_mem s1) dir v = (if v div 4096 = a div 4096 then None else vmap (mm_mem s) dir v)"
      using se(2) [OF _ v] by (auto simp: s1_def)
  qed
  let ?s1 = "invlpg iv a s1"
  have st: "pd_step dir s ?s1" using s1(1) by simp
  have IH: "pd_step dir ?s1 (release_loop iv dir (a + 4096) k ?s1)"
    "mm_phys (release_loop iv dir (a + 4096) k ?s1) = mm_phys s"
    "\<And>v. user_addr v \<Longrightarrow> vmap (mm_mem (release_loop iv dir (a + 4096) k ?s1)) dir v
         = (if in_run (a + 4096) k v then None else vmap (mm_mem s1) dir v)"
    using Suc.IH [OF pd_stepD [OF st], of "a + 4096"] Suc.prems(2,3) s1(2) by simp_all
  have "release_loop iv dir a (Suc k) s = release_loop iv dir (a + 4096) k ?s1"
    using a(2) by (simp add: Let_def s1_def)
  then show ?case
    using IH(2,3) s1(3) pd_step_trans [OF st IH(1)] not_in_next_run [of _ a k] by (auto simp: in_run_Suc)
qed

section \<open>Searching for free pages\<close>

text \<open>The specification of \<^verbatim>\<open>page_find_free\<close>: the first page at which a run of unmapped pages starts.\<close>

definition free_at :: "memory \<Rightarrow> nat \<Rightarrow> nat \<Rightarrow> nat \<Rightarrow> bool" where
  "free_at m dir pages a \<longleftrightarrow> (\<forall>i < pages. vmap m dir (a + i * 4096) = None)"

definition first_free :: "memory \<Rightarrow> nat \<Rightarrow> nat \<Rightarrow> nat \<Rightarrow> nat \<Rightarrow> nat" where
  "first_free m dir start finish pages =
     (let base = start div 4096 * 4096 in
      case find (\<lambda>i. free_at m dir pages (base + i * 4096)) [0..<(finish - base + 4095) div 4096] of
        None \<Rightarrow> 0
      | Some i \<Rightarrow> base + i * 4096)"

lemma free_run_None:
  "current + (cnt + k) * 4096 \<le> 4294967296 \<Longrightarrow>
   free_run m dir current cnt k = None \<longleftrightarrow> (\<forall>i < k. vmap m dir (current + (cnt + i) * 4096) = None)"
proof (induction k arbitrary: cnt)
  case (Suc k)
  have "current + (Suc cnt + k) * 4096 \<le> 4294967296" using Suc.prems by simp
  note IH = Suc.IH [OF this]
  have "u32 (current + cnt * PAGE_SIZE) = current + cnt * 4096" using Suc.prems by (simp add: PAGE_SIZE_def)
  then show ?case
    using IH by (simp add: page_entry_present_vmap All_less_Suc2 add.left_commute)
qed simp

lemma free_run_Some:
  "current + (cnt + k) * 4096 \<le> 4294967296 \<Longrightarrow> free_run m dir current cnt k = Some j \<Longrightarrow>
   cnt \<le> j \<and> j < cnt + k \<and> vmap m dir (current + j * 4096) \<noteq> None"
proof (induction k arbitrary: cnt)
  case (Suc k)
  have "current + (Suc cnt + k) * 4096 \<le> 4294967296" using Suc.prems by simp
  note IH = Suc.IH [OF this]
  have "u32 (current + cnt * PAGE_SIZE) = current + cnt * 4096" using Suc.prems by (simp add: PAGE_SIZE_def)
  then show ?case
    using IH Suc.prems(2) by (auto simp: page_entry_present_vmap split: if_splits)
qed simp

lemma find_skip:
  "j \<le> k \<Longrightarrow> (\<And>i. j \<le> i \<Longrightarrow> i < k \<Longrightarrow> i < n \<Longrightarrow> \<not> P i) \<Longrightarrow> find P [j..<n] = find P [k..<n]"
proof (induction "k - j" arbitrary: j)
  case (Suc d)
  show ?case
  proof (cases "j < n")
    case True
    then have "find P [j..<n] = find P [Suc j..<n]" using Suc by (simp add: upt_conv_Cons)
    also have "\<dots> = find P [k..<n]" by (rule Suc.hyps(1)) (use Suc in auto)
    finally show ?thesis .
  next
    case False
    then show ?thesis using Suc by simp
  qed
qed simp

lemma find_free_loop_ok:
  assumes "finish + pages * 4096 \<le> 4294967296" and n: "\<And>i. base + i * 4096 < finish \<longleftrightarrow> i < n"
    and "n - j < fuel"
  shows "find_free_loop fuel m dir finish pages (base + j * 4096)
    = Inr (case find (\<lambda>i. free_at m dir pages (base + i * 4096)) [j..<n] of None \<Rightarrow> 0 | Some i \<Rightarrow> base + i * 4096)"
  using assms(3)
proof (induction fuel arbitrary: j)
  case (Suc fuel)
  let ?P = "\<lambda>i. free_at m dir pages (base + i * 4096)" and ?c = "base + j * 4096"
  show ?case
  proof (cases "j < n")
    case True
    then have lt: "?c < finish" using n by simp
    then have le: "?c + (0 + pages) * 4096 \<le> 4294967296" using assms(1) by simp
    show ?thesis
    proof (cases "free_run m dir ?c 0 pages")
      case None
      then have "?P j" using free_run_None [OF le] by (simp add: free_at_def)
      then show ?thesis using True lt None by (simp add: upt_conv_Cons)
    next
      case (Some d)
      from free_run_Some [OF le Some] have d: "d < pages" "vmap m dir (?c + d * 4096) \<noteq> None" by auto
      have "\<not> ?P i" if "j \<le> i" "i < j + Suc d" for i
      proof
        assume "?P i"
        moreover have "j + d - i < pages" using that d(1) by simp
        ultimately have "vmap m dir (base + i * 4096 + (j + d - i) * 4096) = None" by (simp add: free_at_def)
        moreover have "base + i * 4096 + (j + d - i) * 4096 = ?c + d * 4096"
          using that by (simp add: diff_mult_distrib add_mult_distrib)
        ultimately show False using d(2) by simp
      qed
      then have f: "find ?P [j..<n] = find ?P [j + Suc d..<n]" by (intro find_skip) auto
      have "?c + d * 4096 + 4096 < 4294967296"
      proof -
        have "Suc d * 4096 \<le> pages * 4096" using d(1) by (intro mult_right_mono) simp_all
        then show ?thesis using lt assms(1) by simp
      qed
      then have "u32 (u32 (?c + d * PAGE_SIZE) + PAGE_SIZE) = base + (j + Suc d) * 4096"
        by (simp add: PAGE_SIZE_def add_mult_distrib)
      moreover have "n - (j + Suc d) < fuel" using Suc.prems True by simp
      ultimately show ?thesis using Suc.IH [of "j + Suc d"] lt Some f by simp
    qed
  next
    case False
    then have "\<not> ?c < finish" using n by simp
    then show ?thesis using False by simp
  qed
qed simp

lemma pages_below: "(base :: nat) + i * 4096 < finish \<longleftrightarrow> i < (finish - base + 4095) div 4096"
proof -
  have "i < (finish - base + 4095) div 4096 \<longleftrightarrow> Suc i \<le> (finish - base + 4095) div 4096" by auto
  also have "\<dots> \<longleftrightarrow> Suc i * 4096 \<le> finish - base + 4095" by (simp only: less_eq_div_iff_mult_less_eq)
  finally show ?thesis by auto
qed

section \<open>Copying through a directory\<close>

lemma walk_cong:
  assumes m: "\<And>x. x \<in> pd_bytes m dir \<Longrightarrow> m' x = m x" and v: "user_addr v"
  shows "pd_entry m' dir v = pd_entry m dir v" and "vmap m' dir v = vmap m dir v"
    and "vmap m dir v \<noteq> None \<Longrightarrow> translate m' dir v = translate m dir v"
proof -
  have k: "page_table_of v < 1024" using user_slot_less [OF user_addr_slot [OF v]] .
  show pd: "pd_entry m' dir v = pd_entry m dir v"
    unfolding pd_entry_def by (rule ld32_cong, rule m) (use k in \<open>auto simp: pd_bytes_def bytes_def\<close>)
  have pt: "pt_entry m' dir v = pt_entry m dir v" if "present (pd_entry m dir v)"
  proof -
    have "bytes (page_table m dir v) 4096 \<subseteq> pd_bytes m dir"
      using page_table_in [OF v that] by (auto simp: pd_bytes_def)
    moreover have "bytes (page_table m dir v + 4 * page_entry_of v) 4 \<subseteq> bytes (page_table m dir v) 4096"
      using page_entry_of_less [of v] by (auto simp: bytes_def)
    ultimately have "ld32 m' (page_table m dir v + 4 * page_entry_of v) = ld32 m (page_table m dir v + 4 * page_entry_of v)"
      by (intro ld32_cong m) auto
    then show ?thesis using pd by (simp add: pt_entry_def page_table_def)
  qed
  show "vmap m' dir v = vmap m dir v" by (rule vmap_cong [OF pd pt])
  assume "vmap m dir v \<noteq> None"
  then have "present (pd_entry m dir v)" by (simp add: vmap_def page_entry_present_def split: if_splits)
  then show "translate m' dir v = translate m dir v" using pt by (simp add: translate_def page_entry_def)
qed

text \<open>
  The \<open>n\<close> bytes at \<open>v\<close> are mapped, to distinct bytes of memory that are not part of the page tables.
\<close>

definition buffer_ok :: "memory \<Rightarrow> nat \<Rightarrow> nat \<Rightarrow> nat \<Rightarrow> bool" where
  "buffer_ok m dir v n \<longleftrightarrow>
     (\<forall>i < n. user_addr (v + i) \<and> vmap m dir (v + i) \<noteq> None \<and> translate m dir (v + i) \<notin> pd_bytes m dir)
     \<and> inj_on (\<lambda>i. translate m dir (v + i)) {..<n}"

definition buffer_bytes :: "memory \<Rightarrow> nat \<Rightarrow> nat \<Rightarrow> nat \<Rightarrow> nat set" where
  "buffer_bytes m dir v n = (\<lambda>i. translate m dir (v + i)) ` {..<n}"

lemma pd_bytes_cong:
  assumes "\<And>x. x \<in> bytes dir 4096 \<Longrightarrow> m' x = m x"
  shows "pd_bytes m' dir = pd_bytes m dir"
  by (rule slots_same) (auto simp: slot_def bytes_def intro!: ld32_cong assms)

lemma buffer_cong:
  assumes "\<And>x. x \<in> pd_bytes m dir \<Longrightarrow> m' x = m x" and "buffer_ok m dir v n"
  shows "buffer_ok m' dir v n" and "buffer_bytes m' dir v n = buffer_bytes m dir v n"
    and "pd_bytes m' dir = pd_bytes m dir"
proof -
  show pb: "pd_bytes m' dir = pd_bytes m dir"
    by (rule pd_bytes_cong) (use assms(1) in \<open>auto simp: pd_bytes_def\<close>)
  have tr: "translate m' dir (v + i) = translate m dir (v + i)" "vmap m' dir (v + i) = vmap m dir (v + i)"
    if "i < n" for i
    using assms that walk_cong [of m dir m' "v + i"] by (auto simp: buffer_ok_def)
  have "inj_on (\<lambda>i. translate m' dir (v + i)) {..<n} = inj_on (\<lambda>i. translate m dir (v + i)) {..<n}"
    by (rule inj_on_cong) (simp add: tr)
  then show "buffer_ok m' dir v n" using assms(2) tr pb by (simp add: buffer_ok_def)
  show "buffer_bytes m' dir v n = buffer_bytes m dir v n"
    unfolding buffer_bytes_def by (rule image_cong) (simp_all add: tr)
qed

lemma copy_in_loop_ok:
  assumes "buffer_ok m dir dest n" and "src + n \<le> 4294967296"
    and "bytes src n \<inter> buffer_bytes m dir dest n = {}" and "i + k = n"
  shows "(\<forall>j. i \<le> j \<longrightarrow> j < n \<longrightarrow> copy_in_loop dir dest src i k m (translate m dir (dest + j)) = m (src + j))
    \<and> (\<forall>x. (\<forall>j. i \<le> j \<longrightarrow> j < n \<longrightarrow> x \<noteq> translate m dir (dest + j)) \<longrightarrow> copy_in_loop dir dest src i k m x = m x)"
  using assms
proof (induction k arbitrary: i m)
  case 0
  then show ?case by auto
next
  case (Suc k)
  let ?t = "translate m dir (dest + i)"
  define m2 where "m2 = m(?t := m (src + i))"
  have i: "i < n" using Suc.prems(4) by simp
  then have u: "u32 (dest + i) = dest + i" "u32 (src + i) = src + i" "?t \<notin> pd_bytes m dir"
    using Suc.prems(1,2) by (auto simp: buffer_ok_def user_addr_u32)
  have pdm: "m2 x = m x" if "x \<in> pd_bytes m dir" for x using that u(3) by (auto simp: m2_def)
  note bc = buffer_cong [where m' = m2, OF pdm Suc.prems(1)]
  have tr: "translate m2 dir (dest + j) = translate m dir (dest + j)" if "j < n" for j
    by (rule walk_cong(3), erule pdm) (use Suc.prems(1) that in \<open>auto simp: buffer_ok_def\<close>)
  have ne: "?t \<noteq> translate m dir (dest + j)" if "i < j" "j < n" for j
    using Suc.prems(1) that i by (auto simp: buffer_ok_def dest: inj_onD)
  have srcm: "m2 (src + j) = m (src + j)" if "j < n" for j
  proof -
    have "src + j \<in> bytes src n" using that by (simp add: bytes_def)
    moreover have "?t \<in> buffer_bytes m dir dest n" using i by (simp add: buffer_bytes_def)
    ultimately show ?thesis using Suc.prems(3) by (auto simp: m2_def)
  qed
  have "bytes src n \<inter> buffer_bytes m2 dir dest n = {}" "Suc i + k = n" using Suc.prems(3,4) bc(2) by simp_all
  note IH = Suc.IH [OF bc(1) Suc.prems(2) this]
  have eq: "copy_in_loop dir dest src i (Suc k) m = copy_in_loop dir dest src (Suc i) k m2"
    using u by (simp add: m2_def)
  show ?case
    unfolding eq
  proof (intro conjI allI impI)
    fix j assume j: "i \<le> j" "j < n"
    show "copy_in_loop dir dest src (Suc i) k m2 (translate m dir (dest + j)) = m (src + j)"
    proof (cases "j = i")
      case True
      have "copy_in_loop dir dest src (Suc i) k m2 ?t = m2 ?t"
        using IH tr ne by (simp add: Suc_le_eq)
      then show ?thesis using True by (simp add: m2_def)
    next
      case False
      then show ?thesis using IH j tr srcm by (auto simp: Suc_le_eq)
    qed
  next
    fix x assume x: "\<forall>j. i \<le> j \<longrightarrow> j < n \<longrightarrow> x \<noteq> translate m dir (dest + j)"
    then have "m2 x = m x" using i by (auto simp: m2_def)
    then show "copy_in_loop dir dest src (Suc i) k m2 x = m x" using IH tr x by (simp add: Suc_le_eq)
  qed
qed

lemma copy_out_loop_ok:
  assumes "buffer_ok m dir src n" and "dest + n \<le> 4294967296"
    and "bytes dest n \<inter> (pd_bytes m dir \<union> buffer_bytes m dir src n) = {}" and "i + k = n"
  shows "(\<forall>j. i \<le> j \<longrightarrow> j < n \<longrightarrow> copy_out_loop dir dest src i k m (dest + j) = m (translate m dir (src + j)))
    \<and> (\<forall>x. x \<notin> bytes (dest + i) k \<longrightarrow> copy_out_loop dir dest src i k m x = m x)"
  using assms
proof (induction k arbitrary: i m)
  case 0
  then show ?case by auto
next
  case (Suc k)
  let ?t = "translate m dir (src + i)"
  define m2 where "m2 = m(dest + i := m ?t)"
  have i: "i < n" using Suc.prems(4) by simp
  then have d: "dest + i \<in> bytes dest n" by (simp add: bytes_def)
  have u: "u32 (src + i) = src + i" "u32 (dest + i) = dest + i"
    using Suc.prems(1,2) i by (auto simp: buffer_ok_def user_addr_u32)
  have pdm: "m2 x = m x" if "x \<in> pd_bytes m dir" for x using that d Suc.prems(3) by (auto simp: m2_def)
  note bc = buffer_cong [where m' = m2, OF pdm Suc.prems(1)]
  have tr: "translate m2 dir (src + j) = translate m dir (src + j)"
    "m2 (translate m dir (src + j)) = m (translate m dir (src + j))" if "j < n" for j
  proof -
    show "translate m2 dir (src + j) = translate m dir (src + j)"
      by (rule walk_cong(3), erule pdm) (use Suc.prems(1) that in \<open>auto simp: buffer_ok_def\<close>)
    have "translate m dir (src + j) \<in> buffer_bytes m dir src n" using that by (simp add: buffer_bytes_def)
    then show "m2 (translate m dir (src + j)) = m (translate m dir (src + j))"
      using d Suc.prems(3) by (auto simp: m2_def)
  qed
  have "bytes dest n \<inter> (pd_bytes m2 dir \<union> buffer_bytes m2 dir src n) = {}" "Suc i + k = n"
    using Suc.prems(3,4) bc(2,3) by simp_all
  note IH = Suc.IH [OF bc(1) Suc.prems(2) this]
  have eq: "copy_out_loop dir dest src i (Suc k) m = copy_out_loop dir dest src (Suc i) k m2"
    using u by (simp add: m2_def)
  show ?case
    unfolding eq
  proof (intro conjI allI impI)
    fix j assume j: "i \<le> j" "j < n"
    show "copy_out_loop dir dest src (Suc i) k m2 (dest + j) = m (translate m dir (src + j))"
    proof (cases "j = i")
      case True
      have "dest + i \<notin> bytes (dest + Suc i) k" by (simp add: bytes_def)
      then have "copy_out_loop dir dest src (Suc i) k m2 (dest + i) = m2 (dest + i)" using IH by simp
      then show ?thesis using True by (simp add: m2_def)
    next
      case False
      then show ?thesis using IH j tr by (auto simp: Suc_le_eq)
    qed
  next
    fix x assume "x \<notin> bytes (dest + i) (Suc k)"
    then have "x \<noteq> dest + i" "x \<notin> bytes (dest + Suc i) k" by (auto simp: bytes_def)
    then have "copy_out_loop dir dest src (Suc i) k m2 x = m2 x" "m2 x = m x"
      using IH by (simp, simp add: m2_def)
    then show "copy_out_loop dir dest src (Suc i) k m2 x = m x" by simp
  qed
qed

section \<open>Creating and deleting directories\<close>

lemma identity_entry_bits:
  assumes "i < 1024"
  shows "present (identity_entry i)" and "identity_entry i AND PAGE_4MB \<noteq> 0"
    and "unat (identity_entry i AND NOT (1024 * 4096 - 1)) = i * 4194304"
    and "frame_of (identity_entry i) = i * 4194304"
proof -
  define w where "w = (of_nat (i * 4194304) :: 32 word)"
  have wn: "unat w = i * 4194304" unfolding w_def unat_of_nat using assms by simp
  have w: "w = push_bit 22 (of_nat i)" by (simp add: w_def push_bit_eq_mult)
  have e: "identity_entry i = w OR 387"
    by (simp add: identity_entry_def w_def PAGE_SUPERVISOR_def PAGE_4MB_def PAGE_RDWR_def PAGE_PRESENT_def
        PAGE_GLOBAL_def or.assoc mult.assoc)
  have lo: "w AND x = 0" if "x AND NOT (mask 22) = 0" for x
  proof (rule bit_word_eqI)
    fix n assume "n < LENGTH(32)"
    have "\<not> bit (x AND NOT (mask 22)) n" using that by simp
    then show "bit (w AND x) n = bit 0 n"
      using \<open>n < LENGTH(32)\<close> by (auto simp: w bit_simps simp del: push_bit_of_nat)
  qed
  have hi: "w AND NOT (mask k) = w" if "k \<le> 22" for k
    by (rule bit_word_eqI) (use that in \<open>auto simp: w bit_simps simp del: push_bit_of_nat\<close>)
  have m22: "(1024 * 4096 - 1 :: 32 word) = mask 22" by (simp add: mask_eq_exp_minus_1)
  have "NOT (mask 22 :: 32 word) = 0xFFC00000" by (simp add: mask_eq_exp_minus_1)
  then have "w AND 1 = 0" "w AND 128 = 0" using lo [of 1] lo [of 128] by simp_all
  then show "present (identity_entry i)" "identity_entry i AND PAGE_4MB \<noteq> 0"
    unfolding e by (simp_all add: present_def PAGE_PRESENT_def PAGE_4MB_def bit.conj_disj_distrib2 del: and_one_eq)
  have "identity_entry i AND NOT (mask 22) = w" "identity_entry i AND NOT (mask 12) = w"
    unfolding e using hi [of 22] hi [of 12] by (simp_all add: bit.conj_disj_distrib2 mask_eq_exp_minus_1)
  then show "unat (identity_entry i AND NOT (1024 * 4096 - 1)) = i * 4194304"
    "frame_of (identity_entry i) = i * 4194304"
    unfolding m22 frame_of_def low_mask using wn by simp_all
qed

text \<open>\<^verbatim>\<open>i * PAGE_SIZE\<close> lies in the first four megabytes for every \<open>i\<close> of the loops.\<close>

lemma delete_position:
  "i \<in> user_slots \<Longrightarrow> page_table_of (i * PAGE_SIZE) = 0 \<and> page_entry_of (i * PAGE_SIZE) = i"
proof -
  assume i: "i \<in> user_slots"
  then have "i * 4096 div 4194304 = 0" by (simp add: user_slots_def)
  then show ?thesis using i by (simp add: page_table_of_def page_entry_of_def PAGE_SIZE_def user_slots_def)
qed

lemma delete_entries_noop:
  assumes "slot (mm_mem s) mp 0 = identity_entry 0" and "\<And>i. i \<in> user_slots \<Longrightarrow> \<not> present (ld32 (mm_mem s) (4 * i))"
    and "512 \<le> i" and "i + k \<le> 1016"
  shows "delete_entries mp i k s = Inr s"
  using assms(3,4)
proof (induction k arbitrary: i)
  case (Suc k)
  have i: "i \<in> user_slots" using Suc.prems by (simp add: user_slots_def)
  have "pd_entry (mm_mem s) mp (i * PAGE_SIZE) = identity_entry 0"
    using assms(1) delete_position [OF i] by (simp add: pd_entry_slot)
  moreover from this have "pt_entry (mm_mem s) mp (i * PAGE_SIZE) = ld32 (mm_mem s) (4 * i)"
    using delete_position [OF i] identity_entry_bits(4) [of 0] by (simp add: pt_entry_def page_table_def)
  ultimately have "page_entry_present (mm_mem s) mp (i * PAGE_SIZE) \<noteq> 0"
    using assms(2) [OF i] by (simp add: page_entry_present_def)
  then show ?case using Suc by (simp add: Let_def)
qed simp

lemma delete_tables_noop:
  assumes "\<not> present (slot (mm_mem s) mp 0)" and "512 \<le> i" and "i + k \<le> 1016"
  shows "delete_tables mp i k s = Inr s"
  using assms(2,3)
proof (induction k arbitrary: i)
  case (Suc k)
  have "i \<in> user_slots" using Suc.prems by (simp add: user_slots_def)
  then have "page_table_present (mm_mem s) mp (i * PAGE_SIZE) \<noteq> 0"
    using assms(1) delete_position [of i] by (simp add: page_table_present_def pd_entry_slot)
  then show ?case using Suc by (simp add: Let_def)
qed simp

lemma free_page_ok:
  assumes "physmem_ok (mm_phys s)" and "a mod 4096 = 0" and "bytes a 4096 \<subseteq> phys_owned (mm_phys s)"
  shows "\<exists>p. free_page a s = Inr (s\<lparr>mm_phys := p\<rparr>) \<and> physmem_ok p
    \<and> phys_owned p = phys_owned (mm_phys s) - bytes a 4096 \<and> memory_offset p = memory_offset (mm_phys s)"
proof -
  obtain b where b: "a = memory_offset (mm_phys s) + b * PAGE_SIZE" "b + 1 \<le> memory_pages (mm_phys s)"
    "\<And>m. b \<le> m \<Longrightarrow> m < b + 1 \<Longrightarrow> used (mm_phys s) m"
    using run_of_bytes [of "mm_phys s" a 1] assms by (auto simp: PAGE_SIZE_def)
  from memory_free_result [OF assms(1) b(2) _ b(3)] b(1) obtain p where p:
    "memory_free 1 a (mm_phys s) = Inr p" "physmem_ok p" "used p = set_used (used (mm_phys s)) b 1 False"
    "cfg p = cfg (mm_phys s)" by auto
  have "phys_owned p = phys_owned (mm_phys s) - bytes a 4096"
    using phys_owned_set_used [of p "mm_phys s" b 1 False] p(3,4) b(1,2) by (simp add: cfg_def PAGE_SIZE_def)
  then show ?thesis using p(1,2,4) by (intro exI [of _ p]) (simp add: free_page_def cfg_def)
qed

lemma page_find_free_ok:
  assumes "finish + pages * 4096 \<le> 4294967296"
  shows "page_find_free m dir start finish pages = Inr (first_free m dir start finish pages)"
proof -
  let ?b = "start div 4096 * 4096" and ?n = "(finish - start div 4096 * 4096 + 4095) div 4096"
  have "finish - ?b + 4095 < 4294967296 + 4096" using assms by simp
  then have "?n < 1048577" by (simp add: div_less_iff_less_mult)
  then have "?n - 0 < Suc (2 ^ 20)" by simp
  moreover have "?b + i * 4096 < finish \<longleftrightarrow> i < ?n" for i by (rule pages_below)
  ultimately have "find_free_loop (Suc (2 ^ 20)) m dir finish pages (?b + 0 * 4096)
    = Inr (case find (\<lambda>i. free_at m dir pages (?b + i * 4096)) [0..<?n] of None \<Rightarrow> 0 | Some i \<Rightarrow> ?b + i * 4096)"
    by (intro find_free_loop_ok assms)
  moreover have "start - start mod 4096 = ?b" by (simp add: minus_mod_eq_div_mult)
  ultimately show ?thesis by (simp add: page_find_free_def first_free_def Let_def)
qed

end
