(* ===== verification/Paging_Props.thy ===== *)
theory Paging_Props
  imports Paging_Tables
begin

text \<open>
  The properties of the paging routines: \<^verbatim>\<open>page_ensure\<close>, \<^verbatim>\<open>new_page_directory\<close>, \<^verbatim>\<open>page_find_free\<close>,
  \<^verbatim>\<open>page_direct_map\<close> with \<^verbatim>\<open>page_release\<close>, the two copying routines, and what is wrong with
  \<^verbatim>\<open>delete_page_directory\<close>.
\<close>

section \<open>Properties\<close>

text \<open>Eight pages; page 0 is reserved and page 1 is an empty directory.\<close>

definition demo_pd :: mmu where
  "demo_pd = \<lparr>mm_mem = (\<lambda>_. 0),
     mm_phys = \<lparr>memory_bitmap = [3], memory_pages = 8, memory_offset = 0, s_freePages = 6, s_lastPage = 0\<rparr>,
     mm_cr3 = 0, mm_invlpg = []\<rparr>"

lemma ld32_zero [simp]: "ld32 (\<lambda>_. 0) a = 0"
  by (simp add: ld32_def)

lemma demo_pd_ok: "pd_ok demo_pd 4096"
proof -
  have ph: "physmem_ok (mm_phys demo_pd)" "null_reserved (mm_phys demo_pd)"
    by (simp_all add: physmem_ok_def null_reserved_def card_free_set demo_pd_def used_def
         BLOCK_BITS_def PAGE_SIZE_def upt_rec)
  have sl: "slot (mm_mem demo_pd) 4096 i = 0" for i by (simp add: slot_def demo_pd_def)
  then have t: "tables (mm_mem demo_pd) 4096 = {}" by (simp add: tables_def)
  have "used (mm_phys demo_pd) 1" by (simp add: demo_pd_def used_def BLOCK_BITS_def)
  then have "bytes 4096 4096 \<subseteq> phys_owned (mm_phys demo_pd)"
  proof -
    have "x div 4096 = 1" if "x \<in> bytes 4096 4096" for x
      using that by (auto simp: bytes_def intro!: div_nat_eqI)
    with \<open>used (mm_phys demo_pd) 1\<close> show ?thesis
      by (auto simp: phys_owned_iff PAGE_SIZE_def demo_pd_def)
  qed
  then show ?thesis using ph sl t by (simp add: pd_ok_def pd_bytes_def)
qed

lemma demo_pd_vmap: "vmap (mm_mem demo_pd) 4096 v = None"
  by (simp add: vmap_def page_entry_present_def pd_entry_def demo_pd_def)

text \<open>
  C5: \<^verbatim>\<open>page_ensure\<close> on a well-formed directory, for a range of process addresses and with enough free
  pages: it always returns, the result is the number of pages that were mapped before, these keep their
  entries, every other page of the range is mapped with the requested flags to a frame that nobody
  used, different pages get different frames, no other page of the address space changes, the
  directory stays well-formed, and no byte of a page in use outside the page tables changes.
\<close>

theorem page_ensure_correct:
  assumes "pd_ok s dir" and "0x80000000 \<le> start" and "start + pages * 4096 \<le> 0xFE000000"
    and "2 * int pages < s_freePages (mm_phys s)"
  shows "\<exists>s'. page_ensure dir start pages flags s = Inr (int (mapped_pages (mm_mem s) dir start pages), s')
    \<and> ensured dir (convert_paging_types flags) start pages s s' \<and> pd_step dir s s'"
proof -
  have u: "sub32 start PAGE_SIZE = start - 4096" "start - 4096 + 4096 = start" "start < 4294967296"
    using assms(2,3) by (simp_all add: PAGE_SIZE_def)
  have "pages * 4096 \<le> 2113929216" using assms(2,3) by linarith
  then have "0 + int pages \<le> 1048576" by simp
  with ensure_loop_ok [OF assms(1) convert_flags_ok, of "start - 4096" pages 0 "mm_cr3 s = dir" flags]
    assms u show ?thesis by (auto simp: page_ensure_def)
qed

theorem page_ensure_correct_witness:
  "\<exists>s'. page_ensure 4096 0x80000000 2 6 demo_pd = Inr (0, s') \<and> pd_ok s' 4096
     \<and> vmap (mm_mem s') 4096 0x80001000 \<noteq> None"
proof -
  have "(0x80000000 :: nat) \<le> 0x80000000" "0x80000000 + 2 * 4096 \<le> (0xFE000000 :: nat)"
    "2 * int 2 < s_freePages (mm_phys demo_pd)" by (simp_all add: demo_pd_def)
  from page_ensure_correct [OF demo_pd_ok this, of 6] obtain s' where
    s': "page_ensure 4096 0x80000000 2 6 demo_pd = Inr (int (mapped_pages (mm_mem demo_pd) 4096 0x80000000 2), s')"
    "ensured 4096 (convert_paging_types 6) 0x80000000 2 demo_pd s'" "pd_step 4096 demo_pd s'" by blast
  have "vmap (mm_mem s') 4096 (0x80000000 + 1 * 4096) \<noteq> None"
    using s'(2) demo_pd_vmap unfolding ensured_def by (auto dest!: spec [where x = "1 :: nat"])
  moreover have "mapped_pages (mm_mem demo_pd) 4096 0x80000000 2 = 0"
    by (simp add: mapped_pages_def demo_pd_vmap)
  ultimately show ?thesis using s'(1) pd_stepD [OF s'(3)] by auto
qed

text \<open>
  C19: \<^verbatim>\<open>new_page_directory\<close>, with a page to spare: the directory is a page that nobody used, every
  process address is unmapped, every address of the low half reads as the physical address (so the
  kernel can follow the pointers of its page tables), the directory is well-formed, and no byte of
  a page in use changes.
\<close>

theorem new_page_directory_correct:
  assumes "physmem_ok (mm_phys s)" and "null_reserved (mm_phys s)" and "1 < s_freePages (mm_phys s)"
  shows "\<exists>dir s'. new_page_directory s = Inr (dir, s') \<and> pd_ok s' dir
    \<and> bytes dir 4096 \<inter> phys_owned (mm_phys s) = {} \<and> phys_owned (mm_phys s') = phys_owned (mm_phys s) \<union> bytes dir 4096
    \<and> (\<forall>x \<in> phys_owned (mm_phys s). mm_mem s' x = mm_mem s x)
    \<and> (\<forall>v. user_addr v \<longrightarrow> vmap (mm_mem s') dir v = None)
    \<and> (\<forall>a < 0x80000000. page_data_get (mm_mem s') dir a = ld32 (mm_mem s') a)"
proof -
  from memory_alloc_page [OF assms] obtain dir p where p: "memory_alloc 1 (mm_phys s) = Inr (Some dir, p)"
    "physmem_ok p" "null_reserved p" "0 < dir" "dir mod 4096 = 0" "dir + 4096 \<le> 4294967296"
    "bytes dir 4096 \<inter> phys_owned (mm_phys s) = {}" "phys_owned p = phys_owned (mm_phys s) \<union> bytes dir 4096" by auto
  define m1 where "m1 = fill_words identity_entry dir 0 512 (mm_mem s)"
  define m2 where "m2 = fill_words (\<lambda>_. 0) dir 512 504 m1"
  define m3 where "m3 = fill_words identity_entry dir 1016 8 m2"
  let ?s = "s\<lparr>mm_phys := p, mm_mem := m3\<rparr>"
  have r: "new_page_directory s = Inr (dir, ?s)"
    using p(1) by (simp add: new_page_directory_def alloc_page_def Let_def m1_def m2_def m3_def)
  have us: "slot m3 dir i = 0" if "i \<in> user_slots" for i
  proof -
    have "slot m3 dir i = ld32 m2 (dir + 4 * i)"
      unfolding slot_def m3_def by (rule ld32_fill_words_other) (use that in \<open>auto simp: user_slots_def\<close>)
    also have "\<dots> = 0"
      unfolding m2_def by (rule ld32_fill_words) (use that in \<open>auto simp: user_slots_def\<close>)
    finally show ?thesis .
  qed
  have low: "slot m3 dir i = identity_entry i" if "i < 512" for i
  proof -
    have "slot m3 dir i = ld32 m1 (dir + 4 * i)"
      unfolding slot_def m3_def m2_def using that by (simp add: ld32_fill_words_other)
    then show ?thesis using that by (simp add: m1_def ld32_fill_words)
  qed
  have "tables m3 dir = {}" using us by (auto simp: tables_def)
  then have "pd_ok ?s dir" using p(2,3,5,8) us by (auto simp: pd_ok_def pd_bytes_def inj_on_def)
  moreover have "vmap m3 dir v = None" if "user_addr v" for v
    using us [OF user_addr_slot [OF that]] by (simp add: vmap_def page_entry_present_def pd_entry_slot)
  moreover have "m3 x = mm_mem s x" if "x \<in> phys_owned (mm_phys s)" for x
  proof -
    have "x \<notin> bytes dir 4096" using that p(7) by blast
    then show ?thesis
      unfolding m3_def m2_def m1_def by (subst fill_words_other, force simp: bytes_def)+ simp
  qed
  moreover have "page_data_get m3 dir a = ld32 m3 a" if "a < 0x80000000" for a
  proof -
    have "a div 4194304 < 512" using that by (simp add: div_less_iff_less_mult)
    then have i: "page_table_of a = a div 4194304" "page_table_of a < 512" by (simp_all add: page_table_of_def)
    then have "pd_entry m3 dir a = identity_entry (a div 4194304)" using low by (simp add: pd_entry_slot)
    then show ?thesis
      using identity_entry_bits(1-3) [of "a div 4194304"] \<open>a div 4194304 < 512\<close> by (simp add: page_data_get_def Let_def)
  qed
  ultimately show ?thesis using r p(7,8) by (intro exI [of _ dir] exI [of _ ?s]) simp
qed

theorem new_page_directory_correct_witness:
  "\<exists>dir s'. new_page_directory demo_pd = Inr (dir, s') \<and> pd_ok s' dir"
proof -
  have "1 < s_freePages (mm_phys demo_pd)" by (simp add: demo_pd_def)
  with new_page_directory_correct [of demo_pd] demo_pd_ok show ?thesis by (auto simp: pd_ok_def)
qed

text \<open>
  C36: \<^verbatim>\<open>page_find_free\<close> ends and agrees with its specification: it returns the first page at or after
  \<^verbatim>\<open>start\<close> and below \<^verbatim>\<open>finish\<close> from which the requested number of pages is unmapped, or 0. (The run
  itself may extend beyond \<^verbatim>\<open>finish\<close>.) The range must leave room for the run below 4 GB.
\<close>

theorem page_find_free_first:
  assumes "finish + pages * 4096 \<le> 4294967296"
  shows "page_find_free m dir start finish pages = Inr (first_free m dir start finish pages)"
  by (rule page_find_free_ok [OF assms])

theorem page_find_free_first_witness:
  "page_find_free (mm_mem demo_pd) 4096 0x80000004 0x80001000 2 = Inr 0x80000000"
proof -
  have "(0x80001000 :: nat) + 2 * 4096 \<le> 4294967296" by simp
  from page_find_free_first [OF this] show ?thesis
    by (simp add: first_free_def free_at_def demo_pd_vmap)
qed

text \<open>
  C38: A page range that is mapped by \<^verbatim>\<open>page_direct_map\<close> and then dropped by \<^verbatim>\<open>page_release\<close>. The mapping
  gives exactly the pages of the range the consecutive frames from the physical address on, with the
  requested flags, whatever they held; the release unmaps exactly these pages again and gives no page
  back to the allocator. Pages outside the range keep their entries, the directory stays well-formed
  and no byte of a page in use outside the page tables changes.
\<close>

theorem page_direct_map_release:
  assumes "pd_ok s dir" and "0x80000000 \<le> start" and "start + pages * 4096 \<le> 0xFE000000"
    and "physical + pages * 4096 \<le> 4294967296" and "int pages < s_freePages (mm_phys s)"
  shows "\<exists>s1 s2. page_direct_map dir physical start (int pages) flags s = Inr (0, s1) \<and> pd_step dir s s1
    \<and> (\<forall>v. user_addr v \<longrightarrow> vmap (mm_mem s1) dir v
         = (if in_run start pages v then Some (direct_entry (convert_paging_types flags) physical start v)
            else vmap (mm_mem s) dir v))
    \<and> page_release dir start (int pages) s1 = (0, s2) \<and> pd_step dir s1 s2 \<and> mm_phys s2 = mm_phys s1
    \<and> (\<forall>v. user_addr v \<longrightarrow> vmap (mm_mem s2) dir v = (if in_run start pages v then None else vmap (mm_mem s) dir v))"
proof -
  have "pages * 4096 \<le> 2113929216" using assms(2,3) by linarith
  then have p: "nat (int pages mod 2 ^ 32) = pages" by simp
  from direct_map_loop_ok [OF assms(1) convert_flags_ok assms(2-5), of "mm_cr3 s = dir" flags] obtain s1 where
    s1: "direct_map_loop (mm_cr3 s = dir) (convert_paging_types flags) dir physical start pages s = Inr s1"
    "pd_step dir s s1" "\<forall>v. user_addr v \<longrightarrow> vmap (mm_mem s1) dir v
         = (if in_run start pages v then Some (direct_entry (convert_paging_types flags) physical start v)
            else vmap (mm_mem s) dir v)" by blast
  have "page_direct_map dir physical start (int pages) flags s = Inr (0, s1)"
    using s1(1) p by (simp add: page_direct_map_def)
  moreover define s2 where "s2 = release_loop (mm_cr3 s1 = dir) dir start pages s1"
  then have "page_release dir start (int pages) s1 = (0, s2)" by (simp add: page_release_def)
  moreover have "pd_step dir s1 s2" "mm_phys s2 = mm_phys s1"
    "\<forall>v. user_addr v \<longrightarrow> vmap (mm_mem s2) dir v = (if in_run start pages v then None else vmap (mm_mem s1) dir v)"
    using release_loop_ok [OF pd_stepD [OF s1(2)] assms(2,3)] by (simp_all add: s2_def)
  ultimately show ?thesis using s1(2,3) by auto
qed

theorem page_direct_map_release_witness:
  "\<exists>s1 s2. page_direct_map 4096 0xB8000 0x80000000 1 6 demo_pd = Inr (0, s1)
     \<and> vmap (mm_mem s1) 4096 0x80000123 = Some 0xB8007 \<and> page_release 4096 0x80000000 1 s1 = (0, s2)
     \<and> vmap (mm_mem s2) 4096 0x80000123 = None"
proof -
  have h: "(0x80000000 :: nat) \<le> 0x80000000" "0x80000000 + 1 * 4096 \<le> (0xFE000000 :: nat)"
    "0xB8000 + 1 * 4096 \<le> (4294967296 :: nat)" "int 1 < s_freePages (mm_phys demo_pd)"
    by (simp_all add: demo_pd_def)
  have "user_addr 0x80000123" "in_run 0x80000000 1 0x80000123" by (simp_all add: user_addr_def in_run_def)
  moreover have "direct_entry (convert_paging_types 6) 0xB8000 0x80000000 0x80000123 = 0xB8007"
    by (simp add: direct_entry_def convert_paging_types_def READ_ONLY_def READ_WRITE_def USER_PAGE_def
        SYSTEM_PAGE_def PAGE_READ_ONLY_def PAGE_RDWR_def PAGE_USER_def PAGE_SUPERVISOR_def PAGE_PRESENT_def)
  ultimately show ?thesis
    using page_direct_map_release [OF demo_pd_ok h, of 6] by fastforce
qed

text \<open>
  C39: Data copied into a process with \<^verbatim>\<open>page_copy_in\<close> is what \<^verbatim>\<open>page_copy_out\<close> reads back, provided that
  the buffer is mapped to distinct bytes outside the page tables and that the kernel's two buffers
  overlap neither it nor, for the second one, the page tables. The first copy changes the bytes behind
  the buffer and nothing else.
\<close>

theorem page_copy_roundtrip:
  assumes "buffer_ok (mm_mem s) dir v n" and "src + n \<le> 4294967296" and "dest + n \<le> 4294967296"
    and "bytes src n \<inter> buffer_bytes (mm_mem s) dir v n = {}"
    and "bytes dest n \<inter> (pd_bytes (mm_mem s) dir \<union> buffer_bytes (mm_mem s) dir v n) = {}"
  shows "\<exists>s1 s2. page_copy_in dir v src (int n) s = (int n, s1) \<and> page_copy_out dir dest v (int n) s1 = (int n, s2)
    \<and> (\<forall>x. x \<notin> buffer_bytes (mm_mem s) dir v n \<longrightarrow> mm_mem s1 x = mm_mem s x)
    \<and> (\<forall>i < n. mm_mem s2 (dest + i) = mm_mem s (src + i))"
proof -
  let ?m = "mm_mem s" and ?m1 = "copy_in_loop dir v src 0 n (mm_mem s)"
  let ?m2 = "copy_out_loop dir dest v 0 n ?m1"
  have c1: "\<And>j. j < n \<Longrightarrow> ?m1 (translate ?m dir (v + j)) = ?m (src + j)"
    "\<And>x. x \<notin> buffer_bytes ?m dir v n \<Longrightarrow> ?m1 x = ?m x"
    using copy_in_loop_ok [OF assms(1,2,4), of 0 n] by (auto simp: buffer_bytes_def)
  have pd: "?m1 x = ?m x" if "x \<in> pd_bytes ?m dir" for x
    by (rule c1(2)) (use assms(1) that in \<open>auto simp: buffer_ok_def buffer_bytes_def\<close>)
  note bc = buffer_cong [where m' = ?m1, OF pd assms(1)]
  have "?m2 (dest + j) = ?m1 (translate ?m1 dir (v + j))" if "j < n" for j
    using copy_out_loop_ok [OF bc(1) assms(3), of 0 n] assms(5) bc(2,3) that by simp
  moreover have "translate ?m1 dir (v + j) = translate ?m dir (v + j)" if "j < n" for j
    by (rule walk_cong(3), erule pd) (use assms(1) that in \<open>auto simp: buffer_ok_def\<close>)
  ultimately show ?thesis
    using c1 by (simp add: page_copy_in_def page_copy_out_def)
qed

text \<open>The directory at 4096 maps the page at \<^verbatim>\<open>0x80000000\<close> to the frame at \<^verbatim>\<open>0x3000\<close>, through the table
  at \<^verbatim>\<open>0x2000\<close>.\<close>

definition demo_map :: memory where
  "demo_map = (\<lambda>_. 0)(6144 := 3, 6145 := 0x20, 8192 := 3, 8193 := 0x30, 100 := 7)"

lemma demo_map_slot: "i < 1024 \<Longrightarrow> slot demo_map 4096 i = (if i = 512 then 0x2003 else 0)"
proof (cases "i = 512")
  case True
  then show ?thesis by (simp add: slot_def ld32_def demo_map_def)
next
  case False
  assume i: "i < 1024"
  have "demo_map (4096 + 4 * i + k) = 0" if "k < 4" for k
    unfolding demo_map_def using False i that by simp
  from this [of 0] this [of 1] this [of 2] this [of 3] show ?thesis
    using False by (simp add: slot_def ld32_def)
qed

lemma demo_map_pd: "pd_bytes demo_map 4096 \<subseteq> {4096..<12288}"
proof -
  have "tables demo_map 4096 \<subseteq> {8192}"
    using demo_map_slot user_slot_less by (auto simp: tables_def frame_of_def split: if_splits)
  then show ?thesis by (auto simp: pd_bytes_def bytes_def)
qed

lemma demo_map_buffer:
  "buffer_ok demo_map 4096 0x80000000 1" "buffer_bytes demo_map 4096 0x80000000 1 = {0x3000}"
proof -
  have pd: "pd_entry demo_map 4096 0x80000000 = 0x2003"
    using demo_map_slot [of 512] by (simp add: pd_entry_slot page_table_of_def)
  then have pt: "pt_entry demo_map 4096 0x80000000 = 0x3003"
    by (simp add: pt_entry_def page_table_def frame_of_def page_entry_of_def ld32_def demo_map_def)
  then have tr: "translate demo_map 4096 0x80000000 = 0x3000"
    by (simp add: translate_def page_entry_def frame_of_def PAGE_SIZE_def)
  have "vmap demo_map 4096 0x80000000 \<noteq> None"
    using pd pt by (simp add: vmap_def page_entry_present_def present_def PAGE_PRESENT_def)
  then show "buffer_ok demo_map 4096 0x80000000 1"
    using tr demo_map_pd by (auto simp: buffer_ok_def user_addr_def inj_on_def)
  show "buffer_bytes demo_map 4096 0x80000000 1 = {0x3000}"
    using tr by (simp add: buffer_bytes_def lessThan_Suc)
qed

theorem page_copy_roundtrip_witness:
  "\<exists>s1 s2. page_copy_in 4096 0x80000000 100 1 (demo_pd\<lparr>mm_mem := demo_map\<rparr>) = (1, s1)
     \<and> page_copy_out 4096 200 0x80000000 1 s1 = (1, s2) \<and> mm_mem s2 200 = 7"
proof -
  let ?s = "demo_pd\<lparr>mm_mem := demo_map\<rparr>"
  have h: "buffer_ok (mm_mem ?s) 4096 0x80000000 1" "(100 :: nat) + 1 \<le> 4294967296" "(200 :: nat) + 1 \<le> 4294967296"
    "bytes 100 1 \<inter> buffer_bytes (mm_mem ?s) 4096 0x80000000 1 = {}"
    "bytes 200 1 \<inter> (pd_bytes (mm_mem ?s) 4096 \<union> buffer_bytes (mm_mem ?s) 4096 0x80000000 1) = {}"
    using demo_map_buffer demo_map_pd by (auto simp: bytes_def)
  have "mm_mem ?s 100 = 7" by (simp add: demo_map_def)
  with page_copy_roundtrip [OF h] show ?thesis by fastforce
qed

text \<open>
  Remark: \<^verbatim>\<open>delete_page_directory\<close> releases the wrong pages. Its loops compute \<^verbatim>\<open>position = i * PAGE_SIZE\<close>, which
  stays inside the first four megabytes, so they look only at slot 0 of the directory, the large
  page that maps the kernel. If the words at the physical addresses 2048 to 4063 do not look like
  present entries, the call releases exactly the directory itself and physical page 0, which must stay
  reserved; none of the process's page tables and none of its pages is released.
\<close>

theorem delete_page_directory_leaks:
  assumes ok: "pd_ok s dir" and id0: "slot (mm_mem s) dir 0 = identity_entry 0" and "mm_cr3 s \<noteq> dir"
    and off: "memory_offset (mm_phys s) = 0" and "0 < dir"
    and np: "\<forall>i \<in> {512..<1016}. \<not> present (ld32 (mm_mem s) (4 * i))"
  shows "\<exists>s'. delete_page_directory dir s = Inr s' \<and> \<not> null_reserved (mm_phys s')
    \<and> phys_owned (mm_phys s') = phys_owned (mm_phys s) - bytes 0 4096 - bytes dir 4096
    \<and> (\<forall>t \<in> tables (mm_mem s) dir. bytes t 4096 \<inter> bytes 0 4096 = {} \<longrightarrow> bytes t 4096 \<subseteq> phys_owned (mm_phys s'))"
proof -
  let ?m = "mm_mem s" and ?p = "mm_phys s"
  note d = ok [unfolded pd_ok_def]
  have dir: "dir mod 4096 = 0" "bytes dir 4096 \<subseteq> phys_owned ?p" using d by (auto simp: pd_bytes_def)
  have "used ?p 0" using d off by (simp add: null_reserved_def)
  then have zero: "bytes 0 4096 \<subseteq> phys_owned ?p"
    using off physmem_okD(1) [of ?p] d by (auto simp: bytes_def phys_owned_iff PAGE_SIZE_def)
  have apart: "bytes dir 4096 \<inter> bytes 0 4096 = {}" using pages_disjoint [of dir 0] dir(1) assms(5) by simp
  have e: "delete_entries dir 512 504 s = Inr s"
    by (rule delete_entries_noop [OF id0]) (use np in \<open>auto simp: user_slots_def\<close>)
  let ?s1 = "s\<lparr>mm_mem := st32 ?m dir 0\<rparr>"
  obtain p1 where p1: "free_page 0 ?s1 = Inr (?s1\<lparr>mm_phys := p1\<rparr>)" "physmem_ok p1"
    "phys_owned p1 = phys_owned ?p - bytes 0 4096" "memory_offset p1 = 0"
    using free_page_ok [of ?s1 0] d zero off by auto
  have u: "512 \<in> user_slots" by (simp add: user_slots_def)
  have t: "delete_tables dir 512 504 s = Inr (?s1\<lparr>mm_phys := p1\<rparr>)"
  proof -
    have "pd_entry ?m dir (512 * PAGE_SIZE) = identity_entry 0"
      using delete_position [OF u] id0 by (simp add: pd_entry_slot)
    then have "page_table_present ?m dir (512 * PAGE_SIZE) = 0" "page_table ?m dir (512 * PAGE_SIZE) = 0"
      using identity_entry_bits(1,4) [of 0] by (simp_all add: page_table_present_def page_table_def)
    then have "delete_tables dir 512 (Suc 503) s = delete_tables dir 513 503 (?s1\<lparr>mm_phys := p1\<rparr>)"
      unfolding delete_tables.simps(2) Let_def using p1(1) delete_position [OF u] by simp
    also have "\<dots> = Inr (?s1\<lparr>mm_phys := p1\<rparr>)"
      by (rule delete_tables_noop) (simp_all add: slot_def)
    finally show ?thesis by simp
  qed
  let ?s2 = "?s1\<lparr>mm_phys := p1\<rparr>"
  obtain p2 where p2: "free_page dir ?s2 = Inr (?s2\<lparr>mm_phys := p2\<rparr>)" "physmem_ok p2"
    "phys_owned p2 = phys_owned p1 - bytes dir 4096" "memory_offset p2 = 0"
    using free_page_ok [of ?s2 dir] p1 dir apart by auto
  have r: "delete_page_directory dir s = Inr (?s2\<lparr>mm_phys := p2\<rparr>)"
    using assms(3) e t p2(1) by (simp add: delete_page_directory_def)
  have "0 \<notin> phys_owned p2" using p1(3) p2(3) by (simp add: bytes_def)
  then have "\<not> null_reserved p2"
    using p2(4) physmem_okD(1) [OF p2(2)] by (simp add: phys_owned_iff null_reserved_def)
  moreover have "bytes t 4096 \<subseteq> phys_owned p2"
    if "t \<in> tables ?m dir" "bytes t 4096 \<inter> bytes 0 4096 = {}" for t
  proof -
    have "bytes t 4096 \<subseteq> phys_owned ?p" "t \<noteq> dir" using d that(1) by (auto simp: pd_bytes_def)
    moreover have "bytes t 4096 \<inter> bytes dir 4096 = {}"
      by (rule pages_disjoint [OF tables_aligned [OF that(1)] dir(1)]) fact
    ultimately show ?thesis using that(2) p1(3) p2(3) by auto
  qed
  ultimately show ?thesis using r p1(3) p2(3) by simp
qed

lemma demo_delete_ok:
  defines "s \<equiv> demo_pd\<lparr>mm_mem := st32 (\<lambda>_. 0) 4096 (identity_entry 0)\<rparr>"
  shows "pd_ok s 4096" and "slot (mm_mem s) 4096 0 = identity_entry 0"
    and "\<forall>i \<in> {512..<1016}. \<not> present (ld32 (mm_mem s) (4 * i))"
proof -
  show "slot (mm_mem s) 4096 0 = identity_entry 0" by (simp add: s_def slot_def)
  have z: "ld32 (mm_mem s) b = 0" if "b + 4 \<le> 4096 \<or> 4100 \<le> b" for b
    unfolding s_def using that by (simp, subst ld32_st32_other) auto
  show "\<forall>i \<in> {512..<1016}. \<not> present (ld32 (mm_mem s) (4 * i))" by (auto simp: z)
  have us: "slot (mm_mem s) 4096 i = 0" if "i \<in> user_slots" for i
    unfolding slot_def by (rule z) (use that in \<open>simp add: user_slots_def\<close>)
  then have "tables (mm_mem s) 4096 = {}" by (auto simp: tables_def)
  moreover have "pd_bytes (mm_mem demo_pd) 4096 = bytes 4096 4096"
    by (simp add: pd_bytes_def tables_def slot_def demo_pd_def)
  moreover have "mm_phys s = mm_phys demo_pd" by (simp add: s_def)
  ultimately show "pd_ok s 4096" using demo_pd_ok us by (auto simp: pd_ok_def pd_bytes_def inj_on_def)
qed

theorem delete_page_directory_leaks_witness:
  "\<exists>s'. delete_page_directory 4096 (demo_pd\<lparr>mm_mem := st32 (\<lambda>_. 0) 4096 (identity_entry 0)\<rparr>) = Inr s'
     \<and> \<not> null_reserved (mm_phys s')"
proof -
  let ?s = "demo_pd\<lparr>mm_mem := st32 (\<lambda>_. 0) 4096 (identity_entry 0)\<rparr>"
  have h: "mm_cr3 ?s \<noteq> 4096" "memory_offset (mm_phys ?s) = 0" "(0 :: nat) < 4096" by (simp_all add: demo_pd_def)
  from delete_page_directory_leaks [OF demo_delete_ok(1,2) h demo_delete_ok(3)] show ?thesis by blast
qed

end
