(* ===== verification/Vmem.thy ===== *)
theory Vmem
  imports Liballoc_Heap Strings Thread
begin

text \<open>
  The arena allocator (\<^verbatim>\<open>kernel/mm/vmem.c\<close>) from which a process's addresses are handed out. An arena
  is a list of spans, each with a table that finds the tag of an allocation, and a list of boundary
  tags in address order that cut the spans into free and allocated ranges. Free tags are also kept on
  free lists by the logarithm of their size.

  The doubly linked lists of the source are lists in link order; a pointer to a tag is the address of
  its block on the kernel heap, and a tag is on at most one free list. An arena may take its memory
  from another one (\<^verbatim>\<open>source\<close>) through the function pointers \<^verbatim>\<open>afunc\<close> and \<^verbatim>\<open>ffunc\<close>; without a pointer
  these are \<^verbatim>\<open>vm_afunc\<close> and \<^verbatim>\<open>vm_ffunc\<close>, which call the allocator on the source. Arenas live in a store,
  and a chain of sources is followed to a given depth, beyond which the call is \<open>Hang\<close>.
\<close>

section \<open>Data\<close>

definition VMEM_NAME_LENGTH :: nat where "VMEM_NAME_LENGTH = SMK_NAME_LENGTH"
definition VMEM_BESTFIT :: nat where "VMEM_BESTFIT = 1"
definition VMEM_INSTANT :: nat where "VMEM_INSTANT = 2"
definition VMEM_SEARCH :: nat where "VMEM_SEARCH = 4"
definition VMEM_FREE :: nat where "VMEM_FREE = 0"
definition VMEM_ALLOCATED :: nat where "VMEM_ALLOCATED = 1"

record vmem_bt =
  bt_self :: nat
  bt_addr :: nat
  bt_size :: nat
  bt_source_addr :: "nat option"
  bt_allocated :: nat

record vmem_span =
  sp_self :: nat
  sp_addr :: nat
  sp_size :: nat
  sp_slots :: nat
  sp_hash_ptr :: nat
  sp_hash :: "nat option list"

record vmem =
  vm_self :: nat
  vm_name :: "cchar list"
  vm_quantum :: nat
  vm_cache_max :: nat
  vm_cache_bits :: nat
  vm_afunc_ptr :: "nat option"
  vm_ffunc_ptr :: "nat option"
  vm_source :: "nat option"
  vm_tags :: "vmem_bt list"
  vm_spans :: "vmem_span list"
  vm_free_ptr :: nat
  vm_free_cache :: "nat list list"
  vm_vmflag :: nat

record 'h vmsys =
  vs_heap :: 'h
  vs_arenas :: "nat \<Rightarrow> vmem option"

definition sizeof_vmem_bt :: nat where "sizeof_vmem_bt = 32"
definition sizeof_vmem_span :: nat where "sizeof_vmem_span = 20"
definition sizeof_vmem :: nat where "sizeof_vmem = 104"

definition get_arena :: "nat \<Rightarrow> 'h vmsys \<Rightarrow> vmem kres" where
  "get_arena p s = (case vs_arenas s p of None \<Rightarrow> Inl Out_of_bounds | Some vm \<Rightarrow> Inr vm)"

definition put_arena :: "nat \<Rightarrow> vmem \<Rightarrow> 'h vmsys \<Rightarrow> 'h vmsys" where
  "put_arena p vm s = s\<lparr>vs_arenas := (vs_arenas s)(p \<mapsto> vm)\<rparr>"

definition vm_kmalloc :: "'h mm_subsystem \<Rightarrow> nat \<Rightarrow> 'h vmsys \<Rightarrow> (nat option \<times> 'h vmsys) kres" where
  "vm_kmalloc sub n s = bindR (kmalloc sub n (vs_heap s)) (\<lambda>(r, h). Inr (r, s\<lparr>vs_heap := h\<rparr>))"

definition vm_kfree :: "'h mm_subsystem \<Rightarrow> nat option \<Rightarrow> 'h vmsys \<Rightarrow> 'h vmsys kres" where
  "vm_kfree sub p s = bindR (kfree sub p (vs_heap s)) (\<lambda>h. Inr (s\<lparr>vs_heap := h\<rparr>))"

section \<open>Helpers\<close>

text \<open>The index of the span that holds an address, and of the tag behind a pointer.\<close>

fun vmem_getspan :: "vmem_span list \<Rightarrow> nat \<Rightarrow> nat option" where
  "vmem_getspan [] res = None"
| "vmem_getspan (sp # sps) res =
     (if sp_addr sp \<le> res \<and> res < u32 (sp_addr sp + sp_size sp) then Some 0
      else map_option Suc (vmem_getspan sps res))"

fun tag_index :: "vmem_bt list \<Rightarrow> nat \<Rightarrow> nat kres" where
  "tag_index [] b = Inl Out_of_bounds"
| "tag_index (t # ts) b = (if bt_self t = b then Inr 0 else bindR (tag_index ts b) (\<lambda>i. Inr (Suc i)))"

text \<open>The number of the highest bit (\<^verbatim>\<open>bsrl\<close>); there is none in 0, which fails the assertion.\<close>

fun bsr :: "nat \<Rightarrow> nat" where
  "bsr n = (if n \<le> 1 then 0 else Suc (bsr (n div 2)))"

declare bsr.simps [simp del]

definition highbit :: "nat \<Rightarrow> nat kres" where
  "highbit v = assertR (v \<noteq> 0) (Inr (bsr v))"

definition quantum_of :: "vmem \<Rightarrow> nat \<Rightarrow> nat kres" where
  "quantum_of vm n = guardR (vm_quantum vm \<noteq> 0) Div_by_zero (highbit (n div vm_quantum vm))"

definition cache_num :: "vmem \<Rightarrow> nat \<Rightarrow> int kres" where
  "cache_num vm n =
     bindR (quantum_of vm n) (\<lambda>pos. Inr (if pos \<ge> vm_cache_bits vm then -1 else int pos))"

text \<open>A tag has a neighbour on a free list.\<close>

definition fl_linked :: "nat list list \<Rightarrow> nat \<Rightarrow> bool" where
  "fl_linked fc b \<longleftrightarrow> (\<exists>l \<in> set fc. b \<in> set l \<and> 1 < length l)"

definition add_freelist :: "vmem \<Rightarrow> vmem_bt \<Rightarrow> vmem kres" where
  "add_freelist vm bt =
     bindR (quantum_of vm (bt_size bt)) (\<lambda>pos.
     assertR (\<not> fl_linked (vm_free_cache vm) (bt_self bt)) (
     bindR (aget (vm_free_cache vm) pos) (\<lambda>l.
     bindR (aput (vm_free_cache vm) pos (bt_self bt # l)) (\<lambda>fc.
     Inr (vm\<lparr>vm_free_cache := fc\<rparr>)))))"

definition rem_freelist :: "vmem \<Rightarrow> vmem_bt \<Rightarrow> vmem kres" where
  "rem_freelist vm bt =
     bindR (cache_num vm (bt_size bt)) (\<lambda>pos.
     assertR (pos \<ge> 0) (
     bindR (aget (vm_free_cache vm) (nat pos)) (\<lambda>l.
     bindR (aput (vm_free_cache vm) (nat pos) (remove1 (bt_self bt) l)) (\<lambda>fc.
     Inr (vm\<lparr>vm_free_cache := fc\<rparr>)))))"

text \<open>\<^verbatim>\<open>if ( cache_num( vmem, bt->size ) >= 0 )\<close> before each of the two.\<close>

definition when_cached :: "(vmem \<Rightarrow> vmem_bt \<Rightarrow> vmem kres) \<Rightarrow> vmem \<Rightarrow> vmem_bt \<Rightarrow> vmem kres" where
  "when_cached f vm bt = bindR (cache_num vm (bt_size bt)) (\<lambda>c. if c \<ge> 0 then f vm bt else Inr vm)"

section \<open>Destruction\<close>

fun free_tags :: "'h mm_subsystem \<Rightarrow> vmem_bt list \<Rightarrow> 'h vmsys \<Rightarrow> 'h vmsys kres" where
  "free_tags sub [] s = Inr s"
| "free_tags sub (t # ts) s = bindR (vm_kfree sub (Some (bt_self t)) s) (\<lambda>s1. free_tags sub ts s1)"

fun free_spans :: "'h mm_subsystem \<Rightarrow> vmem_span list \<Rightarrow> 'h vmsys \<Rightarrow> 'h vmsys kres" where
  "free_spans sub [] s = Inr s"
| "free_spans sub (sp # sps) s =
     bindR (vm_kfree sub (Some (sp_hash_ptr sp)) s) (\<lambda>s1.
     bindR (vm_kfree sub (Some (sp_self sp)) s1) (\<lambda>s2. free_spans sub sps s2))"

text \<open>\<^verbatim>\<open>free_cache\<close> is null until \<^verbatim>\<open>vmem_create\<close> has set it, which is before the first call.\<close>

definition vmem_destroy :: "'h mm_subsystem \<Rightarrow> nat \<Rightarrow> 'h vmsys \<Rightarrow> 'h vmsys kres" where
  "vmem_destroy sub p s =
     bindR (get_arena p s) (\<lambda>vm.
     bindR (free_tags sub (vm_tags vm) s) (\<lambda>s1.
     bindR (free_spans sub (vm_spans vm) s1) (\<lambda>s2.
     bindR (vm_kfree sub (Some (vm_free_ptr vm)) s2) (\<lambda>s3.
     bindR (vm_kfree sub (Some p) s3) (\<lambda>s4.
     Inr (s4\<lparr>vs_arenas := (vs_arenas s4)(p := None)\<rparr>))))))"

section \<open>Allocation\<close>

text \<open>Tag \<open>i\<close> is cut in two; the new tag of the requested size is the right one, \<open>i + 1\<close>.\<close>

definition vmem_al_splittag ::
  "'h mm_subsystem \<Rightarrow> vmem \<Rightarrow> nat \<Rightarrow> nat \<Rightarrow> 'h vmsys \<Rightarrow> ((bool \<times> vmem) \<times> 'h vmsys) kres" where
  "vmem_al_splittag sub vm i n s =
     bindR (vm_kmalloc sub sizeof_vmem_bt s) (\<lambda>(r, s1).
     case r of
       None \<Rightarrow> Inr ((False, vm), s1)
     | Some tmp \<Rightarrow>
         bindR (aget (vm_tags vm) i) (\<lambda>bt.
         assertR (bt_allocated bt = VMEM_FREE) (
         let bt' = bt\<lparr>bt_size := sub32 (bt_size bt) n\<rparr>;
             new = \<lparr>bt_self = tmp, bt_addr = u32 (bt_addr bt' + bt_size bt'), bt_size = n,
                    bt_source_addr = None, bt_allocated = VMEM_FREE\<rparr>
         in Inr ((True, vm\<lparr>vm_tags := take i (vm_tags vm) @ bt' # new # drop (Suc i) (vm_tags vm)\<rparr>), s1))))"

definition has_flag :: "nat \<Rightarrow> nat \<Rightarrow> bool" where
  "has_flag vmflag f \<longleftrightarrow> vmflag AND f = f"

definition better :: "vmem_bt \<Rightarrow> vmem_bt option \<Rightarrow> vmem_bt option" where
  "better bt best =
     (case best of None \<Rightarrow> Some bt | Some b \<Rightarrow> if bt_size bt < bt_size b then Some bt else best)"

fun vmem_alloc_search :: "vmem_bt list \<Rightarrow> nat \<Rightarrow> nat \<Rightarrow> vmem_bt option \<Rightarrow> vmem_bt option" where
  "vmem_alloc_search [] rsize vmflag best_bt = best_bt"
| "vmem_alloc_search (bt # ts) rsize vmflag best_bt =
     (if bt_allocated bt = VMEM_FREE \<and> bt_size bt \<ge> rsize
      then if \<not> has_flag vmflag VMEM_BESTFIT then Some bt
           else vmem_alloc_search ts rsize vmflag (better bt best_bt)
      else vmem_alloc_search ts rsize vmflag best_bt)"

text \<open>One free list of \<^verbatim>\<open>vmem_alloc_quantum\<close>: \<open>Inl bt\<close> when the function returns \<open>bt\<close> at once.\<close>

fun quantum_list ::
  "vmem_bt list \<Rightarrow> nat list \<Rightarrow> nat \<Rightarrow> nat \<Rightarrow> vmem_bt option \<Rightarrow> (vmem_bt + vmem_bt option) kres" where
  "quantum_list tags [] rsize vmflag best_bt = Inr (Inr best_bt)"
| "quantum_list tags (b # bs) rsize vmflag best_bt =
     bindR (tag_index tags b) (\<lambda>i.
     let bt = tags ! i in
     assertR (bt_allocated bt = VMEM_FREE) (
     if bt_size bt \<ge> rsize
     then if \<not> has_flag vmflag VMEM_BESTFIT then Inr (Inl bt)
          else quantum_list tags bs rsize vmflag (better bt best_bt)
     else quantum_list tags bs rsize vmflag best_bt))"

fun quantum_lists ::
  "vmem_bt list \<Rightarrow> nat list list \<Rightarrow> nat \<Rightarrow> nat \<Rightarrow> vmem_bt option \<Rightarrow> vmem_bt option kres" where
  "quantum_lists tags [] rsize vmflag best_bt = Inr best_bt"
| "quantum_lists tags (l # ls) rsize vmflag best_bt =
     bindR (quantum_list tags l rsize vmflag best_bt) (\<lambda>r.
     case r of
       Inl bt \<Rightarrow> Inr (Some bt)
     | Inr best \<Rightarrow>
         if has_flag vmflag VMEM_BESTFIT \<and> best \<noteq> None then Inr best
         else quantum_lists tags ls rsize vmflag best)"

definition vmem_alloc_quantum :: "vmem \<Rightarrow> nat \<Rightarrow> nat \<Rightarrow> vmem_bt option kres" where
  "vmem_alloc_quantum vm rsize vmflag =
     bindR (quantum_of vm rsize) (\<lambda>pos.
     let pos' = (if has_flag vmflag VMEM_INSTANT then pos + 1 else pos)
     in quantum_lists (vm_tags vm) (drop pos' (vm_free_cache vm)) rsize vmflag None)"

text \<open>
  \<^verbatim>\<open>vmem_free\<close>, with the call through \<^verbatim>\<open>ffunc\<close> as a parameter. The merge with the left and with the
  right neighbour work on the index of the tag; each returns the index of the merged tag. The arena is read
  again after the call, which may have worked on it.
\<close>

definition melt_left ::
  "'h mm_subsystem \<Rightarrow> vmem_span \<Rightarrow> vmem \<Rightarrow> nat \<Rightarrow> 'h vmsys \<Rightarrow> ((nat \<times> vmem) \<times> 'h vmsys) kres" where
  "melt_left sub span vm i s =
     (if i = 0 then Inr ((i, vm), s)
      else
        (let pv = vm_tags vm ! (i - 1); bt = vm_tags vm ! i in
         if bt_allocated pv = VMEM_FREE \<and> bt_addr pv \<ge> sp_addr span
         then
           bindR (when_cached rem_freelist vm pv) (\<lambda>vm1.
           let pv' = pv\<lparr>bt_size := u32 (bt_size pv + bt_size bt)\<rparr>;
               vm2 = vm1\<lparr>vm_tags := take (i - 1) (vm_tags vm1) @ pv' # drop (Suc i) (vm_tags vm1)\<rparr>
           in bindR (vm_kfree sub (Some (bt_self bt)) s) (\<lambda>s1. Inr ((i - 1, vm2), s1)))
         else Inr ((i, vm), s)))"

definition melt_right ::
  "'h mm_subsystem \<Rightarrow> vmem_span \<Rightarrow> vmem \<Rightarrow> nat \<Rightarrow> 'h vmsys \<Rightarrow> (vmem \<times> 'h vmsys) kres" where
  "melt_right sub span vm i s =
     (if Suc i = length (vm_tags vm) then Inr (vm, s)
      else
        (let nx = vm_tags vm ! Suc i; bt = vm_tags vm ! i in
         if bt_allocated nx = VMEM_FREE \<and> bt_addr nx < u32 (sp_addr span + sp_size span)
         then
           bindR (when_cached rem_freelist vm nx) (\<lambda>vm1.
           let bt' = bt\<lparr>bt_size := u32 (bt_size bt + bt_size nx)\<rparr>;
               vm2 = vm1\<lparr>vm_tags := take i (vm_tags vm1) @ bt' # drop (Suc (Suc i)) (vm_tags vm1)\<rparr>
           in bindR (vm_kfree sub (Some (bt_self nx)) s) (\<lambda>s1. Inr (vm2, s1)))
         else Inr (vm, s)))"

definition vmem_free_with ::
  "(vmem \<Rightarrow> nat \<Rightarrow> nat \<Rightarrow> 'h vmsys \<Rightarrow> (nat option \<times> 'h vmsys) kres) \<Rightarrow>
   'h mm_subsystem \<Rightarrow> nat \<Rightarrow> nat \<Rightarrow> 'h vmsys \<Rightarrow> (nat option \<times> 'h vmsys) kres" where
  "vmem_free_with ffunc sub p addr s =
     bindR (get_arena p s) (\<lambda>vm.
     case vmem_getspan (vm_spans vm) addr of
       None \<Rightarrow> Inr (None, s)
     | Some k \<Rightarrow>
         guardR (vm_quantum vm \<noteq> 0) Div_by_zero (
         let span = vm_spans vm ! k; slot = (addr - sp_addr span) div vm_quantum vm in
         bindR (aget (sp_hash span) slot) (\<lambda>r.
         case r of
           None \<Rightarrow> Inr (None, s)
         | Some b \<Rightarrow>
             bindR (tag_index (vm_tags vm) b) (\<lambda>i0.
             let bt0 = vm_tags vm ! i0 in
             bindR (case (vm_source vm, bt_source_addr bt0) of
                      (Some src, Some a) \<Rightarrow> ffunc vm a (bt_size bt0) s
                    | _ \<Rightarrow> Inr (None, s)) (\<lambda>(_, s1).
             bindR (get_arena p s1) (\<lambda>vm.
             bindR (tag_index (vm_tags vm) b) (\<lambda>i.
             let span = vm_spans vm ! k; bt = vm_tags vm ! i in
             bindR (aget (sp_hash span) slot) (\<lambda>r1.
             assertR (r1 \<noteq> None) (
             bindR (aput (sp_hash span) slot None) (\<lambda>hash.
             assertR (bt_allocated bt = VMEM_ALLOCATED) (
             let vm1 = vm\<lparr>vm_spans := (vm_spans vm)[k := span\<lparr>sp_hash := hash\<rparr>],
                          vm_tags := (vm_tags vm)[i := bt\<lparr>bt_allocated := VMEM_FREE\<rparr>]\<rparr>
             in bindR (melt_left sub span vm1 i s1) (\<lambda>((i', vm2), s2).
                bindR (melt_right sub span vm2 i' s2) (\<lambda>(vm3, s3).
                bindR (when_cached add_freelist vm3 (vm_tags vm3 ! i')) (\<lambda>vm4.
                Inr (Some addr, put_arena p vm4 s3)))))))))))))))"

text \<open>\<^verbatim>\<open>vm_ffunc\<close> and \<^verbatim>\<open>vm_afunc\<close> call the allocator on the source; another function is called through
  \<open>call\<close>, with its address, the source, the two remaining arguments and the state.\<close>

type_synonym 'h vm_call = "nat \<Rightarrow> nat \<Rightarrow> nat \<Rightarrow> nat \<Rightarrow> 'h vmsys \<Rightarrow> (nat option \<times> 'h vmsys) kres"

primrec vmem_free ::
  "nat \<Rightarrow> 'h vm_call \<Rightarrow> 'h mm_subsystem \<Rightarrow> nat \<Rightarrow> nat \<Rightarrow> nat \<Rightarrow> 'h vmsys \<Rightarrow> (nat option \<times> 'h vmsys) kres" where
  "vmem_free 0 call sub p addr n s = Inl Hang"
| "vmem_free (Suc d) call sub p addr n s =
     vmem_free_with
       (\<lambda>vm a sz s'. case vm_source vm of
          None \<Rightarrow> Inr (None, s')
        | Some src \<Rightarrow>
            (case vm_ffunc_ptr vm of
               None \<Rightarrow> vmem_free d call sub src a sz s'
             | Some f \<Rightarrow> call f src a sz s'))
       sub p addr s"

text \<open>The choice of a free tag in \<^verbatim>\<open>vmem_alloc\<close>.\<close>

definition pick_tag :: "vmem \<Rightarrow> nat \<Rightarrow> nat \<Rightarrow> vmem_bt option kres" where
  "pick_tag vm n vmflag =
     (if \<not> has_flag vmflag VMEM_SEARCH
      then bindR (vmem_alloc_quantum vm n vmflag) (\<lambda>r.
           case r of
             None \<Rightarrow> Inr (vmem_alloc_search (vm_tags vm) n vmflag None)
           | Some bt \<Rightarrow> Inr (Some bt))
      else Inr (vmem_alloc_search (vm_tags vm) n vmflag None))"

text \<open>
  From the chosen tag to the tag of the allocation: off its free list, cut to size, the rest back on a
  free list. When the cut fails for want of memory, \<^verbatim>\<open>bt\<close> is null and is dereferenced.
\<close>

definition take_tag ::
  "'h mm_subsystem \<Rightarrow> vmem \<Rightarrow> vmem_bt \<Rightarrow> nat \<Rightarrow> 'h vmsys \<Rightarrow> ((nat \<times> vmem) \<times> 'h vmsys) kres" where
  "take_tag sub vm bt n s =
     assertR (bt_allocated bt = VMEM_FREE) (
     bindR (tag_index (vm_tags vm) (bt_self bt)) (\<lambda>i.
     bindR (when_cached rem_freelist vm bt) (\<lambda>vm1.
     if sub32 (bt_size bt) n \<ge> vm_quantum vm
     then
       bindR (vmem_al_splittag sub vm1 i n s) (\<lambda>((ok, vm2), s1).
       bindR (when_cached add_freelist vm2 (vm_tags vm2 ! i)) (\<lambda>vm3.
       guardR ok Null_deref (Inr ((Suc i, vm3), s1))))
     else Inr ((i, vm1), s))))"

text \<open>Marking the tag and entering it into the table of its span.\<close>

definition mark_tag :: "vmem \<Rightarrow> nat \<Rightarrow> vmem kres" where
  "mark_tag vm i =
     (let bt = (vm_tags vm ! i)\<lparr>bt_allocated := VMEM_ALLOCATED\<rparr> in
      case vmem_getspan (vm_spans vm) (bt_addr bt) of
        None \<Rightarrow> Inl Assert_failed
      | Some k \<Rightarrow>
          (let span = vm_spans vm ! k; slot = (bt_addr bt - sp_addr span) div vm_quantum vm in
           bindR (aget (sp_hash span) slot) (\<lambda>r.
           assertR (r = None) (
           bindR (aput (sp_hash span) slot (Some (bt_self bt))) (\<lambda>hash.
           Inr (vm\<lparr>vm_tags := (vm_tags vm)[i := bt],
                   vm_spans := (vm_spans vm)[k := span\<lparr>sp_hash := hash\<rparr>]\<rparr>))))))"

definition round_size :: "vmem \<Rightarrow> nat \<Rightarrow> nat" where
  "round_size vm rsize =
     (if rsize mod vm_quantum vm \<noteq> 0
      then u32 (rsize + (vm_quantum vm - rsize mod vm_quantum vm)) else rsize)"

primrec vmem_alloc ::
  "nat \<Rightarrow> 'h vm_call \<Rightarrow> 'h vm_call \<Rightarrow> 'h mm_subsystem \<Rightarrow> nat \<Rightarrow> nat \<Rightarrow> nat \<Rightarrow> 'h vmsys \<Rightarrow>
     (nat option \<times> 'h vmsys) kres" where
  "vmem_alloc 0 acall fcall sub p rsize vmflag s = Inl Hang"
| "vmem_alloc (Suc d) acall fcall sub p rsize vmflag s =
     bindR (get_arena p s) (\<lambda>vm.
     if rsize = 0 then Inr (None, s)
     else
       guardR (vm_quantum vm \<noteq> 0) Div_by_zero (
       let n = round_size vm rsize in
       bindR (pick_tag vm n vmflag) (\<lambda>r.
       case r of
         None \<Rightarrow> Inr (None, s)
       | Some bt \<Rightarrow>
           bindR (take_tag sub vm bt n s) (\<lambda>((i, vm1), s1).
           bindR (mark_tag vm1 i) (\<lambda>vm2.
           let bt = vm_tags vm2 ! i; s2 = put_arena p vm2 s1 in
           case vm_source vm2 of
             None \<Rightarrow> Inr (Some (bt_addr bt), s2)
           | Some src \<Rightarrow>
               bindR (case vm_afunc_ptr vm2 of
                        None \<Rightarrow> vmem_alloc d acall fcall sub src (bt_size bt) vmflag s2
                      | Some f \<Rightarrow> acall f src (bt_size bt) vmflag s2) (\<lambda>(sa, s3).
               bindR (get_arena p s3) (\<lambda>vm3.
               let s4 = put_arena p
                          (vm3\<lparr>vm_tags := (vm_tags vm3)[i := (vm_tags vm3 ! i)\<lparr>bt_source_addr := sa\<rparr>]\<rparr>) s3
               in case sa of
                    None \<Rightarrow>
                      bindR (vmem_free (Suc d) fcall sub p (bt_addr bt) rsize s4) (\<lambda>(_, s5). Inr (None, s5))
                  | Some _ \<Rightarrow> Inr (Some (bt_addr bt), s4))))))))"

text \<open>Both of these fail an assertion that can never hold.\<close>

definition vmem_xalloc :: "nat \<Rightarrow> 'h vmsys \<Rightarrow> (nat option \<times> 'h vmsys) kres" where
  "vmem_xalloc p s = Inl Assert_failed"

definition vmem_xfree :: "nat \<Rightarrow> 'h vmsys \<Rightarrow> 'h vmsys kres" where
  "vmem_xfree p s = Inl Assert_failed"

section \<open>Growth and creation\<close>

text \<open>A new element goes before the first one whose address is not smaller.\<close>

fun insert_span :: "vmem_span \<Rightarrow> vmem_span list \<Rightarrow> vmem_span list" where
  "insert_span x [] = [x]"
| "insert_span x (y # ys) = (if sp_addr y \<ge> sp_addr x then x # y # ys else y # insert_span x ys)"

fun insert_tag :: "vmem_bt \<Rightarrow> vmem_bt list \<Rightarrow> vmem_bt list" where
  "insert_tag x [] = [x]"
| "insert_tag x (y # ys) = (if bt_addr y \<ge> bt_addr x then x # y # ys else y # insert_tag x ys)"

text \<open>\<^verbatim>\<open>source_addr\<close> of the new tag stays indeterminate; it is written before it is read.\<close>

definition vmem_add ::
  "'h mm_subsystem \<Rightarrow> nat \<Rightarrow> nat \<Rightarrow> nat \<Rightarrow> 'h vmsys \<Rightarrow> (nat option \<times> 'h vmsys) kres" where
  "vmem_add sub p addr n s =
     bindR (get_arena p s) (\<lambda>vm.
     assertR (n > 0) (
     guardR (vm_quantum vm \<noteq> 0) Div_by_zero (
     assertR (n mod vm_quantum vm = 0) (
     assertR (u32 (addr + n) > addr) (
     bindR (vm_kmalloc sub sizeof_vmem_span s) (\<lambda>(r, s1).
     case r of
       None \<Rightarrow> Inr (None, s1)
     | Some sp \<Rightarrow>
         (let slots = n div vm_quantum vm in
          bindR (vm_kmalloc sub (u32 (slots * 4)) s1) (\<lambda>(r2, s2).
          case r2 of
            None \<Rightarrow> bindR (vm_kfree sub (Some sp) s2) (\<lambda>s3. Inr (None, s3))
          | Some hp \<Rightarrow>
              bindR (vm_kmalloc sub sizeof_vmem_bt s2) (\<lambda>(r3, s3).
              case r3 of
                None \<Rightarrow>
                  bindR (vm_kfree sub (Some hp) s3) (\<lambda>s4.
                  bindR (vm_kfree sub (Some sp) s4) (\<lambda>s5. Inr (None, s5)))
              | Some b \<Rightarrow>
                  (let span = \<lparr>sp_self = sp, sp_addr = addr, sp_size = n, sp_slots = slots,
                               sp_hash_ptr = hp, sp_hash = replicate (u32 (slots * 4) div 4) None\<rparr>;
                       bt = \<lparr>bt_self = b, bt_addr = addr, bt_size = n, bt_source_addr = None,
                             bt_allocated = VMEM_FREE\<rparr>;
                       vm1 = vm\<lparr>vm_spans := insert_span span (vm_spans vm),
                                vm_tags := insert_tag bt (vm_tags vm)\<rparr>
                   in bindR (when_cached add_freelist vm1 bt) (\<lambda>vm2.
                      Inr (Some addr, put_arena p vm2 s3))))))))))))"

definition vmem_create ::
  "'h mm_subsystem \<Rightarrow> cchar list \<Rightarrow> nat \<Rightarrow> nat \<Rightarrow> nat \<Rightarrow> nat option \<Rightarrow> nat option \<Rightarrow> nat option \<Rightarrow>
     nat \<Rightarrow> nat \<Rightarrow> 'h vmsys \<Rightarrow> (nat option \<times> 'h vmsys) kres" where
  "vmem_create sub name base n quantum afunc ffunc source qcache_max vmflag s =
     bindR (vm_kmalloc sub sizeof_vmem s) (\<lambda>(r, s1).
     case r of
       None \<Rightarrow> Inr (None, s1)
     | Some p \<Rightarrow>
         bindR (kstrncpy (replicate VMEM_NAME_LENGTH 0) name VMEM_NAME_LENGTH) (\<lambda>nm.
         guardR (quantum \<noteq> 0) Div_by_zero (
         bindR (highbit (qcache_max div quantum)) (\<lambda>hb.
         let bits = hb + 1 in
         bindR (vm_kmalloc sub (4 * bits) s1) (\<lambda>(r2, s2).
         case r2 of
           None \<Rightarrow> bindR (vm_kfree sub (Some p) s2) (\<lambda>s3. Inr (None, s3))
         | Some fp \<Rightarrow>
             (let vm = \<lparr>vm_self = p, vm_name = nm, vm_quantum = quantum, vm_cache_max = qcache_max,
                        vm_cache_bits = bits, vm_afunc_ptr = afunc, vm_ffunc_ptr = ffunc,
                        vm_source = source, vm_tags = [], vm_spans = [], vm_free_ptr = fp,
                        vm_free_cache = replicate bits [], vm_vmflag = vmflag\<rparr>;
                  s3 = put_arena p vm s2
              in if n > 0
                 then bindR (vmem_add sub p base n s3) (\<lambda>(r3, s4).
                      if (case r3 of None \<Rightarrow> 0 | Some a \<Rightarrow> a) \<noteq> base
                      then bindR (vmem_destroy sub p s4) (\<lambda>s5. Inr (None, s5))
                      else Inr (Some p, s4))
                 else Inr (Some p, s3)))))))"

end
