(* ===== verification/Vmem_Arena.thy ===== *)
theory Vmem_Arena
  imports Vmem
begin

text \<open>
  The invariant of an arena and what the steps of \<^verbatim>\<open>vmem_alloc\<close> and \<^verbatim>\<open>vmem_free\<close> do to it. The tags of
  a span tile it in address order, the table of a span finds exactly its allocated tags, and free
  list \<open>i\<close> holds exactly the free tags whose size has its highest bit at \<open>i\<close>, except the tags
  \<open>X\<close> that an operation has in its hands. An arena is \<open>coalesced\<close> when no two free tags of one span are
  neighbours; \<open>free_in\<close> is the list of tags after a release, with both merges.
\<close>

section \<open>The invariant\<close>

abbreviation bt_end :: "vmem_bt \<Rightarrow> nat" where
  "bt_end t \<equiv> bt_addr t + bt_size t"

definition spans_ok :: "nat \<Rightarrow> vmem_span list \<Rightarrow> bool" where
  "spans_ok q sps \<longleftrightarrow>
     sorted_wrt (\<lambda>x y. sp_addr x + sp_size x \<le> sp_addr y) sps
     \<and> (\<forall>sp \<in> set sps. q dvd sp_size sp \<and> sp_addr sp + sp_size sp < 4294967296
          \<and> length (sp_hash sp) = sp_size sp div q)"

definition tag_ok :: "nat \<Rightarrow> vmem_span list \<Rightarrow> vmem_bt \<Rightarrow> bool" where
  "tag_ok q sps t \<longleftrightarrow>
     0 < bt_size t \<and> q dvd bt_size t \<and> (bt_allocated t = VMEM_FREE \<or> bt_allocated t = VMEM_ALLOCATED)
     \<and> (case vmem_getspan sps (bt_addr t) of
          None \<Rightarrow> False
        | Some k \<Rightarrow> sp_addr (sps ! k) \<le> bt_addr t \<and> bt_end t \<le> sp_addr (sps ! k) + sp_size (sps ! k)
            \<and> q dvd bt_addr t - sp_addr (sps ! k))"

text \<open>The tag \<open>u\<close> may follow the tag \<open>t\<close>: without a gap when they are in the same span.\<close>

definition follows :: "vmem_span list \<Rightarrow> vmem_bt \<Rightarrow> vmem_bt \<Rightarrow> bool" where
  "follows sps t u \<longleftrightarrow>
     bt_end t \<le> bt_addr u
     \<and> (vmem_getspan sps (bt_addr t) = vmem_getspan sps (bt_addr u) \<longrightarrow> bt_end t = bt_addr u)"

definition tags_ok :: "nat \<Rightarrow> vmem_span list \<Rightarrow> vmem_bt list \<Rightarrow> bool" where
  "tags_ok q sps ts \<longleftrightarrow>
     distinct (map bt_self ts) \<and> (\<forall>t \<in> set ts. tag_ok q sps t) \<and> successively (follows sps) ts"

definition hash_ok :: "nat \<Rightarrow> vmem_span list \<Rightarrow> vmem_bt list \<Rightarrow> bool" where
  "hash_ok q sps ts \<longleftrightarrow>
     (\<forall>k < length sps. \<forall>j < sp_size (sps ! k) div q. \<forall>b. sp_hash (sps ! k) ! j = Some b \<longleftrightarrow>
        (\<exists>t \<in> set ts. bt_self t = b \<and> bt_allocated t = VMEM_ALLOCATED \<and> bt_addr t = sp_addr (sps ! k) + j * q))"

definition freelist_ok :: "vmem \<Rightarrow> nat set \<Rightarrow> bool" where
  "freelist_ok vm X \<longleftrightarrow>
     length (vm_free_cache vm) = vm_cache_bits vm
     \<and> (\<forall>pos < vm_cache_bits vm. distinct (vm_free_cache vm ! pos))
     \<and> (\<forall>pos < vm_cache_bits vm. \<forall>b. b \<in> set (vm_free_cache vm ! pos) \<longleftrightarrow>
          (\<exists>t \<in> set (vm_tags vm). bt_self t = b \<and> b \<notin> X \<and> bt_allocated t = VMEM_FREE
             \<and> bsr (bt_size t div vm_quantum vm) = pos))"

definition arena_ok :: "vmem \<Rightarrow> nat set \<Rightarrow> bool" where
  "arena_ok vm X \<longleftrightarrow>
     0 < vm_quantum vm \<and> spans_ok (vm_quantum vm) (vm_spans vm)
     \<and> tags_ok (vm_quantum vm) (vm_spans vm) (vm_tags vm)
     \<and> hash_ok (vm_quantum vm) (vm_spans vm) (vm_tags vm) \<and> freelist_ok vm X"

text \<open>The abstract view: the allocated ranges.\<close>

definition allocs :: "vmem \<Rightarrow> (nat \<times> nat) set" where
  "allocs vm = (\<lambda>t. (bt_addr t, bt_size t)) ` set (filter (\<lambda>t. bt_allocated t = VMEM_ALLOCATED) (vm_tags vm))"

section \<open>Spans\<close>

lemma getspan_Some:
  "vmem_getspan sps a = Some k \<Longrightarrow>
   k < length sps \<and> sp_addr (sps ! k) \<le> a \<and> a < u32 (sp_addr (sps ! k) + sp_size (sps ! k))"
  by (induction sps arbitrary: k) (auto split: if_splits)

lemma getspan_inside:
  assumes "spans_ok q sps" and "k < length sps" and "sp_addr (sps ! k) \<le> a"
    and "a < sp_addr (sps ! k) + sp_size (sps ! k)"
  shows "vmem_getspan sps a = Some k"
proof -
  have gen: "sorted_wrt (\<lambda>x y. sp_addr x + sp_size x \<le> sp_addr y) sps \<Longrightarrow>
    (\<forall>sp \<in> set sps. sp_addr sp + sp_size sp < 4294967296) \<Longrightarrow> k < length sps \<Longrightarrow>
    sp_addr (sps ! k) \<le> a \<Longrightarrow> a < sp_addr (sps ! k) + sp_size (sps ! k) \<Longrightarrow> vmem_getspan sps a = Some k"
  proof (induction sps arbitrary: k)
    case (Cons sp sps)
    show ?case
    proof (cases k)
      case 0
      then show ?thesis using Cons.prems by simp
    next
      case (Suc n)
      then have "sps ! n \<in> set sps" using Cons.prems(3) by simp
      then have "sp_addr sp + sp_size sp \<le> a" using Cons.prems(1,4) Suc by fastforce
      then show ?thesis using Cons.IH [of n] Cons.prems Suc by simp
    qed
  qed simp
  show ?thesis using gen assms by (auto simp: spans_ok_def)
qed

text \<open>The table entry of an address is found in the span of the address.\<close>

lemma slot_unique:
  assumes "spans_ok q sps" and "0 < q" and "k < length sps" and "j < sp_size (sps ! k) div q"
    and "k' < length sps" and "j' < sp_size (sps ! k') div q"
    and "sp_addr (sps ! k) + j * q = sp_addr (sps ! k') + j' * q"
  shows "k = k' \<and> j = j'"
proof -
  have in_span: "sp_addr (sps ! l) + i * q < sp_addr (sps ! l) + sp_size (sps ! l)"
    if "i < sp_size (sps ! l) div q" for l i
  proof -
    have "Suc i * q \<le> sp_size (sps ! l) div q * q" using that by (intro mult_right_mono) simp_all
    also have "\<dots> \<le> sp_size (sps ! l)" by simp
    finally show ?thesis using assms(2) by simp
  qed
  have "vmem_getspan sps (sp_addr (sps ! k) + j * q) = Some k"
    by (rule getspan_inside [OF assms(1,3)]) (use in_span [OF assms(4)] in simp_all)
  moreover have "vmem_getspan sps (sp_addr (sps ! k') + j' * q) = Some k'"
    by (rule getspan_inside [OF assms(1,5)]) (use in_span [OF assms(6)] in simp_all)
  ultimately have "k = k'" using assms(7) by simp
  then show ?thesis using assms(2,7) by simp
qed

lemma getspan_hash_update:
  "k < length sps \<Longrightarrow> vmem_getspan (sps[k := (sps ! k)\<lparr>sp_hash := h\<rparr>]) a = vmem_getspan sps a"
proof (induction sps arbitrary: k)
  case (Cons sp sps)
  then show ?case by (cases k) auto
qed simp

section \<open>Tags\<close>

lemma tags_sorted:
  "successively (follows sps) ts \<Longrightarrow> sorted_wrt (\<lambda>t u. bt_end t \<le> bt_addr u) ts"
proof (induction ts)
  case (Cons t ts)
  show ?case
  proof (cases ts)
    case (Cons u us)
    have "bt_end t \<le> bt_addr u" "sorted_wrt (\<lambda>t u. bt_end t \<le> bt_addr u) ts"
      using Cons.prems Cons.IH Cons by (auto simp: follows_def)
    then show ?thesis using Cons by fastforce
  qed simp
qed simp

text \<open>Different tags are disjoint ranges.\<close>

lemma tags_disjoint:
  assumes "tags_ok q sps ts" and "t \<in> set ts" and "u \<in> set ts" and "t \<noteq> u"
  shows "bt_end t \<le> bt_addr u \<or> bt_end u \<le> bt_addr t"
proof -
  from assms(2,3) obtain i j where ij: "i < length ts" "ts ! i = t" "j < length ts" "ts ! j = u"
    by (auto simp: in_set_conv_nth)
  with assms(4) have "i < j \<or> j < i" by (cases i j rule: linorder_cases) auto
  moreover have "sorted_wrt (\<lambda>t u. bt_end t \<le> bt_addr u) ts"
    using assms(1) by (auto simp: tags_ok_def intro: tags_sorted)
  ultimately show ?thesis using ij by (auto dest: sorted_wrt_nth_less)
qed

lemma tags_same_addr:
  assumes "tags_ok q sps ts" and "t \<in> set ts" and "u \<in> set ts" and "bt_addr t = bt_addr u"
  shows "t = u"
proof (rule ccontr)
  assume "t \<noteq> u"
  from tags_disjoint [OF assms(1-3) this] assms show False by (fastforce simp: tags_ok_def tag_ok_def)
qed

lemma tag_index_ok:
  "distinct (map bt_self ts) \<Longrightarrow> i < length ts \<Longrightarrow> tag_index ts (bt_self (ts ! i)) = Inr i"
proof (induction ts arbitrary: i)
  case (Cons t ts)
  show ?case
  proof (cases i)
    case (Suc n)
    then have "bt_self (ts ! n) \<in> bt_self ` set ts" using Cons.prems by simp
    then have "bt_self t \<noteq> bt_self (ts ! n)" using Cons.prems by auto
    then show ?thesis using Cons Suc by simp
  qed simp
qed simp

text \<open>What a tag needs of its surroundings.\<close>

lemma follows_left: "bt_addr u = bt_addr u' \<Longrightarrow> follows sps t u = follows sps t u'"
  by (simp add: follows_def)

lemma follows_right:
  "bt_end t = bt_end t' \<Longrightarrow> vmem_getspan sps (bt_addr t) = vmem_getspan sps (bt_addr t') \<Longrightarrow>
   follows sps t u = follows sps t' u"
  by (simp add: follows_def)

text \<open>Replacing a tag by two that cover it, and two neighbours of the same span by one.\<close>

lemma tags_ok_split:
  assumes ok: "tags_ok q sps (xs @ t # ys)"
    and new: "bt_self t1 = bt_self t" "bt_self t2 \<notin> bt_self ` set (xs @ t # ys)"
    and ad: "bt_addr t1 = bt_addr t" "bt_end t1 = bt_addr t2" "bt_end t2 = bt_end t"
    and tk: "tag_ok q sps t1" "tag_ok q sps t2" "vmem_getspan sps (bt_addr t2) = vmem_getspan sps (bt_addr t)"
  shows "tags_ok q sps (xs @ t1 # t2 # ys)"
proof -
  have s: "successively (follows sps) (xs @ t # ys)" using ok by (simp add: tags_ok_def)
  have "follows sps t1 t2" using ad tk(3) by (simp add: follows_def)
  moreover have "follows sps (last xs) t1 = follows sps (last xs) t" by (rule follows_left) (rule ad)
  moreover have "follows sps t2 (hd ys) = follows sps t (hd ys)" by (rule follows_right) (simp_all add: ad tk)
  ultimately have "successively (follows sps) (xs @ t1 # t2 # ys)"
    using s by (cases ys) (auto simp: successively_append_iff)
  then show ?thesis using ok new tk(1,2) by (auto simp: tags_ok_def)
qed

lemma tags_ok_melt:
  assumes ok: "tags_ok q sps (xs @ t1 # t2 # ys)"
    and t: "bt_self t = bt_self t1" "bt_addr t = bt_addr t1" "bt_end t = bt_end t2" "tag_ok q sps t"
    and sp: "vmem_getspan sps (bt_addr t2) = vmem_getspan sps (bt_addr t1)"
  shows "tags_ok q sps (xs @ t # ys)"
proof -
  have s: "successively (follows sps) (xs @ t1 # t2 # ys)" using ok by (simp add: tags_ok_def)
  have "follows sps (last xs) t1 = follows sps (last xs) t" by (rule follows_left) (simp add: t)
  moreover have "follows sps t2 (hd ys) = follows sps t (hd ys)" by (rule follows_right) (use t(2,3) sp in simp_all)
  ultimately have "successively (follows sps) (xs @ t # ys)"
    using s by (cases ys) (auto simp: successively_append_iff)
  then show ?thesis using ok t(1,4) by (simp add: tags_ok_def)
qed

text \<open>Replacing a tag by one of the same range.\<close>

lemma tags_ok_replace:
  assumes ok: "tags_ok q sps (xs @ t # ys)"
    and t': "bt_self t' = bt_self t" "bt_addr t' = bt_addr t" "bt_size t' = bt_size t" "tag_ok q sps t'"
  shows "tags_ok q sps (xs @ t' # ys)"
proof -
  have s: "successively (follows sps) (xs @ t # ys)" using ok by (simp add: tags_ok_def)
  have "follows sps (last xs) t' = follows sps (last xs) t" by (rule follows_left) (simp add: t')
  moreover have "follows sps t' (hd ys) = follows sps t (hd ys)" by (rule follows_right) (simp_all add: t')
  ultimately have "successively (follows sps) (xs @ t' # ys)"
    using s by (cases ys) (auto simp: successively_append_iff)
  then show ?thesis using ok t' by (auto simp: tags_ok_def)
qed

lemma two_neighbours:
  "Suc j < length xs \<Longrightarrow> xs = take j xs @ xs ! j # xs ! Suc j # drop (Suc (Suc j)) xs"
  by (simp add: Cons_nth_drop_Suc)

section \<open>Views of the tags\<close>

definition alloc_view :: "vmem_bt list \<Rightarrow> (nat \<times> nat) set" where
  "alloc_view ts = (\<lambda>t. (bt_self t, bt_addr t)) ` set (filter (\<lambda>t. bt_allocated t = VMEM_ALLOCATED) ts)"

definition free_view :: "vmem_bt list \<Rightarrow> nat set \<Rightarrow> (nat \<times> nat) set" where
  "free_view ts X =
     (\<lambda>t. (bt_self t, bt_size t)) ` set (filter (\<lambda>t. bt_self t \<notin> X \<and> bt_allocated t = VMEM_FREE) ts)"

lemma alloc_view_iff:
  "(b, a) \<in> alloc_view ts \<longleftrightarrow> (\<exists>t \<in> set ts. bt_self t = b \<and> bt_allocated t = VMEM_ALLOCATED \<and> bt_addr t = a)"
  by (auto simp: alloc_view_def)

lemma hash_ok_view:
  "hash_ok q sps ts \<longleftrightarrow>
     (\<forall>k < length sps. \<forall>j < sp_size (sps ! k) div q. \<forall>b. sp_hash (sps ! k) ! j = Some b \<longleftrightarrow>
        (b, sp_addr (sps ! k) + j * q) \<in> alloc_view ts)"
  unfolding hash_ok_def alloc_view_iff by (rule refl)

lemma freelist_ok_view:
  "freelist_ok vm X \<longleftrightarrow>
     length (vm_free_cache vm) = vm_cache_bits vm
     \<and> (\<forall>pos < vm_cache_bits vm. distinct (vm_free_cache vm ! pos))
     \<and> (\<forall>pos < vm_cache_bits vm. \<forall>b. b \<in> set (vm_free_cache vm ! pos) \<longleftrightarrow>
          (\<exists>n. (b, n) \<in> free_view (vm_tags vm) X \<and> bsr (n div vm_quantum vm) = pos))"
  unfolding freelist_ok_def free_view_def by (auto 0 4)

lemma freelist_cong:
  "freelist_ok vm X \<Longrightarrow> free_view ts Y = free_view (vm_tags vm) X \<Longrightarrow> freelist_ok (vm\<lparr>vm_tags := ts\<rparr>) Y"
  by (simp add: freelist_ok_view)

lemma freelist_spans [simp]: "freelist_ok (vm\<lparr>vm_spans := sps\<rparr>) X = freelist_ok vm X"
  by (simp add: freelist_ok_view)

lemma VMEM_neq [simp]: "VMEM_FREE \<noteq> VMEM_ALLOCATED" "VMEM_ALLOCATED \<noteq> VMEM_FREE"
  by (simp_all add: VMEM_FREE_def VMEM_ALLOCATED_def)

lemma free_view_unique:
  assumes "distinct (map bt_self ts)" and "t \<in> set ts" and "(bt_self t, n) \<in> free_view ts X"
  shows "n = bt_size t"
  using assms by (auto simp: free_view_def distinct_map dest: inj_onD)

section \<open>Free lists\<close>

lemma tag_quantum:
  assumes "0 < vm_quantum vm" and "0 < n" and "vm_quantum vm dvd n"
  shows "quantum_of vm n = Inr (bsr (n div vm_quantum vm))"
  using assms by (auto simp: quantum_of_def highbit_def elim!: dvdE)

lemma rem_freelist_ok:
  assumes fl: "freelist_ok vm X" and d: "distinct (map bt_self (vm_tags vm))" "t \<in> set (vm_tags vm)"
    and q: "0 < vm_quantum vm" "0 < bt_size t" "vm_quantum vm dvd bt_size t"
  shows "\<exists>fc. when_cached rem_freelist vm t = Inr (vm\<lparr>vm_free_cache := fc\<rparr>)
    \<and> freelist_ok (vm\<lparr>vm_free_cache := fc\<rparr>) (insert (bt_self t) X)"
proof -
  let ?pos = "bsr (bt_size t div vm_quantum vm)" and ?b = "bt_self t" and ?fc = "vm_free_cache vm"
  have c: "cache_num vm (bt_size t) = Inr (if ?pos \<ge> vm_cache_bits vm then -1 else int ?pos)"
    using tag_quantum [OF q] by (simp add: cache_num_def)
  have fv: "free_view (vm_tags vm) (insert ?b X) = free_view (vm_tags vm) X - {?b} \<times> UNIV"
    by (auto simp: free_view_def)
  have fl': "length ?fc = vm_cache_bits vm" "\<And>pos. pos < vm_cache_bits vm \<Longrightarrow> distinct (?fc ! pos)"
    "\<And>pos b. pos < vm_cache_bits vm \<Longrightarrow> b \<in> set (?fc ! pos) \<longleftrightarrow>
       (\<exists>n. (b, n) \<in> free_view (vm_tags vm) X \<and> bsr (n div vm_quantum vm) = pos)"
    using fl by (auto simp: freelist_ok_view)
  have only: "?b \<notin> set (?fc ! pos)" if "pos < vm_cache_bits vm" "pos \<noteq> ?pos" for pos
    using fl'(3) [OF that(1)] that(2) free_view_unique [OF d] by blast
  show ?thesis
  proof (cases "?pos \<ge> vm_cache_bits vm")
    case True
    then have "when_cached rem_freelist vm t = Inr (vm\<lparr>vm_free_cache := ?fc\<rparr>)"
      using c by (simp add: when_cached_def)
    moreover have "b \<noteq> ?b" if "(b, n) \<in> free_view (vm_tags vm) X" "bsr (n div vm_quantum vm) < vm_cache_bits vm" for b n
      using free_view_unique [OF d] that True by fastforce
    then have "freelist_ok (vm\<lparr>vm_free_cache := ?fc\<rparr>) (insert ?b X)"
      unfolding freelist_ok_view using fl' by (auto simp: fv)
    ultimately show ?thesis by blast
  next
    case False
    let ?fc' = "?fc[?pos := remove1 ?b (?fc ! ?pos)]"
    have "when_cached rem_freelist vm t = Inr (vm\<lparr>vm_free_cache := ?fc'\<rparr>)"
      using c False fl'(1) by (simp add: when_cached_def rem_freelist_def)
    moreover have "freelist_ok (vm\<lparr>vm_free_cache := ?fc'\<rparr>) (insert ?b X)"
      unfolding freelist_ok_view
    proof (intro conjI allI impI)
      fix pos b assume "pos < vm_cache_bits (vm\<lparr>vm_free_cache := ?fc'\<rparr>)"
      then have p: "pos < vm_cache_bits vm" by simp
      show "b \<in> set (vm_free_cache (vm\<lparr>vm_free_cache := ?fc'\<rparr>) ! pos) \<longleftrightarrow>
        (\<exists>n. (b, n) \<in> free_view (vm_tags (vm\<lparr>vm_free_cache := ?fc'\<rparr>)) (insert ?b X)
           \<and> bsr (n div vm_quantum (vm\<lparr>vm_free_cache := ?fc'\<rparr>)) = pos)"
        using fl'(1) fl'(2,3) [OF p] only [OF p] p by (cases "pos = ?pos") (auto simp: fv nth_list_update)
    qed (use fl' False in \<open>auto simp: nth_list_update intro: distinct_remove1\<close>)
    ultimately show ?thesis by blast
  qed
qed

lemma add_freelist_ok:
  assumes fl: "freelist_ok vm X" and d: "distinct (map bt_self (vm_tags vm))" "t \<in> set (vm_tags vm)"
    and t: "bt_allocated t = VMEM_FREE" "bt_self t \<in> X"
    and q: "0 < vm_quantum vm" "0 < bt_size t" "vm_quantum vm dvd bt_size t"
  shows "\<exists>fc. when_cached add_freelist vm t = Inr (vm\<lparr>vm_free_cache := fc\<rparr>)
    \<and> freelist_ok (vm\<lparr>vm_free_cache := fc\<rparr>) (X - {bt_self t})"
proof -
  let ?pos = "bsr (bt_size t div vm_quantum vm)" and ?b = "bt_self t" and ?fc = "vm_free_cache vm"
  have c: "cache_num vm (bt_size t) = Inr (if ?pos \<ge> vm_cache_bits vm then -1 else int ?pos)"
    using tag_quantum [OF q] by (simp add: cache_num_def)
  have fv: "free_view (vm_tags vm) (X - {?b}) = insert (?b, bt_size t) (free_view (vm_tags vm) X)"
    using d t by (auto simp: free_view_def distinct_map dest: inj_onD)
  have fl': "length ?fc = vm_cache_bits vm" "\<And>pos. pos < vm_cache_bits vm \<Longrightarrow> distinct (?fc ! pos)"
    "\<And>pos b. pos < vm_cache_bits vm \<Longrightarrow> b \<in> set (?fc ! pos) \<longleftrightarrow>
       (\<exists>n. (b, n) \<in> free_view (vm_tags vm) X \<and> bsr (n div vm_quantum vm) = pos)"
    using fl by (auto simp: freelist_ok_view)
  have no: "?b \<notin> set (?fc ! pos)" if "pos < vm_cache_bits vm" for pos
    using fl'(3) [OF that] t(2) by (auto simp: free_view_def)
  show ?thesis
  proof (cases "?pos \<ge> vm_cache_bits vm")
    case True
    then have "when_cached add_freelist vm t = Inr (vm\<lparr>vm_free_cache := ?fc\<rparr>)"
      using c by (simp add: when_cached_def)
    moreover have "freelist_ok (vm\<lparr>vm_free_cache := ?fc\<rparr>) (X - {?b})"
      unfolding freelist_ok_view using fl' True by (auto simp: fv)
    ultimately show ?thesis by blast
  next
    case False
    let ?fc' = "?fc[?pos := ?b # (?fc ! ?pos)]"
    have "\<not> fl_linked ?fc ?b" using no fl'(1) by (auto simp: fl_linked_def in_set_conv_nth)
    then have "when_cached add_freelist vm t = Inr (vm\<lparr>vm_free_cache := ?fc'\<rparr>)"
      using c False fl'(1) tag_quantum [OF q] by (simp add: when_cached_def add_freelist_def)
    moreover have "freelist_ok (vm\<lparr>vm_free_cache := ?fc'\<rparr>) (X - {?b})"
      unfolding freelist_ok_view
    proof (intro conjI allI impI)
      fix pos b assume "pos < vm_cache_bits (vm\<lparr>vm_free_cache := ?fc'\<rparr>)"
      then have p: "pos < vm_cache_bits vm" by simp
      show "b \<in> set (vm_free_cache (vm\<lparr>vm_free_cache := ?fc'\<rparr>) ! pos) \<longleftrightarrow>
        (\<exists>n. (b, n) \<in> free_view (vm_tags (vm\<lparr>vm_free_cache := ?fc'\<rparr>)) (X - {?b})
           \<and> bsr (n div vm_quantum (vm\<lparr>vm_free_cache := ?fc'\<rparr>)) = pos)"
        using fl'(1) fl'(3) [OF p] p by (cases "pos = ?pos") (auto simp: fv nth_list_update)
    qed (use fl' no False in \<open>auto simp: nth_list_update\<close>)
    ultimately show ?thesis by blast
  qed
qed

section \<open>Choosing a tag\<close>

definition tag_fits :: "vmem_bt list \<Rightarrow> nat \<Rightarrow> vmem_bt \<Rightarrow> bool" where
  "tag_fits ts n t \<longleftrightarrow> t \<in> set ts \<and> bt_allocated t = VMEM_FREE \<and> n \<le> bt_size t"

lemma better_cases: "better t b = Some t \<or> better t b = b" "better t b \<noteq> None"
  by (auto simp: better_def split: option.splits)

lemma alloc_search_fits:
  assumes "\<forall>b. best = Some b \<longrightarrow> tag_fits ts n b" and "set us \<subseteq> set ts"
  shows "case vmem_alloc_search us n vmflag best of
      None \<Rightarrow> best = None \<and> (\<forall>t \<in> set us. \<not> tag_fits ts n t)
    | Some t \<Rightarrow> tag_fits ts n t"
  using assms
proof (induction us arbitrary: best)
  case Nil
  then show ?case by (cases best) simp_all
next
  case (Cons t us)
  have u: "set us \<subseteq> set ts" using Cons.prems(2) by simp
  show ?case
  proof (cases "bt_allocated t = VMEM_FREE \<and> bt_size t \<ge> n")
    case True
    then have t: "tag_fits ts n t" using Cons.prems(2) by (simp add: tag_fits_def)
    then have "\<forall>b. better t best = Some b \<longrightarrow> tag_fits ts n b"
      using better_cases(1) [of t best] Cons.prems(1) by auto
    from Cons.IH [OF this u] True t better_cases(2) [of t best] show ?thesis
      by (auto split: option.splits)
  next
    case False
    then have "\<not> tag_fits ts n t" by (auto simp: tag_fits_def)
    with Cons.IH [OF Cons.prems(1) u] False show ?thesis by (auto split: option.splits)
  qed
qed

text \<open>A free list whose pointers lead to free tags.\<close>

definition points_free :: "vmem_bt list \<Rightarrow> nat \<Rightarrow> bool" where
  "points_free ts b \<longleftrightarrow> (\<exists>t \<in> set ts. bt_self t = b \<and> bt_allocated t = VMEM_FREE)"

lemma quantum_list_fits:
  assumes "distinct (map bt_self ts)" and "\<forall>b \<in> set bs. points_free ts b"
    and "\<forall>b. best = Some b \<longrightarrow> tag_fits ts n b"
  shows "\<exists>r. quantum_list ts bs n vmflag best = Inr r
    \<and> (case r of Inl t \<Rightarrow> tag_fits ts n t | Inr best' \<Rightarrow> (\<forall>b. best' = Some b \<longrightarrow> tag_fits ts n b))"
  using assms(2,3)
proof (induction bs arbitrary: best)
  case Nil
  then show ?case by simp
next
  case (Cons b bs)
  obtain t where t: "t \<in> set ts" "bt_self t = b" "bt_allocated t = VMEM_FREE"
    using Cons.prems(1) by (auto simp: points_free_def)
  then obtain i where i: "i < length ts" "ts ! i = t" by (auto simp: in_set_conv_nth)
  have ti: "tag_index ts b = Inr i" using tag_index_ok [OF assms(1) i(1)] i(2) t(2) by simp
  have bs: "\<forall>b \<in> set bs. points_free ts b" using Cons.prems(1) by simp
  show ?case
  proof (cases "bt_size t \<ge> n")
    case True
    then have f: "tag_fits ts n t" using t by (simp add: tag_fits_def)
    then have "\<forall>c. better t best = Some c \<longrightarrow> tag_fits ts n c"
      using better_cases(1) [of t best] Cons.prems(2) by auto
    from Cons.IH [OF bs this] f True ti t(3) i(2) show ?thesis by (auto simp: Let_def)
  next
    case False
    with Cons.IH [OF bs Cons.prems(2)] ti t(3) i(2) show ?thesis by (simp add: Let_def)
  qed
qed

lemma quantum_lists_fits:
  assumes "distinct (map bt_self ts)" and "\<forall>l \<in> set ls. \<forall>b \<in> set l. points_free ts b"
    and "\<forall>b. best = Some b \<longrightarrow> tag_fits ts n b"
  shows "\<exists>r. quantum_lists ts ls n vmflag best = Inr r \<and> (\<forall>t. r = Some t \<longrightarrow> tag_fits ts n t)"
  using assms(2,3)
proof (induction ls arbitrary: best)
  case Nil
  then show ?case by simp
next
  case (Cons l ls)
  have "\<forall>b \<in> set l. points_free ts b" using Cons.prems(1) by simp
  from quantum_list_fits [OF assms(1) this Cons.prems(2), of vmflag] obtain r where r:
    "quantum_list ts l n vmflag best = Inr r"
    "case r of Inl t \<Rightarrow> tag_fits ts n t | Inr best' \<Rightarrow> (\<forall>b. best' = Some b \<longrightarrow> tag_fits ts n b)" by auto
  show ?case
  proof (cases r)
    case (Inl t)
    then show ?thesis using r by simp
  next
    case (Inr best')
    then have "\<forall>b. best' = Some b \<longrightarrow> tag_fits ts n b" using r(2) by simp
    moreover have "\<forall>l \<in> set ls. \<forall>b \<in> set l. points_free ts b" using Cons.prems(1) by simp
    ultimately show ?thesis using Cons.IH [of best'] r(1) Inr by auto
  qed
qed

lemma pick_tag_ok:
  assumes ok: "arena_ok vm {}" and n: "0 < n" "vm_quantum vm dvd n"
  shows "\<exists>r. pick_tag vm n vmflag = Inr r
    \<and> (case r of None \<Rightarrow> \<forall>t. \<not> tag_fits (vm_tags vm) n t | Some t \<Rightarrow> tag_fits (vm_tags vm) n t)"
proof -
  have d: "distinct (map bt_self (vm_tags vm))" "0 < vm_quantum vm"
    using ok by (auto simp: arena_ok_def tags_ok_def)
  have "points_free (vm_tags vm) b" if "l \<in> set (drop k (vm_free_cache vm))" "b \<in> set l" for k l b
  proof -
    have "l \<in> set (vm_free_cache vm)" using that(1) by (rule in_set_dropD)
    then obtain pos where "pos < length (vm_free_cache vm)" "vm_free_cache vm ! pos = l" by (auto simp: in_set_conv_nth)
    then show ?thesis using ok that(2) unfolding arena_ok_def freelist_ok_def points_free_def by fastforce
  qed
  then have q: "\<exists>r. quantum_lists (vm_tags vm) (drop k (vm_free_cache vm)) n vmflag None = Inr r
      \<and> (\<forall>t. r = Some t \<longrightarrow> tag_fits (vm_tags vm) n t)" for k
    by (intro quantum_lists_fits [OF d(1)]) auto
  have s: "case vmem_alloc_search (vm_tags vm) n vmflag None of
      None \<Rightarrow> (\<forall>t. \<not> tag_fits (vm_tags vm) n t) | Some t \<Rightarrow> tag_fits (vm_tags vm) n t"
    using alloc_search_fits [of None "vm_tags vm" n "vm_tags vm" vmflag]
    by (auto simp: tag_fits_def split: option.splits)
  obtain k where "vmem_alloc_quantum vm n vmflag = quantum_lists (vm_tags vm) (drop k (vm_free_cache vm)) n vmflag None"
    using tag_quantum [OF d(2) n] by (simp add: vmem_alloc_quantum_def Let_def)
  with q [of k] obtain r where r: "vmem_alloc_quantum vm n vmflag = Inr r"
    "\<forall>t. r = Some t \<longrightarrow> tag_fits (vm_tags vm) n t" by auto
  show ?thesis
    using r s by (cases r) (auto simp: pick_tag_def)
qed

section \<open>Free neighbours\<close>

text \<open>
  Two free tags of one span; in an arena that is coalesced they are never neighbours. \<open>join_left\<close> and
  \<open>join_right\<close> say what becomes of a free tag and the tags on one side of it.
\<close>

definition joins :: "vmem_span list \<Rightarrow> vmem_bt \<Rightarrow> vmem_bt \<Rightarrow> bool" where
  "joins sps t u \<longleftrightarrow> bt_allocated t = VMEM_FREE \<and> bt_allocated u = VMEM_FREE
     \<and> vmem_getspan sps (bt_addr t) = vmem_getspan sps (bt_addr u)"

definition coalesced :: "vmem \<Rightarrow> bool" where
  "coalesced vm \<longleftrightarrow> successively (\<lambda>t u. \<not> joins (vm_spans vm) t u) (vm_tags vm)"

definition join_left :: "vmem_span list \<Rightarrow> vmem_bt list \<Rightarrow> vmem_bt \<Rightarrow> vmem_bt list \<times> vmem_bt" where
  "join_left sps xs t =
     (if xs \<noteq> [] \<and> joins sps (last xs) t
      then (butlast xs, (last xs)\<lparr>bt_size := bt_size (last xs) + bt_size t\<rparr>) else (xs, t))"

definition join_right :: "vmem_span list \<Rightarrow> vmem_bt \<Rightarrow> vmem_bt list \<Rightarrow> vmem_bt \<times> vmem_bt list" where
  "join_right sps t ys =
     (if ys \<noteq> [] \<and> joins sps t (hd ys)
      then (t\<lparr>bt_size := bt_size t + bt_size (hd ys)\<rparr>, tl ys) else (t, ys))"

definition free_in :: "vmem_span list \<Rightarrow> vmem_bt list \<Rightarrow> vmem_bt \<Rightarrow> vmem_bt list \<Rightarrow> vmem_bt list" where
  "free_in sps xs t ys =
     (case join_left sps xs (t\<lparr>bt_allocated := VMEM_FREE\<rparr>) of (xs', t1) \<Rightarrow>
      case join_right sps t1 ys of (t2, ys') \<Rightarrow> xs' @ t2 # ys')"

lemma joins_cong:
  assumes "bt_allocated t' = bt_allocated t" and "vmem_getspan sps (bt_addr t') = vmem_getspan sps (bt_addr t)"
  shows "joins sps t' u = joins sps t u" and "joins sps u t' = joins sps u t"
  using assms by (auto simp: joins_def)

lemma join_left_coalesced:
  assumes xs: "successively (\<lambda>t u. \<not> joins sps t u) xs" and "join_left sps xs t = (xs', t1)"
  shows "successively (\<lambda>t u. \<not> joins sps t u) (xs' @ [t1])" and "bt_allocated t1 = bt_allocated t"
    and "vmem_getspan sps (bt_addr t1) = vmem_getspan sps (bt_addr t)"
proof -
  have "successively (\<lambda>t u. \<not> joins sps t u) (xs' @ [t1]) \<and> bt_allocated t1 = bt_allocated t
    \<and> vmem_getspan sps (bt_addr t1) = vmem_getspan sps (bt_addr t)"
  proof (cases "xs \<noteq> [] \<and> joins sps (last xs) t")
    case True
    then have e: "xs' = butlast xs" "t1 = (last xs)\<lparr>bt_size := bt_size (last xs) + bt_size t\<rparr>"
      using assms(2) by (simp_all add: join_left_def)
    obtain zs z where z: "xs = zs @ [z]" using True by (cases xs rule: rev_cases) auto
    have "joins sps u t1 = joins sps u z" for u by (rule joins_cong) (simp_all add: e z)
    then have "successively (\<lambda>t u. \<not> joins sps t u) (xs' @ [t1])"
      using xs z e(1) by (simp add: successively_append_iff)
    moreover have "bt_allocated t1 = bt_allocated t \<and> vmem_getspan sps (bt_addr t1) = vmem_getspan sps (bt_addr t)"
      using True e(2) by (simp add: joins_def)
    ultimately show ?thesis by blast
  next
    case False
    then show ?thesis using assms by (auto simp: join_left_def successively_append_iff)
  qed
  then show "successively (\<lambda>t u. \<not> joins sps t u) (xs' @ [t1])" "bt_allocated t1 = bt_allocated t"
    "vmem_getspan sps (bt_addr t1) = vmem_getspan sps (bt_addr t)" by blast+
qed

lemma join_right_coalesced:
  assumes ys: "successively (\<lambda>t u. \<not> joins sps t u) ys" and "join_right sps t ys = (t1, ys')"
  shows "successively (\<lambda>t u. \<not> joins sps t u) (t1 # ys')" and "bt_allocated t1 = bt_allocated t"
    and "bt_addr t1 = bt_addr t"
  using assms by (cases ys; auto simp: join_right_def joins_def successively_Cons split: if_splits)+

lemma free_in_coalesced:
  assumes "successively (\<lambda>t u. \<not> joins sps t u) (xs @ t # ys)"
  shows "successively (\<lambda>t u. \<not> joins sps t u) (free_in sps xs t ys)"
proof -
  obtain xs' t1 where l: "join_left sps xs (t\<lparr>bt_allocated := VMEM_FREE\<rparr>) = (xs', t1)" by fastforce
  obtain t2 ys' where r: "join_right sps t1 ys = (t2, ys')" by fastforce
  have xs: "successively (\<lambda>t u. \<not> joins sps t u) xs" and ys: "successively (\<lambda>t u. \<not> joins sps t u) ys"
    using assms by (auto simp: successively_append_iff successively_Cons)
  have 1: "successively (\<lambda>t u. \<not> joins sps t u) (xs' @ [t1])" by (rule join_left_coalesced [OF xs l])
  note 2 = join_right_coalesced [OF ys r]
  have "joins sps u t2 = joins sps u t1" for u by (rule joins_cong) (simp_all add: 2)
  then have "successively (\<lambda>t u. \<not> joins sps t u) (xs' @ t2 # ys')"
    using 1 2(1) by (auto simp: successively_append_iff)
  then show ?thesis by (simp add: free_in_def l r)
qed

lemma joins_rehash:
  "k < length sps \<Longrightarrow> joins (sps[k := (sps ! k)\<lparr>sp_hash := h\<rparr>]) = joins sps"
  by (simp add: joins_def fun_eq_iff getspan_hash_update)

lemma free_in_rehash:
  "k < length sps \<Longrightarrow> free_in (sps[k := (sps ! k)\<lparr>sp_hash := h\<rparr>]) = free_in sps"
  by (simp add: free_in_def join_left_def join_right_def joins_rehash fun_eq_iff)

text \<open>An allocated tag joins nothing.\<close>

lemma coalesced_mark:
  assumes "successively (\<lambda>t u. \<not> joins sps t u) ts"
  shows "successively (\<lambda>t u. \<not> joins sps t u) (ts[i := t\<lparr>bt_allocated := VMEM_ALLOCATED\<rparr>])"
  unfolding successively_conv_nth
proof (intro allI impI)
  fix j assume j: "Suc j < length (ts[i := t\<lparr>bt_allocated := VMEM_ALLOCATED\<rparr>])"
  show "\<not> joins sps (ts[i := t\<lparr>bt_allocated := VMEM_ALLOCATED\<rparr>] ! j) (ts[i := t\<lparr>bt_allocated := VMEM_ALLOCATED\<rparr>] ! Suc j)"
    using assms j unfolding successively_conv_nth
    by (cases "i = j \<or> i = Suc j") (auto simp: nth_list_update joins_def [of _ "t\<lparr>bt_allocated := VMEM_ALLOCATED\<rparr>"]
        joins_def [of _ _ "t\<lparr>bt_allocated := VMEM_ALLOCATED\<rparr>"])
qed

lemma coalesced_cut:
  assumes "successively (\<lambda>t u. \<not> joins sps t u) (xs @ t # ys)" and "bt_addr t1 = bt_addr t"
    and "bt_allocated t1 = bt_allocated t" and "bt_allocated t2 = VMEM_ALLOCATED"
  shows "successively (\<lambda>t u. \<not> joins sps t u) (xs @ t1 # t2 # ys)"
  using assms by (auto simp: successively_append_iff successively_Cons joins_def)

section \<open>Cutting and marking\<close>

text \<open>The blocks of the tags are alive.\<close>

definition tags_live :: "(nat \<Rightarrow> nat option) \<Rightarrow> vmem_bt list \<Rightarrow> bool" where
  "tags_live lv ts \<longleftrightarrow> (\<forall>t \<in> set ts. lv (bt_self t) \<noteq> None)"

text \<open>What stays the same in an arena while tags are moved around.\<close>

definition same_arena :: "vmem \<Rightarrow> vmem \<Rightarrow> bool" where
  "same_arena vm vm' \<longleftrightarrow>
     vm_quantum vm' = vm_quantum vm \<and> vm_spans vm' = vm_spans vm \<and> vm_source vm' = vm_source vm
     \<and> vm_cache_bits vm' = vm_cache_bits vm"

lemma arena_tag:
  assumes "arena_ok vm X" and "t \<in> set (vm_tags vm)"
  shows "0 < vm_quantum vm" and "0 < bt_size t" and "vm_quantum vm dvd bt_size t"
    and "distinct (map bt_self (vm_tags vm))" and "bt_end t < 4294967296"
proof -
  show "0 < vm_quantum vm" "0 < bt_size t" "vm_quantum vm dvd bt_size t" "distinct (map bt_self (vm_tags vm))"
    using assms by (auto simp: arena_ok_def tags_ok_def tag_ok_def)
  have "tag_ok (vm_quantum vm) (vm_spans vm) t" using assms by (auto simp: arena_ok_def tags_ok_def)
  then obtain k where k: "vmem_getspan (vm_spans vm) (bt_addr t) = Some k"
    "bt_end t \<le> sp_addr (vm_spans vm ! k) + sp_size (vm_spans vm ! k)"
    by (auto simp: tag_ok_def split: option.splits)
  from getspan_Some [OF k(1)] have "vm_spans vm ! k \<in> set (vm_spans vm)" by simp
  then have "sp_addr (vm_spans vm ! k) + sp_size (vm_spans vm ! k) < 4294967296"
    using assms(1) by (auto simp: arena_ok_def spans_ok_def)
  with k(2) show "bt_end t < 4294967296" by linarith
qed

text \<open>A piece of a tag, cut at a multiple of the quantum, is a tag of the same span.\<close>

lemma tag_ok_piece:
  assumes "spans_ok q sps" and "tag_ok q sps t" and "0 < bt_size u" and "q dvd bt_size u"
    and "bt_addr t \<le> bt_addr u" and "bt_end u \<le> bt_end t" and "q dvd bt_addr u - bt_addr t"
    and "bt_allocated u = VMEM_FREE \<or> bt_allocated u = VMEM_ALLOCATED"
  shows "tag_ok q sps u" and "vmem_getspan sps (bt_addr u) = vmem_getspan sps (bt_addr t)"
proof -
  obtain k where k: "vmem_getspan sps (bt_addr t) = Some k" "sp_addr (sps ! k) \<le> bt_addr t"
    "bt_end t \<le> sp_addr (sps ! k) + sp_size (sps ! k)" "q dvd bt_addr t - sp_addr (sps ! k)"
    using assms(2) by (auto simp: tag_ok_def split: option.splits)
  have kl: "k < length sps" using getspan_Some [OF k(1)] by simp
  have g: "vmem_getspan sps (bt_addr u) = Some k"
    by (rule getspan_inside [OF assms(1) kl]) (use k assms(3,5,6) in linarith)+
  then show "vmem_getspan sps (bt_addr u) = vmem_getspan sps (bt_addr t)" using k(1) by simp
  have "bt_addr u - sp_addr (sps ! k) = (bt_addr u - bt_addr t) + (bt_addr t - sp_addr (sps ! k))"
    using assms(5) k(2) by simp
  then have "q dvd bt_addr u - sp_addr (sps ! k)" using assms(7) k(4) by (metis dvd_add)
  then show "tag_ok q sps u" using g assms k by (simp add: tag_ok_def)
qed

text \<open>The arena after the free tag \<open>t\<close> was cut.\<close>

lemma arena_ok_cut:
  assumes ok: "arena_ok vm {bt_self t}" and ts: "vm_tags vm = xs @ t # ys" and t: "bt_allocated t = VMEM_FREE"
    and n: "0 < n" "vm_quantum vm dvd n" "n + vm_quantum vm \<le> bt_size t"
    and new: "b \<notin> bt_self ` set (vm_tags vm)"
  defines "t1 \<equiv> t\<lparr>bt_size := bt_size t - n\<rparr>"
    and "t2 \<equiv> \<lparr>bt_self = b, bt_addr = bt_addr t + (bt_size t - n), bt_size = n, bt_source_addr = None,
               bt_allocated = VMEM_FREE\<rparr>"
  shows "arena_ok (vm\<lparr>vm_tags := xs @ t1 # t2 # ys\<rparr>) {bt_self t, b}"
    and "allocs (vm\<lparr>vm_tags := xs @ t1 # t2 # ys\<rparr>) = allocs vm"
proof -
  let ?q = "vm_quantum vm" and ?sps = "vm_spans vm"
  have tin: "t \<in> set (vm_tags vm)" using ts by simp
  note a = arena_tag [OF ok tin]
  have d: "?q dvd bt_size t - n" using a(3) n(2) by (rule dvd_diff_nat)
  have tk: "spans_ok ?q ?sps" "tag_ok ?q ?sps t" using ok tin by (auto simp: arena_ok_def tags_ok_def)
  have p1: "tag_ok ?q ?sps t1"
    by (rule tag_ok_piece [OF tk]) (use n a d t in \<open>auto simp: t1_def\<close>)
  have p2: "tag_ok ?q ?sps t2" "vmem_getspan ?sps (bt_addr t2) = vmem_getspan ?sps (bt_addr t)"
    by (rule tag_ok_piece [OF tk]; use n a d in \<open>auto simp: t2_def\<close>)+
  have tg: "tags_ok ?q ?sps (xs @ t1 # t2 # ys)"
    by (rule tags_ok_split [where t = t])
      (use ok ts new p1 p2 n in \<open>auto simp: arena_ok_def t1_def t2_def\<close>)
  have "alloc_view (xs @ t1 # t2 # ys) = alloc_view (vm_tags vm)"
    unfolding ts alloc_view_def using t by (auto simp: t1_def t2_def)
  then have ha: "hash_ok ?q ?sps (xs @ t1 # t2 # ys)"
    using ok unfolding arena_ok_def hash_ok_view by simp
  have "free_view (xs @ t1 # t2 # ys) {bt_self t, b} = free_view (vm_tags vm) {bt_self t}"
    using new unfolding ts free_view_def by (auto simp: t1_def t2_def)
  then have "freelist_ok (vm\<lparr>vm_tags := xs @ t1 # t2 # ys\<rparr>) {bt_self t, b}"
    using ok by (intro freelist_cong) (auto simp: arena_ok_def)
  then show "arena_ok (vm\<lparr>vm_tags := xs @ t1 # t2 # ys\<rparr>) {bt_self t, b}"
    using ok tg ha by (simp add: arena_ok_def)
  show "allocs (vm\<lparr>vm_tags := xs @ t1 # t2 # ys\<rparr>) = allocs vm"
    unfolding allocs_def using ts t by (auto simp: t1_def t2_def)
qed

text \<open>Writing a table entry changes nothing but the table.\<close>

lemma rehash_cong:
  assumes k: "k < length sps" and h: "length h = length (sp_hash (sps ! k))"
  defines "sps' \<equiv> sps[k := (sps ! k)\<lparr>sp_hash := h\<rparr>]"
  shows "spans_ok q sps' = spans_ok q sps" and "tags_ok q sps' ts = tags_ok q sps ts"
proof -
  have n: "sp_addr (sps' ! j) = sp_addr (sps ! j)" "sp_size (sps' ! j) = sp_size (sps ! j)"
    "length (sp_hash (sps' ! j)) = length (sp_hash (sps ! j))" if "j < length sps" for j
    using k h that by (auto simp: sps'_def nth_list_update)
  have l: "length sps' = length sps" by (simp add: sps'_def)
  show "spans_ok q sps' = spans_ok q sps"
    unfolding spans_ok_def sorted_wrt_iff_nth_less all_set_conv_all_nth l using n by simp
  have g: "vmem_getspan sps' a = vmem_getspan sps a" for a
    unfolding sps'_def by (rule getspan_hash_update [OF k])
  have "tag_ok q sps' t = tag_ok q sps t" for t
    unfolding tag_ok_def g by (auto split: option.split dest: getspan_Some simp: n)
  moreover have "follows sps' = follows sps" unfolding follows_def g by (rule refl)
  ultimately show "tags_ok q sps' ts = tags_ok q sps ts" by (simp add: tags_ok_def)
qed

text \<open>The slot of a tag in the table of its span.\<close>

lemma tag_slot:
  assumes "0 < q" and "spans_ok q sps" and "tag_ok q sps t"
  shows "\<exists>k j. vmem_getspan sps (bt_addr t) = Some k \<and> k < length sps
    \<and> j = (bt_addr t - sp_addr (sps ! k)) div q \<and> j < sp_size (sps ! k) div q
    \<and> bt_addr t = sp_addr (sps ! k) + j * q \<and> length (sp_hash (sps ! k)) = sp_size (sps ! k) div q"
proof -
  obtain k where k: "vmem_getspan sps (bt_addr t) = Some k" "sp_addr (sps ! k) \<le> bt_addr t"
    "bt_end t \<le> sp_addr (sps ! k) + sp_size (sps ! k)" "q dvd bt_addr t - sp_addr (sps ! k)" "0 < bt_size t"
    using assms(3) by (auto simp: tag_ok_def split: option.splits)
  let ?j = "(bt_addr t - sp_addr (sps ! k)) div q"
  have kl: "k < length sps" using getspan_Some [OF k(1)] by simp
  then have "sps ! k \<in> set sps" by simp
  then have sp: "q dvd sp_size (sps ! k)" "length (sp_hash (sps ! k)) = sp_size (sps ! k) div q"
    using assms(2) by (auto simp: spans_ok_def)
  have jq: "?j * q = bt_addr t - sp_addr (sps ! k)" using k(4) by simp
  have "?j * q < sp_size (sps ! k) div q * q" using jq sp(1) k by simp
  then have "?j < sp_size (sps ! k) div q" by simp
  then show ?thesis using k(1) kl jq sp(2) k(2) by (intro exI [of _ k] exI [of _ ?j]) simp
qed

text \<open>The table entry of one address is rewritten to match the tags.\<close>

lemma hash_ok_put:
  assumes q: "0 < q" and sps: "spans_ok q sps" and ok: "hash_ok q sps ts"
    and kj: "k < length sps" "j < sp_size (sps ! k) div q" "length (sp_hash (sps ! k)) = sp_size (sps ! k) div q"
    and at: "\<And>b. (b, sp_addr (sps ! k) + j * q) \<in> alloc_view ts' \<longleftrightarrow> r = Some b"
    and oth: "\<And>b a. a \<noteq> sp_addr (sps ! k) + j * q \<Longrightarrow> (b, a) \<in> alloc_view ts' \<longleftrightarrow> (b, a) \<in> alloc_view ts"
  shows "hash_ok q (sps[k := (sps ! k)\<lparr>sp_hash := (sp_hash (sps ! k))[j := r]\<rparr>]) ts'" (is "hash_ok q ?sps' ts'")
  unfolding hash_ok_view
proof (intro allI impI)
  fix k' j' b assume "k' < length ?sps'" and j': "j' < sp_size (?sps' ! k') div q"
  then have k': "k' < length sps" by simp
  have e: "sp_addr (?sps' ! k') = sp_addr (sps ! k')" "sp_size (?sps' ! k') = sp_size (sps ! k')"
    using k' by (cases "k' = k"; simp)+
  show "sp_hash (?sps' ! k') ! j' = Some b \<longleftrightarrow> (b, sp_addr (?sps' ! k') + j' * q) \<in> alloc_view ts'"
  proof (cases "k' = k \<and> j' = j")
    case True
    then show ?thesis using at kj by simp
  next
    case False
    then have "sp_hash (?sps' ! k') ! j' = sp_hash (sps ! k') ! j'" using kj(1) by (cases "k' = k") simp_all
    moreover have "sp_addr (sps ! k') + j' * q \<noteq> sp_addr (sps ! k) + j * q"
    proof
      assume eq: "sp_addr (sps ! k') + j' * q = sp_addr (sps ! k) + j * q"
      have "j' < sp_size (sps ! k') div q" using j' e by simp
      from slot_unique [OF sps q k' this kj(1,2) eq] False show False by simp
    qed
    ultimately show ?thesis using ok k' j' e oth unfolding hash_ok_view by simp
  qed
qed

lemma allocs_insert:
  "vm_tags vm = xs @ t # ys \<Longrightarrow> bt_allocated t = VMEM_FREE \<Longrightarrow>
   allocs (vm\<lparr>vm_tags := xs @ t\<lparr>bt_allocated := VMEM_ALLOCATED\<rparr> # ys\<rparr>) = insert (bt_addr t, bt_size t) (allocs vm)"
  by (auto simp: allocs_def)

lemma mark_tag_ok:
  assumes ok: "arena_ok vm {bt_self t}" and i: "i < length (vm_tags vm)" "vm_tags vm ! i = t"
    and t: "bt_allocated t = VMEM_FREE"
  shows "\<exists>sps. mark_tag vm i = Inr (vm\<lparr>vm_tags := (vm_tags vm)[i := t\<lparr>bt_allocated := VMEM_ALLOCATED\<rparr>], vm_spans := sps\<rparr>)
    \<and> arena_ok (vm\<lparr>vm_tags := (vm_tags vm)[i := t\<lparr>bt_allocated := VMEM_ALLOCATED\<rparr>], vm_spans := sps\<rparr>) {}
    \<and> joins sps = joins (vm_spans vm)"
proof -
  let ?q = "vm_quantum vm" and ?sps = "vm_spans vm" and ?ts = "vm_tags vm"
  let ?t' = "t\<lparr>bt_allocated := VMEM_ALLOCATED\<rparr>"
  have tin: "t \<in> set ?ts" using i by auto
  note o = ok [unfolded arena_ok_def]
  have tk: "tag_ok ?q ?sps t" using o tin by (auto simp: tags_ok_def)
  have qs: "0 < ?q" "spans_ok ?q ?sps" using o by simp_all
  from tag_slot [OF qs tk] obtain k j where kj: "vmem_getspan ?sps (bt_addr t) = Some k" "k < length ?sps"
    "j = (bt_addr t - sp_addr (?sps ! k)) div ?q" "j < sp_size (?sps ! k) div ?q"
    "bt_addr t = sp_addr (?sps ! k) + j * ?q" "length (sp_hash (?sps ! k)) = sp_size (?sps ! k) div ?q"
    by (elim exE conjE)
  have none: "sp_hash (?sps ! k) ! j = None"
  proof (rule ccontr)
    assume "sp_hash (?sps ! k) ! j \<noteq> None"
    then obtain b where b: "sp_hash (?sps ! k) ! j = Some b" by blast
    have "hash_ok ?q ?sps ?ts" using o by simp
    with b kj(2,4) obtain u where u: "u \<in> set ?ts" "bt_allocated u = VMEM_ALLOCATED"
      "bt_addr u = sp_addr (?sps ! k) + j * ?q" unfolding hash_ok_def by blast
    then have "bt_addr u = bt_addr t" using kj(5) by simp
    then have "u = t" using tags_same_addr u(1) o tin by metis
    then show False using u(2) t by simp
  qed
  let ?h = "(sp_hash (?sps ! k))[j := Some (bt_self t)]" and ?ts' = "?ts[i := ?t']"
  let ?sps' = "?sps[k := (?sps ! k)\<lparr>sp_hash := ?h\<rparr>]"
  let ?vm = "vm\<lparr>vm_tags := ?ts', vm_spans := ?sps'\<rparr>"
  have r: "mark_tag vm i = Inr ?vm"
    using kj(1,2,4,6) none i by (simp add: mark_tag_def Let_def kj(3) [symmetric])
  have ts: "?ts = take i ?ts @ t # drop (Suc i) ?ts" "?ts' = take i ?ts @ ?t' # drop (Suc i) ?ts"
    using i by (simp_all add: id_take_nth_drop [symmetric] upd_conv_take_nth_drop)
       (metis id_take_nth_drop)
  have tk': "tag_ok ?q ?sps ?t'" using tk by (auto simp: tag_ok_def split: option.splits)
  have "tags_ok ?q ?sps ?ts'"
    unfolding ts(2) by (rule tags_ok_replace [where t = t]) (use o ts(1) tk' in auto)
  then have tg: "spans_ok ?q ?sps'" "tags_ok ?q ?sps' ?ts'"
    using o rehash_cong [OF kj(2), of ?h] by simp_all
  have av: "alloc_view ?ts' = insert (bt_self t, bt_addr t) (alloc_view ?ts)"
    unfolding ts(2) using arg_cong [OF ts(1), of alloc_view] t by (auto simp: alloc_view_def)
  have no: "(b, bt_addr t) \<notin> alloc_view ?ts" for b
  proof
    assume "(b, bt_addr t) \<in> alloc_view ?ts"
    then have "sp_hash (?sps ! k) ! j = Some b"
      using o kj(2,4,5) unfolding hash_ok_view by simp
    then show False using none by simp
  qed
  have "hash_ok ?q ?sps' ?ts'"
    by (rule hash_ok_put [OF qs _ kj(2,4,6)]) (use o no in \<open>auto simp: av kj(5) [symmetric]\<close>)
  moreover have "free_view ?ts' {} = free_view ?ts {bt_self t}"
  proof -
    have "bt_self u \<noteq> bt_self t" if "u \<in> set (take i ?ts @ drop (Suc i) ?ts)" for u
    proof -
      have "distinct (map bt_self (take i ?ts @ t # drop (Suc i) ?ts))" using o ts(1) by (simp add: tags_ok_def)
      then show ?thesis using that by (auto simp: image_iff)
    qed
    then show ?thesis
      unfolding ts(2) using arg_cong [OF ts(1), of "\<lambda>x. free_view x {bt_self t}"] by (auto simp: free_view_def)
  qed
  then have "freelist_ok (vm\<lparr>vm_tags := ?ts'\<rparr>) {}" using o by (intro freelist_cong) auto
  ultimately have "arena_ok ?vm {}" using o tg by (simp add: arena_ok_def freelist_ok_def)
  moreover have "joins ?sps' = joins ?sps" by (rule joins_rehash [OF kj(2)])
  ultimately show ?thesis using r by blast
qed

lemma others_distinct:
  assumes "tags_ok q sps (xs @ t # ys)" and "u \<in> set (xs @ ys)"
  shows "bt_self u \<noteq> bt_self t" and "bt_addr u \<noteq> bt_addr t"
proof -
  show n: "bt_self u \<noteq> bt_self t" using assms by (auto simp: tags_ok_def image_iff)
  then have "u \<noteq> t" by auto
  moreover have "u \<in> set (xs @ t # ys)" "t \<in> set (xs @ t # ys)" using assms(2) by auto
  ultimately show "bt_addr u \<noteq> bt_addr t" using tags_same_addr [OF assms(1), of u t] by blast
qed

text \<open>The reverse of marking, as \<^verbatim>\<open>vmem_free\<close> does it.\<close>

lemma unmark_tag_ok:
  assumes ok: "arena_ok vm {}" and ts: "vm_tags vm = xs @ t # ys" and t: "bt_allocated t = VMEM_ALLOCATED"
    and kj: "k < length (vm_spans vm)" "j < sp_size (vm_spans vm ! k) div vm_quantum vm"
      "bt_addr t = sp_addr (vm_spans vm ! k) + j * vm_quantum vm"
      "length (sp_hash (vm_spans vm ! k)) = sp_size (vm_spans vm ! k) div vm_quantum vm"
  defines "vm' \<equiv> vm\<lparr>vm_spans := (vm_spans vm)[k := (vm_spans vm ! k)\<lparr>sp_hash := (sp_hash (vm_spans vm ! k))[j := None]\<rparr>],
                     vm_tags := xs @ t\<lparr>bt_allocated := VMEM_FREE\<rparr> # ys\<rparr>"
  shows "arena_ok vm' {bt_self t}" and "allocs vm' = allocs vm - {(bt_addr t, bt_size t)}"
proof -
  let ?q = "vm_quantum vm" and ?sps = "vm_spans vm" and ?t' = "t\<lparr>bt_allocated := VMEM_FREE\<rparr>"
  let ?ts' = "xs @ ?t' # ys" and ?h = "(sp_hash (vm_spans vm ! k))[j := None]"
  note o = ok [unfolded arena_ok_def]
  have tg: "tags_ok ?q ?sps (xs @ t # ys)" using o ts by simp
  note od = others_distinct [OF tg]
  have tk: "tag_ok ?q ?sps ?t'" using tg by (auto simp: tags_ok_def tag_ok_def split: option.splits)
  have "tags_ok ?q ?sps ?ts'" by (rule tags_ok_replace [OF tg]) (use tk in auto)
  then have tg': "spans_ok ?q (vm_spans vm')" "tags_ok ?q (vm_spans vm') ?ts'"
    using o rehash_cong [OF kj(1), of ?h] by (simp_all add: vm'_def)
  have av: "alloc_view ?ts' = alloc_view (vm_tags vm) - {(bt_self t, bt_addr t)}"
    unfolding ts alloc_view_def using od t by auto
  have at: "b = bt_self t" if "(b, bt_addr t) \<in> alloc_view (vm_tags vm)" for b
    using that tags_same_addr [OF tg, of _ t] ts by (auto simp: alloc_view_iff)
  have "hash_ok ?q (vm_spans vm') ?ts'"
    unfolding vm'_def by (simp, rule hash_ok_put [OF _ _ _ kj(1,2,4)])
      (use o at in \<open>auto simp: av kj(3) [symmetric]\<close>)
  moreover have "free_view ?ts' {bt_self t} = free_view (vm_tags vm) {}"
    unfolding ts free_view_def using od t by auto
  then have "freelist_ok (vm\<lparr>vm_tags := ?ts'\<rparr>) {bt_self t}" using o by (intro freelist_cong) auto
  ultimately show "arena_ok vm' {bt_self t}"
    using o tg' by (simp add: arena_ok_def freelist_ok_def vm'_def)
  show "allocs vm' = allocs vm - {(bt_addr t, bt_size t)}"
    unfolding allocs_def vm'_def using ts od t by auto
qed

text \<open>Two free neighbours of a span become one.\<close>

lemma arena_ok_melt:
  assumes ok: "arena_ok vm {bt_self t1, bt_self t2}" and ts: "vm_tags vm = xs @ t1 # t2 # ys"
    and fr: "bt_allocated t1 = VMEM_FREE" "bt_allocated t2 = VMEM_FREE"
    and sp: "vmem_getspan (vm_spans vm) (bt_addr t2) = vmem_getspan (vm_spans vm) (bt_addr t1)"
  defines "t \<equiv> t1\<lparr>bt_size := u32 (bt_size t1 + bt_size t2)\<rparr>"
  shows "arena_ok (vm\<lparr>vm_tags := xs @ t # ys\<rparr>) {bt_self t1}"
    and "allocs (vm\<lparr>vm_tags := xs @ t # ys\<rparr>) = allocs vm"
proof -
  let ?q = "vm_quantum vm" and ?sps = "vm_spans vm"
  note o = ok [unfolded arena_ok_def]
  have tg: "tags_ok ?q ?sps (xs @ t1 # t2 # ys)" using o ts by simp
  then have "follows ?sps t1 t2" by (simp add: tags_ok_def successively_append_iff)
  then have adj: "bt_end t1 = bt_addr t2" using sp by (simp add: follows_def)
  have in_ts: "t1 \<in> set (vm_tags vm)" "t2 \<in> set (vm_tags vm)" using ts by simp_all
  have "bt_end t2 < 4294967296" using arena_tag(5) [OF ok in_ts(2)] .
  then have sz: "bt_size t = bt_size t1 + bt_size t2" using adj by (simp add: t_def)
  have tk: "tag_ok ?q ?sps t1" "tag_ok ?q ?sps t2" using tg by (auto simp: tags_ok_def)
  have "tag_ok ?q ?sps t"
    using tk sp sz adj fr unfolding tag_ok_def by (auto simp: t_def split: option.splits)
  then have tg': "tags_ok ?q ?sps (xs @ t # ys)"
    by (intro tags_ok_melt [OF tg]) (use sz adj sp in \<open>auto simp: t_def\<close>)
  have "alloc_view (xs @ t # ys) = alloc_view (vm_tags vm)"
    unfolding ts alloc_view_def using fr by (auto simp: t_def)
  then have ha: "hash_ok ?q ?sps (xs @ t # ys)" using o unfolding hash_ok_view by simp
  have ne: "bt_self u \<noteq> bt_self t2" if "u \<in> set xs \<union> set ys" for u
    using tg that by (auto simp: tags_ok_def image_iff)
  have "free_view (xs @ t # ys) {bt_self t1} = free_view (vm_tags vm) {bt_self t1, bt_self t2}"
    unfolding ts free_view_def using ne by (auto simp: t_def)
  then have "freelist_ok (vm\<lparr>vm_tags := xs @ t # ys\<rparr>) {bt_self t1}" using o by (intro freelist_cong) auto
  then show "arena_ok (vm\<lparr>vm_tags := xs @ t # ys\<rparr>) {bt_self t1}" using o tg' ha by (simp add: arena_ok_def)
  show "allocs (vm\<lparr>vm_tags := xs @ t # ys\<rparr>) = allocs vm"
    unfolding allocs_def using ts fr by (auto simp: t_def)
qed

context kernel_heap
begin

text \<open>
  \<open>take_tag\<close> delivers a free tag of exactly the requested size that is on no free list; or it
  dereferences a null pointer because there is no memory for the second half.
\<close>

definition taken :: "vmem \<Rightarrow> nat \<Rightarrow> 'h vmsys \<Rightarrow> nat \<Rightarrow> vmem \<Rightarrow> 'h vmsys \<Rightarrow> bool" where
  "taken vm n s i vm' s' \<longleftrightarrow>
     i < length (vm_tags vm') \<and> arena_ok vm' {bt_self (vm_tags vm' ! i)} \<and> same_arena vm vm'
     \<and> bt_allocated (vm_tags vm' ! i) = VMEM_FREE \<and> bt_size (vm_tags vm' ! i) = n
     \<and> allocs vm' = allocs vm \<and> heap_ok (vs_heap s') \<and> tags_live (live (vs_heap s')) (vm_tags vm')
     \<and> vs_arenas s' = vs_arenas s
     \<and> (coalesced vm \<longrightarrow> successively (\<lambda>t u. \<not> joins (vm_spans vm) t u)
          ((vm_tags vm')[i := (vm_tags vm' ! i)\<lparr>bt_allocated := VMEM_ALLOCATED\<rparr>]))"

lemma take_whole:
  assumes ok: "arena_ok vm {}" and f: "tag_fits (vm_tags vm) n t" and n: "0 < n" "vm_quantum vm dvd n"
    and h: "heap_ok (vs_heap s)" "tags_live (live (vs_heap s)) (vm_tags vm)"
    and small: "\<not> sub32 (bt_size t) n \<ge> vm_quantum vm"
  shows "\<exists>i vm'. take_tag subsystem vm t n s = Inr ((i, vm'), s) \<and> taken vm n s i vm' s
    \<and> bt_end (vm_tags vm' ! i) = bt_end t \<and> bt_size t = n"
proof -
  have t: "t \<in> set (vm_tags vm)" "bt_allocated t = VMEM_FREE" "n \<le> bt_size t" using f by (auto simp: tag_fits_def)
  note a = arena_tag [OF ok t(1)]
  obtain i where i: "i < length (vm_tags vm)" "vm_tags vm ! i = t" using t(1) by (auto simp: in_set_conv_nth)
  have fl: "freelist_ok vm {}" using ok by (simp add: arena_ok_def)
  from rem_freelist_ok [OF fl a(4) t(1) a(1-3)] obtain fc where fc:
    "when_cached rem_freelist vm t = Inr (vm\<lparr>vm_free_cache := fc\<rparr>)"
    "freelist_ok (vm\<lparr>vm_free_cache := fc\<rparr>) {bt_self t}" by auto
  have "bt_size t < 4294967296" using a(5) by simp
  then have lt: "bt_size t - n < vm_quantum vm" using small t(3) by simp
  have eq: "bt_size t = n"
  proof -
    have "vm_quantum vm dvd bt_size t - n" using a(3) n(2) by (rule dvd_diff_nat)
    then show ?thesis using lt t(3) by (metis dvd_imp_le le_antisym linorder_not_le diff_is_0_eq zero_less_diff)
  qed
  let ?vm = "vm\<lparr>vm_free_cache := fc\<rparr>"
  have "take_tag subsystem vm t n s = Inr ((i, ?vm), s)"
    using t(2) tag_index_ok [OF a(4) i(1)] i(2) fc(1) small by (simp add: take_tag_def)
  moreover have "taken vm n s i ?vm s"
    using ok fc(2) i t eq h coalesced_mark [of "vm_spans vm" "vm_tags vm" i t]
    by (auto simp: taken_def arena_ok_def same_arena_def allocs_def coalesced_def)
  ultimately show ?thesis using eq i by (intro exI [of _ i] exI [of _ ?vm]) simp
qed

lemma take_split:
  assumes ok: "arena_ok vm {}" and f: "tag_fits (vm_tags vm) n t" and n: "0 < n" "vm_quantum vm dvd n"
    and h: "heap_ok (vs_heap s)" "tags_live (live (vs_heap s)) (vm_tags vm)"
    and big: "sub32 (bt_size t) n \<ge> vm_quantum vm"
  shows "n < bt_size t \<and> (if \<exists>h'. kmalloc subsystem sizeof_vmem_bt (vs_heap s) = Inr (None, h')
    then take_tag subsystem vm t n s = Inl Null_deref
    else \<exists>i vm' s'. take_tag subsystem vm t n s = Inr ((i, vm'), s') \<and> taken vm n s i vm' s'
           \<and> bt_end (vm_tags vm' ! i) = bt_end t)"
proof -
  have t: "t \<in> set (vm_tags vm)" "bt_allocated t = VMEM_FREE" "n \<le> bt_size t" using f by (auto simp: tag_fits_def)
  note a = arena_tag [OF ok t(1)]
  obtain xs ys where ts: "vm_tags vm = xs @ t # ys" using t(1) by (meson split_list)
  have ti: "tag_index (vm_tags vm) (bt_self t) = Inr (length xs)"
    using tag_index_ok [OF a(4), of "length xs"] ts by (simp add: nth_append)
  have fl: "freelist_ok vm {}" using ok by (simp add: arena_ok_def)
  from rem_freelist_ok [OF fl a(4) t(1) a(1-3)] obtain fc where fc:
    "when_cached rem_freelist vm t = Inr (vm\<lparr>vm_free_cache := fc\<rparr>)"
    "freelist_ok (vm\<lparr>vm_free_cache := fc\<rparr>) {bt_self t}" by auto
  let ?vm1 = "vm\<lparr>vm_free_cache := fc\<rparr>"
  have ok1: "arena_ok ?vm1 {bt_self t}" using ok fc(2) by (simp add: arena_ok_def)
  have "bt_size t < 4294967296" using a(5) by simp
  then have s32: "sub32 (bt_size t) n = bt_size t - n" using t(3) by simp
  have nq: "n + vm_quantum vm \<le> bt_size t" using big s32 t(3) by simp
  have sz: "sizeof_vmem_bt < MAX_REQUEST" by (simp add: sizeof_vmem_bt_def MAX_REQUEST_def)
  show ?thesis
  proof (cases rule: malloc_cases [OF h(1) sz])
    case none: (1 h')
    have "vm_tags ?vm1 ! length xs = t" using ts by (simp add: nth_append)
    moreover obtain fc2 where "when_cached add_freelist ?vm1 t = Inr (?vm1\<lparr>vm_free_cache := fc2\<rparr>)"
      using add_freelist_ok [OF fc(2), of t] a t by auto
    ultimately have "take_tag subsystem vm t n s = Inl Null_deref"
      using t(2) ti fc(1) big none(1)
      by (simp add: take_tag_def vmem_al_splittag_def vm_kmalloc_def)
    with none(1) nq a(1) show ?thesis by auto
  next
    case some: (2 p h')
    let ?t1 = "t\<lparr>bt_size := bt_size t - n\<rparr>"
    let ?t2 = "\<lparr>bt_self = p, bt_addr = bt_addr t + (bt_size t - n), bt_size = n, bt_source_addr = None,
               bt_allocated = VMEM_FREE\<rparr>"
    let ?s1 = "s\<lparr>vs_heap := h'\<rparr>" and ?vm2 = "?vm1\<lparr>vm_tags := xs @ ?t1 # ?t2 # ys\<rparr>"
    have new: "p \<notin> bt_self ` set (vm_tags ?vm1)" using h(2) some(5) by (auto simp: tags_live_def)
    note cut = arena_ok_cut [OF ok1 _ t(2) n(1) _ _ new, of xs ys]
    have ok2: "arena_ok ?vm2 {bt_self t, p}" "allocs ?vm2 = allocs vm"
      using cut ts n nq by (simp_all add: allocs_def)
    have "u32 (bt_addr t + (bt_size t - n)) = bt_addr t + (bt_size t - n)" using a(5) by simp
    then have sp: "vmem_al_splittag subsystem ?vm1 (length xs) n s = Inr ((True, ?vm2), ?s1)"
      using some(1) ts t(2) s32 by (simp add: vmem_al_splittag_def vm_kmalloc_def Let_def)
    have t1: "vm_tags ?vm2 ! length xs = ?t1" "?t1 \<in> set (vm_tags ?vm2)" "vm_tags ?vm2 ! Suc (length xs) = ?t2"
      by (simp_all add: nth_append)
    note a2 = arena_tag [OF ok2(1) t1(2)]
    obtain fc2 where fc2: "when_cached add_freelist ?vm2 ?t1 = Inr (?vm2\<lparr>vm_free_cache := fc2\<rparr>)"
      "freelist_ok (?vm2\<lparr>vm_free_cache := fc2\<rparr>) ({bt_self t, p} - {bt_self t})"
      using add_freelist_ok [of ?vm2 "{bt_self t, p}" ?t1] ok2(1) a2 t1(2) t(2) by (auto simp: arena_ok_def)
    let ?vm3 = "?vm2\<lparr>vm_free_cache := fc2\<rparr>"
    have "take_tag subsystem vm t n s = Inr ((Suc (length xs), ?vm3), ?s1)"
      using t(2) ti fc(1) big sp fc2(1) t1(1) by (simp add: take_tag_def)
    moreover have "{bt_self t, p} - {bt_self t} = {p}" using new t(1) by auto
    moreover have "tags_live (live h') (vm_tags ?vm3)"
      using h(2) some(6) ts by (auto simp: tags_live_def)
    ultimately have "take_tag subsystem vm t n s = Inr ((Suc (length xs), ?vm3), ?s1)
        \<and> taken vm n s (Suc (length xs)) ?vm3 ?s1"
      using ok2 fc2(2) t1(3) some(2) t(2) ts
        coalesced_cut [of "vm_spans vm" xs t ys ?t1 "?t2\<lparr>bt_allocated := VMEM_ALLOCATED\<rparr>"]
      unfolding taken_def
      by (simp add: arena_ok_def same_arena_def allocs_def coalesced_def list_update_append)
    moreover have "bt_end (vm_tags ?vm3 ! Suc (length xs)) = bt_end t" using t1(3) t(3) by simp
    moreover have "\<not> (\<exists>h'. kmalloc subsystem sizeof_vmem_bt (vs_heap s) = Inr (None, h'))" using some(1) by simp
    ultimately show ?thesis using nq a(1) by auto
  qed
qed

lemma take_tag_ok:
  assumes "arena_ok vm {}" and "tag_fits (vm_tags vm) n t" and "0 < n" "vm_quantum vm dvd n"
    and "heap_ok (vs_heap s)" "tags_live (live (vs_heap s)) (vm_tags vm)"
  shows "if n < bt_size t \<and> (\<exists>h'. kmalloc subsystem sizeof_vmem_bt (vs_heap s) = Inr (None, h'))
    then take_tag subsystem vm t n s = Inl Null_deref
    else \<exists>i vm' s'. take_tag subsystem vm t n s = Inr ((i, vm'), s') \<and> taken vm n s i vm' s'
           \<and> bt_end (vm_tags vm' ! i) = bt_end t"
proof (cases "sub32 (bt_size t) n \<ge> vm_quantum vm")
  case True
  from take_split [OF assms True] show ?thesis by (simp split: if_splits)
next
  case False
  from take_whole [OF assms False] show ?thesis by auto
qed

text \<open>
  The state while a tag is being released: the free tag \<open>i\<close> is on no free list.
\<close>

definition released :: "vmem \<Rightarrow> 'h vmsys \<Rightarrow> nat \<Rightarrow> nat option \<Rightarrow> vmem \<Rightarrow> 'h vmsys \<Rightarrow> bool" where
  "released vm s i k vm' s' \<longleftrightarrow>
     i < length (vm_tags vm') \<and> arena_ok vm' {bt_self (vm_tags vm' ! i)} \<and> same_arena vm vm'
     \<and> bt_allocated (vm_tags vm' ! i) = VMEM_FREE
     \<and> vmem_getspan (vm_spans vm') (bt_addr (vm_tags vm' ! i)) = k
     \<and> allocs vm' = allocs vm \<and> heap_ok (vs_heap s') \<and> tags_live (live (vs_heap s')) (vm_tags vm')
     \<and> vs_arenas s' = vs_arenas s"

lemma free_tag_block:
  assumes "heap_ok (vs_heap s)" and "tags_live (live (vs_heap s)) (xs @ t # ys)"
    and "distinct (map bt_self (xs @ t # ys))"
  shows "\<exists>s'. vm_kfree subsystem (Some (bt_self t)) s = Inr s' \<and> heap_ok (vs_heap s')
    \<and> tags_live (live (vs_heap s')) (xs @ ys) \<and> vs_arenas s' = vs_arenas s"
proof -
  from assms(2) obtain m where "live (vs_heap s) (bt_self t) = Some m" by (auto simp: tags_live_def)
  from free_live [OF assms(1) this] obtain h where h: "kfree subsystem (Some (bt_self t)) (vs_heap s) = Inr h"
    "heap_ok h" "live h = (live (vs_heap s))(bt_self t := None)" by blast
  then have "tags_live (live h) (xs @ ys)" using assms(2,3) by (auto simp: tags_live_def image_iff)
  with h show ?thesis by (simp add: vm_kfree_def)
qed

text \<open>The common part of the two merges: \<open>t1\<close> and \<open>t2\<close> are free, one of them on its free list.\<close>

lemma melt_pair:
  assumes ok: "arena_ok vm {b}" and ts: "vm_tags vm = xs @ t1 # t2 # ys"
    and fr: "bt_allocated t1 = VMEM_FREE" "bt_allocated t2 = VMEM_FREE"
    and b: "b = bt_self t1 \<and> t = t2 \<or> b = bt_self t2 \<and> t = t1"
    and sp: "vmem_getspan (vm_spans vm) (bt_addr t2) = vmem_getspan (vm_spans vm) (bt_addr t1)"
    and h: "heap_ok (vs_heap s)" "tags_live (live (vs_heap s)) (vm_tags vm)"
  defines "m \<equiv> t1\<lparr>bt_size := u32 (bt_size t1 + bt_size t2)\<rparr>"
  shows "\<exists>fc s'. when_cached rem_freelist vm t = Inr (vm\<lparr>vm_free_cache := fc\<rparr>)
    \<and> vm_kfree subsystem (Some (bt_self t2)) s = Inr s'
    \<and> released vm s (length xs) (vmem_getspan (vm_spans vm) (bt_addr t1))
        (vm\<lparr>vm_free_cache := fc, vm_tags := xs @ m # ys\<rparr>) s'
    \<and> m = t1\<lparr>bt_size := bt_size t1 + bt_size t2\<rparr>"
proof -
  have t: "t \<in> set (vm_tags vm)" using b ts by auto
  note a = arena_tag [OF ok t]
  have "follows (vm_spans vm) t1 t2" using ok ts by (simp add: arena_ok_def tags_ok_def successively_append_iff)
  then have "bt_end t1 = bt_addr t2" using sp by (simp add: follows_def)
  moreover have "bt_end t2 < 4294967296" using arena_tag(5) [OF ok, of t2] ts by simp
  ultimately have m: "m = t1\<lparr>bt_size := bt_size t1 + bt_size t2\<rparr>" by (simp add: m_def)
  have "freelist_ok vm {b}" using ok by (simp add: arena_ok_def)
  from rem_freelist_ok [OF this a(4) t a(1-3)] obtain fc where fc:
    "when_cached rem_freelist vm t = Inr (vm\<lparr>vm_free_cache := fc\<rparr>)"
    "freelist_ok (vm\<lparr>vm_free_cache := fc\<rparr>) {bt_self t1, bt_self t2}" using b by (auto simp: insert_commute)
  let ?vm1 = "vm\<lparr>vm_free_cache := fc\<rparr>"
  have ok1: "arena_ok ?vm1 {bt_self t1, bt_self t2}" using ok fc(2) by (simp add: arena_ok_def)
  note mt = arena_ok_melt [OF ok1 _ fr, of xs ys]
  have d: "distinct (map bt_self ((xs @ [t1]) @ t2 # ys))" using a(4) ts by simp
  have "tags_live (live (vs_heap s)) ((xs @ [t1]) @ t2 # ys)" using h(2) ts by simp
  from free_tag_block [OF h(1) this d] obtain s' where s': "vm_kfree subsystem (Some (bt_self t2)) s = Inr s'"
    "heap_ok (vs_heap s')" "tags_live (live (vs_heap s')) ((xs @ [t1]) @ ys)" "vs_arenas s' = vs_arenas s" by blast
  have "released vm s (length xs) (vmem_getspan (vm_spans vm) (bt_addr t1)) (?vm1\<lparr>vm_tags := xs @ m # ys\<rparr>) s'"
    unfolding released_def using mt ts sp s' fr
    by (simp add: m_def same_arena_def allocs_def tags_live_def)
  with fc(1) s'(1) m show ?thesis by (intro exI [of _ fc] exI [of _ s']) simp
qed

lemma melt_left_ok:
  assumes r: "released vm0 s0 (length xs) (Some k) vm s" and span: "sp_addr span = sp_addr (vm_spans vm ! k)"
    and ts: "vm_tags vm = xs @ t # ys" and jl: "join_left (vm_spans vm) xs t = (xs', t')"
  shows "\<exists>vm' s'. melt_left subsystem span vm (length xs) s = Inr ((length xs', vm'), s')
    \<and> released vm0 s0 (length xs') (Some k) vm' s' \<and> vm_tags vm' = xs' @ t' # ys"
proof -
  note d = r [unfolded released_def]
  have t: "vm_tags vm ! length xs = t" using ts by simp
  have g2: "vmem_getspan (vm_spans vm) (bt_addr t) = Some k" using d t by simp
  show ?thesis
  proof (cases "xs = [] \<or> \<not> (bt_allocated (last xs) = VMEM_FREE \<and> bt_addr (last xs) \<ge> sp_addr span)")
    case True
    then have "xs = [] \<or> \<not> joins (vm_spans vm) (last xs) t"
      using g2 span getspan_Some [of "vm_spans vm" "bt_addr (last xs)" k] by (auto simp: joins_def)
    then have "xs' = xs" "t' = t" using jl by (auto simp: join_left_def split: if_splits)
    moreover have "xs \<noteq> [] \<Longrightarrow> vm_tags vm ! (length xs - 1) = last xs" using ts by (simp add: nth_append last_conv_nth)
    ultimately show ?thesis using r ts True by (auto simp: melt_left_def Let_def)
  next
    case False
    let ?u = "last xs" and ?zs = "butlast xs"
    have xs: "xs = ?zs @ [?u]" using False by simp
    have ts2: "vm_tags vm = ?zs @ ?u # t # ys" using ts False by (metis append.assoc append_Cons append_Nil append_butlast_last_id)
    note o = conjunct1 [OF conjunct2 [OF d], unfolded arena_ok_def]
    have tg: "tags_ok (vm_quantum vm) (vm_spans vm) (?zs @ ?u # t # ys)" using o ts2 by simp
    then have le: "bt_end ?u \<le> bt_addr t" by (simp add: tags_ok_def successively_append_iff follows_def)
    have kl: "k < length (vm_spans vm)" "sp_addr (vm_spans vm ! k) + sp_size (vm_spans vm ! k) < 4294967296"
      using getspan_Some [OF g2] o by (auto simp: spans_ok_def)
    have "bt_addr ?u < sp_addr (vm_spans vm ! k) + sp_size (vm_spans vm ! k)"
      using getspan_Some [OF g2] kl(2) le by simp
    then have g1: "vmem_getspan (vm_spans vm) (bt_addr ?u) = Some k"
      using getspan_inside [of "vm_quantum vm" "vm_spans vm" k] o kl(1) False span by simp
    have fr: "bt_allocated ?u = VMEM_FREE" "bt_allocated t = VMEM_FREE" using d t False by simp_all
    have ok: "arena_ok vm {bt_self t}" and h: "heap_ok (vs_heap s)" "tags_live (live (vs_heap s)) (vm_tags vm)"
      using d t by simp_all
    have j: "xs' = ?zs" "t' = ?u\<lparr>bt_size := bt_size ?u + bt_size t\<rparr>"
      using jl False g1 g2 fr by (auto simp: join_left_def joins_def)
    from melt_pair [OF ok ts2 fr _ _ h, of ?u] g1 g2 j(2) obtain fc s' where m:
      "when_cached rem_freelist vm ?u = Inr (vm\<lparr>vm_free_cache := fc\<rparr>)"
      "vm_kfree subsystem (Some (bt_self t)) s = Inr s'"
      "released vm s (length ?zs) (Some k) (vm\<lparr>vm_free_cache := fc, vm_tags := ?zs @ t' # ys\<rparr>) s'"
      "?u\<lparr>bt_size := u32 (bt_size ?u + bt_size t)\<rparr> = t'" by auto
    let ?vm' = "vm\<lparr>vm_free_cache := fc, vm_tags := ?zs @ t' # ys\<rparr>"
    have "released vm0 s0 (length xs') (Some k) ?vm' s'"
      using d m(3) j(1) unfolding released_def same_arena_def by simp
    moreover have "vm_tags vm ! (length xs - 1) = ?u" "take (length xs - 1) (vm_tags vm) = ?zs"
      "drop (Suc (length xs)) (vm_tags vm) = ys" "length xs - 1 = length xs'"
      using ts False j(1) by (simp_all add: nth_append last_conv_nth butlast_conv_take)
    then have "melt_left subsystem span vm (length xs) s = Inr ((length xs', ?vm'), s')"
      using False m(1,2,4) t by (simp add: melt_left_def Let_def)
    ultimately show ?thesis using j(1) by (intro exI [of _ ?vm'] exI [of _ s']) simp
  qed
qed

lemma melt_right_ok:
  assumes r: "released vm0 s0 (length xs) (Some k) vm s"
    and span: "sp_addr span = sp_addr (vm_spans vm ! k)" "sp_size span = sp_size (vm_spans vm ! k)"
    and ts: "vm_tags vm = xs @ t # ys" and jr: "join_right (vm_spans vm) t ys = (t', ys')"
  shows "\<exists>vm' s'. melt_right subsystem span vm (length xs) s = Inr (vm', s')
    \<and> released vm0 s0 (length xs) (Some k) vm' s' \<and> vm_tags vm' = xs @ t' # ys'"
proof -
  note d = r [unfolded released_def]
  have t: "vm_tags vm ! length xs = t" using ts by simp
  have g1: "vmem_getspan (vm_spans vm) (bt_addr t) = Some k" using d t by simp
  show ?thesis
  proof (cases "ys = [] \<or> \<not> (bt_allocated (hd ys) = VMEM_FREE \<and> bt_addr (hd ys) < u32 (sp_addr span + sp_size span))")
    case True
    then have "ys = [] \<or> \<not> joins (vm_spans vm) t (hd ys)"
      using g1 span getspan_Some [of "vm_spans vm" "bt_addr (hd ys)" k] by (auto simp: joins_def)
    then have "ys' = ys" "t' = t" using jr by (auto simp: join_right_def split: if_splits)
    moreover have "ys \<noteq> [] \<Longrightarrow> vm_tags vm ! Suc (length xs) = hd ys"
      using ts by (cases ys) (simp_all add: nth_append)
    ultimately show ?thesis using r ts True by (auto simp: melt_right_def Let_def)
  next
    case False
    then obtain u zs where ys: "ys = u # zs" by (cases ys) auto
    have ts2: "vm_tags vm = xs @ t # u # zs" using ts ys by simp
    note o = conjunct1 [OF conjunct2 [OF d], unfolded arena_ok_def]
    have tg: "tags_ok (vm_quantum vm) (vm_spans vm) (xs @ t # u # zs)" using o ts2 by simp
    then have le: "bt_end t \<le> bt_addr u" by (simp add: tags_ok_def successively_append_iff follows_def)
    have kl: "k < length (vm_spans vm)" "sp_addr (vm_spans vm ! k) + sp_size (vm_spans vm ! k) < 4294967296"
      using getspan_Some [OF g1] o by (auto simp: spans_ok_def)
    have "bt_addr u < sp_addr (vm_spans vm ! k) + sp_size (vm_spans vm ! k)" using False span kl(2) ys by simp
    then have g2: "vmem_getspan (vm_spans vm) (bt_addr u) = Some k"
      using getspan_inside [of "vm_quantum vm" "vm_spans vm" k] o kl(1) getspan_Some [OF g1] le by simp
    have fr: "bt_allocated t = VMEM_FREE" "bt_allocated u = VMEM_FREE" using d t False ys by simp_all
    have ok: "arena_ok vm {bt_self t}" and h: "heap_ok (vs_heap s)" "tags_live (live (vs_heap s)) (vm_tags vm)"
      using d t by simp_all
    have j: "ys' = zs" "t' = t\<lparr>bt_size := bt_size t + bt_size u\<rparr>"
      using jr ys g1 g2 fr by (auto simp: join_right_def joins_def)
    from melt_pair [OF ok ts2 fr _ _ h, of u] g1 g2 j(2) obtain fc s' where m:
      "when_cached rem_freelist vm u = Inr (vm\<lparr>vm_free_cache := fc\<rparr>)"
      "vm_kfree subsystem (Some (bt_self u)) s = Inr s'"
      "released vm s (length xs) (Some k) (vm\<lparr>vm_free_cache := fc, vm_tags := xs @ t' # zs\<rparr>) s'"
      "t\<lparr>bt_size := u32 (bt_size t + bt_size u)\<rparr> = t'" by auto
    let ?vm' = "vm\<lparr>vm_free_cache := fc, vm_tags := xs @ t' # zs\<rparr>"
    have "released vm0 s0 (length xs) (Some k) ?vm' s'"
      using d m(3) unfolding released_def same_arena_def by simp
    moreover have "vm_tags vm ! Suc (length xs) = u" "take (length xs) (vm_tags vm) = xs"
      "drop (Suc (Suc (length xs))) (vm_tags vm) = zs" using ts2 by (simp_all add: nth_append)
    then have "melt_right subsystem span vm (length xs) s = Inr (?vm', s')"
      using False m(1,2,4) t ys ts2 by (simp add: melt_right_def Let_def)
    ultimately show ?thesis using j(1) by (intro exI [of _ ?vm'] exI [of _ s']) simp
  qed
qed

text \<open>\<^verbatim>\<open>vmem_free\<close> of an allocated range of an arena without a source.\<close>

lemma vmem_free_ok:
  assumes ar: "vs_arenas s p = Some vm" and ok: "arena_ok vm {}" and src: "vm_source vm = None"
    and al: "(a, m) \<in> allocs vm" and h: "heap_ok (vs_heap s)" "tags_live (live (vs_heap s)) (vm_tags vm)"
  shows "\<exists>vm' s'. vmem_free_with ff subsystem p a s = Inr (Some a, s') \<and> vs_arenas s' = (vs_arenas s)(p \<mapsto> vm')
    \<and> arena_ok vm' {} \<and> vm_source vm' = None \<and> vm_quantum vm' = vm_quantum vm
    \<and> allocs vm' = allocs vm - {(a, m)} \<and> heap_ok (vs_heap s') \<and> tags_live (live (vs_heap s')) (vm_tags vm')
    \<and> (\<exists>xs t ys. vm_tags vm = xs @ t # ys \<and> bt_addr t = a \<and> bt_size t = m
         \<and> vm_tags vm' = free_in (vm_spans vm) xs t ys)
    \<and> (coalesced vm \<longrightarrow> coalesced vm')"
proof -
  let ?q = "vm_quantum vm" and ?sps = "vm_spans vm"
  note o = ok [unfolded arena_ok_def]
  obtain t where t: "t \<in> set (vm_tags vm)" "bt_allocated t = VMEM_ALLOCATED" "bt_addr t = a" "bt_size t = m"
    using al by (auto simp: allocs_def)
  obtain xs ys where ts: "vm_tags vm = xs @ t # ys" using t(1) by (meson split_list)
  have qs: "0 < ?q" "spans_ok ?q ?sps" and tk: "tag_ok ?q ?sps t" using o t(1) by (auto simp: tags_ok_def)
  from tag_slot [OF qs tk] obtain k j where kj: "vmem_getspan ?sps a = Some k" "k < length ?sps"
    "j = (a - sp_addr (?sps ! k)) div ?q" "j < sp_size (?sps ! k) div ?q"
    "bt_addr t = sp_addr (?sps ! k) + j * ?q" "length (sp_hash (?sps ! k)) = sp_size (?sps ! k) div ?q"
    using t(3) by blast
  have hs: "sp_hash (?sps ! k) ! j = Some (bt_self t)"
    using o kj(2,4,5) t(1,2) unfolding hash_ok_def by blast
  have ti: "tag_index (vm_tags vm) (bt_self t) = Inr (length xs)" "vm_tags vm ! length xs = t"
    using tag_index_ok [of "vm_tags vm" "length xs"] o ts by (simp_all add: tags_ok_def nth_append)
  let ?t' = "t\<lparr>bt_allocated := VMEM_FREE\<rparr>"
  let ?vm1 = "vm\<lparr>vm_spans := ?sps[k := (?sps ! k)\<lparr>sp_hash := (sp_hash (?sps ! k))[j := None]\<rparr>], vm_tags := xs @ ?t' # ys\<rparr>"
  note u = unmark_tag_ok [OF ok ts t(2) kj(2,4,5,6)]
  have "released ?vm1 s (length xs) (Some k) ?vm1 s"
    unfolding released_def same_arena_def using u(1) h ts kj(1,2) t(3)
    by (simp add: tags_live_def getspan_hash_update)
  moreover have sp: "sp_addr (?sps ! k) = sp_addr (vm_spans ?vm1 ! k)" "sp_size (?sps ! k) = sp_size (vm_spans ?vm1 ! k)"
    using kj(2) by simp_all
  moreover obtain xs1 t1 where jl: "join_left (vm_spans ?vm1) xs ?t' = (xs1, t1)" by fastforce
  ultimately obtain vm2 s2 where m2:
    "melt_left subsystem (?sps ! k) ?vm1 (length xs) s = Inr ((length xs1, vm2), s2)"
    "released ?vm1 s (length xs1) (Some k) vm2 s2" "vm_tags vm2 = xs1 @ t1 # ys"
    using melt_left_ok [of ?vm1 s xs k ?vm1 s "?sps ! k" ?t' ys xs1 t1] by auto
  let ?i2 = "length xs1"
  have sp2: "vm_spans vm2 = vm_spans ?vm1" using m2(2) by (simp add: released_def same_arena_def)
  then have "sp_addr (?sps ! k) = sp_addr (vm_spans vm2 ! k)" "sp_size (?sps ! k) = sp_size (vm_spans vm2 ! k)"
    using sp by simp_all
  moreover obtain t2 ys1 where jr: "join_right (vm_spans vm2) t1 ys = (t2, ys1)" by fastforce
  ultimately obtain vm3 s3 where m3:
    "melt_right subsystem (?sps ! k) vm2 ?i2 s2 = Inr (vm3, s3)" "released ?vm1 s ?i2 (Some k) vm3 s3"
    "vm_tags vm3 = xs1 @ t2 # ys1"
    using melt_right_ok [OF m2(2), of "?sps ! k" t1 ys t2 ys1] m2(3) by auto
  have "vm_tags vm3 = free_in (vm_spans ?vm1) xs t ys"
    using m3(3) jl jr sp2 by (simp add: free_in_def)
  then have tags3: "vm_tags vm3 = free_in ?sps xs t ys" using kj(2) by (simp add: free_in_rehash)
  note d3 = m3(2) [unfolded released_def]
  let ?t3 = "vm_tags vm3 ! ?i2"
  have t3: "?t3 \<in> set (vm_tags vm3)" and ok3: "arena_ok vm3 {bt_self ?t3}" using d3 by simp_all
  note a3 = arena_tag [OF ok3 t3]
  obtain fc where fc: "when_cached add_freelist vm3 ?t3 = Inr (vm3\<lparr>vm_free_cache := fc\<rparr>)"
    "freelist_ok (vm3\<lparr>vm_free_cache := fc\<rparr>) {}"
    using add_freelist_ok [of vm3 "{bt_self ?t3}" ?t3] ok3 t3 a3 d3 by (auto simp: arena_ok_def)
  let ?vm4 = "vm3\<lparr>vm_free_cache := fc\<rparr>"
  have upd: "(vm_tags vm)[length xs := ?t'] = xs @ ?t' # ys" using ts by simp
  have "vmem_free_with ff subsystem p a s = Inr (Some a, put_arena p ?vm4 s3)"
    using ar kj(1,2,4,6) hs ti t(2) src qs(1) m2(1) m3(1) fc(1)
    by (simp add: vmem_free_with_def get_arena_def Let_def kj(3) [symmetric] upd)
  moreover have "arena_ok ?vm4 {}" using ok3 fc(2) by (simp add: arena_ok_def)
  moreover have "allocs ?vm4 = allocs vm - {(a, m)}" using d3 u(2) t(3,4) by (simp add: allocs_def)
  moreover have "coalesced vm \<longrightarrow> coalesced ?vm4"
  proof
    assume "coalesced vm"
    then have "successively (\<lambda>t u. \<not> joins ?sps t u) (free_in ?sps xs t ys)"
      unfolding coalesced_def ts by (rule free_in_coalesced)
    moreover have "joins (vm_spans vm3) = joins ?sps"
      using d3 kj(2) by (simp add: same_arena_def joins_rehash)
    ultimately show "coalesced ?vm4" using tags3 by (simp add: coalesced_def)
  qed
  moreover have "\<exists>xs t ys. vm_tags vm = xs @ t # ys \<and> bt_addr t = a \<and> bt_size t = m
      \<and> vm_tags ?vm4 = free_in (vm_spans vm) xs t ys"
    using ts t(3,4) tags3 by (intro exI [of _ xs] exI [of _ t] exI [of _ ys]) simp
  ultimately show ?thesis
    using d3 src by (intro exI [of _ ?vm4] exI [of _ "put_arena p ?vm4 s3"]) (simp add: put_arena_def same_arena_def)
qed

text \<open>The outcome of an allocation of \<open>n\<close> units, \<open>n\<close> a multiple of the quantum.\<close>

definition alloc_post :: "vmem \<Rightarrow> nat \<Rightarrow> nat \<Rightarrow> 'h vmsys \<Rightarrow> nat \<Rightarrow> vmem \<Rightarrow> 'h vmsys \<Rightarrow> bool" where
  "alloc_post vm p n s a vm' s' \<longleftrightarrow>
     vs_arenas s' = (vs_arenas s)(p \<mapsto> vm') \<and> arena_ok vm' {} \<and> vm_source vm' = None
     \<and> vm_quantum vm' = vm_quantum vm \<and> allocs vm' = insert (a, n) (allocs vm)
     \<and> (\<forall>(b, m) \<in> allocs vm. a + n \<le> b \<or> b + m \<le> a)
     \<and> (\<exists>sp \<in> set (vm_spans vm). sp_addr sp \<le> a \<and> a + n \<le> sp_addr sp + sp_size sp)
     \<and> heap_ok (vs_heap s') \<and> tags_live (live (vs_heap s')) (vm_tags vm') \<and> (coalesced vm \<longrightarrow> coalesced vm')"

lemma mark_post:
  assumes tk: "taken vm n s i vm1 s1" and src: "vm_source vm = None"
  shows "\<exists>vm2. mark_tag vm1 i = Inr vm2 \<and> vm_source vm2 = None \<and> i < length (vm_tags vm2)
    \<and> alloc_post vm p n s (bt_addr (vm_tags vm2 ! i)) vm2 (put_arena p vm2 s1)
    \<and> bt_addr (vm_tags vm2 ! i) = bt_addr (vm_tags vm1 ! i)"
proof -
  note d = tk [unfolded taken_def same_arena_def]
  let ?t = "vm_tags vm1 ! i" and ?t' = "(vm_tags vm1 ! i)\<lparr>bt_allocated := VMEM_ALLOCATED\<rparr>"
  have ok1: "arena_ok vm1 {bt_self ?t}" and i: "i < length (vm_tags vm1)" and fr: "bt_allocated ?t = VMEM_FREE"
    using d by simp_all
  from mark_tag_ok [OF ok1 i refl fr] obtain sps where m: "mark_tag vm1 i = Inr (vm1\<lparr>vm_tags := (vm_tags vm1)[i := ?t'], vm_spans := sps\<rparr>)"
    "arena_ok (vm1\<lparr>vm_tags := (vm_tags vm1)[i := ?t'], vm_spans := sps\<rparr>) {}"
    "joins sps = joins (vm_spans vm1)" by blast
  let ?vm2 = "vm1\<lparr>vm_tags := (vm_tags vm1)[i := ?t'], vm_spans := sps\<rparr>"
  have tag: "?t \<in> set (vm_tags vm1)" and tg: "tags_ok (vm_quantum vm1) (vm_spans vm1) (vm_tags vm1)"
    using i ok1 by (simp_all add: arena_ok_def)
  have al: "allocs ?vm2 = insert (bt_addr ?t, n) (allocs vm)"
    using allocs_insert [of vm1 "take i (vm_tags vm1)" ?t "drop (Suc i) (vm_tags vm1)"] i d
    by (simp add: allocs_def upd_conv_take_nth_drop id_take_nth_drop [symmetric])
  have dj: "\<forall>(b, m) \<in> allocs vm. bt_addr ?t + n \<le> b \<or> b + m \<le> bt_addr ?t"
  proof (clarify)
    fix b m assume "(b, m) \<in> allocs vm" and nle: "\<not> b + m \<le> bt_addr ?t"
    then have "(b, m) \<in> allocs vm1" using d by simp
    then obtain u where u: "u \<in> set (vm_tags vm1)" "bt_allocated u = VMEM_ALLOCATED" "b = bt_addr u" "m = bt_size u"
      by (auto simp: allocs_def)
    then have "u \<noteq> ?t" using fr by auto
    from tags_disjoint [OF tg u(1) tag this] nle u(3,4) d show "bt_addr ?t + n \<le> b" by auto
  qed
  have "tag_ok (vm_quantum vm1) (vm_spans vm1) ?t" using tg tag by (simp add: tags_ok_def)
  then obtain k where k: "vmem_getspan (vm_spans vm1) (bt_addr ?t) = Some k"
    "bt_end ?t \<le> sp_addr (vm_spans vm1 ! k) + sp_size (vm_spans vm1 ! k)" by (auto simp: tag_ok_def split: option.splits)
  then have sp: "\<exists>sp \<in> set (vm_spans vm). sp_addr sp \<le> bt_addr ?t \<and> bt_addr ?t + n \<le> sp_addr sp + sp_size sp"
    using getspan_Some [OF k(1)] d by (intro bexI [of _ "vm_spans vm1 ! k"]) simp_all
  have "tags_live (live (vs_heap s1)) (vm_tags ?vm2)"
    using d by (auto simp: tags_live_def dest!: set_update_subset_insert [THEN subsetD])
  then have "alloc_post vm p n s (bt_addr ?t) ?vm2 (put_arena p ?vm2 s1)"
    unfolding alloc_post_def using m(2,3) d src al dj sp by (simp add: put_arena_def coalesced_def)
  moreover have "bt_addr (vm_tags ?vm2 ! i) = bt_addr ?t" using i by simp
  ultimately show ?thesis using m(1) i d src by (intro exI [of _ ?vm2]) simp
qed

lemma vmem_alloc_ok:
  assumes ar: "vs_arenas s p = Some vm" and ok: "arena_ok vm {}" and src: "vm_source vm = None"
    and r: "0 < rsize" "rsize + vm_quantum vm < 4294967296"
    and h: "heap_ok (vs_heap s)" "tags_live (live (vs_heap s)) (vm_tags vm)"
  defines "n \<equiv> round_size vm rsize"
  shows "(vmem_alloc (Suc d) ac fc subsystem p rsize vmflag s = Inr (None, s)
        \<and> pick_tag vm n vmflag = Inr None \<and> (\<forall>t. \<not> tag_fits (vm_tags vm) n t))
    \<or> (\<exists>t. pick_tag vm n vmflag = Inr (Some t) \<and> tag_fits (vm_tags vm) n t
        \<and> (if n < bt_size t \<and> (\<exists>h'. kmalloc subsystem sizeof_vmem_bt (vs_heap s) = Inr (None, h'))
            then vmem_alloc (Suc d) ac fc subsystem p rsize vmflag s = Inl Null_deref
            else \<exists>vm' s'. vmem_alloc (Suc d) ac fc subsystem p rsize vmflag s = Inr (Some (bt_end t - n), s')
                   \<and> alloc_post vm p n s (bt_end t - n) vm' s'))"
proof -
  let ?q = "vm_quantum vm" and ?n = "round_size vm rsize"
  note n_eq = n_def
  have q: "0 < ?q" using ok by (simp add: arena_ok_def)
  have n: "0 < ?n" "?q dvd ?n"
  proof -
    have "rsize + (?q - rsize mod ?q) = Suc (rsize div ?q) * ?q"
      using mod_less_divisor [OF q, of rsize] div_mult_mod_eq [of rsize ?q] unfolding mult_Suc by linarith
    moreover have "rsize + (?q - rsize mod ?q) < 4294967296" using r(2) by simp
    ultimately show "0 < ?n" "?q dvd ?n" using r(1) q by (auto simp: round_size_def mod_eq_0_iff_dvd)
  qed
  from pick_tag_ok [OF ok n, of vmflag] obtain r' where pk: "pick_tag vm ?n vmflag = Inr r'"
    "case r' of None \<Rightarrow> \<forall>t. \<not> tag_fits (vm_tags vm) ?n t | Some t \<Rightarrow> tag_fits (vm_tags vm) ?n t" by blast
  show ?thesis
  proof (cases r')
    case None
    then show ?thesis using pk ar r(1) q unfolding n_eq by (simp add: get_arena_def)
  next
    case (Some t)
    then have ft: "tag_fits (vm_tags vm) ?n t" using pk(2) by simp
    note tt = take_tag_ok [OF ok ft n h]
    show ?thesis
    proof (cases "?n < bt_size t \<and> (\<exists>h'. kmalloc subsystem sizeof_vmem_bt (vs_heap s) = Inr (None, h'))")
      case True
      then have "vmem_alloc (Suc d) ac fc subsystem p rsize vmflag s = Inl Null_deref"
        using pk(1) Some ar r(1) q tt by (simp add: get_arena_def)
      then show ?thesis using True pk(1) Some ft unfolding n_eq by auto
    next
      case False
      with tt obtain i vm1 s1 where 2: "take_tag subsystem vm t ?n s = Inr ((i, vm1), s1)"
        "taken vm ?n s i vm1 s1" "bt_end (vm_tags vm1 ! i) = bt_end t" by (auto split: if_splits)
      from mark_post [OF 2(2) src] obtain vm2 where m: "mark_tag vm1 i = Inr vm2" "vm_source vm2 = None"
        "alloc_post vm p ?n s (bt_addr (vm_tags vm2 ! i)) vm2 (put_arena p vm2 s1)"
        "bt_addr (vm_tags vm2 ! i) = bt_addr (vm_tags vm1 ! i)" by blast
      have a: "bt_addr (vm_tags vm2 ! i) = bt_end t - ?n" using m(4) 2(2,3) by (simp add: taken_def)
      have "vmem_alloc (Suc d) ac fc subsystem p rsize vmflag s
          = Inr (Some (bt_addr (vm_tags vm2 ! i)), put_arena p vm2 s1)"
        using pk(1) Some ar r(1) q 2(1) m(1,2) by (simp add: get_arena_def Let_def)
      with m(3) a have "\<exists>vm' s'. vmem_alloc (Suc d) ac fc subsystem p rsize vmflag s = Inr (Some (bt_end t - ?n), s')
                   \<and> alloc_post vm p ?n s (bt_end t - ?n) vm' s'" by auto
      then show ?thesis using False pk(1) Some ft unfolding n_eq by auto
    qed
  qed
qed

end

end
