(* ===== verification/Vmem_Props.thy ===== *)
theory Vmem_Props
  imports Vmem_Arena
begin

text \<open>
  The properties of the arena allocator on the kernel heap: creation yields a well-formed arena and
  destruction gives back what it owns, allocation hands out a range disjoint from all others, release
  undoes it, and the searches choose the tag that the flags ask for.
\<close>

section \<open>Sizes and their highest bit\<close>

lemma bsr_1 [simp]: "bsr (Suc 0) = 0"
  by (simp add: bsr.simps)

lemma bsr_bounds: "0 < n \<Longrightarrow> 2 ^ bsr n \<le> n \<and> n < 2 ^ Suc (bsr n)"
proof (induction n rule: bsr.induct)
  case (1 n)
  show ?case
  proof (cases "n \<le> 1")
    case True
    then show ?thesis using 1 by (simp add: bsr.simps [of n])
  next
    case False
    then have "2 ^ bsr (n div 2) \<le> n div 2 \<and> n div 2 < 2 ^ Suc (bsr (n div 2))" using 1 by simp
    then show ?thesis using False by (simp add: bsr.simps [of n]) linarith
  qed
qed

lemma bsr_less: "0 < n \<Longrightarrow> n < 2 ^ k \<Longrightarrow> bsr n < k"
  using bsr_bounds [of n] power_strict_increasing_iff [of "2 :: nat" "bsr n" k] by linarith

text \<open>The order of the free lists: a tag on a later list is larger.\<close>

lemma bsr_later_fits:
  assumes "0 < q" and "q dvd n" and "0 < m div q" and "bsr (n div q) < bsr (m div q)"
  shows "n \<le> m"
proof (cases "n div q = 0")
  case True
  then show ?thesis using assms(1,2) by (auto elim!: dvdE)
next
  case False
  then have "n div q < 2 ^ Suc (bsr (n div q))" using bsr_bounds by blast
  also have "\<dots> \<le> 2 ^ bsr (m div q)" using assms(4) by (intro power_increasing) simp_all
  also have "\<dots> \<le> m div q" using assms(3) bsr_bounds by blast
  finally have "n div q * q \<le> m div q * q" by simp
  also have "\<dots> \<le> m" by simp
  finally show ?thesis using assms(2) by simp
qed

section \<open>Creation and destruction\<close>

text \<open>The heap blocks of an arena.\<close>

definition owned :: "nat \<Rightarrow> vmem \<Rightarrow> nat list" where
  "owned p vm = map bt_self (vm_tags vm) @ concat (map (\<lambda>sp. [sp_hash_ptr sp, sp_self sp]) (vm_spans vm))
     @ [vm_free_ptr vm, p]"

definition owns :: "(nat \<Rightarrow> nat option) \<Rightarrow> nat \<Rightarrow> vmem \<Rightarrow> bool" where
  "owns lv p vm \<longleftrightarrow> distinct (owned p vm) \<and> (\<forall>b \<in> set (owned p vm). lv b \<noteq> None)"

text \<open>The first span of an arena.\<close>

definition first_span :: "vmem \<Rightarrow> nat \<Rightarrow> nat \<Rightarrow> vmem \<Rightarrow> bool" where
  "first_span vm base n vm' \<longleftrightarrow>
     arena_ok vm' {} \<and> allocs vm' = {} \<and> vm_source vm' = vm_source vm \<and> vm_quantum vm' = vm_quantum vm
     \<and> vm_free_ptr vm' = vm_free_ptr vm
     \<and> map (\<lambda>t. (bt_addr t, bt_size t)) (vm_tags vm') = [(base, n)]
     \<and> map (\<lambda>sp. (sp_addr sp, sp_size sp)) (vm_spans vm') = [(base, n)]"

lemma first_span_ok:
  assumes vm: "vm_tags vm = []" "vm_spans vm = []" "vm_free_cache vm = replicate (vm_cache_bits vm) []"
    and q: "0 < vm_quantum vm" "vm_quantum vm dvd n" "0 < n" "base + n < 4294967296"
    and sp: "sp_addr sp = base" "sp_size sp = n" "sp_hash sp = replicate (n div vm_quantum vm) None"
    and bt: "bt_addr bt = base" "bt_size bt = n" "bt_allocated bt = VMEM_FREE"
  shows "\<exists>fc. when_cached add_freelist (vm\<lparr>vm_spans := [sp], vm_tags := [bt]\<rparr>) bt
      = Inr (vm\<lparr>vm_spans := [sp], vm_tags := [bt], vm_free_cache := fc\<rparr>)
    \<and> first_span vm base n (vm\<lparr>vm_spans := [sp], vm_tags := [bt], vm_free_cache := fc\<rparr>)"
proof -
  let ?vm = "vm\<lparr>vm_spans := [sp], vm_tags := [bt]\<rparr>"
  have "freelist_ok ?vm {bt_self bt}" using vm by (simp add: freelist_ok_def)
  from add_freelist_ok [OF this, of bt] obtain fc where fc:
    "when_cached add_freelist ?vm bt = Inr (?vm\<lparr>vm_free_cache := fc\<rparr>)"
    "freelist_ok (?vm\<lparr>vm_free_cache := fc\<rparr>) {}" using q bt by auto
  moreover have "arena_ok (?vm\<lparr>vm_free_cache := fc\<rparr>) {}"
    using fc(2) q sp bt by (simp add: arena_ok_def spans_ok_def tags_ok_def tag_ok_def hash_ok_def)
  ultimately show ?thesis using vm sp bt by (auto simp: first_span_def allocs_def)
qed

context kernel_heap
begin

text \<open>Freeing a list of blocks.\<close>

definition freed :: "'h vmsys \<Rightarrow> nat list \<Rightarrow> 'h vmsys \<Rightarrow> bool" where
  "freed s bs s' \<longleftrightarrow> heap_ok (vs_heap s') \<and> live (vs_heap s') = live (vs_heap s) |` (- set bs)
     \<and> vs_arenas s' = vs_arenas s"

lemma freed_heap: "freed s bs s' \<Longrightarrow> heap_ok (vs_heap s')"
  by (simp add: freed_def)

lemma freed_Cons:
  assumes "heap_ok (vs_heap s)" and "live (vs_heap s) b \<noteq> None"
  shows "\<exists>s1. vm_kfree subsystem (Some b) s = Inr s1 \<and> freed s [b] s1"
proof -
  from assms(2) obtain m where "live (vs_heap s) b = Some m" by blast
  from free_live [OF assms(1) this] obtain h where "kfree subsystem (Some b) (vs_heap s) = Inr h"
    "heap_ok h" "live h = (live (vs_heap s))(b := None)" by blast
  then show ?thesis by (auto simp: vm_kfree_def freed_def restrict_map_def fun_eq_iff)
qed

lemma freed_trans: "freed s bs s1 \<Longrightarrow> freed s1 cs s2 \<Longrightarrow> freed s (bs @ cs) s2"
  by (auto simp: freed_def restrict_map_def fun_eq_iff)

lemma freed_step:
  assumes "heap_ok (vs_heap s)" and "live (vs_heap s) b \<noteq> None"
    and "\<And>s1. heap_ok (vs_heap s1) \<Longrightarrow> live (vs_heap s1) = live (vs_heap s) |` (- {b}) \<Longrightarrow>
       \<exists>s2. f s1 = Inr s2 \<and> freed s1 bs s2"
  shows "\<exists>s2. bindR (vm_kfree subsystem (Some b) s) f = Inr s2 \<and> freed s (b # bs) s2"
proof -
  from freed_Cons [OF assms(1,2)] obtain s1 where s1: "vm_kfree subsystem (Some b) s = Inr s1" "freed s [b] s1" by blast
  then obtain s2 where "f s1 = Inr s2" "freed s1 bs s2" using assms(3) [of s1] by (auto simp: freed_def)
  with s1 freed_trans [OF s1(2)] show ?thesis by fastforce
qed

lemma free_tags_ok:
  "heap_ok (vs_heap s) \<Longrightarrow> distinct (map bt_self ts) \<Longrightarrow> tags_live (live (vs_heap s)) ts \<Longrightarrow>
   \<exists>s'. free_tags subsystem ts s = Inr s' \<and> freed s (map bt_self ts) s'"
proof (induction ts arbitrary: s)
  case Nil
  then show ?case by (simp add: freed_def restrict_map_def)
next
  case (Cons t ts)
  show ?case
    unfolding free_tags.simps list.map
  proof (rule freed_step)
    fix s1 :: "'h vmsys"
    assume s1: "heap_ok (vs_heap s1)" "live (vs_heap s1) = live (vs_heap s) |` (- {bt_self t})"
    have "tags_live (live (vs_heap s1)) ts"
      unfolding tags_live_def
    proof
      fix u assume "u \<in> set ts"
      then have "bt_self t \<noteq> bt_self u" "live (vs_heap s) (bt_self u) \<noteq> None"
        using Cons.prems by (auto simp: tags_live_def image_iff)
      then show "live (vs_heap s1) (bt_self u) \<noteq> None" using s1(2) by simp
    qed
    then show "\<exists>s2. free_tags subsystem ts s1 = Inr s2 \<and> freed s1 (map bt_self ts) s2"
      using Cons.IH [OF s1(1)] Cons.prems(2) by simp
  qed (use Cons.prems in \<open>auto simp: tags_live_def\<close>)
qed

lemma free_spans_ok:
  "heap_ok (vs_heap s) \<Longrightarrow> distinct (concat (map (\<lambda>sp. [sp_hash_ptr sp, sp_self sp]) sps)) \<Longrightarrow>
   \<forall>b \<in> set (concat (map (\<lambda>sp. [sp_hash_ptr sp, sp_self sp]) sps)). live (vs_heap s) b \<noteq> None \<Longrightarrow>
   \<exists>s'. free_spans subsystem sps s = Inr s' \<and> freed s (concat (map (\<lambda>sp. [sp_hash_ptr sp, sp_self sp]) sps)) s'"
proof (induction sps arbitrary: s)
  case Nil
  then show ?case by (simp add: freed_def restrict_map_def)
next
  case (Cons sp sps)
  show ?case
    unfolding free_spans.simps list.map concat.simps append.simps
  proof (intro freed_step)
    fix s1 s2 :: "'h vmsys"
    assume 1: "heap_ok (vs_heap s1)" "live (vs_heap s1) = live (vs_heap s) |` (- {sp_hash_ptr sp})"
      "heap_ok (vs_heap s2)" "live (vs_heap s2) = live (vs_heap s1) |` (- {sp_self sp})"
    show "\<exists>s3. free_spans subsystem sps s2 = Inr s3 \<and> freed s2 (concat (map (\<lambda>sp. [sp_hash_ptr sp, sp_self sp]) sps)) s3"
      by (rule Cons.IH) (use Cons.prems 1 in \<open>auto simp: restrict_map_def\<close>)
  qed (use Cons.prems in auto)
qed

lemma vmem_destroy_ok:
  assumes h: "heap_ok (vs_heap s)" and ar: "vs_arenas s p = Some vm" and ow: "owns (live (vs_heap s)) p vm"
  shows "\<exists>s'. vmem_destroy subsystem p s = Inr s' \<and> heap_ok (vs_heap s')
    \<and> live (vs_heap s') = live (vs_heap s) |` (- set (owned p vm)) \<and> vs_arenas s' = (vs_arenas s)(p := None)"
proof -
  let ?sps = "concat (map (\<lambda>sp. [sp_hash_ptr sp, sp_self sp]) (vm_spans vm))"
  note o = ow [unfolded owns_def owned_def]
  have tl: "distinct (map bt_self (vm_tags vm))" "tags_live (live (vs_heap s)) (vm_tags vm)"
    using o by (simp_all add: tags_live_def)
  from free_tags_ok [OF h this] obtain s1 where
    s1: "free_tags subsystem (vm_tags vm) s = Inr s1" "freed s (map bt_self (vm_tags vm)) s1" by blast
  have "\<forall>b \<in> set ?sps. live (vs_heap s1) b \<noteq> None" using o s1(2) by (auto simp: freed_def restrict_map_def)
  then obtain s2 where s2: "free_spans subsystem (vm_spans vm) s1 = Inr s2" "freed s1 ?sps s2"
    using free_spans_ok [of s1 "vm_spans vm"] o s1(2) by (auto simp: freed_def)
  have "live (vs_heap s2) (vm_free_ptr vm) \<noteq> None" "live (vs_heap s2) p \<noteq> None" "p \<noteq> vm_free_ptr vm"
    using o s1(2) s2(2) by (auto simp: freed_def restrict_map_def)
  moreover from this(1) obtain s3 where s3: "vm_kfree subsystem (Some (vm_free_ptr vm)) s2 = Inr s3"
    "freed s2 [vm_free_ptr vm] s3" using freed_Cons [OF freed_heap [OF s2(2)]] by blast
  ultimately have "live (vs_heap s3) p \<noteq> None" by (auto simp: freed_def restrict_map_def)
  then obtain s4 where s4: "vm_kfree subsystem (Some p) s3 = Inr s4" "freed s3 [p] s4"
    using freed_Cons [OF freed_heap [OF s3(2)]] by blast
  have "freed s (owned p vm) s4"
    using freed_trans [OF freed_trans [OF s1(2) s2(2)] freed_trans [OF s3(2) s4(2)]] by (simp add: owned_def)
  then show ?thesis
    using ar s1(1) s2(1) s3(1) s4(1) by (simp add: vmem_destroy_def get_arena_def freed_def)
qed

text \<open>One allocation: nothing changes, or there is a new block.\<close>

lemma vm_kmalloc_cases:
  assumes "heap_ok (vs_heap s)" and "n < MAX_REQUEST"
  obtains (none) s' where "vm_kmalloc subsystem n s = Inr (None, s')" "heap_ok (vs_heap s')"
      "live (vs_heap s') = live (vs_heap s)" "vs_arenas s' = vs_arenas s"
  | (some) b s' where "vm_kmalloc subsystem n s = Inr (Some b, s')" "heap_ok (vs_heap s')"
      "live (vs_heap s) b = None" "live (vs_heap s') = (live (vs_heap s))(b \<mapsto> n)" "vs_arenas s' = vs_arenas s"
proof (cases rule: malloc_cases [OF assms])
  case (1 h')
  with none [of "s\<lparr>vs_heap := h'\<rparr>"] show ?thesis by (simp add: vm_kmalloc_def)
next
  case (2 b h')
  with some [of b "s\<lparr>vs_heap := h'\<rparr>"] show ?thesis by (simp add: vm_kmalloc_def)
qed

lemma vmem_add_first:
  assumes h: "heap_ok (vs_heap s)" and ar: "vs_arenas s p = Some vm"
    and vm: "vm_tags vm = []" "vm_spans vm = []" "vm_free_cache vm = replicate (vm_cache_bits vm) []"
    and q: "0 < vm_quantum vm" "vm_quantum vm dvd n" "0 < n" "base + n < 4294967296"
    and small: "n div vm_quantum vm * 4 < MAX_REQUEST"
  shows "\<exists>s'. heap_ok (vs_heap s') \<and>
    (vmem_add subsystem p base n s = Inr (None, s') \<and> live (vs_heap s') = live (vs_heap s) \<and> vs_arenas s' = vs_arenas s
    \<or> (\<exists>vm'. vmem_add subsystem p base n s = Inr (Some base, s') \<and> vs_arenas s' = (vs_arenas s)(p \<mapsto> vm')
        \<and> first_span vm base n vm'
        \<and> (owns (live (vs_heap s)) p vm \<longrightarrow> owns (live (vs_heap s')) p vm'
             \<and> live (vs_heap s') |` (- set (owned p vm')) = live (vs_heap s) |` (- set (owned p vm)))))"
proof -
  let ?slots = "n div vm_quantum vm"
  have sz: "sizeof_vmem_span < MAX_REQUEST" "sizeof_vmem_bt < MAX_REQUEST" "u32 (?slots * 4) = ?slots * 4"
    using small by (simp_all add: sizeof_vmem_span_def sizeof_vmem_bt_def MAX_REQUEST_def)
  have nz: "vm_quantum vm \<noteq> 0" "n mod vm_quantum vm = 0" "base < u32 (base + n)" using q by simp_all
  note add = vmem_add_def get_arena_def ar nz q(1,3) sz(3) Let_def
  show ?thesis
  proof (cases rule: vm_kmalloc_cases [OF h sz(1)])
    case (1 s1)
    then show ?thesis by (intro exI [of _ s1]) (simp add: add)
  next
    case sp: (2 sp s1)
    show ?thesis
    proof (cases rule: vm_kmalloc_cases [OF sp(2) small])
      case (1 s2)
      then have "live (vs_heap s2) sp \<noteq> None" using sp(4) by simp
      from freed_Cons [OF 1(2) this] obtain s3 where "vm_kfree subsystem (Some sp) s2 = Inr s3" "freed s2 [sp] s3" by blast
      then show ?thesis using sp 1 by (intro exI [of _ s3]) (auto simp: add freed_def restrict_map_def fun_eq_iff)
    next
      case hp: (2 hp s2)
      have nsp: "sp \<noteq> hp" using hp(3) sp(4) by auto
      show ?thesis
      proof (cases rule: vm_kmalloc_cases [OF hp(2) sz(2)])
        case (1 s3)
        have "\<exists>s4. bindR (vm_kfree subsystem (Some hp) s3) (vm_kfree subsystem (Some sp)) = Inr s4 \<and> freed s3 [hp, sp] s4"
        proof (rule freed_step [OF 1(2)])
          fix s4 :: "'h vmsys"
          assume "heap_ok (vs_heap s4)" "live (vs_heap s4) = live (vs_heap s3) |` (- {hp})"
          then show "\<exists>s5. vm_kfree subsystem (Some sp) s4 = Inr s5 \<and> freed s4 [sp] s5"
            using nsp 1(3) hp(4) sp(4) by (intro freed_Cons) simp_all
        qed (use 1(3) hp(4) in simp)
        then obtain s4 s5 where "vm_kfree subsystem (Some hp) s3 = Inr s4" "vm_kfree subsystem (Some sp) s4 = Inr s5"
          "freed s3 [hp, sp] s5" by (auto simp: bindR_Inr_iff)
        then show ?thesis using sp hp 1 by (intro exI [of _ s5]) (auto simp: add freed_def restrict_map_def fun_eq_iff split: if_splits)
      next
        case b: (2 b s3)
        let ?sp = "\<lparr>sp_self = sp, sp_addr = base, sp_size = n, sp_slots = ?slots, sp_hash_ptr = hp, sp_hash = replicate ?slots None\<rparr>"
        let ?bt = "\<lparr>bt_self = b, bt_addr = base, bt_size = n, bt_source_addr = None, bt_allocated = VMEM_FREE\<rparr>"
        from first_span_ok [OF vm q, of ?sp ?bt] obtain fc where fc:
          "when_cached add_freelist (vm\<lparr>vm_spans := [?sp], vm_tags := [?bt]\<rparr>) ?bt
             = Inr (vm\<lparr>vm_spans := [?sp], vm_tags := [?bt], vm_free_cache := fc\<rparr>)"
          "first_span vm base n (vm\<lparr>vm_spans := [?sp], vm_tags := [?bt], vm_free_cache := fc\<rparr>)" by auto
        let ?vm = "vm\<lparr>vm_spans := [?sp], vm_tags := [?bt], vm_free_cache := fc\<rparr>"
        have "vmem_add subsystem p base n s = Inr (Some base, put_arena p ?vm s3)"
          using sp(1) hp(1) b(1) fc(1) vm by (simp add: add)
        moreover have "owns (live (vs_heap s3)) p ?vm \<and> live (vs_heap s3) |` (- set (owned p ?vm))
            = live (vs_heap s) |` (- set (owned p vm))" if "owns (live (vs_heap s)) p vm"
          using that vm nsp sp(3,4) hp(3,4) b(3,4)
          by (auto simp: owns_def owned_def restrict_map_def fun_eq_iff split: if_splits)
        ultimately show ?thesis
          using b(2,5) hp(5) sp(5) fc(2) by (intro exI [of _ "put_arena p ?vm s3"]) (auto simp: put_arena_def)
      qed
    qed
  qed
qed

text \<open>
  \<^verbatim>\<open>vmem_create\<close> with a non-empty first span: without memory it leaves nothing behind, otherwise the
  arena is well formed, and empty.
\<close>

lemma vmem_create_ok:
  assumes h: "heap_ok (vs_heap s)" "\<forall>p. live (vs_heap s) p = None \<longrightarrow> vs_arenas s p = None"
    and name: "0 \<in> set name \<or> VMEM_NAME_LENGTH \<le> length name"
    and q: "0 < quantum" "quantum dvd n" "0 < n" "0 < base" "base + n < 4294967296"
    and small: "n div quantum * 4 < MAX_REQUEST"
    and cm: "quantum \<le> qcache_max" "qcache_max < 4294967296"
  shows "\<exists>r s'. vmem_create subsystem name base n quantum afunc ffunc source qcache_max vmflag s = Inr (r, s')
    \<and> heap_ok (vs_heap s')
    \<and> (case r of
         None \<Rightarrow> live (vs_heap s') = live (vs_heap s) \<and> vs_arenas s' = vs_arenas s
       | Some p \<Rightarrow> \<exists>vm. live (vs_heap s) p = None \<and> vs_arenas s' = (vs_arenas s)(p \<mapsto> vm) \<and> arena_ok vm {}
           \<and> allocs vm = {} \<and> vm_source vm = source \<and> vm_quantum vm = quantum
           \<and> map (\<lambda>t. (bt_addr t, bt_size t)) (vm_tags vm) = [(base, n)]
           \<and> owns (live (vs_heap s')) p vm \<and> live (vs_heap s') |` (- set (owned p vm)) = live (vs_heap s))"
proof -
  have k: "0 < qcache_max div quantum" using q(1) cm(1) by (simp add: div_greater_zero_iff)
  have "qcache_max div quantum < 2 ^ 32" using cm(2) by (simp add: le_less_trans [OF div_le_dividend])
  then have hb: "bsr (qcache_max div quantum) < 32" using bsr_less [OF k] by blast
  let ?bits = "bsr (qcache_max div quantum) + 1"
  have sz: "sizeof_vmem < MAX_REQUEST" "4 * ?bits < MAX_REQUEST" using hb by (simp_all add: sizeof_vmem_def MAX_REQUEST_def)
  obtain nm where nm: "kstrncpy (replicate VMEM_NAME_LENGTH 0) name VMEM_NAME_LENGTH = Inr nm"
    using kstrncpy_loop_ok [of 0 VMEM_NAME_LENGTH "replicate VMEM_NAME_LENGTH 0" name] name by (auto simp: kstrncpy_def)
  have k': "\<not> qcache_max div quantum = 0" using k by simp
  note cr = vmem_create_def nm q(1,3) k' highbit_def Let_def
  show ?thesis
  proof (cases rule: vm_kmalloc_cases [OF h(1) sz(1)])
    case (1 s1)
    then show ?thesis by (simp add: cr)
  next
    case p: (2 p s1)
    show ?thesis
    proof (cases rule: vm_kmalloc_cases [OF p(2) sz(2)])
      case (1 s2)
      then have "live (vs_heap s2) p \<noteq> None" using p(4) by simp
      from freed_Cons [OF 1(2) this] obtain s3 where "vm_kfree subsystem (Some p) s2 = Inr s3" "freed s2 [p] s3" by blast
      then show ?thesis using p 1 by (auto simp: cr freed_def restrict_map_def fun_eq_iff)
    next
      case fp: (2 fp s2)
      let ?vm = "\<lparr>vm_self = p, vm_name = nm, vm_quantum = quantum, vm_cache_max = qcache_max,
                  vm_cache_bits = ?bits, vm_afunc_ptr = afunc, vm_ffunc_ptr = ffunc,
                  vm_source = source, vm_tags = [], vm_spans = [], vm_free_ptr = fp,
                  vm_free_cache = replicate ?bits [], vm_vmflag = vmflag\<rparr>"
      let ?s3 = "put_arena p ?vm s2"
      have ow: "owns (live (vs_heap ?s3)) p ?vm" "live (vs_heap ?s3) |` (- set (owned p ?vm)) = live (vs_heap s)"
        using p(3,4) fp(3,4) by (auto simp: owns_def owned_def put_arena_def restrict_map_def fun_eq_iff split: if_splits)
      from vmem_add_first [of ?s3 p ?vm n base] fp(2) q small obtain s4 where s4: "heap_ok (vs_heap s4)"
        "vmem_add subsystem p base n ?s3 = Inr (None, s4) \<and> live (vs_heap s4) = live (vs_heap ?s3) \<and> vs_arenas s4 = vs_arenas ?s3
        \<or> (\<exists>vm'. vmem_add subsystem p base n ?s3 = Inr (Some base, s4) \<and> vs_arenas s4 = (vs_arenas ?s3)(p \<mapsto> vm')
            \<and> first_span ?vm base n vm' \<and> owns (live (vs_heap s4)) p vm'
            \<and> live (vs_heap s4) |` (- set (owned p vm')) = live (vs_heap s))"
        using ow by (auto simp: put_arena_def)
      from s4(2) show ?thesis
      proof (elim disjE exE conjE)
        assume a: "vmem_add subsystem p base n ?s3 = Inr (None, s4)" "live (vs_heap s4) = live (vs_heap ?s3)"
          "vs_arenas s4 = vs_arenas ?s3"
        then obtain s5 where "vmem_destroy subsystem p s4 = Inr s5" "heap_ok (vs_heap s5)"
          "live (vs_heap s5) = live (vs_heap s)" "vs_arenas s5 = (vs_arenas ?s3)(p := None)"
          using vmem_destroy_ok [OF s4(1), of p ?vm] ow by (auto simp: put_arena_def)
        then show ?thesis using p(1,3,5) fp(1,5) a(1) q(4) h(2) by (auto simp: cr put_arena_def fun_eq_iff)
      next
        fix vm' assume "vmem_add subsystem p base n ?s3 = Inr (Some base, s4)" "vs_arenas s4 = (vs_arenas ?s3)(p \<mapsto> vm')"
          "first_span ?vm base n vm'" "owns (live (vs_heap s4)) p vm'"
          "live (vs_heap s4) |` (- set (owned p vm')) = live (vs_heap s)"
        then show ?thesis using s4(1) p(1,3,5) fp(1,5) by (auto simp: cr first_span_def put_arena_def)
      qed
    qed
  qed
qed

end

section \<open>Properties\<close>

text \<open>
  C17: Creating an arena with a first span either fails without leaving anything on the heap, or gives
  a well-formed arena whose only tag is that span, free; destroying this arena gives back exactly
  the memory it took.
\<close>

theorem vmem_create_destroy:
  assumes "kernel_heap_ok (vs_heap s)" and "\<forall>p. live (vs_heap s) p = None \<longrightarrow> vs_arenas s p = None"
    and "0 \<in> set name \<or> VMEM_NAME_LENGTH \<le> length name"
    and "0 < quantum" "quantum dvd n" "0 < n" "0 < base" "base + n < 4294967296" "n div quantum * 4 < MAX_REQUEST"
    and "quantum \<le> qcache_max" "qcache_max < 4294967296"
  shows "\<exists>r s'. vmem_create liballoc_subsystem name base n quantum afunc ffunc source qcache_max vmflag s = Inr (r, s')
    \<and> kernel_heap_ok (vs_heap s')
    \<and> (case r of
         None \<Rightarrow> live (vs_heap s') = live (vs_heap s) \<and> vs_arenas s' = vs_arenas s
       | Some p \<Rightarrow> \<exists>vm s''. vs_arenas s' = (vs_arenas s)(p \<mapsto> vm) \<and> arena_ok vm {} \<and> allocs vm = {}
           \<and> map (\<lambda>t. (bt_addr t, bt_size t)) (vm_tags vm) = [(base, n)]
           \<and> vmem_destroy liballoc_subsystem p s' = Inr s'' \<and> kernel_heap_ok (vs_heap s'')
           \<and> live (vs_heap s'') = live (vs_heap s) \<and> vs_arenas s'' = vs_arenas s)"
proof -
  from kheap.vmem_create_ok [OF assms, of afunc ffunc source vmflag] obtain r s' where c:
    "vmem_create liballoc_subsystem name base n quantum afunc ffunc source qcache_max vmflag s = Inr (r, s')"
    "kernel_heap_ok (vs_heap s')"
    "case r of
       None \<Rightarrow> live (vs_heap s') = live (vs_heap s) \<and> vs_arenas s' = vs_arenas s
     | Some p \<Rightarrow> \<exists>vm. live (vs_heap s) p = None \<and> vs_arenas s' = (vs_arenas s)(p \<mapsto> vm) \<and> arena_ok vm {}
         \<and> allocs vm = {} \<and> vm_source vm = source \<and> vm_quantum vm = quantum
         \<and> map (\<lambda>t. (bt_addr t, bt_size t)) (vm_tags vm) = [(base, n)]
         \<and> owns (live (vs_heap s')) p vm \<and> live (vs_heap s') |` (- set (owned p vm)) = live (vs_heap s)" by blast
  show ?thesis
  proof (cases r)
    case None
    with c show ?thesis by auto
  next
    case (Some p)
    with c(3) obtain vm where vm: "live (vs_heap s) p = None" "vs_arenas s' = (vs_arenas s)(p \<mapsto> vm)" "arena_ok vm {}"
      "allocs vm = {}" "map (\<lambda>t. (bt_addr t, bt_size t)) (vm_tags vm) = [(base, n)]"
      "owns (live (vs_heap s')) p vm" "live (vs_heap s') |` (- set (owned p vm)) = live (vs_heap s)" by auto
    from kheap.vmem_destroy_ok [OF c(2) _ vm(6)] vm(2,7) obtain s'' where "vmem_destroy liballoc_subsystem p s' = Inr s''"
      "kernel_heap_ok (vs_heap s'')" "live (vs_heap s'') = live (vs_heap s)" "vs_arenas s'' = (vs_arenas s)(p := None)" by auto
    moreover have "(vs_arenas s)(p := None) = vs_arenas s" using assms(2) vm(1) by auto
    ultimately show ?thesis using c(1,2) Some vm(2-5) by auto
  qed
qed

definition demo_vmsys :: "(nat \<Rightarrow> vmem option) \<Rightarrow> physmem liballoc vmsys" where
  "demo_vmsys ars = \<lparr>vs_heap = demo_used_heap, vs_arenas = ars\<rparr>"

lemma demo_vmsys_sel [simp]:
  "vs_heap (demo_vmsys ars) = demo_used_heap" "vs_arenas (demo_vmsys ars) = ars"
  by (simp_all add: demo_vmsys_def)

theorem vmem_create_destroy_witness:
  "\<exists>r s'. vmem_create liballoc_subsystem [118, 109, 0] 2147483648 2147479552 4096 None None None 65536 0
       (demo_vmsys Map.empty) = Inr (r, s') \<and> kernel_heap_ok (vs_heap s')
    \<and> (case r of
         None \<Rightarrow> live (vs_heap s') = live demo_used_heap \<and> vs_arenas s' = Map.empty
       | Some p \<Rightarrow> \<exists>vm s''. vs_arenas s' = [p \<mapsto> vm] \<and> arena_ok vm {} \<and> allocs vm = {}
           \<and> map (\<lambda>t. (bt_addr t, bt_size t)) (vm_tags vm) = [(2147483648, 2147479552)]
           \<and> vmem_destroy liballoc_subsystem p s' = Inr s'' \<and> kernel_heap_ok (vs_heap s'')
           \<and> live (vs_heap s'') = live demo_used_heap \<and> vs_arenas s'' = Map.empty)"
proof -
  have "kernel_heap_ok (vs_heap (demo_vmsys Map.empty))" using demo_used_heap_ok by simp
  from vmem_create_destroy [OF this, of "[118, 109, 0]" 4096 2147479552 2147483648 65536 None None None 0, unfolded demo_vmsys_sel]
  show ?thesis by (simp add: MAX_REQUEST_def)
qed

text \<open>
  C6: An allocation from an arena without a source, completely decided by the choice of a free tag. If
  no free range is large enough for the request, rounded up to the quantum, the call is refused and
  nothing changes. Otherwise the search finds a free tag that is large enough. If it is larger and the
  heap has no block for a second boundary tag, the code dereferences a null pointer; in all other
  cases the result is the last piece of the chosen range: it lies inside one span and is disjoint from
  all allocated ranges, it becomes allocated, the other allocations and the invariant are kept, and an
  arena without free neighbours stays so.
\<close>

theorem vmem_alloc_correct:
  assumes "vs_arenas s p = Some vm" and "arena_ok vm {}" and "vm_source vm = None"
    and "0 < rsize" "rsize + vm_quantum vm < 4294967296"
    and "kernel_heap_ok (vs_heap s)" "tags_live (live (vs_heap s)) (vm_tags vm)"
  defines "n \<equiv> round_size vm rsize"
  shows "(if \<forall>t \<in> set (vm_tags vm). bt_allocated t = VMEM_FREE \<longrightarrow> bt_size t < n
          then vmem_alloc (Suc d) acall fcall liballoc_subsystem p rsize vmflag s = Inr (None, s)
          else \<exists>t \<in> set (vm_tags vm). pick_tag vm n vmflag = Inr (Some t) \<and> bt_allocated t = VMEM_FREE \<and> n \<le> bt_size t
            \<and> (if n < bt_size t \<and> (\<exists>h'. kmalloc liballoc_subsystem sizeof_vmem_bt (vs_heap s) = Inr (None, h'))
               then vmem_alloc (Suc d) acall fcall liballoc_subsystem p rsize vmflag s = Inl Null_deref
               else \<exists>a vm' s'. a = bt_addr t + bt_size t - n
                 \<and> vmem_alloc (Suc d) acall fcall liballoc_subsystem p rsize vmflag s = Inr (Some a, s')
                 \<and> vs_arenas s' = (vs_arenas s)(p \<mapsto> vm') \<and> arena_ok vm' {}
                 \<and> allocs vm' = insert (a, n) (allocs vm) \<and> (\<forall>(b, m) \<in> allocs vm. a + n \<le> b \<or> b + m \<le> a)
                 \<and> (\<exists>sp \<in> set (vm_spans vm). sp_addr sp \<le> a \<and> a + n \<le> sp_addr sp + sp_size sp)
                 \<and> kernel_heap_ok (vs_heap s') \<and> tags_live (live (vs_heap s')) (vm_tags vm')
                 \<and> (coalesced vm \<longrightarrow> coalesced vm')))"
proof -
  let ?r = "vmem_alloc (Suc d) acall fcall liballoc_subsystem p rsize vmflag s"
  note out = kheap.vmem_alloc_ok [OF assms(1-7), of d acall fcall vmflag, folded n_def]
  have fit: "(\<forall>t \<in> set (vm_tags vm). bt_allocated t = VMEM_FREE \<longrightarrow> bt_size t < n)
      \<longleftrightarrow> (\<forall>t. \<not> tag_fits (vm_tags vm) n t)" by (auto simp: tag_fits_def not_less [symmetric])
  from out show ?thesis
  proof (elim disjE conjE exE)
    assume "?r = Inr (None, s)" "\<forall>t. \<not> tag_fits (vm_tags vm) n t"
    then show ?thesis unfolding fit by simp
  next
    fix t
    assume t: "pick_tag vm n vmflag = Inr (Some t)" "tag_fits (vm_tags vm) n t"
      and r: "if n < bt_size t \<and> (\<exists>h'. kmalloc liballoc_subsystem sizeof_vmem_bt (vs_heap s) = Inr (None, h'))
            then ?r = Inl Null_deref
            else \<exists>vm' s'. ?r = Inr (Some (bt_end t - n), s') \<and> kheap.alloc_post vm p n s (bt_end t - n) vm' s'"
    have nf: "\<not> (\<forall>t. \<not> tag_fits (vm_tags vm) n t)" using t(2) by blast
    have t': "t \<in> set (vm_tags vm)" "bt_allocated t = VMEM_FREE" "n \<le> bt_size t"
      using t(2) by (auto simp: tag_fits_def)
    let ?no_tag = "n < bt_size t \<and> (\<exists>h'. kmalloc liballoc_subsystem sizeof_vmem_bt (vs_heap s) = Inr (None, h'))"
    show ?thesis
    proof (cases ?no_tag)
      case True
      note r' = r [unfolded if_P [OF True]]
      show ?thesis
        unfolding fit if_not_P [OF nf]
        by (rule bexI [OF _ t'(1)], intro conjI t t', unfold if_P [OF True], rule r')
    next
      case False
      note r' = r [unfolded if_not_P [OF False] kheap.alloc_post_def]
      show ?thesis
        unfolding fit if_not_P [OF nf]
        by (rule bexI [OF _ t'(1)], intro conjI t t', unfold if_not_P [OF False]) (use r' in blast)
    qed
  qed
qed

text \<open>An arena of two pages, the first one allocated; its tags are the two blocks of the heap.\<close>

definition demo_arena :: vmem where
  "demo_arena = \<lparr>vm_self = 100, vm_name = [], vm_quantum = 4096, vm_cache_max = 65536, vm_cache_bits = 5,
     vm_afunc_ptr = None, vm_ffunc_ptr = None, vm_source = None,
     vm_tags = [\<lparr>bt_self = 4148, bt_addr = 8192, bt_size = 4096, bt_source_addr = None, bt_allocated = 1\<rparr>,
                \<lparr>bt_self = 4276, bt_addr = 12288, bt_size = 4096, bt_source_addr = None, bt_allocated = 0\<rparr>],
     vm_spans = [\<lparr>sp_self = 101, sp_addr = 8192, sp_size = 8192, sp_slots = 2, sp_hash_ptr = 102,
                  sp_hash = [Some 4148, None]\<rparr>],
     vm_free_ptr = 103, vm_free_cache = [[4276], [], [], [], []], vm_vmflag = 0\<rparr>"

lemma less_2_cases: "(\<forall>j < 2. P j) \<longleftrightarrow> P 0 \<and> P (1::nat)"
  by (auto simp: less_2_cases_iff)

lemma less_5_cases: "(\<forall>j < 5. P j) \<longleftrightarrow> P 0 \<and> P (1::nat) \<and> P 2 \<and> P 3 \<and> P 4"
  by (auto simp: less_Suc_eq numeral_eq_Suc)

lemma demo_arena_ok:
  "arena_ok demo_arena {}" "vm_source demo_arena = None" "tags_live (live demo_used_heap) (vm_tags demo_arena)"
  "allocs demo_arena = {(8192, 4096)}"
proof -
  have "hash_ok 4096 (vm_spans demo_arena) (vm_tags demo_arena)"
    unfolding hash_ok_def by (auto simp: demo_arena_def VMEM_ALLOCATED_def less_2_cases)
  moreover have "freelist_ok demo_arena {}"
    unfolding freelist_ok_def demo_arena_def
    by (simp add: less_5_cases VMEM_FREE_def)
  ultimately show "arena_ok demo_arena {}"
    by (simp add: arena_ok_def spans_ok_def tags_ok_def tag_ok_def follows_def demo_arena_def VMEM_ALLOCATED_def
        VMEM_FREE_def)
  show "vm_source demo_arena = None" by (simp add: demo_arena_def)
  show "tags_live (live demo_used_heap) (vm_tags demo_arena)"
    using demo_used_heap_ok by (simp add: tags_live_def demo_arena_def)
  show "allocs demo_arena = {(8192, 4096)}" by (simp add: allocs_def demo_arena_def VMEM_ALLOCATED_def)
qed

definition no_call :: "'h vm_call" where
  "no_call f src a n s = Inr (None, s)"

theorem vmem_alloc_correct_witness:
  "(\<exists>s' vm'. vmem_alloc 1 no_call no_call liballoc_subsystem 100 1000 0 (demo_vmsys [100 \<mapsto> demo_arena])
          = Inr (Some 12288, s') \<and> vs_arenas s' = [100 \<mapsto> vm'] \<and> allocs vm' = {(12288, 4096), (8192, 4096)})
    \<and> vmem_alloc 1 no_call no_call liballoc_subsystem 100 5000 0 (demo_vmsys [100 \<mapsto> demo_arena])
       = Inr (None, demo_vmsys [100 \<mapsto> demo_arena])"
proof -
  let ?s = "demo_vmsys [100 \<mapsto> demo_arena]"
  have n: "round_size demo_arena 1000 = 4096" "round_size demo_arena 5000 = 8192" "vm_quantum demo_arena = 4096"
    by (simp_all add: round_size_def demo_arena_def)
  have fit: "\<not> (\<forall>t \<in> set (vm_tags demo_arena). bt_allocated t = VMEM_FREE \<longrightarrow> bt_size t < 4096)"
    "\<forall>t \<in> set (vm_tags demo_arena). bt_allocated t = VMEM_FREE \<longrightarrow> bt_size t < 8192"
    by (simp_all add: demo_arena_def VMEM_FREE_def)
  have one: "t \<in> set (vm_tags demo_arena) \<Longrightarrow> bt_allocated t = VMEM_FREE \<Longrightarrow> bt_size t = 4096 \<and> bt_addr t = 12288" for t
    by (auto simp: demo_arena_def VMEM_FREE_def)
  have h: "vs_arenas ?s 100 = Some demo_arena" "kernel_heap_ok (vs_heap ?s)"
    "tags_live (live (vs_heap ?s)) (vm_tags demo_arena)" "(0::nat) < 1000" "1000 + vm_quantum demo_arena < 4294967296"
    "(0::nat) < 5000" "5000 + vm_quantum demo_arena < 4294967296"
    using demo_arena_ok demo_used_heap_ok(1) n by simp_all
  note v1 = vmem_alloc_correct [OF h(1) demo_arena_ok(1,2) h(4,5,2,3), of 0 no_call no_call 0, unfolded n if_not_P [OF fit(1)]]
  note v2 = vmem_alloc_correct [OF h(1) demo_arena_ok(1,2) h(6,7,2,3), of 0 no_call no_call 0, unfolded n if_P [OF fit(2)]]
  from v1 obtain t where t: "bt_size t = 4096" "bt_addr t = 12288"
    and r: "if 4096 < bt_size t \<and> (\<exists>h'. kmalloc liballoc_subsystem sizeof_vmem_bt (vs_heap ?s) = Inr (None, h'))
       then vmem_alloc (Suc 0) no_call no_call liballoc_subsystem 100 1000 0 ?s = Inl Null_deref
       else \<exists>a vm' s'. a = bt_end t - 4096 \<and> vmem_alloc (Suc 0) no_call no_call liballoc_subsystem 100 1000 0 ?s
           = Inr (Some a, s') \<and> vs_arenas s' = (vs_arenas ?s)(100 \<mapsto> vm') \<and> allocs vm' = insert (a, 4096) (allocs demo_arena)"
    using one by (elim bexE conjE) (auto split: if_splits)
  have "\<not> (4096 < bt_size t \<and> (\<exists>h'. kmalloc liballoc_subsystem sizeof_vmem_bt (vs_heap ?s) = Inr (None, h')))"
    using t(1) by simp
  from r [unfolded if_not_P [OF this]] v2 show ?thesis unfolding One_nat_def using t demo_arena_ok(4) by auto
qed

text \<open>
  C7: Releasing an allocated range of an arena without a source removes exactly this range from the
  allocations and merges it with its free neighbours: when the tag before it is free and of the same
  span, the two become one tag that starts where that one started, and when the tag after it is free and
  of the same span, the result also takes its range; all other tags stay as they are. So no two
  free neighbours arise in a span where there were none. The invariant is kept.
\<close>

theorem vmem_free_correct:
  assumes "vs_arenas s p = Some vm" and "arena_ok vm {}" and "vm_source vm = None" and "(a, m) \<in> allocs vm"
    and "kernel_heap_ok (vs_heap s)" "tags_live (live (vs_heap s)) (vm_tags vm)"
  shows "\<exists>vm' s' xs t ys. vmem_free (Suc d) call liballoc_subsystem p a n s = Inr (Some a, s')
    \<and> vs_arenas s' = (vs_arenas s)(p \<mapsto> vm') \<and> arena_ok vm' {} \<and> allocs vm' = allocs vm - {(a, m)}
    \<and> kernel_heap_ok (vs_heap s') \<and> tags_live (live (vs_heap s')) (vm_tags vm')
    \<and> vm_tags vm = xs @ t # ys \<and> bt_addr t = a \<and> bt_size t = m
    \<and> vm_tags vm' = free_in (vm_spans vm) xs t ys
    \<and> (successively (\<lambda>u v. \<not> joins (vm_spans vm) u v) (vm_tags vm) \<longrightarrow>
         successively (\<lambda>u v. \<not> joins (vm_spans vm') u v) (vm_tags vm'))"
proof -
  from kheap.vmem_free_ok [OF assms] show ?thesis unfolding vmem_free.simps coalesced_def by blast
qed

theorem vmem_free_correct_witness:
  "\<exists>vm' s'. vmem_free 1 no_call liballoc_subsystem 100 8192 0 (demo_vmsys [100 \<mapsto> demo_arena]) = Inr (Some 8192, s')
      \<and> vs_arenas s' = [100 \<mapsto> vm'] \<and> arena_ok vm' {} \<and> allocs vm' = {}
      \<and> map (\<lambda>t. (bt_addr t, bt_size t)) (vm_tags vm') = [(8192, 8192)]"
proof -
  let ?s = "demo_vmsys [100 \<mapsto> demo_arena]"
  have "vs_arenas ?s 100 = Some demo_arena" "(8192, 4096) \<in> allocs demo_arena" "kernel_heap_ok (vs_heap ?s)"
    "tags_live (live (vs_heap ?s)) (vm_tags demo_arena)" using demo_arena_ok demo_used_heap_ok(1) by simp_all
  from vmem_free_correct [OF this(1) demo_arena_ok(1,2) this(2-4), of 0 no_call 0]
  obtain vm' s' xs t ys where r: "vmem_free (Suc 0) no_call liballoc_subsystem 100 8192 0 ?s = Inr (Some 8192, s')"
    "vs_arenas s' = (vs_arenas ?s)(100 \<mapsto> vm')" "arena_ok vm' {}" "allocs vm' = allocs demo_arena - {(8192, 4096)}"
    "vm_tags demo_arena = xs @ t # ys" "bt_addr t = 8192" "vm_tags vm' = free_in (vm_spans demo_arena) xs t ys" by blast
  have "xs = []" using r(5,6) by (cases xs) (auto simp: demo_arena_def Cons_eq_append_conv)
  with r(5) have "map (\<lambda>t. (bt_addr t, bt_size t)) (vm_tags vm') = [(8192, 8192)]"
    unfolding r(7) by (auto simp: free_in_def join_left_def join_right_def joins_def demo_arena_def VMEM_FREE_def)
  with r(1-4) show ?thesis unfolding One_nat_def using demo_arena_ok(4) by auto
qed

text \<open>The search with the best tag so far.\<close>

lemma alloc_search_acc:
  assumes "has_flag vmflag VMEM_BESTFIT"
  shows "vmem_alloc_search ts n vmflag (Some b)
    = Some (arg_min_list bt_size (b # filter (\<lambda>t. bt_allocated t = VMEM_FREE \<and> n \<le> bt_size t) ts))"
proof (induction ts arbitrary: b)
  case (Cons t ts)
  let ?us = "filter (\<lambda>t. bt_allocated t = VMEM_FREE \<and> n \<le> bt_size t) ts"
  show ?case
    using Cons assms by (cases ?us) (auto simp: better_def Let_def)
qed simp

text \<open>
  Remark: The search through the tags returns the first free tag that is large enough, or, with
  \<^verbatim>\<open>VMEM_BESTFIT\<close>, the first one among the smallest of them.
\<close>

theorem vmem_alloc_search_best:
  "vmem_alloc_search ts n vmflag None =
     (let us = filter (\<lambda>t. bt_allocated t = VMEM_FREE \<and> n \<le> bt_size t) ts in
      if us = [] then None
      else if has_flag vmflag VMEM_BESTFIT then Some (arg_min_list bt_size us)
      else Some (hd us))"
proof (cases "has_flag vmflag VMEM_BESTFIT")
  case True
  then show ?thesis
    by (induction ts) (auto simp: better_def Let_def alloc_search_acc)
next
  case False
  then show ?thesis by (induction ts) (auto simp: Let_def)
qed

text \<open>Free lists whose tags are all large enough are not searched.\<close>

lemma quantum_lists_instant:
  assumes "distinct (map bt_self ts)" and "\<not> has_flag vmflag VMEM_BESTFIT"
    and "\<forall>b \<in> set (concat ls). \<exists>t \<in> set ts. bt_self t = b \<and> bt_allocated t = VMEM_FREE \<and> n \<le> bt_size t"
  shows "quantum_lists ts ls n vmflag None =
    Inr (case concat ls of [] \<Rightarrow> None | b # _ \<Rightarrow> find (\<lambda>t. bt_self t = b) ts)"
  using assms(3)
proof (induction ls)
  case (Cons l ls)
  show ?case
  proof (cases l)
    case Nil
    then show ?thesis using Cons assms(2) by simp
  next
    case (Cons b bs)
    then obtain i where i: "i < length ts" "bt_self (ts ! i) = b" "bt_allocated (ts ! i) = VMEM_FREE" "n \<le> bt_size (ts ! i)"
      using Cons.prems by (auto simp: in_set_conv_nth)
    moreover have "tag_index ts b = Inr i" using tag_index_ok [OF assms(1) i(1)] i(2) by simp
    moreover have "find (\<lambda>t. bt_self t = b) ts = Some (ts ! i)"
      using i(1,2) assms(1) nth_eq_iff_index_eq [OF assms(1)] by (auto simp: find_Some_iff)
    ultimately show ?thesis using Cons assms(2) by (simp add: Let_def)
  qed
qed simp

text \<open>
  C20: With \<^verbatim>\<open>VMEM_INSTANT\<close> the size of the request bounds the free lists from below: every tag on a
  list after the one of the request is large enough, so the head of the first of them that is not empty
  is returned without looking at its size.
\<close>

theorem vmem_instant_fit:
  assumes "arena_ok vm {}" and "0 < n" and "vm_quantum vm dvd n"
  shows "vmem_alloc_quantum vm n VMEM_INSTANT =
      Inr (case concat (drop (Suc (bsr (n div vm_quantum vm))) (vm_free_cache vm)) of
             [] \<Rightarrow> None | b # _ \<Rightarrow> find (\<lambda>t. bt_self t = b) (vm_tags vm))
    \<and> (\<forall>b \<in> set (concat (drop (Suc (bsr (n div vm_quantum vm))) (vm_free_cache vm))).
          \<exists>t \<in> set (vm_tags vm). bt_self t = b \<and> bt_allocated t = VMEM_FREE \<and> n \<le> bt_size t)"
proof -
  let ?k = "bsr (n div vm_quantum vm)" and ?fc = "vm_free_cache vm"
  have o: "0 < vm_quantum vm" "distinct (map bt_self (vm_tags vm))" "freelist_ok vm {}"
    using assms(1) by (auto simp: arena_ok_def tags_ok_def)
  have ft: "\<forall>b \<in> set (concat (drop (Suc ?k) ?fc)). \<exists>t \<in> set (vm_tags vm). bt_self t = b \<and> bt_allocated t = VMEM_FREE \<and> n \<le> bt_size t"
  proof
    fix b assume "b \<in> set (concat (drop (Suc ?k) ?fc))"
    then obtain l where l: "l \<in> set (drop (Suc ?k) ?fc)" "b \<in> set l" by auto
    then obtain j where j: "j < length ?fc - Suc ?k" "b \<in> set (?fc ! (Suc ?k + j))"
      unfolding in_set_conv_nth [of l] by auto
    then have "Suc ?k + j < vm_cache_bits vm" using o(3) by (simp add: freelist_ok_def)
    with j(2) o(3) obtain t where t: "t \<in> set (vm_tags vm)" "bt_self t = b" "bt_allocated t = VMEM_FREE"
      "bsr (bt_size t div vm_quantum vm) = Suc ?k + j" unfolding freelist_ok_def by blast
    have "0 < bt_size t div vm_quantum vm"
      using arena_tag(2,3) [OF assms(1) t(1)] by (auto elim!: dvdE)
    from bsr_later_fits [OF o(1) assms(3) this] t(4) have "n \<le> bt_size t" by simp
    with t show "\<exists>t \<in> set (vm_tags vm). bt_self t = b \<and> bt_allocated t = VMEM_FREE \<and> n \<le> bt_size t" by blast
  qed
  have fl: "\<not> has_flag VMEM_INSTANT VMEM_BESTFIT" "has_flag VMEM_INSTANT VMEM_INSTANT"
    by (simp_all add: has_flag_def VMEM_INSTANT_def VMEM_BESTFIT_def)
  show ?thesis
    using ft fl tag_quantum [OF o(1) assms(2,3)] quantum_lists_instant [OF o(2) fl(1) ft]
    by (simp add: vmem_alloc_quantum_def Let_def)
qed

theorem vmem_instant_fit_witness:
  "vmem_alloc_quantum demo_arena 4096 VMEM_INSTANT = Inr None"
proof -
  have "vmem_alloc_quantum demo_arena 4096 VMEM_INSTANT =
      Inr (case concat (drop (Suc (bsr (4096 div vm_quantum demo_arena))) (vm_free_cache demo_arena)) of
             [] \<Rightarrow> None | b # _ \<Rightarrow> find (\<lambda>t. bt_self t = b) (vm_tags demo_arena))"
    using vmem_instant_fit [OF demo_arena_ok(1), of 4096] by (simp add: demo_arena_def)
  then show ?thesis by (simp add: demo_arena_def)
qed

end
