(* ===== verification/Puts.thy ===== *)
theory Puts
  imports Strings
begin

text \<open>
  Text output to the screen (\<^verbatim>\<open>kernel/puts.c\<close>). The screen is the array of 25 rows of 80 cells, a
  character and an attribute byte each, at \<^verbatim>\<open>0xB8000\<close>; writes to the ports of the display controller
  are recorded in a list. What the two reads of the cursor position return is a parameter.

  \<open>con_ok\<close> is the invariant of the cursor; it keeps every write of \<^verbatim>\<open>puts\<close> inside the screen.
\<close>

section \<open>State and operations\<close>

definition SCREEN_ATTR :: int where "SCREEN_ATTR = 7"
definition WIDTH :: int where "WIDTH = 80"
definition HEIGHT :: int where "HEIGHT = 25"

record con =
  con_screen :: "cchar list"
  s_x :: int
  s_y :: int
  con_out :: "(nat \<times> nat) list"

definition outb :: "nat \<Rightarrow> nat \<Rightarrow> con \<Rightarrow> con" where
  "outb port v c = c\<lparr>con_out := con_out c @ [(port, v)]\<rparr>"

text \<open>\<open>hi\<close> and \<open>lo\<close> are the bytes read from port \<^verbatim>\<open>0x3D5\<close>.\<close>

definition get_cursor :: "nat \<Rightarrow> nat \<Rightarrow> con \<Rightarrow> con" where
  "get_cursor hi lo c =
     (let c1 = outb 0x3D4 0x0F (outb 0x3D4 0x0E c);
          position = u32 (hi * 256 + lo);
          x = int (position mod 80); y = int (position div 80)
      in c1\<lparr>s_x := (if x < 0 \<or> x \<ge> WIDTH then 0 else x), s_y := (if y < 0 \<or> y \<ge> HEIGHT then 0 else y)\<rparr>)"

definition set_cursor :: "int \<Rightarrow> int \<Rightarrow> con \<Rightarrow> con" where
  "set_cursor x y c =
     (let position = nat ((y * 80 + x) mod 2 ^ 32) in
      outb 0x3D5 (position div 256 mod 256) (outb 0x3D4 0x0E
        (outb 0x3D5 (position mod 256) (outb 0x3D4 0x0F c))))"

definition scr_put :: "int \<Rightarrow> cchar \<Rightarrow> cchar list \<Rightarrow> cchar list kres" where
  "scr_put i v scr = guardR (0 \<le> i) Out_of_bounds (aput scr (nat i) v)"

text \<open>\<^verbatim>\<open>kmemcpy\<close> inside one array, forwards.\<close>

fun move_down :: "cchar list \<Rightarrow> nat \<Rightarrow> nat \<Rightarrow> nat \<Rightarrow> cchar list kres" where
  "move_down scr d i 0 = Inr scr"
| "move_down scr d i (Suc k) =
     bindR (aget scr (i + d)) (\<lambda>v. bindR (aput scr i v) (\<lambda>scr'. move_down scr' d (Suc i) k))"

text \<open>The loops that fill cells: \<open>k\<close> cells from byte \<open>i\<close> on.\<close>

fun blank :: "cchar list \<Rightarrow> int \<Rightarrow> nat \<Rightarrow> cchar list kres" where
  "blank scr i 0 = Inr scr"
| "blank scr i (Suc k) =
     bindR (scr_put i 32 scr) (\<lambda>s1. bindR (scr_put (i + 1) SCREEN_ATTR s1) (\<lambda>s2. blank s2 (i + 2) k))"

definition scroll :: "cchar list \<Rightarrow> cchar list kres" where
  "scroll scr =
     bindR (move_down scr (nat (WIDTH * 2)) 0 (nat ((HEIGHT - 1) * WIDTH * 2))) (\<lambda>s1.
     blank s1 ((HEIGHT - 1) * WIDTH * 2) (nat WIDTH))"

definition clear :: "con \<Rightarrow> con kres" where
  "clear c =
     bindR (blank (con_screen c) 0 (nat (HEIGHT * WIDTH))) (\<lambda>scr.
     Inr (set_cursor 0 0 (c\<lparr>con_screen := scr, s_x := 0, s_y := 0\<rparr>)))"

definition putc :: "int \<Rightarrow> int \<Rightarrow> cchar \<Rightarrow> cchar list \<Rightarrow> cchar list kres" where
  "putc x y ch scr =
     bindR (scr_put (y * WIDTH * 2 + x * 2) ch scr) (\<lambda>s1.
     scr_put (y * WIDTH * 2 + x * 2 + 1) SCREEN_ATTR s1)"

text \<open>The loop of \<^verbatim>\<open>puts_xy\<close>; reading past the end of the memory of the string is an error.\<close>

fun puts_xy :: "cchar list \<Rightarrow> int \<Rightarrow> int \<Rightarrow> cchar list \<Rightarrow> ((int \<times> int) \<times> cchar list) kres" where
  "puts_xy [] x y scr = Inl Out_of_bounds"
| "puts_xy (ch # s) x y scr =
     (if ch = 0 then Inr ((x, y), scr)
      else
        (let (x1, y1) = (if x \<ge> WIDTH then (0, y + 1) else (x, y)) in
         bindR (if y1 \<ge> HEIGHT then bindR (scroll scr) (\<lambda>s1. Inr (y1 - 1, s1)) else Inr (y1, scr)) (\<lambda>(y2, s1).
         if ch = 10 then puts_xy s 0 (y2 + 1) s1
         else bindR (putc x1 y2 ch s1) (\<lambda>s2. puts_xy s (x1 + 1) y2 s2))))"

definition puts :: "nat \<Rightarrow> nat \<Rightarrow> cchar list \<Rightarrow> con \<Rightarrow> con kres" where
  "puts hi lo str c =
     (let c1 = (if s_x c < 0 \<or> s_y c < 0 then get_cursor hi lo c else c) in
      bindR (puts_xy str (s_x c1) (s_y c1) (con_screen c1)) (\<lambda>((x, y), scr).
      Inr (set_cursor x y (c1\<lparr>con_screen := scr, s_x := x, s_y := y\<rparr>))))"

section \<open>The cursor stays on the screen\<close>

lemmas screen_dims = WIDTH_def HEIGHT_def

definition cursor_ok :: "int \<Rightarrow> int \<Rightarrow> bool" where
  "cursor_ok x y \<longleftrightarrow> 0 \<le> x \<and> x \<le> WIDTH \<and> 0 \<le> y \<and> (y < HEIGHT \<or> y = HEIGHT \<and> x = 0)"

text \<open>The states a console can be in: before the first output the cursor is negative.\<close>

definition con_ok :: "con \<Rightarrow> bool" where
  "con_ok c \<longleftrightarrow> length (con_screen c) = 4000 \<and> (s_x c < 0 \<or> s_y c < 0 \<or> cursor_ok (s_x c) (s_y c))"

lemma scr_put_ok: "0 \<le> i \<Longrightarrow> nat i < length scr \<Longrightarrow> scr_put i v scr = Inr (scr[nat i := v])"
  by (simp add: scr_put_def)

lemma move_down_ok:
  "i + k + d \<le> length scr \<Longrightarrow> \<exists>scr'. move_down scr d i k = Inr scr' \<and> length scr' = length scr"
proof (induction k arbitrary: scr i)
  case (Suc k)
  from Suc.IH [of "Suc i" "scr[i := scr ! (i + d)]"] Suc.prems show ?case by simp
qed simp

lemma blank_ok:
  "0 \<le> i \<Longrightarrow> nat i + 2 * k \<le> length scr \<Longrightarrow> \<exists>scr'. blank scr i k = Inr scr' \<and> length scr' = length scr"
proof (induction k arbitrary: scr i)
  case (Suc k)
  let ?s = "scr[nat i := 32, nat (i + 1) := SCREEN_ATTR]"
  have "blank scr i (Suc k) = blank ?s (i + 2) k" using Suc.prems by (simp add: scr_put_ok)
  moreover have "\<exists>scr'. blank ?s (i + 2) k = Inr scr' \<and> length scr' = length ?s"
    by (rule Suc.IH) (use Suc.prems in simp_all)
  ultimately show ?case by simp
qed simp

lemma scroll_ok: "length scr = 4000 \<Longrightarrow> \<exists>scr'. scroll scr = Inr scr' \<and> length scr' = 4000"
proof -
  assume l: "length scr = 4000"
  from move_down_ok [of 0 3840 160 scr] l obtain s1 where s1: "move_down scr 160 0 3840 = Inr s1" "length s1 = 4000"
    by auto
  from blank_ok [of 3840 80 s1] s1(2) obtain s2 where "blank s1 3840 80 = Inr s2" "length s2 = 4000" by auto
  with s1 show ?thesis by (simp add: scroll_def screen_dims)
qed

lemma putc_ok:
  assumes "length scr = 4000" and "0 \<le> x" "x < WIDTH" "0 \<le> y" "y < HEIGHT"
  shows "\<exists>scr'. putc x y ch scr = Inr scr' \<and> length scr' = 4000"
proof -
  have "y * WIDTH * 2 + x * 2 + 1 < 4000" using assms by (simp add: screen_dims)
  then show ?thesis using assms by (simp add: putc_def scr_put_ok screen_dims)
qed

lemma puts_xy_ok:
  "0 \<in> set s \<Longrightarrow> length scr = 4000 \<Longrightarrow> cursor_ok x y \<Longrightarrow>
   \<exists>x' y' scr'. puts_xy s x y scr = Inr ((x', y'), scr') \<and> length scr' = 4000 \<and> cursor_ok x' y'"
proof (induction s x y scr rule: puts_xy.induct)
  case (2 ch s x y scr)
  show ?case
  proof (cases "ch = 0")
    case True
    then show ?thesis using 2 by simp
  next
    case False
    define x1 y1 where xy: "x1 = (if x \<ge> WIDTH then 0 else x)" "y1 = (if x \<ge> WIDTH then y + 1 else y)"
    have pair: "(if x \<ge> WIDTH then (0, y + 1) else (x, y)) = (x1, y1)" by (simp add: xy)
    have c1: "0 \<le> x1" "x1 < WIDTH" "0 \<le> y1" "y1 \<le> HEIGHT"
      using 2(5) by (auto simp: xy cursor_ok_def screen_dims)
    obtain y2 s1 where y2: "(if y1 \<ge> HEIGHT then bindR (scroll scr) (\<lambda>s1. Inr (y1 - 1, s1)) else Inr (y1, scr)) = Inr (y2, s1)"
      "length s1 = 4000" "0 \<le> y2" "y2 < HEIGHT"
      using scroll_ok [OF 2(4)] 2(4) c1 by (cases "y1 \<ge> HEIGHT") (auto simp: screen_dims)
    have z: "0 \<in> set s" using 2(3) False by simp
    show ?thesis
    proof (cases "ch = 10")
      case True
      have "cursor_ok 0 (y2 + 1)" using y2 by (auto simp: cursor_ok_def screen_dims)
      then show ?thesis using 2(1) [OF False pair [symmetric] refl y2(1) refl True z y2(2)] False True pair y2(1) by simp
    next
      case nl: False
      obtain s2 where s2: "putc x1 y2 ch s1 = Inr s2" "length s2 = 4000" using putc_ok [OF y2(2) c1(1,2) y2(3,4)] by blast
      have "cursor_ok (x1 + 1) y2" using c1 y2 by (auto simp: cursor_ok_def screen_dims)
      then show ?thesis using 2(2) [OF False pair [symmetric] refl y2(1) refl nl s2(1) z s2(2)] False nl pair y2(1) s2(1) by simp
    qed
  qed
qed simp

section \<open>Properties\<close>

text \<open>
  Remark: \<^verbatim>\<open>puts\<close> returns for every terminated string, however long and with whatever line feeds, and never
  writes outside the 4000 bytes of the screen: it scrolls in time, and leaves the cursor in a state from
  which the next call is safe again.
\<close>

theorem puts_in_screen:
  assumes "con_ok c" and "0 \<in> set str"
  shows "\<exists>c'. puts hi lo str c = Inr c' \<and> con_ok c' \<and> 0 \<le> s_x c' \<and> 0 \<le> s_y c'"
proof -
  let ?c1 = "if s_x c < 0 \<or> s_y c < 0 then get_cursor hi lo c else c"
  have c1: "length (con_screen ?c1) = 4000" "cursor_ok (s_x ?c1) (s_y ?c1)"
    using assms(1) by (auto simp: con_ok_def get_cursor_def cursor_ok_def outb_def Let_def screen_dims)
  from puts_xy_ok [OF assms(2) this] obtain x y scr where
    "puts_xy str (s_x ?c1) (s_y ?c1) (con_screen ?c1) = Inr ((x, y), scr)" "length scr = 4000" "cursor_ok x y" by blast
  then show ?thesis
    unfolding puts_def Let_def by (simp add: set_cursor_def outb_def con_ok_def cursor_ok_def Let_def)
qed

theorem puts_in_screen_witness:
  "\<exists>c'. puts 0 0 [72, 105, 10, 0] \<lparr>con_screen = replicate 4000 0, s_x = -1, s_y = -1, con_out = []\<rparr> = Inr c' \<and> con_ok c'"
  using puts_in_screen [of "\<lparr>con_screen = replicate 4000 0, s_x = -1, s_y = -1, con_out = []\<rparr>" "[72, 105, 10, 0]" 0 0]
  by (auto simp: con_ok_def)

end
