(* ===== verification/Dmesg.thy ===== *)
theory Dmesg
  imports Puts Htable
begin

text \<open>
  Kernel messages (\<^verbatim>\<open>kernel/dmesg.c\<close>): the printing of numbers and strings into a buffer of bounded
  length, the formatting routine \<^verbatim>\<open>sdmesg\<close>, and the ring of messages.

  A buffer pointer is an array and an offset into it. The variable arguments are a list of 32-bit words,
  and \<open>strs\<close> gives the memory behind a string pointer. A loop that writes the digits of a number into a
  local array yields the list of these digits, the last one first.
\<close>

section \<open>Numbers and strings\<close>

definition DMESG_TMPSIZE :: nat where "DMESG_TMPSIZE = 512"
definition DMESG_BUFSIZE :: nat where "DMESG_BUFSIZE = 16384"

text \<open>The loop \<^verbatim>\<open>while ( i-- > 0 )\<close> that copies the local array out, backwards.\<close>

fun emit :: "cchar list \<Rightarrow> nat \<Rightarrow> int \<Rightarrow> int \<Rightarrow> cchar list \<Rightarrow> (int \<times> cchar list) kres" where
  "emit buf b len cnt [] = Inr (cnt, buf)"
| "emit buf b len cnt (c # cs) =
     (if cnt \<ge> len then Inr (len, buf)
      else bindR (aput buf (b + nat cnt) c) (\<lambda>buf'. emit buf' b len (cnt + 1) cs))"

text \<open>\<^verbatim>\<open>tmp\<close> is signed: C rounds towards zero, and the remainder of a negative number is negative.\<close>

function dec_loop :: "int \<Rightarrow> cchar list" where
  "dec_loop tmp =
     (if tmp = 0 \<or> c_div tmp 10 = 0 then [c_rem tmp 10 + 48]
      else (c_rem tmp 10 + 48) # dec_loop (c_div tmp 10))"
  by pat_completeness auto
termination
  by (relation "measure (\<lambda>tmp. nat \<bar>tmp\<bar>)") (auto simp: c_div_def)

declare dec_loop.simps [simp del]

definition dmesg_uint :: "cchar list \<Rightarrow> nat \<Rightarrow> int \<Rightarrow> nat \<Rightarrow> (int \<times> cchar list) kres" where
  "dmesg_uint buf b len num =
     (let number = dec_loop (s32 (int num)) in
      guardR (length number \<le> 32) Out_of_bounds (emit buf b len 0 (rev number)))"

definition hex_letter :: "nat \<Rightarrow> cchar" where
  "hex_letter d = (if d < 10 then int d + 48 else int d - 10 + 65)"

fun hex_loop :: "nat \<Rightarrow> cchar list" where
  "hex_loop tmp =
     (if tmp = 0 \<or> tmp div 16 = 0 then [hex_letter (tmp mod 16)]
      else hex_letter (tmp mod 16) # hex_loop (tmp div 16))"

declare hex_loop.simps [simp del]

definition dmesg_hex :: "cchar list \<Rightarrow> nat \<Rightarrow> int \<Rightarrow> nat \<Rightarrow> (int \<times> cchar list) kres" where
  "dmesg_hex buf b len hex =
     (let number = hex_loop hex @ [120, 48] in
      guardR (length number \<le> 64) Out_of_bounds (emit buf b len 0 (rev number)))"

definition dmesg_ptr :: "cchar list \<Rightarrow> nat \<Rightarrow> int \<Rightarrow> nat \<Rightarrow> (int \<times> cchar list) kres" where
  "dmesg_ptr buf b len p = dmesg_hex buf b len p"

text \<open>\<open>i\<close> is the index into the local array, where a blank follows every ninth character.\<close>

fun bin_loop :: "nat \<Rightarrow> nat \<Rightarrow> cchar list" where
  "bin_loop tmp i =
     (if tmp = 0 then []
      else (if tmp mod 2 = 1 then 49 else 48) #
           (if Suc i mod 9 = 0 then 32 # bin_loop (tmp div 2) (Suc (Suc i)) else bin_loop (tmp div 2) (Suc i)))"

declare bin_loop.simps [simp del]

definition dmesg_bin :: "cchar list \<Rightarrow> nat \<Rightarrow> int \<Rightarrow> nat \<Rightarrow> (int \<times> cchar list) kres" where
  "dmesg_bin buf b len num =
     (let number = 98 # bin_loop num 1 in
      guardR (length number \<le> 128) Out_of_bounds (emit buf b len 0 (rev number)))"

fun string_loop :: "cchar list \<Rightarrow> nat \<Rightarrow> int \<Rightarrow> int \<Rightarrow> cchar list \<Rightarrow> (int \<times> cchar list) kres" where
  "string_loop buf b len cnt [] = Inl Out_of_bounds"
| "string_loop buf b len cnt (c # s) =
     (if c = 0 then Inr (cnt, buf)
      else if cnt \<ge> len then Inr (len, buf)
      else bindR (aput buf (b + nat cnt) c) (\<lambda>buf'. string_loop buf' b len (cnt + 1) s))"

definition dmesg_string :: "cchar list \<Rightarrow> nat \<Rightarrow> int \<Rightarrow> cchar list option \<Rightarrow> (int \<times> cchar list) kres" where
  "dmesg_string buf b len str =
     (case str of
        None \<Rightarrow> string_loop buf b len 0 [78, 85, 76, 76, 0]
      | Some s \<Rightarrow> string_loop buf b len 0 s)"

text \<open>The return value is one too small when the digits fill the buffer.\<close>

definition dmesg_int :: "cchar list \<Rightarrow> nat \<Rightarrow> int \<Rightarrow> int \<Rightarrow> (int \<times> cchar list) kres" where
  "dmesg_int buf b len num =
     (if num \<ge> 0 then dmesg_uint buf b len (nat num)
      else
        bindR (dmesg_string buf b len (Some [45, 0])) (\<lambda>(n, buf1).
        if n = len then Inr (len, buf1)
        else
          bindR (dmesg_uint buf1 (b + 1) (len - 1) (nat (s32 (- num) mod 2 ^ 32))) (\<lambda>(val, buf2).
          if val \<ge> len - 1 then Inr (val, buf2) else Inr (val + 1, buf2))))"

section \<open>Formatting\<close>

definition va_arg :: "nat list \<Rightarrow> (nat \<times> nat list) kres" where
  "va_arg ap = (case ap of [] \<Rightarrow> Inl Out_of_bounds | w # ws \<Rightarrow> Inr (w, ws))"

definition str_at :: "(nat \<Rightarrow> cchar list option) \<Rightarrow> nat \<Rightarrow> cchar list option kres" where
  "str_at strs p =
     (if p = 0 then Inr None else (case strs p of None \<Rightarrow> Inl Out_of_bounds | Some s \<Rightarrow> Inr (Some s)))"

text \<open>The first \<^verbatim>\<open>switch\<close>: the letter after a percent sign. The result is the number of characters written.\<close>

definition print_arg ::
  "(nat \<Rightarrow> cchar list option) \<Rightarrow> cchar \<Rightarrow> cchar list \<Rightarrow> nat \<Rightarrow> int \<Rightarrow> nat list
     \<Rightarrow> ((int \<times> nat list) \<times> cchar list) kres" where
  "print_arg strs letter buf b len ap =
     (if letter \<in> {115, 105, 117, 98, 120, 112}
      then
        bindR (va_arg ap) (\<lambda>(w, ap1).
        bindR (if letter = 115 then bindR (str_at strs w) (\<lambda>s. dmesg_string buf b len s)
               else if letter = 105 then dmesg_int buf b len (s32 (int w))
               else if letter = 117 then dmesg_uint buf b len w
               else if letter = 98 then dmesg_bin buf b len w
               else if letter = 120 then dmesg_hex buf b len w
               else dmesg_ptr buf b len w) (\<lambda>(n, buf1).
        Inr ((n, ap1), buf1)))
      else Inr ((0, ap), buf))"

fun sdmesg_loop ::
  "(nat \<Rightarrow> cchar list option) \<Rightarrow> cchar list \<Rightarrow> int \<Rightarrow> bool \<Rightarrow> nat list \<Rightarrow> cchar list \<Rightarrow> int \<Rightarrow> nat
     \<Rightarrow> ((int \<times> nat) \<times> cchar list) kres" where
  "sdmesg_loop strs buf max_len modifier ap [] position flags = Inl Out_of_bounds"
| "sdmesg_loop strs buf max_len modifier ap (letter # format) position flags =
     (if letter = 0 then
        bindR (if position < max_len then aput buf (nat position) 0 else Inr buf) (\<lambda>buf'.
        Inr ((position, flags), buf'))
      else if modifier then
        bindR (print_arg strs letter buf (nat position) (max_len - position) ap) (\<lambda>((n, ap'), buf').
        sdmesg_loop strs buf' max_len False ap' format (position + n) (if letter = 33 then flags OR 1 else flags))
      else if letter = 37 then sdmesg_loop strs buf max_len True ap format position flags
      else
        bindR (dmesg_string buf (nat position) (max_len - position) (Some [letter, 0])) (\<lambda>(n, buf').
        sdmesg_loop strs buf' max_len False ap format (position + n) flags))"

definition sdmesg ::
  "(nat \<Rightarrow> cchar list option) \<Rightarrow> cchar list \<Rightarrow> int \<Rightarrow> cchar list \<Rightarrow> nat list \<Rightarrow> ((int \<times> nat) \<times> cchar list) kres" where
  "sdmesg strs buf max_len format ap = sdmesg_loop strs buf max_len False ap format 0 0"

section \<open>The ring of messages\<close>

record dmesg_st =
  dmesg_buffer :: "cchar list"
  dmesg_position :: nat
  dm_con :: con

fun ring_copy :: "cchar list \<Rightarrow> nat \<Rightarrow> cchar list \<Rightarrow> nat \<Rightarrow> nat \<Rightarrow> cchar list kres" where
  "ring_copy rg pos buf i 0 = Inr rg"
| "ring_copy rg pos buf i (Suc k) =
     bindR (aget buf i) (\<lambda>c.
     bindR (aput rg ((pos + i) mod DMESG_BUFSIZE) c) (\<lambda>rg'. ring_copy rg' pos buf (Suc i) k))"

definition dmesg_clear :: "dmesg_st \<Rightarrow> dmesg_st kres" where
  "dmesg_clear s = bindR (clear (dm_con s)) (\<lambda>c. Inr (s\<lparr>dm_con := c\<rparr>))"

text \<open>\<open>tmp\<close> is what the local buffer holds; both branches of the last test print it.\<close>

definition dmesg ::
  "nat \<Rightarrow> nat \<Rightarrow> (nat \<Rightarrow> cchar list option) \<Rightarrow> cchar list \<Rightarrow> cchar list \<Rightarrow> nat list \<Rightarrow> dmesg_st \<Rightarrow> (int \<times> dmesg_st) kres" where
  "dmesg hi lo strs tmp format ap s =
     bindR (sdmesg strs tmp (int DMESG_TMPSIZE) format ap) (\<lambda>((rc, flags), buffer).
     bindR (ring_copy (dmesg_buffer s) (dmesg_position s) buffer 0 (nat rc)) (\<lambda>rg.
     let s1 = s\<lparr>dmesg_buffer := rg, dmesg_position := (dmesg_position s + nat rc) mod DMESG_BUFSIZE\<rparr> in
     bindR (puts hi lo buffer (dm_con s1)) (\<lambda>c. Inr (rc, s1\<lparr>dm_con := c\<rparr>))))"

definition dmesg_xy ::
  "(nat \<Rightarrow> cchar list option) \<Rightarrow> int \<Rightarrow> int \<Rightarrow> cchar list \<Rightarrow> cchar list \<Rightarrow> nat list \<Rightarrow> dmesg_st \<Rightarrow> (int \<times> dmesg_st) kres" where
  "dmesg_xy strs x y tmp format ap s =
     bindR (sdmesg strs tmp (int DMESG_TMPSIZE) format ap) (\<lambda>((rc, flags), buffer).
     bindR (puts_xy buffer x y (con_screen (dm_con s))) (\<lambda>(_, scr).
     Inr (rc, s\<lparr>dm_con := (dm_con s)\<lparr>con_screen := scr\<rparr>\<rparr>)))"

definition get_dmesg :: "cchar list \<Rightarrow> int \<Rightarrow> dmesg_st \<Rightarrow> (int \<times> cchar list) kres" where
  "get_dmesg buffer len s =
     (let size = (if len < int (dmesg_position s) then len else int (dmesg_position s)) in
      bindR (kmemcpy buffer (dmesg_buffer s) (nat (size mod 2 ^ 32))) (\<lambda>b. Inr (size, b)))"

definition get_dmesg_size :: int where
  "get_dmesg_size = int DMESG_BUFSIZE"

section \<open>What the loops write\<close>

text \<open>\<open>cs\<close> written into the buffer at \<open>b\<close>, at most \<open>len\<close> characters.\<close>

definition overlay :: "cchar list \<Rightarrow> nat \<Rightarrow> cchar list \<Rightarrow> cchar list" where
  "overlay buf b cs = take b buf @ cs @ drop (b + length cs) buf"

lemma overlay_Nil [simp]: "overlay buf b [] = buf"
  by (simp add: overlay_def)

lemma length_overlay [simp]: "b + length cs \<le> length buf \<Longrightarrow> length (overlay buf b cs) = length buf"
  by (simp add: overlay_def)

lemma overlay_Cons:
  "b < length buf \<Longrightarrow> overlay (buf[b := c]) (Suc b) cs = overlay buf b (c # cs)"
  by (simp add: overlay_def take_Suc_conv_app_nth drop_update_cancel)

lemma emit_ok:
  assumes "0 \<le> cnt" and "cnt \<le> len" and "b + nat len \<le> length buf"
  shows "emit buf b len cnt cs =
    Inr (cnt + int (length (take (nat (len - cnt)) cs)), overlay buf (b + nat cnt) (take (nat (len - cnt)) cs))"
  using assms
proof (induction cs arbitrary: buf cnt)
  case (Cons c cs)
  show ?case
  proof (cases "cnt \<ge> len")
    case True
    then show ?thesis using Cons.prems by simp
  next
    case False
    then have n: "nat (len - cnt) = Suc (nat (len - (cnt + 1)))" "b + nat (cnt + 1) = Suc (b + nat cnt)"
      using Cons.prems by simp_all
    have "emit buf b len cnt (c # cs) = emit (buf[b + nat cnt := c]) b len (cnt + 1) cs"
      using False Cons.prems by simp
    also have "\<dots> = Inr (cnt + 1 + int (length (take (nat (len - (cnt + 1))) cs)),
        overlay (buf[b + nat cnt := c]) (b + nat (cnt + 1)) (take (nat (len - (cnt + 1))) cs))"
      by (rule Cons.IH) (use Cons.prems False in simp_all)
    finally show ?thesis
      using n overlay_Cons [of "b + nat cnt" buf] Cons.prems False by simp
  qed
qed simp

lemma string_loop_ok:
  assumes "0 \<in> set s" and "0 \<le> cnt" and "cnt \<le> len" and "b + nat len \<le> length buf"
  shows "string_loop buf b len cnt s = emit buf b len cnt (takeWhile (\<lambda>c. c \<noteq> 0) s)"
  using assms
proof (induction s arbitrary: buf cnt)
  case (Cons c s)
  show ?case
  proof (cases "c = 0 \<or> cnt \<ge> len")
    case False
    then have "string_loop (buf[b + nat cnt := c]) b len (cnt + 1) s
        = emit (buf[b + nat cnt := c]) b len (cnt + 1) (takeWhile (\<lambda>c. c \<noteq> 0) s)"
      by (intro Cons.IH) (use Cons.prems in auto)
    moreover have "b + nat cnt < length buf" using False Cons.prems by linarith
    ultimately show ?thesis using False by simp
  qed auto
qed simp

section \<open>Digits\<close>

text \<open>The number that a list of digits stands for, most significant digit first.\<close>

definition read_digits :: "int \<Rightarrow> int list \<Rightarrow> int" where
  "read_digits base ds = foldl (\<lambda>v d. v * base + d) 0 ds"

lemma read_digits_snoc [simp]: "read_digits base (ds @ [d]) = read_digits base ds * base + d"
  by (simp add: read_digits_def)

lemma dec_loop_digits:
  "0 \<le> n \<Longrightarrow> read_digits 10 (map (\<lambda>c. c - 48) (rev (dec_loop n))) = n
     \<and> (\<forall>c \<in> set (dec_loop n). 48 \<le> c \<and> c \<le> 57) \<and> (0 < n \<longrightarrow> last (dec_loop n) \<noteq> 48)"
proof (induction n rule: dec_loop.induct)
  case (1 n)
  have d: "c_rem n 10 = n mod 10" "c_div n 10 = n div 10" using 1(2) by (simp_all add: c_rem_def c_div_def)
  have m: "0 \<le> n mod 10" "n mod 10 < 10" by simp_all
  show ?case
  proof (cases "n = 0 \<or> c_div n 10 = 0")
    case True
    then have "n < 10" using 1(2) d by auto
    then show ?thesis using True 1(2) by (simp add: dec_loop.simps [of n] d read_digits_def)
  next
    case False
    then have "0 < n div 10" using 1(2) d by (smt (verit) pos_imp_zdiv_nonneg_iff)
    moreover have ne: "dec_loop (n div 10) \<noteq> []" by (subst dec_loop.simps) simp
    moreover note IH = 1(1) [OF False, unfolded d]
    ultimately show ?thesis
      using False m by (simp add: dec_loop.simps [of n] d)
  qed
qed

lemma dec_loop_length:
  "\<bar>n\<bar> < 10 ^ Suc k \<Longrightarrow> length (dec_loop n) \<le> Suc k"
proof (induction k arbitrary: n)
  case 0
  then have "c_div n 10 = 0" by (auto simp: c_div_def)
  then show ?case by (simp add: dec_loop.simps [of n])
next
  case (Suc k)
  have "\<bar>c_div n 10\<bar> = \<bar>n\<bar> div 10" by (auto simp: c_div_def pos_imp_zdiv_nonneg_iff)
  moreover have "\<bar>n\<bar> div 10 * 10 \<le> \<bar>n\<bar>" by simp
  moreover have "\<bar>n\<bar> < 10 * 10 ^ Suc k" using Suc.prems by simp
  ultimately have "\<bar>c_div n 10\<bar> < 10 ^ Suc k" by linarith
  from Suc.IH [OF this] show ?case by (simp add: dec_loop.simps [of n])
qed

definition hex_value :: "cchar \<Rightarrow> int" where
  "hex_value c = (if c < 58 then c - 48 else c - 55)"

lemma hex_letter_value: "d < 16 \<Longrightarrow> hex_value (hex_letter d) = int d"
  by (auto simp: hex_letter_def hex_value_def)

lemma hex_loop_digits:
  "read_digits 16 (map hex_value (rev (hex_loop n))) = int n"
proof (induction n rule: hex_loop.induct)
  case (1 n)
  have m: "hex_value (hex_letter (n mod 16)) = int (n mod 16)" by (rule hex_letter_value) simp
  show ?case
  proof (cases "n = 0 \<or> n div 16 = 0")
    case True
    then have "n < 16" by auto
    then show ?thesis using True hex_letter_value [of n] by (auto simp: hex_loop.simps [of n] read_digits_def)
  next
    case False
    moreover have "int n = int (n div 16) * 16 + int (n mod 16)" by (metis div_mult_mod_eq of_nat_add of_nat_mult of_nat_numeral)
    ultimately show ?thesis using 1 m by (simp add: hex_loop.simps [of n])
  qed
qed

lemma hex_loop_length: "n < 16 ^ Suc k \<Longrightarrow> length (hex_loop n) \<le> Suc k"
proof (induction k arbitrary: n)
  case 0
  then show ?case by (simp add: hex_loop.simps [of n])
next
  case (Suc k)
  have "length (hex_loop (n div 16)) \<le> Suc k"
    by (rule Suc.IH) (use Suc.prems in \<open>simp add: less_mult_imp_div_less\<close>)
  then show ?case by (simp add: hex_loop.simps [of n])
qed

lemma bin_loop_length: "n < 2 ^ k \<Longrightarrow> length (bin_loop n i) \<le> 2 * k"
proof (induction k arbitrary: n i)
  case 0
  then show ?case by (simp add: bin_loop.simps [of 0])
next
  case (Suc k)
  have "n div 2 < 2 ^ k" using Suc.prems by (simp add: less_mult_imp_div_less)
  from Suc.IH [OF this] show ?case by (auto simp: bin_loop.simps [of n i] intro: le_SucI)
qed

section \<open>Printing stays in its window\<close>

text \<open>A result of a printing routine: at most \<open>len\<close> characters, and nothing outside them changes.\<close>

definition printed :: "cchar list \<Rightarrow> nat \<Rightarrow> int \<Rightarrow> (int \<times> cchar list) kres \<Rightarrow> bool" where
  "printed buf b len r \<longleftrightarrow>
     (\<exists>n buf'. r = Inr (n, buf') \<and> 0 \<le> n \<and> n \<le> len \<and> length buf' = length buf
        \<and> take b buf' = take b buf \<and> drop (b + nat len) buf' = drop (b + nat len) buf)"

lemma printed_emit:
  assumes "0 \<le> len" and "b + nat len \<le> length buf"
  shows "printed buf b len (emit buf b len 0 cs)"
proof -
  let ?c = "take (nat len) cs"
  have "length ?c \<le> nat len" by simp
  then have "length (overlay buf b ?c) = length buf" "take b (overlay buf b ?c) = take b buf"
    "drop (b + nat len) (overlay buf b ?c) = drop (b + nat len) buf"
    using assms(2) by (auto simp: overlay_def min_def add.commute)
  then show ?thesis
    unfolding printed_def using emit_ok [of 0 len b buf cs] assms by auto
qed

lemma printed_string:
  assumes "0 \<le> len" and "b + nat len \<le> length buf" and "\<forall>s. str = Some s \<longrightarrow> 0 \<in> set s"
  shows "printed buf b len (dmesg_string buf b len str)"
  using printed_emit [OF assms(1,2)] string_loop_ok [of _ 0 len b buf] assms
  by (cases str) (simp_all add: dmesg_string_def del: emit.simps string_loop.simps)

lemma printed_uint:
  assumes "0 \<le> len" and "b + nat len \<le> length buf" and "num < 4294967296"
  shows "printed buf b len (dmesg_uint buf b len num)"
proof -
  have "\<bar>s32 (int num)\<bar> < 10 ^ Suc 9" using s32_range [of "int num"] by simp
  then have "length (dec_loop (s32 (int num))) \<le> 10" using dec_loop_length [of _ 9] by simp
  then show ?thesis using printed_emit [OF assms(1,2)] by (simp add: dmesg_uint_def Let_def)
qed

lemma printed_hex:
  assumes "0 \<le> len" and "b + nat len \<le> length buf" and "num < 4294967296"
  shows "printed buf b len (dmesg_hex buf b len num)"
proof -
  have "length (hex_loop num) \<le> 8" using hex_loop_length [of num 7] assms(3) by simp
  then show ?thesis using printed_emit [OF assms(1,2)] by (simp add: dmesg_hex_def Let_def del: emit.simps)
qed

lemma printed_bin:
  assumes "0 \<le> len" and "b + nat len \<le> length buf" and "num < 4294967296"
  shows "printed buf b len (dmesg_bin buf b len num)"
proof -
  have "length (bin_loop num 1) \<le> 2 * 32" using bin_loop_length [of num 32 1] assms(3) by simp
  then show ?thesis using printed_emit [OF assms(1,2)] by (simp add: dmesg_bin_def Let_def del: emit.simps)
qed

lemma printed_int:
  assumes "0 \<le> len" and "b + nat len \<le> length buf" and "- 2147483648 \<le> num" "num < 2147483648"
  shows "printed buf b len (dmesg_int buf b len num)"
proof (cases "num \<ge> 0")
  case True
  then show ?thesis using printed_uint [OF assms(1,2), of "nat num"] assms(4) by (simp add: dmesg_int_def)
next
  case False
  from printed_string [OF assms(1,2), of "Some [45, 0]"] obtain n buf1 where
    n: "dmesg_string buf b len (Some [45, 0]) = Inr (n, buf1)" "0 \<le> n" "n \<le> len" "length buf1 = length buf"
      "take b buf1 = take b buf" "drop (b + nat len) buf1 = drop (b + nat len) buf" by (auto simp: printed_def)
  show ?thesis
  proof (cases "n = len")
    case True
    then show ?thesis using n False assms(1) by (auto simp: dmesg_int_def printed_def)
  next
    case ne: False
    have l1: "0 \<le> len - 1" "b + 1 + nat (len - 1) \<le> length buf1" "b + 1 + nat (len - 1) = b + nat len"
      using n ne assms(2) by linarith+
    have "nat (s32 (- num) mod 2 ^ 32) < 4294967296" by (simp add: nat_less_iff)
    from printed_uint [OF l1(1,2) this] obtain v buf2 where
      v: "dmesg_uint buf1 (b + 1) (len - 1) (nat (s32 (- num) mod 2 ^ 32)) = Inr (v, buf2)" "0 \<le> v" "v \<le> len - 1"
        "length buf2 = length buf1" "take (b + 1) buf2 = take (b + 1) buf1"
        "drop (b + nat len) buf2 = drop (b + nat len) buf1" unfolding printed_def l1(3) by blast
    have "take b buf2 = take b buf" using v(5) n(5) by (metis le_add1 min_absorb1 take_take)
    then show ?thesis using n v False ne l1 by (auto simp: dmesg_int_def printed_def)
  qed
qed

text \<open>The arguments match the format: one word for every modifier that prints one, pointers to strings.\<close>

fun fmt_ok :: "(nat \<Rightarrow> cchar list option) \<Rightarrow> bool \<Rightarrow> nat list \<Rightarrow> cchar list \<Rightarrow> bool" where
  "fmt_ok strs m ap [] = False"
| "fmt_ok strs m ap (c # f) =
     (if c = 0 then True
      else if m then
        (if c \<in> {115, 105, 117, 98, 120, 112}
         then (case ap of
                 [] \<Rightarrow> False
               | w # ws \<Rightarrow> w < 4294967296 \<and> fmt_ok strs False ws f
                   \<and> (c = 115 \<longrightarrow> w = 0 \<or> (case strs w of None \<Rightarrow> False | Some s \<Rightarrow> 0 \<in> set s)))
         else fmt_ok strs False ap f)
      else fmt_ok strs (c = 37) ap f)"

lemma print_arg_ok:
  assumes len: "0 \<le> len" "b + nat len \<le> length buf" and f: "fmt_ok strs True ap (c # f)" "c \<noteq> 0"
  shows "\<exists>n ap' buf'. print_arg strs c buf b len ap = Inr ((n, ap'), buf') \<and> fmt_ok strs False ap' f
    \<and> printed buf b len (Inr (n, buf'))"
proof (cases "c \<in> {115, 105, 117, 98, 120, 112}")
  case True
  then obtain w ws where ap: "ap = w # ws" and w: "w < 4294967296" "fmt_ok strs False ws f"
    "c = 115 \<longrightarrow> w = 0 \<or> (case strs w of None \<Rightarrow> False | Some s \<Rightarrow> 0 \<in> set s)" using f by (cases ap) auto
  let ?r = "if c = 115 then bindR (str_at strs w) (\<lambda>s. dmesg_string buf b len s)
               else if c = 105 then dmesg_int buf b len (s32 (int w))
               else if c = 117 then dmesg_uint buf b len w
               else if c = 98 then dmesg_bin buf b len w
               else if c = 120 then dmesg_hex buf b len w
               else dmesg_ptr buf b len w"
  have "printed buf b len ?r"
  proof (cases "c = 115")
    case True
    with w(3) obtain s where "str_at strs w = Inr s" "\<forall>x. s = Some x \<longrightarrow> 0 \<in> set x"
      by (cases "w = 0") (auto simp: str_at_def split: option.splits)
    then show ?thesis using True printed_string [OF len, of s] by simp
  next
    case False
    then show ?thesis
      using printed_uint [OF len w(1)] printed_hex [OF len w(1)] printed_bin [OF len w(1)]
        printed_int [OF len, of "s32 (int w)"] s32_range [of "int w"] by (simp add: dmesg_ptr_def)
  qed
  then obtain n buf' where "?r = Inr (n, buf')" "printed buf b len (Inr (n, buf'))" by (auto simp: printed_def)
  then show ?thesis using True ap w(2) unfolding print_arg_def by (simp add: va_arg_def)
next
  case False
  then show ?thesis using f len(1) by (simp add: print_arg_def printed_def)
qed

lemma sdmesg_loop_ok:
  assumes "fmt_ok strs m ap f" and "0 \<le> pos" "pos \<le> max_len" "nat max_len \<le> length buf"
  shows "\<exists>p fl buf'. sdmesg_loop strs buf max_len m ap f pos flags = Inr ((p, fl), buf') \<and> 0 \<le> p \<and> p \<le> max_len
    \<and> length buf' = length buf \<and> drop (nat max_len) buf' = drop (nat max_len) buf \<and> (p < max_len \<longrightarrow> buf' ! nat p = 0)"
  using assms
proof (induction f arbitrary: m ap pos buf flags)
  case (Cons c f)
  have w: "nat pos + nat (max_len - pos) = nat max_len" "0 \<le> max_len - pos" using Cons.prems by linarith+
  have step: "\<exists>p fl buf''. sdmesg_loop strs buf' max_len m' ap' f (pos + n) flags' = Inr ((p, fl), buf'') \<and> 0 \<le> p \<and> p \<le> max_len
      \<and> length buf'' = length buf \<and> drop (nat max_len) buf'' = drop (nat max_len) buf \<and> (p < max_len \<longrightarrow> buf'' ! nat p = 0)"
    if "printed buf (nat pos) (max_len - pos) (Inr (n, buf'))" "fmt_ok strs m' ap' f" for n buf' m' ap' flags'
  proof -
    from that(1) have p: "0 \<le> n" "pos + n \<le> max_len" "length buf' = length buf"
      "drop (nat max_len) buf' = drop (nat max_len) buf" using w by (auto simp: printed_def)
    from Cons.IH [OF that(2), of "pos + n" buf' flags'] p Cons.prems show ?thesis by auto
  qed
  show ?case
  proof (cases "c = 0")
    case True
    then show ?thesis using Cons.prems by (auto simp: nat_less_iff)
  next
    case nz: False
    show ?thesis
    proof (cases m)
      case True
      from print_arg_ok [of "max_len - pos" "nat pos" buf strs ap c f] Cons.prems nz True w obtain n ap' buf' where
        "print_arg strs c buf (nat pos) (max_len - pos) ap = Inr ((n, ap'), buf')" "fmt_ok strs False ap' f"
        "printed buf (nat pos) (max_len - pos) (Inr (n, buf'))" by auto
      then show ?thesis using step nz True by simp
    next
      case False
      show ?thesis
      proof (cases "c = 37")
        case True
        then show ?thesis using Cons.IH [of True ap pos buf flags] Cons.prems False by simp
      next
        case np: False
        have "printed buf (nat pos) (max_len - pos) (dmesg_string buf (nat pos) (max_len - pos) (Some [c, 0]))"
          by (rule printed_string) (use w Cons.prems in auto)
        then obtain n buf' where "dmesg_string buf (nat pos) (max_len - pos) (Some [c, 0]) = Inr (n, buf')"
          "printed buf (nat pos) (max_len - pos) (Inr (n, buf'))" by (auto simp: printed_def)
        then show ?thesis using step Cons.prems(1) nz False np by simp
      qed
    qed
  qed
qed simp

section \<open>Properties\<close>

text \<open>
  Remark: For every terminated format whose arguments match it, \<^verbatim>\<open>sdmesg\<close> returns, the position it returns
  is at most \<^verbatim>\<open>max_len\<close>, nothing outside the first \<^verbatim>\<open>max_len\<close> bytes of the buffer is written, and the text is
  terminated when it is shorter than the buffer.
\<close>

theorem sdmesg_bounded:
  assumes "fmt_ok strs False ap format" and "0 \<le> max_len" and "nat max_len \<le> length buf"
  shows "\<exists>p flags buf'. sdmesg strs buf max_len format ap = Inr ((p, flags), buf') \<and> 0 \<le> p \<and> p \<le> max_len
    \<and> length buf' = length buf \<and> drop (nat max_len) buf' = drop (nat max_len) buf \<and> (p < max_len \<longrightarrow> buf' ! nat p = 0)"
  using sdmesg_loop_ok [OF assms(1) order_refl assms(2,3)] unfolding sdmesg_def .

theorem sdmesg_bounded_witness:
  "\<exists>p flags buf'. sdmesg (\<lambda>_. Some [65, 0]) (replicate 20 7) 16 [37, 115, 61, 37, 105, 10, 0] [100, 4294967295]
      = Inr ((p, flags), buf') \<and> p \<le> 16 \<and> length buf' = 20"
  using sdmesg_bounded [of "\<lambda>_. Some [65, 0]" "[100, 4294967295]" "[37, 115, 61, 37, 105, 10, 0]" 16 "replicate 20 7"]
  by auto

text \<open>
  Remark: \<^verbatim>\<open>dmesg_uint\<close> prints a number below \<open>2 ^ 31\<close> in decimal: the characters written are digits without
  leading zeros, and reading them back gives the number; \<^verbatim>\<open>dmesg_hex\<close> does the same in hexadecimal, after
  \<^verbatim>\<open>0x\<close>, for every 32-bit number.
\<close>

theorem dmesg_number_roundtrip:
  assumes "num < 4294967296" and "10 \<le> len" and "b + nat len \<le> length buf"
  shows "(num < 2147483648 \<longrightarrow> (\<exists>n buf'. dmesg_uint buf b len num = Inr (int n, buf') \<and> 0 < n \<and> n \<le> 10
            \<and> (\<forall>c \<in> set (take n (drop b buf')). 48 \<le> c \<and> c \<le> 57) \<and> (0 < num \<longrightarrow> buf' ! b \<noteq> 48)
            \<and> read_digits 10 (map (\<lambda>c. c - 48) (take n (drop b buf'))) = int num))
    \<and> (\<exists>n buf'. dmesg_hex buf b len num = Inr (int n, buf') \<and> 2 < n \<and> n \<le> 10
         \<and> take 2 (drop b buf') = [48, 120]
         \<and> read_digits 16 (map hex_value (take (n - 2) (drop (b + 2) buf'))) = int num)"
proof -
  have ov: "take (length cs) (drop b (overlay buf b cs)) = cs" "drop b (overlay buf b cs) = cs @ drop (b + length cs) buf"
    if "length cs \<le> 10" for cs
    using that assms(2,3) by (simp_all add: overlay_def)
  have em: "emit buf b len 0 cs = Inr (int (length cs), overlay buf b cs)" if "length cs \<le> 10" for cs
  proof -
    have "take (nat len) cs = cs" using that assms(2) by simp
    then show ?thesis using emit_ok [of 0 len b buf cs] assms(2,3) by simp
  qed
  have dec: "\<exists>n buf'. dmesg_uint buf b len num = Inr (int n, buf') \<and> 0 < n \<and> n \<le> 10
      \<and> (\<forall>c \<in> set (take n (drop b buf')). 48 \<le> c \<and> c \<le> 57) \<and> (0 < num \<longrightarrow> buf' ! b \<noteq> 48)
      \<and> read_digits 10 (map (\<lambda>c. c - 48) (take n (drop b buf'))) = int num" if num: "num < 2147483648"
  proof -
    let ?ds = "dec_loop (int num)"
    have l: "length ?ds \<le> 10" using dec_loop_length [of "int num" 9] num by simp
    have ne: "?ds \<noteq> []" by (subst dec_loop.simps) simp
    then have "overlay buf b (rev ?ds) ! b = last ?ds"
      using assms(3) by (simp add: overlay_def nth_append rev_nth last_conv_nth hd_conv_nth [symmetric] hd_rev)
    moreover have "dmesg_uint buf b len num = Inr (int (length ?ds), overlay buf b (rev ?ds))"
      using em [of "rev ?ds"] l num by (simp add: dmesg_uint_def Let_def)
    ultimately show ?thesis
      using dec_loop_digits [of "int num"] ov(1) [of "rev ?ds"] l ne
      by (intro exI [of _ "length ?ds"] exI [of _ "overlay buf b (rev ?ds)"]) simp
  qed
  let ?hs = "[48, 120] @ rev (hex_loop num)"
  have l: "length (hex_loop num) \<le> 8" using hex_loop_length [of num 7] assms(1) by simp
  have ne: "hex_loop num \<noteq> []" by (subst hex_loop.simps) simp
  have "dmesg_hex buf b len num = Inr (int (length ?hs), overlay buf b ?hs)"
    using em [of ?hs] l by (simp add: dmesg_hex_def del: emit.simps)
  moreover have "drop (b + 2) (overlay buf b ?hs) = rev (hex_loop num) @ drop (b + length ?hs) buf"
    using ov(2) [of ?hs] l drop_drop [of 2 b "overlay buf b ?hs"] by (simp add: add.commute)
  ultimately have "\<exists>n buf'. dmesg_hex buf b len num = Inr (int n, buf') \<and> 2 < n \<and> n \<le> 10
      \<and> take 2 (drop b buf') = [48, 120]
      \<and> read_digits 16 (map hex_value (take (n - 2) (drop (b + 2) buf'))) = int num"
    using hex_loop_digits [of num] ov(2) [of ?hs] l ne
    by (intro exI [of _ "length ?hs"] exI [of _ "overlay buf b ?hs"]) simp
  with dec show ?thesis by blast
qed

theorem dmesg_number_roundtrip_witness:
  "\<exists>n buf'. dmesg_hex (replicate 12 0) 1 10 51966 = Inr (int n, buf')
     \<and> read_digits 16 (map hex_value (take (n - 2) (drop 3 buf'))) = 51966"
  using dmesg_number_roundtrip [of 51966 10 1 "replicate 12 0"] by (auto simp: numeral_3_eq_3)

text \<open>
  Remark: For a number of \<open>2 ^ 31\<close> or more, \<^verbatim>\<open>dmesg_uint\<close> computes with a negative \<^verbatim>\<open>int\<close>: none of the
  characters it writes is a digit from 1 to 9.
\<close>

theorem dmesg_uint_large:
  assumes "2147483648 \<le> num" and "num < 4294967296" and "10 \<le> len" and "b + nat len \<le> length buf"
  shows "\<exists>n buf'. dmesg_uint buf b len num = Inr (int n, buf') \<and> 0 < n
    \<and> (\<forall>c \<in> set (take n (drop b buf')). c \<le> 48)"
proof -
  have neg: "n \<le> 0 \<Longrightarrow> \<forall>c \<in> set (dec_loop n). c \<le> 48" for n
  proof (induction n rule: dec_loop.induct)
    case (1 n)
    have "c_rem n 10 \<le> 0" "c_div n 10 \<le> 0" using 1(2) by (auto simp: c_rem_def c_div_def pos_imp_zdiv_nonneg_iff)
    then show ?case using 1(1) by (auto simp: dec_loop.simps [of n])
  qed
  have "(int num + 2147483648) mod 4294967296 = (int num - 2147483648) mod 4294967296"
    using mod_add_self2 [of "int num - 2147483648" 4294967296] by (simp add: add.commute)
  then have s: "s32 (int num) = int num - 4294967296" using assms(1,2) by (simp add: s32_def)
  let ?ds = "dec_loop (int num - 4294967296)"
  have l: "length ?ds \<le> 10" using dec_loop_length [of "int num - 4294967296" 9] assms(1,2) by simp
  have ne: "?ds \<noteq> []" by (subst dec_loop.simps) simp
  have "take (nat len) (rev ?ds) = rev ?ds" using l assms(3) by simp
  then have "dmesg_uint buf b len num = Inr (int (length ?ds), overlay buf b (rev ?ds))"
    using emit_ok [of 0 len b buf "rev ?ds"] l assms(3,4) s by (simp add: dmesg_uint_def Let_def)
  moreover have "take (length ?ds) (drop b (overlay buf b (rev ?ds))) = rev ?ds"
    using l assms(3,4) by (simp add: overlay_def)
  ultimately show ?thesis
    using neg [of "int num - 4294967296"] assms(2) ne
    by (intro exI [of _ "length ?ds"] exI [of _ "overlay buf b (rev ?ds)"]) simp
qed

theorem dmesg_uint_large_witness:
  "\<exists>n buf'. dmesg_uint (replicate 12 0) 0 12 4294967295 = Inr (int n, buf') \<and> (\<forall>c \<in> set (take n (drop 0 buf')). c \<le> 48)"
  using dmesg_uint_large [of 4294967295 12 0 "replicate 12 0"] by auto

end
