(* ===== verification/Irq.thy ===== *)
theory Irq
  imports Scheduler_Queues
begin

text \<open>
  The IRQ handlers (\<^verbatim>\<open>kernel/irq.c\<close>) and the interrupt controller they mask and unmask
  (\<^verbatim>\<open>kernel/ioapic.c\<close>). Every IRQ has a hook with a list of handler threads; an interrupt runs the
  thread that handled the last one, and a thread that declines passes it on to the next.

  A hook is replaced as a whole: a new one is built and exchanged for the old one, which is freed.
  \<open>ir_handlers\<close> holds the hooks with their addresses. Writes to ports and to the registers of the
  controllers are recorded in \<open>ir_out\<close>. The lock of an IRQ is held for the whole of an operation.
\<close>

section \<open>Data\<close>

definition IRQ_COUNT :: int where "IRQ_COUNT = 24"

record irq_stub =
  st_tr :: nat
  st_ack :: nat
  st_nop :: nat

record irq_hook =
  ih_raised :: nat
  ih_index :: int
  ih_last :: int
  ih_count :: int
  ih_stubs_ptr :: "nat option"
  ih_stubs :: "irq_stub list"

datatype hw_op = Port_out nat nat | Reg_write nat nat | Apic_eoi

record 'h irqsys =
  ir_heap :: 'h
  ir_sys :: ksys
  ir_global :: bool
  ir_handlers :: "(nat \<times> irq_hook) list"
  ir_mask :: "32 word"
  ir_ioapic :: bool
  ir_inside :: nat
  ir_out :: "hw_op list"

definition sizeof_irq_hook :: nat where "sizeof_irq_hook = 24"
definition sizeof_irq_stub :: nat where "sizeof_irq_stub = 20"

definition hw :: "hw_op \<Rightarrow> 'h irqsys \<Rightarrow> 'h irqsys" where
  "hw x s = s\<lparr>ir_out := ir_out s @ [x]\<rparr>"

definition get_hook :: "int \<Rightarrow> 'h irqsys \<Rightarrow> (nat \<times> irq_hook) kres" where
  "get_hook irq s = guardR (0 \<le> irq) Out_of_bounds (aget (ir_handlers s) (nat irq))"

definition put_hook :: "int \<Rightarrow> nat \<Rightarrow> irq_hook \<Rightarrow> 'h irqsys \<Rightarrow> 'h irqsys" where
  "put_hook irq p k s = s\<lparr>ir_handlers := (ir_handlers s)[nat irq := (p, k)]\<rparr>"

section \<open>Interrupt controllers\<close>

definition PORT_8259M :: nat where "PORT_8259M = 0x20"
definition PORT_8259S :: nat where "PORT_8259S = 0xA0"

definition write_mask :: "int \<Rightarrow> 'h irqsys \<Rightarrow> 'h irqsys" where
  "write_mask irq s =
     (if irq < 8 then hw (Port_out (PORT_8259M + 1) (unat (ir_mask s AND 0xFF))) s
      else hw (Port_out (PORT_8259S + 1) (unat (drop_bit 8 (ir_mask s) AND 0xFF))) s)"

definition unmask_8259 :: "int \<Rightarrow> 'h irqsys \<Rightarrow> 'h irqsys" where
  "unmask_8259 irq s = write_mask irq (s\<lparr>ir_mask := ir_mask s AND NOT (push_bit (nat irq) 1)\<rparr>)"

definition mask_8259 :: "int \<Rightarrow> 'h irqsys \<Rightarrow> 'h irqsys" where
  "mask_8259 irq s = write_mask irq (s\<lparr>ir_mask := ir_mask s OR push_bit (nat irq) 1\<rparr>)"

definition ack_8259 :: "int \<Rightarrow> 'h irqsys \<Rightarrow> 'h irqsys" where
  "ack_8259 irq s = hw (Port_out 0x20 0x20) (if irq > 7 then hw (Port_out 0xA0 0x20) s else s)"

definition IOAPIC_BASE :: nat where "IOAPIC_BASE = 0xFEC00000"
definition IOAPIC_WINDOW :: nat where "IOAPIC_WINDOW = 0xFEC00010"
definition REG_ID :: nat where "REG_ID = 0"
definition REG_VERSION :: nat where "REG_VERSION = 1"
definition REG_INT0 :: nat where "REG_INT0 = 0x10"
definition REG_INT15 :: nat where "REG_INT15 = 0x2E"
definition REG_INT23 :: nat where "REG_INT23 = 0x3E"

definition write_ioapic :: "nat \<Rightarrow> nat \<Rightarrow> 'h irqsys \<Rightarrow> 'h irqsys" where
  "write_ioapic reg v s = hw (Reg_write IOAPIC_WINDOW v) (hw (Reg_write IOAPIC_BASE reg) s)"

text \<open>Bit 16 masks an interrupt; the interrupts above 15 are level triggered and active low.\<close>

definition ioapic_type :: "nat \<Rightarrow> nat" where
  "ioapic_type num = (if num > 15 then 2 ^ 15 OR 2 ^ 13 else 0)"

definition mask_ioapic :: "int \<Rightarrow> 'h irqsys \<Rightarrow> 'h irqsys" where
  "mask_ioapic num s =
     write_ioapic (nat num * 2 + REG_INT0 + 1) 0
       (write_ioapic (nat num * 2 + REG_INT0) ((2 ^ 16 OR ioapic_type (nat num)) OR (0x20 + nat num)) s)"

definition unmask_ioapic :: "int \<Rightarrow> 'h irqsys \<Rightarrow> 'h irqsys" where
  "unmask_ioapic num s =
     write_ioapic (nat num * 2 + REG_INT0 + 1) 0
       (write_ioapic (nat num * 2 + REG_INT0) (ioapic_type (nat num) OR (0x20 + nat num)) s)"

definition disable_legacy_pic :: "'h irqsys \<Rightarrow> 'h irqsys" where
  "disable_legacy_pic s = hw (Port_out 0xA1 0xFF) (hw (Port_out 0x21 0xFF) s)"

definition enable_ioapic :: "'h irqsys \<Rightarrow> 'h irqsys" where
  "enable_ioapic s = hw (Port_out 0x23 1) (hw (Port_out 0x22 0x70) s)"

definition set_ioapic_id :: "nat \<Rightarrow> 'h irqsys \<Rightarrow> 'h irqsys" where
  "set_ioapic_id new_id s = write_ioapic REG_ID (u32 (new_id * 2 ^ 24)) s"

text \<open>The loop over the redirection registers, \<open>k\<close> of them from \<open>reg\<close> on.\<close>

fun remap_ioapic :: "nat \<Rightarrow> nat \<Rightarrow> 'h irqsys \<Rightarrow> 'h irqsys" where
  "remap_ioapic reg 0 s = s"
| "remap_ioapic reg (Suc k) s =
     remap_ioapic (reg + 2) k
       (write_ioapic (reg + 1) 0
         (write_ioapic reg ((2 ^ 16 OR (if reg > REG_INT15 then 2 ^ 15 OR 2 ^ 13 else 0)) OR (0x20 + (reg - REG_INT0) div 2)) s))"

text \<open>\<open>version\<close> is what the version register reads.\<close>

definition init_ioapic :: "nat \<Rightarrow> 'h irqsys \<Rightarrow> 'h irqsys" where
  "init_ioapic version s =
     (let s1 = hw (Reg_write IOAPIC_BASE REG_VERSION) s in
      if version \<noteq> 0x170011 then s1\<lparr>ir_ioapic := False\<rparr>
      else enable_ioapic (remap_ioapic REG_INT0 ((REG_INT23 - REG_INT0) div 2 + 1)
             (disable_legacy_pic (s1\<lparr>ir_ioapic := True\<rparr>))))"

definition unmask_irq :: "int \<Rightarrow> 'h irqsys \<Rightarrow> 'h irqsys" where
  "unmask_irq irq s = (if ir_ioapic s then unmask_ioapic irq s else unmask_8259 irq s)"

definition mask_irq :: "int \<Rightarrow> 'h irqsys \<Rightarrow> 'h irqsys" where
  "mask_irq irq s = (if ir_ioapic s then mask_ioapic irq s else mask_8259 irq s)"

definition ack_irq :: "int \<Rightarrow> 'h irqsys \<Rightarrow> 'h irqsys" where
  "ack_irq irq s = (if ir_ioapic s then hw Apic_eoi s else ack_8259 irq s)"

text \<open>\<open>a\<close> and \<open>b\<close> are the masks read from the two controllers.\<close>

definition remap_irqs :: "nat \<Rightarrow> nat \<Rightarrow> nat \<Rightarrow> nat \<Rightarrow> 'h irqsys \<Rightarrow> 'h irqsys" where
  "remap_irqs a b pic1 pic2 s =
     foldl (\<lambda>s x. hw (Port_out (fst x) (snd x)) s) s
       [(PORT_8259M, 0x11), (PORT_8259S, 0x11), (PORT_8259M + 1, pic1), (PORT_8259S + 1, pic2),
        (PORT_8259M + 1, 4), (PORT_8259S + 1, 2), (PORT_8259M + 1, 1), (PORT_8259S + 1, 1),
        (PORT_8259M + 1, a), (PORT_8259S + 1, b)]"

section \<open>Set-up\<close>

definition ir_kmalloc :: "'h mm_subsystem \<Rightarrow> nat \<Rightarrow> 'h irqsys \<Rightarrow> (nat option \<times> 'h irqsys) kres" where
  "ir_kmalloc sub n s = bindR (kmalloc sub n (ir_heap s)) (\<lambda>(r, h). Inr (r, s\<lparr>ir_heap := h\<rparr>))"

definition ir_kfree :: "'h mm_subsystem \<Rightarrow> nat option \<Rightarrow> 'h irqsys \<Rightarrow> 'h irqsys kres" where
  "ir_kfree sub p s = bindR (kfree sub p (ir_heap s)) (\<lambda>h. Inr (s\<lparr>ir_heap := h\<rparr>))"

fun init_hooks :: "'h mm_subsystem \<Rightarrow> nat \<Rightarrow> 'h irqsys \<Rightarrow> 'h irqsys kres" where
  "init_hooks sub 0 s = Inr s"
| "init_hooks sub (Suc k) s =
     bindR (ir_kmalloc sub sizeof_irq_hook s) (\<lambda>(r, s1).
     case r of
       None \<Rightarrow> Inl Null_deref
     | Some p \<Rightarrow>
         init_hooks sub k (s1\<lparr>ir_handlers := ir_handlers s1 @
           [(p, \<lparr>ih_raised = 0, ih_index = 0, ih_last = 0, ih_count = 0, ih_stubs_ptr = None, ih_stubs = []\<rparr>)]\<rparr>))"

text \<open>\<open>a\<close>, \<open>b\<close> and \<open>c\<close> are the bytes read from the controllers and from port \<^verbatim>\<open>0x61\<close>.\<close>

definition init_irqs :: "'h mm_subsystem \<Rightarrow> nat \<Rightarrow> nat \<Rightarrow> 8 word \<Rightarrow> 'h irqsys \<Rightarrow> 'h irqsys kres" where
  "init_irqs sub a b c s =
     (let s1 = remap_irqs a b 0x20 0x28 s;
          s2 = hw (Port_out (PORT_8259M + 1) (unat (ir_mask s AND 0xFF))) s1;
          s3 = hw (Port_out (PORT_8259S + 1) (unat (drop_bit 8 (ir_mask s) AND 0xFF))) s2;
          s4 = hw (Port_out 0x61 (unat (c AND NOT 0xC))) s3
      in init_hooks sub (nat IRQ_COUNT) (s4\<lparr>ir_handlers := []\<rparr>))"

section \<open>Requesting and releasing\<close>

definition lock_all :: "'h irqsys \<Rightarrow> 'h irqsys kres" where
  "lock_all s = bindR (sched_lock_all (ir_global s, ir_sys s)) (\<lambda>(g, k). Inr (s\<lparr>ir_global := g, ir_sys := k\<rparr>))"

definition unlock_all :: "'h irqsys \<Rightarrow> 'h irqsys kres" where
  "unlock_all s = bindR (sched_unlock_all (ir_global s, ir_sys s)) (\<lambda>(g, k). Inr (s\<lparr>ir_global := g, ir_sys := k\<rparr>))"

definition set_thr :: "nat \<Rightarrow> thread \<Rightarrow> 'h irqsys \<Rightarrow> 'h irqsys" where
  "set_thr t th s = s\<lparr>ir_sys := put_tr t th (ir_sys s)\<rparr>"

text \<open>The end of both operations: the old hook and its stubs are freed.\<close>

definition drop_hook :: "'h mm_subsystem \<Rightarrow> nat \<Rightarrow> irq_hook \<Rightarrow> 'h irqsys \<Rightarrow> 'h irqsys kres" where
  "drop_hook sub p k s =
     bindR (if ih_stubs_ptr k \<noteq> None then ir_kfree sub (ih_stubs_ptr k) s else Inr s) (\<lambda>s1.
     ir_kfree sub (Some p) s1)"

definition request_irq :: "'h mm_subsystem \<Rightarrow> nat \<Rightarrow> int \<Rightarrow> 'h irqsys \<Rightarrow> (int \<times> 'h irqsys) kres" where
  "request_irq sub t irq s =
     (if irq < 0 \<or> irq \<ge> IRQ_COUNT then Inr (-1, s)
      else
        bindR (get_tr t (ir_sys s)) (\<lambda>th.
        if t_state th \<noteq> THREAD_SUSPENDED then Inr (-1, s)
        else
          bindR (ir_kmalloc sub sizeof_irq_hook s) (\<lambda>(r, s1).
          case r of
            None \<Rightarrow> Inr (-1, s1)
          | Some hp \<Rightarrow>
              bindR (get_hook irq s1) (\<lambda>(op, old).
              bindR (ir_kmalloc sub (nat (int sizeof_irq_stub * (ih_count old + 1) mod 2 ^ 32)) s1) (\<lambda>(r2, s2).
              case r2 of
                None \<Rightarrow> bindR (ir_kfree sub (Some hp) s2) (\<lambda>s3. Inr (-1, s3))
              | Some sp \<Rightarrow>
                  guardR (0 \<le> ih_count old \<and> nat (ih_count old) \<le> length (ih_stubs old)) Out_of_bounds (
                  let stubs = take (nat (ih_count old)) (ih_stubs old) @ [\<lparr>st_tr = t, st_ack = 0, st_nop = 0\<rparr>];
                      cnt = ih_count old + 1
                  in bindR (lock_all s2) (\<lambda>s3.
                     bindR (get_hook irq s3) (\<lambda>(op, old).
                     let hook = \<lparr>ih_raised = ih_raised old, ih_index = (if ih_index old < 0 then 0 else ih_index old),
                                 ih_last = (if ih_last old < 0 then 0 else ih_last old), ih_count = cnt,
                                 ih_stubs_ptr = Some sp, ih_stubs = stubs\<rparr>;
                         s4 = (if cnt = 1 then unmask_irq irq s3 else s3);
                         s5 = put_hook irq hp hook s4
                     in bindR (get_tr t (ir_sys s5)) (\<lambda>th.
                        bindR (if t_cpu_affinity th < 0
                               then guardR (k_cpu_count (ir_sys s5) \<noteq> 0) Div_by_zero
                                      (Inr (c_rem (s32 (t_tid th - 1)) (int (k_cpu_count (ir_sys s5)))))
                               else Inr (t_cpu_affinity th)) (\<lambda>aff.
                        bindR (unlock_all (set_thr t (th\<lparr>t_irq := irq, t_state := THREAD_IRQ, t_cpu_affinity := aff\<rparr>) s5)) (\<lambda>s6.
                        bindR (drop_hook sub op old s6) (\<lambda>s7. Inr (0, s7)))))))))))))"

text \<open>
  The loop that shifts the remaining stubs; \<open>out\<close> is the new array. A thread that is not among the
  handlers makes it write one element too many.
\<close>

fun shift_stubs :: "nat \<Rightarrow> irq_stub list \<Rightarrow> nat \<Rightarrow> nat \<Rightarrow> irq_stub option list \<Rightarrow> (nat \<times> irq_stub option list) kres" where
  "shift_stubs t [] i found out = Inr (found, out)"
| "shift_stubs t (x # xs) i found out =
     (if st_tr x = t then shift_stubs t xs (Suc i) (Suc found) out
      else bindR (aput out (i - found) (Some x)) (\<lambda>out'. shift_stubs t xs (Suc i) found out'))"

definition release_irq :: "'h mm_subsystem \<Rightarrow> nat \<Rightarrow> int \<Rightarrow> 'h irqsys \<Rightarrow> (int \<times> 'h irqsys) kres" where
  "release_irq sub t irq s =
     (if irq < 0 \<or> irq \<ge> IRQ_COUNT then Inr (-1, s)
      else
        bindR (ir_kmalloc sub sizeof_irq_hook s) (\<lambda>(r, s1).
        case r of
          None \<Rightarrow> Inr (-1, s1)
        | Some hp \<Rightarrow>
            bindR (get_hook irq s1) (\<lambda>(op, old).
            let cnt = ih_count old - 1 in
            bindR (if cnt = 0
                   then
                     bindR (aget (ih_stubs old) 0) (\<lambda>x.
                     bindR (get_tr (st_tr x) (ir_sys s1)) (\<lambda>xt.
                     bindR (get_tr t (ir_sys s1)) (\<lambda>th.
                     Inr (Some (None, (if t_process xt = t_process th then 1 else 0), []), s1))))
                   else
                     bindR (ir_kmalloc sub (nat (int sizeof_irq_stub * cnt mod 2 ^ 32)) s1) (\<lambda>(r2, s2).
                     case r2 of
                       None \<Rightarrow> bindR (ir_kfree sub (Some hp) s2) (\<lambda>s3. Inr (None, s3))
                     | Some sp \<Rightarrow>
                         bindR (shift_stubs t (take (nat (ih_count old)) (ih_stubs old)) 0 0 (replicate (nat cnt) None)) (\<lambda>(found, stubs).
                         Inr (Some (Some sp, found, stubs), s2)))) (\<lambda>(q, s2).
            case q of
              None \<Rightarrow> Inr (-1, s2)
            | Some (sp, found, stubs) \<Rightarrow>
                if found = (0 :: nat)
                then
                  bindR (if sp \<noteq> None then ir_kfree sub (Some hp) s2 else Inr s2) (\<lambda>s3.
                  bindR (ir_kfree sub (Some hp) s3) (\<lambda>s4. Inr (-1, s4)))
                else
                  assertR (found = 1) (
                  bindR (lock_all s2) (\<lambda>s3.
                  bindR (get_hook irq s3) (\<lambda>(op, old).
                  let idx = ih_index old; lst = ih_last old;
                      hook = \<lparr>ih_raised = ih_raised old,
                              ih_index = (if idx \<ge> cnt \<and> idx > 0 then idx - 1 else idx),
                              ih_last = (if lst \<ge> cnt \<and> lst > 0 then s32 (lst + 1) else lst),
                              ih_count = cnt, ih_stubs_ptr = sp,
                              ih_stubs = map the (filter (\<lambda>x. x \<noteq> None) stubs)\<rparr>;
                      s4 = (if cnt = 0 then mask_irq irq s3 else s3);
                      s5 = put_hook irq hp hook s4
                  in bindR (get_tr t (ir_sys s5)) (\<lambda>th.
                     bindR (unlock_all (set_thr t (th\<lparr>t_state := THREAD_SUSPENDED, t_irq := -1\<rparr>) s5)) (\<lambda>s6.
                     bindR (drop_hook sub op old s6) (\<lambda>s7. Inr (0, s7)))))))))))"

section \<open>Handling\<close>

text \<open>The position of the handler whose turn it is; the division faults without handlers.\<close>

definition irq_pos :: "irq_hook \<Rightarrow> int kres" where
  "irq_pos k = guardR (ih_count k \<noteq> 0) Div_by_zero (Inr (c_rem (s32 (ih_index k + ih_last k)) (ih_count k)))"

definition get_stub :: "irq_hook \<Rightarrow> int \<Rightarrow> irq_stub kres" where
  "get_stub k pos = guardR (0 \<le> pos) Out_of_bounds (aget (ih_stubs k) (nat pos))"

definition put_stub :: "int \<Rightarrow> irq_stub \<Rightarrow> irq_hook \<Rightarrow> irq_hook" where
  "put_stub pos x k = k\<lparr>ih_stubs := (ih_stubs k)[nat pos := x]\<rparr>"

definition irq_ack :: "int \<Rightarrow> 'h irqsys \<Rightarrow> (int \<times> 'h irqsys) kres" where
  "irq_ack irq s =
     bindR (this_thread (ir_sys s)) (\<lambda>tr.
     if irq < 0 \<or> irq \<ge> IRQ_COUNT then Inr (-1, s)
     else
       bindR (get_hook irq s) (\<lambda>(p, k).
       bindR (irq_pos k) (\<lambda>pos.
       bindR (get_stub k pos) (\<lambda>x.
       if Some (st_tr x) \<noteq> tr then Inr (-1, s) else Inr (0, ack_irq irq s)))))"

text \<open>
  \<^verbatim>\<open>irq_complete\<close> of the current thread; \<open>yield\<close> is what happens until the thread runs again. The
  interrupts are on before and after.
\<close>

definition irq_complete :: "(ksys \<Rightarrow> ksys) \<Rightarrow> int \<Rightarrow> 'h irqsys \<Rightarrow> (int \<times> 'h irqsys) kres" where
  "irq_complete yield status s =
     bindR (this_thread (ir_sys s)) (\<lambda>cur.
     case cur of
       None \<Rightarrow> Inl Null_deref
     | Some tr \<Rightarrow>
         bindR (get_tr tr (ir_sys s)) (\<lambda>th.
         let irq = t_irq th in
         if irq < 0 \<or> irq \<ge> IRQ_COUNT then Inr (-1, s)
         else
           bindR (get_hook irq s) (\<lambda>(p, k).
           bindR (irq_pos k) (\<lambda>pos.
           bindR (get_stub k pos) (\<lambda>x.
           if st_tr x \<noteq> tr then Inr (-1, s)
           else
             bindR (if status = 0
                    then Inr (0 :: int, put_hook irq p (put_stub pos (x\<lparr>st_ack := (st_ack x + 1) mod 2 ^ 64\<rparr>) k\<lparr>ih_last := pos\<rparr>) s)
                    else
                      (let k1 = put_stub pos (x\<lparr>st_nop := (st_nop x + 1) mod 2 ^ 64\<rparr>) k\<lparr>ih_index := s32 (ih_index k + 1)\<rparr>;
                           s1 = put_hook irq p k1 s
                       in if ih_index k1 < ih_count k1
                          then
                            bindR (get_stub k1 (c_rem (pos + 1) (ih_count k1))) (\<lambda>y.
                            bindR (fast_queue (st_tr y) (ir_sys s1)) (\<lambda>(_, sys). Inr (1, s1\<lparr>ir_sys := sys\<rparr>)))
                          else Inr (2, s1))) (\<lambda>(rc, s1).
             assertR (k_if (ir_sys s1)) (
             bindR (fast_dequeue tr ((ir_sys s1)\<lparr>k_if := False\<rparr>)) (\<lambda>(_, sys).
             let sys' = (if rc = 0 then yield sys else sys)
             in Inr (0, s1\<lparr>ir_sys := sys'\<lparr>k_if := True\<rparr>\<rparr>)))))))))"

definition irq_handler :: "int \<Rightarrow> 'h irqsys \<Rightarrow> (int \<times> 'h irqsys) kres" where
  "irq_handler irq s =
     assertR (\<not> k_if (ir_sys s)) (
     if irq = 0 then Inr (0, ack_irq irq s)
     else
       bindR (get_hook irq s) (\<lambda>(p, k).
       let k1 = k\<lparr>ih_raised := (ih_raised k + 1) mod 2 ^ 64, ih_index := 0\<rparr>;
           s1 = put_hook irq p k1 s
       in if ih_count k1 \<le> 0 then Inr (0, s1\<lparr>ir_inside := 0\<rparr>)
          else
            bindR (get_stub k1 (ih_last k1)) (\<lambda>x.
            bindR (fast_queue (st_tr x) (ir_sys s1)) (\<lambda>(_, sys).
            Inr (0, s1\<lparr>ir_sys := sys, ir_inside := 0\<rparr>)))))"

end
