(* ===== verification/Irq_Props.thy ===== *)
theory Irq_Props
  imports Irq Scheduler_Props Liballoc_Heap
begin

text \<open>
  The properties of the IRQ handlers. \<open>irq_ok\<close> is the invariant of the hooks: each counts its stubs, its
  last handler is one of them, and the blocks it owns are live and its own. Requesting keeps it;
  releasing does not, because of the sign with which it corrects \<^verbatim>\<open>last\<close>.
\<close>

section \<open>Locking all schedulers\<close>

text \<open>What a period under the locks of all schedulers leaves alone.\<close>

definition same_queues :: "scheduler_info \<Rightarrow> scheduler_info \<Rightarrow> bool" where
  "same_queues si si' \<longleftrightarrow>
     runq si' = runq si \<and> pausedq si' = pausedq si \<and> fastq si' = fastq si \<and> si_position si' = si_position si
     \<and> requesting_thread si' = requesting_thread si \<and> requesting_state si' = requesting_state si
     \<and> si_cpu_id si' = si_cpu_id si \<and> (si_ok si \<longrightarrow> si_ok si')"

lemma sched_lock_cpu:
  assumes "cpu_ok c (k_sched s ! c)" and "c < k_cpu_count s" "c < length (k_sched s)" and "b \<Longrightarrow> c \<noteq> k_CPUID s"
  shows "sched_lock (int c) b s = Inr (lock_sys c b s)"
proof -
  have n: "nested_lock (halt_running x) = nested_lock x" for x by (simp add: halt_running_def)
  have "\<not> (int (k_CPUID s) = int c \<and> b)" using assms(4) by auto
  then show ?thesis
    using assms(1-3) by (simp add: sched_lock_def get_si_def lock_sys_def lock_si_def cpu_ok_def put_si_def Let_def n)
qed

definition held :: "scheduler_info \<Rightarrow> scheduler_info \<Rightarrow> bool \<Rightarrow> bool" where
  "held si si' f \<longleftrightarrow> same_queues si si' \<and> nested_lock si' = 1 \<and> lock_flags si' = (if f then 1 else 0)"

lemma lock_si_held: "held si (lock_si b s si) (k_if s)"
  by (auto simp: held_def same_queues_def runq_def pausedq_def fastq_def fast_count_def si_ok_def)

text \<open>The other fields of the system.\<close>

definition same_sys :: "ksys \<Rightarrow> ksys \<Rightarrow> bool" where
  "same_sys s s' \<longleftrightarrow>
     k_threads s' = k_threads s \<and> k_time s' = k_time s \<and> k_cpu_count s' = k_cpu_count s
     \<and> k_CPUID s' = k_CPUID s \<and> length (k_sched s') = length (k_sched s)"

lemma lock_from_ok:
  assumes "\<forall>j. i \<le> j \<longrightarrow> j < i + k \<longrightarrow> cpu_ok j (k_sched s ! j)" and "i + k \<le> k_cpu_count s" "i + k \<le> length (k_sched s)"
  shows "\<exists>s'. lock_from i k s = Inr s' \<and> same_sys s s' \<and> k_if s' = (k_if s \<and> k = 0)
    \<and> (\<forall>j. i \<le> j \<longrightarrow> j < i + k \<longrightarrow> held (k_sched s ! j) (k_sched s' ! j) (k_if s \<and> j = i))
    \<and> (\<forall>j. j < i \<or> i + k \<le> j \<longrightarrow> k_sched s' ! j = k_sched s ! j)"
  using assms
proof (induction k arbitrary: i s)
  case 0
  then show ?case by (simp add: same_sys_def)
next
  case (Suc k)
  let ?s = "lock_sys i (k_CPUID s \<noteq> i) s"
  have i: "cpu_ok i (k_sched s ! i)" "i < k_cpu_count s" "i < length (k_sched s)" using Suc.prems by auto
  have "sched_lock (int i) (k_CPUID s \<noteq> i) s = Inr ?s" by (rule sched_lock_cpu [OF i]) simp
  moreover obtain s' where s': "lock_from (Suc i) k ?s = Inr s'" "same_sys ?s s'" "k_if s' = (k_if ?s \<and> k = 0)"
    "\<forall>j. Suc i \<le> j \<longrightarrow> j < Suc i + k \<longrightarrow> held (k_sched ?s ! j) (k_sched s' ! j) (k_if ?s \<and> j = Suc i)"
    "\<forall>j. j < Suc i \<or> Suc i + k \<le> j \<longrightarrow> k_sched s' ! j = k_sched ?s ! j"
    using Suc.IH [of "Suc i" ?s] Suc.prems by auto
  moreover have "held (k_sched s ! j) (k_sched s' ! j) (k_if s \<and> j = i)" if "i \<le> j" "j < i + Suc k" for j
    using s'(4,5) that i(3) lock_si_held [of "k_sched s ! i" "k_CPUID s \<noteq> i" s] by (cases "j = i") auto
  moreover have "k_sched s' ! j = k_sched s ! j" if "j < i \<or> i + Suc k \<le> j" for j
    using s'(5) that by auto
  ultimately show ?case by (intro exI [of _ s']) (auto simp: same_sys_def)
qed

lemma unlock_from_ok:
  assumes "\<forall>j. i \<le> j \<longrightarrow> j < i + k \<longrightarrow> nested_lock (k_sched s ! j) = 1" and "i + k \<le> k_cpu_count s" "i + k \<le> length (k_sched s)"
  shows "\<exists>s'. unlock_from i k s = Inr s' \<and> same_sys s s'
    \<and> k_if s' = (k_if s \<or> (i \<le> k_CPUID s \<and> k_CPUID s < i + k \<and> lock_flags (k_sched s ! k_CPUID s) \<noteq> 0))
    \<and> (\<forall>j. i \<le> j \<longrightarrow> j < i + k \<longrightarrow> k_sched s' ! j = (k_sched s ! j)\<lparr>nested_lock := 0, lock_scheduler := False\<rparr>)
    \<and> (\<forall>j. j < i \<or> i + k \<le> j \<longrightarrow> k_sched s' ! j = k_sched s ! j)"
  using assms
proof (induction k arbitrary: i s)
  case 0
  then show ?case by (auto simp: same_sys_def)
next
  case (Suc k)
  let ?s = "unlock_sys i (k_sched s ! i) s"
  have i: "nested_lock (k_sched s ! i) = 1" "i < k_cpu_count s" "i < length (k_sched s)" using Suc.prems by auto
  have "sched_unlock (int i) s = Inr ?s" using sched_unlock_eq(2) [OF i(2,3,1)] by simp
  moreover have pre: "\<forall>j. Suc i \<le> j \<longrightarrow> j < Suc i + k \<longrightarrow> nested_lock (k_sched ?s ! j) = 1"
    "Suc i + k \<le> k_cpu_count ?s" "Suc i + k \<le> length (k_sched ?s)" using Suc.prems by auto
  from Suc.IH [OF pre] obtain s' where s': "unlock_from (Suc i) k ?s = Inr s'" "same_sys ?s s'"
    "k_if s' = (k_if ?s \<or> (Suc i \<le> k_CPUID ?s \<and> k_CPUID ?s < Suc i + k \<and> lock_flags (k_sched ?s ! k_CPUID ?s) \<noteq> 0))"
    "\<forall>j. Suc i \<le> j \<longrightarrow> j < Suc i + k \<longrightarrow> k_sched s' ! j = (k_sched ?s ! j)\<lparr>nested_lock := 0, lock_scheduler := False\<rparr>"
    "\<forall>j. j < Suc i \<or> Suc i + k \<le> j \<longrightarrow> k_sched s' ! j = k_sched ?s ! j"
    by (elim exE conjE)
  moreover have "k_if s' = (k_if s \<or> (i \<le> k_CPUID s \<and> k_CPUID s < i + Suc k \<and> lock_flags (k_sched s ! k_CPUID s) \<noteq> 0))"
    using s'(3) i by (cases "k_CPUID s = i") auto
  moreover have "k_sched s' ! j = (k_sched s ! j)\<lparr>nested_lock := 0, lock_scheduler := False\<rparr>" if "i \<le> j" "j < i + Suc k" for j
    using s'(4,5) that i(3) by (cases "j = i") auto
  moreover have "k_sched s' ! j = k_sched s ! j" if "j < i \<or> i + Suc k \<le> j" for j
    using s'(5) that by auto
  ultimately show ?case by (intro exI [of _ s']) (auto simp: same_sys_def)
qed

text \<open>
  A period under all locks in which only threads change. The interrupts are back on afterwards only on
  CPU 0: on another one its own lock is taken when they are already off.
\<close>

lemma lock_all_ok:
  assumes ok: "sys_ok s" and g: "\<not> g"
  shows "\<exists>s1. sched_lock_all (g, s) = Inr (True, s1) \<and> k_threads s1 = k_threads s \<and> k_cpu_count s1 = k_cpu_count s
    \<and> (\<forall>ts. \<exists>s3. sched_unlock_all (True, s1\<lparr>k_threads := ts\<rparr>) = Inr (False, s3) \<and> sys_ok s3 \<and> k_threads s3 = ts
         \<and> k_cpu_count s3 = k_cpu_count s \<and> (\<forall>i < k_cpu_count s. same_queues (k_sched s ! i) (k_sched s3 ! i))
         \<and> k_if s3 = (k_if s \<and> k_CPUID s = 0))"
proof -
  let ?n = "k_cpu_count s"
  have o: "\<forall>j < ?n. cpu_ok j (k_sched s ! j)" "?n \<le> length (k_sched s)" "k_CPUID s < ?n" "?n \<le> length (k_time s)"
    using ok by (auto simp: sys_ok_def)
  from lock_from_ok [of 0 ?n s] o obtain s1 where s1: "lock_from 0 ?n s = Inr s1" "same_sys s s1" "\<not> k_if s1"
    "\<forall>j < ?n. held (k_sched s ! j) (k_sched s1 ! j) (k_if s \<and> j = 0)" by auto
  have "\<exists>s3. sched_unlock_all (True, s1\<lparr>k_threads := ts\<rparr>) = Inr (False, s3) \<and> sys_ok s3 \<and> k_threads s3 = ts
         \<and> k_cpu_count s3 = ?n \<and> (\<forall>i < ?n. same_queues (k_sched s ! i) (k_sched s3 ! i))
         \<and> k_if s3 = (k_if s \<and> k_CPUID s = 0)" for ts
  proof -
    let ?s2 = "s1\<lparr>k_threads := ts\<rparr>"
    from unlock_from_ok [of 0 ?n ?s2] s1 o(2) obtain s3 where s3: "unlock_from 0 ?n ?s2 = Inr s3" "same_sys ?s2 s3"
      "k_if s3 = (k_CPUID ?s2 < ?n \<and> lock_flags (k_sched ?s2 ! k_CPUID ?s2) \<noteq> 0)"
      "\<forall>j < ?n. k_sched s3 ! j = (k_sched s1 ! j)\<lparr>nested_lock := 0, lock_scheduler := False\<rparr>"
      by (auto simp: same_sys_def held_def)
    have q: "same_queues (k_sched s ! j) (k_sched s3 ! j) \<and> cpu_ok j (k_sched s3 ! j)" if "j < ?n" for j
    proof -
      have "held (k_sched s ! j) (k_sched s1 ! j) (k_if s \<and> j = 0)" "cpu_ok j (k_sched s ! j)" using s1(4) o(1) that by blast+
      then show ?thesis
        using s3(4) that by (simp add: held_def same_queues_def cpu_ok_def runq_def pausedq_def fastq_def fast_count_def si_ok_def)
    qed
    have "k_CPUID s1 = k_CPUID s" using s1(2) by (simp add: same_sys_def)
    then have "k_if s3 = (k_if s \<and> k_CPUID s = 0)"
      using s3(3) s1(4) o(3) by (auto simp: held_def split: if_splits)
    moreover have "sys_ok s3" using q s1(2) s3(2) o by (auto simp: sys_ok_def same_sys_def)
    ultimately show ?thesis
      using q s1(2) s3(1,2) by (auto simp: sched_unlock_all_def same_sys_def)
  qed
  then show ?thesis using s1 g by (auto simp: sched_lock_all_def same_sys_def)
qed

section \<open>The invariant of the hooks\<close>

definition hook_ok :: "irq_hook \<Rightarrow> bool" where
  "hook_ok k \<longleftrightarrow>
     ih_count k = int (length (ih_stubs k)) \<and> (ih_stubs_ptr k = None \<longleftrightarrow> ih_stubs k = [])
     \<and> 0 \<le> ih_index k \<and> 0 \<le> ih_last k \<and> ih_last k < max 1 (ih_count k)"

definition hook_blocks :: "nat \<times> irq_hook \<Rightarrow> nat list" where
  "hook_blocks pk = fst pk # (case ih_stubs_ptr (snd pk) of None \<Rightarrow> [] | Some q \<Rightarrow> [q])"

definition irq_blocks :: "(nat \<times> irq_hook) list \<Rightarrow> nat list" where
  "irq_blocks hs = concat (map hook_blocks hs)"

definition irq_ok :: "(nat \<Rightarrow> nat option) \<Rightarrow> 'h irqsys \<Rightarrow> bool" where
  "irq_ok lv s \<longleftrightarrow>
     length (ir_handlers s) \<le> 24 \<and> (\<forall>pk \<in> set (ir_handlers s). hook_ok (snd pk))
     \<and> distinct (irq_blocks (ir_handlers s)) \<and> (\<forall>b \<in> set (irq_blocks (ir_handlers s)). lv b \<noteq> None)
     \<and> sys_ok (ir_sys s) \<and> \<not> ir_global s"

lemma irq_blocks_split:
  assumes "i < length hs"
  shows "irq_blocks hs = irq_blocks (take i hs) @ hook_blocks (hs ! i) @ irq_blocks (drop (Suc i) hs)"
proof -
  have "hs = take i hs @ hs ! i # drop (Suc i) hs" using assms by (simp add: id_take_nth_drop)
  then have "irq_blocks hs = irq_blocks (take i hs @ hs ! i # drop (Suc i) hs)" by simp
  then show ?thesis by (simp add: irq_blocks_def)
qed

lemma irq_blocks_update:
  "i < length hs \<Longrightarrow> irq_blocks (hs[i := pk]) = irq_blocks (take i hs) @ hook_blocks pk @ irq_blocks (drop (Suc i) hs)"
  by (simp add: irq_blocks_def upd_conv_take_nth_drop)

text \<open>
  Replacing a hook by a new one: the new blocks come from the heap, the old ones go back to it.
\<close>

lemma irq_blocks_replace:
  assumes "i < length hs" and "distinct (irq_blocks hs)" and "\<forall>b \<in> set (irq_blocks hs). lv b \<noteq> None"
    and "\<forall>b \<in> set (hook_blocks pk). lv b = None" and "distinct (hook_blocks pk)"
    and "\<forall>b. b \<notin> set (hook_blocks pk) \<longrightarrow> lv1 b = lv b" and "\<forall>b \<in> set (hook_blocks pk). lv1 b \<noteq> None"
    and "lv2 = lv1 |` (- set (hook_blocks (hs ! i)))"
  shows "distinct (irq_blocks (hs[i := pk]))" and "\<forall>b \<in> set (irq_blocks (hs[i := pk])). lv2 b \<noteq> None"
proof -
  note sp = irq_blocks_split [OF assms(1)] irq_blocks_update [OF assms(1), of pk]
  have dj: "set (hook_blocks pk) \<inter> set (irq_blocks hs) = {}" using assms(3,4) by auto
  then show "distinct (irq_blocks (hs[i := pk]))" using assms(2,5) unfolding sp by auto
  have "lv2 b \<noteq> None" if b: "b \<in> set (irq_blocks (hs[i := pk]))" for b
  proof (cases "b \<in> set (hook_blocks pk)")
    case True
    then have "b \<notin> set (hook_blocks (hs ! i))" using dj unfolding sp by auto
    then show ?thesis using assms(7,8) True by (simp add: restrict_map_def)
  next
    case False
    then have "b \<in> set (irq_blocks hs)" "b \<notin> set (hook_blocks (hs ! i))" using b assms(2) unfolding sp by auto
    then show ?thesis using assms(3,6,8) False by (simp add: restrict_map_def)
  qed
  then show "\<forall>b \<in> set (irq_blocks (hs[i := pk])). lv2 b \<noteq> None" by blast
qed

lemma mask_fields [simp]:
  "ir_sys (unmask_irq irq s) = ir_sys s" "ir_heap (unmask_irq irq s) = ir_heap s"
  "ir_handlers (unmask_irq irq s) = ir_handlers s" "ir_global (unmask_irq irq s) = ir_global s"
  "ir_sys (mask_irq irq s) = ir_sys s" "ir_heap (mask_irq irq s) = ir_heap s"
  "ir_handlers (mask_irq irq s) = ir_handlers s" "ir_global (mask_irq irq s) = ir_global s"
  by (simp_all add: unmask_irq_def mask_irq_def unmask_ioapic_def mask_ioapic_def unmask_8259_def mask_8259_def
      write_ioapic_def write_mask_def hw_def)

text \<open>The loop that shifts the stubs keeps those of the other threads, as far as the new array reaches.\<close>

lemma shift_stubs_eq:
  "found \<le> i \<Longrightarrow> length ys = i - found \<Longrightarrow>
   shift_stubs t xs i found (map Some ys @ replicate r None) =
     (let zs = filter (\<lambda>x. st_tr x \<noteq> t) xs in
      if length zs \<le> r
      then Inr (found + length (filter (\<lambda>x. st_tr x = t) xs), map Some (ys @ zs) @ replicate (r - length zs) None)
      else Inl Out_of_bounds)"
proof (induction xs arbitrary: i found ys r)
  case Nil
  then show ?case by simp
next
  case (Cons x xs)
  show ?case
  proof (cases "st_tr x = t")
    case True
    have "length ys = Suc i - Suc found" "Suc found \<le> Suc i" using Cons.prems by simp_all
    from Cons.IH [OF this(2,1), of r] True show ?thesis by (simp add: Let_def)
  next
    case False
    show ?thesis
    proof (cases r)
      case 0
      then show ?thesis using False Cons.prems by (simp add: Let_def aput_def)
    next
      case (Suc r')
      have u: "(map Some ys @ replicate r None)[i - found := Some x] = map Some (ys @ [x]) @ replicate r' None"
        using Cons.prems Suc by (simp add: list_update_append)
      have l: "length (ys @ [x]) = Suc i - found" "found \<le> Suc i" using Cons.prems by simp_all
      have "shift_stubs t (x # xs) i found (map Some ys @ replicate r None)
          = shift_stubs t xs (Suc i) found (map Some (ys @ [x]) @ replicate r' None)"
        using False Cons.prems Suc u by simp
      also have "\<dots> = (let zs = filter (\<lambda>x. st_tr x \<noteq> t) xs in
        if length zs \<le> r'
        then Inr (found + length (filter (\<lambda>x. st_tr x = t) xs), map Some ((ys @ [x]) @ zs) @ replicate (r' - length zs) None)
        else Inl Out_of_bounds)" by (rule Cons.IH [OF l(2,1)])
      finally show ?thesis using False Suc by (simp add: Let_def)
    qed
  qed
qed

context kernel_heap
begin

lemma ir_kmalloc_cases:
  assumes "heap_ok (ir_heap s)" and "n < MAX_REQUEST"
  obtains (none) h where "ir_kmalloc subsystem n s = Inr (None, s\<lparr>ir_heap := h\<rparr>)" "heap_ok h" "live h = live (ir_heap s)"
  | (some) b h where "ir_kmalloc subsystem n s = Inr (Some b, s\<lparr>ir_heap := h\<rparr>)" "heap_ok h"
      "live (ir_heap s) b = None" "live h = (live (ir_heap s))(b \<mapsto> n)"
proof (cases rule: malloc_cases [OF assms])
  case (1 h')
  with none show ?thesis by (simp add: ir_kmalloc_def)
next
  case (2 b h')
  with some show ?thesis by (simp add: ir_kmalloc_def)
qed

lemma ir_kfree_ok:
  assumes "heap_ok (ir_heap s)" and "live (ir_heap s) b \<noteq> None"
  shows "\<exists>h. ir_kfree subsystem (Some b) s = Inr (s\<lparr>ir_heap := h\<rparr>) \<and> heap_ok h \<and> live h = (live (ir_heap s))(b := None)"
proof -
  from assms(2) obtain n where "live (ir_heap s) b = Some n" by blast
  from free_live [OF assms(1) this] show ?thesis by (auto simp: ir_kfree_def)
qed

lemma drop_hook_ok:
  assumes "heap_ok (ir_heap s)" and "\<forall>b \<in> set (hook_blocks (p, k)). live (ir_heap s) b \<noteq> None"
    and "distinct (hook_blocks (p, k))"
  shows "\<exists>h. drop_hook subsystem p k s = Inr (s\<lparr>ir_heap := h\<rparr>) \<and> heap_ok h
    \<and> live h = live (ir_heap s) |` (- set (hook_blocks (p, k)))"
proof (cases "ih_stubs_ptr k")
  case None
  then show ?thesis using ir_kfree_ok [OF assms(1), of p] assms(2)
    by (auto simp: drop_hook_def hook_blocks_def restrict_map_def fun_eq_iff)
next
  case (Some q)
  then have b: "live (ir_heap s) q \<noteq> None" "live (ir_heap s) p \<noteq> None" "p \<noteq> q" using assms(2,3) by (auto simp: hook_blocks_def)
  from ir_kfree_ok [OF assms(1) b(1)] obtain h1 where h1: "ir_kfree subsystem (Some q) s = Inr (s\<lparr>ir_heap := h1\<rparr>)"
    "heap_ok h1" "live h1 = (live (ir_heap s))(q := None)" by blast
  from ir_kfree_ok [of "s\<lparr>ir_heap := h1\<rparr>" p] h1 b obtain h2 where
    "ir_kfree subsystem (Some p) (s\<lparr>ir_heap := h1\<rparr>) = Inr (s\<lparr>ir_heap := h2\<rparr>)" "heap_ok h2" "live h2 = (live h1)(p := None)" by auto
  then show ?thesis using h1 Some by (auto simp: drop_hook_def hook_blocks_def restrict_map_def fun_eq_iff)
qed

text \<open>
  The common end of both operations: under the locks of all schedulers the hook is exchanged and a
  thread changed, then the old hook is freed.
\<close>

definition exchanged :: "nat \<Rightarrow> thread \<Rightarrow> int \<Rightarrow> nat \<times> irq_hook \<Rightarrow> 'h irqsys \<Rightarrow> 'h irqsys \<Rightarrow> bool" where
  "exchanged t th' irq pk s s' \<longleftrightarrow>
     ir_handlers s' = (ir_handlers s)[nat irq := pk] \<and> heap_ok (ir_heap s')
     \<and> distinct (irq_blocks (ir_handlers s')) \<and> (\<forall>b \<in> set (irq_blocks (ir_handlers s')). live (ir_heap s') b \<noteq> None)
     \<and> sys_ok (ir_sys s') \<and> \<not> ir_global s' \<and> k_threads (ir_sys s') = (k_threads (ir_sys s))(t \<mapsto> th')
     \<and> (\<forall>i < k_cpu_count (ir_sys s). same_queues (k_sched (ir_sys s) ! i) (k_sched (ir_sys s') ! i))"

lemma exchange_ok:
  assumes ok: "irq_ok (live (ir_heap s)) s" and irq: "nat irq < length (ir_handlers s)" "ir_handlers s ! nat irq = (p, k)"
    and h2: "heap_ok h2" and new: "distinct (hook_blocks pk)" "\<forall>b \<in> set (hook_blocks pk). live (ir_heap s) b = None \<and> live h2 b \<noteq> None"
    and old: "\<forall>b. b \<notin> set (hook_blocks pk) \<longrightarrow> live h2 b = live (ir_heap s) b"
  shows "\<exists>k1. lock_all (s\<lparr>ir_heap := h2\<rparr>) = Inr (s\<lparr>ir_heap := h2, ir_global := True, ir_sys := k1\<rparr>)
    \<and> k_threads k1 = k_threads (ir_sys s) \<and> k_cpu_count k1 = k_cpu_count (ir_sys s)
    \<and> (\<forall>s4 th'. ir_sys s4 = k1 \<and> ir_heap s4 = h2 \<and> ir_handlers s4 = ir_handlers s \<and> ir_global s4 \<longrightarrow>
         (\<exists>s6 s'. unlock_all (set_thr t th' (put_hook irq (fst pk) (snd pk) s4)) = Inr s6 \<and> drop_hook subsystem p k s6 = Inr s'
            \<and> exchanged t th' irq pk s s' \<and> live (ir_heap s') = live h2 |` (- set (hook_blocks (p, k)))))"
proof -
  note o = ok [unfolded irq_ok_def]
  from lock_all_ok [of "ir_sys s" "ir_global s"] o obtain k1 where k1:
    "sched_lock_all (ir_global s, ir_sys s) = Inr (True, k1)" "k_threads k1 = k_threads (ir_sys s)"
    "k_cpu_count k1 = k_cpu_count (ir_sys s)"
    "\<forall>ts. \<exists>s3. sched_unlock_all (True, k1\<lparr>k_threads := ts\<rparr>) = Inr (False, s3) \<and> sys_ok s3 \<and> k_threads s3 = ts
       \<and> k_cpu_count s3 = k_cpu_count (ir_sys s) \<and> (\<forall>i < k_cpu_count (ir_sys s). same_queues (k_sched (ir_sys s) ! i) (k_sched s3 ! i))
       \<and> k_if s3 = (k_if (ir_sys s) \<and> k_CPUID (ir_sys s) = 0)" by auto
  have "\<exists>s6 s'. unlock_all (set_thr t th' (put_hook irq (fst pk) (snd pk) s4)) = Inr s6 \<and> drop_hook subsystem p k s6 = Inr s'
      \<and> exchanged t th' irq pk s s' \<and> live (ir_heap s') = live h2 |` (- set (hook_blocks (p, k)))"
    if s4: "ir_sys s4 = k1" "ir_heap s4 = h2" "ir_handlers s4 = ir_handlers s" "ir_global s4" for s4 th'
  proof -
    from k1(4) obtain k3 where k3: "sched_unlock_all (True, k1\<lparr>k_threads := (k_threads (ir_sys s))(t \<mapsto> th')\<rparr>) = Inr (False, k3)"
      "sys_ok k3" "k_threads k3 = (k_threads (ir_sys s))(t \<mapsto> th')"
      "\<forall>i < k_cpu_count (ir_sys s). same_queues (k_sched (ir_sys s) ! i) (k_sched k3 ! i)" by blast
    define s6 where "s6 = (set_thr t th' (put_hook irq (fst pk) (snd pk) s4))\<lparr>ir_global := False, ir_sys := k3\<rparr>"
    have s6: "ir_heap s6 = h2" "ir_sys s6 = k3" "ir_handlers s6 = (ir_handlers s)[nat irq := pk]" "\<not> ir_global s6"
      by (simp_all add: s6_def set_thr_def put_hook_def s4)
    have "put_tr t th' k1 = k1\<lparr>k_threads := (k_threads (ir_sys s))(t \<mapsto> th')\<rparr>" by (simp add: put_tr_def k1(2))
    then have un: "unlock_all (set_thr t th' (put_hook irq (fst pk) (snd pk) s4)) = Inr s6"
      using k3(1) s4 by (simp add: unlock_all_def set_thr_def put_hook_def s6_def)
    have ob: "\<forall>b \<in> set (hook_blocks (p, k)). live (ir_heap s) b \<noteq> None" "distinct (hook_blocks (p, k))"
      using o irq_blocks_split [OF irq(1)] irq(2) by simp_all
    then have "\<forall>b \<in> set (hook_blocks (p, k)). live (ir_heap s6) b \<noteq> None" using new(2) old s6(1) by metis
    from drop_hook_ok [OF _ this ob(2)] h2 s6(1) obtain h3 where dr: "drop_hook subsystem p k s6 = Inr (s6\<lparr>ir_heap := h3\<rparr>)"
      "heap_ok h3" "live h3 = live h2 |` (- set (hook_blocks (p, k)))" by auto
    have bl: "distinct (irq_blocks ((ir_handlers s)[nat irq := pk]))"
      "\<forall>b \<in> set (irq_blocks ((ir_handlers s)[nat irq := pk])). live h3 b \<noteq> None"
      using irq_blocks_replace [OF irq(1), of "live (ir_heap s)" pk "live h2" "live h3"] o new old dr(3) irq(2) by auto
    show ?thesis
      using un dr bl k3(2-4) by (intro exI [of _ s6] exI [of _ "s6\<lparr>ir_heap := h3\<rparr>"]) (simp add: exchanged_def s6)
  qed
  then show ?thesis using k1(1-3) by (intro exI [of _ k1]) (simp add: lock_all_def)
qed

lemma exchanged_ok:
  assumes "irq_ok lv s" and "exchanged t th' irq pk s s'" and "hook_ok (snd pk)"
  shows "irq_ok (live (ir_heap s')) s'"
  using assms by (auto simp: irq_ok_def exchanged_def dest!: set_update_subset_insert [THEN subsetD])

text \<open>The state after a request.\<close>

definition requested :: "nat \<Rightarrow> int \<Rightarrow> 'h irqsys \<Rightarrow> 'h irqsys \<Rightarrow> bool" where
  "requested t irq s s' \<longleftrightarrow>
     (\<exists>p k th aff. get_hook irq s = Inr (p, k) \<and> k_threads (ir_sys s) t = Some th
       \<and> (\<exists>p' k' q. ir_handlers s' = (ir_handlers s)[nat irq := (p', k')]
           \<and> ih_stubs k' = ih_stubs k @ [\<lparr>st_tr = t, st_ack = 0, st_nop = 0\<rparr>] \<and> ih_last k' = ih_last k
           \<and> ih_stubs_ptr k' = Some q \<and> p' \<noteq> q \<and> live (ir_heap s) p' = None \<and> live (ir_heap s) q = None
           \<and> live (ir_heap s') = (live (ir_heap s) |` (- set (hook_blocks (p, k))))
               (p' \<mapsto> sizeof_irq_hook, q \<mapsto> 20 * (length (ih_stubs k) + 1)))
       \<and> k_threads (ir_sys s') = (k_threads (ir_sys s))(t \<mapsto> th\<lparr>t_irq := irq, t_state := THREAD_IRQ, t_cpu_affinity := aff\<rparr>)
       \<and> 0 \<le> aff \<and> (t_cpu_affinity th \<ge> 0 \<longrightarrow> aff = t_cpu_affinity th)
       \<and> (\<forall>i < k_cpu_count (ir_sys s). same_queues (k_sched (ir_sys s) ! i) (k_sched (ir_sys s') ! i)))"

lemma hook_at:
  assumes "irq_ok lv s" and "0 \<le> irq" "irq < 24" and "get_hook irq s = Inr (p, k)"
  shows "nat irq < length (ir_handlers s)" and "ir_handlers s ! nat irq = (p, k)" and "hook_ok k"
proof -
  show i: "nat irq < length (ir_handlers s)" "ir_handlers s ! nat irq = (p, k)"
    using assms by (auto simp: irq_ok_def get_hook_def kres_simps)
  show "hook_ok k" using assms(1) i unfolding irq_ok_def by (metis nth_mem snd_conv)
qed

lemma request_irq_ok:
  assumes ok: "irq_ok (live (ir_heap s)) s" and h: "heap_ok (ir_heap s)" and irq: "0 \<le> irq" "irq < 24"
    and th: "k_threads (ir_sys s) t = Some th" "t_state th = THREAD_SUSPENDED" "1 \<le> t_tid th" "t_tid th < 2147483648"
    and hk: "get_hook irq s = Inr (p, k)" and small: "20 * (length (ih_stubs k) + 1) < MAX_REQUEST"
  shows "\<exists>rc s'. request_irq subsystem t irq s = Inr (rc, s') \<and> irq_ok (live (ir_heap s')) s' \<and> heap_ok (ir_heap s')
    \<and> (rc = -1 \<and> ir_handlers s' = ir_handlers s \<and> ir_sys s' = ir_sys s \<and> live (ir_heap s') = live (ir_heap s)
       \<or> rc = 0 \<and> requested t irq s s')"
proof -
  note i = hook_at(1,2) [OF ok irq hk] and k = hook_at(3) [OF ok irq hk]
  have sz: "sizeof_irq_hook < MAX_REQUEST" "nat (int sizeof_irq_stub * (ih_count k + 1) mod 2 ^ 32) = 20 * (length (ih_stubs k) + 1)"
  proof -
    have "int sizeof_irq_stub * (ih_count k + 1) = int (20 * (length (ih_stubs k) + 1))"
      using k by (simp add: hook_ok_def sizeof_irq_stub_def)
    then show "nat (int sizeof_irq_stub * (ih_count k + 1) mod 2 ^ 32) = 20 * (length (ih_stubs k) + 1)"
      using small by (simp add: MAX_REQUEST_def)
    show "sizeof_irq_hook < MAX_REQUEST" by (simp add: sizeof_irq_hook_def MAX_REQUEST_def)
  qed
  note rq = request_irq_def get_tr_def IRQ_COUNT_def th(1,2)
  show ?thesis
  proof (cases rule: ir_kmalloc_cases [OF h sz(1)])
    case (1 h1)
    then show ?thesis using irq ok by (auto simp: rq irq_ok_def)
  next
    case hp: (2 hp h1)
    let ?s1 = "s\<lparr>ir_heap := h1\<rparr>"
    have hk1: "get_hook irq ?s1 = Inr (p, k)" using hk by (simp add: get_hook_def)
    have h1: "heap_ok (ir_heap ?s1)" using hp(2) by simp
    show ?thesis
    proof (cases rule: ir_kmalloc_cases [OF h1 small])
      case (1 h2)
      then have "live h2 hp \<noteq> None" using hp(4) by simp
      with 1 ir_kfree_ok [of "s\<lparr>ir_heap := h2\<rparr>" hp] obtain h3 where
        "ir_kfree subsystem (Some hp) (s\<lparr>ir_heap := h2\<rparr>) = Inr (s\<lparr>ir_heap := h3\<rparr>)" "heap_ok h3" "live h3 = (live h2)(hp := None)" by auto
      moreover have "live h3 = live (ir_heap s)" using calculation(3) 1(3) hp(3,4) by auto
      ultimately show ?thesis using 1(1) hp(1) hk1 irq ok sz(2) by (auto simp: rq irq_ok_def)
    next
      case sp: (2 sp h2)
      let ?s2 = "s\<lparr>ir_heap := h2\<rparr>"
      define k' where "k' = \<lparr>ih_raised = ih_raised k, ih_index = ih_index k, ih_last = ih_last k, ih_count = ih_count k + 1,
        ih_stubs_ptr = Some sp, ih_stubs = ih_stubs k @ [\<lparr>st_tr = t, st_ack = 0, st_nop = 0\<rparr>]\<rparr>"
      have nb: "hook_blocks (hp, k') = [hp, sp]" by (simp add: hook_blocks_def k'_def)
      have fresh: "live (ir_heap s) sp = None" "sp \<noteq> hp" using sp(3) hp(4) by (auto split: if_splits)
      have new: "distinct (hook_blocks (hp, k'))" "\<forall>b \<in> set (hook_blocks (hp, k')). live (ir_heap s) b = None \<and> live h2 b \<noteq> None"
        "\<forall>b. b \<notin> set (hook_blocks (hp, k')) \<longrightarrow> live h2 b = live (ir_heap s) b"
        unfolding nb using hp(3,4) sp(4) fresh by auto
      from exchange_ok [OF ok i sp(2) new, of t] obtain k1 where k1:
        "lock_all ?s2 = Inr (?s2\<lparr>ir_global := True, ir_sys := k1\<rparr>)" "k_threads k1 = k_threads (ir_sys s)"
        "k_cpu_count k1 = k_cpu_count (ir_sys s)"
        "\<forall>s4 th'. ir_sys s4 = k1 \<and> ir_heap s4 = h2 \<and> ir_handlers s4 = ir_handlers s \<and> ir_global s4 \<longrightarrow>
         (\<exists>s6 s'. unlock_all (set_thr t th' (put_hook irq hp k' s4)) = Inr s6 \<and> drop_hook subsystem p k s6 = Inr s'
            \<and> exchanged t th' irq (hp, k') s s' \<and> live (ir_heap s') = live h2 |` (- set (hook_blocks (p, k))))" by auto
      have cc: "k_cpu_count (ir_sys s) \<noteq> 0" using ok by (auto simp: irq_ok_def sys_ok_def)
      define aff where "aff = (if t_cpu_affinity th < 0 then c_rem (s32 (t_tid th - 1)) (int (k_cpu_count (ir_sys s))) else t_cpu_affinity th)"
      have aff: "0 \<le> aff" using th(3,4) cc by (auto simp: aff_def c_rem_def)
      let ?th = "th\<lparr>t_irq := irq, t_state := THREAD_IRQ, t_cpu_affinity := aff\<rparr>"
      define s4 where "s4 = (if ih_count k + 1 = 1 then unmask_irq irq (?s2\<lparr>ir_global := True, ir_sys := k1\<rparr>)
        else ?s2\<lparr>ir_global := True, ir_sys := k1\<rparr>)"
      have s4: "ir_sys s4 = k1" "ir_heap s4 = h2" "ir_handlers s4 = ir_handlers s" "ir_global s4 = True" by (auto simp: s4_def)
      with k1(4) obtain s6 s' where ex: "unlock_all (set_thr t ?th (put_hook irq hp k' s4)) = Inr s6"
        "drop_hook subsystem p k s6 = Inr s'" "exchanged t ?th irq (hp, k') s s'"
        "live (ir_heap s') = live h2 |` (- set (hook_blocks (p, k)))" by blast
      have "\<forall>b \<in> set (hook_blocks (p, k)). live (ir_heap s) b \<noteq> None"
        using ok irq_blocks_split [OF i(1)] i(2) by (simp add: irq_ok_def)
      then have "hp \<notin> set (hook_blocks (p, k))" "sp \<notin> set (hook_blocks (p, k))" using hp(3) fresh(1) by auto
      then have lv: "live (ir_heap s') = (live (ir_heap s) |` (- set (hook_blocks (p, k))))
          (hp \<mapsto> sizeof_irq_hook, sp \<mapsto> 20 * (length (ih_stubs k) + 1))"
        using ex(4) hp(4) sp(4) by (auto simp: restrict_map_def fun_eq_iff)
      have hk': "hook_ok k'" using k by (auto simp: hook_ok_def k'_def max_def split: if_splits)
      have "requested t irq s s'"
        unfolding requested_def
      proof (rule exI [of _ p], rule exI [of _ k], rule exI [of _ th], rule exI [of _ aff], intro conjI)
        show "0 \<le> t_cpu_affinity th \<longrightarrow> aff = t_cpu_affinity th" by (simp add: aff_def)
        show "\<exists>p' k' q. ir_handlers s' = (ir_handlers s)[nat irq := (p', k')]
          \<and> ih_stubs k' = ih_stubs k @ [\<lparr>st_tr = t, st_ack = 0, st_nop = 0\<rparr>] \<and> ih_last k' = ih_last k
          \<and> ih_stubs_ptr k' = Some q \<and> p' \<noteq> q \<and> live (ir_heap s) p' = None \<and> live (ir_heap s) q = None
          \<and> live (ir_heap s') = (live (ir_heap s) |` (- set (hook_blocks (p, k))))
               (p' \<mapsto> sizeof_irq_hook, q \<mapsto> 20 * (length (ih_stubs k) + 1))"
          using ex(3) lv fresh hp(3)
          by (intro exI [of _ hp] exI [of _ k'] exI [of _ sp]) (simp add: exchanged_def, simp add: k'_def)
      qed (use hk th(1) aff ex(3) in \<open>simp_all add: exchanged_def\<close>)
      moreover have "request_irq subsystem t irq s = Inr (0, s')"
      proof -
        have hk2: "get_hook irq (s\<lparr>ir_heap := h2, ir_global := True, ir_sys := k1\<rparr>) = Inr (p, k)"
          using hk by (simp add: get_hook_def)
        have ks: "\<not> ih_index k < 0" "\<not> ih_last k < 0" "0 \<le> ih_count k" "nat (ih_count k) = length (ih_stubs k)"
          using k by (simp_all add: hook_ok_def)
        have thr: "k_threads (ir_sys (put_hook irq hp k' s4)) t = Some th"
          "k_cpu_count (ir_sys (put_hook irq hp k' s4)) = k_cpu_count (ir_sys s)" using s4(1) k1(2,3) th(1) by (simp_all add: put_hook_def)
        have ss: "(if ih_count k = 0 then unmask_irq irq (?s2\<lparr>ir_global := True, ir_sys := k1\<rparr>)
          else ?s2\<lparr>ir_global := True, ir_sys := k1\<rparr>) = s4" by (simp add: s4_def)
        show ?thesis
          unfolding request_irq_def using irq hp(1) hk1 sp(1) sz(2) k1(1) hk2 ks th(1,2) thr cc ex(1,2)
          by (cases "t_cpu_affinity th < 0") (simp_all add: IRQ_COUNT_def get_tr_def Let_def ss k'_def [symmetric] aff_def)
      qed
      ultimately show ?thesis
        using exchanged_ok [OF ok ex(3)] hk' ex(3) by (auto simp: exchanged_def)
    qed
  qed
qed

text \<open>A release by a thread that handles the IRQ together with others.\<close>

definition released_irq :: "nat \<Rightarrow> int \<Rightarrow> irq_hook \<Rightarrow> 'h irqsys \<Rightarrow> 'h irqsys \<Rightarrow> bool" where
  "released_irq t irq k s s' \<longleftrightarrow>
     (\<exists>p' k' th. ir_handlers s' = (ir_handlers s)[nat irq := (p', k')]
       \<and> ih_stubs k' = filter (\<lambda>x. st_tr x \<noteq> t) (ih_stubs k) \<and> ih_count k' = ih_count k - 1
       \<and> ih_last k' = (if ih_last k = ih_count k - 1 then ih_count k else ih_last k)
       \<and> k_threads (ir_sys s) t = Some th
       \<and> k_threads (ir_sys s') = (k_threads (ir_sys s))(t \<mapsto> th\<lparr>t_state := THREAD_SUSPENDED, t_irq := -1\<rparr>)
       \<and> sys_ok (ir_sys s') \<and> (\<forall>i < k_cpu_count (ir_sys s). same_queues (k_sched (ir_sys s) ! i) (k_sched (ir_sys s') ! i)))"

lemma release_irq_ok:
  assumes ok: "irq_ok (live (ir_heap s)) s" and h: "heap_ok (ir_heap s)" and irq: "0 \<le> irq" "irq < 24"
    and hk: "get_hook irq s = Inr (p, k)" and cnt: "2 \<le> length (ih_stubs k)" and small: "20 * length (ih_stubs k) < MAX_REQUEST"
    and th: "k_threads (ir_sys s) t = Some th" and one: "length (filter (\<lambda>x. st_tr x = t) (ih_stubs k)) = 1"
  shows "\<exists>rc s'. release_irq subsystem t irq s = Inr (rc, s') \<and> heap_ok (ir_heap s')
    \<and> (rc = -1 \<and> ir_handlers s' = ir_handlers s \<and> ir_sys s' = ir_sys s \<or> rc = 0 \<and> released_irq t irq k s s')"
proof -
  note i = hook_at(1,2) [OF ok irq hk] and k = hook_at(3) [OF ok irq hk]
  let ?n = "length (ih_stubs k) - 1"
  have cn: "ih_count k = int (length (ih_stubs k))" using k by (simp add: hook_ok_def)
  have sz: "sizeof_irq_hook < MAX_REQUEST" "20 * ?n < MAX_REQUEST"
    "nat (int sizeof_irq_stub * (ih_count k - 1) mod 2 ^ 32) = 20 * ?n" "nat (ih_count k - 1) = ?n" "ih_count k - 1 \<noteq> 0"
  proof -
    have "int sizeof_irq_stub * (ih_count k - 1) = int (20 * ?n)" using cn cnt by (simp add: sizeof_irq_stub_def of_nat_diff)
    then show "nat (int sizeof_irq_stub * (ih_count k - 1) mod 2 ^ 32) = 20 * ?n" using small by (simp add: MAX_REQUEST_def)
  qed (use small cn cnt in \<open>simp_all add: sizeof_irq_hook_def MAX_REQUEST_def\<close>)
  have fl: "length (filter (\<lambda>x. st_tr x \<noteq> t) (ih_stubs k)) = ?n"
    using one sum_length_filter_compl [of "\<lambda>x. st_tr x = t" "ih_stubs k"] by simp
  have sh: "shift_stubs t (take (nat (ih_count k)) (ih_stubs k)) 0 0 (replicate ?n None)
      = Inr (1, map Some (filter (\<lambda>x. st_tr x \<noteq> t) (ih_stubs k)))"
    using shift_stubs_eq [of 0 0 "[]" t "ih_stubs k" ?n] fl one cn by (simp add: Let_def)
  have un: "map the (filter (\<lambda>x. x \<noteq> None) (map Some xs)) = xs" for xs :: "irq_stub list" by (induction xs) simp_all
  show ?thesis
  proof (cases rule: ir_kmalloc_cases [OF h sz(1)])
    case (1 h1)
    then show ?thesis using irq by (auto simp: release_irq_def IRQ_COUNT_def)
  next
    case hp: (2 hp h1)
    let ?s1 = "s\<lparr>ir_heap := h1\<rparr>"
    have hk1: "get_hook irq ?s1 = Inr (p, k)" using hk by (simp add: get_hook_def)
    have h1: "heap_ok (ir_heap ?s1)" using hp(2) by simp
    show ?thesis
    proof (cases rule: ir_kmalloc_cases [OF h1 sz(2)])
      case (1 h2)
      then have "live h2 hp \<noteq> None" using hp(4) by simp
      with 1 ir_kfree_ok [of "s\<lparr>ir_heap := h2\<rparr>" hp] obtain h3 where
        "ir_kfree subsystem (Some hp) (s\<lparr>ir_heap := h2\<rparr>) = Inr (s\<lparr>ir_heap := h3\<rparr>)" "heap_ok h3" by auto
      then show ?thesis using 1(1) hp(1) hk1 irq sz(3,5) by (auto simp: release_irq_def IRQ_COUNT_def)
    next
      case sp: (2 sp h2)
      let ?s2 = "s\<lparr>ir_heap := h2\<rparr>"
      define k' where "k' = \<lparr>ih_raised = ih_raised k,
        ih_index = (if ih_index k \<ge> ih_count k - 1 \<and> ih_index k > 0 then ih_index k - 1 else ih_index k),
        ih_last = (if ih_last k \<ge> ih_count k - 1 \<and> ih_last k > 0 then s32 (ih_last k + 1) else ih_last k),
        ih_count = ih_count k - 1, ih_stubs_ptr = Some sp, ih_stubs = filter (\<lambda>x. st_tr x \<noteq> t) (ih_stubs k)\<rparr>"
      have nb: "hook_blocks (hp, k') = [hp, sp]" by (simp add: hook_blocks_def k'_def)
      have fresh: "live (ir_heap s) sp = None" "sp \<noteq> hp" using sp(3) hp(4) by (auto split: if_splits)
      have new: "distinct (hook_blocks (hp, k'))" "\<forall>b \<in> set (hook_blocks (hp, k')). live (ir_heap s) b = None \<and> live h2 b \<noteq> None"
        "\<forall>b. b \<notin> set (hook_blocks (hp, k')) \<longrightarrow> live h2 b = live (ir_heap s) b"
        unfolding nb using hp(3,4) sp(4) fresh by auto
      from exchange_ok [OF ok i sp(2) new, of t] obtain k1 where k1:
        "lock_all ?s2 = Inr (?s2\<lparr>ir_global := True, ir_sys := k1\<rparr>)" "k_threads k1 = k_threads (ir_sys s)"
        "\<forall>s4 th'. ir_sys s4 = k1 \<and> ir_heap s4 = h2 \<and> ir_handlers s4 = ir_handlers s \<and> ir_global s4 \<longrightarrow>
         (\<exists>s6 s'. unlock_all (set_thr t th' (put_hook irq hp k' s4)) = Inr s6 \<and> drop_hook subsystem p k s6 = Inr s'
            \<and> exchanged t th' irq (hp, k') s s' \<and> live (ir_heap s') = live h2 |` (- set (hook_blocks (p, k))))" by auto
      let ?th = "th\<lparr>t_state := THREAD_SUSPENDED, t_irq := -1\<rparr>" and ?s4 = "?s2\<lparr>ir_global := True, ir_sys := k1\<rparr>"
      have "ir_sys ?s4 = k1 \<and> ir_heap ?s4 = h2 \<and> ir_handlers ?s4 = ir_handlers s \<and> ir_global ?s4" by simp
      with k1(3) obtain s6 s' where ex: "unlock_all (set_thr t ?th (put_hook irq hp k' ?s4)) = Inr s6"
        "drop_hook subsystem p k s6 = Inr s'" "exchanged t ?th irq (hp, k') s s'" by blast
      have b: "int (length (ih_stubs k)) < 2147483648" using small by (simp add: MAX_REQUEST_def)
      have "ih_last k < max 1 (ih_count k)" "0 \<le> ih_last k" using k unfolding hook_ok_def by blast+
      then have lst: "ih_last k' = (if ih_last k = ih_count k - 1 then ih_count k else ih_last k)"
        using cn cnt b by (auto simp: k'_def)
      have "ih_stubs k' = filter (\<lambda>x. st_tr x \<noteq> t) (ih_stubs k)" "ih_count k' = ih_count k - 1" by (simp_all add: k'_def)
      with lst have "released_irq t irq k s s'"
        unfolding released_irq_def using th ex(3)
        by (intro exI [of _ hp] exI [of _ k'] exI [of _ th]) (simp add: exchanged_def)
      moreover have "release_irq subsystem t irq s = Inr (0, s')"
      proof -
        have hk2: "get_hook irq ?s4 = Inr (p, k)" using hk by (simp add: get_hook_def)
        have thr: "k_threads (ir_sys (put_hook irq hp k' ?s4)) t = Some th" using k1(2) th by (simp add: put_hook_def)
        show ?thesis
          unfolding release_irq_def using irq hp(1) hk1 sp(1) sz(3-5) sh k1(1) hk2 thr ex(1,2) un
          by (simp add: IRQ_COUNT_def get_tr_def Let_def k'_def [symmetric])
      qed
      ultimately show ?thesis using ex(3) by (auto simp: exchanged_def)
    qed
  qed
qed

end

section \<open>Properties\<close>

text \<open>
  C22: \<^verbatim>\<open>request_irq\<close> of a suspended thread returns. When a block cannot be had it returns -1, the hooks and
  the threads are as before and so are the live blocks of the heap. Otherwise it returns 0, the
  thread is the last handler of the IRQ, in the state of an IRQ handler and bound to a CPU (the one it
  was bound to, if any); the earlier handlers keep their places and the thread that handled the last
  interrupt its turn; the queues of all schedulers are as before and their locks are free again. The live
  blocks are then exactly those of before without the old hook and its list of stubs, which have been
  freed, once each, and with the new hook and its list: nothing leaks.
\<close>

theorem request_irq_correct:
  assumes "irq_ok (live (ir_heap s)) s" and "kernel_heap_ok (ir_heap s)" and "0 \<le> irq" "irq < 24"
    and "k_threads (ir_sys s) t = Some th" "t_state th = THREAD_SUSPENDED" "1 \<le> t_tid th" "t_tid th < 2147483648"
    and "get_hook irq s = Inr (p, k)" and "20 * (length (ih_stubs k) + 1) < MAX_REQUEST"
  shows "\<exists>rc s'. request_irq liballoc_subsystem t irq s = Inr (rc, s')
    \<and> irq_ok (live (ir_heap s')) s' \<and> kernel_heap_ok (ir_heap s')
    \<and> (rc = -1 \<and> ir_handlers s' = ir_handlers s \<and> ir_sys s' = ir_sys s \<and> live (ir_heap s') = live (ir_heap s)
       \<or> rc = 0
         \<and> (\<exists>p' k' q aff. ir_handlers s' = (ir_handlers s)[nat irq := (p', k')]
             \<and> ih_stubs k' = ih_stubs k @ [\<lparr>st_tr = t, st_ack = 0, st_nop = 0\<rparr>] \<and> ih_last k' = ih_last k
             \<and> ih_stubs_ptr k' = Some q \<and> p' \<noteq> q \<and> live (ir_heap s) p' = None \<and> live (ir_heap s) q = None
             \<and> live (ir_heap s') = (live (ir_heap s) |` (- ({p} \<union> set_option (ih_stubs_ptr k))))
                 (p' \<mapsto> sizeof_irq_hook, q \<mapsto> 20 * (length (ih_stubs k) + 1))
             \<and> k_threads (ir_sys s') = (k_threads (ir_sys s))(t \<mapsto> th\<lparr>t_irq := irq, t_state := THREAD_IRQ, t_cpu_affinity := aff\<rparr>)
             \<and> 0 \<le> aff \<and> (t_cpu_affinity th \<ge> 0 \<longrightarrow> aff = t_cpu_affinity th))
         \<and> (\<forall>i < k_cpu_count (ir_sys s). same_queues (k_sched (ir_sys s) ! i) (k_sched (ir_sys s') ! i)))"
proof -
  have bl: "set (hook_blocks (p, k)) = {p} \<union> set_option (ih_stubs_ptr k)"
    by (cases "ih_stubs_ptr k") (auto simp: hook_blocks_def)
  from kheap.request_irq_ok [OF assms] obtain rc s' where r: "request_irq liballoc_subsystem t irq s = Inr (rc, s')"
    "irq_ok (live (ir_heap s')) s'" "kernel_heap_ok (ir_heap s')"
    "rc = -1 \<and> ir_handlers s' = ir_handlers s \<and> ir_sys s' = ir_sys s \<and> live (ir_heap s') = live (ir_heap s)
     \<or> rc = 0 \<and> kheap.requested t irq s s'" by blast
  show ?thesis
  proof (cases "rc = -1 \<and> ir_handlers s' = ir_handlers s \<and> ir_sys s' = ir_sys s \<and> live (ir_heap s') = live (ir_heap s)")
    case True
    with r show ?thesis by (intro exI [of _ rc] exI [of _ s']) simp
  next
    case False
    with r(4) have "rc = 0" "kheap.requested t irq s s'" by blast+
    with r(1-3) assms(5,9) show ?thesis unfolding kheap.requested_def bl [symmetric]
      by (intro exI [of _ rc] exI [of _ s']) fastforce
  qed
qed

definition demo_hook :: "nat option \<Rightarrow> nat list \<Rightarrow> int \<Rightarrow> irq_hook" where
  "demo_hook q ts l = \<lparr>ih_raised = 0, ih_index = 0, ih_last = l, ih_count = int (length ts), ih_stubs_ptr = q,
     ih_stubs = map (\<lambda>t. \<lparr>st_tr = t, st_ack = 0, st_nop = 0\<rparr>) ts\<rparr>"

definition demo_irqs :: "physmem liballoc irqsys" where
  "demo_irqs = \<lparr>ir_heap = demo3_heap, ir_sys = demo_sys, ir_global = False,
     ir_handlers = [(4148, demo_hook None [] 0), (4276, demo_hook (Some 4408) [100, 200] 1)],
     ir_mask = 0, ir_ioapic = True, ir_inside = 0, ir_out = []\<rparr>"

lemma demo_irqs_sel [simp]:
  "ir_heap demo_irqs = demo3_heap" "ir_sys demo_irqs = demo_sys" "k_threads demo_sys 500 = Some (demo_thread 5 THREAD_SUSPENDED (-1) 0)"
  "k_threads demo_sys 200 = Some (demo_thread 2 THREAD_RUNNING 0 0)"
  "get_hook 1 demo_irqs = Inr (4276, demo_hook (Some 4408) [100, 200] 1)"
  by (simp_all add: demo_irqs_def demo_sys_def get_hook_def)

lemma demo_irqs_ok: "irq_ok (live demo3_heap) demo_irqs" "kernel_heap_ok demo3_heap"
  using demo3_heap_ok demo_sys_ok
  by (simp_all add: irq_ok_def demo_irqs_def demo_hook_def hook_ok_def irq_blocks_def hook_blocks_def)

theorem request_irq_correct_witness:
  "\<exists>rc s'. request_irq liballoc_subsystem 500 1 demo_irqs = Inr (rc, s')
    \<and> (rc = -1 \<and> ir_handlers s' = ir_handlers demo_irqs
       \<or> rc = 0 \<and> (\<exists>th. k_threads (ir_sys s') 500 = Some th \<and> t_state th = THREAD_IRQ))"
proof -
  have "irq_ok (live (ir_heap demo_irqs)) demo_irqs" "kernel_heap_ok (ir_heap demo_irqs)" using demo_irqs_ok by simp_all
  note r = request_irq_correct [OF this, of 1 500 "demo_thread 5 THREAD_SUSPENDED (-1) 0" 4276 "demo_hook (Some 4408) [100, 200] 1"]
  show ?thesis using r by (fastforce simp: demo_thread_def demo_hook_def MAX_REQUEST_def)
qed

text \<open>
  C23: \<^verbatim>\<open>release_irq\<close> of one of several handlers returns. When a block cannot be had it returns -1 and
  nothing has changed. Otherwise it returns 0, the thread is suspended and its stub is gone while the
  others keep their order. But when the last interrupt was handled by the last thread of the list,
  \<^verbatim>\<open>last\<close> is increased where it has to be decreased, and the next interrupt reads a handler past the end of
  the list.
\<close>

theorem release_irq_overrun:
  assumes "irq_ok (live (ir_heap s)) s" and "kernel_heap_ok (ir_heap s)" and "0 \<le> irq" "irq < 24"
    and "get_hook irq s = Inr (p, k)" and "2 \<le> length (ih_stubs k)" and "20 * length (ih_stubs k) < MAX_REQUEST"
    and "k_threads (ir_sys s) t = Some th" and "length (filter (\<lambda>x. st_tr x = t) (ih_stubs k)) = 1"
  shows "\<exists>rc s'. release_irq liballoc_subsystem t irq s = Inr (rc, s') \<and> kernel_heap_ok (ir_heap s')
    \<and> (rc = -1 \<and> ir_handlers s' = ir_handlers s \<and> ir_sys s' = ir_sys s
       \<or> rc = 0
         \<and> k_threads (ir_sys s') = (k_threads (ir_sys s))(t \<mapsto> th\<lparr>t_state := THREAD_SUSPENDED, t_irq := -1\<rparr>)
         \<and> (\<exists>p' k'. get_hook irq s' = Inr (p', k') \<and> ih_stubs k' = filter (\<lambda>x. st_tr x \<noteq> t) (ih_stubs k))
         \<and> (ih_last k = ih_count k - 1 \<and> irq \<noteq> 0 \<longrightarrow>
              irq_handler irq (s'\<lparr>ir_sys := (ir_sys s')\<lparr>k_if := False\<rparr>\<rparr>) = Inl Out_of_bounds))"
proof -
  from kheap.release_irq_ok [OF assms] obtain rc s' where r: "release_irq liballoc_subsystem t irq s = Inr (rc, s')"
    "kernel_heap_ok (ir_heap s')"
    "rc = -1 \<and> ir_handlers s' = ir_handlers s \<and> ir_sys s' = ir_sys s \<or> rc = 0 \<and> kheap.released_irq t irq k s s'" by blast
  note i = kheap.hook_at(1,2) [OF assms(1,3-5)] and k = kheap.hook_at(3) [OF assms(1,3-5)]
  show ?thesis
  proof (cases "rc = -1 \<and> ir_handlers s' = ir_handlers s \<and> ir_sys s' = ir_sys s")
    case True
    with r show ?thesis by (intro exI [of _ rc] exI [of _ s']) simp
  next
    case False
    with r(3) obtain p' k' where k': "rc = 0" "ir_handlers s' = (ir_handlers s)[nat irq := (p', k')]"
      "ih_stubs k' = filter (\<lambda>x. st_tr x \<noteq> t) (ih_stubs k)" "ih_count k' = ih_count k - 1"
      "ih_last k' = (if ih_last k = ih_count k - 1 then ih_count k else ih_last k)"
      "k_threads (ir_sys s') = (k_threads (ir_sys s))(t \<mapsto> th\<lparr>t_state := THREAD_SUSPENDED, t_irq := -1\<rparr>)"
      using assms(8) unfolding kheap.released_irq_def by fastforce
    have g: "get_hook irq s' = Inr (p', k')" using i(1) assms(3) k'(2) by (simp add: get_hook_def kres_simps)
    have "length (ih_stubs k') \<le> length (ih_stubs k)" "ih_count k = int (length (ih_stubs k))"
      using k'(3) k by (simp_all add: hook_ok_def)
    then have "irq_handler irq (s'\<lparr>ir_sys := (ir_sys s')\<lparr>k_if := False\<rparr>\<rparr>) = Inl Out_of_bounds"
      if "ih_last k = ih_count k - 1" "irq \<noteq> 0"
      using that g k'(4,5) assms(6) by (simp add: irq_handler_def get_hook_def get_stub_def Let_def aget_def)
    with k' g r(1,2) show ?thesis by (intro exI [of _ rc] exI [of _ s']) simp
  qed
qed

theorem release_irq_overrun_witness:
  "\<exists>rc s'. release_irq liballoc_subsystem 200 1 demo_irqs = Inr (rc, s')
    \<and> (rc = -1 \<and> ir_handlers s' = ir_handlers demo_irqs
       \<or> rc = 0 \<and> irq_handler 1 (s'\<lparr>ir_sys := (ir_sys s')\<lparr>k_if := False\<rparr>\<rparr>) = Inl Out_of_bounds)"
proof -
  have "irq_ok (live (ir_heap demo_irqs)) demo_irqs" "kernel_heap_ok (ir_heap demo_irqs)" using demo_irqs_ok by simp_all
  note r = release_irq_overrun [OF this, of 1 4276 "demo_hook (Some 4408) [100, 200] 1" 200 "demo_thread 2 THREAD_RUNNING 0 0"]
  show ?thesis using r by (fastforce simp: demo_hook_def MAX_REQUEST_def)
qed

text \<open>
  Remark: An interrupt that every handler declines is offered to each exactly once: the turns
  \<^verbatim>\<open>irq_complete\<close> takes while \<^verbatim>\<open>index\<close> runs over the handlers are the positions of the list rotated to the
  thread that handled the last interrupt.
\<close>

theorem irq_turns:
  assumes "hook_ok k" and "length (ih_stubs k) < 1073741824"
  shows "map (\<lambda>i. irq_pos (k\<lparr>ih_index := int i\<rparr>)) [0..<length (ih_stubs k)]
    = map (Inr \<circ> int) (rotate (nat (ih_last k)) [0..<length (ih_stubs k)])"
proof (rule nth_equalityI)
  let ?n = "length (ih_stubs k)"
  fix i
  assume "i < length (map (\<lambda>i. irq_pos (k\<lparr>ih_index := int i\<rparr>)) [0..<?n])"
  then have i: "i < ?n" by simp
  then have l: "0 \<le> ih_last k" "ih_last k < int ?n" "ih_count k = int ?n" using assms(1) by (auto simp: hook_ok_def max_def split: if_splits)
  then have e: "int i + ih_last k = int (nat (ih_last k) + i)" by simp
  have "s32 (int i + ih_last k) = int i + ih_last k" using l i assms(2) by simp
  then have "irq_pos (k\<lparr>ih_index := int i\<rparr>) = Inr (int ((nat (ih_last k) + i) mod ?n))"
    using l i unfolding irq_pos_def by (cases "ih_stubs k = []") (simp_all add: c_rem_def e zmod_int)
  then show "map (\<lambda>i. irq_pos (k\<lparr>ih_index := int i\<rparr>)) [0..<?n] ! i = map (Inr \<circ> int) (rotate (nat (ih_last k)) [0..<?n]) ! i"
    using i mod_less_divisor [of ?n "nat (ih_last k) + i"] by (cases "ih_stubs k") (simp_all add: nth_rotate del: mod_less_divisor upt_Suc)
qed simp

theorem irq_turns_witness:
  "map (\<lambda>i. irq_pos (demo_hook None [7, 8, 9] 2\<lparr>ih_index := int i\<rparr>)) [0..<3] = [Inr 2, Inr 0, Inr 1]"
  using irq_turns [of "demo_hook (Some 1) [7, 8, 9] 2"]
  by (simp add: demo_hook_def hook_ok_def irq_pos_def upt_rec rotate1_def rotate_def numeral_2_eq_2)

text \<open>
  Remark: A thread that is not a handler cannot release an IRQ with several handlers safely: copying the
  stubs writes one past the end of the new list.
\<close>

theorem shift_stubs_foreign:
  assumes "\<forall>x \<in> set xs. st_tr x \<noteq> t" and "xs \<noteq> []"
  shows "shift_stubs t xs 0 0 (replicate (length xs - 1) None) = Inl Out_of_bounds"
proof -
  have "filter (\<lambda>x. st_tr x \<noteq> t) xs = xs" using assms(1) by simp
  then show ?thesis
    using shift_stubs_eq [of 0 0 "[]" t xs "length xs - 1"] assms(2) by (cases xs) (simp_all add: Let_def)
qed

theorem shift_stubs_foreign_witness:
  "shift_stubs 5 [\<lparr>st_tr = 1, st_ack = 0, st_nop = 0\<rparr>, \<lparr>st_tr = 2, st_ack = 0, st_nop = 0\<rparr>] 0 0 [None] = Inl Out_of_bounds"
  using shift_stubs_foreign [of "[\<lparr>st_tr = 1, st_ack = 0, st_nop = 0\<rparr>, \<lparr>st_tr = 2, st_ack = 0, st_nop = 0\<rparr>]" 5] by simp

end
