(* ===== verification/Kmem_cache.thy ===== *)
theory Kmem_cache
  imports Mm Strings Physmem
begin

unbundle bit_operations_syntax

text \<open>
  The slab allocator (\<^verbatim>\<open>kernel/mm/kmem_cache.c\<close>) and the allocator of general sizes that stands on twelve
  of its caches (\<^verbatim>\<open>kernel/mm/kalloc.c\<close>).

  A cache is a record behind its address; its doubly linked list of slabs is the list of them. A slab
  ends with the stack of the numbers of its free objects, of which the cells from \<open>sl_position\<close> on are
  valid. \<open>km_mem\<close> holds the words that the allocator writes next to objects (red zones, owners).
  Function pointers are addresses into \<open>kmem_code\<close>.
\<close>

section \<open>Data\<close>

definition KMEM_NAME_LENGTH :: nat where "KMEM_NAME_LENGTH = 64"
definition KMEM_OBJECTS :: nat where "KMEM_OBJECTS = 1024"
definition RED_ZONE_DATA :: nat where "RED_ZONE_DATA = 0xdeadc007"

definition KV_NOGROW :: nat where "KV_NOGROW = 2"
definition KV_RED_ZONE :: nat where "KV_RED_ZONE = 4"
definition KV_OFF_SLAB :: nat where "KV_OFF_SLAB = 8"
definition KV_OWNERSHIP :: nat where "KV_OWNERSHIP = 0x20"

record kmem_slab =
  sl_self :: nat
  sl_position :: nat
  sl_offset :: nat
  sl_ptr :: nat
  sl_ctl :: "nat option list"

record kmem_cache =
  kc_name :: "cchar list"
  kc_size :: nat
  kc_align :: nat
  kc_objects :: nat
  kc_int_size :: nat
  kc_int_slabobj_size :: nat
  kc_constructor :: "nat option"
  kc_destructor :: "nat option"
  kc_reclaim :: "nat option"
  kc_token :: "nat option"
  kc_vmem :: "nat option"
  kc_cflags :: nat
  kc_total_objects :: int
  kc_used_objects :: int
  kc_slabs :: "kmem_slab list"

record 'h kmem =
  km_heap :: 'h
  km_mem :: "nat \<Rightarrow> nat"
  km_caches :: "nat \<Rightarrow> kmem_cache option"
  km_array :: "nat list"

record 's kmem_code =
  constructor_at :: "nat \<Rightarrow> nat \<Rightarrow> nat option \<Rightarrow> nat \<Rightarrow> 's \<Rightarrow> 's kres"
  destructor_at :: "nat \<Rightarrow> nat \<Rightarrow> nat option \<Rightarrow> 's \<Rightarrow> 's kres"
  reclaim_at :: "nat \<Rightarrow> nat option \<Rightarrow> 's \<Rightarrow> 's kres"

definition sizeof_kmem_slab :: nat where "sizeof_kmem_slab = 20"
definition sizeof_kmem_ctl :: nat where "sizeof_kmem_ctl = 4"
definition sizeof_kmem_redzone :: nat where "sizeof_kmem_redzone = 4"
definition sizeof_owner :: nat where "sizeof_owner = 4"
definition sizeof_kmem_cache :: nat where "sizeof_kmem_cache = 120"

definition kv_flag :: "nat \<Rightarrow> nat \<Rightarrow> bool" where
  "kv_flag flags f \<longleftrightarrow> flags AND f = f"

definition get_cache :: "nat \<Rightarrow> 'h kmem \<Rightarrow> kmem_cache kres" where
  "get_cache cp s = (case km_caches s cp of None \<Rightarrow> Inl Out_of_bounds | Some kc \<Rightarrow> Inr kc)"

definition put_cache :: "nat \<Rightarrow> kmem_cache \<Rightarrow> 'h kmem \<Rightarrow> 'h kmem" where
  "put_cache cp kc s = s\<lparr>km_caches := (km_caches s)(cp \<mapsto> kc)\<rparr>"

definition poke :: "nat \<Rightarrow> nat \<Rightarrow> 'h kmem \<Rightarrow> 'h kmem" where
  "poke a v s = s\<lparr>km_mem := (km_mem s)(a := v)\<rparr>"

text \<open>\<^verbatim>\<open>kmalloc\<close> and \<^verbatim>\<open>kfree\<close> on the heap below the caches.\<close>

definition heap_sub :: "'h mm_subsystem \<Rightarrow> 'h kmem mm_subsystem" where
  "heap_sub sub = \<lparr>
     mm_malloc = (\<lambda>n s. bindR (kmalloc sub n (km_heap s)) (\<lambda>(r, h). Inr (r, s\<lparr>km_heap := h\<rparr>))),
     mm_free = (\<lambda>p s. bindR (kfree sub p (km_heap s)) (\<lambda>h. Inr (s\<lparr>km_heap := h\<rparr>))),
     mm_realloc = (\<lambda>p n s. bindR (krealloc sub p n (km_heap s)) (\<lambda>(r, h). Inr (r, s\<lparr>km_heap := h\<rparr>)))\<rparr>"

section \<open>Objects\<close>

definition get_object_ptr :: "kmem_cache \<Rightarrow> kmem_slab \<Rightarrow> nat \<Rightarrow> nat kres" where
  "get_object_ptr kc sl i =
     assertR (i < kc_objects kc) (Inr (u32 (sl_ptr sl + sl_offset sl + i * kc_int_size kc)))"

definition get_object_index :: "kmem_cache \<Rightarrow> kmem_slab \<Rightarrow> nat \<Rightarrow> nat kres" where
  "get_object_index kc sl obj =
     (let d = sub32 (sub32 obj (sl_ptr sl)) (sl_offset sl)
      in guardR (kc_int_size kc \<noteq> 0) Div_by_zero (
         assertR (d mod kc_int_size kc = 0) (Inr (d div kc_int_size kc))))"

definition get_object_slab :: "kmem_cache \<Rightarrow> nat \<Rightarrow> kmem_slab option" where
  "get_object_slab kc obj =
     find (\<lambda>sl. sl_ptr sl \<le> obj \<and> obj < u32 (sl_ptr sl + kc_int_slabobj_size kc)) (kc_slabs kc)"

definition redzone_left :: "kmem_cache \<Rightarrow> nat \<Rightarrow> nat kres" where
  "redzone_left kc obj = assertR (kv_flag (kc_cflags kc) KV_RED_ZONE) (Inr (sub32 obj sizeof_kmem_redzone))"

definition redzone_right :: "kmem_cache \<Rightarrow> nat \<Rightarrow> nat kres" where
  "redzone_right kc obj = assertR (kv_flag (kc_cflags kc) KV_RED_ZONE) (Inr (u32 (obj + kc_size kc)))"

definition get_object_owner_ptr :: "kmem_cache \<Rightarrow> nat \<Rightarrow> nat kres" where
  "get_object_owner_ptr kc obj =
     assertR (kv_flag (kc_cflags kc) KV_OWNERSHIP) (
     bindR (if kv_flag (kc_cflags kc) KV_RED_ZONE then redzone_left kc obj else Inr obj) (\<lambda>tmp.
     Inr (sub32 tmp sizeof_owner)))"

section \<open>Slabs\<close>

definition man_space :: "kmem_cache \<Rightarrow> nat" where
  "man_space kc = u32 (sizeof_kmem_slab + kc_objects kc * sizeof_kmem_ctl)"

definition slab_offset :: "kmem_cache \<Rightarrow> nat \<Rightarrow> nat" where
  "slab_offset kc ptr =
     (let o1 = (if kv_flag (kc_cflags kc) KV_RED_ZONE then sizeof_kmem_redzone else 0);
          o2 = (if kv_flag (kc_cflags kc) KV_OWNERSHIP then o1 + sizeof_owner else o1)
      in if kc_align kc > 1 \<and> u32 (ptr + o2) mod kc_align kc \<noteq> 0
         then u32 (o2 + (kc_align kc - u32 (ptr + o2) mod kc_align kc)) else o2)"

definition fresh_slab :: "kmem_cache \<Rightarrow> nat \<Rightarrow> nat \<Rightarrow> kmem_slab" where
  "fresh_slab kc p ptr =
     \<lparr>sl_self = p, sl_position = 0, sl_offset = slab_offset kc ptr, sl_ptr = ptr,
      sl_ctl = replicate (kc_objects kc) None\<rparr>"

definition kmem_new_slab :: "'h kmem mm_subsystem \<Rightarrow> nat \<Rightarrow> nat \<Rightarrow> 'h kmem \<Rightarrow> (kmem_slab option \<times> 'h kmem) kres" where
  "kmem_new_slab sub cp kmflag s =
     bindR (get_cache cp s) (\<lambda>kc.
     if kv_flag kmflag KV_OFF_SLAB
     then
       bindR (kmalloc sub (man_space kc) s) (\<lambda>(r, s1).
       case r of
         None \<Rightarrow> Inr (None, s1)
       | Some p \<Rightarrow>
           bindR (kmalloc sub (kc_int_slabobj_size kc) s1) (\<lambda>(r2, s2).
           case r2 of
             None \<Rightarrow> bindR (kfree sub (Some p) s2) (\<lambda>s3. Inr (None, s3))
           | Some q \<Rightarrow> Inr (Some (fresh_slab kc p q), s2)))
     else
       bindR (kmalloc sub (u32 (man_space kc + kc_int_slabobj_size kc)) s) (\<lambda>(r, s1).
       case r of
         None \<Rightarrow> Inr (None, s1)
       | Some p \<Rightarrow> Inr (Some (fresh_slab kc p (u32 (p + sizeof_kmem_slab + kc_objects kc * sizeof_kmem_ctl))), s1)))"

text \<open>One object of a new slab: constructor, red zones, owner.\<close>

definition init_object :: "'h kmem kmem_code \<Rightarrow> nat \<Rightarrow> nat \<Rightarrow> nat \<Rightarrow> 'h kmem \<Rightarrow> 'h kmem kres" where
  "init_object code cp kmflag obj s =
     bindR (get_cache cp s) (\<lambda>kc.
     bindR (case kc_constructor kc of None \<Rightarrow> Inr s | Some f \<Rightarrow> constructor_at code f obj (kc_token kc) kmflag s) (\<lambda>s1.
     bindR (if kv_flag (kc_cflags kc) KV_RED_ZONE
            then bindR (redzone_left kc obj) (\<lambda>l. bindR (redzone_right kc obj) (\<lambda>r.
                 Inr (poke r RED_ZONE_DATA (poke l RED_ZONE_DATA s1))))
            else Inr s1) (\<lambda>s2.
     if kv_flag (kc_cflags kc) KV_OWNERSHIP
     then bindR (get_object_owner_ptr kc obj) (\<lambda>a. Inr (poke a cp s2))
     else Inr s2)))"

fun init_objects :: "'h kmem kmem_code \<Rightarrow> nat \<Rightarrow> nat \<Rightarrow> nat \<Rightarrow> nat \<Rightarrow> kmem_slab \<Rightarrow> 'h kmem \<Rightarrow> (kmem_slab \<times> 'h kmem) kres" where
  "init_objects code cp kmflag i 0 sl s = Inr (sl, s)"
| "init_objects code cp kmflag i (Suc k) sl s =
     bindR (get_cache cp s) (\<lambda>kc.
     bindR (get_object_ptr kc sl i) (\<lambda>obj.
     bindR (init_object code cp kmflag obj s) (\<lambda>s1.
     bindR (aput (sl_ctl sl) i (Some i)) (\<lambda>ctl.
     init_objects code cp kmflag (Suc i) k (sl\<lparr>sl_ctl := ctl\<rparr>) s1))))"

definition kmem_init_slab :: "'h kmem kmem_code \<Rightarrow> nat \<Rightarrow> kmem_slab \<Rightarrow> nat \<Rightarrow> 'h kmem \<Rightarrow> (kmem_slab \<times> 'h kmem) kres" where
  "kmem_init_slab code cp sl kmflag s =
     bindR (get_cache cp s) (\<lambda>kc0.
     bindR (init_objects code cp kmflag 0 (kc_objects kc0) sl s) (\<lambda>(sl1, s1).
     bindR (get_cache cp s1) (\<lambda>kc.
     Inr (sl1\<lparr>sl_position := 0\<rparr>,
          put_cache cp (kc\<lparr>kc_total_objects := s32 (kc_total_objects kc + int (kc_objects kc))\<rparr>) s1))))"

fun destroy_objects :: "'h kmem kmem_code \<Rightarrow> nat \<Rightarrow> nat \<Rightarrow> nat \<Rightarrow> nat \<Rightarrow> kmem_slab \<Rightarrow> 'h kmem \<Rightarrow> 'h kmem kres" where
  "destroy_objects code f cp i 0 sl s = Inr s"
| "destroy_objects code f cp i (Suc k) sl s =
     bindR (get_cache cp s) (\<lambda>kc.
     bindR (get_object_ptr kc sl i) (\<lambda>obj.
     bindR (destructor_at code f obj (kc_token kc) s) (\<lambda>s1.
     destroy_objects code f cp (Suc i) k sl s1)))"

definition kmem_destroy_slab :: "'h kmem kmem_code \<Rightarrow> 'h kmem mm_subsystem \<Rightarrow> nat \<Rightarrow> kmem_slab \<Rightarrow> 'h kmem \<Rightarrow> 'h kmem kres" where
  "kmem_destroy_slab code sub cp sl s =
     bindR (get_cache cp s) (\<lambda>kc.
     bindR (case kc_destructor kc of None \<Rightarrow> Inr s | Some f \<Rightarrow> destroy_objects code f cp 0 (kc_objects kc) sl s) (\<lambda>s1.
     bindR (if kv_flag (kc_cflags kc) KV_OFF_SLAB
            then bindR (kfree sub (ptr_of (sl_ptr sl)) s1) (\<lambda>s2. kfree sub (Some (sl_self sl)) s2)
            else kfree sub (Some (sl_self sl)) s1) (\<lambda>s2.
     bindR (get_cache cp s2) (\<lambda>kc2.
     Inr (put_cache cp (kc2\<lparr>kc_total_objects := s32 (kc_total_objects kc2 - int (kc_objects kc2))\<rparr>) s2)))))"

section \<open>Caches\<close>

definition int_object_size :: "nat \<Rightarrow> nat \<Rightarrow> nat \<Rightarrow> nat" where
  "int_object_size sz align cflags =
     (let n1 = (if kv_flag cflags KV_RED_ZONE then u32 (sz + 2 * sizeof_kmem_redzone) else sz);
          n2 = (if kv_flag cflags KV_OWNERSHIP then u32 (n1 + sizeof_owner) else n1)
      in if align > 1 \<and> n2 mod align \<noteq> 0 then u32 (n2 + (align - n2 mod align)) else n2)"

definition slab_object_space :: "nat \<Rightarrow> nat \<Rightarrow> nat \<Rightarrow> nat \<Rightarrow> nat" where
  "slab_object_space int_size objects align cflags =
     (let n = u32 (int_size * objects + align)
      in if kv_flag cflags KV_RED_ZONE then u32 (n + sizeof_kmem_redzone) else n)"

definition kmem_cache_create ::
  "'h kmem mm_subsystem \<Rightarrow> cchar list option \<Rightarrow> nat \<Rightarrow> nat \<Rightarrow> nat option \<Rightarrow> nat option \<Rightarrow> nat option \<Rightarrow> nat option
     \<Rightarrow> nat option \<Rightarrow> nat \<Rightarrow> 'h kmem \<Rightarrow> (nat option \<times> 'h kmem) kres" where
  "kmem_cache_create sub name sz align constructor destructor reclaim token vmem cflags s =
     bindR (kmalloc sub sizeof_kmem_cache s) (\<lambda>(r, s1).
     case r of
       None \<Rightarrow> Inr (None, s1)
     | Some cp \<Rightarrow>
         bindR (case name of None \<Rightarrow> Inr (replicate KMEM_NAME_LENGTH 0)
                | Some nm \<Rightarrow> kstrncpy (replicate KMEM_NAME_LENGTH 0) nm KMEM_NAME_LENGTH) (\<lambda>nm.
         let isize = int_object_size sz align cflags
         in Inr (Some cp, put_cache cp
              \<lparr>kc_name = nm, kc_size = sz, kc_align = align, kc_objects = KMEM_OBJECTS, kc_int_size = isize,
               kc_int_slabobj_size = slab_object_space isize KMEM_OBJECTS align cflags,
               kc_constructor = constructor, kc_destructor = destructor, kc_reclaim = reclaim, kc_token = token,
               kc_vmem = vmem, kc_cflags = cflags, kc_total_objects = 0, kc_used_objects = 0, kc_slabs = []\<rparr> s1)))"

fun destroy_slabs :: "'h kmem kmem_code \<Rightarrow> 'h kmem mm_subsystem \<Rightarrow> nat \<Rightarrow> kmem_slab list \<Rightarrow> 'h kmem \<Rightarrow> 'h kmem kres" where
  "destroy_slabs code sub cp [] s = Inr s"
| "destroy_slabs code sub cp (sl # sls) s =
     bindR (kmem_destroy_slab code sub cp sl s) (\<lambda>s1. destroy_slabs code sub cp sls s1)"

definition kmem_cache_destroy :: "'h kmem kmem_code \<Rightarrow> 'h kmem mm_subsystem \<Rightarrow> nat \<Rightarrow> 'h kmem \<Rightarrow> 'h kmem kres" where
  "kmem_cache_destroy code sub cp s =
     bindR (get_cache cp s) (\<lambda>kc.
     bindR (destroy_slabs code sub cp (kc_slabs kc) s) (\<lambda>s1.
     bindR (kfree sub (Some cp) s1) (\<lambda>s2. Inr (s2\<lparr>km_caches := (km_caches s2)(cp := None)\<rparr>))))"

definition kmem_cache_grow ::
  "'h kmem kmem_code \<Rightarrow> 'h kmem mm_subsystem \<Rightarrow> nat \<Rightarrow> nat \<Rightarrow> 'h kmem \<Rightarrow> (kmem_slab option \<times> 'h kmem) kres" where
  "kmem_cache_grow code sub cp kmflag s =
     bindR (kmem_new_slab sub cp kmflag s) (\<lambda>(r, s1).
     case r of
       None \<Rightarrow> Inr (None, s1)
     | Some sl0 \<Rightarrow>
         bindR (kmem_init_slab code cp sl0 kmflag s1) (\<lambda>(sl, s2).
         bindR (get_cache cp s2) (\<lambda>kc.
         Inr (Some sl, put_cache cp (kc\<lparr>kc_slabs := sl # kc_slabs kc\<rparr>) s2))))"

text \<open>Taking the next object of the first slab.\<close>

definition take_object :: "nat \<Rightarrow> kmem_cache \<Rightarrow> kmem_slab \<Rightarrow> kmem_slab list \<Rightarrow> 'h kmem \<Rightarrow> (nat option \<times> 'h kmem) kres" where
  "take_object cp kc sl rest s =
     bindR (cget (sl_ctl sl) (sl_position sl)) (\<lambda>i.
     bindR (get_object_ptr kc sl i) (\<lambda>obj.
     Inr (Some obj,
          put_cache cp (kc\<lparr>kc_used_objects := s32 (kc_used_objects kc + 1),
                           kc_slabs := sl\<lparr>sl_position := u32 (sl_position sl + 1)\<rparr> # rest\<rparr>) s)))"

text \<open>The search for a slab with free objects behind the first one; the slab found becomes the first.\<close>

definition bring_front :: "kmem_cache \<Rightarrow> kmem_slab list kres" where
  "bring_front kc =
     (case kc_slabs kc of
        [] \<Rightarrow> Inl Null_deref
      | first # rest \<Rightarrow>
          (case dropWhile (\<lambda>sl. sl_position sl = kc_objects kc) rest of
             [] \<Rightarrow> Inl Assert_failed
           | sl # later \<Rightarrow> Inr (sl # first # takeWhile (\<lambda>sl. sl_position sl = kc_objects kc) rest @ later)))"

text \<open>The routine calls itself after it has made room; \<open>fuel\<close> bounds the depth.\<close>

fun kmem_cache_alloc ::
  "nat \<Rightarrow> 'h kmem kmem_code \<Rightarrow> 'h kmem mm_subsystem \<Rightarrow> nat \<Rightarrow> nat \<Rightarrow> 'h kmem \<Rightarrow> (nat option \<times> 'h kmem) kres" where
  "kmem_cache_alloc 0 code sub cp kmflag s = Inl Hang"
| "kmem_cache_alloc (Suc fuel) code sub cp kmflag s =
     bindR (get_cache cp s) (\<lambda>kc.
     if kc_slabs kc \<noteq> [] \<and> sl_position (hd (kc_slabs kc)) \<noteq> kc_objects kc
     then take_object cp kc (hd (kc_slabs kc)) (tl (kc_slabs kc)) s
     else if kc_total_objects kc = kc_used_objects kc
     then
       (if kv_flag (kc_cflags kc) KV_NOGROW then Inr (None, s)
        else
          bindR (kmem_cache_grow code sub cp kmflag s) (\<lambda>(g, s1).
          if g = None
          then
            (case kc_reclaim kc of
               None \<Rightarrow> Inr (None, s1)
             | Some f \<Rightarrow>
                 bindR (reclaim_at code f (kc_token kc) s1) (\<lambda>s2.
                 bindR (kmem_cache_grow code sub cp kmflag s2) (\<lambda>(g2, s3).
                 if g2 = None then Inr (None, s3) else kmem_cache_alloc fuel code sub cp kmflag s3)))
          else kmem_cache_alloc fuel code sub cp kmflag s1))
     else
       bindR (bring_front kc) (\<lambda>sls. kmem_cache_alloc fuel code sub cp kmflag (put_cache cp (kc\<lparr>kc_slabs := sls\<rparr>) s)))"

definition replace_slab :: "kmem_slab \<Rightarrow> kmem_slab list \<Rightarrow> kmem_slab list" where
  "replace_slab sl sls = map (\<lambda>x. if sl_self x = sl_self sl then sl else x) sls"

definition kmem_cache_free :: "nat option \<Rightarrow> nat option \<Rightarrow> 'h kmem \<Rightarrow> 'h kmem kres" where
  "kmem_cache_free cache object s =
     (case (cache, object) of
        (Some cp, Some obj) \<Rightarrow>
          bindR (get_cache cp s) (\<lambda>kc.
          case get_object_slab kc obj of
            None \<Rightarrow> Inr s
          | Some sl \<Rightarrow>
              bindR (if kv_flag (kc_cflags kc) KV_RED_ZONE
                     then bindR (redzone_left kc obj) (\<lambda>l. assertR (km_mem s l = RED_ZONE_DATA) (
                          bindR (redzone_right kc obj) (\<lambda>r. assertR (km_mem s r = RED_ZONE_DATA) (Inr ()))))
                     else Inr ()) (\<lambda>_.
              bindR (get_object_index kc sl obj) (\<lambda>i.
              bindR (aput (sl_ctl sl) (sub32 (sl_position sl) 1) (Some i)) (\<lambda>ctl.
              Inr (put_cache cp (kc\<lparr>kc_used_objects := s32 (kc_used_objects kc - 1),
                     kc_slabs := replace_slab (sl\<lparr>sl_position := sub32 (sl_position sl) 1, sl_ctl := ctl\<rparr>) (kc_slabs kc)\<rparr>) s)))))
      | _ \<Rightarrow> Inr s)"

definition kmem_cache_size :: "nat \<Rightarrow> 'h kmem \<Rightarrow> nat kres" where
  "kmem_cache_size cp s = bindR (get_cache cp s) (\<lambda>kc. Inr (kc_size kc))"

definition kmem_cache_name :: "nat \<Rightarrow> 'h kmem \<Rightarrow> cchar list kres" where
  "kmem_cache_name cp s = bindR (get_cache cp s) (\<lambda>kc. Inr (kc_name kc))"

fun shrink_loop :: "'h kmem kmem_code \<Rightarrow> 'h kmem mm_subsystem \<Rightarrow> nat \<Rightarrow> kmem_slab list \<Rightarrow> 'h kmem \<Rightarrow> 'h kmem kres" where
  "shrink_loop code sub cp [] s = Inr s"
| "shrink_loop code sub cp (sl # sls) s =
     bindR (if sl_position sl = 0
            then bindR (get_cache cp s) (\<lambda>kc.
                 kmem_destroy_slab code sub cp sl
                   (put_cache cp (kc\<lparr>kc_slabs := filter (\<lambda>x. sl_self x \<noteq> sl_self sl) (kc_slabs kc)\<rparr>) s))
            else Inr s) (\<lambda>s1.
     shrink_loop code sub cp sls s1)"

definition kmem_cache_shrink :: "'h kmem kmem_code \<Rightarrow> 'h kmem mm_subsystem \<Rightarrow> nat \<Rightarrow> 'h kmem \<Rightarrow> (nat \<times> 'h kmem) kres" where
  "kmem_cache_shrink code sub cp s =
     bindR (get_cache cp s) (\<lambda>kc. bindR (shrink_loop code sub cp (kc_slabs kc) s) (\<lambda>s1. Inr (0, s1)))"

definition kmem_cache_contains :: "nat \<Rightarrow> nat \<Rightarrow> 'h kmem \<Rightarrow> nat option kres" where
  "kmem_cache_contains cp obj s =
     bindR (get_cache cp s) (\<lambda>kc.
     if kv_flag (kc_cflags kc) KV_OWNERSHIP
     then bindR (get_object_owner_ptr kc obj) (\<lambda>a. Inr (if km_mem s a = cp then Some cp else None))
     else Inr (if get_object_slab kc obj \<noteq> None then Some cp else None))"

section \<open>General sizes\<close>

definition KALLOC_ALIGNMENT :: nat where "KALLOC_ALIGNMENT = 4"
definition CACHE_UNIT :: nat where "CACHE_UNIT = 32"
definition MAX_CACHES :: nat where "MAX_CACHES = 12"

fun shrink_all :: "'h kmem kmem_code \<Rightarrow> 'h kmem mm_subsystem \<Rightarrow> nat list \<Rightarrow> 'h kmem \<Rightarrow> 'h kmem kres" where
  "shrink_all code sub [] s = Inr s"
| "shrink_all code sub (cp # cps) s =
     bindR (kmem_cache_shrink code sub cp s) (\<lambda>(_, s1). shrink_all code sub cps s1)"

text \<open>The caches have no constructors and destructors; their one callback shrinks all of them.\<close>

definition no_hooks :: "'h kmem kmem_code" where
  "no_hooks = \<lparr>constructor_at = (\<lambda>_ _ _ _ s. Inr s), destructor_at = (\<lambda>_ _ _ s. Inr s), reclaim_at = (\<lambda>_ _ s. Inr s)\<rparr>"

definition reclaim :: "'h kmem mm_subsystem \<Rightarrow> nat option \<Rightarrow> 'h kmem \<Rightarrow> 'h kmem kres" where
  "reclaim sub token s = shrink_all no_hooks sub (km_array s) s"

definition kalloc_code :: "'h kmem mm_subsystem \<Rightarrow> 'h kmem kmem_code" where
  "kalloc_code sub = no_hooks\<lparr>reclaim_at := (\<lambda>_. reclaim sub)\<rparr>"

fun cache_location :: "nat \<Rightarrow> nat list \<Rightarrow> int \<Rightarrow> 'h kmem \<Rightarrow> int kres" where
  "cache_location ptr [] i s = Inr (-1)"
| "cache_location ptr (cp # cps) i s =
     bindR (kmem_cache_contains cp ptr s) (\<lambda>c. if c = Some cp then Inr i else cache_location ptr cps (i + 1) s)"

definition get_cache_location :: "nat \<Rightarrow> 'h kmem \<Rightarrow> int kres" where
  "get_cache_location ptr s = cache_location ptr (km_array s) 0 s"

fun unit_num :: "nat \<Rightarrow> nat \<Rightarrow> nat \<Rightarrow> int \<Rightarrow> int" where
  "unit_num sz unit 0 i = -1"
| "unit_num sz unit (Suc k) i = (if sz \<le> unit then i else unit_num sz (u32 (unit * 2)) k (i + 1))"

definition get_cache_num :: "nat \<Rightarrow> int" where
  "get_cache_num sz = unit_num sz CACHE_UNIT MAX_CACHES 0"

text \<open>\<open>sub\<close> is the subsystem that \<^verbatim>\<open>kmalloc\<close> calls while these routines run.\<close>

definition l_kmalloc :: "'h kmem mm_subsystem \<Rightarrow> nat \<Rightarrow> 'h kmem \<Rightarrow> (nat option \<times> 'h kmem) kres" where
  "l_kmalloc sub sz s =
     assertR (sz > 0) (
     let num = get_cache_num sz in
     assertR (num \<ge> 0) (
     bindR (aget (km_array s) (nat num)) (\<lambda>cp. kmem_cache_alloc 3 (kalloc_code sub) sub cp 0 s)))"

definition l_kfree :: "nat option \<Rightarrow> 'h kmem \<Rightarrow> 'h kmem kres" where
  "l_kfree ptr s =
     (case ptr of
        None \<Rightarrow> Inl Assert_failed
      | Some p \<Rightarrow>
          bindR (get_cache_location p s) (\<lambda>num.
          assertR (num \<ge> 0) (
          bindR (aget (km_array s) (nat num)) (\<lambda>cp. kmem_cache_free (Some cp) (Some p) s))))"

definition copy_object :: "nat \<Rightarrow> nat \<Rightarrow> nat \<Rightarrow> 'h kmem \<Rightarrow> 'h kmem" where
  "copy_object dest src n s = s\<lparr>km_mem := (\<lambda>a. if dest \<le> a \<and> a < dest + n then km_mem s (src + (a - dest)) else km_mem s a)\<rparr>"

definition l_krealloc :: "'h kmem mm_subsystem \<Rightarrow> nat option \<Rightarrow> nat \<Rightarrow> 'h kmem \<Rightarrow> (nat option \<times> 'h kmem) kres" where
  "l_krealloc sub ptr sz s =
     (case ptr of
        None \<Rightarrow> l_kmalloc sub sz s
      | Some p \<Rightarrow>
          if sz = 0 then bindR (l_kfree ptr s) (\<lambda>s1. Inr (None, s1))
          else
            bindR (get_cache_location p s) (\<lambda>num.
            assertR (num \<ge> 0) (
            bindR (aget (km_array s) (nat num)) (\<lambda>cp.
            bindR (kmem_cache_size cp s) (\<lambda>prevsize.
            if prevsize < sz
            then
              bindR (l_kmalloc sub sz s) (\<lambda>(r, s1).
              case r of
                None \<Rightarrow> Inl Null_deref
              | Some q \<Rightarrow> bindR (l_kfree ptr (copy_object q p prevsize s1)) (\<lambda>s2. Inr (Some q, s2)))
            else Inr (ptr, s))))))"

text \<open>
  The subsystem after \<^verbatim>\<open>init_kalloc\<close>. The caches get their slabs from \<^verbatim>\<open>kmalloc\<close>, which is this allocator
  again; the number bounds the depth of these calls.
\<close>

fun kalloc_sub :: "nat \<Rightarrow> 'h kmem mm_subsystem" where
  "kalloc_sub 0 = \<lparr>mm_malloc = (\<lambda>_ _. Inl Hang), mm_free = (\<lambda>_ _. Inl Hang), mm_realloc = (\<lambda>_ _ _. Inl Hang)\<rparr>"
| "kalloc_sub (Suc d) = \<lparr>mm_malloc = l_kmalloc (kalloc_sub d), mm_free = l_kfree, mm_realloc = l_krealloc (kalloc_sub d)\<rparr>"

fun create_caches :: "'h kmem mm_subsystem \<Rightarrow> nat \<Rightarrow> nat \<Rightarrow> 'h kmem \<Rightarrow> 'h kmem kres" where
  "create_caches sub unit 0 s = Inr s"
| "create_caches sub unit (Suc k) s =
     bindR (kmem_cache_create sub (Some (map int [107, 97, 108, 108, 111, 99, 95, 99, 97, 99, 104, 101, 0])) unit KALLOC_ALIGNMENT
              None None (Some 0) None None 0 s) (\<lambda>(r, s1).
     case r of
       None \<Rightarrow> Inl Assert_failed
     | Some cp \<Rightarrow> create_caches sub (u32 (unit * 2)) k (s1\<lparr>km_array := km_array s1 @ [cp]\<rparr>))"

definition init_kalloc :: "'h kmem mm_subsystem \<Rightarrow> 'h kmem \<Rightarrow> 'h kmem kres" where
  "init_kalloc sub s = create_caches sub CACHE_UNIT MAX_CACHES (s\<lparr>km_array := []\<rparr>)"

end
