(* ===== verification/Kmem_Props.thy ===== *)
theory Kmem_Props
  imports Kmem_cache Liballoc_Heap "HOL-Library.Multiset"
begin

text \<open>
  The properties of the slab allocator. A cache is seen as the set of the objects it has handed out
  (\<open>allocated\<close>); the layout of a slab keeps their extents, red zones and owners included, apart and inside
  the slab's block. The allocator on top of the caches halts at its first request.
\<close>

section \<open>Addresses of heap blocks\<close>

text \<open>Blocks of the heap end below the end of the address space.\<close>

locale addressed_heap = kernel_heap subsystem heap_ok live
  for subsystem :: "'h mm_subsystem" and heap_ok :: "'h \<Rightarrow> bool" and live :: "'h \<Rightarrow> nat \<Rightarrow> nat option" +
  assumes live_bound: "heap_ok h \<Longrightarrow> live h p = Some n \<Longrightarrow> 0 < p \<and> p + n < 4294967296"

interpretation kheap: addressed_heap liballoc_subsystem kernel_heap_ok live
proof (unfold_locales, goal_cases)
  case (1 h p n)
  then have Ms: "majors_ok (l_majors h)" by (simp add: la_ok_def la_wf_def)
  from 1(2) obtain m where m: "m \<in> set (heap_blocks (l_majors h))" "user_ptr m = p" "mi_req m = n"
    by (auto simp: live_iff [OF Ms])
  note b = blocks_bounds [OF Ms m(1)]
  from user_ptr_props(1,2) [OF b(1,2)] b m(2,3) show ?case by auto
qed

section \<open>Layout of a slab\<close>

definition red :: "kmem_cache \<Rightarrow> nat" where
  "red kc = (if kv_flag (kc_cflags kc) KV_RED_ZONE then 4 else 0)"

definition own :: "kmem_cache \<Rightarrow> nat" where
  "own kc = (if kv_flag (kc_cflags kc) KV_OWNERSHIP then 4 else 0)"

lemma red_own_le: "red kc \<le> 4" "own kc \<le> 4"
  by (simp_all add: red_def own_def)

definition cache_laid :: "kmem_cache \<Rightarrow> bool" where
  "cache_laid kc \<longleftrightarrow>
     0 < kc_objects kc \<and> 0 < kc_size kc
     \<and> kc_int_size kc = int_object_size (kc_size kc) (kc_align kc) (kc_cflags kc)
     \<and> kc_int_slabobj_size kc = slab_object_space (kc_int_size kc) (kc_objects kc) (kc_align kc) (kc_cflags kc)
     \<and> (kc_size kc + 12 + kc_align kc) * kc_objects kc + kc_align kc + 24 + 4 * kc_objects kc < MAX_REQUEST"

lemma cache_laidD:
  assumes "cache_laid kc"
  shows "0 < kc_objects kc" and "0 < kc_size kc"
    and "kc_int_size kc = int_object_size (kc_size kc) (kc_align kc) (kc_cflags kc)"
    and "kc_int_slabobj_size kc = slab_object_space (kc_int_size kc) (kc_objects kc) (kc_align kc) (kc_cflags kc)"
    and "(kc_size kc + 12 + kc_align kc) * kc_objects kc + kc_align kc + 24 + 4 * kc_objects kc < 4294959104"
  using assms unfolding cache_laid_def MAX_REQUEST_def by simp_all

text \<open>The next multiple of an alignment.\<close>

definition round_up :: "nat \<Rightarrow> nat \<Rightarrow> nat" where
  "round_up a n = (if 1 < a \<and> n mod a \<noteq> 0 then n + (a - n mod a) else n)"

lemma round_up_props:
  shows "n \<le> round_up a n" and "round_up a n \<le> n + (a - 1)" and "1 < a \<Longrightarrow> round_up a n mod a = 0"
proof -
  show "n \<le> round_up a n" unfolding round_up_def by (metis le_add1 order_refl)
  show "round_up a n \<le> n + (a - 1)"
  proof (cases "1 < a \<and> n mod a \<noteq> 0")
    case True
    then have "a - n mod a \<le> a - 1" by linarith
    with True show ?thesis by (simp only: round_up_def if_True simp_thms add_le_cancel_left)
  qed (auto simp: round_up_def)
  have "n + (a - n mod a) = n div a * a + a" if "1 < a"
    using that mod_less_divisor [of a n] div_mult_mod_eq [of n a] by linarith
  then have "1 < a \<Longrightarrow> (n + (a - n mod a)) mod a = 0" by simp
  then show "1 < a \<Longrightarrow> round_up a n mod a = 0" unfolding round_up_def by metis
qed

lemma int_size_props:
  assumes "cache_laid kc"
  shows "kc_size kc + 2 * red kc + own kc \<le> kc_int_size kc"
    and "kc_int_size kc \<le> kc_size kc + 12 + kc_align kc"
    and "1 < kc_align kc \<Longrightarrow> kc_int_size kc mod kc_align kc = 0"
proof -
  let ?n = "kc_size kc + 2 * red kc + own kc" and ?a = "kc_align kc"
  have "(kc_size kc + 12 + ?a) * 1 \<le> (kc_size kc + 12 + ?a) * kc_objects kc"
    using cache_laidD(1) [OF assms] by (intro mult_le_mono2) simp
  also have "\<dots> < 4294959104" by (rule cache_laidD(5) [OF assms, THEN add_lessD1, THEN add_lessD1, THEN add_lessD1])
  finally have b: "kc_size kc + 12 + ?a < 4294967296" by simp
  have n: "?n \<le> kc_size kc + 12" using red_own_le [of kc] by simp
  have e: "kc_int_size kc = round_up ?a ?n"
    using b n unfolding cache_laidD(3) [OF assms]
    by (simp add: int_object_size_def red_def own_def sizeof_kmem_redzone_def sizeof_owner_def round_up_def Let_def)
  show "?n \<le> kc_int_size kc" "kc_int_size kc \<le> kc_size kc + 12 + ?a" "1 < ?a \<Longrightarrow> kc_int_size kc mod ?a = 0"
    using round_up_props [where n = ?n and a = ?a] n unfolding e by (linarith, linarith, blast)
qed

lemma slab_space_eq:
  assumes "cache_laid kc"
  shows "kc_int_slabobj_size kc = kc_int_size kc * kc_objects kc + kc_align kc + red kc"
    and "man_space kc + kc_int_slabobj_size kc < MAX_REQUEST" and "man_space kc = 20 + 4 * kc_objects kc"
proof -
  have "kc_int_size kc * kc_objects kc \<le> (kc_size kc + 12 + kc_align kc) * kc_objects kc"
    using int_size_props(2) [OF assms] by (rule mult_le_mono1)
  then have b: "kc_int_size kc * kc_objects kc + kc_align kc + 24 + 4 * kc_objects kc < 4294959104"
    using cache_laidD(5) [OF assms] by linarith
  show "kc_int_slabobj_size kc = kc_int_size kc * kc_objects kc + kc_align kc + red kc"
    using b unfolding cache_laidD(4) [OF assms] by (simp add: slab_object_space_def red_def sizeof_kmem_redzone_def Let_def)
  then show "man_space kc + kc_int_slabobj_size kc < MAX_REQUEST" "man_space kc = 20 + 4 * kc_objects kc"
    using b red_own_le(1) [of kc]
    by (simp_all add: man_space_def sizeof_kmem_slab_def sizeof_kmem_ctl_def MAX_REQUEST_def)
qed

lemma slab_offset_props:
  assumes "cache_laid kc" and "ptr + kc_int_slabobj_size kc < 4294967296"
  shows "red kc + own kc \<le> slab_offset kc ptr"
    and "slab_offset kc ptr \<le> red kc + own kc + (kc_align kc - 1)"
    and "1 < kc_align kc \<Longrightarrow> (ptr + slab_offset kc ptr) mod kc_align kc = 0"
proof -
  let ?a = "kc_align kc" and ?o = "red kc + own kc"
  have "kc_size kc + 2 * red kc + own kc \<le> kc_int_size kc * kc_objects kc"
    using int_size_props(1) [OF assms(1)] assms(1) by (simp add: cache_laid_def) (metis One_nat_def Suc_leI le_trans mult.right_neutral mult_le_mono2)
  then have b: "ptr + ?o + ?a < 4294967296" using assms(2) slab_space_eq(1) [OF assms(1)] by simp
  have e: "ptr + slab_offset kc ptr = round_up ?a (ptr + ?o)"
  proof -
    have "slab_offset kc ptr = (if 1 < ?a \<and> u32 (ptr + ?o) mod ?a \<noteq> 0 then u32 (?o + (?a - u32 (ptr + ?o) mod ?a)) else ?o)"
      by (cases "kv_flag (kc_cflags kc) KV_RED_ZONE"; cases "kv_flag (kc_cflags kc) KV_OWNERSHIP")
         (simp_all add: slab_offset_def red_def own_def sizeof_kmem_redzone_def sizeof_owner_def Let_def)
    moreover have "?o + (?a - (ptr + ?o) mod ?a) < 4294967296" using b by linarith
    ultimately have "slab_offset kc ptr = (if 1 < ?a \<and> (ptr + ?o) mod ?a \<noteq> 0 then ?o + (?a - (ptr + ?o) mod ?a) else ?o)"
      using b by (simp only: u32_small)
    then show ?thesis unfolding round_up_def by (metis add.assoc)
  qed
  show "?o \<le> slab_offset kc ptr" "slab_offset kc ptr \<le> ?o + (?a - 1)" "1 < ?a \<Longrightarrow> (ptr + slab_offset kc ptr) mod ?a = 0"
    using round_up_props [where n = "ptr + ?o" and a = ?a] unfolding e [symmetric] by (linarith, linarith, blast)
qed

text \<open>An object with what stands around it, and the place a slab gives to it.\<close>

definition obj_at :: "kmem_cache \<Rightarrow> kmem_slab \<Rightarrow> nat \<Rightarrow> nat" where
  "obj_at kc sl i = sl_ptr sl + sl_offset sl + i * kc_int_size kc"

definition obj_extent :: "kmem_cache \<Rightarrow> nat \<Rightarrow> nat set" where
  "obj_extent kc a = bytes (a - red kc - own kc) (own kc + 2 * red kc + kc_size kc)"

definition slab_placed :: "kmem_cache \<Rightarrow> kmem_slab \<Rightarrow> bool" where
  "slab_placed kc sl \<longleftrightarrow>
     0 < sl_ptr sl \<and> sl_ptr sl + kc_int_slabobj_size kc < 4294967296 \<and> sl_offset sl = slab_offset kc (sl_ptr sl)"

lemma obj_bounds:
  assumes "cache_laid kc" and "slab_placed kc sl" and "i < kc_objects kc"
  shows "sl_ptr sl + red kc + own kc \<le> obj_at kc sl i"
    and "obj_at kc sl i + kc_size kc + red kc \<le> sl_ptr sl + kc_int_slabobj_size kc"
    and "obj_at kc sl i < 4294967296"
    and "1 < kc_align kc \<Longrightarrow> obj_at kc sl i mod kc_align kc = 0"
proof -
  have off: "red kc + own kc \<le> sl_offset sl" "sl_offset sl \<le> red kc + own kc + (kc_align kc - 1)"
    and al: "1 < kc_align kc \<Longrightarrow> (sl_ptr sl + sl_offset sl) mod kc_align kc = 0"
    using slab_offset_props [OF assms(1)] assms(2) by (simp_all add: slab_placed_def)
  note z = int_size_props [OF assms(1)]
  show "sl_ptr sl + red kc + own kc \<le> obj_at kc sl i" using off(1) by (simp add: obj_at_def)
  have "Suc i * kc_int_size kc \<le> kc_objects kc * kc_int_size kc" using assms(3) by (intro mult_le_mono1) simp
  then have "i * kc_int_size kc + kc_int_size kc \<le> kc_int_size kc * kc_objects kc" by (simp add: mult.commute)
  then show b: "obj_at kc sl i + kc_size kc + red kc \<le> sl_ptr sl + kc_int_slabobj_size kc"
    using off(2) z(1) slab_space_eq(1) [OF assms(1)] by (simp add: obj_at_def)
  then show "obj_at kc sl i < 4294967296" using assms(2) by (simp add: slab_placed_def)
  show "obj_at kc sl i mod kc_align kc = 0" if "1 < kc_align kc"
    using al [OF that] z(3) [OF that] unfolding obj_at_def by (metis add.right_neutral mod_add_eq mod_mult_right_eq mult_0_right mod_0)
qed

lemma obj_extent_inside:
  assumes "cache_laid kc" and "slab_placed kc sl" and "i < kc_objects kc"
  shows "obj_extent kc (obj_at kc sl i) \<subseteq> bytes (sl_ptr sl) (kc_int_slabobj_size kc)"
  using obj_bounds(1,2) [OF assms] by (auto simp: obj_extent_def bytes_def)

lemma obj_extent_apart:
  assumes "cache_laid kc" and "slab_placed kc sl" and "i < j"
  shows "obj_extent kc (obj_at kc sl i) \<inter> obj_extent kc (obj_at kc sl j) = {}"
proof -
  have off: "red kc + own kc \<le> sl_offset sl"
    using slab_offset_props(1) [OF assms(1)] assms(2) by (simp add: slab_placed_def)
  have "Suc i * kc_int_size kc \<le> j * kc_int_size kc" using assms(3) by (intro mult_le_mono1) simp
  then have "obj_at kc sl i + kc_int_size kc \<le> obj_at kc sl j" by (simp add: obj_at_def)
  then show ?thesis using int_size_props(1) [OF assms(1)] off
    by (auto simp: obj_extent_def bytes_def obj_at_def)
qed

lemma get_object_ptr_eq:
  assumes "cache_laid kc" and "slab_placed kc sl" and "i < kc_objects kc"
  shows "get_object_ptr kc sl i = Inr (obj_at kc sl i)"
  using obj_bounds(3) [OF assms] assms(3) by (simp add: get_object_ptr_def obj_at_def)

lemma get_object_index_eq:
  assumes "cache_laid kc" and "slab_placed kc sl" and "i < kc_objects kc"
  shows "get_object_index kc sl (obj_at kc sl i) = Inr i"
proof -
  note b = obj_bounds(1,3) [OF assms]
  have z: "0 < kc_int_size kc" using int_size_props(1) [OF assms(1)] assms(1) by (simp add: cache_laid_def)
  have "sub32 (obj_at kc sl i) (sl_ptr sl) = sl_offset sl + i * kc_int_size kc"
    using b by (simp add: obj_at_def)
  moreover have "sub32 (sl_offset sl + i * kc_int_size kc) (sl_offset sl) = i * kc_int_size kc"
    using b by (simp add: obj_at_def)
  ultimately show ?thesis using z by (simp add: get_object_index_def Let_def)
qed

section \<open>The invariant of a cache\<close>

definition slab_free :: "kmem_slab \<Rightarrow> nat list" where
  "slab_free sl = map the (drop (sl_position sl) (sl_ctl sl))"

definition slab_ok :: "kmem_cache \<Rightarrow> kmem_slab \<Rightarrow> bool" where
  "slab_ok kc sl \<longleftrightarrow>
     slab_placed kc sl \<and> length (sl_ctl sl) = kc_objects kc \<and> sl_position sl \<le> kc_objects kc
     \<and> None \<notin> set (drop (sl_position sl) (sl_ctl sl))
     \<and> distinct (slab_free sl) \<and> set (slab_free sl) \<subseteq> {..<kc_objects kc}"

definition slab_taken :: "kmem_cache \<Rightarrow> kmem_slab \<Rightarrow> nat set" where
  "slab_taken kc sl = {..<kc_objects kc} - set (slab_free sl)"

text \<open>The objects that the cache has handed out.\<close>

definition allocated :: "kmem_cache \<Rightarrow> nat set" where
  "allocated kc = (\<Union>sl \<in> set (kc_slabs kc). obj_at kc sl ` slab_taken kc sl)"

text \<open>The heap blocks of a slab with their sizes.\<close>

definition slab_blocks :: "kmem_cache \<Rightarrow> kmem_slab \<Rightarrow> (nat \<times> nat) list" where
  "slab_blocks kc sl =
     (if kv_flag (kc_cflags kc) KV_OFF_SLAB
      then [(sl_self sl, man_space kc), (sl_ptr sl, kc_int_slabobj_size kc)]
      else [(sl_self sl, man_space kc + kc_int_slabobj_size kc)])"

definition slab_shape :: "kmem_cache \<Rightarrow> kmem_slab \<Rightarrow> bool" where
  "slab_shape kc sl \<longleftrightarrow> kv_flag (kc_cflags kc) KV_OFF_SLAB \<or> sl_ptr sl = sl_self sl + man_space kc"

definition cache_blocks :: "kmem_cache \<Rightarrow> kmem_slab list \<Rightarrow> (nat \<times> nat) list" where
  "cache_blocks kc sls = concat (map (slab_blocks kc) sls)"

definition cache_ok :: "(nat \<Rightarrow> nat option) \<Rightarrow> nat \<Rightarrow> kmem_cache \<Rightarrow> bool" where
  "cache_ok lv cp kc \<longleftrightarrow>
     cache_laid kc \<and> lv cp = Some sizeof_kmem_cache
     \<and> (\<forall>sl \<in> set (kc_slabs kc). slab_ok kc sl \<and> slab_shape kc sl)
     \<and> (\<forall>b \<in> set (cache_blocks kc (kc_slabs kc)). lv (fst b) = Some (snd b))
     \<and> distinct (cp # map fst (cache_blocks kc (kc_slabs kc)))
     \<and> kc_total_objects kc = int (kc_objects kc * length (kc_slabs kc))
     \<and> kc_used_objects kc = int (sum_list (map sl_position (kc_slabs kc)))
     \<and> kc_objects kc * length (kc_slabs kc) < 2147483648"

text \<open>What stands around an object is as \<^verbatim>\<open>kmem_init_slab\<close> left it.\<close>

definition zones :: "(nat \<Rightarrow> nat) \<Rightarrow> nat \<Rightarrow> kmem_cache \<Rightarrow> nat \<Rightarrow> bool" where
  "zones m cp kc a \<longleftrightarrow>
     (kv_flag (kc_cflags kc) KV_RED_ZONE \<longrightarrow> m (a - 4) = RED_ZONE_DATA \<and> m (a + kc_size kc) = RED_ZONE_DATA)
     \<and> (kv_flag (kc_cflags kc) KV_OWNERSHIP \<longrightarrow> m (a - red kc - 4) = cp)"

definition zones_ok :: "(nat \<Rightarrow> nat) \<Rightarrow> nat \<Rightarrow> kmem_cache \<Rightarrow> bool" where
  "zones_ok m cp kc \<longleftrightarrow> (\<forall>sl \<in> set (kc_slabs kc). \<forall>i < kc_objects kc. zones m cp kc (obj_at kc sl i))"

text \<open>Two descriptions that agree in what the layout depends on.\<close>

definition same_layout :: "kmem_cache \<Rightarrow> kmem_cache \<Rightarrow> bool" where
  "same_layout kc kc' \<longleftrightarrow>
     kc_size kc' = kc_size kc \<and> kc_align kc' = kc_align kc \<and> kc_objects kc' = kc_objects kc
     \<and> kc_int_size kc' = kc_int_size kc \<and> kc_int_slabobj_size kc' = kc_int_slabobj_size kc \<and> kc_cflags kc' = kc_cflags kc"

lemma same_layout_eqs:
  assumes "same_layout kc kc'"
  shows "cache_laid kc' = cache_laid kc" and "slab_ok kc' = slab_ok kc" and "slab_shape kc' = slab_shape kc"
    and "obj_at kc' = obj_at kc" and "slab_taken kc' = slab_taken kc" and "slab_blocks kc' = slab_blocks kc"
    and "cache_blocks kc' = cache_blocks kc" and "zones m cp kc' = zones m cp kc" and "slab_placed kc' = slab_placed kc"
    and "red kc' = red kc" and "own kc' = own kc" and "man_space kc' = man_space kc"
proof -
  note e = assms [unfolded same_layout_def]
  have so: "slab_offset kc' = slab_offset kc" by (rule ext) (simp only: slab_offset_def e)
  show "cache_laid kc' = cache_laid kc" using e by (simp add: cache_laid_def)
  show pl: "slab_placed kc' = slab_placed kc" using e so by (simp add: slab_placed_def fun_eq_iff)
  show "slab_ok kc' = slab_ok kc" using e pl by (simp add: slab_ok_def fun_eq_iff)
  show ms: "man_space kc' = man_space kc" using e by (simp add: man_space_def)
  show "slab_shape kc' = slab_shape kc" using e ms by (simp add: slab_shape_def fun_eq_iff)
  show "obj_at kc' = obj_at kc" using e by (simp add: obj_at_def fun_eq_iff)
  show "slab_taken kc' = slab_taken kc" using e by (simp add: slab_taken_def fun_eq_iff)
  show sb: "slab_blocks kc' = slab_blocks kc" using e ms by (simp add: slab_blocks_def fun_eq_iff)
  show "cache_blocks kc' = cache_blocks kc" by (rule ext) (simp only: cache_blocks_def sb)
  show rd: "red kc' = red kc" using e by (simp add: red_def)
  show "own kc' = own kc" using e by (simp add: own_def)
  show "zones m cp kc' = zones m cp kc" using e rd by (simp add: zones_def fun_eq_iff)
qed

lemma cache_okD:
  assumes "cache_ok lv cp kc"
  shows "cache_laid kc" and "lv cp = Some sizeof_kmem_cache" and "sl \<in> set (kc_slabs kc) \<Longrightarrow> slab_ok kc sl \<and> slab_shape kc sl"
    and "b \<in> set (cache_blocks kc (kc_slabs kc)) \<Longrightarrow> lv (fst b) = Some (snd b)"
    and "distinct (cp # map fst (cache_blocks kc (kc_slabs kc)))"
    and "kc_total_objects kc = int (kc_objects kc * length (kc_slabs kc))"
    and "kc_used_objects kc = int (sum_list (map sl_position (kc_slabs kc)))"
    and "kc_objects kc * length (kc_slabs kc) < 2147483648"
  using assms unfolding cache_ok_def by simp_all

lemma sum_positions_le:
  "(\<forall>sl \<in> set sls. sl_position sl \<le> n) \<Longrightarrow> sum_list (map sl_position sls) \<le> n * length sls"
  by (induction sls) auto

lemma used_le_total:
  assumes "cache_ok lv cp kc"
  shows "sum_list (map sl_position (kc_slabs kc)) \<le> kc_objects kc * length (kc_slabs kc)"
  using sum_positions_le [of "kc_slabs kc"] cache_okD(3) [OF assms] by (simp add: slab_ok_def)

text \<open>The order of the slabs does not matter.\<close>

lemma cache_ok_perm:
  assumes ok: "cache_ok lv cp kc" and m: "mset sls = mset (kc_slabs kc)"
  shows "cache_ok lv cp (kc\<lparr>kc_slabs := sls\<rparr>)" and "allocated (kc\<lparr>kc_slabs := sls\<rparr>) = allocated kc"
    and "zones_ok mm cp (kc\<lparr>kc_slabs := sls\<rparr>) = zones_ok mm cp kc"
proof -
  let ?kc = "kc\<lparr>kc_slabs := sls\<rparr>"
  have "same_layout kc ?kc" by (simp add: same_layout_def)
  note e = same_layout_eqs [OF this]
  have st: "set sls = set (kc_slabs kc)" using m by (metis set_mset_mset)
  have ln: "length sls = length (kc_slabs kc)" using m by (metis size_mset)
  have bl: "mset (cache_blocks kc sls) = mset (cache_blocks kc (kc_slabs kc))"
    unfolding cache_blocks_def mset_concat using m by (metis mset_map sum_mset_sum_list)
  then have bs: "set (cache_blocks kc sls) = set (cache_blocks kc (kc_slabs kc))" by (metis set_mset_mset)
  from bl have "mset (map fst (cache_blocks kc sls)) = mset (map fst (cache_blocks kc (kc_slabs kc)))" by (simp only: mset_map)
  then have di: "distinct (map fst (cache_blocks kc sls)) = distinct (map fst (cache_blocks kc (kc_slabs kc)))"
    by (rule mset_eq_imp_distinct_iff)
  have "sum_list (map sl_position sls) = sum_list (map sl_position (kc_slabs kc))"
    using m by (metis mset_map sum_mset_sum_list)
  then show "cache_ok lv cp ?kc" using ok bs di st ln unfolding cache_ok_def e by simp
  show "allocated ?kc = allocated kc" unfolding allocated_def e by (simp add: st)
  show "zones_ok mm cp ?kc = zones_ok mm cp kc" unfolding zones_ok_def e by (simp add: st)
qed

lemma bring_front_ok:
  assumes ok: "cache_ok lv cp kc" and full: "kc_slabs kc = [] \<or> sl_position (hd (kc_slabs kc)) = kc_objects kc"
    and room: "kc_total_objects kc \<noteq> kc_used_objects kc"
  obtains sl sls where "bring_front kc = Inr (sl # sls)" "mset (sl # sls) = mset (kc_slabs kc)" "sl_position sl \<noteq> kc_objects kc"
proof (cases "kc_slabs kc")
  case Nil
  then have False using cache_okD(6,7) [OF ok] room by simp
  then show ?thesis ..
next
  case (Cons first rest)
  let ?P = "\<lambda>sl. sl_position sl = kc_objects kc"
  show ?thesis
  proof (cases "dropWhile ?P rest")
    case Nil
    then have "\<forall>sl \<in> set rest. ?P sl" by (simp only: dropWhile_eq_Nil_conv)
    then have "map sl_position (kc_slabs kc) = map (\<lambda>_. kc_objects kc) (kc_slabs kc)" using Cons full by auto
    then have "sum_list (map sl_position (kc_slabs kc)) = kc_objects kc * length (kc_slabs kc)"
      by (simp only: sum_list_triv) simp
    then have False using cache_okD(6,7) [OF ok] room by simp
    then show ?thesis ..
  next
    case d: (Cons sl later)
    have "rest = takeWhile ?P rest @ sl # later" using takeWhile_dropWhile_id [of ?P rest] unfolding d by (rule sym)
    then have "mset rest = mset (takeWhile ?P rest) + mset (sl # later)" by (metis mset_append)
    moreover have "\<not> ?P sl" using hd_dropWhile [of ?P rest] d by simp
    moreover have "bring_front kc = Inr (sl # first # takeWhile ?P rest @ later)"
      unfolding bring_front_def Cons list.case d by (rule refl)
    moreover have "mset (sl # first # takeWhile ?P rest @ later) = mset (kc_slabs kc)" using calculation(1) Cons by simp
    ultimately show ?thesis by (intro that)
  qed
qed

lemma obj_at_inj:
  assumes "cache_laid kc" and "obj_at kc sl i = obj_at kc sl j"
  shows "i = j"
  using assms int_size_props(1) [OF assms(1)] cache_laidD(2) [OF assms(1)] by (simp add: obj_at_def)

lemma distinct_concat_apart:
  assumes "distinct (map fst (concat (map f xs)))" and "x \<in> set xs" "y \<in> set xs" "x \<noteq> y"
    and "p \<in> set (f x)" "q \<in> set (f y)"
  shows "fst p \<noteq> fst q"
  using assms(1-4)
proof (induction xs)
  case (Cons z zs)
  have cross: "u \<notin> fst ` set (concat (map f zs))" if "u \<in> fst ` set (f z)" for u using Cons.prems(1) that by auto
  consider "x = z" "y \<in> set zs" | "y = z" "x \<in> set zs" | "x \<in> set zs" "y \<in> set zs" using Cons.prems by auto
  then show ?case
  proof cases
    case 1
    then have "fst p \<in> fst ` set (f z)" "fst q \<in> fst ` set (concat (map f zs))" using assms(5,6) by auto
    with cross show ?thesis by metis
  next
    case 2
    then have "fst q \<in> fst ` set (f z)" "fst p \<in> fst ` set (concat (map f zs))" using assms(5,6) by auto
    with cross show ?thesis by metis
  next
    case 3
    then show ?thesis using Cons.IH Cons.prems(1,4) by simp
  qed
qed simp

lemma disjoint_subsets: "A \<inter> B = {} \<Longrightarrow> C \<subseteq> A \<Longrightarrow> D \<subseteq> B \<Longrightarrow> C \<inter> D = {}"
  by blast

definition area :: "kmem_cache \<Rightarrow> kmem_slab \<Rightarrow> nat set" where
  "area kc sl = bytes (sl_ptr sl) (kc_int_slabobj_size kc)"

lemma area_in_block:
  assumes "slab_shape kc sl"
  obtains b where "b \<in> set (slab_blocks kc sl)" "area kc sl \<subseteq> bytes (fst b) (snd b)"
proof (cases "kv_flag (kc_cflags kc) KV_OFF_SLAB")
  case True
  then show ?thesis using that [of "(sl_ptr sl, kc_int_slabobj_size kc)"] by (simp add: slab_blocks_def area_def)
next
  case False
  then have "sl_ptr sl = sl_self sl + man_space kc" using assms by (simp add: slab_shape_def)
  then have "area kc sl \<subseteq> bytes (sl_self sl) (man_space kc + kc_int_slabobj_size kc)" by (auto simp: area_def bytes_def)
  then show ?thesis using that [of "(sl_self sl, man_space kc + kc_int_slabobj_size kc)"] False by (simp add: slab_blocks_def)
qed

lemma obj_in_area:
  assumes "cache_laid kc" and "slab_placed kc sl" and "i < kc_objects kc"
  shows "obj_at kc sl i \<in> area kc sl" and "obj_extent kc (obj_at kc sl i) \<subseteq> area kc sl"
  using obj_bounds(1,2) [OF assms] obj_extent_inside [OF assms] cache_laidD(2) [OF assms(1)]
  by (auto simp: area_def bytes_def)

lemma zone_cells:
  assumes "cache_laid kc" and "slab_placed kc sl" and "i < kc_objects kc"
  shows "kv_flag (kc_cflags kc) KV_RED_ZONE \<Longrightarrow> obj_at kc sl i - 4 \<in> obj_extent kc (obj_at kc sl i)
           \<and> obj_at kc sl i + kc_size kc \<in> obj_extent kc (obj_at kc sl i)"
    and "kv_flag (kc_cflags kc) KV_OWNERSHIP \<Longrightarrow> obj_at kc sl i - red kc - 4 \<in> obj_extent kc (obj_at kc sl i)"
  using obj_bounds(1) [OF assms] by (auto simp: obj_extent_def bytes_def red_def own_def)

lemma zones_cong:
  assumes "cache_laid kc" and "slab_placed kc sl" and "i < kc_objects kc"
    and "\<forall>x \<in> obj_extent kc (obj_at kc sl i). m' x = m x"
  shows "zones m' cp kc (obj_at kc sl i) = zones m cp kc (obj_at kc sl i)"
  using zone_cells [OF assms(1-3)] assms(4) by (auto simp: zones_def)

text \<open>The accessors of the words around an object.\<close>

lemma zone_ptrs:
  assumes "cache_laid kc" and "slab_placed kc sl" and "i < kc_objects kc"
  shows "kv_flag (kc_cflags kc) KV_RED_ZONE \<Longrightarrow> redzone_left kc (obj_at kc sl i) = Inr (obj_at kc sl i - 4)"
    and "kv_flag (kc_cflags kc) KV_RED_ZONE \<Longrightarrow> redzone_right kc (obj_at kc sl i) = Inr (obj_at kc sl i + kc_size kc)"
    and "kv_flag (kc_cflags kc) KV_OWNERSHIP \<Longrightarrow> get_object_owner_ptr kc (obj_at kc sl i) = Inr (obj_at kc sl i - red kc - 4)"
proof -
  let ?a = "obj_at kc sl i"
  note b = obj_bounds(1-3) [OF assms]
  have pl: "sl_ptr sl + kc_int_slabobj_size kc < 4294967296" using assms(2) by (simp add: slab_placed_def)
  show l: "redzone_left kc ?a = Inr (?a - 4)" if "kv_flag (kc_cflags kc) KV_RED_ZONE"
    using that b by (simp add: redzone_left_def sizeof_kmem_redzone_def red_def)
  show "redzone_right kc ?a = Inr (?a + kc_size kc)" if "kv_flag (kc_cflags kc) KV_RED_ZONE"
    using that b(2) pl by (simp add: redzone_right_def)
  show "get_object_owner_ptr kc ?a = Inr (?a - red kc - 4)" if o: "kv_flag (kc_cflags kc) KV_OWNERSHIP"
    using o b l by (cases "kv_flag (kc_cflags kc) KV_RED_ZONE")
      (simp_all add: get_object_owner_ptr_def sizeof_owner_def red_def own_def)
qed

context addressed_heap
begin

lemma slabs_apart:
  assumes h: "heap_ok h" and ok: "cache_ok (live h) cp kc" and sl: "sl \<in> set (kc_slabs kc)" "sl' \<in> set (kc_slabs kc)" "sl \<noteq> sl'"
  shows "area kc sl \<inter> area kc sl' = {}"
proof -
  from area_in_block cache_okD(3) [OF ok] sl obtain b b' where
    b: "b \<in> set (slab_blocks kc sl)" "area kc sl \<subseteq> bytes (fst b) (snd b)"
    and b': "b' \<in> set (slab_blocks kc sl')" "area kc sl' \<subseteq> bytes (fst b') (snd b')" by metis
  have "fst b \<noteq> fst b'"
    using distinct_concat_apart [OF _ sl b(1) b'(1)] cache_okD(5) [OF ok] by (simp add: cache_blocks_def)
  moreover have "b \<in> set (cache_blocks kc (kc_slabs kc))" "b' \<in> set (cache_blocks kc (kc_slabs kc))"
    using b(1) b'(1) sl by (auto simp: cache_blocks_def)
  moreover note calculation(2,3) [THEN cache_okD(4) [OF ok]]
  ultimately have "bytes (fst b) (snd b) \<inter> bytes (fst b') (snd b') = {}" using live_disjoint [OF h] by blast
  with b(2) b'(2) show ?thesis by blast
qed

text \<open>Different objects of a cache, with all that stands around them, do not overlap.\<close>

lemma objects_apart:
  assumes h: "heap_ok h" and ok: "cache_ok (live h) cp kc" and sl: "sl \<in> set (kc_slabs kc)" "sl' \<in> set (kc_slabs kc)"
    and ij: "i < kc_objects kc" "j < kc_objects kc" and ne: "(sl, i) \<noteq> (sl', j)"
  shows "obj_extent kc (obj_at kc sl i) \<inter> obj_extent kc (obj_at kc sl' j) = {}" and "obj_at kc sl i \<noteq> obj_at kc sl' j"
proof -
  note ld = cache_okD(1) [OF ok]
  have pl: "slab_placed kc sl" "slab_placed kc sl'" using cache_okD(3) [OF ok] sl by (auto simp: slab_ok_def)
  show "obj_extent kc (obj_at kc sl i) \<inter> obj_extent kc (obj_at kc sl' j) = {}"
  proof (cases "sl = sl'")
    case True
    then consider "i < j" | "j < i" using ne by (metis linorder_neqE_nat)
    then show ?thesis
      using obj_extent_apart [OF ld pl(1), of i j] obj_extent_apart [OF ld pl(1), of j i] True by cases (simp, simp add: Int_commute)
  next
    case False
    from slabs_apart [OF h ok sl this] show ?thesis
      by (rule disjoint_subsets [OF _ obj_in_area(2) [OF ld pl(1) ij(1)] obj_in_area(2) [OF ld pl(2) ij(2)]])
  qed
  show "obj_at kc sl i \<noteq> obj_at kc sl' j"
  proof (cases "sl = sl'")
    case True
    with ne obj_at_inj [OF ld, of sl i j] show ?thesis by blast
  next
    case False
    from slabs_apart [OF h ok sl this] obj_in_area(1) [OF ld pl(1) ij(1)] obj_in_area(1) [OF ld pl(2) ij(2)] show ?thesis by (metis disjoint_iff)
  qed
qed

end

section \<open>Setting up a slab\<close>

text \<open>A constructor or destructor returns and writes inside the object only.\<close>

definition behaved :: "'h kmem kmem_code \<Rightarrow> kmem_cache \<Rightarrow> bool" where
  "behaved code kc \<longleftrightarrow>
     (\<forall>f obj fl s. kc_constructor kc = Some f \<longrightarrow>
        (\<exists>m. constructor_at code f obj (kc_token kc) fl s = Inr (s\<lparr>km_mem := m\<rparr>)
           \<and> (\<forall>x. x \<notin> bytes obj (kc_size kc) \<longrightarrow> m x = km_mem s x)))
     \<and> (\<forall>f obj s. kc_destructor kc = Some f \<longrightarrow>
        (\<exists>m. destructor_at code f obj (kc_token kc) s = Inr (s\<lparr>km_mem := m\<rparr>)
           \<and> (\<forall>x. x \<notin> bytes obj (kc_size kc) \<longrightarrow> m x = km_mem s x)))"

lemma slab_upd_simps [simp]:
  "obj_at kc (sl\<lparr>sl_ctl := c\<rparr>) = obj_at kc sl" "obj_at kc (sl\<lparr>sl_position := n\<rparr>) = obj_at kc sl"
  "slab_placed kc (sl\<lparr>sl_ctl := c\<rparr>) = slab_placed kc sl" "slab_placed kc (sl\<lparr>sl_position := n\<rparr>) = slab_placed kc sl"
  "slab_shape kc (sl\<lparr>sl_ctl := c\<rparr>) = slab_shape kc sl" "slab_shape kc (sl\<lparr>sl_position := n\<rparr>) = slab_shape kc sl"
  "slab_blocks kc (sl\<lparr>sl_ctl := c\<rparr>) = slab_blocks kc sl" "slab_blocks kc (sl\<lparr>sl_position := n\<rparr>) = slab_blocks kc sl"
  by (simp_all add: fun_eq_iff obj_at_def slab_placed_def slab_shape_def slab_blocks_def)

lemma init_object_ok:
  assumes c: "km_caches s cp = Some kc" and b: "behaved code kc" and ld: "cache_laid kc"
    and pl: "slab_placed kc sl" and i: "i < kc_objects kc"
  shows "\<exists>m. init_object code cp fl (obj_at kc sl i) s = Inr (s\<lparr>km_mem := m\<rparr>)
    \<and> (\<forall>x. x \<notin> obj_extent kc (obj_at kc sl i) \<longrightarrow> m x = km_mem s x) \<and> zones m cp kc (obj_at kc sl i)"
proof -
  let ?a = "obj_at kc sl i" and ?R = "kv_flag (kc_cflags kc) KV_RED_ZONE" and ?O = "kv_flag (kc_cflags kc) KV_OWNERSHIP"
  note ob = obj_bounds(1) [OF ld pl i] and zp = zone_ptrs [OF ld pl i] and zc = zone_cells [OF ld pl i]
  have sz: "0 < kc_size kc" by (rule cache_laidD(2) [OF ld])
  have "bytes ?a (kc_size kc) \<subseteq> obj_extent kc ?a" using ob by (auto simp: obj_extent_def bytes_def)
  then obtain m1 where m1: "(case kc_constructor kc of None \<Rightarrow> Inr s | Some f \<Rightarrow> constructor_at code f ?a (kc_token kc) fl s)
      = Inr (s\<lparr>km_mem := m1\<rparr>)" "\<forall>x. x \<notin> obj_extent kc ?a \<longrightarrow> m1 x = km_mem s x"
  proof (cases "kc_constructor kc")
    case None
    then show ?thesis using that [of "km_mem s"] by simp
  next
    case (Some f)
    with b obtain m where "constructor_at code f ?a (kc_token kc) fl s = Inr (s\<lparr>km_mem := m\<rparr>)"
      "\<forall>x. x \<notin> bytes ?a (kc_size kc) \<longrightarrow> m x = km_mem s x" unfolding behaved_def by blast
    with \<open>bytes ?a (kc_size kc) \<subseteq> obj_extent kc ?a\<close> show ?thesis using that [of m] Some by auto
  qed
  define m2 where "m2 = (if ?R then m1(?a - 4 := RED_ZONE_DATA, ?a + kc_size kc := RED_ZONE_DATA) else m1)"
  define m3 where "m3 = (if ?O then m2(?a - red kc - 4 := cp) else m2)"
  have "init_object code cp fl ?a s = Inr (s\<lparr>km_mem := m3\<rparr>)"
    using c m1(1) zp by (cases ?R; cases ?O) (simp_all add: init_object_def get_cache_def poke_def m2_def m3_def)
  moreover have "\<forall>x. x \<notin> obj_extent kc ?a \<longrightarrow> m3 x = km_mem s x"
    using m1(2) zc by (auto simp: m2_def m3_def)
  moreover have "zones m3 cp kc ?a"
    using ob sz by (auto simp: zones_def m2_def m3_def red_def own_def)
  ultimately show ?thesis by blast
qed

lemma init_objects_ok:
  assumes "km_caches s cp = Some kc" and b: "behaved code kc" and ld: "cache_laid kc"
    and "slab_placed kc sl" and "i + k = kc_objects kc" and "length (sl_ctl sl) = kc_objects kc"
  shows "\<exists>m. init_objects code cp fl i k sl s
      = Inr (sl\<lparr>sl_ctl := take i (sl_ctl sl) @ map Some [i..<i + k]\<rparr>, s\<lparr>km_mem := m\<rparr>)
    \<and> (\<forall>x. x \<notin> area kc sl \<longrightarrow> m x = km_mem s x)
    \<and> (\<forall>j. i \<le> j \<longrightarrow> j < i + k \<longrightarrow> zones m cp kc (obj_at kc sl j))
    \<and> (\<forall>j < i. \<forall>x \<in> obj_extent kc (obj_at kc sl j). m x = km_mem s x)"
  using assms(1,4-6)
proof (induction k arbitrary: i sl s)
  case 0
  then show ?case by (intro exI [of _ "km_mem s"]) simp
next
  case (Suc k)
  have i: "i < kc_objects kc" using Suc.prems(3) by simp
  from init_object_ok [OF Suc.prems(1) b ld Suc.prems(2) i] obtain m1 where m1:
    "init_object code cp fl (obj_at kc sl i) s = Inr (s\<lparr>km_mem := m1\<rparr>)"
    "\<forall>x. x \<notin> obj_extent kc (obj_at kc sl i) \<longrightarrow> m1 x = km_mem s x" "zones m1 cp kc (obj_at kc sl i)" by blast
  let ?s = "s\<lparr>km_mem := m1\<rparr>" and ?sl = "sl\<lparr>sl_ctl := (sl_ctl sl)[i := Some i]\<rparr>"
  have pre: "km_caches ?s cp = Some kc" "slab_placed kc ?sl" "Suc i + k = kc_objects kc" "length (sl_ctl ?sl) = kc_objects kc"
    using Suc.prems by simp_all
  from Suc.IH [OF pre] obtain m where m:
    "init_objects code cp fl (Suc i) k ?sl ?s = Inr (?sl\<lparr>sl_ctl := take (Suc i) (sl_ctl ?sl) @ map Some [Suc i..<Suc i + k]\<rparr>, ?s\<lparr>km_mem := m\<rparr>)"
    "\<forall>x. x \<notin> area kc ?sl \<longrightarrow> m x = km_mem ?s x"
    "\<forall>j. Suc i \<le> j \<longrightarrow> j < Suc i + k \<longrightarrow> zones m cp kc (obj_at kc ?sl j)"
    "\<forall>j < Suc i. \<forall>x \<in> obj_extent kc (obj_at kc ?sl j). m x = km_mem ?s x" by (elim exE conjE)
  have c: "take (Suc i) ((sl_ctl sl)[i := Some i]) @ map Some [Suc i..<Suc i + k] = take i (sl_ctl sl) @ map Some [i..<i + Suc k]"
    using i Suc.prems(4) by (simp add: take_Suc_conv_app_nth upt_conv_Cons)
  have "init_objects code cp fl i (Suc k) sl s
      = Inr (sl\<lparr>sl_ctl := take i (sl_ctl sl) @ map Some [i..<i + Suc k]\<rparr>, s\<lparr>km_mem := m\<rparr>)"
    using m(1) m1(1) Suc.prems(1,4) i get_object_ptr_eq [OF ld Suc.prems(2) i] c
    by (simp add: get_cache_def del: upt_Suc)
  moreover have "\<forall>x. x \<notin> area kc sl \<longrightarrow> m x = km_mem s x"
    using m(2) m1(2) obj_in_area(2) [OF ld Suc.prems(2) i] by (auto simp: area_def)
  moreover have "zones m cp kc (obj_at kc sl j)" if "i \<le> j" "j < i + Suc k" for j
  proof (cases "j = i")
    case True
    have "\<forall>x \<in> obj_extent kc (obj_at kc sl i). m x = m1 x" using m(4) by auto
    from zones_cong [OF ld Suc.prems(2) i this] m1(3) True show ?thesis by simp
  next
    case False
    then show ?thesis using m(3) that by simp
  qed
  moreover have "m x = km_mem s x" if "j < i" "x \<in> obj_extent kc (obj_at kc sl j)" for j x
  proof -
    have "x \<notin> obj_extent kc (obj_at kc sl i)" using obj_extent_apart [OF ld Suc.prems(2) that(1)] that(2) by blast
    then have "m1 x = km_mem s x" using m1(2) by blast
    moreover have "m x = m1 x" using m(4) [rule_format, OF less_SucI [OF that(1)], of x] that(2) by simp
    ultimately show ?thesis by simp
  qed
  ultimately show ?case by (intro exI [of _ m]) blast
qed

lemma slab_free_fresh: "slab_free (sl\<lparr>sl_ctl := map Some [0..<n], sl_position := 0\<rparr>) = [0..<n]"
  by (simp add: slab_free_def comp_def)

section \<open>Taking and giving back objects\<close>

lemma allocated_Cons:
  "kc_slabs kc = sl # rest \<Longrightarrow> allocated kc = obj_at kc sl ` slab_taken kc sl \<union> allocated (kc\<lparr>kc_slabs := rest\<rparr>)"
proof -
  assume "kc_slabs kc = sl # rest"
  moreover have "same_layout kc (kc\<lparr>kc_slabs := rest\<rparr>)" by (simp add: same_layout_def)
  ultimately show ?thesis unfolding allocated_def same_layout_eqs [OF \<open>same_layout kc (kc\<lparr>kc_slabs := rest\<rparr>)\<close>] by simp
qed

text \<open>Changing a slab and the counter of used objects.\<close>

definition with_slab :: "kmem_cache \<Rightarrow> kmem_slab list \<Rightarrow> kmem_slab \<Rightarrow> kmem_slab list \<Rightarrow> int \<Rightarrow> kmem_cache" where
  "with_slab kc xs sl ys u = kc\<lparr>kc_used_objects := u, kc_slabs := xs @ sl # ys\<rparr>"

lemma with_slab_ok:
  assumes ok: "cache_ok lv cp kc" and sls: "kc_slabs kc = xs @ sl # ys" and n: "slab_ok kc sl'" "sl_ptr sl' = sl_ptr sl"
    "sl_self sl' = sl_self sl" "sl_offset sl' = sl_offset sl" and used: "u = kc_used_objects kc + int (sl_position sl') - int (sl_position sl)"
  shows "cache_ok lv cp (with_slab kc xs sl' ys u)"
    and "allocated (with_slab kc xs sl' ys u) = (\<Union>z \<in> set xs \<union> set ys. obj_at kc z ` slab_taken kc z) \<union> obj_at kc sl ` slab_taken kc sl'"
    and "zones_ok m cp kc \<Longrightarrow> zones_ok m cp (with_slab kc xs sl' ys u)"
proof -
  let ?kc = "with_slab kc xs sl' ys u"
  have "same_layout kc ?kc" by (simp add: same_layout_def with_slab_def)
  note e = same_layout_eqs [OF this]
  have o: "obj_at kc sl' = obj_at kc sl" "slab_blocks kc sl' = slab_blocks kc sl" "slab_shape kc sl' = slab_shape kc sl"
    using n(2-4) by (simp_all add: obj_at_def slab_blocks_def slab_shape_def fun_eq_iff)
  have b: "cache_blocks kc (xs @ sl' # ys) = cache_blocks kc (kc_slabs kc)" using sls o(2) by (simp add: cache_blocks_def)
  have "\<forall>z \<in> set (kc_slabs ?kc). slab_ok kc z \<and> slab_shape kc z"
    using cache_okD(3) [OF ok] n(1) o(3) sls by (auto simp: with_slab_def)
  moreover have "kc_used_objects ?kc = int (sum_list (map sl_position (kc_slabs ?kc)))"
    using used cache_okD(7) [OF ok] sls by (simp add: with_slab_def)
  ultimately show "cache_ok lv cp ?kc"
    using ok b sls unfolding cache_ok_def e by (simp add: with_slab_def)
  show "allocated ?kc = (\<Union>z \<in> set xs \<union> set ys. obj_at kc z ` slab_taken kc z) \<union> obj_at kc sl ` slab_taken kc sl'"
    unfolding allocated_def e by (auto simp: with_slab_def o(1))
  show "zones_ok m cp ?kc" if "zones_ok m cp kc"
    using that sls unfolding zones_ok_def e by (auto simp: with_slab_def same_layout_def o(1))
qed

lemma allocated_split:
  "kc_slabs kc = xs @ sl # ys \<Longrightarrow>
   allocated kc = (\<Union>z \<in> set xs \<union> set ys. obj_at kc z ` slab_taken kc z) \<union> obj_at kc sl ` slab_taken kc sl"
  by (auto simp: allocated_def)

lemma cache_distinct:
  assumes "cache_ok lv cp kc"
  shows "distinct (map sl_self (kc_slabs kc))"
proof -
  have "distinct (map fst (concat (map (slab_blocks kc) sls))) \<Longrightarrow> distinct (map sl_self sls)" for sls
  proof (induction sls)
    case (Cons z zs)
    have "(sl_self z, man_space kc) \<in> set (slab_blocks kc z) \<or> (sl_self z, man_space kc + kc_int_slabobj_size kc) \<in> set (slab_blocks kc z)" for z
      by (simp add: slab_blocks_def)
    then have self: "sl_self z \<in> fst ` set (slab_blocks kc z)" for z by (metis fst_conv image_eqI)
    have "sl_self z \<notin> sl_self ` set zs"
    proof
      assume "sl_self z \<in> sl_self ` set zs"
      then obtain y where "y \<in> set zs" "sl_self y = sl_self z" by auto
      with self [of y] have "sl_self z \<in> fst ` set (concat (map (slab_blocks kc) zs))" by (auto simp: image_iff)
      moreover have "u \<notin> fst ` set (concat (map (slab_blocks kc) zs))" if "u \<in> fst ` set (slab_blocks kc z)" for u
        using Cons.prems that by auto
      ultimately show False using self [of z] by metis
    qed
    then show ?case using Cons by simp
  qed simp
  then show ?thesis using cache_okD(5) [OF assms] by (simp add: cache_blocks_def)
qed

lemma replace_slab_split:
  assumes "distinct (map sl_self (xs @ sl # ys))" and "sl_self sl' = sl_self sl"
  shows "replace_slab sl' (xs @ sl # ys) = xs @ sl' # ys"
proof -
  have "z \<in> set xs \<union> set ys \<Longrightarrow> sl_self z \<noteq> sl_self sl" for z using assms(1) by (simp add: image_iff) metis
  then show ?thesis using assms(2) by (simp add: replace_slab_def map_idI)
qed

context addressed_heap
begin

lemma take_object_ok:
  assumes h: "heap_ok h" and ok: "cache_ok (live h) cp kc" and sls: "kc_slabs kc = sl # rest" and room: "sl_position sl \<noteq> kc_objects kc"
  shows "\<exists>a kc'. take_object cp kc sl rest s = Inr (Some a, put_cache cp kc' s) \<and> a \<notin> allocated kc
    \<and> allocated kc' = insert a (allocated kc) \<and> cache_ok (live h) cp kc' \<and> (\<forall>m. zones_ok m cp kc \<longrightarrow> zones_ok m cp kc')
    \<and> same_layout kc kc'"
proof -
  note ld = cache_okD(1) [OF ok]
  have so: "slab_ok kc sl" using cache_okD(3) [OF ok] sls by simp
  note o = so [unfolded slab_ok_def]
  let ?p = "sl_position sl" and ?sl = "sl\<lparr>sl_position := Suc (sl_position sl)\<rparr>"
  have p: "?p < kc_objects kc" "?p < length (sl_ctl sl)" using o room by simp_all
  then have dr: "drop ?p (sl_ctl sl) = sl_ctl sl ! ?p # drop (Suc ?p) (sl_ctl sl)" by (simp add: Cons_nth_drop_Suc)
  then obtain i where i: "sl_ctl sl ! ?p = Some i" using o by (metis list.set_intros(1) not_None_eq)
  have fr: "slab_free sl = i # slab_free ?sl" using dr i by (simp add: slab_free_def)
  then have ii: "i < kc_objects kc" "i \<notin> set (slab_free ?sl)" using o by auto
  have "slab_ok kc ?sl" using o p dr fr by (auto simp: slab_ok_def)
  moreover have ob: "kc_objects kc < 2147483648" using cache_okD(8) [OF ok] sls by (simp add: le_less_trans)
  define kc' where "kc' = with_slab kc [] ?sl rest (kc_used_objects kc + 1)"
  have sls0: "kc_slabs kc = [] @ sl # rest" using sls by simp
  note w = with_slab_ok [OF ok sls0, of ?sl "kc_used_objects kc + 1", simplified, folded kc'_def]
  have tk: "slab_taken kc ?sl = insert i (slab_taken kc sl)" "i \<notin> slab_taken kc sl" using fr ii by (auto simp: slab_taken_def)
  have pos: "sum_list (map sl_position (kc_slabs kc)) < kc_objects kc * length (kc_slabs kc)"
  proof -
    have "sum_list (map sl_position rest) \<le> kc_objects kc * length rest"
      using sum_positions_le [of rest] cache_okD(3) [OF ok] sls by (simp add: slab_ok_def)
    then show ?thesis using p sls by simp
  qed
  then have used: "s32 (kc_used_objects kc + 1) = kc_used_objects kc + 1" "u32 (?p + 1) = ?p + 1"
    using cache_okD(7,8) [OF ok] p ob by simp_all
  let ?a = "obj_at kc sl i"
  have "take_object cp kc sl rest s = Inr (Some ?a, put_cache cp kc' s)"
    using p i get_object_ptr_eq [OF ld _ ii(1)] o used by (simp add: take_object_def kc'_def with_slab_def)
  moreover have "?a \<notin> allocated kc"
  proof
    assume "?a \<in> allocated kc"
    then obtain sl2 j where j: "sl2 \<in> set (kc_slabs kc)" "j \<in> slab_taken kc sl2" "?a = obj_at kc sl2 j" by (auto simp: allocated_def)
    then have "(sl, i) = (sl2, j)"
      using objects_apart(2) [OF h ok _ j(1) ii(1), of sl j] sls by (auto simp: slab_taken_def)
    with j(2) tk(2) show False by simp
  qed
  moreover have "allocated kc' = insert ?a (allocated kc)"
    using w(2) \<open>slab_ok kc ?sl\<close> allocated_split [OF sls0] tk(1) by simp
  moreover have "same_layout kc kc'" by (simp add: kc'_def with_slab_def same_layout_def)
  moreover have "cache_ok (live h) cp kc'" by (rule w(1) [OF \<open>slab_ok kc ?sl\<close>])
  moreover have "\<forall>m. zones_ok m cp kc \<longrightarrow> zones_ok m cp kc'" by (intro allI impI w(3) [OF \<open>slab_ok kc ?sl\<close>])
  ultimately show ?thesis by (intro exI [of _ ?a] exI [of _ kc'] conjI)
qed

lemma find_unique: "x \<in> set xs \<Longrightarrow> P x \<Longrightarrow> (\<And>y. y \<in> set xs \<Longrightarrow> P y \<Longrightarrow> y = x) \<Longrightarrow> find P xs = Some x"
proof (induction xs)
  case (Cons a xs)
  show ?case
  proof (cases "P a")
    case True
    then have "a = x" by (intro Cons.prems(3)) simp_all
    with True show ?thesis by simp
  next
    case False
    then have "x \<in> set xs" using Cons.prems(1,2) by auto
    from Cons.IH [OF this Cons.prems(2,3)] False show ?thesis by simp
  qed
qed simp

lemma get_object_slab_eq:
  assumes h: "heap_ok h" and ok: "cache_ok (live h) cp kc" and sl: "sl \<in> set (kc_slabs kc)" and i: "i < kc_objects kc"
  shows "get_object_slab kc (obj_at kc sl i) = Some sl"
proof -
  have pl: "slab_placed kc z" if "z \<in> set (kc_slabs kc)" for z using cache_okD(3) [OF ok that] by (simp add: slab_ok_def)
  have P: "(sl_ptr z \<le> obj_at kc sl i \<and> obj_at kc sl i < u32 (sl_ptr z + kc_int_slabobj_size kc)) \<longleftrightarrow> obj_at kc sl i \<in> area kc z"
    if "z \<in> set (kc_slabs kc)" for z
    using pl [OF that] by (simp add: area_def bytes_def slab_placed_def)
  have a: "obj_at kc sl i \<in> area kc sl" by (rule obj_in_area(1) [OF cache_okD(1) [OF ok] pl [OF sl] i])
  show ?thesis
    unfolding get_object_slab_def
  proof (rule find_unique [OF sl])
    show "sl_ptr sl \<le> obj_at kc sl i \<and> obj_at kc sl i < u32 (sl_ptr sl + kc_int_slabobj_size kc)" using P [OF sl] a by blast
    fix z
    assume z: "z \<in> set (kc_slabs kc)" "sl_ptr z \<le> obj_at kc sl i \<and> obj_at kc sl i < u32 (sl_ptr z + kc_int_slabobj_size kc)"
    then show "z = sl" using P [OF z(1)] a slabs_apart [OF h ok z(1) sl] by (metis disjoint_iff)
  qed
qed

lemma free_object_ok:
  assumes h: "heap_ok h" and c: "km_caches s cp = Some kc" and ok: "cache_ok (live h) cp kc"
    and a: "a \<in> allocated kc" and z: "zones (km_mem s) cp kc a"
  shows "\<exists>kc'. kmem_cache_free (Some cp) (Some a) s = Inr (put_cache cp kc' s) \<and> allocated kc' = allocated kc - {a}
    \<and> cache_ok (live h) cp kc' \<and> (\<forall>m. zones_ok m cp kc \<longrightarrow> zones_ok m cp kc') \<and> same_layout kc kc'"
proof -
  note ld = cache_okD(1) [OF ok]
  from a obtain sl i where sl: "sl \<in> set (kc_slabs kc)" and i: "i \<in> slab_taken kc sl" and a: "a = obj_at kc sl i"
    by (auto simp: allocated_def)
  from split_list [OF sl] obtain xs ys where sls: "kc_slabs kc = xs @ sl # ys" by blast
  have so: "slab_ok kc sl" using cache_okD(3) [OF ok sl] by simp
  note o = so [unfolded slab_ok_def]
  have io: "i < kc_objects kc" "i \<notin> set (slab_free sl)" using i by (auto simp: slab_taken_def)
  have pl: "slab_placed kc sl" using o by blast
  let ?p = "sl_position sl"
  define sl' where "sl' = sl\<lparr>sl_position := ?p - 1, sl_ctl := (sl_ctl sl)[?p - 1 := Some i]\<rparr>"
  have "set (slab_free sl) \<subseteq> {..<kc_objects kc} - {i}" using o io by blast
  then have "card (set (slab_free sl)) \<le> card ({..<kc_objects kc} - {i})" by (rule card_mono [rotated]) simp
  moreover have "card (set (slab_free sl)) = kc_objects kc - ?p" using o by (simp add: distinct_card) (simp add: slab_free_def)
  ultimately have p: "1 \<le> ?p" using io(1) o by simp
  have dr: "drop (?p - 1) ((sl_ctl sl)[?p - 1 := Some i]) = Some i # drop ?p (sl_ctl sl)"
  proof -
    have "length (sl_ctl sl) = kc_objects kc" "?p \<le> kc_objects kc" using o by blast+
    then have "?p - 1 < length (sl_ctl sl)" using p by linarith
    then show ?thesis using p by (simp add: drop_update_swap Cons_nth_drop_Suc [symmetric])
  qed
  then have fr: "slab_free sl' = i # slab_free sl" by (simp add: slab_free_def sl'_def)
  have so': "slab_ok kc sl'" using o p dr fr io by (auto simp: slab_ok_def sl'_def slab_placed_def)
  define kc' where "kc' = with_slab kc xs sl' ys (kc_used_objects kc - 1)"
  have sel: "sl_ptr sl' = sl_ptr sl" "sl_self sl' = sl_self sl" "sl_offset sl' = sl_offset sl" by (simp_all add: sl'_def)
  have "kc_used_objects kc - 1 = kc_used_objects kc + int (sl_position sl') - int ?p" using p by (simp add: sl'_def)
  note w = with_slab_ok [OF ok sls so' sel this, folded kc'_def]
  have tk: "slab_taken kc sl' = slab_taken kc sl - {i}" using fr by (auto simp: slab_taken_def)
  have "a \<notin> obj_at kc y ` slab_taken kc y" if "y \<in> set xs \<union> set ys" for y
  proof
    assume "a \<in> obj_at kc y ` slab_taken kc y"
    then obtain j where j: "j < kc_objects kc" "a = obj_at kc y j" by (auto simp: slab_taken_def)
    have "y \<in> set (kc_slabs kc)" "y \<noteq> sl" using that sls cache_distinct [OF ok] by auto
    then show False using objects_apart(2) [OF h ok sl _ io(1) j(1), of y] a j(2) by auto
  qed
  moreover have "obj_at kc sl ` (slab_taken kc sl - {i}) = obj_at kc sl ` slab_taken kc sl - {a}"
    using obj_at_inj [OF ld, of sl _ i] a by auto
  ultimately have al: "allocated kc' = allocated kc - {a}"
    using w(2) allocated_split [OF sls] tk by auto
  have q: "get_object_slab kc a = Some sl" "get_object_index kc sl a = Inr i"
    using get_object_slab_eq [OF h ok sl io(1)] get_object_index_eq [OF ld pl io(1)] a by simp_all
  have ps: "sub32 ?p 1 = ?p - 1" "?p - 1 < length (sl_ctl sl)" "s32 (kc_used_objects kc - 1) = kc_used_objects kc - 1"
  proof -
    have "?p \<le> sum_list (map sl_position (kc_slabs kc))" "kc_objects kc * 1 \<le> kc_objects kc * length (kc_slabs kc)"
      using sls by (simp, intro mult_le_mono2, simp)
    then show "sub32 ?p 1 = ?p - 1" "s32 (kc_used_objects kc - 1) = kc_used_objects kc - 1"
      using p used_le_total [OF ok] cache_okD(7,8) [OF ok] by simp_all
    have "length (sl_ctl sl) = kc_objects kc" "?p \<le> kc_objects kc" using o by blast+
    then show "?p - 1 < length (sl_ctl sl)" using p by linarith
  qed
  have chk: "(if kv_flag (kc_cflags kc) KV_RED_ZONE
      then bindR (redzone_left kc a) (\<lambda>l. assertR (km_mem s l = RED_ZONE_DATA) (
           bindR (redzone_right kc a) (\<lambda>r. assertR (km_mem s r = RED_ZONE_DATA) (Inr ())))) else Inr ()) = Inr ()"
    using zone_ptrs(1,2) [OF ld pl io(1)] z a by (simp add: zones_def)
  have rs: "replace_slab (sl\<lparr>sl_position := ?p - 1, sl_ctl := (sl_ctl sl)[?p - 1 := Some i]\<rparr>) (kc_slabs kc) = xs @ sl' # ys"
    using replace_slab_split [of xs sl ys sl'] cache_distinct [OF ok] sls by (simp add: sl'_def)
  have "kmem_cache_free (Some cp) (Some a) s = Inr (put_cache cp kc' s)"
    using c q chk ps rs by (simp add: kmem_cache_free_def get_cache_def kc'_def with_slab_def)
  moreover have "same_layout kc kc'" by (simp add: kc'_def with_slab_def same_layout_def)
  ultimately show ?thesis using al w(1,3) by blast
qed

end

section \<open>Growing a cache\<close>

lemma heap_sub_simps:
  "kmalloc (heap_sub sub) n s = bindR (kmalloc sub n (km_heap s)) (\<lambda>(r, h). Inr (r, s\<lparr>km_heap := h\<rparr>))"
  "kfree (heap_sub sub) p s = bindR (kfree sub p (km_heap s)) (\<lambda>h. Inr (s\<lparr>km_heap := h\<rparr>))"
  by (simp_all add: heap_sub_def kmalloc_def kfree_def)

text \<open>The blocks of a new slab are new, and nothing else changes in the heap.\<close>

definition blocks_added :: "(nat \<Rightarrow> nat option) \<Rightarrow> (nat \<times> nat) list \<Rightarrow> (nat \<Rightarrow> nat option) \<Rightarrow> bool" where
  "blocks_added lv bs lv' \<longleftrightarrow>
     distinct (map fst bs) \<and> (\<forall>b \<in> set bs. lv (fst b) = None \<and> lv' (fst b) = Some (snd b))
     \<and> (\<forall>p. p \<notin> fst ` set bs \<longrightarrow> lv' p = lv p)"

lemma cache_ok_grown:
  assumes ok: "cache_ok lv cp kc" and so: "slab_ok kc sl" "slab_shape kc sl" "sl_position sl = 0"
    and bl: "blocks_added lv (slab_blocks kc sl) lv'" and mx: "kc_objects kc * (length (kc_slabs kc) + 1) < 2147483648"
  shows "cache_ok lv' cp (kc\<lparr>kc_total_objects := kc_total_objects kc + int (kc_objects kc), kc_slabs := sl # kc_slabs kc\<rparr>)"
    (is "cache_ok lv' cp ?kc")
proof -
  have "same_layout kc ?kc" by (simp add: same_layout_def)
  note e = same_layout_eqs [OF this]
  note bl = bl [unfolded blocks_added_def]
  have old: "p \<notin> fst ` set (slab_blocks kc sl)" if "lv p \<noteq> None" for p using bl that by auto
  have keep: "lv' p = lv p" if "lv p \<noteq> None" for p using bl old [OF that] by blast
  have o: "lv (fst b) = Some (snd b)" if "b \<in> set (cache_blocks kc (kc_slabs kc))" for b by (rule cache_okD(4) [OF ok that])
  have "cp \<notin> fst ` set (slab_blocks kc sl)" by (rule old) (simp add: cache_okD(2) [OF ok])
  moreover have "fst ` set (slab_blocks kc sl) \<inter> fst ` set (cache_blocks kc (kc_slabs kc)) = {}" using o old by force
  ultimately have d: "distinct (cp # map fst (cache_blocks kc (sl # kc_slabs kc)))"
    using cache_okD(5) [OF ok] bl by (auto simp: cache_blocks_def)
  have b: "lv' (fst b) = Some (snd b)" if "b \<in> set (cache_blocks kc (sl # kc_slabs kc))" for b
  proof -
    from that consider "b \<in> set (slab_blocks kc sl)" | "b \<in> set (cache_blocks kc (kc_slabs kc))" by (auto simp: cache_blocks_def)
    then show ?thesis using bl o keep by cases simp_all
  qed
  have "lv' cp = Some sizeof_kmem_cache" using cache_okD(2) [OF ok] keep by simp
  then show ?thesis
    unfolding cache_ok_def e using d b so cache_okD(1,3,6,7) [OF ok] mx by (simp add: algebra_simps)
qed

lemma allocated_grown:
  "slab_taken kc sl = {} \<Longrightarrow> allocated (kc\<lparr>kc_total_objects := n, kc_slabs := sl # kc_slabs kc\<rparr>) = allocated kc"
proof -
  let ?kc = "kc\<lparr>kc_total_objects := n, kc_slabs := sl # kc_slabs kc\<rparr>"
  assume t: "slab_taken kc sl = {}"
  have "same_layout kc ?kc" by (simp add: same_layout_def)
  from same_layout_eqs [OF this] t show ?thesis unfolding allocated_def by simp
qed

context addressed_heap
begin

lemma new_slab_ok:
  assumes h: "heap_ok (km_heap s)" and c: "km_caches s cp = Some kc" and ld: "cache_laid kc"
    and fl: "kv_flag kmflag KV_OFF_SLAB = kv_flag (kc_cflags kc) KV_OFF_SLAB"
  obtains (none) h' where "kmem_new_slab (heap_sub subsystem) cp kmflag s = Inr (None, s\<lparr>km_heap := h'\<rparr>)" "heap_ok h'"
      "live h' = live (km_heap s)"
  | (some) sl h' where "kmem_new_slab (heap_sub subsystem) cp kmflag s = Inr (Some sl, s\<lparr>km_heap := h'\<rparr>)" "heap_ok h'"
      "slab_placed kc sl" "slab_shape kc sl" "length (sl_ctl sl) = kc_objects kc"
      "blocks_added (live (km_heap s)) (slab_blocks kc sl) (live h')"
proof -
  let ?m = "man_space kc" and ?n = "kc_int_slabobj_size kc" and ?lv = "live (km_heap s)"
  note sp = slab_space_eq(2,3) [OF ld]
  have mr: "?m < MAX_REQUEST" "?n < MAX_REQUEST" "u32 (?m + ?n) = ?m + ?n" using sp(1) by (simp_all add: MAX_REQUEST_def)
  show thesis
  proof (cases "kv_flag (kc_cflags kc) KV_OFF_SLAB")
    case False
    show thesis
    proof (cases rule: malloc_cases [OF h sp(1)])
      case (1 h')
      with False fl c mr(3) show thesis by (intro none [of h']) (simp_all add: kmem_new_slab_def get_cache_def heap_sub_simps)
    next
      case (2 p h')
      then have lb: "0 < p" "p + (?m + ?n) < 4294967296" using live_bound [of h' p "?m + ?n"] by simp_all
      define sl where "sl = fresh_slab kc p (p + ?m)"
      have "u32 (p + sizeof_kmem_slab + kc_objects kc * sizeof_kmem_ctl) = p + ?m"
        using lb sp(2) by (simp add: sizeof_kmem_slab_def sizeof_kmem_ctl_def)
      then have "kmem_new_slab (heap_sub subsystem) cp kmflag s = Inr (Some sl, s\<lparr>km_heap := h'\<rparr>)"
        using 2(1) False fl c mr(3) by (simp add: kmem_new_slab_def get_cache_def heap_sub_simps sl_def)
      moreover have "slab_placed kc sl" "slab_shape kc sl" "length (sl_ctl sl) = kc_objects kc"
        using lb by (simp_all add: slab_placed_def slab_shape_def sl_def fresh_slab_def)
      moreover have "blocks_added ?lv (slab_blocks kc sl) (live h')"
        using 2(5,6) False by (simp add: blocks_added_def slab_blocks_def sl_def fresh_slab_def)
      ultimately show thesis using some 2(2) by blast
    qed
  next
    case True
    show thesis
    proof (cases rule: malloc_cases [OF h mr(1)])
      case (1 h')
      with True fl c show thesis by (intro none [of h']) (simp_all add: kmem_new_slab_def get_cache_def heap_sub_simps)
    next
      case p: (2 p h1)
      show thesis
      proof (cases rule: malloc_cases [OF p(2) mr(2)])
        case (1 h2)
        then have "live h2 p = Some ?m" using p(6) by simp
        from free_live [OF 1(2) this] obtain h3 where h3: "kfree subsystem (Some p) h2 = Inr h3" "heap_ok h3"
          "live h3 = (live h2)(p := None)" by blast
        have "live h3 = ?lv" using h3(3) 1(3) p(5,6) by auto
        with True fl c p(1) 1(1) h3 show thesis by (intro none [of h3]) (simp_all add: kmem_new_slab_def get_cache_def heap_sub_simps)
      next
        case q: (2 q h2)
        have lb: "0 < q" "q + ?n < 4294967296" using live_bound [OF q(2), of q ?n] q(6) by simp_all
        define sl where "sl = fresh_slab kc p q"
        have "kmem_new_slab (heap_sub subsystem) cp kmflag s = Inr (Some sl, s\<lparr>km_heap := h2\<rparr>)"
          using p(1) q(1) True fl c by (simp add: kmem_new_slab_def get_cache_def heap_sub_simps sl_def)
        moreover have "slab_placed kc sl" "slab_shape kc sl" "length (sl_ctl sl) = kc_objects kc"
          using lb True by (simp_all add: slab_placed_def slab_shape_def sl_def fresh_slab_def)
        moreover have "blocks_added ?lv (slab_blocks kc sl) (live h2)"
          using p(5,6) q(5,6) True by (auto simp: blocks_added_def slab_blocks_def sl_def fresh_slab_def split: if_splits)
        ultimately show thesis using some q(2) by blast
      qed
    qed
  qed
qed

text \<open>The state after the cache got one more slab, or did not.\<close>

lemma cache_grow_ok:
  assumes h: "heap_ok (km_heap s)" and c: "km_caches s cp = Some kc" and ok: "cache_ok (live (km_heap s)) cp kc"
    and z: "zones_ok (km_mem s) cp kc" and b: "behaved code kc"
    and fl: "kv_flag kmflag KV_OFF_SLAB = kv_flag (kc_cflags kc) KV_OFF_SLAB"
    and mx: "kc_objects kc * (length (kc_slabs kc) + 1) < 2147483648"
  obtains (none) h' where "kmem_cache_grow code (heap_sub subsystem) cp kmflag s = Inr (None, s\<lparr>km_heap := h'\<rparr>)" "heap_ok h'"
      "live h' = live (km_heap s)"
  | (some) sl s' kc' where "kmem_cache_grow code (heap_sub subsystem) cp kmflag s = Inr (Some sl, s')" "heap_ok (km_heap s')"
      "km_caches s' = (km_caches s)(cp \<mapsto> kc')" "kc_slabs kc' = sl # kc_slabs kc" "sl_position sl = 0"
      "cache_ok (live (km_heap s')) cp kc'" "zones_ok (km_mem s') cp kc'" "allocated kc' = allocated kc" "same_layout kc kc'"
      "blocks_added (live (km_heap s)) (slab_blocks kc sl) (live (km_heap s'))"
proof (cases rule: new_slab_ok [OF h c cache_okD(1) [OF ok] fl])
  case (1 h')
  then show thesis using none by (simp add: kmem_cache_grow_def)
next
  case (2 sl0 h')
  note ld = cache_okD(1) [OF ok]
  let ?s = "s\<lparr>km_heap := h'\<rparr>" and ?n = "kc_objects kc"
  have "km_caches ?s cp = Some kc" "0 + ?n = ?n" using c by simp_all
  from init_objects_ok [OF this(1) b ld 2(3) this(2) 2(5), of kmflag] obtain m where m:
    "init_objects code cp kmflag 0 ?n sl0 ?s = Inr (sl0\<lparr>sl_ctl := map Some [0..<?n]\<rparr>, ?s\<lparr>km_mem := m\<rparr>)"
    "\<forall>x. x \<notin> area kc sl0 \<longrightarrow> m x = km_mem s x" "\<forall>j < ?n. zones m cp kc (obj_at kc sl0 j)" by auto
  define sl where "sl = sl0\<lparr>sl_ctl := map Some [0..<?n], sl_position := 0\<rparr>"
  define kc' where "kc' = kc\<lparr>kc_total_objects := kc_total_objects kc + int ?n, kc_slabs := sl # kc_slabs kc\<rparr>"
  have so: "slab_ok kc sl" "slab_shape kc sl" "sl_position sl = 0" "slab_blocks kc sl = slab_blocks kc sl0" "slab_taken kc sl = {}"
    using 2(3-5) by (auto simp: slab_ok_def sl_def slab_free_def comp_def slab_placed_def slab_shape_def slab_blocks_def slab_taken_def)
  have ok': "cache_ok (live h') cp kc'"
    unfolding kc'_def by (rule cache_ok_grown [OF ok so(1-3) _ mx]) (simp add: so(4) 2(6))
  have "s32 (kc_total_objects kc + int ?n) = kc_total_objects kc + int ?n"
  proof -
    have "kc_total_objects kc + int ?n = int (?n * (length (kc_slabs kc) + 1))" using cache_okD(6) [OF ok] by simp
    moreover have "s32 (int k) = int k" if "k < 2147483648" for k using that by simp
    ultimately show ?thesis using mx by (simp only:)
  qed
  moreover define s' where "s' = ?s\<lparr>km_mem := m, km_caches := (km_caches s)(cp \<mapsto> kc')\<rparr>"
  ultimately have "kmem_cache_grow code (heap_sub subsystem) cp kmflag s = Inr (Some sl, s')"
    using 2(1) c m(1) by (simp add: kmem_cache_grow_def kmem_init_slab_def get_cache_def put_cache_def sl_def kc'_def)
  moreover have "same_layout kc kc'" by (simp add: same_layout_def kc'_def)
  moreover note e = same_layout_eqs [OF this]
  have "zones m cp kc (obj_at kc z i)" if zi: "z \<in> set (kc_slabs kc')" "i < ?n" for z i
  proof (cases "z = sl")
    case True
    then show ?thesis using m(3) zi(2) by (simp add: sl_def)
  next
    case False
    then have zs: "z \<in> set (kc_slabs kc)" using zi(1) by (simp add: kc'_def)
    have "area kc' z \<inter> area kc' sl = {}" using False zi(1) by (intro slabs_apart [OF 2(2) ok']) (simp_all add: kc'_def)
    then have "area kc z \<inter> area kc sl0 = {}" by (simp add: area_def kc'_def sl_def)
    moreover have "slab_placed kc z" using cache_okD(3) [OF ok zs] by (simp add: slab_ok_def)
    ultimately have "\<forall>x \<in> obj_extent kc (obj_at kc z i). m x = km_mem s x"
      using obj_in_area(2) [OF ld _ zi(2)] m(2) by blast
    from zones_cong [OF ld \<open>slab_placed kc z\<close> zi(2) this] z zs zi(2) show ?thesis by (simp add: zones_ok_def)
  qed
  then have "zones_ok m cp kc'" unfolding zones_ok_def e by (simp add: kc'_def)
  moreover have "allocated kc' = allocated kc" unfolding kc'_def by (rule allocated_grown [OF so(5)])
  ultimately show thesis using some [of sl s' kc'] 2(2,6) ok' so by (simp add: s'_def kc'_def)
qed

text \<open>An allocation: the first slab has an object, another one has, or the cache grows.\<close>

definition alloc_post :: "nat \<Rightarrow> kmem_cache \<Rightarrow> 'h kmem \<Rightarrow> nat option \<Rightarrow> 'h kmem \<Rightarrow> bool" where
  "alloc_post cp kc s r s' \<longleftrightarrow>
     (\<exists>kc'. heap_ok (km_heap s') \<and> km_caches s' = (km_caches s)(cp \<mapsto> kc') \<and> cache_ok (live (km_heap s')) cp kc'
       \<and> zones_ok (km_mem s') cp kc' \<and> same_layout kc kc'
       \<and> (\<forall>p. live (km_heap s) p \<noteq> None \<longrightarrow> live (km_heap s') p = live (km_heap s) p)
       \<and> (case r of
            None \<Rightarrow> allocated kc' = allocated kc \<and> kc_used_objects kc = kc_total_objects kc
          | Some a \<Rightarrow> a \<notin> allocated kc \<and> allocated kc' = insert a (allocated kc)))"

lemma alloc_first:
  assumes h: "heap_ok (km_heap s)" and c: "km_caches s cp = Some kc" and ok: "cache_ok (live (km_heap s)) cp kc"
    and z: "zones_ok (km_mem s) cp kc" and sls: "kc_slabs kc = sl # rest" "sl_position sl \<noteq> kc_objects kc"
  shows "\<exists>a s'. kmem_cache_alloc (Suc fuel) code sub cp kmflag s = Inr (Some a, s') \<and> alloc_post cp kc s (Some a) s'"
proof -
  from take_object_ok [OF h ok sls, of s] obtain a kc' where t: "take_object cp kc sl rest s = Inr (Some a, put_cache cp kc' s)"
    "a \<notin> allocated kc" "allocated kc' = insert a (allocated kc)" "cache_ok (live (km_heap s)) cp kc'"
    "\<forall>m. zones_ok m cp kc \<longrightarrow> zones_ok m cp kc'" "same_layout kc kc'" by (elim exE conjE)
  have "alloc_post cp kc s (Some a) (put_cache cp kc' s)"
    unfolding alloc_post_def by (rule exI [of _ kc']) (use h z t(2-6) in \<open>simp add: put_cache_def\<close>)
  moreover have "kmem_cache_alloc (Suc fuel) code sub cp kmflag s = Inr (Some a, put_cache cp kc' s)"
    using c sls t(1) by (simp add: get_cache_def)
  ultimately show ?thesis by blast
qed

lemma alloc_ok:
  assumes h: "heap_ok (km_heap s)" and c: "km_caches s cp = Some kc" and ok: "cache_ok (live (km_heap s)) cp kc"
    and z: "zones_ok (km_mem s) cp kc" and b: "behaved code kc" and rc: "kc_reclaim kc = None"
    and fl: "kv_flag kmflag KV_OFF_SLAB = kv_flag (kc_cflags kc) KV_OFF_SLAB"
    and mx: "kc_objects kc * (length (kc_slabs kc) + 1) < 2147483648" and fuel: "2 \<le> fuel"
  shows "\<exists>r s'. kmem_cache_alloc fuel code (heap_sub subsystem) cp kmflag s = Inr (r, s') \<and> alloc_post cp kc s r s'"
proof -
  from fuel obtain k where k: "fuel = Suc (Suc k)" by (metis Suc_le_D numeral_2_eq_2 Suc_le_mono)
  show ?thesis
  proof (cases "kc_slabs kc \<noteq> [] \<and> sl_position (hd (kc_slabs kc)) \<noteq> kc_objects kc")
    case True
    then obtain sl rest where "kc_slabs kc = sl # rest" "sl_position sl \<noteq> kc_objects kc" by (cases "kc_slabs kc") auto
    from alloc_first [OF h c ok z this] k show ?thesis by blast
  next
    case full: False
    show ?thesis
    proof (cases "kc_total_objects kc = kc_used_objects kc")
      case False
      from bring_front_ok [OF ok _ False] full obtain sl sls where f: "bring_front kc = Inr (sl # sls)"
        "mset (sl # sls) = mset (kc_slabs kc)" "sl_position sl \<noteq> kc_objects kc" by blast
      define kc1 where "kc1 = kc\<lparr>kc_slabs := sl # sls\<rparr>"
      note pm = cache_ok_perm [OF ok f(2), folded kc1_def]
      have s1: "heap_ok (km_heap (put_cache cp kc1 s))" "km_caches (put_cache cp kc1 s) cp = Some kc1"
        "cache_ok (live (km_heap (put_cache cp kc1 s))) cp kc1" "zones_ok (km_mem (put_cache cp kc1 s)) cp kc1"
        "kc_slabs kc1 = sl # sls" "sl_position sl \<noteq> kc_objects kc1"
        using h pm(1,3) z f(3) by (simp_all add: put_cache_def kc1_def)
      from alloc_first [OF s1] obtain a s' where a:
        "kmem_cache_alloc (Suc k) code (heap_sub subsystem) cp kmflag (put_cache cp kc1 s) = Inr (Some a, s')"
        "alloc_post cp kc1 (put_cache cp kc1 s) (Some a) s'" by blast
      have "kmem_cache_alloc fuel code (heap_sub subsystem) cp kmflag s = Inr (Some a, s')"
        using a(1) k full False c f(1) by (auto simp: get_cache_def kc1_def)
      moreover have "alloc_post cp kc s (Some a) s'"
        using a(2) pm(2) by (auto simp: alloc_post_def put_cache_def kc1_def same_layout_def)
      ultimately show ?thesis by blast
    next
      case True
      show ?thesis
      proof (cases "kv_flag (kc_cflags kc) KV_NOGROW")
        case ng: True
        have "alloc_post cp kc s None s" unfolding alloc_post_def
          by (rule exI [of _ kc]) (use h c ok z True in \<open>auto simp: same_layout_def\<close>)
        moreover have "kmem_cache_alloc fuel code (heap_sub subsystem) cp kmflag s = Inr (None, s)"
          using k c full True ng by (auto simp: get_cache_def)
        ultimately show ?thesis by blast
      next
        case ng: False
        show ?thesis
        proof (cases rule: cache_grow_ok [OF h c ok z b fl mx])
          case (1 h')
          have "alloc_post cp kc s None (s\<lparr>km_heap := h'\<rparr>)" unfolding alloc_post_def
            by (rule exI [of _ kc]) (use 1 c ok z True in \<open>auto simp: same_layout_def\<close>)
          moreover have "kmem_cache_alloc fuel code (heap_sub subsystem) cp kmflag s = Inr (None, s\<lparr>km_heap := h'\<rparr>)"
            using k c full True ng 1(1) rc by (auto simp: get_cache_def)
          ultimately show ?thesis by blast
        next
          case (2 sl s1 kc1)
          have pos: "sl_position sl \<noteq> kc_objects kc1"
            using 2(5,9) cache_laidD(1) [OF cache_okD(1) [OF ok]] by (simp add: same_layout_def)
          have "km_caches s1 cp = Some kc1" using 2(3) by simp
          from alloc_first [OF 2(2) this 2(6,7,4) pos] obtain a s' where a:
            "kmem_cache_alloc (Suc k) code (heap_sub subsystem) cp kmflag s1 = Inr (Some a, s')" "alloc_post cp kc1 s1 (Some a) s'" by blast
          have "kmem_cache_alloc fuel code (heap_sub subsystem) cp kmflag s = Inr (Some a, s')"
            using a(1) k c full True ng 2(1) by (auto simp: get_cache_def)
          moreover have "live (km_heap s1) p = live (km_heap s) p" if "live (km_heap s) p \<noteq> None" for p
            using 2(10) that unfolding blocks_added_def by (metis (no_types, lifting) image_iff)
          then have "alloc_post cp kc s (Some a) s'"
            using a(2) 2(3,8,9) unfolding alloc_post_def by (auto simp: same_layout_def)
          ultimately show ?thesis by blast
        qed
      qed
    qed
  qed
qed

end

section \<open>Giving slabs back\<close>

lemma destroy_objects_ok:
  assumes "km_caches s cp = Some kc" and b: "behaved code kc" "kc_destructor kc = Some f" and ld: "cache_laid kc"
    and pl: "slab_placed kc sl" and "i + k = kc_objects kc"
  shows "\<exists>m. destroy_objects code f cp i k sl s = Inr (s\<lparr>km_mem := m\<rparr>) \<and> (\<forall>x. x \<notin> area kc sl \<longrightarrow> m x = km_mem s x)"
  using assms(1,6)
proof (induction k arbitrary: i s)
  case 0
  then show ?case by (intro exI [of _ "km_mem s"]) simp
next
  case (Suc k)
  have i: "i < kc_objects kc" using Suc.prems(2) by simp
  let ?a = "obj_at kc sl i"
  from b obtain m1 where m1: "destructor_at code f ?a (kc_token kc) s = Inr (s\<lparr>km_mem := m1\<rparr>)"
    "\<forall>x. x \<notin> bytes ?a (kc_size kc) \<longrightarrow> m1 x = km_mem s x" unfolding behaved_def by blast
  have "bytes ?a (kc_size kc) \<subseteq> obj_extent kc ?a" using obj_bounds(1) [OF ld pl i] by (auto simp: obj_extent_def bytes_def)
  then have sub: "bytes ?a (kc_size kc) \<subseteq> area kc sl" using obj_in_area(2) [OF ld pl i] by blast
  have "km_caches (s\<lparr>km_mem := m1\<rparr>) cp = Some kc" "Suc i + k = kc_objects kc" using Suc.prems by simp_all
  from Suc.IH [OF this] obtain m where m: "destroy_objects code f cp (Suc i) k sl (s\<lparr>km_mem := m1\<rparr>) = Inr (s\<lparr>km_mem := m1, km_mem := m\<rparr>)"
    "\<forall>x. x \<notin> area kc sl \<longrightarrow> m x = km_mem (s\<lparr>km_mem := m1\<rparr>) x" by (elim exE conjE)
  have "destroy_objects code f cp i (Suc k) sl s = Inr (s\<lparr>km_mem := m\<rparr>)"
    using Suc.prems(1) get_object_ptr_eq [OF ld pl i] m1(1) m(1) by (simp add: get_cache_def)
  moreover have "m x = km_mem s x" if "x \<notin> area kc sl" for x using that m(2) m1(2) sub by auto
  ultimately show ?case by blast
qed

lemma cache_ok_shrunk:
  assumes ok: "cache_ok lv cp kc" and sls: "kc_slabs kc = pre @ sl # sls" and p: "sl_position sl = 0"
  shows "cache_ok (lv |` (- (fst ` set (slab_blocks kc sl)))) cp
      (kc\<lparr>kc_slabs := pre @ sls, kc_total_objects := kc_total_objects kc - int (kc_objects kc)\<rparr>)" (is "cache_ok ?lv cp ?kc")
    and "allocated (kc\<lparr>kc_slabs := pre @ sls, kc_total_objects := kc_total_objects kc - int (kc_objects kc)\<rparr>) = allocated kc"
proof -
  have "same_layout kc ?kc" by (simp add: same_layout_def)
  note e = same_layout_eqs [OF this]
  let ?B = "fst ` set (slab_blocks kc sl)"
  have cb: "cache_blocks kc (kc_slabs kc) = cache_blocks kc pre @ slab_blocks kc sl @ cache_blocks kc sls"
    using sls by (simp add: cache_blocks_def)
  have d: "distinct (map fst (cache_blocks kc pre @ slab_blocks kc sl @ cache_blocks kc sls))"
    "cp \<notin> set (map fst (cache_blocks kc pre @ slab_blocks kc sl @ cache_blocks kc sls))"
    using cache_okD(5) [OF ok] unfolding cb by simp_all
  have cp': "cache_blocks kc (pre @ sls) = cache_blocks kc pre @ cache_blocks kc sls" by (simp add: cache_blocks_def)
  have "?lv (fst b) = Some (snd b)" if b: "b \<in> set (cache_blocks kc (pre @ sls))" for b
  proof -
    have "lv (fst b) = Some (snd b)" using b by (intro cache_okD(4) [OF ok]) (auto simp: cb cp')
    moreover have "fst b \<in> set (map fst (cache_blocks kc pre @ cache_blocks kc sls))" using b by (auto simp: cp')
    then have "fst b \<notin> ?B" using d(1) unfolding set_map [symmetric] by (simp only: map_append distinct_append set_append) blast
    ultimately show ?thesis by simp
  qed
  moreover have "distinct (cp # map fst (cache_blocks kc (pre @ sls)))"
    using d unfolding cp' by (simp only: map_append distinct_append set_append distinct.simps) blast
  moreover have "?lv cp = Some sizeof_kmem_cache" using cache_okD(2) [OF ok] d(2) by (simp add: image_iff)
  moreover have "kc_total_objects kc - int (kc_objects kc) = int (kc_objects kc * length (pre @ sls))"
    "kc_objects kc * length (pre @ sls) < 2147483648" "kc_used_objects kc = int (sum_list (map sl_position (pre @ sls)))"
    using cache_okD(6-8) [OF ok] sls p by (simp_all add: algebra_simps)
  moreover have "\<forall>z \<in> set (pre @ sls). slab_ok kc z \<and> slab_shape kc z" using cache_okD(3) [OF ok] sls by auto
  ultimately show "cache_ok ?lv cp ?kc"
    unfolding cache_ok_def e using cache_okD(1) [OF ok] by (simp add: e)
  have so: "slab_ok kc sl" using cache_okD(3) [OF ok] sls by simp
  then have l: "length (slab_free sl) = kc_objects kc" "distinct (slab_free sl)" "set (slab_free sl) \<subseteq> {..<kc_objects kc}"
    using p by (auto simp: slab_ok_def slab_free_def)
  then have "card (set (slab_free sl)) = kc_objects kc" by (simp add: distinct_card)
  with l(3) have "set (slab_free sl) = {..<kc_objects kc}" by (intro card_subset_eq) simp_all
  then have "slab_taken kc sl = {}" by (simp add: slab_taken_def)
  moreover have "allocated ?kc = (\<Union>z \<in> set pre \<union> set sls. obj_at kc z ` slab_taken kc z)" unfolding allocated_def e by simp
  ultimately show "allocated ?kc = allocated kc" using allocated_split [OF sls] by simp
qed

context addressed_heap
begin

lemma free_block_ok:
  assumes "heap_ok (km_heap s)" and "live (km_heap s) p \<noteq> None"
  obtains h where "kfree (heap_sub subsystem) (Some p) s = Inr (s\<lparr>km_heap := h\<rparr>)" "heap_ok h" "live h = (live (km_heap s))(p := None)"
proof -
  from assms(2) obtain n where "live (km_heap s) p = Some n" by blast
  from free_live [OF assms(1) this] that show thesis by (auto simp: heap_sub_simps)
qed

lemma destroy_slab_ok:
  assumes h: "heap_ok (km_heap s)" and c: "km_caches s cp = Some kc" and b: "behaved code kc" and ld: "cache_laid kc"
    and pl: "slab_placed kc sl" and lv: "\<forall>b \<in> set (slab_blocks kc sl). live (km_heap s) (fst b) \<noteq> None"
    and d: "distinct (map fst (slab_blocks kc sl))" and t: "kc_total_objects kc = int n" "n < 2147483648" "kc_objects kc \<le> n"
  shows "\<exists>h' m. kmem_destroy_slab code (heap_sub subsystem) cp sl s
      = Inr (s\<lparr>km_heap := h', km_mem := m,
              km_caches := (km_caches s)(cp \<mapsto> kc\<lparr>kc_total_objects := kc_total_objects kc - int (kc_objects kc)\<rparr>)\<rparr>)
    \<and> heap_ok h' \<and> live h' = live (km_heap s) |` (- (fst ` set (slab_blocks kc sl))) \<and> (\<forall>x. x \<notin> area kc sl \<longrightarrow> m x = km_mem s x)"
proof -
  let ?OFF = "kv_flag (kc_cflags kc) KV_OFF_SLAB"
  obtain m where m: "(case kc_destructor kc of None \<Rightarrow> Inr s | Some f \<Rightarrow> destroy_objects code f cp 0 (kc_objects kc) sl s)
      = Inr (s\<lparr>km_mem := m\<rparr>)" "\<forall>x. x \<notin> area kc sl \<longrightarrow> m x = km_mem s x"
  proof (cases "kc_destructor kc")
    case None
    then show ?thesis using that [of "km_mem s"] by simp
  next
    case (Some f)
    have "0 + kc_objects kc = kc_objects kc" by simp
    from destroy_objects_ok [OF c b Some ld pl this] obtain m where
      "destroy_objects code f cp 0 (kc_objects kc) sl s = Inr (s\<lparr>km_mem := m\<rparr>)" "\<forall>x. x \<notin> area kc sl \<longrightarrow> m x = km_mem s x" by blast
    then show ?thesis using that [of m] Some by simp
  qed
  let ?s1 = "s\<lparr>km_mem := m\<rparr>"
  have p0: "ptr_of (sl_ptr sl) = Some (sl_ptr sl)" using pl by (simp add: slab_placed_def)
  obtain h' where f: "(if ?OFF then bindR (kfree (heap_sub subsystem) (ptr_of (sl_ptr sl)) ?s1) (\<lambda>s2. kfree (heap_sub subsystem) (Some (sl_self sl)) s2)
      else kfree (heap_sub subsystem) (Some (sl_self sl)) ?s1) = Inr (?s1\<lparr>km_heap := h'\<rparr>)" "heap_ok h'"
      "live h' = live (km_heap s) |` (- (fst ` set (slab_blocks kc sl)))"
  proof (cases ?OFF)
    case True
    then have l: "live (km_heap ?s1) (sl_ptr sl) \<noteq> None" "live (km_heap ?s1) (sl_self sl) \<noteq> None" "sl_self sl \<noteq> sl_ptr sl"
      using lv d by (simp_all add: slab_blocks_def)
    have h1: "heap_ok (km_heap ?s1)" using h by simp
    from free_block_ok [OF h1 l(1)] obtain h1 where h1: "kfree (heap_sub subsystem) (Some (sl_ptr sl)) ?s1 = Inr (?s1\<lparr>km_heap := h1\<rparr>)"
      "heap_ok h1" "live h1 = (live (km_heap ?s1))(sl_ptr sl := None)" .
    from free_block_ok [of "?s1\<lparr>km_heap := h1\<rparr>" "sl_self sl"] h1 l obtain h2 where
      "kfree (heap_sub subsystem) (Some (sl_self sl)) (?s1\<lparr>km_heap := h1\<rparr>) = Inr (?s1\<lparr>km_heap := h1\<rparr>\<lparr>km_heap := h2\<rparr>)"
      "heap_ok h2" "live h2 = (live h1)(sl_self sl := None)" by auto
    then show ?thesis using that [of h2] h1 True p0 by (auto simp: slab_blocks_def restrict_map_def fun_eq_iff)
  next
    case False
    then have l: "live (km_heap ?s1) (sl_self sl) \<noteq> None" using lv by (simp add: slab_blocks_def)
    have h1: "heap_ok (km_heap ?s1)" using h by simp
    from free_block_ok [OF h1 l] obtain h1 where h1: "kfree (heap_sub subsystem) (Some (sl_self sl)) ?s1 = Inr (?s1\<lparr>km_heap := h1\<rparr>)"
      "heap_ok h1" "live h1 = (live (km_heap ?s1))(sl_self sl := None)" .
    then show ?thesis using that [of h1] False by (auto simp: slab_blocks_def restrict_map_def fun_eq_iff)
  qed
  have "s32 (kc_total_objects kc - int (kc_objects kc)) = kc_total_objects kc - int (kc_objects kc)" using t by simp
  then have "kmem_destroy_slab code (heap_sub subsystem) cp sl s
      = Inr (s\<lparr>km_heap := h', km_mem := m,
              km_caches := (km_caches s)(cp \<mapsto> kc\<lparr>kc_total_objects := kc_total_objects kc - int (kc_objects kc)\<rparr>)\<rparr>)"
    using c m(1) f(1) by (simp add: kmem_destroy_slab_def get_cache_def put_cache_def)
  with f(2,3) m(2) show ?thesis by blast
qed

lemma behaved_total [simp]:
  "behaved code (kc\<lparr>kc_total_objects := n\<rparr>) = behaved code kc" "behaved code (kc\<lparr>kc_slabs := xs\<rparr>) = behaved code kc"
  by (simp_all add: behaved_def)

lemma destroy_slabs_ok:
  assumes "heap_ok (km_heap s)" and "km_caches s cp = Some kc" and "behaved code kc" and "cache_laid kc"
    and "\<forall>sl \<in> set sls. slab_placed kc sl" and "\<forall>b \<in> set (cache_blocks kc sls). live (km_heap s) (fst b) \<noteq> None"
    and "distinct (map fst (cache_blocks kc sls))" and "kc_total_objects kc = int (kc_objects kc * length sls)"
    and "kc_objects kc * length sls < 2147483648"
  shows "\<exists>s' kc'. destroy_slabs code (heap_sub subsystem) cp sls s = Inr s' \<and> heap_ok (km_heap s')
    \<and> km_caches s' = (km_caches s)(cp \<mapsto> kc')
    \<and> live (km_heap s') = live (km_heap s) |` (- (fst ` set (cache_blocks kc sls)))"
  using assms
proof (induction sls arbitrary: s kc)
  case Nil
  then show ?case by (intro exI [of _ s] exI [of _ kc]) (auto simp: cache_blocks_def)
next
  case (Cons sl sls)
  have cb: "cache_blocks kc (sl # sls) = slab_blocks kc sl @ cache_blocks kc sls" by (simp add: cache_blocks_def)
  have pl: "slab_placed kc sl" using Cons.prems(5) by simp
  have lv: "\<forall>b \<in> set (slab_blocks kc sl). live (km_heap s) (fst b) \<noteq> None" using Cons.prems(6) unfolding cb by simp
  have d: "distinct (map fst (slab_blocks kc sl))" using Cons.prems(7) unfolding cb by simp
  have le: "kc_objects kc \<le> kc_objects kc * length (sl # sls)" by simp
  from destroy_slab_ok [OF Cons.prems(1-4) pl lv d Cons.prems(8,9) le] obtain h1 m where
    ds: "kmem_destroy_slab code (heap_sub subsystem) cp sl s
      = Inr (s\<lparr>km_heap := h1, km_mem := m,
              km_caches := (km_caches s)(cp \<mapsto> kc\<lparr>kc_total_objects := kc_total_objects kc - int (kc_objects kc)\<rparr>)\<rparr>)"
    "heap_ok h1" "live h1 = live (km_heap s) |` (- (fst ` set (slab_blocks kc sl)))" by blast
  define kc1 where "kc1 = kc\<lparr>kc_total_objects := kc_total_objects kc - int (kc_objects kc)\<rparr>"
  define s1 where "s1 = s\<lparr>km_heap := h1, km_mem := m, km_caches := (km_caches s)(cp \<mapsto> kc1)\<rparr>"
  have "same_layout kc kc1" by (simp add: same_layout_def kc1_def)
  note e = same_layout_eqs [OF this]
  have o: "kc_objects kc1 = kc_objects kc" by (simp add: kc1_def)
  have "live h1 (fst b) \<noteq> None" if b: "b \<in> set (cache_blocks kc sls)" for b
  proof -
    have "fst b \<in> set (map fst (cache_blocks kc sls))" using b by auto
    then have "fst b \<notin> fst ` set (slab_blocks kc sl)"
      using Cons.prems(7) unfolding cb set_map [symmetric] by (simp only: map_append distinct_append) blast
    moreover have "live (km_heap s) (fst b) \<noteq> None" using Cons.prems(6) b unfolding cb by simp
    ultimately show ?thesis using ds(3) by simp
  qed
  then have pre: "heap_ok (km_heap s1)" "km_caches s1 cp = Some kc1" "behaved code kc1" "cache_laid kc1"
    "\<forall>sl \<in> set sls. slab_placed kc1 sl" "\<forall>b \<in> set (cache_blocks kc1 sls). live (km_heap s1) (fst b) \<noteq> None"
    "distinct (map fst (cache_blocks kc1 sls))" "kc_total_objects kc1 = int (kc_objects kc1 * length sls)"
    "kc_objects kc1 * length sls < 2147483648"
    unfolding e o using ds(2) Cons.prems(3-5,7-9) cb by (simp_all add: s1_def kc1_def algebra_simps)
  from Cons.IH [OF pre] obtain s' kc' where s': "destroy_slabs code (heap_sub subsystem) cp sls s1 = Inr s'" "heap_ok (km_heap s')"
    "km_caches s' = (km_caches s1)(cp \<mapsto> kc')" "live (km_heap s') = live (km_heap s1) |` (- (fst ` set (cache_blocks kc1 sls)))"
    by (elim exE conjE)
  have "live (km_heap s') = live (km_heap s) |` (- (fst ` set (cache_blocks kc (sl # sls))))"
    using s'(4) ds(3) unfolding cb e by (auto simp: s1_def restrict_map_def fun_eq_iff)
  moreover have "destroy_slabs code (heap_sub subsystem) cp (sl # sls) s = Inr s'"
    using ds(1) s'(1) by (simp add: s1_def kc1_def)
  ultimately show ?case using s'(2,3) by (intro exI [of _ s'] exI [of _ kc']) (simp add: s1_def)
qed

lemma destroy_ok:
  assumes h: "heap_ok (km_heap s)" and c: "km_caches s cp = Some kc" and ok: "cache_ok (live (km_heap s)) cp kc" and b: "behaved code kc"
  shows "\<exists>s'. kmem_cache_destroy code (heap_sub subsystem) cp s = Inr s' \<and> heap_ok (km_heap s')
    \<and> km_caches s' = (km_caches s)(cp := None)
    \<and> live (km_heap s') = live (km_heap s) |` (- insert cp (fst ` set (cache_blocks kc (kc_slabs kc))))"
proof -
  have pl: "\<forall>sl \<in> set (kc_slabs kc). slab_placed kc sl" using cache_okD(3) [OF ok] by (auto simp: slab_ok_def)
  have lv: "\<forall>b \<in> set (cache_blocks kc (kc_slabs kc)). live (km_heap s) (fst b) \<noteq> None" using cache_okD(4) [OF ok] by auto
  have d: "distinct (map fst (cache_blocks kc (kc_slabs kc)))" "cp \<notin> fst ` set (cache_blocks kc (kc_slabs kc))"
    using cache_okD(5) [OF ok] by simp_all
  from destroy_slabs_ok [OF h c b cache_okD(1) [OF ok] pl lv d(1) cache_okD(6,8) [OF ok]] obtain s1 kc1 where
    s1: "destroy_slabs code (heap_sub subsystem) cp (kc_slabs kc) s = Inr s1" "heap_ok (km_heap s1)"
    "km_caches s1 = (km_caches s)(cp \<mapsto> kc1)" "live (km_heap s1) = live (km_heap s) |` (- (fst ` set (cache_blocks kc (kc_slabs kc))))"
    by (elim exE conjE)
  have "live (km_heap s1) cp \<noteq> None" using s1(4) d(2) cache_okD(2) [OF ok] by simp
  from free_block_ok [OF s1(2) this] obtain h where h: "kfree (heap_sub subsystem) (Some cp) s1 = Inr (s1\<lparr>km_heap := h\<rparr>)"
    "heap_ok h" "live h = (live (km_heap s1))(cp := None)" .
  have "live h = live (km_heap s) |` (- insert cp (fst ` set (cache_blocks kc (kc_slabs kc))))"
    using h(3) s1(4) by (auto simp: restrict_map_def fun_eq_iff)
  moreover have "kmem_cache_destroy code (heap_sub subsystem) cp s = Inr (s1\<lparr>km_heap := h, km_caches := (km_caches s)(cp := None)\<rparr>)"
    using c s1(1,3) h(1) by (simp add: kmem_cache_destroy_def get_cache_def)
  ultimately show ?thesis using h(2) by simp
qed

lemma shrink_loop_ok:
  assumes "heap_ok (km_heap s)" and "km_caches s cp = Some kc" and "cache_ok (live (km_heap s)) cp kc"
    and "zones_ok (km_mem s) cp kc" and "behaved code kc" and "kc_slabs kc = pre @ sls"
  shows "\<exists>s' kc'. shrink_loop code (heap_sub subsystem) cp sls s = Inr s' \<and> heap_ok (km_heap s')
    \<and> km_caches s' = (km_caches s)(cp \<mapsto> kc') \<and> cache_ok (live (km_heap s')) cp kc' \<and> zones_ok (km_mem s') cp kc'
    \<and> same_layout kc kc' \<and> allocated kc' = allocated kc \<and> kc_slabs kc' = pre @ filter (\<lambda>sl. sl_position sl \<noteq> 0) sls"
  using assms
proof (induction sls arbitrary: s kc pre)
  case Nil
  then show ?case by (intro exI [of _ s] exI [of _ kc]) (auto simp: same_layout_def)
next
  case (Cons sl sls)
  note ok = Cons.prems(3)
  show ?case
  proof (cases "sl_position sl = 0")
    case False
    have "kc_slabs kc = (pre @ [sl]) @ sls" using Cons.prems(6) by simp
    from Cons.IH [OF Cons.prems(1-5) this] False show ?thesis by simp
  next
    case True
    have sl: "sl \<in> set (kc_slabs kc)" using Cons.prems(6) by simp
    define kc0 where "kc0 = kc\<lparr>kc_slabs := pre @ sls\<rparr>"
    have "same_layout kc kc0" by (simp add: same_layout_def kc0_def)
    note e = same_layout_eqs [OF this]
    have di: "distinct (map sl_self (pre @ sl # sls))" using cache_distinct [OF ok] Cons.prems(6) by simp
    then have "z \<in> set pre \<union> set sls \<Longrightarrow> sl_self z \<noteq> sl_self sl" for z by (simp add: image_iff) metis
    then have fl: "filter (\<lambda>x. sl_self x \<noteq> sl_self sl) (kc_slabs kc) = pre @ sls" using Cons.prems(6) by (simp add: filter_id_conv)
    have pl: "slab_placed kc0 sl" unfolding e using cache_okD(3) [OF ok sl] by (simp add: slab_ok_def)
    have blk: "slab_blocks kc sl = xs \<Longrightarrow> \<forall>b \<in> set xs. b \<in> set (cache_blocks kc (kc_slabs kc))" for xs using sl by (auto simp: cache_blocks_def)
    have lv: "\<forall>b \<in> set (slab_blocks kc0 sl). live (km_heap (put_cache cp kc0 s)) (fst b) \<noteq> None"
      unfolding e using blk [OF refl] cache_okD(4) [OF ok] by (auto simp: put_cache_def)
    have "cache_blocks kc (kc_slabs kc) = cache_blocks kc pre @ slab_blocks kc sl @ cache_blocks kc sls"
      using Cons.prems(6) by (simp add: cache_blocks_def)
    then have d: "distinct (map fst (slab_blocks kc0 sl))" unfolding e using cache_okD(5) [OF ok] by simp
    have t: "kc_total_objects kc0 = int (kc_objects kc * length (kc_slabs kc))" "kc_objects kc0 \<le> kc_objects kc * length (kc_slabs kc)"
      using cache_okD(6) [OF ok] Cons.prems(6) by (simp_all add: kc0_def)
    have pre0: "heap_ok (km_heap (put_cache cp kc0 s))" "km_caches (put_cache cp kc0 s) cp = Some kc0" "behaved code kc0" "cache_laid kc0"
      using Cons.prems(1,5) cache_okD(1) [OF ok] by (simp_all add: put_cache_def kc0_def e [unfolded kc0_def])
    from destroy_slab_ok [OF pre0 pl lv d t(1) cache_okD(8) [OF ok] t(2)] obtain h1 m where
      ds: "kmem_destroy_slab code (heap_sub subsystem) cp sl (put_cache cp kc0 s)
        = Inr ((put_cache cp kc0 s)\<lparr>km_heap := h1, km_mem := m,
            km_caches := (km_caches (put_cache cp kc0 s))(cp \<mapsto> kc0\<lparr>kc_total_objects := kc_total_objects kc0 - int (kc_objects kc0)\<rparr>)\<rparr>)"
      "heap_ok h1" "live h1 = live (km_heap (put_cache cp kc0 s)) |` (- (fst ` set (slab_blocks kc0 sl)))"
      "\<forall>x. x \<notin> area kc0 sl \<longrightarrow> m x = km_mem (put_cache cp kc0 s) x" by blast
    define kc1 where "kc1 = kc\<lparr>kc_slabs := pre @ sls, kc_total_objects := kc_total_objects kc - int (kc_objects kc)\<rparr>"
    define s1 where "s1 = s\<lparr>km_heap := h1, km_mem := m, km_caches := (km_caches s)(cp \<mapsto> kc1)\<rparr>"
    note cs = cache_ok_shrunk [OF ok Cons.prems(6) True, folded kc1_def]
    have sl1: "same_layout kc kc1" by (simp add: same_layout_def kc1_def)
    note e1 = same_layout_eqs [OF sl1]
    have ok1: "cache_ok (live (km_heap s1)) cp kc1" using cs(1) ds(3) unfolding e by (simp add: s1_def put_cache_def)
    have "zones m cp kc (obj_at kc z i)" if zi: "z \<in> set (pre @ sls)" "i < kc_objects kc" for z i
    proof -
      have zs: "z \<in> set (kc_slabs kc)" "z \<noteq> sl" using zi(1) Cons.prems(6) di by auto
      have "area kc z \<inter> area kc sl = {}" by (rule slabs_apart [OF Cons.prems(1) ok zs(1) sl zs(2)])
      moreover have pz: "slab_placed kc z" using cache_okD(3) [OF ok zs(1)] by (simp add: slab_ok_def)
      ultimately have "\<forall>x \<in> obj_extent kc (obj_at kc z i). m x = km_mem s x"
        using obj_in_area(2) [OF cache_okD(1) [OF ok] pz zi(2)] ds(4) by (auto simp: put_cache_def area_def kc0_def)
      from zones_cong [OF cache_okD(1) [OF ok] pz zi(2) this] Cons.prems(4) zs(1) zi(2) show ?thesis by (simp add: zones_ok_def)
    qed
    then have z1: "zones_ok (km_mem s1) cp kc1" unfolding zones_ok_def e1 by (simp add: kc1_def s1_def)
    have "heap_ok (km_heap s1)" "km_caches s1 cp = Some kc1" "behaved code kc1" "kc_slabs kc1 = pre @ sls"
      using ds(2) Cons.prems(5) by (simp_all add: s1_def kc1_def)
    from Cons.IH [OF this(1,2) ok1 z1 this(3,4)] obtain s' kc' where s': "shrink_loop code (heap_sub subsystem) cp sls s1 = Inr s'"
      "heap_ok (km_heap s')" "km_caches s' = (km_caches s1)(cp \<mapsto> kc')" "cache_ok (live (km_heap s')) cp kc'"
      "zones_ok (km_mem s') cp kc'" "same_layout kc1 kc'" "allocated kc' = allocated kc1"
      "kc_slabs kc' = pre @ filter (\<lambda>sl. sl_position sl \<noteq> 0) sls" by (elim exE conjE)
    have "shrink_loop code (heap_sub subsystem) cp (sl # sls) s = Inr s'"
      using True Cons.prems(2) fl ds(1) s'(1) by (simp add: get_cache_def kc0_def s1_def kc1_def put_cache_def)
    moreover have "same_layout kc kc'" using sl1 s'(6) by (simp add: same_layout_def)
    ultimately show ?thesis using s' cs(2) True by (intro exI [of _ s'] exI [of _ kc']) (simp add: s1_def)
  qed
qed

end

end
