(* ===== verification/Kalloc_Props.thy ===== *)
theory Kalloc_Props
  imports Kmem_Props
begin

text \<open>
  The properties of the slab allocator on the kernel's heap, with an example cache, and of the allocator
  of general sizes on top of it.
\<close>

section \<open>Example\<close>

definition demo_kmem_major :: major where
  "demo_kmem_major = \<lparr>ma_addr = 4096, ma_pages = 1, ma_size = 4096, ma_usage = 252,
     ma_minors = [\<lparr>mi_addr = 4120, mi_size = 126, mi_req = 120\<rparr>, \<lparr>mi_addr = 4270, mi_size = 54, mi_req = 48\<rparr>]\<rparr>"

definition demo_kmem_heap :: "physmem liballoc" where
  "demo_kmem_heap = (liballoc_initial (\<lambda>_. LIBALLOC_MAGIC) (\<lambda>p. if p = 4296 then 2 else 4) (\<lambda>_. 7)
     (demo_mem\<lparr>memory_bitmap := [3], s_freePages := 6\<rparr>))
     \<lparr>l_majors := [demo_kmem_major], l_inuse := 180, l_allocated := 4096\<rparr>"

lemma demo_kmem_heap_ok: "kernel_heap_ok demo_kmem_heap" "live demo_kmem_heap 4148 = Some 120" "live demo_kmem_heap 4296 = Some 48"
proof -
  have maj: "maj_bytes demo_kmem_major = maj_bytes demo_major"
    by (simp add: maj_bytes_def demo_kmem_major_def demo_major_def)
  have "major_ok demo_kmem_major" by (simp add: major_ok_def demo_kmem_major_def la_consts)
  then show "kernel_heap_ok demo_kmem_heap"
    using demo_used_heap_ok(1) maj
    by (simp add: la_ok_def la_wf_def demo_kmem_heap_def demo_used_heap_def liballoc_initial_def headers_ok_def)
       (simp add: demo_kmem_major_def sizeof_minor_def user_ptr_def ALIGN_def la_consts)
  show "live demo_kmem_heap 4148 = Some 120" "live demo_kmem_heap 4296 = Some 48"
    by (simp_all add: live_def demo_kmem_heap_def demo_kmem_major_def user_ptr_def ALIGN_def la_consts)
qed

text \<open>A cache of objects of 8 bytes with one slab of two objects, the first of which is in use.\<close>

definition demo_slab :: kmem_slab where
  "demo_slab = \<lparr>sl_self = 4296, sl_position = 1, sl_offset = 0, sl_ptr = 4324, sl_ctl = [Some 0, Some 1]\<rparr>"

definition demo_cache :: kmem_cache where
  "demo_cache = \<lparr>kc_name = [], kc_size = 8, kc_align = 4, kc_objects = 2, kc_int_size = 8, kc_int_slabobj_size = 20,
     kc_constructor = None, kc_destructor = None, kc_reclaim = None, kc_token = None, kc_vmem = None, kc_cflags = 0,
     kc_total_objects = 2, kc_used_objects = 1, kc_slabs = [demo_slab]\<rparr>"

definition demo_kmem :: "physmem liballoc kmem" where
  "demo_kmem = \<lparr>km_heap = demo_kmem_heap, km_mem = (\<lambda>_. 0), km_caches = [4148 \<mapsto> demo_cache], km_array = []\<rparr>"

lemma kv_flag_0 [simp]: "0 < f \<Longrightarrow> \<not> kv_flag 0 f"
  by (simp add: kv_flag_def)

lemma KV_pos [simp]: "0 < KV_NOGROW" "0 < KV_RED_ZONE" "0 < KV_OFF_SLAB" "0 < KV_OWNERSHIP"
  by (simp_all add: KV_NOGROW_def KV_RED_ZONE_def KV_OFF_SLAB_def KV_OWNERSHIP_def)

lemma demo_cache_laid: "cache_laid demo_cache" "man_space demo_cache = 28"
  by (simp_all add: cache_laid_def demo_cache_def int_object_size_def slab_object_space_def MAX_REQUEST_def man_space_def
      sizeof_kmem_slab_def sizeof_kmem_ctl_def Let_def)

lemma demo_cache_ok: "cache_ok (live demo_kmem_heap) 4148 demo_cache" "zones_ok m 4148 demo_cache" "behaved no_hooks demo_cache"
  "4324 \<in> allocated demo_cache"
proof -
  have fl: "kc_cflags demo_cache = 0" "kc_slabs demo_cache = [demo_slab]" "kc_objects demo_cache = 2" "kc_int_slabobj_size demo_cache = 20"
    by (simp_all add: demo_cache_def)
  have so: "slab_offset demo_cache 4324 = 0" by (simp add: slab_offset_def fl) (simp add: demo_cache_def)
  have "slab_ok demo_cache demo_slab" "slab_shape demo_cache demo_slab"
    using so demo_cache_laid(2) by (simp_all add: slab_ok_def slab_placed_def slab_shape_def demo_slab_def fl slab_free_def lessThan_Suc numeral_2_eq_2)
  moreover have "slab_blocks demo_cache demo_slab = [(4296, 48)]"
    using demo_cache_laid(2) by (simp add: slab_blocks_def fl demo_slab_def)
  ultimately show "cache_ok (live demo_kmem_heap) 4148 demo_cache"
    unfolding cache_ok_def cache_blocks_def
    using demo_cache_laid(1) demo_kmem_heap_ok by (simp add: fl sizeof_kmem_cache_def) (simp add: demo_cache_def demo_slab_def)
  show "zones_ok m 4148 demo_cache" by (simp add: zones_ok_def zones_def fl)
  show "behaved no_hooks demo_cache" by (simp add: behaved_def demo_cache_def)
  have "0 \<in> slab_taken demo_cache demo_slab" "obj_at demo_cache demo_slab 0 = 4324"
    by (simp_all add: slab_taken_def slab_free_def demo_slab_def fl obj_at_def)
  then show "4324 \<in> allocated demo_cache" unfolding allocated_def fl by (metis UN_iff imageI list.set_intros(1))
qed

section \<open>Caches\<close>

text \<open>
  C8: \<^verbatim>\<open>kmem_cache_alloc\<close> returns: two levels of its recursion are enough. It gives an object that was not in
  use and leaves all others in use, or gives none, and then every object of the cache is in use. The
  invariant of the cache holds afterwards, the words around all objects are intact, and blocks of
  other owners are untouched.
\<close>

theorem kmem_cache_alloc_correct:
  assumes "kernel_heap_ok (km_heap s)" and "km_caches s cp = Some kc" and "cache_ok (live (km_heap s)) cp kc"
    and "zones_ok (km_mem s) cp kc" and "behaved code kc" and "kc_reclaim kc = None"
    and "kv_flag kmflag KV_OFF_SLAB = kv_flag (kc_cflags kc) KV_OFF_SLAB"
    and "kc_objects kc * (length (kc_slabs kc) + 1) < 2147483648" and "2 \<le> fuel"
  shows "\<exists>r s' kc'. kmem_cache_alloc fuel code (heap_sub liballoc_subsystem) cp kmflag s = Inr (r, s')
    \<and> kernel_heap_ok (km_heap s') \<and> km_caches s' = (km_caches s)(cp \<mapsto> kc')
    \<and> cache_ok (live (km_heap s')) cp kc' \<and> zones_ok (km_mem s') cp kc'
    \<and> (\<forall>p. live (km_heap s) p \<noteq> None \<longrightarrow> live (km_heap s') p = live (km_heap s) p)
    \<and> (case r of
         None \<Rightarrow> allocated kc' = allocated kc \<and> kc_used_objects kc = kc_total_objects kc
       | Some a \<Rightarrow> a \<notin> allocated kc \<and> allocated kc' = insert a (allocated kc))"
  using kheap.alloc_ok [OF assms] unfolding kheap.alloc_post_def by blast

theorem kmem_cache_alloc_correct_witness:
  "\<exists>s' kc' a. kmem_cache_alloc 2 no_hooks (heap_sub liballoc_subsystem) 4148 0 demo_kmem = Inr (Some a, s') \<and> a \<noteq> 4324"
proof -
  have "kmem_cache_alloc 2 no_hooks (heap_sub liballoc_subsystem) 4148 0 demo_kmem
      = Inr (r, s') \<Longrightarrow> r \<noteq> None" for r s'
    by (simp add: numeral_2_eq_2 demo_kmem_def get_cache_def demo_cache_def demo_slab_def take_object_def get_object_ptr_def) auto
  moreover have "kernel_heap_ok (km_heap demo_kmem)" "km_caches demo_kmem 4148 = Some demo_cache"
    "cache_ok (live (km_heap demo_kmem)) 4148 demo_cache" "zones_ok (km_mem demo_kmem) 4148 demo_cache"
    using demo_kmem_heap_ok demo_cache_ok by (simp_all add: demo_kmem_def)
  from kmem_cache_alloc_correct [OF this demo_cache_ok(3), of 0 2] obtain r s' kc' where
    "kmem_cache_alloc 2 no_hooks (heap_sub liballoc_subsystem) 4148 0 demo_kmem = Inr (r, s')"
    "case r of None \<Rightarrow> True | Some a \<Rightarrow> a \<notin> allocated demo_cache"
    by (auto simp: demo_cache_def split: option.splits)
  ultimately show ?thesis using demo_cache_ok(4) by (cases r) auto
qed

text \<open>
  C10: Objects of a cache, with their red zones and owner words, do not overlap each other and lie in live
  blocks of the heap; they are aligned as the cache asks. The size of the space of a slab, which the
  code calls a guess, is enough.
\<close>

theorem kmem_objects_apart:
  assumes "kernel_heap_ok h" and "cache_ok (live h) cp kc" and "a \<in> allocated kc" "b \<in> allocated kc"
  shows "(a \<noteq> b \<longrightarrow> obj_extent kc a \<inter> obj_extent kc b = {})
    \<and> (1 < kc_align kc \<longrightarrow> a mod kc_align kc = 0)
    \<and> (\<exists>p n. live h p = Some n \<and> obj_extent kc a \<subseteq> bytes p n)"
proof (intro conjI impI)
  note ld = cache_okD(1) [OF assms(2)]
  from assms(3,4) obtain x i y j where a: "x \<in> set (kc_slabs kc)" "i < kc_objects kc" "a = obj_at kc x i"
    and b: "y \<in> set (kc_slabs kc)" "j < kc_objects kc" "b = obj_at kc y j" by (auto simp: allocated_def slab_taken_def)
  have pl: "slab_placed kc x" "slab_shape kc x" using cache_okD(3) [OF assms(2) a(1)] by (auto simp: slab_ok_def)
  show "obj_extent kc a \<inter> obj_extent kc b = {}" if "a \<noteq> b"
    using kheap.objects_apart(1) [OF assms(1,2) a(1) b(1) a(2) b(2)] that unfolding a(3) b(3) by blast
  show "a mod kc_align kc = 0" if "1 < kc_align kc" using obj_bounds(4) [OF ld pl(1) a(2) that] a(3) by simp
  from area_in_block [OF pl(2)] obtain q where q: "q \<in> set (slab_blocks kc x)" "area kc x \<subseteq> bytes (fst q) (snd q)" .
  then have "q \<in> set (cache_blocks kc (kc_slabs kc))" using a(1) by (auto simp: cache_blocks_def)
  from cache_okD(4) [OF assms(2) this] obj_in_area(2) [OF ld pl(1) a(2)] q(2) a(3)
  show "\<exists>p n. live h p = Some n \<and> obj_extent kc a \<subseteq> bytes p n" by blast
qed

theorem kmem_objects_apart_witness:
  "(4324::nat) mod 4 = 0 \<and> (\<exists>p n. live demo_kmem_heap p = Some n \<and> obj_extent demo_cache 4324 \<subseteq> bytes p n)"
  using kmem_objects_apart [OF demo_kmem_heap_ok(1) demo_cache_ok(1,4,4)] by simp

text \<open>
  C9: \<^verbatim>\<open>kmem_cache_free\<close> of an object in use whose red zones are intact returns, takes exactly this object
  out of use, and keeps the invariant.
\<close>

theorem kmem_cache_free_correct:
  assumes "kernel_heap_ok (km_heap s)" and "km_caches s cp = Some kc" and "cache_ok (live (km_heap s)) cp kc"
    and "a \<in> allocated kc" and "zones (km_mem s) cp kc a"
  shows "\<exists>kc'. kmem_cache_free (Some cp) (Some a) s = Inr (put_cache cp kc' s) \<and> allocated kc' = allocated kc - {a}
    \<and> cache_ok (live (km_heap s)) cp kc' \<and> (zones_ok (km_mem s) cp kc \<longrightarrow> zones_ok (km_mem s) cp kc')"
  using kheap.free_object_ok [OF assms(1-5)] by blast

theorem kmem_cache_free_correct_witness:
  "\<exists>kc'. kmem_cache_free (Some 4148) (Some 4324) demo_kmem = Inr (put_cache 4148 kc' demo_kmem)
    \<and> allocated kc' = allocated demo_cache - {4324}"
proof -
  have "kernel_heap_ok (km_heap demo_kmem)" "km_caches demo_kmem 4148 = Some demo_cache"
    "cache_ok (live (km_heap demo_kmem)) 4148 demo_cache" "zones (km_mem demo_kmem) 4148 demo_cache 4324"
    using demo_kmem_heap_ok demo_cache_ok by (simp_all add: demo_kmem_def zones_def) (simp_all add: demo_cache_def)
  from kmem_cache_free_correct [OF this(1-3) demo_cache_ok(4) this(4)] show ?thesis by blast
qed

text \<open>
  Remark: \<^verbatim>\<open>kmem_cache_shrink\<close> gives back exactly the slabs without an object in use, wherever they stand in the
  list; no object in use is lost.
\<close>

theorem kmem_cache_shrink_correct:
  assumes "kernel_heap_ok (km_heap s)" and "km_caches s cp = Some kc" and "cache_ok (live (km_heap s)) cp kc"
    and "zones_ok (km_mem s) cp kc" and "behaved code kc"
  shows "\<exists>s' kc'. kmem_cache_shrink code (heap_sub liballoc_subsystem) cp s = Inr (0, s') \<and> kernel_heap_ok (km_heap s')
    \<and> km_caches s' = (km_caches s)(cp \<mapsto> kc') \<and> cache_ok (live (km_heap s')) cp kc' \<and> zones_ok (km_mem s') cp kc'
    \<and> allocated kc' = allocated kc \<and> kc_slabs kc' = filter (\<lambda>sl. sl_position sl \<noteq> 0) (kc_slabs kc)"
proof -
  have "kc_slabs kc = [] @ kc_slabs kc" by simp
  from kheap.shrink_loop_ok [OF assms(1-5) this] assms(2) show ?thesis
    by (auto simp: kmem_cache_shrink_def get_cache_def)
qed

theorem kmem_cache_shrink_correct_witness:
  "\<exists>s'. kmem_cache_shrink no_hooks (heap_sub liballoc_subsystem) 4148 demo_kmem = Inr (0, s')"
proof -
  have "kernel_heap_ok (km_heap demo_kmem)" "km_caches demo_kmem 4148 = Some demo_cache"
    "cache_ok (live (km_heap demo_kmem)) 4148 demo_cache" "zones_ok (km_mem demo_kmem) 4148 demo_cache"
    using demo_kmem_heap_ok demo_cache_ok by (simp_all add: demo_kmem_def)
  from kmem_cache_shrink_correct [OF this demo_cache_ok(3)] show ?thesis by blast
qed

lemma kmem_cache_create_ok:
  assumes h: "kernel_heap_ok (km_heap s)" and nm: "0 \<in> set nm"
  obtains (none) h' where "kmem_cache_create (heap_sub liballoc_subsystem) (Some nm) sz align ctor dtor rcl token vmem cflags s
        = Inr (None, s\<lparr>km_heap := h'\<rparr>)" "kernel_heap_ok h'" "live h' = live (km_heap s)"
  | (some) cp h' kc where "kmem_cache_create (heap_sub liballoc_subsystem) (Some nm) sz align ctor dtor rcl token vmem cflags s
        = Inr (Some cp, s\<lparr>km_heap := h', km_caches := (km_caches s)(cp \<mapsto> kc)\<rparr>)" "kernel_heap_ok h'"
      "live (km_heap s) cp = None" "live h' = (live (km_heap s))(cp \<mapsto> sizeof_kmem_cache)"
      "kc_size kc = sz" "kc_align kc = align" "kc_objects kc = KMEM_OBJECTS" "kc_int_size kc = int_object_size sz align cflags"
      "kc_int_slabobj_size kc = slab_object_space (int_object_size sz align cflags) KMEM_OBJECTS align cflags"
      "kc_cflags kc = cflags" "kc_total_objects kc = 0" "kc_used_objects kc = 0" "kc_slabs kc = []"
      "kc_constructor kc = ctor" "kc_destructor kc = dtor"
proof -
  have n: "sizeof_kmem_cache < MAX_REQUEST" by (simp add: sizeof_kmem_cache_def MAX_REQUEST_def)
  obtain b where b: "kstrncpy (replicate KMEM_NAME_LENGTH 0) nm KMEM_NAME_LENGTH = Inr b"
    using kstrncpy_ok [of KMEM_NAME_LENGTH "replicate KMEM_NAME_LENGTH 0" nm] nm by simp
  show thesis
  proof (cases rule: kheap.malloc_cases [OF h n])
    case (1 h')
    then show thesis using none by (simp add: kmem_cache_create_def heap_sub_simps)
  next
    case (2 p h')
    let ?kc = "\<lparr>kc_name = b, kc_size = sz, kc_align = align, kc_objects = KMEM_OBJECTS, kc_int_size = int_object_size sz align cflags,
      kc_int_slabobj_size = slab_object_space (int_object_size sz align cflags) KMEM_OBJECTS align cflags,
      kc_constructor = ctor, kc_destructor = dtor, kc_reclaim = rcl, kc_token = token, kc_vmem = vmem, kc_cflags = cflags,
      kc_total_objects = 0, kc_used_objects = 0, kc_slabs = []\<rparr>"
    have "kmem_cache_create (heap_sub liballoc_subsystem) (Some nm) sz align ctor dtor rcl token vmem cflags s
        = Inr (Some p, s\<lparr>km_heap := h', km_caches := (km_caches s)(p \<mapsto> ?kc)\<rparr>)"
      using 2(1) b by (simp add: kmem_cache_create_def heap_sub_simps Let_def put_cache_def)
    then show thesis by (rule some) (use 2 in simp_all)
  qed
qed

text \<open>
  Remark: \<^verbatim>\<open>kmem_cache_create\<close> makes a cache without slabs that fulfils the invariant, or fails and changes
  nothing.
\<close>

theorem kmem_cache_create_correct:
  assumes "kernel_heap_ok (km_heap s)" and "0 \<in> set nm" and "0 < sz"
    and "(sz + 12 + align) * KMEM_OBJECTS + align + 24 + 4 * KMEM_OBJECTS < MAX_REQUEST"
  shows "\<exists>r s'. kmem_cache_create (heap_sub liballoc_subsystem) (Some nm) sz align ctor dtor rcl token vmem cflags s = Inr (r, s')
    \<and> kernel_heap_ok (km_heap s')
    \<and> (case r of
         None \<Rightarrow> live (km_heap s') = live (km_heap s) \<and> km_caches s' = km_caches s
       | Some cp \<Rightarrow>
           live (km_heap s) cp = None \<and> live (km_heap s') = (live (km_heap s))(cp \<mapsto> sizeof_kmem_cache)
           \<and> (\<exists>kc. km_caches s' = (km_caches s)(cp \<mapsto> kc) \<and> cache_ok (live (km_heap s')) cp kc
                \<and> allocated kc = {} \<and> zones_ok (km_mem s') cp kc))"
proof (cases rule: kmem_cache_create_ok [OF assms(1,2), of sz align ctor dtor rcl token vmem cflags])
  case (1 h')
  then show ?thesis by (intro exI [of _ None]) auto
next
  case (2 cp h' kc)
  have "cache_laid kc" using assms(3,4) 2 by (simp add: cache_laid_def KMEM_OBJECTS_def)
  then have "cache_ok (live h') cp kc" using 2 by (simp add: cache_ok_def cache_blocks_def)
  moreover have "allocated kc = {}" "zones_ok m cp kc" for m using 2 by (simp_all add: allocated_def zones_ok_def)
  ultimately show ?thesis using 2 by (intro exI [of _ "Some cp"]) auto
qed

theorem kmem_cache_create_correct_witness:
  "\<exists>r s'. kmem_cache_create (heap_sub liballoc_subsystem) (Some [97, 0]) 8 4 None None None None None 0 demo_kmem = Inr (r, s')"
  using kmem_cache_create_correct [of demo_kmem "[97, 0]" 8 4] demo_kmem_heap_ok(1)
  by (force simp: demo_kmem_def KMEM_OBJECTS_def MAX_REQUEST_def)

text \<open>
  Remark: \<^verbatim>\<open>kmem_cache_destroy\<close> gives every block of a cache back to the heap, its slabs and its own record, and
  no block of another owner.
\<close>

theorem kmem_cache_destroy_correct:
  assumes "kernel_heap_ok (km_heap s)" and "km_caches s cp = Some kc" and "cache_ok (live (km_heap s)) cp kc" and "behaved code kc"
  shows "\<exists>s'. kmem_cache_destroy code (heap_sub liballoc_subsystem) cp s = Inr s' \<and> kernel_heap_ok (km_heap s')
    \<and> km_caches s' = (km_caches s)(cp := None)
    \<and> live (km_heap s') = live (km_heap s) |` (- insert cp (fst ` set (cache_blocks kc (kc_slabs kc))))"
  by (rule kheap.destroy_ok [OF assms])

theorem kmem_cache_destroy_correct_witness:
  "\<exists>s'. kmem_cache_destroy no_hooks (heap_sub liballoc_subsystem) 4148 demo_kmem = Inr s' \<and> live (km_heap s') 4148 = None"
proof -
  have "kernel_heap_ok (km_heap demo_kmem)" "km_caches demo_kmem 4148 = Some demo_cache"
    "cache_ok (live (km_heap demo_kmem)) 4148 demo_cache"
    using demo_kmem_heap_ok demo_cache_ok by (simp_all add: demo_kmem_def)
  from kmem_cache_destroy_correct [OF this demo_cache_ok(3)] show ?thesis by (auto simp: restrict_map_def)
qed

section \<open>The allocator of general sizes\<close>

text \<open>The first \<open>i\<close> caches, of objects of 32, 64, \<open>\<dots>\<close> bytes, have been created and are empty.\<close>

definition cache_ready :: "'h kmem \<Rightarrow> nat \<Rightarrow> bool" where
  "cache_ready s j \<longleftrightarrow>
     (\<exists>kc. km_caches s (km_array s ! j) = Some kc \<and> kc_slabs kc = [] \<and> kc_total_objects kc = 0 \<and> kc_used_objects kc = 0
        \<and> kc_objects kc = 1024 \<and> kc_cflags kc = 0 \<and> kc_int_slabobj_size kc = 32768 * 2 ^ j + 4)"

definition kalloc_ready :: "nat \<Rightarrow> 'h kmem \<Rightarrow> bool" where
  "kalloc_ready n s \<longleftrightarrow> length (km_array s) = n \<and> (\<forall>j < n. cache_ready s j)"

lemma unit_sizes:
  assumes "i < 12"
  shows "u32 (32 * 2 ^ i * 2) = 32 * 2 ^ Suc i"
    and "slab_object_space (int_object_size (32 * 2 ^ i) KALLOC_ALIGNMENT 0) KMEM_OBJECTS KALLOC_ALIGNMENT 0 = 32768 * 2 ^ i + 4"
proof -
  have "(2::nat) ^ i \<le> 2 ^ 11" using assms by (intro power_increasing) simp_all
  then have b: "(2::nat) ^ i \<le> 2048" by simp
  then show "u32 (32 * 2 ^ i * 2) = 32 * 2 ^ Suc i" by simp
  have "(32 * 2 ^ i) mod 4 = (0::nat)" by simp
  then have "int_object_size (32 * 2 ^ i) KALLOC_ALIGNMENT 0 = 32 * 2 ^ i" by (simp add: int_object_size_def KALLOC_ALIGNMENT_def Let_def)
  then show "slab_object_space (int_object_size (32 * 2 ^ i) KALLOC_ALIGNMENT 0) KMEM_OBJECTS KALLOC_ALIGNMENT 0 = 32768 * 2 ^ i + 4"
    using b by (simp add: slab_object_space_def KMEM_OBJECTS_def KALLOC_ALIGNMENT_def Let_def)
qed

lemma create_caches_ok:
  assumes "kernel_heap_ok (km_heap s)" and "kalloc_ready i s" and "\<forall>cp \<in> set (km_array s). live (km_heap s) cp \<noteq> None" and "i + k = 12"
  shows "create_caches (heap_sub liballoc_subsystem) (32 * 2 ^ i) k s = Inl Assert_failed
    \<or> (\<exists>s'. create_caches (heap_sub liballoc_subsystem) (32 * 2 ^ i) k s = Inr s' \<and> kernel_heap_ok (km_heap s') \<and> kalloc_ready 12 s')"
  using assms
proof (induction k arbitrary: i s)
  case 0
  then show ?case by simp
next
  case (Suc k)
  let ?nm = "map int [107, 97, 108, 108, 111, 99, 95, 99, 97, 99, 104, 101, 0]"
  have i: "i < 12" using Suc.prems(4) by simp
  have nm: "0 \<in> set ?nm" by simp
  show ?case
  proof (cases rule: kmem_cache_create_ok [OF Suc.prems(1) nm, of "32 * 2 ^ i" KALLOC_ALIGNMENT None None "Some 0" None None 0])
    case (1 h')
    then show ?thesis by simp
  next
    case (2 cp h' kc)
    define s1 where "s1 = s\<lparr>km_heap := h', km_caches := (km_caches s)(cp \<mapsto> kc), km_array := km_array s @ [cp]\<rparr>"
    have len: "length (km_array s) = i" using Suc.prems(2) by (simp add: kalloc_ready_def)
    have ne: "cp \<notin> set (km_array s)" using Suc.prems(3) 2(3) by auto
    have "cache_ready s1 j" if "j < Suc i" for j
    proof (cases "j = i")
      case True
      have "(km_array s @ [cp]) ! i = cp" using len by (simp add: nth_append)
      then show ?thesis using True 2 unit_sizes(2) [OF i] by (simp add: cache_ready_def s1_def KMEM_OBJECTS_def)
    next
      case False
      then have j: "j < i" using that by simp
      then have "km_array s ! j \<noteq> cp" using ne len by (metis nth_mem)
      moreover have "cache_ready s j" using Suc.prems(2) j by (simp add: kalloc_ready_def)
      ultimately show ?thesis using j len by (simp add: cache_ready_def s1_def nth_append)
    qed
    then have "kalloc_ready (Suc i) s1" using len by (simp add: kalloc_ready_def s1_def)
    moreover have "kernel_heap_ok (km_heap s1)" "\<forall>cp \<in> set (km_array s1). live (km_heap s1) cp \<noteq> None" "Suc i + k = 12"
      using 2(2,4) Suc.prems(3,4) by (auto simp: s1_def)
    ultimately have "create_caches (heap_sub liballoc_subsystem) (32 * 2 ^ Suc i) k s1 = Inl Assert_failed
      \<or> (\<exists>s'. create_caches (heap_sub liballoc_subsystem) (32 * 2 ^ Suc i) k s1 = Inr s' \<and> kernel_heap_ok (km_heap s') \<and> kalloc_ready 12 s')"
      by (intro Suc.IH)
    moreover have "create_caches (heap_sub liballoc_subsystem) (32 * 2 ^ i) (Suc k) s
        = create_caches (heap_sub liballoc_subsystem) (32 * 2 ^ Suc i) k s1"
      using 2(1) unit_sizes(1) [OF i] by (simp add: s1_def del: power_Suc)
    ultimately show ?thesis by simp
  qed
qed

lemma unit_num_range: "unit_num sz unit k i = -1 \<or> (i \<le> unit_num sz unit k i \<and> unit_num sz unit k i < i + int k)"
proof (induction k arbitrary: unit i)
  case (Suc k)
  show ?case using Suc.IH [of "u32 (unit * 2)" "i + 1"] by auto
qed simp

lemma unit_num_numeral:
  "unit_num sz unit (numeral k) i = (if sz \<le> unit then i else unit_num sz (u32 (unit * 2)) (pred_numeral k) (i + 1))"
  by (simp add: numeral_eq_Suc)

lemma get_cache_num_eqs:
  "65536 < n \<Longrightarrow> get_cache_num n = -1" "get_cache_num 36888 = 11"
  by (simp_all add: get_cache_num_def MAX_CACHES_def CACHE_UNIT_def unit_num_numeral)

text \<open>A request goes to a cache, whose first slab is requested from the same allocator one level deeper.\<close>

lemma kalloc_step:
  assumes r: "kalloc_ready 12 s" and n: "0 < n" "get_cache_num n = int j"
    and deeper: "kmalloc (kalloc_sub d) (32768 * 2 ^ j + 4120) s = Inl e"
  shows "kmalloc (kalloc_sub (Suc d)) n s = Inl e"
proof -
  have j: "j < 12" using unit_num_range [of n CACHE_UNIT MAX_CACHES 0] n(2) by (simp add: get_cache_num_def MAX_CACHES_def)
  then obtain kc where kc: "km_caches s (km_array s ! j) = Some kc" "kc_slabs kc = []" "kc_total_objects kc = 0" "kc_used_objects kc = 0"
    "kc_objects kc = 1024" "kc_cflags kc = 0" "kc_int_slabobj_size kc = 32768 * 2 ^ j + 4"
    using r by (auto simp: kalloc_ready_def cache_ready_def)
  have "(2::nat) ^ j \<le> 2 ^ 11" using j by (intro power_increasing) simp_all
  then have sz: "u32 (man_space kc + kc_int_slabobj_size kc) = 32768 * 2 ^ j + 4120"
    by (simp add: man_space_def kc sizeof_kmem_slab_def sizeof_kmem_ctl_def)
  have "kmem_cache_grow code (kalloc_sub d) (km_array s ! j) 0 s = Inl e" for code :: "'a kmem kmem_code"
    using kc(1) sz deeper by (simp add: kmem_cache_grow_def kmem_new_slab_def get_cache_def)
  then have "kmem_cache_alloc 3 code (kalloc_sub d) (km_array s ! j) 0 s = Inl e" for code :: "'a kmem kmem_code"
    using kc by (simp add: numeral_3_eq_3 get_cache_def)
  moreover have "length (km_array s) = 12" using r by (simp add: kalloc_ready_def)
  ultimately show ?thesis using n j by (simp add: kmalloc_def l_kmalloc_def)
qed

lemma kalloc_large: "65536 < n \<Longrightarrow> kmalloc (kalloc_sub (Suc d)) n s = Inl Assert_failed"
  by (simp add: kmalloc_def l_kmalloc_def get_cache_num_eqs)

text \<open>
  C11: \<^verbatim>\<open>init_kalloc\<close> either fails its assertion or installs an allocator that halts the machine at the first
  request, whatever its size: the caches get their slabs from \<^verbatim>\<open>kmalloc\<close>, which is now this allocator, and
  a slab of any cache is larger than the largest cache's objects, or leads to one that is. Three levels
  of calls are enough.
\<close>

theorem kalloc_halts:
  assumes "kernel_heap_ok (km_heap s)"
  shows "init_kalloc (heap_sub liballoc_subsystem) s = Inl Assert_failed
    \<or> (\<exists>s'. init_kalloc (heap_sub liballoc_subsystem) s = Inr s'
         \<and> (\<forall>n d. 3 \<le> d \<longrightarrow> kmalloc (kalloc_sub d) n s' = Inl Assert_failed))"
proof -
  have halts: "kmalloc (kalloc_sub (Suc (Suc (Suc d)))) n s' = Inl Assert_failed" if r: "kalloc_ready 12 s'" for n d and s' :: "physmem liballoc kmem"
  proof -
    have small: "kmalloc (kalloc_sub (Suc (Suc d))) 36888 s' = Inl Assert_failed"
    proof (rule kalloc_step [OF r, of _ 11])
      show "get_cache_num 36888 = int 11" using get_cache_num_eqs(2) by simp
      show "kmalloc (kalloc_sub (Suc d)) (32768 * 2 ^ 11 + 4120) s' = Inl Assert_failed" by (rule kalloc_large) simp
    qed simp
    show ?thesis
    proof (cases "n = 0 \<or> get_cache_num n = -1")
      case True
      then show ?thesis by (auto simp: kmalloc_def l_kmalloc_def assertR_def)
    next
      case False
      then obtain j where j: "get_cache_num n = int j" "0 < n"
        using unit_num_range [of n CACHE_UNIT MAX_CACHES 0] by (metis get_cache_num_def gr0I nonneg_int_cases)
      show ?thesis
      proof (rule kalloc_step [OF r j(2,1)], cases "j = 0")
        case True
        then show "kmalloc (kalloc_sub (Suc (Suc d))) (32768 * 2 ^ j + 4120) s' = Inl Assert_failed" using small by simp
      next
        case False
        then have "(2::nat) ^ 1 \<le> 2 ^ j" by (intro power_increasing) simp_all
        then show "kmalloc (kalloc_sub (Suc (Suc d))) (32768 * 2 ^ j + 4120) s' = Inl Assert_failed" by (intro kalloc_large) simp
      qed
    qed
  qed
  have "kalloc_ready 0 (s\<lparr>km_array := []\<rparr>)" by (simp add: kalloc_ready_def)
  from create_caches_ok [of "s\<lparr>km_array := []\<rparr>" 0 12] assms this show ?thesis
  proof (simp add: init_kalloc_def CACHE_UNIT_def MAX_CACHES_def, elim disjE exE conjE)
    fix s'
    assume s': "create_caches (heap_sub liballoc_subsystem) 32 12 (s\<lparr>km_array := []\<rparr>) = Inr s'" "kalloc_ready 12 s'"
    have "kmalloc (kalloc_sub d) n s' = Inl Assert_failed" if "3 \<le> d" for n d
    proof -
      from that obtain d' where "d = Suc (Suc (Suc d'))" by (metis add_Suc_right add.commute le_Suc_ex numeral_3_eq_3 plus_nat.add_0)
      with halts [OF s'(2), of d' n] show ?thesis by (simp only:)
    qed
    with s'(1) show "create_caches (heap_sub liballoc_subsystem) 32 12 (s\<lparr>km_array := []\<rparr>) = Inl Assert_failed
      \<or> (\<exists>s'. create_caches (heap_sub liballoc_subsystem) 32 12 (s\<lparr>km_array := []\<rparr>) = Inr s'
           \<and> (\<forall>n d. 3 \<le> d \<longrightarrow> kmalloc (kalloc_sub d) n s' = Inl Assert_failed))" by blast
  qed simp
qed

theorem kalloc_halts_witness:
  "init_kalloc (heap_sub liballoc_subsystem) demo_kmem = Inl Assert_failed
    \<or> (\<exists>s'. init_kalloc (heap_sub liballoc_subsystem) demo_kmem = Inr s' \<and> kmalloc (kalloc_sub 3) 100 s' = Inl Assert_failed)"
proof -
  have "kernel_heap_ok (km_heap demo_kmem)" using demo_kmem_heap_ok by (simp add: demo_kmem_def)
  from kalloc_halts [OF this] show ?thesis by auto
qed

end
