(* ===== verification/Rwlock_Solo.thy ===== *)
theory Rwlock_Solo
  imports Rwlock
begin

text \<open>
  The reader-writer lock as a caller sees it that no other thread interrupts. An operation either
  changes the lock and returns, or it spins for as long as the lock stays as it is; then the result is
  \<open>Hang\<close>. The lemmas show that these functions are the runs of the transition system of \<open>Rwlock\<close> in
  which one thread moves. The process table and what builds on it call the lock through them.
\<close>

section \<open>Operations\<close>

definition get_write_access :: "rwlock \<Rightarrow> rwlock kres" where
  "get_write_access rw =
     (if spinlock rw \<noteq> None then Inl Hang
      else if num_readers rw = 0 \<and> num_writers rw = 0
      then Inr (rw\<lparr>num_writers := num_writers rw + 1\<rparr>)
      else Inl Hang)"

definition get_read_access :: "rwlock \<Rightarrow> rwlock kres" where
  "get_read_access rw =
     (if spinlock rw \<noteq> None then Inl Hang
      else if num_writers rw = 0 \<and> write_request rw = 0
      then Inr (rw\<lparr>num_readers := u32 (num_readers rw + 1)\<rparr>)
      else Inl Hang)"

definition rw_release :: "rwlock \<Rightarrow> rwlock" where
  "rw_release rw =
     (if num_writers rw \<noteq> 0 then rw\<lparr>write_request := 0, num_writers := 0\<rparr>
      else rw\<lparr>num_readers := (if num_readers rw = 0 then 2 ^ 32 - 1 else num_readers rw - 1)\<rparr>)"

text \<open>The operation that a thread at a program counter performs, as a function of the lock.\<close>

fun get_access :: "rw_kind \<Rightarrow> rwlock \<Rightarrow> rwlock kres" where
  "get_access Reader = get_read_access"
| "get_access Writer = get_write_access"

section \<open>Free locks\<close>

definition rw_free :: "rwlock \<Rightarrow> bool" where
  "rw_free rw \<longleftrightarrow> spinlock rw = None \<and> num_readers rw = 0 \<and> num_writers rw = 0 \<and> write_request rw = 0"

lemma rw_free_eq: "rw_free rw \<Longrightarrow> rw = \<lparr>num_readers = 0, num_writers = 0, write_request = 0, spinlock = None\<rparr>"
  by (cases rw) (simp add: rw_free_def)

lemma free_lock_ops:
  assumes "rw_free rw"
  shows "\<exists>r. get_access k rw = Inr r \<and> rw_release r = rw"
  using rw_free_eq [OF assms]
  by (cases k) (simp_all add: get_read_access_def get_write_access_def rw_release_def)

section \<open>Runs of one thread\<close>

text \<open>The state after \<open>n\<close> steps of thread \<open>t\<close> alone.\<close>

definition solo :: "rw_kind \<Rightarrow> nat \<Rightarrow> nat \<Rightarrow> rw_sys \<Rightarrow> rw_sys option" where
  "solo k t n = rw_run (replicate n (k, t))"

lemma solo_simps [simp]:
  "solo k t 0 s = Some s"
  "solo k t (Suc n) s = (case rw_exec k t s of None \<Rightarrow> None | Some s' \<Rightarrow> solo k t n s')"
  by (simp_all add: solo_def split: option.split)

lemma solo_add: "solo k t n s = Some s1 \<Longrightarrow> solo k t (n + m) s = solo k t m s1"
  by (induction n arbitrary: s) (auto split: option.splits)

lemmas rw_step_defs = rw_exec_def goto_def setlock_def acquire_spin_def release_spin_def

text \<open>A thread at the start of an operation that has to wait is back there after four or five steps.\<close>

fun start_pc :: "rw_kind \<Rightarrow> rw_pc" where
  "start_pc Reader = R_acquire"
| "start_pc Writer = W_acquire"

lemma solo_granted:
  assumes "rw_pcs s t = Idle" and "get_access k (rw_lock s) = Inr rw"
  shows "\<exists>n s'. solo k t n s = Some s' \<and> rw_pcs s' = (rw_pcs s)(t := Holds k) \<and> rw_lock s' = rw"
proof (cases k)
  case Reader
  have "solo Reader t (Suc (Suc (Suc (Suc (Suc (Suc (Suc 0))))))) s
      = Some \<lparr>rw_lock = rw, rw_pcs = (rw_pcs s)(t := Holds Reader)\<rparr>"
    using assms Reader by (cases s) (auto simp: rw_step_defs get_read_access_def split: if_splits)
  then show ?thesis unfolding Reader by (intro exI conjI) (assumption, simp_all)
next
  case Writer
  have "solo Writer t (Suc (Suc (Suc (Suc (Suc (Suc 0)))))) s
      = Some \<lparr>rw_lock = rw, rw_pcs = (rw_pcs s)(t := Holds Writer)\<rparr>"
    using assms Writer by (cases s) (auto simp: rw_step_defs get_write_access_def split: if_splits)
  then show ?thesis unfolding Writer by (intro exI conjI) (assumption, simp_all)
qed

lemma solo_release:
  assumes "rw_pcs s t = Holds k" and "num_writers (rw_lock s) \<noteq> 0 \<longleftrightarrow> k = Writer"
  shows "\<exists>n s'. solo k t n s = Some s' \<and> rw_pcs s' = (rw_pcs s)(t := Idle)
    \<and> rw_lock s' = rw_release (rw_lock s)"
proof (cases k)
  case Reader
  have "solo Reader t (Suc (Suc (Suc 0))) s
      = Some \<lparr>rw_lock = rw_release (rw_lock s), rw_pcs = (rw_pcs s)(t := Idle)\<rparr>"
    using assms Reader by (cases s) (auto simp: rw_step_defs rw_release_def)
  then show ?thesis unfolding Reader by (intro exI conjI) (assumption, simp_all)
next
  case Writer
  have "solo Writer t (Suc (Suc (Suc (Suc 0)))) s
      = Some \<lparr>rw_lock = rw_release (rw_lock s), rw_pcs = (rw_pcs s)(t := Idle)\<rparr>"
    using assms Writer by (cases s) (auto simp: rw_step_defs rw_release_def)
  then show ?thesis unfolding Writer by (intro exI conjI) (assumption, simp_all)
qed

text \<open>Waiting: the program counters a thread goes through while the lock is not granted.\<close>

fun waiting :: "rw_kind \<Rightarrow> rw_pc \<Rightarrow> bool" where
  "waiting Reader R_acquire = True" | "waiting Reader R_test_writers = True"
| "waiting Reader R_test_request = True" | "waiting Reader R_unlock_retry = True"
| "waiting Writer W_acquire = True" | "waiting Writer W_test_readers = True"
| "waiting Writer W_test_writers = True" | "waiting Writer W_request = True"
| "waiting Writer W_unlock_retry = True"
| "waiting _ Idle = True"
| "waiting _ _ = False"

definition barred :: "rw_kind \<Rightarrow> rwlock \<Rightarrow> bool" where
  "barred k rw \<longleftrightarrow> (case k of Reader \<Rightarrow> num_writers rw \<noteq> 0 \<or> write_request rw \<noteq> 0
                            | Writer \<Rightarrow> num_readers rw \<noteq> 0 \<or> num_writers rw \<noteq> 0)"

text \<open>What a waiting thread knows of the lock: its tests up to here have not been refuted.\<close>

definition blocked_at :: "rw_kind \<Rightarrow> nat \<Rightarrow> rw_sys \<Rightarrow> bool" where
  "blocked_at k t s \<longleftrightarrow> barred k (rw_lock s) \<and> waiting k (rw_pcs s t)
     \<and> (rw_pcs s t = R_test_request \<longrightarrow> write_request (rw_lock s) \<noteq> 0)
     \<and> (rw_pcs s t = W_test_writers \<longrightarrow> num_writers (rw_lock s) \<noteq> 0)"

lemma blocked_step:
  assumes "blocked_at k t s" and "rw_exec k t s = Some s'"
  shows "blocked_at k t s'"
  using assms
  by (cases k; cases "rw_pcs s t")
    (auto simp: blocked_at_def barred_def rw_step_defs split: if_splits)

lemma solo_blocked: "blocked_at k t s \<Longrightarrow> solo k t n s = Some s' \<Longrightarrow> blocked_at k t s'"
proof (induction n arbitrary: s)
  case (Suc n)
  then show ?case by (auto split: option.splits dest: blocked_step)
qed simp

text \<open>A thread that cannot take the spinlock stays in front of it.\<close>

lemma solo_no_spin:
  assumes "spinlock (rw_lock s) \<noteq> None" and "rw_pcs s t \<in> {Idle, start_pc k}"
    and "solo k t n s = Some s'"
  shows "spinlock (rw_lock s') \<noteq> None \<and> rw_pcs s' t \<in> {Idle, start_pc k}"
  using assms
proof (induction n arbitrary: s)
  case (Suc n)
  from Suc.prems(3) obtain s1 where s1: "rw_exec k t s = Some s1" "solo k t n s1 = Some s'"
    by (auto split: option.splits)
  from s1(1) Suc.prems(1,2) have "spinlock (rw_lock s1) \<noteq> None \<and> rw_pcs s1 t \<in> {Idle, start_pc k}"
    by (cases k) (auto simp: rw_step_defs split: if_splits)
  with Suc.IH [OF _ _ s1(2)] show ?case by blast
qed simp

lemma solo_refused:
  assumes "rw_pcs s t = Idle" and "get_access k (rw_lock s) = Inl e" and "solo k t n s = Some s'"
  shows "e = Hang \<and> rw_pcs s' t \<noteq> Holds k'"
proof -
  have e: "e = Hang" using assms(2)
    by (cases k) (simp_all add: get_read_access_def get_write_access_def split: if_splits)
  show ?thesis
  proof (cases "spinlock (rw_lock s) = None")
    case True
    with assms(1,2) have "blocked_at k t s"
      by (cases k) (auto simp: blocked_at_def barred_def get_read_access_def get_write_access_def
          split: if_splits)
    from solo_blocked [OF this assms(3)] e show ?thesis by (cases k) (auto simp: blocked_at_def)
  next
    case False
    with solo_no_spin [OF _ _ assms(3)] assms(1) e show ?thesis by (cases k) auto
  qed
qed

section \<open>Refinement\<close>

text \<open>
  The lock operations that the process table calls are the transition system's runs of one thread.
  From a state in which thread \<open>t\<close> is idle: if the function grants the lock, the thread alone gets to
  hold it, and the lock is the one the function computes; a release from there gives the function's
  lock back; and if the function says that the caller waits, no number of steps of this thread alone
  ever makes it a holder.
\<close>

theorem rwlock_solo_refines:
  assumes idle: "rw_pcs s t = Idle"
  shows "(\<forall>rw. get_access k (rw_lock s) = Inr rw \<longrightarrow>
            (\<exists>n s1. solo k t n s = Some s1 \<and> rw_pcs s1 = (rw_pcs s)(t := Holds k) \<and> rw_lock s1 = rw
              \<and> ((num_writers rw \<noteq> 0 \<longleftrightarrow> k = Writer) \<longrightarrow>
                 (\<exists>m s2. solo k t m s1 = Some s2 \<and> rw_pcs s2 = rw_pcs s \<and> rw_lock s2 = rw_release rw))))
       \<and> (\<forall>e n s1. get_access k (rw_lock s) = Inl e \<longrightarrow> solo k t n s = Some s1 \<longrightarrow>
            e = Hang \<and> (\<forall>k'. rw_pcs s1 t \<noteq> Holds k'))"
proof (intro conjI allI impI)
  fix rw
  assume g: "get_access k (rw_lock s) = Inr rw"
  from solo_granted [OF idle g] obtain n s1 where s1: "solo k t n s = Some s1"
    "rw_pcs s1 = (rw_pcs s)(t := Holds k)" "rw_lock s1 = rw" by blast
  have "\<exists>m s2. solo k t m s1 = Some s2 \<and> rw_pcs s2 = rw_pcs s \<and> rw_lock s2 = rw_release rw"
    if "num_writers rw \<noteq> 0 \<longleftrightarrow> k = Writer"
  proof -
    from solo_release [of s1 t k] s1(2,3) that obtain m s2 where "solo k t m s1 = Some s2"
      "rw_pcs s2 = (rw_pcs s1)(t := Idle)" "rw_lock s2 = rw_release rw" by auto
    with s1(2) idle show ?thesis by (intro exI conjI) (assumption, auto)
  qed
  with s1 show "\<exists>n s1. solo k t n s = Some s1 \<and> rw_pcs s1 = (rw_pcs s)(t := Holds k) \<and> rw_lock s1 = rw
      \<and> ((num_writers rw \<noteq> 0 \<longleftrightarrow> k = Writer) \<longrightarrow>
         (\<exists>m s2. solo k t m s1 = Some s2 \<and> rw_pcs s2 = rw_pcs s \<and> rw_lock s2 = rw_release rw))"
    by blast
qed (use solo_refused [OF idle] in blast)+

theorem rwlock_solo_refines_witness:
  "\<exists>n s1. solo Writer 3 n rw_initial = Some s1 \<and> rw_pcs s1 3 = Holds Writer
     \<and> num_writers (rw_lock s1) = 1"
proof -
  have "rw_pcs rw_initial 3 = Idle" by (simp add: rw_initial_def)
  from rwlock_solo_refines [OF this, of Writer] show ?thesis
    by (fastforce simp: rw_initial_def get_write_access_def)
qed

end
