(* ===== verification/World.thy ===== *)
theory World
  imports Process Ds_List Ds_Family Rwlock_Solo Paging Vmem
begin

text \<open>
  The state that process management works on (\<^verbatim>\<open>kernel/processes/\<close>, \<^verbatim>\<open>gc.c\<close>, \<^verbatim>\<open>ualloc.c\<close>): the kernel state
  of \<open>Process\<close> on the kernel's heap, memory with the page tables in it, the reader-writer locks, the
  list and family nodes embedded in processes and threads, the arenas, the records of user memory, and
  the static variables of \<^verbatim>\<open>process.c\<close>.

  A node embedded in an object has the object's address in the stores of \<open>Ds_List\<close> and \<open>Ds_Family\<close>. The
  heap and the page tables draw on one page allocator, the one inside the heap's state.
\<close>

section \<open>State\<close>

text \<open>\<^verbatim>\<open>struct allocated_memory\<close> of \<^verbatim>\<open>ualloc.h\<close>.\<close>

record allocated_memory =
  am_pages :: nat
  am_flags :: nat
  am_phys :: nat
  am_virt :: nat
  am_shared :: int
  am_parent :: "nat option"
  am_next :: "nat option"
  am_prev :: "nat option"

record world =
  w_k :: "physmem liballoc kstate"
  w_mem :: memory
  w_cr3 :: nat
  w_invlpg :: "nat list"
  w_rw :: "nat \<Rightarrow> rwlock option"
  w_list :: list_store
  w_family :: family_store
  w_arenas :: "nat \<Rightarrow> vmem option"
  w_alloc :: "nat \<Rightarrow> allocated_memory option"
  l_processTable :: "htable option"
  l_rootProcess :: "nat option"
  l_processLock :: nat
  l_PID :: int

section \<open>Access to the parts\<close>

definition w_heap :: "world \<Rightarrow> physmem liballoc" where
  "w_heap w = ks_heap (w_k w)"

definition put_heap :: "physmem liballoc \<Rightarrow> world \<Rightarrow> world" where
  "put_heap h w = w\<lparr>w_k := (w_k w)\<lparr>ks_heap := h\<rparr>\<rparr>"

definition w_kmalloc :: "nat \<Rightarrow> world \<Rightarrow> (nat option \<times> world) kres" where
  "w_kmalloc n w = bindR (kmalloc liballoc_subsystem n (w_heap w)) (\<lambda>(p, h). Inr (p, put_heap h w))"

definition w_kfree :: "nat option \<Rightarrow> world \<Rightarrow> world kres" where
  "w_kfree p w = bindR (kfree liballoc_subsystem p (w_heap w)) (\<lambda>h. Inr (put_heap h w))"

definition mmu_of :: "world \<Rightarrow> mmu" where
  "mmu_of w = \<lparr>mm_mem = w_mem w, mm_phys = l_sys (w_heap w), mm_cr3 = w_cr3 w, mm_invlpg = w_invlpg w\<rparr>"

definition put_mmu :: "mmu \<Rightarrow> world \<Rightarrow> world" where
  "put_mmu m w = (put_heap ((w_heap w)\<lparr>l_sys := mm_phys m\<rparr>) w)
     \<lparr>w_mem := mm_mem m, w_cr3 := mm_cr3 m, w_invlpg := mm_invlpg m\<rparr>"

definition get_process :: "nat \<Rightarrow> world \<Rightarrow> process kres" where
  "get_process p w = get_proc p (w_k w)"

definition put_process :: "nat \<Rightarrow> process \<Rightarrow> world \<Rightarrow> world" where
  "put_process p pr w = w\<lparr>w_k := put_proc p pr (w_k w)\<rparr>"

definition get_thread_at :: "nat \<Rightarrow> world \<Rightarrow> thread kres" where
  "get_thread_at t w = get_thr t (w_k w)"

definition put_thread_at :: "nat \<Rightarrow> thread \<Rightarrow> world \<Rightarrow> world" where
  "put_thread_at t th w = w\<lparr>w_k := put_thr t th (w_k w)\<rparr>"

text \<open>Operations of the other components on their part of the state.\<close>

definition on_list :: "(list_store \<Rightarrow> list_store kres) \<Rightarrow> world \<Rightarrow> world kres" where
  "on_list f w = bindR (f (w_list w)) (\<lambda>s. Inr (w\<lparr>w_list := s\<rparr>))"

definition on_family :: "(family_store \<Rightarrow> family_store kres) \<Rightarrow> world \<Rightarrow> world kres" where
  "on_family f w = bindR (f (w_family w)) (\<lambda>s. Inr (w\<lparr>w_family := s\<rparr>))"

definition on_lock :: "nat \<Rightarrow> (rwlock \<Rightarrow> rwlock kres) \<Rightarrow> world \<Rightarrow> world kres" where
  "on_lock a f w =
     (case w_rw w a of
        None \<Rightarrow> Inl Null_deref
      | Some rw \<Rightarrow> bindR (f rw) (\<lambda>rw'. Inr (w\<lparr>w_rw := (w_rw w)(a \<mapsto> rw')\<rparr>)))"

definition rwlock_get_read_access :: "nat \<Rightarrow> world \<Rightarrow> world kres" where
  "rwlock_get_read_access a = on_lock a get_read_access"

definition rwlock_get_write_access :: "nat \<Rightarrow> world \<Rightarrow> world kres" where
  "rwlock_get_write_access a = on_lock a get_write_access"

definition rwlock_release :: "nat \<Rightarrow> world \<Rightarrow> world kres" where
  "rwlock_release a = on_lock a (\<lambda>rw. Inr (rw_release rw))"

text \<open>\<^verbatim>\<open>NEXT_LINEAR\<close>, \<^verbatim>\<open>PARENT\<close>, \<^verbatim>\<open>CHILD\<close>, \<^verbatim>\<open>NEXT_SIBLING\<close>, \<^verbatim>\<open>PREV_SIBLING\<close>: the object behind a neighbouring node.\<close>

definition NEXT_LINEAR :: "nat \<Rightarrow> world \<Rightarrow> nat option kres" where
  "NEXT_LINEAR p w =
     bindR (load_node (w_list w) p) (\<lambda>n.
     case l_next n of None \<Rightarrow> Inr None
                    | Some q \<Rightarrow> bindR (load_node (w_list w) q) (\<lambda>m. Inr (Some (l_object m))))"

definition family_link :: "(ds_family \<Rightarrow> nat option) \<Rightarrow> nat \<Rightarrow> world \<Rightarrow> nat option kres" where
  "family_link g p w =
     bindR (load_fam (w_family w) p) (\<lambda>n.
     case g n of None \<Rightarrow> Inr None
               | Some q \<Rightarrow> bindR (load_fam (w_family w) q) (\<lambda>m. Inr (Some (f_object m))))"

definition PARENT :: "nat \<Rightarrow> world \<Rightarrow> nat option kres" where "PARENT = family_link f_parent"
definition CHILD :: "nat \<Rightarrow> world \<Rightarrow> nat option kres" where "CHILD = family_link f_child"
definition NEXT_SIBLING :: "nat \<Rightarrow> world \<Rightarrow> nat option kres" where "NEXT_SIBLING = family_link f_next"
definition PREV_SIBLING :: "nat \<Rightarrow> world \<Rightarrow> nat option kres" where "PREV_SIBLING = family_link f_prev"

text \<open>\<^verbatim>\<open>LIST_INIT\<close> and \<^verbatim>\<open>FAMILY_INIT\<close> write the node of a new object, whatever was in its memory.\<close>

definition LIST_INIT :: "nat \<Rightarrow> world \<Rightarrow> world" where
  "LIST_INIT p w = w\<lparr>w_list := (w_list w)(p \<mapsto> \<lparr>l_object = p, l_prev = None, l_next = None\<rparr>)\<rparr>"

definition FAMILY_INIT :: "nat \<Rightarrow> world \<Rightarrow> world" where
  "FAMILY_INIT p w = w\<lparr>w_family := (w_family w)
     (p \<mapsto> \<lparr>f_object = p, f_parent = None, f_child = None, f_prev = None, f_next = None\<rparr>)\<rparr>"

lemmas world_defs = w_heap_def put_heap_def get_process_def put_process_def get_proc_def put_proc_def
  on_list_def on_family_def on_lock_def

section \<open>Facts\<close>

lemma on_lock_other:
  "on_lock a f w = Inr w' \<Longrightarrow> w_k w' = w_k w \<and> w_list w' = w_list w \<and> w_family w' = w_family w
     \<and> l_processTable w' = l_processTable w \<and> l_rootProcess w' = l_rootProcess w
     \<and> l_processLock w' = l_processLock w \<and> l_PID w' = l_PID w \<and> w_alloc w' = w_alloc w"
  by (auto simp: on_lock_def bindR_Inr_iff split: option.splits)

text \<open>A lock that nobody holds, and the lock with one reader or one writer.\<close>

definition lock_free :: "nat \<Rightarrow> world \<Rightarrow> bool" where
  "lock_free a w \<longleftrightarrow> (\<exists>rw. w_rw w a = Some rw \<and> rw_free rw)"

definition unlocked :: rwlock where
  "unlocked = \<lparr>num_readers = 0, num_writers = 0, write_request = 0, spinlock = None\<rparr>"

lemma lock_free_iff: "lock_free a w \<longleftrightarrow> w_rw w a = Some unlocked"
  using rw_free_eq by (auto simp: lock_free_def unlocked_def rw_free_def)

definition held_lock :: "rw_kind \<Rightarrow> rwlock" where
  "held_lock k = \<lparr>num_readers = (if k = Reader then 1 else 0), num_writers = (if k = Writer then 1 else 0),
     write_request = 0, spinlock = None\<rparr>"

definition hold :: "rw_kind \<Rightarrow> nat \<Rightarrow> world \<Rightarrow> world" where
  "hold k a w = w\<lparr>w_rw := (w_rw w)(a \<mapsto> held_lock k)\<rparr>"

lemma hold_simps [simp]:
  "w_k (hold k a w) = w_k w" "w_list (hold k a w) = w_list w" "w_family (hold k a w) = w_family w"
  "l_processTable (hold k a w) = l_processTable w" "l_rootProcess (hold k a w) = l_rootProcess w"
  "l_processLock (hold k a w) = l_processLock w" "l_PID (hold k a w) = l_PID w"
  "w_rw (hold k a w) = (w_rw w)(a \<mapsto> held_lock k)" "w_heap (hold k a w) = w_heap w"
  "w_alloc (hold k a w) = w_alloc w"
  by (simp_all add: hold_def w_heap_def)

lemma lock_free_hold: "a \<noteq> b \<Longrightarrow> lock_free a (hold k b w) = lock_free a w"
  by (simp add: lock_free_def)

lemma read_free: "lock_free a w \<Longrightarrow> rwlock_get_read_access a w = Inr (hold Reader a w)"
  by (simp add: lock_free_iff unlocked_def rwlock_get_read_access_def on_lock_def get_read_access_def
      hold_def held_lock_def)

lemma write_free: "lock_free a w \<Longrightarrow> rwlock_get_write_access a w = Inr (hold Writer a w)"
  by (simp add: lock_free_iff unlocked_def rwlock_get_write_access_def on_lock_def get_write_access_def
      hold_def held_lock_def)

lemma release_held:
  "w_rw w a = Some (held_lock k) \<Longrightarrow> rwlock_release a w = Inr (w\<lparr>w_rw := (w_rw w)(a \<mapsto> unlocked)\<rparr>)"
  by (cases k) (simp_all add: rwlock_release_def on_lock_def rw_release_def held_lock_def unlocked_def)

lemma release_hold: "lock_free a w \<Longrightarrow> rwlock_release a (hold k a w) = Inr w"
  by (simp add: release_held lock_free_iff hold_def fun_upd_idem)

text \<open>A lock that somebody holds keeps the next caller waiting.\<close>

lemma access_held:
  "w_rw w a = Some (held_lock Writer) \<Longrightarrow> rwlock_get_read_access a w = Inl Hang"
  "w_rw w a = Some (held_lock k) \<Longrightarrow> rwlock_get_write_access a w = Inl Hang"
  by (cases k; simp add: rwlock_get_read_access_def rwlock_get_write_access_def on_lock_def held_lock_def
      get_read_access_def get_write_access_def)+

end
