(* ===== verification/Ptable.thy ===== *)
theory Ptable
  imports World
begin

text \<open>
  The table of all processes (\<^verbatim>\<open>kernel/processes/process.c\<close>): numbers for new processes, insertion into
  and removal from the hash table, the family tree and the linear list, lookup with and without
  locking, and the walks over the list.

  A process number is an \<^verbatim>\<open>unsigned int\<close> in the structure and an \<^verbatim>\<open>int\<close> in the counter and the arguments.
  The list and the tree are followed through pointers, so the loops have fuel: one round for every entry
  of the hash table, which holds every process of a well-formed state.
\<close>

section \<open>Key and comparison\<close>

definition READER :: nat where "READER = 0"

definition WRITER :: nat where "WRITER = 1"

definition to_unsigned :: "int \<Rightarrow> int" where
  "to_unsigned i = i mod 2 ^ 32"

definition ptable_key :: "process \<Rightarrow> int" where
  "ptable_key p = (let ans = s32 (pr_pid p * 100) in if ans < 0 then s32 (- ans) else ans)"

definition ptable_compare :: "process \<Rightarrow> process \<Rightarrow> int kres" where
  "ptable_compare a b =
     (if pr_pid b \<noteq> to_unsigned (-1)
      then Inr (if pr_pid a = pr_pid b then 0 else if pr_pid a < pr_pid b then -1 else 1)
      else kstrncmp (pr_name a) (pr_name b) SMK_NAME_LENGTH)"

text \<open>
  The sample of a lookup lives on the kernel stack; address 0 stands for it. Only its number and the
  first byte of its name are set. An entry whose process does not exist matches nothing.
\<close>

definition sample_process :: "int \<Rightarrow> process" where
  "sample_process pid = \<lparr>pr_name = replicate SMK_NAME_LENGTH 0, pr_pid = to_unsigned pid, pr_state = 0,
     pr_map = None, pr_virtual_memory = None, pr_lock = 0, pr_threads = None,
     pr_threads_htable = \<lparr>ht_self = 0, ht_total = 0, ht_size = 0, ht_percent = 0, ht_array = 0, ht_table = []\<rparr>,
     pr_thread_count = 0, pr_last_tid = 0, pr_kernel_threads = 0, pr_flags = 0, pr_event_hooks = 0,
     pr_event_pid = 0, pr_event_tid = 0, pr_rc = 0, pr_env = \<lparr>environment = None, env_entries = []\<rparr>,
     pr_alloc = None, pr_ipc = []\<rparr>"

definition process_match :: "process \<Rightarrow> process \<Rightarrow> int" where
  "process_match a b = (case ptable_compare a b of Inl _ \<Rightarrow> 1 | Inr c \<Rightarrow> c)"

definition table_key :: "world \<Rightarrow> nat \<Rightarrow> int" where
  "table_key w p = (case ks_procs (w_k w) p of None \<Rightarrow> 0 | Some pr \<Rightarrow> ptable_key pr)"

definition the_table :: "world \<Rightarrow> htable kres" where
  "the_table w = (case l_processTable w of None \<Rightarrow> Inl Null_deref | Some t \<Rightarrow> Inr t)"

text \<open>\<^verbatim>\<open>htable_retrieve( l_processTable, &temp )\<close>, \<^verbatim>\<open>htable_insert\<close> and \<^verbatim>\<open>htable_remove\<close> on the process table.\<close>

definition table_retrieve :: "int \<Rightarrow> world \<Rightarrow> nat option kres" where
  "table_retrieve pid w =
     bindR (the_table w) (\<lambda>t.
     htable_retrieve (\<lambda>_. ptable_key (sample_process pid))
       (\<lambda>p _. case ks_procs (w_k w) p of None \<Rightarrow> 1 | Some pr \<Rightarrow> process_match pr (sample_process pid)) t 0)"

definition table_insert :: "nat \<Rightarrow> world \<Rightarrow> world kres" where
  "table_insert p w =
     bindR (the_table w) (\<lambda>t.
     bindR (htable_insert liballoc_subsystem (table_key w) t p (w_heap w)) (\<lambda>((_, t'), h).
     Inr ((put_heap h w)\<lparr>l_processTable := Some t'\<rparr>)))"

definition table_remove :: "nat \<Rightarrow> world \<Rightarrow> world kres" where
  "table_remove p w =
     bindR (the_table w) (\<lambda>t.
     bindR (htable_remove liballoc_subsystem (table_key w) t p (w_heap w)) (\<lambda>((_, t'), h).
     Inr ((put_heap h w)\<lparr>l_processTable := Some t'\<rparr>)))"

definition table_total :: "world \<Rightarrow> nat" where
  "table_total w = (case l_processTable w of None \<Rightarrow> 0 | Some t \<Rightarrow> nat (ht_total t))"

section \<open>Numbers\<close>

text \<open>
  The loop of \<^verbatim>\<open>next_pid\<close>; \<open>temp\<close> is the number in the sample, -1 (unsigned) before the first round. The
  result is the counter at the end.
\<close>

fun next_pid_loop :: "nat \<Rightarrow> int \<Rightarrow> int \<Rightarrow> world \<Rightarrow> int kres" where
  "next_pid_loop 0 temp pid w = Inl Hang"
| "next_pid_loop (Suc n) temp pid w =
     (let pid' = (if temp \<noteq> to_unsigned (-1)
                  then (let q = s32 (pid + 1) in if q < 0 then 2 else q) else pid) in
      bindR (table_retrieve pid' w) (\<lambda>r.
      if r \<noteq> None then next_pid_loop n (to_unsigned pid') pid' w else Inr pid'))"

definition next_pid :: "world \<Rightarrow> (int \<times> world) kres" where
  "next_pid w =
     bindR (next_pid_loop (table_total w + 2) (to_unsigned (-1)) (l_PID w) w) (\<lambda>pid.
     Inr (pid, w\<lparr>l_PID := s32 (pid + 1)\<rparr>))"

text \<open>\<^verbatim>\<open>init_rwlock\<close> gives the new lock its place among the locks.\<close>

definition new_lock :: "world \<Rightarrow> (nat \<times> world) kres" where
  "new_lock w =
     bindR (init_rwlock liballoc_subsystem (w_heap w)) (\<lambda>((a, rw), h).
     Inr (a, (put_heap h w)\<lparr>w_rw := (w_rw w)(a \<mapsto> rw)\<rparr>))"

definition init_processes :: "world \<Rightarrow> world kres" where
  "init_processes w =
     bindR (init_htable liballoc_subsystem 128 75 (w_heap w)) (\<lambda>(t, h).
     bindR (new_lock ((put_heap h w)\<lparr>l_processTable := t\<rparr>)) (\<lambda>(a, w1).
     assertR (l_PID w1 = 1) (Inr (w1\<lparr>l_processLock := a\<rparr>))))"

section \<open>Insertion and removal\<close>

definition insert_process :: "int \<Rightarrow> nat \<Rightarrow> world \<Rightarrow> (int \<times> world) kres" where
  "insert_process pid proc w =
     bindR (get_process proc w) (\<lambda>pr.
     case l_rootProcess w of
       None \<Rightarrow>
         bindR (table_insert proc (w\<lparr>l_rootProcess := Some proc\<rparr>)) (\<lambda>w1. Inr (s32 (pr_pid pr), w1))
     | Some root \<Rightarrow>
         assertR (pid \<ge> 0) (
         bindR (rwlock_get_write_access (l_processLock w) w) (\<lambda>w1.
         bindR (table_retrieve pid w1) (\<lambda>parent.
         case parent of
           None \<Rightarrow> Inl Assert_failed
         | Some par \<Rightarrow>
             bindR (on_family (family_add_child par proc) w1) (\<lambda>w2.
             bindR (on_list (list_insertAfter root proc) w2) (\<lambda>w3.
             bindR (table_insert proc w3) (\<lambda>w4.
             bindR (rwlock_release (l_processLock w4) w4) (\<lambda>w5. Inr (s32 (pr_pid pr), w5)))))))))"

definition remove_process :: "nat \<Rightarrow> world \<Rightarrow> world kres" where
  "remove_process proc w =
     bindR (rwlock_get_write_access (l_processLock w) w) (\<lambda>w1.
     bindR (PARENT proc w1) (\<lambda>parent.
     case parent of
       None \<Rightarrow> Inl Assert_failed
     | Some par \<Rightarrow>
         bindR (on_family (family_adopt (table_total w1) par proc) w1) (\<lambda>w2.
         bindR (on_family (family_remove proc) w2) (\<lambda>w3.
         bindR (on_list (list_remove proc) w3) (\<lambda>w4.
         bindR (table_remove proc w4) (\<lambda>w5.
         rwlock_release (l_processLock w5) w5))))))"

section \<open>Lookup\<close>

text \<open>The search of \<^verbatim>\<open>find_process\<close> along the linear list.\<close>

fun find_name :: "nat \<Rightarrow> cchar list \<Rightarrow> nat option \<Rightarrow> world \<Rightarrow> int kres" where
  "find_name n name None w = Inr (-1)"
| "find_name 0 name (Some p) w = Inl Hang"
| "find_name (Suc n) name (Some p) w =
     bindR (get_process p w) (\<lambda>pr.
     bindR (kstrncmp name (pr_name pr) SMK_NAME_LENGTH) (\<lambda>c.
     if c = 0 then Inr (s32 (pr_pid pr))
     else bindR (NEXT_LINEAR p w) (\<lambda>q. find_name n name q w)))"

definition find_process :: "cchar list \<Rightarrow> world \<Rightarrow> (int \<times> world) kres" where
  "find_process name w =
     bindR (rwlock_get_read_access (l_processLock w) w) (\<lambda>w1.
     bindR (find_name (table_total w1) name (l_rootProcess w1) w1) (\<lambda>pid.
     bindR (rwlock_release (l_processLock w1) w1) (\<lambda>w2. Inr (pid, w2))))"

definition checkout_process :: "int \<Rightarrow> nat \<Rightarrow> world \<Rightarrow> (nat option \<times> world) kres" where
  "checkout_process pid flags w =
     bindR (rwlock_get_read_access (l_processLock w) w) (\<lambda>w1.
     bindR (table_retrieve pid w1) (\<lambda>r.
     case r of
       None \<Rightarrow> bindR (rwlock_release (l_processLock w1) w1) (\<lambda>w2. Inr (None, w2))
     | Some p \<Rightarrow>
         bindR (get_process p w1) (\<lambda>pr.
         bindR (if flags = READER then rwlock_get_read_access (pr_lock pr) w1
                else rwlock_get_write_access (pr_lock pr) w1) (\<lambda>w2.
         Inr (Some p, w2)))))"

definition release_processes :: "world \<Rightarrow> world kres" where
  "release_processes w = rwlock_release (l_processLock w) w"

definition commit_process :: "nat \<Rightarrow> world \<Rightarrow> world kres" where
  "commit_process p w =
     bindR (get_process p w) (\<lambda>pr.
     bindR (rwlock_release (pr_lock pr) w) (\<lambda>w1.
     rwlock_release (l_processLock w1) w1))"

section \<open>Walks\<close>

text \<open>
  The callback of \<^verbatim>\<open>process_foreach\<close> is a nested function; its variables are the extra state \<open>c\<close>.
\<close>

fun foreach_loop ::
  "nat \<Rightarrow> (nat \<Rightarrow> world \<Rightarrow> 'c \<Rightarrow> (int \<times> world \<times> 'c) kres) \<Rightarrow> nat option \<Rightarrow> int \<Rightarrow> world \<Rightarrow> 'c
     \<Rightarrow> (int \<times> world \<times> 'c) kres" where
  "foreach_loop n callback None ans w c = Inr (ans, w, c)"
| "foreach_loop 0 callback (Some p) ans w c = Inl Hang"
| "foreach_loop (Suc n) callback (Some p) ans w c =
     bindR (callback p w c) (\<lambda>(ans', w1, c1).
     if ans' \<noteq> 0 then Inr (ans', w1, c1)
     else bindR (NEXT_LINEAR p w1) (\<lambda>q. foreach_loop n callback q ans' w1 c1))"

definition process_foreach ::
  "(nat \<Rightarrow> world \<Rightarrow> 'c \<Rightarrow> (int \<times> world \<times> 'c) kres) \<Rightarrow> nat \<Rightarrow> world \<Rightarrow> 'c \<Rightarrow> (int \<times> world \<times> 'c) kres" where
  "process_foreach callback flags w c =
     bindR (if flags = READER then rwlock_get_read_access (l_processLock w) w else Inr w) (\<lambda>w1.
     bindR (if flags = WRITER then rwlock_get_write_access (l_processLock w1) w1 else Inr w1) (\<lambda>w2.
     bindR (foreach_loop (table_total w2) callback (l_rootProcess w2) 0 w2 c) (\<lambda>(ans, w3, c').
     bindR (rwlock_release (l_processLock w3) w3) (\<lambda>w4. Inr (ans, w4, c')))))"

text \<open>\<^verbatim>\<open>struct process_information\<close>, an element of the array that \<^verbatim>\<open>process_get_list\<close> fills.\<close>

record process_information =
  pi_name :: "cchar list"
  pi_cmdline :: "nat list"
  pi_pid :: int
  pi_state :: int

definition SMK_CMDLINE_LENGTH :: nat where "SMK_CMDLINE_LENGTH = 256"

text \<open>The bytes of \<^verbatim>\<open>"CMD_LINE"\<close> with the terminating zero.\<close>

definition CMD_LINE :: "cchar list" where
  "CMD_LINE = [67, 77, 68, 95, 76, 73, 78, 69, 0]"

definition list_callback ::
  "int \<Rightarrow> nat \<Rightarrow> world \<Rightarrow> nat \<times> process_information list
     \<Rightarrow> (int \<times> world \<times> nat \<times> process_information list) kres" where
  "list_callback limit p w = (\<lambda>(finished, list).
     bindR (get_process p w) (\<lambda>pr.
     bindR (aget list finished) (\<lambda>e.
     bindR (kstrncpy (pi_name e) (pr_name pr) SMK_NAME_LENGTH) (\<lambda>name.
     bindR (get_environment (pr_env pr) CMD_LINE (pi_cmdline e) SMK_CMDLINE_LENGTH) (\<lambda>(rc, cmdline, _).
     assertR (rc \<ge> 0) (
     Inr (if s32 (int finished + 1) = limit then -1 else 0, w, finished + 1,
          list[finished := \<lparr>pi_name = name, pi_cmdline = cmdline, pi_pid = s32 (pr_pid pr),
                         pi_state = pr_state pr mod 2 ^ 32\<rparr>])))))))"

definition process_get_list ::
  "int \<Rightarrow> process_information list \<Rightarrow> world \<Rightarrow> (int \<times> process_information list \<times> world) kres" where
  "process_get_list limit list w =
     bindR (process_foreach (list_callback limit) WRITER w (0, list)) (\<lambda>(_, w', finished, list').
     Inr (int finished, list', w'))"

end
