(* ===== verification/Ptable_Props.thy ===== *)
theory Ptable_Props
  imports Ptable
begin

text \<open>
  The process table's invariant, what every operation does to it, and where the code does not live up to
  its interface. \<open>processes_ok w root ps kids\<close> says that the hash table holds exactly the processes
  \<open>root # ps\<close>, that the linear list links them in this order, that the family tree gives process \<open>p\<close> the
  children \<open>kids p\<close> so that everybody but the root has one parent and no one is its own ancestor, and
  that no two of them have the same number.
\<close>

section \<open>The invariant\<close>

definition pid_at :: "world \<Rightarrow> nat \<Rightarrow> int" where
  "pid_at w p = (case ks_procs (w_k w) p of None \<Rightarrow> -1 | Some pr \<Rightarrow> pr_pid pr)"

definition MAX_PID :: int where "MAX_PID = 10000000"

definition family_ok :: "family_store \<Rightarrow> nat \<Rightarrow> nat set \<Rightarrow> (nat \<Rightarrow> nat list) \<Rightarrow> bool" where
  "family_ok s root S kids \<longleftrightarrow>
     (\<forall>p \<in> S. children s p (kids p) \<and> map_option f_object (s p) = Some p)
     \<and> (\<exists>par. \<forall>p \<in> S. set (kids p) = {q \<in> S - {root}. par q = p})
     \<and> (\<forall>q \<in> S - {root}. \<exists>p \<in> S. q \<in> set (kids p))
     \<and> (\<exists>rank :: nat \<Rightarrow> nat. \<forall>p \<in> S. \<forall>q \<in> set (kids p). rank p < rank q)"

definition linear_ok :: "list_store \<Rightarrow> nat list \<Rightarrow> bool" where
  "linear_ok s ps \<longleftrightarrow> dls s None ps None \<and> distinct ps \<and> (\<forall>p \<in> set ps. map_option l_object (s p) = Some p)"

definition table_ok :: "world \<Rightarrow> nat list \<Rightarrow> bool" where
  "table_ok w ps \<longleftrightarrow>
     kernel_heap_ok (w_heap w)
     \<and> (\<exists>t. l_processTable w = Some t \<and> ht_ok t \<and> ht_live (live (w_heap w)) t \<and> ht_bag t = mset ps)"

definition pids_ok :: "world \<Rightarrow> nat list \<Rightarrow> bool" where
  "pids_ok w ps \<longleftrightarrow>
     (\<forall>p pr. ks_procs (w_k w) p = Some pr \<longrightarrow> 0 \<le> pr_pid pr \<and> pr_pid pr < MAX_PID)
     \<and> (\<forall>p \<in> set ps. ks_procs (w_k w) p \<noteq> None) \<and> inj_on (pid_at w) (set ps)"

definition processes_ok :: "world \<Rightarrow> nat \<Rightarrow> nat list \<Rightarrow> (nat \<Rightarrow> nat list) \<Rightarrow> bool" where
  "processes_ok w root ps kids \<longleftrightarrow>
     l_rootProcess w = Some root \<and> table_ok w (root # ps) \<and> pids_ok w (root # ps)
     \<and> linear_ok (w_list w) (root # ps) \<and> family_ok (w_family w) root (set (root # ps)) kids"

lemma processes_okD:
  assumes "processes_ok w root ps kids"
  shows "l_rootProcess w = Some root" "table_ok w (root # ps)" "pids_ok w (root # ps)"
    "linear_ok (w_list w) (root # ps)" "family_ok (w_family w) root (set (root # ps)) kids"
  using assms by (simp_all add: processes_ok_def)

lemma small_table_key: "pids_ok w ps \<Longrightarrow> small_keys (table_key w)"
  unfolding small_keys_def
proof
  fix d
  assume ok: "pids_ok w ps"
  show "- (2 ^ 30) < table_key w d \<and> table_key w d < 2 ^ 30"
  proof (cases "ks_procs (w_k w) d")
    case (Some pr)
    with ok have "0 \<le> pr_pid pr" "pr_pid pr < 10000000" by (auto simp: pids_ok_def MAX_PID_def)
    then show ?thesis using Some by (simp add: table_key_def ptable_key_def)
  qed (simp add: table_key_def)
qed

lemma table_total_eq: "table_ok w ps \<Longrightarrow> table_total w = length ps"
  using ht_okD(4) by (auto simp: table_ok_def table_total_def ht_bag_def dest: arg_cong [where f = size])

text \<open>Only the parts that the invariant speaks of matter.\<close>

lemma processes_ok_cong:
  assumes "w_k w' = w_k w" "w_list w' = w_list w" "w_family w' = w_family w"
    "l_processTable w' = l_processTable w" "l_rootProcess w' = l_rootProcess w"
  shows "processes_ok w' root ps kids = processes_ok w root ps kids"
proof -
  have "pid_at w' = pid_at w" using assms(1) by (simp add: pid_at_def fun_eq_iff)
  with assms show ?thesis
    by (simp add: processes_ok_def table_ok_def pids_ok_def w_heap_def)
qed

lemma processes_ok_hold [simp]: "processes_ok (hold k a w) root ps kids = processes_ok w root ps kids"
  by (rule processes_ok_cong) simp_all

section \<open>Lookup in the table\<close>

text \<open>A number whose key is small; every number from 0 to \<open>MAX_PID\<close> is one.\<close>

definition easy_pid :: "int \<Rightarrow> bool" where
  "easy_pid pid \<longleftrightarrow> to_unsigned pid \<noteq> to_unsigned (-1) \<and> ptable_key (sample_process pid) < 2 ^ 30
     \<and> 0 \<le> ptable_key (sample_process pid)"

lemma easy_small: "0 \<le> pid \<Longrightarrow> pid < MAX_PID \<Longrightarrow> easy_pid pid"
  by (simp add: easy_pid_def to_unsigned_def ptable_key_def sample_process_def MAX_PID_def)

lemma process_match_iff:
  assumes "easy_pid pid"
  shows "process_match pr (sample_process pid) = 0 \<longleftrightarrow> pr_pid pr = to_unsigned pid"
  using assms by (simp add: process_match_def ptable_compare_def sample_process_def easy_pid_def)

lemma table_retrieve_ok:
  assumes "table_ok w ps" and "easy_pid pid"
  shows "\<exists>r. table_retrieve pid w = Inr r \<and>
    (case r of
       None \<Rightarrow> \<forall>p \<in> set ps. pid_at w p \<noteq> to_unsigned pid
     | Some p \<Rightarrow> p \<in> set ps \<and> ks_procs (w_k w) p \<noteq> None \<and> pid_at w p = to_unsigned pid)"
proof -
  let ?cmp = "\<lambda>p (_ :: nat). case ks_procs (w_k w) p of None \<Rightarrow> 1
      | Some pr \<Rightarrow> process_match pr (sample_process pid)"
  from assms(1) obtain t where t: "l_processTable w = Some t" "ht_ok t" "ht_bag t = mset ps"
    by (auto simp: table_ok_def)
  have key: "small_keys (\<lambda>_ :: nat. ptable_key (sample_process pid))"
    using assms(2) by (simp add: small_keys_def easy_pid_def)
  have un: "0 \<le> to_unsigned pid" by (simp add: to_unsigned_def)
  have cmp: "?cmp p 0 = 0 \<longleftrightarrow> ks_procs (w_k w) p \<noteq> None \<and> pid_at w p = to_unsigned pid" for p
    using process_match_iff [OF assms(2)] by (simp add: pid_at_def split: option.splits)
  have none: "?cmp p 0 \<noteq> 0 \<Longrightarrow> pid_at w p \<noteq> to_unsigned pid" for p
    using cmp [of p] un by (auto simp: pid_at_def)
  from retrieve_ok [OF t(2) key, of ?cmp 0] obtain r where
    r: "htable_retrieve (\<lambda>_. ptable_key (sample_process pid)) ?cmp t 0 = Inr r"
      "case r of None \<Rightarrow> \<forall>x \<in># ht_bag t. ?cmp x 0 \<noteq> 0 | Some x \<Rightarrow> x \<in># ht_bag t \<and> ?cmp x 0 = 0" by blast
  have "table_retrieve pid w = Inr r" using r(1) t(1) by (simp add: table_retrieve_def the_table_def)
  moreover have "case r of None \<Rightarrow> \<forall>p \<in> set ps. pid_at w p \<noteq> to_unsigned pid
     | Some p \<Rightarrow> p \<in> set ps \<and> ks_procs (w_k w) p \<noteq> None \<and> pid_at w p = to_unsigned pid"
    using r(2) t(3) none cmp by (cases r) auto
  ultimately show ?thesis by blast
qed

lemma unsigned_small [simp]: "0 \<le> i \<Longrightarrow> i < MAX_PID \<Longrightarrow> to_unsigned i = i"
  by (simp add: to_unsigned_def MAX_PID_def)

lemma retrieve_present:
  assumes "table_ok w ps" "pids_ok w ps" and "p \<in> set ps" "ks_procs (w_k w) p = Some pr"
  shows "table_retrieve (pr_pid pr) w = Inr (Some p)"
proof -
  have b: "0 \<le> pr_pid pr" "pr_pid pr < MAX_PID" using assms(2,4) by (auto simp: pids_ok_def)
  from table_retrieve_ok [OF assms(1) easy_small [OF b], unfolded unsigned_small [OF b]] obtain r where
    r: "table_retrieve (pr_pid pr) w = Inr r"
      "case r of None \<Rightarrow> \<forall>p \<in> set ps. pid_at w p \<noteq> pr_pid pr
       | Some q \<Rightarrow> q \<in> set ps \<and> ks_procs (w_k w) q \<noteq> None \<and> pid_at w q = pr_pid pr" by blast
  have p: "pid_at w p = pr_pid pr" using assms(4) by (simp add: pid_at_def)
  show ?thesis
  proof (cases r)
    case None
    with r(2) p assms(3) show ?thesis by auto
  next
    case (Some q)
    with r(2) have "q \<in> set ps" "pid_at w q = pid_at w p" using p by auto
    then have "q = p" using assms(2,3) by (auto simp: pids_ok_def dest: inj_onD)
    with r(1) Some show ?thesis by simp
  qed
qed

lemma retrieve_absent:
  assumes "table_ok w ps" and "0 \<le> pid" "pid < MAX_PID" and "\<forall>p \<in> set ps. pid_at w p \<noteq> pid"
  shows "table_retrieve pid w = Inr None"
  using table_retrieve_ok [OF assms(1) easy_small [OF assms(2,3)]] assms(2-4)
  by (auto split: option.splits)

section \<open>Fresh numbers\<close>

lemma next_pid_loop_step:
  assumes "(if temp \<noteq> to_unsigned (-1) then (let q = s32 (pid + 1) in if q < 0 then 2 else q) else pid) = start"
  shows "next_pid_loop (Suc n) temp pid w =
    bindR (table_retrieve start w) (\<lambda>r.
    if r \<noteq> None then next_pid_loop n (to_unsigned start) start w else Inr start)"
  unfolding next_pid_loop.simps assms Let_def [of start] by (rule refl)

lemma next_pid_loop_ok:
  assumes ok: "table_ok w ps"
    and start: "start = (if temp \<noteq> to_unsigned (-1) then pid + 1 else pid)" "0 \<le> start"
    and bound: "start + int n < MAX_PID"
    and room: "card {q \<in> pid_at w ` set ps. start \<le> q} < n"
  shows "\<exists>q. next_pid_loop n temp pid w = Inr q \<and> start \<le> q \<and> q < start + int n
    \<and> q \<notin> pid_at w ` set ps \<and> {start..<q} \<subseteq> pid_at w ` set ps"
  using assms(2-)
proof (induction n arbitrary: temp pid start)
  case (Suc n)
  have st: "(if temp \<noteq> to_unsigned (-1) then (let q = s32 (pid + 1) in if q < 0 then 2 else q) else pid) = start"
    using Suc.prems by (auto simp: MAX_PID_def Let_def)
  have b: "start < MAX_PID" using Suc.prems by simp
  show ?case
  proof (cases "start \<in> pid_at w ` set ps")
    case False
    then have "table_retrieve start w = Inr None"
      by (intro retrieve_absent [OF ok Suc.prems(2) b]) auto
    then have "next_pid_loop (Suc n) temp pid w = Inr start" by (simp only: next_pid_loop_step [OF st]) simp
    with False show ?thesis by (intro exI [of _ start]) simp
  next
    case True
    with table_retrieve_ok [OF ok easy_small [OF Suc.prems(2) b]] Suc.prems(2) b obtain p where
      p: "table_retrieve start w = Inr (Some p)" by (auto split: option.splits)
    let ?U = "pid_at w ` set ps"
    have "{q \<in> ?U. start \<le> q} = insert start {q \<in> ?U. start + 1 \<le> q}" using True by auto
    then have "card {q \<in> ?U. start \<le> q} = Suc (card {q \<in> ?U. start + 1 \<le> q})" by simp
    then have room: "card {q \<in> ?U. start + 1 \<le> q} < n" using Suc.prems(4) by simp
    have ne: "to_unsigned start \<noteq> to_unsigned (-1)"
      using easy_small [OF Suc.prems(2) b] by (simp add: easy_pid_def)
    from Suc.IH [of "start + 1" "to_unsigned start" start] ne Suc.prems(2,3) room obtain q where
      q: "next_pid_loop n (to_unsigned start) start w = Inr q" "start + 1 \<le> q" "q < start + 1 + int n"
        "q \<notin> ?U" "{start + 1..<q} \<subseteq> ?U" by auto
    have "next_pid_loop (Suc n) temp pid w = Inr q"
      using p q(1) by (simp only: next_pid_loop_step [OF st]) simp
    moreover have "{start..<q} = insert start {start + 1..<q}" using q(2) by auto
    ultimately show ?thesis using q True by (intro exI [of _ q]) auto
  qed
qed simp

section \<open>The family tree and the list\<close>

lemma family_okD:
  assumes "family_ok s root S kids" and "p \<in> S"
  shows "children s p (kids p)" "map_option f_object (s p) = Some p" "set (kids p) \<subseteq> S - {root}"
    "q \<in> S \<Longrightarrow> q \<noteq> p \<Longrightarrow> set (kids p) \<inter> set (kids q) = {}" "p \<notin> set (kids p)"
  using assms by (auto simp: family_ok_def children_def)

lemma family_insert:
  assumes ok: "family_ok s root S kids" and S: "root \<in> S" "p \<in> S" "x \<notin> S"
    and x: "s x = Some \<lparr>f_object = x, f_parent = None, f_child = None, f_prev = None, f_next = None\<rparr>"
  shows "\<exists>s'. family_add_child p x s = Inr s'
    \<and> family_ok s' root (insert x S) (kids(p := x # kids p, x := []))"
proof -
  note d = family_okD [OF ok]
  have xp: "x \<noteq> p" using S by auto
  have xk: "x \<notin> set (kids q)" if "q \<in> S" for q using d(3) [OF that] S(3) by auto
  from family_add_child_ok [OF d(1) [OF S(2)] x] xp xk [OF S(2)] obtain s' where s':
    "family_add_child p x s = Inr s'" "children s' p (x # kids p)" by auto
  let ?k = "kids(p := x # kids p, x := [])"
  note keep = family_add_child_keeps [OF s'(1)]
  have ch: "children s' q (?k q)" if q: "q \<in> insert x S" for q
  proof (cases "q = x")
    case True
    have "map_option f_child (s' x) = Some None" using keep(2) [of x] x xp by simp
    then show ?thesis using True by (auto simp: children_def)
  next
    case False
    with q have qS: "q \<in> S" by simp
    show ?thesis
    proof (cases "q = p")
      case True
      then show ?thesis using s'(2) xp by simp
    next
      case qp: False
      have "children s' q (kids q)"
      proof (rule children_frame_links [where s' = s', OF d(1) [OF qS] keep(2) [OF qp]])
        fix y
        assume y: "y \<in> set (kids q)"
        with d(3) [OF qS] d(4) [OF qS S(2)] qp S(3) have "y \<notin> set (x # kids p)" by auto
        then show "links s' y = links s y" by (rule family_add_child_links [OF s'(1) d(1) [OF S(2)]])
      qed
      then show ?thesis using qp False by simp
    qed
  qed
  from ok obtain par where par: "\<forall>p \<in> S. set (kids p) = {q \<in> S - {root}. par q = p}"
    by (auto simp: family_ok_def)
  from ok obtain rank :: "nat \<Rightarrow> nat" where rank: "\<forall>p \<in> S. \<forall>q \<in> set (kids p). rank p < rank q"
    by (auto simp: family_ok_def)
  from ok have cov: "\<forall>q \<in> S - {root}. \<exists>p \<in> S. q \<in> set (kids p)" by (simp add: family_ok_def)
  have parS: "par y \<in> S" if y: "y \<in> S - {root}" for y
  proof -
    from cov y obtain p' where p': "p' \<in> S" "y \<in> set (kids p')" by blast
    from bspec [OF par p'(1)] p' have "par y = p'" by simp
    with p'(1) show ?thesis by simp
  qed
  have "\<forall>q \<in> insert x S. set (?k q) = {y \<in> insert x S - {root}. (par(x := p)) y = q}"
  proof
    fix q
    assume q: "q \<in> insert x S"
    show "set (?k q) = {y \<in> insert x S - {root}. (par(x := p)) y = q}"
    proof (cases "q = x")
      case True
      have "(par(x := p)) y \<noteq> x" if "y \<in> insert x S - {root}" for y
        using parS [of y] that S(3) xp by (cases "y = x") auto
      then have e: "{y \<in> insert x S - {root}. (par(x := p)) y = x} = {}" by blast
      show ?thesis unfolding True e by simp
    next
      case False
      then have qS: "q \<in> S" using q by simp
      have "(par(x := p)) x = p" by simp
      then show ?thesis using bspec [OF par qS] False S xp by (cases "q = p") auto
    qed
  qed
  moreover have "\<forall>q \<in> insert x S - {root}. \<exists>p' \<in> insert x S. q \<in> set (?k p')"
  proof
    fix q
    assume q: "q \<in> insert x S - {root}"
    show "\<exists>p' \<in> insert x S. q \<in> set (?k p')"
    proof (cases "q = x")
      case True
      then show ?thesis using S xp by (intro bexI [of _ p]) auto
    next
      case False
      with q cov obtain p' where "p' \<in> S" "q \<in> set (kids p')" by auto
      then show ?thesis using S by (intro bexI [of _ p']) auto
    qed
  qed
  moreover have "\<forall>p' \<in> insert x S. \<forall>q \<in> set (?k p'). (rank(x := Suc (rank p))) p' < (rank(x := Suc (rank p))) q"
    using rank xk S xp by auto
  moreover have "map_option f_object (s' q) = Some q" if "q \<in> insert x S" for q
    using keep(1) [of q] d(2) [of q] x that by auto
  ultimately have "family_ok s' root (insert x S) ?k" unfolding family_ok_def using ch by blast
  with s'(1) show ?thesis by blast
qed

text \<open>A process leaves: its children go to its parent, in front of the parent's own.\<close>

lemma family_delete_tree:
  assumes ok: "family_ok s root S kids" and x: "x \<in> S" "x \<noteq> root" and p: "p \<in> S" "x \<in> set (kids p)"
  defines "k \<equiv> kids(p := rev (kids x) @ remove1 x (kids p), x := [])"
  shows "(\<exists>par. \<forall>p \<in> S - {x}. set (k p) = {q \<in> S - {x} - {root}. par q = p})
    \<and> (\<forall>q \<in> S - {x} - {root}. \<exists>p \<in> S - {x}. q \<in> set (k p))
    \<and> (\<exists>rank :: nat \<Rightarrow> nat. \<forall>p \<in> S - {x}. \<forall>q \<in> set (k p). rank p < rank q)"
proof -
  note d = family_okD [OF ok]
  have xp: "x \<noteq> p" using d(5) [OF p(1)] p(2) by auto
  from ok obtain par where par: "\<forall>p \<in> S. set (kids p) = {q \<in> S - {root}. par q = p}"
    by (auto simp: family_ok_def)
  from ok obtain rank :: "nat \<Rightarrow> nat" where rank: "\<forall>p \<in> S. \<forall>q \<in> set (kids p). rank p < rank q"
    by (auto simp: family_ok_def)
  have "distinct (kids p)" using d(1) [OF p(1)] by (simp add: children_def)
  then have sk: "set (k p) = set (kids x) \<union> (set (kids p) - {x})" using xp by (auto simp: k_def)
  have nx: "x \<notin> set (kids q)" if "q \<in> S" "q \<noteq> p" for q using d(4) [OF that(1) p(1)] that(2) p(2) by auto
  have one: "set (k q) = {y \<in> S - {x} - {root}. (\<lambda>y. if par y = x then p else par y) y = q}"
    if q: "q \<in> S - {x}" for q
  proof (cases "q = p")
    case True
    then show ?thesis unfolding True sk using par x p xp nx [OF x(1) xp] by auto
  next
    case False
    then have "set (k q) = set (kids q)" using q by (simp add: k_def)
    then show ?thesis using par q False nx [of q] by auto
  qed
  have "\<forall>q \<in> S - {x}. set (k q) = {y \<in> S - {x} - {root}. (\<lambda>y. if par y = x then p else par y) y = q}"
    using one by blast
  then have par': "\<exists>par. \<forall>q \<in> S - {x}. set (k q) = {y \<in> S - {x} - {root}. par y = q}"
    by (intro exI [of _ "\<lambda>y. if par y = x then p else par y"])
  have "rank q < rank y" if "q \<in> S - {x}" "y \<in> set (k q)" for q y
  proof (cases "q = p")
    case True
    have "rank p < rank x" using rank p by simp
    moreover have "y \<in> set (kids x) \<Longrightarrow> rank x < rank y" using rank x(1) by simp
    moreover have "y \<in> set (kids p) \<Longrightarrow> rank p < rank y" using rank p(1) by simp
    ultimately show ?thesis using that(2) sk True by auto
  next
    case False
    then show ?thesis using that rank by (auto simp: k_def)
  qed
  then have "\<forall>p \<in> S - {x}. \<forall>q \<in> set (k p). rank p < rank q" by blast
  then have "\<exists>rank :: nat \<Rightarrow> nat. \<forall>p \<in> S - {x}. \<forall>q \<in> set (k p). rank p < rank q"
    by (intro exI [of _ rank])
  moreover have "\<forall>q \<in> S - {x} - {root}. \<exists>p \<in> S - {x}. q \<in> set (k p)"
  proof
    fix q
    assume q: "q \<in> S - {x} - {root}"
    moreover have "\<forall>q \<in> S - {root}. \<exists>p \<in> S. q \<in> set (kids p)" using ok by (simp add: family_ok_def)
    ultimately obtain r where r: "r \<in> S" "q \<in> set (kids r)" by blast
    show "\<exists>p \<in> S - {x}. q \<in> set (k p)"
    proof (cases "r = x \<or> r = p")
      case True
      then show ?thesis using r q sk p xp by (intro bexI [of _ p]) auto
    next
      case False
      then show ?thesis using r by (intro bexI [of _ r]) (auto simp: k_def)
    qed
  qed
  ultimately show ?thesis using par' by (intro conjI)
qed

lemma family_delete:
  assumes ok: "family_ok s root S kids" and x: "x \<in> S" "x \<noteq> root" and p: "p \<in> S" "x \<in> set (kids p)"
    and fuel: "length (kids x) \<le> fuel"
  shows "\<exists>n s1 s2. s x = Some n \<and> f_parent n = Some p \<and> family_adopt fuel p x s = Inr s1
    \<and> family_remove x s1 = Inr s2
    \<and> family_ok s2 root (S - {x}) (kids(p := rev (kids x) @ remove1 x (kids p), x := []))"
proof -
  note d = family_okD [OF ok]
  have xp: "x \<noteq> p" using d(5) [OF p(1)] p(2) by auto
  have dj: "set (kids x) \<inter> set (kids p) = {}" using d(4) [OF x(1) p(1)] xp by auto
  have nk: "p \<notin> set (kids x)"
  proof
    assume a: "p \<in> set (kids x)"
    from ok obtain rank :: "nat \<Rightarrow> nat" where "\<forall>p \<in> S. \<forall>q \<in> set (kids p). rank p < rank q"
      by (auto simp: family_ok_def)
    then have "rank x < rank p" "rank p < rank x" using a x p by auto
    then show False by simp
  qed
  from p(2) obtain as bs where ab: "kids p = as @ x # bs" "x \<notin> set as" by (meson split_list_first)
  have "distinct (p # kids x @ kids p)"
    using d(1) [OF x(1)] d(1) [OF p(1)] dj nk by (auto simp: children_def)
  from family_adopt_ok [OF d(1) [OF x(1)] d(1) [OF p(1)] this _ fuel] xp d(5) [OF x(1)] obtain s1 where s1:
    "family_adopt fuel p x s = Inr s1" "children s1 p ((rev (kids x) @ as) @ x # bs)" "children s1 x []"
    "\<forall>y. y \<notin> set (kids x @ kids p) \<longrightarrow> links s1 y = links s y" using ab by auto
  from family_remove_correct [OF s1(2)] obtain s2 where s2: "family_remove x s1 = Inr s2"
    "children s2 p ((rev (kids x) @ as) @ bs)" by blast
  from s1(2) obtain n1 where n1: "s1 x = Some n1" "f_parent n1 = Some p"
    by (auto simp: children_def sibs_append)
  from d(1) [OF p(1)] ab obtain n where n: "s x = Some n" "f_parent n = Some p"
    by (auto simp: children_def sibs_append)
  let ?k = "kids(p := rev (kids x) @ remove1 x (kids p), x := [])"
  have kp: "?k p = (rev (kids x) @ as) @ bs" using ab xp by (simp add: remove1_append)
  have ch: "children s2 q (?k q)" if q: "q \<in> S - {x}" for q
  proof (cases "q = p")
    case True
    then show ?thesis using s2(2) kp by simp
  next
    case False
    have qS: "q \<in> S" "q \<noteq> x" using q by auto
    have "map_option f_child (s2 q) = map_option f_child (s q)"
      using family_adopt_keeps(2) [OF s1(1), of q] family_remove_keeps(2) [OF s2(1) n1(1), of q] n1(2) False qS
      by simp
    moreover have "links s2 y = links s y" if y: "y \<in> set (kids q)" for y
    proof -
      have "y \<notin> set (kids x @ kids p)" using y d(4) [OF qS(1) x(1)] d(4) [OF qS(1) p(1)] False qS by auto
      moreover from this have "y \<notin> set ((rev (kids x) @ as) @ x # bs)" using ab by auto
      ultimately show ?thesis using s1(4) family_remove_links [OF s2(1) s1(2)] by simp
    qed
    ultimately have "children s2 q (kids q)" by (rule children_frame_links [where s' = s2, OF d(1) [OF qS(1)]])
    then show ?thesis using False qS by simp
  qed
  have "map_option f_object (s2 q) = Some q" if "q \<in> S - {x}" for q
    using family_adopt_keeps(1) [OF s1(1), of q] family_remove_keeps(1) [OF s2(1), of q] d(2) [of q] that by simp
  with ch family_delete_tree [OF ok x p] have "family_ok s2 root (S - {x}) ?k"
    unfolding family_ok_def by blast
  with n s1(1) s2(1) show ?thesis by blast
qed

lemma linear_insert:
  assumes ok: "linear_ok s (r # ps)" and x: "s x = Some n" "l_object n = x" "x \<notin> set (r # ps)"
  shows "\<exists>s'. list_insertAfter r x s = Inr s' \<and> linear_ok s' (r # x # ps)"
proof -
  from ok have l: "dls s None ([r] @ ps) None" "distinct ([r] @ ps)" by (simp_all add: linear_ok_def)
  from list_insertAfter_ok [OF l, of "[]" r x n] x obtain s' where s': "list_insertAfter r x s = Inr s'"
    "dls s' None ([r] @ x # ps) None" by auto
  have "map_option l_object (s' p) = Some p" if "p \<in> set (r # x # ps)" for p
    using list_insertAfter_object [OF s'(1), of p] ok x that by (auto simp: linear_ok_def)
  with s' l(2) x(3) show ?thesis by (auto simp: linear_ok_def)
qed

lemma linear_remove:
  assumes ok: "linear_ok s (r # ps)" and x: "x \<in> set ps"
  shows "\<exists>s'. list_remove x s = Inr s' \<and> linear_ok s' (r # remove1 x ps)"
proof -
  from x obtain as bs where ab: "ps = as @ x # bs" "x \<notin> set as" by (meson split_list_first)
  from ok have l: "dls s None ((r # as) @ x # bs) None" "distinct ((r # as) @ x # bs)"
    using ab by (simp_all add: linear_ok_def)
  from list_remove_ok [OF l] obtain s' where s': "list_remove x s = Inr s'" "dls s' None ((r # as) @ bs) None"
    by auto
  have "map_option l_object (s' p) = Some p" if "p \<in> set (r # as @ bs)" for p
    using list_remove_object [OF s'(1), of p] ok that ab by (auto simp: linear_ok_def)
  with s' l(2) ab show ?thesis by (auto simp: linear_ok_def remove1_append)
qed

section \<open>The hash table\<close>

text \<open>The table can take one more entry, also when it cannot grow.\<close>

definition table_room :: "world \<Rightarrow> bool" where
  "table_room w \<longleftrightarrow> (\<exists>t. l_processTable w = Some t \<and> ht_total t < ht_size t \<and> 2 * ht_size t < 8388608)"

lemma put_heap_simps [simp]:
  "w_heap (put_heap h w) = h" "ks_procs (w_k (put_heap h w)) = ks_procs (w_k w)"
  "w_list (put_heap h w) = w_list w" "w_family (put_heap h w) = w_family w" "w_rw (put_heap h w) = w_rw w"
  "l_processTable (put_heap h w) = l_processTable w" "l_rootProcess (put_heap h w) = l_rootProcess w"
  "l_processLock (put_heap h w) = l_processLock w" "l_PID (put_heap h w) = l_PID w"
  by (simp_all add: put_heap_def w_heap_def)

lemma w_heap_upd [simp]:
  "w_heap (w\<lparr>l_processTable := t\<rparr>) = w_heap w" "w_heap (w\<lparr>w_list := l\<rparr>) = w_heap w"
  "w_heap (w\<lparr>w_family := f\<rparr>) = w_heap w" "w_heap (w\<lparr>w_rw := r\<rparr>) = w_heap w"
  "w_heap (w\<lparr>l_rootProcess := q\<rparr>) = w_heap w" "w_heap (w\<lparr>l_PID := i\<rparr>) = w_heap w"
  by (simp_all add: w_heap_def)

lemma pid_at_cong: "ks_procs (w_k w') = ks_procs (w_k w) \<Longrightarrow> pid_at w' = pid_at w"
  by (simp add: pid_at_def fun_eq_iff)

lemma pids_ok_cong: "ks_procs (w_k w') = ks_procs (w_k w) \<Longrightarrow> pids_ok w' ps = pids_ok w ps"
  using pid_at_cong [of w' w] by (simp add: pids_ok_def)

lemma table_insert_ok:
  assumes "table_ok w ps" "pids_ok w qs" "table_room w"
  shows "\<exists>t h. table_insert p w = Inr ((put_heap h w)\<lparr>l_processTable := Some t\<rparr>)
    \<and> table_ok ((put_heap h w)\<lparr>l_processTable := Some t\<rparr>) (p # ps)"
proof -
  from assms(1,3) obtain t where t: "l_processTable w = Some t" "ht_ok t" "ht_live (live (w_heap w)) t"
    "ht_bag t = mset ps" "kernel_heap_ok (w_heap w)" "ht_total t < ht_size t" "2 * ht_size t < 8388608"
    by (auto simp: table_ok_def table_room_def)
  from kheap.insert_ok [OF t(2) small_table_key [OF assms(2)] t(5,3,7), of p] t(6) obtain t' h' where
    "htable_insert liballoc_subsystem (table_key w) t p (w_heap w) = Inr ((0, t'), h')"
    "kernel_heap_ok h'" "ht_live (live h') t'" "ht_ok t'" "ht_bag t' = add_mset p (ht_bag t)" by auto
  then show ?thesis using t by (intro exI [of _ t'] exI [of _ h']) (simp add: table_insert_def the_table_def table_ok_def)
qed

lemma table_remove_ok:
  assumes "table_ok w ps" "pids_ok w qs"
  shows "\<exists>t h. table_remove p w = Inr ((put_heap h w)\<lparr>l_processTable := Some t\<rparr>)
    \<and> table_ok ((put_heap h w)\<lparr>l_processTable := Some t\<rparr>) (remove1 p ps)"
proof -
  from assms(1) obtain t where t: "l_processTable w = Some t" "ht_ok t" "ht_live (live (w_heap w)) t"
    "ht_bag t = mset ps" "kernel_heap_ok (w_heap w)"
    by (auto simp: table_ok_def)
  from kheap.remove_ok [OF t(2) small_table_key [OF assms(2)] t(5,3), of p] obtain rc t' h' where
    "htable_remove liballoc_subsystem (table_key w) t p (w_heap w) = Inr ((rc, t'), h')"
    "kernel_heap_ok h'" "ht_live (live h') t'" "ht_ok t'" "ht_bag t' = ht_bag t - {#p#}" by auto
  then show ?thesis using t by (intro exI [of _ t'] exI [of _ h']) (simp add: table_remove_def the_table_def table_ok_def)
qed

lemma table_ok_hold [simp]: "table_ok (hold k a w) ps = table_ok w ps"
  by (simp add: table_ok_def)

lemma table_ok_upd [simp]:
  "table_ok (w\<lparr>w_list := l\<rparr>) ps = table_ok w ps" "table_ok (w\<lparr>w_family := f\<rparr>) ps = table_ok w ps"
  "table_ok (w\<lparr>w_rw := r\<rparr>) ps = table_ok w ps"
  by (simp_all add: table_ok_def)

lemma table_room_upd [simp]:
  "table_room (w\<lparr>w_list := l\<rparr>) = table_room w" "table_room (w\<lparr>w_family := f\<rparr>) = table_room w"
  "table_room (hold k a w) = table_room w"
  by (simp_all add: table_room_def)

section \<open>Properties\<close>

text \<open>
  C32: \<^verbatim>\<open>next_pid\<close> returns and gives the smallest number from the counter on that no process has. The
  counter then stands behind it and nothing else changes.
\<close>

theorem next_pid_fresh:
  assumes ok: "processes_ok w root ps kids" and pid: "0 \<le> l_PID w" "l_PID w + int (length ps) + 3 < MAX_PID"
  shows "\<exists>pid. next_pid w = Inr (pid, w\<lparr>l_PID := pid + 1\<rparr>) \<and> l_PID w \<le> pid
    \<and> pid \<notin> pid_at w ` set (root # ps) \<and> {l_PID w..<pid} \<subseteq> pid_at w ` set (root # ps)"
proof -
  note d = processes_okD [OF ok]
  have tt: "table_total w = Suc (length ps)" using table_total_eq [OF d(2)] by simp
  let ?U = "pid_at w ` set (root # ps)"
  have "card {q \<in> ?U. l_PID w \<le> q} \<le> card ?U" by (rule card_mono) auto
  also have "\<dots> \<le> card (set (root # ps))" by (rule card_image_le) simp
  also have "\<dots> \<le> Suc (length ps)" using card_length [of "root # ps"] by simp
  finally have "card {q \<in> ?U. l_PID w \<le> q} < table_total w + 2" using tt by simp
  then obtain q where q: "next_pid_loop (table_total w + 2) (to_unsigned (-1)) (l_PID w) w = Inr q"
    "l_PID w \<le> q" "q < l_PID w + int (table_total w + 2)" "q \<notin> ?U" "{l_PID w..<q} \<subseteq> ?U"
    using next_pid_loop_ok [OF d(2), of "l_PID w" "to_unsigned (-1)" "l_PID w" "table_total w + 2"] pid tt
    by auto
  have "s32 (q + 1) = q + 1" using q(2,3) pid tt by (simp add: MAX_PID_def)
  with q show ?thesis by (intro exI [of _ q]) (simp add: next_pid_def)
qed

text \<open>
  C28: \<^verbatim>\<open>insert_process\<close> on a well-formed process table, with the process lock free: the new process
  becomes the first child of the process with the given number and follows the root in the list; the
  invariant of table, list and tree holds with it, a lookup of its number finds it, its number is the
  result, and the lock is free again.
\<close>

theorem insert_process_correct:
  assumes ok: "processes_ok w root ps kids" and free: "lock_free (l_processLock w) w" and room: "table_room w"
    and par: "par \<in> set (root # ps)" "ks_procs (w_k w) par = Some ppr" "pr_pid ppr = pid"
    and new: "ks_procs (w_k w) p = Some pr" "p \<notin> set (root # ps)" "pr_pid pr \<notin> pid_at w ` set (root # ps)"
    and nodes: "w_list w p = Some \<lparr>l_object = p, l_prev = None, l_next = None\<rparr>"
      "w_family w p = Some \<lparr>f_object = p, f_parent = None, f_child = None, f_prev = None, f_next = None\<rparr>"
  shows "\<exists>w'. insert_process pid p w = Inr (pr_pid pr, w')
    \<and> processes_ok w' root (p # ps) (kids(par := p # kids par, p := []))
    \<and> table_retrieve (pr_pid pr) w' = Inr (Some p) \<and> ks_procs (w_k w') = ks_procs (w_k w) \<and> w_rw w' = w_rw w"
proof -
  note d = processes_okD [OF ok]
  let ?l = "l_processLock w" and ?k = "kids(par := p # kids par, p := [])"
  from d(3) par(2) have b: "0 \<le> pid" "pid < MAX_PID" using par(3) by (auto simp: pids_ok_def)
  from d(3) new(1) have pb: "0 \<le> pr_pid pr" "pr_pid pr < MAX_PID" by (auto simp: pids_ok_def)
  define w1 where "w1 = hold Writer ?l w"
  have r: "table_retrieve pid w1 = Inr (Some par)"
    using retrieve_present [of w1 "root # ps" par ppr] d(2,3) par pids_ok_cong [of w1 w]
    by (simp add: w1_def)
  from family_insert [OF d(5) _ par(1) new(2) nodes(2)] obtain f where
    f: "family_add_child par p (w_family w) = Inr f" "family_ok f root (set (root # p # ps)) ?k"
    by (auto simp: insert_commute)
  from linear_insert [OF d(4) nodes(1) _ new(2)] obtain l where
    l: "list_insertAfter root p (w_list w) = Inr l" "linear_ok l (root # p # ps)" by auto
  define w3 where "w3 = w1\<lparr>w_family := f, w_list := l\<rparr>"
  have w3: "table_ok w3 (root # ps)" "pids_ok w3 (root # ps)" "table_room w3"
    using d(2,3) room pids_ok_cong [of w3 w] by (simp_all add: w3_def w1_def)
  from table_insert_ok [OF w3, of p] obtain t h where
    t: "table_insert p w3 = Inr ((put_heap h w3)\<lparr>l_processTable := Some t\<rparr>)"
      "table_ok ((put_heap h w3)\<lparr>l_processTable := Some t\<rparr>) (p # root # ps)" by blast
  define w4 where "w4 = (put_heap h w3)\<lparr>l_processTable := Some t\<rparr>"
  define w5 where "w5 = w4\<lparr>w_rw := w_rw w\<rparr>"
  have "w_rw w4 ?l = Some (held_lock Writer)" by (simp add: w4_def w3_def w1_def)
  from release_held [OF this] have rel: "rwlock_release (l_processLock w4) w4 = Inr w5"
    using free by (simp add: w5_def w4_def w3_def w1_def lock_free_iff fun_upd_idem)
  have "insert_process pid p w = Inr (pr_pid pr, w5)"
    using new(1) d(1) b write_free [OF free] r f(1) l(1) t(1) rel pb
    by (simp add: insert_process_def get_process_def get_proc_def w1_def on_family_def on_list_def w3_def
        w4_def MAX_PID_def)
  moreover have ok5: "processes_ok w5 root (p # ps) ?k"
  proof -
    have pr: "ks_procs (w_k w5) = ks_procs (w_k w)" by (simp add: w5_def w4_def w3_def w1_def)
    have "pids_ok w (root # p # ps)" using d(3) new by (auto simp: pids_ok_def pid_at_def)
    then have "pids_ok w5 (root # p # ps)" using pids_ok_cong [OF pr] by simp
    moreover have "table_ok w5 (root # p # ps)"
      using t(2) by (simp add: w5_def w4_def table_ok_def add_mset_commute)
    ultimately show ?thesis using d(1) f(2) l(2)
      by (simp add: processes_ok_def w5_def w4_def w3_def w1_def)
  qed
  moreover have "table_retrieve (pr_pid pr) w5 = Inr (Some p)"
    by (rule retrieve_present [OF processes_okD(2,3) [OF ok5]]) (use new(1) in \<open>simp_all add: w5_def w4_def w3_def w1_def\<close>)
  ultimately show ?thesis by (intro exI [of _ w5]) (simp add: w5_def w4_def w3_def w1_def)
qed

text \<open>
  C29: \<^verbatim>\<open>remove_process\<close> of a process other than the root, with the process lock free: its children
  go to its parent, table, list and tree lose exactly this process and keep their invariant, its number
  is not found any more, and the lock is free again.
\<close>

theorem remove_process_correct:
  assumes ok: "processes_ok w root ps kids" and free: "lock_free (l_processLock w) w" and p: "p \<in> set ps"
  shows "\<exists>par w'. par \<in> set (root # ps) \<and> p \<in> set (kids par) \<and> remove_process p w = Inr w'
    \<and> processes_ok w' root (remove1 p ps) (kids(par := rev (kids p) @ remove1 p (kids par), p := []))
    \<and> table_retrieve (pid_at w p) w' = Inr None \<and> ks_procs (w_k w') = ks_procs (w_k w) \<and> w_rw w' = w_rw w"
proof -
  note d = processes_okD [OF ok]
  let ?l = "l_processLock w" and ?S = "set (root # ps)"
  have dist: "distinct (root # ps)" using d(4) by (simp add: linear_ok_def)
  have pr: "p \<in> ?S" "p \<noteq> root" using p dist by auto
  have "\<forall>q \<in> ?S - {root}. \<exists>p \<in> ?S. q \<in> set (kids p)" using d(5) unfolding family_ok_def by (elim conjE)
  then obtain par where par: "par \<in> ?S" "p \<in> set (kids par)" using pr by blast
  let ?k = "kids(par := rev (kids p) @ remove1 p (kids par), p := [])"
  define w1 where "w1 = hold Writer ?l w"
  have tt: "table_total w1 = length (root # ps)" by (rule table_total_eq) (use d(2) in \<open>simp add: w1_def\<close>)
  have "distinct (kids p)" using family_okD(1) [OF d(5) pr(1)] by (simp add: children_def)
  then have "length (kids p) = card (set (kids p))" by (simp add: distinct_card)
  also have "\<dots> \<le> card ?S" using family_okD(3) [OF d(5) pr(1)] by (intro card_mono) auto
  also have "\<dots> \<le> table_total w1" unfolding tt by (rule card_length)
  finally have fuel: "length (kids p) \<le> table_total w1" .
  from family_delete [OF d(5) pr par fuel] obtain n f1 f2 where f: "w_family w p = Some n" "f_parent n = Some par"
    "family_adopt (table_total w1) par p (w_family w) = Inr f1" "family_remove p f1 = Inr f2"
    "family_ok f2 root (?S - {p}) ?k" by blast
  have po: "map_option f_object (w_family w par) = Some par" by (rule family_okD(2) [OF d(5) par(1)])
  then have pa: "PARENT p w1 = Inr (Some par)"
    using f(1,2) by (auto simp: PARENT_def family_link_def w1_def load_fam_def)
  from linear_remove [OF d(4) p] obtain l where
    l: "list_remove p (w_list w) = Inr l" "linear_ok l (root # remove1 p ps)" by blast
  define w4 where "w4 = w1\<lparr>w_family := f2, w_list := l\<rparr>"
  have w4: "table_ok w4 (root # ps)" "pids_ok w4 (root # ps)"
    using d(2,3) pids_ok_cong [of w4 w] by (simp_all add: w4_def w1_def)
  from table_remove_ok [OF w4, of p] obtain t h where
    t: "table_remove p w4 = Inr ((put_heap h w4)\<lparr>l_processTable := Some t\<rparr>)"
      "table_ok ((put_heap h w4)\<lparr>l_processTable := Some t\<rparr>) (root # remove1 p ps)" using pr(2) by auto
  define w5 where "w5 = (put_heap h w4)\<lparr>l_processTable := Some t\<rparr>"
  define w6 where "w6 = w5\<lparr>w_rw := w_rw w\<rparr>"
  have "w_rw w5 ?l = Some (held_lock Writer)" by (simp add: w5_def w4_def w1_def)
  from release_held [OF this] have rel: "rwlock_release (l_processLock w5) w5 = Inr w6"
    using free by (simp add: w6_def w5_def w4_def w1_def lock_free_iff fun_upd_idem)
  have "remove_process p w = Inr w6"
    using write_free [OF free] pa f(3,4) l(1) t(1) rel
    by (simp add: remove_process_def w1_def on_family_def on_list_def w4_def w5_def)
  moreover have ok6: "processes_ok w6 root (remove1 p ps) ?k"
  proof -
    have "set (root # remove1 p ps) \<subseteq> ?S" using set_remove1_subset [of p ps] by auto
    then have "pids_ok w (root # remove1 p ps)"
      using d(3) inj_on_subset unfolding pids_ok_def by blast
    then have "pids_ok w6 (root # remove1 p ps)"
      using pids_ok_cong [of w6 w] by (simp add: w6_def w5_def w4_def w1_def)
    moreover have "?S - {p} = set (root # remove1 p ps)" using dist pr(2) by auto
    ultimately show ?thesis using d(1) f(5) l(2) t(2)
      by (simp add: processes_ok_def w6_def w5_def w4_def w1_def)
  qed
  moreover have "table_retrieve (pid_at w p) w6 = Inr None"
  proof (rule retrieve_absent [OF processes_okD(2) [OF ok6]])
    from d(3) pr(1) show "0 \<le> pid_at w p" "pid_at w p < MAX_PID" by (auto simp: pids_ok_def pid_at_def)
    have "pid_at w6 = pid_at w" by (rule pid_at_cong) (simp add: w6_def w5_def w4_def w1_def)
    moreover have "pid_at w q \<noteq> pid_at w p" if "q \<in> set (root # remove1 p ps)" for q
    proof -
      have "q \<in> ?S" "q \<noteq> p" using that dist pr(2) set_remove1_subset [of p ps] by auto
      with d(3) pr(1) show ?thesis unfolding pids_ok_def by (blast dest: inj_onD)
    qed
    ultimately show "\<forall>q \<in> set (root # remove1 p ps). pid_at w6 q \<noteq> pid_at w p" by simp
  qed
  ultimately show ?thesis using par
    by (intro exI [of _ par] exI [of _ w6]) (simp add: w6_def w5_def w4_def w1_def)
qed

text \<open>
  C30: \<^verbatim>\<open>checkout_process\<close> followed by \<^verbatim>\<open>commit_process\<close>. A number that no process has gives the null
  pointer, and the state is as it was. Otherwise the result is the process with this number, and only
  two locks have changed: the process lock is held by one reader, the lock of the process by one reader
  for \<^verbatim>\<open>READER\<close> and by the writer for every other mode. Until the commit the insertion of any process, the
  removal of any process, the listing of all processes and a checkout of the same process by a
  writer wait; a checkout of it by a reader succeeds beside a reader and waits for a writer. The
  commit restores the state.
\<close>

theorem checkout_commit_process:
  assumes ok: "processes_ok w root ps kids" and free: "lock_free (l_processLock w) w"
    and pid: "0 \<le> pid" "pid < MAX_PID"
    and locks: "\<forall>p \<in> set (root # ps). \<forall>pr. ks_procs (w_k w) p = Some pr \<longrightarrow>
      lock_free (pr_lock pr) w \<and> pr_lock pr \<noteq> l_processLock w"
  shows "(pid \<notin> pid_at w ` set (root # ps) \<and> checkout_process pid flags w = Inr (None, w))
    \<or> (\<exists>p pr w'. p \<in> set (root # ps) \<and> ks_procs (w_k w) p = Some pr \<and> pr_pid pr = pid
        \<and> checkout_process pid flags w = Inr (Some p, w')
        \<and> w' = w\<lparr>w_rw := (w_rw w)(l_processLock w \<mapsto> held_lock Reader,
                              pr_lock pr \<mapsto> held_lock (if flags = READER then Reader else Writer))\<rparr>
        \<and> (\<forall>q n. ks_procs (w_k w) q \<noteq> None \<longrightarrow> 0 \<le> n \<longrightarrow> insert_process n q w' = Inl Hang)
        \<and> (\<forall>q. remove_process q w' = Inl Hang) \<and> (\<forall>limit list. process_get_list limit list w' = Inl Hang)
        \<and> (\<forall>f. f \<noteq> READER \<longrightarrow> checkout_process pid f w' = Inl Hang)
        \<and> (if flags = READER then \<exists>w''. checkout_process pid READER w' = Inr (Some p, w'')
            else checkout_process pid READER w' = Inl Hang)
        \<and> commit_process p w' = Inr w)"
proof -
  note d = processes_okD [OF ok]
  let ?l = "l_processLock w"
  define w1 where "w1 = hold Reader ?l w"
  have ok1: "table_ok w1 (root # ps)" "pids_ok w1 (root # ps)"
    using d(2,3) pids_ok_cong [of w1 w] by (simp_all add: w1_def)
  have pa: "pid_at w1 = pid_at w" by (rule pid_at_cong) (simp add: w1_def)
  have rd: "rwlock_get_read_access ?l w = Inr w1" unfolding w1_def by (rule read_free [OF free])
  show ?thesis
  proof (cases "pid \<in> pid_at w ` set (root # ps)")
    case False
    then have r: "table_retrieve pid w1 = Inr None"
      by (intro retrieve_absent [OF ok1(1) pid]) (auto simp: pa)
    moreover have "rwlock_release (l_processLock w1) w1 = Inr w"
      using release_hold [OF free] by (simp add: w1_def)
    ultimately show ?thesis using False rd by (simp add: checkout_process_def)
  next
    case True
    then obtain p where p: "p \<in> set (root # ps)" "pid_at w p = pid" by blast
    then obtain pr where pr: "ks_procs (w_k w) p = Some pr" "pr_pid pr = pid"
      using pid(1) by (cases "ks_procs (w_k w) p") (simp_all add: pid_at_def)
    have r: "table_retrieve pid w1 = Inr (Some p)"
      using retrieve_present [OF ok1 p(1), of pr] pr by (simp add: w1_def)
    from locks p(1) pr(1) have lk: "lock_free (pr_lock pr) w" "pr_lock pr \<noteq> ?l" by auto
    define k where "k = (if flags = READER then Reader else Writer)"
    define w2 where "w2 = hold k (pr_lock pr) w1"
    have lk1: "lock_free (pr_lock pr) w1" using lk by (simp add: w1_def lock_free_hold)
    have co: "checkout_process pid flags w = Inr (Some p, w2)"
      using rd r pr(1) read_free [OF lk1] write_free [OF lk1]
      by (simp add: checkout_process_def get_process_def get_proc_def w1_def w2_def k_def)
    have "rwlock_release (pr_lock pr) w2 = Inr w1" unfolding w2_def by (rule release_hold [OF lk1])
    then have cm: "commit_process p w2 = Inr w"
      using pr(1) release_hold [OF free, of Reader]
      by (simp add: commit_process_def get_process_def get_proc_def w2_def w1_def)
    have h2: "w_rw w2 ?l = Some (held_lock Reader)" "l_processLock w2 = ?l" "w_k w2 = w_k w" "l_rootProcess w2 = Some root"
      using lk(2) d(1) by (simp_all add: w2_def w1_def)
    have "rwlock_get_write_access (l_processLock w2) w2 = Inl Hang" using access_held(2) [OF h2(1)] h2(2) by simp
    then have wait: "remove_process q w2 = Inl Hang" "process_get_list limit list w2 = Inl Hang"
      "ks_procs (w_k w) q \<noteq> None \<Longrightarrow> 0 \<le> n \<Longrightarrow> insert_process n q w2 = Inl Hang" for q n limit list
      using h2 by (auto simp: remove_process_def process_get_list_def process_foreach_def READER_def WRITER_def
          insert_process_def get_process_def get_proc_def)
    define w3 where "w3 = w2\<lparr>w_rw := (w_rw w2)(?l \<mapsto> (held_lock Reader)\<lparr>num_readers := Suc 1\<rparr>)\<rparr>"
    have again: "checkout_process pid f w2
      = bindR (if f = READER then rwlock_get_read_access (pr_lock pr) w3 else rwlock_get_write_access (pr_lock pr) w3)
          (\<lambda>w'. Inr (Some p, w'))" for f
    proof -
      have a: "rwlock_get_read_access ?l w2 = Inr w3"
        using h2(1) by (simp add: rwlock_get_read_access_def on_lock_def get_read_access_def held_lock_def w3_def)
      have "table_ok w3 (root # ps)" "pids_ok w3 (root # ps)"
        using ok1 pids_ok_cong [of w3 w1] by (simp_all add: w3_def w2_def table_ok_def)
      from retrieve_present [OF this p(1), of pr] pr have b: "table_retrieve pid w3 = Inr (Some p)"
        by (simp add: w3_def w2_def w1_def)
      show ?thesis
        using a b h2(2) pr(1) by (simp add: checkout_process_def get_process_def get_proc_def w3_def w2_def w1_def)
    qed
    have h3: "w_rw w3 (pr_lock pr) = Some (held_lock k)" using lk(2) by (simp add: w3_def w2_def)
    have wr: "checkout_process pid f w2 = Inl Hang" if "f \<noteq> READER" for f
      using again [of f] access_held(2) [OF h3] that by simp
    have re: "if flags = READER then \<exists>w''. checkout_process pid READER w2 = Inr (Some p, w'')
        else checkout_process pid READER w2 = Inl Hang"
    proof (cases "flags = READER")
      case True
      with h3 have "\<exists>w''. rwlock_get_read_access (pr_lock pr) w3 = Inr w''"
        by (simp add: k_def rwlock_get_read_access_def on_lock_def get_read_access_def held_lock_def)
      with True again [of READER] show ?thesis by auto
    next
      case False
      with h3 access_held(1) [of w3 "pr_lock pr"] again [of READER] show ?thesis by (simp add: k_def)
    qed
    have "w2 = w\<lparr>w_rw := (w_rw w)(?l \<mapsto> held_lock Reader, pr_lock pr \<mapsto> held_lock (if flags = READER then Reader else Writer))\<rparr>"
      by (simp add: w2_def w1_def hold_def k_def)
    with p(1) pr co cm wait wr re show ?thesis by blast
  qed
qed

text \<open>
  Remark: The numbers of processes do not stay positive. When the counter has reached the largest \<^verbatim>\<open>int\<close>,
  \<^verbatim>\<open>next_pid\<close> gives this number, and the next call gives the smallest \<^verbatim>\<open>int\<close>, because the wrap-around
  is tested only when a number is skipped. The callers take a negative number for an error.
\<close>

theorem next_pid_negative:
  assumes ok: "processes_ok w root ps kids" and pid: "l_PID w = 2147483647"
  shows "\<exists>w1 w2. next_pid w = Inr (2147483647, w1) \<and> next_pid w1 = Inr (-2147483648, w2)"
proof -
  note d = processes_okD [OF ok]
  have gone: "table_retrieve q w' = Inr None"
    if "q = 2147483647 \<or> q = -2147483648" "table_ok w' (root # ps)" "pids_ok w' (root # ps)" for q w'
  proof -
    have e: "easy_pid q" using that(1)
      by (auto simp: easy_pid_def to_unsigned_def ptable_key_def sample_process_def s32_def)
    have "pid_at w' p < MAX_PID" for p
      using that(3) by (cases "ks_procs (w_k w') p") (simp_all add: pid_at_def pids_ok_def MAX_PID_def)
    moreover have "MAX_PID < to_unsigned q" using that(1) by (auto simp: to_unsigned_def MAX_PID_def)
    ultimately have "pid_at w' p \<noteq> to_unsigned q" for p by (metis less_asym)
    with table_retrieve_ok [OF that(2) e] show ?thesis by (auto split: option.splits)
  qed
  have step: "next_pid w' = Inr (l_PID w', w'\<lparr>l_PID := s32 (l_PID w' + 1)\<rparr>)"
    if "table_retrieve (l_PID w') w' = Inr None" for w'
    using that next_pid_loop_step [of "to_unsigned (-1)" "l_PID w'" "l_PID w'" "Suc (table_total w')"]
    by (simp add: next_pid_def)
  define w1 where "w1 = w\<lparr>l_PID := -2147483648\<rparr>"
  have "next_pid w = Inr (2147483647, w1)"
    using step [of w] gone [of _ w] d(2,3) pid by (simp add: w1_def s32_def)
  moreover have "next_pid w1 = Inr (-2147483648, w1\<lparr>l_PID := s32 (-2147483647)\<rparr>)"
    using step [of w1] gone [of _ w1] d(2,3) pids_ok_cong [of w1 w] by (simp add: w1_def table_ok_def)
  ultimately show ?thesis by blast
qed

section \<open>Walks\<close>

text \<open>The walk over the linear list as a walk over the list of processes.\<close>

fun walk_list ::
  "(nat \<Rightarrow> world \<Rightarrow> 'c \<Rightarrow> (int \<times> world \<times> 'c) kres) \<Rightarrow> nat list \<Rightarrow> int \<Rightarrow> world \<Rightarrow> 'c
     \<Rightarrow> (int \<times> world \<times> 'c) kres" where
  "walk_list callback [] ans w c = Inr (ans, w, c)"
| "walk_list callback (p # ps) ans w c =
     bindR (callback p w c) (\<lambda>(ans', w1, c1).
     if ans' \<noteq> 0 then Inr (ans', w1, c1) else walk_list callback ps ans' w1 c1)"

lemma foreach_loop_eq:
  assumes "\<And>p c a w1 c1. callback p w c = Inr (a, w1, c1) \<Longrightarrow> w1 = w"
    and "dls (w_list w) q ps None" "\<forall>p \<in> set ps. map_option l_object (w_list w p) = Some p" "length ps \<le> n"
  shows "foreach_loop n callback (first_or ps None) ans w c = walk_list callback ps ans w c"
  using assms(2-)
proof (induction ps arbitrary: q n ans c)
  case Nil
  then show ?case by (cases n) simp_all
next
  case (Cons p ps)
  then obtain m where m: "n = Suc m" by (cases n) auto
  have nx: "NEXT_LINEAR p w = Inr (first_or ps None)"
    using Cons.prems(1,2) by (cases ps) (auto simp: NEXT_LINEAR_def load_node_def)
  have ih: "foreach_loop m callback (first_or ps None) a w c = walk_list callback ps a w c" for a c
    using Cons.IH [of "Some p" m a c] Cons.prems m by simp
  show ?case
  proof (cases "callback p w c")
    case (Inr r)
    obtain a w1 c1 where r: "r = (a, w1, c1)" by (cases r)
    with Inr assms(1) have "w1 = w" by blast
    with Inr r m nx ih show ?thesis by simp
  qed (simp add: m)
qed

definition shows_process :: "world \<Rightarrow> nat \<Rightarrow> process_information \<Rightarrow> bool" where
  "shows_process w p i \<longleftrightarrow>
     (\<exists>pr. ks_procs (w_k w) p = Some pr \<and> pi_pid i = pr_pid pr
        \<and> cstr SMK_NAME_LENGTH (pi_name i) = cstr SMK_NAME_LENGTH (pr_name pr))"

definition has_cmdline :: "world \<Rightarrow> nat \<Rightarrow> bool" where
  "has_cmdline w p \<longleftrightarrow>
     (\<exists>pr. ks_procs (w_k w) p = Some pr \<and> env_map (pr_env pr) (cstr SMK_ENVNAME_LENGTH CMD_LINE) \<noteq> None)"

definition info_buffer :: "process_information \<Rightarrow> bool" where
  "info_buffer i \<longleftrightarrow> length (pi_name i) = SMK_NAME_LENGTH \<and> length (pi_cmdline i) = SMK_CMDLINE_LENGTH"

definition printable :: "world \<Rightarrow> nat \<Rightarrow> bool" where
  "printable w p \<longleftrightarrow>
     (\<exists>pr. ks_procs (w_k w) p = Some pr \<and> readable SMK_NAME_LENGTH (pr_name pr) \<and> env_ok (pr_env pr)
        \<and> 0 \<le> pr_pid pr \<and> pr_pid pr < MAX_PID)"

lemma list_callback_ok:
  assumes p: "printable w p" and k: "k < length list" "info_buffer (list ! k)" "int k < limit" "limit < 2 ^ 31"
  shows "if has_cmdline w p
    then \<exists>i. list_callback limit p w (k, list)
               = Inr (if int k + 1 = limit then -1 else 0, w, k + 1, list[k := i])
         \<and> shows_process w p i
    else list_callback limit p w (k, list) = Inl Assert_failed"
proof -
  from p obtain pr where pr: "ks_procs (w_k w) p = Some pr" "readable SMK_NAME_LENGTH (pr_name pr)"
    "env_ok (pr_env pr)" "0 \<le> pr_pid pr" "pr_pid pr < MAX_PID" by (auto simp: printable_def)
  let ?e = "list ! k"
  from kstrncpy_stores [of SMK_NAME_LENGTH "pi_name ?e" "pr_name pr"] k(2) pr(2) [unfolded readable_def] obtain nm where
    nm: "kstrncpy (pi_name ?e) (pr_name pr) SMK_NAME_LENGTH = Inr nm"
      "cstr SMK_NAME_LENGTH nm = cstr SMK_NAME_LENGTH (pr_name pr)" by (auto simp: info_buffer_def)
  have rd: "readable SMK_ENVNAME_LENGTH CMD_LINE" by (simp add: readable_def CMD_LINE_def)
  note ge = get_environment_ok [OF pr(3) rd, of SMK_CMDLINE_LENGTH "pi_cmdline ?e"]
  have g: "get_process p w = Inr pr" using pr(1) by (simp add: get_process_def get_proc_def)
  have s: "s32 (int k + 1) = int k + 1" "s32 (pr_pid pr) = pr_pid pr" using k pr by (simp_all add: MAX_PID_def)
  show ?thesis
  proof (cases "env_map (pr_env pr) (cstr SMK_ENVNAME_LENGTH CMD_LINE)")
    case None
    with ge k(2) have "get_environment (pr_env pr) CMD_LINE (pi_cmdline ?e) SMK_CMDLINE_LENGTH
        = Inr (SMK_NOT_FOUND, pi_cmdline ?e, SMK_CMDLINE_LENGTH)" by (simp add: info_buffer_def)
    then have "list_callback limit p w (k, list) = Inl Assert_failed"
      using k(1) nm(1) g by (simp add: list_callback_def SMK_NOT_FOUND_def)
    with None pr(1) show ?thesis by (simp add: has_cmdline_def)
  next
    case (Some v)
    with ge k(2) obtain cl n where "get_environment (pr_env pr) CMD_LINE (pi_cmdline ?e) SMK_CMDLINE_LENGTH
        = Inr (SMK_OK, cl, n)" by (simp add: info_buffer_def)
    then have "list_callback limit p w (k, list) = Inr (if int k + 1 = limit then -1 else 0, w, k + 1,
        list[k := \<lparr>pi_name = nm, pi_cmdline = cl, pi_pid = pr_pid pr, pi_state = pr_state pr mod 2 ^ 32\<rparr>])"
      using k(1) nm(1) g s by (simp add: list_callback_def SMK_OK_def)
    with Some pr(1) nm(2) show ?thesis by (auto simp: has_cmdline_def shows_process_def)
  qed
qed

lemma list_walk_ok:
  assumes "\<forall>p \<in> set ps. printable w p" and "\<forall>i \<in> set (drop k list). info_buffer i"
    and "int k < limit" "limit < 2 ^ 31" and "n = min (nat limit - k) (length ps)" "k + n \<le> length list"
  shows "if \<forall>p \<in> set (take n ps). has_cmdline w p
    then \<exists>infos ans. walk_list (list_callback limit) ps ans0 w (k, list)
             = Inr (ans, w, k + n, take k list @ infos @ drop (k + n) list)
         \<and> list_all2 (shows_process w) (take n ps) infos
    else walk_list (list_callback limit) ps ans0 w (k, list) = Inl Assert_failed"
  using assms
proof (induction ps arbitrary: k list n ans0)
  case (Cons p ps)
  let ?cb = "list_callback limit"
  define m where "m = min (nat limit - Suc k) (length ps)"
  have "nat limit - k = Suc (nat limit - Suc k)" using Cons.prems(3) by simp
  with Cons.prems(5) have m: "n = Suc m" "m = min (nat limit - Suc k) (length ps)"
    by (simp_all add: m_def)
  have k: "k < length list" using Cons.prems(6) m by simp
  have "list ! k \<in> set (drop k list)" using k by (auto simp: in_set_conv_nth intro: exI [of _ 0])
  then have ib: "info_buffer (list ! k)" using Cons.prems(2) by blast
  have pp: "printable w p" using Cons.prems(1) by simp
  note cb = list_callback_ok [OF pp k ib Cons.prems(3,4)]
  show ?case
  proof (cases "has_cmdline w p")
    case False
    with cb m show ?thesis by simp
  next
    case True
    with cb obtain i where i: "shows_process w p i"
      "?cb p w (k, list) = Inr (if int k + 1 = limit then -1 else 0, w, k + 1, list[k := i])" by auto
    have up: "take (Suc k) (list[k := i]) = take k list @ [i]" "drop (Suc k + j) (list[k := i]) = drop (Suc k + j) list" for j
      using k by (simp_all add: take_Suc_conv_app_nth)
    show ?thesis
    proof (cases "int k + 1 = limit")
      case last: True
      then have m0: "m = 0" using m(2) by simp
      have "walk_list ?cb (p # ps) ans0 w (k, list) = Inr (-1, w, k + 1, take k list @ [i] @ drop (k + 1) list)"
        using last i(2) k by (simp add: upd_conv_take_nth_drop)
      then have ex: "\<exists>infos ans. walk_list ?cb (p # ps) ans0 w (k, list)
             = Inr (ans, w, k + n, take k list @ infos @ drop (k + n) list)
         \<and> list_all2 (shows_process w) (take n (p # ps)) infos"
        using i(1) m(1) m0 by (intro exI [of _ "[i]"] exI [of _ "-1"]) simp
      have c: "\<forall>q \<in> set (take n (p # ps)). has_cmdline w q" using True m(1) m0 by simp
      show ?thesis unfolding if_P [OF c] by (rule ex)
    next
      case False
      have w: "walk_list ?cb (p # ps) ans0 w (k, list) = walk_list ?cb ps 0 w (Suc k, list[k := i])"
        using False i(2) by simp
      have ih: "if \<forall>p \<in> set (take m ps). has_cmdline w p
        then \<exists>infos ans. walk_list ?cb ps 0 w (Suc k, list[k := i])
             = Inr (ans, w, Suc k + m, take (Suc k) (list[k := i]) @ infos @ drop (Suc k + m) (list[k := i]))
           \<and> list_all2 (shows_process w) (take m ps) infos
        else walk_list ?cb ps 0 w (Suc k, list[k := i]) = Inl Assert_failed"
      proof (rule Cons.IH)
        show "\<forall>p \<in> set ps. printable w p" "int (Suc k) < limit" "limit < 2 ^ 31"
          "m = min (nat limit - Suc k) (length ps)" "Suc k + m \<le> length (list[k := i])"
          using Cons.prems False m by auto
        show "\<forall>i' \<in> set (drop (Suc k) (list[k := i])). info_buffer i'"
          using Cons.prems(2) set_drop_subset_set_drop [of k "Suc k" list] by auto
      qed
      have tk: "(\<forall>q \<in> set (take n (p # ps)). has_cmdline w q) \<longleftrightarrow> (\<forall>q \<in> set (take m ps). has_cmdline w q)"
        using True m(1) by simp
      show ?thesis
      proof (cases "\<forall>q \<in> set (take m ps). has_cmdline w q")
        case ok: True
        with ih obtain infos ans where "walk_list ?cb ps 0 w (Suc k, list[k := i])
             = Inr (ans, w, Suc k + m, take (Suc k) (list[k := i]) @ infos @ drop (Suc k + m) (list[k := i]))"
          and l: "list_all2 (shows_process w) (take m ps) infos" by auto
        then have "walk_list ?cb (p # ps) ans0 w (k, list) = Inr (ans, w, k + n, take k list @ (i # infos) @ drop (k + n) list)"
          unfolding w up using m(1) by simp
        moreover have "list_all2 (shows_process w) (take n (p # ps)) (i # infos)" using l i(1) m(1) by simp
        ultimately have ex: "\<exists>infos ans. walk_list ?cb (p # ps) ans0 w (k, list)
             = Inr (ans, w, k + n, take k list @ infos @ drop (k + n) list)
           \<and> list_all2 (shows_process w) (take n (p # ps)) infos" by blast
        show ?thesis unfolding tk if_P [OF ok] by (rule ex)
      next
        case no: False
        with ih have "walk_list ?cb ps 0 w (Suc k, list[k := i]) = Inl Assert_failed" by auto
        then show ?thesis unfolding tk w if_not_P [OF no] .
      qed
    qed
  qed
qed simp

text \<open>
  C31: \<^verbatim>\<open>process_get_list\<close> with the process lock free and room in the array. If each of the first
  \<open>limit\<close> processes of the list has an environment variable \<^verbatim>\<open>CMD_LINE\<close>, the array gets their numbers and
  names in the order of the list, its other elements and the whole state stay as they were, and the
  result is their number. If one of them has no such variable yet, the kernel fails an assertion.
\<close>

theorem process_get_list_correct:
  assumes ok: "processes_ok w root ps kids" and free: "lock_free (l_processLock w) w"
    and pr: "\<forall>p \<in> set (root # ps). printable w p" and buf: "\<forall>i \<in> set list. info_buffer i"
    and limit: "0 < limit" "limit < 2 ^ 31" and n: "n = min (nat limit) (length (root # ps))" "n \<le> length list"
  shows "if \<forall>p \<in> set (take n (root # ps)). has_cmdline w p
    then \<exists>infos. process_get_list limit list w = Inr (int n, infos @ drop n list, w)
         \<and> list_all2 (shows_process w) (take n (root # ps)) infos
    else process_get_list limit list w = Inl Assert_failed"
proof -
  note d = processes_okD [OF ok]
  define w1 where "w1 = hold Writer (l_processLock w) w"
  have wr: "rwlock_get_write_access (l_processLock w) w = Inr w1" unfolding w1_def by (rule write_free [OF free])
  have rel: "rwlock_release (l_processLock w) w1 = Inr w" unfolding w1_def by (rule release_hold [OF free])
  have same: "printable w1 = printable w" "has_cmdline w1 = has_cmdline w" "shows_process w1 = shows_process w"
    by (simp_all add: fun_eq_iff printable_def has_cmdline_def shows_process_def w1_def)
  have cbw: "w2 = w'" if "list_callback limit p w' c = Inr (a, w2, c1)" for p w' c a w2 c1
    using that by (cases c) (auto simp: list_callback_def bindR_Inr_iff assertR_Inr_iff)
  have tt: "table_total w1 = length (root # ps)" by (rule table_total_eq) (use d(2) in \<open>simp add: w1_def\<close>)
  have lin: "dls (w_list w1) None (root # ps) None" "\<forall>p \<in> set (root # ps). map_option l_object (w_list w1 p) = Some p"
    using d(4) by (simp_all add: linear_ok_def w1_def)
  have loop: "foreach_loop (table_total w1) (list_callback limit) (Some root) 0 w1 (0, list)
      = walk_list (list_callback limit) (root # ps) 0 w1 (0, list)"
    using foreach_loop_eq [OF cbw lin, where n = "table_total w1" and ans = 0 and c = "(0, list)"] tt by simp
  note walk = list_walk_ok [of "root # ps" w1 0 list limit n 0, unfolded same, OF pr _ _ limit(2) _ _]
  have eq: "process_get_list limit list w = bindR (walk_list (list_callback limit) (root # ps) 0 w1 (0, list))
      (\<lambda>(ans, w3, c'). bindR (rwlock_release (l_processLock w3) w3) (\<lambda>w4. Inr (int (fst c'), snd c', w4)))"
    using wr loop d(1) by (simp add: process_get_list_def process_foreach_def READER_def WRITER_def w1_def
        bindR_assoc split_def del: walk_list.simps)
  show ?thesis
  proof (cases "\<forall>p \<in> set (take n (root # ps)). has_cmdline w p")
    case True
    with walk buf limit n obtain infos ans where
      a: "walk_list (list_callback limit) (root # ps) 0 w1 (0, list) = Inr (ans, w1, n, infos @ drop n list)"
      and b: "list_all2 (shows_process w) (take n (root # ps)) infos" by (auto simp del: walk_list.simps)
    have "process_get_list limit list w = Inr (int n, infos @ drop n list, w)"
      unfolding eq a using rel by (simp add: w1_def)
    with b True show ?thesis by auto
  next
    case False
    with walk buf limit n have "walk_list (list_callback limit) (root # ps) 0 w1 (0, list) = Inl Assert_failed"
      by (auto simp del: walk_list.simps)
    then have "process_get_list limit list w = Inl Assert_failed" unfolding eq by simp
    with False show ?thesis by auto
  qed
qed

section \<open>An example\<close>

text \<open>Two processes, root and child, and a third that is not in the table yet.\<close>

definition demo_cmd_env :: penv where
  "demo_cmd_env = \<lparr>environment = Some 7000,
     env_entries = [\<lparr>ei_name = CMD_LINE @ replicate 1015 0, ei_size = 1, ei_ptr = 7100, ei_data = [0]\<rparr>]\<rparr>"

definition demo_procs :: "nat \<Rightarrow> process option" where
  "demo_procs = [1000 \<mapsto> (sample_process 1)\<lparr>pr_lock := 501, pr_env := demo_cmd_env\<rparr>,
     2000 \<mapsto> (sample_process 2)\<lparr>pr_lock := 502\<rparr>, 3000 \<mapsto> (sample_process 3)\<lparr>pr_lock := 503\<rparr>]"

definition demo_world :: world where
  "demo_world = \<lparr>w_k = \<lparr>ks_sys = \<lparr>k_threads = Map.empty, k_sched = [], k_time = [], k_bogomips = [], k_cpu_count = 0,
       k_CPUID = 0, k_if = True, k_ipis = [], k_tsc = 0\<rparr>, ks_procs = demo_procs, ks_heap = demo3_heap\<rparr>,
     w_mem = (\<lambda>_. 0), w_cr3 = 0, w_invlpg = [],
     w_rw = (\<lambda>a. if a \<in> {500, 501, 502, 503} then Some unlocked else None),
     w_list = [1000 \<mapsto> \<lparr>l_object = 1000, l_prev = None, l_next = Some 2000\<rparr>,
       2000 \<mapsto> \<lparr>l_object = 2000, l_prev = Some 1000, l_next = None\<rparr>,
       3000 \<mapsto> \<lparr>l_object = 3000, l_prev = None, l_next = None\<rparr>],
     w_family = [1000 \<mapsto> \<lparr>f_object = 1000, f_parent = None, f_child = Some 2000, f_prev = None, f_next = None\<rparr>,
       2000 \<mapsto> \<lparr>f_object = 2000, f_parent = Some 1000, f_child = None, f_prev = None, f_next = None\<rparr>,
       3000 \<mapsto> \<lparr>f_object = 3000, f_parent = None, f_child = None, f_prev = None, f_next = None\<rparr>],
     w_arenas = Map.empty, w_alloc = Map.empty,
     l_processTable = Some \<lparr>ht_self = 4148, ht_total = 2, ht_size = 8, ht_percent = 75, ht_array = 4276,
       ht_table = [Some 2000, None, None, None, Some 1000, None, None, None]\<rparr>,
     l_rootProcess = Some 1000, l_processLock = 500, l_PID = 1\<rparr>"

definition demo_kids :: "nat \<Rightarrow> nat list" where
  "demo_kids = (\<lambda>_. [])(1000 := [2000])"

lemma demo_world_sel [simp]:
  "ks_procs (w_k demo_world) = demo_procs" "w_heap demo_world = demo3_heap" "l_processLock demo_world = 500"
  "l_rootProcess demo_world = Some 1000" "l_PID demo_world = 1"
  "w_rw demo_world = (\<lambda>a. if a \<in> {500, 501, 502, 503} then Some unlocked else None)"
  by (simp_all add: demo_world_def w_heap_def)

lemma demo_procs_sel [simp]:
  "demo_procs 1000 = Some ((sample_process 1)\<lparr>pr_lock := 501, pr_env := demo_cmd_env\<rparr>)"
  "demo_procs 2000 = Some ((sample_process 2)\<lparr>pr_lock := 502\<rparr>)"
  "demo_procs 3000 = Some ((sample_process 3)\<lparr>pr_lock := 503\<rparr>)"
  by (simp_all add: demo_procs_def)

lemma sample_process_sel [simp]:
  "pr_pid (sample_process q) = to_unsigned q" "pr_name (sample_process q) = replicate SMK_NAME_LENGTH 0"
  by (simp_all add: sample_process_def)

lemma demo_pids [simp]: "to_unsigned 1 = 1" "to_unsigned 2 = 2" "to_unsigned 3 = 3"
  by (simp_all add: to_unsigned_def)

lemma demo_pid_at [simp]: "pid_at demo_world 1000 = 1" "pid_at demo_world 2000 = 2"
  by (simp_all add: pid_at_def)

lemma demo_world_table: "table_ok demo_world [1000, 2000]" "table_room demo_world"
  using demo3_heap_ok by (simp_all add: table_ok_def table_room_def demo_world_def w_heap_def ht_ok_def ht_live_def
      ht_bag_def entries_def)

lemma demo_world_family: "family_ok (w_family demo_world) 1000 {1000, 2000} demo_kids"
proof -
  have "\<exists>par. \<forall>p \<in> {1000, 2000}. set (demo_kids p) = {q \<in> {1000, 2000} - {1000}. par q = p}"
    by (intro exI [of _ "\<lambda>_. 1000"]) (auto simp: demo_kids_def)
  moreover have "\<exists>rank :: nat \<Rightarrow> nat. \<forall>p \<in> {1000, 2000}. \<forall>q \<in> set (demo_kids p). rank p < rank q"
    by (intro exI [of _ "\<lambda>p. p"]) (simp add: demo_kids_def)
  ultimately show ?thesis by (simp add: family_ok_def demo_world_def children_def) (simp add: demo_kids_def)
qed

lemma demo_world_ok: "processes_ok demo_world 1000 [2000] demo_kids"
proof -
  have "pids_ok demo_world [1000, 2000]"
    by (auto simp: pids_ok_def demo_procs_def MAX_PID_def split: if_splits)
  moreover have "linear_ok (w_list demo_world) [1000, 2000]" by (simp add: linear_ok_def demo_world_def)
  ultimately show ?thesis using demo_world_table demo_world_family by (simp add: processes_ok_def)
qed

lemma demo_lock_free: "a \<in> {500, 501, 502, 503} \<Longrightarrow> lock_free a demo_world"
  by (simp add: lock_free_iff)

theorem next_pid_fresh_witness: "\<exists>pid. next_pid demo_world = Inr (pid, demo_world\<lparr>l_PID := pid + 1\<rparr>) \<and> 3 \<le> pid"
proof -
  from next_pid_fresh [OF demo_world_ok] obtain pid where
    p: "next_pid demo_world = Inr (pid, demo_world\<lparr>l_PID := pid + 1\<rparr>)" "1 \<le> pid" "pid \<notin> {1, 2}"
    by (auto simp: MAX_PID_def)
  then have "3 \<le> pid" by auto
  with p(1) show ?thesis by blast
qed

theorem insert_process_correct_witness:
  "\<exists>w'. insert_process 2 3000 demo_world = Inr (3, w') \<and> table_retrieve 3 w' = Inr (Some 3000)"
proof -
  have "w_list demo_world 3000 = Some \<lparr>l_object = 3000, l_prev = None, l_next = None\<rparr>"
    "w_family demo_world 3000
      = Some \<lparr>f_object = 3000, f_parent = None, f_child = None, f_prev = None, f_next = None\<rparr>"
    by (simp_all add: demo_world_def)
  from insert_process_correct [OF demo_world_ok _ demo_world_table(2) _ _ _ _ _ _ this,
      where par = 2000 and ppr = "(sample_process 2)\<lparr>pr_lock := 502\<rparr>" and pid = 2
        and pr = "(sample_process 3)\<lparr>pr_lock := 503\<rparr>"]
  show ?thesis by (auto simp: demo_lock_free)
qed

theorem remove_process_correct_witness:
  "\<exists>w'. remove_process 2000 demo_world = Inr w' \<and> table_retrieve 2 w' = Inr None"
  using remove_process_correct [OF demo_world_ok, of 2000] demo_lock_free by auto

theorem checkout_commit_process_witness:
  "\<exists>p w'. checkout_process 2 WRITER demo_world = Inr (Some p, w') \<and> insert_process 2 3000 w' = Inl Hang
     \<and> checkout_process 2 READER w' = Inl Hang \<and> commit_process p w' = Inr demo_world"
proof -
  have "\<forall>p \<in> set [1000, 2000]. \<forall>pr. ks_procs (w_k demo_world) p = Some pr \<longrightarrow>
      lock_free (pr_lock pr) demo_world \<and> pr_lock pr \<noteq> l_processLock demo_world"
    using demo_lock_free by simp
  from checkout_commit_process [OF demo_world_ok _ _ _ this, of 2 WRITER] demo_lock_free
  show ?thesis by (auto simp: MAX_PID_def READER_def WRITER_def)
qed

theorem next_pid_negative_witness:
  "\<exists>w1 w2. next_pid (demo_world\<lparr>l_PID := 2147483647\<rparr>) = Inr (2147483647, w1)
     \<and> next_pid w1 = Inr (-2147483648, w2)"
proof -
  have "processes_ok (demo_world\<lparr>l_PID := 2147483647\<rparr>) 1000 [2000] demo_kids"
    using demo_world_ok by (subst processes_ok_cong [of _ demo_world]) simp_all
  from next_pid_negative [OF this] show ?thesis by simp
qed

lemma demo_cmdline: "has_cmdline demo_world 1000" "printable demo_world 1000" "printable demo_world 2000"
proof -
  have k: "cstr SMK_ENVNAME_LENGTH (CMD_LINE @ replicate 1015 0) = cstr SMK_ENVNAME_LENGTH CMD_LINE"
    by (simp add: cstr_def CMD_LINE_def SMK_ENVNAME_LENGTH_def)
  have l: "length CMD_LINE = 9" by (simp add: CMD_LINE_def)
  show "has_cmdline demo_world 1000"
    using k by (simp add: has_cmdline_def env_map_def env_key_def demo_cmd_env_def)
  have "env_ok demo_cmd_env"
    using l by (simp add: env_ok_def env_entry_ok_def demo_cmd_env_def SMK_ENVNAME_LENGTH_def sizeof_environ_info_def
        MAX_REQUEST_def)
  then show "printable demo_world 1000" by (simp add: printable_def readable_def MAX_PID_def)
  have "env_ok (pr_env (sample_process 2))"
    using empty_penv_ok(1) by (simp add: sample_process_def empty_penv_def)
  then show "printable demo_world 2000" by (simp add: printable_def readable_def MAX_PID_def)
qed

definition demo_info :: process_information where
  "demo_info = \<lparr>pi_name = replicate SMK_NAME_LENGTH 0, pi_cmdline = replicate SMK_CMDLINE_LENGTH 0, pi_pid = 0,
     pi_state = 0\<rparr>"

theorem process_get_list_correct_witness:
  "(\<exists>infos. process_get_list 1 [demo_info] demo_world = Inr (1, infos, demo_world) \<and> pi_pid (hd infos) = 1)
   \<and> process_get_list 2 [demo_info, demo_info] demo_world = Inl Assert_failed"
proof -
  have i: "info_buffer demo_info" by (simp add: info_buffer_def demo_info_def)
  have p: "\<forall>p \<in> set [1000, 2000]. printable demo_world p" using demo_cmdline by simp
  have "\<not> has_cmdline demo_world 2000"
    by (simp add: has_cmdline_def sample_process_def env_map_def)
  then show ?thesis
    using process_get_list_correct [OF demo_world_ok _ p, of "[demo_info]" 1 1]
      process_get_list_correct [OF demo_world_ok _ p, of "[demo_info, demo_info]" 2 2] i demo_cmdline demo_lock_free
    by (auto simp: list_all2_Cons1 shows_process_def)
qed

end
