(* ===== verification/Ualloc.thy ===== *)
theory Ualloc
  imports World Smk_Err
begin

text \<open>
  The memory of a process (\<^verbatim>\<open>kernel/ualloc.c\<close>): blocks of physical pages that are mapped into its
  address space, with a descriptor for each in a doubly linked list that hangs off the process. The
  descriptors lie in the kernel's heap; the frames and the page tables come from the same page allocator
  as the heap's pages.

  The loops along the list have fuel, one round for every block of the heap, since every descriptor is
  one. \<open>Ualloc_Props\<close> holds the invariant and the properties.
\<close>

section \<open>Constants\<close>

definition UALLOC_NORELEASE :: nat where "UALLOC_NORELEASE = 1"

definition sK_BASE :: nat where "sK_BASE = 0x80000000"

definition sK_CEILING :: nat where "sK_CEILING = 0xFA000000"

definition sizeof_allocated_memory :: nat where "sizeof_allocated_memory = 32"

section \<open>Access\<close>

definition w_memory_alloc :: "nat \<Rightarrow> world \<Rightarrow> (nat option \<times> world) kres" where
  "w_memory_alloc n w =
     bindR (memory_alloc n (l_sys (w_heap w))) (\<lambda>(r, p). Inr (r, put_heap ((w_heap w)\<lparr>l_sys := p\<rparr>) w))"

definition w_memory_free :: "nat \<Rightarrow> nat \<Rightarrow> world \<Rightarrow> world kres" where
  "w_memory_free n a w =
     bindR (memory_free n a (l_sys (w_heap w))) (\<lambda>p. Inr (put_heap ((w_heap w)\<lparr>l_sys := p\<rparr>) w))"

text \<open>A paging routine on the directory of a process, \<^verbatim>\<open>proc->map\<close>.\<close>

definition on_map :: "(nat \<Rightarrow> mmu \<Rightarrow> ('a \<times> mmu) kres) \<Rightarrow> process \<Rightarrow> world \<Rightarrow> ('a \<times> world) kres" where
  "on_map f pr w =
     (case pr_map pr of
        None \<Rightarrow> Inl Null_deref
      | Some dir \<Rightarrow> bindR (f dir (mmu_of w)) (\<lambda>(r, m). Inr (r, put_mmu m w)))"

definition get_mem :: "nat \<Rightarrow> world \<Rightarrow> allocated_memory kres" where
  "get_mem a w = (case w_alloc w a of None \<Rightarrow> Inl Null_deref | Some m \<Rightarrow> Inr m)"

definition modify_mem :: "nat option \<Rightarrow> (allocated_memory \<Rightarrow> allocated_memory) \<Rightarrow> world \<Rightarrow> world kres" where
  "modify_mem p f w =
     (case p of None \<Rightarrow> Inl Null_deref
              | Some a \<Rightarrow> bindR (get_mem a w) (\<lambda>m. Inr (w\<lparr>w_alloc := (w_alloc w)(a \<mapsto> f m)\<rparr>)))"

text \<open>The number of blocks in the heap.\<close>

definition block_count :: "world \<Rightarrow> nat" where
  "block_count w = sum_list (map (\<lambda>M. length (ma_minors M)) (l_majors (w_heap w)))"

text \<open>A new descriptor is filled and put in front of the process's list.\<close>

definition link_mem :: "nat \<Rightarrow> nat \<Rightarrow> nat \<Rightarrow> nat \<Rightarrow> nat \<Rightarrow> nat \<Rightarrow> world \<Rightarrow> world kres" where
  "link_mem proc mem pages flags phys virt w =
     bindR (get_process proc w) (\<lambda>pr.
     let w1 = put_process proc (pr\<lparr>pr_alloc := Some mem\<rparr>)
                (w\<lparr>w_alloc := (w_alloc w)(mem \<mapsto> \<lparr>am_pages = pages, am_flags = flags, am_phys = phys,
                   am_virt = virt, am_shared = 0, am_parent = Some proc, am_next = pr_alloc pr,
                   am_prev = None\<rparr>)\<rparr>)
     in if pr_alloc pr \<noteq> None then modify_mem (pr_alloc pr) (\<lambda>m. m\<lparr>am_prev := Some mem\<rparr>) w1 else Inr w1)"

text \<open>The search that the lookups share: the first descriptor whose virtual address is \<open>ptr\<close>.\<close>

fun find_mem :: "nat \<Rightarrow> nat \<Rightarrow> nat option \<Rightarrow> world \<Rightarrow> nat option kres" where
  "find_mem n ptr None w = Inr None"
| "find_mem 0 ptr (Some a) w = Inl Hang"
| "find_mem (Suc n) ptr (Some a) w =
     bindR (get_mem a w) (\<lambda>m.
     if am_virt m = ptr then Inr (Some a) else find_mem n ptr (am_next m) w)"

section \<open>Operations\<close>

text \<open>The result is the error code and what is stored through \<^verbatim>\<open>ptr\<close>, if anything.\<close>

definition user_alloc :: "nat \<Rightarrow> nat \<Rightarrow> world \<Rightarrow> (int \<times> nat option \<times> world) kres" where
  "user_alloc proc pages w =
     (if pages = 0 then Inr (SMK_REQUESTED_NOTHING, None, w)
      else
        bindR (w_memory_alloc pages w) (\<lambda>(r, w1).
        case r of
          None \<Rightarrow> Inr (SMK_NOMEM, None, w1)
        | Some location \<Rightarrow>
            bindR (w_kmalloc sizeof_allocated_memory w1) (\<lambda>(r2, w2).
            case r2 of
              None \<Rightarrow> bindR (w_memory_free pages location w2) (\<lambda>w3. Inr (SMK_NOMEM, None, w3))
            | Some mem \<Rightarrow>
                bindR (get_process proc w2) (\<lambda>pr.
                bindR (on_map (\<lambda>dir. page_provide dir location sK_BASE sK_CEILING pages (USER_PAGE OR READ_WRITE))
                         pr w2) (\<lambda>(found, w3).
                if found = 0
                then bindR (w_memory_free pages location w3) (\<lambda>w4.
                     bindR (w_kfree (Some mem) w4) (\<lambda>w5. Inr (SMK_NOMEM, None, w5)))
                else bindR (link_mem proc mem pages 0 location found w3) (\<lambda>w4.
                     Inr (SMK_OK, Some location, w4)))))))"

text \<open>
  \<^verbatim>\<open>found\<close> is unsigned: the test \<^verbatim>\<open>found < 0\<close> never succeeds, and the number of pages that were mapped
  before must be 0.
\<close>

definition user_alloc_hard :: "nat \<Rightarrow> nat \<Rightarrow> nat \<Rightarrow> world \<Rightarrow> (int \<times> world) kres" where
  "user_alloc_hard proc virtual pages w =
     assertR (pages \<noteq> 0) (
     bindR (w_memory_alloc pages w) (\<lambda>(r, w1).
     case r of
       None \<Rightarrow> Inr (SMK_NOMEM, w1)
     | Some location \<Rightarrow>
         bindR (w_kmalloc sizeof_allocated_memory w1) (\<lambda>(r2, w2).
         case r2 of
           None \<Rightarrow> bindR (w_memory_free pages location w2) (\<lambda>w3. Inr (SMK_NOMEM, w3))
         | Some mem \<Rightarrow>
             bindR (get_process proc w2) (\<lambda>pr.
             bindR (on_map (\<lambda>dir. page_ensure dir virtual pages (USER_PAGE OR READ_WRITE)) pr w2) (\<lambda>(found, w3).
             assertR (found mod 2 ^ 32 = 0) (
             bindR (link_mem proc mem pages 0 location (nat (found mod 2 ^ 32)) w3) (\<lambda>w4.
             Inr (SMK_OK, w4))))))))"

definition user_free :: "nat \<Rightarrow> nat \<Rightarrow> world \<Rightarrow> (int \<times> world) kres" where
  "user_free proc ptr w =
     bindR (get_process proc w) (\<lambda>pr.
     bindR (find_mem (block_count w) ptr (pr_alloc pr) w) (\<lambda>r.
     case r of
       None \<Rightarrow> Inr (SMK_NOT_FOUND, w)
     | Some mem \<Rightarrow>
         bindR (get_mem mem w) (\<lambda>m.
         let w1 = (if pr_alloc pr = Some mem then put_process proc (pr\<lparr>pr_alloc := am_next m\<rparr>) w else w) in
         bindR (if am_next m \<noteq> None then modify_mem (am_next m) (\<lambda>n. n\<lparr>am_prev := am_prev m\<rparr>) w1
                else Inr w1) (\<lambda>w2.
         bindR (if am_prev m \<noteq> None then modify_mem (am_prev m) (\<lambda>n. n\<lparr>am_next := am_next m\<rparr>) w2
                else Inr w2) (\<lambda>w3.
         bindR (modify_mem (Some mem) (\<lambda>n. n\<lparr>am_parent := None\<rparr>) w3) (\<lambda>w4.
         let release_mem = \<not> (am_shared m > 0) \<and> (am_flags m AND UALLOC_NORELEASE) = 0 in
         bindR (if release_mem then w_memory_free (am_pages m) (am_phys m) w4 else Inr w4) (\<lambda>w5.
         bindR (on_map (\<lambda>dir s. Inr (page_release dir (am_virt m) (s32 (int (am_pages m))) s)) pr w5)
           (\<lambda>(_, w6).
         bindR (if release_mem then w_kfree (Some mem) w6 else Inr w6) (\<lambda>w7.
         Inr (SMK_OK, w7))))))))))"

definition user_size :: "nat \<Rightarrow> nat \<Rightarrow> world \<Rightarrow> (int \<times> nat option) kres" where
  "user_size proc ptr w =
     bindR (get_process proc w) (\<lambda>pr.
     bindR (find_mem (block_count w) ptr (pr_alloc pr) w) (\<lambda>r.
     case r of
       None \<Rightarrow> Inr (SMK_NOT_FOUND, None)
     | Some mem \<Rightarrow> bindR (get_mem mem w) (\<lambda>m. Inr (SMK_OK, Some (u32 (am_pages m * PAGE_SIZE))))))"

definition user_location :: "nat \<Rightarrow> nat \<Rightarrow> world \<Rightarrow> (int \<times> nat option) kres" where
  "user_location proc ptr w =
     bindR (get_process proc w) (\<lambda>pr.
     bindR (find_mem (block_count w) ptr (pr_alloc pr) w) (\<lambda>r.
     case r of
       None \<Rightarrow> Inr (SMK_NOT_FOUND, None)
     | Some mem \<Rightarrow> bindR (get_mem mem w) (\<lambda>m. Inr (SMK_OK, Some (am_phys m)))))"

text \<open>The result of \<^verbatim>\<open>kmalloc\<close> is used without a test.\<close>

definition user_map :: "nat \<Rightarrow> nat \<Rightarrow> nat \<Rightarrow> world \<Rightarrow> (int \<times> nat option \<times> world) kres" where
  "user_map proc ptr pages w =
     (if pages = 0 then Inr (SMK_REQUESTED_NOTHING, None, w)
      else if ptr mod PAGE_SIZE \<noteq> 0 then Inr (SMK_NOT_ALIGNED, None, w)
      else
        bindR (get_process proc w) (\<lambda>pr.
        bindR (on_map (\<lambda>dir. page_provide dir ptr sK_BASE sK_CEILING pages (USER_PAGE OR READ_WRITE)) pr w)
          (\<lambda>(found, w1).
        if found \<noteq> 0
        then bindR (w_kmalloc sizeof_allocated_memory w1) (\<lambda>(r, w2).
             case r of
               None \<Rightarrow> Inl Null_deref
             | Some mem \<Rightarrow>
                 bindR (link_mem proc mem pages UALLOC_NORELEASE ptr found w2) (\<lambda>w3.
                 Inr (SMK_OK, Some found, w3)))
        else Inr (SMK_OK, Some found, w1))))"

text \<open>The loop of \<^verbatim>\<open>user_release_all\<close> ignores the result of \<^verbatim>\<open>user_free\<close>.\<close>

fun release_all_loop :: "nat \<Rightarrow> nat \<Rightarrow> world \<Rightarrow> world kres" where
  "release_all_loop 0 proc w = Inl Hang"
| "release_all_loop (Suc n) proc w =
     bindR (get_process proc w) (\<lambda>pr.
     case pr_alloc pr of
       None \<Rightarrow> Inr w
     | Some a \<Rightarrow>
         bindR (get_mem a w) (\<lambda>m.
         bindR (user_free proc (am_virt m) w) (\<lambda>(_, w1). release_all_loop n proc w1)))"

definition user_release_all :: "nat \<Rightarrow> world \<Rightarrow> (int \<times> world) kres" where
  "user_release_all proc w =
     bindR (release_all_loop (Suc (block_count w)) proc w) (\<lambda>w1.
     bindR (get_process proc w1) (\<lambda>pr.
     assertR (pr_alloc pr = None) (Inr (0, w1))))"

text \<open>
  The loop of \<^verbatim>\<open>user_ensure\<close> up to the address \<open>finish\<close>; it returns \<^verbatim>\<open>last_start\<close>, or the error code that
  ends the routine. Unless \<open>index\<close> wraps around, which does not end, there are at most \<open>2 ^ 20\<close> rounds.
\<close>

fun ensure_pages :: "nat \<Rightarrow> nat \<Rightarrow> nat \<Rightarrow> nat \<Rightarrow> nat \<Rightarrow> world \<Rightarrow> ((int + nat) \<times> world) kres" where
  "ensure_pages 0 proc finish index last_start w = Inl Hang"
| "ensure_pages (Suc n) proc finish index last_start w =
     (if \<not> index < finish then Inr (Inr last_start, w)
      else
        bindR (get_process proc w) (\<lambda>pr.
        bindR (on_map (\<lambda>dir s. Inr (page_present (mm_mem s) dir index, s)) pr w) (\<lambda>(c, w1).
        if c \<noteq> 0 then ensure_pages n proc finish (u32 (index + PAGE_SIZE)) last_start w
        else
          bindR (if index \<noteq> last_start
                 then user_alloc_hard proc last_start (sub32 index last_start div PAGE_SIZE) w
                 else Inr (SMK_OK, w)) (\<lambda>(rc, w2).
          if rc \<noteq> SMK_OK then Inr (Inl rc, w2)
          else ensure_pages n proc finish (u32 (index + PAGE_SIZE)) (u32 (index + PAGE_SIZE)) w2))))"

definition user_ensure :: "nat \<Rightarrow> nat \<Rightarrow> nat \<Rightarrow> world \<Rightarrow> (int \<times> world) kres" where
  "user_ensure proc ptr pages w =
     (let finish = u32 (ptr + pages * PAGE_SIZE) in
      bindR (ensure_pages (2 ^ 20 + 1) proc finish ptr ptr w) (\<lambda>(r, w1).
      case r of
        Inl rc \<Rightarrow> Inr (rc, w1)
      | Inr last_start \<Rightarrow>
          if last_start < finish
          then bindR (user_alloc_hard proc last_start ((finish - last_start) div PAGE_SIZE) w1) (\<lambda>(rc, w2).
               Inr (if rc \<noteq> SMK_OK then rc else SMK_OK, w2))
          else Inr (SMK_OK, w1)))"

end
