(* ===== verification/Framed_Heap.thy ===== *)
theory Framed_Heap
  imports Liballoc_Heap Paging_Tables
begin

text \<open>
  The heap and the page tables draw on one page allocator. Seen from the heap, the pages that
  others hold are a frame \<open>F\<close>: it must stay handed out, and no page of the heap is in it. For every
  frame this is again a provider of pages, and the allocator fulfils the contract of the kernel heap on
  it; so whatever the heap does, the frame stays out of its reach. A directory whose pages lie in the
  frame stays well-formed.
\<close>

section \<open>The page allocator with a frame\<close>

definition framed_ready :: "nat set \<Rightarrow> physmem \<Rightarrow> bool" where
  "framed_ready F p \<longleftrightarrow> phys_ready p \<and> F \<subseteq> phys_owned p"

definition framed_owned :: "nat set \<Rightarrow> physmem \<Rightarrow> nat set" where
  "framed_owned F p = phys_owned p - F"

interpretation framed: page_provider liballoc_alloc liballoc_free "framed_ready F" "framed_owned F"
  for F :: "nat set"
proof (unfold_locales, goal_cases)
  case (1 s n)
  then have "phys_ready s" by (simp add: framed_ready_def)
  from hooks.page_alloc_total [OF this 1(2)] obtain r s' where r: "liballoc_alloc n s = Inr (r, s')" "phys_ready s'"
    by blast
  have "phys_owned s \<subseteq> phys_owned s'"
  proof (cases r)
    case None
    with r hooks.page_alloc_None [OF \<open>phys_ready s\<close> 1(2)] show ?thesis by simp
  next
    case (Some a)
    with r hooks.page_alloc_Some [OF \<open>phys_ready s\<close> 1(2), of a s'] show ?thesis by simp
  qed
  with r 1(1) show ?case by (auto simp: framed_ready_def)
next
  case (2 s n s')
  then show ?case using hooks.page_alloc_None [of s n s'] by (simp add: framed_ready_def)
next
  case (3 s n a s')
  then have F: "phys_ready s" "F \<subseteq> phys_owned s" by (simp_all add: framed_ready_def)
  note a = hooks.page_alloc_Some [OF F(1) 3(2,3)]
  then have "bytes a (n * 4096) \<inter> F = {}" using F(2) by blast
  with a show ?case by (auto simp: framed_owned_def)
next
  case (4 s n a)
  then have F: "phys_ready s" "F \<subseteq> phys_owned s" "bytes a (n * 4096) \<inter> F = {}"
    "bytes a (n * 4096) \<subseteq> phys_owned s" by (auto simp: framed_ready_def framed_owned_def)
  from hooks.page_free_owned [OF F(1) 4(2,3,4) F(4)] obtain s' where
    "liballoc_free n a s = Inr s'" "phys_ready s'" "phys_owned s' = phys_owned s - bytes a (n * 4096)" by blast
  with F(2,3) show ?case by (intro exI [of _ s']) (auto simp: framed_ready_def framed_owned_def)
qed

abbreviation framed_heap_ok :: "nat set \<Rightarrow> physmem liballoc \<Rightarrow> bool" where
  "framed_heap_ok F \<equiv> la_ok (framed_ready F) (framed_owned F)"

interpretation fheap: kernel_heap liballoc_subsystem "framed_heap_ok F" live
  for F :: "nat set"
proof (unfold_locales, goal_cases)
  case (1 h n)
  then show ?case using framed.malloc_ok [OF 1] by (auto simp: framed.malloc_post_def)
next
  case (2 h n h')
  then show ?case using framed.malloc_ok [OF 2(1,2)] by (auto simp: framed.malloc_post_def)
next
  case (3 h n p h')
  then show ?case using framed.malloc_ok [OF 3(1,2)] by (auto simp: framed.malloc_post_def placed_def)
next
  case (4 h p n q m)
  then show ?case by (intro live_bytes_disjoint [of h]) (auto simp: la_ok_def la_wf_def)
next
  case (5 h p n)
  then show ?case using framed.free_ok [OF 5] by auto
next
  case (6 h)
  then show ?case using framed.free_null [OF 6] by simp
next
  case (7 h p n m)
  then show ?case using framed.realloc_ok [OF 7] by auto
next
  case (8 r h)
  show ?case by (simp add: la_realloc_def)
next
  case (9 m h)
  then show ?case by (simp add: la_realloc_def)
qed

section \<open>Changing the frame\<close>

lemma framed_heapD:
  assumes "framed_heap_ok F h"
  shows "phys_ready (l_sys h)" "F \<subseteq> phys_owned (l_sys h)"
    "M \<in> set (l_majors h) \<Longrightarrow> maj_bytes M \<subseteq> phys_owned (l_sys h) - F" "la_wf h"
  using assms by (auto simp: la_ok_def framed_ready_def framed_owned_def)

text \<open>Pages that others take or give back leave the heap alone, if the new frame covers what was taken
  and nothing of the heap.\<close>

lemma framed_change:
  assumes ok: "framed_heap_ok F h" and p: "phys_ready p" "F' \<subseteq> phys_owned p"
    and keep: "phys_owned (l_sys h) - F \<subseteq> phys_owned p" and new: "F' \<inter> (phys_owned (l_sys h) - F) = {}"
  shows "framed_heap_ok F' (h\<lparr>l_sys := p\<rparr>)"
proof -
  have "maj_bytes M \<subseteq> phys_owned p - F'" if "M \<in> set (l_majors h)" for M
    using framed_heapD(3) [OF ok that] keep new by blast
  moreover have "la_wf (h\<lparr>l_sys := p\<rparr>)" using framed_heapD(4) [OF ok] by (simp add: la_wf_def)
  ultimately show ?thesis using p by (simp add: la_ok_def framed_ready_def framed_owned_def)
qed

lemma framed_mono: "framed_heap_ok F h \<Longrightarrow> G \<subseteq> F \<Longrightarrow> framed_heap_ok G h"
  by (fastforce simp: la_ok_def framed_ready_def framed_owned_def)

lemma framed_kernel: "framed_heap_ok F h \<Longrightarrow> kernel_heap_ok h"
  by (auto simp: la_ok_def framed_ready_def framed_owned_def)

text \<open>The shape of a directory, which only memory determines.\<close>

definition pd_shape :: "memory \<Rightarrow> nat \<Rightarrow> bool" where
  "pd_shape m dir \<longleftrightarrow>
     dir mod 4096 = 0 \<and> dir \<notin> tables m dir
     \<and> inj_on (\<lambda>i. frame_of (slot m dir i)) {i \<in> user_slots. present (slot m dir i)}
     \<and> (\<forall>i \<in> user_slots. present (slot m dir i) \<longrightarrow> slot m dir i AND PAGE_4MB = 0)"

lemma pd_ok_iff:
  "pd_ok s dir \<longleftrightarrow> phys_ready (mm_phys s) \<and> pd_bytes (mm_mem s) dir \<subseteq> phys_owned (mm_phys s) \<and> pd_shape (mm_mem s) dir"
  by (auto simp: pd_ok_def pd_shape_def phys_ready_def)

end
