(* ===== verification/Heap_Leaks.thy ===== *)
theory Heap_Leaks
  imports Liballoc_Heap
begin

text \<open>
  The heap keeps account of the pages it takes: what the page allocator has handed out and no block
  of the heap covers (\<open>strays\<close>) is the same after \<^verbatim>\<open>la_malloc\<close> and \<^verbatim>\<open>la_free\<close> as before. So a
  routine that takes and returns frames beside its heap blocks can be held to the exact set of frames.
  For \<^verbatim>\<open>la_malloc\<close> it follows the calls from the inside out; no invariant of the heap is needed.
\<close>

context page_provider
begin

text \<open>A step that keeps the account.\<close>

definition frugal :: "'s liballoc \<Rightarrow> 's liballoc \<Rightarrow> bool" where
  "frugal la la' \<longleftrightarrow> (pages_ok (l_sys la) \<longrightarrow> pages_ok (l_sys la') \<and> strays owned la' = strays owned la)"

lemma frugal_refl: "frugal la la"
  by (simp add: frugal_def)

lemma frugal_trans: "frugal la la' \<Longrightarrow> frugal la' la'' \<Longrightarrow> frugal la la''"
  by (simp add: frugal_def)

lemma frugal_same: "l_sys la' = l_sys la \<Longrightarrow> l_majors la' = l_majors la \<Longrightarrow> frugal la la'"
  by (simp add: frugal_def strays_def)

lemma frugal_same_rest: "same_rest la la' \<Longrightarrow> frugal la la'"
  using strays_same_rest [of la la' owned] by (simp add: frugal_def same_rest_def)

lemma place_minor_frugal:
  assumes "place_minor i k addr sz req la = Inr (r, la')"
  shows "frugal la la'"
proof (rule frugal_same_rest)
  have i: "i < length (l_majors la)"
    using assms by (auto simp: place_minor_def aget_def split: if_splits)
  then have "map maj_bytes ((l_majors la)[i := M']) = map maj_bytes (l_majors la)"
    if "ma_addr M' = ma_addr (l_majors la ! i)" "ma_size M' = ma_size (l_majors la ! i)" for M'
    using that by (simp add: map_update maj_bytes_def list_update_same_conv)
  then show "same_rest la la'"
    using assms i by (auto simp: place_minor_def aget_def Let_def same_rest_def split: prod.splits)
qed

lemma try_block_frugal: "try_block sz req i la = Inr (r, la') \<Longrightarrow> frugal la la'"
  by (auto simp: try_block_def aget_def frugal_refl dest: place_minor_frugal
      split: if_splits list.splits option.splits prod.splits)

lemma allocate_new_page_frugal:
  assumes "allocate_new_page page_alloc sz la = Inr (r, la')" and "sz + 4192 \<le> 4294967296"
  shows "l_majors la' = l_majors la" and "r = None \<Longrightarrow> frugal la la'"
    and "r = Some M \<Longrightarrow> frugal la (la'\<lparr>l_majors := l_majors la' @ [M]\<rparr>)"
proof -
  note mp = major_pages_ok(1) [OF assms(2)]
  obtain x sys where a: "page_alloc (major_pages sz) (l_sys la) = Inr (x, sys)"
    using assms(1) by (auto simp: allocate_new_page_def Let_def bindR_Inr_iff)
  show "l_majors la' = l_majors la"
    using assms(1) a by (auto simp: allocate_new_page_def Let_def split: option.splits)
  show "frugal la la'" if "r = None"
  proof -
    have "x = None" "la' = la\<lparr>l_warningCount := l_warningCount la + 1, l_sys := sys\<rparr>"
      using assms(1) a that by (auto simp: allocate_new_page_def Let_def split: option.splits)
    then show ?thesis
      using page_alloc_None [of "l_sys la" "major_pages sz" sys] a mp by (simp add: frugal_def strays_def)
  qed
  show "frugal la (la'\<lparr>l_majors := l_majors la' @ [M]\<rparr>)" if "r = Some M"
    unfolding frugal_def
  proof
    assume ok: "pages_ok (l_sys la)"
    from assms(1) a that obtain p where p: "x = Some p" "l_sys la' = sys" "l_majors la' = l_majors la"
      "ma_addr M = p" "ma_size M = u32 (major_pages sz * l_pageSize)"
      by (auto simp: allocate_new_page_def Let_def split: option.splits)
    note al = page_alloc_Some [OF ok mp a [unfolded p(1)]]
    from page_alloc_total [OF ok mp] a have ok': "pages_ok sys" by auto
    have "u32 (major_pages sz * l_pageSize) = major_pages sz * 4096" using al by (simp add: l_pageSize_def)
    then have b: "maj_bytes M = bytes p (major_pages sz * 4096)" using p(4,5) by (simp add: maj_bytes_def)
    have "strays owned (la'\<lparr>l_majors := l_majors la' @ [M]\<rparr>) = strays owned la"
      using al unfolding strays_def by (auto simp: p(2,3) b)
    then show "pages_ok (l_sys (la'\<lparr>l_majors := l_majors la' @ [M]\<rparr>))
        \<and> strays owned (la'\<lparr>l_majors := l_majors la' @ [M]\<rparr>) = strays owned la"
      using ok' p(2) by simp
  qed
qed

lemma case5_frugal:
  assumes "case5 page_alloc sz sb bs i la = Inr (out, la')" and "sz + 4192 \<le> 4294967296"
  shows "frugal la la'"
proof (cases "Suc i < length (l_majors la) \<or> sb")
  case True
  with assms(1) show ?thesis by (auto simp: case5_def frugal_refl split: if_splits)
next
  case False
  with assms(1) obtain r la1 where a: "allocate_new_page page_alloc sz la = Inr (r, la1)"
    "la' = (case r of None \<Rightarrow> la1 | Some M \<Rightarrow> la1\<lparr>l_majors := l_majors la1 @ [M]\<rparr>)"
    by (auto simp: case5_def bindR_Inr_iff split: option.splits)
  with allocate_new_page_frugal(2,3) [OF a(1) assms(2)] show ?thesis by (cases r) simp_all
qed

lemma cases2_5_frugal:
  assumes "cases2_5 page_alloc sz req sb bs i la = Inr (out, la')" and "sz + 4192 \<le> 4294967296"
  shows "frugal la la'"
proof -
  from assms(1) obtain r la1 where t: "try_block sz req i la = Inr (r, la1)"
    "(\<exists>p. r = Some p \<and> la' = la1) \<or> case5 page_alloc sz sb bs i la1 = Inr (out, la')"
    by (auto simp: cases2_5_def bindR_Inr_iff split: option.splits)
  with try_block_frugal [OF t(1)] case5_frugal [OF _ assms(2)] frugal_trans show ?thesis by blast
qed

lemma la_round_frugal:
  assumes "la_round page_alloc sz req sb bs i la = Inr (out, la')" and "sz + 4192 \<le> 4294967296"
  shows "frugal la la'"
proof -
  define diff where "diff = sub32 (ma_size (l_majors la ! i)) (ma_usage (l_majors la ! i))"
  define la1 where "la1 = (if bs < diff then la\<lparr>l_bestBet := Some (ma_addr (l_majors la ! i))\<rparr> else la)"
  have f1: "frugal la la1" by (rule frugal_same) (simp_all add: la1_def)
  have "i < length (l_majors la)" using assms(1) by (auto simp: la_round_def aget_def split: if_splits)
  with assms(1) have "la' = la1 \<or> (\<exists>b. cases2_5 page_alloc sz req sb b i la1 = Inr (out, la'))
    \<or> (\<exists>r la2. allocate_new_page page_alloc sz la1 = Inr (r, la2) \<and>
         (r = None \<and> la' = la2 \<or> (\<exists>M b. r = Some M \<and>
            cases2_5 page_alloc sz req sb b (Suc i) (la2\<lparr>l_majors := l_majors la2 @ [M]\<rparr>) = Inr (out, la'))))"
    unfolding la_round_def aget_def
    by (simp add: Let_def diff_def [symmetric] la1_def [symmetric] split: if_splits)
       (auto simp: bindR_Inr_iff split: option.splits)
  then have "frugal la1 la'"
    using cases2_5_frugal [OF _ assms(2)] allocate_new_page_frugal(2,3) [OF _ assms(2)] frugal_refl frugal_trans by metis
  with f1 show ?thesis by (rule frugal_trans)
qed

lemma la_loop_frugal:
  "la_loop page_alloc fuel sz req sb bs i la = Inr (r, la') \<Longrightarrow> sz + 4192 \<le> 4294967296 \<Longrightarrow> frugal la la'"
proof (induction fuel arbitrary: sb bs i la)
  case (Suc fuel)
  from Suc.prems(1) obtain out la1 where o: "la_round page_alloc sz req sb bs i la = Inr (out, la1)"
    "(case out of La_done x \<Rightarrow> Inr (x, la1) | La_again sb' bs' i' \<Rightarrow> la_loop page_alloc fuel sz req sb' bs' i' la1)
       = Inr (r, la')" by (auto simp: bindR_Inr_iff)
  then show ?case
    using la_round_frugal [OF o(1) Suc.prems(2)] Suc.IH [OF _ Suc.prems(2)] frugal_trans
    by (cases out) auto
qed simp

lemma malloc_sized_frugal:
  assumes "la_malloc_sized page_alloc sz req la = Inr (r, la')" and "sz + 4192 \<le> 4294967296"
  shows "frugal la la'"
proof -
  from assms(1) obtain root la1 where o:
    "(if l_majors la = [] then bindR (allocate_new_page page_alloc sz la) (\<lambda>(r, la'). case r of
        None \<Rightarrow> Inr (False, la') | Some maj \<Rightarrow> Inr (True, la'\<lparr>l_majors := [maj]\<rparr>)) else Inr (True, la)) = Inr (root, la1)"
    "la' = la1 \<or> (\<exists>sb bs i. la_loop page_alloc (2 * length (l_majors la1) + 3) sz req sb bs i la1 = Inr (r, la'))"
    unfolding la_malloc_sized_def bindR_Inr_iff [of "if l_majors la = [] then _ else _"]
    by (elim exE conjE) (auto simp: bindR_Inr_iff [of "best_start _ _"] split: if_splits prod.splits)
  have "frugal la la1"
  proof (cases "l_majors la = []")
    case True
    with o(1) obtain x la2 where a: "allocate_new_page page_alloc sz la = Inr (x, la2)"
      "la1 = (case x of None \<Rightarrow> la2 | Some M \<Rightarrow> la2\<lparr>l_majors := [M]\<rparr>)"
      by (auto simp: bindR_Inr_iff split: option.splits)
    with allocate_new_page_frugal [OF a(1) assms(2)] True show ?thesis by (cases x) auto
  next
    case False
    with o(1) show ?thesis by (simp add: frugal_refl)
  qed
  then show ?thesis using o(2) la_loop_frugal [OF _ assms(2)] frugal_trans by blast
qed

lemma malloc_strays:
  assumes "la_ok pages_ok owned la" and "n < MAX_REQUEST" and "la_malloc page_alloc n la = Inr (r, la')"
  shows "strays owned la' = strays owned la"
proof -
  have "u32 (n + (ALIGNMENT + ALIGN_INFO)) = n + 6"
    using assms(2) by (simp add: ALIGNMENT_def ALIGN_INFO_def MAX_REQUEST_def)
  then have "la_malloc_sized page_alloc (n + 6) n la = Inr (r, la')"
    using assms(3) by (simp add: la_malloc_def Let_def)
  from malloc_sized_frugal [OF this] assms(1,2) show ?thesis
    by (simp add: frugal_def la_ok_def MAX_REQUEST_def)
qed

end

text \<open>The kernel's heap.\<close>

lemma kmalloc_strays:
  "kernel_heap_ok h \<Longrightarrow> n < MAX_REQUEST \<Longrightarrow> kmalloc liballoc_subsystem n h = Inr (r, h') \<Longrightarrow>
   strays phys_owned h' = strays phys_owned h"
  using hooks.malloc_strays by simp

lemma kfree_strays:
  "kernel_heap_ok h \<Longrightarrow> live h p = Some n \<Longrightarrow> kfree liballoc_subsystem (Some p) h = Inr h' \<Longrightarrow>
   strays phys_owned h' = strays phys_owned h"
  using hooks.free_ok [of h p n] by auto

end
