(* ===== verification/Ualloc_Props.thy ===== *)
theory Ualloc_Props
  imports Ualloc Framed_Heap Heap_Leaks
begin

text \<open>
  What the routines of \<^verbatim>\<open>ualloc.c\<close> do to the memory of a process: the heap with the descriptors, the
  frames and the page tables stay consistent although they share one page allocator, a block that is
  allocated is fresh and mapped, a block that is freed is unmapped and its frames go back. They
  also show where the code fails: the address that \<^verbatim>\<open>user_alloc\<close> hands out, the descriptors that
  are never freed, and the results of \<^verbatim>\<open>user_map\<close> without memory.
\<close>

section \<open>Lists of descriptors\<close>

fun mem_chain :: "world \<Rightarrow> nat \<Rightarrow> nat option \<Rightarrow> nat list \<Rightarrow> nat option \<Rightarrow> bool" where
  "mem_chain w proc p [] q \<longleftrightarrow> True"
| "mem_chain w proc p (d # ds) q \<longleftrightarrow>
     (\<exists>m. w_alloc w d = Some m \<and> am_prev m = p \<and> am_next m = first_or ds q \<and> am_parent m = Some proc)
     \<and> mem_chain w proc (Some d) ds q"

definition mem_at :: "world \<Rightarrow> nat \<Rightarrow> allocated_memory" where
  "mem_at w d = the (w_alloc w d)"

text \<open>A block whose frames the process owns, and the frames.\<close>

definition releasable :: "allocated_memory \<Rightarrow> bool" where
  "releasable m \<longleftrightarrow> \<not> 0 < am_shared m \<and> am_flags m AND UALLOC_NORELEASE = 0"

definition frames :: "allocated_memory \<Rightarrow> nat set" where
  "frames m = bytes (am_phys m) (am_pages m * 4096)"

text \<open>The contents of a descriptor, apart from its place in the list.\<close>

definition block_of :: "allocated_memory \<Rightarrow> nat \<times> nat \<times> nat \<times> nat \<times> int" where
  "block_of m = (am_pages m, am_flags m, am_phys m, am_virt m, am_shared m)"

definition block_ok :: "allocated_memory \<Rightarrow> nat set \<Rightarrow> bool" where
  "block_ok m G \<longleftrightarrow> 0 < am_pages m \<and> 0x80000000 \<le> am_virt m \<and> am_virt m + am_pages m * 4096 \<le> 0xFE000000
     \<and> (releasable m \<longrightarrow> 0 < am_phys m \<and> am_phys m mod 4096 = 0 \<and> frames m \<subseteq> G)"

definition frames_apart :: "world \<Rightarrow> nat list \<Rightarrow> bool" where
  "frames_apart w ds \<longleftrightarrow>
     (\<forall>d \<in> set ds. \<forall>e \<in> set ds. d \<noteq> e \<longrightarrow> releasable (mem_at w d) \<longrightarrow> releasable (mem_at w e) \<longrightarrow>
        frames (mem_at w d) \<inter> frames (mem_at w e) = {})"

text \<open>
  The memory of process \<open>proc\<close>: its directory \<open>dir\<close>, its descriptors \<open>ds\<close>, and the bytes \<open>G\<close> of the frames that
  it holds, which together with the directory's pages are the frame of the heap.
\<close>

definition memory_ok :: "world \<Rightarrow> nat \<Rightarrow> process \<Rightarrow> nat \<Rightarrow> nat list \<Rightarrow> nat set \<Rightarrow> bool" where
  "memory_ok w proc pr dir ds G \<longleftrightarrow>
     get_process proc w = Inr pr \<and> pr_map pr = Some dir \<and> pd_shape (w_mem w) dir
     \<and> framed_heap_ok (pd_bytes (w_mem w) dir \<union> G) (w_heap w) \<and> pd_bytes (w_mem w) dir \<inter> G = {}
     \<and> pr_alloc pr = first_or ds None \<and> mem_chain w proc None ds None \<and> distinct ds
     \<and> (\<forall>d \<in> set ds. live (w_heap w) d = Some sizeof_allocated_memory \<and> block_ok (mem_at w d) G)
     \<and> frames_apart w ds"

lemma memory_okD:
  assumes "memory_ok w proc pr dir ds G"
  shows "get_process proc w = Inr pr" "pr_map pr = Some dir" "pd_shape (w_mem w) dir"
    "framed_heap_ok (pd_bytes (w_mem w) dir \<union> G) (w_heap w)" "pd_bytes (w_mem w) dir \<inter> G = {}"
    "pr_alloc pr = first_or ds None" "mem_chain w proc None ds None" "distinct ds"
    "\<forall>d \<in> set ds. live (w_heap w) d = Some sizeof_allocated_memory \<and> block_ok (mem_at w d) G"
    "frames_apart w ds"
  using assms by (simp_all add: memory_ok_def)

lemma mmu_of_simps [simp]:
  "mm_mem (mmu_of w) = w_mem w" "mm_phys (mmu_of w) = l_sys (w_heap w)" "mm_cr3 (mmu_of w) = w_cr3 w"
  by (simp_all add: mmu_of_def)

text \<open>
  What the page allocator has handed out to others than the heap: the account that shows that
  frames really go back to the allocator.
\<close>

definition outside_heap :: "world \<Rightarrow> nat set" where
  "outside_heap w = strays phys_owned (w_heap w)"

lemma outside_heap_owned: "outside_heap w \<subseteq> phys_owned (l_sys (w_heap w))"
  by (auto simp: outside_heap_def strays_def)

lemma outside_heap_same: "w_heap w' = w_heap w \<Longrightarrow> outside_heap w' = outside_heap w"
  by (simp add: outside_heap_def)

lemma framed_outside:
  assumes "framed_heap_ok F (w_heap w)"
  shows "F \<subseteq> outside_heap w"
  using framed_heapD(2,3) [OF assms] by (fastforce simp: outside_heap_def strays_def)

lemma memory_outside: "memory_ok w proc pr dir ds G \<Longrightarrow> G \<subseteq> outside_heap w"
  using framed_outside by (fastforce simp: memory_ok_def)

lemma w_kmalloc_outside:
  assumes "framed_heap_ok F (w_heap w)" and "n < MAX_REQUEST" and "kmalloc liballoc_subsystem n (w_heap w) = Inr (r, h)"
  shows "strays phys_owned h = outside_heap w"
  using kmalloc_strays [OF framed_kernel [OF assms(1)] assms(2,3)] by (simp add: outside_heap_def)

lemma w_kfree_outside:
  assumes "framed_heap_ok F (w_heap w)" and "live (w_heap w) p = Some n" and "kfree liballoc_subsystem (Some p) (w_heap w) = Inr h"
  shows "strays phys_owned h = outside_heap w"
  using kfree_strays [OF framed_kernel [OF assms(1)] assms(2,3)] by (simp add: outside_heap_def)

lemma memory_pd: "memory_ok w proc pr dir ds G \<Longrightarrow> pd_ok (mmu_of w) dir"
  using framed_heapD(1,2) [of "pd_bytes (w_mem w) dir \<union> G" "w_heap w"] by (simp add: pd_ok_iff memory_ok_def)

lemma mem_chain_mem: "mem_chain w proc p ds q \<Longrightarrow> d \<in> set ds \<Longrightarrow> w_alloc w d = Some (mem_at w d)"
  by (induction ds arbitrary: p) (auto simp: mem_at_def)

lemma mem_chain_append:
  "mem_chain w proc p (as @ bs) q \<longleftrightarrow>
     mem_chain w proc p as (first_or bs q) \<and> mem_chain w proc (last_or as p) bs q"
  by (induction as arbitrary: p) auto

lemma mem_chain_frame:
  "(\<And>d. d \<in> set ds \<Longrightarrow> w_alloc w' d = w_alloc w d) \<Longrightarrow> mem_chain w' proc p ds q = mem_chain w proc p ds q"
  by (induction ds arbitrary: p) auto

text \<open>Every descriptor is a block of the heap, so the fuel of the search is enough.\<close>

lemma block_count_ge:
  assumes "distinct ds" and "\<forall>d \<in> set ds. live (w_heap w) d \<noteq> None"
  shows "length ds \<le> block_count w"
proof -
  let ?b = "heap_blocks (l_majors (w_heap w))"
  have "set ds \<subseteq> user_ptr ` set ?b"
  proof
    fix d
    assume "d \<in> set ds"
    with assms(2) obtain n where "map_of (map (\<lambda>m. (user_ptr m, mi_req m)) ?b) d = Some n"
      by (auto simp: live_def)
    from map_of_SomeD [OF this] show "d \<in> user_ptr ` set ?b" by auto
  qed
  then have "card (set ds) \<le> card (user_ptr ` set ?b)" by (intro card_mono) auto
  also have "\<dots> \<le> length ?b" by (meson card_image_le card_length le_trans finite_set)
  finally show ?thesis
    using assms(1) by (simp add: distinct_card block_count_def heap_blocks_def length_concat o_def)
qed

lemma find_mem_ok:
  assumes "mem_chain w proc p ds None" and "length ds \<le> n"
  shows "find_mem n ptr (first_or ds None) w = Inr (find (\<lambda>d. am_virt (mem_at w d) = ptr) ds)"
  using assms
proof (induction ds arbitrary: p n)
  case Nil
  then show ?case by (cases n) simp_all
next
  case (Cons d ds)
  then obtain k m where k: "n = Suc k" and m: "w_alloc w d = Some m" "am_next m = first_or ds None"
    "mem_chain w proc (Some d) ds None" by (cases n) auto
  then show ?case using Cons.IH [of "Some d" k] Cons.prems(2) by (simp add: get_mem_def mem_at_def)
qed

lemma put_mem_simps [simp]:
  "w_heap (w\<lparr>w_alloc := a\<rparr>) = w_heap w" "get_process q (w\<lparr>w_alloc := a\<rparr>) = get_process q w"
  "get_process q (put_process q pr w) = Inr pr" "w_heap (put_process q pr w) = w_heap w"
  "w_alloc (put_process q pr w) = w_alloc w" "w_mem (put_process q pr w) = w_mem w"
  by (simp_all add: world_defs)

text \<open>A new descriptor at the front.\<close>

lemma link_mem_ok:
  assumes pr: "get_process proc w = Inr pr" "pr_alloc pr = first_or ds None"
    and ch: "mem_chain w proc None ds None" and dist: "distinct (mem # ds)"
  shows "\<exists>w'. link_mem proc mem pages flags phys virt w = Inr w'
    \<and> get_process proc w' = Inr (pr\<lparr>pr_alloc := Some mem\<rparr>) \<and> mem_chain w' proc None (mem # ds) None
    \<and> w_heap w' = w_heap w \<and> w_mem w' = w_mem w
    \<and> block_of (mem_at w' mem) = (pages, flags, phys, virt, 0)
    \<and> (\<forall>d \<in> set ds. block_of (mem_at w' d) = block_of (mem_at w d))"
proof -
  let ?m = "\<lparr>am_pages = pages, am_flags = flags, am_phys = phys, am_virt = virt, am_shared = 0,
     am_parent = Some proc, am_next = first_or ds None, am_prev = None\<rparr>"
  define w1 where "w1 = put_process proc (pr\<lparr>pr_alloc := Some mem\<rparr>) (w\<lparr>w_alloc := (w_alloc w)(mem \<mapsto> ?m)\<rparr>)"
  have a1: "w_alloc w1 = (w_alloc w)(mem \<mapsto> ?m)" by (simp add: w1_def)
  show ?thesis
  proof (cases ds)
    case Nil
    have "link_mem proc mem pages flags phys virt w = Inr w1"
      using pr Nil by (simp add: link_mem_def w1_def)
    then show ?thesis
      using Nil a1 by (intro exI [of _ w1]) (simp add: mem_at_def block_of_def w1_def)
  next
    case (Cons e es)
    with ch obtain n where n: "w_alloc w e = Some n" "am_next n = first_or es None" "am_parent n = Some proc"
      "mem_chain w proc (Some e) es None" by auto
    have ne: "mem \<noteq> e" "e \<notin> set es" "mem \<notin> set es" using dist Cons by auto
    define w2 where "w2 = w1\<lparr>w_alloc := (w_alloc w1)(e \<mapsto> n\<lparr>am_prev := Some mem\<rparr>)\<rparr>"
    have run: "link_mem proc mem pages flags phys virt w = Inr w2"
      using pr Cons n(1) ne by (simp add: link_mem_def modify_mem_def get_mem_def w2_def w1_def)
    have "mem_chain w2 proc (Some e) es None"
      using n(4) ne by (subst mem_chain_frame [of _ _ w]) (auto simp: w2_def a1)
    then have "mem_chain w2 proc None (mem # ds) None" using n ne Cons by (simp add: w2_def a1)
    moreover have "block_of (mem_at w2 d) = block_of (mem_at w d)" if "d \<in> set ds" for d
      using that dist Cons n(1) by (auto simp: mem_at_def w2_def a1 block_of_def)
    ultimately show ?thesis
      using run ne by (intro exI [of _ w2]) (simp add: w2_def a1 mem_at_def block_of_def, simp add: w1_def)
  qed
qed

text \<open>The first lines of \<^verbatim>\<open>user_free\<close> take a descriptor out of the list.\<close>

definition unlink_mem :: "nat \<Rightarrow> nat \<Rightarrow> world \<Rightarrow> world kres" where
  "unlink_mem proc mem w =
     bindR (get_process proc w) (\<lambda>pr.
     bindR (get_mem mem w) (\<lambda>m.
     let w1 = (if pr_alloc pr = Some mem then put_process proc (pr\<lparr>pr_alloc := am_next m\<rparr>) w else w) in
     bindR (if am_next m \<noteq> None then modify_mem (am_next m) (\<lambda>n. n\<lparr>am_prev := am_prev m\<rparr>) w1
            else Inr w1) (\<lambda>w2.
     bindR (if am_prev m \<noteq> None then modify_mem (am_prev m) (\<lambda>n. n\<lparr>am_next := am_next m\<rparr>) w2
            else Inr w2) (\<lambda>w3.
     modify_mem (Some mem) (\<lambda>n. n\<lparr>am_parent := None\<rparr>) w3))))"

lemma modify_mem_Some:
  "w_alloc w a = Some m \<Longrightarrow> modify_mem (Some a) f w = Inr (w\<lparr>w_alloc := (w_alloc w)(a \<mapsto> f m)\<rparr>)"
  by (simp add: modify_mem_def get_mem_def)

lemma unlink_mem_ok:
  assumes pr: "get_process proc w = Inr pr" "pr_alloc pr = first_or (as @ d # bs) None"
    and ch: "mem_chain w proc None (as @ d # bs) None" and dist: "distinct (as @ d # bs)"
  shows "\<exists>w'. unlink_mem proc d w = Inr w'
    \<and> get_process proc w' = Inr (pr\<lparr>pr_alloc := first_or (as @ bs) None\<rparr>) \<and> mem_chain w' proc None (as @ bs) None
    \<and> w_heap w' = w_heap w \<and> w_mem w' = w_mem w \<and> mmu_of w' = mmu_of w
    \<and> (\<forall>e \<in> set (as @ bs). block_of (mem_at w' e) = block_of (mem_at w e))"
proof -
  from ch obtain m where m: "w_alloc w d = Some m" "am_prev m = last_or as None" "am_next m = first_or bs None"
    and ca: "mem_chain w proc None as (Some d)" and cb: "mem_chain w proc (Some d) bs None"
    by (auto simp: mem_chain_append)
  have dx: "distinct as" "distinct bs" "d \<notin> set as" "d \<notin> set bs" "set as \<inter> set bs = {}" using dist by auto
  define w1 where "w1 = (if pr_alloc pr = Some d then put_process proc (pr\<lparr>pr_alloc := am_next m\<rparr>) w else w)"
  have w1: "get_process proc w1 = Inr (pr\<lparr>pr_alloc := first_or (as @ bs) None\<rparr>)" "w_alloc w1 = w_alloc w"
    "w_heap w1 = w_heap w" "w_mem w1 = w_mem w" "mmu_of w1 = mmu_of w"
    using pr dx(3) m(3) by (cases as; simp add: w1_def mmu_of_def; simp add: put_process_def)+
  define w2 where "w2 = (case bs of [] \<Rightarrow> w1
     | b # _ \<Rightarrow> w1\<lparr>w_alloc := (w_alloc w1)(b \<mapsto> (mem_at w b)\<lparr>am_prev := am_prev m\<rparr>)\<rparr>)"
  define w3 where "w3 = (if as = [] then w2
     else w2\<lparr>w_alloc := (w_alloc w2)(last as \<mapsto> (mem_at w (last as))\<lparr>am_next := am_next m\<rparr>)\<rparr>)"
  define w4 where "w4 = w3\<lparr>w_alloc := (w_alloc w3)(d \<mapsto> m\<lparr>am_parent := None\<rparr>)\<rparr>"
  have nd: "bs \<noteq> [] \<Longrightarrow> hd bs \<noteq> d" "as \<noteq> [] \<Longrightarrow> last as \<noteq> d" "bs \<noteq> [] \<Longrightarrow> as \<noteq> [] \<Longrightarrow> hd bs \<noteq> last as"
    using dx(3,4,5) hd_in_set last_in_set disjoint_iff by metis+
  have a4: "w_alloc w4 x = (if x = d then Some (m\<lparr>am_parent := None\<rparr>)
      else if bs \<noteq> [] \<and> x = hd bs then Some ((mem_at w x)\<lparr>am_prev := last_or as None\<rparr>)
      else if as \<noteq> [] \<and> x = last as then Some ((mem_at w x)\<lparr>am_next := first_or bs None\<rparr>)
      else w_alloc w x)" for x
    using nd m w1(2) by (cases bs) (auto simp: w4_def w3_def w2_def)
  have r2: "(if am_next m \<noteq> None then modify_mem (am_next m) (\<lambda>n. n\<lparr>am_prev := am_prev m\<rparr>) w1 else Inr w1) = Inr w2"
    using m(3) w1(2) mem_chain_mem [OF cb] by (cases bs) (simp_all add: w2_def modify_mem_Some)
  have l2: "as \<noteq> [] \<Longrightarrow> w_alloc w2 (last as) = Some (mem_at w (last as))"
    using mem_chain_mem [OF ca, of "last as"] nd(3) w1(2) by (cases bs) (auto simp: w2_def)
  have r3: "(if am_prev m \<noteq> None then modify_mem (am_prev m) (\<lambda>n. n\<lparr>am_next := am_next m\<rparr>) w2 else Inr w2) = Inr w3"
    using m(2) l2 by (cases "as = []") (simp_all add: w3_def last_or_def modify_mem_Some)
  have d3: "w_alloc w3 d = Some m"
    using m(1) nd w1(2) by (cases bs) (auto simp: w3_def w2_def)
  have run: "unlink_mem proc d w = Inr w4"
    unfolding unlink_mem_def pr(1) bindR_simps Let_def get_mem_def m(1) option.case w1_def [symmetric] r2 r3
    using d3 by (simp add: modify_mem_Some w4_def)
  have "mem_chain w4 proc None as (first_or bs None)"
  proof (cases as rule: rev_cases)
    case (snoc ys x)
    with ca have c: "mem_chain w proc None ys (Some x)" "\<exists>n. w_alloc w x = Some n \<and> am_prev n = last_or ys None \<and> am_parent n = Some proc"
      by (auto simp: mem_chain_append)
    have "mem_chain w4 proc None ys (Some x)"
      using c(1) dx snoc by (subst mem_chain_frame [of _ _ w]) (auto simp: a4 dest: hd_in_set)
    moreover have "w_alloc w4 x = Some ((mem_at w x)\<lparr>am_next := first_or bs None\<rparr>)"
      using nd snoc by (auto simp: a4)
    ultimately show ?thesis using c(2) snoc by (auto simp: mem_chain_append mem_at_def)
  qed simp
  moreover have "mem_chain w4 proc (last_or as None) bs None"
  proof (cases bs)
    case (Cons b ys)
    with cb have c: "mem_chain w proc (Some b) ys None" "\<exists>n. w_alloc w b = Some n \<and> am_next n = first_or ys None \<and> am_parent n = Some proc"
      by auto
    have "mem_chain w4 proc (Some b) ys None"
      using c(1) dx Cons by (subst mem_chain_frame [of _ _ w]) (auto simp: a4 dest: last_in_set)
    moreover have "w_alloc w4 b = Some ((mem_at w b)\<lparr>am_prev := last_or as None\<rparr>)"
      using nd Cons by (simp add: a4)
    ultimately show ?thesis using c(2) Cons by (auto simp: mem_at_def)
  qed simp
  ultimately have "mem_chain w4 proc None (as @ bs) None" by (simp add: mem_chain_append)
  moreover have "block_of (mem_at w4 e) = block_of (mem_at w e)" if "e \<in> set (as @ bs)" for e
    using that dx by (auto simp: mem_at_def [of w4] a4 block_of_def) (simp add: mem_at_def)+
  moreover have "get_process proc w4 = Inr (pr\<lparr>pr_alloc := first_or (as @ bs) None\<rparr>)" "w_heap w4 = w_heap w"
    "w_mem w4 = w_mem w" "mmu_of w4 = mmu_of w"
    using w1 by (cases bs; auto simp: w4_def w3_def w2_def mmu_of_def)+
  ultimately show ?thesis using run by blast
qed

section \<open>Steps\<close>

lemma put_heap_more [simp]:
  "w_mem (put_heap h w) = w_mem w" "w_alloc (put_heap h w) = w_alloc w" "get_process q (put_heap h w) = get_process q w"
  "w_cr3 (put_heap h w) = w_cr3 w" "w_heap (put_heap h w) = h" "put_heap (w_heap w) w = w"
  "put_heap h (put_heap h' w) = put_heap h w"
  by (simp_all add: world_defs)

lemma outside_put_heap [simp]: "outside_heap (put_heap h w) = strays phys_owned h"
  by (simp add: outside_heap_def)

lemma put_mmu_simps [simp]:
  "w_mem (put_mmu m w) = mm_mem m" "w_alloc (put_mmu m w) = w_alloc w" "get_process q (put_mmu m w) = get_process q w"
  "w_heap (put_mmu m w) = (w_heap w)\<lparr>l_sys := mm_phys m\<rparr>" "put_mmu (mmu_of w) w = w"
  by (simp_all add: put_mmu_def mmu_of_def world_defs)

lemma frame_alloc:
  assumes ok: "framed_heap_ok F (w_heap w)" and n: "0 < n"
  obtains (none) "w_memory_alloc n w = Inr (None, w)"
  | (some) a p where "w_memory_alloc n w = Inr (Some a, put_heap ((w_heap w)\<lparr>l_sys := p\<rparr>) w)"
      "0 < a" "a mod 4096 = 0" "a + n * 4096 \<le> 4294967296" "bytes a (n * 4096) \<inter> phys_owned (l_sys (w_heap w)) = {}"
      "phys_owned p = phys_owned (l_sys (w_heap w)) \<union> bytes a (n * 4096)"
      "framed_heap_ok (F \<union> bytes a (n * 4096)) ((w_heap w)\<lparr>l_sys := p\<rparr>)"
      "strays phys_owned ((w_heap w)\<lparr>l_sys := p\<rparr>) = outside_heap w \<union> bytes a (n * 4096)"
proof -
  note d = framed_heapD(1,2) [OF ok]
  from hooks.page_alloc_total [OF d(1) n] obtain r p where
    r: "memory_alloc n (l_sys (w_heap w)) = Inr (r, p)" "phys_ready p" by (auto simp: liballoc_alloc_def)
  show thesis
  proof (cases r)
    case None
    with r hooks.page_alloc_None [OF d(1) n] have "p = l_sys (w_heap w)" by (simp add: liballoc_alloc_def)
    with r None show thesis by (intro none) (simp add: w_memory_alloc_def)
  next
    case (Some a)
    with r hooks.page_alloc_Some [OF d(1) n, of a p] have
      a: "0 < a" "a mod 4096 = 0" "a + n * 4096 \<le> 4294967296" "bytes a (n * 4096) \<inter> phys_owned (l_sys (w_heap w)) = {}"
      "phys_owned p = phys_owned (l_sys (w_heap w)) \<union> bytes a (n * 4096)" by (auto simp: liballoc_alloc_def)
    have "framed_heap_ok (F \<union> bytes a (n * 4096)) ((w_heap w)\<lparr>l_sys := p\<rparr>)"
      by (rule framed_change [OF ok r(2)]) (use a d(2) in auto)
    moreover have "strays phys_owned ((w_heap w)\<lparr>l_sys := p\<rparr>) = outside_heap w \<union> bytes a (n * 4096)"
      using a(4,5) framed_heapD(3) [OF ok] by (fastforce simp: outside_heap_def strays_def)
    ultimately show thesis using a r Some by (intro some) (simp_all add: w_memory_alloc_def)
  qed
qed

lemma frame_free:
  assumes ok: "framed_heap_ok F (w_heap w)" and n: "0 < n" "0 < a" "a mod 4096 = 0" "bytes a (n * 4096) \<subseteq> F"
  obtains p where "w_memory_free n a w = Inr (put_heap ((w_heap w)\<lparr>l_sys := p\<rparr>) w)"
    "phys_owned p = phys_owned (l_sys (w_heap w)) - bytes a (n * 4096)"
    "framed_heap_ok (F - bytes a (n * 4096)) ((w_heap w)\<lparr>l_sys := p\<rparr>)"
    "strays phys_owned ((w_heap w)\<lparr>l_sys := p\<rparr>) = outside_heap w - bytes a (n * 4096)"
proof -
  note d = framed_heapD(1,2) [OF ok]
  from hooks.page_free_owned [OF d(1) n(1,2,3)] n(4) d(2) obtain p where
    p: "memory_free n a (l_sys (w_heap w)) = Inr p" "phys_ready p"
      "phys_owned p = phys_owned (l_sys (w_heap w)) - bytes a (n * 4096)" by (auto simp: liballoc_free_def)
  have "framed_heap_ok (F - bytes a (n * 4096)) ((w_heap w)\<lparr>l_sys := p\<rparr>)"
    by (rule framed_change [OF ok p(2)]) (use p(3) d(2) n(4) in auto)
  moreover have "strays phys_owned ((w_heap w)\<lparr>l_sys := p\<rparr>) = outside_heap w - bytes a (n * 4096)"
    using p(3) by (auto simp: outside_heap_def strays_def)
  ultimately show thesis using p by (intro that) (simp_all add: w_memory_free_def)
qed

lemma vmap_page: "u div 4096 = v div 4096 \<Longrightarrow> vmap m dir u = vmap m dir v"
proof -
  assume e: "u div 4096 = v div 4096"
  have "u div 4194304 = (u div 4096) div 1024" "v div 4194304 = (v div 4096) div 1024"
    by (simp_all add: div_mult2_eq [symmetric])
  with e have "page_table_of u = page_table_of v" "page_entry_of u = page_entry_of v"
    by (simp_all add: page_table_of_def page_entry_of_def)
  then show ?thesis
    by (simp add: vmap_def page_entry_present_def pt_entry_def page_table_def pd_entry_def)
qed

text \<open>What \<^verbatim>\<open>page_provide\<close> does with the window of process memory.\<close>

definition mapped_at :: "memory \<Rightarrow> memory \<Rightarrow> nat \<Rightarrow> nat \<Rightarrow> nat \<Rightarrow> nat \<Rightarrow> bool" where
  "mapped_at m m' dir virt phys pages \<longleftrightarrow>
     virt = first_free m dir sK_BASE sK_CEILING pages \<and> sK_BASE \<le> virt \<and> virt < sK_CEILING \<and> virt mod 4096 = 0
     \<and> (\<forall>v. user_addr v \<longrightarrow> in_run virt pages v \<longrightarrow> vmap m dir v = None)
     \<and> (\<forall>v. user_addr v \<longrightarrow> vmap m' dir v
          = (if in_run virt pages v
             then Some (direct_entry (convert_paging_types (USER_PAGE OR READ_WRITE)) phys virt v)
             else vmap m dir v))"

lemma provide_ok:
  assumes ok: "pd_ok s dir" and n: "0 < pages" "pages \<le> 16384" and ph: "phys + pages * 4096 \<le> 4294967296"
    and fr: "int pages < s_freePages (mm_phys s)"
  defines "provide \<equiv> page_provide dir phys sK_BASE sK_CEILING pages (USER_PAGE OR READ_WRITE) s"
  obtains (none) "provide = Inr (0, s)" "first_free (mm_mem s) dir sK_BASE sK_CEILING pages = 0"
  | (some) virt s' where "provide = Inr (virt, s')" "pd_step dir s s'" "mapped_at (mm_mem s) (mm_mem s') dir virt phys pages"
      "only_tables dir s s'"
proof -
  let ?v = "first_free (mm_mem s) dir sK_BASE sK_CEILING pages"
  have "sK_CEILING + pages * 4096 \<le> 4294967296" using n(2) by (simp add: sK_CEILING_def)
  from page_find_free_ok [OF this] have f: "page_find_free (mm_mem s) dir sK_BASE sK_CEILING pages = Inr ?v" .
  show thesis
  proof (cases "?v = 0")
    case True
    then show thesis by (intro none) (simp_all add: provide_def page_provide_def f)
  next
    case False
    then obtain i where i: "find (\<lambda>i. free_at (mm_mem s) dir pages (sK_BASE + i * 4096))
        [0..<(sK_CEILING - sK_BASE + 4095) div 4096] = Some i" "?v = sK_BASE + i * 4096"
      by (auto simp: first_free_def sK_BASE_def split: option.splits)
    then have j: "i < (sK_CEILING - sK_BASE + 4095) div 4096" "free_at (mm_mem s) dir pages ?v"
      by (auto simp: find_Some_iff)
    have lt: "?v < sK_CEILING"
      using j(1) pages_below [of sK_BASE i sK_CEILING] i(2) by simp
    have b: "0x80000000 \<le> ?v" "?v mod 4096 = 0" "?v + pages * 4096 \<le> 0xFE000000"
      using i(2) lt n(2) by (simp_all add: sK_BASE_def sK_CEILING_def)
    have free: "vmap (mm_mem s) dir v = None" if "in_run ?v pages v" for v
    proof -
      from that obtain k where k: "k < pages" "v div 4096 = ?v div 4096 + k"
        by (auto simp: in_run_def intro: that [of "v div 4096 - ?v div 4096"])
      then have "v div 4096 = (?v + k * 4096) div 4096" by simp
      from vmap_page [OF this] j(2) k(1) show ?thesis by (simp add: free_at_def)
    qed
    from direct_map_loop_ok [OF ok convert_flags_ok b(1,3) ph fr, of "mm_cr3 s = dir" "USER_PAGE OR READ_WRITE"] obtain s' where
      s': "direct_map_loop (mm_cr3 s = dir) (convert_paging_types (USER_PAGE OR READ_WRITE)) dir phys ?v pages s = Inr s'"
      "pd_step dir s s'" "\<forall>v. user_addr v \<longrightarrow> vmap (mm_mem s') dir v
         = (if in_run ?v pages v then Some (direct_entry (convert_paging_types (USER_PAGE OR READ_WRITE)) phys ?v v)
            else vmap (mm_mem s) dir v)" "only_tables dir s s'" by blast
    have "provide = Inr (?v, s')"
      using s'(1) n False by (simp add: provide_def page_provide_def page_direct_map_def f)
    moreover have "mapped_at (mm_mem s) (mm_mem s') dir ?v phys pages"
      using s'(3) free b lt by (simp add: mapped_at_def sK_BASE_def)
    ultimately show thesis using s'(2,4) some by blast
  qed
qed

text \<open>The pages of new tables come to what the heap does not cover.\<close>

lemma only_tables_outside:
  assumes ok: "framed_heap_ok (pd_bytes (w_mem w) dir \<union> G) (w_heap w)" and st: "pd_step dir (mmu_of w) s'"
    and ot: "only_tables dir (mmu_of w) s'"
  shows "strays phys_owned ((w_heap w)\<lparr>l_sys := mm_phys s'\<rparr>) = outside_heap w \<union> pd_bytes (mm_mem s') dir"
proof -
  have "maj_bytes M \<inter> pd_bytes (mm_mem s') dir = {}" if "M \<in> set (l_majors (w_heap w))" for M
    using framed_heapD(3) [OF ok that] st by (fastforce simp: pd_step_def)
  then show ?thesis using ot by (fastforce simp: only_tables_def strays_def outside_heap_def)
qed

text \<open>After a step of the page tables the heap is still framed.\<close>

lemma framed_pd_step:
  assumes ok: "framed_heap_ok (pd_bytes (w_mem w) dir \<union> G) (w_heap w)" and st: "pd_step dir (mmu_of w) s'"
    and dj: "pd_bytes (w_mem w) dir \<inter> G = {}"
  shows "framed_heap_ok (pd_bytes (mm_mem s') dir \<union> G) ((w_heap w)\<lparr>l_sys := mm_phys s'\<rparr>)"
    and "pd_bytes (mm_mem s') dir \<inter> G = {}" and "pd_shape (mm_mem s') dir"
proof -
  note d = framed_heapD(1,2) [OF ok]
  have s: "phys_ready (mm_phys s')" "pd_bytes (mm_mem s') dir \<subseteq> phys_owned (mm_phys s')" "pd_shape (mm_mem s') dir"
    using st by (auto simp: pd_step_def pd_ok_iff)
  have g: "phys_owned (l_sys (w_heap w)) \<subseteq> phys_owned (mm_phys s')"
    "pd_bytes (mm_mem s') dir \<inter> phys_owned (l_sys (w_heap w)) \<subseteq> pd_bytes (w_mem w) dir"
    using st by (auto simp: pd_step_def)
  show "framed_heap_ok (pd_bytes (mm_mem s') dir \<union> G) ((w_heap w)\<lparr>l_sys := mm_phys s'\<rparr>)"
    by (rule framed_change [OF ok s(1)]) (use s g d in auto)
  show "pd_bytes (mm_mem s') dir \<inter> G = {}" using g(2) d(2) dj by blast
  show "pd_shape (mm_mem s') dir" by (rule s(3))
qed

lemma block_cong:
  assumes "block_of m = block_of m'"
  shows "releasable m = releasable m'" "frames m = frames m'" "block_ok m G = block_ok m' G"
  using assms by (auto simp: block_of_def releasable_def frames_def block_ok_def)

lemma block_ok_mono: "block_ok m G \<Longrightarrow> G \<subseteq> H \<Longrightarrow> block_ok m H"
  by (auto simp: block_ok_def)

lemma frames_apart_cong:
  assumes "\<forall>d \<in> set ds. block_of (mem_at w' d) = block_of (mem_at w d)"
  shows "frames_apart w' ds = frames_apart w ds"
proof -
  have "releasable (mem_at w' d) = releasable (mem_at w d)" "frames (mem_at w' d) = frames (mem_at w d)"
    if "d \<in> set ds" for d using block_cong assms that by blast+
  then show ?thesis by (simp add: frames_apart_def)
qed

text \<open>Linking a fresh block of frames: the state \<open>w\<close> before, and \<open>w3\<close> when the pages are mapped.\<close>

lemma memory_link:
  assumes mk: "memory_ok w proc pr dir ds G" and R: "R = bytes loc (pages * 4096)"
    and w3: "get_process proc w3 = Inr pr" "w_alloc w3 = w_alloc w" "pd_shape (w_mem w3) dir"
      "framed_heap_ok (pd_bytes (w_mem w3) dir \<union> H) (w_heap w3)" "pd_bytes (w_mem w3) dir \<inter> H = {}"
      "live (w_heap w3) = (live (w_heap w))(mem \<mapsto> sizeof_allocated_memory)" "live (w_heap w) mem = None"
    and b: "0 < pages" "0x80000000 \<le> virt" "virt + pages * 4096 \<le> 0xFE000000"
    and own: "if flags AND UALLOC_NORELEASE = 0
      then H = G \<union> R \<and> R \<inter> G = {} \<and> 0 < loc \<and> loc mod 4096 = 0 else H = G"
  obtains w' where "link_mem proc mem pages flags loc virt w3 = Inr w'"
    "memory_ok w' proc (pr\<lparr>pr_alloc := Some mem\<rparr>) dir (mem # ds) H"
    "block_of (mem_at w' mem) = (pages, flags, loc, virt, 0)"
    "\<forall>d \<in> set ds. block_of (mem_at w' d) = block_of (mem_at w d)"
    "w_heap w' = w_heap w3" "w_mem w' = w_mem w3"
proof -
  note d = memory_okD [OF mk]
  have fresh: "mem \<notin> set ds" using d(9) w3(7) by auto
  have GH: "G \<subseteq> H" using own by (auto split: if_splits)
  have ch: "mem_chain w3 proc None ds None" using d(7) w3(2) by (subst mem_chain_frame [of _ _ w]) simp_all
  have same: "mem_at w3 x = mem_at w x" for x by (simp add: mem_at_def w3(2))
  from link_mem_ok [OF w3(1) d(6) ch, of mem pages flags loc virt] fresh d(8) obtain w' where
    w': "link_mem proc mem pages flags loc virt w3 = Inr w'" "get_process proc w' = Inr (pr\<lparr>pr_alloc := Some mem\<rparr>)"
      "mem_chain w' proc None (mem # ds) None" "w_heap w' = w_heap w3" "w_mem w' = w_mem w3"
      "block_of (mem_at w' mem) = (pages, flags, loc, virt, 0)"
      "\<forall>d \<in> set ds. block_of (mem_at w' d) = block_of (mem_at w d)" using same by auto
  let ?m = "mem_at w' mem"
  have m: "am_pages ?m = pages" "am_flags ?m = flags" "am_phys ?m = loc" "am_virt ?m = virt" "am_shared ?m = 0"
    using w'(6) by (simp_all add: block_of_def)
  have bm: "block_ok ?m H"
    using b own by (auto simp: block_ok_def releasable_def frames_def m R split: if_splits)
  have bd: "block_ok (mem_at w' d) H" "frames (mem_at w' d) = frames (mem_at w d)"
    "releasable (mem_at w' d) = releasable (mem_at w d)" "releasable (mem_at w d) \<Longrightarrow> frames (mem_at w d) \<subseteq> G"
    if "d \<in> set ds" for d
    using d(9) that block_cong [of "mem_at w' d" "mem_at w d"] w'(7) block_ok_mono [OF _ GH] by (auto simp: block_ok_def)
  have "frames ?m \<inter> G = {}" if "releasable ?m"
    using own that by (auto simp: releasable_def frames_def m R split: if_splits)
  then have apart: "frames ?m \<inter> frames (mem_at w e) = {}"
    if "e \<in> set ds" "releasable ?m" "releasable (mem_at w e)" for e
    using that bd(4) [OF that(1,3)] by blast
  have "frames_apart w' (mem # ds)"
    unfolding frames_apart_def
  proof (intro ballI impI)
    fix a b
    assume ab: "a \<in> set (mem # ds)" "b \<in> set (mem # ds)" "a \<noteq> b" "releasable (mem_at w' a)" "releasable (mem_at w' b)"
    consider "a = mem" "b \<in> set ds" | "b = mem" "a \<in> set ds" | "a \<in> set ds" "b \<in> set ds" using ab by auto
    then show "frames (mem_at w' a) \<inter> frames (mem_at w' b) = {}"
    proof cases
      case 1
      then show ?thesis using apart [of b] bd(2,3) [of b] ab by simp
    next
      case 2
      then show ?thesis using apart [of a] bd(2,3) [of a] ab by (simp add: Int_commute)
    next
      case 3
      then show ?thesis using d(10) bd(2,3) [of a] bd(2,3) [of b] ab by (simp add: frames_apart_def)
    qed
  qed
  then have "memory_ok w' proc (pr\<lparr>pr_alloc := Some mem\<rparr>) dir (mem # ds) H"
    using w' d(2,8,9) w3(3-6) bm bd(1) fresh by (auto simp: memory_ok_def)
  with w' show thesis by (intro that) 
qed

text \<open>A change of the heap, the frames or the page tables that leaves the descriptors alone.\<close>

lemma memory_change:
  assumes mk: "memory_ok w proc pr dir ds G" and w': "w_alloc w' = w_alloc w" "get_process proc w' = get_process proc w"
    and pd: "pd_shape (w_mem w') dir" "framed_heap_ok (pd_bytes (w_mem w') dir \<union> H) (w_heap w')" "pd_bytes (w_mem w') dir \<inter> H = {}"
    and live: "\<forall>d \<in> set ds. live (w_heap w') d = live (w_heap w) d"
    and H: "\<forall>d \<in> set ds. releasable (mem_at w d) \<longrightarrow> frames (mem_at w d) \<subseteq> H"
  shows "memory_ok w' proc pr dir ds H"
proof -
  note d = memory_okD [OF mk]
  have e: "mem_at w' = mem_at w" using w'(1) by (simp add: mem_at_def fun_eq_iff)
  have "mem_chain w' proc None ds None" using d(7) w'(1) by (subst mem_chain_frame [of _ _ w]) simp_all
  moreover have "frames_apart w' ds" using d(10) e by (simp add: frames_apart_def)
  moreover have "block_ok (mem_at w' x) H" if "x \<in> set ds" for x
    using d(9) H that e by (auto simp: block_ok_def)
  ultimately show ?thesis using d w' pd live by (simp add: memory_ok_def)
qed

lemma user_free_unlink:
  assumes "get_process proc w = Inr pr" and "find_mem (block_count w) ptr (pr_alloc pr) w = Inr (Some mem)"
    and "get_mem mem w = Inr m" and "unlink_mem proc mem w = Inr w4"
  shows "user_free proc ptr w =
     bindR (if releasable m then w_memory_free (am_pages m) (am_phys m) w4 else Inr w4) (\<lambda>w5.
     bindR (on_map (\<lambda>dir s. Inr (page_release dir (am_virt m) (s32 (int (am_pages m))) s)) pr w5) (\<lambda>(_, w6).
     bindR (if releasable m then w_kfree (Some mem) w6 else Inr w6) (\<lambda>w7. Inr (SMK_OK, w7))))"
proof -
  have "user_free proc ptr w = bindR (unlink_mem proc mem w) (\<lambda>w4.
     bindR (if releasable m then w_memory_free (am_pages m) (am_phys m) w4 else Inr w4) (\<lambda>w5.
     bindR (on_map (\<lambda>dir s. Inr (page_release dir (am_virt m) (s32 (int (am_pages m))) s)) pr w5) (\<lambda>(_, w6).
     bindR (if releasable m then w_kfree (Some mem) w6 else Inr w6) (\<lambda>w7. Inr (SMK_OK, w7)))))"
    by (simp add: user_free_def unlink_mem_def assms(1-3) Let_def bindR_assoc releasable_def)
  then show ?thesis by (simp add: assms(4))
qed

lemma find_split:
  assumes "am_virt (mem_at w d) = ptr" and "\<forall>e \<in> set as. am_virt (mem_at w e) \<noteq> ptr"
  shows "find (\<lambda>d. am_virt (mem_at w d) = ptr) (as @ d # bs) = Some d"
  using assms by (induction as) simp_all

lemma memory_find:
  assumes mk: "memory_ok w proc pr dir ds G"
  shows "find_mem (block_count w) ptr (pr_alloc pr) w = Inr (find (\<lambda>d. am_virt (mem_at w d) = ptr) ds)"
proof -
  note d = memory_okD [OF mk]
  have "length ds \<le> block_count w" using d(8,9) by (intro block_count_ge) auto
  from find_mem_ok [OF d(7) this] show ?thesis by (simp add: d(6))
qed

lemma user_free_ok:
  assumes mk: "memory_ok w proc pr dir (as @ d # bs) G"
    and ptr: "am_virt (mem_at w d) = ptr" "\<forall>e \<in> set as. am_virt (mem_at w e) \<noteq> ptr"
  shows "\<exists>w'. user_free proc ptr w = Inr (SMK_OK, w')
    \<and> memory_ok w' proc (pr\<lparr>pr_alloc := first_or (as @ bs) None\<rparr>) dir (as @ bs)
         (if releasable (mem_at w d) then G - frames (mem_at w d) else G)
    \<and> live (w_heap w') = (if releasable (mem_at w d) then (live (w_heap w))(d := None) else live (w_heap w))
    \<and> (\<forall>v. user_addr v \<longrightarrow> vmap (w_mem w') dir v
         = (if in_run ptr (am_pages (mem_at w d)) v then None else vmap (w_mem w) dir v))
    \<and> (\<forall>e \<in> set (as @ bs). block_of (mem_at w' e) = block_of (mem_at w e))
    \<and> (if releasable (mem_at w d)
        then frames (mem_at w d) \<subseteq> outside_heap w \<and> outside_heap w' = outside_heap w - frames (mem_at w d)
        else outside_heap w' = outside_heap w)"
proof -
  note k = memory_okD [OF mk]
  let ?m = "mem_at w d" and ?pr = "pr\<lparr>pr_alloc := first_or (as @ bs) None\<rparr>"
  let ?G = "if releasable ?m then G - frames ?m else G"
  have ad: "w_alloc w d = Some ?m" using mem_chain_mem [OF k(7)] by simp
  have lv: "live (w_heap w) d = Some sizeof_allocated_memory" and bo: "block_ok ?m G" using k(9) by auto
  from unlink_mem_ok [OF k(1,6,7,8)] obtain w4 where w4: "unlink_mem proc d w = Inr w4" "get_process proc w4 = Inr ?pr"
    "mem_chain w4 proc None (as @ bs) None" "w_heap w4 = w_heap w" "w_mem w4 = w_mem w" "mmu_of w4 = mmu_of w"
    "\<forall>e \<in> set (as @ bs). block_of (mem_at w4 e) = block_of (mem_at w e)" by blast
  have same: "releasable (mem_at w4 e) = releasable (mem_at w e)" "frames (mem_at w4 e) = frames (mem_at w e)"
    "block_ok (mem_at w4 e) G = block_ok (mem_at w e) G" if "e \<in> set (as @ bs)" for e
    using block_cong w4(7) that by blast+
  have fa: "frames_apart w4 (as @ bs)"
    using frames_apart_cong [OF w4(7)] k(10) by (auto simp: frames_apart_def)
  have mk4: "memory_ok w4 proc ?pr dir (as @ bs) G"
    using k(2-5,8,9) w4(2-5) same(3) fa by (auto simp: memory_ok_def)
  have keep: "frames (mem_at w4 e) \<subseteq> ?G" if "e \<in> set (as @ bs)" "releasable (mem_at w4 e)" for e
  proof -
    have "e \<noteq> d" using k(8) that(1) by auto
    then have "frames (mem_at w e) \<inter> frames ?m = {}" if "releasable ?m"
      using k(10) that \<open>e \<in> _\<close> \<open>releasable (mem_at w4 e)\<close> same(1) [of e] by (auto simp: frames_apart_def)
    moreover have "frames (mem_at w e) \<subseteq> G"
      using k(9) that same(1) [OF that(1)] by (auto simp: block_ok_def)
    ultimately show ?thesis using same(2) [OF that(1)] by auto
  qed
  let ?out = "if releasable ?m then outside_heap w - frames ?m else outside_heap w"
  have o4: "outside_heap w4 = outside_heap w" by (rule outside_heap_same [OF w4(4)])
  have "\<exists>w5. (if releasable ?m then w_memory_free (am_pages ?m) (am_phys ?m) w4 else Inr w4) = Inr w5
    \<and> outside_heap w5 = ?out \<and> memory_ok w5 proc ?pr dir (as @ bs) ?G \<and> live (w_heap w5) = live (w_heap w) \<and> w_mem w5 = w_mem w \<and> w_alloc w5 = w_alloc w4"
  proof (cases "releasable ?m")
    case True
    have b: "0 < am_pages ?m" "0 < am_phys ?m" "am_phys ?m mod 4096 = 0" "frames ?m \<subseteq> G"
      using bo True by (auto simp: block_ok_def)
    have "bytes (am_phys ?m) (am_pages ?m * 4096) \<subseteq> pd_bytes (w_mem w4) dir \<union> G" using b(4) by (auto simp: frames_def)
    then obtain p where
      p: "w_memory_free (am_pages ?m) (am_phys ?m) w4 = Inr (put_heap ((w_heap w4)\<lparr>l_sys := p\<rparr>) w4)"
        "phys_owned p = phys_owned (l_sys (w_heap w4)) - frames ?m"
        "framed_heap_ok (pd_bytes (w_mem w4) dir \<union> G - frames ?m) ((w_heap w4)\<lparr>l_sys := p\<rparr>)"
        "strays phys_owned ((w_heap w4)\<lparr>l_sys := p\<rparr>) = outside_heap w4 - frames ?m"
      unfolding frames_def by (rule frame_free [OF memory_okD(4) [OF mk4] b(1-3)])
    have "pd_bytes (w_mem w4) dir \<union> G - frames ?m = pd_bytes (w_mem w4) dir \<union> (G - frames ?m)"
      using k(5) b(4) w4(5) by auto
    then have "memory_ok (put_heap ((w_heap w4)\<lparr>l_sys := p\<rparr>) w4) proc ?pr dir (as @ bs) ?G"
      using p(3) keep k(5) w4(5) True memory_okD(3) [OF mk4] by (intro memory_change [OF mk4]) auto
    with p(1,4) True w4 o4 show ?thesis by (simp add: outside_heap_def)
  qed (use mk4 w4 o4 in simp)
  then obtain w5 where w5: "(if releasable ?m then w_memory_free (am_pages ?m) (am_phys ?m) w4 else Inr w4) = Inr w5"
    "memory_ok w5 proc ?pr dir (as @ bs) ?G" "live (w_heap w5) = live (w_heap w)" "w_mem w5 = w_mem w" "w_alloc w5 = w_alloc w4"
    "outside_heap w5 = ?out"
    by blast
  define s6 where "s6 = release_loop (w_cr3 w5 = dir) dir ptr (am_pages ?m) (mmu_of w5)"
  define w6 where "w6 = put_mmu s6 w5"
  have b: "0x80000000 \<le> ptr" "ptr + am_pages ?m * 4096 \<le> 0xFE000000" using bo ptr(1) by (simp_all add: block_ok_def)
  have "s32 (int (am_pages ?m)) = int (am_pages ?m)" using b by (simp add: s32_def)
  then have r6: "on_map (\<lambda>dir s. Inr (page_release dir (am_virt ?m) (s32 (int (am_pages ?m))) s)) pr w5 = Inr (0, w6)"
    using k(2) ptr(1) by (simp add: on_map_def page_release_def w6_def s6_def)
  from release_loop_ok [OF memory_pd [OF w5(2)] b, of "w_cr3 w5 = dir"] have s6: "pd_step dir (mmu_of w5) s6"
    "mm_phys s6 = l_sys (w_heap w5)" "\<forall>v. user_addr v \<longrightarrow> vmap (mm_mem s6) dir v
      = (if in_run ptr (am_pages ?m) v then None else vmap (w_mem w) dir v)"
    by (simp_all add: s6_def [symmetric] w5(4))
  note f6 = framed_pd_step [OF memory_okD(4) [OF w5(2)] s6(1) memory_okD(5) [OF w5(2)]]
  have mk6: "memory_ok w6 proc ?pr dir (as @ bs) ?G"
    using f6 keep w5(5) by (intro memory_change [OF w5(2)]) (auto simp: w6_def mem_at_def)
  have h6: "w_heap w6 = w_heap w5" by (simp add: w6_def s6(2))
  have o6: "outside_heap w6 = ?out" using outside_heap_same [OF h6] w5(6) by simp
  have "\<exists>w7. (if releasable ?m then w_kfree (Some d) w6 else Inr w6) = Inr w7 \<and> memory_ok w7 proc ?pr dir (as @ bs) ?G
    \<and> live (w_heap w7) = (if releasable ?m then (live (w_heap w))(d := None) else live (w_heap w)) \<and> w_mem w7 = w_mem w6
    \<and> w_alloc w7 = w_alloc w6 \<and> outside_heap w7 = ?out"
  proof (cases "releasable ?m")
    case True
    from fheap.free_live [OF memory_okD(4) [OF mk6], of d] lv h6 w5(3) obtain h where
      h: "kfree liballoc_subsystem (Some d) (w_heap w6) = Inr h" "framed_heap_ok (pd_bytes (w_mem w6) dir \<union> ?G) h"
        "live h = (live (w_heap w))(d := None)" by auto
    have "memory_ok (put_heap h w6) proc ?pr dir (as @ bs) ?G"
      using h(2,3) k(8) h6 w5(3) memory_okD(3,5) [OF mk6] memory_okD(9) [OF mk6]
      by (intro memory_change [OF mk6]) (auto simp: block_ok_def)
    moreover have "strays phys_owned h = ?out"
      using w_kfree_outside [OF memory_okD(4) [OF mk6] _ h(1)] lv h6 w5(3) o6 by simp
    ultimately show ?thesis using h True by (simp add: w_kfree_def outside_heap_def)
  qed (use mk6 h6 w5(3) o6 in simp)
  then obtain w7 where w7: "(if releasable ?m then w_kfree (Some d) w6 else Inr w6) = Inr w7" "memory_ok w7 proc ?pr dir (as @ bs) ?G"
    "live (w_heap w7) = (if releasable ?m then (live (w_heap w))(d := None) else live (w_heap w))" "w_mem w7 = w_mem w6"
    "w_alloc w7 = w_alloc w6" "outside_heap w7 = ?out" by blast
  have "find_mem (block_count w) ptr (pr_alloc pr) w = Inr (Some d)"
    using memory_find [OF mk] find_split [of w d ptr as bs] ptr by simp
  from user_free_unlink [OF k(1) this _ w4(1), of ?m] ad have "user_free proc ptr w = Inr (SMK_OK, w7)"
    by (simp add: get_mem_def w5(1) r6 w7(1))
  moreover have "mem_at w7 e = mem_at w4 e" for e using w7(5) w5(5) by (simp add: mem_at_def w6_def)
  moreover have "w_mem w7 = mm_mem s6" using w7(4) by (simp add: w6_def)
  moreover have "frames ?m \<subseteq> outside_heap w" if "releasable ?m"
    using bo that memory_outside [OF mk] by (auto simp: block_ok_def)
  ultimately show ?thesis using w7(2,3,6) w4(7) s6(3) by (intro exI [of _ w7]) simp
qed

text \<open>The frames of the blocks that the process owns.\<close>

definition held_frames :: "world \<Rightarrow> nat list \<Rightarrow> nat set" where
  "held_frames w ds = (\<Union>d \<in> {d \<in> set ds. releasable (mem_at w d)}. frames (mem_at w d))"

lemma held_frames_Cons:
  "held_frames w (d # ds) = (if releasable (mem_at w d) then frames (mem_at w d) else {}) \<union> held_frames w ds"
  by (auto simp: held_frames_def)

lemma held_frames_cong:
  assumes "\<forall>d \<in> set ds. block_of (mem_at w' d) = block_of (mem_at w d)"
  shows "held_frames w' ds = held_frames w ds"
proof -
  have "releasable (mem_at w' d) = releasable (mem_at w d)" "frames (mem_at w' d) = frames (mem_at w d)"
    if "d \<in> set ds" for d using block_cong assms that by blast+
  then show ?thesis unfolding held_frames_def by (intro SUP_cong) auto
qed

lemma release_all_ok:
  assumes "memory_ok w proc pr dir ds G" and "length ds < n"
  shows "\<exists>w'. release_all_loop n proc w = Inr w' \<and> memory_ok w' proc (pr\<lparr>pr_alloc := None\<rparr>) dir [] (G - held_frames w ds)
    \<and> (\<forall>a. live (w_heap w') a = (if a \<in> set ds \<and> releasable (mem_at w a) then None else live (w_heap w) a))
    \<and> (\<forall>v. user_addr v \<longrightarrow> vmap (w_mem w') dir v
         = (if \<exists>d \<in> set ds. in_run (am_virt (mem_at w d)) (am_pages (mem_at w d)) v then None else vmap (w_mem w) dir v))
    \<and> held_frames w ds \<subseteq> outside_heap w \<and> outside_heap w' = outside_heap w - held_frames w ds"
  using assms
proof (induction ds arbitrary: w pr G n)
  case Nil
  then obtain k where "n = Suc k" by (cases n) auto
  moreover have "pr\<lparr>pr_alloc := None\<rparr> = pr" using memory_okD(6) [OF Nil.prems(1)] by simp
  with Nil.prems(1) have "memory_ok w proc (pr\<lparr>pr_alloc := None\<rparr>) dir [] G" by argo
  ultimately show ?case
    using memory_okD(1,6) [OF Nil.prems(1)] by (intro exI [of _ w]) (simp add: held_frames_def)
next
  case (Cons d ds)
  then obtain k where k: "n = Suc k" "length ds < k" by (cases n) auto
  note mk = memory_okD [OF Cons.prems(1)]
  let ?m = "mem_at w d"
  have ad: "w_alloc w d = Some ?m" using mem_chain_mem [OF mk(7)] by simp
  have none: "\<forall>e \<in> set []. am_virt (mem_at w e) \<noteq> am_virt ?m" by simp
  from user_free_ok [of w proc pr dir "[]" d ds G, unfolded append_Nil, OF Cons.prems(1) refl none] obtain w1 where
    w1: "user_free proc (am_virt ?m) w = Inr (SMK_OK, w1)"
      "memory_ok w1 proc (pr\<lparr>pr_alloc := first_or ds None\<rparr>) dir ds (if releasable ?m then G - frames ?m else G)"
      "live (w_heap w1) = (if releasable ?m then (live (w_heap w))(d := None) else live (w_heap w))"
      "\<forall>v. user_addr v \<longrightarrow> vmap (w_mem w1) dir v = (if in_run (am_virt ?m) (am_pages ?m) v then None else vmap (w_mem w) dir v)"
      "\<forall>e \<in> set ds. block_of (mem_at w1 e) = block_of (mem_at w e)"
      "if releasable ?m then frames ?m \<subseteq> outside_heap w \<and> outside_heap w1 = outside_heap w - frames ?m
       else outside_heap w1 = outside_heap w" by blast
  have same: "releasable (mem_at w1 e) = releasable (mem_at w e)" "am_virt (mem_at w1 e) = am_virt (mem_at w e)"
    "am_pages (mem_at w1 e) = am_pages (mem_at w e)" if "e \<in> set ds" for e
    using block_cong(1) w1(5) that by (blast, simp_all add: block_of_def)
  from Cons.IH [OF w1(2) k(2)] obtain w' where w': "release_all_loop k proc w1 = Inr w'"
    "memory_ok w' proc (pr\<lparr>pr_alloc := None\<rparr>) dir [] ((if releasable ?m then G - frames ?m else G) - held_frames w1 ds)"
    "\<forall>a. live (w_heap w') a = (if a \<in> set ds \<and> releasable (mem_at w1 a) then None else live (w_heap w1) a)"
    "\<forall>v. user_addr v \<longrightarrow> vmap (w_mem w') dir v
       = (if \<exists>d \<in> set ds. in_run (am_virt (mem_at w1 d)) (am_pages (mem_at w1 d)) v then None else vmap (w_mem w1) dir v)"
    "held_frames w1 ds \<subseteq> outside_heap w1" "outside_heap w' = outside_heap w1 - held_frames w1 ds"
    by auto
  have "release_all_loop n proc w = Inr w'"
    using mk(1,6) ad w1(1) w'(1) k(1) by (simp add: get_mem_def)
  moreover have "(if releasable ?m then G - frames ?m else G) - held_frames w1 ds = G - held_frames w (d # ds)"
    using held_frames_cong [OF w1(5)] by (auto simp: held_frames_Cons)
  moreover have "live (w_heap w') a = (if a \<in> set (d # ds) \<and> releasable (mem_at w a) then None else live (w_heap w) a)" for a
    using w'(3) w1(3) same(1) by auto
  moreover have "(\<exists>e \<in> set ds. in_run (am_virt (mem_at w1 e)) (am_pages (mem_at w1 e)) v)
      \<longleftrightarrow> (\<exists>e \<in> set ds. in_run (am_virt (mem_at w e)) (am_pages (mem_at w e)) v)" for v
    using same(2,3) by auto
  moreover have "held_frames w (d # ds) \<subseteq> outside_heap w" "outside_heap w' = outside_heap w - held_frames w (d # ds)"
    using w'(5,6) w1(6) held_frames_cong [OF w1(5)] by (auto simp: held_frames_Cons split: if_splits)
  ultimately show ?case using w'(2,4) w1(4) by (intro exI [of _ w']) auto
qed

section \<open>Allocation\<close>

text \<open>
  The three reasons for which memory is refused: no run of free frames, no room for the descriptor,
  no free run of addresses in the window of the process.
\<close>

definition refused :: "nat \<Rightarrow> nat \<Rightarrow> world \<Rightarrow> bool" where
  "refused pages dir w \<longleftrightarrow>
     w_memory_alloc pages w = Inr (None, w)
     \<or> (\<exists>a w1 w2. w_memory_alloc pages w = Inr (Some a, w1) \<and> w_kmalloc sizeof_allocated_memory w1 = Inr (None, w2))
     \<or> first_free (w_mem w) dir sK_BASE sK_CEILING pages = 0"

lemma user_alloc_ok:
  assumes mk: "memory_ok w proc pr dir ds G" and n: "0 < pages" "pages \<le> 16384"
    and fr: "\<forall>a w1 mem w2. w_memory_alloc pages w = Inr (Some a, w1) \<longrightarrow>
      w_kmalloc sizeof_allocated_memory w1 = Inr (Some mem, w2) \<longrightarrow> int pages < s_freePages (l_sys (w_heap w2))"
  shows "\<exists>w'. user_alloc proc pages w = Inr (SMK_NOMEM, None, w') \<and> memory_ok w' proc pr dir ds G
        \<and> live (w_heap w') = live (w_heap w) \<and> w_mem w' = w_mem w \<and> w_alloc w' = w_alloc w
        \<and> outside_heap w' = outside_heap w \<and> refused pages dir w
      \<or> (\<exists>loc virt mem. user_alloc proc pages w = Inr (SMK_OK, Some loc, w')
        \<and> bytes loc (pages * 4096) \<inter> phys_owned (l_sys (w_heap w)) = {}
        \<and> memory_ok w' proc (pr\<lparr>pr_alloc := Some mem\<rparr>) dir (mem # ds) (G \<union> bytes loc (pages * 4096))
        \<and> mapped_at (w_mem w) (w_mem w') dir virt loc pages
        \<and> block_of (mem_at w' mem) = (pages, 0, loc, virt, 0)
        \<and> (\<forall>d \<in> set ds. block_of (mem_at w' d) = block_of (mem_at w d))
        \<and> live (w_heap w') = (live (w_heap w))(mem \<mapsto> sizeof_allocated_memory)
        \<and> outside_heap w' = outside_heap w \<union> bytes loc (pages * 4096) \<union> pd_bytes (w_mem w') dir)"
proof -
  note d = memory_okD [OF mk]
  let ?F = "pd_bytes (w_mem w) dir \<union> G"
  have sz: "sizeof_allocated_memory < MAX_REQUEST" by (simp add: sizeof_allocated_memory_def MAX_REQUEST_def)
  have same: "memory_ok w' proc pr dir ds G"
    if "framed_heap_ok ?F (w_heap w')" "live (w_heap w') = live (w_heap w)" "w_mem w' = w_mem w"
      "w_alloc w' = w_alloc w" "get_process proc w' = get_process proc w" for w'
    using that d(3,5,9) by (intro memory_change [OF mk]) (auto simp: block_ok_def)
  have n0: "pages \<noteq> 0" using n by simp
  show ?thesis
  proof (rule frame_alloc [OF d(4) n(1)], goal_cases none some)
    case none
    then show ?thesis using n0 mk by (intro exI [of _ w]) (simp add: user_alloc_def refused_def)
  next
    case (some loc p)
    let ?R = "bytes loc (pages * 4096)"
    define w1 where "w1 = put_heap ((w_heap w)\<lparr>l_sys := p\<rparr>) w"
    have RF: "?R \<inter> ?F = {}" using some(5) framed_heapD(2) [OF d(4)] by blast
    have ok1: "framed_heap_ok (?F \<union> ?R) (w_heap w1)" "live (w_heap w1) = live (w_heap w)"
      using some(7) by (simp_all add: w1_def)
    have a1: "w_memory_alloc pages w = Inr (Some loc, w1)" using some(1) by (simp add: w1_def)
    have give_back: "\<exists>w'. w_memory_free pages loc w2 = Inr w' \<and> framed_heap_ok ?F (w_heap w')
        \<and> live (w_heap w') = live (w_heap w2) \<and> w_mem w' = w_mem w2 \<and> w_alloc w' = w_alloc w2
        \<and> get_process proc w' = get_process proc w2 \<and> outside_heap w' = outside_heap w2 - ?R"
      if fok: "framed_heap_ok (?F \<union> ?R) (w_heap w2)" for w2
    proof -
      obtain q where q: "w_memory_free pages loc w2 = Inr (put_heap ((w_heap w2)\<lparr>l_sys := q\<rparr>) w2)"
        "phys_owned q = phys_owned (l_sys (w_heap w2)) - ?R"
        "framed_heap_ok (?F \<union> ?R - ?R) ((w_heap w2)\<lparr>l_sys := q\<rparr>)"
        "strays phys_owned ((w_heap w2)\<lparr>l_sys := q\<rparr>) = outside_heap w2 - ?R"
        by (rule frame_free [OF fok n(1) some(2,3) Un_upper2])
      have "?F \<union> ?R - ?R = ?F" using RF by blast
      then show ?thesis using q by (simp add: outside_heap_def)
    qed
    have o1: "outside_heap w1 = outside_heap w \<union> ?R" "outside_heap w1 - ?R = outside_heap w"
      using some(5,8) outside_heap_owned [of w] by (auto simp: w1_def outside_heap_def)
    show ?thesis
    proof (rule fheap.malloc_cases [OF ok1(1) sz], goal_cases none some)
      case (none h)
      define w2 where "w2 = put_heap h w1"
      have k: "w_kmalloc sizeof_allocated_memory w1 = Inr (None, w2)" using none(1) by (simp add: w_kmalloc_def w2_def)
      from give_back [of w2] none obtain w' where w': "w_memory_free pages loc w2 = Inr w'" "framed_heap_ok ?F (w_heap w')"
        "live (w_heap w') = live (w_heap w2)" "w_mem w' = w_mem w2" "w_alloc w' = w_alloc w2"
        "get_process proc w' = get_process proc w2" "outside_heap w' = outside_heap w2 - ?R" by (auto simp: w2_def)
      have "outside_heap w2 = outside_heap w1"
        using w_kmalloc_outside [OF ok1(1) sz none(1)] by (simp add: w2_def)
      then have o': "outside_heap w' = outside_heap w" using w'(7) o1(2) by simp
      have "memory_ok w' proc pr dir ds G"
        by (rule same) (use w' none ok1 in \<open>simp_all add: w2_def w1_def\<close>)
      moreover have "refused pages dir w" using a1 k by (auto simp: refused_def)
      ultimately show ?thesis using n0 a1 k w'(1-6) o' none(3) ok1(2)
        by (intro exI [of _ w']) (simp add: user_alloc_def w2_def w1_def)
    next
      case (some mem h)
      define w2 where "w2 = put_heap h w1"
      have k: "w_kmalloc sizeof_allocated_memory w1 = Inr (Some mem, w2)"
        using some(1) by (simp add: w_kmalloc_def w2_def)
      have o2: "outside_heap w2 = outside_heap w1"
        using w_kmalloc_outside [OF ok1(1) sz some(1)] by (simp add: w2_def)
      have ok2: "framed_heap_ok (pd_bytes (w_mem w2) dir \<union> (G \<union> ?R)) (w_heap w2)"
        using some(2) by (simp add: w2_def w1_def Un_assoc)
      have pd2: "pd_ok (mmu_of w2) dir"
        using framed_heapD(1,2) [OF ok2] d(3) by (simp add: pd_ok_iff w2_def w1_def)
      have dj2: "pd_bytes (w_mem w2) dir \<inter> (G \<union> ?R) = {}" using d(5) RF by (auto simp: w2_def w1_def)
      have fp: "int pages < s_freePages (mm_phys (mmu_of w2))" using fr a1 k by simp
      have top: "loc + pages * 4096 \<le> 4294967296" by fact
      have gp: "get_process proc w2 = Inr pr" using d(1) by (simp add: w2_def w1_def)
      show ?thesis
      proof (rule provide_ok [OF pd2 n top fp], goal_cases none some)
        case none
        from give_back [of w2] some(2) obtain w3 where w3: "w_memory_free pages loc w2 = Inr w3" "framed_heap_ok ?F (w_heap w3)"
          "live (w_heap w3) = live (w_heap w2)" "w_mem w3 = w_mem w2" "w_alloc w3 = w_alloc w2"
          "get_process proc w3 = get_process proc w2" "outside_heap w3 = outside_heap w2 - ?R" by (auto simp: w2_def)
        have lm: "live (w_heap w3) mem = Some sizeof_allocated_memory" using w3(3) some(6) by (simp add: w2_def)
        from fheap.free_live [OF w3(2) lm] obtain h' where h': "kfree liballoc_subsystem (Some mem) (w_heap w3) = Inr h'"
          "framed_heap_ok ?F h'" "live h' = (live (w_heap w3))(mem := None)" by blast
        define w4 where "w4 = put_heap h' w3"
        have o4: "outside_heap w4 = outside_heap w"
          using w_kfree_outside [OF w3(2) lm h'(1)] w3(7) o2 o1(2) by (simp add: w4_def)
        have rf: "refused pages dir w" using none(2) by (simp add: refused_def w2_def w1_def)
        have l4: "live (w_heap w4) = live (w_heap w)"
          using h'(3) w3(3) some(5,6) ok1(2) by (simp add: w4_def w2_def fun_upd_idem)
        have "memory_ok w4 proc pr dir ds G"
          by (rule same) (use l4 h'(2) w3(1-6) in \<open>simp_all add: w4_def w2_def w1_def\<close>)
        moreover have "user_alloc proc pages w = Inr (SMK_NOMEM, None, w4)"
          using n0 a1 k gp d(2) none(1) w3(1) h'(1) by (simp add: user_alloc_def on_map_def w_kfree_def w4_def)
        ultimately show ?thesis using l4 o4 rf w3(1-6) by (intro exI [of _ w4]) (simp add: w4_def w2_def w1_def)
      next
        case (some virt s')
        define w3 where "w3 = put_mmu s' w2"
        note f3 = framed_pd_step [OF ok2 some(2) dj2]
        have b: "0x80000000 \<le> virt" "virt + pages * 4096 \<le> 0xFE000000" "virt \<noteq> 0"
          using some(3) n(2) by (simp_all add: mapped_at_def sK_BASE_def sK_CEILING_def)
        have l3: "live (w_heap w3) = (live (w_heap w))(mem \<mapsto> sizeof_allocated_memory)" "live (w_heap w) mem = None"
          using ok1(2) \<open>live h = _\<close> \<open>live (w_heap w1) mem = None\<close> by (simp_all add: w3_def w2_def)
        obtain w' where w': "link_mem proc mem pages 0 loc virt w3 = Inr w'"
          "memory_ok w' proc (pr\<lparr>pr_alloc := Some mem\<rparr>) dir (mem # ds) (G \<union> ?R)"
          "block_of (mem_at w' mem) = (pages, 0, loc, virt, 0)"
          "\<forall>d \<in> set ds. block_of (mem_at w' d) = block_of (mem_at w d)" "w_heap w' = w_heap w3" "w_mem w' = w_mem w3"
        proof (rule memory_link [OF mk refl, of w3 "G \<union> ?R" mem pages virt 0 loc])
          show "get_process proc w3 = Inr pr" using gp by (simp add: w3_def)
          show "w_alloc w3 = w_alloc w" by (simp add: w3_def w2_def w1_def)
          show "pd_shape (w_mem w3) dir" using f3(3) by (simp add: w3_def)
          show "framed_heap_ok (pd_bytes (w_mem w3) dir \<union> (G \<union> ?R)) (w_heap w3)" using f3(1) by (simp add: w3_def)
          show "pd_bytes (w_mem w3) dir \<inter> (G \<union> ?R) = {}" using f3(2) by (simp add: w3_def)
          show "live (w_heap w3) = (live (w_heap w))(mem \<mapsto> sizeof_allocated_memory)" "live (w_heap w) mem = None"
            by (fact l3)+
          show "0 < pages" "0x80000000 \<le> virt" "virt + pages * 4096 \<le> 0xFE000000" using n b by simp_all
          show "if 0 AND UALLOC_NORELEASE = 0
            then G \<union> ?R = G \<union> ?R \<and> ?R \<inter> G = {} \<and> 0 < loc \<and> loc mod 4096 = 0 else G \<union> ?R = G"
            using RF \<open>0 < loc\<close> \<open>loc mod 4096 = 0\<close> by auto
        qed blast
        have "user_alloc proc pages w = Inr (SMK_OK, Some loc, w')"
          using n0 a1 k gp d(2) some(1) b(3) w'(1) by (simp add: user_alloc_def on_map_def w3_def)
        moreover have "mapped_at (w_mem w) (w_mem w') dir virt loc pages"
          using some(3) w'(6) by (simp add: w3_def w2_def w1_def)
        moreover have "outside_heap w' = outside_heap w \<union> ?R \<union> pd_bytes (w_mem w') dir"
          using only_tables_outside [OF ok2 some(2,4)] o2 o1(1) w'(6)
          by (simp add: outside_heap_same [OF w'(5)]) (simp add: outside_heap_def w3_def)
        ultimately show ?thesis using w' l3 \<open>?R \<inter> phys_owned (l_sys (w_heap w)) = {}\<close>
          by (intro exI [of _ w']) auto
      qed
    qed
  qed
qed

text \<open>The example: a process with a directory at 8192 and one block, whose descriptor lies in the heap.\<close>

definition demo_user_process :: process where
  "demo_user_process = \<lparr>pr_name = [], pr_pid = 1, pr_state = 0, pr_map = Some 8192, pr_virtual_memory = None,
     pr_lock = 0, pr_threads = None,
     pr_threads_htable = \<lparr>ht_self = 0, ht_total = 0, ht_size = 0, ht_percent = 0, ht_array = 0, ht_table = []\<rparr>,
     pr_thread_count = 0, pr_last_tid = 0, pr_kernel_threads = 0, pr_flags = 0, pr_event_hooks = 0,
     pr_event_pid = 0, pr_event_tid = 0, pr_rc = 0, pr_env = \<lparr>environment = None, env_entries = []\<rparr>,
     pr_alloc = Some 4408, pr_ipc = []\<rparr>"

definition demo_user_major :: major where
  "demo_user_major = \<lparr>ma_addr = 4096, ma_pages = 1, ma_size = 4096, ma_usage = 346,
     ma_minors = [\<lparr>mi_addr = 4120, mi_size = 106, mi_req = 100\<rparr>, \<lparr>mi_addr = 4250, mi_size = 106, mi_req = 100\<rparr>,
                  \<lparr>mi_addr = 4380, mi_size = 38, mi_req = 32\<rparr>]\<rparr>"

definition demo_user_phys :: physmem where
  "demo_user_phys = demo_mem\<lparr>memory_bitmap := [15], s_freePages := 4\<rparr>"

definition demo_user_heap :: "physmem liballoc" where
  "demo_user_heap = (liballoc_initial (\<lambda>_. LIBALLOC_MAGIC) (\<lambda>p. if p = 4276 then 2 else 4) (\<lambda>_. 7) demo_user_phys)
     \<lparr>l_majors := [demo_user_major], l_inuse := 250, l_allocated := 4096\<rparr>"

definition demo_user :: world where
  "demo_user = \<lparr>w_k = \<lparr>ks_sys = \<lparr>k_threads = Map.empty, k_sched = [], k_time = [], k_bogomips = [], k_cpu_count = 0,
       k_CPUID = 0, k_if = True, k_ipis = [], k_tsc = 0\<rparr>, ks_procs = [1000 \<mapsto> demo_user_process],
       ks_heap = demo_user_heap\<rparr>,
     w_mem = (\<lambda>_. 0), w_cr3 = 0, w_invlpg = [], w_rw = Map.empty, w_list = Map.empty, w_family = Map.empty,
     w_arenas = Map.empty,
     w_alloc = [4408 \<mapsto> \<lparr>am_pages = 1, am_flags = 0, am_phys = 12288, am_virt = 0x80000000, am_shared = 0,
       am_parent = Some 1000, am_next = None, am_prev = None\<rparr>],
     l_processTable = None, l_rootProcess = None, l_processLock = 0, l_PID = 1\<rparr>"

lemma demo_user_sel [simp]:
  "get_process 1000 demo_user = Inr demo_user_process" "w_heap demo_user = demo_user_heap" "w_mem demo_user = (\<lambda>_. 0)"
  "pr_map demo_user_process = Some 8192" "pr_alloc demo_user_process = Some 4408" "l_sys demo_user_heap = demo_user_phys"
  "releasable (mem_at demo_user 4408)" "frames (mem_at demo_user 4408) = bytes 12288 4096"
  "am_virt (mem_at demo_user 4408) = 0x80000000" "am_pages (mem_at demo_user 4408) = 1"
  "am_phys (mem_at demo_user 4408) = 12288"
  by (simp_all add: demo_user_def world_defs demo_user_process_def demo_user_heap_def liballoc_initial_def
      releasable_def frames_def mem_at_def)

lemma zero_directory: "tables (\<lambda>_. 0) dir = {}" "pd_bytes (\<lambda>_. 0) dir = bytes dir 4096"
  "dir mod 4096 = 0 \<Longrightarrow> pd_shape (\<lambda>_. 0) dir" "vmap (\<lambda>_. 0) dir v = None"
proof -
  have s: "ld32 (\<lambda>_. 0) a = 0" for a by (simp add: ld32_def)
  then show t: "tables (\<lambda>_. 0) dir = {}" by (simp add: tables_def slot_def)
  then show "pd_bytes (\<lambda>_. 0) dir = bytes dir 4096" by (simp add: pd_bytes_def)
  show "dir mod 4096 = 0 \<Longrightarrow> pd_shape (\<lambda>_. 0) dir" using t s by (simp add: pd_shape_def slot_def)
  show "vmap (\<lambda>_. 0) dir v = None" using s by (simp add: vmap_def page_entry_present_def pd_entry_slot slot_def)
qed

lemma demo_user_owned: "x < 16384 \<Longrightarrow> x \<in> phys_owned demo_user_phys"
proof -
  assume x: "x < 16384"
  then have "x div 4096 < 4" by simp
  then consider "x div 4096 = 0" | "x div 4096 = 1" | "x div 4096 = 2" | "x div 4096 = 3" by linarith
  then have "used demo_user_phys (x div 4096)"
    by cases (simp_all add: used_def demo_user_phys_def demo_mem_def BLOCK_BITS_def)
  with x show ?thesis by (simp add: phys_owned_iff demo_user_phys_def demo_mem_def PAGE_SIZE_def)
qed

lemma demo_user_ok: "memory_ok demo_user 1000 demo_user_process 8192 [4408] (bytes 12288 4096)"
proof -
  have p: "phys_ready demo_user_phys"
    by (simp add: phys_ready_def physmem_ok_def null_reserved_def card_free_set demo_user_phys_def demo_mem_def used_def
          BLOCK_BITS_def PAGE_SIZE_def upt_rec)
  have o: "maj_bytes demo_user_major \<subseteq> phys_owned demo_user_phys - (bytes 8192 4096 \<union> bytes 12288 4096)"
    "bytes 8192 4096 \<union> bytes 12288 4096 \<subseteq> phys_owned demo_user_phys"
    by (auto simp: maj_bytes_def demo_user_major_def bytes_def intro: demo_user_owned)
  have "major_ok demo_user_major" by (simp add: major_ok_def demo_user_major_def la_consts)
  then have h: "framed_heap_ok (bytes 8192 4096 \<union> bytes 12288 4096) demo_user_heap"
    using p o by (simp add: la_ok_def la_wf_def demo_user_heap_def liballoc_initial_def headers_ok_def framed_ready_def framed_owned_def)
       (simp add: demo_user_major_def sizeof_minor_def user_ptr_def ALIGN_def la_consts)
  have "live demo_user_heap 4408 = Some 32"
    by (simp add: live_def demo_user_heap_def demo_user_major_def user_ptr_def ALIGN_def la_consts)
  moreover have "bytes 8192 4096 \<inter> bytes 12288 4096 = {}" by (auto simp: bytes_def)
  ultimately show ?thesis using h
    by (simp add: memory_ok_def zero_directory frames_apart_def block_ok_def sizeof_allocated_memory_def)
       (simp add: demo_user_def)
qed

section \<open>Properties\<close>

text \<open>
  C24: \<^verbatim>\<open>user_alloc\<close> for a process whose memory is consistent, with enough pages left for the page tables
  once frames and descriptor are allocated: it returns. It refuses only without a run of free frames,
  without room for the descriptor or without a free run of addresses; then it gives back what it has
  taken: page tables, descriptors and heap blocks are as they were, and the page allocator has handed
  out the same bytes to others than the heap as before. Otherwise the frames are ones that nobody
  used, the first free run of the process's window is mapped to them and to nothing else, a new
  descriptor records both addresses, all invariants hold with the new block, and beside the heap only
  the frames and the directory's page tables have been handed out.
\<close>

theorem user_alloc_correct:
  assumes mk: "memory_ok w proc pr dir ds G" and n: "0 < pages" "pages \<le> 16384"
    and fr: "\<forall>a w1 mem w2. w_memory_alloc pages w = Inr (Some a, w1) \<longrightarrow>
      w_kmalloc sizeof_allocated_memory w1 = Inr (Some mem, w2) \<longrightarrow> int pages < s_freePages (l_sys (w_heap w2))"
  shows "\<exists>w'. user_alloc proc pages w = Inr (SMK_NOMEM, None, w') \<and> memory_ok w' proc pr dir ds G
        \<and> live (w_heap w') = live (w_heap w) \<and> w_mem w' = w_mem w \<and> w_alloc w' = w_alloc w
        \<and> outside_heap w' = outside_heap w \<and> refused pages dir w
      \<or> (\<exists>loc virt mem. user_alloc proc pages w = Inr (SMK_OK, Some loc, w')
        \<and> bytes loc (pages * 4096) \<inter> phys_owned (l_sys (w_heap w)) = {}
        \<and> memory_ok w' proc (pr\<lparr>pr_alloc := Some mem\<rparr>) dir (mem # ds) (G \<union> bytes loc (pages * 4096))
        \<and> mapped_at (w_mem w) (w_mem w') dir virt loc pages
        \<and> block_of (mem_at w' mem) = (pages, 0, loc, virt, 0)
        \<and> (\<forall>d \<in> set ds. block_of (mem_at w' d) = block_of (mem_at w d))
        \<and> live (w_heap w') = (live (w_heap w))(mem \<mapsto> sizeof_allocated_memory)
        \<and> outside_heap w' = outside_heap w \<union> bytes loc (pages * 4096) \<union> pd_bytes (w_mem w') dir)"
  using user_alloc_ok [OF assms] .

lemma demo_user_frames [simp]: "s_freePages demo_user_phys = 4"
  by (simp add: demo_user_phys_def demo_mem_def)

lemma demo_user_alloc:
  "w_memory_alloc 1 demo_user = Inr (Some 16384, put_heap (demo_user_heap\<lparr>l_sys :=
     demo_user_phys\<lparr>memory_bitmap := [31], s_freePages := 3, s_lastPage := 5\<rparr>\<rparr>) demo_user)"
  by (simp add: w_memory_alloc_def memory_alloc_def demo_user_phys_def demo_mem_def ISSET_def SET_def
      BLOCK_BITS_def PAGE_SIZE_def u32_def memory_multiple_alloc_def)

lemma demo_user_kmalloc:
  "\<exists>mem h. w_kmalloc sizeof_allocated_memory (put_heap (demo_user_heap\<lparr>l_sys :=
     demo_user_phys\<lparr>memory_bitmap := [31], s_freePages := 3, s_lastPage := 5\<rparr>\<rparr>) demo_user) = Inr (Some mem, put_heap h demo_user)
     \<and> l_sys h = demo_user_phys\<lparr>memory_bitmap := [31], s_freePages := 3, s_lastPage := 5\<rparr>"
  by (simp add: w_kmalloc_def kmalloc_def liballoc_subsystem_def la_malloc_def la_malloc_sized_def best_start_def
      la_round_def cases2_5_def try_block_def place_minor_def demo_user_heap_def demo_user_major_def
      liballoc_initial_def la_consts ALIGN_def la_loop_numeral sizeof_allocated_memory_def)
     (rule exI, rule conjI, rule refl, simp)

lemma demo_user_alloc_fr:
  "\<forall>a w1 mem w2. w_memory_alloc 1 demo_user = Inr (Some a, w1) \<longrightarrow>
     w_kmalloc sizeof_allocated_memory w1 = Inr (Some mem, w2) \<longrightarrow> int 1 < s_freePages (l_sys (w_heap w2))"
  using demo_user_alloc demo_user_kmalloc by fastforce

lemma demo_user_first_free: "first_free (\<lambda>_. 0) 8192 sK_BASE sK_CEILING 1 = sK_BASE"
proof -
  have "[0..<(sK_CEILING - sK_BASE + 4095) div 4096] = 0 # [1..<(sK_CEILING - sK_BASE + 4095) div 4096]"
    by (subst upt_rec) (simp add: sK_CEILING_def sK_BASE_def)
  then show ?thesis by (simp add: first_free_def free_at_def zero_directory) (simp add: sK_BASE_def)
qed

lemma demo_user_alloc_succeeds: "\<exists>w'. user_alloc 1000 1 demo_user = Inr (SMK_OK, Some 16384, w')"
proof -
  from demo_user_kmalloc obtain mem h where
    k: "w_kmalloc sizeof_allocated_memory (put_heap (demo_user_heap\<lparr>l_sys :=
      demo_user_phys\<lparr>memory_bitmap := [31], s_freePages := 3, s_lastPage := 5\<rparr>\<rparr>) demo_user) = Inr (Some mem, put_heap h demo_user)" by blast
  have n: "0 < (1 :: nat)" "(1 :: nat) \<le> 16384" by simp_all
  have "sK_CEILING + 1 * 4096 \<le> 4294967296" by (simp add: sK_CEILING_def)
  from page_find_free_ok [OF this, of "\<lambda>_. 0" 8192 sK_BASE]
  have f: "page_find_free (\<lambda>_. 0) 8192 sK_BASE sK_CEILING 1 = Inr sK_BASE" unfolding demo_user_first_free .
  have b: "sK_BASE \<noteq> 0" by (simp add: sK_BASE_def)
  have "user_alloc 1000 1 demo_user \<noteq> Inr (SMK_NOMEM, None, w')" for w'
    using k f b by (auto simp: user_alloc_def demo_user_alloc [unfolded One_nat_def] on_map_def page_provide_def page_direct_map_def bindR_Inr_iff
        SMK_OK_def SMK_NOMEM_def
        split: if_splits)
  with user_alloc_ok [OF demo_user_ok n demo_user_alloc_fr] obtain loc w' where
    w': "user_alloc 1000 1 demo_user = Inr (SMK_OK, Some loc, w')" by auto
  moreover have "loc = 16384"
    using w' k by (auto simp: user_alloc_def demo_user_alloc [unfolded One_nat_def] bindR_Inr_iff split: if_splits)
  ultimately show ?thesis by auto
qed

theorem user_alloc_correct_witness:
  "\<exists>virt mem w'. user_alloc 1000 1 demo_user = Inr (SMK_OK, Some 16384, w')
     \<and> mapped_at (\<lambda>_. 0) (w_mem w') 8192 virt 16384 1 \<and> block_of (mem_at w' mem) = (1, 0, 16384, virt, 0)"
proof -
  have n: "0 < (1 :: nat)" "(1 :: nat) \<le> 16384" by simp_all
  from user_alloc_correct [OF demo_user_ok n demo_user_alloc_fr] demo_user_alloc_succeeds show ?thesis by fastforce
qed

text \<open>
  C25: \<^verbatim>\<open>user_free\<close> of the address at which a block is mapped: the first descriptor with that address leaves
  the list, the pages of the block are unmapped and no others, and all invariants hold without the
  block. If the process owns the frames, exactly these were handed out and are no longer, and the
  descriptor goes back to the heap; for any other block the allocator is left alone, and the descriptor
  stays allocated for ever, although nothing refers to it any more.
\<close>

theorem user_free_correct:
  assumes "memory_ok w proc pr dir (as @ d # bs) G"
    and "am_virt (mem_at w d) = ptr" and "\<forall>e \<in> set as. am_virt (mem_at w e) \<noteq> ptr"
  shows "\<exists>w'. user_free proc ptr w = Inr (SMK_OK, w')
    \<and> memory_ok w' proc (pr\<lparr>pr_alloc := first_or (as @ bs) None\<rparr>) dir (as @ bs)
         (if releasable (mem_at w d) then G - frames (mem_at w d) else G)
    \<and> live (w_heap w') = (if releasable (mem_at w d) then (live (w_heap w))(d := None) else live (w_heap w))
    \<and> (\<forall>v. user_addr v \<longrightarrow> vmap (w_mem w') dir v
         = (if in_run ptr (am_pages (mem_at w d)) v then None else vmap (w_mem w) dir v))
    \<and> (\<forall>e \<in> set (as @ bs). block_of (mem_at w' e) = block_of (mem_at w e))
    \<and> (if releasable (mem_at w d)
        then frames (mem_at w d) \<subseteq> outside_heap w \<and> outside_heap w' = outside_heap w - frames (mem_at w d)
        else outside_heap w' = outside_heap w)"
  by (rule user_free_ok [OF assms])

theorem user_free_correct_witness:
  "\<exists>w'. user_free 1000 0x80000000 demo_user = Inr (SMK_OK, w') \<and> live (w_heap w') 4408 = None
     \<and> outside_heap w' = outside_heap demo_user - bytes 12288 4096"
proof -
  have "memory_ok demo_user 1000 demo_user_process 8192 ([] @ 4408 # []) (bytes 12288 4096)" using demo_user_ok by simp
  from user_free_correct [OF this] show ?thesis by auto
qed

text \<open>
  C26: What \<^verbatim>\<open>user_alloc\<close> hands out cannot be given back: it stores the physical address of the frames, while
  \<^verbatim>\<open>user_free\<close>, \<^verbatim>\<open>user_size\<close> and \<^verbatim>\<open>user_location\<close> look for the virtual one. Unless the frames lie as high as
  the window of process memory, all three report \<^verbatim>\<open>SMK_NOT_FOUND\<close> for it and change nothing.
\<close>

theorem user_alloc_result_unknown:
  assumes mk: "memory_ok w proc pr dir ds G" and n: "0 < pages" "pages \<le> 16384"
    and fr: "\<forall>a w1 mem w2. w_memory_alloc pages w = Inr (Some a, w1) \<longrightarrow>
      w_kmalloc sizeof_allocated_memory w1 = Inr (Some mem, w2) \<longrightarrow> int pages < s_freePages (l_sys (w_heap w2))"
    and al: "user_alloc proc pages w = Inr (SMK_OK, Some loc, w')" and low: "loc < 0x80000000"
  shows "user_free proc loc w' = Inr (SMK_NOT_FOUND, w') \<and> user_size proc loc w' = Inr (SMK_NOT_FOUND, None)
    \<and> user_location proc loc w' = Inr (SMK_NOT_FOUND, None)"
proof -
  from user_alloc_ok [OF mk n fr] al obtain mem where
    m: "memory_ok w' proc (pr\<lparr>pr_alloc := Some mem\<rparr>) dir (mem # ds) (G \<union> bytes loc (pages * 4096))" by auto
  have "\<forall>d \<in> set (mem # ds). am_virt (mem_at w' d) \<noteq> loc"
    using memory_okD(9) [OF m] low by (auto simp: block_ok_def)
  then have "find (\<lambda>d. am_virt (mem_at w' d) = loc) (mem # ds) = None" by (simp add: find_None_iff)
  with memory_find [OF m, of loc] memory_okD(1) [OF m] show ?thesis
    by (simp add: user_free_def user_size_def user_location_def)
qed

theorem user_alloc_result_unknown_witness:
  "\<exists>w'. user_alloc 1000 1 demo_user = Inr (SMK_OK, Some 16384, w') \<and> user_free 1000 16384 w' = Inr (SMK_NOT_FOUND, w')"
proof -
  from demo_user_alloc_succeeds obtain w' where w': "user_alloc 1000 1 demo_user = Inr (SMK_OK, Some 16384, w')" by blast
  have n: "0 < (1 :: nat)" "(1 :: nat) \<le> 16384" "(16384 :: nat) < 0x80000000" by simp_all
  from user_alloc_result_unknown [OF demo_user_ok n(1,2) demo_user_alloc_fr w' n(3)] w' show ?thesis by blast
qed

text \<open>
  C27: \<^verbatim>\<open>user_release_all\<close> ends: every block is unmapped, the frames that the process owns go back to the
  allocator, these and no others, their descriptors go back to the heap, nothing else changes, and the assertion after the loop holds.
\<close>

theorem user_release_all_correct:
  assumes "memory_ok w proc pr dir ds G"
  shows "\<exists>w'. user_release_all proc w = Inr (0, w')
    \<and> memory_ok w' proc (pr\<lparr>pr_alloc := None\<rparr>) dir [] (G - held_frames w ds)
    \<and> (\<forall>a. live (w_heap w') a = (if a \<in> set ds \<and> releasable (mem_at w a) then None else live (w_heap w) a))
    \<and> (\<forall>v. user_addr v \<longrightarrow> vmap (w_mem w') dir v
         = (if \<exists>d \<in> set ds. in_run (am_virt (mem_at w d)) (am_pages (mem_at w d)) v then None else vmap (w_mem w) dir v))
    \<and> held_frames w ds \<subseteq> outside_heap w \<and> outside_heap w' = outside_heap w - held_frames w ds"
proof -
  have "length ds \<le> block_count w" using memory_okD(8,9) [OF assms] by (intro block_count_ge) auto
  then have "length ds < Suc (block_count w)" by simp
  from release_all_ok [OF assms this] obtain w' where w': "release_all_loop (Suc (block_count w)) proc w = Inr w'"
    "memory_ok w' proc (pr\<lparr>pr_alloc := None\<rparr>) dir [] (G - held_frames w ds)"
    "\<forall>a. live (w_heap w') a = (if a \<in> set ds \<and> releasable (mem_at w a) then None else live (w_heap w) a)"
    "\<forall>v. user_addr v \<longrightarrow> vmap (w_mem w') dir v
       = (if \<exists>d \<in> set ds. in_run (am_virt (mem_at w d)) (am_pages (mem_at w d)) v then None else vmap (w_mem w) dir v)"
    "held_frames w ds \<subseteq> outside_heap w" "outside_heap w' = outside_heap w - held_frames w ds"
    by blast
  moreover have "user_release_all proc w = Inr (0, w')"
    using w'(1) memory_okD(1) [OF w'(2)] by (simp add: user_release_all_def)
  ultimately show ?thesis by blast
qed

theorem user_release_all_correct_witness:
  "\<exists>w'. user_release_all 1000 demo_user = Inr (0, w') \<and> live (w_heap w') 4408 = None
     \<and> outside_heap w' = outside_heap demo_user - bytes 12288 4096"
  using user_release_all_correct [OF demo_user_ok] by (auto simp: held_frames_def)

text \<open>
  Remark: \<^verbatim>\<open>user_map\<close> of a page-aligned range of physical memory, with pages for the page tables: without a free
  run in the process's window it reports success and stores the null pointer; when the heap is
  exhausted it writes through the null pointer; otherwise exactly one run is mapped to the range, a
  descriptor that does not own its frames records it, and all invariants hold.
\<close>

theorem user_map_correct:
  assumes mk: "memory_ok w proc pr dir ds G" and n: "0 < pages" "pages \<le> 16384"
    and ptr: "ptr mod 4096 = 0" "ptr + pages * 4096 \<le> 4294967296" and fr: "int pages < s_freePages (l_sys (w_heap w))"
  shows "user_map proc ptr pages w = Inr (SMK_OK, Some 0, w) \<or> user_map proc ptr pages w = Inl Null_deref
    \<or> (\<exists>virt mem w'. user_map proc ptr pages w = Inr (SMK_OK, Some virt, w')
        \<and> memory_ok w' proc (pr\<lparr>pr_alloc := Some mem\<rparr>) dir (mem # ds) G
        \<and> mapped_at (w_mem w) (w_mem w') dir virt ptr pages
        \<and> block_of (mem_at w' mem) = (pages, UALLOC_NORELEASE, ptr, virt, 0)
        \<and> (\<forall>d \<in> set ds. block_of (mem_at w' d) = block_of (mem_at w d)))"
proof -
  note d = memory_okD [OF mk]
  have sz: "sizeof_allocated_memory < MAX_REQUEST" by (simp add: sizeof_allocated_memory_def MAX_REQUEST_def)
  have c: "pages \<noteq> 0" "ptr mod PAGE_SIZE = 0" using n ptr by (simp_all add: PAGE_SIZE_def)
  have fr': "int pages < s_freePages (mm_phys (mmu_of w))" using fr by simp
  show ?thesis
  proof (rule provide_ok [OF memory_pd [OF mk] n ptr(2) fr'], goal_cases none some)
    case none
    then show ?thesis using c d(1,2) by (simp add: user_map_def on_map_def)
  next
    case (some virt s')
    define w1 where "w1 = put_mmu s' w"
    note f = framed_pd_step [OF d(4) some(2) d(5)]
    have b: "0x80000000 \<le> virt" "virt + pages * 4096 \<le> 0xFE000000" "virt \<noteq> 0"
      using some(3) n(2) by (simp_all add: mapped_at_def sK_BASE_def sK_CEILING_def)
    have m: "on_map (\<lambda>dir. page_provide dir ptr sK_BASE sK_CEILING pages (USER_PAGE OR READ_WRITE)) pr w = Inr (virt, w1)"
      using d(2) some(1) by (simp add: on_map_def w1_def)
    have f1: "framed_heap_ok (pd_bytes (w_mem w1) dir \<union> G) (w_heap w1)" using f(1) by (simp add: w1_def)
    show ?thesis
    proof (rule fheap.malloc_cases [OF f1 sz], goal_cases none some)
      case (none h)
      then show ?thesis using c d(1) m b(3) by (simp add: user_map_def w_kmalloc_def)
    next
      case mem: (some mem h)
      define w2 where "w2 = put_heap h w1"
      have l: "live (w_heap w) = live (w_heap w1)" by (simp add: w1_def)
      obtain w' where w': "link_mem proc mem pages UALLOC_NORELEASE ptr virt w2 = Inr w'"
        "memory_ok w' proc (pr\<lparr>pr_alloc := Some mem\<rparr>) dir (mem # ds) G"
        "block_of (mem_at w' mem) = (pages, UALLOC_NORELEASE, ptr, virt, 0)"
        "\<forall>d \<in> set ds. block_of (mem_at w' d) = block_of (mem_at w d)" "w_heap w' = w_heap w2" "w_mem w' = w_mem w2"
      proof (rule memory_link [OF mk refl, of w2 G mem pages virt UALLOC_NORELEASE ptr])
        show "get_process proc w2 = Inr pr" "w_alloc w2 = w_alloc w" using d(1) by (simp_all add: w2_def w1_def)
        show "pd_shape (w_mem w2) dir" "pd_bytes (w_mem w2) dir \<inter> G = {}" using f(2,3) by (simp_all add: w2_def w1_def)
        show "framed_heap_ok (pd_bytes (w_mem w2) dir \<union> G) (w_heap w2)" using mem(2) by (simp add: w2_def)
        show "live (w_heap w2) = (live (w_heap w))(mem \<mapsto> sizeof_allocated_memory)" "live (w_heap w) mem = None"
          using mem l by (simp_all add: w2_def)
        show "0 < pages" "0x80000000 \<le> virt" "virt + pages * 4096 \<le> 0xFE000000" using n b by simp_all
        show "if UALLOC_NORELEASE AND UALLOC_NORELEASE = 0
          then G = G \<union> bytes ptr (pages * 4096) \<and> bytes ptr (pages * 4096) \<inter> G = {} \<and> 0 < ptr \<and> ptr mod 4096 = 0 else G = G"
          by (simp add: UALLOC_NORELEASE_def)
      qed blast
      have "user_map proc ptr pages w = Inr (SMK_OK, Some virt, w')"
        using c d(1) m b(3) mem(1) w'(1) by (simp add: user_map_def w_kmalloc_def w2_def)
      moreover have "mapped_at (w_mem w) (w_mem w') dir virt ptr pages" using some(3) w'(6) by (simp add: w2_def w1_def)
      ultimately show ?thesis using w' by blast
    qed
  qed
qed

theorem user_map_correct_witness:
  "user_map 1000 0xB8000 1 demo_user = Inr (SMK_OK, Some 0, demo_user) \<or> user_map 1000 0xB8000 1 demo_user = Inl Null_deref
    \<or> (\<exists>virt w'. user_map 1000 0xB8000 1 demo_user = Inr (SMK_OK, Some virt, w')
         \<and> mapped_at (\<lambda>_. 0) (w_mem w') 8192 virt 0xB8000 1)"
proof -
  have "0 < (1 :: nat)" "(1 :: nat) \<le> 16384" "0xB8000 mod 4096 = (0 :: nat)" "0xB8000 + 1 * 4096 \<le> (4294967296 :: nat)"
    "int 1 < s_freePages (l_sys (w_heap demo_user))" by simp_all
  from user_map_correct [OF demo_user_ok this] show ?thesis by fastforce
qed

end
