(* ===== verification/Threads.thy ===== *)
theory Threads
  imports Ptable Ualloc Ipc
begin

text \<open>
  The threads of a process (\<^verbatim>\<open>kernel/processes/threads.c\<close>): numbers for new threads, the start frame
  on the kernel stack, creation, deletion and \<^verbatim>\<open>go_dormant\<close>.

  A thread's kernel stack lies in the low half, which every directory maps to itself: its frame is
  written to memory directly. Freed threads leave the store of threads, so using one is an error. The
  loop over the children of a deleted thread has fuel, one round for every thread in the process's
  table. \<open>Threads_Props\<close> holds the properties.
\<close>

section \<open>Constants\<close>

definition sK_PAGES_THREAD :: nat where "sK_PAGES_THREAD = 10"

definition sK_PAGES_KERNEL :: nat where "sK_PAGES_KERNEL = 2"

definition GDT_SYSTEMCODE :: nat where "GDT_SYSTEMCODE = 8"

definition GDT_SYSTEMDATA :: nat where "GDT_SYSTEMDATA = 16"

definition GDT_USERCODE :: nat where "GDT_USERCODE = 24"

definition GDT_USERDATA :: nat where "GDT_USERDATA = 32"

definition EFLAG_BASE :: nat where "EFLAG_BASE = 0x2"

definition EFLAG_INTERRUPT :: nat where "EFLAG_INTERRUPT = 0x200"

definition sizeof_thread :: nat where "sizeof_thread = 4272"

section \<open>Numbers\<close>

text \<open>
  The loop of \<^verbatim>\<open>next_tid\<close>; \<open>temp\<close> is the number in the sample, -1 before the first round. The result is
  \<^verbatim>\<open>proc->last_tid\<close> at the end.
\<close>

fun next_tid_loop :: "nat \<Rightarrow> int \<Rightarrow> int \<Rightarrow> process \<Rightarrow> (nat \<Rightarrow> thread option) \<Rightarrow> int kres" where
  "next_tid_loop 0 temp last_tid proc ts = Inl Hang"
| "next_tid_loop (Suc n) temp last_tid proc ts =
     (let tid = (if temp \<noteq> -1
                 then (let q = s32 (last_tid + 1) in if q < 0 then 1 else q) else last_tid) in
      bindR (get_thread proc tid ts) (\<lambda>r.
      if r \<noteq> None then next_tid_loop n tid tid proc ts else Inr tid))"

definition next_tid :: "nat \<Rightarrow> world \<Rightarrow> (int \<times> world) kres" where
  "next_tid proc w =
     bindR (get_process proc w) (\<lambda>pr.
     bindR (next_tid_loop (nat (ht_total (pr_threads_htable pr)) + 2) (-1) (pr_last_tid pr) pr
              (k_threads (ks_sys (w_k w)))) (\<lambda>tid.
     Inr (tid, put_process proc (pr\<lparr>pr_last_tid := s32 (tid + 1)\<rparr>) w)))"

section \<open>The start frame\<close>

definition pushl :: "nat \<Rightarrow> nat \<Rightarrow> world \<Rightarrow> world kres" where
  "pushl tr v w =
     bindR (get_thread_at tr w) (\<lambda>th.
     let stack = sub32 (t_stack th) 4 in
     Inr ((put_thread_at tr (th\<lparr>t_stack := stack\<rparr>) w)\<lparr>w_mem := st32 (w_mem w) stack (of_nat v)\<rparr>))"

fun pushl_all :: "nat \<Rightarrow> nat list \<Rightarrow> world \<Rightarrow> world kres" where
  "pushl_all tr [] w = Inr w"
| "pushl_all tr (v # vs) w = bindR (pushl tr v w) (pushl_all tr vs)"

text \<open>
  The values that \<^verbatim>\<open>new_thread\<close> pushes, in this order: data segment, stack, flags and code segment for
  the return from an interrupt, the entry point, the segment registers, and the general registers.
\<close>

definition start_frame :: "int \<Rightarrow> nat \<Rightarrow> nat \<Rightarrow> nat \<Rightarrow> nat \<Rightarrow> nat \<Rightarrow> nat \<Rightarrow> nat list" where
  "start_frame type stack_user entry data1 data2 data3 data4 =
     (if type = 1
      then [GDT_SYSTEMDATA, stack_user, EFLAG_BASE OR EFLAG_INTERRUPT, GDT_SYSTEMCODE]
      else [GDT_USERDATA OR 3, stack_user, EFLAG_BASE OR EFLAG_INTERRUPT, GDT_USERCODE OR 3])
     @ [entry]
     @ [GDT_USERDATA OR 3, GDT_USERDATA OR 3, GDT_USERDATA OR 3, GDT_USERDATA OR 3]
     @ [data1, data3, data4, data2]
     @ [0, 0, 0, 0]"

section \<open>Creation\<close>

definition thread_key_at :: "world \<Rightarrow> nat \<Rightarrow> int" where
  "thread_key_at w p = (case k_threads (ks_sys (w_k w)) p of None \<Rightarrow> 0 | Some th \<Rightarrow> threads_key th)"

text \<open>\<^verbatim>\<open>htable_insert( proc->threads_htable, tr )\<close> and \<^verbatim>\<open>htable_remove\<close>.\<close>

definition threads_insert :: "nat \<Rightarrow> nat \<Rightarrow> world \<Rightarrow> (int \<times> world) kres" where
  "threads_insert proc tr w =
     bindR (get_process proc w) (\<lambda>pr.
     bindR (htable_insert liballoc_subsystem (thread_key_at w) (pr_threads_htable pr) tr (w_heap w)) (\<lambda>((rc, t), h).
     Inr (rc, put_process proc (pr\<lparr>pr_threads_htable := t\<rparr>) (put_heap h w))))"

definition threads_remove :: "nat \<Rightarrow> nat \<Rightarrow> world \<Rightarrow> (int \<times> world) kres" where
  "threads_remove proc tr w =
     bindR (get_process proc w) (\<lambda>pr.
     bindR (htable_remove liballoc_subsystem (thread_key_at w) (pr_threads_htable pr) tr (w_heap w)) (\<lambda>((rc, t), h).
     Inr (rc, put_process proc (pr\<lparr>pr_threads_htable := t\<rparr>) (put_heap h w))))"

text \<open>A page address as the code keeps it in an integer.\<close>

definition address :: "nat option \<Rightarrow> nat" where
  "address p = (case p of None \<Rightarrow> 0 | Some a \<Rightarrow> a)"

text \<open>The new thread joins the tree and the list of its process.\<close>

definition link_thread :: "nat \<Rightarrow> nat option \<Rightarrow> nat \<Rightarrow> world \<Rightarrow> world kres" where
  "link_thread proc parent tr w =
     bindR (get_process proc w) (\<lambda>pr.
     case pr_threads pr of
       None \<Rightarrow> Inr (put_process proc (pr\<lparr>pr_threads := Some tr\<rparr>) w)
     | Some first \<Rightarrow>
         bindR (case parent of
                  None \<Rightarrow> on_family (family_add_sibling first tr) w
                | Some par \<Rightarrow> on_family (family_add_child par tr) w) (\<lambda>w1.
         on_list (list_insertAfter first tr) w1))"

text \<open>
  The results of \<^verbatim>\<open>page_find_free\<close>, \<^verbatim>\<open>user_ensure\<close> and the three \<^verbatim>\<open>memory_alloc\<close> are not tested. The structure is
  filled before the kernel stack is written; the fields that the code sets in between are not read there.
\<close>

definition new_thread ::
  "int \<Rightarrow> nat \<Rightarrow> nat option \<Rightarrow> cchar list \<Rightarrow> nat \<Rightarrow> int \<Rightarrow> nat \<Rightarrow> nat \<Rightarrow> nat \<Rightarrow> nat \<Rightarrow> world \<Rightarrow> (int \<times> world) kres" where
  "new_thread type proc parent name entry priority data1 data2 data3 data4 w =
     bindR (w_kmalloc sizeof_thread w) (\<lambda>(r, w1).
     case r of
       None \<Rightarrow> Inr (-1, w1)
     | Some tr \<Rightarrow>
         bindR (kstrncpy (replicate SMK_NAME_LENGTH 0) name SMK_NAME_LENGTH) (\<lambda>nm.
         bindR (next_tid proc w1) (\<lambda>(tid, w2).
         bindR (get_process proc w2) (\<lambda>pr.
         bindR (on_map (\<lambda>dir s. bindR (page_find_free (mm_mem s) dir sK_BASE sK_CEILING (sK_PAGES_THREAD + 1))
                          (\<lambda>a. Inr (a, s))) pr w2) (\<lambda>(found, w3).
         let stack_user = u32 (found + (sK_PAGES_THREAD + 1) * PAGE_SIZE) in
         bindR (user_ensure proc (sub32 stack_user (sK_PAGES_THREAD * PAGE_SIZE)) sK_PAGES_THREAD w3) (\<lambda>(_, w4).
         bindR (w_memory_alloc sK_PAGES_KERNEL w4) (\<lambda>(k, w5).
         let stack_kernel = u32 (address k + sK_PAGES_KERNEL * PAGE_SIZE) in
         bindR (w_memory_alloc 1 w5) (\<lambda>(tls, w6).
         bindR (w_memory_alloc 1 w6) (\<lambda>(math, w7).
         let w8 = put_thread_at tr \<lparr>t_name = nm, t_tid = tid, t_state = THREAD_SUSPENDED, t_process = proc,
                    t_irq = -1, t_duration = 0, t_event_tid = -1, t_rc = 0, t_tls = tls,
                    t_ports = replicate MAX_PORTS (-1), t_last_port_pulse = -1, t_last_port_message = -1,
                    t_cpu = -1, t_cpu_affinity = -1, t_fast_queued = 0, t_interrupts_disabled = 0,
                    t_stack_kernel = stack_kernel, t_stack_user = stack_user, t_stack = stack_kernel,
                    t_math_state = -1, t_math = math\<rparr> w7 in
         bindR (pushl_all tr (start_frame type stack_user entry data1 data2 data3 data4) w8) (\<lambda>w9.
         bindR (link_thread proc parent tr (LIST_INIT tr (FAMILY_INIT tr w9))) (\<lambda>w10.
         bindR (threads_insert proc tr w10) (\<lambda>(_, w11).
         bindR (get_process proc w11) (\<lambda>pr'.
         Inr (tid, put_process proc (pr'\<lparr>pr_thread_count := s32 (pr_thread_count pr' + 1)\<rparr>) w11))))))))))))))"

section \<open>Deletion\<close>

text \<open>The children of a thread without parent become its siblings, one after the other.\<close>

fun orphan_loop :: "nat \<Rightarrow> nat \<Rightarrow> world \<Rightarrow> world kres" where
  "orphan_loop n tr w =
     bindR (CHILD tr w) (\<lambda>child.
     case child of
       None \<Rightarrow> Inr w
     | Some c \<Rightarrow>
         (case n of
            0 \<Rightarrow> Inl Hang
          | Suc k \<Rightarrow>
              bindR (on_family (family_remove c) w) (\<lambda>w1.
              bindR (on_family (family_add_sibling tr c) w1) (\<lambda>w2.
              orphan_loop k tr w2))))"

text \<open>
  Taking the thread out of the tree, the list and the head of the list. \<^verbatim>\<open>delete_thread\<close> has removed it from
  the table before, whose total still bounds the number of its children: the fuel of the two loops.
\<close>

definition unlink_thread :: "nat \<Rightarrow> nat \<Rightarrow> world \<Rightarrow> world kres" where
  "unlink_thread proc tr w =
     bindR (PARENT tr w) (\<lambda>parent.
     bindR (get_process proc w) (\<lambda>pr0.
     let n = nat (ht_total (pr_threads_htable pr0)) in
     bindR (case parent of
              Some par \<Rightarrow> on_family (family_adopt n par tr) w
            | None \<Rightarrow> orphan_loop n tr w) (\<lambda>w1.
     bindR (NEXT_SIBLING tr w1) (\<lambda>next.
     bindR (on_family (family_remove tr) w1) (\<lambda>w2.
     bindR (on_list (list_remove tr) w2) (\<lambda>w3.
     bindR (get_process proc w3) (\<lambda>pr.
     if pr_threads pr = Some tr
     then
       bindR (PREV_SIBLING tr w3) (\<lambda>p.
       assertR (p = None) (
       Inr (put_process proc (pr\<lparr>pr_threads := next\<rparr>) w3)))
     else Inr w3)))))))"

text \<open>The memory of the thread goes back; the structure leaves the store.\<close>

definition free_thread_memory :: "nat \<Rightarrow> nat \<Rightarrow> world \<Rightarrow> world kres" where
  "free_thread_memory proc tr w =
     bindR (get_thread_at tr w) (\<lambda>th.
     bindR (get_process proc w) (\<lambda>pr.
     bindR (w_memory_free sK_PAGES_KERNEL (sub32 (t_stack_kernel th) (sK_PAGES_KERNEL * PAGE_SIZE)) w) (\<lambda>w1.
     bindR (on_map (\<lambda>dir. page_map_out dir (sub32 (t_stack_user th) (sK_PAGES_THREAD * PAGE_SIZE))
                            (int sK_PAGES_THREAD)) pr w1) (\<lambda>(_, w2).
     bindR (w_memory_free 1 (address (t_math th)) w2) (\<lambda>w3.
     bindR (w_memory_free 1 (address (t_tls th)) w3) (\<lambda>w4.
     bindR (w_kfree (Some tr) w4) (\<lambda>w5.
     Inr (w5\<lparr>w_k := (w_k w5)\<lparr>ks_sys := (ks_sys (w_k w5))
            \<lparr>k_threads := (k_threads (ks_sys (w_k w5)))(tr := None)\<rparr>\<rparr>\<rparr>))))))))"

text \<open>\<open>fuel\<close> bounds the objects that are drained from a port.\<close>

definition delete_thread :: "nat \<Rightarrow> nat \<Rightarrow> world \<Rightarrow> (int \<times> world) kres" where
  "delete_thread fuel tr w =
     bindR (get_thread_at tr w) (\<lambda>th.
     let proc = t_process th in
     assertR (proc \<noteq> 0) (
     bindR (get_process proc w) (\<lambda>pr.
     bindR (threads_remove proc tr (put_process proc (pr\<lparr>pr_thread_count := s32 (pr_thread_count pr - 1)\<rparr>) w))
       (\<lambda>(rc, w1).
     assertR (rc = 0) (
     bindR (release_thread_ports (Suc MAX_PORTS) fuel liballoc_subsystem tr (w_k w1) 0) (\<lambda>(rc2, k).
     assertR (rc2 \<ge> 0) (
     bindR (unlink_thread proc tr (w1\<lparr>w_k := k\<rparr>)) (\<lambda>w2.
     bindR (free_thread_memory proc tr w2) (\<lambda>w3.
     Inr (0, w3))))))))))"

section \<open>Going dormant\<close>

text \<open>
  \<open>yield\<close> stands for \<^verbatim>\<open>sched_yield\<close>, which returns when this thread runs again: what the rest of the system
  does in the meantime is a parameter. The interrupt flag is that of the CPU. The result is \<^verbatim>\<open>duration\<close>,
  an \<^verbatim>\<open>int\<close> taken from the 64-bit field.
\<close>

definition set_if :: "bool \<Rightarrow> world \<Rightarrow> world" where
  "set_if b w = w\<lparr>w_k := (w_k w)\<lparr>ks_sys := (ks_sys (w_k w))\<lparr>k_if := b\<rparr>\<rparr>\<rparr>"

definition on_sys :: "(ksys \<Rightarrow> ksys kres) \<Rightarrow> world \<Rightarrow> world kres" where
  "on_sys f w = bindR (f (ks_sys (w_k w))) (\<lambda>s. Inr (w\<lparr>w_k := (w_k w)\<lparr>ks_sys := s\<rparr>\<rparr>))"

definition modify_kernel_threads :: "(nat \<Rightarrow> nat) \<Rightarrow> nat \<Rightarrow> world \<Rightarrow> world kres" where
  "modify_kernel_threads f proc w =
     bindR (get_process proc w) (\<lambda>pr.
     Inr (put_process proc (pr\<lparr>pr_kernel_threads := f (pr_kernel_threads pr)\<rparr>) w))"

definition take_duration :: "nat \<Rightarrow> world \<Rightarrow> (int \<times> world) kres" where
  "take_duration tr w =
     bindR (get_thread_at tr w) (\<lambda>th.
     Inr (s32 (int (t_duration th)), set_if True (put_thread_at tr (th\<lparr>t_duration := 0\<rparr>) w)))"

definition go_dormant :: "(world \<Rightarrow> world kres) \<Rightarrow> int \<Rightarrow> nat \<Rightarrow> world \<Rightarrow> (int \<times> world) kres" where
  "go_dormant yield pid timeout w =
     bindR (checkout_process pid WRITER w) (\<lambda>(r, w1).
     case r of
       None \<Rightarrow> Inl Assert_failed
     | Some proc \<Rightarrow>
         bindR (this_thread (ks_sys (w_k w1))) (\<lambda>cur.
         case cur of
           None \<Rightarrow> Inl Null_deref
         | Some tr \<Rightarrow>
             bindR (get_thread_at tr w1) (\<lambda>th.
             assertR (t_state th = THREAD_RUNNING) (
             bindR (pulses_waiting tr (w_k w1)) (\<lambda>p.
             bindR (if p > 0 then Inr 1 else messages_waiting tr (w_k w1)) (\<lambda>m.
             if p > 0 \<or> m > 0
             then bindR (commit_process proc w1) (\<lambda>w2. Inr (0, w2))
             else if timeout \<noteq> 0
             then
               bindR (on_sys (\<lambda>s. bindR (pause tr timeout s) (\<lambda>(_, s1). Inr s1)) (set_if False w1)) (\<lambda>w2.
               bindR (commit_process proc w2) (\<lambda>w3.
               bindR (yield w3) (\<lambda>w4.
               take_duration tr w4)))
             else
               bindR (get_thread_at tr (set_if False w1)) (\<lambda>th1.
               bindR (on_sys (set_thread_state tr THREAD_DORMANT)
                        (put_thread_at tr (th1\<lparr>t_duration := 0\<rparr>) (set_if False w1))) (\<lambda>w2.
               bindR (commit_process proc w2) (\<lambda>w3.
               bindR (modify_kernel_threads (\<lambda>n. sub32 n 1) proc w3) (\<lambda>w4.
               bindR (yield w4) (\<lambda>w5.
               bindR (modify_kernel_threads (\<lambda>n. u32 (n + 1)) proc w5) (\<lambda>w6.
               take_duration tr w6))))))))))))"

end
