(* ===== verification/Process_Life.thy ===== *)
theory Process_Life
  imports Threads Gc_Queue
begin

text \<open>
  The life of a process: creation and deletion of the structure (\<^verbatim>\<open>new_process\<close>, \<^verbatim>\<open>delete_process\<close> of
  \<^verbatim>\<open>kernel/processes/process.c\<close>) and the garbage collector's thread (\<^verbatim>\<open>kernel/gc.c\<close>), which deletes finished
  threads and processes.

  A freed process leaves the store of processes, and a freed lock the store of locks. What other threads
  do while the collector waits for a process's threads to leave the kernel, and while it yields, is a
  parameter. \<open>Process_Life_Props\<close> holds the properties.
\<close>

section \<open>Constants\<close>

definition PROCESS_INIT :: int where "PROCESS_INIT = 1"

definition PROCESS_FINISHING :: int where "PROCESS_FINISHING = 4"

definition sizeof_process :: nat where "sizeof_process = 16552"

text \<open>The bytes of \<^verbatim>\<open>"virtual_memory"\<close> with the terminating zero.\<close>

definition virtual_memory_name :: "cchar list" where
  "virtual_memory_name = [118, 105, 114, 116, 117, 97, 108, 95, 109, 101, 109, 111, 114, 121, 0]"

section \<open>Arenas and locks in the world\<close>

definition on_arenas :: "(physmem liballoc vmsys \<Rightarrow> ('a \<times> physmem liballoc vmsys) kres) \<Rightarrow> world \<Rightarrow> ('a \<times> world) kres" where
  "on_arenas f w =
     bindR (f \<lparr>vs_heap = w_heap w, vs_arenas = w_arenas w\<rparr>) (\<lambda>(r, s).
     Inr (r, (put_heap (vs_heap s) w)\<lparr>w_arenas := vs_arenas s\<rparr>))"

definition on_heap :: "(physmem liballoc \<Rightarrow> ('a \<times> physmem liballoc) kres) \<Rightarrow> world \<Rightarrow> ('a \<times> world) kres" where
  "on_heap f w = bindR (f (w_heap w)) (\<lambda>(r, h). Inr (r, put_heap h w))"

definition drop_lock :: "nat \<Rightarrow> world \<Rightarrow> world kres" where
  "drop_lock a w =
     bindR (on_heap (delete_rwlock liballoc_subsystem a) w) (\<lambda>(_, w1). Inr (w1\<lparr>w_rw := (w_rw w1)(a := None)\<rparr>))"

section \<open>Creation and deletion\<close>

text \<open>
  Without memory for the hash table the structure gets a null pointer, which the first use of the table
  follows; here that is the error already.
\<close>

definition new_process :: "cchar list \<Rightarrow> world \<Rightarrow> (nat option \<times> world) kres" where
  "new_process name w =
     bindR (w_kmalloc sizeof_process w) (\<lambda>(r, w1).
     case r of
       None \<Rightarrow> Inr (None, w1)
     | Some proc \<Rightarrow>
         bindR (kstrncpy (replicate SMK_NAME_LENGTH 0) name SMK_NAME_LENGTH) (\<lambda>nm.
         bindR (next_pid w1) (\<lambda>(pid, w2).
         bindR (new_page_directory (mmu_of w2)) (\<lambda>(dir, m).
         bindR (on_arenas (vmem_create liballoc_subsystem virtual_memory_name 0x80000000 0x7FFFF000 0x1000
                  None None None 0x10000 0) (put_mmu m w2)) (\<lambda>(vm, w3).
         bindR (new_lock w3) (\<lambda>(lock, w4).
         bindR (on_heap (init_htable liballoc_subsystem 128 75) w4) (\<lambda>(tbl, w5).
         case tbl of
           None \<Rightarrow> Inl Null_deref
         | Some t \<Rightarrow>
             Inr (Some proc, LIST_INIT proc (FAMILY_INIT proc (put_process proc
               \<lparr>pr_name = nm, pr_pid = to_unsigned pid, pr_state = PROCESS_INIT, pr_map = Some dir,
                pr_virtual_memory = vm, pr_lock = lock, pr_threads = None, pr_threads_htable = t,
                pr_thread_count = 0, pr_last_tid = 1, pr_kernel_threads = 0, pr_flags = 0, pr_event_hooks = 0,
                pr_event_pid = -1, pr_event_tid = -1, pr_rc = 0,
                pr_env = \<lparr>environment = None, env_entries = []\<rparr>, pr_alloc = None,
                pr_ipc = replicate MAX_PORTS \<lparr>ib_tid = -1, ib_flags = 0, ib_pulse_q = None, ib_message_q = None\<rparr>\<rparr>
               w5))))))))))"

definition delete_process :: "nat \<Rightarrow> world \<Rightarrow> world kres" where
  "delete_process proc w =
     bindR (user_release_all proc w) (\<lambda>(_, w1).
     bindR (get_process proc w1) (\<lambda>pr.
     bindR (drop_lock (pr_lock pr) w1) (\<lambda>w2.
     bindR (on_heap (release_environment liballoc_subsystem (pr_env pr)) w2) (\<lambda>((_, env), w3).
     let w4 = put_process proc (pr\<lparr>pr_env := env\<rparr>) w3 in
     bindR (on_heap (delete_htable liballoc_subsystem (pr_threads_htable pr)) w4) (\<lambda>(_, w5).
     case pr_virtual_memory pr of
       None \<Rightarrow> Inl Null_deref
     | Some vm \<Rightarrow>
         bindR (on_arenas (\<lambda>s. bindR (vmem_destroy liballoc_subsystem vm s) (\<lambda>s1. Inr ((), s1))) w5) (\<lambda>(_, w6).
         bindR (on_map (\<lambda>dir m. bindR (delete_page_directory dir m) (\<lambda>m1. Inr ((), m1))) pr w6) (\<lambda>(_, w7).
         bindR (w_kfree (Some proc) w7) (\<lambda>w8.
         Inr (w8\<lparr>w_k := (w_k w8)\<lparr>ks_procs := (ks_procs (w_k w8))(proc := None)\<rparr>\<rparr>)))))))))"

section \<open>The garbage collector\<close>

definition gc_do_thread :: "nat \<Rightarrow> int \<Rightarrow> int \<Rightarrow> world \<Rightarrow> (int \<times> world) kres" where
  "gc_do_thread fuel pid tid w =
     bindR (checkout_process pid WRITER w) (\<lambda>(r, w1).
     case r of
       None \<Rightarrow> Inr (-1, w1)
     | Some proc \<Rightarrow>
         bindR (get_process proc w1) (\<lambda>pr.
         bindR (get_thread pr tid (k_threads (ks_sys (w_k w1)))) (\<lambda>t.
         case t of
           None \<Rightarrow> Inr (-1, w1)
         | Some tr \<Rightarrow>
             bindR (get_thread_at tr w1) (\<lambda>th.
             assertR (t_state th = THREAD_FINISHED) (
             assertR (t_state th \<noteq> THREAD_IRQ) (
             bindR (delete_thread fuel tr w1) (\<lambda>(rc, w2).
             assertR (rc = 0) (
             bindR (commit_process proc w2) (\<lambda>w3. Inr (0, w3))))))))))"

text \<open>Waking the dormant threads of a process, along the list of its threads.\<close>

fun wake_dormant :: "nat \<Rightarrow> nat option \<Rightarrow> world \<Rightarrow> world kres" where
  "wake_dormant n None w = Inr w"
| "wake_dormant 0 (Some tr) w = Inl Hang"
| "wake_dormant (Suc n) (Some tr) w =
     bindR (get_thread_at tr w) (\<lambda>th.
     assertR (t_state th \<noteq> THREAD_IRQ) (
     bindR (if t_state th = THREAD_DORMANT then on_sys (set_thread_state tr THREAD_RUNNING) w else Inr w) (\<lambda>w1.
     bindR (NEXT_LINEAR tr w1) (\<lambda>q. wake_dormant n q w1))))"

text \<open>
  The first loop of \<^verbatim>\<open>gc_do_process\<close> waits until no thread of the process is in the kernel; it returns with
  the process checked out, or with \<open>None\<close> when the process has gone. \<open>others\<close> is what the rest of the
  system does between two rounds. How many rounds there are is up to it: \<open>rounds\<close> bounds them.
\<close>

fun await_process :: "nat \<Rightarrow> (world \<Rightarrow> world kres) \<Rightarrow> int \<Rightarrow> world \<Rightarrow> (nat option \<times> world) kres" where
  "await_process 0 others pid w = Inl Hang"
| "await_process (Suc rounds) others pid w =
     bindR (checkout_process pid WRITER w) (\<lambda>(r, w1).
     case r of
       None \<Rightarrow> Inr (None, w1)
     | Some proc \<Rightarrow>
         bindR (get_process proc w1) (\<lambda>pr.
         assertR (pr_state pr = PROCESS_FINISHING) (
         if pr_kernel_threads pr \<noteq> 0
         then
           bindR (wake_dormant (nat (ht_total (pr_threads_htable pr))) (pr_threads pr) w1) (\<lambda>w2.
           bindR (commit_process proc w2) (\<lambda>w3.
           bindR (others w3) (\<lambda>w4.
           await_process rounds others pid w4)))
         else Inr (Some proc, w1))))"

text \<open>The second loop deletes the threads, at most as many as the process has in its table.\<close>

fun delete_threads :: "nat \<Rightarrow> nat \<Rightarrow> nat \<Rightarrow> world \<Rightarrow> world kres" where
  "delete_threads n fuel proc w =
     bindR (get_process proc w) (\<lambda>pr.
     case pr_threads pr of
       None \<Rightarrow> Inr w
     | Some tr \<Rightarrow>
         (case n of
            0 \<Rightarrow> Inl Hang
          | Suc k \<Rightarrow>
              bindR (on_sys (set_thread_state tr THREAD_FINISHED) w) (\<lambda>w1.
              bindR (get_process proc w1) (\<lambda>pr1.
              case pr_threads pr1 of
                None \<Rightarrow> Inl Null_deref
              | Some tr1 \<Rightarrow>
                  bindR (delete_thread fuel tr1 w1) (\<lambda>(rc, w2).
                  assertR (rc = 0) (
                  delete_threads k fuel proc w2))))))"

definition gc_do_process :: "nat \<Rightarrow> nat \<Rightarrow> (world \<Rightarrow> world kres) \<Rightarrow> int \<Rightarrow> world \<Rightarrow> (int \<times> world) kres" where
  "gc_do_process rounds fuel others pid w =
     bindR (await_process rounds others pid w) (\<lambda>(r, w1).
     case r of
       None \<Rightarrow> Inr (-1, w1)
     | Some proc \<Rightarrow>
         bindR (get_process proc w1) (\<lambda>pr.
         bindR (delete_threads (nat (ht_total (pr_threads_htable pr))) fuel proc w1) (\<lambda>w2.
         bindR (release_processes w2) (\<lambda>w3.
         bindR (remove_process proc w3) (\<lambda>w4.
         bindR (delete_process proc w4) (\<lambda>w5.
         Inr (0, w5)))))))"

text \<open>
  One round of the collector's endless loop; \<open>yield\<close> stands for \<^verbatim>\<open>sched_yield\<close>. The results of the two
  routines are ignored.
\<close>

definition gc_round ::
  "nat \<Rightarrow> nat \<Rightarrow> (world \<Rightarrow> world kres) \<Rightarrow> (world \<Rightarrow> world kres) \<Rightarrow> nat \<Rightarrow> gc_sys \<Rightarrow> world \<Rightarrow> (gc_sys \<times> world) kres" where
  "gc_round rounds fuel others yield cpu_id g w =
     assertR (eflags_if g) (
     bindR (gc_peek cpu_id g) (\<lambda>((rc, entry), g1).
     case entry of
       None \<Rightarrow> bindR (yield w) (\<lambda>w1. Inr (g1, w1))
     | Some e \<Rightarrow>
         bindR (if gi_tid e < 0 then gc_do_process rounds fuel others (gi_pid e) w
                else gc_do_thread fuel (gi_pid e) (gi_tid e) w) (\<lambda>(_, w1).
         bindR (gc_next cpu_id g1) (\<lambda>g2. Inr (g2, w1)))))"

end
