(* ===== verification/Process_Life_Props.thy ===== *)
theory Process_Life_Props
  imports Process_Life Ptable_Props Paging_Tables
begin

text \<open>
  Properties of threads and of the garbage collector: the frame on which a new thread starts, the
  numbers of threads at the end of their range, and the locks that \<^verbatim>\<open>gc_do_thread\<close> leaves behind.
\<close>

section \<open>The start frame\<close>

lemma put_thread_simps [simp]:
  "get_thread_at t (put_thread_at t th w) = Inr th" "w_mem (put_thread_at t th w) = w_mem w"
  "get_thread_at t (w\<lparr>w_mem := m\<rparr>) = get_thread_at t w"
  by (simp_all add: get_thread_at_def put_thread_at_def get_thr_def put_thr_def get_tr_def put_tr_def)

lemma pushl_ok:
  assumes "get_thread_at tr w = Inr th" and "4 \<le> t_stack th" and "t_stack th < 4294967296"
  shows "\<exists>w'. pushl tr v w = Inr w' \<and> get_thread_at tr w' = Inr (th\<lparr>t_stack := t_stack th - 4\<rparr>)
    \<and> w_mem w' = st32 (w_mem w) (t_stack th - 4) (of_nat v)"
proof -
  have "sub32 (t_stack th) 4 = t_stack th - 4" using assms(2,3) by (simp add: sub32_le)
  with assms(1) show ?thesis by (simp add: pushl_def Let_def)
qed

lemma pushl_all_ok:
  assumes "get_thread_at tr w = Inr th" and "4 * length vs \<le> t_stack th" and "t_stack th < 4294967296"
  shows "\<exists>w'. pushl_all tr vs w = Inr w' \<and> get_thread_at tr w' = Inr (th\<lparr>t_stack := t_stack th - 4 * length vs\<rparr>)
    \<and> (\<forall>i < length vs. ld32 (w_mem w') (t_stack th - 4 * Suc i) = of_nat (vs ! i))
    \<and> (\<forall>x. x \<notin> bytes (t_stack th - 4 * length vs) (4 * length vs) \<longrightarrow> w_mem w' x = w_mem w x)"
  using assms
proof (induction vs arbitrary: w th)
  case (Cons v vs)
  from pushl_ok [OF Cons.prems(1), of v] Cons.prems(2,3) obtain w1 where
    w1: "pushl tr v w = Inr w1" "get_thread_at tr w1 = Inr (th\<lparr>t_stack := t_stack th - 4\<rparr>)"
      "w_mem w1 = st32 (w_mem w) (t_stack th - 4) (of_nat v)" by auto
  let ?th = "th\<lparr>t_stack := t_stack th - 4\<rparr>"
  have s: "t_stack ?th = t_stack th - 4" by simp
  have "4 * length vs \<le> t_stack ?th" "t_stack ?th < 4294967296" using Cons.prems(2,3) by simp_all
  from Cons.IH [OF w1(2) this, unfolded s] obtain w' where
    w': "pushl_all tr vs w1 = Inr w'" "get_thread_at tr w' = Inr (?th\<lparr>t_stack := t_stack th - 4 - 4 * length vs\<rparr>)"
      "\<forall>i < length vs. ld32 (w_mem w') (t_stack th - 4 - 4 * Suc i) = of_nat (vs ! i)"
      "\<forall>x. x \<notin> bytes (t_stack th - 4 - 4 * length vs) (4 * length vs) \<longrightarrow> w_mem w' x = w_mem w1 x" by blast
  have e: "t_stack th - 4 - 4 * length vs = t_stack th - 4 * length (v # vs)" by simp
  have "ld32 (w_mem w') (t_stack th - 4 * Suc i) = of_nat ((v # vs) ! i)" if i: "i < length (v # vs)" for i
  proof (cases i)
    case 0
    have "ld32 (w_mem w') (t_stack th - 4) = ld32 (w_mem w1) (t_stack th - 4)"
      by (rule ld32_cong) (use w'(4) Cons.prems(2) in \<open>auto simp: bytes_def\<close>)
    then show ?thesis using 0 w1(3) by simp
  next
    case (Suc j)
    then have "t_stack th - 4 * Suc i = t_stack th - 4 - 4 * Suc j" by simp
    then show ?thesis using Suc i w'(3) by simp
  qed
  moreover have "w_mem w' x = w_mem w x" if "x \<notin> bytes (t_stack th - 4 * length (v # vs)) (4 * length (v # vs))" for x
  proof -
    have "x \<notin> bytes (t_stack th - 4) 4" "x \<notin> bytes (t_stack th - 4 - 4 * length vs) (4 * length vs)"
      using that Cons.prems(2) by (auto simp: bytes_def)
    then show ?thesis using w'(4) w1(3) by simp
  qed
  ultimately show ?case using w1(1) w'(1,2) e by (intro exI [of _ w']) simp
qed (simp add: bytes_def)

text \<open>Read upwards from the new stack pointer, the values come in the reverse order.\<close>

lemma pushl_all_frame:
  assumes "get_thread_at tr w = Inr th" and "4 * length vs \<le> t_stack th" and "t_stack th < 4294967296"
  shows "\<exists>w'. pushl_all tr vs w = Inr w' \<and> get_thread_at tr w' = Inr (th\<lparr>t_stack := t_stack th - 4 * length vs\<rparr>)
    \<and> map (\<lambda>i. ld32 (w_mem w') (t_stack th - 4 * length vs + 4 * i)) [0..<length vs] = map of_nat (rev vs)
    \<and> (\<forall>x. x \<notin> bytes (t_stack th - 4 * length vs) (4 * length vs) \<longrightarrow> w_mem w' x = w_mem w x)"
proof -
  from pushl_all_ok [OF assms] obtain w' where w': "pushl_all tr vs w = Inr w'"
    "get_thread_at tr w' = Inr (th\<lparr>t_stack := t_stack th - 4 * length vs\<rparr>)"
    "\<forall>i < length vs. ld32 (w_mem w') (t_stack th - 4 * Suc i) = of_nat (vs ! i)"
    "\<forall>x. x \<notin> bytes (t_stack th - 4 * length vs) (4 * length vs) \<longrightarrow> w_mem w' x = w_mem w x" by blast
  have "map (\<lambda>i. ld32 (w_mem w') (t_stack th - 4 * length vs + 4 * i)) [0..<length vs] = map of_nat (rev vs)"
  proof (rule nth_equalityI)
    fix i
    assume "i < length (map (\<lambda>i. ld32 (w_mem w') (t_stack th - 4 * length vs + 4 * i)) [0..<length vs])"
    then have i: "i < length vs" by simp
    then have e: "t_stack th - 4 * length vs + 4 * i = t_stack th - 4 * Suc (length vs - Suc i)" using assms(2) by simp
    have "length vs - Suc i < length vs" using i by simp
    with w'(3) i show "map (\<lambda>i. ld32 (w_mem w') (t_stack th - 4 * length vs + 4 * i)) [0..<length vs] ! i
      = map of_nat (rev vs) ! i" by (simp only: nth_map_upt e) (simp add: rev_nth e)
  qed simp
  with w' show ?thesis by blast
qed

text \<open>
  C40: The frame of a new thread, read upwards from its stack pointer as \<^verbatim>\<open>__switch_thread\<close> does: the four
  general registers that are zero, \<^verbatim>\<open>ebx\<close>, \<^verbatim>\<open>edx\<close>, \<^verbatim>\<open>ecx\<close> and \<^verbatim>\<open>eax\<close> with the data of the creator, the segment
  registers, and for the return the entry point, code segment, flags, stack and data segment. Memory
  outside the 68 bytes below the old stack pointer keeps its contents.
\<close>

theorem start_frame_layout:
  assumes "get_thread_at tr w = Inr th" and "68 \<le> t_stack th" and "t_stack th < 4294967296"
  shows "\<exists>w'. pushl_all tr (start_frame type stack_user entry data1 data2 data3 data4) w = Inr w'
    \<and> get_thread_at tr w' = Inr (th\<lparr>t_stack := t_stack th - 68\<rparr>)
    \<and> map (\<lambda>i. ld32 (w_mem w') (t_stack th - 68 + 4 * i)) [0..<17]
       = map of_nat [0, 0, 0, 0, data2, data4, data3, data1, 35, 35, 35, 35, entry,
           if type = 1 then 8 else 27, 0x202, stack_user, if type = 1 then 16 else 35]
    \<and> (\<forall>x. x \<notin> bytes (t_stack th - 68) 68 \<longrightarrow> w_mem w' x = w_mem w x)"
proof -
  let ?vs = "start_frame type stack_user entry data1 data2 data3 data4"
  have n: "length ?vs = 17" by (simp add: start_frame_def)
  have r: "rev ?vs = [0, 0, 0, 0, data2, data4, data3, data1, 35, 35, 35, 35, entry,
      if type = 1 then 8 else 27, 0x202, stack_user, if type = 1 then 16 else 35]"
    by (simp add: start_frame_def GDT_SYSTEMCODE_def GDT_SYSTEMDATA_def GDT_USERCODE_def GDT_USERDATA_def
        EFLAG_BASE_def EFLAG_INTERRUPT_def)
  have "4 * length ?vs = 68" by (simp add: n)
  with pushl_all_frame [OF assms(1) _ assms(3), of ?vs] assms(2) show ?thesis unfolding r n by simp
qed

text \<open>The example: a thread in the world of the process table.\<close>

definition demo_thread_world :: world where
  "demo_thread_world = put_thread_at 600 ((sample_thread 1)\<lparr>t_stack := 0x8000\<rparr>) demo_world"

theorem start_frame_layout_witness:
  "\<exists>w'. pushl_all 600 (start_frame 0 0x90000000 0x40000000 1 2 3 4) demo_thread_world = Inr w'
     \<and> map (\<lambda>i. ld32 (w_mem w') (0x7FBC + 4 * i)) [0..<17]
       = [0, 0, 0, 0, 2, 4, 3, 1, 35, 35, 35, 35, 0x40000000, 27, 0x202, 0x90000000, 35]"
proof -
  let ?th = "(sample_thread 1)\<lparr>t_stack := 0x8000\<rparr>"
  have "get_thread_at 600 demo_thread_world = Inr ?th" by (simp add: demo_thread_world_def)
  from start_frame_layout [OF this, of 0 "0x90000000" "0x40000000" 1 2 3 4] show ?thesis by auto
qed

section \<open>Numbers of threads\<close>

text \<open>
  Remark: After the largest number, \<^verbatim>\<open>next_tid\<close> gives the smallest \<^verbatim>\<open>int\<close>: the test for wrap-around is only made
  when a number in use is skipped. A negative thread number is what the garbage collector takes for
  the request to delete the whole process.
\<close>

theorem next_tid_negative:
  assumes pr: "get_process proc w = Inr pr" "pr_last_tid pr = 2147483647"
    and free: "get_thread pr 2147483647 (k_threads (ks_sys (w_k w))) = Inr None"
      "get_thread pr (- 2147483648) (k_threads (ks_sys (w_k w))) = Inr None"
  shows "\<exists>w1 w2. next_tid proc w = Inr (2147483647, w1) \<and> next_tid proc w1 = Inr (- 2147483648, w2)"
proof -
  have one: "next_tid_loop (n + 2) (- 1) t q ts = Inr t" if "get_thread q t ts = Inr None" for n t q ts
    using that by (simp add: numeral_2_eq_2)
  define pr1 where "pr1 = pr\<lparr>pr_last_tid := - 2147483648\<rparr>"
  define w1 where "w1 = put_process proc pr1 w"
  have "next_tid proc w = Inr (2147483647, w1)"
    using pr one [OF free(1)] by (simp add: next_tid_def w1_def pr1_def s32_def)
  moreover have g: "get_process proc w1 = Inr pr1" "k_threads (ks_sys (w_k w1)) = k_threads (ks_sys (w_k w))"
    by (simp_all add: w1_def get_process_def put_process_def get_proc_def put_proc_def)
  moreover have "get_thread pr1 (- 2147483648) (k_threads (ks_sys (w_k w))) = Inr None"
    using free(2) by (simp add: get_thread_def pr1_def)
  ultimately have "\<exists>w2. next_tid proc w1 = Inr (- 2147483648, w2)"
    using one [of pr1 "- 2147483648" "k_threads (ks_sys (w_k w))"] by (simp add: next_tid_def) (simp add: pr1_def)
  with \<open>next_tid proc w = _\<close> show ?thesis by blast
qed

theorem next_tid_negative_witness:
  "\<exists>w1 w2. next_tid 1000 (put_process 1000 ((sample_process 1)\<lparr>pr_last_tid := 2147483647\<rparr>) demo_world)
       = Inr (2147483647, w1) \<and> next_tid 1000 w1 = Inr (- 2147483648, w2)"
proof (rule next_tid_negative)
  let ?pr = "(sample_process 1)\<lparr>pr_last_tid := 2147483647\<rparr>"
  show "get_process 1000 (put_process 1000 ?pr demo_world) = Inr ?pr"
    by (simp add: get_process_def put_process_def get_proc_def put_proc_def)
qed (simp_all add: get_thread_def htable_retrieve_def sample_process_def)

section \<open>The garbage collector\<close>

lemma table_retrieve_cong:
  "w_k w' = w_k w \<Longrightarrow> l_processTable w' = l_processTable w \<Longrightarrow> table_retrieve pid w' = table_retrieve pid w"
  by (simp add: table_retrieve_def the_table_def)

text \<open>A process that is checked out for writing, as the next caller finds it.\<close>

lemma checkout_writer:
  assumes free: "lock_free (l_processLock w) w" and found: "table_retrieve pid w = Inr (Some proc)"
    and pr: "get_process proc w = Inr pr" and lk: "lock_free (pr_lock pr) w" "pr_lock pr \<noteq> l_processLock w"
  defines "w' \<equiv> hold Writer (pr_lock pr) (hold Reader (l_processLock w) w)"
  shows "checkout_process pid WRITER w = Inr (Some proc, w') \<and> checkout_process pid flags w' = Inl Hang
    \<and> remove_process q w' = Inl Hang \<and> commit_process proc w' = Inr w"
proof -
  let ?l = "l_processLock w"
  let ?w1 = "hold Reader ?l w"
  have f1: "lock_free (pr_lock pr) ?w1" using lk by (simp add: lock_free_hold)
  have t1: "table_retrieve pid ?w1 = Inr (Some proc)" using found table_retrieve_cong [of ?w1 w] by simp
  have g: "get_process proc x = Inr pr" if "w_k x = w_k w" for x using pr that by (simp add: get_process_def)
  have "checkout_process pid WRITER w = Inr (Some proc, w')"
    using read_free [OF free] write_free [OF f1] t1 g [of ?w1]
    by (simp add: checkout_process_def w'_def READER_def WRITER_def)
  moreover have "commit_process proc w' = Inr w"
    using g [of w'] release_hold [OF f1] release_hold [OF free] by (simp add: commit_process_def w'_def)
  moreover have h: "w_rw w' ?l = Some (held_lock Reader)" "l_processLock w' = ?l" "w_rw w' (pr_lock pr) = Some (held_lock Writer)"
    using lk(2) by (simp_all add: w'_def)
  then have "remove_process q w' = Inl Hang" using access_held(2) [OF h(1)] by (simp add: remove_process_def)
  moreover have "checkout_process pid flags w' = Inl Hang"
  proof -
    define w3 where "w3 = w'\<lparr>w_rw := (w_rw w')(?l \<mapsto> (held_lock Reader)\<lparr>num_readers := Suc 1\<rparr>)\<rparr>"
    have a: "rwlock_get_read_access ?l w' = Inr w3"
      using h(1) by (simp add: rwlock_get_read_access_def on_lock_def get_read_access_def held_lock_def w3_def)
    have "w_k w3 = w_k w" "l_processTable w3 = l_processTable w" by (simp_all add: w3_def w'_def)
    then have b: "table_retrieve pid w3 = Inr (Some proc)" "get_process proc w3 = Inr pr"
      using found table_retrieve_cong [of w3 w] g by simp_all
    have c: "w_rw w3 (pr_lock pr) = Some (held_lock Writer)" using lk(2) h(3) by (simp add: w3_def)
    show ?thesis using a b h(2) access_held(1) [OF c] access_held(2) [OF c] by (simp add: checkout_process_def)
  qed
  ultimately show ?thesis by blast
qed

text \<open>
  C34: When the thread to delete is gone, \<^verbatim>\<open>gc_do_thread\<close> gives up without \<^verbatim>\<open>commit_process\<close>: the process stays
  locked for writing and the table for reading. From then on every checkout of the process and every
  removal of any process waits for ever, the collector's own next one included.
\<close>

theorem gc_do_thread_keeps_locks:
  assumes "lock_free (l_processLock w) w" and "table_retrieve pid w = Inr (Some proc)"
    and "get_process proc w = Inr pr" and "lock_free (pr_lock pr) w" and "pr_lock pr \<noteq> l_processLock w"
    and gone: "get_thread pr tid (k_threads (ks_sys (w_k w))) = Inr None"
  shows "\<exists>w'. gc_do_thread fuel pid tid w = Inr (-1, w') \<and> checkout_process pid flags w' = Inl Hang
    \<and> remove_process q w' = Inl Hang \<and> gc_do_thread fuel pid tid' w' = Inl Hang"
proof -
  let ?w' = "hold Writer (pr_lock pr) (hold Reader (l_processLock w) w)"
  note c = checkout_writer [OF assms(1-5)]
  have g: "get_process proc ?w' = Inr pr" using assms(3) by (simp add: get_process_def)
  have "gc_do_thread fuel pid tid w = Inr (-1, ?w')" using c g gone by (simp add: gc_do_thread_def)
  moreover have "gc_do_thread fuel pid tid' ?w' = Inl Hang" using c [of WRITER] by (simp add: gc_do_thread_def)
  ultimately show ?thesis using c by blast
qed

theorem gc_do_thread_keeps_locks_witness:
  "\<exists>w'. gc_do_thread 1 2 7 demo_world = Inr (-1, w') \<and> remove_process 2000 w' = Inl Hang"
proof -
  let ?pr = "(sample_process 2)\<lparr>pr_lock := 502\<rparr>"
  have t: "table_retrieve 2 demo_world = Inr (Some 2000)"
    using retrieve_present [of demo_world "[1000, 2000]" 2000 ?pr] processes_okD(2,3) [OF demo_world_ok] by simp
  have p: "get_process 2000 demo_world = Inr ?pr" by (simp add: get_process_def get_proc_def)
  have "lock_free (l_processLock demo_world) demo_world" "lock_free (pr_lock ?pr) demo_world"
    "pr_lock ?pr \<noteq> l_processLock demo_world" by (simp_all add: demo_lock_free)
  moreover have "get_thread ?pr 7 (k_threads (ks_sys (w_k demo_world))) = Inr None"
    by (simp add: get_thread_def htable_retrieve_def sample_process_def)
  ultimately show ?thesis using gc_do_thread_keeps_locks [OF _ t p, of 7] by blast
qed

text \<open>
  Remark: One round of the collector on an entry whose process does not exist any more: it takes the entry
  off its list and changes nothing else; without an entry it only yields.
\<close>

theorem gc_round_stale:
  assumes ok: "gc_ok c g" and on: "eflags_if g" and free: "lock_free (l_processLock w) w"
    and stale: "gc_work c g \<noteq> [] \<Longrightarrow> table_retrieve (gi_pid (hd (gc_work c g))) w = Inr None"
    and rounds: "0 < rounds"
  shows "if gc_work c g = [] then gc_round rounds fuel others yield c g w = bindR (yield w) (\<lambda>w'. Inr (g, w'))
    else \<exists>g'. gc_round rounds fuel others yield c g w = Inr (g', w) \<and> gc_ok c g' \<and> gc_work c g' = tl (gc_work c g)
      \<and> eflags_if g'"
proof (cases "gc_work c g = []")
  case True
  then show ?thesis using on gc_peek_ok [OF ok] by (simp add: gc_round_def)
next
  case False
  let ?e = "hd (gc_work c g)"
  have "table_retrieve (gi_pid ?e) (hold Reader (l_processLock w) w) = Inr None"
    using stale [OF False] table_retrieve_cong [of "hold Reader (l_processLock w) w" w] by simp
  then have co: "checkout_process (gi_pid ?e) WRITER w = Inr (None, w)"
    using read_free [OF free] release_hold [OF free] by (simp add: checkout_process_def)
  obtain k where k: "rounds = Suc k" using rounds by (cases rounds) auto
  have "gc_do_process rounds fuel others (gi_pid ?e) w = Inr (-1, w)" using co k by (simp add: gc_do_process_def)
  moreover have "gc_do_thread fuel (gi_pid ?e) (gi_tid ?e) w = Inr (-1, w)" using co by (simp add: gc_do_thread_def)
  moreover from gc_next_ok [OF ok False] obtain g' where
    "gc_next c g = Inr g'" "gc_ok c g'" "gc_work c g' = tl (gc_work c g)" "eflags_if g' = eflags_if g" by blast
  ultimately show ?thesis using False on gc_peek_ok [OF ok] by (simp add: gc_round_def)
qed

text \<open>The example: one thread to delete, of a process that nobody has.\<close>

theorem gc_round_stale_witness:
  "\<exists>g g'. gc_work 1 g = [\<lparr>gi_pid = 7, gi_tid = 3\<rparr>] \<and> gc_round 1 1 Inr Inr 1 g demo_world = Inr (g', demo_world)
     \<and> gc_work 1 g' = []"
proof -
  let ?ring = "\<lparr>gq_info = replicate MAX_GC \<lparr>gi_pid = 7, gi_tid = 3\<rparr>, gq_pos = 0, gq_size = 1\<rparr>"
  define g where "g = \<lparr>qdata = replicate MAX_CPU ?ring, eflags_if = True\<rparr>"
  have ok: "gc_ok 1 g" by (simp add: g_def gc_ok_def gc_ring_ok_def MAX_GC_def MAX_CPU_def list_all_length)
  have wk: "gc_work 1 g = [\<lparr>gi_pid = 7, gi_tid = 3\<rparr>]"
    by (simp add: g_def gc_work_def Let_def ring_def MAX_CPU_def MAX_GC_def)
  have "table_retrieve 7 demo_world = Inr None"
    using retrieve_absent [of demo_world "[1000, 2000]" 7] processes_okD(2) [OF demo_world_ok] by (simp add: MAX_PID_def)
  then have st: "table_retrieve (gi_pid (hd (gc_work 1 g))) demo_world = Inr None" unfolding wk by simp
  have fr: "lock_free (l_processLock demo_world) demo_world" by (simp add: demo_lock_free)
  have "(0 :: nat) < 1" by simp
  have "eflags_if g" by (simp add: g_def)
  from gc_round_stale [OF ok this fr st \<open>0 < 1\<close>, of 1 Inr Inr] wk show ?thesis by auto
qed

end
