(* ===== verification/Thread_Delete.thy ===== *)
theory Thread_Delete
  imports Process_Life_Props Ualloc_Props
begin

text \<open>
  How the head of a process's list of threads gets lost: \<^verbatim>\<open>delete_thread\<close> of the first thread, when that
  thread has created the others. The example runs the whole deletion, with the release of the
  stacks, the page mappings and the structure.
\<close>

section \<open>A thread that has created two others\<close>

text \<open>The list of threads and the tree; \<open>a\<close> is the first thread, \<open>c\<close> the last one created.\<close>

definition three_threads :: "world \<Rightarrow> nat \<Rightarrow> nat \<Rightarrow> nat \<Rightarrow> bool" where
  "three_threads w a b c \<longleftrightarrow> distinct [a, b, c] \<and> dls (w_list w) None [a, c, b] None
     \<and> w_family w a = Some \<lparr>f_object = a, f_parent = None, f_child = Some c, f_prev = None, f_next = None\<rparr>
     \<and> w_family w b = Some \<lparr>f_object = b, f_parent = Some a, f_child = None, f_prev = Some c, f_next = None\<rparr>
     \<and> w_family w c = Some \<lparr>f_object = c, f_parent = Some a, f_child = None, f_prev = None, f_next = Some b\<rparr>"

text \<open>That is what the creation of the three leaves, each linked into its process by \<^verbatim>\<open>link_thread\<close>.\<close>

lemma create_three:
  assumes pr: "get_process proc w = Inr pr" "pr_threads pr = None" and d: "distinct [a, b, c]"
  shows "\<exists>w'. bindR (link_thread proc None a (LIST_INIT a (FAMILY_INIT a w))) (\<lambda>w1.
        bindR (link_thread proc (Some a) b (LIST_INIT b (FAMILY_INIT b w1))) (\<lambda>w2.
        link_thread proc (Some a) c (LIST_INIT c (FAMILY_INIT c w2)))) = Inr w'
    \<and> three_threads w' a b c \<and> get_process proc w' = Inr (pr\<lparr>pr_threads := Some a\<rparr>)"
  using pr d
  by (simp add: link_thread_def LIST_INIT_def FAMILY_INIT_def world_defs family_add_child_def list_insertAfter_def
      load_fam_def modify_fam_def load_node_def modify_node_def three_threads_def)

section \<open>Deletion of the first thread\<close>

text \<open>The links, once the thread is out of the table, which then counts two.\<close>

lemma unlink_first:
  assumes t: "three_threads w a b c" and pr: "get_process proc w = Inr pr" "pr_threads pr = Some a"
    and n: "2 \<le> ht_total (pr_threads_htable pr)"
  shows "\<exists>w'. unlink_thread proc a w = Inr w' \<and> dls (w_list w') None [c, b] None
    \<and> get_process proc w' = Inr (pr\<lparr>pr_threads := Some b\<rparr>)
    \<and> w_heap w' = w_heap w \<and> w_mem w' = w_mem w \<and> get_thread_at a w' = get_thread_at a w"
proof -
  obtain k where k: "nat (ht_total (pr_threads_htable pr)) = Suc (Suc k)"
    using n by (intro that [of "nat (ht_total (pr_threads_htable pr)) - 2"]) simp
  show ?thesis
    using t pr k unfolding three_threads_def
    by (auto simp add: unlink_thread_def PARENT_def CHILD_def NEXT_SIBLING_def PREV_SIBLING_def family_link_def 
        on_family_def on_list_def load_fam_def modify_fam_def load_node_def modify_node_def family_remove_def
        family_add_sibling_def list_remove_def list_init_def get_process_def put_process_def get_proc_def put_proc_def w_heap_def get_thread_at_def get_thr_def)
qed

text \<open>The release of the memory changes neither the links nor the process.\<close>

lemma kept_by_memory:
  "w_memory_free n a w = Inr w' \<Longrightarrow> w_list w' = w_list w \<and> ks_procs (w_k w') = ks_procs (w_k w)"
  "on_map f pr w = Inr (r, w') \<Longrightarrow> w_list w' = w_list w \<and> ks_procs (w_k w') = ks_procs (w_k w)"
  "w_kfree p w = Inr w' \<Longrightarrow> w_list w' = w_list w \<and> ks_procs (w_k w') = ks_procs (w_k w)"
  by (auto simp: w_memory_free_def on_map_def w_kfree_def put_heap_def put_mmu_def bindR_Inr_iff split: option.splits)

lemma free_thread_memory_keeps:
  assumes "free_thread_memory proc a w = Inr w'"
  shows "w_list w' = w_list w \<and> get_process q w' = get_process q w"
  using assms unfolding free_thread_memory_def
  by (auto simp: bindR_Inr_iff get_process_def get_proc_def dest!: kept_by_memory split: option.splits)


lemma no_ports: "get_thread_at a w = Inr th \<Longrightarrow> t_ports th \<noteq> [] \<Longrightarrow> t_ports th ! 0 = -1 \<Longrightarrow>
    release_thread_ports (Suc n) fuel sub a (w_k w) 0 = Inr (0, w_k w)"
  by (simp add: get_thread_at_def aget_def)

lemma delete_first_ok:
  assumes th: "get_thread_at a w = Inr th" "t_process th = proc" "proc \<noteq> 0" "t_ports th \<noteq> []" "t_ports th ! 0 = -1"
    and pr: "get_process proc w = Inr pr" "pr_threads pr = Some a" and tree: "three_threads w a b c"
    and rm: "htable_remove liballoc_subsystem (thread_key_at w) (pr_threads_htable pr) a (w_heap w) = Inr ((0, t), h)"
      "2 \<le> ht_total t"
  shows "\<exists>w2. delete_thread fuel a w = bindR (free_thread_memory proc a w2) (\<lambda>w3. Inr (0, w3))
    \<and> dls (w_list w2) None [c, b] None \<and> get_process proc w2 = Inr (pr\<lparr>pr_threads_htable := t, pr_threads := Some b,
        pr_thread_count := s32 (pr_thread_count pr - 1)\<rparr>)
    \<and> w_heap w2 = h \<and> w_mem w2 = w_mem w \<and> get_thread_at a w2 = Inr th"
proof -
  let ?pr1 = "pr\<lparr>pr_thread_count := s32 (pr_thread_count pr - 1)\<rparr>"
  define w1 where "w1 = put_process proc ?pr1 w"
  have h1: "w_heap w1 = w_heap w" "thread_key_at w1 = thread_key_at w" "get_process proc w1 = Inr ?pr1"
    by (simp_all add: w1_def thread_key_at_def fun_eq_iff world_defs)
  define w2 where "w2 = put_process proc (?pr1\<lparr>pr_threads_htable := t\<rparr>) (put_heap h w1)"
  have tr: "threads_remove proc a w1 = Inr (0, w2)"
    using rm(1) h1 by (simp add: threads_remove_def w2_def)
  have th2: "get_thread_at a w2 = Inr th"
    using th(1) by (simp add: w2_def w1_def get_thread_at_def get_thr_def world_defs)
  have "three_threads w2 a b c" using tree by (simp add: three_threads_def w2_def w1_def world_defs)
  from unlink_first [OF this, of proc "?pr1\<lparr>pr_threads_htable := t\<rparr>"] pr(2) rm(2) th2 obtain w3 where
    w3: "unlink_thread proc a w2 = Inr w3" "dls (w_list w3) None [c, b] None"
      "get_process proc w3 = Inr (?pr1\<lparr>pr_threads_htable := t, pr_threads := Some b\<rparr>)"
      "w_heap w3 = h" "w_mem w3 = w_mem w" "get_thread_at a w3 = Inr th"
    by (auto simp: w2_def w1_def)
  moreover have "delete_thread fuel a w = bindR (free_thread_memory proc a w3) (\<lambda>w4. Inr (0, w4))"
    using th(1-3) pr(1) tr no_ports [OF th2 th(4,5)] w3(1)
    by (simp add: delete_thread_def w1_def [symmetric])
  ultimately show ?thesis by (intro exI [of _ w3]) simp
qed

text \<open>
  C33: \<^verbatim>\<open>delete_thread\<close> of the first thread of a process, which has no open port and has created the only two
  other threads: it comes as far as the release of the memory. By then the thread is out of the
  table, and the list holds the two that are left, but \<^verbatim>\<open>proc->threads\<close> points to the second of them,
  so that a walk from the head misses the first; whenever the call returns, that is how things are. The
  new head is the next \<^emph>\<open>sibling\<close> of the deleted thread, not the next thread of the list. The assertion
  that is meant to catch this looks at the sibling before the thread, which \<^verbatim>\<open>family_remove\<close> has just
  cleared.
\<close>

theorem delete_first_thread_loses:
  assumes th: "get_thread_at a w = Inr th" "t_process th = proc" "proc \<noteq> 0" "t_ports th \<noteq> []" "t_ports th ! 0 = -1"
    and pr: "get_process proc w = Inr pr" "pr_threads pr = Some a" and tree: "three_threads w a b c"
    and tbl: "ht_ok (pr_threads_htable pr)" "ht_bag (pr_threads_htable pr) = {#a, b, c#}"
      "small_keys (thread_key_at w)" "kernel_heap_ok (w_heap w)" "ht_live (live (w_heap w)) (pr_threads_htable pr)"
  shows "\<exists>w2 pr2. delete_thread fuel a w = bindR (free_thread_memory proc a w2) (\<lambda>w3. Inr (0, w3))
    \<and> dls (w_list w2) None [c, b] None \<and> get_process proc w2 = Inr pr2
    \<and> ht_bag (pr_threads_htable pr2) = {#b, c#} \<and> pr_threads pr2 = Some b
    \<and> (\<forall>rc w'. delete_thread fuel a w = Inr (rc, w') \<longrightarrow> w_list w' = w_list w2 \<and> get_process proc w' = Inr pr2)"
proof -
  from ht_okD(4) [OF tbl(1)] tbl(2) have tot: "ht_total (pr_threads_htable pr) = 3"
    by (simp add: ht_bag_def flip: size_mset)
  from kheap.remove_ok [OF tbl(1,3,4,5), of a] tot obtain rc t h where
    rm: "htable_remove liballoc_subsystem (thread_key_at w) (pr_threads_htable pr) a (w_heap w) = Inr ((rc, t), h)"
      "ht_ok t" "ht_bag t = {#b, c#}" using tbl(2) by auto
  have rc: "rc = 0" using rm(1) tot by (auto simp: htable_remove_def bindR_Inr_iff split: option.splits if_splits)
  have "ht_total t = 2" using rm(3) ht_okD(4) [OF rm(2)] by (simp add: ht_bag_def flip: size_mset)
  with delete_first_ok [OF th pr tree, of t h fuel] rm(1) rc obtain w2 where
    w2: "delete_thread fuel a w = bindR (free_thread_memory proc a w2) (\<lambda>w3. Inr (0, w3))"
      "dls (w_list w2) None [c, b] None" "get_process proc w2 = Inr (pr\<lparr>pr_threads_htable := t, pr_threads := Some b,
         pr_thread_count := s32 (pr_thread_count pr - 1)\<rparr>)" by auto
  have "w_list w' = w_list w2 \<and> get_process proc w' = get_process proc w2"
    if "delete_thread fuel a w = Inr (rc', w')" for rc' w'
    using that unfolding w2(1) by (auto simp: bindR_Inr_iff dest: free_thread_memory_keeps)
  with w2 rm(3) show ?thesis by (intro exI [of _ w2] exI conjI) auto
qed

text \<open>The example: the thread at 4408 has created those at 650 and 700.\<close>

definition demo_first_thread :: thread where
  "demo_first_thread = (sample_thread 1)\<lparr>t_process := 1000, t_ports := replicate MAX_PORTS (-1), t_stack_kernel := 24576,
     t_stack_user := 0x8000B000, t_math := Some 24576, t_tls := Some 28672\<rparr>"

definition demo_thread_table :: htable where
  "demo_thread_table = \<lparr>ht_self = 4148, ht_total = 3, ht_size = 4, ht_percent = 75, ht_array = 4276,
     ht_table = [Some 4408, Some 650, Some 700, None]\<rparr>"

definition demo_eight_heap :: "physmem liballoc" where
  "demo_eight_heap = demo_user_heap\<lparr>l_sys := demo_user_phys\<lparr>memory_bitmap := [255], s_freePages := 0\<rparr>\<rparr>"

definition demo_three :: world where
  "demo_three = put_process 1000 (demo_user_process\<lparr>pr_threads := Some 4408, pr_thread_count := 3, pr_threads_htable := demo_thread_table\<rparr>)
     (put_thread_at 4408 demo_first_thread (put_heap demo_eight_heap
     (demo_user\<lparr>w_list := [4408 \<mapsto> \<lparr>l_object = 4408, l_prev = None, l_next = Some 700\<rparr>,
         700 \<mapsto> \<lparr>l_object = 700, l_prev = Some 4408, l_next = Some 650\<rparr>, 650 \<mapsto> \<lparr>l_object = 650, l_prev = Some 700, l_next = None\<rparr>],
       w_family := [4408 \<mapsto> \<lparr>f_object = 4408, f_parent = None, f_child = Some 700, f_prev = None, f_next = None\<rparr>,
         650 \<mapsto> \<lparr>f_object = 650, f_parent = Some 4408, f_child = None, f_prev = Some 700, f_next = None\<rparr>,
         700 \<mapsto> \<lparr>f_object = 700, f_parent = Some 4408, f_child = None, f_prev = None, f_next = Some 650\<rparr>]\<rparr>)))"

lemma demo_three_sel [simp]:
  "get_thread_at 4408 demo_three = Inr demo_first_thread"
  "get_process 1000 demo_three = Inr (demo_user_process\<lparr>pr_threads := Some 4408, pr_thread_count := 3, pr_threads_htable := demo_thread_table\<rparr>)"
  "w_heap demo_three = demo_eight_heap" "w_mem demo_three = (\<lambda>_. 0)" "three_threads demo_three 4408 650 700"
  by (simp_all add: demo_three_def world_defs put_thread_at_def get_thread_at_def put_thr_def get_thr_def put_tr_def get_tr_def three_threads_def demo_user_def)

lemma demo_three_keys: "small_keys (thread_key_at demo_three)"
  by (simp add: small_keys_def thread_key_at_def demo_three_def world_defs put_thread_at_def put_thr_def put_tr_def demo_user_def
     threads_key_def demo_first_thread_def sample_thread_def)

lemma demo_eight_owned: "x < 32768 \<Longrightarrow> x \<in> phys_owned (l_sys demo_eight_heap)"
proof -
  assume x: "x < 32768"
  then have "x div 4096 < 8" by simp
  then consider "x div 4096 = 0" | "x div 4096 = 1" | "x div 4096 = 2" | "x div 4096 = 3" | "x div 4096 = 4"
    | "x div 4096 = 5" | "x div 4096 = 6" | "x div 4096 = 7" by linarith
  then have "used (l_sys demo_eight_heap) (x div 4096)"
    by cases (simp_all add: used_def demo_eight_heap_def demo_user_phys_def demo_mem_def BLOCK_BITS_def)
  with x show ?thesis by (simp add: phys_owned_iff demo_eight_heap_def demo_user_phys_def demo_mem_def PAGE_SIZE_def)
qed

lemma demo_eight_ok: "framed_heap_ok (bytes 16384 16384) demo_eight_heap"
proof -
  have p: "phys_ready (l_sys demo_eight_heap)"
    by (simp add: phys_ready_def physmem_ok_def null_reserved_def card_free_set demo_eight_heap_def demo_user_phys_def demo_mem_def used_def
          BLOCK_BITS_def PAGE_SIZE_def upt_rec)
  have o: "maj_bytes demo_user_major \<subseteq> phys_owned (l_sys demo_eight_heap) - bytes 16384 16384"
    "bytes 16384 16384 \<subseteq> phys_owned (l_sys demo_eight_heap)"
    by (auto simp: maj_bytes_def demo_user_major_def bytes_def intro: demo_eight_owned)
  have "la_wf demo_eight_heap"
    using memory_okD(4) [OF demo_user_ok] framed_heapD(4) [of _ demo_user_heap] by (simp add: demo_eight_heap_def la_wf_def)
  then show ?thesis
    using p o by (simp add: la_ok_def framed_ready_def framed_owned_def)
     (simp add: demo_eight_heap_def demo_user_heap_def liballoc_initial_def)
qed

lemma demo_eight_live: "live demo_eight_heap 4148 \<noteq> None" "live demo_eight_heap 4276 \<noteq> None" "live demo_eight_heap 4408 \<noteq> None"
    by (simp_all add: live_def demo_eight_heap_def demo_user_heap_def demo_user_major_def user_ptr_def ALIGN_def la_consts liballoc_initial_def)

lemma map_out_none:
  "mm_mem s = (\<lambda>_. 0) \<Longrightarrow> \<exists>s'. map_out_loop iv dir a k s = Inr s' \<and> mm_phys s' = mm_phys s"
proof (induction k arbitrary: s a)
  case (Suc k)
  have "page_entry_present (\<lambda>_. 0) dir a \<noteq> 0"
    using zero_directory(4) [of dir a] by (auto simp: vmap_def split: if_splits)
  with Suc.IH [of "invlpg iv a s"] Suc.prems show ?case by simp
qed simp

lemma demo_free_thread:
  assumes w: "get_thread_at 4408 w = Inr demo_first_thread" "get_process 1000 w = Inr pr" "pr_map pr = Some 8192"
    "w_heap w = demo_eight_heap" "w_mem w = (\<lambda>_. 0)"
  shows "\<exists>w'. free_thread_memory 1000 4408 w = Inr w'"
proof -
  have sub: "bytes 16384 8192 \<subseteq> bytes 16384 16384" "bytes 24576 4096 \<subseteq> bytes 16384 16384 - bytes 16384 8192"
    "bytes 28672 4096 \<subseteq> bytes 16384 16384 - bytes 16384 8192 - bytes 24576 4096" by (auto simp: bytes_def)
  obtain p1 where p1: "w_memory_free 2 16384 w = Inr (put_heap ((w_heap w)\<lparr>l_sys := p1\<rparr>) w)"
    "framed_heap_ok (bytes 16384 16384 - bytes 16384 (2 * 4096)) ((w_heap w)\<lparr>l_sys := p1\<rparr>)"
    by (rule frame_free [of "bytes 16384 16384" w 2 16384]) (use demo_eight_ok w(4) sub(1) in auto)
  define w1 where "w1 = put_heap ((w_heap w)\<lparr>l_sys := p1\<rparr>) w"
  from map_out_none [of "mmu_of w1" "w_cr3 w1 = 8192" 8192 "0x80001000" 10] w(5) obtain s' where
    s': "map_out_loop (w_cr3 w1 = 8192) 8192 0x80001000 10 (mmu_of w1) = Inr s'" "mm_phys s' = mm_phys (mmu_of w1)" 
    by (auto simp: w1_def)
  define w2 where "w2 = put_mmu s' w1"
  have h2: "w_heap w2 = w_heap w1" using s'(2) by (simp add: w2_def)
  then have f2: "framed_heap_ok (bytes 16384 16384 - bytes 16384 8192) (w_heap w2)" using p1(2) by (simp add: w1_def)
  obtain p3 where p3: "w_memory_free 1 24576 w2 = Inr (put_heap ((w_heap w2)\<lparr>l_sys := p3\<rparr>) w2)"
    "framed_heap_ok (bytes 16384 16384 - bytes 16384 8192 - bytes 24576 (1 * 4096)) ((w_heap w2)\<lparr>l_sys := p3\<rparr>)"
    by (rule frame_free [OF f2, of 1 24576]) (use sub(2) in auto)
  define w3 where "w3 = put_heap ((w_heap w2)\<lparr>l_sys := p3\<rparr>) w2"
  have f3: "framed_heap_ok (bytes 16384 16384 - bytes 16384 8192 - bytes 24576 4096) (w_heap w3)" 
    using p3(2) by (simp add: w3_def)
  obtain p4 where p4: "w_memory_free 1 28672 w3 = Inr (put_heap ((w_heap w3)\<lparr>l_sys := p4\<rparr>) w3)"
    "framed_heap_ok (bytes 16384 16384 - bytes 16384 8192 - bytes 24576 4096 - bytes 28672 (1 * 4096)) ((w_heap w3)\<lparr>l_sys := p4\<rparr>)"
    by (rule frame_free [OF f3, of 1 28672]) (use sub(3) in auto)
  have "live ((w_heap w3)\<lparr>l_sys := p4\<rparr>) 4408 \<noteq> None"
    using demo_eight_live(3) w(4) h2 by (simp add: live_def w3_def w1_def)
  then obtain n where "live ((w_heap w3)\<lparr>l_sys := p4\<rparr>) 4408 = Some n" by blast
  from fheap.free_live [OF p4(2) this] obtain h where
    k: "kfree liballoc_subsystem (Some 4408) ((w_heap w3)\<lparr>l_sys := p4\<rparr>) = Inr h" by blast
  have m: "on_map (\<lambda>dir. page_map_out dir 0x80001000 10) pr w1 = Inr (0, w2)"
    using s'(1) w(3) by (simp add: on_map_def page_map_out_def w2_def)
  have "t_stack_kernel demo_first_thread = 24576" "t_stack_user demo_first_thread = 0x8000B000"
    "t_math demo_first_thread = Some 24576" "t_tls demo_first_thread = Some 28672"
    by (simp_all add: demo_first_thread_def)
  with p1(1) m p3(1) p4(1) k show ?thesis
    unfolding w1_def [symmetric] w3_def [symmetric]
    by (simp add: free_thread_memory_def w(1,2) sK_PAGES_KERNEL_def sK_PAGES_THREAD_def PAGE_SIZE_def address_def w_kfree_def sub32_def u32_def)
qed

theorem delete_first_thread_loses_witness:
  "\<exists>w' pr'. delete_thread 0 4408 demo_three = Inr (0, w') \<and> dls (w_list w') None [700, 650] None
     \<and> get_process 1000 w' = Inr pr' \<and> ht_bag (pr_threads_htable pr') = {#650, 700#} \<and> pr_threads pr' = Some 650"
proof -
  let ?pr = "demo_user_process\<lparr>pr_threads := Some 4408, pr_thread_count := 3, pr_threads_htable := demo_thread_table\<rparr>"
  let ?t = "demo_thread_table\<lparr>ht_total := 2, ht_table := [None, Some 650, Some 700, None]\<rparr>"
  have th: "t_process demo_first_thread = 1000" "(1000 :: nat) \<noteq> 0" "t_ports demo_first_thread \<noteq> []"
    "t_ports demo_first_thread ! 0 = -1" "pr_threads ?pr = Some 4408" "pr_threads_htable ?pr = demo_thread_table"
    by (simp_all add: demo_first_thread_def MAX_PORTS_def)
  have tb: "ht_ok demo_thread_table" "ht_bag demo_thread_table = {#4408, 650, 700#}" "ht_live (live demo_eight_heap) demo_thread_table"
    using demo_eight_live by (simp_all add: ht_ok_def demo_thread_table_def ht_bag_def entries_def ht_live_def)
  have key: "thread_key_at demo_three 4408 = threads_key demo_first_thread"
    by (simp add: thread_key_at_def demo_three_def put_thread_at_def put_thr_def put_tr_def world_defs)
  have rm: "htable_remove liballoc_subsystem (thread_key_at demo_three) demo_thread_table 4408 demo_eight_heap = Inr ((0, ?t), demo_eight_heap)"
  proof -
    have p: "probe demo_thread_table (\<lambda>e. e = Some 4408) 100 0 4 = Inr (Some 0)"
      by (simp add: demo_thread_table_def c_rem_def s32_def aget_def probe.simps(2) [of _ _ _ _ 3, simplified])
    have "abs_key (threads_key demo_first_thread) = 100"
      by (simp add: demo_first_thread_def threads_key_def sample_thread_def abs_key_def s32_def)
    then show ?thesis using p
      by (simp add: htable_remove_def key) (simp add: demo_thread_table_def c_div_def s32_def)
  qed
  from delete_first_ok [OF demo_three_sel(1) th(1-4) demo_three_sel(2) th(5) demo_three_sel(5), of ?t demo_eight_heap 0] rm
  obtain w2 where w2: "delete_thread 0 4408 demo_three = bindR (free_thread_memory 1000 4408 w2) (\<lambda>w3. Inr (0, w3))"
    "w_heap w2 = demo_eight_heap" "w_mem w2 = (\<lambda>_. 0)" "get_thread_at 4408 w2 = Inr demo_first_thread"
    "\<exists>pr. get_process 1000 w2 = Inr pr \<and> pr_map pr = Some 8192" by auto
  then obtain w' where "delete_thread 0 4408 demo_three = Inr (0, w')" using demo_free_thread by fastforce
  moreover have "kernel_heap_ok demo_eight_heap" by (rule framed_kernel [OF demo_eight_ok])
  ultimately show ?thesis
    using delete_first_thread_loses [OF demo_three_sel(1) th(1-4) demo_three_sel(2) th(5) demo_three_sel(5), of 0]
      tb th(6) demo_three_keys by auto
qed

end
