(* ===== verification/Spec2Isabelle.thy ===== *)
theory Spec2Isabelle
  imports Prelude Physmem Strings Gc_Queue Mm Liballoc Liballoc_Heap Iqueue Rwlock Htable Aqueue
    Ds_List Ds_Family Smk_Err Env Thread Scheduler Scheduler_Queues Scheduler_Props Process Ipc Ipc_Props
    Paging_Props Vmem_Props Puts Dmesg Irq_Props Kalloc_Props Ptable_Props Ualloc_Props Process_Life_Props
    Heap_Leaks Thread_Delete
begin

text \<open>
  A verification of the spoon microkernel (\<^verbatim>\<open>src/kernel\<close>, with \<^verbatim>\<open>src/libsmk\<close> as far as the kernel links
  it).

  \<^bold>\<open>The program.\<close> The kernel boots on one or more x86 CPUs. It hands out physical pages from a bitmap
  and cuts them into a heap (\<^verbatim>\<open>mm/\<close>). On the heap stand the shared data structures (\<^verbatim>\<open>ds/\<close>): hash
  tables of processes and threads, the family tree and the linked lists that connect them,
  reader-writer locks, integer and object queues. Processes have threads, environment variables and
  1024 ports; threads send messages and pulses to ports (\<^verbatim>\<open>ipc/\<close>), which wakes the owner of the port
  through its CPU's scheduler (\<^verbatim>\<open>scheduler/\<close>). A process has an address space (\<^verbatim>\<open>paging.c\<close>) and blocks of
  memory in it (\<^verbatim>\<open>ualloc.c\<close>); two more allocators stand beside the heap, arenas of addresses and slabs of
  equal objects (\<^verbatim>\<open>mm/vmem.c\<close>, \<^verbatim>\<open>mm/kmem_cache.c\<close>). Threads can handle interrupt requests (\<^verbatim>\<open>irq.c\<close>).
  Finished threads and processes are queued for the garbage collector of a CPU (\<^verbatim>\<open>gc.c\<close>).

  \<^bold>\<open>The theories\<close>, in the order of their dependencies, with the code they model:

  \<^item> \<open>Prelude\<close>: results of kernel routines (\<open>kres\<close>: a failed assertion, a wild access and an endless loop
    are values), arrays, 32-bit arithmetic, circular buffers, and the contracts \<open>page_provider\<close> and
    \<open>bounded_fifo\<close>.
  \<^item> \<open>Physmem\<close>: \<^verbatim>\<open>mm/physmem.c\<close>, the page bitmap. \<open>Mm\<close>: \<^verbatim>\<open>mm/mm.c\<close> and the contract \<open>kernel_heap\<close> of an
    allocator. \<open>Liballoc\<close> and \<open>Liballoc_Heap\<close>: \<^verbatim>\<open>mm/liballoc.c\<close> and its hooks, and the proof that the
    allocator fulfils \<open>kernel_heap\<close> on the pages of \<open>Physmem\<close>. \<open>Heap_Leaks\<close>: no call of the heap changes
    which of the pages in use lie outside it.
  \<^item> \<open>Strings\<close>: \<^verbatim>\<open>libsmk/strings.c\<close>. \<open>Smk_Err\<close>: the error codes.
  \<^item> \<open>Gc_Queue\<close>: the work list of \<^verbatim>\<open>gc.c\<close>. \<open>Iqueue\<close>, \<open>Aqueue\<close>, \<open>Htable\<close>, \<open>Ds_List\<close>, \<open>Ds_Family\<close>, \<open>Rwlock\<close>: the files
    of \<^verbatim>\<open>ds/\<close>.
  \<^item> \<open>Env\<close>: \<^verbatim>\<open>env.c\<close>. \<open>Thread\<close>, \<open>Process\<close>: the control blocks of \<^verbatim>\<open>processes/\<close> and the lookup of threads.
  \<^item> \<open>Scheduler\<close>, \<open>Scheduler_Queues\<close>, \<open>Scheduler_Props\<close>: \<^verbatim>\<open>scheduler/scheduler.c\<close>, \<^verbatim>\<open>set_thread_state\<close> and
    \<^verbatim>\<open>exec_thread\<close> of \<^verbatim>\<open>threads.c\<close>, \<^verbatim>\<open>stats.c\<close>.
  \<^item> \<open>Ipc\<close>, \<open>Ipc_Props\<close>: \<^verbatim>\<open>ipc/ports.c\<close>, \<^verbatim>\<open>messages.c\<close>, \<^verbatim>\<open>pulse.c\<close>.
  \<^item> \<open>Paging\<close>, \<open>Paging_Tables\<close>, \<open>Paging_Props\<close>: \<^verbatim>\<open>paging.c\<close>, page tables as words in memory.
  \<^item> \<open>Vmem\<close>, \<open>Vmem_Arena\<close>, \<open>Vmem_Props\<close>: \<^verbatim>\<open>mm/vmem.c\<close>. \<open>Kmem_cache\<close>, \<open>Kmem_Props\<close>, \<open>Kalloc_Props\<close>:
    \<^verbatim>\<open>mm/kmem_cache.c\<close> and the size classes of \<^verbatim>\<open>mm/kalloc.c\<close>.
  \<^item> \<open>Puts\<close>, \<open>Dmesg\<close>: the console and the kernel's messages. \<open>Irq\<close>, \<open>Irq_Props\<close>: the handlers of interrupt
    requests and the IO-APIC.
  \<^item> \<open>Rwlock_Solo\<close>: the reader-writer lock as one caller sees it. \<open>World\<close>: the state that process management
    works on. \<open>Ptable\<close>, \<open>Ptable_Props\<close>: the process table of \<^verbatim>\<open>processes/process.c\<close>.
  \<^item> \<open>Framed_Heap\<close>: the heap beside the page tables, on one page allocator. \<open>Ualloc\<close>, \<open>Ualloc_Props\<close>: \<^verbatim>\<open>ualloc.c\<close>.
  \<^item> \<open>Threads\<close>: creation and deletion of threads (\<^verbatim>\<open>processes/threads.c\<close>). \<open>Process_Life\<close>, \<open>Process_Life_Props\<close>:
    creation and deletion of processes, and the garbage collector's thread. \<open>Thread_Delete\<close>: the deletion
    of the first thread of a process, run as a whole.

  \<^bold>\<open>State and operations.\<close> A C structure is a record with its fields, an array a list, a pointer to a
  heap block its address; a table from addresses stands for the objects that several structures point
  to (threads, processes, nodes of lists and trees). An operation is a function that takes the state and
  returns its result and the new state, or the way in which it does not return. A routine that
  allocates takes the memory interface as an argument, as the code calls it through function pointers.
  The spinlock that protects an operation is held for the whole of it; only the reader-writer lock, which
  is about interleaving, is modelled as a transition system of single memory accesses.

  \<^bold>\<open>What is shown.\<close> The page allocator and the heap hand out fresh, disjoint, aligned blocks and keep
  their bookkeeping consistent; allocation and release are inverse, and growing a block copies what
  can be read of the old one before it is freed. On every allocator that
  fulfils \<open>kernel_heap\<close> the hash table is a multiset of entries, the queues are first-in first-out, the
  environment is a map from names to values, and what they own stays live until they release it. The
  lists and trees refine lists of nodes. A writer excludes every other
  holder of a reader-writer lock in every execution in which the 32-bit reader count cannot wrap.
  The scheduler's operations refine operations on the run queue and on the sorted list of paused
  threads; selection is round robin and fair. Receiving takes the oldest message. The paging routines
  change exactly the mappings they are asked for and keep directories well-formed; arenas and slabs
  hand out disjoint ranges and objects, and a range that is freed melts with its free neighbours. Changing
  or releasing an interrupt handler frees exactly the old one. Insertion into and removal from the process table keep table,
  list and tree consistent. The blocks of user memory, the page tables and the heap stay disjoint, and
  releasing a block, or all memory of a process, gives back exactly the frames that the blocks own; an
  allocation that fails leaves no frame behind. Several theorems show what
  the code does wrong, such as that no message ever arrives, that the address \<^verbatim>\<open>user_alloc\<close> hands out is
  unknown to \<^verbatim>\<open>user_free\<close>, that the deletion of a process's first thread loses the head of the list, or
  that the garbage collector keeps its locks when a thread is gone.

  \<^bold>\<open>Bounds and fuel.\<close> Requests to the heap are below \<open>MAX_REQUEST\<close>, so that sizes with headers are 32-bit
  numbers. The search of \<^verbatim>\<open>la_malloc\<close> visits every major block at most twice, and one new block:
  \<open>2 n + 3\<close> rounds for \<open>n\<close> blocks, and \<open>kmalloc_correct\<close> shows that they are enough. \<^verbatim>\<open>htable_insert\<close> and
  \<^verbatim>\<open>htable_rehash\<close> nest at most 32 deep, since the table doubles. The draining loops of \<^verbatim>\<open>release_port\<close>
  take fuel; the theorem about them holds for every positive amount. Walks along lists and trees of
  processes and threads have one round for every entry of the hash table that holds them, walks along
  descriptors of user memory one for every block of the heap. How often the collector has to wait for
  the threads of a process is up to them: the number of rounds is a parameter, as is what they do.

  \<^bold>\<open>Not modelled.\<close> Processor and device programming (local APIC, PCI, FPU, TSS, GDT, interrupt and
  exception vectors, port I/O), boot code and assembler, the dispatch of system calls, the wrappers of
  libsmk around them, and user programs: they are sequences of hardware accesses or forwards. Shared
  memory (\<^verbatim>\<open>shmem.c\<close>) is not modelled yet; it rests on the process table, user memory and paging. The
  creation and deletion of processes and threads is modelled as a whole, but only parts of it have
  theorems: numbers, start frame, tree and list, and the collector's locks.
\<close>

end
